(* ===== verification/Prelude.thy ===== *)
theory Prelude
  imports Complex_Main "HOL-Library.Word" "HOL-Library.Multiset"
    "HOL-Library.Code_Target_Numeral"
begin

text \<open>
  Shared vocabulary of the development: the C integer types, \<open>size_t\<close> arithmetic with its
  wrap-around written out, the ring-buffer arithmetic of power-of-two tables, double rounding,
  and the list, option and multiset lemmas that several components use.
\<close>

unbundle bit_operations_syntax

section \<open>Named collections\<close>

named_theorems sz_simps \<open>size_t arithmetic under range side conditions\<close>
named_theorems count_upd \<open>counting lemmas for a list updated at one index\<close>

section \<open>C types\<close>

type_synonym u8 = "8 word"
type_synonym u16 = "16 word"
type_synonym u32 = "32 word"
type_synonym u64 = "64 word"

text \<open>
  Object sizes and array indices (\<open>size_t\<close>, 64 bits) are natural numbers below \<open>2 ^ 64\<close>;
  addition and subtraction wrap as they do in C.
\<close>

definition SIZE_MAX :: nat where
  "SIZE_MAX = 2 ^ 64 - 1"

definition UINT32_MAX :: nat where
  "UINT32_MAX = 2 ^ 32 - 1"

text \<open>One call of \<open>malloc\<close> or \<open>calloc\<close>: whether it succeeds.\<close>

definition take_alloc :: "bool list \<Rightarrow> bool \<times> bool list" where
  "take_alloc as = (case as of [] \<Rightarrow> (True, []) | a # as' \<Rightarrow> (a, as'))"

definition sz_add :: "nat \<Rightarrow> nat \<Rightarrow> nat" where
  "sz_add a b = (a + b) mod 2 ^ 64"

definition sz_sub :: "nat \<Rightarrow> nat \<Rightarrow> nat" where
  "sz_sub a b = (a + 2 ^ 64 - b mod 2 ^ 64) mod 2 ^ 64"

definition sz_mul :: "nat \<Rightarrow> nat \<Rightarrow> nat" where
  "sz_mul a b = (a * b) mod 2 ^ 64"

text \<open>A \<open>uint16_t\<close> incremented by one.\<close>

definition inc16 :: "nat \<Rightarrow> nat" where
  "inc16 d = (d + 1) mod 65536"

text \<open>The index mask of a table whose capacity is a power of two: \<open>x & (cap - 1)\<close>.\<close>

definition wrap :: "nat \<Rightarrow> nat \<Rightarrow> nat" where
  "wrap cap x = x AND (cap - 1)"

section \<open>Doubles\<close>

text \<open>
  Finite doubles are rationals. Every operation rounds its exact result to 53 significant
  bits, ties to even (the IEEE default; the values in this code base stay in the normal
  range, so no subnormal or infinite result arises).
\<close>

fun bit_len :: "nat \<Rightarrow> nat" where
  "bit_len n = (if n = 0 then 0 else Suc (bit_len (n div 2)))"

declare bit_len.simps [simp del]

definition pow2r :: "int \<Rightarrow> rat" where
  "pow2r e = (if 0 \<le> e then 2 ^ nat e else 1 / 2 ^ nat (- e))"

definition round_even :: "rat \<Rightarrow> int" where
  "round_even q =
     (let f = \<lfloor>q\<rfloor>; r = q - of_int f
      in if r < 1 / 2 then f else if r > 1 / 2 then f + 1 else if even f then f else f + 1)"

definition dround :: "rat \<Rightarrow> rat" where
  "dround q =
     (if q = 0 then 0
      else let (n, d) = quotient_of \<bar>q\<bar>;
               e0 = int (bit_len (nat n)) - int (bit_len (nat d)) - 53;
               e = (if pow2r 53 \<le> \<bar>q\<bar> / pow2r e0 then e0 + 1 else e0)
           in sgn q * of_int (round_even (\<bar>q\<bar> / pow2r e)) * pow2r e)"

section \<open>Arithmetic lemmas\<close>

lemma sz_add_small [sz_simps]: "a + b < 2 ^ 64 \<Longrightarrow> sz_add a b = a + b"
  by (simp add: sz_add_def)

lemma sz_sub_small [sz_simps]:
  assumes "b \<le> a" "a < 2 ^ 64"
  shows "sz_sub a b = a - b"
proof -
  have "a + 2 ^ 64 - b mod 2 ^ 64 = (a - b) + 2 ^ 64" using assms by auto
  then show ?thesis using assms by (simp only: sz_sub_def mod_add_self2) simp
qed

lemma sz_mul_small [sz_simps]: "a * b < 2 ^ 64 \<Longrightarrow> sz_mul a b = a * b"
  by (simp add: sz_mul_def)

lemma inc16_small: "d + 1 < 65536 \<Longrightarrow> inc16 d = d + 1"
  by (simp add: inc16_def)

lemma inc16_less [simp]: "inc16 d < 65536"
  by (simp add: inc16_def)

lemma wrap_mod: "wrap (2 ^ m) x = x mod 2 ^ m"
  by (simp add: wrap_def take_bit_eq_mask mask_eq_exp_minus_1 flip: take_bit_eq_mod)

lemma mod_add_cancel:
  fixes n :: nat
  assumes "i < n" "j < n" "(a + i) mod n = (a + j) mod n"
  shows "i = j"
proof -
  have "(int a + int i) mod int n = (int a + int j) mod int n"
    using assms(3) by (metis of_nat_add of_nat_mod)
  then have "int i mod int n = int j mod int n"
    by (metis add_diff_cancel_left' mod_diff_left_eq)
  then show ?thesis using assms by (simp flip: of_nat_mod)
qed

lemma mod_reach:
  fixes n :: nat
  assumes "a < n" "e < n"
  obtains r where "r < n" "(a + r) mod n = e"
proof
  have "(a + (e + n - a) mod n) mod n = (a + (e + n - a)) mod n" by (rule mod_add_right_eq)
  also have "\<dots> = e" using assms by simp
  finally show "(a + (e + n - a) mod n) mod n = e" .
qed (use assms in simp)

lemma mod_sub_same:
  fixes n :: nat
  assumes "(a + x) mod n = (b + y) mod n" "k \<le> x" "k \<le> y"
  shows "(a + (x - k)) mod n = (b + (y - k)) mod n"
proof -
  have "(int a + int x - int k) mod int n = (int b + int y - int k) mod int n"
    using assms(1) by (metis mod_diff_left_eq of_nat_add of_nat_mod)
  then have "int ((a + (x - k)) mod n) = int ((b + (y - k)) mod n)"
    using assms(2,3) by (simp add: of_nat_mod of_nat_diff algebra_simps)
  then show ?thesis by simp
qed

lemma mod_shift: "(a + x) mod n = (b::nat) \<Longrightarrow> (a + (x + y)) mod n = (b + y) mod n"
  by (metis add.assoc mod_add_left_eq)

lemma unat_pow2_u64: "k < 64 \<Longrightarrow> unat (2 ^ k :: u64) = 2 ^ k"
proof -
  assume k: "k < 64"
  have "unat (word_of_nat (2 ^ k) :: u64) = take_bit 64 (2 ^ k)"
    by (simp only: unsigned_of_nat) simp
  also have "\<dots> = 2 ^ k" using k by (simp add: take_bit_nat_eq_self)
  finally show ?thesis by simp
qed

section \<open>Lists updated at one index\<close>

lemma length_filter_update [count_upd]:
  "i < length xs \<Longrightarrow>
    length (filter P (xs[i := x])) + of_bool (P (xs ! i)) = length (filter P xs) + of_bool (P x)"
proof (induction xs arbitrary: i)
  case (Cons y ys)
  then show ?case by (cases i) auto
qed simp

lemma mset_filter_update [count_upd]:
  assumes "i < length zs"
  shows "mset (map f (filter P (zs[i := z]))) + (if P (zs ! i) then {#f (zs ! i)#} else {#}) =
    mset (map f (filter P zs)) + (if P z then {#f z#} else {#})"
proof -
  have zs: "zs = take i zs @ zs ! i # drop (Suc i) zs"
    using assms by (rule id_take_nth_drop)
  show ?thesis
    using assms by (subst (3) zs) (simp add: upd_conv_take_nth_drop)
qed

lemma nth_list_update_if: "i < length xs \<Longrightarrow> xs[i := x] ! j = (if i = j then x else xs ! j)"
  by simp

section \<open>Searching an index range\<close>

lemma find_upt_None: "find P [0..<n] = None \<longleftrightarrow> (\<forall>i < n. \<not> P i)"
  by (auto simp: find_None_iff)

lemma find_upt_Some: "find P [0..<n] = Some i \<Longrightarrow> i < n \<and> P i \<and> (\<forall>j < i. \<not> P j)"
  by (auto simp: find_Some_iff)

section \<open>Words as numbers\<close>

lemma unat_word_of_nat:
  "n < 2 ^ 64 \<Longrightarrow> unat (word_of_nat n :: u64) = n"
  "n < 2 ^ 32 \<Longrightarrow> unat (word_of_nat n :: u32) = n"
  "n < 2 ^ 16 \<Longrightarrow> unat (word_of_nat n :: u16) = n"
  by (simp_all add: unsigned_of_nat take_bit_nat_eq_self)

lemma unat_bounds:
  "unat (w64 :: u64) < 2 ^ 64" "unat (w32 :: u32) < 2 ^ 32" "unat (w16 :: u16) < 2 ^ 16" "unat (w8 :: u8) < 2 ^ 8"
  using unsigned_less [of w64, where ?'a = nat] unsigned_less [of w32, where ?'a = nat] unsigned_less [of w16, where ?'a = nat]
    unsigned_less [of w8, where ?'a = nat] by simp_all

lemma distinct_subseteq: "distinct xs \<Longrightarrow> set xs \<subseteq> set_mset M \<Longrightarrow> mset xs \<subseteq># M"
  by (auto simp: subseteq_mset_def distinct_count_atmost_1 Suc_le_eq)

section \<open>Rounding to a double\<close>

lemma bit_len_bounds: "0 < n \<Longrightarrow> 2 ^ bit_len n \<le> 2 * n \<and> n < 2 ^ bit_len n"
proof (induction n rule: bit_len.induct)
  case (1 n)
  then show ?case
  proof (cases "n = 1")
    case False
    then have "0 < n div 2" using 1(2) by auto
    then have "2 ^ bit_len (n div 2) \<le> 2 * (n div 2) \<and> n div 2 < 2 ^ bit_len (n div 2)" using 1 by auto
    moreover have "bit_len n = Suc (bit_len (n div 2))" using 1(2) by (subst bit_len.simps) simp
    moreover have "n = 2 * (n div 2) \<or> n = 2 * (n div 2) + 1" by auto
    ultimately show ?thesis by (elim disjE) auto
  qed (simp add: bit_len.simps)
qed

lemma pow2r_powi: "pow2r e = 2 powi e"
  by (simp add: pow2r_def power_int_def inverse_eq_divide power_one_over)

lemma round_even_near: "of_int (round_even q) \<le> q + 1 / 2 \<and> q - 1 / 2 \<le> of_int (round_even q)"
proof -
  define f where "f = (of_int \<lfloor>q\<rfloor> :: rat)"
  have "f \<le> q" "q < f + 1" unfolding f_def by linarith+
  then have "of_int (round_even q) = f \<and> q - f \<le> 1 / 2 \<or> of_int (round_even q) = f + 1 \<and> 1 / 2 \<le> q - f"
    unfolding round_even_def Let_def f_def by auto
  then show ?thesis using \<open>f \<le> q\<close> \<open>q < f + 1\<close> by linarith
qed

lemma dround_near:
  assumes "0 < q"
  shows "dround q \<le> q * (1001 / 1000)" "q * (999 / 1000) \<le> dround q"
proof -
  obtain n d where nd: "quotient_of q = (n, d)" by fastforce
  then have q: "q = of_int n / of_int d" "0 < d" using quotient_of_div quotient_of_denom_pos by blast+
  then have n: "0 < n" using assms by (simp add: zero_less_divide_iff)
  define a where "a = bit_len (nat n)"
  define b where "b = bit_len (nat d)"
  define e0 where "e0 = int a - int b - 53"
  define e where "e = (if pow2r 53 \<le> q / pow2r e0 then e0 + 1 else e0)"
  define x where "x = q / pow2r e"
  have dq: "dround q = of_int (round_even x) * pow2r e"
    using assms nd by (simp add: dround_def Let_def a_def b_def e0_def e_def x_def)
  have pos: "0 < pow2r e" "0 < pow2r e0" by (simp_all add: pow2r_powi)
  have "(2::nat) ^ a \<le> 2 * nat n" "nat d < 2 ^ b"
    using bit_len_bounds [of "nat n"] bit_len_bounds [of "nat d"] n q(2) unfolding a_def b_def by linarith+
  then have "(of_nat (2 ^ a) :: rat) \<le> of_nat (2 * nat n)" "(of_nat (nat d) :: rat) < of_nat (2 ^ b)"
    by (simp_all only: of_nat_le_iff of_nat_less_iff)
  then have A: "2 ^ a \<le> 2 * (of_int n :: rat)" and B: "of_int d < (2 ^ b :: rat)" using n q(2) by simp_all
  have "2 ^ a / 2 ^ b \<le> 2 * (of_int n / of_int d :: rat)"
  proof -
    have "2 ^ a / 2 ^ b \<le> 2 * (of_int n :: rat) / 2 ^ b" using A by (simp add: divide_right_mono)
    also have "\<dots> \<le> 2 * of_int n / of_int d" using B n q(2) by (intro divide_left_mono) auto
    finally show ?thesis by simp
  qed
  moreover have "pow2r e0 * 2 ^ 53 = 2 ^ a / 2 ^ b"
    by (simp add: pow2r_powi e0_def power_int_diff)
  ultimately have "2 ^ 52 * pow2r e0 \<le> q" using q(1) by simp
  then have l0: "2 ^ 52 \<le> q / pow2r e0" using pos(2) by (simp add: pos_le_divide_eq)
  have "2 ^ 52 \<le> x"
  proof (cases "pow2r 53 \<le> q / pow2r e0")
    case True
    then have "x = q / pow2r e0 / 2" using pos by (simp add: x_def e_def pow2r_powi power_int_add)
    then show ?thesis using True by (simp add: pow2r_def)
  qed (use l0 in \<open>simp add: x_def e_def\<close>)
  then have x: "1000 \<le> x" by simp
  have qx: "q = x * pow2r e" using pos(1) by (simp add: x_def)
  have r: "of_int (round_even x) \<le> x * (1001 / 1000)" "x * (999 / 1000) \<le> of_int (round_even x)"
    using round_even_near [of x] x by (simp_all add: field_simps)
  have "dround q \<le> x * (1001 / 1000) * pow2r e" "x * (999 / 1000) * pow2r e \<le> dround q"
    unfolding dq using r pos(1) by (intro mult_right_mono; simp)+
  moreover have "x * (1001 / 1000) * pow2r e = q * (1001 / 1000)" "x * (999 / 1000) * pow2r e = q * (999 / 1000)"
    by (simp_all add: qx)
  ultimately show "dround q \<le> q * (1001 / 1000)" "q * (999 / 1000) \<le> dround q" by simp_all
qed

lemma dround_pos: "0 < q \<Longrightarrow> 0 < dround q"
  using dround_near(2) [of q] by (auto intro: less_le_trans [OF mult_pos_pos])

text \<open>A quotient of doubles.\<close>

lemma double_quotient:
  assumes "0 < c" "0 < d"
  shows "dround (dround c / dround d) \<le> c / d * (101 / 100)" "c / d * (99 / 100) \<le> dround (dround c / dround d)"
proof -
  define r where "r = c / d"
  have r: "0 < r" "c = r * d" using assms by (simp_all add: r_def)
  note c = dround_near [OF assms(1)] and d = dround_near [OF assms(2)]
  have dp: "0 < dround d" using dround_pos [OF assms(2)] .
  define q where "q = dround c / dround d"
  have q: "0 < q" "dround c = q * dround d" using dround_pos [OF assms(1)] dp by (simp_all add: q_def)
  note n = dround_near [OF q(1)]
  have "q * (d * (999 / 1000)) \<le> q * dround d" using d(2) q(1) by (intro mult_left_mono) simp_all
  also have "\<dots> \<le> r * d * (1001 / 1000)" using c(1) q(2) r(2) by simp
  finally have "d * (q * (999 / 1000)) \<le> d * (r * (1001 / 1000))" by (simp add: mult.commute mult.left_commute)
  then have up: "q * (999 / 1000) \<le> r * (1001 / 1000)" using assms(2) by (simp only: mult_le_cancel_left_pos)
  have "r * d * (999 / 1000) \<le> q * dround d" using c(2) q(2) r(2) by simp
  also have "\<dots> \<le> q * (d * (1001 / 1000))" using d(1) q(1) by (intro mult_left_mono) simp_all
  finally have "d * (r * (999 / 1000)) \<le> d * (q * (1001 / 1000))" by (simp add: mult.commute mult.left_commute)
  then have lo: "r * (999 / 1000) \<le> q * (1001 / 1000)" using assms(2) by (simp only: mult_le_cancel_left_pos)
  show "dround (dround c / dround d) \<le> c / d * (101 / 100)" unfolding q_def [symmetric] r_def [symmetric] using n(1) up r(1) by simp
  show "c / d * (99 / 100) \<le> dround (dround c / dround d)" unfolding q_def [symmetric] r_def [symmetric] using n(2) lo r(1) by simp
qed

section \<open>Rounding up a quotient\<close>

lemma ceil_div:
  assumes "0 < (d::nat)" "0 < n"
  shows "n \<le> ((n + d - 1) div d) * d" "(n + d - 1) div d \<le> n" "0 < (n + d - 1) div d"
proof -
  define q where "q = (n + d - 1) div d"
  have "n + d - 1 = q * d + (n + d - 1) mod d" by (simp add: q_def)
  moreover have "(n + d - 1) mod d < d" using assms(1) by simp
  ultimately show n: "n \<le> ((n + d - 1) div d) * d" unfolding q_def [symmetric] using assms by linarith
  show "0 < (n + d - 1) div d" using n assms(2) by (cases "(n + d - 1) div d") auto
  have "n + d - 1 \<le> n * d" using assms by (cases n; cases d) auto
  then show "(n + d - 1) div d \<le> n" using assms(1) by (metis div_le_mono nonzero_mult_div_cancel_right not_less_zero)
qed

end
