(* ===== verification/Util.thy ===== *)
theory Util
  imports Prelude
begin

text \<open>
  \<^verbatim>\<open>src/util.c\<close>: rounding a \<open>size_t\<close> up to a power of two, with the count-leading-zeros
  intrinsic (\<open>next_pow2\<close>) and by bit smearing (\<open>next_pow2_portable\<close>, the code compiled
  without the intrinsic), and that both compute the same function: the least power of two
  that is at least \<open>n\<close>.
\<close>

section \<open>Definitions\<close>

text \<open>\<open>__builtin_clzl\<close>: leading zero bits of a non-zero 64-bit word.\<close>

definition builtin_clzl :: "u64 \<Rightarrow> nat" where
  "builtin_clzl w = length (takeWhile (\<lambda>i. \<not> bit w (63 - i)) [0..<64])"

definition smear_step :: "nat \<Rightarrow> u64 \<Rightarrow> u64" where
  "smear_step s w = (w OR drop_bit s w)"

definition smear :: "u64 \<Rightarrow> u64" where
  "smear w = smear_step 32 (smear_step 16 (smear_step 8 (smear_step 4 (smear_step 2 (smear_step 1 w)))))"

text \<open>The rounding of the filters is a copy without the small cases.\<close>

definition next_power_of_2 :: "u64 \<Rightarrow> u64" where
  "next_power_of_2 n = (if n = 0 then 1 else smear (n - 1) + 1)"

definition next_pow2_portable :: "u64 \<Rightarrow> u64" where
  "next_pow2_portable n =
     (if n = 0 then 1
      else if n \<le> 2 then (if n = 1 then 1 else 2)
      else if push_bit 63 1 \<le> n then n
      else smear (n - 1) + 1)"

definition next_pow2 :: "u64 \<Rightarrow> u64" where
  "next_pow2 n =
     (if n = 0 then 1
      else if n \<le> 2 then (if n = 1 then 1 else 2)
      else if n \<le> push_bit 63 1 then push_bit (64 - builtin_clzl (n - 1)) 1
      else if push_bit 63 1 \<le> n then n
      else smear (n - 1) + 1)"

section \<open>Bit smearing\<close>

lemma bit_smear_step:
  assumes x: "\<And>i. bit x i \<longleftrightarrow> (\<exists>j < s. bit w (i + j))"
  shows "bit (smear_step s x) i \<longleftrightarrow> (\<exists>j < 2 * s. bit w (i + j))"
proof
  assume "bit (smear_step s x) i"
  then have "bit x i \<or> bit x (i + s)"
    by (auto simp: smear_step_def bit_simps add.commute)
  then consider j where "j < s" "bit w (i + j)" | j where "j < s" "bit w (i + (s + j))"
    by (auto simp: x add.assoc)
  then show "\<exists>j < 2 * s. bit w (i + j)"
  proof cases
    case 1
    then have "j < 2 * s" by simp
    with 1 show ?thesis by blast
  next
    case 2
    then have "s + j < 2 * s" by simp
    with 2 show ?thesis by blast
  qed
next
  assume "\<exists>j < 2 * s. bit w (i + j)"
  then obtain j where j: "j < 2 * s" "bit w (i + j)" by blast
  have "bit x i \<or> bit x (i + s)"
  proof (cases "j < s")
    case False
    then have "j - s < s" "i + s + (j - s) = i + j" using j by auto
    then show ?thesis using j x [of "i + s"] by metis
  qed (use j x in blast)
  then show "bit (smear_step s x) i"
    by (auto simp: smear_step_def bit_simps add.commute)
qed

lemma bit_smear: "bit (smear w) i \<longleftrightarrow> (\<exists>j. i \<le> j \<and> bit w j)"
proof -
  have "bit w i \<longleftrightarrow> (\<exists>j < 1. bit w (i + j))" for i by simp
  from bit_smear_step [OF this] have "bit (smear_step 1 w) i \<longleftrightarrow> (\<exists>j < 2. bit w (i + j))" for i
    by simp
  from bit_smear_step [OF this]
  have "bit (smear_step 2 (smear_step 1 w)) i \<longleftrightarrow> (\<exists>j < 4. bit w (i + j))" for i by simp
  from bit_smear_step [OF this]
  have "bit (smear_step 4 (smear_step 2 (smear_step 1 w))) i \<longleftrightarrow> (\<exists>j < 8. bit w (i + j))" for i
    by simp
  from bit_smear_step [OF this]
  have "bit (smear_step 8 (smear_step 4 (smear_step 2 (smear_step 1 w)))) i \<longleftrightarrow>
      (\<exists>j < 16. bit w (i + j))" for i by simp
  from bit_smear_step [OF this]
  have "bit (smear_step 16 (smear_step 8 (smear_step 4 (smear_step 2 (smear_step 1 w))))) i \<longleftrightarrow>
      (\<exists>j < 32. bit w (i + j))" for i by simp
  from bit_smear_step [OF this]
  have "bit (smear w) i \<longleftrightarrow> (\<exists>j < 64. bit w (i + j))" by (simp add: smear_def)
  moreover have "j - i < 64 \<and> i + (j - i) = j" if "i \<le> j" "bit w j" for j
    using that bit_imp_le_length [OF that(2)] by simp
  ultimately show ?thesis by (metis le_add1)
qed

section \<open>The highest set bit\<close>

definition top_bit :: "u64 \<Rightarrow> nat \<Rightarrow> bool" where
  "top_bit w k \<longleftrightarrow> bit w k \<and> (\<forall>j > k. \<not> bit w j)"

lemma top_bit_ex: "w \<noteq> 0 \<Longrightarrow> \<exists>k < 64. top_bit w k"
proof -
  assume "w \<noteq> 0"
  then obtain j where "bit w j" by (auto simp: bit_eq_iff)
  moreover have "\<forall>i. bit w i \<longrightarrow> i \<le> 64"
    using bit_imp_le_length by fastforce
  ultimately obtain k where k: "bit w k" "\<forall>i. bit w i \<longrightarrow> i \<le> k"
    using Nat.ex_has_greatest_nat [of "bit w" j 64] by auto
  then show ?thesis
    using bit_imp_le_length [OF k(1)] by (auto simp: top_bit_def dest: leD)
qed

lemma top_bitD: "top_bit w k \<Longrightarrow> bit w j \<Longrightarrow> j \<le> k"
  by (meson leI top_bit_def)

lemma smear_top:
  assumes "top_bit w k"
  shows "smear w = mask (Suc k)"
proof (rule bit_word_eqI)
  fix i assume i: "i < LENGTH(64)"
  have "bit (smear w) i \<longleftrightarrow> i \<le> k"
    using assms top_bitD [OF assms] unfolding bit_smear top_bit_def by (meson le_trans)
  then show "bit (smear w) i \<longleftrightarrow> bit (mask (Suc k) :: u64) i"
    using i by (simp add: bit_mask_iff less_Suc_eq_le)
qed

lemma top_bit_bounds:
  assumes "top_bit w k"
  shows "2 ^ k \<le> unat w" and "unat w < 2 ^ Suc k"
proof -
  have eq: "bit (unat w) j \<longleftrightarrow> bit w j" for j
    by (simp add: bit_unsigned_iff)
  have "take_bit (Suc k) (unat w) = unat w"
    by (rule bit_eqI) (use assms in \<open>auto simp: bit_simps eq less_Suc_eq_le dest: top_bitD\<close>)
  then show "unat w < 2 ^ Suc k" by (metis take_bit_nat_less_exp)
  have "odd (unat w div 2 ^ k)"
    using assms eq [of k] by (simp add: top_bit_def bit_iff_odd)
  then have "unat w div 2 ^ k \<noteq> 0" by (metis even_zero)
  then show "2 ^ k \<le> unat w" by (simp add: div_eq_0_iff not_less)
qed

lemma clzl_top: "top_bit w k \<Longrightarrow> k < 64 \<Longrightarrow> builtin_clzl w = 63 - k"
proof -
  assume k: "top_bit w k" "k < 64"
  have split: "[0..<64] = [0..<63 - k] @ (63 - k) # [Suc (63 - k)..<64]"
    using k upt_add_eq_append [of 0 "63 - k" "Suc k"] by (simp add: upt_conv_Cons)
  have "takeWhile (\<lambda>i. \<not> bit w (63 - i)) [0..<64] = [0..<63 - k]"
    unfolding split using k
    by (subst takeWhile_append2) (auto simp: top_bit_def)
  then show ?thesis by (simp add: builtin_clzl_def)
qed

section \<open>Least power of two\<close>

lemma pred_top:
  assumes "2 < n" "n \<le> push_bit 63 1"
  obtains k where "top_bit (n - 1) k" "k < 63"
    and "2 ^ k < unat n" "unat n \<le> 2 ^ Suc k"
proof -
  have n: "2 < unat n" "unat n \<le> 2 ^ 63"
    using assms by (simp_all add: word_less_nat_alt word_le_nat_alt)
  then have pred: "unat (n - 1) = unat n - 1"
    by (subst unat_minus_one) auto
  with n have "unat (n - 1) \<noteq> 0" by simp
  then have "n - 1 \<noteq> 0" by (metis unat_0)
  then obtain k where k: "k < 64" "top_bit (n - 1) k"
    using top_bit_ex by blast
  have b: "2 ^ k \<le> unat n - 1" "unat n - 1 < 2 ^ Suc k"
    using top_bit_bounds [OF k(2)] pred by auto
  then have "(2::nat) ^ k < 2 ^ 63" using n by linarith
  then have "k < 63" by (rule power_less_imp_less_exp [rotated]) simp
  moreover have "2 ^ k < unat n" "unat n \<le> 2 ^ Suc k" using b n by linarith+
  ultimately show ?thesis using that k(2) by blast
qed

lemma next_pow2_top:
  assumes "2 < n" "n \<le> push_bit 63 1" "top_bit (n - 1) k" "k < 63"
  shows "next_pow2 n = push_bit (Suc k) 1"
proof -
  have "builtin_clzl (n - 1) = 63 - k" using assms clzl_top by simp
  moreover have "\<not> n \<le> 2" "n \<noteq> 0" using assms(1) by auto
  ultimately show ?thesis using assms by (simp add: next_pow2_def)
qed

lemma mask_plus_one: "k < 64 \<Longrightarrow> (mask k :: u64) + 1 = push_bit k 1"
  by (simp add: mask_eq_exp_minus_1 push_bit_eq_mult)

lemma next_pow2_portable_top:
  assumes "2 < n" "n < push_bit 63 1" "top_bit (n - 1) k" "k < 63"
  shows "next_pow2_portable n = push_bit (Suc k) 1"
proof -
  have "\<not> n \<le> 2" "n \<noteq> 0" "\<not> push_bit 63 1 \<le> n" using assms(1,2) by auto
  then show ?thesis using assms
    by (simp add: next_pow2_portable_def smear_top mask_plus_one del: push_bit_numeral)
qed

text \<open>
  The count-leading-zeros build of \<open>next_pow2\<close> and the portable bit-smearing build
  compute the same value on every 64-bit input, the saturating range above \<open>2 ^ 63\<close> included.
\<close>

lemma next_pow2_builds_agree: "next_pow2 n = next_pow2_portable n"
proof (cases "2 < n \<and> n \<le> push_bit 63 1")
  case True
  then obtain k where k: "top_bit (n - 1) k" "k < 63" "2 ^ k < unat n" "unat n \<le> 2 ^ Suc k"
    using pred_top by metis
  show ?thesis
  proof (cases "n < push_bit 63 1")
    case False
    with True have n: "n = push_bit 63 1" by simp
    with k(4) have "(2::nat) ^ 63 \<le> 2 ^ Suc k" by simp
    then have "63 \<le> Suc k" by (simp only: power_increasing_iff)
    then have "Suc k = 63" using k(2) by simp
    then show ?thesis using True n k next_pow2_top [of n k]
      by (simp add: next_pow2_portable_def)
  qed (use True k next_pow2_top next_pow2_portable_top in metis)
next
  case False
  then show ?thesis by (auto simp: next_pow2_def next_pow2_portable_def)
qed

lemma pow2_between:
  "(2::nat) ^ k < x \<Longrightarrow> x \<le> 2 ^ j \<Longrightarrow> 2 ^ Suc k \<le> (2::nat) ^ j"
proof -
  assume "(2::nat) ^ k < x" "x \<le> 2 ^ j"
  then have "(2::nat) ^ k < 2 ^ j" by linarith
  then have "k < j" by (rule power_less_imp_less_exp [rotated]) simp
  then show ?thesis by (intro power_increasing) simp_all
qed

lemma next_pow2_is_least:
  assumes "0 < n" "n \<le> push_bit 63 1"
  shows "\<exists>k \<le> 63. unat (next_pow2 n) = 2 ^ k \<and> unat n \<le> 2 ^ k \<and>
    (\<forall>j. unat n \<le> 2 ^ j \<longrightarrow> 2 ^ k \<le> (2::nat) ^ j)"
proof (cases "2 < n")
  case True
  then obtain k where k: "top_bit (n - 1) k" "k < 63" "2 ^ k < unat n" "unat n \<le> 2 ^ Suc k"
    using pred_top assms by metis
  have "unat (push_bit (Suc k) 1 :: u64) = 2 ^ Suc k"
    using k(2) by (simp add: push_bit_eq_mult unat_pow2_u64 del: power_Suc)
  then have "unat (next_pow2 n) = 2 ^ Suc k"
    using next_pow2_top True assms k by simp
  moreover have "2 ^ Suc k \<le> (2::nat) ^ j" if "unat n \<le> 2 ^ j" for j
    using pow2_between k(3) that by blast
  ultimately show ?thesis using k by (intro exI [of _ "Suc k"]) auto
next
  case False
  then have "unat n \<le> 2" "unat n \<noteq> 0"
    using assms(1) by (auto simp: word_less_nat_alt)
  then have "unat n = unat (1::u64) \<or> unat n = unat (2::u64)" by auto
  then have "n = 1 \<or> n = 2" by (simp only: word_unat_eq_iff)
  then show ?thesis
  proof
    assume "n = 1"
    then show ?thesis by (intro exI [of _ 0]) (simp add: next_pow2_def)
  next
    assume n: "n = 2"
    have "2 ^ 1 \<le> (2::nat) ^ j" if "unat n \<le> 2 ^ j" for j using that n by simp
    then show ?thesis using n by (intro exI [of _ 1]) (simp add: next_pow2_def)
  qed
qed

text \<open>Smearing the predecessor, as the filters do without the special cases.\<close>

lemma smear_pred:
  assumes "0 < n" "n \<le> push_bit 62 1"
  shows "\<exists>k \<le> 62. smear (n - 1) + 1 = push_bit k 1 \<and> unat n \<le> 2 ^ k \<and> (k = 0 \<or> 2 ^ (k - 1) < unat n)"
proof (cases "2 < n")
  case True
  have le: "n \<le> push_bit 63 1" using assms(2) by (simp add: word_le_nat_alt)
  obtain k where k: "top_bit (n - 1) k" "k < 63" "2 ^ k < unat n" "unat n \<le> 2 ^ Suc k" using pred_top [OF True le] by metis
  have "(2::nat) ^ k < 2 ^ 62" using k(3) assms(2) by (simp add: word_le_nat_alt)
  then have "k < 62" by (rule power_less_imp_less_exp [rotated]) simp
  then show ?thesis using k smear_top [OF k(1)] mask_plus_one [of "Suc k"] by (intro exI [of _ "Suc k"]) auto
next
  case False
  then have "unat n \<le> 2" "unat n \<noteq> 0" using assms(1) by (auto simp: word_less_nat_alt)
  then have "unat n = unat (1::u64) \<or> unat n = unat (2::u64)" by auto
  then have "n = 1 \<or> n = 2" by (simp only: word_unat_eq_iff)
  then show ?thesis
  proof
    assume "n = 1"
    then show ?thesis by (intro exI [of _ 0]) (simp add: smear_def smear_step_def)
  next
    assume "n = 2"
    then show ?thesis by (intro exI [of _ 1]) (simp add: smear_def smear_step_def)
  qed
qed

lemma next_power_of_2_ok:
  assumes "0 < n" "n \<le> 2 ^ 62"
  obtains k where "unat (next_power_of_2 (word_of_nat n)) = 2 ^ k" "n \<le> 2 ^ k" "k = 0 \<or> 2 ^ (k - 1) < n"
proof -
  have u: "unat (word_of_nat n :: u64) = n" using assms(2) by (intro unat_word_of_nat) simp
  have w: "0 < (word_of_nat n :: u64)" "word_of_nat n \<le> (push_bit 62 1 :: u64)"
    using assms u by (simp_all add: word_less_nat_alt word_le_nat_alt)
  obtain k where k: "k \<le> 62" "smear (word_of_nat n - 1) + 1 = (push_bit k 1 :: u64)" "n \<le> 2 ^ k" "k = 0 \<or> 2 ^ (k - 1) < n"
    using smear_pred [OF w] u by auto
  have "next_power_of_2 (word_of_nat n) = push_bit k 1" using w(1) k(2) by (auto simp: next_power_of_2_def)
  then have "unat (next_power_of_2 (word_of_nat n)) = 2 ^ k" using k(1) unat_pow2_u64 [of k] by simp
  then show ?thesis using that k(3,4) by blast
qed

end
