(* ===== verification/Ht_Slot.thy ===== *)
theory Ht_Slot
  imports Prelude
begin

text \<open>
  Slot words of the bare table (\<^verbatim>\<open>include/draugr/ht_internal.h\<close>): 48 bits of hash and 16 bits
  of probe distance packed into one \<open>uint64_t\<close>, with the reserved hashes 0 (never used) and
  1 (tombstone). The lemmas are the round trips of packing and the case split on the three
  kinds of slot.
\<close>

section \<open>Definitions\<close>

definition HASH_EMPTY :: u64 where
  "HASH_EMPTY = 0"

definition HASH_TOMB :: u64 where
  "HASH_TOMB = 1"

definition HASH_MASK :: u64 where
  "HASH_MASK = 0x0000FFFFFFFFFFFF"

definition VAL_NONE :: u32 where
  "VAL_NONE = 0xFFFFFFFF"

definition hpd_hash :: "u64 \<Rightarrow> u64" where
  "hpd_hash hpd = hpd AND HASH_MASK"

definition hpd_pd :: "u64 \<Rightarrow> u16" where
  "hpd_pd hpd = ucast (drop_bit 48 hpd)"

definition hpd_empty :: "u64 \<Rightarrow> bool" where
  "hpd_empty hpd \<longleftrightarrow> hpd_hash hpd = HASH_EMPTY"

definition hpd_tomb :: "u64 \<Rightarrow> bool" where
  "hpd_tomb hpd \<longleftrightarrow> hpd_hash hpd = HASH_TOMB"

definition hpd_available :: "u64 \<Rightarrow> bool" where
  "hpd_available hpd \<longleftrightarrow> hpd_hash hpd \<le> HASH_TOMB"

definition hpd_live :: "u64 \<Rightarrow> bool" where
  "hpd_live hpd \<longleftrightarrow> 2 \<le> hpd_hash hpd"

definition hpd_pack :: "u64 \<Rightarrow> u16 \<Rightarrow> u64" where
  "hpd_pack hash probe_dist = (push_bit 48 (ucast probe_dist) OR (hash AND HASH_MASK))"

text \<open>The probe distance as a number, which is how the probe loops use it.\<close>

abbreviation pd :: "u64 \<Rightarrow> nat" where
  "pd hpd \<equiv> unat (hpd_pd hpd)"

section \<open>Packing round trips\<close>

lemma HASH_MASK_mask: "HASH_MASK = mask 48"
  by (simp add: HASH_MASK_def mask_eq_exp_minus_1)

lemma hpd_hash_take_bit: "hpd_hash w = take_bit 48 w"
  by (simp add: hpd_hash_def HASH_MASK_mask take_bit_eq_mask)

lemma hpd_hash_idem [simp]: "hpd_hash (hpd_hash w) = hpd_hash w"
  by (simp add: hpd_hash_take_bit)

lemma hpd_hash_pack [simp]: "hpd_hash (hpd_pack h d) = hpd_hash h"
  by (rule bit_word_eqI) (auto simp: hpd_hash_take_bit hpd_pack_def HASH_MASK_mask bit_simps)

lemma hpd_pd_pack [simp]: "hpd_pd (hpd_pack h d) = d"
  by (rule bit_word_eqI) (auto simp: hpd_pd_def hpd_pack_def HASH_MASK_mask bit_simps)

lemma hpd_pack_unpack [simp]: "hpd_pack (hpd_hash w) (hpd_pd w) = w"
proof (rule bit_word_eqI)
  fix n assume "n < LENGTH(64)"
  then show "bit (hpd_pack (hpd_hash w) (hpd_pd w)) n \<longleftrightarrow> bit w n"
    by (cases "n < 48") (auto simp: hpd_hash_def hpd_pd_def hpd_pack_def HASH_MASK_mask bit_simps)
qed

lemma pd_pack_nat: "d < 65536 \<Longrightarrow> pd (hpd_pack h (word_of_nat d)) = d"
  by (simp add: unsigned_of_nat take_bit_nat_eq_self)

lemma pd_less [simp]: "pd w < 65536"
  using unsigned_less [of "hpd_pd w"] by simp

section \<open>Kinds of slot\<close>

text \<open>The three kinds are decided by the hash read as a number: 0, 1 or more.\<close>

lemma slot_nat:
  "hpd_empty w \<longleftrightarrow> unat (hpd_hash w) = 0"
  "hpd_tomb w \<longleftrightarrow> unat (hpd_hash w) = 1"
  "hpd_live w \<longleftrightarrow> 2 \<le> unat (hpd_hash w)"
  by (simp_all add: hpd_empty_def hpd_tomb_def hpd_live_def HASH_EMPTY_def HASH_TOMB_def
      word_le_nat_alt word_unat_eq_iff)

lemma slot_cases:
  obtains (empty) "hpd_empty w" | (tomb) "hpd_tomb w" | (live) "hpd_live w"
  using that unfolding slot_nat by linarith

lemma available_iff: "hpd_available w \<longleftrightarrow> \<not> hpd_live w"
  by (auto simp: hpd_available_def HASH_TOMB_def word_le_nat_alt slot_nat)

lemma slot_excl [simp]:
  "hpd_tomb w \<Longrightarrow> \<not> hpd_empty w"
  "hpd_live w \<Longrightarrow> \<not> hpd_empty w" "hpd_live w \<Longrightarrow> \<not> hpd_tomb w"
  unfolding slot_nat by linarith+

lemma not_live_iff: "\<not> hpd_live w \<longleftrightarrow> hpd_empty w \<or> hpd_tomb w"
  unfolding slot_nat by linarith

lemma empty_slot [simp]: "hpd_empty HASH_EMPTY" "hpd_empty 0"
  by (simp_all add: hpd_empty_def hpd_hash_def HASH_EMPTY_def)

lemma tomb_slot [simp]: "hpd_tomb HASH_TOMB"
  by (simp add: hpd_tomb_def hpd_hash_def HASH_TOMB_def HASH_MASK_def)

lemma live_pack_iff [simp]: "hpd_live (hpd_pack h d) \<longleftrightarrow> hpd_live h"
  by (simp add: hpd_live_def)

lemma hpd_hash_fix: "hpd_hash (hash AND HASH_MASK) = hash AND HASH_MASK"
  by (simp add: hpd_hash_def and.assoc)

lemma reserved_slots [simp]:
  "\<not> hpd_tomb HASH_EMPTY" "\<not> hpd_live HASH_EMPTY" "\<not> hpd_tomb 0" "\<not> hpd_live 0"
  "\<not> hpd_live HASH_TOMB" "\<not> hpd_empty HASH_TOMB"
  by (simp_all add: hpd_tomb_def hpd_live_def hpd_empty_def hpd_hash_def HASH_EMPTY_def HASH_TOMB_def HASH_MASK_def
      word_le_nat_alt)

lemma live_hash_iff [simp]: "hpd_live (hpd_hash w) \<longleftrightarrow> hpd_live w"
  by (simp add: hpd_live_def)

end
