(* ===== verification/Ht_Bare.thy ===== *)
theory Ht_Bare
  imports Util Ht_Slot
begin

text \<open>
  The bare table of \<^verbatim>\<open>src/ht.c\<close> (\<open>ht_bare_t\<close>): Robin-Hood linear probing over packed slot
  words, tombstones, the overflow stash, the spill lane for the reserved hashes, rebuilding,
  iteration and the self check. This theory holds the operations only; \<open>Ht_Inv\<close> and the
  theories after it prove them correct.

  Conventions. \<open>size_t\<close> values are natural numbers and wrap through \<open>sz_add\<close>, \<open>sz_sub\<close> and
  \<open>sz_mul\<close>; the \<open>uint16_t\<close> probe counter wraps through \<open>inc16\<close>. Arrays are lists of the
  allocated length. The outcomes of the allocation calls still to come are the field
  \<open>allocs\<close> (an exhausted list means that allocation succeeds), so an out-of-memory branch is
  an ordinary value of the model. A probe loop that may run for ever returns an option, and
  \<open>None\<close> means that it does not return. The table pointer is valid: the \<open>!t\<close> guards are not
  modelled.
\<close>

section \<open>State\<close>

record ht_config =
  initial_capacity :: nat
  cfg_max_load_factor :: rat
  cfg_min_load_factor :: rat
  cfg_tomb_threshold :: rat
  cfg_zombie_window :: nat
  cfg_max_probe_dist :: nat

record ht_bare =
  hash_pd :: "u64 list"
  vals :: "u32 list"
  capacity :: nat
  tsize :: nat
  tombstone_cnt :: nat
  spill_hash_pd :: "u64 list"
  spill_vals :: "u32 list"
  spill_cap :: nat
  spill_len :: nat
  spill_in_block :: bool
  max_load_factor :: rat
  min_load_factor :: rat
  tomb_threshold :: rat
  zombie_window :: nat
  max_probe_dist :: nat
  overflow_len :: nat
  overflow_hash_pd :: "u64 list"
  overflow_vals :: "u32 list"
  overflow_violated :: bool
  resizing :: bool
  allocs :: "bool list"

definition default_cfg :: ht_config where
  "default_cfg = \<lparr>initial_capacity = 64, cfg_max_load_factor = 3 / 4,
     cfg_min_load_factor = dround (1 / 5), cfg_tomb_threshold = dround (1 / 5),
     cfg_zombie_window = 16, cfg_max_probe_dist = 255\<rparr>"

definition SPILL_INITIAL :: nat where
  "SPILL_INITIAL = 8"

definition BSHIFT_CAP :: nat where
  "BSHIFT_CAP = 16"

definition HT_OVERFLOW_STASH_CAP :: nat where
  "HT_OVERFLOW_STASH_CAP = 32"

definition malloc :: "ht_bare \<Rightarrow> bool \<times> ht_bare" where
  "malloc t = (let (ok, as) = take_alloc (allocs t) in (ok, t\<lparr>allocs := as\<rparr>))"

definition bare_main_block_size :: "nat \<Rightarrow> nat" where
  "bare_main_block_size cap = (if cap > SIZE_MAX div 12 then 0 else cap * 12)"

definition bare_alloc_main_block :: "nat \<Rightarrow> ht_bare \<Rightarrow> bool \<times> ht_bare" where
  "bare_alloc_main_block cap t = (if bare_main_block_size cap = 0 then (False, t) else malloc t)"

definition bare_main_block_init :: "ht_bare \<Rightarrow> nat \<Rightarrow> ht_bare" where
  "bare_main_block_init t cap =
     t\<lparr>hash_pd := replicate cap 0, vals := replicate cap VAL_NONE, capacity := cap\<rparr>"

definition next_pow2_sz :: "nat \<Rightarrow> nat" where
  "next_pow2_sz n = unat (next_pow2 (word_of_nat n))"

definition bare_compute_x :: "ht_bare \<Rightarrow> rat" where
  "bare_compute_x t =
     (let lf = dround (dround (of_nat (tsize t)) / dround (of_nat (capacity t)))
      in if lf \<ge> 1 then dround (of_nat (capacity t))
         else if lf < dround (1 / 100) then 1
         else dround (1 / dround (1 - lf)))"

section \<open>Spill lane\<close>

definition bare_spill_grow :: "ht_bare \<Rightarrow> bool \<times> ht_bare" where
  "bare_spill_grow t =
     (let old_cap = spill_cap t;
          new_cap = (if old_cap \<noteq> 0 then sz_mul old_cap 2 else SPILL_INITIAL);
          new_size = sz_mul new_cap 12
      in if new_cap > 0 \<and> new_size div new_cap \<noteq> 12 then (False, t)
         else let (ok, t1) = malloc t
              in if \<not> ok then (False, t1)
                 else (True, t1\<lparr>
                   spill_hash_pd := (if old_cap > 0
                     then take old_cap (spill_hash_pd t) @ replicate (sz_sub new_cap old_cap) 0
                     else replicate new_cap 0),
                   spill_vals := (if old_cap > 0
                     then take old_cap (spill_vals t) @ replicate (sz_sub new_cap old_cap) VAL_NONE
                     else replicate new_cap VAL_NONE),
                   spill_cap := new_cap, spill_in_block := False\<rparr>))"

definition bare_spill_insert :: "ht_bare \<Rightarrow> u64 \<Rightarrow> u32 \<Rightarrow> bool \<times> ht_bare" where
  "bare_spill_insert t h48 val =
     (let (ok, t1) = (if spill_len t \<ge> spill_cap t then bare_spill_grow t else (True, t))
      in if \<not> ok then (False, t1)
         else (True, t1\<lparr>
           spill_hash_pd := (spill_hash_pd t1)[spill_len t1 := hpd_pack h48 0],
           spill_vals := (spill_vals t1)[spill_len t1 := val],
           spill_len := sz_add (spill_len t1) 1,
           tsize := sz_add (tsize t1) 1\<rparr>))"

text \<open>\<open>out_val\<close> is modelled as the \<open>Some\<close> of the result.\<close>

definition bare_spill_find :: "ht_bare \<Rightarrow> u64 \<Rightarrow> u32 option" where
  "bare_spill_find t h48 =
     map_option (\<lambda>i. spill_vals t ! i)
       (find (\<lambda>i. hpd_hash (spill_hash_pd t ! i) = h48) [0..<spill_len t])"

text \<open>
  A loop that hands the matching values to a callback until the callback returns false; the
  callback updates its own context \<open>'s\<close>. The flag says whether the loop ran to its end.
\<close>

type_synonym 's bare_callback = "u32 \<Rightarrow> 's \<Rightarrow> bool \<times> 's"

fun scan_matches :: "(nat \<Rightarrow> bool) \<Rightarrow> (nat \<Rightarrow> u32) \<Rightarrow> 's bare_callback \<Rightarrow> nat list \<Rightarrow> 's \<Rightarrow> bool \<times> 's" where
  "scan_matches p v cb [] s = (True, s)"
| "scan_matches p v cb (i # is) s =
     (if p i then (let (go, s') = cb (v i) s
                   in if go then scan_matches p v cb is s' else (False, s'))
      else scan_matches p v cb is s)"

definition bare_spill_find_all :: "ht_bare \<Rightarrow> u64 \<Rightarrow> 's bare_callback \<Rightarrow> 's \<Rightarrow> 's" where
  "bare_spill_find_all t h48 cb s =
     snd (scan_matches (\<lambda>i. hpd_hash (spill_hash_pd t ! i) = h48) (\<lambda>i. spill_vals t ! i) cb
       [0..<spill_len t] s)"

text \<open>\<open>memmove(&xs[i], &xs[i + 1], n)\<close> on an array.\<close>

definition memmove_down :: "'a list \<Rightarrow> nat \<Rightarrow> nat \<Rightarrow> 'a list" where
  "memmove_down xs i n = take i xs @ take n (drop (i + 1) xs) @ drop (i + n) xs"

definition spill_delete_at :: "ht_bare \<Rightarrow> nat \<Rightarrow> ht_bare" where
  "spill_delete_at t i =
     (let n = spill_len t - i - 1; len = spill_len t - 1
      in t\<lparr>spill_hash_pd := (memmove_down (spill_hash_pd t) i n)[len := HASH_EMPTY],
           spill_vals := (memmove_down (spill_vals t) i n)[len := VAL_NONE],
           spill_len := len, tsize := sz_sub (tsize t) 1\<rparr>)"

function spill_remove_loop :: "u64 \<Rightarrow> nat \<Rightarrow> nat \<Rightarrow> ht_bare \<Rightarrow> nat \<times> ht_bare" where
  "spill_remove_loop h48 i removed t =
     (if i < spill_len t then
        if hpd_hash (spill_hash_pd t ! i) = h48
        then spill_remove_loop h48 i (removed + 1) (spill_delete_at t i)
        else spill_remove_loop h48 (i + 1) removed t
      else (removed, t))"
  by pat_completeness auto
termination
  by (relation "measure (\<lambda>(h48, i, removed, t). spill_len t - i)")
    (auto simp: spill_delete_at_def Let_def)

definition bare_spill_remove :: "ht_bare \<Rightarrow> u64 \<Rightarrow> nat \<times> ht_bare" where
  "bare_spill_remove t h48 = spill_remove_loop h48 0 0 t"

definition bare_spill_remove_val :: "ht_bare \<Rightarrow> u64 \<Rightarrow> u32 \<Rightarrow> bool \<times> ht_bare" where
  "bare_spill_remove_val t h48 val =
     (case find (\<lambda>i. hpd_hash (spill_hash_pd t ! i) = h48 \<and> spill_vals t ! i = val) [0..<spill_len t] of
        None \<Rightarrow> (False, t)
      | Some i \<Rightarrow> (True, spill_delete_at t i))"

section \<open>Overflow stash\<close>

definition overflow_stash_insert :: "ht_bare \<Rightarrow> u64 \<Rightarrow> u32 \<Rightarrow> bool \<times> ht_bare" where
  "overflow_stash_insert t h48 val =
     (if overflow_len t \<ge> HT_OVERFLOW_STASH_CAP then (False, t)
      else (True, t\<lparr>
        overflow_hash_pd := (overflow_hash_pd t)[overflow_len t := hpd_pack h48 0],
        overflow_vals := (overflow_vals t)[overflow_len t := val],
        overflow_len := overflow_len t + 1,
        tsize := sz_add (tsize t) 1\<rparr>))"

definition overflow_stash_remove_val :: "ht_bare \<Rightarrow> u64 \<Rightarrow> u32 \<Rightarrow> bool \<times> ht_bare" where
  "overflow_stash_remove_val t h48 val =
     (case find (\<lambda>i. hpd_hash (overflow_hash_pd t ! i) = h48 \<and> overflow_vals t ! i = val)
             [0..<overflow_len t] of
        None \<Rightarrow> (False, t)
      | Some i \<Rightarrow>
          (let len = overflow_len t - 1
           in (True, t\<lparr>overflow_len := len,
                overflow_hash_pd := (overflow_hash_pd t)[i := overflow_hash_pd t ! len],
                overflow_vals := (overflow_vals t)[i := overflow_vals t ! len],
                tsize := sz_sub (tsize t) 1\<rparr>)))"

fun stash_remove_loop :: "u64 \<Rightarrow> nat list \<Rightarrow> nat \<Rightarrow> ht_bare \<Rightarrow> nat \<times> ht_bare" where
  "stash_remove_loop h48 [] w t = (w, t)"
| "stash_remove_loop h48 (i # is) w t =
     (if hpd_hash (overflow_hash_pd t ! i) = h48
      then stash_remove_loop h48 is w (t\<lparr>tsize := sz_sub (tsize t) 1\<rparr>)
      else stash_remove_loop h48 is (w + 1)
             (if i \<noteq> w then t\<lparr>overflow_hash_pd := (overflow_hash_pd t)[w := overflow_hash_pd t ! i],
                               overflow_vals := (overflow_vals t)[w := overflow_vals t ! i]\<rparr>
              else t))"

definition overflow_stash_remove :: "ht_bare \<Rightarrow> u64 \<Rightarrow> nat \<times> ht_bare" where
  "overflow_stash_remove t h48 =
     (let (w, t1) = stash_remove_loop h48 [0..<overflow_len t] 0 t
      in (overflow_len t1 - w, t1\<lparr>overflow_len := w\<rparr>))"

section \<open>Robin-Hood insertion\<close>

text \<open>
  The look-ahead of a tombstone: whether some live slot within \<open>BSHIFT_CAP\<close> positions, before
  the first empty one, has come further than \<open>dst\<close> at this slot.
\<close>

fun tomb_blocked_loop :: "ht_bare \<Rightarrow> nat \<Rightarrow> nat \<Rightarrow> nat list \<Rightarrow> bool" where
  "tomb_blocked_loop t idx dst [] = False"
| "tomb_blocked_loop t idx dst (k # ks) =
     (let chk_hpd = hash_pd t ! wrap (capacity t) (idx + k)
      in if hpd_empty chk_hpd then False
         else if hpd_tomb chk_hpd then tomb_blocked_loop t idx dst ks
         else if pd chk_hpd > dst + k then True
         else tomb_blocked_loop t idx dst ks)"

definition tomb_blocked :: "ht_bare \<Rightarrow> nat \<Rightarrow> nat \<Rightarrow> bool" where
  "tomb_blocked t idx dst = tomb_blocked_loop t idx dst [1..<BSHIFT_CAP + 1]"

definition put_slot :: "ht_bare \<Rightarrow> nat \<Rightarrow> u64 \<Rightarrow> nat \<Rightarrow> u32 \<Rightarrow> ht_bare" where
  "put_slot t idx h48 dst val =
     t\<lparr>hash_pd := (hash_pd t)[idx := hpd_pack h48 (word_of_nat dst)],
       vals := (vals t)[idx := val]\<rparr>"

text \<open>
  \<open>bare_rh_insert_bounded\<close> and \<open>bare_rh_insert_unbounded\<close> call \<open>bare_resize_table\<close>, which calls
  them back. The recursion is two levels deep at most: while a resize runs, \<open>resizing\<close> is set
  and a nested \<open>bare_resize_table\<close> returns false at once. So the loops take the resize to
  call as an argument: \<open>no_resize\<close> inside a resize and \<open>bare_resize_table\<close> elsewhere.
\<close>

type_synonym resize_fn = "ht_bare \<Rightarrow> (bool \<times> ht_bare) option"

definition no_resize :: resize_fn where
  "no_resize t = Some (False, t)"

partial_function (option) rh_unbounded_loop ::
  "resize_fn \<Rightarrow> ht_bare \<Rightarrow> u64 \<Rightarrow> u32 \<Rightarrow> nat \<Rightarrow> nat \<Rightarrow> (bool \<times> ht_bare) option" where
  "rh_unbounded_loop resize t h48 cur_val idx dst =
     (let slot_hpd = hash_pd t ! idx; next = wrap (capacity t) (idx + 1)
      in if hpd_available slot_hpd then
           if hpd_tomb slot_hpd \<and> tomb_blocked t idx dst
           then rh_unbounded_loop resize t h48 cur_val next (inc16 dst)
           else let t1 = (if hpd_tomb slot_hpd
                          then t\<lparr>tombstone_cnt := sz_sub (tombstone_cnt t) 1\<rparr> else t)
                in Some (True, (put_slot t1 idx h48 dst cur_val)\<lparr>tsize := sz_add (tsize t1) 1\<rparr>)
         else if pd slot_hpd < dst
         then rh_unbounded_loop resize (put_slot t idx h48 dst cur_val)
                (hpd_hash slot_hpd) (vals t ! idx) next (inc16 (pd slot_hpd))
         else if inc16 dst > capacity t
         then Option.bind (resize t) (\<lambda>r. if \<not> fst r then Some (False, snd r)
                else rh_unbounded_loop resize (snd r) h48 cur_val
                       (wrap (capacity (snd r)) (unat h48)) 0)
         else rh_unbounded_loop resize t h48 cur_val next (inc16 dst))"

definition bare_rh_insert_unbounded ::
  "resize_fn \<Rightarrow> ht_bare \<Rightarrow> u64 \<Rightarrow> u32 \<Rightarrow> (bool \<times> ht_bare) option" where
  "bare_rh_insert_unbounded resize t h48 val =
     rh_unbounded_loop resize t h48 val (wrap (capacity t) (unat h48)) 0"

text \<open>The stash, or the unbounded insertion (and the violated flag) when the stash is full.\<close>

definition stash_or_unbounded ::
  "resize_fn \<Rightarrow> ht_bare \<Rightarrow> u64 \<Rightarrow> u32 \<Rightarrow> (bool \<times> ht_bare) option" where
  "stash_or_unbounded resize t h48 cur_val =
     (let (ok, t1) = overflow_stash_insert t h48 cur_val
      in if \<not> ok
         then bare_rh_insert_unbounded resize (t1\<lparr>overflow_violated := True\<rparr>) h48 cur_val
         else Some (True, t1))"

definition over_limit :: "ht_bare \<Rightarrow> nat \<Rightarrow> bool" where
  "over_limit t dst \<longleftrightarrow> max_probe_dist t > 0 \<and> dst > max_probe_dist t"

partial_function (option) rh_bounded_loop ::
  "resize_fn \<Rightarrow> ht_bare \<Rightarrow> u64 \<Rightarrow> u32 \<Rightarrow> nat \<Rightarrow> nat \<Rightarrow> (bool \<times> ht_bare) option" where
  "rh_bounded_loop resize t h48 cur_val idx dst =
     (let slot_hpd = hash_pd t ! idx; next = wrap (capacity t) (idx + 1)
      in if hpd_available slot_hpd then
           if hpd_tomb slot_hpd \<and> tomb_blocked t idx dst
           then rh_bounded_loop resize t h48 cur_val next (inc16 dst)
           else let t1 = (if hpd_tomb slot_hpd
                          then t\<lparr>tombstone_cnt := sz_sub (tombstone_cnt t) 1\<rparr> else t)
                in if over_limit t1 dst then stash_or_unbounded resize t1 h48 cur_val
                   else Some (True, (put_slot t1 idx h48 dst cur_val)\<lparr>tsize := sz_add (tsize t1) 1\<rparr>)
         else if pd slot_hpd < dst
         then let t1 = put_slot t idx h48 dst cur_val; d = inc16 (pd slot_hpd)
              in if over_limit t1 d
                 then stash_or_unbounded resize t1 (hpd_hash slot_hpd) (vals t ! idx)
                 else rh_bounded_loop resize t1 (hpd_hash slot_hpd) (vals t ! idx) next d
         else if over_limit t (inc16 dst) then stash_or_unbounded resize t h48 cur_val
         else if inc16 dst > capacity t
         then Option.bind (resize t) (\<lambda>r. if \<not> fst r then Some (False, snd r)
                else rh_bounded_loop resize (snd r) h48 cur_val
                       (wrap (capacity (snd r)) (unat h48)) 0)
         else rh_bounded_loop resize t h48 cur_val next (inc16 dst))"

declare rh_unbounded_loop.simps [code] rh_bounded_loop.simps [code]

definition bare_rh_insert_with ::
  "resize_fn \<Rightarrow> ht_bare \<Rightarrow> u64 \<Rightarrow> u32 \<Rightarrow> (bool \<times> ht_bare) option" where
  "bare_rh_insert_with resize t h48 val =
     (if capacity t = 0 then bare_rh_insert_unbounded resize t h48 val
      else rh_bounded_loop resize t h48 val (wrap (capacity t) (unat h48)) 0)"

section \<open>Rebuilding\<close>

definition tombstone_spacing :: "ht_bare \<Rightarrow> nat" where
  "tombstone_spacing t = (let s = nat \<lfloor>dround (bare_compute_x t * 3)\<rfloor> in if s < 4 then 4 else s)"

definition place_tombstone :: "nat \<Rightarrow> ht_bare \<Rightarrow> ht_bare" where
  "place_tombstone pos t =
     (if hpd_empty (hash_pd t ! pos)
      then t\<lparr>hash_pd := (hash_pd t)[pos := HASH_TOMB], vals := (vals t)[pos := VAL_NONE],
             tombstone_cnt := sz_add (tombstone_cnt t) 1\<rparr>
      else t)"

definition bare_place_prophylactic_tombstones :: "ht_bare \<Rightarrow> ht_bare" where
  "bare_place_prophylactic_tombstones t =
     fold place_tombstone (filter (\<lambda>pos. tombstone_spacing t dvd pos) [0..<capacity t]) t"

text \<open>Reinsertion ignores the result of each insertion, as the code does.\<close>

fun bare_reinsert_main :: "resize_fn \<Rightarrow> ht_bare \<Rightarrow> u64 list \<Rightarrow> u32 list \<Rightarrow> ht_bare option" where
  "bare_reinsert_main resize t (hpd # hpds) (v # vs) =
     (if \<not> hpd_live hpd then bare_reinsert_main resize t hpds vs
      else Option.bind (bare_rh_insert_with resize t (hpd_hash hpd) v)
             (\<lambda>r. bare_reinsert_main resize (snd r) hpds vs))"
| "bare_reinsert_main resize t hpds vs = Some t"

fun bare_reinsert_spill :: "ht_bare \<Rightarrow> u64 list \<Rightarrow> u32 list \<Rightarrow> ht_bare" where
  "bare_reinsert_spill t (hpd # hpds) (v # vs) =
     (if v = VAL_NONE then bare_reinsert_spill t hpds vs
      else bare_reinsert_spill (snd (bare_spill_insert t (hpd_hash hpd) v)) hpds vs)"
| "bare_reinsert_spill t hpds vs = t"

fun reinsert_overflow :: "resize_fn \<Rightarrow> ht_bare \<Rightarrow> u64 list \<Rightarrow> u32 list \<Rightarrow> ht_bare option" where
  "reinsert_overflow resize t (hpd # hpds) (v # vs) =
     Option.bind (bare_rh_insert_with resize t (hpd_hash hpd) v)
       (\<lambda>r. reinsert_overflow resize (snd r) hpds vs)"
| "reinsert_overflow resize t hpds vs = Some t"

text \<open>
  The common part of \<open>bare_resize_table\<close> and \<open>ht_bare_compact\<close>: fresh arrays of the new
  capacity, every old entry inserted again, prophylactic tombstones. The block of the spill
  lane has room for the old entries.
\<close>

definition bare_rebuild :: "resize_fn \<Rightarrow> ht_bare \<Rightarrow> nat \<Rightarrow> nat \<Rightarrow> ht_bare option" where
  "bare_rebuild resize t new_capacity new_spill_cap =
     (let t0 = (bare_main_block_init t new_capacity)\<lparr>tsize := 0, tombstone_cnt := 0,
            spill_hash_pd := replicate new_spill_cap 0,
            spill_vals := replicate new_spill_cap VAL_NONE,
            spill_cap := new_spill_cap, spill_len := 0, spill_in_block := False,
            overflow_len := 0, overflow_violated := False\<rparr>
      in Option.bind (bare_reinsert_main resize t0 (hash_pd t) (vals t)) (\<lambda>t1.
         let t2 = bare_reinsert_spill t1 (take (spill_len t) (spill_hash_pd t))
                    (take (spill_len t) (spill_vals t))
         in Option.bind (reinsert_overflow resize t2 (take (overflow_len t) (overflow_hash_pd t))
              (take (overflow_len t) (overflow_vals t)))
              (\<lambda>t3. Some (bare_place_prophylactic_tombstones t3))))"

definition new_spill_capacity :: "ht_bare \<Rightarrow> nat" where
  "new_spill_capacity t = (if spill_len t > SPILL_INITIAL then spill_len t else SPILL_INITIAL)"

definition bare_resize_table :: resize_fn where
  "bare_resize_table t =
     (if resizing t then Some (False, t)
      else if tsize t > SIZE_MAX div 2 then Some (False, t)
      else let cap0 = next_pow2_sz (sz_mul (tsize t) 2);
               new_capacity = (if cap0 < 4 then 4 else cap0);
               (ok1, t1) = bare_alloc_main_block new_capacity t
           in if \<not> ok1 then Some (False, t1)
              else let (ok2, t2) = malloc t1
                   in if \<not> ok2 then Some (False, t2)
                      else Option.bind
                             (bare_rebuild no_resize (t2\<lparr>resizing := True\<rparr>) new_capacity
                               (new_spill_capacity t))
                             (\<lambda>t3. Some (True, t3\<lparr>resizing := False\<rparr>)))"

definition bare_rh_insert_bounded :: "ht_bare \<Rightarrow> u64 \<Rightarrow> u32 \<Rightarrow> (bool \<times> ht_bare) option" where
  "bare_rh_insert_bounded = bare_rh_insert_with bare_resize_table"

section \<open>Deletion\<close>

fun ideal_safe_loop :: "ht_bare \<Rightarrow> nat \<Rightarrow> nat list \<Rightarrow> nat \<Rightarrow> bool" where
  "ideal_safe_loop t idx [] write_offset = True"
| "ideal_safe_loop t idx (i # is) write_offset =
     (let hpd = hash_pd t ! wrap (capacity t) (idx + 1 + i)
      in if \<not> hpd_live hpd then ideal_safe_loop t idx is write_offset
         else let target = wrap (capacity t) (idx + write_offset);
                  ideal = wrap (capacity t) (unat (hpd_hash hpd));
                  shift = (i + 1) - write_offset
              in if ideal > target \<and> ideal - target < capacity t div 2 then False
                 else if shift > pd hpd then False
                 else ideal_safe_loop t idx is (write_offset + 1))"

definition bare_verify_ideal_safe :: "ht_bare \<Rightarrow> nat \<Rightarrow> nat \<Rightarrow> bool" where
  "bare_verify_ideal_safe t idx len = ideal_safe_loop t idx [0..<len] 0"

fun backward_shift_loop :: "nat \<Rightarrow> nat list \<Rightarrow> nat \<Rightarrow> ht_bare \<Rightarrow> ht_bare" where
  "backward_shift_loop idx [] write_offset t = t"
| "backward_shift_loop idx (i # is) write_offset t =
     (let read_pos = wrap (capacity t) (idx + 1 + i);
          hpd = hash_pd t ! read_pos;
          live = hpd_live hpd;
          write_pos = wrap (capacity t) (idx + write_offset);
          shift = (i + 1) - write_offset;
          t1 = (if live
                then t\<lparr>hash_pd := (hash_pd t)[write_pos :=
                         hpd_pack (hpd_hash hpd) (hpd_pd hpd - word_of_nat shift)],
                       vals := (vals t)[write_pos := vals t ! read_pos]\<rparr>
                else t\<lparr>tombstone_cnt := sz_sub (tombstone_cnt t) 1\<rparr>);
          t2 = t1\<lparr>hash_pd := (hash_pd t1)[read_pos := HASH_EMPTY],
                  vals := (vals t1)[read_pos := VAL_NONE]\<rparr>
      in backward_shift_loop idx is (if live then write_offset + 1 else write_offset) t2)"

definition bare_commit_backward_shift :: "ht_bare \<Rightarrow> nat \<Rightarrow> nat \<Rightarrow> ht_bare" where
  "bare_commit_backward_shift t idx len =
     (let t1 = backward_shift_loop idx [0..<len] 0 t
      in t1\<lparr>tombstone_cnt := sz_sub (tombstone_cnt t1) 1\<rparr>)"

text \<open>The scan of \<open>bare_delete_compact\<close>: \<open>steps\<close> left, chain length, live count, result.\<close>

fun compact_scan :: "ht_bare \<Rightarrow> nat \<Rightarrow> nat \<Rightarrow> nat \<Rightarrow> nat \<Rightarrow> nat \<times> nat \<times> bool" where
  "compact_scan t 0 scan chain_len live_count = (chain_len, live_count, False)"
| "compact_scan t (Suc steps) scan chain_len live_count =
     (let hpd = hash_pd t ! scan; next = wrap (capacity t) (scan + 1)
      in if hpd_empty hpd then (chain_len, live_count, True)
         else if hpd_tomb hpd then compact_scan t steps next (chain_len + 1) live_count
         else if hpd_pd hpd = 0 then (chain_len, live_count, False)
         else compact_scan t steps next (chain_len + 1) (live_count + 1))"

definition bare_delete_compact :: "ht_bare \<Rightarrow> nat \<Rightarrow> ht_bare" where
  "bare_delete_compact t idx =
     (let (chain_len, live_count, ends_at_empty) =
            compact_scan t BSHIFT_CAP (wrap (capacity t) (idx + 1)) 0 0
      in if ends_at_empty \<and> live_count > 0 \<and> bare_verify_ideal_safe t idx chain_len
         then bare_commit_backward_shift t idx chain_len else t)"

text \<open>A matched slot becomes a tombstone, and the chain behind it is shifted back.\<close>

definition delete_slot :: "ht_bare \<Rightarrow> nat \<Rightarrow> ht_bare" where
  "delete_slot t idx =
     bare_delete_compact
       (t\<lparr>tsize := sz_sub (tsize t) 1, hash_pd := (hash_pd t)[idx := HASH_TOMB],
          vals := (vals t)[idx := VAL_NONE], tombstone_cnt := sz_add (tombstone_cnt t) 1\<rparr>) idx"

fun remove_loop :: "u64 \<Rightarrow> nat \<Rightarrow> nat \<Rightarrow> nat \<Rightarrow> nat \<Rightarrow> ht_bare \<Rightarrow> nat \<times> ht_bare" where
  "remove_loop h48 0 idx dst removed t = (removed, t)"
| "remove_loop h48 (Suc steps) idx dst removed t =
     (let slot_hpd = hash_pd t ! idx; next = wrap (capacity t) (idx + 1)
      in if hpd_empty slot_hpd then (removed, t)
         else if hpd_tomb slot_hpd then remove_loop h48 steps next (inc16 dst) removed t
         else if pd slot_hpd < dst then (removed, t)
         else if hpd_hash slot_hpd = h48
         then remove_loop h48 steps idx dst (removed + 1) (delete_slot t idx)
         else remove_loop h48 steps next (inc16 dst) removed t)"

definition ht_bare_remove :: "ht_bare \<Rightarrow> u64 \<Rightarrow> nat \<times> ht_bare" where
  "ht_bare_remove t hash =
     (let h48 = hash AND HASH_MASK
      in if h48 < 2 then bare_spill_remove t h48
         else let (removed, t1) =
                    remove_loop h48 (capacity t + 1) (wrap (capacity t) (unat h48)) 0 0 t;
                  (stashed, t2) = overflow_stash_remove t1 h48
              in (removed + stashed, t2))"

text \<open>The slot that \<open>ht_bare_remove_val\<close> stops at, if it stops at one.\<close>

fun remove_val_loop :: "ht_bare \<Rightarrow> u64 \<Rightarrow> u32 \<Rightarrow> nat \<Rightarrow> nat \<Rightarrow> nat \<Rightarrow> nat option" where
  "remove_val_loop t h48 val 0 idx dst = None"
| "remove_val_loop t h48 val (Suc steps) idx dst =
     (let slot_hpd = hash_pd t ! idx; next = wrap (capacity t) (idx + 1)
      in if hpd_empty slot_hpd then None
         else if hpd_tomb slot_hpd then remove_val_loop t h48 val steps next (inc16 dst)
         else if pd slot_hpd < dst then None
         else if hpd_hash slot_hpd = h48 \<and> vals t ! idx = val then Some idx
         else remove_val_loop t h48 val steps next (inc16 dst))"

definition ht_bare_remove_val :: "ht_bare \<Rightarrow> u64 \<Rightarrow> u32 \<Rightarrow> bool \<times> ht_bare" where
  "ht_bare_remove_val t hash val =
     (let h48 = hash AND HASH_MASK
      in if h48 < 2 then bare_spill_remove_val t h48 val
         else case remove_val_loop t h48 val (capacity t + 1) (wrap (capacity t) (unat h48)) 0 of
                Some idx \<Rightarrow> (True, delete_slot t idx)
              | None \<Rightarrow> overflow_stash_remove_val t h48 val)"

section \<open>Lookup\<close>

fun find_loop :: "ht_bare \<Rightarrow> u64 \<Rightarrow> nat \<Rightarrow> nat \<Rightarrow> nat \<Rightarrow> nat option" where
  "find_loop t h48 0 idx dst = None"
| "find_loop t h48 (Suc steps) idx dst =
     (let slot_hpd = hash_pd t ! idx; next = wrap (capacity t) (idx + 1)
      in if hpd_empty slot_hpd then None
         else if hpd_tomb slot_hpd then find_loop t h48 steps next (inc16 dst)
         else if pd slot_hpd < dst then None
         else if \<not> overflow_violated t \<and> over_limit t dst then None
         else if hpd_hash slot_hpd = h48 then Some idx
         else find_loop t h48 steps next (inc16 dst))"

definition ht_bare_find :: "ht_bare \<Rightarrow> u64 \<Rightarrow> u32 option" where
  "ht_bare_find t hash =
     (let h48 = hash AND HASH_MASK
      in if h48 < 2 then bare_spill_find t h48
         else case find_loop t h48 (capacity t + 1) (wrap (capacity t) (unat h48)) 0 of
                Some idx \<Rightarrow> Some (vals t ! idx)
              | None \<Rightarrow>
                  map_option (\<lambda>i. overflow_vals t ! i)
                    (find (\<lambda>i. hpd_hash (overflow_hash_pd t ! i) = h48) [0..<overflow_len t]))"

fun find_all_loop ::
  "ht_bare \<Rightarrow> u64 \<Rightarrow> 's bare_callback \<Rightarrow> nat \<Rightarrow> nat \<Rightarrow> nat \<Rightarrow> 's \<Rightarrow> bool \<times> 's" where
  "find_all_loop t h48 cb 0 idx dst s = (True, s)"
| "find_all_loop t h48 cb (Suc steps) idx dst s =
     (let slot_hpd = hash_pd t ! idx; next = wrap (capacity t) (idx + 1)
      in if hpd_empty slot_hpd then (True, s)
         else if hpd_tomb slot_hpd then find_all_loop t h48 cb steps next (inc16 dst) s
         else if pd slot_hpd < dst then (True, s)
         else if \<not> overflow_violated t \<and> over_limit t dst then (True, s)
         else if hpd_hash slot_hpd = h48
         then (let (go, s') = cb (vals t ! idx) s
               in if go then find_all_loop t h48 cb steps next (inc16 dst) s' else (False, s'))
         else find_all_loop t h48 cb steps next (inc16 dst) s)"

definition ht_bare_find_all :: "ht_bare \<Rightarrow> u64 \<Rightarrow> 's bare_callback \<Rightarrow> 's \<Rightarrow> 's" where
  "ht_bare_find_all t hash cb s =
     (let h48 = hash AND HASH_MASK
      in if h48 < 2 then bare_spill_find_all t h48 cb s
         else let (go, s1) =
                    find_all_loop t h48 cb (capacity t + 1) (wrap (capacity t) (unat h48)) 0 s
              in if \<not> go then s1
                 else snd (scan_matches (\<lambda>i. hpd_hash (overflow_hash_pd t ! i) = h48)
                        (\<lambda>i. overflow_vals t ! i) cb [0..<overflow_len t] s1))"

section \<open>Lifecycle and public insertion\<close>

definition clamp_max_load :: "rat \<Rightarrow> rat" where
  "clamp_max_load x = (if x \<le> 0 then 3 / 4 else if x > dround (97 / 100) then dround (97 / 100) else x)"

text \<open>\<open>NULL\<close> for the configuration is \<open>None\<close>; the result is \<open>None\<close> when an allocation fails.\<close>

definition ht_bare_create :: "ht_config option \<Rightarrow> bool list \<Rightarrow> ht_bare option" where
  "ht_bare_create cfg as =
     (let (ok0, as0) = take_alloc as
      in if \<not> ok0 then None
         else let c = (case cfg of None \<Rightarrow> default_cfg | Some c \<Rightarrow> c);
                  cap = next_pow2_sz (if initial_capacity c < 4 then 4 else initial_capacity c)
              in if bare_main_block_size cap = 0 then None
                 else let (ok1, as1) = take_alloc as0
                      in if \<not> ok1 then None
                         else let (ok2, as2) = take_alloc as1
                              in if \<not> ok2 then None
                                 else Some \<lparr>
   hash_pd = replicate cap 0, vals = replicate cap VAL_NONE, capacity = cap,
   tsize = 0, tombstone_cnt = 0,
   spill_hash_pd = replicate SPILL_INITIAL 0, spill_vals = replicate SPILL_INITIAL VAL_NONE,
   spill_cap = SPILL_INITIAL, spill_len = 0, spill_in_block = False,
   max_load_factor = clamp_max_load (cfg_max_load_factor c),
   min_load_factor = (if cfg_min_load_factor c \<ge> 0 then cfg_min_load_factor c else dround (1 / 5)),
   tomb_threshold = (if cfg_tomb_threshold c > 0 then cfg_tomb_threshold c else dround (1 / 5)),
   zombie_window = cfg_zombie_window c,
   max_probe_dist = (if cfg_max_probe_dist c = 0 then 255
     else if cfg_max_probe_dist c > 65535 then 65535 else cfg_max_probe_dist c),
   overflow_len = 0,
   overflow_hash_pd = replicate HT_OVERFLOW_STASH_CAP 0,
   overflow_vals = replicate HT_OVERFLOW_STASH_CAP 0,
   overflow_violated = False, resizing = False, allocs = as2\<rparr>)"

definition ht_bare_clear :: "ht_bare \<Rightarrow> ht_bare" where
  "ht_bare_clear t = t\<lparr>
     hash_pd := replicate (capacity t) 0, vals := replicate (capacity t) VAL_NONE,
     spill_hash_pd := replicate (spill_cap t) 0,
     spill_vals := replicate (spill_cap t) VAL_NONE,
     tsize := 0, tombstone_cnt := 0, spill_len := 0, overflow_len := 0,
     overflow_violated := False\<rparr>"

definition main_live :: "ht_bare \<Rightarrow> nat" where
  "main_live t = sz_sub (sz_sub (tsize t) (spill_len t)) (overflow_len t)"

definition ht_bare_resize :: "ht_bare \<Rightarrow> nat \<Rightarrow> (bool \<times> ht_bare) option" where
  "ht_bare_resize t new_capacity =
     (if new_capacity < main_live t then Some (False, t) else bare_resize_table t)"

definition over_load :: "ht_bare \<Rightarrow> bool" where
  "over_load t \<longleftrightarrow>
     dround (dround (of_nat (sz_add (main_live t) 1)) / dround (of_nat (capacity t)))
       > max_load_factor t"

definition ht_bare_insert :: "ht_bare \<Rightarrow> u64 \<Rightarrow> u32 \<Rightarrow> (bool \<times> ht_bare) option" where
  "ht_bare_insert t hash val =
     (if val = VAL_NONE then Some (False, t)
      else let h48 = hash AND HASH_MASK
           in if h48 < 2 then Some (bare_spill_insert t h48 val)
              else Option.bind
                (if \<not> resizing t \<and> over_load t
                 then (if capacity t > SIZE_MAX div 2 then Some (False, t)
                       else ht_bare_resize t (sz_mul (capacity t) 2))
                 else Some (True, t))
                (\<lambda>r1. if \<not> fst r1 then Some (False, snd r1)
                  else Option.bind
                    (if max_probe_dist (snd r1) > 0 \<and> overflow_len (snd r1) = HT_OVERFLOW_STASH_CAP
                     then ht_bare_resize (snd r1) (sz_mul (capacity (snd r1)) 2)
                     else Some (True, snd r1))
                    (\<lambda>r2. if \<not> fst r2 then Some (False, snd r2)
                      else bare_rh_insert_bounded (snd r2) h48 val)))"

definition ht_bare_compact :: "ht_bare \<Rightarrow> ht_bare option" where
  "ht_bare_compact t =
     (let (ok1, t1) = bare_alloc_main_block (capacity t) t
      in if \<not> ok1 then Some t1
         else let (ok2, t2) = malloc t1
              in if \<not> ok2 then Some t2
                 else bare_rebuild bare_resize_table t2 (capacity t) (new_spill_capacity t))"

section \<open>Iteration\<close>

record ht_iter =
  iter_idx :: nat
  iter_started :: bool

definition ht_bare_iter_begin :: "ht_bare \<Rightarrow> ht_iter" where
  "ht_bare_iter_begin t = \<lparr>iter_idx = 0, iter_started = False\<rparr>"

definition iter_overflow :: "ht_bare \<Rightarrow> ht_iter \<Rightarrow> (u64 \<times> u32) option \<times> ht_iter" where
  "iter_overflow t it =
     (let off = capacity t + spill_len t
      in case find (\<lambda>i. overflow_vals t ! i \<noteq> VAL_NONE) [sz_sub (iter_idx it) off..<overflow_len t] of
           Some i \<Rightarrow> (Some (hpd_hash (overflow_hash_pd t ! i), overflow_vals t ! i),
                       it\<lparr>iter_idx := off + i + 1\<rparr>)
         | None \<Rightarrow> (None, if sz_sub (iter_idx it) off < overflow_len t
                           then it\<lparr>iter_idx := off + overflow_len t\<rparr> else it))"

definition iter_spill :: "ht_bare \<Rightarrow> ht_iter \<Rightarrow> (u64 \<times> u32) option \<times> ht_iter" where
  "iter_spill t it =
     (if iter_idx it < capacity t + spill_len t
      then case find (\<lambda>i. spill_vals t ! i \<noteq> VAL_NONE) [iter_idx it - capacity t..<spill_len t] of
             Some i \<Rightarrow> (Some (hpd_hash (spill_hash_pd t ! i), spill_vals t ! i),
                         it\<lparr>iter_idx := capacity t + i + 1\<rparr>)
           | None \<Rightarrow> iter_overflow t (it\<lparr>iter_idx := capacity t + spill_len t\<rparr>)
      else iter_overflow t it)"

definition ht_bare_iter_next :: "ht_bare \<Rightarrow> ht_iter \<Rightarrow> (u64 \<times> u32) option \<times> ht_iter" where
  "ht_bare_iter_next t it =
     (case find (\<lambda>i. hpd_live (hash_pd t ! i) \<and> vals t ! i \<noteq> VAL_NONE) [iter_idx it..<capacity t] of
        Some i \<Rightarrow> (Some (hpd_hash (hash_pd t ! i), vals t ! i), it\<lparr>iter_idx := i + 1\<rparr>)
      | None \<Rightarrow> iter_spill t (if iter_idx it < capacity t then it\<lparr>iter_idx := capacity t\<rparr> else it))"

section \<open>Statistics and the self check\<close>

record ht_stats_t =
  st_size :: nat
  st_capacity :: nat
  st_tombstone_cnt :: nat
  st_load_factor :: rat
  st_tombstone_ratio :: rat

definition ht_bare_stats :: "ht_bare \<Rightarrow> ht_stats_t" where
  "ht_bare_stats t = \<lparr>st_size = tsize t, st_capacity = capacity t,
     st_tombstone_cnt = tombstone_cnt t,
     st_load_factor = dround (dround (of_nat (tsize t)) / dround (of_nat (capacity t))),
     st_tombstone_ratio =
       (if sz_add (tsize t) (tombstone_cnt t) > 0
        then dround (dround (of_nat (tombstone_cnt t))
               / dround (of_nat (sz_add (tsize t) (tombstone_cnt t))))
        else 0)\<rparr>"

text \<open>The error strings of \<open>ht_bare_check_invariants\<close>, with the values they print.\<close>

datatype invariant_error =
    WrongProbeDist nat nat nat
  | WrongSize nat nat
  | OverflowTooLong nat
  | WrongTombstones nat nat
  | UnreachableEmpty nat nat
  | UnreachableEarly nat nat

fun check_dists :: "ht_bare \<Rightarrow> nat list \<Rightarrow> invariant_error option" where
  "check_dists t [] = None"
| "check_dists t (i # is) =
     (let hpd = hash_pd t ! i
      in if \<not> hpd_live hpd then check_dists t is
         else let ideal = wrap (capacity t) (unat (hpd_hash hpd));
                  expected = (if i \<ge> ideal then i - ideal else capacity t - ideal + i)
              in if pd hpd \<noteq> expected then Some (WrongProbeDist i (pd hpd) expected)
                 else check_dists t is)"

text \<open>The probe from the ideal slot of the entry at \<open>i\<close>: \<open>steps\<close> left, current distance.\<close>

fun reach_loop :: "ht_bare \<Rightarrow> nat \<Rightarrow> nat \<Rightarrow> nat \<Rightarrow> nat \<Rightarrow> invariant_error option" where
  "reach_loop t i ideal 0 dst = None"
| "reach_loop t i ideal (Suc steps) dst =
     (let pos = wrap (capacity t) (ideal + dst); scan_hpd = hash_pd t ! pos
      in if pos = i then None
         else if hpd_empty scan_hpd then Some (UnreachableEmpty i pos)
         else if hpd_tomb scan_hpd then reach_loop t i ideal steps (inc16 dst)
         else if pd scan_hpd < dst then Some (UnreachableEarly i pos)
         else reach_loop t i ideal steps (inc16 dst))"

fun check_reach :: "ht_bare \<Rightarrow> nat list \<Rightarrow> invariant_error option" where
  "check_reach t [] = None"
| "check_reach t (i # is) =
     (let hpd = hash_pd t ! i
      in if \<not> hpd_live hpd then check_reach t is
         else case reach_loop t i (wrap (capacity t) (unat (hpd_hash hpd))) (capacity t + 1) 0 of
                Some e \<Rightarrow> Some e
              | None \<Rightarrow> check_reach t is)"

definition ht_bare_check_invariants :: "ht_bare \<Rightarrow> invariant_error option" where
  "ht_bare_check_invariants t =
     (let live_count = length (filter hpd_live (map (\<lambda>i. hash_pd t ! i) [0..<capacity t]));
          tomb_count = length (filter hpd_tomb (map (\<lambda>i. hash_pd t ! i) [0..<capacity t]));
          spill_live = length (filter (\<lambda>i. spill_vals t ! i \<noteq> VAL_NONE) [0..<spill_len t]);
          found = live_count + spill_live + overflow_len t
      in case check_dists t [0..<capacity t] of
           Some e \<Rightarrow> Some e
         | None \<Rightarrow>
             if tsize t \<noteq> found then Some (WrongSize (tsize t) found)
             else if overflow_len t > HT_OVERFLOW_STASH_CAP then Some (OverflowTooLong (overflow_len t))
             else if tombstone_cnt t \<noteq> tomb_count then Some (WrongTombstones (tombstone_cnt t) tomb_count)
             else check_reach t [0..<capacity t])"

end
