(* ===== verification/Ht_Inv.thy ===== *)
theory Ht_Inv
  imports Ht_Bare
begin

text \<open>
  The invariant of the bare table and its abstraction. A table stands for the multiset of its
  (48-bit hash, value) pairs, wherever they are: main array, spill lane, overflow stash.
  \<open>probe_inv\<close> is the Robin-Hood reachability invariant: every live slot lies at its recorded
  distance from its home slot, and no slot before it on its probe path stops a search.
\<close>

section \<open>Probe paths\<close>

text \<open>The home slot of a hash in an array of \<open>n\<close> slots.\<close>

definition home :: "nat \<Rightarrow> u64 \<Rightarrow> nat" where
  "home n h = unat (hpd_hash h) mod n"

text \<open>A search at distance \<open>j\<close> goes on past slot \<open>q\<close>.\<close>

definition passable :: "u64 list \<Rightarrow> nat \<Rightarrow> nat \<Rightarrow> bool" where
  "passable hp q j \<longleftrightarrow> \<not> hpd_empty (hp ! q) \<and> (hpd_live (hp ! q) \<longrightarrow> j \<le> pd (hp ! q))"

definition path_clear :: "u64 list \<Rightarrow> u64 \<Rightarrow> nat \<Rightarrow> bool" where
  "path_clear hp h d \<longleftrightarrow> (\<forall>j < d. passable hp ((home (length hp) h + j) mod length hp) j)"

definition entry_ok :: "u64 list \<Rightarrow> nat \<Rightarrow> bool" where
  "entry_ok hp i \<longleftrightarrow>
     (let w = hp ! i; n = length hp
      in pd w < n \<and> (home n w + pd w) mod n = i \<and> path_clear hp w (pd w))"

definition probe_inv :: "u64 list \<Rightarrow> bool" where
  "probe_inv hp \<longleftrightarrow> (\<forall>i < length hp. hpd_live (hp ! i) \<longrightarrow> entry_ok hp i)"

text \<open>
  No live slot is preceded on its own probe path by more tombstones than the look-ahead of
  the insertion inspects.
\<close>

definition gap_inv :: "u64 list \<Rightarrow> bool" where
  "gap_inv hp \<longleftrightarrow>
     (\<forall>i < length hp. hpd_live (hp ! i) \<longrightarrow> BSHIFT_CAP < pd (hp ! i) \<longrightarrow>
        (\<exists>k \<in> {1..BSHIFT_CAP + 1}.
           \<not> hpd_tomb (hp ! ((home (length hp) (hp ! i) + (pd (hp ! i) - k)) mod length hp))))"

section \<open>The abstraction\<close>

type_synonym entry = "u64 \<times> u32"

definition main_mset :: "u64 list \<Rightarrow> u32 list \<Rightarrow> entry multiset" where
  "main_mset hp vs =
     mset (map (\<lambda>(w, v). (hpd_hash w, v)) (filter (\<lambda>(w, v). hpd_live w) (zip hp vs)))"

definition side_entries :: "u64 list \<Rightarrow> u32 list \<Rightarrow> nat \<Rightarrow> entry list" where
  "side_entries hs vs len = take len (zip (map hpd_hash hs) vs)"

definition spill_entries :: "ht_bare \<Rightarrow> entry list" where
  "spill_entries t = side_entries (spill_hash_pd t) (spill_vals t) (spill_len t)"

definition overflow_entries :: "ht_bare \<Rightarrow> entry list" where
  "overflow_entries t = side_entries (overflow_hash_pd t) (overflow_vals t) (overflow_len t)"

definition contents :: "ht_bare \<Rightarrow> entry multiset" where
  "contents t = main_mset (hash_pd t) (vals t) + mset (spill_entries t) + mset (overflow_entries t)"

section \<open>The invariant\<close>

definition pow2_cap :: "nat \<Rightarrow> bool" where
  "pow2_cap n \<longleftrightarrow> list_ex (\<lambda>m. n = 2 ^ m) [2..<61]"

definition shape_ok :: "ht_bare \<Rightarrow> bool" where
  "shape_ok t \<longleftrightarrow>
     pow2_cap (capacity t) \<and> length (hash_pd t) = capacity t \<and> length (vals t) = capacity t \<and>
     length (spill_hash_pd t) = spill_cap t \<and> length (spill_vals t) = spill_cap t \<and>
     spill_len t \<le> spill_cap t \<and> spill_cap t * 12 < 2 ^ 64 \<and>
     length (overflow_hash_pd t) = HT_OVERFLOW_STASH_CAP \<and>
     length (overflow_vals t) = HT_OVERFLOW_STASH_CAP \<and> overflow_len t \<le> HT_OVERFLOW_STASH_CAP"

definition values_ok :: "ht_bare \<Rightarrow> bool" where
  "values_ok t \<longleftrightarrow>
     (\<forall>i < capacity t. hpd_live (hash_pd t ! i) \<longrightarrow> vals t ! i \<noteq> VAL_NONE) \<and>
     (\<forall>(h, v) \<in> set (spill_entries t). \<not> hpd_live h \<and> v \<noteq> VAL_NONE) \<and>
     (\<forall>(h, v) \<in> set (overflow_entries t). hpd_live h \<and> v \<noteq> VAL_NONE)"

definition bounded_ok :: "ht_bare \<Rightarrow> bool" where
  "bounded_ok t \<longleftrightarrow>
     overflow_violated t \<or> (\<forall>i < capacity t. hpd_live (hash_pd t ! i) \<longrightarrow> \<not> over_limit t (pd (hash_pd t ! i)))"

definition tombs :: "ht_bare \<Rightarrow> nat" where
  "tombs t = length (filter hpd_tomb (hash_pd t))"

definition counts_ok :: "ht_bare \<Rightarrow> bool" where
  "counts_ok t \<longleftrightarrow> tsize t = size (contents t) \<and> tombstone_cnt t = tombs t"

definition bare_inv :: "ht_bare \<Rightarrow> bool" where
  "bare_inv t \<longleftrightarrow> shape_ok t \<and> probe_inv (hash_pd t) \<and> values_ok t \<and> bounded_ok t \<and> counts_ok t"

definition gap_ok :: "ht_bare \<Rightarrow> bool" where
  "gap_ok t \<longleftrightarrow> gap_inv (hash_pd t)"

text \<open>An insertion has a slot to end in: some slot was never used.\<close>

definition has_empty :: "ht_bare \<Rightarrow> bool" where
  "has_empty t \<longleftrightarrow> list_ex hpd_empty (hash_pd t)"

section \<open>Shape\<close>

lemma pow2_capD:
  assumes "pow2_cap n"
  obtains m where "n = 2 ^ m" "2 \<le> m" "m < 61"
proof -
  obtain m where "m \<in> set [2..<61]" "n = 2 ^ m"
    using assms unfolding pow2_cap_def list_ex_iff by blast
  then show thesis using that [of m] by (simp only: set_upt atLeastLessThan_iff)
qed

lemma pow2_cap_ge4: "pow2_cap n \<Longrightarrow> 4 \<le> n"
proof -
  assume "pow2_cap n"
  then obtain m where m: "n = 2 ^ m" "2 \<le> m" by (rule pow2_capD)
  then have "(2::nat) ^ 2 \<le> 2 ^ m" by (intro power_increasing) auto
  with m show ?thesis by simp
qed

lemma pow2_cap_bound: "pow2_cap n \<Longrightarrow> n * 12 < 2 ^ 64"
proof -
  assume "pow2_cap n"
  then obtain m where m: "n = 2 ^ m" "m < 61" by (rule pow2_capD)
  then have "(2::nat) ^ m \<le> 2 ^ 60" by (intro power_increasing) auto
  with m show ?thesis by simp
qed

lemma wrap_pow2: "pow2_cap n \<Longrightarrow> wrap n x = x mod n"
  by (auto elim!: pow2_capD simp: wrap_mod)

lemma shape_okD:
  assumes "shape_ok t"
  shows "pow2_cap (capacity t)" "length (hash_pd t) = capacity t" "length (vals t) = capacity t"
    and "length (spill_hash_pd t) = spill_cap t" "length (spill_vals t) = spill_cap t"
    and "spill_len t \<le> spill_cap t" "spill_cap t * 12 < 2 ^ 64"
    and "length (overflow_hash_pd t) = HT_OVERFLOW_STASH_CAP"
    and "length (overflow_vals t) = HT_OVERFLOW_STASH_CAP"
    and "overflow_len t \<le> HT_OVERFLOW_STASH_CAP"
    and "0 < capacity t"
  using assms pow2_cap_ge4 [of "capacity t"] by (auto simp: shape_ok_def)

lemma bare_invD:
  assumes "bare_inv t"
  shows "shape_ok t" "probe_inv (hash_pd t)" "values_ok t" "bounded_ok t" "counts_ok t"
  using assms by (auto simp: bare_inv_def)

lemma wrap_cap: "shape_ok t \<Longrightarrow> wrap (capacity t) x = x mod capacity t"
  by (simp add: wrap_pow2 shape_okD(1))

section \<open>Counting\<close>

lemma main_mset_update:
  assumes "i < length hp" "length vs = length hp"
  shows "main_mset (hp[i := w]) (vs[i := v]) + (if hpd_live (hp ! i) then {#(hpd_hash (hp ! i), vs ! i)#} else {#}) =
    main_mset hp vs + (if hpd_live w then {#(hpd_hash w, v)#} else {#})"
proof -
  have "i < length (zip hp vs)" using assms by simp
  from mset_filter_update [OF this, of "\<lambda>(w, v). (hpd_hash w, v)" "\<lambda>(w, v). hpd_live w" "(w, v)"]
  show ?thesis
    using assms
    by (simp add: main_mset_def zip_update del: mset_map mset_filter split del: if_split cong: if_cong)
qed

lemma size_main_mset: "length vs = length hp \<Longrightarrow> size (main_mset hp vs) = length (filter hpd_live hp)"
proof -
  assume "length vs = length hp"
  then have "length (filter (\<lambda>(w, v). hpd_live w) (zip hp vs)) = length (filter hpd_live hp)"
    by (induction hp vs rule: list_induct2') auto
  then show ?thesis unfolding main_mset_def by (metis size_mset length_map)
qed

lemma length_side_entries [simp]:
  "len \<le> length hs \<Longrightarrow> length vs = length hs \<Longrightarrow> length (side_entries hs vs len) = len"
  by (simp add: side_entries_def)

lemma filter_sum_le: "length (filter hpd_live xs) + length (filter hpd_tomb xs) + length (filter hpd_empty xs) = length xs"
proof (induction xs)
  case (Cons x xs)
  then show ?case by (cases x rule: slot_cases) (auto simp: slot_nat)
qed simp

lemma in_main_mset_iff:
  assumes "length vs = length hp"
  shows "(h, v) \<in># main_mset hp vs \<longleftrightarrow>
    (\<exists>i < length hp. hpd_live (hp ! i) \<and> hpd_hash (hp ! i) = h \<and> vs ! i = v)"
  using assms by (force simp: main_mset_def in_set_zip)

lemma main_mset_slots:
  assumes "length vs = length hp"
  shows "main_mset hp vs =
    mset (map (\<lambda>i. (hpd_hash (hp ! i), vs ! i)) (filter (\<lambda>i. hpd_live (hp ! i)) [0..<length hp]))"
proof -
  have "zip hp vs = map (\<lambda>i. (hp ! i, vs ! i)) [0..<length hp]"
    using assms by (intro nth_equalityI) auto
  then show ?thesis by (simp add: main_mset_def filter_map comp_def del: mset_map mset_filter)
qed

end
