(* ===== verification/Ht_Insert.thy ===== *)
theory Ht_Insert
  imports Ht_Inv
begin

text \<open>
  Robin-Hood insertion keeps the reachability invariant and adds exactly the new entry.
  \<open>probe_inv_put\<close> is the one fact about overwriting a slot; the three ways the loop writes a
  slot (an empty slot, an unblocked tombstone, a displaced entry) are instances of it.
\<close>

section \<open>Overwriting a slot\<close>

text \<open>Slot \<open>i\<close> stops no search that goes through it when it holds an entry at distance \<open>d\<close>.\<close>

definition displaces :: "u64 list \<Rightarrow> nat \<Rightarrow> nat \<Rightarrow> bool" where
  "displaces hp i d \<longleftrightarrow>
     (\<forall>k < length hp. k \<noteq> i \<longrightarrow> hpd_live (hp ! k) \<longrightarrow>
        (\<forall>j < pd (hp ! k). (home (length hp) (hp ! k) + j) mod length hp = i \<longrightarrow> j \<le> d))"

lemma home_pack [simp]: "home n (hpd_pack h d) = home n h"
  by (simp add: home_def)

lemma home_hash [simp]: "home n (hpd_hash h) = home n h"
  by (simp add: home_def)

lemma home_less [simp]: "0 < n \<Longrightarrow> home n h < n"
  by (simp add: home_def)

lemma path_clear_update:
  assumes "path_clear hp h d" "i < length hp" "hpd_live w"
    and "\<And>j. j < d \<Longrightarrow> (home (length hp) h + j) mod length hp = i \<Longrightarrow> j \<le> pd w"
  shows "path_clear (hp[i := w]) h d"
  using assms by (auto simp: path_clear_def passable_def nth_list_update_if)

lemma probe_inv_put:
  assumes inv: "probe_inv hp"
    and i: "i = (home (length hp) h + d) mod length hp" and d: "d < length hp" "d < 65536"
    and clear: "path_clear hp h d" and h: "hpd_live h"
    and disp: "displaces hp i d"
  shows "probe_inv (hp[i := hpd_pack h (word_of_nat d)])"
proof -
  let ?w = "hpd_pack h (word_of_nat d)" and ?n = "length hp"
  let ?hp = "hp[i := ?w]"
  have n: "0 < ?n" using d(1) by linarith
  have i_less: "i < ?n" using i n by simp
  have pdw: "pd ?w = d" using d(2) by (rule pd_pack_nat)
  have "path_clear ?hp h d"
    by (rule path_clear_update) (use clear i_less h pdw in auto)
  then have new: "entry_ok ?hp i"
    using i_less i d pdw by (simp add: entry_ok_def path_clear_def)
  have "entry_ok ?hp k" if k: "k < ?n" "k \<noteq> i" "hpd_live (hp ! k)" for k
  proof -
    have ok: "entry_ok hp k" using inv k by (simp add: probe_inv_def)
    then have "path_clear hp (hp ! k) (pd (hp ! k))" by (simp add: entry_ok_def Let_def)
    moreover have "j \<le> pd ?w" if "j < pd (hp ! k)" "(home ?n (hp ! k) + j) mod ?n = i" for j
      using disp k that pdw unfolding displaces_def by metis
    ultimately have "path_clear ?hp (hp ! k) (pd (hp ! k))"
      using i_less h by (intro path_clear_update) auto
    with ok k show ?thesis by (simp add: entry_ok_def Let_def)
  qed
  with new show ?thesis
    unfolding probe_inv_def by (metis i_less length_list_update nth_list_update_neq)
qed

text \<open>Every search through slot \<open>i\<close> finds it passable.\<close>

lemma probe_inv_passable:
  assumes "probe_inv hp" "k < length hp" "hpd_live (hp ! k)" "j < pd (hp ! k)"
  shows "passable hp ((home (length hp) (hp ! k) + j) mod length hp) j"
  using assms by (auto simp: probe_inv_def entry_ok_def path_clear_def Let_def)

lemma displacesI:
  assumes "probe_inv hp" "\<And>j. passable hp i j \<Longrightarrow> j \<le> d"
  shows "displaces hp i d"
  unfolding displaces_def using probe_inv_passable [OF assms(1)] assms(2) by blast

lemma displaces_empty: "probe_inv hp \<Longrightarrow> hpd_empty (hp ! i) \<Longrightarrow> displaces hp i d"
  by (rule displacesI) (auto simp: passable_def)

lemma displaces_live:
  "probe_inv hp \<Longrightarrow> hpd_live (hp ! i) \<Longrightarrow> pd (hp ! i) \<le> d \<Longrightarrow> displaces hp i d"
  by (rule displacesI) (auto simp: passable_def)

section \<open>The look-ahead of a tombstone\<close>

lemma not_blocked_loop:
  assumes "\<not> tomb_blocked_loop t idx d [a..<b]" "a \<le> k" "k < b"
    and "\<And>k'. a \<le> k' \<Longrightarrow> k' < k \<Longrightarrow> \<not> hpd_empty (hash_pd t ! wrap (capacity t) (idx + k'))"
    and "hpd_live (hash_pd t ! wrap (capacity t) (idx + k))"
  shows "pd (hash_pd t ! wrap (capacity t) (idx + k)) \<le> d + k"
  using assms
proof (induction "b - a" arbitrary: a)
  case (Suc n)
  then have "a < b" by simp
  then have ab: "[a..<b] = a # [Suc a..<b]" by (rule upt_conv_Cons)
  show ?case
  proof (cases "a = k")
    case True
    have "\<not> tomb_blocked_loop t idx d (k # [Suc k..<b])"
      using Suc.prems(1) ab True by simp
    with Suc.prems(5) show ?thesis by (simp add: Let_def split: if_splits)
  next
    case False
    with Suc.prems have "a < k" "\<not> hpd_empty (hash_pd t ! wrap (capacity t) (idx + a))" by auto
    with Suc.prems(1) have "\<not> tomb_blocked_loop t idx d [Suc a..<b]"
      by (simp add: ab Let_def split: if_splits)
    then show ?thesis using Suc.hyps(2) Suc.prems \<open>a < k\<close> by (intro Suc.hyps(1)) auto
  qed
qed simp

lemma blocked_loop:
  "tomb_blocked_loop t idx d ks \<Longrightarrow>
    \<exists>k \<in> set ks. hpd_live (hash_pd t ! wrap (capacity t) (idx + k)) \<and>
      d + k < pd (hash_pd t ! wrap (capacity t) (idx + k))"
proof (induction ks)
  case (Cons k ks)
  then show ?case
    by (cases "hash_pd t ! wrap (capacity t) (idx + k)" rule: slot_cases)
      (auto simp: Let_def split: if_splits)
qed simp

lemma tomb_blockedE:
  assumes "tomb_blocked t idx d"
  obtains k where "1 \<le> k" "k \<le> BSHIFT_CAP"
    and "hpd_live (hash_pd t ! wrap (capacity t) (idx + k))"
    and "d + k < pd (hash_pd t ! wrap (capacity t) (idx + k))"
  using blocked_loop [OF assms [unfolded tomb_blocked_def]] that by auto

text \<open>
  Let \<open>e\<close> be live, \<open>x\<close> slots after slot \<open>i\<close>, with \<open>i\<close> on its probe path at distance \<open>j\<close>. Then
  every slot between is passable one distance further than the slot before it.
\<close>

lemma path_between:
  assumes inv: "probe_inv hp" and e: "e < length hp" "hpd_live (hp ! e)"
    and j: "j < pd (hp ! e)" "(home (length hp) (hp ! e) + j) mod length hp = i"
    and y: "y \<le> pd (hp ! e) - j"
  shows "\<not> hpd_empty (hp ! ((i + y) mod length hp))"
    and "hpd_live (hp ! ((i + y) mod length hp)) \<Longrightarrow> j + y \<le> pd (hp ! ((i + y) mod length hp))"
proof -
  have pos: "(home (length hp) (hp ! e) + (j + y)) mod length hp = (i + y) mod length hp"
    using j(2) by (rule mod_shift)
  have "passable hp ((i + y) mod length hp) (j + y)"
  proof (cases "j + y < pd (hp ! e)")
    case True
    then show ?thesis using probe_inv_passable [OF inv e] pos by metis
  next
    case False
    then have "j + y = pd (hp ! e)" using j y by linarith
    moreover from this have "(i + y) mod length hp = e"
      using inv e pos by (simp add: probe_inv_def entry_ok_def Let_def)
    ultimately show ?thesis using e by (simp add: passable_def)
  qed
  then show "\<not> hpd_empty (hp ! ((i + y) mod length hp))"
    and "hpd_live (hp ! ((i + y) mod length hp)) \<Longrightarrow> j + y \<le> pd (hp ! ((i + y) mod length hp))"
    by (auto simp: passable_def)
qed

text \<open>The first live slot after \<open>i\<close>, up to the live slot \<open>x\<close> places on.\<close>

lemma first_live:
  assumes "hpd_live (hp ! ((i + x) mod n))" "1 \<le> x"
    and "\<And>y. y \<le> x \<Longrightarrow> \<not> hpd_empty (hp ! ((i + y) mod n))"
  obtains y where "1 \<le> y" "y \<le> x" "hpd_live (hp ! ((i + y) mod n))"
    and "\<forall>z. 1 \<le> z \<longrightarrow> z < y \<longrightarrow> hpd_tomb (hp ! ((i + z) mod n))"
proof -
  let ?P = "\<lambda>y. 1 \<le> y \<and> y \<le> x \<and> hpd_live (hp ! ((i + y) mod n))"
  define y where "y = (LEAST y. ?P y)"
  have "?P x" using assms by simp
  then have y: "?P y" unfolding y_def by (rule LeastI)
  have "hpd_tomb (hp ! ((i + z) mod n))" if z: "1 \<le> z" "z < y" for z
  proof -
    have "\<not> ?P z" using z(2) unfolding y_def by (rule not_less_Least)
    then show ?thesis
      using z y assms(3) [of z] not_live_iff [of "hp ! ((i + z) mod n)"] by force
  qed
  with y that show thesis by blast
qed

lemma displaces_tomb:
  assumes shape: "shape_ok t" and inv: "probe_inv (hash_pd t)" and gap: "gap_inv (hash_pd t)"
    and i: "hpd_tomb (hash_pd t ! i)" and free: "\<not> tomb_blocked t i d"
  shows "displaces (hash_pd t) i d"
proof -
  let ?hp = "hash_pd t" and ?n = "capacity t"
  have n: "length ?hp = ?n" using shape by (simp add: shape_okD)
  have "j \<le> d" if e: "e < ?n" "hpd_live (?hp ! e)" and j: "j < pd (?hp ! e)" "(home ?n (?hp ! e) + j) mod ?n = i"
    for e j
  proof -
    define x where "x = pd (?hp ! e) - j"
    note between = path_between [OF inv, unfolded n, OF e j]
    have "(home ?n (?hp ! e) + (j + x)) mod ?n = (i + x) mod ?n" using j(2) by (rule mod_shift)
    then have "(i + x) mod ?n = e"
      using inv e j n by (simp add: probe_inv_def entry_ok_def Let_def x_def)
    then have "hpd_live (?hp ! ((i + x) mod ?n))" "1 \<le> x" using e j by (simp_all add: x_def)
    moreover have "\<And>y. y \<le> x \<Longrightarrow> \<not> hpd_empty (?hp ! ((i + y) mod ?n))"
      using between(1) by (simp add: x_def)
    ultimately obtain y where y: "1 \<le> y" "y \<le> x" "hpd_live (?hp ! ((i + y) mod ?n))"
      and tombs: "\<forall>z. 1 \<le> z \<longrightarrow> z < y \<longrightarrow> hpd_tomb (?hp ! ((i + z) mod ?n))"
      by (rule first_live)
    let ?e = "(i + y) mod ?n"
    have far: "j + y \<le> pd (?hp ! ?e)" using between(2) y by (simp add: x_def)
    have "y \<le> BSHIFT_CAP"
    proof (rule ccontr)
      assume long: "\<not> y \<le> BSHIFT_CAP"
      have e_less: "?e < ?n" using e by simp
      have at: "(home ?n (?hp ! ?e) + pd (?hp ! ?e)) mod ?n = (i + y) mod ?n"
        using inv e_less y n by (simp add: probe_inv_def entry_ok_def Let_def)
      have "BSHIFT_CAP < pd (?hp ! ?e)" using far long by linarith
      then obtain k where k: "1 \<le> k" "k \<le> BSHIFT_CAP + 1"
        and nt: "\<not> hpd_tomb (?hp ! ((home ?n (?hp ! ?e) + (pd (?hp ! ?e) - k)) mod ?n))"
        using gap e_less y(3) unfolding gap_inv_def n by (metis atLeastAtMost_iff)
      have "(home ?n (?hp ! ?e) + (pd (?hp ! ?e) - k)) mod ?n = (i + (y - k)) mod ?n"
        using at by (rule mod_sub_same) (use k far long in auto)
      moreover have "hpd_tomb (?hp ! ((i + (y - k)) mod ?n))"
      proof (cases "y = k")
        case True
        then show ?thesis using i j e by auto
      next
        case False
        then have "1 \<le> y - k" "y - k < y" using k long by linarith+
        then show ?thesis using tombs by blast
      qed
      ultimately show False using nt by simp
    qed
    moreover have "pd (?hp ! ?e) \<le> d + y"
      using not_blocked_loop [of t i d 1 "BSHIFT_CAP + 1" y] free y between(1) calculation
      by (simp add: tomb_blocked_def wrap_cap [OF shape] x_def)
    ultimately show ?thesis using far by linarith
  qed
  then show ?thesis unfolding displaces_def n by blast
qed

section \<open>The walk of the entry in hand\<close>

text \<open>
  What holds at the head of an insertion loop for the entry in hand, at distance \<open>d\<close> from its
  home slot: its path so far is passable, and the tombstones it has just passed were blocked.
\<close>

definition walk :: "u64 list \<Rightarrow> u64 \<Rightarrow> nat \<Rightarrow> bool" where
  "walk hp h d \<longleftrightarrow> path_clear hp h d \<and>
     (\<forall>j < d. (\<forall>i. j \<le> i \<and> i < d \<longrightarrow> hpd_tomb (hp ! ((home (length hp) h + i) mod length hp))) \<longrightarrow>
        (\<exists>k \<in> {1..BSHIFT_CAP}. hpd_live (hp ! ((home (length hp) h + (j + k)) mod length hp))))"

lemma walk_0 [simp]: "walk hp h 0"
  by (simp add: walk_def path_clear_def)

lemma path_clear_Suc:
  "path_clear hp h (Suc d) \<longleftrightarrow>
    path_clear hp h d \<and> passable hp ((home (length hp) h + d) mod length hp) d"
  by (auto simp: path_clear_def less_Suc_eq)

lemma walk_live:
  assumes "walk hp h d" and live: "hpd_live (hp ! ((home (length hp) h + d) mod length hp))"
    and "d \<le> pd (hp ! ((home (length hp) h + d) mod length hp))"
  shows "walk hp h (Suc d)"
proof -
  have "path_clear hp h (Suc d)"
    using assms by (simp add: walk_def path_clear_Suc passable_def)
  moreover have "\<not> (\<forall>i. j \<le> i \<and> i < Suc d \<longrightarrow> hpd_tomb (hp ! ((home (length hp) h + i) mod length hp)))"
    if "j < Suc d" for j
    using live that by (metis less_Suc_eq_le lessI slot_excl(3))
  ultimately show ?thesis unfolding walk_def by blast
qed

lemma walk_tomb:
  assumes w: "walk hp h d" and tomb: "hpd_tomb (hp ! ((home (length hp) h + d) mod length hp))"
    and k: "1 \<le> k" "k \<le> BSHIFT_CAP" "hpd_live (hp ! ((home (length hp) h + (d + k)) mod length hp))"
  shows "walk hp h (Suc d)"
proof -
  let ?a = "home (length hp) h" and ?n = "length hp"
  have "path_clear hp h (Suc d)"
    using w tomb by (auto simp: walk_def path_clear_Suc passable_def)
  moreover have "\<exists>k \<in> {1..BSHIFT_CAP}. hpd_live (hp ! ((?a + (j + k)) mod ?n))"
    if "j < Suc d" "\<forall>i. j \<le> i \<and> i < Suc d \<longrightarrow> hpd_tomb (hp ! ((?a + i) mod ?n))" for j
  proof (cases "j = d")
    case True
    then show ?thesis using k by auto
  next
    case False
    then show ?thesis using w that unfolding walk_def by (metis less_SucE less_Suc_eq)
  qed
  ultimately show ?thesis unfolding walk_def by blast
qed

lemma walk_swap:
  assumes inv: "probe_inv hp" and i: "i < length hp" "hpd_live (hp ! i)" "hpd_live h"
    and d: "pd (hp ! i) < d" "d < 65536"
  shows "walk (hp[i := hpd_pack h (word_of_nat d)]) (hpd_hash (hp ! i)) (Suc (pd (hp ! i)))"
proof -
  let ?w = "hp ! i" and ?hp = "hp[i := hpd_pack h (word_of_nat d)]" and ?n = "length hp"
  have ok: "pd ?w < ?n" "(home ?n ?w + pd ?w) mod ?n = i" "path_clear hp ?w (pd ?w)"
    using inv i by (auto simp: probe_inv_def entry_ok_def Let_def)
  have "path_clear ?hp ?w (pd ?w)"
    using ok(3) i d pd_pack_nat [OF d(2), of h] by (intro path_clear_update) auto
  then have "path_clear ?hp (hpd_hash ?w) (Suc (pd ?w))"
    using ok(2) i d pd_pack_nat [OF d(2), of h]
    by (simp add: path_clear_Suc passable_def) (simp add: path_clear_def)
  moreover have "\<not> (\<forall>q. j \<le> q \<and> q < Suc (pd ?w) \<longrightarrow> hpd_tomb (?hp ! ((home ?n ?w + q) mod ?n)))"
    if "j < Suc (pd ?w)" for j
  proof -
    have "\<not> hpd_tomb (?hp ! ((home ?n ?w + pd ?w) mod ?n))" using ok(2) i by simp
    then show ?thesis using that by (metis less_Suc_eq_le lessI)
  qed
  ultimately show ?thesis unfolding walk_def by simp blast
qed

lemma gap_inv_put:
  assumes gap: "gap_inv hp" and w: "walk hp h d" and h: "hpd_live h"
    and i: "i = (home (length hp) h + d) mod length hp" and d: "d < length hp" "d < 65536"
  shows "gap_inv (hp[i := hpd_pack h (word_of_nat d)])"
proof -
  let ?w = "hpd_pack h (word_of_nat d)" and ?n = "length hp"
  let ?hp = "hp[i := ?w]" and ?a = "home (length hp) h"
  have "0 < ?n" using d(1) by linarith
  then have i_less: "i < ?n" using i by simp
  have keep: "\<not> hpd_tomb (?hp ! q)" if "\<not> hpd_tomb (hp ! q)" for q
    using that h i_less by (simp add: nth_list_update_if)
  have "\<exists>k \<in> {1..BSHIFT_CAP + 1}. \<not> hpd_tomb (hp ! ((?a + (d - k)) mod ?n))" if big: "BSHIFT_CAP < d"
  proof (rule ccontr)
    assume no: "\<not> ?thesis"
    define j where "j = d - (BSHIFT_CAP + 1)"
    have tomb: "hpd_tomb (hp ! ((?a + q) mod ?n))" if "j \<le> q" "q < d" for q
    proof -
      have "d - q \<in> {1..BSHIFT_CAP + 1}" "d - (d - q) = q" using that big by (auto simp: j_def)
      then show ?thesis using no by metis
    qed
    moreover have "j < d" using big by (simp add: j_def)
    ultimately obtain k where k: "k \<in> {1..BSHIFT_CAP}" "hpd_live (hp ! ((?a + (j + k)) mod ?n))"
      using w unfolding walk_def by blast
    moreover have "hpd_tomb (hp ! ((?a + (j + k)) mod ?n))"
      using k big by (intro tomb) (auto simp: j_def)
    ultimately show False by simp
  qed
  then have new: "BSHIFT_CAP < pd ?w \<longrightarrow>
      (\<exists>k \<in> {1..BSHIFT_CAP + 1}. \<not> hpd_tomb (?hp ! ((home ?n ?w + (pd ?w - k)) mod ?n)))"
    using keep pd_pack_nat [OF d(2), of h] by (metis home_pack)
  show ?thesis
    unfolding gap_inv_def
  proof (intro allI impI)
    fix q assume q: "q < length ?hp" "hpd_live (?hp ! q)" "BSHIFT_CAP < pd (?hp ! q)"
    show "\<exists>k \<in> {1..BSHIFT_CAP + 1}.
        \<not> hpd_tomb (?hp ! ((home (length ?hp) (?hp ! q) + (pd (?hp ! q) - k)) mod length ?hp))"
    proof (cases "q = i")
      case True
      then show ?thesis using new q i_less by simp
    next
      case False
      then show ?thesis using gap q keep unfolding gap_inv_def
        by (metis length_list_update nth_list_update_neq)
    qed
  qed
qed

section \<open>Effect of the slot writes on the whole table\<close>

text \<open>The fields an insertion does not touch.\<close>

definition same_config :: "ht_bare \<Rightarrow> ht_bare \<Rightarrow> bool" where
  "same_config t t' \<longleftrightarrow>
     capacity t' = capacity t \<and> max_load_factor t' = max_load_factor t \<and>
     min_load_factor t' = min_load_factor t \<and> tomb_threshold t' = tomb_threshold t \<and>
     zombie_window t' = zombie_window t \<and> max_probe_dist t' = max_probe_dist t \<and>
     resizing t' = resizing t \<and> allocs t' = allocs t"

definition same_spill :: "ht_bare \<Rightarrow> ht_bare \<Rightarrow> bool" where
  "same_spill t t' \<longleftrightarrow>
     spill_hash_pd t' = spill_hash_pd t \<and> spill_vals t' = spill_vals t \<and>
     spill_cap t' = spill_cap t \<and> spill_len t' = spill_len t \<and>
     spill_in_block t' = spill_in_block t"

text \<open>\<open>t'\<close> is \<open>t\<close> with the entry \<open>(h, v)\<close> added.\<close>

definition inserted :: "ht_bare \<Rightarrow> u64 \<Rightarrow> u32 \<Rightarrow> ht_bare \<Rightarrow> bool" where
  "inserted t h v t' \<longleftrightarrow>
     bare_inv t' \<and> gap_ok t' \<and> contents t' = add_mset (h, v) (contents t) \<and>
     same_config t t' \<and> same_spill t t' \<and> tombs t' \<le> tombs t"

lemma same_frame_refl [simp]: "same_config t t" "same_spill t t"
  by (simp_all add: same_config_def same_spill_def)

lemma same_config_trans: "same_config a b \<Longrightarrow> same_config b c \<Longrightarrow> same_config a c"
  by (simp add: same_config_def)

lemma same_spill_trans: "same_spill a b \<Longrightarrow> same_spill b c \<Longrightarrow> same_spill a c"
  by (simp add: same_spill_def)

text \<open>An intermediate table: same entries plus the entry in hand.\<close>

lemma inserted_trans:
  assumes "add_mset (h, v) (contents t) = add_mset (h', v') (contents t1)"
    and "same_config t t1" "same_spill t t1" "tombs t1 \<le> tombs t" "inserted t1 h' v' t2"
  shows "inserted t h v t2"
  using assms unfolding inserted_def
  by (auto intro: same_config_trans same_spill_trans)

lemma put_slot_fields [simp]:
  "hash_pd (put_slot t i h d v) = (hash_pd t)[i := hpd_pack h (word_of_nat d)]"
  "vals (put_slot t i h d v) = (vals t)[i := v]"
  "capacity (put_slot t i h d v) = capacity t"
  "overflow_violated (put_slot t i h d v) = overflow_violated t"
  "overflow_len (put_slot t i h d v) = overflow_len t"
  "max_probe_dist (put_slot t i h d v) = max_probe_dist t"
  "tsize (put_slot t i h d v) = tsize t"
  "tombstone_cnt (put_slot t i h d v) = tombstone_cnt t"
  "over_limit (put_slot t i h d v) x = over_limit t x"
  "spill_entries (put_slot t i h d v) = spill_entries t"
  "overflow_entries (put_slot t i h d v) = overflow_entries t"
  "same_config t (put_slot t i h d v)" "same_spill t (put_slot t i h d v)"
  by (simp_all add: put_slot_def over_limit_def spill_entries_def overflow_entries_def
      same_config_def same_spill_def)

lemma shape_put_slot [simp]: "shape_ok (put_slot t i h d v) = shape_ok t"
  by (simp add: shape_ok_def put_slot_def)

lemma contents_put_slot:
  assumes "shape_ok t" "i < capacity t" "hpd_live h" "hpd_hash h = h"
  shows "contents (put_slot t i h d v) +
      (if hpd_live (hash_pd t ! i) then {#(hpd_hash (hash_pd t ! i), vals t ! i)#} else {#}) =
    add_mset (h, v) (contents t)"
proof -
  have "main_mset ((hash_pd t)[i := hpd_pack h (word_of_nat d)]) ((vals t)[i := v]) +
      (if hpd_live (hash_pd t ! i) then {#(hpd_hash (hash_pd t ! i), vals t ! i)#} else {#}) =
      main_mset (hash_pd t) (vals t) + {#(h, v)#}"
    using main_mset_update [of i "hash_pd t" "vals t" "hpd_pack h (word_of_nat d)" v] assms
    by (simp add: shape_okD)
  then show ?thesis by (simp add: contents_def ac_simps split: if_splits)
qed

lemma tombs_put_slot:
  assumes "shape_ok t" "i < capacity t" "hpd_live h"
  shows "tombs (put_slot t i h d v) + of_bool (hpd_tomb (hash_pd t ! i)) = tombs t"
  using length_filter_update [of i "hash_pd t" hpd_tomb "hpd_pack h (word_of_nat d)"] assms
  by (simp add: tombs_def shape_okD)

lemma values_ok_put_slot:
  assumes "shape_ok t" "values_ok t" "i < capacity t" "v \<noteq> VAL_NONE"
  shows "values_ok (put_slot t i h d v)"
  using assms by (auto simp: values_ok_def shape_okD nth_list_update_if)

lemma bounded_ok_put_slot:
  assumes "shape_ok t" "bounded_ok t" "d < 65536" "overflow_violated t \<or> \<not> over_limit t d"
    and "i < capacity t"
  shows "bounded_ok (put_slot t i h d v)"
  using assms pd_pack_nat [OF assms(3), of h]
  by (auto simp: bounded_ok_def shape_okD nth_list_update_if)

text \<open>The part of the invariant that does not mention the counters.\<close>

lemma inv_put_slot:
  assumes inv: "bare_inv t" and gap: "gap_ok t" and w: "walk (hash_pd t) h d"
    and i: "i = (home (capacity t) h + d) mod capacity t" "d < capacity t" "d < 65536"
    and h: "hpd_live h" and v: "v \<noteq> VAL_NONE"
    and disp: "displaces (hash_pd t) i d" and lim: "overflow_violated t \<or> \<not> over_limit t d"
  shows "shape_ok (put_slot t i h d v)" "probe_inv (hash_pd (put_slot t i h d v))"
    and "values_ok (put_slot t i h d v)" "bounded_ok (put_slot t i h d v)"
    and "gap_ok (put_slot t i h d v)"
proof -
  have t: "shape_ok t" "probe_inv (hash_pd t)" "values_ok t" "bounded_ok t"
    using inv by (simp_all add: bare_invD)
  then have n: "length (hash_pd t) = capacity t" "i < capacity t"
    using i by (simp_all add: shape_okD)
  show "shape_ok (put_slot t i h d v)" using t by simp
  show "probe_inv (hash_pd (put_slot t i h d v))"
    using probe_inv_put [OF t(2) _ _ i(3) _ h disp] w i n by (simp add: walk_def)
  show "values_ok (put_slot t i h d v)" using t n v by (simp add: values_ok_put_slot)
  show "bounded_ok (put_slot t i h d v)" using t i n lim by (simp add: bounded_ok_put_slot)
  show "gap_ok (put_slot t i h d v)"
    using gap_inv_put [OF _ w h] gap i n by (simp add: gap_ok_def)
qed

lemma counter_upd [simp]:
  "shape_ok (t\<lparr>tsize := x\<rparr>) = shape_ok t" "shape_ok (t\<lparr>tombstone_cnt := x\<rparr>) = shape_ok t"
  "values_ok (t\<lparr>tsize := x\<rparr>) = values_ok t" "values_ok (t\<lparr>tombstone_cnt := x\<rparr>) = values_ok t"
  "bounded_ok (t\<lparr>tsize := x\<rparr>) = bounded_ok t" "bounded_ok (t\<lparr>tombstone_cnt := x\<rparr>) = bounded_ok t"
  "contents (t\<lparr>tsize := x\<rparr>) = contents t" "contents (t\<lparr>tombstone_cnt := x\<rparr>) = contents t"
  "tombs (t\<lparr>tsize := x\<rparr>) = tombs t" "tombs (t\<lparr>tombstone_cnt := x\<rparr>) = tombs t"
  "gap_ok (t\<lparr>tsize := x\<rparr>) = gap_ok t" "gap_ok (t\<lparr>tombstone_cnt := x\<rparr>) = gap_ok t"
  "put_slot (t\<lparr>tombstone_cnt := x\<rparr>) i h d v = (put_slot t i h d v)\<lparr>tombstone_cnt := x\<rparr>"
  "over_limit (t\<lparr>tombstone_cnt := x\<rparr>) d = over_limit t d"
  "same_config t (t'\<lparr>tsize := x\<rparr>) = same_config t t'"
  "same_config t (t'\<lparr>tombstone_cnt := x\<rparr>) = same_config t t'"
  "same_spill t (t'\<lparr>tsize := x\<rparr>) = same_spill t t'"
  "same_spill t (t'\<lparr>tombstone_cnt := x\<rparr>) = same_spill t t'"
  by (simp_all add: shape_ok_def values_ok_def bounded_ok_def contents_def tombs_def gap_ok_def
      put_slot_def over_limit_def spill_entries_def overflow_entries_def same_config_def
      same_spill_def)

lemma size_contents:
  assumes "shape_ok t"
  shows "size (contents t) = length (filter hpd_live (hash_pd t)) + spill_len t + overflow_len t"
  using assms
  by (simp add: contents_def size_main_mset shape_okD spill_entries_def overflow_entries_def)

lemma tsize_bound: "bare_inv t \<Longrightarrow> tsize t + 1 < 2 ^ 63"
proof -
  assume "bare_inv t"
  then have s: "shape_ok t" and c: "tsize t = size (contents t)"
    by (simp_all add: bare_invD counts_ok_def [symmetric]) (simp add: bare_inv_def counts_ok_def)
  have "length (filter hpd_live (hash_pd t)) \<le> capacity t"
    using length_filter_le [of hpd_live "hash_pd t"] s by (simp add: shape_okD)
  moreover have "capacity t * 12 < 2 ^ 64" using pow2_cap_bound s by (simp add: shape_okD)
  ultimately show ?thesis
    using c size_contents [OF s] shape_okD(6,7,10) [OF s] by (simp add: HT_OVERFLOW_STASH_CAP_def)
qed

lemma counts_okD: "bare_inv t \<Longrightarrow> tsize t = size (contents t)" "bare_inv t \<Longrightarrow> tombstone_cnt t = tombs t"
  by (simp_all add: bare_inv_def counts_ok_def)

lemma tombs_bound: "shape_ok t \<Longrightarrow> tombs t < 2 ^ 63"
proof -
  assume s: "shape_ok t"
  have "tombs t \<le> capacity t"
    using length_filter_le [of hpd_tomb "hash_pd t"] s by (simp add: tombs_def shape_okD)
  then show ?thesis using pow2_cap_bound [of "capacity t"] s by (simp add: shape_okD)
qed

text \<open>The write that ends an insertion, into an empty slot or a tombstone.\<close>

definition place :: "ht_bare \<Rightarrow> nat \<Rightarrow> u64 \<Rightarrow> nat \<Rightarrow> u32 \<Rightarrow> ht_bare" where
  "place t i h d v =
     (let t1 = (if hpd_tomb (hash_pd t ! i)
                then t\<lparr>tombstone_cnt := sz_sub (tombstone_cnt t) 1\<rparr> else t)
      in (put_slot t1 i h d v)\<lparr>tsize := sz_add (tsize t1) 1\<rparr>)"

lemma place_inserted:
  assumes inv: "bare_inv t" and gap: "gap_ok t" and w: "walk (hash_pd t) h d"
    and i: "i = (home (capacity t) h + d) mod capacity t" "d < capacity t" "d < 65536"
    and h: "hpd_live h" "hpd_hash h = h" and v: "v \<noteq> VAL_NONE"
    and disp: "displaces (hash_pd t) i d" and lim: "overflow_violated t \<or> \<not> over_limit t d"
    and free: "\<not> hpd_live (hash_pd t ! i)"
  shows "inserted t h v (place t i h d v)"
proof -
  let ?p = "put_slot t i h d v"
  note p = inv_put_slot [OF inv gap w i h(1) v disp lim]
  have s: "shape_ok t" using inv by (simp add: bare_invD)
  then have i_less: "i < capacity t" using i by (simp add: shape_okD)
  have c: "contents ?p = add_mset (h, v) (contents t)"
    using contents_put_slot [OF s i_less h, of d v] free by simp
  have tm: "tombs ?p + of_bool (hpd_tomb (hash_pd t ! i)) = tombs t"
    using tombs_put_slot [OF s i_less h(1)] .
  have "sz_add (tsize t) 1 = size (contents ?p)"
    using tsize_bound [OF inv] counts_okD(1) [OF inv] c by (simp add: sz_simps)
  moreover have "(if hpd_tomb (hash_pd t ! i) then sz_sub (tombstone_cnt t) 1 else tombstone_cnt t) = tombs ?p"
    using counts_okD(2) [OF inv] tm tombs_bound [OF s] by (auto simp: sz_simps)
  ultimately have "bare_inv (place t i h d v)"
    using p by (auto simp: bare_inv_def counts_ok_def place_def Let_def)
  moreover have "gap_ok (place t i h d v)" "contents (place t i h d v) = add_mset (h, v) (contents t)"
    "same_config t (place t i h d v)" "same_spill t (place t i h d v)" "tombs (place t i h d v) \<le> tombs t"
    using p c tm by (auto simp: place_def Let_def)
  ultimately show ?thesis by (simp add: inserted_def)
qed

text \<open>The write that displaces a live entry, which becomes the entry in hand.\<close>

lemma swap_step:
  assumes inv: "bare_inv t" and gap: "gap_ok t" and w: "walk (hash_pd t) h d"
    and i: "i = (home (capacity t) h + d) mod capacity t" "d < capacity t" "d < 65536"
    and h: "hpd_live h" "hpd_hash h = h" and v: "v \<noteq> VAL_NONE"
    and lim: "overflow_violated t \<or> \<not> over_limit t d"
    and live: "hpd_live (hash_pd t ! i)" "pd (hash_pd t ! i) < d"
  defines "t1 \<equiv> put_slot t i h d v" and "w1 \<equiv> hash_pd t ! i"
  shows "bare_inv t1" "gap_ok t1" "walk (hash_pd t1) (hpd_hash w1) (Suc (pd w1))"
    and "add_mset (h, v) (contents t) = add_mset (hpd_hash w1, vals t ! i) (contents t1)"
    and "hpd_live (hpd_hash w1)" "vals t ! i \<noteq> VAL_NONE" "tombs t1 = tombs t"
    and "(home (capacity t) w1 + Suc (pd w1)) mod capacity t = (i + 1) mod capacity t"
proof -
  have t: "shape_ok t" "probe_inv (hash_pd t)" "values_ok t" using inv by (simp_all add: bare_invD)
  then have n: "length (hash_pd t) = capacity t" "i < capacity t" using i by (simp_all add: shape_okD)
  have disp: "displaces (hash_pd t) i d" using t(2) live by (simp add: displaces_live)
  note p = inv_put_slot [OF inv gap w i h(1) v disp lim]
  show c: "add_mset (h, v) (contents t) = add_mset (hpd_hash w1, vals t ! i) (contents t1)"
    using contents_put_slot [OF t(1) n(2) h, of d v] live by (simp add: t1_def w1_def)
  show tm: "tombs t1 = tombs t"
    using tombs_put_slot [OF t(1) n(2) h(1), of d v] live by (simp add: t1_def)
  have "size (contents t1) = size (contents t)" using arg_cong [OF c, of size] by simp
  then show "bare_inv t1"
    using p counts_okD [OF inv] tm by (simp add: bare_inv_def counts_ok_def t1_def)
  show "gap_ok t1" using p by (simp add: t1_def)
  show "walk (hash_pd t1) (hpd_hash w1) (Suc (pd w1))"
    using walk_swap [OF t(2) _ live(1) h(1) live(2) i(3)] n by (simp add: t1_def w1_def)
  show "hpd_live (hpd_hash w1)" using live by (simp add: w1_def hpd_live_def)
  show "vals t ! i \<noteq> VAL_NONE" using t(3) n live by (simp add: values_ok_def)
  have "(home (capacity t) w1 + pd w1) mod capacity t = i"
    using t(2) n live by (simp add: w1_def probe_inv_def entry_ok_def Let_def)
  then show "(home (capacity t) w1 + Suc (pd w1)) mod capacity t = (i + 1) mod capacity t"
    using mod_shift [of _ "pd w1" _ i 1] by simp
qed

section \<open>The insertion loops\<close>

lemma next_slot:
  "shape_ok t \<Longrightarrow> wrap (capacity t) ((home (capacity t) h + d) mod capacity t + 1) =
    (home (capacity t) h + Suc d) mod capacity t"
  by (simp add: wrap_cap mod_Suc_eq)

text \<open>What a loop knows when the slot it looks at is free to take.\<close>

lemma free_displaces:
  assumes "bare_inv t" "gap_ok t" "\<not> hpd_live (hash_pd t ! i)"
    and "hpd_tomb (hash_pd t ! i) \<Longrightarrow> \<not> tomb_blocked t i d"
  shows "displaces (hash_pd t) i d"
  using assms displaces_tomb [of t i d] displaces_empty [of "hash_pd t" i d]
    not_live_iff [of "hash_pd t ! i"]
  by (auto simp: gap_ok_def bare_invD)

text \<open>What it knows after passing a blocked tombstone.\<close>

lemma blocked_step:
  assumes inv: "bare_inv t" and w: "walk (hash_pd t) h d"
    and i: "i = (home (capacity t) h + d) mod capacity t"
    and tomb: "hpd_tomb (hash_pd t ! i)" and b: "tomb_blocked t i d"
  shows "walk (hash_pd t) h (Suc d)"
    and "\<exists>q < capacity t. hpd_live (hash_pd t ! q) \<and> Suc d < pd (hash_pd t ! q) \<and>
      (\<exists>j < pd (hash_pd t ! q). (home (capacity t) (hash_pd t ! q) + j) mod capacity t = i)"
proof -
  have s: "shape_ok t" using inv by (simp add: bare_invD)
  obtain k where k: "1 \<le> k" "k \<le> BSHIFT_CAP" "hpd_live (hash_pd t ! wrap (capacity t) (i + k))"
    and far: "d + k < pd (hash_pd t ! wrap (capacity t) (i + k))"
    using b by (rule tomb_blockedE)
  have pos: "wrap (capacity t) (i + k) = (home (capacity t) h + (d + k)) mod capacity t"
    using i by (simp add: wrap_cap [OF s] mod_add_left_eq add.assoc)
  show "walk (hash_pd t) h (Suc d)"
    using walk_tomb [OF w _ k(1,2)] tomb k(3) i s pos by (simp add: shape_okD)
  let ?q = "(home (capacity t) h + (d + k)) mod capacity t"
  have q: "?q < capacity t" "hpd_live (hash_pd t ! ?q)" "d + k < pd (hash_pd t ! ?q)"
    using s k(3) far pos by (simp_all add: shape_okD)
  then have "(home (capacity t) (hash_pd t ! ?q) + pd (hash_pd t ! ?q)) mod capacity t = ?q"
    using bare_invD(2) [OF inv] s by (simp add: probe_inv_def entry_ok_def Let_def shape_okD)
  then have "(home (capacity t) (hash_pd t ! ?q) + (pd (hash_pd t ! ?q) - k)) mod capacity t =
      (home (capacity t) h + (d + k - k)) mod capacity t"
    by (rule mod_sub_same) (use q(3) in auto)
  then show "\<exists>q < capacity t. hpd_live (hash_pd t ! q) \<and> Suc d < pd (hash_pd t ! q) \<and>
      (\<exists>j < pd (hash_pd t ! q). (home (capacity t) (hash_pd t ! q) + j) mod capacity t = i)"
    using q k(1) i by (intro exI [of _ ?q] conjI exI [of _ "pd (hash_pd t ! ?q) - k"]) auto
qed

lemma rh_unbounded_loop_ok:
  assumes "bare_inv t" "gap_ok t" "walk (hash_pd t) h d"
    and "d + r < capacity t" "capacity t \<le> 65536"
    and "hpd_empty (hash_pd t ! ((home (capacity t) h + (d + r)) mod capacity t))"
    and "hpd_live h" "hpd_hash h = h" "v \<noteq> VAL_NONE" "overflow_violated t"
  shows "\<exists>t'. rh_unbounded_loop resize t h v ((home (capacity t) h + d) mod capacity t) d = Some (True, t') \<and>
    inserted t h v t'"
  using assms
proof (induction r arbitrary: t h v d)
  case (0 t h v d)
  let ?i = "(home (capacity t) h + d) mod capacity t"
  have e: "hpd_empty (hash_pd t ! ?i)" using "0.prems" by simp
  then have nl: "\<not> hpd_live (hash_pd t ! ?i)" "\<not> hpd_tomb (hash_pd t ! ?i)"
    using slot_excl by blast+
  have "inserted t h v (place t ?i h d v)"
    using "0.prems" nl by (intro place_inserted free_displaces) auto
  then show ?case
    using nl by (subst rh_unbounded_loop.simps) (simp add: available_iff place_def Let_def)
next
  case (Suc r t h v d)
  let ?i = "(home (capacity t) h + d) mod capacity t"
  let ?w = "hash_pd t ! ?i"
  have s: "shape_ok t" using Suc.prems(1) by (simp add: bare_invD)
  have d: "d < capacity t" "d < 65536" "inc16 d = Suc d" "\<not> Suc d > capacity t"
    using Suc.prems(4,5) by (simp_all add: inc16_small)
  note nxt = next_slot [OF s, of h d]
  have step: ?case if "walk (hash_pd t) h (Suc d)"
    and "rh_unbounded_loop resize t h v ?i d =
      rh_unbounded_loop resize t h v (wrap (capacity t) (?i + 1)) (inc16 d)"
    using Suc.IH [of t h "Suc d" v] Suc.prems that d nxt by simp
  show ?case
  proof (cases "hpd_live ?w")
    case False
    show ?thesis
    proof (cases "hpd_tomb ?w \<and> tomb_blocked t ?i d")
      case True
      then show ?thesis
        using False blocked_step(1) [OF Suc.prems(1,3) refl]
        by (intro step) (auto simp: available_iff Let_def rh_unbounded_loop.simps [of _ _ _ _ ?i])
    next
      case free: False
      have "inserted t h v (place t ?i h d v)"
        using Suc.prems False free d by (intro place_inserted free_displaces) auto
      then show ?thesis
        using False free by (subst rh_unbounded_loop.simps) (auto simp: available_iff place_def Let_def)
    qed
  next
    case live: True
    show ?thesis
    proof (cases "pd ?w < d")
      case False
      then show ?thesis
        using live d walk_live [OF Suc.prems(3)] s
        by (intro step) (auto simp: available_iff Let_def shape_okD rh_unbounded_loop.simps [of _ _ _ _ ?i])
    next
      case True
      let ?t1 = "put_slot t ?i h d v"
      note sw = swap_step [OF Suc.prems(1-3) refl d(1,2) Suc.prems(7-9) disjI1 [OF Suc.prems(10)] live True]
      have ne: "(home (capacity t) h + (d + Suc r)) mod capacity t \<noteq> ?i"
        using mod_add_cancel [of "d + Suc r" "capacity t" d "home (capacity t) h"] Suc.prems(4) by auto
      have pos: "(home (capacity t) ?w + (Suc (pd ?w) + r)) mod capacity t =
          (home (capacity t) h + (d + Suc r)) mod capacity t"
        using mod_shift [OF sw(8), of r] mod_shift [of "home (capacity t) h" d "capacity t" ?i "Suc r"]
        by (simp add: mod_Suc_eq mod_add_left_eq add.assoc)
      have "\<exists>t'. rh_unbounded_loop resize ?t1 (hpd_hash ?w) (vals t ! ?i)
          ((home (capacity ?t1) (hpd_hash ?w) + Suc (pd ?w)) mod capacity ?t1) (Suc (pd ?w)) = Some (True, t') \<and>
          inserted ?t1 (hpd_hash ?w) (vals t ! ?i) t'"
        using Suc.prems sw True d pos ne by (intro Suc.IH) auto
      then obtain t' where t': "rh_unbounded_loop resize ?t1 (hpd_hash ?w) (vals t ! ?i)
          (wrap (capacity t) (?i + 1)) (Suc (pd ?w)) = Some (True, t')"
        "inserted ?t1 (hpd_hash ?w) (vals t ! ?i) t'"
        using sw(8) by (auto simp: wrap_cap [OF s])
      moreover have "inserted t h v t'"
        using sw(4,7) t'(2) by (intro inserted_trans [OF sw(4)]) auto
      ultimately show ?thesis
        using live True d by (subst rh_unbounded_loop.simps) (simp add: available_iff Let_def inc16_small)
    qed
  qed
qed

section \<open>Stash and bounded insertion\<close>

lemma side_entries_snoc:
  assumes "len < length hs" "length vs = length hs"
  shows "side_entries (hs[len := w]) (vs[len := v]) (len + 1) = side_entries hs vs len @ [(hpd_hash w, v)]"
  using assms
  by (simp add: side_entries_def take_Suc_conv_app_nth map_update zip_update take_zip)

lemma overflow_stash_insert_ok:
  assumes inv: "bare_inv t" and gap: "gap_ok t" and room: "overflow_len t < HT_OVERFLOW_STASH_CAP"
    and h: "hpd_live h" "hpd_hash h = h" and v: "v \<noteq> VAL_NONE"
  shows "fst (overflow_stash_insert t h v)" "inserted t h v (snd (overflow_stash_insert t h v))"
proof -
  let ?t = "snd (overflow_stash_insert t h v)"
  have t: "shape_ok t" "probe_inv (hash_pd t)" "values_ok t" "bounded_ok t" "counts_ok t"
    using inv by (simp_all add: bare_invD)
  show "fst (overflow_stash_insert t h v)" using room by (simp add: overflow_stash_insert_def)
  have e: "overflow_entries ?t = overflow_entries t @ [(h, v)]"
    using room side_entries_snoc [of "overflow_len t" "overflow_hash_pd t" "overflow_vals t" "hpd_pack h 0" v] t(1) h
    by (simp add: overflow_stash_insert_def overflow_entries_def shape_okD)
  have f: "hash_pd ?t = hash_pd t" "vals ?t = vals t" "spill_entries ?t = spill_entries t"
    "same_config t ?t" "same_spill t ?t" "shape_ok ?t" "capacity ?t = capacity t" "bounded_ok ?t"
    "tsize ?t = sz_add (tsize t) 1" "tombstone_cnt ?t = tombstone_cnt t"
    using t room
    by (auto simp: overflow_stash_insert_def spill_entries_def same_config_def same_spill_def shape_ok_def
        bounded_ok_def over_limit_def)
  have c: "contents ?t = add_mset (h, v) (contents t)" using e f by (simp add: contents_def)
  moreover have "values_ok ?t" using t(3) e f h v by (auto simp: values_ok_def)
  moreover have "tsize ?t = size (contents ?t)"
    using f tsize_bound [OF inv] counts_okD(1) [OF inv] c by (simp add: sz_simps)
  moreover have "tombs ?t = tombs t" using f by (simp add: tombs_def)
  ultimately show "inserted t h v ?t"
    using f t gap counts_okD(2) [OF inv] by (simp add: inserted_def bare_inv_def counts_ok_def gap_ok_def)
qed

lemma set_violated:
  assumes "bare_inv t"
  shows "bare_inv (t\<lparr>overflow_violated := True\<rparr>)"
    and "contents (t\<lparr>overflow_violated := True\<rparr>) = contents t"
    and "inserted (t\<lparr>overflow_violated := True\<rparr>) h v t' = inserted t h v t'"
proof -
  show c: "contents (t\<lparr>overflow_violated := True\<rparr>) = contents t"
    by (simp add: contents_def spill_entries_def overflow_entries_def)
  show "inserted (t\<lparr>overflow_violated := True\<rparr>) h v t' = inserted t h v t'"
    using c by (simp add: inserted_def same_config_def same_spill_def tombs_def)
  show "bare_inv (t\<lparr>overflow_violated := True\<rparr>)"
    using assms c
    by (auto simp: bare_inv_def shape_ok_def values_ok_def bounded_ok_def counts_ok_def tombs_def
        spill_entries_def overflow_entries_def)
qed

lemma has_emptyI: "shape_ok t \<Longrightarrow> i < capacity t \<Longrightarrow> hpd_empty (hash_pd t ! i) \<Longrightarrow> has_empty t"
  by (auto simp: has_empty_def list_ex_length shape_okD)

lemma has_emptyE:
  assumes "shape_ok t" "has_empty t"
  obtains r where "r < capacity t" "hpd_empty (hash_pd t ! ((home (capacity t) h + r) mod capacity t))"
proof -
  obtain e where e: "e < capacity t" "hpd_empty (hash_pd t ! e)"
    using assms by (auto simp: has_empty_def list_ex_length shape_okD)
  obtain r where "r < capacity t" "(home (capacity t) h + r) mod capacity t = e"
    using assms(1) e by (rule_tac mod_reach [of "home (capacity t) h" "capacity t" e]) (auto simp: shape_okD)
  then show thesis using that e by simp
qed

lemma start_slot: "shape_ok t \<Longrightarrow> hpd_hash h = h \<Longrightarrow> wrap (capacity t) (unat h) = home (capacity t) h mod capacity t"
  by (simp add: wrap_cap home_def)

lemma stash_or_unbounded_ok:
  assumes inv: "bare_inv t" and gap: "gap_ok t" and e: "has_empty t" and cap: "capacity t \<le> 65536"
    and h: "hpd_live h" "hpd_hash h = h" and v: "v \<noteq> VAL_NONE"
  shows "\<exists>t'. stash_or_unbounded resize t h v = Some (True, t') \<and> inserted t h v t'"
proof (cases "overflow_len t < HT_OVERFLOW_STASH_CAP")
  case True
  then show ?thesis
    using overflow_stash_insert_ok [OF inv gap True h v]
    by (auto simp: stash_or_unbounded_def case_prod_beta)
next
  case False
  let ?t = "t\<lparr>overflow_violated := True\<rparr>"
  have s: "shape_ok t" using inv by (simp add: bare_invD)
  obtain r where r: "r < capacity t" "hpd_empty (hash_pd t ! ((home (capacity t) h + r) mod capacity t))"
    using s e by (rule has_emptyE)
  have "\<exists>t'. rh_unbounded_loop resize ?t h v ((home (capacity ?t) h + 0) mod capacity ?t) 0 = Some (True, t') \<and>
      inserted ?t h v t'"
    using set_violated(1) [OF inv] gap r cap h v
    by (intro rh_unbounded_loop_ok [where r = r]) (auto simp: gap_ok_def)
  then show ?thesis
    using False set_violated(3) [OF inv] start_slot [OF s h(2)]
    by (simp add: stash_or_unbounded_def overflow_stash_insert_def bare_rh_insert_unbounded_def)
qed

text \<open>
  The bounded insertion counts a tombstone it reuses before it looks at the distance limit.
  The two agree when no probe distance is over the limit, or when no tombstone lies on the
  probe path of a live slot.
\<close>

definition tomb_free :: "u64 list \<Rightarrow> u64 \<Rightarrow> nat \<Rightarrow> bool" where
  "tomb_free hp h d \<longleftrightarrow> (\<forall>j < d. \<not> hpd_tomb (hp ! ((home (length hp) h + j) mod length hp)))"

definition paths_tomb_free :: "u64 list \<Rightarrow> bool" where
  "paths_tomb_free hp \<longleftrightarrow> (\<forall>i < length hp. hpd_live (hp ! i) \<longrightarrow> tomb_free hp (hp ! i) (pd (hp ! i)))"

definition tomb_safe :: "ht_bare \<Rightarrow> bool" where
  "tomb_safe t \<longleftrightarrow> \<not> overflow_violated t \<or> paths_tomb_free (hash_pd t)"

lemma tomb_free_update:
  "tomb_free hp h d \<Longrightarrow> i < length hp \<Longrightarrow> hpd_live w \<Longrightarrow> tomb_free (hp[i := w]) h d"
  by (simp add: tomb_free_def nth_list_update_if)

lemma tomb_free_Suc:
  "tomb_free hp h (Suc d) \<longleftrightarrow>
    tomb_free hp h d \<and> \<not> hpd_tomb (hp ! ((home (length hp) h + d) mod length hp))"
  by (auto simp: tomb_free_def less_Suc_eq)

lemma paths_tomb_free_put:
  assumes "paths_tomb_free hp" "tomb_free hp h d" "hpd_live h" "i < length hp" "d < 65536"
  shows "paths_tomb_free (hp[i := hpd_pack h (word_of_nat d)])"
proof -
  let ?hp = "hp[i := hpd_pack h (word_of_nat d)]"
  have new: "tomb_free ?hp h d" using assms by (intro tomb_free_update) auto
  have old: "tomb_free ?hp (hp ! k) (pd (hp ! k))" if "k < length hp" "hpd_live (hp ! k)" for k
    using assms that by (intro tomb_free_update) (auto simp: paths_tomb_free_def)
  show ?thesis
    unfolding paths_tomb_free_def
  proof (intro allI impI)
    fix k assume "k < length ?hp" "hpd_live (?hp ! k)"
    then show "tomb_free ?hp (?hp ! k) (pd (?hp ! k))"
      using new old assms pd_pack_nat [OF assms(5), of h]
      by (cases "k = i") (auto simp: tomb_free_def)
  qed
qed

lemma tomb_free_swap:
  assumes "probe_inv hp" "paths_tomb_free hp" "hpd_live h" "i < length hp" "hpd_live (hp ! i)"
  shows "tomb_free (hp[i := hpd_pack h d]) (hpd_hash (hp ! i)) (Suc (pd (hp ! i)))"
proof -
  have "tomb_free (hp[i := hpd_pack h d]) (hp ! i) (pd (hp ! i))"
    using assms by (intro tomb_free_update) (auto simp: paths_tomb_free_def)
  then have "tomb_free (hp[i := hpd_pack h d]) (hp ! i) (Suc (pd (hp ! i)))"
    using assms by (simp add: tomb_free_Suc probe_inv_def entry_ok_def Let_def)
  then show ?thesis by (simp add: tomb_free_def)
qed

lemma over_limit_mono: "\<not> over_limit t y \<Longrightarrow> x \<le> y \<Longrightarrow> \<not> over_limit t x"
  by (auto simp: over_limit_def)

lemma blocked_limit:
  assumes inv: "bare_inv t" and safe: "tomb_safe t" and tomb: "hpd_tomb (hash_pd t ! i)"
    and q: "\<exists>q < capacity t. hpd_live (hash_pd t ! q) \<and> Suc d < pd (hash_pd t ! q) \<and>
      (\<exists>j < pd (hash_pd t ! q). (home (capacity t) (hash_pd t ! q) + j) mod capacity t = i)"
  shows "\<not> over_limit t (Suc d)" "\<not> overflow_violated t"
proof -
  have "\<not> paths_tomb_free (hash_pd t)"
    using q tomb shape_okD(2) [OF bare_invD(1) [OF inv]]
    unfolding paths_tomb_free_def tomb_free_def by metis
  then show nv: "\<not> overflow_violated t" using safe by (simp add: tomb_safe_def)
  then have "\<forall>q < capacity t. hpd_live (hash_pd t ! q) \<longrightarrow> \<not> over_limit t (pd (hash_pd t ! q))"
    using bare_invD(4) [OF inv] by (simp add: bounded_ok_def)
  then show "\<not> over_limit t (Suc d)" using q over_limit_mono by (meson less_imp_le)
qed

lemma rh_bounded_loop_ok:
  assumes "bare_inv t" "gap_ok t" "walk (hash_pd t) h d"
    and "d + r < capacity t" "capacity t \<le> 65536"
    and "hpd_empty (hash_pd t ! ((home (capacity t) h + (d + r)) mod capacity t))"
    and "hpd_live h" "hpd_hash h = h" "v \<noteq> VAL_NONE" "\<not> over_limit t d" "tomb_safe t"
    and "overflow_violated t \<Longrightarrow> tomb_free (hash_pd t) h d"
  shows "\<exists>t'. rh_bounded_loop resize t h v ((home (capacity t) h + d) mod capacity t) d = Some (True, t') \<and>
    inserted t h v t'"
  using assms
proof (induction r arbitrary: t h v d)
  case (0 t h v d)
  let ?i = "(home (capacity t) h + d) mod capacity t"
  have e: "hpd_empty (hash_pd t ! ?i)" using "0.prems" by simp
  then have nl: "\<not> hpd_live (hash_pd t ! ?i)" "\<not> hpd_tomb (hash_pd t ! ?i)"
    using slot_excl by blast+
  have "inserted t h v (place t ?i h d v)"
    using "0.prems" nl by (intro place_inserted free_displaces) auto
  then show ?case
    using nl "0.prems" by (subst rh_bounded_loop.simps) (simp add: available_iff place_def Let_def)
next
  case (Suc r t h v d)
  let ?i = "(home (capacity t) h + d) mod capacity t" and ?e = "(home (capacity t) h + (d + Suc r)) mod capacity t"
  let ?w = "hash_pd t ! ?i"
  have s: "shape_ok t" using Suc.prems(1) by (simp add: bare_invD)
  have d: "d < capacity t" "d < 65536" "inc16 d = Suc d" "\<not> Suc d > capacity t"
    using Suc.prems(4,5) by (simp_all add: inc16_small)
  have i_less: "?i < capacity t" "?e < capacity t" using s by (simp_all add: shape_okD)
  note nxt = next_slot [OF s, of h d]
  have ne: "?e \<noteq> ?i"
    using mod_add_cancel [of "d + Suc r" "capacity t" d "home (capacity t) h"] Suc.prems(4) by auto
  have emp: "has_empty t" using s i_less(2) Suc.prems(6) by (rule has_emptyI)
  have step: ?case if "walk (hash_pd t) h (Suc d)" "\<not> over_limit t (Suc d)"
    and "overflow_violated t \<Longrightarrow> tomb_free (hash_pd t) h (Suc d)"
    and "rh_bounded_loop resize t h v ?i d =
      rh_bounded_loop resize t h v (wrap (capacity t) (?i + 1)) (inc16 d)"
    using Suc.IH [of t h "Suc d" v] Suc.prems that d nxt by simp
  show ?case
  proof (cases "hpd_live ?w")
    case False
    show ?thesis
    proof (cases "hpd_tomb ?w \<and> tomb_blocked t ?i d")
      case True
      note b = blocked_step [OF Suc.prems(1,3) refl conjunct1 [OF True] conjunct2 [OF True]]
      show ?thesis
        using False True b(1) blocked_limit [OF Suc.prems(1,11) conjunct1 [OF True] b(2)]
        by (intro step) (auto simp: available_iff Let_def rh_bounded_loop.simps [of _ _ _ _ ?i])
    next
      case free: False
      have "inserted t h v (place t ?i h d v)"
        using Suc.prems False free d by (intro place_inserted free_displaces) auto
      then show ?thesis
        using False free Suc.prems(10)
        by (subst rh_bounded_loop.simps) (auto simp: available_iff place_def Let_def)
    qed
  next
    case live: True
    show ?thesis
    proof (cases "pd ?w < d")
      case False
      show ?thesis
      proof (cases "over_limit t (Suc d)")
        case True
        then show ?thesis
          using stash_or_unbounded_ok [OF Suc.prems(1,2) emp Suc.prems(5,7,8,9)] live False d
          by (subst rh_bounded_loop.simps) (simp add: available_iff Let_def)
      next
        case lim: False
        show ?thesis
          using live False lim d walk_live [OF Suc.prems(3)] s Suc.prems(12)
          by (intro step) (auto simp: available_iff Let_def shape_okD tomb_free_Suc rh_bounded_loop.simps [of _ _ _ _ ?i])
      qed
    next
      case True
      let ?t1 = "put_slot t ?i h d v"
      note sw = swap_step [OF Suc.prems(1-3) refl d(1,2) Suc.prems(7-9) disjI2 [OF Suc.prems(10)] live True]
      have e1: "hpd_empty (hash_pd ?t1 ! ?e)" using Suc.prems(6) ne by simp
      then have emp1: "has_empty ?t1" using s i_less(2) by (intro has_emptyI [of _ ?e]) auto
      have safe1: "tomb_safe ?t1"
        using Suc.prems(7,11,12) i_less s d by (auto simp: tomb_safe_def shape_okD intro: paths_tomb_free_put)
      have free1: "tomb_free (hash_pd ?t1) (hpd_hash ?w) (Suc (pd ?w))" if "overflow_violated t"
        using tomb_free_swap [OF bare_invD(2) [OF Suc.prems(1)]] that Suc.prems(7,11) i_less live s
        by (simp add: tomb_safe_def shape_okD)
      have trans: "inserted ?t1 (hpd_hash ?w) (vals t ! ?i) t' \<Longrightarrow> inserted t h v t'" for t'
        using sw(4,7) by (intro inserted_trans [OF sw(4)]) auto
      show ?thesis
      proof (cases "over_limit t (Suc (pd ?w))")
        case over: True
        then show ?thesis
          using stash_or_unbounded_ok [OF sw(1,2) emp1 _ sw(5) _ sw(6)] Suc.prems(5) trans live True d
          by (subst rh_bounded_loop.simps) (auto simp: available_iff Let_def inc16_small)
      next
        case lim: False
        have pos: "(home (capacity t) ?w + (Suc (pd ?w) + r)) mod capacity t = ?e"
          using mod_shift [OF sw(8), of r] mod_shift [of "home (capacity t) h" d "capacity t" ?i "Suc r"]
          by (simp add: mod_Suc_eq mod_add_left_eq add.assoc)
        have "\<exists>t'. rh_bounded_loop resize ?t1 (hpd_hash ?w) (vals t ! ?i)
            ((home (capacity ?t1) (hpd_hash ?w) + Suc (pd ?w)) mod capacity ?t1) (Suc (pd ?w)) = Some (True, t') \<and>
            inserted ?t1 (hpd_hash ?w) (vals t ! ?i) t'"
          using Suc.prems sw True d pos e1 lim safe1 free1 by (intro Suc.IH) auto
        then show ?thesis
          using live True d lim trans sw(8)
          by (subst rh_bounded_loop.simps) (auto simp: available_iff Let_def inc16_small wrap_cap [OF s])
      qed
    qed
  qed
qed

text \<open>
  An insertion into a table with an unused slot returns, succeeds, keeps the invariant and
  adds exactly the new entry.
\<close>

lemma bare_rh_insert_with_ok:
  assumes inv: "bare_inv t" and gap: "gap_ok t" and e: "has_empty t" and cap: "capacity t \<le> 65536"
    and h: "hpd_live h" "hpd_hash h = h" and v: "v \<noteq> VAL_NONE" and safe: "tomb_safe t"
  shows "\<exists>t'. bare_rh_insert_with resize t h v = Some (True, t') \<and> inserted t h v t'"
proof -
  have s: "shape_ok t" using inv by (simp add: bare_invD)
  obtain r where r: "r < capacity t" "hpd_empty (hash_pd t ! ((home (capacity t) h + r) mod capacity t))"
    using s e by (rule has_emptyE)
  have "\<exists>t'. rh_bounded_loop resize t h v ((home (capacity t) h + 0) mod capacity t) 0 = Some (True, t') \<and>
      inserted t h v t'"
    using inv gap r cap h v safe
    by (intro rh_bounded_loop_ok [where r = r]) (auto simp: over_limit_def tomb_free_def)
  then show ?thesis
    using start_slot [OF s h(2)] r(1) by (simp add: bare_rh_insert_with_def)
qed

end
