(* ===== verification/Ht_Example.thy ===== *)
theory Ht_Example
  imports Ht_Insert
begin

text \<open>
  A small concrete table on which the hypotheses of the theorems about the bare table hold: a
  probe chain with a swap and a tombstone, an entry in the spill lane and one in the stash.
\<close>

definition ex_table :: ht_bare where
  "ex_table = \<lparr>
     hash_pd = [0, 0, hpd_pack 10 0, hpd_pack 18 1, HASH_TOMB, hpd_pack 26 3, 0, 0],
     vals = [VAL_NONE, VAL_NONE, 0, 1, VAL_NONE, 2, VAL_NONE, VAL_NONE],
     capacity = 8, tsize = 5, tombstone_cnt = 1,
     spill_hash_pd = [hpd_pack 1 0, 0, 0, 0, 0, 0, 0, 0],
     spill_vals = [3, VAL_NONE, VAL_NONE, VAL_NONE, VAL_NONE, VAL_NONE, VAL_NONE, VAL_NONE],
     spill_cap = 8, spill_len = 1, spill_in_block = False,
     max_load_factor = 3 / 4, min_load_factor = 1 / 5, tomb_threshold = 1 / 5,
     zombie_window = 16, max_probe_dist = 3, overflow_len = 1,
     overflow_hash_pd = hpd_pack 34 0 # replicate 31 0,
     overflow_vals = 4 # replicate 31 0,
     overflow_violated = False, resizing = False, allocs = []\<rparr>"

lemma all_less_lit:
  "(\<forall>j < (1::nat). P j) \<longleftrightarrow> P 0"
  "(\<forall>j < (3::nat). P j) \<longleftrightarrow> P 0 \<and> P 1 \<and> P 2"
  "(\<forall>j < (8::nat). P j) \<longleftrightarrow> P 0 \<and> P 1 \<and> P 2 \<and> P 3 \<and> P 4 \<and> P 5 \<and> P 6 \<and> P 7"
  by (simp_all add: eval_nat_numeral All_less_Suc conj_ac)

lemma upt_8: "[0..<8] = [0, 1, 2, 3, 4, 5, 6, 7]"
  by (simp add: upt_rec)

lemma hpd_hash_lit:
  "hpd_hash 0 = 0" "hpd_hash 1 = 1" "hpd_hash 10 = 10" "hpd_hash 18 = 18" "hpd_hash 26 = 26" "hpd_hash 34 = 34"
  by (simp_all add: hpd_hash_def HASH_MASK_def)

lemma ex_slots:
  "hpd_live 10" "hpd_live 18" "hpd_live 26" "hpd_live 34" "\<not> hpd_live 0" "\<not> hpd_live 1" "\<not> hpd_live HASH_TOMB"
  "\<not> hpd_empty HASH_TOMB" "\<not> hpd_tomb 0"
  by (simp_all add: slot_nat hpd_hash_lit HASH_TOMB_def)

lemmas ex_simps = ex_table_def All_less_Suc all_less_lit hpd_hash_lit ex_slots

lemma ex_table_probe: "probe_inv (hash_pd ex_table)"
  by (simp add: probe_inv_def entry_ok_def path_clear_def passable_def home_def ex_simps)

lemma ex_table_shape: "shape_ok ex_table"
  by (simp add: shape_ok_def pow2_cap_def ex_simps HT_OVERFLOW_STASH_CAP_def)

lemma ex_table_values: "values_ok ex_table"
  by (simp add: values_ok_def ex_simps spill_entries_def overflow_entries_def side_entries_def VAL_NONE_def)

lemma ex_table_bounded: "bounded_ok ex_table"
  by (simp add: bounded_ok_def over_limit_def ex_simps)

lemma ex_table_counts: "counts_ok ex_table"
  by (simp add: counts_ok_def contents_def main_mset_def spill_entries_def overflow_entries_def
      side_entries_def tombs_def ex_simps)

lemma ex_table_inv: "bare_inv ex_table"
  by (simp add: bare_inv_def ex_table_probe ex_table_shape ex_table_values ex_table_bounded ex_table_counts)

lemma ex_contents: "contents ex_table = {#(10, 0), (18, 1), (26, 2), (1, 3), (34, 4)#}"
  by (simp add: contents_def main_mset_def spill_entries_def overflow_entries_def side_entries_def ex_simps)

lemma ex_table_gap: "gap_ok ex_table"
  by (simp add: gap_ok_def gap_inv_def BSHIFT_CAP_def ex_simps)

lemma ex_table_empty: "has_empty ex_table"
  by (simp add: has_empty_def ex_simps)

end
