(* ===== verification/Ht_Find.thy ===== *)
theory Ht_Find
  imports Ht_Example
begin

text \<open>
  Lookup. Every entry is found on its probe path, so the early exits of the search loops (an
  empty slot, a slot that is closer to its home, the distance limit) lose nothing. The search
  for one entry serves \<open>ht_bare_find\<close> and \<open>ht_bare_remove_val\<close>; \<open>ht_bare_find_all\<close> hands
  each matching entry to its callback once.
\<close>

section \<open>Where the entries are\<close>

lemma nth_side_entries:
  "i < len \<Longrightarrow> len \<le> length hs \<Longrightarrow> length vs = length hs \<Longrightarrow>
    side_entries hs vs len ! i = (hpd_hash (hs ! i), vs ! i)"
  by (simp add: side_entries_def)

lemma in_side_entries_iff:
  assumes "len \<le> length hs" "length vs = length hs"
  shows "(h, v) \<in> set (side_entries hs vs len) \<longleftrightarrow> (\<exists>i < len. hpd_hash (hs ! i) = h \<and> vs ! i = v)"
  using assms by (auto simp: in_set_conv_nth nth_side_entries)

lemma live_iff_spill: "hpd_hash h = h \<Longrightarrow> hpd_live h \<longleftrightarrow> \<not> h < 2"
  by (simp add: hpd_live_def not_less)

lemma in_contents_iff:
  assumes "shape_ok t"
  shows "(h, v) \<in># contents t \<longleftrightarrow>
    (\<exists>i < capacity t. hpd_live (hash_pd t ! i) \<and> hpd_hash (hash_pd t ! i) = h \<and> vals t ! i = v) \<or>
    (h, v) \<in> set (spill_entries t) \<or> (h, v) \<in> set (overflow_entries t)"
  using assms by (simp add: contents_def in_main_mset_iff shape_okD)

lemma spill_iff:
  assumes "shape_ok t"
  shows "(h, v) \<in> set (spill_entries t) \<longleftrightarrow>
    (\<exists>i < spill_len t. hpd_hash (spill_hash_pd t ! i) = h \<and> spill_vals t ! i = v)"
  using assms by (simp add: spill_entries_def in_side_entries_iff shape_okD)

lemma overflow_iff:
  assumes "shape_ok t"
  shows "(h, v) \<in> set (overflow_entries t) \<longleftrightarrow>
    (\<exists>i < overflow_len t. hpd_hash (overflow_hash_pd t ! i) = h \<and> overflow_vals t ! i = v)"
  using assms by (simp add: overflow_entries_def in_side_entries_iff shape_okD)

text \<open>Reserved hashes are in the spill lane only, the others never there.\<close>

lemma contents_reserved:
  assumes "bare_inv t" "hpd_hash h = h"
  shows "h < 2 \<Longrightarrow> (h, v) \<in># contents t \<longleftrightarrow> (h, v) \<in> set (spill_entries t)"
    and "\<not> h < 2 \<Longrightarrow> (h, v) \<in># contents t \<longleftrightarrow>
      (\<exists>i < capacity t. hpd_live (hash_pd t ! i) \<and> hpd_hash (hash_pd t ! i) = h \<and> vals t ! i = v) \<or>
      (h, v) \<in> set (overflow_entries t)"
proof -
  have s: "shape_ok t" and v: "values_ok t" using assms(1) by (simp_all add: bare_invD)
  have "hpd_live (hash_pd t ! i) \<Longrightarrow> hpd_hash (hash_pd t ! i) = h \<Longrightarrow> \<not> h < 2" for i
    by (simp add: hpd_live_def not_less)
  moreover have "(h, v) \<in> set (overflow_entries t) \<Longrightarrow> \<not> h < 2"
    and "(h, v) \<in> set (spill_entries t) \<Longrightarrow> h < 2"
    using v live_iff_spill [OF assms(2)] unfolding values_ok_def by auto
  ultimately show "h < 2 \<Longrightarrow> (h, v) \<in># contents t \<longleftrightarrow> (h, v) \<in> set (spill_entries t)"
    and "\<not> h < 2 \<Longrightarrow> (h, v) \<in># contents t \<longleftrightarrow>
      (\<exists>i < capacity t. hpd_live (hash_pd t ! i) \<and> hpd_hash (hash_pd t ! i) = h \<and> vals t ! i = v) \<or>
      (h, v) \<in> set (overflow_entries t)"
    unfolding in_contents_iff [OF s] by blast+
qed

section \<open>The search loops\<close>

text \<open>What a search at distance \<open>j\<close> sees when the entry in slot \<open>k\<close> lies at least that far.\<close>

lemma on_path:
  assumes inv: "bare_inv t" and k: "k < capacity t" "hpd_live (hash_pd t ! k)"
    and h: "hpd_hash (hash_pd t ! k) = h" and j: "j \<le> pd (hash_pd t ! k)"
  defines "w \<equiv> hash_pd t ! ((home (capacity t) h + j) mod capacity t)"
  shows "\<not> hpd_empty w" "hpd_live w \<Longrightarrow> j \<le> pd w" "j < 65536" "j < capacity t"
    and "overflow_violated t \<or> \<not> over_limit t j"
    and "j = pd (hash_pd t ! k) \<Longrightarrow> (home (capacity t) h + j) mod capacity t = k"
    and "j \<noteq> pd (hash_pd t ! k) \<Longrightarrow> inc16 j = Suc j"
proof -
  let ?w = "hash_pd t ! k"
  have s: "shape_ok t" and p: "probe_inv (hash_pd t)" and b: "bounded_ok t"
    using inv by (simp_all add: bare_invD)
  have hm: "home (capacity t) h = home (capacity t) ?w" using h by auto
  have ok: "pd ?w < capacity t" "(home (capacity t) ?w + pd ?w) mod capacity t = k"
    using p k s by (auto simp: probe_inv_def entry_ok_def Let_def shape_okD)
  show "j = pd ?w \<Longrightarrow> (home (capacity t) h + j) mod capacity t = k" using ok hm by simp
  show "j < 65536" using j pd_less [of ?w] by linarith
  show "inc16 j = Suc j" if "j \<noteq> pd ?w"
  proof -
    have "j + 1 < 65536" using that j pd_less [of ?w] by linarith
    then show ?thesis by (simp add: inc16_small)
  qed
  show "j < capacity t" using j ok by linarith
  have "passable (hash_pd t) ((home (capacity t) h + j) mod capacity t) j"
  proof (cases "j = pd ?w")
    case True
    then show ?thesis using ok hm k by (simp add: passable_def)
  next
    case False
    then show ?thesis using probe_inv_passable [OF p _ k(2), of j] j k s hm by (simp add: shape_okD)
  qed
  then show "\<not> hpd_empty w" "hpd_live w \<Longrightarrow> j \<le> pd w" by (auto simp: passable_def w_def)
  show "overflow_violated t \<or> \<not> over_limit t j"
    using b k j over_limit_mono unfolding bounded_ok_def by blast
qed

lemma find_loop_hit:
  assumes inv: "bare_inv t" and k: "k < capacity t" "hpd_live (hash_pd t ! k)"
    and h: "hpd_hash (hash_pd t ! k) = h"
  shows "j \<le> pd (hash_pd t ! k) \<Longrightarrow> pd (hash_pd t ! k) - j < steps \<Longrightarrow>
    \<exists>i. find_loop t h steps ((home (capacity t) h + j) mod capacity t) j = Some i"
proof (induction steps arbitrary: j)
  case (Suc steps)
  note p = on_path [OF inv k h Suc.prems(1)]
  have s: "shape_ok t" using inv by (simp add: bare_invD)
  have "\<exists>i. find_loop t h steps ((home (capacity t) h + Suc j) mod capacity t) (Suc j) = Some i"
    if "j \<noteq> pd (hash_pd t ! k)"
    using that Suc by (intro Suc.IH) auto
  then show ?case
    using p(1,2,5,6,7) h k next_slot [OF s, of h j]
      not_live_iff [of "hash_pd t ! ((home (capacity t) h + j) mod capacity t)"]
    by (cases "j = pd (hash_pd t ! k)";
        cases "hpd_live (hash_pd t ! ((home (capacity t) h + j) mod capacity t))")
      (simp_all add: Let_def not_less)
qed simp

lemma find_loop_sound:
  "find_loop t h steps i d = Some k \<Longrightarrow> shape_ok t \<Longrightarrow> i < capacity t \<Longrightarrow>
    k < capacity t \<and> hpd_live (hash_pd t ! k) \<and> hpd_hash (hash_pd t ! k) = h"
proof (induction steps arbitrary: i d)
  case (Suc steps)
  then show ?case
    using not_live_iff [of "hash_pd t ! i"]
    by (auto simp: Let_def wrap_cap shape_okD split: if_splits)
qed simp

lemma remove_val_loop_hit:
  assumes inv: "bare_inv t" and k: "k < capacity t" "hpd_live (hash_pd t ! k)"
    and h: "hpd_hash (hash_pd t ! k) = h" and v: "vals t ! k = v"
  shows "j \<le> pd (hash_pd t ! k) \<Longrightarrow> pd (hash_pd t ! k) - j < steps \<Longrightarrow>
    \<exists>i. remove_val_loop t h v steps ((home (capacity t) h + j) mod capacity t) j = Some i"
proof (induction steps arbitrary: j)
  case (Suc steps)
  note p = on_path [OF inv k h Suc.prems(1)]
  have s: "shape_ok t" using inv by (simp add: bare_invD)
  have "\<exists>i. remove_val_loop t h v steps ((home (capacity t) h + Suc j) mod capacity t) (Suc j) = Some i"
    if "j \<noteq> pd (hash_pd t ! k)"
    using that Suc by (intro Suc.IH) auto
  then show ?case
    using p(1,2,5,6,7) h k v next_slot [OF s, of h j]
      not_live_iff [of "hash_pd t ! ((home (capacity t) h + j) mod capacity t)"]
    by (cases "j = pd (hash_pd t ! k)";
        cases "hpd_live (hash_pd t ! ((home (capacity t) h + j) mod capacity t))")
      (simp_all add: Let_def not_less)
qed simp

lemma remove_val_loop_sound:
  "remove_val_loop t h v steps i d = Some k \<Longrightarrow> shape_ok t \<Longrightarrow> i < capacity t \<Longrightarrow>
    k < capacity t \<and> hpd_live (hash_pd t ! k) \<and> hpd_hash (hash_pd t ! k) = h \<and> vals t ! k = v"
proof (induction steps arbitrary: i d)
  case (Suc steps)
  then show ?case
    using not_live_iff [of "hash_pd t ! i"]
    by (auto simp: Let_def wrap_cap shape_okD split: if_splits)
qed simp

text \<open>Started at the home slot, the searches decide whether the main array has a match.\<close>

lemma find_loop_main:
  assumes inv: "bare_inv t" and h: "hpd_hash h = h"
  shows "case find_loop t h (capacity t + 1) (wrap (capacity t) (unat h)) 0 of
      None \<Rightarrow> \<not> (\<exists>i < capacity t. hpd_live (hash_pd t ! i) \<and> hpd_hash (hash_pd t ! i) = h)
    | Some k \<Rightarrow> k < capacity t \<and> hpd_live (hash_pd t ! k) \<and> hpd_hash (hash_pd t ! k) = h"
proof -
  have s: "shape_ok t" using inv by (simp add: bare_invD)
  have at: "wrap (capacity t) (unat h) = (home (capacity t) h + 0) mod capacity t"
    using start_slot [OF s h] by simp
  have "\<exists>i. find_loop t h (capacity t + 1) (wrap (capacity t) (unat h)) 0 = Some i"
    if "k < capacity t" "hpd_live (hash_pd t ! k)" "hpd_hash (hash_pd t ! k) = h" for k
    unfolding at using that on_path(4) [OF inv that, of "pd (hash_pd t ! k)"]
    by (intro find_loop_hit [OF inv that]) auto
  moreover have "wrap (capacity t) (unat h) < capacity t" using at s by (simp add: shape_okD)
  ultimately show ?thesis
    using find_loop_sound [OF _ s, of h "capacity t + 1"]
    by (cases "find_loop t h (capacity t + 1) (wrap (capacity t) (unat h)) 0")
      (auto simp del: find_loop.simps)
qed

lemma remove_val_loop_main:
  assumes inv: "bare_inv t" and h: "hpd_hash h = h"
  shows "case remove_val_loop t h v (capacity t + 1) (wrap (capacity t) (unat h)) 0 of
      None \<Rightarrow> \<not> (\<exists>i < capacity t. hpd_live (hash_pd t ! i) \<and> hpd_hash (hash_pd t ! i) = h \<and> vals t ! i = v)
    | Some k \<Rightarrow> k < capacity t \<and> hpd_live (hash_pd t ! k) \<and> hpd_hash (hash_pd t ! k) = h \<and> vals t ! k = v"
proof -
  have s: "shape_ok t" using inv by (simp add: bare_invD)
  have at: "wrap (capacity t) (unat h) = (home (capacity t) h + 0) mod capacity t"
    using start_slot [OF s h] by simp
  have "\<exists>i. remove_val_loop t h v (capacity t + 1) (wrap (capacity t) (unat h)) 0 = Some i"
    if "k < capacity t" "hpd_live (hash_pd t ! k)" "hpd_hash (hash_pd t ! k) = h" "vals t ! k = v" for k
    unfolding at using that on_path(4) [OF inv that(1-3), of "pd (hash_pd t ! k)"]
    by (intro remove_val_loop_hit [OF inv that]) auto
  moreover have "wrap (capacity t) (unat h) < capacity t" using at s by (simp add: shape_okD)
  ultimately show ?thesis
    using remove_val_loop_sound [OF _ s, of h v "capacity t + 1"]
    by (cases "remove_val_loop t h v (capacity t + 1) (wrap (capacity t) (unat h)) 0")
      (auto simp del: remove_val_loop.simps)
qed

section \<open>One value\<close>

lemma bare_find_ok:
  assumes inv: "bare_inv t"
  shows "case ht_bare_find t hash of
      None \<Rightarrow> \<forall>v. (hpd_hash hash, v) \<notin># contents t
    | Some v \<Rightarrow> (hpd_hash hash, v) \<in># contents t"
proof -
  define h where "h = hash AND HASH_MASK"
  have h: "hpd_hash h = h" "hpd_hash hash = h" by (simp_all add: h_def hpd_hash_fix) (simp add: hpd_hash_def)
  have s: "shape_ok t" using inv by (simp add: bare_invD)
  note c = contents_reserved [OF inv h(1)]
  show ?thesis
  proof (cases "h < 2")
    case True
    have "case bare_spill_find t h of None \<Rightarrow> \<forall>v. (h, v) \<notin> set (spill_entries t)
        | Some v \<Rightarrow> (h, v) \<in> set (spill_entries t)"
      by (auto dest!: find_upt_Some simp: find_upt_None bare_spill_find_def spill_iff [OF s] split: option.split)
    then show ?thesis
      using True c(1) h by (auto simp: ht_bare_find_def simp flip: h_def split: option.splits)
  next
    case False
    let ?f = "find (\<lambda>i. hpd_hash (overflow_hash_pd t ! i) = h) [0..<overflow_len t]"
    have o: "case ?f of None \<Rightarrow> \<forall>v. (h, v) \<notin> set (overflow_entries t)
        | Some i \<Rightarrow> (h, overflow_vals t ! i) \<in> set (overflow_entries t)"
      by (auto dest!: find_upt_Some simp: find_upt_None overflow_iff [OF s] split: option.split)
    show ?thesis
      using find_loop_main [OF inv h(1)] False o
      by (auto simp: ht_bare_find_def h c(2) simp del: find_loop.simps simp flip: h_def
          split: option.splits)
  qed
qed

section \<open>All values\<close>

text \<open>A callback over a list of values, until it returns false.\<close>

fun run_cb :: "'s bare_callback \<Rightarrow> u32 list \<Rightarrow> 's \<Rightarrow> bool \<times> 's" where
  "run_cb cb [] s = (True, s)"
| "run_cb cb (v # vs) s = (let (go, s') = cb v s in if go then run_cb cb vs s' else (False, s'))"

lemma run_cb_append:
  "run_cb cb (xs @ ys) s = (let (go, s') = run_cb cb xs s in if go then run_cb cb ys s' else (False, s'))"
  by (induction xs arbitrary: s) (auto simp: Let_def split: prod.split)

lemma scan_matches_run: "scan_matches p v cb is s = run_cb cb (map v (filter p is)) s"
  by (induction "is" arbitrary: s) (auto simp: Let_def split: prod.split)

text \<open>The matching slots among the first \<open>m\<close> on the probe path of \<open>h\<close>.\<close>

definition path_slot :: "ht_bare \<Rightarrow> u64 \<Rightarrow> nat \<Rightarrow> nat" where
  "path_slot t h j = (home (capacity t) h + j) mod capacity t"

definition matches :: "ht_bare \<Rightarrow> u64 \<Rightarrow> nat \<Rightarrow> bool" where
  "matches t h i \<longleftrightarrow> hpd_live (hash_pd t ! i) \<and> hpd_hash (hash_pd t ! i) = h"

definition path_vals :: "ht_bare \<Rightarrow> u64 \<Rightarrow> nat \<Rightarrow> nat \<Rightarrow> u32 list" where
  "path_vals t h j m = map (\<lambda>i. vals t ! i) (filter (matches t h) (map (path_slot t h) [j..<m]))"

lemma path_vals_Cons:
  "j < m \<Longrightarrow> path_vals t h j m =
    (if matches t h (path_slot t h j) then [vals t ! path_slot t h j] else []) @ path_vals t h (Suc j) m"
  by (simp add: path_vals_def upt_conv_Cons)

text \<open>No slot that matches lies at distance \<open>m\<close> or further.\<close>

definition all_before :: "ht_bare \<Rightarrow> u64 \<Rightarrow> nat \<Rightarrow> bool" where
  "all_before t h m \<longleftrightarrow> (\<forall>k < capacity t. matches t h k \<longrightarrow> pd (hash_pd t ! k) < m)"

lemma find_all_loop_run:
  assumes inv: "bare_inv t" and h: "hpd_hash h = h"
  shows "steps + j = capacity t + 1 \<Longrightarrow> j \<le> capacity t \<Longrightarrow>
    capacity t < 65536 \<or> (\<exists>r. j \<le> r \<and> r < capacity t \<and> hpd_empty (hash_pd t ! path_slot t h r)) \<Longrightarrow>
    \<exists>m. j \<le> m \<and> m \<le> capacity t \<and> all_before t h m \<and>
      (\<forall>cb s. find_all_loop t h cb steps (path_slot t h j) (j mod 65536) s = run_cb cb (path_vals t h j m) (s :: 's))"
proof (induction steps arbitrary: j)
  case (Suc steps)
  let ?i = "path_slot t h j"
  let ?w = "hash_pd t ! ?i"
  have s: "shape_ok t" using inv by (simp add: bare_invD)
  have nxt: "wrap (capacity t) (?i + 1) = path_slot t h (Suc j)" and i_less: "?i < capacity t"
    using s next_slot [OF s, of h j] by (simp_all add: path_slot_def shape_okD)
  have d: "inc16 (j mod 65536) = Suc j mod 65536" by (simp add: inc16_def mod_Suc_eq)
  have far: "hpd_live ?w \<longrightarrow> j mod 65536 \<le> pd ?w" "\<not> hpd_empty ?w"
    "overflow_violated t \<or> \<not> over_limit t (j mod 65536)" "j < capacity t"
    if "k < capacity t" "matches t h k" "j \<le> pd (hash_pd t ! k)" for k
    using on_path [OF inv that(1) _ _ that(3), of h] that(2)
    by (auto simp: matches_def path_slot_def)
  have stop: ?case if "\<not> (hpd_live ?w \<longrightarrow> j mod 65536 \<le> pd ?w) \<or> hpd_empty ?w \<or>
      \<not> (overflow_violated t \<or> \<not> over_limit t (j mod 65536)) \<or> j = capacity t"
    and "\<forall>cb s. find_all_loop t h cb (Suc steps) ?i (j mod 65536) (s :: 's) = (True, s)"
  proof (intro exI [of _ j] conjI)
    show "all_before t h j" using far that(1) unfolding all_before_def by (meson linorder_not_le less_irrefl)
  qed (use that Suc.prems in \<open>auto simp: path_vals_def\<close>)
  show ?case
  proof (cases "hpd_empty ?w \<or> (hpd_live ?w \<and> (pd ?w < j mod 65536 \<or> (\<not> overflow_violated t \<and> over_limit t (j mod 65536))))")
    case True
    then show ?thesis
      by (intro stop) (auto simp: Let_def simp del: slot_excl, simp_all)
  next
    case False
    show ?thesis
    proof (cases "j = capacity t")
      case True
      then have "capacity t < 65536" "steps = 0" using Suc.prems by auto
      moreover have "\<not> hpd_live ?w"
      proof
        assume l: "hpd_live ?w"
        then have "pd ?w < capacity t"
          using bare_invD(2) [OF inv] i_less s by (simp add: probe_inv_def entry_ok_def Let_def shape_okD)
        with l False True \<open>capacity t < 65536\<close> show False by simp
      qed
      ultimately show ?thesis using False True not_live_iff [of ?w] by (intro stop) (auto simp: Let_def)
    next
      case lt: False
      have "capacity t < 65536 \<or> (\<exists>r. Suc j \<le> r \<and> r < capacity t \<and> hpd_empty (hash_pd t ! path_slot t h r))"
        using Suc.prems(3) False by (metis le_neq_implies_less Suc_leI)
      then obtain m where m: "Suc j \<le> m" "m \<le> capacity t" "all_before t h m"
        "\<forall>cb s. find_all_loop t h cb steps (path_slot t h (Suc j)) (Suc j mod 65536) s = run_cb cb (path_vals t h (Suc j) m) (s :: 's)"
        using Suc.IH [of "Suc j"] Suc.prems lt by auto
      have "find_all_loop t h cb (Suc steps) ?i (j mod 65536) s = run_cb cb (path_vals t h j m) s" for cb and s :: 's
        using m False d nxt not_live_iff [of ?w]
        by (auto simp: Let_def path_vals_Cons [of j m] matches_def split: prod.split)
      with m show ?thesis by (intro exI [of _ m]) auto
    qed
  qed
qed simp

text \<open>The values stored under a hash.\<close>

definition values_of :: "ht_bare \<Rightarrow> u64 \<Rightarrow> u32 multiset" where
  "values_of t h = image_mset snd (filter_mset (\<lambda>e. fst e = h) (contents t))"

lemma mset_path_slots:
  assumes s: "shape_ok t" and p: "probe_inv (hash_pd t)" and h: "hpd_hash h = h"
    and m: "m \<le> capacity t" "all_before t h m"
  shows "mset (filter (matches t h) (map (path_slot t h) [0..<m])) = mset (filter (matches t h) [0..<capacity t])"
proof -
  have "inj_on (path_slot t h) {0..<m}"
    using m(1) by (intro inj_onI) (rule mod_add_cancel [of _ "capacity t"], auto simp: path_slot_def)
  then have "distinct (filter (matches t h) (map (path_slot t h) [0..<m]))"
    by (simp add: distinct_map)
  moreover have "i \<in> path_slot t h ` {0..<m}" if "i < capacity t" "matches t h i" for i
  proof -
    have "path_slot t h (pd (hash_pd t ! i)) = i"
      using p s that by (auto simp: probe_inv_def entry_ok_def Let_def shape_okD path_slot_def matches_def)
    moreover have "pd (hash_pd t ! i) < m" using m that by (simp add: all_before_def)
    ultimately show ?thesis by force
  qed
  then have "set (filter (matches t h) (map (path_slot t h) [0..<m])) = set (filter (matches t h) [0..<capacity t])"
    using s by (auto simp: path_slot_def shape_okD)
  ultimately show ?thesis
    using set_eq_iff_mset_eq_distinct by (metis distinct_filter distinct_upt)
qed

lemma filter_main_mset:
  assumes "shape_ok t"
  shows "image_mset snd (filter_mset (\<lambda>e. fst e = h) (main_mset (hash_pd t) (vals t))) =
    mset (map (\<lambda>i. vals t ! i) (filter (matches t h) [0..<capacity t]))"
proof -
  have "filter (\<lambda>i. hpd_hash (hash_pd t ! i) = h) (filter (\<lambda>i. hpd_live (hash_pd t ! i)) [0..<capacity t]) =
      filter (matches t h) [0..<capacity t]"
    by (auto simp: matches_def conj_commute intro: filter_cong)
  then show ?thesis
    using assms
    by (simp add: main_mset_slots shape_okD filter_map comp_def flip: mset_filter mset_map)
qed

lemma side_values:
  assumes "len \<le> length hs" "length vs = length hs"
  shows "map snd (filter (\<lambda>e. fst e = h) (side_entries hs vs len)) =
    map (\<lambda>i. vs ! i) (filter (\<lambda>i. hpd_hash (hs ! i) = h) [0..<len])"
proof -
  have "side_entries hs vs len = map (\<lambda>i. (hpd_hash (hs ! i), vs ! i)) [0..<len]"
    using assms by (intro nth_equalityI) (auto simp: nth_side_entries)
  then show ?thesis by (simp add: filter_map comp_def)
qed

lemma values_of_main:
  assumes inv: "bare_inv t" and h: "hpd_hash h = h" "\<not> h < 2"
  shows "values_of t h = mset (map (\<lambda>i. vals t ! i) (filter (matches t h) [0..<capacity t])) +
    mset (map (\<lambda>i. overflow_vals t ! i) (filter (\<lambda>i. hpd_hash (overflow_hash_pd t ! i) = h) [0..<overflow_len t]))"
proof -
  have s: "shape_ok t" and v: "values_ok t" using inv by (simp_all add: bare_invD)
  have "filter (\<lambda>e. fst e = h) (spill_entries t) = []"
    using v h live_iff_spill [OF h(1)] unfolding filter_empty_conv values_ok_def by fastforce
  then have "filter_mset (\<lambda>e. fst e = h) (mset (spill_entries t)) = {#}" by (simp flip: mset_filter)
  then show ?thesis
    using side_values [of "overflow_len t" "overflow_hash_pd t" "overflow_vals t" h] s
    by (simp add: values_of_def contents_def filter_main_mset overflow_entries_def shape_okD flip: mset_filter mset_map)
qed

lemma values_of_spill:
  assumes inv: "bare_inv t" and h: "hpd_hash h = h" "h < 2"
  shows "values_of t h =
    mset (map (\<lambda>i. spill_vals t ! i) (filter (\<lambda>i. hpd_hash (spill_hash_pd t ! i) = h) [0..<spill_len t]))"
proof -
  have s: "shape_ok t" and v: "values_ok t" using inv by (simp_all add: bare_invD)
  have "filter (\<lambda>e. fst e = h) (overflow_entries t) = []"
    using v h live_iff_spill [OF h(1)] unfolding filter_empty_conv values_ok_def by fastforce
  then have "filter_mset (\<lambda>e. fst e = h) (mset (overflow_entries t)) = {#}" by (simp flip: mset_filter)
  moreover have "filter (matches t h) [0..<capacity t] = []"
    using h(2) by (auto simp: matches_def hpd_live_def filter_empty_conv not_less)
  ultimately show ?thesis
    using side_values [of "spill_len t" "spill_hash_pd t" "spill_vals t" h] s
    by (simp add: values_of_def contents_def filter_main_mset spill_entries_def shape_okD flip: mset_filter mset_map)
qed

lemma bare_find_all_ok:
  assumes inv: "bare_inv t" and e: "has_empty t \<or> capacity t < 65536"
  shows "\<exists>vs. mset vs = values_of t (hpd_hash hash) \<and>
    (\<forall>cb s. ht_bare_find_all t hash cb s = snd (run_cb cb vs (s :: 's)))"
proof -
  define h where "h = hash AND HASH_MASK"
  have h: "hpd_hash h = h" "hpd_hash hash = h" by (simp_all add: h_def hpd_hash_fix) (simp add: hpd_hash_def)
  have s: "shape_ok t" and p: "probe_inv (hash_pd t)" using inv by (simp_all add: bare_invD)
  show ?thesis
  proof (cases "h < 2")
    case True
    then show ?thesis
      using values_of_spill [OF inv h(1)] h(2)
      by (intro exI [of _ "map (\<lambda>i. spill_vals t ! i) (filter (\<lambda>i. hpd_hash (spill_hash_pd t ! i) = h) [0..<spill_len t])"])
        (simp add: ht_bare_find_all_def bare_spill_find_all_def scan_matches_run flip: h_def mset_map mset_filter)
  next
    case False
    have "capacity t < 65536 \<or> (\<exists>r. 0 \<le> r \<and> r < capacity t \<and> hpd_empty (hash_pd t ! path_slot t h r))"
      using e has_emptyE [OF s, of h] by (metis path_slot_def le0)
    then obtain m where m: "m \<le> capacity t" "all_before t h m"
      "\<forall>cb s. find_all_loop t h cb (capacity t + 1) (path_slot t h 0) 0 s = run_cb cb (path_vals t h 0 m) (s :: 's)"
      using find_all_loop_run [OF inv h(1), of "capacity t + 1" 0] by (auto simp del: find_all_loop.simps)
    have at: "wrap (capacity t) (unat h) = path_slot t h 0" using start_slot [OF s h(1)] by (simp add: path_slot_def)
    let ?o = "map (\<lambda>i. overflow_vals t ! i) (filter (\<lambda>i. hpd_hash (overflow_hash_pd t ! i) = h) [0..<overflow_len t])"
    have "mset (path_vals t h 0 m @ ?o) = values_of t h"
      using values_of_main [OF inv h(1) False] mset_path_slots [OF s p h(1) m(1,2)]
      by (simp add: path_vals_def del: mset_filter)
    moreover have "ht_bare_find_all t hash cb s = snd (run_cb cb (path_vals t h 0 m @ ?o) s)" for cb and s :: 's
      using m(3) False
      by (auto simp: ht_bare_find_all_def at scan_matches_run run_cb_append Let_def simp flip: h_def
          simp del: find_all_loop.simps split: prod.split)
    ultimately show ?thesis using h(2) by blast
  qed
qed

section \<open>Properties\<close>

text \<open>
  C1. Lookup. In a table that satisfies the invariant, \<open>ht_bare_find\<close> returns a value only if
  that value is stored under the 48-bit hash, and reports a miss only if no entry has the hash:
  neither the early exits of the probe loop nor the wrapping 16-bit distance lose an entry.
\<close>

theorem ht_bare_find_correct:
  assumes "bare_inv t"
  shows "case ht_bare_find t hash of
      None \<Rightarrow> \<forall>v. (hpd_hash hash, v) \<notin># contents t
    | Some v \<Rightarrow> (hpd_hash hash, v) \<in># contents t"
  using assms by (rule bare_find_ok)

theorem ht_bare_find_correct_witness:
  "bare_inv ex_table \<and>
    (case ht_bare_find ex_table 26 of
      None \<Rightarrow> \<forall>v. (hpd_hash 26, v) \<notin># contents ex_table
    | Some v \<Rightarrow> (hpd_hash 26, v) \<in># contents ex_table)"
  using ht_bare_find_correct [OF ex_table_inv, of 26] ex_table_inv by blast

text \<open>
  Multi-value lookup. \<open>ht_bare_find_all\<close> runs its callback over an enumeration of exactly
  the values stored under the hash, with their multiplicities, and stops at the first refusal.
  The table has an unused slot or fewer than 65536 slots, so that the 16-bit probe counter
  cannot wrap on a full turn.
\<close>

lemma ht_bare_find_all_correct:
  assumes "bare_inv t" "has_empty t \<or> capacity t < 65536"
  shows "\<exists>vs. mset vs = values_of t (hpd_hash hash) \<and>
    (\<forall>cb s. ht_bare_find_all t hash cb s = snd (run_cb cb vs (s :: 's)))"
  using assms by (rule bare_find_all_ok)

lemma ht_bare_find_all_correct_witness:
  "bare_inv ex_table \<and> has_empty ex_table \<and>
    (\<exists>vs. mset vs = values_of ex_table (hpd_hash 18) \<and>
      (\<forall>cb s. ht_bare_find_all ex_table 18 cb s = snd (run_cb cb vs (s :: u32 list))))"
  using ht_bare_find_all_correct [OF ex_table_inv disjI1 [OF ex_table_empty], of 18] ex_table_inv ex_table_empty
  by blast

end
