(* ===== verification/Ht_Shift.thy ===== *)
theory Ht_Shift
  imports Ht_Find
begin

text \<open>
  The backward shift of a deletion. When the chain behind a deleted slot is short and ends in an
  empty slot, \<open>bare_delete_compact\<close> shifts it back. The shift keeps every entry reachable: a
  probe path that enters the chain ends in it (\<open>region_path\<close>), and the entries keep their order.
\<close>

section \<open>The chain behind a deleted slot\<close>

text \<open>The slot \<open>x\<close> places after \<open>idx\<close>, and the places of the live slots up to \<open>L\<close> behind it.\<close>

definition slot_at :: "u64 list \<Rightarrow> nat \<Rightarrow> nat \<Rightarrow> u64" where
  "slot_at hp idx x = hp ! ((idx + x) mod length hp)"

definition chain :: "u64 list \<Rightarrow> nat \<Rightarrow> nat \<Rightarrow> nat list" where
  "chain hp idx L = filter (\<lambda>x. hpd_live (slot_at hp idx x)) [1..<Suc L]"

lemma chain_0 [simp]: "chain hp idx 0 = []"
  by (simp add: chain_def)

lemma chain_Suc: "chain hp idx (Suc L) = chain hp idx L @ (if hpd_live (slot_at hp idx (Suc L)) then [Suc L] else [])"
  by (simp add: chain_def)

lemma set_chain: "x \<in> set (chain hp idx L) \<longleftrightarrow> 1 \<le> x \<and> x \<le> L \<and> hpd_live (slot_at hp idx x)"
  by (auto simp: chain_def)

lemma sorted_chain: "sorted_wrt (<) (chain hp idx L)"
  by (simp add: chain_def sorted_wrt_filter del: upt_Suc)

lemma length_chain_le: "length (chain hp idx L) \<le> L"
  using length_filter_le [of _ "[1..<Suc L]"] by (simp add: chain_def del: upt_Suc)

lemma chain_less: "y < length (chain hp idx L) \<Longrightarrow> y < chain hp idx L ! y"
proof (induction L)
  case (Suc L)
  then show ?case using length_chain_le [of hp idx L] by (auto simp: chain_Suc nth_append split: if_splits)
qed simp

lemma chain_nth:
  assumes "y < length (chain hp idx L)"
  shows "y < chain hp idx L ! y" "chain hp idx L ! y \<le> L" "hpd_live (slot_at hp idx (chain hp idx L ! y))"
  using assms chain_less nth_mem [OF assms] by (simp_all add: set_chain)

text \<open>The entry \<open>y\<close>-th in the chain, moved to place \<open>y\<close>.\<close>

definition moved :: "u64 list \<Rightarrow> nat \<Rightarrow> nat \<Rightarrow> nat \<Rightarrow> u64" where
  "moved hp idx x y = hpd_pack (hpd_hash (slot_at hp idx x)) (hpd_pd (slot_at hp idx x) - word_of_nat (x - y))"

definition after_shift :: "u64 list \<Rightarrow> nat \<Rightarrow> nat \<Rightarrow> nat \<Rightarrow> u64" where
  "after_shift hp idx i y =
     (if y < length (chain hp idx i) then moved hp idx (chain hp idx i ! y) y
      else if 1 \<le> y \<and> y \<le> i then HASH_EMPTY else slot_at hp idx y)"

lemma unat_minus_nat: "s \<le> unat w \<Longrightarrow> unat (w - word_of_nat s) = unat (w :: u16) - s"
proof -
  assume s: "s \<le> unat w"
  then have "unat (word_of_nat s :: u16) = s"
    using unsigned_less [of w, where 'a = nat] by (simp add: unsigned_of_nat take_bit_nat_eq_self)
  then show ?thesis using s by (simp add: unat_sub word_le_nat_alt)
qed

lemma pd_moved: "x - y \<le> pd (slot_at hp idx x) \<Longrightarrow> pd (moved hp idx x y) = pd (slot_at hp idx x) - (x - y)"
  by (simp add: moved_def unat_minus_nat)

lemma moved_hash [simp]: "hpd_hash (moved hp idx x y) = hpd_hash (slot_at hp idx x)"
  "hpd_live (moved hp idx x y) = hpd_live (slot_at hp idx x)" "home n (moved hp idx x y) = home n (slot_at hp idx x)"
  by (simp_all add: moved_def hpd_live_def)

text \<open>
  A probe path that enters the chain ends in it: behind the chain there is an empty slot.
\<close>

lemma region_path:
  assumes inv: "probe_inv hp" and e: "e < length hp" "hpd_live (hp ! e)"
    and j: "j < pd (hp ! e)" "(home (length hp) (hp ! e) + j) mod length hp = (idx + r) mod length hp"
    and r: "r \<le> L" and emp: "hpd_empty (slot_at hp idx (Suc L))"
  shows "r + (pd (hp ! e) - j) \<le> L" "e = (idx + (r + (pd (hp ! e) - j))) mod length hp"
proof -
  have "\<not> Suc L - r \<le> pd (hp ! e) - j"
  proof
    assume "Suc L - r \<le> pd (hp ! e) - j"
    from path_between(1) [OF inv e j(1) refl this] show False
      using emp j(2) r mod_shift [of idx r "length hp" "(idx + r) mod length hp" "Suc L - r"]
      by (simp add: slot_at_def)
  qed
  then show "r + (pd (hp ! e) - j) \<le> L" using r by linarith
  have "e = (home (length hp) (hp ! e) + (j + (pd (hp ! e) - j))) mod length hp"
    using inv e j(1) by (simp add: probe_inv_def entry_ok_def Let_def)
  also have "\<dots> = ((idx + r) mod length hp + (pd (hp ! e) - j)) mod length hp"
    using j(2) by (rule mod_shift)
  finally show "e = (idx + (r + (pd (hp ! e) - j))) mod length hp"
    by (simp add: mod_add_left_eq add.assoc)
qed

lemma shift_entry_ok:
  assumes inv: "probe_inv hp" and L: "Suc L < length hp" and idx: "idx < length hp"
    and emp: "hpd_empty (slot_at hp idx (Suc L))"
    and safe: "\<And>y. y < length (chain hp idx L) \<Longrightarrow> chain hp idx L ! y - y \<le> pd (slot_at hp idx (chain hp idx L ! y))"
    and hp': "length hp' = length hp" "\<And>y. y < length hp \<Longrightarrow> slot_at hp' idx y = after_shift hp idx L y"
    and y: "y < length (chain hp idx L)"
  shows "entry_ok hp' ((idx + y) mod length hp)"
proof -
  let ?n = "length hp" and ?m = "length (chain hp idx L)"
  define x where "x = chain hp idx L ! y"
  let ?w = "slot_at hp idx x" and ?w' = "moved hp idx x y"
  define d where "d = pd ?w - (x - y)"
  have x: "y < x" "x \<le> L" "hpd_live ?w" using chain_nth [OF y] by (simp_all add: x_def)
  have xn: "x < ?n" "y < ?n" using x L by linarith+
  have sh: "x - y \<le> pd ?w" using safe [OF y] by (simp add: x_def)
  have w': "slot_at hp' idx y = ?w'" using hp'(2) xn y by (simp add: after_shift_def x_def)
  have d: "pd ?w' = d" using pd_moved [OF sh] by (simp add: d_def)
  have e: "(idx + x) mod ?n < ?n" using idx by (intro mod_less_divisor) linarith
  have ok: "pd ?w < ?n" "(home ?n ?w + pd ?w) mod ?n = (idx + x) mod ?n" "path_clear hp ?w (pd ?w)"
    using inv e x(3) by (auto simp: probe_inv_def entry_ok_def Let_def slot_at_def)
  have pos: "(home ?n ?w + d) mod ?n = (idx + y) mod ?n"
    using mod_sub_same [OF ok(2), of "x - y"] sh x(1) by (simp add: d_def)
  have "passable hp' ((home ?n ?w + j) mod ?n) j" if j: "j < d" for j
  proof -
    have jd: "j < pd ?w" using j by (simp add: d_def)
    obtain r where r: "r < ?n" "(idx + r) mod ?n = (home ?n ?w + j) mod ?n"
      using mod_reach [OF idx, of "(home ?n ?w + j) mod ?n"] e mod_less_divisor [of ?n] by (metis less_nat_zero_code neq0_conv)
    have new: "hp' ! ((home ?n ?w + j) mod ?n) = after_shift hp idx L r"
      using hp'(2) [OF r(1)] r(2) by (simp add: slot_at_def hp'(1))
    show ?thesis
    proof (cases "r \<le> L")
      case False
      then have "length (chain hp idx L) \<le> r"
        using length_chain_le [of hp idx L] by linarith
      then have "after_shift hp idx L r = hp ! ((home ?n ?w + j) mod ?n)"
        using False r(2) by (simp add: after_shift_def slot_at_def)
      then show ?thesis using new ok(3) jd by (simp add: path_clear_def passable_def)
    next
      case True
      note rp = region_path [OF inv e _ _ _ True emp, folded slot_at_def, OF x(3) jd r(2) [symmetric]]
      have xr: "x = r + (pd ?w - j)"
        using mod_add_cancel [of x ?n "r + (pd ?w - j)" idx] rp xn L by simp
      then have ry: "r < y" using j jd sh x(1) unfolding d_def by linarith
      then have rm: "r < ?m" using y by simp
      define z where "z = chain hp idx L ! r"
      have z: "r < z" "hpd_live (slot_at hp idx z)" "z < x"
        using chain_nth [OF rm] sorted_wrt_nth_less [OF sorted_chain ry y] by (simp_all add: z_def x_def)
      have "j + (z - r) \<le> pd (slot_at hp idx z)"
        using path_between(2) [OF inv e _ _ refl, folded slot_at_def, OF x(3) jd, of "z - r"] z xr r(2)
          mod_shift [of idx r ?n "(idx + r) mod ?n" "z - r"]
        by (simp add: slot_at_def)
      then have "j \<le> pd (moved hp idx z r)"
        using pd_moved [of z r hp idx] safe [OF rm] by (simp add: z_def)
      then show ?thesis using new rm z(2) by (simp add: after_shift_def passable_def z_def)
    qed
  qed
  then show ?thesis
    using pos ok(1) w' hp'(1) d by (simp add: entry_ok_def Let_def path_clear_def slot_at_def [symmetric] d_def)
      (simp add: slot_at_def)
qed


lemma shift_probe_inv:
  assumes inv: "probe_inv hp" and L: "Suc L < length hp" and idx: "idx < length hp"
    and emp: "hpd_empty (slot_at hp idx (Suc L))" and some: "chain hp idx L \<noteq> []"
    and safe: "\<And>y. y < length (chain hp idx L) \<Longrightarrow>
      chain hp idx L ! y - y \<le> pd (slot_at hp idx (chain hp idx L ! y))"
    and hp': "length hp' = length hp" "\<And>y. y < length hp \<Longrightarrow> slot_at hp' idx y = after_shift hp idx L y"
  shows "probe_inv hp'"
  unfolding probe_inv_def
proof (intro allI impI)
  let ?n = "length hp"
  fix q assume q: "q < length hp'" "hpd_live (hp' ! q)"
  obtain y where y: "y < ?n" "(idx + y) mod ?n = q"
    using mod_reach [OF idx, of q] q(1) hp'(1) by metis
  have w: "hp' ! q = after_shift hp idx L y" using hp'(2) [OF y(1)] y(2) by (simp add: slot_at_def hp'(1))
  show "entry_ok hp' q"
  proof (cases "y < length (chain hp idx L)")
    case True
    then have "entry_ok hp' ((idx + y) mod ?n)"
      using inv L idx emp safe hp' by (intro shift_entry_ok) auto
    then show ?thesis by (simp only: y(2))
  next
    case False
    then have yL: "L < y" and w': "hp' ! q = hp ! q"
      using w q(2) y some slot_excl(2) [of HASH_EMPTY]
      by (cases "y = 0"; cases "y \<le> L"; simp add: after_shift_def slot_at_def)+
    have qn: "q < ?n" "hpd_live (hp ! q)" using q hp' w' by auto
    then have ok: "entry_ok hp q" using inv by (simp add: probe_inv_def)
    have "passable hp' ((home ?n (hp ! q) + j) mod ?n) j" if j: "j < pd (hp ! q)" for j
    proof -
      obtain r where r: "r < ?n" "(idx + r) mod ?n = (home ?n (hp ! q) + j) mod ?n"
        using mod_reach [OF idx, of "(home ?n (hp ! q) + j) mod ?n"] qn mod_less_divisor [of ?n]
        by (metis less_nat_zero_code neq0_conv)
      have "\<not> r \<le> L"
      proof
        assume rL: "r \<le> L"
        note rp = region_path [OF inv qn j r(2) [symmetric] rL emp]
        then have "y = r + (pd (hp ! q) - j)"
          using mod_add_cancel [of y ?n "r + (pd (hp ! q) - j)" idx] y L by simp
        with rp(1) yL show False by simp
      qed
      then have "hp' ! ((home ?n (hp ! q) + j) mod ?n) = hp ! ((home ?n (hp ! q) + j) mod ?n)"
        using hp'(2) [OF r(1)] r(2) length_chain_le [of hp idx L]
        by (simp add: after_shift_def slot_at_def hp'(1))
      then show ?thesis
        using probe_inv_passable [OF inv qn j] by (simp add: passable_def)
    qed
    then show ?thesis using ok w' hp'(1) by (simp add: entry_ok_def Let_def path_clear_def)
  qed
qed

section \<open>The scan, the check and the shift\<close>

lemma compact_scan_spec:
  assumes "shape_ok t"
  shows "compact_scan t steps ((idx + Suc c) mod capacity t) c lc = (L, lc', True) \<Longrightarrow>
    c \<le> L \<and> (\<forall>x. c < x \<and> x \<le> L \<longrightarrow> \<not> hpd_empty (slot_at (hash_pd t) idx x)) \<and>
    hpd_empty (slot_at (hash_pd t) idx (Suc L)) \<and>
    (lc < lc' \<longrightarrow> (\<exists>x. c < x \<and> x \<le> L \<and> hpd_live (slot_at (hash_pd t) idx x)))"
proof (induction steps arbitrary: c lc)
  case (Suc steps)
  let ?w = "slot_at (hash_pd t) idx (Suc c)"
  have w: "hash_pd t ! ((idx + Suc c) mod capacity t) = ?w"
    using assms by (simp add: slot_at_def shape_okD)
  have nxt: "wrap (capacity t) ((idx + Suc c) mod capacity t + 1) = (idx + Suc (Suc c)) mod capacity t"
    using assms by (simp add: wrap_cap mod_Suc_eq)
  show ?case
  proof (cases "hpd_empty ?w")
    case True
    then show ?thesis using Suc.prems by (auto simp: w [simplified])
  next
    case ne: False
    have go: "c < L \<and> (\<forall>x. c < x \<and> x \<le> L \<longrightarrow> \<not> hpd_empty (slot_at (hash_pd t) idx x)) \<and>
        hpd_empty (slot_at (hash_pd t) idx (Suc L)) \<and>
        (lc1 < lc' \<longrightarrow> (\<exists>x. c < x \<and> x \<le> L \<and> hpd_live (slot_at (hash_pd t) idx x)))"
      if "compact_scan t steps ((idx + Suc (Suc c)) mod capacity t) (Suc c) lc1 = (L, lc', True)" for lc1
      using Suc.IH [OF that] ne by (metis Suc_leI Suc_lessD linorder_not_le not_less_eq_eq le_antisym)
    show ?thesis
    proof (cases "hpd_tomb ?w")
      case True
      then show ?thesis using Suc.prems ne go [of lc] nxt by (simp add: w [simplified] Let_def)
    next
      case False
      then have live: "hpd_live ?w" using ne not_live_iff by blast
      have "compact_scan t steps ((idx + Suc (Suc c)) mod capacity t) (Suc c) (lc + 1) = (L, lc', True)"
        using Suc.prems ne False nxt by (simp add: w [simplified] Let_def split: if_splits)
      from go [OF this] show ?thesis using live by (metis Suc_leI less_imp_le lessI)
    qed
  qed
qed simp

lemma chain_prefix: "i \<le> L \<Longrightarrow> \<exists>zs. chain hp idx L = chain hp idx i @ zs"
  by (induction L rule: dec_induct) (auto simp: chain_Suc)

lemma ideal_safe_spec:
  assumes s: "shape_ok t"
  shows "ideal_safe_loop t idx [i..<L] (length (chain (hash_pd t) idx i)) \<Longrightarrow> i \<le> L \<Longrightarrow>
    length (chain (hash_pd t) idx i) \<le> y \<Longrightarrow> y < length (chain (hash_pd t) idx L) \<Longrightarrow>
    chain (hash_pd t) idx L ! y - y \<le> pd (slot_at (hash_pd t) idx (chain (hash_pd t) idx L ! y))"
proof (induction "L - i" arbitrary: i)
  case (Suc k)
  then have i: "i < L" by simp
  then have upt: "[i..<L] = i # [Suc i..<L]" by (rule upt_conv_Cons)
  let ?w = "slot_at (hash_pd t) idx (Suc i)"
  have w: "hash_pd t ! wrap (capacity t) (idx + 1 + i) = ?w"
    using s by (simp add: slot_at_def wrap_cap shape_okD)
  show ?case
  proof (cases "hpd_live ?w")
    case False
    then have "ideal_safe_loop t idx [Suc i..<L] (length (chain (hash_pd t) idx (Suc i)))"
      using Suc.prems(1) w by (simp add: upt chain_Suc Let_def)
    then show ?thesis using Suc.hyps(2) Suc.prems i False by (intro Suc.hyps(1) [of "Suc i"]) (auto simp: chain_Suc)
  next
    case True
    let ?m = "length (chain (hash_pd t) idx i)"
    have c: "ideal_safe_loop t idx [Suc i..<L] (length (chain (hash_pd t) idx (Suc i)))" "Suc i - ?m \<le> pd ?w"
      using Suc.prems(1) w True by (simp_all add: upt chain_Suc Let_def split: if_splits)
    obtain zs where zs: "chain (hash_pd t) idx L = chain (hash_pd t) idx (Suc i) @ zs"
      using chain_prefix i by (metis Suc_leI)
    show ?thesis
    proof (cases "y = ?m")
      case eq: True
      then show ?thesis using c(2) True zs by (simp add: chain_Suc nth_append)
    next
      case False
      then show ?thesis using c(1) Suc.hyps(2) Suc.prems i True by (intro Suc.hyps(1) [of "Suc i"]) (auto simp: chain_Suc)
    qed
  qed
qed simp

text \<open>The arrays and the counter after \<open>i\<close> slots of the chain.\<close>

definition shift_state :: "ht_bare \<Rightarrow> nat \<Rightarrow> nat \<Rightarrow> u64 list \<Rightarrow> u32 list \<Rightarrow> nat \<Rightarrow> bool" where
  "shift_state t idx i hp vs c \<longleftrightarrow>
     length hp = capacity t \<and> length vs = capacity t \<and>
     (\<forall>y < capacity t. slot_at hp idx y = after_shift (hash_pd t) idx i y) \<and>
     main_mset hp vs = main_mset (hash_pd t) (vals t) \<and>
     c = length (filter hpd_tomb hp) + of_bool (chain (hash_pd t) idx i \<noteq> [])"

lemma slot_at_update:
  assumes "x < length hp" "y < length hp"
  shows "slot_at (hp[(idx + x) mod length hp := w]) idx y = (if x = y then w else slot_at hp idx y)"
proof -
  have "0 < length hp" using assms by linarith
  then have "(idx + x) mod length hp < length hp" by simp
  then show ?thesis
    using assms mod_add_cancel [of x "length hp" y idx] by (auto simp: slot_at_def nth_list_update_if)
qed

lemma shift_state_next:
  assumes "shift_state t idx i hp vs c" "Suc i < capacity t"
  shows "hp ! ((idx + Suc i) mod capacity t) = slot_at (hash_pd t) idx (Suc i)"
proof -
  have "slot_at hp idx (Suc i) = after_shift (hash_pd t) idx i (Suc i)" "length hp = capacity t"
    using assms by (simp_all add: shift_state_def)
  then show ?thesis
    using length_chain_le [of "hash_pd t" idx i] by (simp add: after_shift_def slot_at_def [of hp])
qed

lemma shift_state_tomb:
  assumes s: "shape_ok t" and st: "shift_state t idx i hp vs c"
    and i: "Suc (Suc i) < capacity t" and w: "hpd_tomb (slot_at (hash_pd t) idx (Suc i))"
  shows "shift_state t idx (Suc i) (hp[(idx + Suc i) mod capacity t := HASH_EMPTY])
    (vs[(idx + Suc i) mod capacity t := VAL_NONE]) (sz_sub c 1)"
proof -
  let ?n = "capacity t" and ?C = "chain (hash_pd t) idx"
  let ?r = "(idx + Suc i) mod ?n"
  have len: "length hp = ?n" "length vs = ?n" using st by (simp_all add: shift_state_def)
  have r: "?r < ?n" using i by (intro mod_less_divisor) linarith
  have m: "length (?C i) \<le> i" by (rule length_chain_le)
  have old: "hp ! ?r = slot_at (hash_pd t) idx (Suc i)"
    using st i by (intro shift_state_next) auto
  have "hp ! ?r \<in> set (filter hpd_tomb hp)" using nth_mem [of ?r hp] r len old w by (simp del: add_Suc_right)
  then have t1: "1 \<le> length (filter hpd_tomb hp)" using length_pos_if_in_set by (metis One_nat_def Suc_leI)
  have "length (filter hpd_tomb hp) \<le> ?n" using length_filter_le [of hpd_tomb hp] len by simp
  then have "c < 2 ^ 64"
    using st pow2_cap_bound [of ?n] s by (auto simp: shift_state_def shape_okD split: if_splits)
  then have c: "sz_sub c 1 = c - 1" using st t1 by (intro sz_sub_small) (auto simp: shift_state_def)
  have live: "\<not> hpd_live (slot_at (hash_pd t) idx (Suc i))" using w by (metis slot_excl(3))
  have C: "?C (Suc i) = ?C i" using live by (simp add: chain_Suc)
  have "slot_at (hp[?r := HASH_EMPTY]) idx y = after_shift (hash_pd t) idx (Suc i) y" if "y < ?n" for y
    using st slot_at_update [of "Suc i" hp y idx HASH_EMPTY] that i len m
    by (auto simp: shift_state_def after_shift_def C)
  moreover have "main_mset (hp[?r := HASH_EMPTY]) (vs[?r := VAL_NONE]) = main_mset (hash_pd t) (vals t)"
    using main_mset_update [of ?r hp vs HASH_EMPTY VAL_NONE] r len old live st
    by (simp add: shift_state_def)
  moreover have "sz_sub c 1 = length (filter hpd_tomb (hp[?r := HASH_EMPTY])) + of_bool (?C (Suc i) \<noteq> [])"
    using length_filter_update [of ?r hp hpd_tomb HASH_EMPTY] r len old w st c t1
    by (auto simp: shift_state_def C)
  ultimately show ?thesis using len by (simp add: shift_state_def)
qed


lemma shift_state_live:
  assumes s: "shape_ok t" and st: "shift_state t idx i hp vs c"
    and i: "Suc (Suc i) < capacity t" and w: "hpd_live (slot_at (hash_pd t) idx (Suc i))"
    and tomb: "hpd_tomb (slot_at (hash_pd t) idx 0)"
  defines "r \<equiv> (idx + Suc i) mod capacity t" and "m \<equiv> length (chain (hash_pd t) idx i)"
  defines "q \<equiv> (idx + m) mod capacity t"
  shows "shift_state t idx (Suc i) ((hp[q := moved (hash_pd t) idx (Suc i) m])[r := HASH_EMPTY])
    ((vs[q := vs ! r])[r := VAL_NONE]) c"
proof -
  let ?n = "capacity t" and ?C = "chain (hash_pd t) idx" and ?w = "moved (hash_pd t) idx (Suc i) m"
  have len: "length hp = ?n" "length vs = ?n" using st by (simp_all add: shift_state_def)
  have m: "m \<le> i" unfolding m_def by (rule length_chain_le)
  have rq: "r < ?n" "q < ?n" using i by (simp_all add: r_def q_def)
  have "r \<noteq> q" using mod_add_cancel [of "Suc i" ?n m idx] i m by (auto simp: r_def q_def)
  have old: "hp ! r = slot_at (hash_pd t) idx (Suc i)"
    unfolding r_def using st i by (intro shift_state_next) auto
  have "slot_at hp idx m = after_shift (hash_pd t) idx i m" using st m i by (simp add: shift_state_def)
  then have hq: "hp ! q = (if m = 0 then slot_at (hash_pd t) idx 0 else HASH_EMPTY)"
    using m by (cases "m = 0") (simp_all add: after_shift_def q_def slot_at_def [of hp] len flip: m_def)
  have nl: "\<not> hpd_live (hp ! q)" using hq tomb slot_excl(2,3) empty_slot(1) by metis
  have C: "?C (Suc i) = ?C i @ [Suc i]" using w by (simp add: chain_Suc)
  have up: "slot_at ((hp[q := ?w])[r := HASH_EMPTY]) idx y =
      (if y = Suc i then HASH_EMPTY else if y = m then ?w else slot_at hp idx y)" if "y < ?n" for y
    using slot_at_update [of "Suc i" "hp[q := ?w]" y idx HASH_EMPTY] slot_at_update [of m hp y idx ?w] that i m len
    by (auto simp: r_def q_def)
  have "slot_at ((hp[q := ?w])[r := HASH_EMPTY]) idx y = after_shift (hash_pd t) idx (Suc i) y" if "y < ?n" for y
    using up [OF that] st that m
    by (auto simp: shift_state_def after_shift_def C nth_append m_def [symmetric] less_Suc_eq)
  moreover have "main_mset ((hp[q := ?w])[r := HASH_EMPTY]) ((vs[q := vs ! r])[r := VAL_NONE]) = main_mset (hash_pd t) (vals t)"
    using main_mset_update [of q hp vs ?w "vs ! r"]
      main_mset_update [of r "hp[q := ?w]" "vs[q := vs ! r]" HASH_EMPTY VAL_NONE]
      rq len old nl st w \<open>r \<noteq> q\<close> slot_excl(2) [of HASH_EMPTY]
    by (auto simp: shift_state_def)
  moreover have "c = length (filter hpd_tomb ((hp[q := ?w])[r := HASH_EMPTY])) + of_bool (?C (Suc i) \<noteq> [])"
    using length_filter_update [of q hp hpd_tomb ?w]
      length_filter_update [of r "hp[q := ?w]" hpd_tomb HASH_EMPTY] rq len old w st \<open>r \<noteq> q\<close> hq tomb
      slot_excl(1) [of HASH_EMPTY]
    by (auto simp: shift_state_def C m_def split: if_splits)
  ultimately show ?thesis using len by (simp add: shift_state_def)
qed

lemma backward_shift_spec:
  assumes s: "shape_ok t" and L: "Suc L < capacity t"
    and tomb: "hpd_tomb (slot_at (hash_pd t) idx 0)"
    and full: "\<forall>x. 0 < x \<and> x \<le> L \<longrightarrow> \<not> hpd_empty (slot_at (hash_pd t) idx x)"
  shows "shift_state t idx i hp vs c \<Longrightarrow> i \<le> L \<Longrightarrow>
    \<exists>hp' vs' c'. backward_shift_loop idx [i..<L] (length (chain (hash_pd t) idx i))
        (t\<lparr>hash_pd := hp, vals := vs, tombstone_cnt := c\<rparr>) =
        t\<lparr>hash_pd := hp', vals := vs', tombstone_cnt := c'\<rparr> \<and> shift_state t idx L hp' vs' c'"
proof (induction "L - i" arbitrary: i hp vs c)
  case 0
  then show ?case by (intro exI [of _ hp] exI [of _ vs] exI [of _ c]) auto
next
  case (Suc k)
  then have i: "i < L" "Suc (Suc i) < capacity t" using L by auto
  then have upt: "[i..<L] = i # [Suc i..<L]" by (intro upt_conv_Cons)
  let ?r = "(idx + Suc i) mod capacity t"
  have r: "wrap (capacity t) (idx + 1 + i) = ?r" using s by (simp add: wrap_cap)
  have comm: "t\<lparr>tombstone_cnt := a, hash_pd := b, vals := d\<rparr> = t\<lparr>hash_pd := b, vals := d, tombstone_cnt := a\<rparr>" for a b d
    by simp
  have w: "hp ! ?r = slot_at (hash_pd t) idx (Suc i)" using Suc.prems(1) i by (intro shift_state_next) auto
  show ?case
  proof (cases "hpd_live (slot_at (hash_pd t) idx (Suc i))")
    case True
    note st = shift_state_live [OF s Suc.prems(1) i(2) True tomb]
    show ?thesis
      using Suc.hyps(1) [OF _ st] Suc.hyps(2) i r w True wrap_cap [OF s]
      by (simp add: upt chain_Suc Let_def moved_def comm)
  next
    case False
    then have t: "hpd_tomb (slot_at (hash_pd t) idx (Suc i))" using full i not_live_iff by auto
    note st = shift_state_tomb [OF s Suc.prems(1) i(2) t]
    show ?thesis
      using Suc.hyps(1) [OF _ st] Suc.hyps(2) i r w False
      by (simp add: upt chain_Suc Let_def comm)
  qed
qed


section \<open>Deleting one slot\<close>

text \<open>\<open>t'\<close> has the entries of \<open>t\<close>, differently arranged in the main array.\<close>

definition rearranged :: "ht_bare \<Rightarrow> ht_bare \<Rightarrow> bool" where
  "rearranged t t' \<longleftrightarrow>
     bare_inv t' \<and> contents t' = contents t \<and> same_config t t' \<and> same_spill t t' \<and>
     overflow_entries t' = overflow_entries t \<and> overflow_len t' = overflow_len t \<and>
     overflow_violated t' = overflow_violated t \<and> (has_empty t \<longrightarrow> has_empty t')"

lemma rearranged_refl: "bare_inv t \<Longrightarrow> rearranged t t"
  by (simp add: rearranged_def)

lemma values_ok_main:
  assumes "shape_ok t" "length hp = capacity t" "length vs = capacity t"
    and "main_mset hp vs \<subseteq># main_mset (hash_pd t) (vals t)" "values_ok t"
  shows "i < capacity t \<Longrightarrow> hpd_live (hp ! i) \<Longrightarrow> vs ! i \<noteq> VAL_NONE"
proof -
  assume i: "i < capacity t" "hpd_live (hp ! i)"
  then have "(hpd_hash (hp ! i), vs ! i) \<in># main_mset hp vs"
    using assms(2,3) by (auto simp: in_main_mset_iff)
  then have "(hpd_hash (hp ! i), vs ! i) \<in># main_mset (hash_pd t) (vals t)"
    using assms(4) by (rule mset_subset_eqD [rotated])
  then obtain k where "k < capacity t" "hpd_live (hash_pd t ! k)" "vals t ! k = vs ! i"
    using assms(1) by (auto simp: in_main_mset_iff shape_okD)
  then show "vs ! i \<noteq> VAL_NONE" using assms(5) by (auto simp: values_ok_def)
qed

text \<open>A table whose arrays are replaced by others with the same entries.\<close>

lemma replace_arrays:
  assumes inv: "bare_inv t" and hp: "length hp = capacity t" "length vs = capacity t"
    and main: "main_mset hp vs = main_mset (hash_pd t) (vals t)"
    and p: "probe_inv hp" and c: "c = length (filter hpd_tomb hp)"
    and b: "\<And>i. i < capacity t \<Longrightarrow> hpd_live (hp ! i) \<Longrightarrow>
      \<exists>k < capacity t. hpd_live (hash_pd t ! k) \<and> pd (hp ! i) \<le> pd (hash_pd t ! k)"
  defines "t' \<equiv> t\<lparr>hash_pd := hp, vals := vs, tombstone_cnt := c\<rparr>"
  shows "bare_inv t'" "contents t' = contents t" "same_config t t'" "same_spill t t'"
    and "overflow_entries t' = overflow_entries t" "overflow_len t' = overflow_len t"
    and "overflow_violated t' = overflow_violated t" "hash_pd t' = hp"
proof -
  have t: "shape_ok t" "values_ok t" "bounded_ok t" using inv by (simp_all add: bare_invD)
  have f: "spill_entries t' = spill_entries t" "overflow_entries t' = overflow_entries t"
    by (simp_all add: spill_entries_def overflow_entries_def t'_def)
  then show cont: "contents t' = contents t" using main by (simp add: contents_def) (simp add: t'_def)
  have "\<not> over_limit t (pd (hp ! i))" if "i < capacity t" "hpd_live (hp ! i)" "\<not> overflow_violated t" for i
    using b [OF that(1,2)] t(3) that(3) over_limit_mono unfolding bounded_ok_def by blast
  then have "bounded_ok t'" by (auto simp: bounded_ok_def over_limit_def t'_def)
  moreover have "values_ok t'"
    using t(2) f values_ok_main [OF t(1) hp _ t(2)] main by (simp add: values_ok_def) (simp add: t'_def)
  moreover have "shape_ok t'" using t(1) hp by (simp add: shape_ok_def t'_def)
  moreover have "tsize t' = size (contents t')" "tombstone_cnt t' = tombs t'"
    using cont counts_okD(1) [OF inv] c by (simp_all add: tombs_def t'_def)
  ultimately show "bare_inv t'" using p by (simp add: bare_inv_def counts_ok_def) (simp add: t'_def)
qed (simp_all add: t'_def overflow_entries_def same_config_def same_spill_def)

lemma rearrangedI:
  assumes inv: "bare_inv t" and hp: "length hp = capacity t" "length vs = capacity t"
    and main: "main_mset hp vs = main_mset (hash_pd t) (vals t)"
    and p: "probe_inv hp" and c: "c = length (filter hpd_tomb hp)"
    and b: "\<And>i. i < capacity t \<Longrightarrow> hpd_live (hp ! i) \<Longrightarrow>
      \<exists>k < capacity t. hpd_live (hash_pd t ! k) \<and> pd (hp ! i) \<le> pd (hash_pd t ! k)"
    and e: "has_empty t \<Longrightarrow> list_ex hpd_empty hp"
  shows "rearranged t (t\<lparr>hash_pd := hp, vals := vs, tombstone_cnt := c\<rparr>)"
  using replace_arrays [OF inv hp main p c b] e by (simp add: rearranged_def has_empty_def)

text \<open>A chain that \<open>bare_delete_compact\<close> shifts, and the arrays after the shift.\<close>

definition shiftable :: "u64 list \<Rightarrow> nat \<Rightarrow> nat \<Rightarrow> bool" where
  "shiftable hp idx L \<longleftrightarrow>
     Suc L < length hp \<and> hpd_empty (slot_at hp idx (Suc L)) \<and> chain hp idx L \<noteq> [] \<and>
     (\<forall>y < length (chain hp idx L). chain hp idx L ! y - y \<le> pd (slot_at hp idx (chain hp idx L ! y)))"

lemma delete_compact_cases:
  assumes inv: "bare_inv t" and idx: "idx < capacity t" and tomb: "hpd_tomb (hash_pd t ! idx)"
  obtains (same) "bare_delete_compact t idx = t"
  | (shift) L hp vs c where
      "bare_delete_compact t idx = t\<lparr>hash_pd := hp, vals := vs, tombstone_cnt := c\<rparr>"
      "shiftable (hash_pd t) idx L" "shift_state t idx L hp vs (Suc c)"
proof -
  have s: "shape_ok t" using inv by (simp add: bare_invD)
  have n: "length (hash_pd t) = capacity t" using s by (simp add: shape_okD)
  have tomb0: "hpd_tomb (slot_at (hash_pd t) idx 0)" using tomb idx n by (simp add: slot_at_def)
  obtain L lc e where sc: "compact_scan t BSHIFT_CAP (wrap (capacity t) (idx + 1)) 0 0 = (L, lc, e)"
    by (metis prod_cases3)
  show thesis
  proof (cases "e \<and> lc > 0 \<and> bare_verify_ideal_safe t idx L")
    case False
    then show thesis using sc by (intro same) (auto simp: bare_delete_compact_def)
  next
    case True
    have "compact_scan t BSHIFT_CAP ((idx + Suc 0) mod capacity t) 0 0 = (L, lc, True)"
      using sc True s by (simp add: wrap_cap)
    from compact_scan_spec [OF s this]
    have full: "\<forall>x. 0 < x \<and> x \<le> L \<longrightarrow> \<not> hpd_empty (slot_at (hash_pd t) idx x)"
      and emp: "hpd_empty (slot_at (hash_pd t) idx (Suc L))"
      and some: "\<exists>x. 0 < x \<and> x \<le> L \<and> hpd_live (slot_at (hash_pd t) idx x)"
      using True by auto
    have L: "Suc L < capacity t"
    proof (rule ccontr)
      assume "\<not> Suc L < capacity t"
      then have "slot_at (hash_pd t) idx (Suc L) = slot_at (hash_pd t) idx (Suc L - capacity t)"
        using n by (simp add: slot_at_def) (metis add_diff_assoc le_mod_geq mod_add_right_eq le_add2 mod_if not_less add_Suc_right)
      moreover have "\<not> hpd_empty (slot_at (hash_pd t) idx (Suc L - capacity t))"
        using full tomb0 idx by (cases "Suc L - capacity t = 0") (auto simp: slot_excl)
      ultimately show False using emp by simp
    qed
    have ne: "chain (hash_pd t) idx L \<noteq> []" using some set_chain [of _ "hash_pd t" idx L] by fastforce
    have "shiftable (hash_pd t) idx L"
      using L emp ne ideal_safe_spec [OF s, of idx 0 L] True n
      by (auto simp: shiftable_def bare_verify_ideal_safe_def)
    moreover have "shift_state t idx 0 (hash_pd t) (vals t) (tombstone_cnt t)"
      using s counts_okD(2) [OF inv] by (auto simp: shift_state_def after_shift_def tombs_def shape_okD)
    then obtain hp vs c where r: "backward_shift_loop idx [0..<L] 0 t = t\<lparr>hash_pd := hp, vals := vs, tombstone_cnt := c\<rparr>"
      "shift_state t idx L hp vs c"
      using backward_shift_spec [OF s L tomb0 full, of 0 "hash_pd t" "vals t" "tombstone_cnt t"] by auto
    have "c < 2 ^ 64" "1 \<le> c"
      using r(2) ne length_filter_le [of hpd_tomb hp] pow2_cap_bound [of "capacity t"] s
      by (auto simp: shift_state_def shape_okD)
    then have "sz_sub c 1 = c - 1" by (intro sz_sub_small) auto
    ultimately show thesis
      using sc True r \<open>1 \<le> c\<close>
      by (intro shift [where L = L and hp = hp and vs = vs and c = "c - 1"]) (auto simp: bare_delete_compact_def bare_commit_backward_shift_def Let_def)
  qed
qed

text \<open>Where a live slot after the shift comes from.\<close>

lemma shift_source:
  assumes s: "shape_ok t" and idx: "idx < capacity t" and sh: "shiftable (hash_pd t) idx L"
    and st: "shift_state t idx L hp vs c" and k: "k < capacity t" "hpd_live (hp ! k)"
  obtains x y where "x < capacity t" "y \<le> x" "k = (idx + y) mod capacity t"
    and "hpd_live (slot_at (hash_pd t) idx x)" "hpd_hash (hp ! k) = hpd_hash (slot_at (hash_pd t) idx x)"
    and "pd (hp ! k) + (x - y) = pd (slot_at (hash_pd t) idx x)"
proof -
  obtain y where y: "y < capacity t" "(idx + y) mod capacity t = k"
    using mod_reach [OF idx k(1)] by blast
  have w: "hp ! k = after_shift (hash_pd t) idx L y"
    using st y by (auto simp: shift_state_def slot_at_def)
  show thesis
  proof (cases "y < length (chain (hash_pd t) idx L)")
    case True
    let ?x = "chain (hash_pd t) idx L ! y"
    have x: "?x - y \<le> pd (slot_at (hash_pd t) idx ?x)" using sh True by (simp add: shiftable_def)
    show thesis
      using chain_nth [OF True] pd_moved [OF x] x sh w True y s
      by (intro that [of ?x y]) (auto simp: after_shift_def shiftable_def shape_okD)
  next
    case False
    then have "hp ! k = slot_at (hash_pd t) idx y" using w k(2) by (auto simp: after_shift_def split: if_splits)
    then show thesis using y k(2) by (intro that [of y y]) auto
  qed
qed

lemma delete_compact_ok:
  assumes inv: "bare_inv t" and idx: "idx < capacity t" and tomb: "hpd_tomb (hash_pd t ! idx)"
  shows "rearranged t (bare_delete_compact t idx)"
  using assms
proof (cases rule: delete_compact_cases)
  case same
  then show ?thesis using inv by (simp add: rearranged_refl)
next
  case (shift L hp vs c)
  have s: "shape_ok t" using inv by (simp add: bare_invD)
  have n: "length (hash_pd t) = capacity t" "length hp = capacity t" "length vs = capacity t"
    using s shift(3) by (simp_all add: shape_okD shift_state_def)
  have "probe_inv hp"
    using shift_probe_inv [OF bare_invD(2) [OF inv], of L idx hp] shift(2,3) idx n
    by (simp add: shiftable_def shift_state_def)
  moreover have "\<exists>k0 < capacity t. hpd_live (hash_pd t ! k0) \<and> pd (hp ! k) \<le> pd (hash_pd t ! k0)"
    if k: "k < capacity t" "hpd_live (hp ! k)" for k
  proof -
    obtain x y where "hpd_live (slot_at (hash_pd t) idx x)" "pd (hp ! k) + (x - y) = pd (slot_at (hash_pd t) idx x)"
      using shift_source [OF s idx shift(2,3) k] by metis
    then show ?thesis
      using shape_okD(11) [OF s] n by (intro exI [of _ "(idx + x) mod capacity t"]) (simp add: slot_at_def)
  qed
  moreover have "list_ex hpd_empty hp"
  proof -
    have "slot_at hp idx (Suc L) = slot_at (hash_pd t) idx (Suc L)"
      using shift(2,3) n length_chain_le [of "hash_pd t" idx L]
      by (simp add: shiftable_def shift_state_def after_shift_def)
    then have "hpd_empty (hp ! ((idx + Suc L) mod capacity t))"
      using shift(2) n by (simp add: shiftable_def slot_at_def)
    moreover have "(idx + Suc L) mod capacity t < length hp" using shape_okD(11) [OF s] n by simp
    ultimately show ?thesis unfolding list_ex_length by blast
  qed
  ultimately show ?thesis
    using shift inv n by (auto simp: shift_state_def shiftable_def intro!: rearrangedI)
qed

end
