(* ===== verification/Ht_Remove.thy ===== *)
theory Ht_Remove
  imports Ht_Shift
begin

text \<open>
  Deletion: a deleted slot becomes a tombstone and the chain behind it is compacted (theory
  \<open>Ht_Shift\<close>). From this follow the removal of one entry and of all entries of a hash, in the
  main array, the spill lane and the stash.
\<close>

section \<open>Deleting one slot\<close>

text \<open>\<open>t'\<close> is \<open>t\<close> with the entry \<open>e\<close> removed.\<close>

definition deleted :: "ht_bare \<Rightarrow> entry \<Rightarrow> ht_bare \<Rightarrow> bool" where
  "deleted t e t' \<longleftrightarrow>
     bare_inv t' \<and> contents t = add_mset e (contents t') \<and> same_config t t' \<and>
     (has_empty t \<longrightarrow> has_empty t')"

definition tomb_slot :: "ht_bare \<Rightarrow> nat \<Rightarrow> ht_bare" where
  "tomb_slot t idx = t\<lparr>tsize := sz_sub (tsize t) 1, hash_pd := (hash_pd t)[idx := HASH_TOMB],
     vals := (vals t)[idx := VAL_NONE], tombstone_cnt := sz_add (tombstone_cnt t) 1\<rparr>"

lemma capacity_tomb_slot [simp]: "capacity (tomb_slot t idx) = capacity t"
  by (simp add: tomb_slot_def)

lemma tomb_slot_counts:
  "tsize (tomb_slot t idx) = sz_sub (tsize t) 1" "tombstone_cnt (tomb_slot t idx) = sz_add (tombstone_cnt t) 1"
  by (simp_all add: tomb_slot_def)

lemma delete_slot_tomb: "delete_slot t idx = bare_delete_compact (tomb_slot t idx) idx"
  by (simp add: delete_slot_def tomb_slot_def)

lemma passable_tomb: "passable hp q j \<Longrightarrow> i < length hp \<Longrightarrow> passable (hp[i := HASH_TOMB]) q j"
  by (simp add: passable_def nth_list_update_if)

lemma probe_inv_tomb:
  assumes "probe_inv hp" "i < length hp"
  shows "probe_inv (hp[i := HASH_TOMB])"
  unfolding probe_inv_def
proof (intro allI impI)
  fix k assume k: "k < length (hp[i := HASH_TOMB])" "hpd_live (hp[i := HASH_TOMB] ! k)"
  then have eq: "hp[i := HASH_TOMB] ! k = hp ! k" by (metis nth_list_update_eq nth_list_update_neq reserved_slots(5) assms(2))
  then show "entry_ok (hp[i := HASH_TOMB]) k"
    using assms k passable_tomb by (simp add: probe_inv_def entry_ok_def path_clear_def Let_def)
qed

lemma tomb_slot_ok:
  assumes inv: "bare_inv t" and idx: "idx < capacity t" and live: "hpd_live (hash_pd t ! idx)"
  shows "deleted t (hpd_hash (hash_pd t ! idx), vals t ! idx) (tomb_slot t idx)"
    and "hpd_tomb (hash_pd (tomb_slot t idx) ! idx)"
    and "overflow_entries (tomb_slot t idx) = overflow_entries t" "same_spill t (tomb_slot t idx)"
proof -
  let ?t = "tomb_slot t idx" and ?e = "(hpd_hash (hash_pd t ! idx), vals t ! idx)"
  have t: "shape_ok t" "probe_inv (hash_pd t)" "values_ok t" "bounded_ok t" using inv by (simp_all add: bare_invD)
  have f: "spill_entries ?t = spill_entries t" "overflow_entries ?t = overflow_entries t"
    by (simp_all add: spill_entries_def overflow_entries_def tomb_slot_def)
  have "main_mset (hash_pd t) (vals t) = add_mset ?e (main_mset (hash_pd ?t) (vals ?t))"
    using main_mset_update [of idx "hash_pd t" "vals t" HASH_TOMB VAL_NONE] idx live t(1)
    by (simp add: shape_okD tomb_slot_def)
  then have c: "contents t = add_mset ?e (contents ?t)" using f by (simp add: contents_def)
  have tm: "tombs ?t = tombs t + 1"
    using length_filter_update [of idx "hash_pd t" hpd_tomb HASH_TOMB] idx live t(1)
    by (simp add: tombs_def tomb_slot_def shape_okD)
  have "tsize t = Suc (size (contents ?t))" using counts_okD(1) [OF inv] c by simp
  then have "sz_sub (tsize t) 1 = size (contents ?t)"
    using tsize_bound [OF inv] by (subst sz_sub_small) auto
  moreover have "sz_add (tombstone_cnt t) 1 = tombs ?t"
    using tm counts_okD(2) [OF inv] tombs_bound [OF t(1)] by (simp add: sz_simps)
  ultimately have "counts_ok ?t" unfolding counts_ok_def tomb_slot_counts by blast
  moreover have "shape_ok ?t" using t(1) by (simp add: shape_ok_def tomb_slot_def)
  moreover have "values_ok ?t"
    using t(1,3) f idx by (auto simp: values_ok_def shape_okD nth_list_update tomb_slot_def)
  moreover have "bounded_ok ?t"
    using t(1,4) idx by (auto simp: bounded_ok_def shape_okD nth_list_update tomb_slot_def over_limit_def)
  moreover have "probe_inv (hash_pd ?t)" using probe_inv_tomb [OF t(2)] idx t(1) by (simp add: tomb_slot_def shape_okD)
  moreover have "has_empty ?t" if "has_empty t"
  proof -
    obtain i where "i < capacity t" "hpd_empty (hash_pd t ! i)"
      using \<open>has_empty t\<close> t(1) by (auto simp: has_empty_def list_ex_length shape_okD)
    moreover from this have "idx \<noteq> i" using live by (metis slot_excl(2))
    ultimately show ?thesis using t(1) by (intro has_emptyI [of _ i]) (auto simp: tomb_slot_def shape_ok_def)
  qed
  ultimately show "deleted t ?e ?t"
    using c by (simp add: deleted_def bare_inv_def same_config_def tomb_slot_def)
  show "hpd_tomb (hash_pd ?t ! idx)" using idx t(1) by (simp add: tomb_slot_def shape_okD)
  show "overflow_entries ?t = overflow_entries t" by (rule f(2))
  show "same_spill t ?t" by (simp add: same_spill_def tomb_slot_def)
qed

lemma delete_slot_ok:
  assumes inv: "bare_inv t" and idx: "idx < capacity t" and live: "hpd_live (hash_pd t ! idx)"
  shows "deleted t (hpd_hash (hash_pd t ! idx), vals t ! idx) (delete_slot t idx)"
    and "overflow_entries (delete_slot t idx) = overflow_entries t" "same_spill t (delete_slot t idx)"
proof -
  note d = tomb_slot_ok [OF inv idx live]
  have "rearranged (tomb_slot t idx) (delete_slot t idx)"
    using delete_compact_ok [of "tomb_slot t idx" idx] d idx by (simp add: delete_slot_tomb deleted_def)
  then show "deleted t (hpd_hash (hash_pd t ! idx), vals t ! idx) (delete_slot t idx)"
    and "overflow_entries (delete_slot t idx) = overflow_entries t" "same_spill t (delete_slot t idx)"
    using d by (auto simp: rearranged_def deleted_def intro: same_config_trans same_spill_trans)
qed


section \<open>Deleting from the spill lane and the stash\<close>

lemma nth_memmove_down:
  assumes "i + n < length xs" "k < length xs"
  shows "memmove_down xs i n ! k = (if k < i then xs ! k else if k < i + n then xs ! Suc k else xs ! k)"
proof -
  have "length (take i xs) = i" "length (take n (drop (Suc i) xs)) = n" using assms by auto
  then show ?thesis using assms by (auto simp: memmove_down_def nth_append)
qed

lemma length_memmove_down [simp]: "i + n < length xs \<Longrightarrow> length (memmove_down xs i n) = length xs"
  by (simp add: memmove_down_def)

lemma side_entries_memmove:
  assumes "i < len" "len \<le> length hs" "length vs = length hs"
  shows "side_entries ((memmove_down hs i (len - i - 1))[len - 1 := a]) ((memmove_down vs i (len - i - 1))[len - 1 := b]) (len - 1) =
    take i (side_entries hs vs len) @ drop (Suc i) (side_entries hs vs len)"
  using assms
  by (intro nth_equalityI) (auto simp: nth_side_entries nth_append nth_memmove_down)

lemma mset_take_drop: "i < length xs \<Longrightarrow> mset xs = add_mset (xs ! i) (mset (take i xs @ drop (Suc i) xs))"
  by (subst (1) id_take_nth_drop [of i]) auto

lemma side_entries_swap:
  assumes "i < len" "len \<le> length hs" "length vs = length hs"
  shows "mset (side_entries hs vs len) =
    add_mset (side_entries hs vs len ! i)
      (mset (side_entries (hs[i := hs ! (len - 1)]) (vs[i := vs ! (len - 1)]) (len - 1)))"
proof -
  let ?E = "side_entries hs vs len"
  have E: "length ?E = len" using assms by simp
  have "?E = take (len - 1) ?E @ [?E ! (len - 1)]"
    using E assms(1) by (metis Suc_diff_1 lessI less_nat_zero_code neq0_conv take_Suc_conv_app_nth take_all order_refl)
  then have m: "mset ?E = add_mset (?E ! (len - 1)) (mset (take (len - 1) ?E))"
    by (metis mset_append mset.simps add_mset_add_single)
  have upd: "side_entries (hs[i := hs ! (len - 1)]) (vs[i := vs ! (len - 1)]) (len - 1) =
      (take (len - 1) ?E)[i := ?E ! (len - 1)]"
    using assms by (intro nth_equalityI) (auto simp: nth_side_entries nth_list_update)
  show ?thesis
  proof (cases "i = len - 1")
    case True
    then show ?thesis using m upd E by (simp add: list_update_beyond)
  next
    case False
    then have i: "i < length (take (len - 1) ?E)" using assms E by simp
    then have "take (len - 1) ?E ! i \<in># mset (take (len - 1) ?E)" by (metis nth_mem set_mset_mset)
    then show ?thesis using m upd i by (simp add: mset_update multi_member_split insert_DiffM)
  qed
qed

lemma deleted_side:
  assumes inv: "bare_inv t" and shape: "shape_ok t'"
    and same: "hash_pd t' = hash_pd t" "vals t' = vals t" "tombstone_cnt t' = tombstone_cnt t"
      "same_config t t'" "overflow_violated t' = overflow_violated t"
    and ts: "tsize t' = sz_sub (tsize t) 1"
    and sp: "set (spill_entries t') \<subseteq> set (spill_entries t)"
    and ov: "set (overflow_entries t') \<subseteq> set (overflow_entries t)"
    and c: "contents t = add_mset e (contents t')"
  shows "deleted t e t'"
proof -
  have "tsize t = Suc (size (contents t'))" using counts_okD(1) [OF inv] c by simp
  then have "tsize t' = size (contents t')"
    using tsize_bound [OF inv] ts by (subst (asm) sz_sub_small) auto
  moreover have "values_ok t'"
    using bare_invD(3) [OF inv] sp ov same by (auto simp: values_ok_def same_config_def)
  moreover have "bounded_ok t'"
    using bare_invD(4) [OF inv] same by (auto simp: bounded_ok_def same_config_def over_limit_def)
  ultimately show ?thesis
    using same shape c counts_okD(2) [OF inv] bare_invD(2) [OF inv]
    by (simp add: deleted_def bare_inv_def counts_ok_def tombs_def has_empty_def)
qed

lemma spill_delete_at_ok:
  assumes inv: "bare_inv t" and i: "i < spill_len t"
  shows "deleted t (spill_entries t ! i) (spill_delete_at t i)"
    and "spill_entries (spill_delete_at t i) = take i (spill_entries t) @ drop (Suc i) (spill_entries t)"
    and "spill_len (spill_delete_at t i) = spill_len t - 1" "overflow_entries (spill_delete_at t i) = overflow_entries t"
proof -
  let ?t = "spill_delete_at t i"
  have s: "shape_ok t" using inv by (simp add: bare_invD)
  show e: "spill_entries ?t = take i (spill_entries t) @ drop (Suc i) (spill_entries t)"
    using side_entries_memmove [OF i, of "spill_hash_pd t" "spill_vals t"] s
    by (simp add: spill_entries_def spill_delete_at_def Let_def shape_okD)
  have len: "length (spill_entries t) = spill_len t" using s by (simp add: spill_entries_def shape_okD)
  show o: "overflow_entries ?t = overflow_entries t"
    by (simp add: overflow_entries_def spill_delete_at_def Let_def)
  have main: "hash_pd ?t = hash_pd t" "vals ?t = vals t" by (simp_all add: spill_delete_at_def Let_def)
  have "contents t = add_mset (spill_entries t ! i) (contents ?t)"
    using mset_take_drop [of i "spill_entries t"] i len e o main by (simp add: contents_def)
  moreover have "shape_ok ?t"
    using s i by (auto simp: shape_ok_def spill_delete_at_def Let_def)
  ultimately show "deleted t (spill_entries t ! i) ?t"
    using inv e o main
    by (intro deleted_side) (auto simp: spill_delete_at_def Let_def same_config_def dest: in_set_takeD in_set_dropD)
  show "spill_len ?t = spill_len t - 1" by (simp add: spill_delete_at_def Let_def)
qed

lemma stash_remove_val_ok:
  assumes inv: "bare_inv t"
  shows "case overflow_stash_remove_val t h v of
      (False, t') \<Rightarrow> t' = t \<and> (h, v) \<notin> set (overflow_entries t)
    | (True, t') \<Rightarrow> deleted t (h, v) t'"
proof (cases "find (\<lambda>i. hpd_hash (overflow_hash_pd t ! i) = h \<and> overflow_vals t ! i = v) [0..<overflow_len t]")
  case None
  then show ?thesis
    using overflow_iff [OF bare_invD(1) [OF inv], of h v] None [unfolded find_upt_None]
    by (simp add: overflow_stash_remove_val_def)
next
  case (Some i)
  then have i: "i < overflow_len t" "hpd_hash (overflow_hash_pd t ! i) = h" "overflow_vals t ! i = v"
    using find_upt_Some by auto
  have s: "shape_ok t" using inv by (simp add: bare_invD)
  let ?t = "snd (overflow_stash_remove_val t h v)"
  have e: "overflow_entries t ! i = (h, v)"
    using i s by (simp add: overflow_entries_def nth_side_entries shape_okD)
  have m: "mset (overflow_entries t) = add_mset (h, v) (mset (overflow_entries ?t))"
    using side_entries_swap [of i "overflow_len t" "overflow_hash_pd t" "overflow_vals t"] i s e Some
    by (simp add: overflow_stash_remove_val_def Let_def overflow_entries_def shape_okD)
  have f: "spill_entries ?t = spill_entries t" "hash_pd ?t = hash_pd t" "vals ?t = vals t"
    using Some by (simp_all add: overflow_stash_remove_val_def Let_def spill_entries_def)
  have "set (overflow_entries ?t) \<subseteq> set (overflow_entries t)"
    using arg_cong [OF m, of set_mset] by auto
  moreover have "contents t = add_mset (h, v) (contents ?t)" using m f by (simp add: contents_def)
  moreover have "shape_ok ?t" using s Some by (auto simp: shape_ok_def overflow_stash_remove_val_def Let_def)
  ultimately have "deleted t (h, v) ?t"
    using inv f Some
    by (intro deleted_side) (auto simp: overflow_stash_remove_val_def Let_def same_config_def)
  then show ?thesis using Some by (simp add: overflow_stash_remove_val_def Let_def)
qed

section \<open>Removing one entry\<close>

lemma bare_remove_val_ok:
  assumes inv: "bare_inv t"
  shows "case ht_bare_remove_val t hash v of
      (False, t') \<Rightarrow> t' = t \<and> (hpd_hash hash, v) \<notin># contents t
    | (True, t') \<Rightarrow> deleted t (hpd_hash hash, v) t'"
proof -
  define h where "h = hash AND HASH_MASK"
  have h: "hpd_hash h = h" "hpd_hash hash = h" by (simp_all add: h_def hpd_hash_fix) (simp add: hpd_hash_def)
  have s: "shape_ok t" using inv by (simp add: bare_invD)
  note c = contents_reserved [OF inv h(1), of v]
  show ?thesis
  proof (cases "h < 2")
    case True
    show ?thesis
    proof (cases "find (\<lambda>i. hpd_hash (spill_hash_pd t ! i) = h \<and> spill_vals t ! i = v) [0..<spill_len t]")
      case None
      then show ?thesis
        using True c(1) spill_iff [OF s, of h v] None [unfolded find_upt_None] h
        by (simp add: ht_bare_remove_val_def bare_spill_remove_val_def flip: h_def)
    next
      case (Some i)
      then have "i < spill_len t" "hpd_hash (spill_hash_pd t ! i) = h \<and> spill_vals t ! i = v"
        using find_upt_Some by auto
      then show ?thesis
        using spill_delete_at_ok(1) [OF inv, of i] Some True h s
        by (simp add: ht_bare_remove_val_def bare_spill_remove_val_def spill_entries_def nth_side_entries shape_okD flip: h_def)
    qed
  next
    case False
    show ?thesis
    proof (cases "remove_val_loop t h v (capacity t + 1) (wrap (capacity t) (unat h)) 0")
      case None
      then show ?thesis
        using remove_val_loop_main [OF inv h(1), of v] stash_remove_val_ok [OF inv, of h v] False c(2) h
        by (auto simp: ht_bare_remove_val_def simp del: remove_val_loop.simps simp flip: h_def split: bool.splits prod.splits)
    next
      case (Some k)
      then show ?thesis
        using remove_val_loop_main [OF inv h(1), of v] delete_slot_ok(1) [OF inv, of k] False h
        by (auto simp: ht_bare_remove_val_def simp del: remove_val_loop.simps simp flip: h_def)
    qed
  qed
qed

text \<open>
  C3. Removal of one entry. \<open>ht_bare_remove_val\<close> returns true exactly when the pair is stored;
  it then removes one copy of it and nothing else, and otherwise leaves the table as it was.
  The invariant is kept through the tombstone and the backward shift.
\<close>

theorem ht_bare_remove_val_correct:
  assumes "bare_inv t"
  shows "case ht_bare_remove_val t hash v of
      (False, t') \<Rightarrow> t' = t \<and> (hpd_hash hash, v) \<notin># contents t
    | (True, t') \<Rightarrow> bare_inv t' \<and> contents t = add_mset (hpd_hash hash, v) (contents t') \<and> same_config t t'"
  using bare_remove_val_ok [OF assms, of hash v] by (auto simp: deleted_def split: bool.splits prod.splits)

theorem ht_bare_remove_val_correct_witness:
  "bare_inv ex_table \<and>
    (case ht_bare_remove_val ex_table 10 0 of
      (False, t') \<Rightarrow> t' = ex_table \<and> (hpd_hash 10, 0) \<notin># contents ex_table
    | (True, t') \<Rightarrow> bare_inv t' \<and> contents ex_table = add_mset (hpd_hash 10, 0) (contents t') \<and>
        same_config ex_table t')"
  using ht_bare_remove_val_correct [OF ex_table_inv, of 10 0] ex_table_inv by blast

section \<open>Removing all entries of a hash\<close>

text \<open>\<open>t'\<close> is \<open>t\<close> without the values \<open>R\<close> of the hash \<open>h\<close>.\<close>

definition purged :: "ht_bare \<Rightarrow> u64 \<Rightarrow> u32 multiset \<Rightarrow> ht_bare \<Rightarrow> bool" where
  "purged t h R t' \<longleftrightarrow>
     bare_inv t' \<and> contents t = image_mset (Pair h) R + contents t' \<and> same_config t t' \<and>
     (has_empty t \<longrightarrow> has_empty t')"

lemma purged_refl: "bare_inv t \<Longrightarrow> purged t h {#} t"
  by (simp add: purged_def)

lemma purged_step: "deleted t (h, v) t1 \<Longrightarrow> purged t1 h R t' \<Longrightarrow> purged t h (add_mset v R) t'"
  by (auto simp: purged_def deleted_def intro: same_config_trans)

lemma purged_trans: "purged t h R t1 \<Longrightarrow> purged t1 h R' t' \<Longrightarrow> purged t h (R + R') t'"
  by (auto simp: purged_def ac_simps intro: same_config_trans)

lemma remove_loop_sound:
  "bare_inv t \<Longrightarrow> i < capacity t \<Longrightarrow>
    \<exists>R. purged t h R (snd (remove_loop h steps i d r t)) \<and> fst (remove_loop h steps i d r t) = r + size R \<and>
      overflow_entries (snd (remove_loop h steps i d r t)) = overflow_entries t \<and>
      same_spill t (snd (remove_loop h steps i d r t))"
proof (induction steps arbitrary: i d r t)
  case 0
  then show ?case by (auto intro!: exI [of _ "{#}"] purged_refl)
next
  case (Suc steps)
  let ?w = "hash_pd t ! i"
  have s: "shape_ok t" using Suc.prems by (simp add: bare_invD)
  have nxt: "wrap (capacity t) (i + 1) < capacity t" using s by (simp add: wrap_cap shape_okD)
  have stay: ?case if "remove_loop h (Suc steps) i d r t = (r, t)"
    using that Suc.prems by (auto intro!: exI [of _ "{#}"] purged_refl)
  show ?case
  proof (cases "hpd_live ?w \<and> d \<le> pd ?w \<and> hpd_hash ?w = h")
    case False
    then show ?thesis
      using Suc.IH [OF Suc.prems(1) nxt, of "inc16 d" r] stay not_live_iff [of ?w]
      by (auto simp: Let_def not_less)
  next
    case True
    let ?t = "delete_slot t i"
    note d = delete_slot_ok [OF Suc.prems conjunct1 [OF True]]
    have "bare_inv ?t" "i < capacity ?t" using d Suc.prems(2) by (simp_all add: deleted_def same_config_def)
    from Suc.IH [OF this, of d "r + 1"] obtain R where
      R: "purged ?t h R (snd (remove_loop h steps i d (r + 1) ?t))" "fst (remove_loop h steps i d (r + 1) ?t) = r + 1 + size R"
        "overflow_entries (snd (remove_loop h steps i d (r + 1) ?t)) = overflow_entries ?t"
        "same_spill ?t (snd (remove_loop h steps i d (r + 1) ?t))" by blast
    have "remove_loop h (Suc steps) i d r t = remove_loop h steps i d (r + 1) ?t"
      using True by (simp add: Let_def)
    then show ?thesis
      using R d True by (auto intro!: exI [of _ "add_mset (vals t ! i) R"] purged_step same_spill_trans [of t ?t])
  qed
qed

text \<open>The entries of a hash in the main array, and how many there are.\<close>

definition main_of :: "ht_bare \<Rightarrow> u64 \<Rightarrow> entry multiset" where
  "main_of t h = filter_mset (\<lambda>e. fst e = h) (main_mset (hash_pd t) (vals t))"

lemma size_main_of: "shape_ok t \<Longrightarrow> size (main_of t h) = length (filter (matches t h) [0..<capacity t])"
  using arg_cong [OF filter_main_mset [of t h], of size] unfolding main_of_def by (metis length_map size_image_mset size_mset)

lemma main_of_empty_iff: "shape_ok t \<Longrightarrow> main_of t h = {#} \<longleftrightarrow> (\<forall>k < capacity t. \<not> matches t h k)"
  using size_main_of [of t h] unfolding size_eq_0_iff_empty [symmetric] by (auto simp: filter_empty_conv)

lemma spill_entries_same: "same_spill t t' \<Longrightarrow> spill_entries t' = spill_entries t"
  by (simp add: same_spill_def spill_entries_def)

lemma main_of_delete:
  assumes "contents t = M + contents t'" "overflow_entries t' = overflow_entries t" "same_spill t t'"
  shows "main_of t h = filter_mset (\<lambda>e. fst e = h) M + main_of t' h"
proof -
  have "main_mset (hash_pd t) (vals t) = M + main_mset (hash_pd t') (vals t')"
    using assms spill_entries_same by (simp add: contents_def)
  then show ?thesis by (simp add: main_of_def)
qed

lemma delete_slot_matches:
  assumes inv: "bare_inv t" and i: "i < capacity t" "matches t h i" "i = path_slot t h d" "d < capacity t"
    and far: "\<forall>k < capacity t. matches t h k \<longrightarrow> d \<le> pd (hash_pd t ! k)"
    and k: "k < capacity t" "matches (delete_slot t i) h k"
  shows "d \<le> pd (hash_pd (delete_slot t i) ! k) \<and>
    (\<exists>k0 < capacity t. matches t h k0 \<and> pd (hash_pd (delete_slot t i) ! k) \<le> pd (hash_pd t ! k0))"
proof -
  let ?t = "tomb_slot t i"
  have s: "shape_ok t" using inv by (simp add: bare_invD)
  have live: "hpd_live (hash_pd t ! i)" using i(2) by (simp add: matches_def)
  note tb = tomb_slot_ok [OF inv i(1) live]
  have inv1: "bare_inv ?t" using tb(1) by (simp add: deleted_def)
  have old: "matches t h q \<and> hash_pd ?t ! q = hash_pd t ! q" if "matches ?t h q" "q < capacity t" for q
    using that i(1) s by (cases "q = i") (auto simp: matches_def tomb_slot_def shape_okD)
  from inv1 have "i < capacity ?t" using i(1) by simp
  from inv1 this tb(2) show ?thesis
  proof (cases rule: delete_compact_cases)
    case same
    then have "matches ?t h k" "hash_pd (delete_slot t i) = hash_pd ?t"
      using k(2) by (simp_all add: delete_slot_tomb)
    then show ?thesis using old [of k] k(1) far by auto
  next
    case (shift L hp vs c)
    have hp: "hash_pd (delete_slot t i) = hp" using shift(1) by (simp add: delete_slot_tomb)
    then have lk: "hpd_live (hp ! k)" "hpd_hash (hp ! k) = h" using k(2) by (auto simp: matches_def)
    obtain x y where xy: "x < capacity t" "y \<le> x" and ky: "k = (i + y) mod capacity t"
      and xy': "hpd_live (slot_at (hash_pd ?t) i x)"
      "hpd_hash (hp ! k) = hpd_hash (slot_at (hash_pd ?t) i x)" "pd (hp ! k) + (x - y) = pd (slot_at (hash_pd ?t) i x)"
      by (rule shift_source [OF bare_invD(1) [OF inv1] _ shift(2,3) _ lk(1), unfolded capacity_tomb_slot, OF i(1) k(1)])
    define k0 where "k0 = (i + x) mod capacity t"
    have k0: "k0 < capacity t" "slot_at (hash_pd ?t) i x = hash_pd ?t ! k0"
      using s bare_invD(1) [OF inv1] by (simp_all add: k0_def slot_at_def shape_okD)
    then have m0: "matches ?t h k0" using xy'(1,2) lk(2) by (simp add: matches_def)
    note o = old [OF m0 k0(1)]
    have d: "d \<le> pd (hash_pd t ! k0)" using far k0(1) o by blast
    have "(home (capacity t) h + pd (hash_pd t ! k0)) mod capacity t = k0" "pd (hash_pd t ! k0) < capacity t"
      using on_path(4,6) [OF inv k0(1), of h "pd (hash_pd t ! k0)"] o by (auto simp: matches_def)
    then have "(home (capacity t) h + d + (pd (hash_pd t ! k0) - d)) mod capacity t = (home (capacity t) h + d + x) mod capacity t"
      using d i(3) by (simp add: k0_def path_slot_def mod_add_left_eq)
    then have "pd (hash_pd t ! k0) - d = x"
      by (rule mod_add_cancel [rotated 2]) (use xy(1) \<open>pd (hash_pd t ! k0) < capacity t\<close> in simp_all)
    moreover have "pd (hp ! k) + (x - y) = pd (hash_pd t ! k0)" using xy'(3) k0(2) o by simp
    ultimately have "d \<le> pd (hp ! k)" "pd (hp ! k) \<le> pd (hash_pd t ! k0)" using d xy(2) by linarith+
    then show ?thesis using k0(1) o hp by blast
  qed
qed

lemma remove_loop_complete:
  assumes "bare_inv t" "d \<le> capacity t"
    and "\<forall>k < capacity t. matches t h k \<longrightarrow>
      d \<le> pd (hash_pd t ! k) \<and> pd (hash_pd t ! k) - d + size (main_of t h) \<le> steps"
  shows "main_of (snd (remove_loop h steps (path_slot t h d) d r t)) h = {#}"
  using assms
proof (induction steps arbitrary: d r t)
  case 0
  then show ?case using main_of_empty_iff [of t h] by (auto simp: bare_invD)
next
  case (Suc steps)
  let ?i = "path_slot t h d"
  let ?w = "hash_pd t ! ?i"
  have s: "shape_ok t" using Suc.prems(1) by (simp add: bare_invD)
  have i: "?i < capacity t" using s by (simp add: path_slot_def shape_okD)
  show ?case
  proof (cases "main_of t h = {#}")
    case True
    obtain R where "purged t h R (snd (remove_loop h (Suc steps) ?i d r t))"
      "overflow_entries (snd (remove_loop h (Suc steps) ?i d r t)) = overflow_entries t"
      "same_spill t (snd (remove_loop h (Suc steps) ?i d r t))"
      using remove_loop_sound [OF Suc.prems(1) i] by blast
    then show ?thesis using main_of_delete [of t "image_mset (Pair h) R" _ h] True by (simp add: purged_def)
  next
    case False
    then obtain k where k: "k < capacity t" "matches t h k" using main_of_empty_iff [OF s] by blast
    then have kd: "d \<le> pd (hash_pd t ! k)" using Suc.prems(3) by blast
    note p = on_path [OF Suc.prems(1) k(1) _ _ kd, of h] k(2)
    have w: "\<not> hpd_empty ?w" "hpd_live ?w \<Longrightarrow> d \<le> pd ?w" "d < capacity t"
      using p by (auto simp: matches_def path_slot_def)
    show ?thesis
    proof (cases "matches t h ?i")
      case True
      let ?t = "delete_slot t ?i"
      have live: "hpd_live ?w" using True by (simp add: matches_def)
      note dl = delete_slot_ok [OF Suc.prems(1) i live]
      have cap: "capacity ?t = capacity t" using dl(1) by (simp add: deleted_def same_config_def)
      have inv1: "bare_inv ?t" using dl(1) by (simp add: deleted_def)
      have "contents t = {#(h, vals t ! ?i)#} + contents ?t"
        using dl(1) True by (simp add: deleted_def matches_def)
      from main_of_delete [OF this dl(2,3), of h]
      have sz: "size (main_of t h) = Suc (size (main_of ?t h))" by simp
      have far: "\<forall>k < capacity t. matches t h k \<longrightarrow> d \<le> pd (hash_pd t ! k)" using Suc.prems(3) by blast
      have "d \<le> pd (hash_pd ?t ! k) \<and> pd (hash_pd ?t ! k) - d + size (main_of ?t h) \<le> steps"
        if kk: "k < capacity t" "matches ?t h k" for k
      proof -
        obtain k0 where "k0 < capacity t" "matches t h k0" "pd (hash_pd ?t ! k) \<le> pd (hash_pd t ! k0)" "d \<le> pd (hash_pd ?t ! k)"
          using delete_slot_matches [OF Suc.prems(1) i True refl w(3) far kk] by blast
        moreover from this have "pd (hash_pd t ! k0) - d + size (main_of t h) \<le> Suc steps"
          using Suc.prems(3) by blast
        ultimately show ?thesis using sz by linarith
      qed
      then have f1: "\<forall>k < capacity ?t. matches ?t h k \<longrightarrow>
          d \<le> pd (hash_pd ?t ! k) \<and> pd (hash_pd ?t ! k) - d + size (main_of ?t h) \<le> steps"
        using cap by metis
      have "d \<le> capacity ?t" using w(3) cap by simp
      then have "main_of (snd (remove_loop h steps (path_slot ?t h d) d (r + 1) ?t)) h = {#}"
        by (rule Suc.IH [OF inv1 _ f1])
      moreover have "path_slot ?t h d = ?i" using cap by (simp add: path_slot_def)
      ultimately show ?thesis using True w(2) [OF live] by (simp add: matches_def Let_def)
    next
      case False
      have ne: "d \<noteq> pd (hash_pd t ! q)" if "q < capacity t" "matches t h q" for q
        using on_path(6) [OF Suc.prems(1) that(1), of h d] that(2) False by (auto simp: matches_def path_slot_def)
      have "main_of (snd (remove_loop h steps (path_slot t h (Suc d)) (Suc d) r t)) h = {#}"
        using Suc.prems w(3) ne by (intro Suc.IH) (auto simp: Suc_le_eq le_less)
      moreover have "inc16 d = Suc d" using p ne [OF k] by (simp add: matches_def)
      moreover have "wrap (capacity t) (?i + 1) = path_slot t h (Suc d)"
        using next_slot [OF s, of h d] by (simp add: path_slot_def)
      ultimately show ?thesis
        using False w not_live_iff [of ?w] by (auto simp: matches_def Let_def)
    qed
  qed
qed

lemma spill_remove_loop_ok:
  "bare_inv t \<Longrightarrow> i \<le> spill_len t \<Longrightarrow> \<forall>j < i. fst (spill_entries t ! j) \<noteq> h \<Longrightarrow>
    \<exists>R. purged t h R (snd (spill_remove_loop h i r t)) \<and> fst (spill_remove_loop h i r t) = r + size R \<and>
      (\<forall>e \<in> set (spill_entries (snd (spill_remove_loop h i r t))). fst e \<noteq> h)"
proof (induction h i r t rule: spill_remove_loop.induct)
  case (1 h i r t)
  have s: "shape_ok t" using "1.prems" by (simp add: bare_invD)
  have len: "length (spill_entries t) = spill_len t" using s by (simp add: spill_entries_def shape_okD)
  show ?case
  proof (cases "i < spill_len t")
    case False
    then have "\<forall>e \<in> set (spill_entries t). fst e \<noteq> h" using "1.prems" len by (metis in_set_conv_nth le_antisym not_less)
    then show ?thesis
      using False purged_refl "1.prems"(1) by (subst (1 2 3) spill_remove_loop.simps) (auto intro!: exI [of _ "{#}"])
  next
    case i: True
    have e: "spill_entries t ! i = (hpd_hash (spill_hash_pd t ! i), spill_vals t ! i)"
      using i s by (simp add: spill_entries_def nth_side_entries shape_okD)
    show ?thesis
    proof (cases "hpd_hash (spill_hash_pd t ! i) = h")
      case True
      let ?t = "spill_delete_at t i"
      note d = spill_delete_at_ok [OF "1.prems"(1) i]
      have "bare_inv ?t" "i \<le> spill_len ?t" "\<forall>j < i. fst (spill_entries ?t ! j) \<noteq> h"
        using d i "1.prems"(3) len by (auto simp: deleted_def nth_append)
      from "1.IH"(1) [OF i True this] obtain R where
        R: "purged ?t h R (snd (spill_remove_loop h i (r + 1) ?t))" "fst (spill_remove_loop h i (r + 1) ?t) = r + 1 + size R"
          "\<forall>e \<in> set (spill_entries (snd (spill_remove_loop h i (r + 1) ?t))). fst e \<noteq> h" by blast
      have eq: "spill_remove_loop h i r t = spill_remove_loop h i (r + 1) ?t"
        using i True by (subst spill_remove_loop.simps) simp
      show ?thesis
        unfolding eq using R purged_step [of t h "spill_vals t ! i" ?t R] d(1) e True
        by (intro exI [of _ "add_mset (spill_vals t ! i) R"]) simp
    next
      case False
      have "\<forall>j < i + 1. fst (spill_entries t ! j) \<noteq> h" using "1.prems"(3) False e by (auto simp: less_Suc_eq)
      with "1.IH"(2) [OF i False "1.prems"(1)] i show ?thesis
        using False by (subst (1 2 3) spill_remove_loop.simps) auto
    qed
  qed
qed

text \<open>The stash loop keeps the entries of the other hashes, in order.\<close>

lemma side_entries_copy:
  "w < len \<Longrightarrow> i < len \<Longrightarrow> len \<le> length hs \<Longrightarrow> length vs = length hs \<Longrightarrow>
    side_entries (hs[w := hs ! i]) (vs[w := vs ! i]) len = (side_entries hs vs len)[w := side_entries hs vs len ! i]"
  by (intro nth_equalityI) (auto simp: nth_side_entries nth_list_update)

lemma stash_remove_loop_ok:
  assumes "i \<le> len" "w \<le> i" "len \<le> length a" "length b = length a" "length E = len"
    and "take w (side_entries a b len) = filter (\<lambda>e. fst e \<noteq> h) (take i E)"
    and "drop i (side_entries a b len) = drop i E"
    and "length (filter (\<lambda>e. fst e = h) (drop i E)) \<le> c" "c < 2 ^ 64"
  shows "\<exists>a' b'. stash_remove_loop h [i..<len] w (t\<lparr>overflow_hash_pd := a, overflow_vals := b, tsize := c\<rparr>) =
      (length (filter (\<lambda>e. fst e \<noteq> h) E), t\<lparr>overflow_hash_pd := a', overflow_vals := b',
         tsize := c - length (filter (\<lambda>e. fst e = h) (drop i E))\<rparr>) \<and>
    length a' = length a \<and> length b' = length b \<and>
    side_entries a' b' (length (filter (\<lambda>e. fst e \<noteq> h) E)) = filter (\<lambda>e. fst e \<noteq> h) E"
  using assms
proof (induction "len - i" arbitrary: i w a b c)
  case 0
  then have i: "i = len" by simp
  have "w = length (take w (side_entries a b len))" using "0.prems"(1-4) by simp
  then have "w = length (filter (\<lambda>e. fst e \<noteq> h) E)" using "0.prems"(5,6) i by simp
  then show ?case
    using "0.prems" i by (intro exI [of _ a] exI [of _ b]) (auto simp: side_entries_def min_def)
next
  case (Suc k)
  let ?X = "side_entries a b len"
  have i: "i < len" using Suc by simp
  then have upt: "[i..<len] = i # [Suc i..<len]" by (rule upt_conv_Cons)
  have X: "length ?X = len" using Suc.prems by simp
  have dE: "drop i E = E ! i # drop (Suc i) E" using i Suc.prems(5) by (simp add: Cons_nth_drop_Suc)
  have Ei: "?X ! i = E ! i" using Suc.prems(5,7) X i by (metis hd_drop_conv_nth)
  have xi: "?X ! i = (hpd_hash (a ! i), b ! i)" using i Suc.prems by (simp add: nth_side_entries)
  have tk: "take (Suc i) E = take i E @ [E ! i]" using i Suc.prems(5) by (simp add: take_Suc_conv_app_nth)
  have dX: "drop (Suc i) ?X = drop (Suc i) E" using Suc.prems(7) by (metis drop_Suc tl_drop)
  show ?case
  proof (cases "hpd_hash (a ! i) = h")
    case True
    then have eh: "fst (E ! i) = h" using xi unfolding Ei by simp
    have "sz_sub c 1 = c - 1" using Suc.prems(8,9) eh dE by (intro sz_sub_small) auto
    moreover have "c - 1 - length (filter (\<lambda>e. fst e = h) (drop (Suc i) E)) = c - length (filter (\<lambda>e. fst e = h) (drop i E))"
      using eh dE by simp
    ultimately show ?thesis
      using Suc.hyps(1) [of "Suc i" w a b "c - 1"] Suc.hyps(2) Suc.prems i True eh tk dX dE
      by (simp add: upt)
  next
    case False
    then have eh: "fst (E ! i) \<noteq> h" using xi unfolding Ei by simp
    let ?a = "a[w := a ! i]" and ?b = "b[w := b ! i]"
    have cp: "side_entries ?a ?b len = ?X[w := ?X ! i]" using Suc.prems i by (intro side_entries_copy) auto
    have "take (Suc w) (?X[w := ?X ! i]) = take w ?X @ [?X ! i]"
      using Suc.prems(2) i X by (simp add: take_Suc_conv_app_nth)
    then have "take (Suc w) (side_entries ?a ?b len) = filter (\<lambda>e. fst e \<noteq> h) (take (Suc i) E)"
      using Suc.prems(6) tk eh Ei cp by simp
    moreover have "drop (Suc i) (side_entries ?a ?b len) = drop (Suc i) E"
      using cp dX Suc.prems(2) by simp
    moreover have "stash_remove_loop h [i..<len] w (t\<lparr>overflow_hash_pd := a, overflow_vals := b, tsize := c\<rparr>) =
        stash_remove_loop h [Suc i..<len] (Suc w) (t\<lparr>overflow_hash_pd := ?a, overflow_vals := ?b, tsize := c\<rparr>)"
    proof (cases "i = w")
      case True
      then show ?thesis using False unfolding upt by simp
    next
      case ne: False
      have comm: "t\<lparr>tsize := c, overflow_hash_pd := ?a, overflow_vals := ?b\<rparr> = t\<lparr>overflow_hash_pd := ?a, overflow_vals := ?b, tsize := c\<rparr>"
        by simp
      show ?thesis using False ne by (simp add: upt comm)
    qed
    ultimately show ?thesis
      using Suc.hyps(1) [of "Suc i" "Suc w" ?a ?b c] Suc.hyps(2) Suc.prems i eh dE by simp
  qed
qed

lemma stash_remove_ok:
  assumes inv: "bare_inv t"
  shows "\<exists>R. purged t h R (snd (overflow_stash_remove t h)) \<and> fst (overflow_stash_remove t h) = size R \<and>
    (\<forall>e \<in> set (overflow_entries (snd (overflow_stash_remove t h))). fst e \<noteq> h) \<and>
    main_of (snd (overflow_stash_remove t h)) g = main_of t g"
proof -
  let ?E = "overflow_entries t" and ?t = "snd (overflow_stash_remove t h)"
  let ?k = "length (filter (\<lambda>e. fst e = h) ?E)" and ?F = "filter (\<lambda>e. fst e \<noteq> h) ?E"
  have s: "shape_ok t" using inv by (simp add: bare_invD)
  have len: "length ?E = overflow_len t" using s by (simp add: overflow_entries_def shape_okD)
  have split: "?k + length ?F = overflow_len t" using sum_length_filter_compl [of "\<lambda>e. fst e = h" ?E] len by simp
  have "overflow_len t \<le> tsize t" using counts_okD(1) [OF inv] size_contents [OF s] by simp
  then have k: "?k \<le> tsize t" using split by linarith
  obtain a b where ab: "stash_remove_loop h [0..<overflow_len t] 0 t =
      (length ?F, t\<lparr>overflow_hash_pd := a, overflow_vals := b, tsize := tsize t - ?k\<rparr>)"
    "length a = HT_OVERFLOW_STASH_CAP" "length b = HT_OVERFLOW_STASH_CAP" "side_entries a b (length ?F) = ?F"
    using stash_remove_loop_ok [of 0 "overflow_len t" 0 "overflow_hash_pd t" "overflow_vals t" ?E h "tsize t" t]
      s len k tsize_bound [OF inv] by (auto simp: overflow_entries_def shape_okD)
  have t': "?t = t\<lparr>overflow_hash_pd := a, overflow_vals := b, tsize := tsize t - ?k, overflow_len := length ?F\<rparr>"
    and fst: "fst (overflow_stash_remove t h) = ?k"
    using ab(1) split by (simp_all add: overflow_stash_remove_def)
  have f: "overflow_entries ?t = ?F" "spill_entries ?t = spill_entries t" "hash_pd ?t = hash_pd t" "vals ?t = vals t"
    using ab(4) t' by (simp_all add: overflow_entries_def spill_entries_def)
  define R where "R = image_mset snd (filter_mset (\<lambda>e. fst e = h) (mset ?E))"
  have "image_mset (Pair h) R = filter_mset (\<lambda>e. fst e = h) (mset ?E)"
    by (auto simp: R_def image_mset.compositionality comp_def intro!: multiset.map_ident_strong)
  then have c: "contents t = image_mset (Pair h) R + contents ?t"
    using f multiset_partition [of "mset ?E" "\<lambda>e. fst e = h"] by (simp add: contents_def)
  have sR: "size R = ?k" by (simp add: R_def flip: mset_filter)
  have "shape_ok ?t" using s ab(2,3) split t' by (auto simp: shape_ok_def)
  moreover have "values_ok ?t" using bare_invD(3) [OF inv] f t' by (auto simp: values_ok_def)
  moreover have "bounded_ok ?t" using bare_invD(4) [OF inv] t' by (auto simp: bounded_ok_def over_limit_def)
  moreover have "counts_ok ?t"
    using counts_okD [OF inv] arg_cong [OF c, of size] sR t' by (auto simp: counts_ok_def tombs_def)
  ultimately have "purged t h R ?t"
    using c bare_invD(2) [OF inv] t' by (simp add: purged_def bare_inv_def same_config_def has_empty_def)
  then show ?thesis using fst sR f by (intro exI [of _ R]) (auto simp: main_of_def)
qed


lemma purged_values: "purged t h R t' \<Longrightarrow> values_of t h = R + values_of t' h"
  by (simp add: purged_def values_of_def image_mset.compositionality comp_def filter_mset_image_mset)

text \<open>
  The main loop removes every match when its step budget, one step for each slot it passes
  and one for each match, reaches the last one.
\<close>

definition within_budget :: "ht_bare \<Rightarrow> u64 \<Rightarrow> bool" where
  "within_budget t h \<longleftrightarrow>
     (\<forall>k < capacity t. matches t h k \<longrightarrow>
        pd (hash_pd t ! k) + length (filter (matches t h) [0..<capacity t]) \<le> capacity t + 1)"

lemma bare_remove_ok:
  fixes hash :: u64
  assumes inv: "bare_inv t"
  defines "h \<equiv> hpd_hash hash" and "r \<equiv> fst (ht_bare_remove t hash)" and "t' \<equiv> snd (ht_bare_remove t hash)"
  shows "\<exists>R. purged t h R t' \<and> r = size R" "within_budget t h \<Longrightarrow> values_of t' h = {#}"
proof -
  have h: "hash AND HASH_MASK = h" "hpd_hash h = h" by (simp_all add: h_def) (simp add: hpd_hash_def)
  have s: "shape_ok t" using inv by (simp add: bare_invD)
  have "\<exists>R. purged t h R t' \<and> r = size R \<and> (within_budget t h \<longrightarrow> values_of t' h = {#})"
  proof (cases "h < 2")
    case True
    then have eq: "ht_bare_remove t hash = spill_remove_loop h 0 0 t"
      by (simp add: ht_bare_remove_def h bare_spill_remove_def)
    obtain R where R: "purged t h R t'" "r = size R" "\<forall>e \<in> set (spill_entries t'). fst e \<noteq> h"
      using spill_remove_loop_ok [OF inv, of 0 h 0] unfolding t'_def r_def eq
      by (auto simp del: spill_remove_loop.simps)
    have inv': "bare_inv t'" using R(1) by (simp add: purged_def)
    have "(h, v) \<notin># contents t'" for v using contents_reserved(1) [OF inv' h(2) True] R(3) by fastforce
    then have "values_of t' h = {#}" by (auto simp: values_of_def filter_mset_eq_mempty_iff)
    then show ?thesis using R by blast
  next
    case False
    let ?l = "remove_loop h (capacity t + 1) (wrap (capacity t) (unat h)) 0 0 t"
    have at: "wrap (capacity t) (unat h) = path_slot t h 0" using start_slot [OF s h(2)] by (simp add: path_slot_def)
    have i: "path_slot t h 0 < capacity t" using s by (simp add: path_slot_def shape_okD)
    obtain R1 where R1: "purged t h R1 (snd ?l)" "fst ?l = size R1"
      using remove_loop_sound [OF inv i, of h "capacity t + 1" 0 0] unfolding at by auto
    have inv1: "bare_inv (snd ?l)" using R1(1) by (simp add: purged_def)
    obtain R2 where R2: "purged (snd ?l) h R2 (snd (overflow_stash_remove (snd ?l) h))"
      "fst (overflow_stash_remove (snd ?l) h) = size R2"
      "\<forall>e \<in> set (overflow_entries (snd (overflow_stash_remove (snd ?l) h))). fst e \<noteq> h"
      "main_of (snd (overflow_stash_remove (snd ?l) h)) h = main_of (snd ?l) h"
      using stash_remove_ok [OF inv1, of h h] by blast
    have eq: "t' = snd (overflow_stash_remove (snd ?l) h)" "r = fst ?l + fst (overflow_stash_remove (snd ?l) h)"
      using False by (simp_all add: t'_def r_def ht_bare_remove_def h case_prod_beta Let_def del: remove_loop.simps)
    have R: "purged t h (R1 + R2) t'" "r = size (R1 + R2)"
      using R1 R2 purged_trans eq by auto
    have "values_of t' h = {#}" if b: "within_budget t h"
    proof -
      have "main_of (snd ?l) h = {#}"
        unfolding at using b inv by (intro remove_loop_complete) (auto simp: within_budget_def size_main_of [OF s])
      then have "main_of t' h = {#}" using R2(4) eq by simp
      moreover have inv': "bare_inv t'" using R(1) by (simp add: purged_def)
      ultimately have "\<forall>k < capacity t'. \<not> matches t' h k" using main_of_empty_iff bare_invD(1) by blast
      then have "(h, v) \<notin># contents t'" for v
        using contents_reserved(2) [OF inv' h(2) False] R2(3) eq by (fastforce simp: matches_def)
      then show ?thesis by (auto simp: values_of_def filter_mset_eq_mempty_iff)
    qed
    with R show ?thesis by blast
  qed
  then show "\<exists>R. purged t h R t' \<and> r = size R" "within_budget t h \<Longrightarrow> values_of t' h = {#}" by blast+
qed

text \<open>
  C6. Removal of a hash. \<open>ht_bare_remove\<close> removes only entries of the hash, returns their
  number, and keeps the invariant; it removes all of them when the step budget of its loop
  (capacity + 1) covers the distance of the last match plus the number of matches.
\<close>

theorem ht_bare_remove_correct:
  assumes "bare_inv t"
  shows "case ht_bare_remove t hash of (r, t') \<Rightarrow>
    bare_inv t' \<and> same_config t t' \<and>
    (\<exists>R. contents t = image_mset (Pair (hpd_hash hash)) R + contents t' \<and> r = size R) \<and>
    (within_budget t (hpd_hash hash) \<longrightarrow> contents t' = filter_mset (\<lambda>e. fst e \<noteq> hpd_hash hash) (contents t))"
proof -
  obtain R where R: "purged t (hpd_hash hash) R (snd (ht_bare_remove t hash))" "fst (ht_bare_remove t hash) = size R"
    using bare_remove_ok(1) [OF assms, of hash] by auto
  let ?t = "snd (ht_bare_remove t hash)"
  have "contents ?t = filter_mset (\<lambda>e. fst e \<noteq> hpd_hash hash) (contents t)" if b: "within_budget t (hpd_hash hash)"
  proof -
    have "values_of ?t (hpd_hash hash) = {#}" using b by (rule bare_remove_ok(2) [OF assms])
    then have "filter_mset (\<lambda>e. fst e \<noteq> hpd_hash hash) (contents ?t) = contents ?t"
      by (auto simp: values_of_def filter_mset_eq_conv)
    then show ?thesis using R(1) by (simp add: purged_def filter_mset_image_mset)
  qed
  with R show ?thesis by (auto simp: purged_def case_prod_beta)
qed

lemma ex_table_budget: "within_budget ex_table 26"
  by (simp add: within_budget_def matches_def [abs_def] upt_8 ex_simps)

theorem ht_bare_remove_correct_witness:
  "bare_inv ex_table \<and> within_budget ex_table 26 \<and>
    (case ht_bare_remove ex_table 26 of (r, t') \<Rightarrow>
      bare_inv t' \<and> same_config ex_table t' \<and>
      (\<exists>R. contents ex_table = image_mset (Pair 26) R + contents t' \<and> r = size R) \<and>
      contents t' = filter_mset (\<lambda>e. fst e \<noteq> 26) (contents ex_table))"
  using ht_bare_remove_correct [OF ex_table_inv, of 26] ex_table_inv ex_table_budget
  by (auto simp: hpd_hash_lit)

end
