(* ===== verification/Ht_Rebuild.thy ===== *)
theory Ht_Rebuild
  imports Ht_Remove
begin

text \<open>
  Rebuilding (\<open>bare_resize_table\<close>, \<open>ht_bare_resize\<close>, \<open>ht_bare_compact\<close>) and the public insertion
  \<open>ht_bare_insert\<close>, which may rebuild first. A rebuild inserts every entry into fresh arrays that
  have no tombstone and enough room, then puts tombstones into empty slots, where they lie on no
  probe path.
\<close>

section \<open>Room for an insertion\<close>

lemma has_empty_room:
  assumes inv: "bare_inv t" and room: "size (contents t) - spill_len t + tombs t < capacity t"
  shows "has_empty t"
proof -
  have s: "shape_ok t" using inv by (simp add: bare_invD)
  have "length (filter hpd_live (hash_pd t)) \<le> size (contents t) - spill_len t"
    using size_contents [OF s] by simp
  then have "length (filter hpd_live (hash_pd t)) + length (filter hpd_tomb (hash_pd t)) < length (hash_pd t)"
    using room s by (simp add: tombs_def shape_okD)
  then have "0 < length (filter hpd_empty (hash_pd t))"
    using filter_sum_le [of "hash_pd t"] by linarith
  then show ?thesis by (auto simp: has_empty_def list_ex_iff filter_empty_conv)
qed

lemma no_tombs: "tombs t = 0 \<Longrightarrow> i < length (hash_pd t) \<Longrightarrow> \<not> hpd_tomb (hash_pd t ! i)"
  by (auto simp: tombs_def filter_empty_conv)

lemma tomb_safe_no_tombs:
  assumes "shape_ok t" "tombs t = 0"
  shows "tomb_safe t"
proof -
  have "0 < length (hash_pd t)" using shape_okD(2,11) [OF assms(1)] by simp
  then have "paths_tomb_free (hash_pd t)"
    using no_tombs [OF assms(2)] by (simp add: paths_tomb_free_def tomb_free_def)
  then show ?thesis by (simp add: tomb_safe_def)
qed

text \<open>A tombstone-free table with room for \<open>k\<close> more entries outside the spill lane.\<close>

definition roomy :: "nat \<Rightarrow> ht_bare \<Rightarrow> bool" where
  "roomy k t \<longleftrightarrow> bare_inv t \<and> gap_ok t \<and> tombs t = 0 \<and> capacity t \<le> 65536 \<and>
     size (contents t) - spill_len t + k \<le> capacity t"

lemma spill_len_le: "shape_ok t \<Longrightarrow> spill_len t \<le> size (contents t)"
  by (simp add: size_contents)

lemma roomy_insert:
  assumes r: "roomy (Suc k) t" and h: "hpd_live h" "hpd_hash h = h" and v: "v \<noteq> VAL_NONE"
  shows "\<exists>t'. bare_rh_insert_with resize t h v = Some (True, t') \<and> roomy k t' \<and>
    contents t' = add_mset (h, v) (contents t) \<and> same_config t t' \<and> same_spill t t'"
proof -
  have inv: "bare_inv t" and s: "shape_ok t" using r by (simp_all add: roomy_def bare_invD)
  have "has_empty t" using r by (intro has_empty_room) (auto simp: roomy_def)
  then obtain t' where t': "bare_rh_insert_with resize t h v = Some (True, t')" "inserted t h v t'"
    using bare_rh_insert_with_ok [OF inv, of h v resize] tomb_safe_no_tombs [OF s] r h v by (auto simp: roomy_def)
  moreover have "roomy k t'"
    using t'(2) r spill_len_le [OF s] by (auto simp: roomy_def inserted_def same_config_def same_spill_def)
  ultimately show ?thesis by (auto simp: inserted_def)
qed

section \<open>Reinsertion\<close>

lemma reinsert_main_ok:
  assumes "length hs = length vs" "roomy (length (filter hpd_live hs) + k) t"
    and "\<forall>(w, v) \<in> set (zip hs vs). hpd_live w \<longrightarrow> v \<noteq> VAL_NONE"
  shows "\<exists>t'. bare_reinsert_main resize t hs vs = Some t' \<and> roomy k t' \<and>
    contents t' = contents t + main_mset hs vs \<and> same_config t t' \<and> same_spill t t'"
  using assms
proof (induction hs vs arbitrary: t rule: list_induct2)
  case Nil
  then show ?case by (simp add: main_mset_def)
next
  case (Cons w ws v vs)
  show ?case
  proof (cases "hpd_live w")
    case False
    then show ?thesis using Cons by (simp add: main_mset_def)
  next
    case True
    then have "roomy (Suc (length (filter hpd_live ws) + k)) t" "v \<noteq> VAL_NONE" "hpd_live (hpd_hash w)"
      using Cons.prems by simp_all
    then obtain t1 where t1: "bare_rh_insert_with resize t (hpd_hash w) v = Some (True, t1)"
      "roomy (length (filter hpd_live ws) + k) t1" "contents t1 = add_mset (hpd_hash w, v) (contents t)"
      "same_config t t1" "same_spill t t1"
      using roomy_insert [of _ t "hpd_hash w" v resize] by auto
    have "\<exists>t'. bare_reinsert_main resize t1 ws vs = Some t' \<and> roomy k t' \<and>
        contents t' = contents t1 + main_mset ws vs \<and> same_config t1 t' \<and> same_spill t1 t'"
      using Cons.prems by (intro Cons.IH [OF t1(2)]) auto
    then show ?thesis
      using t1 True by (auto simp: main_mset_def intro: same_config_trans same_spill_trans)
  qed
qed

lemma reinsert_overflow_ok:
  assumes "length hs = length vs" "roomy (length hs + k) t"
    and "\<forall>(w, v) \<in> set (zip hs vs). hpd_live w \<and> v \<noteq> VAL_NONE"
  shows "\<exists>t'. reinsert_overflow resize t hs vs = Some t' \<and> roomy k t' \<and>
    contents t' = contents t + mset (zip (map hpd_hash hs) vs) \<and> same_config t t' \<and> same_spill t t'"
  using assms
proof (induction hs vs arbitrary: t rule: list_induct2)
  case Nil
  then show ?case by simp
next
  case (Cons w ws v vs)
  have "roomy (Suc (length ws + k)) t" "v \<noteq> VAL_NONE" "hpd_live (hpd_hash w)"
    using Cons.prems by simp_all
  then obtain t1 where t1: "bare_rh_insert_with resize t (hpd_hash w) v = Some (True, t1)"
    "roomy (length ws + k) t1" "contents t1 = add_mset (hpd_hash w, v) (contents t)"
    "same_config t t1" "same_spill t t1"
    using roomy_insert [of _ t "hpd_hash w" v resize] by auto
  have "\<exists>t'. reinsert_overflow resize t1 ws vs = Some t' \<and> roomy k t' \<and>
      contents t' = contents t1 + mset (zip (map hpd_hash ws) vs) \<and> same_config t1 t' \<and> same_spill t1 t'"
    using Cons.prems by (intro Cons.IH [OF t1(2)]) auto
  then show ?case using t1 by (auto intro: same_config_trans same_spill_trans)
qed

section \<open>The spill lane\<close>

text \<open>What a change of the spill lane leaves alone.\<close>

definition same_main :: "ht_bare \<Rightarrow> ht_bare \<Rightarrow> bool" where
  "same_main t t' \<longleftrightarrow>
     hash_pd t' = hash_pd t \<and> vals t' = vals t \<and> tombstone_cnt t' = tombstone_cnt t \<and>
     overflow_len t' = overflow_len t \<and> overflow_hash_pd t' = overflow_hash_pd t \<and>
     overflow_vals t' = overflow_vals t \<and> overflow_violated t' = overflow_violated t \<and>
     same_config t (t'\<lparr>allocs := allocs t\<rparr>)"

lemma spill_push_ok:
  assumes inv: "bare_inv t" and room: "spill_len t < spill_cap t" and h: "hpd_hash h = h" "\<not> hpd_live h" and v: "v \<noteq> VAL_NONE"
  defines "t' \<equiv> t\<lparr>spill_hash_pd := (spill_hash_pd t)[spill_len t := hpd_pack h 0], spill_vals := (spill_vals t)[spill_len t := v],
      spill_len := sz_add (spill_len t) 1, tsize := sz_add (tsize t) 1\<rparr>"
  shows "bare_inv t'" "contents t' = add_mset (h, v) (contents t)" "same_main t t'" "allocs t' = allocs t"
    and "spill_len t' = Suc (spill_len t)" "spill_cap t' = spill_cap t"
proof -
  have s: "shape_ok t" using inv by (simp add: bare_invD)
  have len: "sz_add (spill_len t) 1 = Suc (spill_len t)" using room shape_okD(7) [OF s] by (simp add: sz_simps)
  have e: "spill_entries t' = spill_entries t @ [(h, v)]"
    using side_entries_snoc [of "spill_len t" "spill_hash_pd t" "spill_vals t" "hpd_pack h 0" v] s room h(1) len
    by (simp add: spill_entries_def t'_def shape_okD)
  have o: "overflow_entries t' = overflow_entries t" by (simp add: overflow_entries_def t'_def)
  show c: "contents t' = add_mset (h, v) (contents t)" using e o by (simp add: contents_def) (simp add: t'_def)
  have "tsize t' = size (contents t')"
    using tsize_bound [OF inv] counts_okD(1) [OF inv] c by (simp add: sz_simps t'_def)
  moreover have "tombstone_cnt t' = tombs t'" using counts_okD(2) [OF inv] by (simp add: tombs_def t'_def)
  moreover have "values_ok t'" using bare_invD(3) [OF inv] e o h v by (auto simp: values_ok_def) (auto simp: t'_def)
  moreover have "shape_ok t'" using s room len by (simp add: shape_ok_def t'_def)
  moreover have "bounded_ok t'" using bare_invD(4) [OF inv] by (simp add: bounded_ok_def t'_def over_limit_def)
  moreover have "probe_inv (hash_pd t')" using bare_invD(2) [OF inv] by (simp add: t'_def)
  ultimately show "bare_inv t'" by (simp add: bare_inv_def counts_ok_def)
  show "same_main t t'" "allocs t' = allocs t" "spill_len t' = Suc (spill_len t)" "spill_cap t' = spill_cap t"
    using len by (simp_all add: same_main_def same_config_def t'_def)
qed


lemma spill_realloc_ok:
  fixes hs :: "u64 list" and vs :: "u32 list" and as :: "bool list" and b :: bool
  assumes inv: "bare_inv t" and len: "length hs = c" "length vs = c" "spill_len t \<le> c" "c * 12 < 2 ^ 64"
    and e: "side_entries hs vs (spill_len t) = spill_entries t"
  defines "t' \<equiv> t\<lparr>allocs := as, spill_hash_pd := hs, spill_vals := vs, spill_cap := c, spill_in_block := b\<rparr>"
  shows "bare_inv t'" "contents t' = contents t" "same_main t t'"
proof -
  have f: "spill_entries t' = spill_entries t" "overflow_entries t' = overflow_entries t"
    using e by (simp_all add: spill_entries_def overflow_entries_def t'_def)
  then show "contents t' = contents t" by (simp add: contents_def) (simp add: t'_def)
  then show "bare_inv t'"
    using inv f len
    by (simp add: bare_inv_def values_ok_def counts_ok_def) (simp add: t'_def shape_ok_def bounded_ok_def over_limit_def tombs_def)
  show "same_main t t'" by (simp add: same_main_def same_config_def t'_def)
qed

lemma size_check: "0 < c \<Longrightarrow> sz_mul c 12 div c = 12 \<Longrightarrow> c * 12 < 2 ^ 64"
  using div_times_less_eq_dividend [of "sz_mul c 12" c] mod_less_divisor [of "2 ^ 64" "c * 12"]
  by (simp add: sz_mul_def)

lemma set_allocs:
  assumes "bare_inv t"
  shows "bare_inv (t\<lparr>allocs := x\<rparr>)" "contents (t\<lparr>allocs := x\<rparr>) = contents t" "same_main t (t\<lparr>allocs := x\<rparr>)"
  using assms
  by (simp_all add: bare_inv_def shape_ok_def values_ok_def bounded_ok_def counts_ok_def contents_def tombs_def
      spill_entries_def overflow_entries_def over_limit_def same_main_def same_config_def)

lemma same_main_refl [simp]: "same_main t t"
  by (simp add: same_main_def same_config_def)

lemma malloc_eq: "malloc t = (fst (take_alloc (allocs t)), t\<lparr>allocs := snd (take_alloc (allocs t))\<rparr>)"
  by (simp add: malloc_def Let_def split: prod.split)

lemma spill_grow_ok:
  assumes inv: "bare_inv t" and full: "spill_len t = spill_cap t"
  defines "t' \<equiv> snd (bare_spill_grow t)"
  shows "bare_inv t'" "contents t' = contents t" "same_main t t'" "spill_len t' = spill_len t"
    and "fst (bare_spill_grow t) \<Longrightarrow> spill_len t < spill_cap t'"
proof -
  have s: "shape_ok t" using inv by (simp add: bare_invD)
  define c where "c = (if spill_cap t \<noteq> 0 then sz_mul (spill_cap t) 2 else SPILL_INITIAL)"
  have c: "c = (if spill_cap t \<noteq> 0 then 2 * spill_cap t else 8)"
    using shape_okD(7) [OF s] by (simp add: c_def sz_simps SPILL_INITIAL_def)
  have c0: "0 < c" "spill_cap t < c" by (simp_all add: c)
  let ?as = "snd (take_alloc (allocs t))"
  let ?hs = "if spill_cap t > 0 then take (spill_cap t) (spill_hash_pd t) @ replicate (sz_sub c (spill_cap t)) 0 else replicate c 0"
  let ?vs = "if spill_cap t > 0 then take (spill_cap t) (spill_vals t) @ replicate (sz_sub c (spill_cap t)) VAL_NONE else replicate c VAL_NONE"
  let ?t = "t\<lparr>allocs := ?as, spill_hash_pd := ?hs, spill_vals := ?vs, spill_cap := c, spill_in_block := False\<rparr>"
  have g: "bare_spill_grow t = (if sz_mul c 12 div c \<noteq> 12 then (False, t)
      else if \<not> fst (take_alloc (allocs t)) then (False, t\<lparr>allocs := ?as\<rparr>) else (True, ?t))"
    using c0 unfolding bare_spill_grow_def Let_def malloc_eq prod.case c_def [symmetric] by simp
  have ok: "bare_inv ?t" "contents ?t = contents t" "same_main t ?t" if "sz_mul c 12 div c = 12"
  proof -
    have c12: "c * 12 < 2 ^ 64" using size_check [OF c0(1) that] .
    then have "sz_sub c (spill_cap t) = c - spill_cap t" using c0 by (intro sz_sub_small) auto
    then have l: "length ?hs = c" "length ?vs = c" using s c0 by (simp_all add: shape_okD)
    have "side_entries ?hs ?vs (spill_len t) = spill_entries t"
      using shape_okD(4,5) [OF s] full by (cases "spill_cap t = 0") (simp_all add: spill_entries_def side_entries_def)
    then show "bare_inv ?t" "contents ?t = contents t" "same_main t ?t"
      using spill_realloc_ok [OF inv l _ c12] full c0 by auto
  qed
  show "bare_inv t'" "contents t' = contents t" "same_main t t'" "spill_len t' = spill_len t"
    "fst (bare_spill_grow t) \<Longrightarrow> spill_len t < spill_cap t'"
    using ok set_allocs [OF inv, of ?as] inv full c0(2) unfolding t'_def g by (auto split: if_splits)
qed

lemma same_main_trans: "same_main a b \<Longrightarrow> same_main b c \<Longrightarrow> same_main a c"
  by (simp add: same_main_def same_config_def)

lemma bare_spill_insert_ok:
  assumes inv: "bare_inv t" and h: "hpd_hash h = h" "\<not> hpd_live h" and v: "v \<noteq> VAL_NONE"
  defines "t' \<equiv> snd (bare_spill_insert t h v)"
  shows "bare_inv t'" "same_main t t'"
    and "contents t' = (if fst (bare_spill_insert t h v) then add_mset (h, v) (contents t) else contents t)"
    and "spill_len t < spill_cap t \<Longrightarrow> fst (bare_spill_insert t h v) \<and> spill_cap t' = spill_cap t \<and>
      spill_len t' = Suc (spill_len t) \<and> allocs t' = allocs t"
proof -
  have s: "shape_ok t" using inv by (simp add: bare_invD)
  define t1 where "t1 = (if spill_len t \<ge> spill_cap t then snd (bare_spill_grow t) else t)"
  define ok where "ok = (if spill_len t \<ge> spill_cap t then fst (bare_spill_grow t) else True)"
  have t1: "bare_inv t1" "contents t1 = contents t" "same_main t t1" "spill_len t1 = spill_len t"
    "ok \<Longrightarrow> spill_len t1 < spill_cap t1"
    using spill_grow_ok [OF inv] inv shape_okD(6) [OF s] by (auto simp: t1_def ok_def)
  have eq: "bare_spill_insert t h v = (if \<not> ok then (False, t1) else (True, t1\<lparr>
        spill_hash_pd := (spill_hash_pd t1)[spill_len t1 := hpd_pack h 0], spill_vals := (spill_vals t1)[spill_len t1 := v],
        spill_len := sz_add (spill_len t1) 1, tsize := sz_add (tsize t1) 1\<rparr>))"
    by (auto simp: bare_spill_insert_def t1_def ok_def split: prod.split)
  note p = spill_push_ok [OF t1(1) t1(5) h v]
  show "bare_inv t'" using p(1) t1(1) by (simp add: t'_def eq)
  show "same_main t t'" using p(3) t1(3) by (auto simp: t'_def eq intro: same_main_trans)
  show "contents t' = (if fst (bare_spill_insert t h v) then add_mset (h, v) (contents t) else contents t)"
    using p(2) t1(2) by (simp add: t'_def eq)
  show "fst (bare_spill_insert t h v) \<and> spill_cap t' = spill_cap t \<and> spill_len t' = Suc (spill_len t) \<and> allocs t' = allocs t"
    if "spill_len t < spill_cap t"
  proof -
    have "ok" "t1 = t" using that by (simp_all add: ok_def t1_def)
    then show ?thesis using p(4-6) by (simp add: t'_def eq)
  qed
qed


lemma roomy_same_main:
  assumes "roomy k t" "bare_inv t'" "same_main t t'" "size (contents t') - spill_len t' = size (contents t) - spill_len t"
  shows "roomy k t'"
  using assms by (auto simp: roomy_def same_main_def same_config_def gap_ok_def tombs_def)

lemma reinsert_spill_ok:
  assumes "length hs = length vs" "roomy k t" "spill_len t + length hs \<le> spill_cap t"
    and "\<forall>(w, v) \<in> set (zip hs vs). \<not> hpd_live w \<and> v \<noteq> VAL_NONE"
  shows "roomy k (bare_reinsert_spill t hs vs) \<and>
    contents (bare_reinsert_spill t hs vs) = contents t + mset (zip (map hpd_hash hs) vs) \<and>
    same_config t (bare_reinsert_spill t hs vs)"
  using assms
proof (induction hs vs arbitrary: t rule: list_induct2)
  case Nil
  then show ?case by simp
next
  case (Cons w ws v vs)
  let ?t = "snd (bare_spill_insert t (hpd_hash w) v)"
  have inv: "bare_inv t" and s: "shape_ok t" using Cons.prems(1) by (simp_all add: roomy_def bare_invD)
  have w: "\<not> hpd_live (hpd_hash w)" "v \<noteq> VAL_NONE" using Cons.prems(3) by auto
  note i = bare_spill_insert_ok [OF inv hpd_hash_idem w]
  have room: "spill_len t < spill_cap t" using Cons.prems(2) by simp
  have c: "contents ?t = add_mset (hpd_hash w, v) (contents t)" using i(3,4) room by simp
  have "roomy k ?t"
    using Cons.prems(1) i(1,2,4) room c spill_len_le [OF s] by (intro roomy_same_main [of k t ?t]) auto
  then have "roomy k (bare_reinsert_spill ?t ws vs) \<and>
      contents (bare_reinsert_spill ?t ws vs) = contents ?t + mset (zip (map hpd_hash ws) vs) \<and>
      same_config ?t (bare_reinsert_spill ?t ws vs)"
    using Cons.prems i(4) room by (intro Cons.IH) auto
  moreover have "same_config t ?t" using i(2,4) room by (auto simp: same_main_def same_config_def)
  ultimately show ?case using c w(2) by (auto intro: same_config_trans)
qed

section \<open>Prophylactic tombstones\<close>

lemma path_not_empty:
  assumes "probe_inv hp" "k < length hp" "hpd_live (hp ! k)" "j < pd (hp ! k)"
  shows "\<not> hpd_empty (hp ! ((home (length hp) (hp ! k) + j) mod length hp))"
  using probe_inv_passable [OF assms] by (simp add: passable_def)

text \<open>A tombstone in an empty slot lies on no probe path.\<close>

lemma tomb_in_empty:
  assumes p: "probe_inv hp" and e: "pos < length hp" "hpd_empty (hp ! pos)"
  shows "gap_inv hp \<Longrightarrow> gap_inv (hp[pos := HASH_TOMB])"
    and "paths_tomb_free hp \<Longrightarrow> paths_tomb_free (hp[pos := HASH_TOMB])"
proof -
  let ?hp = "hp[pos := HASH_TOMB]"
  have old: "hpd_live (hp ! k)" "?hp ! k = hp ! k" if "hpd_live (?hp ! k)" "k < length hp" for k
    using that e by (cases "k = pos"; simp)+
  have path: "?hp ! ((home (length hp) (hp ! k) + j) mod length hp) = hp ! ((home (length hp) (hp ! k) + j) mod length hp)"
    if "k < length hp" "hpd_live (hp ! k)" "j < pd (hp ! k)" for k j
    using path_not_empty [OF p that] e(2) by (metis nth_list_update_neq)
  show "paths_tomb_free ?hp" if "paths_tomb_free hp"
    unfolding paths_tomb_free_def tomb_free_def
  proof (intro allI impI)
    fix i j assume i: "i < length ?hp" "hpd_live (?hp ! i)" "j < pd (?hp ! i)"
    then have o: "i < length hp" "hpd_live (hp ! i)" "?hp ! i = hp ! i" using old by auto
    then have "\<not> hpd_tomb (hp ! ((home (length hp) (hp ! i) + j) mod length hp))"
      using that i(3) by (simp add: paths_tomb_free_def tomb_free_def)
    then show "\<not> hpd_tomb (?hp ! ((home (length ?hp) (?hp ! i) + j) mod length ?hp))"
      using path o i(3) by simp
  qed
  show "gap_inv ?hp" if g: "gap_inv hp"
    unfolding gap_inv_def
  proof (intro allI impI)
    fix i assume i: "i < length ?hp" "hpd_live (?hp ! i)" "BSHIFT_CAP < pd (?hp ! i)"
    then have o: "i < length hp" "hpd_live (hp ! i)" "?hp ! i = hp ! i" using old by auto
    obtain k where k: "k \<in> {1..BSHIFT_CAP + 1}" "\<not> hpd_tomb (hp ! ((home (length hp) (hp ! i) + (pd (hp ! i) - k)) mod length hp))"
      using g o i(3) unfolding gap_inv_def by metis
    have "pd (hp ! i) - k < pd (hp ! i)" using k(1) i(3) o by auto
    then show "\<exists>k \<in> {1..BSHIFT_CAP + 1}.
        \<not> hpd_tomb (?hp ! ((home (length ?hp) (?hp ! i) + (pd (?hp ! i) - k)) mod length ?hp))"
      using k path o by (intro bexI [of _ k]) auto
  qed
qed

text \<open>What placing tombstones keeps, and how many there are after \<open>m\<close> of them.\<close>

definition tombed :: "nat \<Rightarrow> ht_bare \<Rightarrow> ht_bare \<Rightarrow> bool" where
  "tombed m t t' \<longleftrightarrow> bare_inv t' \<and> gap_ok t' \<and> paths_tomb_free (hash_pd t') \<and> contents t' = contents t \<and>
     same_config t t' \<and> same_spill t t' \<and> tombs t' \<le> tombs t + m"

lemma place_tombstone_ok:
  assumes inv: "bare_inv t" and gap: "gap_ok t" and free: "paths_tomb_free (hash_pd t)" and pos: "pos < capacity t"
  shows "tombed 1 t (place_tombstone pos t)"
proof (cases "hpd_empty (hash_pd t ! pos)")
  case False
  then show ?thesis using assms by (simp add: place_tombstone_def tombed_def)
next
  case e: True
  let ?t = "place_tombstone pos t" and ?hp = "(hash_pd t)[pos := HASH_TOMB]" and ?vs = "(vals t)[pos := VAL_NONE]"
  have s: "shape_ok t" using inv by (simp add: bare_invD)
  have n: "length (hash_pd t) = capacity t" "length (vals t) = capacity t" using s by (simp_all add: shape_okD)
  have nl: "\<not> hpd_live (hash_pd t ! pos)" "\<not> hpd_tomb (hash_pd t ! pos)" using e slot_excl by blast+
  have tm: "length (filter hpd_tomb ?hp) = tombs t + 1"
    using length_filter_update [of pos "hash_pd t" hpd_tomb HASH_TOMB] pos n nl by (simp add: tombs_def)
  have t': "?t = t\<lparr>hash_pd := ?hp, vals := ?vs, tombstone_cnt := length (filter hpd_tomb ?hp)\<rparr>"
    using e tm counts_okD(2) [OF inv] tombs_bound [OF s] by (simp add: place_tombstone_def sz_simps)
  have old: "hpd_live (hash_pd t ! k) \<and> ?hp ! k = hash_pd t ! k" if "hpd_live (?hp ! k)" for k
    using that pos n by (cases "k = pos") auto
  have path: "passable (hash_pd t) q j \<Longrightarrow> passable ?hp q j" for q j using passable_tomb pos n by simp
  have p: "probe_inv ?hp"
    using probe_inv_tomb bare_invD(2) [OF inv] pos n by simp
  have main: "main_mset ?hp ?vs = main_mset (hash_pd t) (vals t)"
    using main_mset_update [of pos "hash_pd t" "vals t" HASH_TOMB VAL_NONE] pos n nl by simp
  have b: "\<exists>q < capacity t. hpd_live (hash_pd t ! q) \<and> pd (?hp ! k) \<le> pd (hash_pd t ! q)"
    if "k < capacity t" "hpd_live (?hp ! k)" for k using old that by auto
  have l: "length ?hp = capacity t" "length ?vs = capacity t" using n by simp_all
  note r = replace_arrays [OF inv l main p refl b, folded t']
  have "gap_ok ?t" "paths_tomb_free (hash_pd ?t)"
    using tomb_in_empty [OF bare_invD(2) [OF inv] _ e] gap free pos n t' by (simp_all add: gap_ok_def)
  moreover have "tombs ?t = tombs t + 1" using tm t' by (simp add: tombs_def)
  ultimately show ?thesis using r by (simp add: tombed_def)
qed

lemma tombed_trans: "tombed m t t1 \<Longrightarrow> tombed k t1 t2 \<Longrightarrow> tombed (m + k) t t2"
  by (auto simp: tombed_def intro: same_config_trans same_spill_trans)

lemma place_tombstones_ok:
  assumes "bare_inv t" "gap_ok t" "paths_tomb_free (hash_pd t)" "\<forall>p \<in> set ps. p < capacity t"
  shows "tombed (length ps) t (fold place_tombstone ps t)"
  using assms
proof (induction ps arbitrary: t)
  case Nil
  then show ?case by (simp add: tombed_def)
next
  case (Cons p ps)
  have one: "tombed 1 t (place_tombstone p t)" using Cons.prems by (intro place_tombstone_ok) auto
  have "tombed (length ps) (place_tombstone p t) (fold place_tombstone ps (place_tombstone p t))"
    using one Cons.prems by (intro Cons.IH) (auto simp: tombed_def same_config_def)
  from tombed_trans [OF one this] show ?case by simp
qed

lemma count_multiples:
  assumes "4 \<le> s"
  shows "4 * length (filter (\<lambda>p. s dvd p) [0..<n]) \<le> n + 3"
proof (cases "n = 0")
  case False
  let ?S = "{p. p < n \<and> s dvd p}"
  have "inj_on (\<lambda>p. p div s) ?S" by (auto simp: inj_on_def dvd_div_eq_iff)
  moreover have "(\<lambda>p. p div s) ` ?S \<subseteq> {..(n - 1) div 4}"
  proof (rule image_subsetI)
    fix p assume "p \<in> ?S"
    then have "p div s \<le> (n - 1) div s" by (intro div_le_mono) auto
    also have "\<dots> \<le> (n - 1) div 4" using assms by (intro div_le_mono2) auto
    finally show "p div s \<in> {..(n - 1) div 4}" by simp
  qed
  ultimately have "card ?S \<le> (n - 1) div 4 + 1" using card_inj_on_le [of "\<lambda>p. p div s" ?S "{..(n - 1) div 4}"] by simp
  moreover have "length (filter (\<lambda>p. s dvd p) [0..<n]) = card ?S"
  proof -
    have "length (filter (\<lambda>p. s dvd p) [0..<n]) = card (set (filter (\<lambda>p. s dvd p) [0..<n]))"
      by (simp only: distinct_card distinct_filter distinct_upt)
    also have "set (filter (\<lambda>p. s dvd p) [0..<n]) = ?S" by auto
    finally show ?thesis .
  qed
  ultimately show ?thesis using False by linarith
qed simp

lemma spacing_ge4: "4 \<le> tombstone_spacing t"
  by (simp add: tombstone_spacing_def Let_def)

lemma prophylactic_ok:
  assumes "bare_inv t" "gap_ok t" "tombs t = 0"
  defines "t' \<equiv> bare_place_prophylactic_tombstones t"
  shows "tombed (capacity t div 4) t t'"
proof -
  let ?ps = "filter (\<lambda>pos. tombstone_spacing t dvd pos) [0..<capacity t]"
  have s: "shape_ok t" using assms(1) by (simp add: bare_invD)
  have "0 < length (hash_pd t)" using shape_okD(2,11) [OF s] by simp
  then have "paths_tomb_free (hash_pd t)"
    using no_tombs [OF assms(3)] by (simp add: paths_tomb_free_def tomb_free_def)
  then have "tombed (length ?ps) t t'"
    unfolding t'_def bare_place_prophylactic_tombstones_def using assms(1,2) by (intro place_tombstones_ok) auto
  moreover have "length ?ps \<le> capacity t div 4"
  proof -
    obtain m where m: "capacity t = 2 ^ m" "2 \<le> m" using shape_okD(1) [OF s] by (rule pow2_capD)
    then have "4 dvd capacity t" using le_imp_power_dvd [of 2 m "2::nat"] by simp
    moreover have "4 * length ?ps \<le> capacity t + 3" using count_multiples [OF spacing_ge4, of t "capacity t"] by simp
    ultimately show ?thesis by (elim dvdE) simp
  qed
  ultimately show ?thesis by (auto simp: tombed_def)
qed


section \<open>Rebuilding\<close>

text \<open>\<open>t'\<close> is \<open>t\<close> rebuilt with \<open>n\<close> slots.\<close>

definition rebuilt :: "nat \<Rightarrow> ht_bare \<Rightarrow> ht_bare \<Rightarrow> bool" where
  "rebuilt n t t' \<longleftrightarrow>
     bare_inv t' \<and> gap_ok t' \<and> paths_tomb_free (hash_pd t') \<and> contents t' = contents t \<and>
     same_config (t\<lparr>capacity := n\<rparr>) t' \<and> tombs t' \<le> n div 4"

definition fresh_table :: "ht_bare \<Rightarrow> nat \<Rightarrow> nat \<Rightarrow> ht_bare" where
  "fresh_table t n k = (bare_main_block_init t n)\<lparr>tsize := 0, tombstone_cnt := 0,
     spill_hash_pd := replicate k 0, spill_vals := replicate k VAL_NONE, spill_cap := k, spill_len := 0,
     spill_in_block := False, overflow_len := 0, overflow_violated := False\<rparr>"

lemma fresh_table_ok:
  assumes "shape_ok t" "pow2_cap n" "k * 12 < 2 ^ 64"
  shows "bare_inv (fresh_table t n k)" "gap_ok (fresh_table t n k)" "contents (fresh_table t n k) = {#}"
    and "tombs (fresh_table t n k) = 0" "same_config (t\<lparr>capacity := n\<rparr>) (fresh_table t n k)"
    and "spill_cap (fresh_table t n k) = k" "spill_len (fresh_table t n k) = 0"
proof -
  let ?t = "fresh_table t n k"
  have f: "hash_pd ?t = replicate n 0" "vals ?t = replicate n VAL_NONE" "capacity ?t = n" "tombstone_cnt ?t = 0" "tsize ?t = 0"
    by (simp_all add: fresh_table_def bare_main_block_init_def)
  have e: "spill_entries ?t = []" "overflow_entries ?t = []"
    by (simp_all add: fresh_table_def spill_entries_def overflow_entries_def side_entries_def)
  have m: "main_mset (replicate n 0) (replicate n VAL_NONE) = {#}" by (simp add: main_mset_slots)
  show "gap_ok ?t" by (simp add: gap_ok_def gap_inv_def f)
  show c: "contents ?t = {#}" using m e f by (simp add: contents_def)
  show t0: "tombs ?t = 0" by (simp add: tombs_def f)
  have "shape_ok ?t" using assms by (simp add: shape_ok_def fresh_table_def bare_main_block_init_def)
  moreover have "probe_inv (hash_pd ?t)" "values_ok ?t" "bounded_ok ?t"
    using e by (simp_all add: probe_inv_def values_ok_def bounded_ok_def f)
  ultimately show "bare_inv ?t" using c t0 f by (simp add: bare_inv_def counts_ok_def)
qed (simp_all add: fresh_table_def bare_main_block_init_def same_config_def)

lemma live_of_zip_take:
  assumes "length vs = length hs"
  shows "zip (map hpd_hash (take n hs)) (take n vs) = side_entries hs vs n"
  by (simp add: side_entries_def take_zip take_map)

lemma new_spill_bound: "shape_ok t \<Longrightarrow> new_spill_capacity t * 12 < 2 ^ 64 \<and> spill_len t \<le> new_spill_capacity t"
  using shape_okD(6,7) [of t] by (auto simp: new_spill_capacity_def SPILL_INITIAL_def)

lemma side_set_zip:
  assumes "\<forall>(h, v) \<in> set (side_entries hs vs n). P h v"
  shows "\<forall>(w, v) \<in> set (zip (take n hs) (take n vs)). P (hpd_hash w) v"
proof -
  have "side_entries hs vs n = map (\<lambda>(w, v). (hpd_hash w, v)) (zip (take n hs) (take n vs))"
    by (simp add: side_entries_def take_zip take_map zip_map1)
  then show ?thesis using assms by auto
qed

lemma bare_rebuild_ok:
  assumes inv: "bare_inv t" and n: "pow2_cap n" "n \<le> 65536" and room: "size (contents t) - spill_len t \<le> n"
  shows "\<exists>t'. bare_rebuild resize t n (new_spill_capacity t) = Some t' \<and> rebuilt n t t'"
proof -
  have s: "shape_ok t" and v: "values_ok t" using inv by (simp_all add: bare_invD)
  let ?k = "new_spill_capacity t"
  let ?t0 = "fresh_table t n ?k"
  let ?oh = "take (overflow_len t) (overflow_hash_pd t)" and ?ov = "take (overflow_len t) (overflow_vals t)"
  let ?sh = "take (spill_len t) (spill_hash_pd t)" and ?sv = "take (spill_len t) (spill_vals t)"
  have k: "?k * 12 < 2 ^ 64" "spill_len t \<le> ?k" using new_spill_bound [OF s] by simp_all
  note t0 = fresh_table_ok [OF s n(1) k(1)]
  have lens: "length ?oh = overflow_len t" "length ?ov = overflow_len t" "length ?sh = spill_len t" "length ?sv = spill_len t"
    using s by (simp_all add: shape_okD)
  have "roomy (length (filter hpd_live (hash_pd t)) + length ?oh) ?t0"
    using t0 n room size_contents [OF s] lens by (simp add: roomy_def same_config_def)
  moreover have "\<forall>(w, v) \<in> set (zip (hash_pd t) (vals t)). hpd_live w \<longrightarrow> v \<noteq> VAL_NONE"
    using v s by (auto simp: values_ok_def in_set_zip shape_okD)
  ultimately obtain t1 where t1: "bare_reinsert_main resize ?t0 (hash_pd t) (vals t) = Some t1"
    "roomy (length ?oh) t1" "contents t1 = main_mset (hash_pd t) (vals t)" "same_config ?t0 t1" "same_spill ?t0 t1"
    using reinsert_main_ok [of "hash_pd t" "vals t" "length ?oh" ?t0 resize] s t0(3) by (auto simp: shape_okD)
  let ?t2 = "bare_reinsert_spill t1 ?sh ?sv"
  have "\<forall>(w, v) \<in> set (zip ?sh ?sv). \<not> hpd_live w \<and> v \<noteq> VAL_NONE"
    using side_set_zip [of "spill_hash_pd t" "spill_vals t" "spill_len t" "\<lambda>h v. \<not> hpd_live h \<and> v \<noteq> VAL_NONE"] v
    by (simp add: values_ok_def spill_entries_def)
  then have t2: "roomy (length ?oh) ?t2" "contents ?t2 = contents t1 + mset (spill_entries t)" "same_config t1 ?t2"
    using reinsert_spill_ok [of ?sh ?sv "length ?oh" t1] t1(2,5) lens k t0(6,7) s
      live_of_zip_take [of "spill_vals t" "spill_hash_pd t" "spill_len t"]
    by (auto simp: same_spill_def shape_okD spill_entries_def)
  have "\<forall>(w, v) \<in> set (zip ?oh ?ov). hpd_live w \<and> v \<noteq> VAL_NONE"
    using side_set_zip [of "overflow_hash_pd t" "overflow_vals t" "overflow_len t" "\<lambda>h v. hpd_live h \<and> v \<noteq> VAL_NONE"] v
    by (simp add: values_ok_def overflow_entries_def)
  then obtain t3 where t3: "reinsert_overflow resize ?t2 ?oh ?ov = Some t3" "roomy 0 t3"
    "contents t3 = contents ?t2 + mset (overflow_entries t)" "same_config ?t2 t3"
    using reinsert_overflow_ok [of ?oh ?ov 0 ?t2 resize] t2(1) lens s
      live_of_zip_take [of "overflow_vals t" "overflow_hash_pd t" "overflow_len t"]
    by (auto simp: shape_okD overflow_entries_def)
  let ?t4 = "bare_place_prophylactic_tombstones t3"
  have conf: "same_config (t\<lparr>capacity := n\<rparr>) t3"
    using t0(5) t1(4) t2(3) t3(4) by (meson same_config_trans)
  have "tombed (capacity t3 div 4) t3 ?t4" using t3(2) by (intro prophylactic_ok) (auto simp: roomy_def)
  moreover have "contents t3 = contents t" using t1(3) t2(2) t3(3) by (simp add: contents_def)
  ultimately have "rebuilt n t ?t4"
    using conf t3(2) by (auto simp: rebuilt_def tombed_def roomy_def same_config_def)
  moreover have "bare_rebuild resize t n ?k = Some ?t4"
    using t1(1) t3(1) unfolding fresh_table_def by (simp add: bare_rebuild_def Let_def)
  ultimately show ?thesis by blast
qed


lemma next_pow2_sz_ok:
  assumes "0 < x" "x \<le> 65536"
  obtains k where "next_pow2_sz x = 2 ^ k" "k \<le> 16" "x \<le> 2 ^ k"
proof -
  have u: "unat (word_of_nat x :: u64) = x" using assms by (simp add: unsigned_of_nat take_bit_nat_eq_self)
  have "0 < (word_of_nat x :: u64)" "word_of_nat x \<le> (push_bit 63 1 :: u64)"
    using u assms by (auto simp: word_less_nat_alt word_le_nat_alt)
  then obtain k where k: "unat (next_pow2 (word_of_nat x)) = 2 ^ k" "x \<le> 2 ^ k" "\<forall>j. x \<le> 2 ^ j \<longrightarrow> 2 ^ k \<le> (2::nat) ^ j"
    using next_pow2_is_least [of "word_of_nat x"] u by auto
  have "x \<le> 2 ^ 16" using assms(2) by simp
  then have "(2::nat) ^ k \<le> 2 ^ 16" using k(3) by blast
  then have "k \<le> 16" by (rule power_le_imp_le_exp [rotated]) simp
  then show thesis using that k by (simp add: next_pow2_sz_def)
qed

lemma next_pow2_sz_least:
  assumes "0 < x" "x \<le> 65536" "x \<le> 2 ^ j"
  shows "next_pow2_sz x \<le> 2 ^ j"
proof -
  have u: "unat (word_of_nat x :: u64) = x" using assms by (simp add: unsigned_of_nat take_bit_nat_eq_self)
  have "0 < (word_of_nat x :: u64)" "word_of_nat x \<le> (push_bit 63 1 :: u64)"
    using u assms by (auto simp: word_less_nat_alt word_le_nat_alt)
  then obtain k where "unat (next_pow2 (word_of_nat x)) = 2 ^ k" "\<forall>j. x \<le> 2 ^ j \<longrightarrow> 2 ^ k \<le> (2::nat) ^ j"
    using next_pow2_is_least [of "word_of_nat x"] u by auto
  then show ?thesis using assms(3) by (simp add: next_pow2_sz_def)
qed

lemma pow2_capI: "2 \<le> m \<Longrightarrow> m < 61 \<Longrightarrow> pow2_cap (2 ^ m)"
  unfolding pow2_cap_def list_ex_iff set_upt by (intro bexI [of _ m]) simp_all

text \<open>The capacity a resize chooses.\<close>

definition resize_capacity :: "ht_bare \<Rightarrow> nat" where
  "resize_capacity t = (let cap0 = next_pow2_sz (sz_mul (tsize t) 2) in if cap0 < 4 then 4 else cap0)"

lemma resize_capacity_ok:
  assumes "2 * tsize t \<le> 65536"
  shows "pow2_cap (resize_capacity t)" "resize_capacity t \<le> 65536" "2 * tsize t \<le> resize_capacity t"
proof -
  have sz: "sz_mul (tsize t) 2 = 2 * tsize t" using assms by (simp add: sz_mul_small)
  have four: "pow2_cap 4" using pow2_capI [of 2] by simp
  have "pow2_cap (resize_capacity t) \<and> resize_capacity t \<le> 65536 \<and> 2 * tsize t \<le> resize_capacity t"
  proof (cases "tsize t = 0")
    case True
    then show ?thesis using sz four by (simp add: resize_capacity_def Let_def next_pow2_sz_def next_pow2_def)
  next
    case False
    then obtain k where k: "next_pow2_sz (2 * tsize t) = 2 ^ k" "k \<le> 16" "2 * tsize t \<le> 2 ^ k"
      using next_pow2_sz_ok [of "2 * tsize t"] assms by auto
    have "(2::nat) ^ k \<le> 2 ^ 16" using k(2) by (intro power_increasing) auto
    moreover have "2 \<le> k" if "\<not> (2::nat) ^ k < 4"
    proof (rule ccontr)
      assume "\<not> 2 \<le> k"
      then have "(2::nat) ^ k \<le> 2 ^ 1" by (intro power_increasing) auto
      with that show False by simp
    qed
    ultimately show ?thesis using k sz four pow2_capI [of k] by (simp add: resize_capacity_def Let_def)
  qed
  then show "pow2_cap (resize_capacity t)" "resize_capacity t \<le> 65536" "2 * tsize t \<le> resize_capacity t" by auto
qed

lemma block_size_ok: "pow2_cap n \<Longrightarrow> bare_main_block_size n \<noteq> 0"
  using pow2_cap_ge4 [of n] pow2_cap_bound [of n] by (simp add: bare_main_block_size_def SIZE_MAX_def)

lemma same_main_contents:
  assumes "contents t' = contents t" "spill_len t' = spill_len t" shows "size (contents t') - spill_len t' = size (contents t) - spill_len t"
  using assms by simp

lemma set_resizing:
  assumes "bare_inv t"
  shows "bare_inv (t\<lparr>resizing := x\<rparr>)" "contents (t\<lparr>resizing := x\<rparr>) = contents t"
    and "hash_pd (t\<lparr>resizing := x\<rparr>) = hash_pd t" "tombs (t\<lparr>resizing := x\<rparr>) = tombs t" "gap_ok (t\<lparr>resizing := x\<rparr>) = gap_ok t"
  using assms
  by (simp_all add: bare_inv_def shape_ok_def values_ok_def bounded_ok_def counts_ok_def contents_def tombs_def
      spill_entries_def overflow_entries_def over_limit_def gap_ok_def)

text \<open>
  The outcome of a resize: the table rebuilt, or the table as it was, with an allocation
  consumed.
\<close>

definition resized :: "ht_bare \<Rightarrow> bool \<Rightarrow> ht_bare \<Rightarrow> bool" where
  "resized t ok t' \<longleftrightarrow>
     (\<exists>as. if ok then rebuilt (resize_capacity t) (t\<lparr>allocs := as\<rparr>) t' else t' = t\<lparr>allocs := as\<rparr>) \<and>
     (allocs t = [] \<longrightarrow> ok \<and> allocs t' = [])"

lemma bare_resize_table_ok:
  assumes inv: "bare_inv t" and nr: "\<not> resizing t" and sz: "2 * tsize t \<le> 65536"
  shows "\<exists>ok t'. bare_resize_table t = Some (ok, t') \<and> resized t ok t'"
proof -
  note n = resize_capacity_ok [OF sz]
  define a1 where "a1 = take_alloc (allocs t)"
  define a2 where "a2 = take_alloc (snd a1)"
  let ?t2 = "t\<lparr>allocs := snd a2, resizing := True\<rparr>"
  have c: "bare_inv ?t2" "contents ?t2 = contents t"
    using set_resizing [OF set_allocs(1) [OF inv]] set_allocs(2) [OF inv] by simp_all
  have "size (contents ?t2) - spill_len ?t2 \<le> resize_capacity t"
    using n(3) c(2) counts_okD(1) [OF inv] by simp
  then obtain t3 where t3: "bare_rebuild no_resize ?t2 (resize_capacity t) (new_spill_capacity ?t2) = Some t3"
    "rebuilt (resize_capacity t) ?t2 t3"
    using bare_rebuild_ok [OF c(1) n(1,2)] by blast
  have "rebuilt (resize_capacity t) (t\<lparr>allocs := snd a2\<rparr>) (t3\<lparr>resizing := False\<rparr>)"
    using t3(2) nr set_resizing [of t3 False] c(2) set_allocs(2) [OF inv]
    by (auto simp: rebuilt_def same_config_def)
  moreover have "new_spill_capacity ?t2 = new_spill_capacity t" by (simp add: new_spill_capacity_def)
  moreover have "bare_resize_table t = (if \<not> fst a1 then Some (False, t\<lparr>allocs := snd a1\<rparr>)
      else if \<not> fst a2 then Some (False, t\<lparr>allocs := snd a2\<rparr>)
      else Option.bind (bare_rebuild no_resize ?t2 (resize_capacity t) (new_spill_capacity t))
        (\<lambda>t3. Some (True, t3\<lparr>resizing := False\<rparr>)))"
    using nr sz block_size_ok [OF n(1)]
    by (simp add: bare_resize_table_def resize_capacity_def Let_def bare_alloc_main_block_def malloc_eq SIZE_MAX_def
        a1_def a2_def cong: if_cong)
  moreover have "allocs t3 = snd a2" using t3(2) by (simp add: rebuilt_def same_config_def)
  moreover have "allocs t = [] \<longrightarrow> fst a1 \<and> fst a2 \<and> snd a2 = []" by (simp add: a1_def a2_def take_alloc_def)
  ultimately show ?thesis using t3(1) by (auto simp: resized_def)
qed


section \<open>The public insertion\<close>

text \<open>What an insertion relies on.\<close>

definition insertable :: "ht_bare \<Rightarrow> bool" where
  "insertable t \<longleftrightarrow> bare_inv t \<and> gap_ok t \<and> tomb_safe t \<and> has_empty t \<and> capacity t \<le> 65536 \<and>
     \<not> resizing t \<and> 2 * tsize t \<le> 65536"

lemma resized_insertable:
  assumes inv: "bare_inv t" and nr: "\<not> resizing t" and sz: "2 * tsize t \<le> 65536" and r: "resized t True t'"
  shows "insertable t'" "contents t' = contents t"
proof -
  obtain as where b: "rebuilt (resize_capacity t) (t\<lparr>allocs := as\<rparr>) t'" using r by (auto simp: resized_def)
  note n = resize_capacity_ok [OF sz]
  show c: "contents t' = contents t" using b set_allocs(2) [OF inv] by (simp add: rebuilt_def)
  have inv': "bare_inv t'" using b by (simp add: rebuilt_def)
  have cap: "capacity t' = resize_capacity t" "\<not> resizing t'" using b nr by (simp_all add: rebuilt_def same_config_def)
  have "4 \<le> capacity t'" using n(1) pow2_cap_ge4 cap by simp
  moreover have "tombs t' \<le> capacity t' div 4" using b cap by (simp add: rebuilt_def)
  moreover have "2 * size (contents t') \<le> capacity t'" using n(3) c counts_okD(1) [OF inv] cap by simp
  ultimately have "has_empty t'" using inv' by (intro has_empty_room) linarith+
  then show "insertable t'"
    using b cap n sz c counts_okD(1) [OF inv] counts_okD(1) [OF inv'] by (simp add: insertable_def rebuilt_def tomb_safe_def)
qed

lemma main_live_eq: "bare_inv t \<Longrightarrow> main_live t = length (filter hpd_live (hash_pd t))"
proof -
  assume inv: "bare_inv t"
  have "tsize t = length (filter hpd_live (hash_pd t)) + spill_len t + overflow_len t"
    using size_contents [OF bare_invD(1) [OF inv]] counts_okD(1) [OF inv] by simp
  then show ?thesis using tsize_bound [OF inv] by (simp add: main_live_def sz_sub_small)
qed

lemma main_live_le: "bare_inv t \<Longrightarrow> main_live t \<le> capacity t"
  using main_live_eq [of t] length_filter_le [of hpd_live "hash_pd t"] by (simp add: bare_invD shape_okD)

lemma ht_bare_resize_ok:
  assumes "bare_inv t" "\<not> resizing t" "2 * tsize t \<le> 65536" "capacity t \<le> 65536"
  shows "\<exists>ok t'. ht_bare_resize t (sz_mul (capacity t) 2) = Some (ok, t') \<and> resized t ok t'"
proof -
  have "sz_mul (capacity t) 2 = 2 * capacity t" using assms(4) by (simp add: sz_mul_small)
  then have "\<not> sz_mul (capacity t) 2 < main_live t" using main_live_le [OF assms(1)] by simp
  then show ?thesis using bare_resize_table_ok [OF assms(1-3)] by (simp add: ht_bare_resize_def)
qed

lemma insertable_insert:
  assumes "insertable t" "hpd_live h" "hpd_hash h = h" "v \<noteq> VAL_NONE"
  shows "\<exists>t'. bare_rh_insert_bounded t h v = Some (True, t') \<and> inserted t h v t'"
  using assms bare_rh_insert_with_ok [of t h v] by (auto simp: insertable_def bare_rh_insert_bounded_def)

lemma resized_keeps:
  assumes "insertable t" "resized t ok t'"
  shows "bare_inv t'" "contents t' = contents t" "ok \<Longrightarrow> insertable t'" "allocs t = [] \<Longrightarrow> ok \<and> allocs t' = []"
proof -
  have t: "bare_inv t" "\<not> resizing t" "2 * tsize t \<le> 65536" using assms(1) by (simp_all add: insertable_def)
  show ins: "ok \<Longrightarrow> insertable t'" using resized_insertable(1) [OF t] assms(2) by (cases ok) auto
  show "contents t' = contents t"
    using resized_insertable(2) [OF t] set_allocs(2) [OF t(1)] assms(2) by (cases ok) (auto simp: resized_def)
  show "bare_inv t'"
    using ins set_allocs(1) [OF t(1)] assms(2) by (cases ok) (auto simp: resized_def insertable_def)
  show "allocs t = [] \<Longrightarrow> ok \<and> allocs t' = []" using assms(2) by (simp add: resized_def)
qed

text \<open>A resize that happens or not, before the insertion proper.\<close>

definition small :: "ht_bare \<Rightarrow> bool" where
  "small t \<longleftrightarrow> capacity t \<le> 32768 \<and> 2 * tsize t \<le> 32768"

definition prepared :: "ht_bare \<Rightarrow> bool \<Rightarrow> ht_bare \<Rightarrow> bool" where
  "prepared t ok t' \<longleftrightarrow> bare_inv t' \<and> contents t' = contents t \<and> (ok \<longrightarrow> insertable t') \<and>
     (allocs t = [] \<longrightarrow> ok \<and> allocs t' = []) \<and> (small t \<longrightarrow> small t')"

lemma resize_capacity_small:
  assumes "2 * tsize t \<le> 2 ^ j" "2 \<le> j" "j \<le> 15"
  shows "resize_capacity t \<le> 2 ^ j"
proof (cases "tsize t = 0")
  case True
  then show ?thesis
    using power_increasing [OF assms(2), of "2::nat"]
    by (simp add: resize_capacity_def Let_def next_pow2_sz_def next_pow2_def sz_mul_def)
next
  case False
  have "(2::nat) ^ j \<le> 2 ^ 15" using assms(3) by (intro power_increasing) auto
  then have x: "0 < 2 * tsize t" "2 * tsize t \<le> 65536" "sz_mul (tsize t) 2 = 2 * tsize t"
    using False assms(1) by (auto simp: sz_mul_def)
  have "next_pow2_sz (2 * tsize t) \<le> 2 ^ j" using next_pow2_sz_least [OF x(1,2) assms(1)] .
  then show ?thesis
    using power_increasing [OF assms(2), of "2::nat"] x(3) by (simp add: resize_capacity_def Let_def)
qed

lemma resized_small:
  assumes "bare_inv t" "resized t ok t'" "small t"
  shows "small t'"
proof (cases ok)
  case False
  then show ?thesis using assms by (auto simp: resized_def small_def)
next
  case True
  then obtain as where r: "rebuilt (resize_capacity t) (t\<lparr>allocs := as\<rparr>) t'" using assms(2) by (auto simp: resized_def)
  then have "tsize t' = tsize t"
    using counts_okD(1) [OF assms(1)] counts_okD(1) [of t'] set_allocs(2) [OF assms(1)] by (simp add: rebuilt_def)
  moreover have "capacity t' = resize_capacity t" using r by (simp add: rebuilt_def same_config_def)
  ultimately show ?thesis using resize_capacity_small [of t 15] assms(3) by (simp add: small_def)
qed

lemma maybe_resize:
  assumes ins: "insertable t"
  shows "\<exists>ok t'. (if c then ht_bare_resize t (sz_mul (capacity t) 2) else Some (True, t)) = Some (ok, t') \<and> prepared t ok t'"
proof (cases c)
  case True
  obtain ok t' where r: "ht_bare_resize t (sz_mul (capacity t) 2) = Some (ok, t')" "resized t ok t'"
    using ht_bare_resize_ok [of t] ins by (auto simp: insertable_def)
  then show ?thesis
    using resized_keeps [OF ins r(2)] resized_small [of t ok t'] ins True by (simp add: prepared_def insertable_def)
next
  case False
  then show ?thesis using ins by (auto simp: prepared_def insertable_def)
qed

lemma bare_insert_main_ok:
  assumes ins: "insertable t" and v: "v \<noteq> VAL_NONE" and h: "\<not> hpd_hash hash < 2"
  shows "\<exists>ok t'. ht_bare_insert t hash v = Some (ok, t') \<and> bare_inv t' \<and>
    contents t' = (if ok then add_mset (hpd_hash hash, v) (contents t) else contents t) \<and> (allocs t = [] \<longrightarrow> ok) \<and>
    (small t \<longrightarrow> capacity t' \<le> 32768)"
proof -
  have h48: "hash AND HASH_MASK = hpd_hash hash" by (simp add: hpd_hash_def)
  have live: "hpd_live (hpd_hash hash)" using h by (simp add: hpd_live_def not_less)
  have cap: "\<not> SIZE_MAX div 2 < capacity t" using ins by (simp add: insertable_def SIZE_MAX_def)
  obtain ok1 t1 where r1: "(if \<not> resizing t \<and> over_load t then ht_bare_resize t (sz_mul (capacity t) 2) else Some (True, t)) = Some (ok1, t1)"
    "prepared t ok1 t1" using maybe_resize [OF ins] by blast
  let ?r2 = "if max_probe_dist t1 > 0 \<and> overflow_len t1 = HT_OVERFLOW_STASH_CAP
      then ht_bare_resize t1 (sz_mul (capacity t1) 2) else Some (True, t1)"
  have eq: "ht_bare_insert t hash v = (if \<not> ok1 then Some (False, t1) else Option.bind ?r2
      (\<lambda>r2. if \<not> fst r2 then Some (False, snd r2) else bare_rh_insert_bounded (snd r2) (hpd_hash hash) v))"
    using v h cap r1(1) unfolding ht_bare_insert_def h48 Let_def by (simp cong: if_cong)
  show ?thesis
  proof (cases ok1)
    case False
    then show ?thesis using eq r1(2) by (auto simp: prepared_def small_def)
  next
    case True
    then have ins1: "insertable t1" using r1(2) by (simp add: prepared_def)
    obtain ok2 t2 where r2: "?r2 = Some (ok2, t2)" "prepared t1 ok2 t2" using maybe_resize [OF ins1] by blast
    show ?thesis
    proof (cases ok2)
      case False
      then show ?thesis using True eq r1(2) r2 by (auto simp: prepared_def small_def)
    next
      case ok2: True
      then obtain t' where "bare_rh_insert_bounded t2 (hpd_hash hash) v = Some (True, t')" "inserted t2 (hpd_hash hash) v t'"
        using insertable_insert [of t2, OF _ live hpd_hash_idem v] r2(2) by (auto simp: prepared_def)
      then show ?thesis using True ok2 eq r1(2) r2 by (auto simp: inserted_def prepared_def small_def same_config_def)
    qed
  qed
qed

lemma bare_insert_spill_ok:
  assumes inv: "bare_inv t" and v: "v \<noteq> VAL_NONE" and h: "hpd_hash hash < 2"
  shows "\<exists>ok t'. ht_bare_insert t hash v = Some (ok, t') \<and> bare_inv t' \<and>
    contents t' = (if ok then add_mset (hpd_hash hash, v) (contents t) else contents t) \<and>
    (allocs t = [] \<and> spill_cap t < 2 ^ 59 \<longrightarrow> ok) \<and> capacity t' = capacity t"
proof -
  have h48: "hash AND HASH_MASK = hpd_hash hash" by (simp add: hpd_hash_def)
  have nl: "\<not> hpd_live (hpd_hash hash)" using h by (simp add: hpd_live_def not_le)
  obtain ok t' where r: "bare_spill_insert t (hpd_hash hash) v = (ok, t')" by fastforce
  have "ok" if "allocs t = []" "spill_cap t < 2 ^ 59"
  proof -
    have "fst (bare_spill_grow t)"
      using that by (auto simp: bare_spill_grow_def Let_def malloc_eq take_alloc_def sz_mul_small SPILL_INITIAL_def)
    then show ?thesis using r by (auto simp: bare_spill_insert_def split: prod.splits if_splits)
  qed
  then show ?thesis
    using v h r bare_spill_insert_ok [OF inv hpd_hash_idem nl v] by (auto simp: ht_bare_insert_def h48 same_main_def same_config_def)
qed


section \<open>Properties\<close>

text \<open>
  C2. Insertion. On a table that satisfies the invariant, whose live slots have no long run of
  tombstones in front of them and which has an unused slot, \<open>ht_bare_insert\<close> returns (no probe
  loop runs for ever), keeps the invariant, and either adds exactly the new entry or, when an
  allocation fails, reports failure and keeps the entries. The reserved value is refused.
\<close>

theorem ht_bare_insert_correct:
  assumes "insertable t"
  shows "\<exists>ok t'. ht_bare_insert t hash v = Some (ok, t') \<and> bare_inv t' \<and>
    contents t' = (if ok then add_mset (hpd_hash hash, v) (contents t) else contents t) \<and>
    (v = VAL_NONE \<longrightarrow> \<not> ok \<and> t' = t) \<and>
    (v \<noteq> VAL_NONE \<and> allocs t = [] \<and> spill_cap t < 2 ^ 59 \<longrightarrow> ok)"
proof (cases "v = VAL_NONE")
  case True
  then show ?thesis using assms by (auto simp: ht_bare_insert_def insertable_def)
next
  case False
  have inv: "bare_inv t" using assms by (simp add: insertable_def)
  show ?thesis
  proof (cases "hpd_hash hash < 2")
    case True
    then show ?thesis using bare_insert_spill_ok [OF inv False True] False by auto
  next
    case h: False
    then show ?thesis using bare_insert_main_ok [OF assms False h] False by auto
  qed
qed

lemma ex_table_insertable: "insertable ex_table"
proof -
  have "capacity ex_table = 8" "\<not> overflow_violated ex_table" "\<not> resizing ex_table" "tsize ex_table = 5"
    by (simp_all add: ex_table_def)
  then show ?thesis
    using ex_table_inv ex_table_gap ex_table_empty by (simp add: insertable_def tomb_safe_def)
qed

theorem ht_bare_insert_correct_witness:
  "insertable ex_table \<and>
    (\<exists>ok t'. ht_bare_insert ex_table 42 7 = Some (ok, t') \<and> bare_inv t' \<and>
      contents t' = (if ok then add_mset (hpd_hash 42, 7) (contents ex_table) else contents ex_table) \<and> ok)"
proof -
  have "(7::u32) \<noteq> VAL_NONE" "allocs ex_table = []" "spill_cap ex_table < 2 ^ 59"
    by (simp_all add: ex_table_def VAL_NONE_def)
  then show ?thesis
    using ht_bare_insert_correct [OF ex_table_insertable, of 42 7] ex_table_insertable by auto
qed

text \<open>
  The capacities with room for twice the entries: powers of two, at least four.
\<close>

definition roomy_capacity :: "ht_bare \<Rightarrow> nat \<Rightarrow> bool" where
  "roomy_capacity t n \<longleftrightarrow> (\<exists>k. n = 2 ^ k) \<and> 4 \<le> n \<and> 2 * tsize t \<le> n"

lemma resize_capacity_least:
  assumes "2 * tsize t \<le> 65536"
  shows "roomy_capacity t (resize_capacity t)" "roomy_capacity t n \<Longrightarrow> resize_capacity t \<le> n"
proof -
  note c = resize_capacity_ok [OF assms]
  show "roomy_capacity t (resize_capacity t)" using c pow2_cap_ge4 [OF c(1)] pow2_capD [OF c(1)] by (auto simp: roomy_capacity_def)
  assume n: "roomy_capacity t n"
  then obtain j where j: "n = 2 ^ j" by (auto simp: roomy_capacity_def)
  have sz: "sz_mul (tsize t) 2 = 2 * tsize t" using assms by (simp add: sz_mul_small)
  show "resize_capacity t \<le> n"
  proof (cases "tsize t = 0")
    case True
    then show ?thesis using n sz by (simp add: roomy_capacity_def resize_capacity_def Let_def next_pow2_sz_def next_pow2_def)
  next
    case False
    then have "next_pow2_sz (2 * tsize t) \<le> n" using next_pow2_sz_least [of "2 * tsize t" j] assms n j by (simp add: roomy_capacity_def)
    then show ?thesis using n sz by (simp add: roomy_capacity_def resize_capacity_def Let_def)
  qed
qed

text \<open>
  C4. Resizing moves every entry: a resize always returns. It refuses, with the table unchanged,
  exactly when the requested capacity is below the number of live slots of the main array;
  otherwise it succeeds unless an allocation fails. When it succeeds, every entry of the main
  array, the spill lane and the stash is in the new arrays, some slot is unused, and the new
  capacity is the least power of two (at least 4) that holds twice the entries, whatever
  capacity was requested. When an allocation fails the slots and the entries are as they were.
  The table is not already resizing and holds at most 32768 entries.
\<close>

theorem ht_bare_resize_correct:
  assumes "bare_inv t" "\<not> resizing t" "2 * tsize t \<le> 65536"
  shows "\<exists>ok t'. ht_bare_resize t new_capacity = Some (ok, t') \<and> bare_inv t' \<and> contents t' = contents t \<and>
    (if new_capacity < length (filter hpd_live (hash_pd t)) then \<not> ok \<and> t' = t else allocs t = [] \<longrightarrow> ok) \<and>
    (if ok then has_empty t' \<and> roomy_capacity t (capacity t') \<and> (\<forall>n. roomy_capacity t n \<longrightarrow> capacity t' \<le> n)
     else hash_pd t' = hash_pd t)"
proof -
  obtain ok t' where r: "bare_resize_table t = Some (ok, t')" "resized t ok t'"
    using bare_resize_table_ok [OF assms] by blast
  note least = resize_capacity_least [OF assms(3)]
  have "bare_inv t' \<and> contents t' = contents t \<and> (allocs t = [] \<longrightarrow> ok) \<and>
      (if ok then has_empty t' \<and> roomy_capacity t (capacity t') \<and> (\<forall>n. roomy_capacity t n \<longrightarrow> capacity t' \<le> n)
       else hash_pd t' = hash_pd t)"
  proof (cases ok)
    case True
    then have "insertable t'" "contents t' = contents t" using r(2) resized_insertable [OF assms, of t'] by simp_all
    moreover have "capacity t' = resize_capacity t"
      using r(2) True by (auto simp: resized_def rebuilt_def same_config_def)
    ultimately show ?thesis using True least by (simp add: insertable_def)
  next
    case False
    then show ?thesis using r(2) set_allocs [OF assms(1)] by (auto simp: resized_def)
  qed
  note k = this
  show ?thesis
  proof (cases "new_capacity < length (filter hpd_live (hash_pd t))")
    case True
    then have "ht_bare_resize t new_capacity = Some (False, t)" using main_live_eq [OF assms(1)] by (simp add: ht_bare_resize_def)
    then show ?thesis using True assms(1) by (intro exI [of _ False] exI [of _ t]) simp
  next
    case False
    then have "ht_bare_resize t new_capacity = Some (ok, t')" using main_live_eq [OF assms(1)] r(1) by (simp add: ht_bare_resize_def)
    then show ?thesis using False k by (intro exI [of _ ok] exI [of _ t']) simp
  qed
qed

theorem ht_bare_resize_correct_witness:
  "bare_inv ex_table \<and> \<not> resizing ex_table \<and> 2 * tsize ex_table \<le> 65536 \<and> tsize ex_table = 5 \<and>
    (\<exists>t'. ht_bare_resize ex_table 16 = Some (True, t') \<and> bare_inv t' \<and> contents t' = contents ex_table \<and>
      has_empty t' \<and> capacity t' = 16) \<and>
    ht_bare_resize ex_table 0 = Some (False, ex_table)"
proof -
  have h: "bare_inv ex_table" "\<not> resizing ex_table" "2 * tsize ex_table \<le> 65536"
    using ex_table_insertable unfolding insertable_def by blast+
  have z: "tsize ex_table = 5" "allocs ex_table = []" by (simp_all add: ex_table_def)
  have live: "0 < length (filter hpd_live (hash_pd ex_table))" "\<not> 16 < length (filter hpd_live (hash_pd ex_table))"
    unfolding main_live_eq [OF h(1), symmetric] by (simp_all add: main_live_def sz_sub_def ex_table_def)
  have up: "roomy_capacity ex_table 16" unfolding roomy_capacity_def z by (intro conjI exI [of _ 4]) simp_all
  have lo: "n = 16" if n: "roomy_capacity ex_table n" "n \<le> 16" for n
  proof -
    obtain k where k: "n = 2 ^ k" "10 \<le> n" using n(1) by (auto simp: roomy_capacity_def z)
    have "3 < k" using power_increasing [of k 3 "2::nat"] k by (cases "k \<le> 3") simp_all
    moreover have "k < 5" using power_increasing [of 5 k "2::nat"] k n(2) by (cases "5 \<le> k") simp_all
    ultimately have "3 < k" "k \<le> 4" by simp_all
    then have "k = 4" by simp
    then show ?thesis using k(1) by simp
  qed
  obtain ok t' where r: "ht_bare_resize ex_table 16 = Some (ok, t')" "bare_inv t'" "contents t' = contents ex_table" "ok"
      "has_empty t'" "roomy_capacity ex_table (capacity t')" "\<forall>n. roomy_capacity ex_table n \<longrightarrow> capacity t' \<le> n"
    using ht_bare_resize_correct [OF h, of 16] live(2) z(2) by auto
  then have "capacity t' = 16" using up lo by blast
  moreover have "ht_bare_resize ex_table 0 = Some (False, ex_table)" using ht_bare_resize_correct [OF h, of 0] live(1) by auto
  ultimately show ?thesis using h z(1) r by auto
qed

text \<open>
  Compaction keeps the entries: when the main and stash entries fit into the array,
  \<open>ht_bare_compact\<close> returns, keeps the invariant and every entry, and (unless an allocation
  fails) leaves at most a quarter of the slots as tombstones, none on a probe path.
\<close>

lemma ht_bare_compact_correct:
  assumes "bare_inv t" "capacity t \<le> 65536" "tsize t - spill_len t \<le> capacity t"
  shows "\<exists>t'. ht_bare_compact t = Some t' \<and> bare_inv t' \<and> contents t' = contents t \<and> capacity t' = capacity t \<and>
    (allocs t = [] \<longrightarrow> tombs t' \<le> capacity t div 4 \<and> paths_tomb_free (hash_pd t') \<and> gap_ok t')"
proof -
  have n: "pow2_cap (capacity t)" using assms(1) by (simp add: bare_invD shape_okD)
  define a1 where "a1 = take_alloc (allocs t)"
  define a2 where "a2 = take_alloc (snd a1)"
  let ?t2 = "t\<lparr>allocs := snd a2\<rparr>"
  note k = set_allocs [OF assms(1)]
  have "size (contents ?t2) - spill_len ?t2 \<le> capacity t" using assms(3) k(2) counts_okD(1) [OF assms(1)] by simp
  then obtain t3 where t3: "bare_rebuild bare_resize_table ?t2 (capacity t) (new_spill_capacity ?t2) = Some t3"
    "rebuilt (capacity t) ?t2 t3"
    using bare_rebuild_ok [OF k(1) n assms(2)] by blast
  have sp: "new_spill_capacity ?t2 = new_spill_capacity t" by (simp add: new_spill_capacity_def)
  have "ht_bare_compact t = (if \<not> fst a1 then Some (t\<lparr>allocs := snd a1\<rparr>)
      else if \<not> fst a2 then Some ?t2 else Some t3)"
    using block_size_ok [OF n] t3(1) sp
    by (simp add: ht_bare_compact_def bare_alloc_main_block_def malloc_eq a1_def a2_def)
  moreover have "allocs t = [] \<longrightarrow> fst a1 \<and> fst a2" by (simp add: a1_def a2_def take_alloc_def)
  ultimately show ?thesis using t3(2) k by (auto simp: rebuilt_def same_config_def)
qed

lemma ht_bare_compact_correct_witness:
  "bare_inv ex_table \<and> capacity ex_table \<le> 65536 \<and> tsize ex_table - spill_len ex_table \<le> capacity ex_table \<and>
    (\<exists>t'. ht_bare_compact ex_table = Some t' \<and> bare_inv t' \<and> contents t' = contents ex_table \<and>
      capacity t' = capacity ex_table \<and>
      (allocs ex_table = [] \<longrightarrow> tombs t' \<le> capacity ex_table div 4 \<and> paths_tomb_free (hash_pd t') \<and> gap_ok t'))"
proof -
  have "capacity ex_table \<le> 65536" "tsize ex_table - spill_len ex_table \<le> capacity ex_table"
    by (simp_all add: ex_table_def)
  then show ?thesis using ht_bare_compact_correct [OF ex_table_inv] ex_table_inv by blast
qed

end
