(* ===== verification/Ht_Check.thy ===== *)
theory Ht_Check
  imports Ht_Rebuild
begin

text \<open>
  Creation, clearing, iteration and the self check of the bare table. The iterator delivers an
  enumeration of the contents, and \<open>ht_bare_check_invariants\<close> accepts exactly the tables that
  satisfy the reachability invariant and the counters.
\<close>

section \<open>Iteration\<close>

text \<open>The entries an iterator at position \<open>i\<close> has still to deliver.\<close>

definition rest_entries :: "ht_bare \<Rightarrow> nat \<Rightarrow> entry list" where
  "rest_entries t i =
     map (\<lambda>k. (hpd_hash (hash_pd t ! k), vals t ! k)) (filter (\<lambda>k. hpd_live (hash_pd t ! k)) [i..<capacity t]) @
     drop (i - capacity t) (spill_entries t) @ drop (i - capacity t - spill_len t) (overflow_entries t)"

text \<open>Everything an iterator delivers in at most \<open>n\<close> calls.\<close>

fun iter_run :: "nat \<Rightarrow> ht_bare \<Rightarrow> ht_iter \<Rightarrow> entry list" where
  "iter_run 0 t it = []"
| "iter_run (Suc n) t it =
     (case ht_bare_iter_next t it of (None, it') \<Rightarrow> [] | (Some e, it') \<Rightarrow> e # iter_run n t it')"

lemma mset_rest_entries: "shape_ok t \<Longrightarrow> mset (rest_entries t 0) = contents t"
  by (simp add: rest_entries_def contents_def main_mset_slots shape_okD del: mset_map mset_filter)

lemma find_from:
  "find P [a..<n] = None \<longleftrightarrow> filter P [a..<n] = []"
  "find P [a..<n] = Some i \<Longrightarrow> filter P [a..<n] = i # filter P [Suc i..<n] \<and> a \<le> i \<and> i < n"
proof -
  show "find P [a..<n] = None \<longleftrightarrow> filter P [a..<n] = []"
    by (auto simp: find_None_iff filter_empty_conv)
  show "filter P [a..<n] = i # filter P [Suc i..<n] \<and> a \<le> i \<and> i < n" if f: "find P [a..<n] = Some i"
  proof -
    from f have i: "a \<le> i" "i < n" "P i" "\<forall>j. a \<le> j \<and> j < i \<longrightarrow> \<not> P j"
      by (auto simp: find_Some_iff) (metis add.commute le_Suc_ex less_diff_conv nat_add_left_cancel_less)
    then have "[a..<n] = [a..<i] @ i # [Suc i..<n]"
      by (metis le_add_diff_inverse less_or_eq_imp_le upt_add_eq_append upt_conv_Cons)
    moreover have "filter P [a..<i] = []" using i(4) by (auto simp: filter_empty_conv)
    ultimately show ?thesis using i by simp
  qed
qed

lemma find_cong_set: "(\<And>x. x \<in> set xs \<Longrightarrow> P x = Q x) \<Longrightarrow> find P xs = find Q xs"
  by (induction xs) auto

lemma find_all_true: "(\<And>i. a \<le> i \<Longrightarrow> i < n \<Longrightarrow> P i) \<Longrightarrow> find P [a..<n] = (if a < n then Some a else None)"
  by (cases "a < n") (auto simp: upt_conv_Cons)

lemma iter_next_ok:
  assumes inv: "bare_inv t" and i: "iter_idx it \<le> capacity t + spill_len t + overflow_len t"
  shows "case ht_bare_iter_next t it of
      (None, it') \<Rightarrow> rest_entries t (iter_idx it) = []
    | (Some e, it') \<Rightarrow> rest_entries t (iter_idx it) = e # rest_entries t (iter_idx it') \<and>
        iter_idx it' \<le> capacity t + spill_len t + overflow_len t"
proof -
  have s: "shape_ok t" and v: "values_ok t" using inv by (simp_all add: bare_invD)
  let ?i = "iter_idx it" and ?n = "capacity t" and ?P = "\<lambda>k. hpd_live (hash_pd t ! k)"
  have len: "length (spill_entries t) = spill_len t" "length (overflow_entries t) = overflow_len t"
    using s by (simp_all add: spill_entries_def overflow_entries_def shape_okD)
  have sp: "spill_vals t ! k \<noteq> VAL_NONE \<and> spill_entries t ! k = (hpd_hash (spill_hash_pd t ! k), spill_vals t ! k)"
    if "k < spill_len t" for k
    using v s that len nth_mem [of k "spill_entries t"]
    by (auto simp: values_ok_def spill_entries_def nth_side_entries shape_okD)
  have ov: "overflow_vals t ! k \<noteq> VAL_NONE \<and> overflow_entries t ! k = (hpd_hash (overflow_hash_pd t ! k), overflow_vals t ! k)"
    if "k < overflow_len t" for k
    using v s that len nth_mem [of k "overflow_entries t"]
    by (auto simp: values_ok_def overflow_entries_def nth_side_entries shape_okD)
  have small: "?n + spill_len t + overflow_len t < 2 ^ 64"
    using pow2_cap_bound [of ?n] shape_okD(1,6,7,10) [OF s] by (simp add: HT_OVERFLOW_STASH_CAP_def)
  have main: "find (\<lambda>k. hpd_live (hash_pd t ! k) \<and> vals t ! k \<noteq> VAL_NONE) [?i..<?n] = find ?P [?i..<?n]"
    using v by (intro find_cong_set) (auto simp: values_ok_def)
  have fs: "find (\<lambda>k. spill_vals t ! k \<noteq> VAL_NONE) [a..<spill_len t] = (if a < spill_len t then Some a else None)" for a
    using sp by (intro find_all_true) auto
  have fo: "find (\<lambda>k. overflow_vals t ! k \<noteq> VAL_NONE) [a..<overflow_len t] = (if a < overflow_len t then Some a else None)" for a
    using ov by (intro find_all_true) auto
  have ds: "drop a (spill_entries t) = (hpd_hash (spill_hash_pd t ! a), spill_vals t ! a) # drop (Suc a) (spill_entries t)"
    if "a < spill_len t" for a using that len sp by (simp add: Cons_nth_drop_Suc [symmetric])
  have dov: "drop a (overflow_entries t) = (hpd_hash (overflow_hash_pd t ! a), overflow_vals t ! a) # drop (Suc a) (overflow_entries t)"
    if "a < overflow_len t" for a using that len ov by (simp add: Cons_nth_drop_Suc [symmetric])
  show ?thesis
  proof (cases "find ?P [?i..<?n]")
    case (Some k)
    then show ?thesis
      using find_from(2) [OF Some] main by (simp add: ht_bare_iter_next_def rest_entries_def)
  next
    case None
    let ?it = "if ?i < ?n then it\<lparr>iter_idx := ?n\<rparr> else it"
    have r: "rest_entries t ?i = rest_entries t (iter_idx ?it)"
      using None find_from(1) [of ?P ?i ?n] by (auto simp: rest_entries_def)
    have j: "?n \<le> iter_idx ?it" "iter_idx ?it \<le> ?n + spill_len t + overflow_len t" using i by auto
    have eq: "ht_bare_iter_next t it = iter_spill t ?it" using None main by (simp add: ht_bare_iter_next_def)
    have sub: "sz_sub (iter_idx ?it) (?n + spill_len t) = iter_idx ?it - (?n + spill_len t)"
      if "?n + spill_len t \<le> iter_idx ?it" using that j small by (intro sz_sub_small) auto
    show ?thesis
    proof (cases "iter_idx ?it < ?n + spill_len t")
      case True
      then have "iter_idx ?it - ?n < spill_len t" using j by linarith
      then show ?thesis
        unfolding eq r using True j(1) ds [of "iter_idx ?it - ?n"]
        by (simp add: iter_spill_def fs rest_entries_def Suc_diff_le)
    next
      case False
      then show ?thesis
        unfolding eq r using j sub dov [of "iter_idx ?it - (?n + spill_len t)"] len
        by (auto simp: iter_spill_def iter_overflow_def fo rest_entries_def Let_def Suc_diff_le)
    qed
  qed
qed


lemma iter_run_ok:
  assumes inv: "bare_inv t"
  shows "iter_idx it \<le> capacity t + spill_len t + overflow_len t \<Longrightarrow> length (rest_entries t (iter_idx it)) \<le> n \<Longrightarrow>
    iter_run n t it = rest_entries t (iter_idx it)"
proof (induction n arbitrary: it)
  case (Suc n)
  then show ?case using iter_next_ok [OF inv Suc.prems(1)] by (auto split: prod.splits option.splits)
qed simp

section \<open>The self check\<close>

lemma dist_iff:
  assumes "i < n" "home n w < n" "pd w < n"
  shows "pd w = (if i \<ge> home n w then i - home n w else n - home n w + i) \<longleftrightarrow> (home n w + pd w) mod n = i"
proof
  assume e: "pd w = (if i \<ge> home n w then i - home n w else n - home n w + i)"
  have "home n w + (n - home n w + i) = i + n" using assms(2) by simp
  then show "(home n w + pd w) mod n = i" using assms(1) e by (cases "i \<ge> home n w") simp_all
next
  assume e: "(home n w + pd w) mod n = i"
  show "pd w = (if i \<ge> home n w then i - home n w else n - home n w + i)"
  proof (cases "home n w + pd w < n")
    case True
    then have "i = home n w + pd w" using e by simp
    then show ?thesis by simp
  next
    case False
    then have "i = home n w + pd w - n" using e assms(2,3) le_mod_geq [of n "home n w + pd w"] by simp
    moreover from this have "\<not> home n w \<le> i" using False assms(3) by linarith
    ultimately have "pd w = n - home n w + i" using False assms(2) by linarith
    then show ?thesis using \<open>\<not> home n w \<le> i\<close> by simp
  qed
qed

lemma check_dists_iff:
  assumes s: "shape_ok t"
  shows "set xs \<subseteq> {..<capacity t} \<Longrightarrow> check_dists t xs = None \<longleftrightarrow>
    (\<forall>i \<in> set xs. hpd_live (hash_pd t ! i) \<longrightarrow>
      pd (hash_pd t ! i) < capacity t \<and> (home (capacity t) (hash_pd t ! i) + pd (hash_pd t ! i)) mod capacity t = i)"
proof (induction xs)
  case (Cons i xs)
  let ?w = "hash_pd t ! i" and ?n = "capacity t"
  have i: "i < ?n" "home ?n ?w < ?n" using Cons.prems s by (auto simp: shape_okD)
  have w: "wrap ?n (unat (hpd_hash ?w)) = home ?n ?w" using s by (simp add: wrap_cap home_def)
  let ?e = "if i \<ge> home ?n ?w then i - home ?n ?w else ?n - home ?n ?w + i"
  have "pd ?w = ?e \<longleftrightarrow>
      pd ?w < ?n \<and> (home ?n ?w + pd ?w) mod ?n = i"
    using dist_iff [OF i] i by (cases "pd ?w < ?n") (auto split: if_splits)
  moreover have "check_dists t (i # xs) =
      (if hpd_live ?w \<and> pd ?w \<noteq> ?e then Some (WrongProbeDist i (pd ?w) ?e) else check_dists t xs)"
    using w by (simp add: Let_def)
  ultimately show ?case using Cons by (auto simp del: check_dists.simps)
qed simp

lemma reach_loop_iff:
  assumes s: "shape_ok t" and i: "i < capacity t" and live: "hpd_live (hash_pd t ! i)"
    and d: "pd (hash_pd t ! i) < capacity t" "(home (capacity t) (hash_pd t ! i) + pd (hash_pd t ! i)) mod capacity t = i"
  shows "j \<le> pd (hash_pd t ! i) \<Longrightarrow> pd (hash_pd t ! i) - j < steps \<Longrightarrow>
    reach_loop t i (home (capacity t) (hash_pd t ! i)) steps j = None \<longleftrightarrow>
    (\<forall>k. j \<le> k \<and> k < pd (hash_pd t ! i) \<longrightarrow> passable (hash_pd t) ((home (capacity t) (hash_pd t ! i) + k) mod capacity t) k)"
proof (induction steps arbitrary: j)
  case (Suc steps)
  let ?w = "hash_pd t ! i" and ?n = "capacity t"
  let ?q = "(home ?n ?w + j) mod ?n"
  have w: "wrap ?n (home ?n ?w + j) = ?q" using s by (simp add: wrap_cap)
  show ?case
  proof (cases "j = pd ?w")
    case True
    then have "reach_loop t i (home ?n ?w) (Suc steps) j = None" using d(2) w by (simp add: Let_def)
    then show ?thesis using True by auto
  next
    case False
    then have lt: "j < pd ?w" using Suc.prems by simp
    then have ne: "?q \<noteq> i" using d mod_add_cancel [of j ?n "pd ?w" "home ?n ?w"] by auto
    have inc: "inc16 j = Suc j" using lt pd_less [of ?w] by (intro inc16_small [simplified]) linarith
    have IH: "reach_loop t i (home ?n ?w) steps (Suc j) = None \<longleftrightarrow>
        (\<forall>k. Suc j \<le> k \<and> k < pd ?w \<longrightarrow> passable (hash_pd t) ((home ?n ?w + k) mod ?n) k)"
      using lt Suc.prems by (intro Suc.IH) auto
    have "(\<forall>k. j \<le> k \<and> k < pd ?w \<longrightarrow> passable (hash_pd t) ((home ?n ?w + k) mod ?n) k) \<longleftrightarrow>
        passable (hash_pd t) ?q j \<and> (\<forall>k. Suc j \<le> k \<and> k < pd ?w \<longrightarrow> passable (hash_pd t) ((home ?n ?w + k) mod ?n) k)"
      using lt by (metis Suc_leD Suc_leI le_eq_less_or_eq)
    then show ?thesis
      using IH w ne inc not_live_iff [of "hash_pd t ! ?q"] by (auto simp: Let_def passable_def)
  qed
qed simp

lemma check_reach_iff:
  assumes s: "shape_ok t"
    and d: "\<forall>i < capacity t. hpd_live (hash_pd t ! i) \<longrightarrow>
      pd (hash_pd t ! i) < capacity t \<and> (home (capacity t) (hash_pd t ! i) + pd (hash_pd t ! i)) mod capacity t = i"
  shows "set xs \<subseteq> {..<capacity t} \<Longrightarrow> check_reach t xs = None \<longleftrightarrow>
    (\<forall>i \<in> set xs. hpd_live (hash_pd t ! i) \<longrightarrow> entry_ok (hash_pd t) i)"
proof (induction xs)
  case (Cons i xs)
  let ?w = "hash_pd t ! i" and ?n = "capacity t"
  have w: "wrap ?n (unat (hpd_hash ?w)) = home ?n ?w" using s by (simp add: wrap_cap home_def)
  have "reach_loop t i (home ?n ?w) (?n + 1) 0 = None \<longleftrightarrow> entry_ok (hash_pd t) i" if "hpd_live ?w"
    using reach_loop_iff [OF s _ that, of 0 "?n + 1"] d Cons.prems that s
    by (auto simp: entry_ok_def path_clear_def Let_def shape_okD simp del: reach_loop.simps)
  then show ?case using Cons w by (auto simp: Let_def simp del: reach_loop.simps split: option.split)
qed simp

lemma live_tomb_nth:
  assumes "length xs = n"
  shows "length (filter P (map (\<lambda>i. xs ! i) [0..<n])) = length (filter P xs)"
  using assms map_nth [of xs] by simp

lemma check_invariants_iff:
  assumes s: "shape_ok t" and v: "values_ok t"
  shows "ht_bare_check_invariants t = None \<longleftrightarrow> probe_inv (hash_pd t) \<and> counts_ok t"
proof -
  let ?n = "capacity t"
  let ?d = "\<forall>i < ?n. hpd_live (hash_pd t ! i) \<longrightarrow>
      pd (hash_pd t ! i) < ?n \<and> (home ?n (hash_pd t ! i) + pd (hash_pd t ! i)) mod ?n = i"
  have len: "length (hash_pd t) = ?n" using s by (simp add: shape_okD)
  have sp: "filter (\<lambda>i. spill_vals t ! i \<noteq> VAL_NONE) [0..<spill_len t] = [0..<spill_len t]"
    using v spill_iff [OF s] by (fastforce simp: filter_id_conv values_ok_def)
  have sub: "set [0..<?n] \<subseteq> {..<?n}" by auto
  have dd: "check_dists t [0..<?n] = None \<longleftrightarrow> ?d" using check_dists_iff [OF s sub] by (simp add: Ball_def)
  have rr: "?d \<Longrightarrow> check_reach t [0..<?n] = None \<longleftrightarrow> probe_inv (hash_pd t)"
    using check_reach_iff [OF s _ sub] len by (simp add: probe_inv_def Ball_def)
  have pd: "probe_inv (hash_pd t) \<Longrightarrow> ?d" using len by (auto simp: probe_inv_def entry_ok_def Let_def)
  have cnt: "counts_ok t \<longleftrightarrow> tsize t = length (filter hpd_live (hash_pd t)) + spill_len t + overflow_len t \<and> tombstone_cnt t = tombs t"
    by (simp add: counts_ok_def size_contents [OF s])
  let ?live = "length (filter hpd_live (hash_pd t))"
  have eq: "ht_bare_check_invariants t = (case check_dists t [0..<?n] of Some e \<Rightarrow> Some e
      | None \<Rightarrow> if tsize t \<noteq> ?live + spill_len t + overflow_len t then Some (WrongSize (tsize t) (?live + spill_len t + overflow_len t))
        else if tombstone_cnt t \<noteq> tombs t then Some (WrongTombstones (tombstone_cnt t) (tombs t))
        else check_reach t [0..<?n])"
    using shape_okD(10) [OF s]
    unfolding ht_bare_check_invariants_def Let_def live_tomb_nth [OF len] tombs_def sp length_upt diff_zero by simp
  show ?thesis
  proof (cases ?d)
    case True
    then have "check_dists t [0..<?n] = None" using dd by blast
    then show ?thesis using eq rr [OF True] cnt by simp
  next
    case False
    then have "check_dists t [0..<?n] \<noteq> None" "\<not> probe_inv (hash_pd t)" using dd pd by blast+
    then show ?thesis using eq by (auto split: option.split)
  qed
qed


section \<open>Creation and clearing\<close>

lemma next_pow2_sz_pow2:
  assumes "4 \<le> x" "x < 2 ^ 64" "bare_main_block_size (next_pow2_sz x) \<noteq> 0"
  shows "pow2_cap (next_pow2_sz x)" "x \<le> next_pow2_sz x"
proof -
  have u: "unat (word_of_nat x :: u64) = x" using assms(2) by (simp add: unsigned_of_nat take_bit_nat_eq_self)
  have small: "next_pow2_sz x * 12 < 2 ^ 64"
    using assms(3) by (simp add: bare_main_block_size_def SIZE_MAX_def split: if_splits)
  have "word_of_nat x \<le> (push_bit 63 1 :: u64)"
  proof (rule ccontr)
    assume big: "\<not> word_of_nat x \<le> (push_bit 63 1 :: u64)"
    then have nz: "(word_of_nat x :: u64) \<noteq> 0" "\<not> word_of_nat x \<le> (2 :: u64)"
      using u assms(1) by (auto simp: word_le_nat_alt)
    moreover have "(push_bit 63 1 :: u64) \<le> word_of_nat x" using big by (simp add: not_le less_imp_le)
    ultimately have "next_pow2_sz x = x" using big u by (simp add: next_pow2_sz_def next_pow2_def)
    moreover have "2 ^ 63 < x" using big u by (simp add: word_le_nat_alt)
    ultimately show False using small by simp
  qed
  moreover have "0 < (word_of_nat x :: u64)" using u assms(1) by (auto simp: word_less_nat_alt)
  ultimately obtain k where k: "next_pow2_sz x = 2 ^ k" "x \<le> 2 ^ k"
    using next_pow2_is_least [of "word_of_nat x"] u by (auto simp: next_pow2_sz_def)
  have "2 \<le> k"
  proof (rule ccontr)
    assume "\<not> 2 \<le> k"
    then have "(2::nat) ^ k \<le> 2 ^ 1" by (intro power_increasing) auto
    with k(2) assms(1) show False by simp
  qed
  moreover have "k < 61"
  proof (rule ccontr)
    assume "\<not> k < 61"
    then have "(2::nat) ^ 61 \<le> 2 ^ k" by (intro power_increasing) auto
    with k(1) small show False by simp
  qed
  ultimately show "pow2_cap (next_pow2_sz x)" "x \<le> next_pow2_sz x" using k pow2_capI by simp_all
qed

text \<open>A table with nothing in it.\<close>

lemma empty_table_inv:
  assumes "pow2_cap n" "hash_pd t = replicate n 0" "length (vals t) = n" "capacity t = n"
    and "tsize t = 0" "tombstone_cnt t = 0" "spill_len t = 0" "overflow_len t = 0"
    and "length (spill_hash_pd t) = spill_cap t" "length (spill_vals t) = spill_cap t" "spill_cap t * 12 < 2 ^ 64"
    and "length (overflow_hash_pd t) = HT_OVERFLOW_STASH_CAP" "length (overflow_vals t) = HT_OVERFLOW_STASH_CAP"
  shows "bare_inv t" "contents t = {#}" "gap_ok t" "has_empty t" "tombs t = 0"
proof -
  have e: "spill_entries t = []" "overflow_entries t = []"
    using assms by (simp_all add: spill_entries_def overflow_entries_def side_entries_def)
  show c: "contents t = {#}" using e assms by (simp add: contents_def main_mset_slots)
  show t0: "tombs t = 0" using assms by (simp add: tombs_def)
  show "gap_ok t" using assms by (simp add: gap_ok_def gap_inv_def)
  show "has_empty t" using assms pow2_cap_ge4 [of n] by (simp add: has_empty_def list_ex_iff)
  have "shape_ok t" "probe_inv (hash_pd t)" "values_ok t" "bounded_ok t"
    using assms e by (simp_all add: shape_ok_def probe_inv_def values_ok_def bounded_ok_def)
  then show "bare_inv t" using c t0 assms by (simp add: bare_inv_def counts_ok_def)
qed

lemma create_ok:
  assumes "ht_bare_create cfg as = Some t" "\<forall>c. cfg = Some c \<longrightarrow> initial_capacity c < 2 ^ 64"
  shows "bare_inv t \<and> contents t = {#} \<and> gap_ok t \<and> has_empty t \<and> \<not> overflow_violated t \<and> \<not> resizing t \<and> tsize t = 0"
proof -
  define c where "c = (case cfg of None \<Rightarrow> default_cfg | Some c \<Rightarrow> c)"
  define x where "x = (if initial_capacity c < 4 then 4 else initial_capacity c)"
  have "initial_capacity c < 2 ^ 64" using assms(2) by (auto simp: c_def default_cfg_def split: option.split)
  then have x: "4 \<le> x" "x < 2 ^ 64" by (auto simp: x_def)
  note cr = assms(1) [unfolded ht_bare_create_def Let_def, folded c_def, folded x_def]
  have b: "bare_main_block_size (next_pow2_sz x) \<noteq> 0" using cr by (auto split: prod.splits if_splits)
  note p = next_pow2_sz_pow2(1) [OF x b]
  have f: "hash_pd t = replicate (next_pow2_sz x) 0" "length (vals t) = next_pow2_sz x" "capacity t = next_pow2_sz x"
    "tsize t = 0" "tombstone_cnt t = 0" "spill_len t = 0" "overflow_len t = 0"
    "length (spill_hash_pd t) = spill_cap t" "length (spill_vals t) = spill_cap t" "spill_cap t * 12 < 2 ^ 64"
    "length (overflow_hash_pd t) = HT_OVERFLOW_STASH_CAP" "length (overflow_vals t) = HT_OVERFLOW_STASH_CAP"
    "\<not> overflow_violated t" "\<not> resizing t"
    using cr b by (auto simp: SPILL_INITIAL_def split: prod.splits if_splits)
  show ?thesis using empty_table_inv [OF p f(1-12)] f(4,13,14) by simp
qed

lemma clear_ok:
  assumes "bare_inv t"
  shows "bare_inv (ht_bare_clear t)" "contents (ht_bare_clear t) = {#}" "gap_ok (ht_bare_clear t)"
    and "has_empty (ht_bare_clear t)" "same_config t (ht_bare_clear t)" "tsize (ht_bare_clear t) = 0"
    and "\<not> overflow_violated (ht_bare_clear t)"
proof -
  have s: "shape_ok t" using assms by (simp add: bare_invD)
  note e = empty_table_inv [of "capacity t" "ht_bare_clear t"]
  show "bare_inv (ht_bare_clear t)" "contents (ht_bare_clear t) = {#}" "gap_ok (ht_bare_clear t)" "has_empty (ht_bare_clear t)"
    using e s shape_okD(7) [OF s] by (simp_all add: ht_bare_clear_def shape_okD)
qed (simp_all add: ht_bare_clear_def same_config_def)


section \<open>Properties\<close>

text \<open>
  C5. The self check is exact: on a table whose arrays have the right shape and whose stored
  values are proper, \<open>ht_bare_check_invariants\<close> reports no error exactly when every live slot is
  reachable from its home slot at its recorded distance and both counters are right.
\<close>

theorem ht_bare_check_invariants_exact:
  assumes "shape_ok t" "values_ok t"
  shows "ht_bare_check_invariants t = None \<longleftrightarrow> probe_inv (hash_pd t) \<and> counts_ok t"
  using assms by (rule check_invariants_iff)

theorem ht_bare_check_invariants_exact_witness:
  "shape_ok ex_table \<and> values_ok ex_table \<and>
    (ht_bare_check_invariants ex_table = None \<longleftrightarrow> probe_inv (hash_pd ex_table) \<and> counts_ok ex_table)"
  using ht_bare_check_invariants_exact [OF ex_table_shape ex_table_values] ex_table_shape ex_table_values by blast

text \<open>
  Iteration. From \<open>ht_bare_iter_begin\<close>, repeated calls of \<open>ht_bare_iter_next\<close> deliver every
  entry of the main array, the spill lane and the stash once, and then report the end.
\<close>

lemma ht_bare_iter_complete:
  assumes "bare_inv t" "tsize t \<le> n"
  shows "mset (iter_run n t (ht_bare_iter_begin t)) = contents t"
proof -
  have s: "shape_ok t" using assms(1) by (simp add: bare_invD)
  have "length (rest_entries t 0) = tsize t"
    using mset_rest_entries [OF s] counts_okD(1) [OF assms(1)] by (metis size_mset)
  then have "iter_run n t (ht_bare_iter_begin t) = rest_entries t 0"
    using iter_run_ok [OF assms(1), of "ht_bare_iter_begin t" n] assms(2) by (simp add: ht_bare_iter_begin_def)
  then show ?thesis using mset_rest_entries [OF s] by simp
qed

lemma ht_bare_iter_complete_witness:
  "bare_inv ex_table \<and> tsize ex_table \<le> 6 \<and> mset (iter_run 6 ex_table (ht_bare_iter_begin ex_table)) = contents ex_table"
proof -
  have "tsize ex_table \<le> 6" by (simp add: ex_table_def)
  then show ?thesis using ht_bare_iter_complete [OF ex_table_inv] ex_table_inv by blast
qed

text \<open>
  Creation. A table that \<open>ht_bare_create\<close> returns, whatever the configuration and the
  requested capacity, is empty and satisfies the invariant, and an insertion may follow.
\<close>

lemma ht_bare_create_correct:
  assumes "ht_bare_create cfg as = Some t" "\<forall>c. cfg = Some c \<longrightarrow> initial_capacity c < 2 ^ 64"
  shows "bare_inv t \<and> contents t = {#} \<and> (capacity t \<le> 65536 \<longrightarrow> insertable t)"
  using create_ok [OF assms] by (simp add: insertable_def tomb_safe_def)

lemma ht_bare_create_correct_witness:
  "\<exists>t. ht_bare_create None [] = Some t \<and> bare_inv t \<and> contents t = {#} \<and> (capacity t \<le> 65536 \<longrightarrow> insertable t)"
proof -
  have "next_pow2_sz 64 \<le> 65536 \<and> next_pow2_sz 64 \<noteq> 0"
    by (rule next_pow2_sz_ok [of 64]) (auto intro: order_trans [OF power_increasing [of _ 16 "2::nat"]])
  then obtain t where t: "ht_bare_create None [] = Some t"
    by (simp add: ht_bare_create_def take_alloc_def default_cfg_def bare_main_block_size_def SIZE_MAX_def Let_def)
  then show ?thesis using ht_bare_create_correct [OF t] by auto
qed

text \<open>
  Clearing. \<open>ht_bare_clear\<close> removes every entry and every tombstone, keeps the capacity and
  the configuration, and leaves a table that satisfies the invariant and takes insertions.
\<close>

lemma ht_bare_clear_correct:
  assumes "bare_inv t"
  shows "bare_inv (ht_bare_clear t) \<and> contents (ht_bare_clear t) = {#} \<and> same_config t (ht_bare_clear t) \<and>
    (capacity t \<le> 65536 \<and> \<not> resizing t \<longrightarrow> insertable (ht_bare_clear t))"
  using clear_ok [OF assms] by (auto simp: insertable_def tomb_safe_def same_config_def)

lemma ht_bare_clear_correct_witness:
  "bare_inv ex_table \<and> bare_inv (ht_bare_clear ex_table) \<and> contents (ht_bare_clear ex_table) = {#} \<and>
    insertable (ht_bare_clear ex_table)"
proof -
  have "capacity ex_table \<le> 65536" "\<not> resizing ex_table" by (simp_all add: ex_table_def)
  then show ?thesis
    using ht_bare_clear_correct [OF ex_table_inv] ex_table_inv by blast
qed

end
