(* ===== verification/Ht_Table.thy ===== *)
theory Ht_Table
  imports Ht_Bare
begin

text \<open>
  The key-value table of \<^verbatim>\<open>src/ht.c\<close> (\<open>ht_table_t\<close>): a bare table that maps hashes to indices of
  an entry array, and for each entry a block with the key, padded to eight bytes, and the value.
  This theory holds the operations; \<open>Ht_Rows\<close> and the theories after it prove them correct.

  Keys and values are byte lists, their lengths being the \<open>key_len\<close> and \<open>value_len\<close> arguments.
  The block behind \<open>kv_ptr\<close> belongs to one entry, so it is a value of the entry; \<open>None\<close> is
  \<open>NULL\<close>. Padding bytes, which nothing reads, are zero. The hash and equality functions of the
  user are fields of the table. Every allocation takes its outcome from the oracle \<open>allocs\<close> of
  the bare table, whether it comes from \<open>malloc\<close> or from an arena. Pointer arguments are valid;
  a \<open>NULL\<close> value is the empty list.
\<close>

section \<open>State\<close>

record ht_entry =
  key_len :: u16
  hash_hi :: u16
  val_len :: u32
  kv_ptr :: "u8 list option"

record ht_table =
  bare :: ht_bare
  entries :: "ht_entry list"
  entry_count :: nat
  entry_cap :: nat
  entries_in_block :: bool
  hash_fn :: "u8 list \<Rightarrow> u64"
  eq_fn :: "(u8 list \<Rightarrow> u8 list \<Rightarrow> bool) option"

datatype ht_insert_result = HT_INSERT_FAILED | HT_INSERT_UPDATE | HT_INSERT_OK

datatype ins_mode = INS_UPSERT | INS_ALWAYS | INS_UNIQUE

definition zero_entry :: ht_entry where
  "zero_entry = \<lparr>key_len = 0, hash_hi = 0, val_len = 0, kv_ptr = None\<rparr>"

definition ht_entry_key_storage :: "nat \<Rightarrow> nat" where
  "ht_entry_key_storage n = unat ((word_of_nat n + 7 :: u64) AND NOT 7)"

definition kv_bytes :: "ht_entry \<Rightarrow> u8 list" where
  "kv_bytes e = (case kv_ptr e of None \<Rightarrow> [] | Some b \<Rightarrow> b)"

definition ht_entry_key :: "ht_entry \<Rightarrow> u8 list" where
  "ht_entry_key e = take (unat (key_len e)) (kv_bytes e)"

definition ht_entry_val :: "ht_entry \<Rightarrow> u8 list" where
  "ht_entry_val e =
     take (unat (val_len e)) (drop (ht_entry_key_storage (unat (key_len e))) (kv_bytes e))"

text \<open>The upper 16 bits of a hash.\<close>

definition hash_hi_of :: "u64 \<Rightarrow> u16" where
  "hash_hi_of hash = ucast (drop_bit 48 hash)"

section \<open>Entry management\<close>

definition kv_alloc :: "ht_table \<Rightarrow> bool \<times> ht_table" where
  "kv_alloc t = (let (ok, b) = malloc (bare t) in (ok, t\<lparr>bare := b\<rparr>))"

definition kv_free :: "ht_entry \<Rightarrow> ht_entry" where
  "kv_free e = e\<lparr>kv_ptr := None\<rparr>"

definition kv_free_at :: "u32 \<Rightarrow> ht_table \<Rightarrow> ht_table" where
  "kv_free_at i t = t\<lparr>entries := (entries t)[unat i := kv_free (entries t ! unat i)]\<rparr>"

definition kv_block :: "u8 list \<Rightarrow> u8 list \<Rightarrow> u8 list" where
  "kv_block key value =
     key @ replicate (ht_entry_key_storage (length key) - length key) 0 @ value"

definition grow_entries :: "ht_table \<Rightarrow> bool \<times> ht_table" where
  "grow_entries t =
     (if entry_count t \<ge> entry_cap t then
        let new_cap = (if entry_cap t = 0 then 64
                       else if entry_cap t > SIZE_MAX div 2 then SIZE_MAX
                       else entry_cap t * 2);
            kept = (if entries_in_block t then entry_count t else entry_cap t);
            (ok, b) = malloc (bare t)
        in if \<not> ok then (False, t\<lparr>bare := b\<rparr>)
           else (True, t\<lparr>bare := b,
                  entries := take kept (entries t) @ replicate (new_cap - kept) zero_entry,
                  entry_cap := new_cap, entries_in_block := False\<rparr>)
      else (True, t))"

definition alloc_entry :: "ht_table \<Rightarrow> u16 \<Rightarrow> u8 list \<Rightarrow> u8 list \<Rightarrow> u32 \<times> ht_table" where
  "alloc_entry t hh key value =
     (if length key > 65535 then (VAL_NONE, t)
      else let (ok1, t1) = grow_entries t
           in if \<not> ok1 then (VAL_NONE, t1)
              else let (ok2, t2) = kv_alloc t1
                   in if \<not> ok2 then (VAL_NONE, t2)
                      else let eidx = word_of_nat (entry_count t2)
                           in (eidx, t2\<lparr>entry_count := sz_add (entry_count t2) 1,
                                entries := (entries t2)[unat eidx :=
                                  \<lparr>key_len = word_of_nat (length key), hash_hi = hh,
                                   val_len = word_of_nat (length value),
                                   kv_ptr = Some (kv_block key value)\<rparr>]\<rparr>))"

definition update_entry_value :: "ht_table \<Rightarrow> u32 \<Rightarrow> u8 list \<Rightarrow> u8 list \<Rightarrow> bool \<times> ht_table" where
  "update_entry_value t eidx key value =
     (let e = entries t ! unat eidx; klen_stor = ht_entry_key_storage (length key)
      in if length value = unat (val_len e)
         then (True, t\<lparr>entries := (entries t)[unat eidx := e\<lparr>kv_ptr :=
                Some (take klen_stor (kv_bytes e) @ value @
                      drop (klen_stor + length value) (kv_bytes e))\<rparr>]\<rparr>)
         else let (ok, t1) = kv_alloc t
              in if \<not> ok then (False, t1)
                 else (True, t1\<lparr>entries := (entries t1)[unat eidx :=
                        e\<lparr>val_len := word_of_nat (length value),
                          kv_ptr := Some (kv_block key value)\<rparr>]\<rparr>))"

section \<open>Matching\<close>

definition keys_match :: "ht_table \<Rightarrow> u16 \<Rightarrow> u8 list \<Rightarrow> u32 \<Rightarrow> bool" where
  "keys_match t hh key eidx =
     (let e = entries t ! unat eidx
      in hash_hi e = hh \<and> unat (key_len e) = length key \<and>
         (case eq_fn t of Some f \<Rightarrow> f (ht_entry_key e) key | None \<Rightarrow> ht_entry_key e = key))"

definition vals_match :: "ht_table \<Rightarrow> u8 list \<Rightarrow> u32 \<Rightarrow> bool" where
  "vals_match t value eidx =
     (let e = entries t ! unat eidx
      in unat (val_len e) = length value \<and> ht_entry_val e = value)"

text \<open>The context of a key scan: the matches so far, the room for them, the allocations.\<close>

type_synonym hl_key_scan_ctx = "u32 list \<times> nat \<times> bool list"

definition hl_key_scan_cb_grow :: "hl_key_scan_ctx \<Rightarrow> bool \<times> hl_key_scan_ctx" where
  "hl_key_scan_cb_grow ctx =
     (case ctx of (ms, cap, as) \<Rightarrow>
        if length ms < cap then (True, ctx)
        else let (ok, as') = take_alloc as
             in if ok then (True, (ms, sz_mul cap 2, as')) else (False, (ms, cap, as')))"

definition hl_key_scan_cb :: "ht_table \<Rightarrow> u16 \<Rightarrow> u8 list \<Rightarrow> hl_key_scan_ctx bare_callback" where
  "hl_key_scan_cb t hh key val ctx =
     (if keys_match t hh key val
      then let (ok, ms, cap, as) = hl_key_scan_cb_grow ctx
           in if \<not> ok then (False, (ms, cap, as)) else (True, (ms @ [val], cap, as))
      else (True, ctx))"

text \<open>The contexts with \<open>eidx\<close> and \<open>found\<close> are an option.\<close>

definition hl_find_one_cb :: "ht_table \<Rightarrow> u16 \<Rightarrow> u8 list \<Rightarrow> u32 option bare_callback" where
  "hl_find_one_cb t hh key val ctx = (if keys_match t hh key val then (False, Some val) else (True, ctx))"

definition hl_kv_find_cb :: "ht_table \<Rightarrow> u16 \<Rightarrow> u8 list \<Rightarrow> u8 list \<Rightarrow> u32 option bare_callback" where
  "hl_kv_find_cb t hh key value val ctx =
     (if keys_match t hh key val \<and> vals_match t value val then (False, Some val) else (True, ctx))"

definition hl_kv_scan_cb :: "ht_table \<Rightarrow> u16 \<Rightarrow> u8 list \<Rightarrow> u8 list \<Rightarrow> bool bare_callback" where
  "hl_kv_scan_cb t hh key value val ctx =
     (if keys_match t hh key val \<and> vals_match t value val then (False, True) else (True, ctx))"

type_synonym 's ht_dup_callback = "u8 list \<Rightarrow> u8 list \<Rightarrow> 's \<Rightarrow> bool \<times> 's"

definition hl_find_all_cb :: "ht_table \<Rightarrow> 's ht_dup_callback \<Rightarrow> 's bare_callback" where
  "hl_find_all_cb t cb val s =
     (let e = entries t ! unat val in cb (ht_entry_key e) (ht_entry_val e) s)"

definition hl_key_find_cb :: "ht_table \<Rightarrow> u16 \<Rightarrow> u8 list \<Rightarrow> 's ht_dup_callback \<Rightarrow> 's bare_callback" where
  "hl_key_find_cb t hh key cb val s =
     (if keys_match t hh key val
      then let e = entries t ! unat val in cb (ht_entry_key e) (ht_entry_val e) s
      else (True, s))"

text \<open>The matches of a key scan; the allocations it makes are taken from the oracle.\<close>

definition scan_key :: "ht_table \<Rightarrow> u64 \<Rightarrow> u8 list \<Rightarrow> u32 list \<times> ht_table" where
  "scan_key t hash key =
     (let (ms, cap, as) = ht_bare_find_all (bare t) hash (hl_key_scan_cb t (hash_hi_of hash) key)
            ([], 64, allocs (bare t))
      in (ms, t\<lparr>bare := (bare t)\<lparr>allocs := as\<rparr>\<rparr>))"

section \<open>Rebuilding\<close>

text \<open>
  One entry of a rebuild: a copy of its block, the next index of the new entry array, and the
  insertion of that index. A full entry array is outside the model: the code would reallocate
  a pointer into the middle of a block there, but the array is never full, since it is as
  large as the old one.
\<close>

definition rebuild_insert :: "ht_bare \<Rightarrow> u64 \<Rightarrow> u32 \<Rightarrow> (bool \<times> ht_bare) option" where
  "rebuild_insert b h48 eidx =
     (if h48 < 2 then Some (bare_spill_insert b h48 eidx) else bare_rh_insert_bounded b h48 eidx)"

definition rebuild_spill_insert :: "ht_bare \<Rightarrow> u64 \<Rightarrow> u32 \<Rightarrow> (bool \<times> ht_bare) option" where
  "rebuild_spill_insert b h48 eidx = Some (bare_spill_insert b h48 eidx)"

type_synonym index_insert = "ht_bare \<Rightarrow> u64 \<Rightarrow> u32 \<Rightarrow> (bool \<times> ht_bare) option"

definition rebuild_entry :: "index_insert \<Rightarrow> ht_entry list \<Rightarrow> u64 \<Rightarrow> u32 \<Rightarrow> ht_table \<Rightarrow> (bool \<times> ht_table) option" where
  "rebuild_entry ins old_entries h48 old_eidx t =
     (let e = old_entries ! unat old_eidx
      in if key_len e = 0 then Some (True, t)
         else if entry_count t \<ge> entry_cap t then None
         else let (ok, t1) = kv_alloc t
              in if \<not> ok then Some (False, t1)
                 else let new_eidx = word_of_nat (entry_count t1);
                          t2 = t1\<lparr>entry_count := sz_add (entry_count t1) 1,
                                 entries := (entries t1)[unat new_eidx :=
                                   e\<lparr>kv_ptr := Some (kv_block (ht_entry_key e) (ht_entry_val e))\<rparr>]\<rparr>
                      in Option.bind (ins (bare t2) h48 new_eidx)
                           (\<lambda>r. Some (fst r, t2\<lparr>bare := snd r\<rparr>)))"

fun rebuild_list :: "index_insert \<Rightarrow> ht_entry list \<Rightarrow> (u64 \<times> u32) list \<Rightarrow> ht_table \<Rightarrow> (bool \<times> ht_table) option" where
  "rebuild_list ins old_entries [] t = Some (True, t)"
| "rebuild_list ins old_entries ((h48, eidx) # xs) t =
     Option.bind (rebuild_entry ins old_entries h48 eidx t)
       (\<lambda>r. if fst r then rebuild_list ins old_entries xs (snd r) else Some r)"

text \<open>The entries a rebuild visits, in order: main array, spill lane, overflow stash.\<close>

definition main_sources :: "ht_bare \<Rightarrow> (u64 \<times> u32) list" where
  "main_sources b = map (\<lambda>(w, v). (hpd_hash w, v)) (filter (\<lambda>(w, v). hpd_live w) (zip (hash_pd b) (vals b)))"

definition spill_sources :: "ht_bare \<Rightarrow> (u64 \<times> u32) list" where
  "spill_sources b =
     filter (\<lambda>(h, v). v \<noteq> VAL_NONE)
       (map (\<lambda>(w, v). (hpd_hash w, v)) (take (spill_len b) (zip (spill_hash_pd b) (spill_vals b))))"

definition overflow_sources :: "ht_bare \<Rightarrow> (u64 \<times> u32) list" where
  "overflow_sources b =
     map (\<lambda>(w, v). (hpd_hash w, v)) (take (overflow_len b) (zip (overflow_hash_pd b) (overflow_vals b)))"

definition rebuild_all :: "ht_table \<Rightarrow> ht_table \<Rightarrow> (bool \<times> ht_table) option" where
  "rebuild_all t tmp =
     Option.bind (rebuild_list rebuild_insert (entries t) (main_sources (bare t)) tmp)
       (\<lambda>r1. if \<not> fst r1 then Some r1
        else Option.bind (rebuild_list rebuild_spill_insert (entries t) (spill_sources (bare t)) (snd r1))
          (\<lambda>r2. if \<not> fst r2 then Some r2
           else rebuild_list rebuild_insert (entries t) (overflow_sources (bare t)) (snd r2)))"

definition ht_rebuild :: "ht_table \<Rightarrow> nat \<Rightarrow> (bool \<times> ht_table) option" where
  "ht_rebuild t new_capacity =
     (let b = bare t;
          slots = bare_main_block_size new_capacity div 12;
          new_spill_cap = new_spill_capacity b;
          (ok, b1) = malloc b
      in if \<not> ok then Some (False, t\<lparr>bare := b1\<rparr>)
         else let tmp_b = b1\<lparr>hash_pd := replicate slots 0, vals := replicate slots VAL_NONE,
                capacity := new_capacity, tsize := 0, tombstone_cnt := 0,
                spill_hash_pd := replicate new_spill_cap 0,
                spill_vals := replicate new_spill_cap VAL_NONE,
                spill_cap := new_spill_cap, spill_len := 0,
                overflow_len := 0, overflow_violated := False\<rparr>;
              tmp = t\<lparr>bare := tmp_b, entries := replicate (entry_cap t) zero_entry, entry_count := 0\<rparr>
              in Option.bind (rebuild_all t tmp)
                   (\<lambda>r. if \<not> fst r
                        then Some (False, t\<lparr>bare := b\<lparr>allocs := allocs (bare (snd r))\<rparr>\<rparr>)
                        else Some (True, (snd r)\<lparr>
                          bare := (bare_place_prophylactic_tombstones (bare (snd r)))\<lparr>spill_in_block := True\<rparr>,
                          entries_in_block := True\<rparr>)))"

definition ht_resize :: "ht_table \<Rightarrow> nat \<Rightarrow> (bool \<times> ht_table) option" where
  "ht_resize t new_capacity =
     (if new_capacity < main_live (bare t) then Some (False, t)
      else if resizing (bare t) then Some (True, t)
      else let new_cap = next_pow2_sz new_capacity
           in if new_cap = capacity (bare t) then Some (True, t)
              else Option.bind (ht_rebuild (t\<lparr>bare := (bare t)\<lparr>resizing := True\<rparr>\<rparr>) new_cap)
                     (\<lambda>r. Some (fst r, (snd r)\<lparr>bare := (bare (snd r))\<lparr>resizing := False\<rparr>\<rparr>)))"

definition ht_compact :: "ht_table \<Rightarrow> (bool \<times> ht_table) option" where
  "ht_compact t = ht_rebuild t (capacity (bare t))"

section \<open>Lifecycle\<close>

text \<open>
  The slots are lists of the allocated length: none when \<open>bare_main_block_size\<close> overflows, which
  the code does not check here. The values of fresh slots are zero (\<open>calloc\<close>).
\<close>

definition ht_create :: "ht_config option \<Rightarrow> (u8 list \<Rightarrow> u64) \<Rightarrow> (u8 list \<Rightarrow> u8 list \<Rightarrow> bool) option \<Rightarrow> bool list \<Rightarrow> ht_table option" where
  "ht_create cfg hf ef as =
     (let c = (case cfg of None \<Rightarrow> default_cfg | Some c \<Rightarrow> c);
          cap = next_pow2_sz (if initial_capacity c < 4 then 4 else initial_capacity c);
          slots = bare_main_block_size cap div 12;
          (ok0, as0) = take_alloc as
      in if \<not> ok0 then None
         else let (ok1, as1) = take_alloc as0
              in if \<not> ok1 then None
                 else Some \<lparr>bare = \<lparr>
   hash_pd = replicate slots 0, vals = replicate slots 0, capacity = cap, tsize = 0, tombstone_cnt = 0,
   spill_hash_pd = replicate SPILL_INITIAL 0, spill_vals = replicate SPILL_INITIAL VAL_NONE,
   spill_cap = SPILL_INITIAL, spill_len = 0, spill_in_block = True,
   max_load_factor = clamp_max_load (cfg_max_load_factor c),
   min_load_factor = (if cfg_min_load_factor c \<ge> 0 then cfg_min_load_factor c else dround (1 / 5)),
   tomb_threshold = (if cfg_tomb_threshold c > 0 then cfg_tomb_threshold c else dround (1 / 5)),
   zombie_window = cfg_zombie_window c,
   max_probe_dist = (if cfg_max_probe_dist c > 65535 then 65535 else cfg_max_probe_dist c),
   overflow_len = 0, overflow_hash_pd = replicate HT_OVERFLOW_STASH_CAP 0,
   overflow_vals = replicate HT_OVERFLOW_STASH_CAP 0, overflow_violated = False, resizing = False,
   allocs = as1\<rparr>,
   entries = replicate 64 zero_entry, entry_count = 0, entry_cap = 64, entries_in_block = True,
   hash_fn = hf, eq_fn = ef\<rparr>)"

text \<open>
  When the spill lane has left the table block, the code computes the new \<open>spill_vals\<close> pointer
  with the old \<open>spill_cap\<close>, so that it overlaps other data; that case is outside the model.
\<close>

definition ht_clear :: "ht_table \<Rightarrow> ht_table option" where
  "ht_clear t =
     (if \<not> spill_in_block (bare t) then None
      else let cap = (if entries_in_block t then entry_cap t else 64)
           in Some (t\<lparr>bare := ht_bare_clear (bare t), entries := replicate cap zero_entry,
                     entry_cap := cap, entries_in_block := True, entry_count := 0\<rparr>))"

section \<open>Insertion\<close>

text \<open>A match that loses its block and leaves the bare table.\<close>

definition drop_match :: "u64 \<Rightarrow> u32 \<Rightarrow> ht_table \<Rightarrow> ht_table" where
  "drop_match hash m t =
     (let t1 = kv_free_at m t in t1\<lparr>bare := snd (ht_bare_remove_val (bare t1) hash m)\<rparr>)"

text \<open>The second phase: room for one more entry, the entry, its index.\<close>

definition insert_new :: "ht_table \<Rightarrow> u64 \<Rightarrow> u8 list \<Rightarrow> u8 list \<Rightarrow> (ht_insert_result \<times> ht_table) option" where
  "insert_new t hash key value =
     Option.bind
       (if \<not> resizing (bare t) \<and> over_load (bare t)
        then (if capacity (bare t) > SIZE_MAX div 2 then Some (False, t)
              else Option.bind (ht_resize t (sz_mul (capacity (bare t)) 2))
                (\<lambda>r. if \<not> fst r then Some r
                     else if tsize (bare (snd r)) = 0
                     then Some (False, (snd r)\<lparr>bare := (bare (snd r))\<lparr>resizing := False, tsize := 0, tombstone_cnt := 0\<rparr>\<rparr>)
                     else Some r))
        else Some (True, t))
       (\<lambda>r. if \<not> fst r then Some (HT_INSERT_FAILED, snd r)
            else let (eidx, t1) = alloc_entry (snd r) (hash_hi_of hash) key value
                 in if eidx = VAL_NONE then Some (HT_INSERT_FAILED, t1)
                    else Option.bind (rebuild_insert (bare t1) (hash AND HASH_MASK) eidx)
                           (\<lambda>q. Some (if fst q then HT_INSERT_OK else HT_INSERT_FAILED, t1\<lparr>bare := snd q\<rparr>)))"

definition do_insert_with_hash ::
  "ht_table \<Rightarrow> u64 \<Rightarrow> u8 list \<Rightarrow> u8 list \<Rightarrow> ins_mode \<Rightarrow> (ht_insert_result \<times> ht_table) option" where
  "do_insert_with_hash t hash key value mode =
     (case mode of
        INS_UPSERT \<Rightarrow>
          (let (ms, t1) = scan_key t hash key
           in case ms of
                [] \<Rightarrow> insert_new t1 hash key value
              | m # rest \<Rightarrow>
                  let (ok, t2) = update_entry_value t1 m key value
                  in if \<not> ok then Some (HT_INSERT_FAILED, t2)
                     else Some (HT_INSERT_UPDATE, fold (drop_match hash) rest t2))
      | INS_UNIQUE \<Rightarrow>
          if ht_bare_find_all (bare t) hash (hl_kv_scan_cb t (hash_hi_of hash) key value) False
          then Some (HT_INSERT_UPDATE, t) else insert_new t hash key value
      | INS_ALWAYS \<Rightarrow> insert_new t hash key value)"

definition ht_insert_with_hash :: "ht_table \<Rightarrow> u64 \<Rightarrow> u8 list \<Rightarrow> u8 list \<Rightarrow> (ht_insert_result \<times> ht_table) option" where
  "ht_insert_with_hash t hash key value = do_insert_with_hash t hash key value INS_ALWAYS"

definition ht_insert :: "ht_table \<Rightarrow> u8 list \<Rightarrow> u8 list \<Rightarrow> (ht_insert_result \<times> ht_table) option" where
  "ht_insert t key value = ht_insert_with_hash t (hash_fn t key) key value"

definition ht_upsert_with_hash :: "ht_table \<Rightarrow> u64 \<Rightarrow> u8 list \<Rightarrow> u8 list \<Rightarrow> (ht_insert_result \<times> ht_table) option" where
  "ht_upsert_with_hash t hash key value = do_insert_with_hash t hash key value INS_UPSERT"

definition ht_upsert :: "ht_table \<Rightarrow> u8 list \<Rightarrow> u8 list \<Rightarrow> (ht_insert_result \<times> ht_table) option" where
  "ht_upsert t key value = ht_upsert_with_hash t (hash_fn t key) key value"

definition ht_unsert_with_hash :: "ht_table \<Rightarrow> u64 \<Rightarrow> u8 list \<Rightarrow> u8 list \<Rightarrow> (ht_insert_result \<times> ht_table) option" where
  "ht_unsert_with_hash t hash key value = do_insert_with_hash t hash key value INS_UNIQUE"

definition ht_unsert :: "ht_table \<Rightarrow> u8 list \<Rightarrow> u8 list \<Rightarrow> (ht_insert_result \<times> ht_table) option" where
  "ht_unsert t key value = ht_unsert_with_hash t (hash_fn t key) key value"

section \<open>Lookup\<close>

definition ht_find_with_hash :: "ht_table \<Rightarrow> u64 \<Rightarrow> u8 list \<Rightarrow> u8 list option" where
  "ht_find_with_hash t hash key =
     map_option (\<lambda>eidx. ht_entry_val (entries t ! unat eidx))
       (ht_bare_find_all (bare t) hash (hl_find_one_cb t (hash_hi_of hash) key) None)"

definition ht_find :: "ht_table \<Rightarrow> u8 list \<Rightarrow> u8 list option" where
  "ht_find t key = ht_find_with_hash t (hash_fn t key) key"

definition ht_find_all :: "ht_table \<Rightarrow> u64 \<Rightarrow> 's ht_dup_callback \<Rightarrow> 's \<Rightarrow> 's" where
  "ht_find_all t hash cb s = ht_bare_find_all (bare t) hash (hl_find_all_cb t cb) s"

definition ht_find_key_all_with_hash :: "ht_table \<Rightarrow> u64 \<Rightarrow> u8 list \<Rightarrow> 's ht_dup_callback \<Rightarrow> 's \<Rightarrow> 's" where
  "ht_find_key_all_with_hash t hash key cb s =
     ht_bare_find_all (bare t) hash (hl_key_find_cb t (hash_hi_of hash) key cb) s"

definition ht_find_key_all :: "ht_table \<Rightarrow> u8 list \<Rightarrow> 's ht_dup_callback \<Rightarrow> 's \<Rightarrow> 's" where
  "ht_find_key_all t key cb s = ht_find_key_all_with_hash t (hash_fn t key) key cb s"

definition ht_find_kv_with_hash :: "ht_table \<Rightarrow> u64 \<Rightarrow> u8 list \<Rightarrow> u8 list \<Rightarrow> u8 list option" where
  "ht_find_kv_with_hash t hash key value =
     map_option (\<lambda>eidx. ht_entry_val (entries t ! unat eidx))
       (ht_bare_find_all (bare t) hash (hl_kv_find_cb t (hash_hi_of hash) key value) None)"

definition ht_find_kv :: "ht_table \<Rightarrow> u8 list \<Rightarrow> u8 list \<Rightarrow> u8 list option" where
  "ht_find_kv t key value = ht_find_kv_with_hash t (hash_fn t key) key value"

section \<open>Increment\<close>

text \<open>The bytes of an \<open>int64_t\<close> in memory, least significant first.\<close>

definition i64_bytes :: "u64 \<Rightarrow> u8 list" where
  "i64_bytes w = map (\<lambda>i. ucast (drop_bit (8 * i) w)) [0..<8]"

definition bytes_i64 :: "u8 list \<Rightarrow> u64" where
  "bytes_i64 bs = foldr (\<lambda>b w. push_bit 8 w OR ucast b) bs 0"

definition i64_saturating_add :: "u64 \<Rightarrow> u64 \<Rightarrow> u64" where
  "i64_saturating_add v delta =
     (if sint delta > 0 \<and> sint v > (2 ^ 63 - 1) - sint delta then word_of_int (2 ^ 63 - 1)
      else if sint delta < 0 \<and> sint v < - (2 ^ 63) - sint delta then word_of_int (- (2 ^ 63))
      else v + delta)"

definition inc_value :: "u8 list option \<Rightarrow> u64 \<Rightarrow> u64" where
  "inc_value found delta =
     (case found of
        Some bs \<Rightarrow> if length bs = 8 then i64_saturating_add (bytes_i64 bs) delta else delta
      | None \<Rightarrow> delta)"

definition ht_inc :: "ht_table \<Rightarrow> u8 list \<Rightarrow> u64 \<Rightarrow> (u64 \<times> ht_table) option" where
  "ht_inc t key delta =
     (let new_val = inc_value (ht_find t key) delta
      in Option.bind (ht_upsert t key (i64_bytes new_val)) (\<lambda>r. Some (new_val, snd r)))"

definition ht_inc_with_hash :: "ht_table \<Rightarrow> u64 \<Rightarrow> u8 list \<Rightarrow> u64 \<Rightarrow> (u64 \<times> bool \<times> ht_table) option" where
  "ht_inc_with_hash t hash key delta =
     (let new_val = inc_value (ht_find_with_hash t hash key) delta
      in Option.bind (ht_upsert_with_hash t hash key (i64_bytes new_val))
           (\<lambda>r. if fst r = HT_INSERT_FAILED then Some (0, False, snd r) else Some (new_val, True, snd r)))"

section \<open>Deletion\<close>

definition maybe_shrink :: "ht_table \<Rightarrow> ht_table option" where
  "maybe_shrink t =
     (let b = bare t
      in if min_load_factor b > 0 \<and> tsize b > 0 \<and>
            dround (dround (of_nat (tsize b)) / dround (of_nat (capacity b))) < min_load_factor b \<and>
            capacity b > 64
         then let new_cap = capacity b div 2
              in if new_cap \<ge> 64 \<and> new_cap \<ge> sz_mul (tsize b) 2
                 then map_option snd (ht_resize t new_cap) else Some t
         else Some t)"

definition ht_remove_with_hash :: "ht_table \<Rightarrow> u64 \<Rightarrow> u8 list \<Rightarrow> (nat \<times> ht_table) option" where
  "ht_remove_with_hash t hash key =
     (let (ms, t1) = scan_key t hash key;
          removed = length ms;
          t2 = fold (drop_match hash) ms t1
      in map_option (Pair removed) (if removed > 0 then maybe_shrink t2 else Some t2))"

definition ht_remove :: "ht_table \<Rightarrow> u8 list \<Rightarrow> (nat \<times> ht_table) option" where
  "ht_remove t key = ht_remove_with_hash t (hash_fn t key) key"

fun remove_kv_loop :: "u64 \<Rightarrow> u8 list \<Rightarrow> u32 list \<Rightarrow> nat \<Rightarrow> ht_table \<Rightarrow> nat \<times> ht_table" where
  "remove_kv_loop hash value [] removed t = (removed, t)"
| "remove_kv_loop hash value (m # ms) removed t =
     (if vals_match t value m then remove_kv_loop hash value ms (removed + 1) (drop_match hash m t)
      else remove_kv_loop hash value ms removed t)"

definition ht_remove_kv_with_hash :: "ht_table \<Rightarrow> u64 \<Rightarrow> u8 list \<Rightarrow> u8 list \<Rightarrow> nat \<times> ht_table" where
  "ht_remove_kv_with_hash t hash key value =
     (let (ms, t1) = scan_key t hash key in remove_kv_loop hash value ms 0 t1)"

definition ht_remove_kv :: "ht_table \<Rightarrow> u8 list \<Rightarrow> u8 list \<Rightarrow> nat \<times> ht_table" where
  "ht_remove_kv t key value = ht_remove_kv_with_hash t (hash_fn t key) key value"

definition ht_remove_kv_one_with_hash :: "ht_table \<Rightarrow> u64 \<Rightarrow> u8 list \<Rightarrow> u8 list \<Rightarrow> (bool \<times> ht_table) option" where
  "ht_remove_kv_one_with_hash t hash key value =
     (let (ms, t1) = scan_key t hash key
      in case find (vals_match t1 value) ms of
           Some m \<Rightarrow> map_option (Pair True) (maybe_shrink (drop_match hash m t1))
         | None \<Rightarrow> Some (False, t1))"

definition ht_remove_kv_one :: "ht_table \<Rightarrow> u8 list \<Rightarrow> u8 list \<Rightarrow> (bool \<times> ht_table) option" where
  "ht_remove_kv_one t key value = ht_remove_kv_one_with_hash t (hash_fn t key) key value"

section \<open>Iteration and statistics\<close>

definition ht_iter_begin :: "ht_table \<Rightarrow> ht_iter" where
  "ht_iter_begin t = \<lparr>iter_idx = 0, iter_started = False\<rparr>"

text \<open>The loop skips reserved values, of which \<open>ht_bare_iter_next\<close> never returns one.\<close>

partial_function (option) ht_iter_next :: "ht_table \<Rightarrow> ht_iter \<Rightarrow> ((u8 list \<times> u8 list) option \<times> ht_iter) option" where
  "ht_iter_next t it =
     (case ht_bare_iter_next (bare t) it of
        (None, it') \<Rightarrow> Some (None, it')
      | (Some (hash, val), it') \<Rightarrow>
          if val = VAL_NONE then ht_iter_next t it'
          else let e = entries t ! unat val in Some (Some (ht_entry_key e, ht_entry_val e), it'))"

declare ht_iter_next.simps [code]

definition ht_stats :: "ht_table \<Rightarrow> ht_stats_t" where
  "ht_stats t = ht_bare_stats (bare t)"

definition ht_size :: "ht_table \<Rightarrow> nat" where
  "ht_size t = tsize (bare t)"

definition ht_check_invariants :: "ht_table \<Rightarrow> invariant_error option" where
  "ht_check_invariants t = ht_bare_check_invariants (bare t)"

end
