(* ===== verification/Ht_Index.thy ===== *)
theory Ht_Index
  imports Ht_Check
begin

text \<open>
  The bare table as an index: what its clients, the key-value table and the cache, rely on.
  \<open>hash_index\<close> is the interface of lookup and removal over a multiset of (48-bit hash, value)
  pairs, \<open>growing_index\<close> adds insertion. Both are interpreted on the operations of
  \<^verbatim>\<open>src/ht.c\<close>: the public \<open>ht_bare_insert\<close>, and the insertion of \<open>ht_table_t\<close>, which has checked
  the load itself.
\<close>

section \<open>The enumeration behind a scan\<close>

text \<open>The values a scan of a hash hands to its callback, in order.\<close>

fun path_list :: "ht_bare \<Rightarrow> u64 \<Rightarrow> nat \<Rightarrow> nat \<Rightarrow> nat \<Rightarrow> u32 list" where
  "path_list t h48 0 idx dst = []"
| "path_list t h48 (Suc steps) idx dst =
     (let w = hash_pd t ! idx; rest = path_list t h48 steps (wrap (capacity t) (idx + 1)) (inc16 dst)
      in if hpd_empty w then []
         else if hpd_tomb w then rest
         else if pd w < dst \<or> \<not> overflow_violated t \<and> over_limit t dst then []
         else if hpd_hash w = h48 then vals t ! idx # rest else rest)"

definition bare_values :: "ht_bare \<Rightarrow> u64 \<Rightarrow> u32 list" where
  "bare_values t hash =
     (let h48 = hash AND HASH_MASK
      in if h48 < 2 then map (\<lambda>i. spill_vals t ! i) (filter (\<lambda>i. hpd_hash (spill_hash_pd t ! i) = h48) [0..<spill_len t])
         else path_list t h48 (capacity t + 1) (wrap (capacity t) (unat h48)) 0 @
           map (\<lambda>i. overflow_vals t ! i) (filter (\<lambda>i. hpd_hash (overflow_hash_pd t ! i) = h48) [0..<overflow_len t]))"

lemma find_all_loop_list: "find_all_loop t h48 cb steps idx dst s = run_cb cb (path_list t h48 steps idx dst) s"
  by (induction steps arbitrary: idx dst s) (auto simp: Let_def split: prod.split)

lemma find_all_run: "ht_bare_find_all t hash cb s = snd (run_cb cb (bare_values t hash) s)"
  by (simp add: ht_bare_find_all_def bare_values_def bare_spill_find_all_def find_all_loop_list scan_matches_run
      run_cb_append Let_def del: path_list.simps split: prod.split)

lemma run_cb_collect: "run_cb (\<lambda>v s. (True, s @ [v])) vs s = (True, s @ vs)"
  by (induction vs arbitrary: s) auto

text \<open>A callback that stops at the first value with a property, and one that collects them.\<close>

lemma run_cb_find:
  "run_cb (\<lambda>v s. if P v then (False, f v) else (True, s)) vs s =
     (case List.find P vs of None \<Rightarrow> (True, s) | Some v \<Rightarrow> (False, f v))"
  by (induction vs arbitrary: s) auto

text \<open>Every scan ends within the table when it has an unused slot or a short enough array.\<close>

definition searchable :: "ht_bare \<Rightarrow> bool" where
  "searchable t \<longleftrightarrow> bare_inv t \<and> (has_empty t \<or> capacity t < 65536)"

lemma mset_bare_values:
  assumes "searchable t"
  shows "mset (bare_values t hash) = values_of t (hpd_hash hash)"
proof -
  obtain vs where vs: "mset vs = values_of t (hpd_hash hash)"
    "\<forall>cb s. ht_bare_find_all t hash cb s = snd (run_cb cb vs (s :: u32 list))"
    using bare_find_all_ok [of t hash] assms by (auto simp: searchable_def)
  have "snd (run_cb (\<lambda>v s. (True, s @ [v])) (bare_values t hash) []) = snd (run_cb (\<lambda>v s. (True, s @ [v])) vs [])"
    using vs(2) by (simp add: find_all_run)
  then show ?thesis using vs(1) by (simp add: run_cb_collect)
qed

section \<open>The interface\<close>

locale hash_index =
  fixes inv :: "'t \<Rightarrow> bool"
    and abs :: "'t \<Rightarrow> entry multiset"
    and vals_at :: "'t \<Rightarrow> u64 \<Rightarrow> u32 list"
    and remove_val :: "'t \<Rightarrow> u64 \<Rightarrow> u32 \<Rightarrow> bool \<times> 't"
    and config :: "'t \<Rightarrow> 'c"
  assumes mset_vals_at:
      "inv t \<Longrightarrow> mset (vals_at t hash) = image_mset snd (filter_mset (\<lambda>e. fst e = hpd_hash hash) (abs t))"
    and remove_hit:
      "inv t \<Longrightarrow> (hpd_hash hash, v) \<in># abs t \<Longrightarrow>
         fst (remove_val t hash v) \<and> inv (snd (remove_val t hash v)) \<and>
         abs t = add_mset (hpd_hash hash, v) (abs (snd (remove_val t hash v)))"
    and remove_miss:
      "inv t \<Longrightarrow> (hpd_hash hash, v) \<notin># abs t \<Longrightarrow> remove_val t hash v = (False, t)"
    and remove_config: "inv t \<Longrightarrow> config (snd (remove_val t hash v)) = config t"
begin

lemma in_vals_at: "inv t \<Longrightarrow> v \<in> set (vals_at t hash) \<longleftrightarrow> (hpd_hash hash, v) \<in># abs t"
proof -
  assume "inv t"
  from arg_cong [OF mset_vals_at [OF this], of set_mset, of hash] show ?thesis by force
qed

lemma distinct_vals_at:
  assumes "inv t" "\<And>v. count (image_mset snd (abs t)) v \<le> 1"
  shows "distinct (vals_at t hash)"
proof -
  have "image_mset snd (filter_mset (\<lambda>e. fst e = hpd_hash hash) (abs t)) \<subseteq># image_mset snd (abs t)"
    by (intro image_mset_subseteq_mono) simp
  then have "count (mset (vals_at t hash)) v \<le> 1" for v
    using assms(2) [of v] mset_vals_at [OF assms(1), of hash] by (metis mset_subset_eq_count order_trans)
  then show ?thesis
    by (auto simp: distinct_count_atmost_1 count_mset le_Suc_eq count_list_0_iff intro: antisym)
qed

text \<open>Removing values that are stored, one after the other.\<close>

lemma remove_list:
  assumes "inv t" "image_mset (Pair (hpd_hash hash)) (mset vs) \<subseteq># abs t"
  shows "inv (fold (\<lambda>v t. snd (remove_val t hash v)) vs t) \<and>
    abs t = image_mset (Pair (hpd_hash hash)) (mset vs) + abs (fold (\<lambda>v t. snd (remove_val t hash v)) vs t) \<and>
    config (fold (\<lambda>v t. snd (remove_val t hash v)) vs t) = config t"
  using assms
proof (induction vs arbitrary: t)
  case (Cons v vs)
  have "(hpd_hash hash, v) \<in># abs t" using Cons.prems(2) by (auto dest: mset_subset_eqD)
  then have r: "inv (snd (remove_val t hash v))" "abs t = add_mset (hpd_hash hash, v) (abs (snd (remove_val t hash v)))"
    using remove_hit [OF Cons.prems(1)] by blast+
  then show ?case using Cons.IH [OF r(1)] Cons.prems(2) remove_config [OF Cons.prems(1)] by auto
qed simp

end

locale growing_index = hash_index +
  fixes ready :: "'t \<Rightarrow> bool"
    and insert :: "'t \<Rightarrow> u64 \<Rightarrow> u32 \<Rightarrow> (bool \<times> 't) option"
  assumes ready_inv: "ready t \<Longrightarrow> inv t"
    and insert_total: "ready t \<Longrightarrow> v \<noteq> VAL_NONE \<Longrightarrow> \<exists>ok t'. insert t hash v = Some (ok, t')"
    and insert_inv: "ready t \<Longrightarrow> v \<noteq> VAL_NONE \<Longrightarrow> insert t hash v = Some (ok, t') \<Longrightarrow> inv t'"
    and insert_abs: "ready t \<Longrightarrow> v \<noteq> VAL_NONE \<Longrightarrow> insert t hash v = Some (ok, t') \<Longrightarrow>
      abs t' = (if ok then add_mset (hpd_hash hash, v) (abs t) else abs t)"
begin

lemma insert_vals_at:
  assumes "ready t" "v \<noteq> VAL_NONE" "insert t hash v = Some (ok, t')"
  shows "mset (vals_at t' g) =
    (if ok \<and> hpd_hash g = hpd_hash hash then add_mset v (mset (vals_at t g)) else mset (vals_at t g))"
  using mset_vals_at [OF insert_inv [OF assms], of g] mset_vals_at [OF ready_inv [OF assms(1)], of g] insert_abs [OF assms]
  by auto

text \<open>An insertion can be undone.\<close>

lemma insert_remove:
  assumes "ready t" "v \<noteq> VAL_NONE" "insert t hash v = Some (True, t')"
  shows "fst (remove_val t' hash v)" "inv (snd (remove_val t' hash v))" "abs (snd (remove_val t' hash v)) = abs t"
proof -
  have "(hpd_hash hash, v) \<in># abs t'" using insert_abs [OF assms] by simp
  from remove_hit [OF insert_inv [OF assms] this]
  show "fst (remove_val t' hash v)" "inv (snd (remove_val t' hash v))" "abs (snd (remove_val t' hash v)) = abs t"
    using insert_abs [OF assms] by auto
qed

end

section \<open>The bare table provides it\<close>

definition frame :: "ht_bare \<Rightarrow> nat \<times> bool \<times> bool list" where
  "frame t = (capacity t, resizing t, allocs t)"

interpretation bi: hash_index searchable contents bare_values ht_bare_remove_val frame
proof
  show "mset (bare_values t hash) = image_mset snd (filter_mset (\<lambda>e. fst e = hpd_hash hash) (contents t))"
    if "searchable t" for t hash
    using mset_bare_values [OF that] by (simp add: values_of_def)
next
  fix t hash v
  assume "searchable t"
  then have s: "bare_inv t" "has_empty t \<or> capacity t < 65536" by (simp_all add: searchable_def)
  note r = bare_remove_val_ok [OF s(1), of hash v]
  show "fst (ht_bare_remove_val t hash v) \<and> searchable (snd (ht_bare_remove_val t hash v)) \<and>
      contents t = add_mset (hpd_hash hash, v) (contents (snd (ht_bare_remove_val t hash v)))"
    if "(hpd_hash hash, v) \<in># contents t"
    using that r s by (auto simp: searchable_def deleted_def same_config_def split: prod.splits bool.splits)
  show "ht_bare_remove_val t hash v = (False, t)" if "(hpd_hash hash, v) \<notin># contents t"
    using that r by (auto simp: deleted_def split: prod.splits bool.splits)
  show "frame (snd (ht_bare_remove_val t hash v)) = frame t"
    using r by (auto simp: deleted_def frame_def same_config_def split: prod.splits bool.splits)
qed

text \<open>The public insertion, which may resize.\<close>

definition ready :: "ht_bare \<Rightarrow> bool" where
  "ready t \<longleftrightarrow> insertable t \<and> small t"

lemma bare_insert_ok:
  assumes "ready t" "v \<noteq> VAL_NONE"
  shows "\<exists>ok t'. ht_bare_insert t hash v = Some (ok, t') \<and> searchable t' \<and>
    contents t' = (if ok then add_mset (hpd_hash hash, v) (contents t) else contents t)"
proof -
  have t: "insertable t" "small t" "bare_inv t" using assms(1) by (simp_all add: ready_def insertable_def)
  show ?thesis
  proof (cases "hpd_hash hash < 2")
    case True
    then obtain ok t' where r: "ht_bare_insert t hash v = Some (ok, t')" "bare_inv t'" "capacity t' = capacity t"
      "contents t' = (if ok then add_mset (hpd_hash hash, v) (contents t) else contents t)"
      using bare_insert_spill_ok [OF t(3) assms(2), of hash] by blast
    then have "searchable t'" using t(2) by (simp add: searchable_def small_def)
    with r show ?thesis by blast
  next
    case False
    then obtain ok t' where r: "ht_bare_insert t hash v = Some (ok, t')" "bare_inv t'" "small t \<longrightarrow> capacity t' \<le> 32768"
      "contents t' = (if ok then add_mset (hpd_hash hash, v) (contents t) else contents t)"
      using bare_insert_main_ok [OF t(1) assms(2), of hash] by blast
    then have "searchable t'" using t(2) by (simp add: searchable_def)
    with r show ?thesis by blast
  qed
qed

text \<open>It succeeds when no allocation fails.\<close>

lemma bare_insert_succeeds:
  assumes "ready t" "v \<noteq> VAL_NONE" "allocs t = []" "spill_cap t < 2 ^ 59" "ht_bare_insert t hash v = Some (ok, t')"
  shows ok
proof -
  have t: "insertable t" "bare_inv t" using assms(1) by (simp_all add: ready_def insertable_def)
  show ?thesis
    using bare_insert_spill_ok [OF t(2) assms(2), of hash] bare_insert_main_ok [OF t(1) assms(2), of hash] assms(3-5)
    by (cases "hpd_hash hash < 2") auto
qed

interpretation bg: growing_index searchable contents bare_values ht_bare_remove_val frame ready ht_bare_insert
proof
  show "searchable t" if "ready t" for t
    using that by (simp add: ready_def insertable_def searchable_def small_def)
next
  fix t v hash
  assume a: "ready t" "v \<noteq> VAL_NONE"
  note r = bare_insert_ok [OF a, of hash]
  show "\<exists>ok t'. ht_bare_insert t hash v = Some (ok, t')" using r by blast
  show "searchable t'" if "ht_bare_insert t hash v = Some (ok, t')" for ok t' using that r by auto
  show "contents t' = (if ok then add_mset (hpd_hash hash, v) (contents t) else contents t)"
    if "ht_bare_insert t hash v = Some (ok, t')" for ok t' using that r by auto
qed

end
