(* ===== verification/Ht_Rows.thy ===== *)
theory Ht_Rows
  imports Ht_Table Ht_Index
begin

text \<open>
  What a key-value table stands for: the multiset of its (64-bit hash, key, value) rows. The entry
  of a row keeps the upper 16 bits of the hash, the index the lower 48. The theory holds the
  invariant, the reading of key and value from an entry block, lookup, key scans, and the removal
  of a list of matches.
\<close>

section \<open>Entry blocks\<close>

lemma and_not_7: "(x :: u64) AND NOT 7 = word_of_nat (8 * (unat x div 8))"
proof -
  have m: "(7 :: u64) = mask 3" by (simp add: mask_eq_exp_minus_1)
  have "x AND NOT (mask 3) = push_bit 3 (drop_bit 3 x)"
    by (rule bit_word_eqI) (auto simp: bit_simps)
  also have "\<dots> = word_of_nat (8 * (unat x div 8))"
    by (rule word_unat_eq_iff [THEN iffD2])
      (simp add: push_bit_eq_mult drop_bit_eq_div unat_word_ariths unat_div unsigned_of_nat take_bit_eq_mod mult.commute)
  finally show ?thesis unfolding m .
qed

lemma key_storage_eq:
  assumes "n < 2 ^ 64 - 7"
  shows "ht_entry_key_storage n = 8 * ((n + 7) div 8)"
proof -
  have "unat (word_of_nat n + 7 :: u64) = n + 7"
    using assms by (simp add: unat_word_ariths unsigned_of_nat take_bit_nat_eq_self)
  then have "ht_entry_key_storage n = unat (word_of_nat (8 * ((n + 7) div 8)) :: u64)"
    unfolding ht_entry_key_storage_def and_not_7 by simp
  moreover have "8 * ((n + 7) div 8) < 2 ^ 64" using assms by simp
  ultimately show ?thesis by (simp only: unat_word_of_nat)
qed

lemma key_storage_bounds:
  assumes "n \<le> 65535"
  shows "n \<le> ht_entry_key_storage n" "ht_entry_key_storage n < n + 8" "8 dvd ht_entry_key_storage n"
  using assms key_storage_eq [of n] by simp_all

text \<open>An entry whose block has room for key and value.\<close>

definition entry_wf :: "ht_entry \<Rightarrow> bool" where
  "entry_wf e \<longleftrightarrow>
     (case kv_ptr e of None \<Rightarrow> False
      | Some b \<Rightarrow> length b = ht_entry_key_storage (unat (key_len e)) + unat (val_len e))"

lemma u16_bound [simp]: "unat (w :: u16) \<le> 65535"
  using unat_bounds(3) [of w] by simp

lemma kv_block_read:
  assumes "unat (key_len e) = length key" "unat (val_len e) = length value" "kv_ptr e = Some (kv_block key value)"
  shows "ht_entry_key e = key" "ht_entry_val e = value" "entry_wf e"
proof -
  have "length key \<le> ht_entry_key_storage (length key)"
    using key_storage_bounds(1) [OF u16_bound, of "key_len e"] assms(1) by simp
  then show "ht_entry_key e = key" "ht_entry_val e = value" "entry_wf e"
    using assms by (simp_all add: ht_entry_key_def ht_entry_val_def entry_wf_def kv_bytes_def kv_block_def)
qed

lemma entry_lengths:
  assumes "entry_wf e"
  shows "length (ht_entry_key e) = unat (key_len e)" "length (ht_entry_val e) = unat (val_len e)"
  using assms key_storage_bounds(1) [OF u16_bound, of "key_len e"]
  by (auto simp: entry_wf_def ht_entry_key_def ht_entry_val_def kv_bytes_def split: option.splits)

lemma copied_entry:
  assumes "entry_wf e"
  defines "e' \<equiv> e\<lparr>kv_ptr := Some (kv_block (ht_entry_key e) (ht_entry_val e))\<rparr>"
  shows "ht_entry_key e' = ht_entry_key e" "ht_entry_val e' = ht_entry_val e" "entry_wf e'" "hash_hi e' = hash_hi e"
  using kv_block_read [of e' "ht_entry_key e" "ht_entry_val e"] entry_lengths [OF assms(1)] by (simp_all add: e'_def)

text \<open>A value of the same length overwritten in place.\<close>

lemma patched_entry:
  assumes "entry_wf e" "unat (key_len e) = length key" "length value = unat (val_len e)"
  defines "e' \<equiv> e\<lparr>kv_ptr := Some (take (ht_entry_key_storage (length key)) (kv_bytes e) @ value @
      drop (ht_entry_key_storage (length key) + length value) (kv_bytes e))\<rparr>"
  shows "ht_entry_key e' = ht_entry_key e" "ht_entry_val e' = value" "entry_wf e'"
  using assms(1-3) key_storage_bounds(1) [OF u16_bound, of "key_len e"]
  by (auto simp: e'_def entry_wf_def ht_entry_key_def ht_entry_val_def kv_bytes_def min_def split: option.splits)

section \<open>The abstraction\<close>

text \<open>A table stands for the multiset of its (64-bit hash, key, value) rows.\<close>

type_synonym row = "u64 \<times> u8 list \<times> u8 list"

definition row_of :: "ht_entry list \<Rightarrow> entry \<Rightarrow> row" where
  "row_of es x = (let e = es ! unat (snd x) in (hpd_pack (fst x) (hash_hi e), ht_entry_key e, ht_entry_val e))"

definition rows :: "ht_table \<Rightarrow> row multiset" where
  "rows t = image_mset (row_of (entries t)) (contents (bare t))"

definition table_ok :: "ht_table \<Rightarrow> bool" where
  "table_ok t \<longleftrightarrow>
     length (entries t) = entry_cap t \<and> entry_count t \<le> entry_cap t \<and> entry_count t < 2 ^ 32 \<and>
     (\<forall>x \<in># contents (bare t). unat (snd x) < entry_count t \<and> entry_wf (entries t ! unat (snd x))) \<and>
     (\<forall>v. count (image_mset snd (contents (bare t))) v \<le> 1)"

definition table_inv :: "ht_table \<Rightarrow> bool" where
  "table_inv t \<longleftrightarrow> searchable (bare t) \<and> table_ok t"

definition row_matches :: "ht_table \<Rightarrow> u64 \<Rightarrow> u8 list \<Rightarrow> row \<Rightarrow> bool" where
  "row_matches t hash key r \<longleftrightarrow>
     (case r of (h, k, v) \<Rightarrow> h = hash \<and> length k = length key \<and>
        (case eq_fn t of None \<Rightarrow> k = key | Some f \<Rightarrow> f k key))"

lemma table_okD:
  assumes "table_ok t"
  shows "length (entries t) = entry_cap t" "entry_count t \<le> entry_cap t" "entry_count t < 2 ^ 32"
    and "x \<in># contents (bare t) \<Longrightarrow> unat (snd x) < entry_count t"
    and "x \<in># contents (bare t) \<Longrightarrow> entry_wf (entries t ! unat (snd x))"
    and "count (image_mset snd (contents (bare t))) v \<le> 1"
  using assms by (auto simp: table_ok_def)

lemma contents_hash: "(h, v) \<in># contents b \<Longrightarrow> hpd_hash h = h"
  by (auto simp: contents_def main_mset_def spill_entries_def overflow_entries_def side_entries_def
      dest!: in_set_takeD set_zip_leftD)

lemma hpd_pd_hash_hi: "hash_hi_of hash = hpd_pd hash"
  by (simp add: hash_hi_of_def hpd_pd_def)

lemma pack_eq_iff: "hpd_pack (hpd_hash h) d = hash \<longleftrightarrow> hpd_hash h = hpd_hash hash \<and> d = hpd_pd hash"
  by (metis hpd_hash_idem hpd_hash_pack hpd_pd_pack hpd_pack_unpack)

lemma row_matches_iff:
  assumes "table_inv t" "x \<in># contents (bare t)"
  shows "row_matches t hash key (row_of (entries t) x) \<longleftrightarrow>
    fst x = hpd_hash hash \<and> keys_match t (hash_hi_of hash) key (snd x)"
proof -
  have x: "hpd_hash (fst x) = fst x"
    using assms contents_hash [of "fst x" "snd x" "bare t"] by (simp add: table_inv_def searchable_def)
  have "entry_wf (entries t ! unat (snd x))" using assms by (simp add: table_inv_def table_okD)
  then show ?thesis
    using pack_eq_iff [of "fst x"] entry_lengths(1)
    by (auto simp: x row_matches_def row_of_def keys_match_def Let_def hpd_pd_hash_hi split: option.splits)
qed

text \<open>The rows a key scan is after, in the order of the scan.\<close>

definition key_hits :: "ht_table \<Rightarrow> u64 \<Rightarrow> u8 list \<Rightarrow> u32 list" where
  "key_hits t hash key = filter (keys_match t (hash_hi_of hash) key) (bare_values (bare t) hash)"

abbreviation hit_row :: "ht_table \<Rightarrow> u64 \<Rightarrow> u32 \<Rightarrow> row" where
  "hit_row t hash v \<equiv> row_of (entries t) (hpd_hash hash, v)"

lemma key_hits_stored:
  assumes "table_inv t" "v \<in> set (key_hits t hash key)"
  shows "(hpd_hash hash, v) \<in># contents (bare t)"
  using assms bi.in_vals_at [of "bare t" v hash] by (simp add: table_inv_def key_hits_def)

lemma distinct_key_hits: "table_inv t \<Longrightarrow> distinct (key_hits t hash key)"
  using bi.distinct_vals_at [of "bare t" hash] table_okD(6) [of t] by (simp add: table_inv_def key_hits_def)

lemma key_hits_contents:
  assumes "table_inv t"
  shows "image_mset (Pair (hpd_hash hash)) (mset (key_hits t hash key)) =
    filter_mset (\<lambda>x. row_matches t hash key (row_of (entries t) x)) (contents (bare t))"
proof -
  let ?P = "keys_match t (hash_hi_of hash) key" and ?C = "contents (bare t)"
  have "mset (key_hits t hash key) = filter_mset ?P (image_mset snd (filter_mset (\<lambda>x. fst x = hpd_hash hash) ?C))"
    using bi.mset_vals_at [of "bare t" hash] assms by (simp add: key_hits_def table_inv_def)
  also have "\<dots> = image_mset snd (filter_mset (\<lambda>x. fst x = hpd_hash hash \<and> ?P (snd x)) ?C)"
    by (simp add: filter_mset_image_mset filter_filter_mset conj_commute)
  finally have "image_mset (Pair (hpd_hash hash)) (mset (key_hits t hash key)) =
      filter_mset (\<lambda>x. fst x = hpd_hash hash \<and> ?P (snd x)) ?C"
    by (auto simp: image_mset.compositionality comp_def intro!: multiset.map_ident_strong)
  also have "\<dots> = filter_mset (\<lambda>x. row_matches t hash key (row_of (entries t) x)) ?C"
    using row_matches_iff [OF assms] by (intro filter_mset_cong) auto
  finally show ?thesis .
qed

lemma key_hits_rows:
  assumes "table_inv t"
  shows "image_mset (hit_row t hash) (mset (key_hits t hash key)) = filter_mset (row_matches t hash key) (rows t)"
  using arg_cong [OF key_hits_contents [OF assms, of hash key], of "image_mset (row_of (entries t))"]
  by (simp add: rows_def filter_mset_image_mset image_mset.compositionality comp_def)

section \<open>Lookup\<close>

lemma find_filter_hd: "List.find P xs = (case filter P xs of [] \<Rightarrow> None | x # _ \<Rightarrow> Some x)"
  by (induction xs) auto

lemma find_one_run:
  "ht_bare_find_all (bare t) hash (hl_find_one_cb t (hash_hi_of hash) key) None =
     (case key_hits t hash key of [] \<Rightarrow> None | v # _ \<Rightarrow> Some v)"
proof -
  have "hl_find_one_cb t hh key = (\<lambda>v s. if keys_match t hh key v then (False, Some v) else (True, s))" for hh
    by (intro ext) (simp add: hl_find_one_cb_def)
  then show ?thesis by (simp add: find_all_run run_cb_find find_filter_hd key_hits_def split: list.split)
qed

lemma find_with_hash_ok:
  assumes "table_inv t"
  shows "case ht_find_with_hash t hash key of
      None \<Rightarrow> filter_mset (row_matches t hash key) (rows t) = {#}
    | Some v \<Rightarrow> \<exists>k. (hash, k, v) \<in># filter_mset (row_matches t hash key) (rows t)"
proof (cases "key_hits t hash key")
  case Nil
  then show ?thesis using key_hits_rows [OF assms, of hash key] by (simp add: ht_find_with_hash_def find_one_run)
next
  case (Cons v vs)
  then have "hit_row t hash v \<in># filter_mset (row_matches t hash key) (rows t)"
    using key_hits_rows [OF assms, of hash key, symmetric] by simp
  moreover have "ht_find_with_hash t hash key = Some (snd (snd (hit_row t hash v)))"
    using Cons by (simp add: ht_find_with_hash_def find_one_run row_of_def Let_def)
  moreover have "fst (hit_row t hash v) = hash" using calculation(1) by (auto simp: row_matches_def)
  ultimately show ?thesis by (simp, metis prod.collapse)
qed

section \<open>Key scans\<close>

text \<open>A scan collects a prefix of the hits: all of them unless an allocation fails.\<close>

lemma key_scan_grow:
  obtains g cap' as' where "hl_key_scan_cb_grow (ms, cap, as) = (g, (ms, cap', as'))" "as = [] \<longrightarrow> g \<and> as' = []"
proof (cases "length ms < cap")
  case True
  then show ?thesis using that [of True cap as] by (simp add: hl_key_scan_cb_grow_def)
next
  case False
  then show ?thesis
    using that [of "fst (take_alloc as)" "if fst (take_alloc as) then sz_mul cap 2 else cap" "snd (take_alloc as)"]
    by (simp add: hl_key_scan_cb_grow_def case_prod_beta take_alloc_def)
qed

lemma key_scan_run:
  "\<exists>n cap' as'. snd (run_cb (hl_key_scan_cb t hh key) vs (ms, cap, as)) = (ms @ take n (filter (keys_match t hh key) vs), cap', as') \<and>
     (as = [] \<longrightarrow> as' = [] \<and> length (filter (keys_match t hh key) vs) \<le> n)"
proof (induction vs arbitrary: ms cap as)
  case (Cons v vs)
  show ?case
  proof (cases "keys_match t hh key v")
    case False
    then show ?thesis using Cons.IH [of ms cap as] by (simp add: hl_key_scan_cb_def)
  next
    case True
    obtain g cap' as' where g: "hl_key_scan_cb_grow (ms, cap, as) = (g, (ms, cap', as'))" "as = [] \<longrightarrow> g \<and> as' = []"
      by (rule key_scan_grow)
    show ?thesis
    proof (cases g)
      case False
      then show ?thesis
        using True g by (intro exI [of _ 0] exI [of _ cap'] exI [of _ as']) (auto simp: hl_key_scan_cb_def)
    next
      case g': True
      obtain n c2 as2 where n: "snd (run_cb (hl_key_scan_cb t hh key) vs (ms @ [v], cap', as')) =
          ((ms @ [v]) @ take n (filter (keys_match t hh key) vs), c2, as2)"
        "as' = [] \<longrightarrow> as2 = [] \<and> length (filter (keys_match t hh key) vs) \<le> n"
        using Cons.IH [of "ms @ [v]" cap' as'] by blast
      have step: "hl_key_scan_cb t hh key v (ms, cap, as) = (True, (ms @ [v], cap', as'))"
        using True g g' by (simp add: hl_key_scan_cb_def)
      show ?thesis using True g(2) n by - (rule exI [of _ "Suc n"], simp add: step)
    qed
  qed
qed auto

lemma scan_key_ok:
  "\<exists>n as. scan_key t hash key = (take n (key_hits t hash key), t\<lparr>bare := (bare t)\<lparr>allocs := as\<rparr>\<rparr>) \<and>
     (allocs (bare t) = [] \<longrightarrow> as = [] \<and> take n (key_hits t hash key) = key_hits t hash key)"
proof -
  obtain n c as where "snd (run_cb (hl_key_scan_cb t (hash_hi_of hash) key) (bare_values (bare t) hash) ([], 64, allocs (bare t))) =
      (take n (key_hits t hash key), c, as)"
    "allocs (bare t) = [] \<longrightarrow> as = [] \<and> length (key_hits t hash key) \<le> n"
    using key_scan_run [of t "hash_hi_of hash" key "bare_values (bare t) hash" "[]" 64 "allocs (bare t)"]
    by (auto simp: key_hits_def)
  then show ?thesis
    unfolding scan_key_def find_all_run by (intro exI [of _ n] exI [of _ as]) (auto simp: Let_def)
qed

section \<open>Dropping matches\<close>

text \<open>What only allocations changed.\<close>

definition same_rows :: "ht_table \<Rightarrow> ht_table \<Rightarrow> bool" where
  "same_rows t t' \<longleftrightarrow> table_inv t' \<and> rows t' = rows t \<and> eq_fn t' = eq_fn t \<and> hash_fn t' = hash_fn t"

lemma set_table_allocs:
  assumes "table_inv t"
  shows "table_inv (t\<lparr>bare := (bare t)\<lparr>allocs := as\<rparr>\<rparr>)" "rows (t\<lparr>bare := (bare t)\<lparr>allocs := as\<rparr>\<rparr>) = rows t"
proof -
  have b: "bare_inv (bare t)" using assms by (simp add: table_inv_def searchable_def)
  note a = set_allocs [OF b, of as]
  show "rows (t\<lparr>bare := (bare t)\<lparr>allocs := as\<rparr>\<rparr>) = rows t" by (simp add: rows_def a)
  show "table_inv (t\<lparr>bare := (bare t)\<lparr>allocs := as\<rparr>\<rparr>)"
    using assms a by (simp add: table_inv_def searchable_def table_ok_def has_empty_def)
qed

lemma drop_matches_bare:
  "bare (fold (drop_match hash) ms t) = fold (\<lambda>v b. snd (ht_bare_remove_val b hash v)) ms (bare t)"
  by (induction ms arbitrary: t) (simp_all add: drop_match_def kv_free_at_def Let_def)

lemma drop_matches_frame:
  "length (entries (fold (drop_match hash) ms t)) = length (entries t)"
  "entry_cap (fold (drop_match hash) ms t) = entry_cap t"
  "entry_count (fold (drop_match hash) ms t) = entry_count t"
  "entries_in_block (fold (drop_match hash) ms t) = entries_in_block t"
  "eq_fn (fold (drop_match hash) ms t) = eq_fn t" "hash_fn (fold (drop_match hash) ms t) = hash_fn t"
  by (induction ms arbitrary: t) (simp_all add: drop_match_def kv_free_at_def Let_def)

lemma drop_matches_entries:
  "v \<notin> set ms \<Longrightarrow> entries (fold (drop_match hash) ms t) ! unat v = entries t ! unat v"
proof (induction ms arbitrary: t)
  case (Cons m ms)
  then have "unat m \<noteq> unat v" by (auto simp: word_unat_eq_iff)
  then show ?case using Cons by (simp add: drop_match_def kv_free_at_def Let_def)
qed simp

lemma drop_matches_ok:
  assumes inv: "table_inv t" and ms: "distinct ms" "\<And>m. m \<in> set ms \<Longrightarrow> (hpd_hash hash, m) \<in># contents (bare t)"
  defines "t' \<equiv> fold (drop_match hash) ms t"
  shows "table_inv t'" "rows t = image_mset (hit_row t hash) (mset ms) + rows t'"
proof -
  let ?C = "contents (bare t)" and ?C' = "contents (bare t')" and ?D = "image_mset (Pair (hpd_hash hash)) (mset ms)"
  have s: "searchable (bare t)" and ok: "table_ok t" using inv by (simp_all add: table_inv_def)
  have "distinct (map (Pair (hpd_hash hash)) ms)" using ms(1) by (simp add: distinct_map inj_on_def)
  then have "?D \<subseteq># ?C" using ms(2) distinct_subseteq [of "map (Pair (hpd_hash hash)) ms" ?C] by auto
  then have r: "searchable (bare t')" "?C = ?D + ?C'"
    using bi.remove_list [OF s, of hash ms] by (simp_all add: t'_def drop_matches_bare)
  have fresh: "snd x \<notin> set ms" if "x \<in># ?C'" for x
  proof
    assume "snd x \<in> set ms"
    then have "count (image_mset snd ?D) (snd x) \<ge> 1" "count (image_mset snd ?C') (snd x) \<ge> 1"
      using that by (simp_all add: Suc_le_eq image_mset.compositionality comp_def)
    then have "count (image_mset snd ?C) (snd x) \<ge> 2" unfolding r(2) image_mset_union count_union by linarith
    then show False using table_okD(6) [OF ok, of "snd x"] by simp
  qed
  then have same: "entries t' ! unat (snd x) = entries t ! unat (snd x)" if "x \<in># ?C'" for x
    using that drop_matches_entries by (simp add: t'_def)
  have "rows t' = image_mset (row_of (entries t)) ?C'"
    unfolding rows_def by (rule image_mset_cong) (simp add: row_of_def same)
  then show "rows t = image_mset (hit_row t hash) (mset ms) + rows t'"
    by (simp add: rows_def r(2) image_mset.compositionality comp_def)
  have sub: "x \<in># ?C" if "x \<in># ?C'" for x using that r(2) by simp
  have "count (image_mset snd ?C') v \<le> 1" for v
  proof -
    have "count (image_mset snd ?C') v \<le> count (image_mset snd ?C) v" using r(2) by simp
    then show ?thesis using table_okD(6) [OF ok, of v] by linarith
  qed
  then have "table_ok t'"
    using ok table_okD(4,5) [OF ok] sub same drop_matches_frame(1-3) [of hash ms t]
    by (simp add: table_ok_def t'_def [symmetric])
  with r(1) show "table_inv t'" by (simp add: table_inv_def)
qed

end
