(* ===== verification/Ht_Grow.thy ===== *)
theory Ht_Grow
  imports Ht_Rows
begin

text \<open>
  Rebuilding a key-value table (\<open>ht_rebuild\<close>, \<open>ht_resize\<close>, \<open>ht_compact\<close>): every entry is copied into
  a fresh entry array and its new index inserted into a fresh bare table. The rows stay the same
  when no key is empty; an allocation that fails leaves the table as it was.
\<close>

section \<open>What a rebuild visits\<close>

definition rebuild_sources :: "ht_bare \<Rightarrow> entry list" where
  "rebuild_sources b = main_sources b @ spill_sources b @ overflow_sources b"

lemmas sources_defs = rebuild_sources_def main_sources_def spill_sources_def overflow_sources_def

text \<open>The three passes insert as one pass over the concatenation would.\<close>

lemma rebuild_list_append:
  "rebuild_list ins es (xs @ ys) t =
     Option.bind (rebuild_list ins es xs t) (\<lambda>r. if \<not> fst r then Some r else rebuild_list ins es ys (snd r))"
proof (induction xs arbitrary: t)
  case (Cons x xs)
  then show ?case by (cases x; cases "rebuild_entry ins es (fst x) (snd x) t") auto
qed simp

lemma rebuild_list_spill:
  "\<forall>x \<in> set xs. fst x < 2 \<Longrightarrow> rebuild_list rebuild_spill_insert es xs t = rebuild_list rebuild_insert es xs t"
proof (induction xs arbitrary: t)
  case (Cons x xs)
  then have "rebuild_spill_insert b (fst x) v = rebuild_insert b (fst x) v" for b v
    by (simp add: rebuild_spill_insert_def rebuild_insert_def)
  then have "rebuild_entry rebuild_spill_insert es (fst x) (snd x) t = rebuild_entry rebuild_insert es (fst x) (snd x) t"
    unfolding rebuild_entry_def by (simp only:)
  then show ?case using Cons by (cases x; cases "rebuild_entry rebuild_insert es (fst x) (snd x) t") auto
qed simp

lemma rebuild_all_eq:
  assumes "bare_inv (bare t)"
  shows "rebuild_all t tmp = rebuild_list rebuild_insert (entries t) (rebuild_sources (bare t)) tmp"
proof -
  have "\<forall>x \<in> set (spill_entries (bare t)). fst x < 2"
  proof
    fix x assume x: "x \<in> set (spill_entries (bare t))"
    then have "\<not> hpd_live (fst x)" using bare_invD(3) [OF assms] by (auto simp: values_ok_def)
    moreover have "hpd_hash (fst x) = fst x" using x contents_hash [of "fst x" "snd x" "bare t"] by (simp add: contents_def)
    ultimately show "fst x < 2" by (simp add: live_iff_spill)
  qed
  moreover have "set (spill_sources (bare t)) \<subseteq> set (spill_entries (bare t))"
    by (auto simp: spill_sources_def spill_entries_def side_entries_def zip_map1 take_map)
  ultimately have "\<forall>x \<in> set (spill_sources (bare t)). fst x < 2" by blast
  then show ?thesis
    by (simp add: rebuild_all_def rebuild_sources_def rebuild_list_append rebuild_list_spill cong: if_cong)
qed

lemma mset_rebuild_sources:
  assumes "bare_inv b"
  shows "mset (rebuild_sources b) = contents b"
proof -
  have s: "shape_ok b" and v: "values_ok b" using assms by (simp_all add: bare_invD)
  have side: "map (\<lambda>(w, v). (hpd_hash w, v)) (take n (zip hs vs)) = side_entries hs vs n" for n hs and vs :: "u32 list"
    by (simp add: side_entries_def zip_map1 take_map)
  have "filter (\<lambda>(h, v). v \<noteq> VAL_NONE) (spill_entries b) = spill_entries b"
    using v by (intro filter_True) (auto simp: values_ok_def)
  then show ?thesis
    by (simp add: sources_defs contents_def main_mset_def side spill_entries_def overflow_entries_def)
qed

lemma live_sources:
  assumes "bare_inv b"
  shows "length (filter (\<lambda>x. hpd_live (fst x)) (rebuild_sources b)) = size (contents b) - spill_len b"
    and "length (filter (\<lambda>x. \<not> hpd_live (fst x)) (rebuild_sources b)) = spill_len b"
proof -
  have s: "shape_ok b" and v: "values_ok b" using assms by (simp_all add: bare_invD)
  have "filter_mset (\<lambda>x. \<not> hpd_live (fst x)) (main_mset (hash_pd b) (vals b)) = {#}"
    by (auto simp: main_mset_def filter_mset_eq_mempty_iff)
  moreover have "filter_mset (\<lambda>x. \<not> hpd_live (fst x)) (mset (spill_entries b)) = mset (spill_entries b)"
    using v by (auto simp: filter_mset_eq_conv values_ok_def)
  moreover have "filter_mset (\<lambda>x. \<not> hpd_live (fst x)) (mset (overflow_entries b)) = {#}"
    using v by (auto simp: filter_mset_eq_mempty_iff values_ok_def)
  ultimately have "filter_mset (\<lambda>x. \<not> hpd_live (fst x)) (contents b) = mset (spill_entries b)"
    by (simp add: contents_def)
  then have n: "mset (filter (\<lambda>x. \<not> hpd_live (fst x)) (rebuild_sources b)) = mset (spill_entries b)"
    by (simp add: mset_rebuild_sources [OF assms])
  from arg_cong [OF this, of size] show l: "length (filter (\<lambda>x. \<not> hpd_live (fst x)) (rebuild_sources b)) = spill_len b"
    using s by (simp add: spill_entries_def shape_okD del: mset_filter)
  have "length (rebuild_sources b) = size (contents b)" using mset_rebuild_sources [OF assms] size_mset by metis
  then show "length (filter (\<lambda>x. hpd_live (fst x)) (rebuild_sources b)) = size (contents b) - spill_len b"
    using sum_length_filter_compl [of "\<lambda>x. hpd_live (fst x)" "rebuild_sources b"] l by linarith
qed

section \<open>Copying entries into a fresh table\<close>

text \<open>
  A table under construction: room for \<open>k\<close> more entries outside the spill lane, for \<open>j\<close> more
  inside it, for \<open>m\<close> more in the entry array.
\<close>

definition building :: "nat \<Rightarrow> nat \<Rightarrow> nat \<Rightarrow> ht_table \<Rightarrow> bool" where
  "building k j m t \<longleftrightarrow>
     roomy k (bare t) \<and> spill_len (bare t) + j \<le> spill_cap (bare t) \<and>
     table_ok t \<and> entry_count t + m \<le> entry_cap t \<and> entry_count t + m < 2 ^ 32 \<and>
     entry_count t = size (contents (bare t))"

text \<open>What a step of the construction keeps besides the rows.\<close>

definition same_table :: "ht_table \<Rightarrow> ht_table \<Rightarrow> bool" where
  "same_table t t' \<longleftrightarrow>
     same_config (bare t) ((bare t')\<lparr>allocs := allocs (bare t)\<rparr>) \<and> entry_cap t' = entry_cap t \<and>
     entries_in_block t' = entries_in_block t \<and> eq_fn t' = eq_fn t \<and> hash_fn t' = hash_fn t"

lemma same_table_trans: "same_table a b \<Longrightarrow> same_table b c \<Longrightarrow> same_table a c"
  by (simp add: same_table_def same_config_def)

lemma same_table_refl [simp]: "same_table t t"
  by (simp add: same_table_def)

lemma roomy_allocs: "roomy k (t\<lparr>allocs := as\<rparr>) \<longleftrightarrow> roomy k t"
proof -
  have "roomy k (u\<lparr>allocs := x\<rparr>)" if "roomy k u" for u x
    using that set_allocs [of u x] by (simp add: roomy_def gap_ok_def tombs_def)
  from this [of t as] this [of "t\<lparr>allocs := as\<rparr>" "allocs t"] show ?thesis by auto
qed

lemma building_allocs [simp]:
  "building k j m (t\<lparr>bare := (bare t)\<lparr>allocs := as\<rparr>\<rparr>) \<longleftrightarrow> building k j m t"
proof -
  have c: "contents ((bare t)\<lparr>allocs := as\<rparr>) = contents (bare t)"
    by (simp add: contents_def spill_entries_def overflow_entries_def)
  show ?thesis by (simp add: building_def roomy_allocs table_ok_def c)
qed

lemma rebuild_insert_ok:
  assumes r: "roomy (if hpd_live h then Suc k else k) b" and h: "hpd_hash h = h" and v: "v \<noteq> VAL_NONE"
    and sp: "\<not> hpd_live h \<Longrightarrow> spill_len b < spill_cap b"
  shows "\<exists>b'. rebuild_insert b h v = Some (True, b') \<and> roomy k b' \<and> contents b' = add_mset (h, v) (contents b) \<and>
    same_config b b' \<and> spill_cap b' = spill_cap b \<and> spill_len b' = (if hpd_live h then spill_len b else Suc (spill_len b))"
proof (cases "hpd_live h")
  case True
  then have "\<not> h < 2" using h by (simp add: hpd_live_def not_less)
  moreover obtain b' where "bare_rh_insert_bounded b h v = Some (True, b')" "roomy k b'"
    "contents b' = add_mset (h, v) (contents b)" "same_config b b'" "same_spill b b'"
    using roomy_insert [of k b h v bare_resize_table] r h v True by (auto simp: bare_rh_insert_bounded_def)
  ultimately show ?thesis using True by (simp add: rebuild_insert_def same_spill_def)
next
  case False
  then have lt: "h < 2" using h by (simp add: hpd_live_def not_le)
  have r: "roomy k b" and inv: "bare_inv b" using r False by (simp_all add: roomy_def)
  let ?b = "snd (bare_spill_insert b h v)"
  note i = bare_spill_insert_ok [OF inv h False v]
  have room: "spill_len b < spill_cap b" using sp False by simp
  have c: "contents ?b = add_mset (h, v) (contents b)" using i(3,4) room by simp
  have "roomy k ?b"
    using r i(1,2,4) room c spill_len_le [OF bare_invD(1) [OF inv]] by (intro roomy_same_main [of k b ?b]) auto
  moreover have "same_config b ?b" using i(2,4) room by (auto simp: same_main_def same_config_def)
  ultimately show ?thesis
    using lt i(4) room c False by (intro exI [of _ ?b]) (auto simp: rebuild_insert_def prod_eq_iff)
qed

lemma contents_bare_upd: "contents (bare (t\<lparr>entry_count := n, entries := es\<rparr>)) = contents (bare t)"
  by simp

text \<open>The next free entry takes a block, and its index goes into the bare table.\<close>

lemma append_entry:
  assumes ok: "table_ok t" and room: "entry_count t < entry_cap t" "entry_count t < 2 ^ 32 - 1" and e: "entry_wf e"
    and c: "contents b = add_mset (h, word_of_nat (entry_count t)) (contents (bare t))"
  defines "t' \<equiv> t\<lparr>entry_count := Suc (entry_count t), entries := (entries t)[entry_count t := e], bare := b\<rparr>"
  shows "table_ok t'" "rows t' = add_mset (hpd_pack h (hash_hi e), ht_entry_key e, ht_entry_val e) (rows t)"
proof -
  have u: "unat (word_of_nat (entry_count t) :: u32) = entry_count t" using room(2) by (intro unat_word_of_nat) simp
  have lt: "unat (snd x) < entry_count t" if "x \<in># contents (bare t)" for x using that by (rule table_okD(4) [OF ok])
  have len: "length (entries t) = entry_cap t" by (rule table_okD(1) [OF ok])
  have old: "entries t' ! unat (snd x) = entries t ! unat (snd x)" if "x \<in># contents (bare t)" for x
    using lt [OF that] by (simp add: t'_def)
  have bare': "bare t' = b" by (simp add: t'_def)
  have new: "entries t' ! entry_count t = e" using len room(1) by (simp add: t'_def)
  have "image_mset (row_of (entries t')) (contents (bare t)) = rows t"
    unfolding rows_def by (rule image_mset_cong) (simp add: row_of_def old)
  then show "rows t' = add_mset (hpd_pack h (hash_hi e), ht_entry_key e, ht_entry_val e) (rows t)"
    using c new u bare' by (simp add: rows_def [of t'] row_of_def Let_def)
  have "count (image_mset snd (contents b)) v \<le> 1" for v
  proof (cases "v = word_of_nat (entry_count t)")
    case True
    have "v \<notin> snd ` set_mset (contents (bare t))" using lt u True by fastforce
    then have "count (image_mset snd (contents (bare t))) v = 0" by (simp add: count_eq_zero_iff)
    then show ?thesis using True by (simp add: c)
  next
    case False
    then show ?thesis using table_okD(6) [OF ok, of v] by (simp add: c)
  qed
  moreover have "unat (snd x) < Suc (entry_count t) \<and> entry_wf (entries t' ! unat (snd x))" if "x \<in># contents b" for x
    using that lt [of x] old [of x] table_okD(5) [OF ok, of x] new u e by (auto simp: c)
  ultimately show "table_ok t'" using ok room len by (simp add: table_ok_def t'_def)
qed

lemma rebuild_entry_ok:
  assumes b: "building (if hpd_live h then Suc k else k) (if hpd_live h then j else Suc j) (Suc m) t"
    and e: "entry_wf (es ! unat v)" "key_len (es ! unat v) \<noteq> 0" and h: "hpd_hash h = h"
  shows "\<exists>ok t'. rebuild_entry rebuild_insert es h v t = Some (ok, t') \<and>
    (ok \<longrightarrow> building k j m t' \<and> rows t' = add_mset (row_of es (h, v)) (rows t) \<and> same_table t t') \<and>
    (allocs (bare t) = [] \<longrightarrow> ok \<and> allocs (bare t') = [])"
proof -
  let ?e = "es ! unat v" and ?as = "snd (take_alloc (allocs (bare t)))"
  let ?e' = "?e\<lparr>kv_ptr := Some (kv_block (ht_entry_key ?e) (ht_entry_val ?e))\<rparr>"
  let ?b1 = "(bare t)\<lparr>allocs := ?as\<rparr>" and ?n = "word_of_nat (entry_count t) :: u32"
  have ok: "table_ok t" and room: "entry_count t < entry_cap t" "entry_count t + 1 < 2 ^ 32"
    using b by (auto simp: building_def)
  have u: "unat ?n = entry_count t" using room(2) by (intro unat_word_of_nat) simp
  have n: "?n \<noteq> VAL_NONE"
  proof
    assume "?n = VAL_NONE"
    then have "unat ?n = unat VAL_NONE" by simp
    then show False using u room(2) by (simp add: VAL_NONE_def)
  qed
  have r: "roomy (if hpd_live h then Suc k else k) ?b1" using b by (simp add: building_def roomy_allocs)
  have inv: "bare_inv (bare t)" using b by (simp add: building_def roomy_def)
  have sp: "\<not> hpd_live h \<Longrightarrow> spill_len ?b1 < spill_cap ?b1" using b by (simp add: building_def)
  obtain b' where b': "rebuild_insert ?b1 h ?n = Some (True, b')" "roomy k b'"
    "contents b' = add_mset (h, ?n) (contents (bare t))" "same_config ?b1 b'" "spill_cap b' = spill_cap (bare t)"
    "spill_len b' = (if hpd_live h then spill_len (bare t) else Suc (spill_len (bare t)))"
    using rebuild_insert_ok [OF r h n sp] set_allocs(2) [OF inv] by auto
  note c = copied_entry [OF e(1)]
  define t' where "t' = t\<lparr>entry_count := Suc (entry_count t), entries := (entries t)[entry_count t := ?e'], bare := b'\<rparr>"
  have t': "table_ok t'" "rows t' = add_mset (row_of es (h, v)) (rows t)"
    using append_entry [OF ok room(1) _ c(3) b'(3)] room(2) c by (simp_all add: t'_def row_of_def Let_def)
  have comm: "t\<lparr>bare := b', entry_count := x, entries := y\<rparr> = t\<lparr>entry_count := x, entries := y, bare := b'\<rparr>" for x y by simp
  have "rebuild_entry rebuild_insert es h v t = (if fst (take_alloc (allocs (bare t))) then Some (True, t') else Some (False, t\<lparr>bare := ?b1\<rparr>))"
    using e(2) room b'(1) u
    by (simp add: rebuild_entry_def kv_alloc_def malloc_eq Let_def t'_def sz_add_small comm)
  moreover have "building k j m t'"
    using b b'(2,3,5,6) t'(1) by (auto simp: building_def t'_def split: if_splits)
  moreover have "same_table t t'" using b'(4) by (simp add: same_table_def same_config_def t'_def)
  moreover have "allocs (bare t') = ?as" using b'(4) by (simp add: t'_def same_config_def)
  moreover have "allocs (bare t) = [] \<longrightarrow> fst (take_alloc (allocs (bare t))) \<and> ?as = []" by (simp add: take_alloc_def)
  ultimately show ?thesis using t'(2) by (cases "fst (take_alloc (allocs (bare t)))") (auto simp: ex_bool_eq simp del: building_allocs)
qed

lemma building_mono: "building k j m t \<Longrightarrow> k' \<le> k \<Longrightarrow> j' \<le> j \<Longrightarrow> m' \<le> m \<Longrightarrow> building k' j' m' t"
  by (auto simp: building_def roomy_def)

text \<open>The entries that have a key.\<close>

abbreviation with_key :: "ht_entry list \<Rightarrow> entry list \<Rightarrow> entry list" where
  "with_key es \<equiv> filter (\<lambda>x. key_len (es ! unat (snd x)) \<noteq> 0)"

lemma rebuild_list_ok:
  assumes "building (length (filter (\<lambda>x. hpd_live (fst x)) xs)) (length (filter (\<lambda>x. \<not> hpd_live (fst x)) xs)) (length xs) t"
    and "\<forall>(h, v) \<in> set xs. entry_wf (es ! unat v) \<and> hpd_hash h = h"
  shows "\<exists>ok t'. rebuild_list rebuild_insert es xs t = Some (ok, t') \<and>
    (ok \<longrightarrow> building 0 0 0 t' \<and> rows t' = rows t + mset (map (row_of es) (with_key es xs)) \<and> same_table t t') \<and>
    (allocs (bare t) = [] \<longrightarrow> ok \<and> allocs (bare t') = [])"
  using assms
proof (induction xs arbitrary: t)
  case (Cons x xs)
  obtain h v where x: "x = (h, v)" by fastforce
  let ?k = "length (filter (\<lambda>x. hpd_live (fst x)) xs)" and ?j = "length (filter (\<lambda>x. \<not> hpd_live (fst x)) xs)"
  have b: "building (if hpd_live h then Suc ?k else ?k) (if hpd_live h then ?j else Suc ?j) (Suc (length xs)) t"
    using Cons.prems(1) x by (auto split: if_splits)
  have prems: "\<forall>(h, v) \<in> set xs. entry_wf (es ! unat v) \<and> hpd_hash h = h" using Cons.prems(2) by simp
  show ?case
  proof (cases "key_len (es ! unat v) = 0")
    case True
    have "building ?k ?j (length xs) t" using b by (rule building_mono) (auto split: if_splits)
    then show ?thesis using Cons.IH [OF _ prems, of t] True by (simp add: x rebuild_entry_def)
  next
    case key: False
    obtain ok t1 where t1: "rebuild_entry rebuild_insert es h v t = Some (ok, t1)"
      "ok \<longrightarrow> building ?k ?j (length xs) t1 \<and> rows t1 = add_mset (row_of es (h, v)) (rows t) \<and> same_table t t1"
      "allocs (bare t) = [] \<longrightarrow> ok \<and> allocs (bare t1) = []"
      using rebuild_entry_ok [of h ?k ?j "length xs" t es v] Cons.prems(2) x key b by fastforce
    show ?thesis
    proof (cases ok)
      case False
      then show ?thesis using t1 x by auto
    next
      case True
      then have "building ?k ?j (length xs) t1" using t1(2) by simp
      then obtain ok2 t2 where t2: "rebuild_list rebuild_insert es xs t1 = Some (ok2, t2)"
        "ok2 \<longrightarrow> building 0 0 0 t2 \<and> rows t2 = rows t1 + mset (map (row_of es) (with_key es xs)) \<and> same_table t1 t2"
        "allocs (bare t1) = [] \<longrightarrow> ok2 \<and> allocs (bare t2) = []"
        using Cons.IH [OF _ prems, of t1] by blast
      then show ?thesis using t1 True x key by (auto intro: same_table_trans)
    qed
  qed
qed auto

section \<open>Rebuilding\<close>

text \<open>A rebuild skips the entries with an empty key.\<close>

definition keyed_rows :: "ht_table \<Rightarrow> row multiset" where
  "keyed_rows t = filter_mset (\<lambda>r. fst (snd r) \<noteq> []) (rows t)"

definition keyed :: "ht_table \<Rightarrow> bool" where
  "keyed t \<longleftrightarrow> (\<forall>r \<in># rows t. fst (snd r) \<noteq> [])"

lemma keyed_rows_id: "keyed t \<Longrightarrow> keyed_rows t = rows t"
  by (simp add: keyed_def keyed_rows_def filter_mset_eq_conv)

lemma key_len_iff:
  assumes "table_ok t" "x \<in># contents (bare t)"
  shows "key_len (entries t ! unat (snd x)) = 0 \<longleftrightarrow> fst (snd (row_of (entries t) x)) = []"
  using entry_lengths(1) [OF table_okD(5) [OF assms]] by (auto simp: row_of_def Let_def word_unat_eq_iff)

lemma with_key_rows:
  assumes "bare_inv (bare t)" "table_ok t"
  shows "mset (map (row_of (entries t)) (with_key (entries t) (rebuild_sources (bare t)))) = keyed_rows t"
proof -
  have "filter_mset (\<lambda>x. key_len (entries t ! unat (snd x)) \<noteq> 0) (contents (bare t)) =
      filter_mset (\<lambda>x. fst (snd (row_of (entries t) x)) \<noteq> []) (contents (bare t))"
    using key_len_iff [OF assms(2)] by (intro filter_mset_cong) auto
  then show ?thesis
    by (simp add: keyed_rows_def rows_def filter_mset_image_mset mset_rebuild_sources [OF assms(1)])
qed

lemma size_contents_entries:
  assumes "table_ok t"
  shows "size (contents (bare t)) \<le> entry_count t"
proof -
  let ?V = "image_mset snd (contents (bare t))"
  have "count ?V v \<le> count (mset_set (set_mset ?V)) v" for v
    using table_okD(6) [OF assms, of v] by (cases "v \<in># ?V") (simp_all add: not_in_iff del: set_image_mset)
  then have "?V \<subseteq># mset_set (set_mset ?V)" by (simp add: subseteq_mset_def)
  then have "size (contents (bare t)) \<le> card (set_mset ?V)" using size_mset_mono by fastforce
  also have "\<dots> = card (unat ` set_mset ?V)" 
    by (intro card_image [symmetric] inj_onI) (simp add: word_unat_eq_iff)
  also have "\<dots> \<le> card {..<entry_count t}"
    using table_okD(4) [OF assms] by (intro card_mono) auto
  finally show ?thesis by simp
qed

text \<open>The empty tables a rebuild fills.\<close>

definition fresh_bare :: "nat \<Rightarrow> ht_bare \<Rightarrow> ht_bare" where
  "fresh_bare n b = b\<lparr>hash_pd := replicate n 0, vals := replicate n VAL_NONE, capacity := n, tsize := 0, tombstone_cnt := 0,
     spill_hash_pd := replicate (new_spill_capacity b) 0, spill_vals := replicate (new_spill_capacity b) VAL_NONE,
     spill_cap := new_spill_capacity b, spill_len := 0, overflow_len := 0, overflow_violated := False\<rparr>"

lemma fresh_bare_ok:
  assumes "shape_ok b" "pow2_cap n"
  shows "bare_inv (fresh_bare n b)" "gap_ok (fresh_bare n b)" "contents (fresh_bare n b) = {#}" "tombs (fresh_bare n b) = 0"
proof -
  let ?f = "fresh_table b n (new_spill_capacity b)"
  have eq: "fresh_bare n b = ?f\<lparr>spill_in_block := spill_in_block b\<rparr>"
    by (simp add: fresh_bare_def fresh_table_def bare_main_block_init_def)
  have k: "new_spill_capacity b * 12 < 2 ^ 64" using new_spill_bound [OF assms(1)] by simp
  note f = fresh_table_ok [OF assms k]
  show "bare_inv (fresh_bare n b)" "gap_ok (fresh_bare n b)" "contents (fresh_bare n b) = {#}" "tombs (fresh_bare n b) = 0"
    using f unfolding eq
    by (simp_all add: bare_inv_def shape_ok_def values_ok_def bounded_ok_def counts_ok_def contents_def tombs_def
        spill_entries_def overflow_entries_def over_limit_def gap_ok_def)
qed

definition fresh_ht :: "nat \<Rightarrow> ht_table \<Rightarrow> bool list \<Rightarrow> ht_table" where
  "fresh_ht n t as = t\<lparr>bare := fresh_bare n ((bare t)\<lparr>allocs := as\<rparr>),
     entries := replicate (entry_cap t) zero_entry, entry_count := 0\<rparr>"

lemma fresh_ht_building:
  assumes inv: "bare_inv (bare t)" and ok: "table_ok t" and n: "pow2_cap n" "n \<le> 65536"
    and room: "size (contents (bare t)) - spill_len (bare t) \<le> n"
  shows "building (size (contents (bare t)) - spill_len (bare t)) (spill_len (bare t)) (size (contents (bare t))) (fresh_ht n t as)"
    "rows (fresh_ht n t as) = {#}"
proof -
  have s: "shape_ok ((bare t)\<lparr>allocs := as\<rparr>)" using set_allocs(1) [OF inv] by (simp add: bare_invD)
  note f = fresh_bare_ok [OF s n(1)]
  have "spill_len (bare t) \<le> new_spill_capacity ((bare t)\<lparr>allocs := as\<rparr>)" using new_spill_bound [OF s] by simp
  moreover have "table_ok (fresh_ht n t as)" using f(3) by (simp add: table_ok_def fresh_ht_def)
  ultimately show "building (size (contents (bare t)) - spill_len (bare t)) (spill_len (bare t)) (size (contents (bare t))) (fresh_ht n t as)"
    using f room n size_contents_entries [OF ok] table_okD(2,3) [OF ok]
    by (simp add: building_def roomy_def fresh_ht_def, simp add: fresh_bare_def)
  show "rows (fresh_ht n t as) = {#}" using f(3) by (simp add: rows_def fresh_ht_def)
qed

text \<open>\<open>t'\<close> is \<open>t\<close> rebuilt with \<open>n\<close> slots.\<close>

definition rebuilt_ht :: "nat \<Rightarrow> ht_table \<Rightarrow> ht_table \<Rightarrow> bool" where
  "rebuilt_ht n t t' \<longleftrightarrow>
     bare_inv (bare t') \<and> gap_ok (bare t') \<and> paths_tomb_free (hash_pd (bare t')) \<and> tombs (bare t') \<le> n div 4 \<and>
     table_ok t' \<and> rows t' = keyed_rows t \<and> capacity (bare t') = n \<and> eq_fn t' = eq_fn t \<and> hash_fn t' = hash_fn t \<and>
     resizing (bare t') = resizing (bare t) \<and> spill_in_block (bare t') \<and> entries_in_block t' \<and>
     entry_count t' = size (contents (bare t'))"

lemma set_spill_in_block:
  "bare_inv (b\<lparr>spill_in_block := x\<rparr>) \<longleftrightarrow> bare_inv b" "contents (b\<lparr>spill_in_block := x\<rparr>) = contents b"
  "tombs (b\<lparr>spill_in_block := x\<rparr>) = tombs b" "gap_ok (b\<lparr>spill_in_block := x\<rparr>) = gap_ok b"
  by (simp_all add: bare_inv_def shape_ok_def values_ok_def bounded_ok_def counts_ok_def contents_def tombs_def
      spill_entries_def overflow_entries_def over_limit_def gap_ok_def)

lemma size_rows: "size (rows t) = size (contents (bare t))"
  by (simp add: rows_def)

lemma finish_rebuild:
  assumes "building 0 0 0 u" "rows u = keyed_rows t" "same_table (fresh_ht n t as) u"
  shows "rebuilt_ht n t (u\<lparr>bare := (bare_place_prophylactic_tombstones (bare u))\<lparr>spill_in_block := True\<rparr>, entries_in_block := True\<rparr>)"
    "allocs (bare_place_prophylactic_tombstones (bare u)) = allocs (bare u)"
proof -
  let ?b = "bare_place_prophylactic_tombstones (bare u)"
  have r: "roomy 0 (bare u)" "table_ok u" "entry_count u = size (contents (bare u))" using assms(1) by (simp_all add: building_def)
  have cap: "capacity (bare u) = n" and res: "resizing (bare u) = resizing (bare t)" and fns: "eq_fn u = eq_fn t" "hash_fn u = hash_fn t"
    using assms(3) by (simp_all add: same_table_def same_config_def fresh_ht_def fresh_bare_def)
  have tb: "tombed (capacity (bare u) div 4) (bare u) ?b" using r(1) by (intro prophylactic_ok) (auto simp: roomy_def)
  then have c: "contents ?b = contents (bare u)" by (simp add: tombed_def)
  then have "table_ok (u\<lparr>bare := ?b\<lparr>spill_in_block := True\<rparr>, entries_in_block := True\<rparr>)"
    using r(2) by (simp add: table_ok_def set_spill_in_block)
  then show "rebuilt_ht n t (u\<lparr>bare := ?b\<lparr>spill_in_block := True\<rparr>, entries_in_block := True\<rparr>)"
    using tb r c cap res fns assms(2)
    by (simp add: rebuilt_ht_def tombed_def roomy_def rows_def [of u] rows_def [of "u\<lparr>bare := _, entries_in_block := _\<rparr>"]
        set_spill_in_block same_config_def)
  show "allocs ?b = allocs (bare u)" using tb by (simp add: tombed_def same_config_def)
qed

lemma ht_rebuild_ok:
  assumes inv: "bare_inv (bare t)" and ok: "table_ok t" and n: "pow2_cap n" "n \<le> 65536"
    and room: "size (contents (bare t)) - spill_len (bare t) \<le> n"
  shows "\<exists>ok t'. ht_rebuild t n = Some (ok, t') \<and>
    (if ok then rebuilt_ht n t t' else \<exists>as. t' = t\<lparr>bare := (bare t)\<lparr>allocs := as\<rparr>\<rparr>) \<and>
    (allocs (bare t) = [] \<longrightarrow> ok \<and> allocs (bare t') = [])"
proof -
  let ?as = "snd (take_alloc (allocs (bare t)))" and ?xs = "rebuild_sources (bare t)"
  let ?u = "fresh_ht n t ?as"
  note f = fresh_ht_building [OF inv ok n room, of ?as]
  note src = mset_rebuild_sources [OF inv]
  have len: "length ?xs = size (contents (bare t))" using src size_mset by metis
  have "\<forall>(h, v) \<in> set ?xs. entry_wf (entries t ! unat v) \<and> hpd_hash h = h"
  proof
    fix x assume "x \<in> set ?xs"
    then have "x \<in># contents (bare t)" using src by (metis set_mset_mset)
    then show "case x of (h, v) \<Rightarrow> entry_wf (entries t ! unat v) \<and> hpd_hash h = h"
      using table_okD(5) [OF ok, of x] contents_hash [of "fst x" "snd x"] by (auto simp: case_prod_beta)
  qed
  then obtain ok1 u1 where u1: "rebuild_list rebuild_insert (entries t) ?xs ?u = Some (ok1, u1)"
    "ok1 \<longrightarrow> building 0 0 0 u1 \<and> rows u1 = rows ?u + mset (map (row_of (entries t)) (with_key (entries t) ?xs)) \<and> same_table ?u u1"
    "allocs (bare ?u) = [] \<longrightarrow> ok1 \<and> allocs (bare u1) = []"
    using rebuild_list_ok [of ?xs ?u "entries t"] f(1) live_sources [OF inv] len by auto
  have rows: "rows ?u + mset (map (row_of (entries t)) (with_key (entries t) ?xs)) = keyed_rows t"
    using f(2) with_key_rows [OF inv ok] by simp
  have slots: "bare_main_block_size n div 12 = n" using pow2_cap_ge4 [OF n(1)] pow2_cap_bound [OF n(1)]
    by (simp add: bare_main_block_size_def SIZE_MAX_def)
  let ?final = "u1\<lparr>bare := (bare_place_prophylactic_tombstones (bare u1))\<lparr>spill_in_block := True\<rparr>, entries_in_block := True\<rparr>"
  have sp: "new_spill_capacity ((bare t)\<lparr>allocs := ?as\<rparr>) = new_spill_capacity (bare t)" by (simp add: new_spill_capacity_def)
  have eq: "ht_rebuild t n = (if \<not> fst (take_alloc (allocs (bare t))) then Some (False, t\<lparr>bare := (bare t)\<lparr>allocs := ?as\<rparr>\<rparr>)
      else if \<not> ok1 then Some (False, t\<lparr>bare := (bare t)\<lparr>allocs := allocs (bare u1)\<rparr>\<rparr>) else Some (True, ?final))"
    using u1(1) sp slots by (simp add: ht_rebuild_def rebuild_all_eq [OF inv] malloc_eq Let_def fresh_ht_def fresh_bare_def)
  have good: "ok1 \<Longrightarrow> rebuilt_ht n t ?final" "ok1 \<Longrightarrow> allocs (bare ?final) = allocs (bare u1)"
    using u1(2) rows finish_rebuild [of u1 t n ?as] by auto
  have e: "allocs (bare t) = [] \<longrightarrow> fst (take_alloc (allocs (bare t))) \<and> allocs (bare ?u) = []"
    by (simp add: take_alloc_def fresh_ht_def fresh_bare_def)
  show ?thesis
  proof (cases "fst (take_alloc (allocs (bare t))) \<and> ok1")
    case True
    then have "ht_rebuild t n = Some (True, ?final)" using eq by simp
    moreover have "allocs (bare t) = [] \<longrightarrow> allocs (bare ?final) = []" using True good(2) e u1(3) by metis
    ultimately show ?thesis using True good(1) by (simp add: ex_bool_eq)
  next
    case False
    obtain as where "ht_rebuild t n = Some (False, t\<lparr>bare := (bare t)\<lparr>allocs := as\<rparr>\<rparr>)"
    proof (cases "fst (take_alloc (allocs (bare t)))")
      case True
      then have "\<not> ok1" using False by blast
      with True show ?thesis using that [of "allocs (bare u1)"] unfolding eq by simp
    next
      case False
      then show ?thesis using that [of ?as] unfolding eq by simp
    qed
    moreover have "allocs (bare t) \<noteq> []" using False e u1(3) by metis
    ultimately show ?thesis by (simp add: ex_bool_eq) blast
  qed
qed

section \<open>Resizing\<close>

text \<open>A table of which only the allocation outcomes have changed.\<close>

abbreviation with_allocs :: "ht_table \<Rightarrow> bool list \<Rightarrow> ht_table" where
  "with_allocs t as \<equiv> t\<lparr>bare := (bare t)\<lparr>allocs := as\<rparr>\<rparr>"

definition resized_ht :: "nat \<Rightarrow> ht_table \<Rightarrow> bool \<Rightarrow> ht_table \<Rightarrow> bool" where
  "resized_ht n t ok t' \<longleftrightarrow>
     (if ok \<and> n \<noteq> capacity (bare t) then rebuilt_ht n t t' else \<exists>as. t' = with_allocs t as) \<and>
     (allocs (bare t) = [] \<longrightarrow> ok \<and> allocs (bare t') = [])"

lemma next_pow2_sz_range:
  assumes "4 \<le> c" "c \<le> 65536"
  shows "pow2_cap (next_pow2_sz c)" "next_pow2_sz c \<le> 65536" "c \<le> next_pow2_sz c"
proof -
  obtain k where k: "next_pow2_sz c = 2 ^ k" "k \<le> 16" "c \<le> 2 ^ k" using next_pow2_sz_ok [of c] assms by auto
  have "2 \<le> k"
  proof (rule ccontr)
    assume "\<not> 2 \<le> k"
    then have "(2::nat) ^ k \<le> 2 ^ 1" by (intro power_increasing) auto
    with k(3) assms(1) show False by simp
  qed
  then show "pow2_cap (next_pow2_sz c)" using k pow2_capI [of k] by simp
  have "(2::nat) ^ k \<le> 2 ^ 16" using k(2) by (intro power_increasing) auto
  then show "next_pow2_sz c \<le> 65536" "c \<le> next_pow2_sz c" using k by simp_all
qed

lemma next_pow2_sz_id: "k \<le> 16 \<Longrightarrow> next_pow2_sz (2 ^ k) = 2 ^ k"
proof -
  assume "k \<le> 16"
  then have "(2::nat) ^ k \<le> 2 ^ 16" by (intro power_increasing) auto
  then have "(2::nat) ^ k \<le> 65536" by simp
  then show ?thesis using next_pow2_sz_least [of "2 ^ k" k] next_pow2_sz_ok [of "2 ^ k"] by (metis le_antisym order.refl pos2 zero_less_power)
qed

lemma set_table_resizing:
  assumes "bare_inv (bare t)"
  shows "bare_inv (bare (t\<lparr>bare := (bare t)\<lparr>resizing := x\<rparr>\<rparr>))" "rows (t\<lparr>bare := (bare t)\<lparr>resizing := x\<rparr>\<rparr>) = rows t"
    and "table_ok (t\<lparr>bare := (bare t)\<lparr>resizing := x\<rparr>\<rparr>) = table_ok t"
  using set_resizing [OF assms, of x] by (simp_all add: rows_def table_ok_def)

lemma rebuilt_resizing:
  assumes "rebuilt_ht n (t\<lparr>bare := (bare t)\<lparr>resizing := True\<rparr>\<rparr>) t'" "bare_inv (bare t)" "\<not> resizing (bare t)"
  shows "rebuilt_ht n t (t'\<lparr>bare := (bare t')\<lparr>resizing := False\<rparr>\<rparr>)"
proof -
  have b: "bare_inv (bare t')" using assms(1) by (simp add: rebuilt_ht_def)
  show ?thesis
    using assms(1,3) set_table_resizing [OF b, of False] set_table_resizing(2) [OF assms(2), of True] set_resizing [OF b, of False]
    by (simp add: rebuilt_ht_def keyed_rows_def)
qed

lemma ht_resize_ok:
  assumes inv: "bare_inv (bare t)" and ok: "table_ok t" and nr: "\<not> resizing (bare t)"
    and c: "4 \<le> c" "c \<le> 65536" and room: "size (contents (bare t)) - spill_len (bare t) \<le> c"
  shows "\<exists>ok t'. ht_resize t c = Some (ok, t') \<and> resized_ht (next_pow2_sz c) t ok t'"
proof -
  let ?n = "next_pow2_sz c" and ?t = "t\<lparr>bare := (bare t)\<lparr>resizing := True\<rparr>\<rparr>"
  note n = next_pow2_sz_range [OF c]
  have live: "\<not> c < main_live (bare t)"
    using room main_live_eq [OF inv] size_contents [OF bare_invD(1) [OF inv]] by simp
  show ?thesis
  proof (cases "?n = capacity (bare t)")
    case True
    have "\<exists>as. t = with_allocs t as" by (rule exI [of _ "allocs (bare t)"]) simp
    then have "resized_ht ?n t True t" using True by (simp add: resized_ht_def)
    moreover have "ht_resize t c = Some (True, t)" using live nr True by (simp add: ht_resize_def)
    ultimately show ?thesis by blast
  next
    case False
    note r = set_table_resizing [OF inv, of True]
    have room': "size (contents (bare ?t)) - spill_len (bare ?t) \<le> ?n" using room n(3) set_resizing(2) [OF inv, of True] by simp
    obtain ok1 t1 where t1: "ht_rebuild ?t ?n = Some (ok1, t1)"
      "if ok1 then rebuilt_ht ?n ?t t1 else \<exists>as. t1 = with_allocs ?t as"
      "allocs (bare ?t) = [] \<longrightarrow> ok1 \<and> allocs (bare t1) = []"
      using ht_rebuild_ok [OF r(1) _ n(1,2) room'] r(3) ok by auto
    let ?t1 = "t1\<lparr>bare := (bare t1)\<lparr>resizing := False\<rparr>\<rparr>"
    have eq: "ht_resize t c = Some (ok1, ?t1)"
      using live nr False t1(1) by (simp add: ht_resize_def Let_def)
    have "resized_ht ?n t ok1 ?t1"
    proof (cases ok1)
      case True
      then show ?thesis using t1 rebuilt_resizing [of ?n t t1] inv nr False by (simp add: resized_ht_def)
    next
      case no: False
      then obtain as where as: "t1 = with_allocs ?t as" using t1(2) by auto
      have "?t1 = with_allocs t as" using nr by (simp add: as)
      then show ?thesis using no t1(3) by (auto simp: resized_ht_def)
    qed
    with eq show ?thesis by blast
  qed
qed

section \<open>New entries\<close>

lemma grow_entries_ok:
  assumes ok: "table_ok t"
  obtains g t1 as es where "grow_entries t = (g, t1)"
    and "\<not> g \<Longrightarrow> t1 = with_allocs t as"
    and "g \<Longrightarrow> t1 = t\<lparr>bare := (bare t)\<lparr>allocs := as\<rparr>, entries := entries t @ es, entry_cap := length (entries t @ es),
      entries_in_block := entries_in_block t1\<rparr> \<and> entry_count t < length (entries t @ es)"
    and "allocs (bare t) = [] \<Longrightarrow> g \<and> as = []"
proof (cases "entry_count t \<ge> entry_cap t")
  case False
  then show ?thesis
    using that [of True t "allocs (bare t)" "[]"] table_okD(1) [OF ok] by (simp add: grow_entries_def)
next
  case True
  let ?as = "snd (take_alloc (allocs (bare t)))" and ?g = "fst (take_alloc (allocs (bare t)))"
  have c: "entry_count t = entry_cap t" "entry_cap t < 2 ^ 32" "length (entries t) = entry_cap t"
    using True table_okD(1-3) [OF ok] by auto
  define m where "m = (if entry_cap t = 0 then 64 else entry_cap t * 2)"
  have m: "entry_cap t < m" by (auto simp: m_def)
  let ?t1 = "t\<lparr>bare := (bare t)\<lparr>allocs := ?as\<rparr>, entries := entries t @ replicate (m - entry_cap t) zero_entry, entry_cap := m,
      entries_in_block := False\<rparr>"
  have "(if entry_cap t = 0 then 64 else if entry_cap t > SIZE_MAX div 2 then SIZE_MAX else entry_cap t * 2) = m"
    using c(2) by (simp add: m_def SIZE_MAX_def)
  then have "grow_entries t = (if ?g then (True, ?t1) else (False, with_allocs t ?as))"
    using True c by (simp add: grow_entries_def malloc_eq Let_def)
  moreover have "allocs (bare t) = [] \<longrightarrow> ?g \<and> ?as = []" by (simp add: take_alloc_def)
  ultimately show ?thesis
    using that [of ?g "if ?g then ?t1 else with_allocs t ?as" ?as "replicate (m - entry_cap t) zero_entry"] m c
    by (cases ?g) auto
qed

lemma grown_rows:
  fixes as :: "bool list" and es :: "ht_entry list" and x :: bool
  assumes ok: "table_ok t"
  defines "t1 \<equiv> t\<lparr>bare := (bare t)\<lparr>allocs := as\<rparr>, entries := entries t @ es, entry_cap := length (entries t @ es), entries_in_block := x\<rparr>"
  shows "table_ok t1" "rows t1 = rows t" "contents (bare t1) = contents (bare t)"
proof -
  show c: "contents (bare t1) = contents (bare t)"
    by (simp add: t1_def contents_def spill_entries_def overflow_entries_def)
  have n: "entries t1 ! unat (snd x) = entries t ! unat (snd x)" if "x \<in># contents (bare t)" for x
    using table_okD(1,2,4) [OF ok] that by (fastforce simp: t1_def nth_append)
  show "rows t1 = rows t" unfolding rows_def c by (rule image_mset_cong) (simp add: row_of_def n)
  show "table_ok t1"
    using ok table_okD(4,5) [OF ok] n c by (simp add: table_ok_def, simp add: t1_def)
qed

end
