(* ===== verification/Ht_Put.thy ===== *)
theory Ht_Put
  imports Ht_Grow
begin

text \<open>
  Insertion into a key-value table: the plain insertion, the one that replaces the rows of a key
  (\<open>ht_upsert\<close>) and the one that refuses a duplicate (\<open>ht_unsert\<close>).
\<close>

section \<open>Insertion into the index\<close>

lemma index_insert_ok:
  assumes ins: "insertable b" and v: "v \<noteq> VAL_NONE"
  shows "\<exists>ok b'. rebuild_insert b (hash AND HASH_MASK) v = Some (ok, b') \<and> bare_inv b' \<and> capacity b' = capacity b \<and>
    contents b' = (if ok then add_mset (hpd_hash hash, v) (contents b) else contents b) \<and>
    (\<not> hpd_hash hash < 2 \<longrightarrow> ok)"
proof -
  have h: "hash AND HASH_MASK = hpd_hash hash" by (simp add: hpd_hash_def)
  show ?thesis
  proof (cases "hpd_hash hash < 2")
    case True
    then have "rebuild_insert b (hpd_hash hash) v = ht_bare_insert b hash v"
      using v by (simp add: rebuild_insert_def ht_bare_insert_def h)
    moreover have "bare_inv b" using ins by (simp add: insertable_def)
    ultimately show ?thesis using bare_insert_spill_ok [OF _ v True, of b] True unfolding h by auto
  next
    case False
    then obtain b' where "bare_rh_insert_bounded b (hpd_hash hash) v = Some (True, b')" "inserted b (hpd_hash hash) v b'"
      using insertable_insert [OF ins _ hpd_hash_idem v, of hash] by (auto simp: hpd_live_def not_less)
    then show ?thesis using False unfolding h by (auto simp: rebuild_insert_def inserted_def same_config_def)
  qed
qed

text \<open>The insertion of the key-value table, as an index operation.\<close>

definition table_ready :: "ht_bare \<Rightarrow> bool" where
  "table_ready b \<longleftrightarrow> insertable b \<and> capacity b < 65536"

definition table_index_insert :: "ht_bare \<Rightarrow> u64 \<Rightarrow> u32 \<Rightarrow> (bool \<times> ht_bare) option" where
  "table_index_insert b hash v = rebuild_insert b (hash AND HASH_MASK) v"

interpretation tg: growing_index searchable contents bare_values ht_bare_remove_val frame table_ready table_index_insert
proof
  show "searchable b" if "table_ready b" for b
    using that by (simp add: table_ready_def insertable_def searchable_def)
next
  fix b v hash
  assume "table_ready b" "v \<noteq> VAL_NONE"
  then have a: "insertable b" "capacity b < 65536" "v \<noteq> VAL_NONE" by (simp_all add: table_ready_def)
  note r = index_insert_ok [OF a(1,3), of hash]
  show "\<exists>ok b'. table_index_insert b hash v = Some (ok, b')" using r by (auto simp: table_index_insert_def)
  show "searchable b'" if "table_index_insert b hash v = Some (ok, b')" for ok b'
    using that r a(2) by (auto simp: table_index_insert_def searchable_def)
  show "contents b' = (if ok then add_mset (hpd_hash hash, v) (contents b) else contents b)"
    if "table_index_insert b hash v = Some (ok, b')" for ok b' using that r by (auto simp: table_index_insert_def)
qed

section \<open>New entries in the entry array\<close>

text \<open>An entry that no index entry names yet is no row.\<close>

lemma append_unused:
  fixes e :: ht_entry
  assumes ok: "table_ok t" and room: "entry_count t < entry_cap t" "entry_count t < 2 ^ 32 - 1"
    and c: "contents b = contents (bare t)"
  defines "t' \<equiv> t\<lparr>entry_count := Suc (entry_count t), entries := (entries t)[entry_count t := e], bare := b\<rparr>"
  shows "table_ok t'" "rows t' = rows t"
proof -
  have lt: "unat (snd x) < entry_count t" if "x \<in># contents (bare t)" for x using that by (rule table_okD(4) [OF ok])
  have old: "entries t' ! unat (snd x) = entries t ! unat (snd x)" if "x \<in># contents (bare t)" for x
    using lt [OF that] by (simp add: t'_def)
  have "rows t' = image_mset (row_of (entries t')) (contents (bare t))" by (simp add: rows_def t'_def c)
  also have "\<dots> = rows t" unfolding rows_def by (rule image_mset_cong) (simp add: row_of_def old)
  finally show "rows t' = rows t" .
  show "table_ok t'"
    using ok room lt old table_okD(1,5) [OF ok] by (simp add: table_ok_def t'_def c less_SucI)
qed

definition entry_added :: "ht_table \<Rightarrow> u16 \<Rightarrow> u8 list \<Rightarrow> u8 list \<Rightarrow> u32 \<Rightarrow> ht_table \<Rightarrow> bool" where
  "entry_added t hh key value eidx t' \<longleftrightarrow>
     (\<exists>as. bare t' = (bare t)\<lparr>allocs := as\<rparr>) \<and> eq_fn t' = eq_fn t \<and> hash_fn t' = hash_fn t \<and>
     (\<forall>b. contents b = contents (bare t) \<longrightarrow> table_ok (t'\<lparr>bare := b\<rparr>) \<and> rows (t'\<lparr>bare := b\<rparr>) = rows t) \<and>
     (\<forall>b h. eidx \<noteq> VAL_NONE \<longrightarrow> contents b = add_mset (h, eidx) (contents (bare t)) \<longrightarrow>
        table_ok (t'\<lparr>bare := b\<rparr>) \<and> rows (t'\<lparr>bare := b\<rparr>) = add_mset (hpd_pack h hh, key, value) (rows t))"

lemma entry_added_none:
  assumes "table_ok u" "contents (bare u) = contents (bare t)" "rows u = rows t" "eq_fn u = eq_fn t" "hash_fn u = hash_fn t"
    "bare u = (bare t)\<lparr>allocs := as\<rparr>"
  shows "entry_added t hh key value VAL_NONE u"
  using assms by (auto simp: entry_added_def table_ok_def rows_def)

lemma entry_added_some:
  assumes ok: "table_ok u" and room: "entry_count u < entry_cap u" "entry_count u < 2 ^ 32 - 1"
    and u: "contents (bare u) = contents (bare t)" "rows u = rows t" "eq_fn u = eq_fn t" "hash_fn u = hash_fn t"
      "bare u = (bare t)\<lparr>allocs := as\<rparr>"
    and k: "length key \<le> 65535" "length value < 2 ^ 32"
  shows "entry_added t hh key value (word_of_nat (entry_count u))
    (u\<lparr>entry_count := Suc (entry_count u), entries := (entries u)[entry_count u :=
       \<lparr>key_len = word_of_nat (length key), hash_hi = hh, val_len = word_of_nat (length value), kv_ptr = Some (kv_block key value)\<rparr>]\<rparr>)"
    (is "entry_added t hh key value ?i (u\<lparr>entry_count := ?n, entries := (entries u)[entry_count u := ?e]\<rparr>)")
proof -
  have e: "ht_entry_key ?e = key" "ht_entry_val ?e = value" "entry_wf ?e" "hash_hi ?e = hh"
    using k unat_word_of_nat(2) [of "length value"] unat_word_of_nat(3) [of "length key"]
    by (auto intro!: kv_block_read)
  have "table_ok (u\<lparr>entry_count := ?n, entries := (entries u)[entry_count u := ?e], bare := b\<rparr>) \<and>
      rows (u\<lparr>entry_count := ?n, entries := (entries u)[entry_count u := ?e], bare := b\<rparr>) = rows t"
    if "contents b = contents (bare t)" for b
    using append_unused [OF ok room, of b ?e] that u(1,2) by simp
  moreover have "table_ok (u\<lparr>entry_count := ?n, entries := (entries u)[entry_count u := ?e], bare := b\<rparr>) \<and>
      rows (u\<lparr>entry_count := ?n, entries := (entries u)[entry_count u := ?e], bare := b\<rparr>) = add_mset (hpd_pack h hh, key, value) (rows t)"
    if "contents b = add_mset (h, ?i) (contents (bare t))" for b h
    using append_entry [OF ok room e(3), of b h] that u(1,2) e(1,2,4) by simp
  ultimately show ?thesis
    using u(3-5) unfolding entry_added_def by (intro conjI exI [of _ as] allI impI) simp_all
qed

lemma alloc_entry_ok:
  assumes ok: "table_ok t" and n: "entry_count t < 2 ^ 32 - 1" and k: "length key \<le> 65535" "length value < 2 ^ 32"
  shows "\<exists>eidx t'. alloc_entry t hh key value = (eidx, t') \<and> entry_added t hh key value eidx t' \<and>
    (allocs (bare t) = [] \<longrightarrow> eidx \<noteq> VAL_NONE)"
proof -
  have c: "contents ((bare t)\<lparr>allocs := x\<rparr>) = contents (bare t)" for x
    by (simp add: contents_def spill_entries_def overflow_entries_def)
  obtain g t1 as es where g: "grow_entries t = (g, t1)" "\<not> g \<Longrightarrow> t1 = with_allocs t as"
    "g \<Longrightarrow> t1 = t\<lparr>bare := (bare t)\<lparr>allocs := as\<rparr>, entries := entries t @ es, entry_cap := length (entries t @ es),
      entries_in_block := entries_in_block t1\<rparr> \<and> entry_count t < length (entries t @ es)"
    "allocs (bare t) = [] \<Longrightarrow> g \<and> as = []"
    using grow_entries_ok [OF ok] by metis
  show ?thesis
  proof (cases g)
    case False
    then have "entry_added t hh key value VAL_NONE t1"
      using g(2) ok c by (intro entry_added_none [of _ _ as]) (auto simp: rows_def table_ok_def)
    moreover have "alloc_entry t hh key value = (VAL_NONE, t1)" using False g(1) k by (simp add: alloc_entry_def)
    ultimately show ?thesis using False g(4) by blast
  next
    case True
    let ?ok = "fst (take_alloc as)" and ?as = "snd (take_alloc as)"
    obtain x where x: "t1 = t\<lparr>bare := (bare t)\<lparr>allocs := as\<rparr>, entries := entries t @ es, entry_cap := length (entries t @ es), entries_in_block := x\<rparr>"
      and lt: "entry_count t < length (entries t @ es)" using g(3) True by blast
    define u where "u = t\<lparr>bare := (bare t)\<lparr>allocs := ?as\<rparr>, entries := entries t @ es, entry_cap := length (entries t @ es), entries_in_block := x\<rparr>"
    have al: "kv_alloc t1 = (?ok, u)" by (simp add: kv_alloc_def malloc_eq x u_def)
    have u: "table_ok u" "rows u = rows t" "contents (bare u) = contents (bare t)"
      using grown_rows [OF ok, where as = ?as and es = es and x = x] by (simp_all add: u_def)
    have f: "entry_count u = entry_count t" "entry_cap u = length (entries t @ es)" "eq_fn u = eq_fn t" "hash_fn u = hash_fn t"
      "bare u = (bare t)\<lparr>allocs := ?as\<rparr>" by (simp_all add: u_def)
    let ?i = "word_of_nat (entry_count t) :: u32"
    have i: "unat ?i = entry_count t" using n by (intro unat_word_of_nat) simp
    have "?i \<noteq> VAL_NONE" using i n by (auto simp: VAL_NONE_def)
    moreover have "allocs (bare t) = [] \<longrightarrow> ?ok" using g(4) by (auto simp: take_alloc_def)
    moreover have "entry_added t hh key value VAL_NONE u" using u f by (intro entry_added_none [of _ _ ?as]) auto
    moreover have "sz_add (entry_count t) 1 = Suc (entry_count t)" using n by (simp add: sz_add_small)
    ultimately show ?thesis
      using entry_added_some [of u t ?as key "value" hh] u f lt n k g(1) True al i
      by (cases ?ok) (simp_all add: alloc_entry_def Let_def)
  qed
qed

section \<open>Room after a rebuild\<close>

lemma live_rows:
  assumes "bare_inv (bare t)"
  shows "size (filter_mset (\<lambda>r. hpd_live (fst r)) (rows t)) = size (contents (bare t)) - spill_len (bare t)"
proof -
  have "filter_mset (\<lambda>r. hpd_live (fst r)) (rows t) =
      image_mset (row_of (entries t)) (filter_mset (\<lambda>x. hpd_live (fst x)) (contents (bare t)))"
    by (simp add: rows_def filter_mset_image_mset row_of_def Let_def)
  also have "filter_mset (\<lambda>x. hpd_live (fst x)) (contents (bare t)) = mset (filter (\<lambda>x. hpd_live (fst x)) (rebuild_sources (bare t)))"
    by (simp add: mset_rebuild_sources [OF assms])
  finally show ?thesis using live_sources(1) [OF assms] by (simp del: mset_filter)
qed

lemma rebuilt_insertable:
  assumes r: "rebuilt_ht n t t'" and inv: "bare_inv (bare t)" and key: "keyed t" and n: "n \<le> 65536" and nr: "\<not> resizing (bare t)"
    and room: "size (contents (bare t)) - spill_len (bare t) + n div 4 < n" and sz: "2 * tsize (bare t) \<le> 65536"
  shows "insertable (bare t')"
proof -
  have inv': "bare_inv (bare t')" and c: "capacity (bare t') = n" and rows: "rows t' = rows t"
    using r keyed_rows_id [OF key] by (simp_all add: rebuilt_ht_def)
  have "size (contents (bare t')) - spill_len (bare t') = size (contents (bare t)) - spill_len (bare t)"
    using live_rows [OF inv] live_rows [OF inv'] rows by simp
  moreover have "tombs (bare t') \<le> n div 4" using r by (simp add: rebuilt_ht_def)
  ultimately have "has_empty (bare t')" using inv' room c by (intro has_empty_room) simp_all
  moreover have "tsize (bare t') = tsize (bare t)"
    using counts_okD(1) [OF inv] counts_okD(1) [OF inv'] size_rows [of t] size_rows [of t'] rows by simp
  ultimately show ?thesis using r n nr sz c by (simp add: insertable_def rebuilt_ht_def tomb_safe_def)
qed

section \<open>Insertion\<close>

text \<open>
  What an insertion relies on: an index that takes insertions and is not about to outgrow the
  16-bit probe distances, no row with an empty key, and an entry index below the reserved value.
\<close>

definition table_open :: "ht_table \<Rightarrow> bool" where
  "table_open t \<longleftrightarrow>
     insertable (bare t) \<and> table_ok t \<and> keyed t \<and> 64 \<le> capacity (bare t) \<and> 4 * capacity (bare t) \<le> 65536 \<and>
     entry_count t < 2 ^ 32 - 1 \<and> (over_load (bare t) \<longrightarrow> 0 < tsize (bare t))"

lemma insertable_room:
  assumes "insertable b" "64 \<le> capacity b"
  shows "size (contents b) - spill_len b + 2 * capacity b div 4 < 2 * capacity b"
proof -
  have inv: "bare_inv b" and s: "shape_ok b" and e: "has_empty b" using assms(1) by (auto simp: insertable_def bare_invD)
  have "0 < length (filter hpd_empty (hash_pd b))" using e by (auto simp: has_empty_def list_ex_iff filter_empty_conv)
  then have "length (filter hpd_live (hash_pd b)) < capacity b"
    using filter_sum_le [of "hash_pd b"] shape_okD(2) [OF s] by linarith
  moreover have "size (contents b) - spill_len b = length (filter hpd_live (hash_pd b)) + overflow_len b"
    using size_contents [OF s] by simp
  moreover have "overflow_len b \<le> 32" using s by (simp add: shape_ok_def HT_OVERFLOW_STASH_CAP_def)
  moreover obtain m where "capacity b = 2 ^ m" "2 \<le> m" using pow2_capD [OF shape_okD(1) [OF s]] by metis
  then have "even (capacity b)" by simp
  ultimately show ?thesis using assms(2) by (elim evenE) linarith
qed

lemma make_room_ok:
  assumes t: "table_open t"
  shows "\<exists>ok t1. (if \<not> resizing (bare t) \<and> over_load (bare t)
        then (if capacity (bare t) > SIZE_MAX div 2 then Some (False, t)
              else Option.bind (ht_resize t (sz_mul (capacity (bare t)) 2))
                (\<lambda>r. if \<not> fst r then Some r
                     else if tsize (bare (snd r)) = 0
                     then Some (False, (snd r)\<lparr>bare := (bare (snd r))\<lparr>resizing := False, tsize := 0, tombstone_cnt := 0\<rparr>\<rparr>)
                     else Some r))
        else Some (True, t)) = Some (ok, t1) \<and>
      table_ok t1 \<and> rows t1 = rows t \<and> eq_fn t1 = eq_fn t \<and> hash_fn t1 = hash_fn t \<and> insertable (bare t1) \<and>
      capacity (bare t1) < 65536 \<and> entry_count t1 < 2 ^ 32 - 1 \<and> (allocs (bare t) = [] \<longrightarrow> ok \<and> allocs (bare t1) = [])"
proof (cases "over_load (bare t)")
  case False
  then show ?thesis using t by (auto simp: table_open_def ex_bool_eq)
next
  case True
  let ?n = "2 * capacity (bare t)"
  have ins: "insertable (bare t)" and inv: "bare_inv (bare t)" and ok: "table_ok t" and nr: "\<not> resizing (bare t)" and key: "keyed t"
    and sz: "2 * tsize (bare t) \<le> 65536" "0 < tsize (bare t)" and cap: "64 \<le> capacity (bare t)" "4 * capacity (bare t) \<le> 65536"
    and cnt: "entry_count t < 2 ^ 32 - 1"
    using t True by (auto simp: table_open_def insertable_def)
  have "pow2_cap (capacity (bare t))" using inv by (simp add: bare_invD shape_okD)
  then obtain m where m: "capacity (bare t) = 2 ^ m" by (rule pow2_capD)
  have "(2::nat) ^ Suc m \<le> 2 ^ 15" using cap(2) m by simp
  then have "Suc m \<le> 15" by (rule power_le_imp_le_exp [rotated]) simp
  then have n: "next_pow2_sz ?n = ?n" using next_pow2_sz_id [of "Suc m"] m by simp
  note room = insertable_room [OF ins cap(1)]
  obtain ok1 t1 where t1: "ht_resize t ?n = Some (ok1, t1)" "resized_ht ?n t ok1 t1"
    using ht_resize_ok [OF inv ok nr, of ?n] n room cap by auto
  have mul: "sz_mul (capacity (bare t)) 2 = ?n" "\<not> SIZE_MAX div 2 < capacity (bare t)"
    using cap(2) by (simp_all add: sz_mul_small SIZE_MAX_def)
  show ?thesis
  proof (cases ok1)
    case False
    then obtain as where as: "t1 = with_allocs t as" using t1(2) by (auto simp: resized_ht_def)
    have "allocs (bare t) \<noteq> []" using t1(2) False by (auto simp: resized_ht_def)
    moreover have "insertable (bare t1)" "contents (bare t1) = contents (bare t)"
      using ins set_allocs [OF inv, of as] by (simp_all add: as insertable_def has_empty_def gap_ok_def tomb_safe_def)
    then have "table_ok t1" "rows t1 = rows t" "insertable (bare t1)" using ok as by (simp_all add: table_ok_def rows_def)
    ultimately show ?thesis using True nr mul t1(1) False cnt cap as by (simp add: ex_bool_eq)
  next
    case ok1: True
    have r: "rebuilt_ht ?n t t1" using t1(2) ok1 cap(1) by (simp add: resized_ht_def)
    have "insertable (bare t1)" using rebuilt_insertable [OF r inv key _ nr room] sz cap by simp
    moreover have same: "rows t1 = rows t" "size (contents (bare t1)) = size (contents (bare t))"
      using r keyed_rows_id [OF key] size_rows [of t] size_rows [of t1] by (simp_all add: rebuilt_ht_def)
    moreover have "tsize (bare t1) = tsize (bare t)"
      using r counts_okD(1) [OF inv] counts_okD(1) [of "bare t1"] same(2) by (simp add: rebuilt_ht_def)
    moreover have "entry_count t1 < 2 ^ 32 - 1" using r cnt size_contents_entries [OF ok] same(2) by (simp add: rebuilt_ht_def)
    moreover have "allocs (bare t) = [] \<longrightarrow> allocs (bare t1) = []" using t1(2) by (simp add: resized_ht_def)
    moreover have "table_ok t1" "eq_fn t1 = eq_fn t" "hash_fn t1 = hash_fn t" "capacity (bare t1) = ?n"
      using r by (simp_all add: rebuilt_ht_def)
    ultimately show ?thesis using True nr mul t1(1) ok1 sz(2) cap(2) by (simp add: ex_bool_eq)
  qed
qed

lemma insert_new_ok:
  assumes t: "table_open t" and k: "length key \<le> 65535" "length value < 2 ^ 32"
  shows "\<exists>r t'. insert_new t hash key value = Some (r, t') \<and> table_inv t' \<and> eq_fn t' = eq_fn t \<and> hash_fn t' = hash_fn t \<and>
    (r = HT_INSERT_OK \<and> rows t' = add_mset (hash, key, value) (rows t) \<or> r = HT_INSERT_FAILED \<and> rows t' = rows t) \<and>
    (allocs (bare t) = [] \<and> \<not> hpd_hash hash < 2 \<longrightarrow> r = HT_INSERT_OK)"
proof -
  obtain ok t1 where t1: "(if \<not> resizing (bare t) \<and> over_load (bare t)
        then (if capacity (bare t) > SIZE_MAX div 2 then Some (False, t)
              else Option.bind (ht_resize t (sz_mul (capacity (bare t)) 2))
                (\<lambda>r. if \<not> fst r then Some r
                     else if tsize (bare (snd r)) = 0
                     then Some (False, (snd r)\<lparr>bare := (bare (snd r))\<lparr>resizing := False, tsize := 0, tombstone_cnt := 0\<rparr>\<rparr>)
                     else Some r))
        else Some (True, t)) = Some (ok, t1)"
    "table_ok t1" "rows t1 = rows t" "eq_fn t1 = eq_fn t" "hash_fn t1 = hash_fn t" "insertable (bare t1)"
    "capacity (bare t1) < 65536" "entry_count t1 < 2 ^ 32 - 1" "allocs (bare t) = [] \<longrightarrow> ok \<and> allocs (bare t1) = []"
    using make_room_ok [OF t] by blast
  have s1: "searchable (bare t1)" using t1(6,7) by (simp add: searchable_def insertable_def)
  obtain i t2 where t2: "alloc_entry t1 (hash_hi_of hash) key value = (i, t2)" "entry_added t1 (hash_hi_of hash) key value i t2"
    "allocs (bare t1) = [] \<longrightarrow> i \<noteq> VAL_NONE"
    using alloc_entry_ok [OF t1(2,8) k] by blast
  obtain as where b2: "bare t2 = (bare t1)\<lparr>allocs := as\<rparr>" using t2(2) by (auto simp: entry_added_def)
  have inv1: "bare_inv (bare t1)" using t1(6) by (simp add: insertable_def)
  have ins2: "insertable (bare t2)" "searchable (bare t2)" and c2: "contents (bare t2) = contents (bare t1)"
    using t1(6,7) s1 set_allocs [OF inv1, of as]
    by (simp_all add: b2 insertable_def has_empty_def gap_ok_def tomb_safe_def searchable_def)
  have f2: "eq_fn t2 = eq_fn t" "hash_fn t2 = hash_fn t" using t2(2) t1(4,5) by (simp_all add: entry_added_def)
  have k2: "table_ok t2" "rows t2 = rows t1"
    using t2(2) c2 unfolding entry_added_def by (metis ht_table.surjective ht_table.update_convs(1))+
  have pack: "hpd_pack (hpd_hash hash) (hash_hi_of hash) = hash" by (simp add: hpd_pd_hash_hi)
  have eq: "insert_new t hash key value = (if \<not> ok then Some (HT_INSERT_FAILED, t1)
      else if i = VAL_NONE then Some (HT_INSERT_FAILED, t2)
      else Option.bind (rebuild_insert (bare t2) (hash AND HASH_MASK) i)
             (\<lambda>q. Some (if fst q then HT_INSERT_OK else HT_INSERT_FAILED, t2\<lparr>bare := snd q\<rparr>)))"
    unfolding insert_new_def t1(1) by (simp add: t2(1))
  show ?thesis
  proof (cases "ok \<and> i \<noteq> VAL_NONE")
    case False
    then show ?thesis
      using eq t1(2-5,9) s1 t2(3) k2 f2 ins2(2) by (cases ok) (auto simp: table_inv_def)
  next
    case True
    obtain q b' where b': "rebuild_insert (bare t2) (hash AND HASH_MASK) i = Some (q, b')" "bare_inv b'"
      "capacity b' = capacity (bare t2)" "\<not> hpd_hash hash < 2 \<longrightarrow> q"
      "contents b' = (if q then add_mset (hpd_hash hash, i) (contents (bare t2)) else contents (bare t2))"
      using index_insert_ok [OF ins2(1), of i hash] True by blast
    have s': "searchable b'" using b'(2,3) t1(7) b2 by (simp add: searchable_def)
    have "table_ok (t2\<lparr>bare := b'\<rparr>) \<and>
        rows (t2\<lparr>bare := b'\<rparr>) = (if q then add_mset (hash, key, value) (rows t1) else rows t1)"
      using t2(2) b'(5) c2 True pack unfolding entry_added_def by (metis (full_types))
    then show ?thesis
      using eq True b'(1,4) s' t1(3) f2 by (cases q) (auto simp: table_inv_def)
  qed
qed

section \<open>Upsert\<close>

text \<open>An entry of the array replaced, its index entry kept.\<close>

lemma replace_entry:
  assumes inv: "table_inv t" and x: "(h, v) \<in># contents (bare t)" and e: "entry_wf e" "hash_hi e = hash_hi (entries t ! unat v)"
  defines "t' \<equiv> t\<lparr>entries := (entries t)[unat v := e]\<rparr>"
  shows "table_inv t'" "rows t = add_mset (row_of (entries t) (h, v)) (rows t - {#row_of (entries t) (h, v)#})"
    "rows t' = add_mset (hpd_pack h (hash_hi e), ht_entry_key e, ht_entry_val e) (rows t - {#row_of (entries t) (h, v)#})"
    "\<And>u. u \<noteq> v \<Longrightarrow> entries t' ! unat u = entries t ! unat u"
proof -
  have ok: "table_ok t" using inv by (simp add: table_inv_def)
  have lt: "unat v < length (entries t)" using table_okD(1,2,4) [OF ok] x by fastforce
  obtain C where C: "contents (bare t) = add_mset (h, v) C" using x by (metis insert_DiffM)
  have fresh: "snd y \<noteq> v" if "y \<in># C" for y
  proof
    assume "snd y = v"
    then have "0 < count (image_mset snd C) v" using that by (auto simp: count_greater_zero_iff)
    moreover have "count (image_mset snd (contents (bare t))) v = Suc (count (image_mset snd C) v)" by (simp add: C)
    ultimately show False using table_okD(6) [OF ok, of v] by linarith
  qed
  show other: "entries t' ! unat u = entries t ! unat u" if "u \<noteq> v" for u
    using that by (simp add: t'_def word_unat_eq_iff)
  have r: "image_mset (row_of (entries t')) C = image_mset (row_of (entries t)) C"
    using fresh other by (intro image_mset_cong) (simp add: row_of_def)
  have new: "entries t' ! unat v = e" using lt by (simp add: t'_def)
  show "rows t = add_mset (row_of (entries t) (h, v)) (rows t - {#row_of (entries t) (h, v)#})"
    by (simp add: rows_def C)
  show "rows t' = add_mset (hpd_pack h (hash_hi e), ht_entry_key e, ht_entry_val e) (rows t - {#row_of (entries t) (h, v)#})"
    using r new by (simp add: rows_def C t'_def row_of_def Let_def)
  have "entry_wf (entries t' ! unat (snd y))" if "y \<in># contents (bare t)" for y
    using that table_okD(5) [OF ok that] new e(1) other [of "snd y"] by (cases "snd y = v") auto
  then show "table_inv t'" using inv by (simp add: table_inv_def table_ok_def t'_def)
qed

lemma update_entry_value_ok:
  assumes inv: "table_inv t" and x: "(h, v) \<in># contents (bare t)"
    and key: "unat (key_len (entries t ! unat v)) = length key" and val: "length value < 2 ^ 32"
  obtains ok t' k where "update_entry_value t v key value = (ok, t')" "table_inv t'" "eq_fn t' = eq_fn t" "hash_fn t' = hash_fn t"
    "contents (bare t') = contents (bare t)"
    "if ok then rows t' = add_mset (hpd_pack h (hash_hi (entries t ! unat v)), k, value) (rows t - {#row_of (entries t) (h, v)#}) \<and>
        (\<forall>u. u \<noteq> v \<longrightarrow> entries t' ! unat u = entries t ! unat u)
     else rows t' = rows t"
    "k = key \<or> k = ht_entry_key (entries t ! unat v)" "allocs (bare t) = [] \<longrightarrow> ok"
proof -
  let ?e = "entries t ! unat v"
  have wf: "entry_wf ?e" using inv x table_okD(5) [of t "(h, v)"] by (simp add: table_inv_def)
  show thesis
  proof (cases "length value = unat (val_len ?e)")
    case True
    define e where "e = ?e\<lparr>kv_ptr := Some (take (ht_entry_key_storage (length key)) (kv_bytes ?e) @ value @
        drop (ht_entry_key_storage (length key) + length value) (kv_bytes ?e))\<rparr>"
    have e: "ht_entry_key e = ht_entry_key ?e" "ht_entry_val e = value" "entry_wf e" "hash_hi e = hash_hi ?e"
      using patched_entry [OF wf key True] by (simp_all add: e_def)
    note r = replace_entry [OF inv x e(3,4)]
    show thesis
      using that [of True "t\<lparr>entries := (entries t)[unat v := e]\<rparr>" "ht_entry_key ?e"] r e True
      by (simp add: update_entry_value_def e_def Let_def)
  next
    case False
    let ?as = "snd (take_alloc (allocs (bare t)))" and ?ok = "fst (take_alloc (allocs (bare t)))"
    let ?t1 = "with_allocs t ?as"
    have inv1: "table_inv ?t1" "rows ?t1 = rows t" using set_table_allocs [OF inv] by simp_all
    have c: "contents ((bare t)\<lparr>allocs := ?as\<rparr>) = contents (bare t)"
      by (simp add: contents_def spill_entries_def overflow_entries_def)
    define e where "e = ?e\<lparr>val_len := word_of_nat (length value), kv_ptr := Some (kv_block key value)\<rparr>"
    have e: "ht_entry_key e = key" "ht_entry_val e = value" "entry_wf e" "hash_hi e = hash_hi ?e"
      using kv_block_read [of e key "value"] key val unat_word_of_nat(2) [of "length value"] by (simp_all add: e_def)
    have r: "table_inv (?t1\<lparr>entries := (entries t)[unat v := e]\<rparr>)"
      "rows (?t1\<lparr>entries := (entries t)[unat v := e]\<rparr>) = add_mset (hpd_pack h (hash_hi ?e), key, value) (rows t - {#row_of (entries t) (h, v)#})"
      "\<And>u. u \<noteq> v \<Longrightarrow> (entries t)[unat v := e] ! unat u = entries t ! unat u"
      using replace_entry [OF inv1(1), of h v e] x c e inv1(2) by simp_all
    have "update_entry_value t v key value = (if ?ok then (True, ?t1\<lparr>entries := (entries t)[unat v := e]\<rparr>) else (False, ?t1))"
      using False by (simp add: update_entry_value_def kv_alloc_def malloc_eq Let_def e_def)
    moreover have "allocs (bare t) = [] \<longrightarrow> ?ok" by (simp add: take_alloc_def)
    ultimately show thesis
      using that [of ?ok "if ?ok then ?t1\<lparr>entries := (entries t)[unat v := e]\<rparr> else ?t1" key] r inv1 c
      by (cases ?ok) simp_all
  qed
qed

text \<open>
  The effect of an upsert on the rows: the rows that match go, and one row with the new value
  comes. Its key is the one given, or that of the row it overwrites in place.
\<close>

definition upserted :: "ht_table \<Rightarrow> u64 \<Rightarrow> u8 list \<Rightarrow> u8 list \<Rightarrow> row multiset \<Rightarrow> bool" where
  "upserted t hash key value R \<longleftrightarrow>
     (\<exists>k. (k = key \<or> row_matches t hash key (hash, k, value)) \<and>
        R = add_mset (hash, k, value) (filter_mset (\<lambda>r. \<not> row_matches t hash key r) (rows t)))"

lemma keys_match_len: "keys_match t hh key v \<Longrightarrow> unat (key_len (entries t ! unat v)) = length key"
  by (simp add: keys_match_def Let_def)

lemma upsert_hit_ok:
  assumes inv: "table_inv t" and v: "length value < 2 ^ 32"
    and hits: "key_hits t hash key = m # rest" and ms: "mset (m # rest') \<subseteq># mset (m # rest)" "distinct (m # rest')"
  obtains ok t2 where "update_entry_value t m key value = (ok, t2)" "allocs (bare t) = [] \<longrightarrow> ok"
    "\<not> ok \<longrightarrow> table_inv t2 \<and> rows t2 = rows t"
    "ok \<longrightarrow> table_inv (fold (drop_match hash) rest' t2) \<and> (rest' = rest \<longrightarrow> upserted t hash key value (rows (fold (drop_match hash) rest' t2)))"
    "eq_fn t2 = eq_fn t" "hash_fn t2 = hash_fn t"
proof -
  let ?h = "hpd_hash hash" and ?e = "entries t ! unat m"
  have stored: "(?h, u) \<in># contents (bare t)" if "u \<in> set (m # rest)" for u
    using key_hits_stored [OF inv, of u hash key] hits that by simp
  have km: "keys_match t (hash_hi_of hash) key m" using hits by (auto simp: key_hits_def filter_eq_Cons_iff)
  then have hh: "hpd_pack ?h (hash_hi ?e) = hash" by (simp add: keys_match_def Let_def hpd_pd_hash_hi)
  obtain ok t2 k where u: "update_entry_value t m key value = (ok, t2)" "table_inv t2" "eq_fn t2 = eq_fn t" "hash_fn t2 = hash_fn t"
    "contents (bare t2) = contents (bare t)"
    "if ok then rows t2 = add_mset (hash, k, value) (rows t - {#hit_row t hash m#}) \<and>
        (\<forall>u. u \<noteq> m \<longrightarrow> entries t2 ! unat u = entries t ! unat u)
     else rows t2 = rows t"
    "k = key \<or> k = ht_entry_key ?e" "allocs (bare t) = [] \<longrightarrow> ok"
    by (rule update_entry_value_ok [OF inv stored [OF list.set_intros(1)] keys_match_len [OF km] v, unfolded hh])
  have sub: "set rest' \<subseteq> set rest" using ms by (auto dest!: set_mset_mono)
  have "table_inv (fold (drop_match hash) rest' t2) \<and> (rest' = rest \<longrightarrow> upserted t hash key value (rows (fold (drop_match hash) rest' t2)))"
    if ok: ok
  proof -
    have d: "table_inv (fold (drop_match hash) rest' t2)"
      "rows t2 = image_mset (hit_row t2 hash) (mset rest') + rows (fold (drop_match hash) rest' t2)"
      using drop_matches_ok [OF u(2), of rest' hash] ms(2) stored sub u(5) by auto
    have same: "image_mset (hit_row t2 hash) (mset rest') = image_mset (hit_row t hash) (mset rest')"
      using u(6) ok ms(2) by (intro image_mset_cong) (auto simp: row_of_def Let_def)
    have m_in: "hit_row t hash m \<in># rows t" using stored [of m] by (auto simp: rows_def)
    have "upserted t hash key value (rows (fold (drop_match hash) rest' t2))" if rest: "rest' = rest"
    proof -
      let ?M = "filter_mset (row_matches t hash key) (rows t)" and ?N = "filter_mset (\<lambda>r. \<not> row_matches t hash key r) (rows t)"
      have M: "?M = add_mset (hit_row t hash m) (image_mset (hit_row t hash) (mset rest))"
        using key_hits_rows [OF inv, of hash key] hits by simp
      have "rows t = ?M + ?N" by (simp add: multiset_partition)
      then have "rows t - {#hit_row t hash m#} = image_mset (hit_row t hash) (mset rest) + ?N"
        unfolding M by (metis add_mset_remove_trivial union_mset_add_mset_left)
      then have R: "rows (fold (drop_match hash) rest' t2) = add_mset (hash, k, value) ?N"
        using d(2) same u(6) ok rest by simp
      have "row_matches t hash key (hit_row t hash m)" using M by (metis filter_mset_eq_conv union_single_eq_member)
      then have "k = key \<or> row_matches t hash key (hash, k, value)"
        using u(7) by (auto simp: row_matches_def row_of_def Let_def split: option.splits)
      with R show ?thesis unfolding upserted_def by blast
    qed
    with d(1) show ?thesis by blast
  qed
  then show thesis using that [OF u(1,8)] u(2-6) by simp
qed

section \<open>The three insertions\<close>

definition inserted_row :: "ht_table \<Rightarrow> row \<Rightarrow> ht_insert_result \<Rightarrow> ht_table \<Rightarrow> bool" where
  "inserted_row t x r t' \<longleftrightarrow>
     (r = HT_INSERT_OK \<and> rows t' = add_mset x (rows t) \<or> r = HT_INSERT_FAILED \<and> rows t' = rows t)"

lemma insert_with_hash_ok:
  assumes "table_open t" "length key \<le> 65535" "length value < 2 ^ 32"
  shows "\<exists>r t'. ht_insert_with_hash t hash key value = Some (r, t') \<and> table_inv t' \<and> inserted_row t (hash, key, value) r t' \<and>
    (allocs (bare t) = [] \<and> \<not> hpd_hash hash < 2 \<longrightarrow> r = HT_INSERT_OK)"
proof -
  obtain r t' where "insert_new t hash key value = Some (r, t')" "table_inv t'"
    "r = HT_INSERT_OK \<and> rows t' = add_mset (hash, key, value) (rows t) \<or> r = HT_INSERT_FAILED \<and> rows t' = rows t"
    "allocs (bare t) = [] \<and> \<not> hpd_hash hash < 2 \<longrightarrow> r = HT_INSERT_OK"
    using insert_new_ok [OF assms, of hash] by blast
  then show ?thesis by (simp add: ht_insert_with_hash_def do_insert_with_hash_def inserted_row_def)
qed

lemma kv_scan_run:
  "ht_bare_find_all (bare t) hash (hl_kv_scan_cb t (hash_hi_of hash) key value) False \<longleftrightarrow>
     (\<exists>v \<in> set (key_hits t hash key). vals_match t value v)"
proof -
  have "hl_kv_scan_cb t hh key value = (\<lambda>v s. if keys_match t hh key v \<and> vals_match t value v then (False, True) else (True, s))" for hh
    by (intro ext) (simp add: hl_kv_scan_cb_def)
  moreover have "(case List.find P vs of None \<Rightarrow> (True, False) | Some v \<Rightarrow> (False, True)) = (\<not> list_ex P vs, list_ex P vs)" for P and vs :: "u32 list"
    by (induction vs) auto
  ultimately show ?thesis by (simp add: find_all_run run_cb_find key_hits_def list_ex_iff Bex_def conj_assoc)
qed

lemma vals_match_row:
  assumes "entry_wf (entries t ! unat v)"
  shows "vals_match t value v \<longleftrightarrow> snd (snd (row_of (entries t) (h, v))) = value"
  using entry_lengths(2) [OF assms] by (auto simp: vals_match_def row_of_def Let_def)

lemma hit_vals_match:
  assumes "table_inv t" "v \<in> set (key_hits t hash key)"
  shows "vals_match t value v \<longleftrightarrow> snd (snd (hit_row t hash v)) = value"
  using assms key_hits_stored [OF assms] table_okD(5) [of t "(hpd_hash hash, v)"]
  by (intro vals_match_row) (simp add: table_inv_def)

lemma unsert_with_hash_ok:
  assumes t: "table_open t" and k: "length key \<le> 65535" "length value < 2 ^ 32"
  shows "\<exists>r t'. ht_unsert_with_hash t hash key value = Some (r, t') \<and> table_inv t' \<and>
    (if \<exists>x \<in># rows t. row_matches t hash key x \<and> snd (snd x) = value then r = HT_INSERT_UPDATE \<and> t' = t
     else inserted_row t (hash, key, value) r t')"
proof -
  have inv: "table_inv t" using t by (auto simp: table_open_def table_inv_def searchable_def insertable_def)
  obtain r t' where r: "insert_new t hash key value = Some (r, t')" "table_inv t'"
    "r = HT_INSERT_OK \<and> rows t' = add_mset (hash, key, value) (rows t) \<or> r = HT_INSERT_FAILED \<and> rows t' = rows t"
    using insert_new_ok [OF assms, of hash] by blast
  have "(\<exists>v \<in> set (key_hits t hash key). vals_match t value v) \<longleftrightarrow>
      (\<exists>x \<in># image_mset (hit_row t hash) (mset (key_hits t hash key)). snd (snd x) = value)"
    using hit_vals_match [OF inv] by auto
  also have "\<dots> \<longleftrightarrow> (\<exists>x \<in># rows t. row_matches t hash key x \<and> snd (snd x) = value)"
    unfolding key_hits_rows [OF inv] by (simp add: Bex_def conj_assoc)
  finally show ?thesis
    using r inv by (auto simp: ht_unsert_with_hash_def do_insert_with_hash_def kv_scan_run inserted_row_def)
qed

lemma upsert_with_hash_ok:
  assumes t: "table_open t" and k: "length key \<le> 65535" "length value < 2 ^ 32" and a: "allocs (bare t) = []"
  shows "\<exists>r t'. ht_upsert_with_hash t hash key value = Some (r, t') \<and> table_inv t' \<and> eq_fn t' = eq_fn t \<and>
    (\<not> hpd_hash hash < 2 \<longrightarrow> r \<noteq> HT_INSERT_FAILED) \<and>
    (if \<exists>x \<in># rows t. row_matches t hash key x then r = HT_INSERT_UPDATE \<and> upserted t hash key value (rows t')
     else inserted_row t (hash, key, value) r t')"
proof -
  have inv: "table_inv t" using t by (auto simp: table_open_def table_inv_def searchable_def insertable_def)
  have scan: "scan_key t hash key = (key_hits t hash key, t)"
    using scan_key_ok [of t hash key] a by auto
  have hit: "(\<exists>x \<in># rows t. row_matches t hash key x) \<longleftrightarrow> key_hits t hash key \<noteq> []"
  proof -
    have "key_hits t hash key = [] \<longleftrightarrow> filter_mset (row_matches t hash key) (rows t) = {#}"
      unfolding key_hits_rows [OF inv, symmetric] by simp
    then show ?thesis by (auto simp: filter_mset_eq_mempty_iff)
  qed
  show ?thesis
  proof (cases "key_hits t hash key")
    case Nil
    obtain r t' where "insert_new t hash key value = Some (r, t')" "table_inv t'" "eq_fn t' = eq_fn t"
      "r = HT_INSERT_OK \<and> rows t' = add_mset (hash, key, value) (rows t) \<or> r = HT_INSERT_FAILED \<and> rows t' = rows t"
      "allocs (bare t) = [] \<and> \<not> hpd_hash hash < 2 \<longrightarrow> r = HT_INSERT_OK"
      using insert_new_ok [OF t k, of hash] by blast
    then show ?thesis using Nil hit scan a by (auto simp: ht_upsert_with_hash_def do_insert_with_hash_def inserted_row_def)
  next
    case (Cons m rest)
    have d: "distinct (m # rest)" using distinct_key_hits [OF inv, of hash key] Cons by simp
    obtain ok t2 where u: "update_entry_value t m key value = (ok, t2)" "allocs (bare t) = [] \<longrightarrow> ok"
      "\<not> ok \<longrightarrow> table_inv t2 \<and> rows t2 = rows t"
      "ok \<longrightarrow> table_inv (fold (drop_match hash) rest t2) \<and> (rest = rest \<longrightarrow> upserted t hash key value (rows (fold (drop_match hash) rest t2)))"
      "eq_fn t2 = eq_fn t" "hash_fn t2 = hash_fn t"
      by (rule upsert_hit_ok [OF inv k(2) Cons subset_mset.order_refl d])
    then show ?thesis
      using Cons hit scan a drop_matches_frame(5) [of hash rest t2] by (simp add: ht_upsert_with_hash_def do_insert_with_hash_def)
  qed
qed

end
