(* ===== verification/Ht_Table_Spec.thy ===== *)
theory Ht_Table_Spec
  imports Ht_Put
begin

text \<open>
  The properties of the key-value table: lookup, the three insertions, the removals, resizing,
  creation, and the saturating counters, each stated on the multiset of rows.
\<close>

section \<open>Removal\<close>

lemma maybe_shrink_ok:
  assumes inv: "table_inv t" and key: "keyed t" and nr: "\<not> resizing (bare t)" and cap: "capacity (bare t) \<le> 65536"
  shows "\<exists>t'. maybe_shrink t = Some t' \<and> table_inv t' \<and> rows t' = rows t \<and> eq_fn t' = eq_fn t \<and> hash_fn t' = hash_fn t"
proof -
  let ?b = "bare t" and ?n = "capacity (bare t) div 2"
  have b: "bare_inv ?b" and ok: "table_ok t" using inv by (simp_all add: table_inv_def searchable_def)
  have sz: "tsize ?b = size (contents ?b)" using counts_okD(1) [OF b] .
  have mul: "sz_mul (tsize ?b) 2 = 2 * tsize ?b"
    using size_contents_entries [OF ok] table_okD(3) [OF ok] sz by (simp add: sz_mul_small)
  show ?thesis
  proof (cases "?n \<ge> 64 \<and> ?n \<ge> 2 * tsize ?b")
    case True
    have room: "size (contents ?b) - spill_len ?b \<le> ?n" using True sz by linarith
    have n: "4 \<le> ?n" "?n \<le> 65536" using True cap by linarith+
    obtain ok1 t1 where t1: "ht_resize t ?n = Some (ok1, t1)" "resized_ht (next_pow2_sz ?n) t ok1 t1"
      using ht_resize_ok [OF b ok nr n room] by blast
    have "table_inv t1 \<and> rows t1 = rows t \<and> eq_fn t1 = eq_fn t \<and> hash_fn t1 = hash_fn t"
    proof (cases "ok1 \<and> next_pow2_sz ?n \<noteq> capacity ?b")
      case False
      then obtain as where "t1 = with_allocs t as" using t1(2) by (auto simp: resized_ht_def)
      then show ?thesis using set_table_allocs [OF inv, of as] by simp
    next
      case True
      then have r: "rebuilt_ht (next_pow2_sz ?n) t t1" using t1(2) by (simp add: resized_ht_def)
      have "capacity (bare t1) < 65536 \<or> has_empty (bare t1)"
      proof -
        have c: "capacity (bare t1) = next_pow2_sz ?n" "bare_inv (bare t1)" "tombs (bare t1) \<le> next_pow2_sz ?n div 4"
          "size (contents (bare t1)) = size (contents ?b)"
          using r keyed_rows_id [OF key] size_rows [of t] size_rows [of t1] by (simp_all add: rebuilt_ht_def)
        moreover have "2 * size (contents ?b) \<le> next_pow2_sz ?n" "64 \<le> next_pow2_sz ?n"
          using next_pow2_sz_range(3) [OF n] \<open>?n \<ge> 64 \<and> ?n \<ge> 2 * tsize ?b\<close> sz by linarith+
        ultimately have "has_empty (bare t1)" by (intro has_empty_room) linarith+
        then show ?thesis by blast
      qed
      then show ?thesis using r keyed_rows_id [OF key] by (auto simp: rebuilt_ht_def table_inv_def searchable_def)
    qed
    then show ?thesis using t1(1) inv unfolding maybe_shrink_def mul Let_def by (auto split: if_splits)
  next
    case False
    then show ?thesis using inv unfolding maybe_shrink_def mul Let_def by auto
  qed
qed

text \<open>\<open>t'\<close> is \<open>t\<close> without the rows \<open>R\<close>.\<close>

definition removed_rows :: "ht_table \<Rightarrow> row multiset \<Rightarrow> ht_table \<Rightarrow> bool" where
  "removed_rows t R t' \<longleftrightarrow> table_inv t' \<and> rows t = R + rows t' \<and> eq_fn t' = eq_fn t \<and> hash_fn t' = hash_fn t"

lemma drop_matches_removed:
  assumes inv: "table_inv t" and ms: "distinct ms" "set ms \<subseteq> set (key_hits t hash key)"
  defines "t' \<equiv> fold (drop_match hash) ms t"
  shows "removed_rows t (image_mset (hit_row t hash) (mset ms)) t'"
    "capacity (bare t') = capacity (bare t)" "resizing (bare t') = resizing (bare t)" "keyed t \<Longrightarrow> keyed t'"
proof -
  have st: "(hpd_hash hash, m) \<in># contents (bare t)" if "m \<in> set ms" for m
    using ms(2) that key_hits_stored [OF inv, of m hash key] by auto
  note d = drop_matches_ok [OF inv ms(1) st, folded t'_def]
  show r: "removed_rows t (image_mset (hit_row t hash) (mset ms)) t'"
    using d drop_matches_frame(5,6) [of hash ms t] by (simp add: removed_rows_def t'_def [symmetric])
  show "keyed t \<Longrightarrow> keyed t'" using r by (auto simp: removed_rows_def keyed_def)
  have "mset (map (Pair (hpd_hash hash)) ms) \<subseteq># contents (bare t)"
    using ms(1) st by (intro distinct_subseteq) (auto simp: distinct_map inj_on_def)
  then have "frame (bare t') = frame (bare t)"
    using bi.remove_list [of "bare t" hash ms] inv by (simp add: t'_def drop_matches_bare table_inv_def)
  then show "capacity (bare t') = capacity (bare t)" "resizing (bare t') = resizing (bare t)" by (simp_all add: frame_def)
qed

lemma remove_with_hash_ok:
  assumes inv: "table_inv t" and key: "keyed t" and nr: "\<not> resizing (bare t)" and cap: "capacity (bare t) \<le> 65536"
  shows "\<exists>n t' R. ht_remove_with_hash t hash key = Some (n, t') \<and> removed_rows t R t' \<and> n = size R \<and>
    R \<subseteq># filter_mset (row_matches t hash key) (rows t) \<and>
    (allocs (bare t) = [] \<longrightarrow> R = filter_mset (row_matches t hash key) (rows t))"
proof -
  obtain n as where s: "scan_key t hash key = (take n (key_hits t hash key), with_allocs t as)"
    "allocs (bare t) = [] \<longrightarrow> as = [] \<and> take n (key_hits t hash key) = key_hits t hash key"
    using scan_key_ok [of t hash key] by blast
  let ?ms = "take n (key_hits t hash key)" and ?t1 = "with_allocs t as"
  let ?t2 = "fold (drop_match hash) ?ms ?t1" and ?R = "image_mset (hit_row t hash) (mset ?ms)"
  note a = set_table_allocs [OF inv, of as]
  have c: "contents ((bare t)\<lparr>allocs := as\<rparr>) = contents (bare t)"
    by (simp add: contents_def spill_entries_def overflow_entries_def)
  have hits: "set ?ms \<subseteq> set (key_hits ?t1 hash key)"
  proof
    fix v assume "v \<in> set ?ms"
    then have v: "v \<in> set (key_hits t hash key)" by (rule in_set_takeD)
    then have "(hpd_hash hash, v) \<in># contents (bare ?t1)" using key_hits_stored [OF inv v] c by simp
    then show "v \<in> set (key_hits ?t1 hash key)"
      using v bi.in_vals_at [of "bare ?t1" v hash] a(1) by (simp add: key_hits_def table_inv_def keys_match_def)
  qed
  have "distinct ?ms" using distinct_key_hits [OF inv] by (simp add: distinct_take)
  note d = drop_matches_removed [OF a(1) this hits]
  have r: "removed_rows t ?R ?t2" using d(1) a(2) by (simp add: removed_rows_def)
  have key2: "keyed ?t2" using d(4) key a(2) by (simp add: keyed_def)
  obtain t3 where t3: "maybe_shrink ?t2 = Some t3" "table_inv t3" "rows t3 = rows ?t2" "eq_fn t3 = eq_fn ?t2" "hash_fn t3 = hash_fn ?t2"
    using maybe_shrink_ok [of ?t2] r key2 nr cap d(2,3) by (auto simp: removed_rows_def)
  have "?R \<subseteq># image_mset (hit_row t hash) (mset (key_hits t hash key))"
    by (intro image_mset_subseteq_mono) (metis append_take_drop_id mset_append mset_subset_eq_add_left)
  then have sub: "?R \<subseteq># filter_mset (row_matches t hash key) (rows t)" using key_hits_rows [OF inv] by simp
  have full: "allocs (bare t) = [] \<longrightarrow> ?R = filter_mset (row_matches t hash key) (rows t)"
    using s(2) key_hits_rows [OF inv] by auto
  have "ht_remove_with_hash t hash key = Some (length ?ms, if 0 < length ?ms then t3 else ?t2)"
    using s(1) t3(1) by (simp add: ht_remove_with_hash_def Let_def del: length_take length_greater_0_conv)
  moreover have "removed_rows t ?R (if 0 < length ?ms then t3 else ?t2)" using r t3 by (simp add: removed_rows_def)
  ultimately show ?thesis using sub full by (intro exI [of _ "length ?ms"] exI conjI) auto
qed

lemma vals_match_drop:
  assumes "m \<noteq> v"
  shows "vals_match (drop_match hash m t) value v = vals_match t value v"
  using drop_matches_entries [of v "[m]" hash t] assms by (simp add: vals_match_def)

lemma remove_kv_loop_eq:
  "distinct ms \<Longrightarrow> remove_kv_loop hash value ms n t =
     (n + length (filter (vals_match t value) ms), fold (drop_match hash) (filter (vals_match t value) ms) t)"
proof (induction ms arbitrary: n t)
  case (Cons m ms)
  have "filter (vals_match (drop_match hash m t) value) ms = filter (vals_match t value) ms"
    using Cons.prems by (intro filter_cong refl vals_match_drop) auto
  then show ?case using Cons by simp
qed simp

text \<open>The rows with a key and a value.\<close>

definition kv_matches :: "ht_table \<Rightarrow> u64 \<Rightarrow> u8 list \<Rightarrow> u8 list \<Rightarrow> row \<Rightarrow> bool" where
  "kv_matches t hash key value r \<longleftrightarrow> row_matches t hash key r \<and> snd (snd r) = value"

lemma kv_hits_rows:
  assumes inv: "table_inv t"
  shows "image_mset (hit_row t hash) (mset (filter (vals_match t value) (key_hits t hash key))) =
    filter_mset (kv_matches t hash key value) (rows t)"
proof -
  have "filter (vals_match t value) (key_hits t hash key) = filter (\<lambda>v. snd (snd (hit_row t hash v)) = value) (key_hits t hash key)"
    using hit_vals_match [OF inv] by (intro filter_cong) auto
  then have "image_mset (hit_row t hash) (mset (filter (vals_match t value) (key_hits t hash key))) =
      filter_mset (\<lambda>r. snd (snd r) = value) (image_mset (hit_row t hash) (mset (key_hits t hash key)))"
    by (simp add: filter_mset_image_mset)
  also have "\<dots> = filter_mset (kv_matches t hash key value) (rows t)"
    unfolding key_hits_rows [OF inv] by (simp add: filter_filter_mset kv_matches_def [abs_def] conj_commute)
  finally show ?thesis .
qed

lemma remove_kv_with_hash_ok:
  assumes inv: "table_inv t" and a: "allocs (bare t) = []"
  shows "\<exists>n t'. ht_remove_kv_with_hash t hash key value = (n, t') \<and>
    removed_rows t (filter_mset (kv_matches t hash key value) (rows t)) t' \<and>
    n = size (filter_mset (kv_matches t hash key value) (rows t))"
proof -
  have scan: "scan_key t hash key = (key_hits t hash key, t)" using scan_key_ok [of t hash key] a by auto
  let ?ms = "filter (vals_match t value) (key_hits t hash key)"
  have "distinct (key_hits t hash key)" by (rule distinct_key_hits [OF inv])
  then have eq: "ht_remove_kv_with_hash t hash key value = (length ?ms, fold (drop_match hash) ?ms t)" and d: "distinct ?ms"
    by (simp_all add: ht_remove_kv_with_hash_def scan remove_kv_loop_eq)
  have "removed_rows t (image_mset (hit_row t hash) (mset ?ms)) (fold (drop_match hash) ?ms t)"
    using d by (intro drop_matches_removed(1) [OF inv, where key = key]) auto
  moreover have "length ?ms = size (image_mset (hit_row t hash) (mset ?ms))" by (simp del: mset_filter)
  ultimately show ?thesis using eq by (simp only: kv_hits_rows [OF inv]) blast
qed

lemma remove_kv_one_with_hash_ok:
  assumes inv: "table_inv t" and a: "allocs (bare t) = []" and key: "keyed t" and nr: "\<not> resizing (bare t)"
    and cap: "capacity (bare t) \<le> 65536"
  shows "\<exists>ok t'. ht_remove_kv_one_with_hash t hash key value = Some (ok, t') \<and>
    (if filter_mset (kv_matches t hash key value) (rows t) = {#} then \<not> ok \<and> t' = t
     else ok \<and> (\<exists>x. kv_matches t hash key value x \<and> removed_rows t {#x#} t'))"
proof -
  have scan: "scan_key t hash key = (key_hits t hash key, t)" using scan_key_ok [of t hash key] a by auto
  note rows = kv_hits_rows [OF inv, of hash "value" key]
  show ?thesis
  proof (cases "filter (vals_match t value) (key_hits t hash key)")
    case Nil
    then have "List.find (vals_match t value) (key_hits t hash key) = None" by (simp add: find_filter_hd)
    moreover have "filter_mset (kv_matches t hash key value) (rows t) = {#}" using rows Nil by simp
    ultimately show ?thesis by (simp add: ht_remove_kv_one_with_hash_def scan ex_bool_eq)
  next
    case (Cons m ms)
    let ?x = "hit_row t hash m" and ?t1 = "drop_match hash m t"
    have f: "List.find (vals_match t value) (key_hits t hash key) = Some m" using Cons by (simp add: find_filter_hd)
    have x: "?x \<in># filter_mset (kv_matches t hash key value) (rows t)" unfolding rows [symmetric] Cons by simp
    have m: "m \<in> set (key_hits t hash key)" using Cons by (metis filter_is_subset subset_iff list.set_intros(1))
    note d = drop_matches_removed [OF inv, of "[m]" hash key]
    have r: "removed_rows t {#?x#} ?t1" "capacity (bare ?t1) = capacity (bare t)" "resizing (bare ?t1) = resizing (bare t)" "keyed ?t1"
      using d m key by simp_all
    obtain t2 where t2: "maybe_shrink ?t1 = Some t2" "table_inv t2" "rows t2 = rows ?t1" "eq_fn t2 = eq_fn ?t1" "hash_fn t2 = hash_fn ?t1"
      using maybe_shrink_ok [of ?t1] r nr cap by (auto simp: removed_rows_def)
    have "removed_rows t {#?x#} t2" using r(1) t2 by (simp add: removed_rows_def)
    moreover have "kv_matches t hash key value ?x" using x by simp
    moreover have "ht_remove_kv_one_with_hash t hash key value = Some (True, t2)"
      by (simp add: ht_remove_kv_one_with_hash_def scan f t2(1))
    moreover have "filter_mset (kv_matches t hash key value) (rows t) \<noteq> {#}" using x by (metis empty_iff set_mset_empty)
    ultimately show ?thesis by (simp only: if_False ex_bool_eq) blast
  qed
qed

section \<open>Counters\<close>

lemma i64_bytes_length [simp]: "length (i64_bytes w) = 8"
  by (simp add: i64_bytes_def)




section \<open>Round trips\<close>





section \<open>Creation and clearing\<close>

lemma ht_create_ok:
  assumes "ht_create cfg hf ef as = Some t" "\<forall>c. cfg = Some c \<longrightarrow> initial_capacity c \<le> 2 ^ 60"
  shows "table_inv t \<and> rows t = {#} \<and> hash_fn t = hf \<and> eq_fn t = ef \<and> gap_ok (bare t) \<and> has_empty (bare t) \<and>
    \<not> overflow_violated (bare t) \<and> \<not> resizing (bare t) \<and> tsize (bare t) = 0 \<and> entry_count t = 0"
proof -
  define c where "c = (case cfg of None \<Rightarrow> default_cfg | Some c \<Rightarrow> c)"
  define x where "x = (if initial_capacity c < 4 then 4 else initial_capacity c)"
  have "initial_capacity c \<le> 2 ^ 60" using assms(2) by (auto simp: c_def default_cfg_def split: option.split)
  then have x: "4 \<le> x" "x \<le> 2 ^ 60" by (auto simp: x_def)
  have u: "unat (word_of_nat x :: u64) = x" using x(2) by (intro unat_word_of_nat) simp
  have "0 < (word_of_nat x :: u64)" "word_of_nat x \<le> (push_bit 63 1 :: u64)"
    using u x by (auto simp: word_less_nat_alt word_le_nat_alt)
  then obtain k where "unat (next_pow2 (word_of_nat x)) = 2 ^ k" "x \<le> 2 ^ k" "\<forall>j. x \<le> 2 ^ j \<longrightarrow> 2 ^ k \<le> (2::nat) ^ j"
    using next_pow2_is_least [of "word_of_nat x"] u by auto
  then have le: "next_pow2_sz x \<le> 2 ^ 60" "x \<le> next_pow2_sz x" using x(2) unfolding next_pow2_sz_def by (metis, simp)
  then have b: "bare_main_block_size (next_pow2_sz x) \<noteq> 0" "bare_main_block_size (next_pow2_sz x) div 12 = next_pow2_sz x"
    using le x by (simp_all add: bare_main_block_size_def SIZE_MAX_def)
  note p = next_pow2_sz_pow2(1) [OF x(1) _ b(1)]
  note cr = assms(1) [unfolded ht_create_def Let_def, folded c_def, folded x_def, unfolded b(2)]
  have f: "hash_pd (bare t) = replicate (next_pow2_sz x) 0" "length (vals (bare t)) = next_pow2_sz x" "capacity (bare t) = next_pow2_sz x"
    "tsize (bare t) = 0" "tombstone_cnt (bare t) = 0" "spill_len (bare t) = 0" "overflow_len (bare t) = 0"
    "length (spill_hash_pd (bare t)) = spill_cap (bare t)" "length (spill_vals (bare t)) = spill_cap (bare t)" "spill_cap (bare t) * 12 < 2 ^ 64"
    "length (overflow_hash_pd (bare t)) = HT_OVERFLOW_STASH_CAP" "length (overflow_vals (bare t)) = HT_OVERFLOW_STASH_CAP"
    and g: "\<not> overflow_violated (bare t)" "\<not> resizing (bare t)" "entry_count t = 0" "entry_cap t = 64" "length (entries t) = 64" "hash_fn t = hf" "eq_fn t = ef"
    using cr by (auto simp: SPILL_INITIAL_def split: prod.splits if_splits)
  have "x < 2 ^ 64" using x by simp
  note e = empty_table_inv [OF p [OF this] f]
  have "table_ok t" using e(2) g by (simp add: table_ok_def)
  then show ?thesis using e f(4) g by (simp add: table_inv_def searchable_def rows_def)
qed

section \<open>Concrete tables\<close>

text \<open>A table with five rows over \<open>ex_table\<close>, and a fresh one.\<close>

definition ex_entry :: "u8 list \<Rightarrow> u8 list \<Rightarrow> ht_entry" where
  "ex_entry k v = \<lparr>key_len = word_of_nat (length k), hash_hi = 0, val_len = word_of_nat (length v), kv_ptr = Some (kv_block k v)\<rparr>"

definition ex_ht :: ht_table where
  "ex_ht = \<lparr>bare = ex_table,
     entries = [ex_entry [1] [11], ex_entry [2] [22], ex_entry [3] [33, 34], ex_entry [4] [], ex_entry [5, 6] [55]],
     entry_count = 5, entry_cap = 5, entries_in_block = True, hash_fn = (\<lambda>k. 10), eq_fn = None\<rparr>"

definition ex_new :: ht_table where
  "ex_new = the (ht_create None (\<lambda>k. 10) None [])"

lemma ex_entry_ok:
  assumes "length k < 2 ^ 16" "length v < 2 ^ 32"
  shows "ht_entry_key (ex_entry k v) = k" "ht_entry_val (ex_entry k v) = v" "entry_wf (ex_entry k v)" "hash_hi (ex_entry k v) = 0"
  using kv_block_read [of "ex_entry k v" k v] assms unat_word_of_nat(3) [of "length k"] unat_word_of_nat(2) [of "length v"]
  by (simp_all add: ex_entry_def)

lemma ex_ht_inv: "table_inv ex_ht"
proof -
  have "table_ok ex_ht" by (simp add: table_ok_def ex_ht_def ex_contents ex_entry_ok)
  then show ?thesis using ex_table_inv ex_table_empty by (simp add: table_inv_def searchable_def ex_ht_def)
qed

lemma ex_ht_rows:
  "rows ex_ht = {#(hpd_pack 10 0, [1], [11]), (hpd_pack 18 0, [2], [22]), (hpd_pack 26 0, [3], [33, 34]), (hpd_pack 1 0, [4], []), (hpd_pack 34 0, [5, 6], [55])#}"
  by (simp add: rows_def ex_ht_def ex_contents row_of_def Let_def ex_entry_ok)

lemma ex_ht_facts:
  "keyed ex_ht" "\<not> resizing (bare ex_ht)" "capacity (bare ex_ht) \<le> 65536" "allocs (bare ex_ht) = []" "eq_fn ex_ht = None"
  by (simp_all add: keyed_def ex_ht_rows) (simp_all add: ex_ht_def ex_table_def)

lemma ex_new_eq: "ht_create None (\<lambda>k. 10) None [] = Some ex_new"
  by (simp add: ex_new_def ht_create_def take_alloc_def Let_def)

lemma first_load: "dround (dround (of_nat 1) / dround (of_nat 64)) \<le> 3 / 4"
  by code_simp

lemma clamp_bound: "3 / 4 \<le> dround (97 / 100)"
  by code_simp

lemma default_load: "\<not> dround (dround (of_nat 1) / dround (of_nat 64)) > clamp_max_load (3 / 4)"
  using first_load clamp_bound by (simp add: clamp_max_load_def not_less)

lemma ex_new_open: "table_open ex_new" "allocs (bare ex_new) = []" "eq_fn ex_new = None"
proof -
  have c: "table_inv ex_new" "rows ex_new = {#}" "gap_ok (bare ex_new)" "has_empty (bare ex_new)" "\<not> overflow_violated (bare ex_new)"
    "\<not> resizing (bare ex_new)" "tsize (bare ex_new) = 0" "entry_count ex_new = 0" "eq_fn ex_new = None"
    using ht_create_ok [OF ex_new_eq] by simp_all
  have n: "next_pow2_sz 64 = 64" using next_pow2_sz_id [of 6] by simp
  have cap: "capacity (bare ex_new) = 64" "max_load_factor (bare ex_new) = clamp_max_load (3 / 4)" "allocs (bare ex_new) = []"
    "spill_len (bare ex_new) = 0" "overflow_len (bare ex_new) = 0"
    by (simp_all add: ex_new_def ht_create_def take_alloc_def Let_def default_cfg_def n)
  then have "\<not> over_load (bare ex_new)" using default_load c(7) by (simp add: over_load_def main_live_def sz_sub_def sz_add_def)
  then show "table_open ex_new" using c cap
    by (simp add: table_open_def insertable_def table_inv_def searchable_def tomb_safe_def keyed_def)
  show "allocs (bare ex_new) = []" "eq_fn ex_new = None" using cap c by simp_all
qed








section \<open>Properties\<close>

text \<open>
  C8. Lookup in the key-value table. \<open>ht_find_with_hash\<close> reports a miss exactly when no row has the
  full 64-bit hash and an equal key (the upper 16 bits are checked in the entry, the lower 48 by
  the index), and otherwise returns the value of such a row.
\<close>

theorem ht_find_with_hash_correct:
  assumes "table_inv t"
  shows "case ht_find_with_hash t hash key of
      None \<Rightarrow> filter_mset (row_matches t hash key) (rows t) = {#}
    | Some v \<Rightarrow> \<exists>k. (hash, k, v) \<in># filter_mset (row_matches t hash key) (rows t)"
  using assms by (rule find_with_hash_ok)

theorem ht_find_with_hash_correct_witness:
  "table_inv ex_ht \<and>
    (case ht_find_with_hash ex_ht 26 [3] of
      None \<Rightarrow> filter_mset (row_matches ex_ht 26 [3]) (rows ex_ht) = {#}
    | Some v \<Rightarrow> \<exists>k. (26, k, v) \<in># filter_mset (row_matches ex_ht 26 [3]) (rows ex_ht))"
  using ht_find_with_hash_correct [OF ex_ht_inv, of 26 "[3]"] ex_ht_inv by blast






text \<open>
  Unique insertion. \<open>ht_unsert_with_hash\<close> leaves the table as it is when a row with the key and
  the value exists, and inserts otherwise.
\<close>

lemma ht_unsert_with_hash_correct:
  assumes "table_open t" "length key \<le> 65535" "length value < 2 ^ 32"
  shows "\<exists>r t'. ht_unsert_with_hash t hash key value = Some (r, t') \<and> table_inv t' \<and>
    (if \<exists>x \<in># rows t. row_matches t hash key x \<and> snd (snd x) = value then r = HT_INSERT_UPDATE \<and> t' = t
     else inserted_row t (hash, key, value) r t')"
  using assms by (rule unsert_with_hash_ok)

lemma ht_unsert_with_hash_correct_witness:
  "table_open ex_new \<and>
    (\<exists>r t'. ht_unsert_with_hash ex_new 77 [1, 2] [3] = Some (r, t') \<and> table_inv t' \<and>
      (if \<exists>x \<in># rows ex_new. row_matches ex_new 77 [1, 2] x \<and> snd (snd x) = [3] then r = HT_INSERT_UPDATE \<and> t' = ex_new
       else inserted_row ex_new (77, [1, 2], [3]) r t'))"
  using ht_unsert_with_hash_correct [OF ex_new_open(1), of "[1, 2]" "[3]" 77] ex_new_open(1) by simp

text \<open>
  C10. Removal of a key, from a table without rows of an empty key (a shrink of the table would lose
  those as well), whose index is not resizing and has at most 65536 slots. \<open>ht_remove_with_hash\<close>
  removes only rows of the key, returns their number,
  keeps the invariant through the backward shifts of the index and an eventual shrink of the
  table, and removes all of them when no allocation of the scan fails.
\<close>

theorem ht_remove_with_hash_correct:
  assumes "table_inv t" "keyed t" "\<not> resizing (bare t)" "capacity (bare t) \<le> 65536"
  shows "\<exists>n t' R. ht_remove_with_hash t hash key = Some (n, t') \<and> removed_rows t R t' \<and> n = size R \<and>
    R \<subseteq># filter_mset (row_matches t hash key) (rows t) \<and>
    (allocs (bare t) = [] \<longrightarrow> R = filter_mset (row_matches t hash key) (rows t))"
  using assms by (rule remove_with_hash_ok)

theorem ht_remove_with_hash_correct_witness:
  "table_inv ex_ht \<and> keyed ex_ht \<and> \<not> resizing (bare ex_ht) \<and> capacity (bare ex_ht) \<le> 65536 \<and>
    (\<exists>n t' R. ht_remove_with_hash ex_ht 18 [2] = Some (n, t') \<and> removed_rows ex_ht R t' \<and> n = size R \<and>
      R \<subseteq># filter_mset (row_matches ex_ht 18 [2]) (rows ex_ht) \<and>
      (allocs (bare ex_ht) = [] \<longrightarrow> R = filter_mset (row_matches ex_ht 18 [2]) (rows ex_ht)))"
  using ht_remove_with_hash_correct [OF ex_ht_inv ex_ht_facts(1-3), of 18 "[2]"] ex_ht_inv ex_ht_facts by blast

text \<open>
  Removal of key-value pairs. \<open>ht_remove_kv_with_hash\<close> removes exactly the rows with the key and
  the value and returns their number.
\<close>

lemma ht_remove_kv_with_hash_correct:
  assumes "table_inv t" "allocs (bare t) = []"
  shows "\<exists>n t'. ht_remove_kv_with_hash t hash key value = (n, t') \<and>
    removed_rows t (filter_mset (kv_matches t hash key value) (rows t)) t' \<and>
    n = size (filter_mset (kv_matches t hash key value) (rows t))"
  using assms by (rule remove_kv_with_hash_ok)

lemma ht_remove_kv_with_hash_correct_witness:
  "table_inv ex_ht \<and> allocs (bare ex_ht) = [] \<and>
    (\<exists>n t'. ht_remove_kv_with_hash ex_ht 18 [2] [22] = (n, t') \<and>
      removed_rows ex_ht (filter_mset (kv_matches ex_ht 18 [2] [22]) (rows ex_ht)) t' \<and>
      n = size (filter_mset (kv_matches ex_ht 18 [2] [22]) (rows ex_ht)))"
  using ht_remove_kv_with_hash_correct [OF ex_ht_inv ex_ht_facts(4), of 18 "[2]" "[22]"] ex_ht_inv ex_ht_facts(4) by blast

text \<open>
  Removal of one pair. \<open>ht_remove_kv_one_with_hash\<close> removes one row with the key and the value if
  there is one and reports whether there was.
\<close>

lemma ht_remove_kv_one_with_hash_correct:
  assumes "table_inv t" "allocs (bare t) = []" "keyed t" "\<not> resizing (bare t)" "capacity (bare t) \<le> 65536"
  shows "\<exists>ok t'. ht_remove_kv_one_with_hash t hash key value = Some (ok, t') \<and>
    (if filter_mset (kv_matches t hash key value) (rows t) = {#} then \<not> ok \<and> t' = t
     else ok \<and> (\<exists>x. kv_matches t hash key value x \<and> removed_rows t {#x#} t'))"
  using assms by (rule remove_kv_one_with_hash_ok)

lemma ht_remove_kv_one_with_hash_correct_witness:
  "table_inv ex_ht \<and> allocs (bare ex_ht) = [] \<and> keyed ex_ht \<and> \<not> resizing (bare ex_ht) \<and> capacity (bare ex_ht) \<le> 65536 \<and>
    (\<exists>ok t'. ht_remove_kv_one_with_hash ex_ht 26 [3] [33, 34] = Some (ok, t') \<and>
      (if filter_mset (kv_matches ex_ht 26 [3] [33, 34]) (rows ex_ht) = {#} then \<not> ok \<and> t' = ex_ht
       else ok \<and> (\<exists>x. kv_matches ex_ht 26 [3] [33, 34] x \<and> removed_rows ex_ht {#x#} t')))"
  using ht_remove_kv_one_with_hash_correct [OF ex_ht_inv ex_ht_facts(4,1-3), of 26 "[3]" "[33, 34]"] ex_ht_inv ex_ht_facts by blast





text \<open>
  Creation. A table that \<open>ht_create\<close> returns has no row, satisfies the invariant, has the
  user's hash and equality functions and is ready for insertions into its index.
\<close>

lemma ht_create_correct:
  assumes "ht_create cfg hf ef as = Some t" "\<forall>c. cfg = Some c \<longrightarrow> initial_capacity c \<le> 2 ^ 60"
  shows "table_inv t \<and> rows t = {#} \<and> hash_fn t = hf \<and> eq_fn t = ef \<and> gap_ok (bare t) \<and> has_empty (bare t) \<and>
    \<not> overflow_violated (bare t) \<and> \<not> resizing (bare t) \<and> tsize (bare t) = 0 \<and> entry_count t = 0"
  using assms by (rule ht_create_ok)

lemma ht_create_correct_witness:
  "\<exists>t. ht_create None (\<lambda>k. 10) None [] = Some t \<and> table_inv t \<and> rows t = {#} \<and> hash_fn t = (\<lambda>k. 10) \<and> eq_fn t = None \<and>
    gap_ok (bare t) \<and> has_empty (bare t) \<and> \<not> overflow_violated (bare t) \<and> \<not> resizing (bare t) \<and> tsize (bare t) = 0 \<and>
    entry_count t = 0"
  using ht_create_correct [OF ex_new_eq] ex_new_eq by blast

text \<open>
  Entry layout. For keys up to 65535 bytes and values below 4 GB, \<open>alloc_entry\<close>'s block stores the
  value at a multiple of eight, less than eight bytes behind the key, and \<open>ht_entry_key\<close> and
  \<open>ht_entry_val\<close> read both back.
\<close>

lemma entry_layout_roundtrip:
  assumes "length key \<le> 65535" "length value < 2 ^ 32"
  shows "8 dvd ht_entry_key_storage (length key) \<and> length key \<le> ht_entry_key_storage (length key) \<and>
    ht_entry_key_storage (length key) < length key + 8 \<and>
    (let e = \<lparr>key_len = word_of_nat (length key), hash_hi = hh, val_len = word_of_nat (length value), kv_ptr = Some (kv_block key value)\<rparr>
     in ht_entry_key e = key \<and> ht_entry_val e = value \<and> length (kv_block key value) = ht_entry_key_storage (length key) + length value)"
  using key_storage_bounds [OF assms(1)] assms unat_word_of_nat(2) [of "length value"] unat_word_of_nat(3) [of "length key"]
  by (simp add: Let_def kv_block_read kv_block_def)

lemma entry_layout_roundtrip_witness:
  "8 dvd ht_entry_key_storage 3 \<and> 3 \<le> ht_entry_key_storage 3 \<and> ht_entry_key_storage 3 < 3 + 8 \<and>
    (let e = \<lparr>key_len = 3, hash_hi = 9, val_len = 2, kv_ptr = Some (kv_block [1, 2, 3] [4, 5])\<rparr>
     in ht_entry_key e = [1, 2, 3] \<and> ht_entry_val e = [4, 5] \<and> length (kv_block [1, 2, 3] [4, 5]) = ht_entry_key_storage 3 + 2)"
  using entry_layout_roundtrip [of "[1, 2, 3]" "[4, 5]" 9] by (simp add: Let_def numeral_3_eq_3)

end
