(* ===== verification/Ht_Cache.thy ===== *)
theory Ht_Cache
  imports Ht_Bare
begin

text \<open>
  The LRU cache of \<^verbatim>\<open>src/ht_cache.c\<close>: a block of fixed-size entries, a stack of free entry
  indices, a doubly linked recency list threaded through two index arrays, and a bare table that
  maps hashes to entry indices. This theory holds the operations; \<open>Ht_Lru\<close> and \<open>Ht_Cache_Spec\<close>
  prove them correct.

  The entry block is a byte list and a pointer into it is its offset. The hash and equality
  functions of the user are fields; \<open>None\<close> is a \<open>NULL\<close> function or a \<open>NULL\<close> result. The outer option
  of an operation that inserts is \<open>None\<close> when the probe loop of the bare table does not end.
  Pointer arguments are valid.
\<close>

section \<open>State\<close>

record ht_cache =
  c_bare :: ht_bare
  c_block_sz :: nat
  c_entries :: "u8 list"
  c_hashes :: "u64 list"
  c_live :: "bool list"
  lru_prev :: "u32 list"
  lru_next :: "u32 list"
  free_stack :: "u32 list"
  free_top :: nat
  lru_head :: u32
  lru_tail :: u32
  c_capacity :: nat
  entry_size :: nat
  c_size :: nat
  c_hash_fn :: "u8 list \<Rightarrow> u64"
  c_eq_fn :: "(u8 list \<Rightarrow> u8 list \<Rightarrow> bool) option"

record ht_cache_config =
  cc_capacity :: nat
  cc_entry_size :: nat
  cc_hash_fn :: "(u8 list \<Rightarrow> u64) option"
  cc_eq_fn :: "(u8 list \<Rightarrow> u8 list \<Rightarrow> bool) option"

definition NONE :: u32 where
  "NONE = 0xFFFFFFFF"

section \<open>The recency list\<close>

definition lru_add_head :: "ht_cache \<Rightarrow> u32 \<Rightarrow> ht_cache" where
  "lru_add_head c idx =
     (let c1 = c\<lparr>lru_prev := (lru_prev c)[unat idx := NONE], lru_next := (lru_next c)[unat idx := lru_head c]\<rparr>;
          c2 = (if lru_head c1 \<noteq> NONE then c1\<lparr>lru_prev := (lru_prev c1)[unat (lru_head c1) := idx]\<rparr> else c1);
          c3 = c2\<lparr>lru_head := idx\<rparr>
      in if lru_tail c3 = NONE then c3\<lparr>lru_tail := idx\<rparr> else c3)"

definition lru_remove :: "ht_cache \<Rightarrow> u32 \<Rightarrow> ht_cache" where
  "lru_remove c idx =
     (let prev = lru_prev c ! unat idx; next = lru_next c ! unat idx;
          c1 = (if prev \<noteq> NONE then c\<lparr>lru_next := (lru_next c)[unat prev := next]\<rparr> else c\<lparr>lru_head := next\<rparr>);
          c2 = (if next \<noteq> NONE then c1\<lparr>lru_prev := (lru_prev c1)[unat next := prev]\<rparr> else c1\<lparr>lru_tail := prev\<rparr>)
      in c2\<lparr>lru_prev := (lru_prev c2)[unat idx := NONE], lru_next := (lru_next c2)[unat idx := NONE]\<rparr>)"

definition lru_promote :: "ht_cache \<Rightarrow> u32 \<Rightarrow> ht_cache" where
  "lru_promote c idx = (if lru_head c = idx then c else lru_add_head (lru_remove c idx) idx)"

section \<open>Entries\<close>

definition entry_at :: "ht_cache \<Rightarrow> u32 \<Rightarrow> nat" where
  "entry_at c idx = sz_mul (unat idx) (entry_size c)"

text \<open>The bytes of the entry a pointer refers to.\<close>

definition entry_bytes :: "ht_cache \<Rightarrow> nat \<Rightarrow> u8 list" where
  "entry_bytes c p = take (entry_size c) (drop p (c_entries c))"

text \<open>An arbitrary pointer, as its signed distance from the start of the block.\<close>

definition entry_index :: "ht_cache \<Rightarrow> int \<Rightarrow> u32" where
  "entry_index c p =
     (if p < 0 \<or> p \<ge> int (sz_mul (c_capacity c) (entry_size c)) then NONE
      else let idx = nat p div entry_size c
           in if idx \<ge> c_capacity c then NONE else word_of_nat idx)"

section \<open>Scans\<close>

text \<open>The callbacks of \<open>ht_cache_get\<close> and \<open>ht_cache_remove\<close>; the context is \<open>matched_idx\<close>.\<close>

definition get_scan_cb :: "ht_cache \<Rightarrow> u8 list \<Rightarrow> u32 bare_callback" where
  "get_scan_cb c key val ctx =
     (if unat val \<ge> c_capacity c then (True, ctx)
      else if \<not> c_live c ! unat val then (True, ctx)
      else case c_eq_fn c of
             Some f \<Rightarrow> if f key (entry_bytes c (entry_at c val)) then (False, val) else (True, ctx)
           | None \<Rightarrow> (False, val))"

definition remove_scan_cb :: "ht_cache \<Rightarrow> u8 list \<Rightarrow> u32 bare_callback" where
  "remove_scan_cb c key val ctx =
     (if unat val \<ge> c_capacity c then (True, ctx)
      else if \<not> c_live c ! unat val then (True, ctx)
      else case c_eq_fn c of
             Some f \<Rightarrow> if f key (entry_bytes c (entry_at c val)) then (False, val) else (True, ctx)
           | None \<Rightarrow> (False, val))"

text \<open>A scan function of the user: it may change its own context, and goes on while it returns true.\<close>

type_synonym 's cache_scan = "u8 list \<Rightarrow> 's \<Rightarrow> bool \<times> 's"

definition find_scan_cb :: "ht_cache \<Rightarrow> 's cache_scan \<Rightarrow> (u32 option \<times> 's) bare_callback" where
  "find_scan_cb c scan val ctx =
     (if unat val \<ge> c_capacity c then (True, ctx)
      else if \<not> c_live c ! unat val then (True, ctx)
      else let (go, s) = scan (entry_bytes c (entry_at c val)) (snd ctx)
           in if \<not> go then (False, (Some val, s)) else (True, (fst ctx, s)))"

section \<open>Creation and clearing\<close>

definition align_up :: "nat \<Rightarrow> nat \<Rightarrow> nat" where
  "align_up off k = unat ((word_of_nat off + word_of_nat k :: u64) AND NOT (word_of_nat k))"

text \<open>The size of the block with its six arrays.\<close>

definition cache_block_sz :: "nat \<Rightarrow> nat \<Rightarrow> nat" where
  "cache_block_sz cap esz =
     (let off = align_up (sz_mul cap esz) 7;
          off = align_up (sz_add off (sz_mul cap 8)) 7;
          off = align_up (sz_add off cap) 3;
          off = align_up (sz_add off (sz_mul cap 4)) 3;
          off = align_up (sz_add off (sz_mul cap 4)) 3
      in sz_add off (sz_mul cap 4))"

definition cache_bare_cfg :: "nat \<Rightarrow> ht_config" where
  "cache_bare_cfg cap =
     (let bare_cap = (if cap > SIZE_MAX div 2 then SIZE_MAX else next_pow2_sz (sz_mul cap 2));
          bare_cap = (if bare_cap < 64 then 64 else bare_cap)
      in \<lparr>initial_capacity = bare_cap, cfg_max_load_factor = 3 / 4, cfg_min_load_factor = 0,
          cfg_tomb_threshold = dround (3 / 10), cfg_zombie_window = 16, cfg_max_probe_dist = 0\<rparr>)"

definition fresh_free_stack :: "nat \<Rightarrow> u32 list" where
  "fresh_free_stack cap = map (\<lambda>i. word_of_nat (sz_sub (sz_sub cap 1) i)) [0..<cap]"

text \<open>
  The arrays have the lengths the code indexes; that the block is large enough for them is a
  hypothesis of the theorems, since the code does not check its size computation for overflow.
\<close>

definition ht_cache_create :: "ht_cache_config option \<Rightarrow> bool list \<Rightarrow> ht_cache option" where
  "ht_cache_create cfg as =
     (case cfg of
        None \<Rightarrow> None
      | Some g \<Rightarrow>
          (case cc_hash_fn g of
             None \<Rightarrow> None
           | Some hf \<Rightarrow>
               if cc_capacity g = 0 \<or> cc_entry_size g = 0 then None
               else let (ok1, as1) = take_alloc as
                    in if \<not> ok1 then None
                       else let (ok2, as2) = take_alloc as1
                            in if \<not> ok2 then None
                               else map_option (\<lambda>b. \<lparr>c_bare = b, c_block_sz = cache_block_sz (cc_capacity g) (cc_entry_size g),
                                 c_entries = replicate (cc_capacity g * cc_entry_size g) 0,
                                 c_hashes = replicate (cc_capacity g) 0, c_live = replicate (cc_capacity g) False,
                                 lru_prev = replicate (cc_capacity g) NONE, lru_next = replicate (cc_capacity g) NONE,
                                 free_stack = fresh_free_stack (cc_capacity g), free_top = cc_capacity g,
                                 lru_head = NONE, lru_tail = NONE, c_capacity = cc_capacity g,
                                 entry_size = cc_entry_size g, c_size = 0, c_hash_fn = hf, c_eq_fn = cc_eq_fn g\<rparr>)
                                (ht_bare_create (Some (cache_bare_cfg (cc_capacity g))) as2)))"

definition ht_cache_clear :: "ht_cache \<Rightarrow> ht_cache" where
  "ht_cache_clear c =
     c\<lparr>c_bare := ht_bare_clear (c_bare c), c_live := replicate (c_capacity c) False,
       c_hashes := replicate (c_capacity c) 0, c_size := 0, lru_head := NONE, lru_tail := NONE,
       lru_prev := replicate (c_capacity c) NONE, lru_next := replicate (c_capacity c) NONE,
       free_stack := fresh_free_stack (c_capacity c), free_top := c_capacity c\<rparr>"

section \<open>Removal\<close>

text \<open>An entry index back on the free stack.\<close>

definition push_free :: "ht_cache \<Rightarrow> u32 \<Rightarrow> ht_cache" where
  "push_free c idx = c\<lparr>free_stack := (free_stack c)[free_top c := idx], free_top := sz_add (free_top c) 1\<rparr>"

definition ht_cache_evict :: "ht_cache \<Rightarrow> bool \<times> ht_cache" where
  "ht_cache_evict c =
     (if c_size c = 0 then (False, c)
      else let tail = lru_tail c
           in if tail = NONE then (False, c)
              else let (ok, b) = ht_bare_remove_val (c_bare c) (c_hashes c ! unat tail) tail;
                       c1 = c\<lparr>c_bare := b\<rparr>
                   in if \<not> ok then (False, c1)
                      else let c2 = lru_remove c1 tail;
                               c3 = push_free (c2\<lparr>c_live := (c_live c2)[unat tail := False]\<rparr>) tail
                           in (True, c3\<lparr>c_size := sz_sub (c_size c3) 1\<rparr>))"

definition ht_cache_remove :: "ht_cache \<Rightarrow> u8 list \<Rightarrow> bool \<times> ht_cache" where
  "ht_cache_remove c key =
     (let hash = c_hash_fn c key;
          m = ht_bare_find_all (c_bare c) hash (remove_scan_cb c key) NONE
      in if m = NONE then (False, c)
         else let c1 = c\<lparr>c_live := (c_live c)[unat m := False]\<rparr>;
                  (ok, b) = ht_bare_remove_val (c_bare c1) hash m;
                  c2 = c1\<lparr>c_bare := b\<rparr>
              in if \<not> ok then (False, c2\<lparr>c_live := (c_live c2)[unat m := True]\<rparr>)
                 else let c3 = lru_remove c2 m;
                          c4 = push_free (c3\<lparr>c_live := (c_live c3)[unat m := False]\<rparr>) m
                      in (True, c4\<lparr>c_size := sz_sub (c_size c4) 1\<rparr>))"

section \<open>Insertion\<close>

definition ht_cache_put :: "ht_cache \<Rightarrow> u8 list \<Rightarrow> (nat option \<times> ht_cache) option" where
  "ht_cache_put c entry_data =
     (if length entry_data \<noteq> entry_size c then Some (None, c)
      else let (ok, c1) = (if free_top c = 0 then ht_cache_evict c else (True, c))
           in if \<not> ok then Some (None, c1)
              else let top = sz_sub (free_top c1) 1;
                       slot = free_stack c1 ! top;
                       dst = entry_at c1 slot;
                       hash = c_hash_fn c1 entry_data;
                       c2 = c1\<lparr>free_top := top,
                              c_entries := take dst (c_entries c1) @ entry_data @ drop (dst + length entry_data) (c_entries c1),
                              c_hashes := (c_hashes c1)[unat slot := hash]\<rparr>
                   in Option.bind (ht_bare_insert (c_bare c2) hash slot)
                        (\<lambda>r. let c3 = c2\<lparr>c_bare := snd r\<rparr>
                             in if \<not> fst r
                                then Some (None, push_free (c3\<lparr>c_hashes := (c_hashes c3)[unat slot := 0]\<rparr>) slot)
                                else let c4 = lru_add_head (c3\<lparr>c_live := (c_live c3)[unat slot := True]\<rparr>) slot
                                     in Some (Some dst, c4\<lparr>c_size := sz_add (c_size c4) 1\<rparr>)))"

section \<open>Lookup\<close>

definition ht_cache_get :: "ht_cache \<Rightarrow> u8 list \<Rightarrow> nat option \<times> ht_cache" where
  "ht_cache_get c key =
     (let m = ht_bare_find_all (c_bare c) (c_hash_fn c key) (get_scan_cb c key) NONE
      in if m = NONE then (None, c)
         else let c1 = lru_promote c m in (Some (entry_at c1 m), c1))"

definition ht_cache_find :: "ht_cache \<Rightarrow> u64 \<Rightarrow> 's cache_scan \<Rightarrow> 's \<Rightarrow> nat option \<times> 's" where
  "ht_cache_find c hash scan s =
     (let (m, s') = ht_bare_find_all (c_bare c) hash (find_scan_cb c scan) (None, s)
      in (map_option (entry_at c) m, s'))"

definition ht_cache_promote :: "ht_cache \<Rightarrow> int \<Rightarrow> ht_cache" where
  "ht_cache_promote c p =
     (let idx = entry_index c p
      in if unat idx \<ge> c_capacity c \<or> \<not> c_live c ! unat idx then c else lru_promote c idx)"

section \<open>Size and iteration\<close>

definition ht_cache_size :: "ht_cache \<Rightarrow> nat" where
  "ht_cache_size c = c_size c"

definition ht_cache_capacity :: "ht_cache \<Rightarrow> nat" where
  "ht_cache_capacity c = c_capacity c"

record ht_cache_iter =
  ci_idx :: nat
  ci_started :: bool

definition ht_cache_iter_begin :: "ht_cache \<Rightarrow> ht_cache_iter" where
  "ht_cache_iter_begin c = \<lparr>ci_idx = 0, ci_started = False\<rparr>"

definition ht_cache_iter_next :: "ht_cache \<Rightarrow> ht_cache_iter \<Rightarrow> nat option \<times> ht_cache_iter" where
  "ht_cache_iter_next c it =
     (let start = (if \<not> ci_started it then 0 else sz_add (ci_idx it) 1)
      in case List.find (\<lambda>i. c_live c ! i) [start..<c_capacity c] of
           Some i \<Rightarrow> (Some (entry_at c (word_of_nat i)), \<lparr>ci_idx = i, ci_started = True\<rparr>)
         | None \<Rightarrow> (None, \<lparr>ci_idx = max start (c_capacity c), ci_started = True\<rparr>))"

end
