(* ===== verification/Ht_Lru.thy ===== *)
theory Ht_Lru
  imports Ht_Cache
begin

text \<open>
  The recency list of the cache. \<open>lru_ok c xs\<close> says that the index arrays thread the list \<open>xs\<close>,
  most recently used first, in both directions. \<open>recency\<close> is the interface the cache relies on:
  adding at the front and unlinking; promotion is derived in it.
\<close>

section \<open>Threaded lists\<close>

text \<open>The list \<open>xs\<close> hangs behind \<open>p\<close>, its links right in both directions.\<close>

fun threaded :: "u32 list \<Rightarrow> u32 list \<Rightarrow> u32 \<Rightarrow> u32 list \<Rightarrow> u32 \<Rightarrow> bool" where
  "threaded pv nx p [] q \<longleftrightarrow> True"
| "threaded pv nx p (x # xs) q \<longleftrightarrow>
     pv ! unat x = p \<and> nx ! unat x = (case xs of [] \<Rightarrow> q | y # _ \<Rightarrow> y) \<and> threaded pv nx x xs q"

definition first_of :: "u32 list \<Rightarrow> u32 \<Rightarrow> u32" where
  "first_of xs d = (case xs of [] \<Rightarrow> d | x # _ \<Rightarrow> x)"

definition last_of :: "u32 list \<Rightarrow> u32 \<Rightarrow> u32" where
  "last_of xs d = (if xs = [] then d else last xs)"

lemma first_of_simps [simp]: "first_of [] d = d" "first_of (x # xs) d = x" "first_of (xs @ ys) d = first_of xs (first_of ys d)"
  by (auto simp: first_of_def split: list.split)

lemma last_of_simps [simp]: "last_of [] d = d" "last_of (xs @ [x]) d = x" "last_of (x # xs) d = last_of xs x"
  "last_of (xs @ ys) d = last_of ys (last_of xs d)"
  by (auto simp: last_of_def)

lemma threaded_append:
  "threaded pv nx p (xs @ ys) q \<longleftrightarrow> threaded pv nx p xs (first_of ys q) \<and> threaded pv nx (last_of xs p) ys q"
  by (induction xs arbitrary: p) (auto simp: first_of_def split: list.split)

lemma threaded_prev_upd:
  "x \<notin> set xs \<Longrightarrow> threaded (pv[unat x := v]) nx p xs q \<longleftrightarrow> threaded pv nx p xs q"
  by (induction xs arbitrary: p) (auto simp: word_unat_eq_iff)

lemma threaded_next_upd:
  "x \<notin> set xs \<Longrightarrow> threaded pv (nx[unat x := v]) p xs q \<longleftrightarrow> threaded pv nx p xs q"
  by (induction xs arbitrary: p) (auto simp: word_unat_eq_iff)

text \<open>Changing what is before the first or behind the last element.\<close>

lemma threaded_new_prev:
  assumes "threaded pv nx p xs q" "distinct xs" "\<forall>x \<in> set xs. unat x < length pv"
  shows "threaded (if xs = [] then pv else pv[unat (hd xs) := p']) nx p' xs q"
  using assms by (cases xs) (auto simp: threaded_prev_upd)

lemma threaded_new_next:
  assumes "threaded pv nx p xs q" "distinct xs" "\<forall>x \<in> set xs. unat x < length nx"
  shows "threaded pv (if xs = [] then nx else nx[unat (last xs) := q']) p xs q'"
  using assms
proof (induction xs arbitrary: p)
  case (Cons x xs)
  show ?case
  proof (cases xs)
    case Nil
    then show ?thesis using Cons.prems by simp
  next
    case (Cons y ys)
    then have "last xs \<noteq> x" using Cons.prems(2) last_in_set [of xs] by auto
    then have "unat (last xs) \<noteq> unat x" by (simp add: word_unat_eq_iff)
    then show ?thesis using Cons.IH [of x] Cons.prems Cons by auto
  qed
qed simp

section \<open>The invariant\<close>

definition lru_ok :: "ht_cache \<Rightarrow> u32 list \<Rightarrow> bool" where
  "lru_ok c xs \<longleftrightarrow>
     threaded (lru_prev c) (lru_next c) NONE xs NONE \<and> lru_head c = first_of xs NONE \<and> lru_tail c = last_of xs NONE \<and>
     distinct xs \<and> (\<forall>x \<in> set xs. unat x < c_capacity c) \<and>
     length (lru_prev c) = c_capacity c \<and> length (lru_next c) = c_capacity c \<and> c_capacity c < 2 ^ 32 - 1"

lemma index_not_NONE: "unat x < n \<Longrightarrow> n < 2 ^ 32 - 1 \<Longrightarrow> x \<noteq> NONE"
  by (auto simp: NONE_def)

lemma lru_add_head_ok:
  assumes ok: "lru_ok c xs" and x: "x \<notin> set xs" "unat x < c_capacity c"
  shows "lru_ok (lru_add_head c x) (x # xs)"
proof -
  have n: "y \<noteq> NONE" if "unat y < c_capacity c" for y
    using that ok index_not_NONE [of y "c_capacity c"] by (simp add: lru_ok_def)
  show ?thesis
  proof (cases xs)
    case Nil
    then show ?thesis using ok x n by (simp add: lru_ok_def lru_add_head_def Let_def)
  next
    case (Cons y ys)
    have y: "y \<noteq> NONE" "unat y < c_capacity c" "unat y \<noteq> unat x" and l: "lru_tail c \<noteq> NONE"
      using ok x Cons n last_in_set [of xs] by (auto simp: lru_ok_def word_unat_eq_iff last_of_def)
    have "threaded ((lru_prev c)[unat x := NONE]) ((lru_next c)[unat x := y]) NONE xs NONE"
      using ok x(1) by (simp add: lru_ok_def threaded_prev_upd threaded_next_upd)
    from threaded_new_prev [OF this, of x]
    have "threaded ((lru_prev c)[unat x := NONE, unat y := x]) ((lru_next c)[unat x := y]) x xs NONE"
      using ok Cons by (simp add: lru_ok_def)
    then show ?thesis using ok x y l Cons by (simp add: lru_ok_def lru_add_head_def Let_def)
  qed
qed

lemma lru_remove_ok:
  assumes ok: "lru_ok c (as @ x # bs)"
  shows "lru_ok (lru_remove c x) (as @ bs)"
proof -
  let ?pv = "lru_prev c" and ?nx = "lru_next c"
  have n: "y \<noteq> NONE" if "y \<in> set (as @ x # bs)" for y
    using that ok index_not_NONE [of y "c_capacity c"] by (auto simp: lru_ok_def)
  have t: "threaded ?pv ?nx NONE as x" "?pv ! unat x = last_of as NONE" "?nx ! unat x = first_of bs NONE" "threaded ?pv ?nx x bs NONE"
    using ok by (auto simp: lru_ok_def threaded_append first_of_def)
  have d: "distinct as" "distinct bs" "x \<notin> set as" "x \<notin> set bs" "set as \<inter> set bs = {}"
    and len: "\<forall>y \<in> set as. unat y < length ?nx" "\<forall>y \<in> set bs. unat y < length ?pv" "length ?pv = c_capacity c" "length ?nx = c_capacity c"
    using ok by (auto simp: lru_ok_def)
  define nx where "nx = (if as = [] then ?nx else ?nx[unat (last as) := first_of bs NONE])"
  define pv where "pv = (if bs = [] then ?pv else ?pv[unat (hd bs) := last_of as NONE])"
  have a: "threaded ?pv nx NONE as (first_of bs NONE)"
    using threaded_new_next [OF t(1) d(1) len(1)] by (simp add: nx_def)
  have b: "threaded pv ?nx (last_of as NONE) bs NONE"
    using threaded_new_prev [OF t(4) d(2) len(2)] by (simp add: pv_def)
  have "threaded pv nx NONE as (first_of bs NONE)"
    using a d(5) by (cases bs) (auto simp: pv_def threaded_prev_upd)
  moreover have "last as \<notin> set bs" if "as \<noteq> []" using that d(5) last_in_set by blast
  then have "threaded pv nx (last_of as NONE) bs NONE"
    using b by (auto simp: nx_def threaded_next_upd)
  ultimately have th: "threaded (pv[unat x := NONE]) (nx[unat x := NONE]) NONE (as @ bs) NONE"
    using d(3,4) by (simp add: threaded_append threaded_prev_upd threaded_next_upd)
  have p: "last_of as NONE \<noteq> NONE \<longleftrightarrow> as \<noteq> []" "first_of bs NONE \<noteq> NONE \<longleftrightarrow> bs \<noteq> []"
    using n last_in_set [of as] by (auto simp: last_of_def first_of_def split: list.split)
  have f: "lru_prev (lru_remove c x) = pv[unat x := NONE]" "lru_next (lru_remove c x) = nx[unat x := NONE]"
    "lru_head (lru_remove c x) = (if as = [] then first_of bs NONE else lru_head c)"
    "lru_tail (lru_remove c x) = (if bs = [] then last_of as NONE else lru_tail c)" "c_capacity (lru_remove c x) = c_capacity c"
    using t(2,3) p unfolding lru_remove_def pv_def nx_def
    by (auto simp: Let_def last_of_def first_of_def split: list.splits)
  have "length pv = c_capacity c" "length nx = c_capacity c" using len by (simp_all add: pv_def nx_def)
  moreover have "as \<noteq> [] \<Longrightarrow> first_of (as @ x # bs) NONE = first_of (as @ bs) NONE" by (cases as) simp_all
  moreover have "bs \<noteq> [] \<Longrightarrow> last_of (as @ x # bs) NONE = last_of (as @ bs) NONE" by (simp add: last_of_def)
  ultimately show ?thesis
    using th f ok unfolding lru_ok_def by (cases "as = []"; cases "bs = []") simp_all
qed

section \<open>The interface\<close>

text \<open>
  A recency list over a state: \<open>order s xs\<close> relates the state to the list, \<open>valid\<close> indices can be
  linked. Promotion to the front follows from the two laws.
\<close>

locale recency =
  fixes order :: "'s \<Rightarrow> 'i list \<Rightarrow> bool"
    and valid :: "'s \<Rightarrow> 'i \<Rightarrow> bool"
    and head_is :: "'s \<Rightarrow> 'i \<Rightarrow> bool"
    and add :: "'s \<Rightarrow> 'i \<Rightarrow> 's"
    and unlink :: "'s \<Rightarrow> 'i \<Rightarrow> 's"
  assumes order_distinct: "order s xs \<Longrightarrow> distinct xs"
    and order_valid: "order s xs \<Longrightarrow> x \<in> set xs \<Longrightarrow> valid s x"
    and valid_unlink: "valid (unlink s x) y = valid s y"
    and add_order: "order s xs \<Longrightarrow> x \<notin> set xs \<Longrightarrow> valid s x \<Longrightarrow> order (add s x) (x # xs)"
    and unlink_order: "order s (as @ x # bs) \<Longrightarrow> order (unlink s x) (as @ bs)"
    and head_order: "order s xs \<Longrightarrow> xs \<noteq> [] \<Longrightarrow> head_is s x \<longleftrightarrow> hd xs = x"
begin

lemma unlink_remove1: "order s xs \<Longrightarrow> x \<in> set xs \<Longrightarrow> order (unlink s x) (remove1 x xs)"
proof -
  assume o: "order s xs" and "x \<in> set xs"
  then obtain as bs where xs: "xs = as @ x # bs" "x \<notin> set as" using split_list_first by fastforce
  then have "remove1 x xs = as @ bs" by (simp add: remove1_append)
  then show ?thesis using unlink_order [of s as x bs] o xs(1) by simp
qed

lemma promote_order:
  assumes "order s xs" "x \<in> set xs"
  shows "order (if head_is s x then s else add (unlink s x) x) (x # remove1 x xs)"
proof (cases "head_is s x")
  case True
  moreover have "xs \<noteq> []" using assms(2) by auto
  ultimately have "hd xs = x" "xs \<noteq> []" using head_order [OF assms(1)] by blast+
  then have "x # remove1 x xs = xs" by (cases xs) auto
  then show ?thesis using True assms(1) by simp
next
  case False
  have "x \<notin> set (remove1 x xs)" using order_distinct [OF assms(1)] by (simp add: set_remove1_eq)
  then show ?thesis
    using False add_order [OF unlink_remove1 [OF assms]] order_valid [OF assms] by (simp add: valid_unlink)
qed

text \<open>The least recently used element leaves.\<close>

lemma unlink_last: "order s xs \<Longrightarrow> xs \<noteq> [] \<Longrightarrow> order (unlink s (last xs)) (butlast xs)"
  using unlink_order [of s "butlast xs" "last xs" "[]"] by simp

end

interpretation lru: recency lru_ok "\<lambda>c x. unat x < c_capacity c" "\<lambda>c x. lru_head c = x" lru_add_head lru_remove
proof
  show "distinct xs" if "lru_ok c xs" for c xs using that by (simp add: lru_ok_def)
  show "unat x < c_capacity c" if "lru_ok c xs" "x \<in> set xs" for c xs x using that by (simp add: lru_ok_def)
  show "(unat y < c_capacity (lru_remove c x)) = (unat y < c_capacity c)" for c x y by (simp add: lru_remove_def Let_def)
  show "lru_ok (lru_add_head c x) (x # xs)" if "lru_ok c xs" "x \<notin> set xs" "unat x < c_capacity c" for c xs x
    using that by (rule lru_add_head_ok)
  show "lru_ok (lru_remove c x) (as @ bs)" if "lru_ok c (as @ x # bs)" for c as x bs using that by (rule lru_remove_ok)
  show "lru_head c = x \<longleftrightarrow> hd xs = x" if "lru_ok c xs" "xs \<noteq> []" for c xs x
    using that by (cases xs) (auto simp: lru_ok_def)
qed

lemma lru_promote_ok: "lru_ok c xs \<Longrightarrow> x \<in> set xs \<Longrightarrow> lru_ok (lru_promote c x) (x # remove1 x xs)"
  unfolding lru_promote_def by (rule lru.promote_order)

section \<open>Reading the list off the arrays\<close>

fun lru_walk :: "u32 list \<Rightarrow> nat \<Rightarrow> u32 \<Rightarrow> u32 list" where
  "lru_walk nx 0 x = []"
| "lru_walk nx (Suc n) x = (if x = NONE then [] else x # lru_walk nx n (nx ! unat x))"

definition lru_order :: "ht_cache \<Rightarrow> u32 list" where
  "lru_order c = lru_walk (lru_next c) (c_capacity c) (lru_head c)"

lemma lru_walk_threaded:
  "threaded pv nx p xs NONE \<Longrightarrow> NONE \<notin> set xs \<Longrightarrow> length xs \<le> n \<Longrightarrow> lru_walk nx n (first_of xs NONE) = xs"
proof (induction xs arbitrary: p n)
  case Nil
  then show ?case by (cases n) auto
next
  case (Cons x xs)
  then obtain m where m: "n = Suc m" by (cases n) auto
  have "nx ! unat x = first_of xs NONE" using Cons.prems(1) by (simp add: first_of_def)
  moreover have "x \<noteq> NONE" using Cons.prems(2) by auto
  ultimately show ?case using Cons.IH [of x m] Cons.prems m by simp
qed

lemma lru_order_eq:
  assumes "lru_ok c xs"
  shows "lru_order c = xs"
proof -
  have sub: "set (map unat xs) \<subseteq> {..<c_capacity c}" and d: "distinct (map unat xs)"
    using assms by (auto simp: lru_ok_def distinct_map inj_on_def word_unat_eq_iff)
  have "length xs \<le> c_capacity c" using card_mono [OF _ sub] distinct_card [OF d] by simp
  moreover have "NONE \<notin> set xs" using assms index_not_NONE [of NONE "c_capacity c"] by (auto simp: lru_ok_def)
  ultimately show ?thesis
    using assms lru_walk_threaded [of "lru_prev c" "lru_next c" NONE xs "c_capacity c"] by (simp add: lru_order_def lru_ok_def)
qed

section \<open>What the list operations leave alone\<close>

lemma lru_add_head_frame [simp]:
  "c_bare (lru_add_head c x) = c_bare c" "c_entries (lru_add_head c x) = c_entries c" "c_hashes (lru_add_head c x) = c_hashes c"
  "c_live (lru_add_head c x) = c_live c" "free_stack (lru_add_head c x) = free_stack c" "free_top (lru_add_head c x) = free_top c"
  "c_capacity (lru_add_head c x) = c_capacity c" "entry_size (lru_add_head c x) = entry_size c" "c_size (lru_add_head c x) = c_size c"
  "c_hash_fn (lru_add_head c x) = c_hash_fn c" "c_eq_fn (lru_add_head c x) = c_eq_fn c"
  by (simp_all add: lru_add_head_def Let_def)

lemma lru_remove_frame [simp]:
  "c_bare (lru_remove c x) = c_bare c" "c_entries (lru_remove c x) = c_entries c" "c_hashes (lru_remove c x) = c_hashes c"
  "c_live (lru_remove c x) = c_live c" "free_stack (lru_remove c x) = free_stack c" "free_top (lru_remove c x) = free_top c"
  "c_capacity (lru_remove c x) = c_capacity c" "entry_size (lru_remove c x) = entry_size c" "c_size (lru_remove c x) = c_size c"
  "c_hash_fn (lru_remove c x) = c_hash_fn c" "c_eq_fn (lru_remove c x) = c_eq_fn c"
  by (simp_all add: lru_remove_def Let_def)

lemma lru_promote_frame [simp]:
  "c_bare (lru_promote c x) = c_bare c" "c_entries (lru_promote c x) = c_entries c" "c_hashes (lru_promote c x) = c_hashes c"
  "c_live (lru_promote c x) = c_live c" "free_stack (lru_promote c x) = free_stack c" "free_top (lru_promote c x) = free_top c"
  "c_capacity (lru_promote c x) = c_capacity c" "entry_size (lru_promote c x) = entry_size c" "c_size (lru_promote c x) = c_size c"
  "c_hash_fn (lru_promote c x) = c_hash_fn c" "c_eq_fn (lru_promote c x) = c_eq_fn c"
  by (simp_all add: lru_promote_def)

text \<open>The recency list only depends on the links, the ends and the capacity.\<close>

lemma lru_ok_cong:
  "lru_prev c' = lru_prev c \<Longrightarrow> lru_next c' = lru_next c \<Longrightarrow> lru_head c' = lru_head c \<Longrightarrow> lru_tail c' = lru_tail c \<Longrightarrow>
   c_capacity c' = c_capacity c \<Longrightarrow> lru_ok c' xs = lru_ok c xs"
  by (simp add: lru_ok_def)

end
