(* ===== verification/Ht_Cache_Spec.thy ===== *)
theory Ht_Cache_Spec
  imports Ht_Lru Ht_Index Ht_Check
begin

unbundle bit_operations_syntax

text \<open>
  Correctness of the LRU cache. \<open>cached c\<close> is the abstract cache: the entries, most recently used
  first. \<open>cache_inv\<close> ties it to the concrete state: the recency list, the free stack, the live flags,
  the stored hashes and the bare table, which is used only through the interfaces \<open>hash_index\<close> and
  \<open>growing_index\<close>. Each operation is then a function on the abstract list, and \<open>cache_step\<close> and
  \<open>cache_reach\<close> give every history of calls.
\<close>


section \<open>The entry block\<close>

lemma block_update:
  assumes "length data = n" "s < m" "i < m" "length es = m * n"
  shows "take n (drop (i * n) (take (s * n) es @ data @ drop (s * n + n) es)) = (if i = s then data else take n (drop (i * n) es))"
proof -
  have s: "s * n + n \<le> m * n" using assms(2) by (metis Suc_leI add.commute mult_Suc mult_le_mono1)
  have i: "i * n + n \<le> m * n" using assms(3) by (metis Suc_leI add.commute mult_Suc mult_le_mono1)
  consider "i < s" | "i = s" | "s < i" by linarith
  then show ?thesis
  proof cases
    case 1
    then have "i * n + n \<le> s * n" by (metis Suc_leI add.commute mult_Suc mult_le_mono1)
    then have "take n (drop (i * n) (take (s * n) es)) = take n (drop (i * n) es)" by (simp add: drop_take min_def)
    moreover have "n \<le> length (drop (i * n) (take (s * n) es))" using \<open>i * n + n \<le> s * n\<close> s assms(4) by simp
    ultimately show ?thesis using 1 \<open>i * n + n \<le> s * n\<close> s assms(4) by simp
  next
    case 2
    have "s * n \<le> m * n" using s by linarith
    then show ?thesis using 2 assms(1,4) by (simp add: min_def)
  next
    case 3
    then have "s * n + n \<le> i * n" by (metis Suc_leI add.commute mult_Suc mult_le_mono1)
    moreover have le: "min (m * n) (s * n) = s * n" using s by linarith
    ultimately have "drop (i * n) (take (s * n) es @ data @ drop (s * n + n) es) = drop (i * n) es"
      using 3 s assms(1,4) le by simp
    then show ?thesis using 3 by simp
  qed
qed

section \<open>The invariant\<close>

text \<open>The bytes of an entry by its index, and the entries in order of recency.\<close>

definition cell :: "ht_cache \<Rightarrow> u32 \<Rightarrow> u8 list" where
  "cell c i = entry_bytes c (entry_at c i)"

definition cached :: "ht_cache \<Rightarrow> u8 list list" where
  "cached c = map (cell c) (lru_order c)"

definition cache_shape :: "ht_cache \<Rightarrow> bool" where
  "cache_shape c \<longleftrightarrow>
     length (c_entries c) = c_capacity c * entry_size c \<and> c_capacity c * entry_size c < 2 ^ 64 \<and> 0 < entry_size c \<and>
     length (c_hashes c) = c_capacity c \<and> length (c_live c) = c_capacity c \<and> length (free_stack c) = c_capacity c"

definition cache_rel :: "ht_cache \<Rightarrow> u32 list \<Rightarrow> bool" where
  "cache_rel c xs \<longleftrightarrow>
     cache_shape c \<and> lru_ok c xs \<and> searchable (c_bare c) \<and>
     contents (c_bare c) = mset (map (\<lambda>i. (hpd_hash (c_hash_fn c (cell c i)), i)) xs) \<and>
     (\<forall>i \<in> set xs. c_hashes c ! unat i = c_hash_fn c (cell c i)) \<and>
     (\<forall>i. unat i < c_capacity c \<longrightarrow> c_live c ! unat i = (i \<in> set xs)) \<and>
     mset (xs @ take (free_top c) (free_stack c)) = mset (map word_of_nat [0..<c_capacity c]) \<and>
     free_top c \<le> c_capacity c \<and> c_size c = length xs"

definition cache_inv :: "ht_cache \<Rightarrow> bool" where
  "cache_inv c \<longleftrightarrow> cache_rel c (lru_order c)"

lemma cache_relD:
  assumes "cache_rel c xs"
  shows "cache_shape c" "lru_ok c xs" "searchable (c_bare c)"
    and "contents (c_bare c) = mset (map (\<lambda>i. (hpd_hash (c_hash_fn c (cell c i)), i)) xs)"
    and "i \<in> set xs \<Longrightarrow> c_hashes c ! unat i = c_hash_fn c (cell c i)"
    and "unat i < c_capacity c \<Longrightarrow> c_live c ! unat i = (i \<in> set xs)"
    and "mset (xs @ take (free_top c) (free_stack c)) = mset (map word_of_nat [0..<c_capacity c])"
    and "free_top c \<le> c_capacity c" "c_size c = length xs"
    and "lru_order c = xs" "distinct xs" "i \<in> set xs \<Longrightarrow> unat i < c_capacity c" "c_capacity c < 2 ^ 32 - 1"
  using assms lru_order_eq [of c xs] by (auto simp: cache_rel_def lru_ok_def)

lemma cache_relI: "cache_rel c xs \<Longrightarrow> cache_inv c" and cached_eq: "cache_rel c xs \<Longrightarrow> cached c = map (cell c) xs"
  using cache_relD(10) by (auto simp: cache_inv_def cached_def)

lemma cache_counts:
  assumes "cache_rel c xs"
  shows "length xs + free_top c = c_capacity c"
proof -
  have "length (xs @ take (free_top c) (free_stack c)) = c_capacity c"
    using arg_cong [OF cache_relD(7) [OF assms], of size] by simp
  then show ?thesis using cache_relD(1,8) [OF assms] by (simp add: cache_shape_def)
qed

lemma free_slots:
  assumes "cache_rel c xs"
  shows "distinct (xs @ take (free_top c) (free_stack c))" "i \<in> set (take (free_top c) (free_stack c)) \<Longrightarrow> unat i < c_capacity c"
proof -
  have inj: "inj_on (word_of_nat :: nat \<Rightarrow> u32) {0..<c_capacity c}"
    using cache_relD(13) [OF assms] by (intro inj_onI) (metis atLeastLessThan_iff less_trans unat_word_of_nat(2) diff_less zero_less_one zero_less_power pos2)
  then have "distinct (map (word_of_nat :: nat \<Rightarrow> u32) [0..<c_capacity c])" by (simp add: distinct_map)
  then show "distinct (xs @ take (free_top c) (free_stack c))"
    using cache_relD(7) [OF assms] mset_eq_imp_distinct_iff by blast
  have "set (take (free_top c) (free_stack c)) \<subseteq> word_of_nat ` {0..<c_capacity c}"
    using arg_cong [OF cache_relD(7) [OF assms], of set_mset] by auto
  moreover have "unat (word_of_nat k :: u32) < c_capacity c" if "k < c_capacity c" for k
    using that cache_relD(13) [OF assms] unat_word_of_nat(2) [of k] by simp
  ultimately show "i \<in> set (take (free_top c) (free_stack c)) \<Longrightarrow> unat i < c_capacity c" by auto
qed

lemma entry_at_eq:
  assumes "cache_shape c" "unat i < c_capacity c"
  shows "entry_at c i = unat i * entry_size c"
proof -
  have "unat i * entry_size c \<le> c_capacity c * entry_size c" using assms(2) by simp
  also have "\<dots> < 2 ^ 64" using assms(1) by (simp add: cache_shape_def)
  finally show ?thesis by (simp only: entry_at_def sz_mul_def mod_less)
qed

section \<open>Scans\<close>

definition cache_match :: "ht_cache \<Rightarrow> u8 list \<Rightarrow> u8 list \<Rightarrow> bool" where
  "cache_match c key e \<longleftrightarrow>
     hpd_hash (c_hash_fn c e) = hpd_hash (c_hash_fn c key) \<and> (case c_eq_fn c of None \<Rightarrow> True | Some f \<Rightarrow> f key e)"

lemma remove_scan_eq: "remove_scan_cb = get_scan_cb"
  by (intro ext) (simp add: remove_scan_cb_def get_scan_cb_def)

lemma stored_iff:
  assumes "cache_rel c xs"
  shows "(hpd_hash hash, i) \<in># contents (c_bare c) \<longleftrightarrow> i \<in> set xs \<and> hpd_hash (c_hash_fn c (cell c i)) = hpd_hash hash"
  using cache_relD(4) [OF assms] by (auto simp: image_iff)

lemma scan_result:
  fixes key :: "u8 list"
  assumes rel: "cache_rel c xs"
  defines "m \<equiv> ht_bare_find_all (c_bare c) (c_hash_fn c key) (get_scan_cb c key) NONE"
  shows "(m = NONE \<and> (\<forall>i \<in> set xs. \<not> cache_match c key (cell c i))) \<or>
    (m \<noteq> NONE \<and> m \<in> set xs \<and> cache_match c key (cell c m))"
proof -
  let ?vs = "bare_values (c_bare c) (c_hash_fn c key)"
  define P where "P v \<longleftrightarrow> unat v < c_capacity c \<and> c_live c ! unat v \<and> (case c_eq_fn c of None \<Rightarrow> True | Some f \<Rightarrow> f key (cell c v))" for v
  have "get_scan_cb c key = (\<lambda>v s. if P v then (False, v) else (True, s))"
    by (intro ext) (auto simp: get_scan_cb_def P_def cell_def not_le split: option.splits)
  then have m: "m = (case List.find P ?vs of None \<Rightarrow> NONE | Some v \<Rightarrow> v)"
    by (simp add: m_def find_all_run run_cb_find split: option.split)
  have vs: "v \<in> set ?vs \<longleftrightarrow> v \<in> set xs \<and> hpd_hash (c_hash_fn c (cell c v)) = hpd_hash (c_hash_fn c key)" for v
    using bi.in_vals_at [OF cache_relD(3) [OF rel], of v "c_hash_fn c key"] stored_iff [OF rel] by simp
  have P: "v \<in> set ?vs \<Longrightarrow> P v \<longleftrightarrow> cache_match c key (cell c v)" for v
    using vs [of v] cache_relD(6,12) [OF rel, of v] by (auto simp: P_def cache_match_def)
  show ?thesis
  proof (cases "List.find P ?vs")
    case None
    then have "\<forall>v \<in> set ?vs. \<not> P v" by (auto simp: find_None_iff)
    then show ?thesis using None m P vs by (auto simp: cache_match_def)
  next
    case (Some v)
    then have v: "v \<in> set ?vs" "P v" by (auto simp: find_Some_iff)
    have "v \<noteq> NONE" using v(2) cache_relD(13) [OF rel] index_not_NONE [of v "c_capacity c"] by (simp add: P_def)
    then show ?thesis using Some m v P vs by auto
  qed
qed

section \<open>Giving a slot back\<close>

text \<open>The common end of eviction and removal.\<close>

definition drop_slot :: "ht_cache \<Rightarrow> ht_bare \<Rightarrow> u32 \<Rightarrow> ht_cache" where
  "drop_slot c b i =
     (let c2 = lru_remove (c\<lparr>c_bare := b\<rparr>) i; c3 = push_free (c2\<lparr>c_live := (c_live c2)[unat i := False]\<rparr>) i
      in c3\<lparr>c_size := sz_sub (c_size c3) 1\<rparr>)"

lemma drop_slot_ok:
  assumes rel: "cache_rel c xs" and i: "i \<in> set xs"
    and b: "searchable b" "contents (c_bare c) = add_mset (hpd_hash (c_hash_fn c (cell c i)), i) (contents b)"
  shows "cache_rel (drop_slot c b i) (remove1 i xs)" "cell (drop_slot c b i) = cell c" "c_hash_fn (drop_slot c b i) = c_hash_fn c"
    "c_eq_fn (drop_slot c b i) = c_eq_fn c" "c_capacity (drop_slot c b i) = c_capacity c" "entry_size (drop_slot c b i) = entry_size c"
    "c_bare (drop_slot c b i) = b" "0 < free_top (drop_slot c b i)"
proof -
  let ?c = "drop_slot c b i"
  define ys where "ys = remove1 i xs"
  note D = cache_relD [OF rel]
  have cnt: "length xs + free_top c = c_capacity c" by (rule cache_counts [OF rel])
  have pos: "0 < length xs" using i by (cases xs) auto
  have top: "sz_add (free_top c) 1 = Suc (free_top c)" "sz_sub (c_size c) 1 = c_size c - 1"
    using cnt pos D(9,13) sz_sub_small [of 1 "c_size c"] by (simp_all add: sz_add_small Suc_le_eq)
  show f: "cell ?c = cell c" "c_hash_fn ?c = c_hash_fn c" "c_eq_fn ?c = c_eq_fn c" "c_capacity ?c = c_capacity c" "entry_size ?c = entry_size c"
    "c_bare ?c = b" "0 < free_top ?c"
    using top by (simp_all add: drop_slot_def push_free_def Let_def cell_def [abs_def] entry_bytes_def entry_at_def)
  have "lru_ok (lru_remove (c\<lparr>c_bare := b\<rparr>) i) ys"
    unfolding ys_def using lru.unlink_remove1 [of "c\<lparr>c_bare := b\<rparr>" xs i] i D(2) lru_ok_cong [of "c\<lparr>c_bare := b\<rparr>" c] by simp
  then have l: "lru_ok ?c ys" unfolding drop_slot_def push_free_def Let_def by (subst lru_ok_cong) simp_all
  have set: "set ys = set xs - {i}" "length ys = length xs - 1" using D(11) i by (simp_all add: ys_def set_remove1_eq length_remove1)
  have live: "c_live ?c = (c_live c)[unat i := False]" "c_hashes ?c = c_hashes c" "c_size ?c = length xs - 1"
    "free_stack ?c = (free_stack c)[free_top c := i]" "free_top ?c = Suc (free_top c)" "c_entries ?c = c_entries c"
    using top D(9) by (simp_all add: drop_slot_def push_free_def Let_def)
  have mx: "mset xs = add_mset i (mset ys)" using i by (simp add: ys_def)
  have cont: "contents b = mset (map (\<lambda>j. (hpd_hash (c_hash_fn c (cell c j)), j)) ys)"
    using b(2) D(4) mx by simp
  have lt: "free_top c < c_capacity c" using cnt pos by linarith
  then have room: "free_top c < length (free_stack c)" using D(1) by (simp add: cache_shape_def)
  then have "take (Suc (free_top c)) ((free_stack c)[free_top c := i]) = take (free_top c) (free_stack c) @ [i]"
    by (simp add: take_Suc_conv_app_nth)
  then have perm: "mset (ys @ take (free_top ?c) (free_stack ?c)) = mset (map word_of_nat [0..<c_capacity c])"
    unfolding D(7) [symmetric] using mx live(4,5) by simp
  have "c_live ?c ! unat j = (j \<in> set ys)" if "unat j < c_capacity c" for j
    using D(6) [OF that] that D(1) live(1) set(1)
    by (cases "j = i") (simp_all add: cache_shape_def nth_list_update word_unat_eq_iff)
  then show "cache_rel ?c (remove1 i xs)"
    unfolding cache_rel_def ys_def [symmetric] using l f b(1) cont perm live set D(1,5) lt
    by (simp add: cache_shape_def del: mset_append mset_map)
qed

section \<open>Eviction and removal\<close>

lemma lru_remove_live: "lru_remove (c\<lparr>c_live := l\<rparr>) i = (lru_remove c i)\<lparr>c_live := l\<rparr>"
  by (simp add: lru_remove_def Let_def)

lemma remove_stored:
  assumes rel: "cache_rel c xs" and i: "i \<in> set xs" and h: "hpd_hash hash = hpd_hash (c_hash_fn c (cell c i))"
  shows "fst (ht_bare_remove_val (c_bare c) hash i)" "searchable (snd (ht_bare_remove_val (c_bare c) hash i))"
    "contents (c_bare c) = add_mset (hpd_hash (c_hash_fn c (cell c i)), i) (contents (snd (ht_bare_remove_val (c_bare c) hash i)))"
  using bi.remove_hit [OF cache_relD(3) [OF rel], of hash i] stored_iff [OF rel, of hash i] i h by auto

lemma evict_ok:
  assumes rel: "cache_rel c xs"
  shows "if xs = [] then ht_cache_evict c = (False, c)
    else \<exists>b. ht_cache_evict c = (True, drop_slot c b (last xs)) \<and> cache_rel (drop_slot c b (last xs)) (butlast xs) \<and>
      searchable b \<and> contents (c_bare c) = add_mset (hpd_hash (c_hash_fn c (cell c (last xs))), last xs) (contents b)"
proof (cases "xs = []")
  case True
  then show ?thesis using cache_relD(9) [OF rel] by (simp add: ht_cache_evict_def)
next
  case False
  let ?i = "last xs"
  note D = cache_relD [OF rel]
  have i: "?i \<in> set xs" using False by simp
  have tail: "lru_tail c = ?i" "?i \<noteq> NONE"
    using D(2) False index_not_NONE [OF D(12) [OF i] D(13)] by (simp_all add: lru_ok_def last_of_def)
  let ?r = "ht_bare_remove_val (c_bare c) (c_hashes c ! unat ?i) ?i"
  have h: "hpd_hash (c_hashes c ! unat ?i) = hpd_hash (c_hash_fn c (cell c ?i))" using D(5) [OF i] by simp
  note r = remove_stored [OF rel i h]
  have eq: "ht_cache_evict c = (True, drop_slot c (snd ?r) ?i)"
    using tail r(1) D(9) False by (simp add: ht_cache_evict_def drop_slot_def Let_def case_prod_beta)
  have "remove1 ?i xs = butlast xs" using D(11) False by (metis append_butlast_last_id distinct_append distinct_butlast remove1_append remove1.simps(2) list.simps(15) disjoint_insert(1) append_Nil2 remove1.simps(1))
  then show ?thesis using eq drop_slot_ok(1) [OF rel i r(2,3)] r(2,3) False by auto
qed

lemma remove_ok:
  assumes rel: "cache_rel c xs"
  shows "case ht_cache_remove c key of
      (False, c') \<Rightarrow> c' = c \<and> (\<forall>i \<in> set xs. \<not> cache_match c key (cell c i))
    | (True, c') \<Rightarrow> \<exists>i b. i \<in> set xs \<and> cache_match c key (cell c i) \<and> c' = drop_slot c b i \<and>
        cache_rel c' (remove1 i xs) \<and> cell c' = cell c"
proof -
  define m where "m = ht_bare_find_all (c_bare c) (c_hash_fn c key) (get_scan_cb c key) NONE"
  have s: "(m = NONE \<and> (\<forall>i \<in> set xs. \<not> cache_match c key (cell c i))) \<or> (m \<noteq> NONE \<and> m \<in> set xs \<and> cache_match c key (cell c m))"
    using scan_result [OF rel, of key] by (simp add: m_def)
  show ?thesis
  proof (cases "m = NONE")
    case True
    then show ?thesis using s by (simp add: ht_cache_remove_def remove_scan_eq m_def [symmetric])
  next
    case False
    then have m: "m \<in> set xs" "cache_match c key (cell c m)" using s by auto
    let ?r = "ht_bare_remove_val (c_bare c) (c_hash_fn c key) m"
    note r = remove_stored [OF rel m(1), of "c_hash_fn c key"]
    have h: "hpd_hash (c_hash_fn c key) = hpd_hash (c_hash_fn c (cell c m))" using m(2) by (simp add: cache_match_def)
    have comm: "c\<lparr>c_live := l, c_bare := b\<rparr> = c\<lparr>c_bare := b, c_live := l\<rparr>" for l b by simp
    have "ht_cache_remove c key = (True, drop_slot c (snd ?r) m)"
      using False r(1) [OF h]
      by (simp add: ht_cache_remove_def remove_scan_eq m_def [symmetric] drop_slot_def Let_def case_prod_beta comm lru_remove_live)
    then show ?thesis using m drop_slot_ok(1,2) [OF rel m(1) r(2) [OF h] r(3) [OF h]] by auto
  qed
qed

section \<open>Lookup\<close>

lemma cache_rel_reorder:
  assumes "cache_rel c xs" "mset ys = mset xs" "lru_ok c' ys" "cell c' = cell c" "cache_shape c' = cache_shape c"
    and "c_bare c' = c_bare c" "c_hashes c' = c_hashes c" "c_live c' = c_live c" "free_stack c' = free_stack c"
    and "free_top c' = free_top c" "c_capacity c' = c_capacity c" "c_size c' = c_size c" "c_hash_fn c' = c_hash_fn c"
  shows "cache_rel c' ys"
  using assms mset_eq_setD [OF assms(2)] mset_eq_length [OF assms(2)] by (simp add: cache_rel_def)

lemma promote_ok:
  assumes rel: "cache_rel c xs" and i: "i \<in> set xs"
  shows "cache_rel (lru_promote c i) (i # remove1 i xs)" "cell (lru_promote c i) = cell c"
proof -
  show cell: "cell (lru_promote c i) = cell c" by (simp add: cell_def [abs_def] entry_bytes_def entry_at_def)
  have "mset (i # remove1 i xs) = mset xs" using i by simp
  then show "cache_rel (lru_promote c i) (i # remove1 i xs)"
    using lru_promote_ok [OF cache_relD(2) [OF rel] i] cell by (rule cache_rel_reorder [OF rel]) (simp_all add: cache_shape_def)
qed


section \<open>Insertion\<close>

text \<open>The second half of \<open>ht_cache_put\<close>, once there is a free slot.\<close>

definition store_slot :: "ht_cache \<Rightarrow> u8 list \<Rightarrow> ht_cache" where
  "store_slot c e =
     (let top = sz_sub (free_top c) 1; slot = free_stack c ! top; dst = entry_at c slot
      in c\<lparr>free_top := top, c_entries := take dst (c_entries c) @ e @ drop (dst + length e) (c_entries c),
           c_hashes := (c_hashes c)[unat slot := c_hash_fn c e]\<rparr>)"

definition store_entry :: "ht_cache \<Rightarrow> u8 list \<Rightarrow> (nat option \<times> ht_cache) option" where
  "store_entry c e =
     (let c2 = store_slot c e; slot = free_stack c ! sz_sub (free_top c) 1
      in Option.bind (ht_bare_insert (c_bare c) (c_hash_fn c e) slot)
           (\<lambda>r. let c3 = c2\<lparr>c_bare := snd r\<rparr>
                in if \<not> fst r
                   then Some (None, push_free (c3\<lparr>c_hashes := (c_hashes c3)[unat slot := 0]\<rparr>) slot)
                   else let c4 = lru_add_head (c3\<lparr>c_live := (c_live c3)[unat slot := True]\<rparr>) slot
                        in Some (Some (entry_at c slot), c4\<lparr>c_size := sz_add (c_size c4) 1\<rparr>)))"

lemma put_store:
  assumes "length e = entry_size c"
  shows "ht_cache_put c e =
    (let (ok, c1) = (if free_top c = 0 then ht_cache_evict c else (True, c)) in if \<not> ok then Some (None, c1) else store_entry c1 e)"
  using assms by (cases "ht_cache_evict c"; cases "free_top c = 0"; simp add: ht_cache_put_def store_entry_def store_slot_def Let_def)

lemma store_entry_ok:
  assumes rel: "cache_rel c xs" and top: "0 < free_top c" and e: "length e = entry_size c" and rdy: "ready (c_bare c)"
  shows "\<exists>r c'. store_entry c e = Some (r, c') \<and> c_hash_fn c' = c_hash_fn c \<and> c_eq_fn c' = c_eq_fn c \<and>
    c_capacity c' = c_capacity c \<and> entry_size c' = entry_size c \<and> (\<forall>i \<in> set xs. cell c' i = cell c i) \<and>
    (case r of None \<Rightarrow> cache_rel c' xs
      | Some p \<Rightarrow> \<exists>slot. cache_rel c' (slot # xs) \<and> cell c' slot = e \<and> p = entry_at c' slot)"
proof -
  note D = cache_relD [OF rel]
  define k where "k = free_top c - 1"
  define slot where "slot = free_stack c ! k"
  have sub: "sz_sub (free_top c) 1 = k" using top D(8,13) sz_sub_small [of 1 "free_top c"] by (simp add: k_def Suc_le_eq)
  have len: "length (free_stack c) = c_capacity c" "free_top c = Suc k" "k < c_capacity c"
    using D(1,8) top by (auto simp: cache_shape_def k_def)
  have tk: "take (free_top c) (free_stack c) = take k (free_stack c) @ [slot]"
    using len by (simp add: slot_def take_Suc_conv_app_nth)
  have sl: "slot \<notin> set xs" "unat slot < c_capacity c"
    using free_slots [OF rel] tk by auto
  then have nn: "slot \<noteq> VAL_NONE" using D(13) by (auto simp: VAL_NONE_def)
  obtain ok b where b: "ht_bare_insert (c_bare c) (c_hash_fn c e) slot = Some (ok, b)"
    using bg.insert_total [OF rdy nn] by blast
  have bs: "searchable b" "contents b = (if ok then add_mset (hpd_hash (c_hash_fn c e), slot) (contents (c_bare c)) else contents (c_bare c))"
    using bg.insert_inv [OF rdy nn b] bg.insert_abs [OF rdy nn b] by simp_all
  let ?c2 = "(store_slot c e)\<lparr>c_bare := b\<rparr>"
  have sh: "cache_shape c" using D(1) .
  have f2: "c_entries (store_slot c e) = take (unat slot * entry_size c) (c_entries c) @ e @ drop (unat slot * entry_size c + entry_size c) (c_entries c)"
    "c_hashes (store_slot c e) = (c_hashes c)[unat slot := c_hash_fn c e]" "free_top (store_slot c e) = k"
    using sub e entry_at_eq [OF sh sl(2)] by (simp_all add: store_slot_def Let_def slot_def)
  have fr: "lru_prev (store_slot c e) = lru_prev c" "lru_next (store_slot c e) = lru_next c" "lru_head (store_slot c e) = lru_head c"
    "lru_tail (store_slot c e) = lru_tail c" "c_capacity (store_slot c e) = c_capacity c" "c_live (store_slot c e) = c_live c"
    "free_stack (store_slot c e) = free_stack c" "entry_size (store_slot c e) = entry_size c" "c_size (store_slot c e) = c_size c"
    "c_hash_fn (store_slot c e) = c_hash_fn c" "c_eq_fn (store_slot c e) = c_eq_fn c"
    by (simp_all add: store_slot_def Let_def)
  have cl: "take (entry_size c) (drop (sz_mul (unat i) (entry_size c)) (c_entries (store_slot c e))) = (if i = slot then e else cell c i)"
    if "unat i < c_capacity c" for i
    using block_update [OF e sl(2) that, of "c_entries c"] sh entry_at_eq [OF sh that] f2(1) 
    by (simp add: cache_shape_def cell_def entry_bytes_def entry_at_def word_unat_eq_iff)
  have xs_cl: "take (entry_size c) (drop (sz_mul (unat i) (entry_size c)) (c_entries (store_slot c e))) = cell c i" if "i \<in> set xs" for i
    using cl [OF D(12) [OF that]] that sl(1) by auto
  have elen: "length (c_entries (store_slot c e)) = c_capacity c * entry_size c"
  proof -
    have "unat slot * entry_size c + entry_size c \<le> c_capacity c * entry_size c"
      using sl(2) by (metis Suc_leI add.commute mult_Suc mult_le_mono1)
    then show ?thesis using f2(1) sh e by (simp add: cache_shape_def)
  qed
  have lo: "lru_ok ?c2 xs" using D(2) fr lru_ok_cong [of ?c2 c xs] by simp
  show ?thesis
  proof (cases ok)
    case False
    define c' where "c' = push_free (?c2\<lparr>c_hashes := (c_hashes ?c2)[unat slot := 0]\<rparr>) slot"
    have eq: "store_entry c e = Some (None, c')" using False b sub by (simp add: store_entry_def Let_def slot_def c'_def)
    have f: "c_hash_fn c' = c_hash_fn c" "c_eq_fn c' = c_eq_fn c" "c_capacity c' = c_capacity c" "c_bare c' = b" "c_live c' = c_live c"
      "c_size c' = c_size c" "entry_size c' = entry_size c" "c_entries c' = c_entries (store_slot c e)"
      "c_hashes c' = (c_hashes c)[unat slot := c_hash_fn c e, unat slot := 0]" "free_stack c' = free_stack c" "free_top c' = free_top c"
      using fr f2 len by (simp_all add: c'_def push_free_def slot_def sz_add_small) (use D(13) in \<open>simp add: sz_add_small\<close>)?
    have cell': "cell c' i = cell c i" if "i \<in> set xs" for i
      using xs_cl [OF that] by (simp add: cell_def entry_bytes_def entry_at_def f)
    have "lru_ok c' xs" using lo by (simp add: c'_def push_free_def lru_ok_def)
    moreover have "contents b = mset (map (\<lambda>i. (hpd_hash (c_hash_fn c' (cell c' i)), i)) xs)"
      using bs(2) False D(4) cell' f(1) by (simp cong: map_cong del: mset_map)
    moreover have "c_hashes c' ! unat i = c_hash_fn c' (cell c' i)" if "i \<in> set xs" for i
      using D(5) [OF that] that sl(1) cell' [OF that] f(1,9) by (simp add: word_unat_eq_iff) (metis nth_list_update_neq word_unat_eq_iff)
    moreover have "cache_shape c'" using sh elen f by (simp add: cache_shape_def)
    ultimately have "cache_rel c' xs" using D(6-9) bs(1) f unfolding cache_rel_def by simp
    then show ?thesis using eq f cell' by auto
  next
    case True
    let ?c3 = "?c2\<lparr>c_live := (c_live ?c2)[unat slot := True]\<rparr>"
    define c' where "c' = (lru_add_head ?c3 slot)\<lparr>c_size := sz_add (c_size c) 1\<rparr>"
    have eq: "store_entry c e = Some (Some (entry_at c slot), c')"
      using True b sub fr by (simp add: store_entry_def Let_def slot_def c'_def)
    have sz: "sz_add (c_size c) 1 = Suc (length xs)" using D(9,13) cache_counts [OF rel] by (simp add: sz_add_small)
    have f: "c_hash_fn c' = c_hash_fn c" "c_eq_fn c' = c_eq_fn c" "c_capacity c' = c_capacity c" "c_bare c' = b"
      "c_live c' = (c_live c)[unat slot := True]" "c_size c' = Suc (length xs)" "entry_size c' = entry_size c"
      "c_entries c' = c_entries (store_slot c e)" "c_hashes c' = (c_hashes c)[unat slot := c_hash_fn c e]"
      "free_stack c' = free_stack c" "free_top c' = k"
      using fr f2 sz by (simp_all add: c'_def)
    have cell': "cell c' i = (if i = slot then e else cell c i)" if "unat i < c_capacity c" for i
      using cl [OF that] by (simp add: cell_def entry_bytes_def entry_at_def f)
    have cell_xs: "cell c' i = cell c i" if "i \<in> set xs" for i using cell' [OF D(12) [OF that]] that sl(1) by auto
    have cell_sl: "cell c' slot = e" using cell' [OF sl(2)] by simp
    have "lru_ok ?c3 xs" using lo by (simp add: lru_ok_def)
    then have "lru_ok (lru_add_head ?c3 slot) (slot # xs)" using sl fr by (intro lru.add_order) simp_all
    then have lru: "lru_ok c' (slot # xs)" by (simp add: c'_def lru_ok_def)
    have cont: "contents b = mset (map (\<lambda>i. (hpd_hash (c_hash_fn c' (cell c' i)), i)) (slot # xs))"
      using bs(2) True D(4) cell_xs cell_sl f(1) by (simp cong: map_cong del: mset_map)
    have hs: "c_hashes c' ! unat i = c_hash_fn c' (cell c' i)" if "i \<in> set (slot # xs)" for i
    proof (cases "i = slot")
      case True
      then show ?thesis using sl cell_sl f(1,9) sh by (simp add: cache_shape_def)
    next
      case False
      then have "i \<in> set xs" "unat slot \<noteq> unat i" using that word_unat_eq_iff [of slot i] by auto
      then show ?thesis using D(5) [of i] cell_xs [of i] f(1,9) by simp
    qed
    have live: "c_live c' ! unat i = (i \<in> set (slot # xs))" if "unat i < c_capacity c" for i
      using D(6) [OF that] that sl sh f(5) by (cases "i = slot") (simp_all add: cache_shape_def nth_list_update word_unat_eq_iff)
    have perm: "mset ((slot # xs) @ take (free_top c') (free_stack c')) = mset (map word_of_nat [0..<c_capacity c])"
      unfolding D(7) [symmetric] tk using f by simp
    have "cache_shape c'" using sh elen f by (simp add: cache_shape_def)
    then have "cache_rel c' (slot # xs)"
      unfolding cache_rel_def using lru cont hs live perm bs(1) f len(3) by (simp del: mset_append mset_map)
    then show ?thesis using eq f cell_xs cell_sl by (auto simp: entry_at_def)
  qed
qed

lemma store_entry_succeeds:
  assumes rel: "cache_rel c xs" and top: "0 < free_top c" and rdy: "ready (c_bare c)"
    and mem: "allocs (c_bare c) = []" "spill_cap (c_bare c) < 2 ^ 59" and r: "store_entry c e = Some (r, c')"
  shows "r \<noteq> None"
proof -
  note D = cache_relD [OF rel]
  have sub: "sz_sub (free_top c) 1 = free_top c - 1" using top D(8,13) sz_sub_small [of 1 "free_top c"] by (simp add: Suc_le_eq)
  have "free_stack c ! (free_top c - 1) \<in> set (take (free_top c) (free_stack c))"
    using top D(1,8) by (auto simp: in_set_conv_nth cache_shape_def intro: exI [of _ "free_top c - 1"])
  then have "unat (free_stack c ! (free_top c - 1)) < c_capacity c" using free_slots [OF rel] by auto
  then have nn: "free_stack c ! (free_top c - 1) \<noteq> VAL_NONE" using D(13) by (auto simp: VAL_NONE_def)
  obtain ok b where b: "ht_bare_insert (c_bare c) (c_hash_fn c e) (free_stack c ! (free_top c - 1)) = Some (ok, b)"
    using bg.insert_total [OF rdy nn] by blast
  have ok by (rule bare_insert_succeeds [OF rdy nn mem b])
  then show ?thesis using r b sub by (auto simp: store_entry_def Let_def)
qed

text \<open>The cache after the eviction that makes room, and the entries that are left.\<close>

definition make_room :: "ht_cache \<Rightarrow> ht_cache" where
  "make_room c = (if free_top c = 0 then snd (ht_cache_evict c) else c)"

definition kept :: "ht_cache \<Rightarrow> u8 list list" where
  "kept c = (if c_size c = c_capacity c then butlast (cached c) else cached c)"

definition same_fns :: "ht_cache \<Rightarrow> ht_cache \<Rightarrow> bool" where
  "same_fns c c' \<longleftrightarrow> c_hash_fn c' = c_hash_fn c \<and> c_eq_fn c' = c_eq_fn c \<and> c_capacity c' = c_capacity c \<and> entry_size c' = entry_size c"

lemma same_fns_match: "same_fns c c' \<Longrightarrow> cache_match c' = cache_match c"
  by (simp add: same_fns_def cache_match_def [abs_def])

lemma same_fns_refl [simp]: "same_fns c c" and same_fns_trans: "same_fns a b \<Longrightarrow> same_fns b c \<Longrightarrow> same_fns a c"
  by (simp_all add: same_fns_def)

lemma full_iff: "cache_rel c xs \<Longrightarrow> free_top c = 0 \<longleftrightarrow> c_size c = c_capacity c"
  using cache_counts cache_relD(9) by fastforce

lemma evict_spec:
  assumes "cache_inv c"
  shows "if cached c = [] then ht_cache_evict c = (False, c)
    else \<exists>c'. ht_cache_evict c = (True, c') \<and> cache_inv c' \<and> cached c' = butlast (cached c) \<and> same_fns c c' \<and> 0 < free_top c'"
proof -
  define xs where "xs = lru_order c"
  have rel: "cache_rel c xs" using assms by (simp add: cache_inv_def xs_def)
  show ?thesis
  proof (cases "xs = []")
    case True
    then show ?thesis using evict_ok [OF rel] cached_eq [OF rel] by simp
  next
    case False
    then obtain b where b: "ht_cache_evict c = (True, drop_slot c b (last xs))" "cache_rel (drop_slot c b (last xs)) (butlast xs)"
      "searchable b" "contents (c_bare c) = add_mset (hpd_hash (c_hash_fn c (cell c (last xs))), last xs) (contents b)"
      using evict_ok [OF rel] by auto
    have f: "cell (drop_slot c b (last xs)) = cell c" "same_fns c (drop_slot c b (last xs))" "0 < free_top (drop_slot c b (last xs))"
      using drop_slot_ok [OF rel _ b(3,4)] False by (simp_all add: same_fns_def)
    show ?thesis using b f False cached_eq [OF rel] cached_eq [OF b(2)] cache_relI [OF b(2)] by (auto simp: map_butlast)
  qed
qed

lemma put_ok:
  assumes inv: "cache_inv c" and e: "length e = entry_size c" and rdy: "ready (c_bare (make_room c))"
  shows "\<exists>r c'. ht_cache_put c e = Some (r, c') \<and> cache_inv c' \<and> same_fns c c' \<and>
    (case r of None \<Rightarrow> cached c' = kept c | Some p \<Rightarrow> cached c' = e # kept c \<and> entry_bytes c' p = e) \<and>
    (0 < c_capacity c \<and> allocs (c_bare (make_room c)) = [] \<and> spill_cap (c_bare (make_room c)) < 2 ^ 59 \<longrightarrow> r \<noteq> None)"
proof -
  have rel0: "cache_rel c (lru_order c)" using inv by (simp add: cache_inv_def)
  note full = full_iff [OF rel0]
  show ?thesis
  proof (cases "free_top c = 0 \<and> cached c = []")
    case True
    then have "ht_cache_put c e = Some (None, c)" using evict_spec [OF inv] e by (simp add: put_store)
    moreover have "c_capacity c = 0" using True full cache_relD(9) [OF rel0] by (auto simp: cached_def)
    ultimately show ?thesis using True inv by (simp add: kept_def)
  next
    case False
    have c1: "cache_inv (make_room c) \<and> cached (make_room c) = kept c \<and> same_fns c (make_room c) \<and> 0 < free_top (make_room c) \<and>
      (free_top c = 0 \<longrightarrow> ht_cache_evict c = (True, make_room c))"
      using False evict_spec [OF inv] inv full by (auto simp: make_room_def kept_def)
    then have rel: "cache_rel (make_room c) (lru_order (make_room c))" by (simp add: cache_inv_def)
    have e1: "length e = entry_size (make_room c)" using c1 e by (simp add: same_fns_def)
    have put: "ht_cache_put c e = store_entry (make_room c) e"
    proof (cases "free_top c = 0")
      case True
      then have "ht_cache_evict c = (True, make_room c)" using c1 by blast
      then show ?thesis using e True by (simp add: put_store)
    next
      case False
      then show ?thesis using e by (simp add: put_store make_room_def)
    qed
    obtain r c' where r: "store_entry (make_room c) e = Some (r, c')" "c_hash_fn c' = c_hash_fn (make_room c)"
      "c_eq_fn c' = c_eq_fn (make_room c)" "c_capacity c' = c_capacity (make_room c)" "entry_size c' = entry_size (make_room c)"
      "\<forall>i \<in> set (lru_order (make_room c)). cell c' i = cell (make_room c) i"
      "case r of None \<Rightarrow> cache_rel c' (lru_order (make_room c))
        | Some p \<Rightarrow> \<exists>slot. cache_rel c' (slot # lru_order (make_room c)) \<and> cell c' slot = e \<and> p = entry_at c' slot"
      using store_entry_ok [OF rel _ e1 rdy] c1 by auto
    have sf: "same_fns c c'" using c1 r(2-5) by (simp add: same_fns_def)
    have succ: "r \<noteq> None" if "allocs (c_bare (make_room c)) = []" "spill_cap (c_bare (make_room c)) < 2 ^ 59"
      using store_entry_succeeds [OF rel _ rdy that r(1)] c1 by simp
    have m: "map (cell c') (lru_order (make_room c)) = kept c" using r(6) c1 by (simp add: cached_def cong: map_cong)
    show ?thesis
    proof (cases r)
      case None
      then show ?thesis using r(1,7) put sf m succ cache_relI [of c'] cached_eq [of c'] by auto
    next
      case (Some p)
      then obtain slot where s: "cache_rel c' (slot # lru_order (make_room c))" "cell c' slot = e" "p = entry_at c' slot" using r(7) by auto
      then show ?thesis using r(1) Some put sf m succ cache_relI [OF s(1)] cached_eq [OF s(1)] by (auto simp: cell_def)
    qed
  qed
qed

text \<open>The list without its element at position \<open>k\<close>.\<close>

definition without :: "nat \<Rightarrow> 'a list \<Rightarrow> 'a list" where
  "without k xs = take k xs @ drop (Suc k) xs"

lemma map_without: "map f (without k xs) = without k (map f xs)"
  by (simp add: without_def take_map drop_map)

lemma without_remove1:
  assumes "distinct xs" "x \<in> set xs"
  obtains k where "k < length xs" "xs ! k = x" "remove1 x xs = without k xs"
proof -
  obtain as bs where xs: "xs = as @ x # bs" "x \<notin> set as" using assms(2) split_list_first by fastforce
  then have "length as < length xs \<and> xs ! length as = x \<and> remove1 x xs = without (length as) xs" by (simp add: remove1_append without_def)
  then show ?thesis using that by blast
qed

lemma remove_spec:
  assumes inv: "cache_inv c"
  shows "case ht_cache_remove c key of
      (False, c') \<Rightarrow> c' = c \<and> (\<forall>e \<in> set (cached c). \<not> cache_match c key e)
    | (True, c') \<Rightarrow> cache_inv c' \<and> same_fns c c' \<and>
        (\<exists>k < length (cached c). cache_match c key (cached c ! k) \<and> cached c' = without k (cached c))"
proof -
  have rel: "cache_rel c (lru_order c)" using inv by (simp add: cache_inv_def)
  obtain ok c' where eq: "ht_cache_remove c key = (ok, c')" by (cases "ht_cache_remove c key")
  show ?thesis
  proof (cases ok)
    case False
    then show ?thesis using remove_ok [OF rel, of key] eq by (auto simp: cached_def)
  next
    case True
    then obtain i b where i: "i \<in> set (lru_order c)" "cache_match c key (cell c i)" "c' = drop_slot c b i"
      "cache_rel c' (remove1 i (lru_order c))" "cell c' = cell c" using remove_ok [OF rel, of key] eq by auto
    obtain k where k: "k < length (lru_order c)" "lru_order c ! k = i" "remove1 i (lru_order c) = without k (lru_order c)"
      using without_remove1 [OF cache_relD(11) [OF rel] i(1)] by blast
    have "same_fns c c'" using i(3) by (simp add: same_fns_def drop_slot_def push_free_def Let_def)
    moreover have "cached c' = without k (cached c)" using cached_eq [OF i(4)] k(3) i(5) by (simp add: map_without cached_def)
    moreover have "cached c ! k = cell c i" "k < length (cached c)" using k by (simp_all add: cached_def)
    ultimately show ?thesis using eq True i(2) cache_relI [OF i(4)] by auto
  qed
qed

lemma promote_spec:
  assumes inv: "cache_inv c" and i: "i \<in> set (lru_order c)"
  shows "\<exists>k < length (cached c). cached c ! k = cell c i \<and> cache_inv (lru_promote c i) \<and> same_fns c (lru_promote c i) \<and>
    cached (lru_promote c i) = cell c i # without k (cached c) \<and> entry_bytes (lru_promote c i) (entry_at (lru_promote c i) i) = cell c i"
proof -
  have rel: "cache_rel c (lru_order c)" using inv by (simp add: cache_inv_def)
  obtain k where k: "k < length (lru_order c)" "lru_order c ! k = i" "remove1 i (lru_order c) = without k (lru_order c)"
    using without_remove1 [OF cache_relD(11) [OF rel] i] by blast
  note p = promote_ok [OF rel i]
  have "cached (lru_promote c i) = cell c i # without k (cached c)"
    using cached_eq [OF p(1)] k(3) p(2) by (simp add: map_without cached_def)
  moreover have "same_fns c (lru_promote c i)" by (simp add: same_fns_def)
  moreover have "entry_bytes (lru_promote c i) (entry_at (lru_promote c i) i) = cell c i" using fun_cong [OF p(2), of i] by (simp add: cell_def)
  ultimately show ?thesis using k cache_relI [OF p(1)] by (intro exI [of _ k]) (simp add: cached_def)
qed

lemma get_spec:
  assumes inv: "cache_inv c"
  shows "case ht_cache_get c key of
      (None, c') \<Rightarrow> c' = c \<and> (\<forall>e \<in> set (cached c). \<not> cache_match c key e)
    | (Some p, c') \<Rightarrow> cache_inv c' \<and> same_fns c c' \<and>
        (\<exists>k < length (cached c). cache_match c key (cached c ! k) \<and> entry_bytes c' p = cached c ! k \<and>
          cached c' = cached c ! k # without k (cached c))"
proof -
  define m where "m = ht_bare_find_all (c_bare c) (c_hash_fn c key) (get_scan_cb c key) NONE"
  have rel: "cache_rel c (lru_order c)" using inv by (simp add: cache_inv_def)
  have s: "(m = NONE \<and> (\<forall>i \<in> set (lru_order c). \<not> cache_match c key (cell c i))) \<or> (m \<noteq> NONE \<and> m \<in> set (lru_order c) \<and> cache_match c key (cell c m))"
    using scan_result [OF rel, of key] by (simp add: m_def)
  show ?thesis
  proof (cases "m = NONE")
    case True
    then show ?thesis using s by (simp add: ht_cache_get_def m_def [symmetric] cached_def)
  next
    case False
    then have m: "m \<in> set (lru_order c)" "cache_match c key (cell c m)" using s by auto
    have "ht_cache_get c key = (Some (entry_at (lru_promote c m) m), lru_promote c m)"
      using False by (simp add: ht_cache_get_def m_def [symmetric] Let_def)
    then show ?thesis using promote_spec [OF inv m(1)] m(2) by auto
  qed
qed

lemma promote_call_spec:
  assumes inv: "cache_inv c"
  shows "ht_cache_promote c p = c \<or> (cache_inv (ht_cache_promote c p) \<and> same_fns c (ht_cache_promote c p) \<and>
    (\<exists>k < length (cached c). cached (ht_cache_promote c p) = cached c ! k # without k (cached c)))"
proof (cases "unat (entry_index c p) \<ge> c_capacity c \<or> \<not> c_live c ! unat (entry_index c p)")
  case True
  then show ?thesis by (simp add: ht_cache_promote_def Let_def)
next
  case False
  have rel: "cache_rel c (lru_order c)" using inv by (simp add: cache_inv_def)
  have "entry_index c p \<in> set (lru_order c)" using False cache_relD(6) [OF rel, of "entry_index c p"] by auto
  moreover have "ht_cache_promote c p = lru_promote c (entry_index c p)" using False by (simp add: ht_cache_promote_def Let_def)
  ultimately show ?thesis using promote_spec [OF inv] by metis
qed

section \<open>Creation and clearing\<close>

lemma fresh_stack:
  assumes "n < 2 ^ 32 - 1"
  shows "mset (fresh_free_stack n) = mset (map word_of_nat [0..<n])"
proof -
  have "sz_sub (sz_sub n 1) i = n - 1 - i" if "i < n" for i
    using that assms sz_sub_small [of 1 n] sz_sub_small [of i "n - 1"] by simp
  then have "fresh_free_stack n = map (\<lambda>i. word_of_nat (n - 1 - i)) [0..<n]" by (simp add: fresh_free_stack_def)
  also have "\<dots> = rev (map word_of_nat [0..<n])" by (intro nth_equalityI) (simp_all add: rev_nth)
  finally show ?thesis by simp
qed

lemma empty_cache_rel:
  assumes "length (c_entries c) = c_capacity c * entry_size c" "c_capacity c * entry_size c < 2 ^ 64" "0 < entry_size c"
    and "c_hashes c = replicate (c_capacity c) 0" "c_live c = replicate (c_capacity c) False"
    and "length (lru_prev c) = c_capacity c" "length (lru_next c) = c_capacity c" "lru_head c = NONE" "lru_tail c = NONE"
    and "free_stack c = fresh_free_stack (c_capacity c)" "free_top c = c_capacity c" "c_size c = 0"
    and "c_capacity c < 2 ^ 32 - 1" "searchable (c_bare c)" "contents (c_bare c) = {#}"
  shows "cache_rel c []"
proof -
  have "length (free_stack c) = c_capacity c" using assms(10) by (simp add: fresh_free_stack_def)
  moreover have "mset (free_stack c) = mset (map word_of_nat [0..<c_capacity c])" using fresh_stack [OF assms(13)] assms(10) by simp
  moreover have "lru_ok c []" using assms by (simp add: lru_ok_def)
  ultimately show ?thesis using assms by (simp add: cache_rel_def cache_shape_def)
qed

lemma cache_clear_ok:
  assumes inv: "cache_inv c"
  shows "cache_inv (ht_cache_clear c)" "cached (ht_cache_clear c) = []" "same_fns c (ht_cache_clear c)"
proof -
  have rel: "cache_rel c (lru_order c)" using inv by (simp add: cache_inv_def)
  note D = cache_relD [OF rel]
  have "bare_inv (c_bare c)" using D(3) by (simp add: searchable_def)
  note k = clear_ok [OF this]
  have s: "searchable (ht_bare_clear (c_bare c))" using k by (simp add: searchable_def)
  have "cache_rel (ht_cache_clear c) []"
    using D(1,13) s k(2) by (intro empty_cache_rel) (simp_all add: ht_cache_clear_def cache_shape_def)
  then show "cache_inv (ht_cache_clear c)" "cached (ht_cache_clear c) = []" by (simp_all add: cache_relI cached_eq)
  show "same_fns c (ht_cache_clear c)" by (simp add: same_fns_def ht_cache_clear_def)
qed

lemma cache_bare_small:
  assumes "0 < n" "n \<le> 16384"
  shows "initial_capacity (cache_bare_cfg n) \<le> 32768" "initial_capacity (cache_bare_cfg n) \<noteq> 0"
proof -
  have "next_pow2_sz (sz_mul n 2) \<le> 2 ^ 15" using next_pow2_sz_least [of "sz_mul n 2" 15] assms by (simp add: sz_mul_def)
  then show "initial_capacity (cache_bare_cfg n) \<le> 32768" "initial_capacity (cache_bare_cfg n) \<noteq> 0"
    using assms by (auto simp: cache_bare_cfg_def Let_def SIZE_MAX_def)
qed


lemma bare_create_capacity:
  assumes "ht_bare_create (Some g) as = Some b" "4 \<le> initial_capacity g" "initial_capacity g \<le> 32768"
  shows "capacity b \<le> 32768"
proof -
  have "capacity b = next_pow2_sz (initial_capacity g)"
    using assms(1,2) by (auto simp: ht_bare_create_def Let_def split: prod.splits if_splits)
  then show ?thesis using next_pow2_sz_least [of "initial_capacity g" 15] assms(2,3) by simp
qed

lemma cache_create_ok:
  assumes cr: "ht_cache_create (Some g) as = Some c" and cap: "cc_capacity g < 2 ^ 32 - 1" "cc_capacity g * cc_entry_size g < 2 ^ 64"
  shows "cache_inv c \<and> cached c = [] \<and> c_capacity c = cc_capacity g \<and> entry_size c = cc_entry_size g \<and>
    (cc_capacity g \<le> 16384 \<longrightarrow> ready (c_bare c))"
proof -
  let ?n = "cc_capacity g" and ?b = "cache_bare_cfg (cc_capacity g)"
  obtain hf where hf: "cc_hash_fn g = Some hf" using cr by (auto simp: ht_cache_create_def split: option.splits)
  have pos: "0 < ?n" "0 < cc_entry_size g" using cr hf by (auto simp: ht_cache_create_def split: if_splits)
  obtain as2 where b: "ht_bare_create (Some ?b) as2 = Some (c_bare c)"
    and c: "c_entries c = replicate (?n * cc_entry_size g) 0" "c_hashes c = replicate ?n 0" "c_live c = replicate ?n False"
      "lru_prev c = replicate ?n NONE" "lru_next c = replicate ?n NONE" "free_stack c = fresh_free_stack ?n" "free_top c = ?n"
      "lru_head c = NONE" "lru_tail c = NONE" "c_capacity c = ?n" "entry_size c = cc_entry_size g" "c_size c = 0"
    using cr hf pos by (auto simp: ht_cache_create_def split: prod.splits if_splits)
  have "initial_capacity ?b < 2 ^ 64" using cap(1) unsigned_less [of "next_pow2 (word_of_nat (sz_mul ?n 2))"]
    by (auto simp: cache_bare_cfg_def Let_def SIZE_MAX_def next_pow2_sz_def)
  then have k: "bare_inv (c_bare c)" "contents (c_bare c) = {#}" "gap_ok (c_bare c)" "has_empty (c_bare c)" "\<not> overflow_violated (c_bare c)"
    "\<not> resizing (c_bare c)" "tsize (c_bare c) = 0" using create_ok [OF b] by auto
  then have s: "searchable (c_bare c)" by (simp add: searchable_def)
  have rel: "cache_rel c []" using cap pos c s k(2) by (intro empty_cache_rel) simp_all
  have "ready (c_bare c)" if "?n \<le> 16384"
  proof -
    have "4 \<le> initial_capacity ?b" by (auto simp: cache_bare_cfg_def Let_def)
    then have "capacity (c_bare c) \<le> 32768" using bare_create_capacity [OF b] cache_bare_small(1) [OF pos(1) that] by simp
    then show ?thesis using k by (simp add: ready_def insertable_def small_def tomb_safe_def)
  qed
  then show ?thesis using cache_relI [OF rel] cached_eq [OF rel] c by simp
qed

section \<open>Sequences of operations\<close>

text \<open>
  One call of the interface on a cache. An insertion is admitted where the index is ready for one
  after the eviction the call may begin with (an unused slot, no long run of tombstones, at most
  32768 slots and 16384 entries, not resizing); \<open>ht_cache_put\<close> itself does not test this.
\<close>

inductive cache_step :: "ht_cache \<Rightarrow> ht_cache \<Rightarrow> bool" where
  put: "length e = entry_size c \<Longrightarrow> ready (c_bare (make_room c)) \<Longrightarrow> ht_cache_put c e = Some (r, c') \<Longrightarrow> cache_step c c'"
| put_bad: "length e \<noteq> entry_size c \<Longrightarrow> ht_cache_put c e = Some (r, c') \<Longrightarrow> cache_step c c'"
| get: "ht_cache_get c key = (r, c') \<Longrightarrow> cache_step c c'"
| remove: "ht_cache_remove c key = (ok, c') \<Longrightarrow> cache_step c c'"
| evict: "ht_cache_evict c = (ok, c') \<Longrightarrow> cache_step c c'"
| promote: "cache_step c (ht_cache_promote c p)"
| clear: "cache_step c (ht_cache_clear c)"

inductive cache_reach :: "ht_cache_config \<Rightarrow> ht_cache \<Rightarrow> bool" for g where
  create: "ht_cache_create (Some g) as = Some c \<Longrightarrow> cache_reach g c"
| step: "cache_reach g c \<Longrightarrow> cache_step c c' \<Longrightarrow> cache_reach g c'"

inductive_cases cache_stepE: "cache_step c c'"

lemma cache_step_inv:
  assumes "cache_step c c'" "cache_inv c"
  shows "cache_inv c' \<and> same_fns c c'"
  using assms(1)
proof cases
  case (put e r)
  then show ?thesis using put_ok [OF assms(2) put(1,2)] by auto
next
  case (put_bad e r)
  then show ?thesis using assms(2) by (simp add: ht_cache_put_def)
next
  case (get key r)
  then show ?thesis using get_spec [OF assms(2), of key] assms(2) by (cases r) auto
next
  case (remove key ok)
  then show ?thesis using remove_spec [OF assms(2), of key] assms(2) by (cases ok) auto
next
  case (evict ok)
  then show ?thesis using evict_spec [OF assms(2)] assms(2) by (auto split: if_splits)
next
  case (promote p)
  then show ?thesis using promote_call_spec [OF assms(2), of p] assms(2) by auto
next
  case clear
  then show ?thesis using cache_clear_ok [OF assms(2)] by simp
qed

lemma cache_reach_inv:
  assumes "cache_reach g c" "cc_capacity g < 2 ^ 32 - 1" "cc_capacity g * cc_entry_size g < 2 ^ 64"
  shows "cache_inv c \<and> c_capacity c = cc_capacity g \<and> entry_size c = cc_entry_size g"
  using assms(1)
proof induction
  case (create as c)
  then show ?case using cache_create_ok [OF _ assms(2,3)] by blast
next
  case (step c c')
  then show ?case using cache_step_inv by (fastforce simp: same_fns_def)
qed

lemma cached_facts:
  assumes "cache_inv c"
  shows "length (cached c) = c_size c" "c_size c \<le> c_capacity c" "e \<in> set (cached c) \<Longrightarrow> length e = entry_size c"
proof -
  have rel: "cache_rel c (lru_order c)" using assms by (simp add: cache_inv_def)
  note D = cache_relD [OF rel]
  show "length (cached c) = c_size c" using D(9) by (simp add: cached_def)
  show "c_size c \<le> c_capacity c" using cache_counts [OF rel] D(9) by simp
  assume "e \<in> set (cached c)"
  then obtain i where i: "e = cell c i" "i \<in> set (lru_order c)" by (auto simp: cached_def)
  have "unat i * entry_size c + entry_size c \<le> c_capacity c * entry_size c"
    using D(12) [OF i(2)] by (metis Suc_leI add.commute mult_Suc mult_le_mono1)
  then show "length e = entry_size c"
    using i D(1) entry_at_eq [OF D(1) D(12) [OF i(2)]] by (simp add: cell_def entry_bytes_def cache_shape_def)
qed


section \<open>An example\<close>

text \<open>A cache of six slots, five of them used, over the example table; and a small configuration.\<close>

definition ex_cache :: ht_cache where
  "ex_cache = \<lparr>c_bare = ex_table, c_block_sz = 0,
     c_entries = [10, 50, 18, 51, 26, 52, 1, 53, 34, 54, 0, 0], c_hashes = [10, 18, 26, 1, 34, 0],
     c_live = [True, True, True, True, True, False],
     lru_prev = [2, 4, NONE, 1, 0, NONE], lru_next = [4, 3, 0, NONE, 1, NONE],
     free_stack = [5, 0, 0, 0, 0, 0], free_top = 1, lru_head = 2, lru_tail = 3, c_capacity = 6, entry_size = 2,
     c_size = 5, c_hash_fn = (\<lambda>k. ucast (hd k)), c_eq_fn = Some (\<lambda>k e. hd k = hd e)\<rparr>"

definition ex_cache_cfg :: ht_cache_config where
  "ex_cache_cfg = \<lparr>cc_capacity = 2, cc_entry_size = 2, cc_hash_fn = Some (\<lambda>k. ucast (hd k)), cc_eq_fn = Some (\<lambda>k e. hd k = hd e)\<rparr>"

lemma ex_index_cases: "unat (i :: u32) < 6 \<Longrightarrow> i \<in> {0, 1, 2, 3, 4, 5}"
  by (auto simp: word_unat_eq_iff)

lemma ex_cell:
  "cell ex_cache 0 = [10, 50]" "cell ex_cache 1 = [18, 51]" "cell ex_cache 2 = [26, 52]" "cell ex_cache 3 = [1, 53]" "cell ex_cache 4 = [34, 54]"
  by (simp_all add: cell_def entry_bytes_def entry_at_def sz_mul_def ex_cache_def)

lemma ex_cache_rel: "cache_rel ex_cache [2, 0, 4, 1, 3]"
proof -
  have c: "c_capacity ex_cache = 6" "c_bare ex_cache = ex_table" "c_hash_fn ex_cache = (\<lambda>k. ucast (hd k))" "free_top ex_cache = 1"
    "c_hashes ex_cache = [10, 18, 26, 1, 34, 0]" "free_stack ex_cache = [5, 0, 0, 0, 0, 0]" "c_size ex_cache = 5"
    by (simp_all add: ex_cache_def)
  have "lru_ok ex_cache [2, 0, 4, 1, 3]" by (simp add: lru_ok_def ex_cache_def)
  moreover have "cache_shape ex_cache" by (simp add: cache_shape_def ex_cache_def)
  moreover have "searchable ex_table" using ex_table_inv ex_table_empty by (simp add: searchable_def)
  moreover have "c_live ex_cache ! unat i = (i \<in> set [2, 0, 4, 1, 3])" if "unat i < 6" for i :: u32
    using ex_index_cases [OF that] by (auto simp: ex_cache_def)
  moreover have "mset ([2, 0, 4, 1, 3] @ [5]) = mset (map word_of_nat [0..<6] :: u32 list)" by (simp add: upt_rec)
  ultimately show ?thesis by (simp add: cache_rel_def c ex_cell ex_contents hpd_hash_lit)
qed

lemma ex_cached: "cached ex_cache = [[26, 52], [10, 50], [34, 54], [18, 51], [1, 53]]"
  using cached_eq [OF ex_cache_rel] by (simp add: ex_cell)

lemma ex_cache_inv: "cache_inv ex_cache"
  by (rule cache_relI [OF ex_cache_rel])

lemma ex_cache_ready: "ready (c_bare (make_room ex_cache))" "length [42, 7 :: u8] = entry_size ex_cache" 
  using ex_table_insertable by (simp_all add: make_room_def ex_cache_def ready_def small_def) (simp_all add: ex_table_def)

lemma ex_cache_create: "\<exists>c. ht_cache_create (Some ex_cache_cfg) [] = Some c"
proof -
  define n where "n = initial_capacity (cache_bare_cfg 2)"
  define m where "m = next_pow2_sz n"
  have n: "n \<le> 2 ^ 15" "4 \<le> n" using cache_bare_small(1) [of 2] by (auto simp: n_def cache_bare_cfg_def Let_def)
  then obtain k where "m = 2 ^ k" using next_pow2_sz_ok [of n] unfolding m_def by auto
  moreover have "m \<le> 2 ^ 15" using next_pow2_sz_least [of n 15] n by (simp add: m_def)
  ultimately have "bare_main_block_size m \<noteq> 0" by (simp add: bare_main_block_size_def SIZE_MAX_def)
  then have "\<exists>b. ht_bare_create (Some (cache_bare_cfg 2)) [] = Some b"
    using n by (simp add: ht_bare_create_def take_alloc_def Let_def n_def [symmetric] m_def [symmetric])
  then obtain b where "ht_bare_create (Some (cache_bare_cfg 2)) [] = Some b" by blast
  then show ?thesis by (simp add: ht_cache_create_def ex_cache_cfg_def take_alloc_def)
qed

text \<open>The first insertion into the cache of that configuration.\<close>

lemma ex_cache_put:
  "\<exists>c r c'. ht_cache_create (Some ex_cache_cfg) [] = Some c \<and> ht_cache_put c [7, 9] = Some (Some r, c') \<and> cached c' = [[7, 9]] \<and>
    length [7, 9 :: u8] = entry_size c \<and> ready (c_bare (make_room c))"
proof -
  obtain c where c: "ht_cache_create (Some ex_cache_cfg) [] = Some c" using ex_cache_create by blast
  have k: "cache_inv c" "cached c = []" "c_capacity c = 2" "entry_size c = 2" "ready (c_bare c)"
    using cache_create_ok [OF c] by (simp_all add: ex_cache_cfg_def)
  have a: "free_top c = 2" "c_size c = 0" "allocs (c_bare c) = []" "spill_cap (c_bare c) < 2 ^ 59"
    using c by (auto simp: ht_cache_create_def ht_bare_create_def ex_cache_cfg_def take_alloc_def Let_def SPILL_INITIAL_def split: if_splits)
  have mr: "make_room c = c" using a(1) by (simp add: make_room_def)
  have e: "length [7, 9 :: u8] = entry_size c" using k(4) by simp
  have ke: "kept c = []" using k(2) by (simp add: kept_def)
  obtain r c' where "ht_cache_put c [7, 9] = Some (r, c')" "r \<noteq> None"
      "case r of None \<Rightarrow> cached c' = kept c | Some p \<Rightarrow> cached c' = [7, 9] # kept c \<and> entry_bytes c' p = [7, 9]"
    using put_ok [OF k(1) e, unfolded mr, OF k(5)] a k(3) by auto
  then show ?thesis using c e k(5) mr ke by (auto split: option.splits)
qed

section \<open>Properties\<close>

text \<open>
  C13. Insertion. Take a cache that satisfies the invariant and whose index, after the eviction a
  full cache begins with, is ready for an insertion: it has an unused slot, no live slot behind
  more tombstones than the look-ahead inspects (and behind none once the probe bound has been
  given up), at most 32768 slots and 16384 entries, and is not resizing. Then \<open>ht_cache_put\<close> of an entry of the configured size returns; the invariant
  holds again; if the cache was full exactly its least recently used entry is gone; on success the
  new entry is the most recently used one and the result points at its bytes, on failure nothing
  else has changed. The insertion succeeds if the cache has a capacity and no allocation of the
  index fails (its spill lane being below \<open>2 ^ 59\<close> slots).
\<close>

theorem ht_cache_put_correct:
  assumes "cache_inv c" "length e = entry_size c" "ready (c_bare (make_room c))"
  shows "\<exists>r c'. ht_cache_put c e = Some (r, c') \<and> cache_inv c' \<and> same_fns c c' \<and>
    (case r of None \<Rightarrow> cached c' = kept c | Some p \<Rightarrow> cached c' = e # kept c \<and> entry_bytes c' p = e) \<and>
    (0 < c_capacity c \<and> allocs (c_bare (make_room c)) = [] \<and> spill_cap (c_bare (make_room c)) < 2 ^ 59 \<longrightarrow> r \<noteq> None)"
  using assms by (rule put_ok)

theorem ht_cache_put_correct_witness:
  "cache_inv ex_cache \<and> length [42, 7 :: u8] = entry_size ex_cache \<and> ready (c_bare (make_room ex_cache)) \<and>
    (\<exists>p c'. ht_cache_put ex_cache [42, 7] = Some (Some p, c') \<and> cache_inv c' \<and> entry_bytes c' p = [42, 7] \<and>
      cached c' = [[42, 7], [26, 52], [10, 50], [34, 54], [18, 51], [1, 53]])"
proof -
  have mr: "make_room ex_cache = ex_cache" by (simp add: make_room_def ex_cache_def)
  have k: "kept ex_cache = [[26, 52], [10, 50], [34, 54], [18, 51], [1, 53]]" unfolding kept_def ex_cached by (simp add: ex_cache_def)
  have m: "0 < c_capacity ex_cache" "allocs (c_bare (make_room ex_cache)) = []" "spill_cap (c_bare (make_room ex_cache)) < 2 ^ 59"
    unfolding mr by (simp_all add: ex_cache_def ex_table_def)
  obtain r c' where r: "ht_cache_put ex_cache [42, 7] = Some (r, c')" "cache_inv c'" "r \<noteq> None"
      "case r of None \<Rightarrow> cached c' = kept ex_cache | Some p \<Rightarrow> cached c' = [42, 7] # kept ex_cache \<and> entry_bytes c' p = [42, 7]"
    using ht_cache_put_correct [OF ex_cache_inv ex_cache_ready(2,1)] m by blast
  then obtain p where "r = Some p" by blast
  then show ?thesis using r k ex_cache_inv ex_cache_ready by auto
qed

text \<open>
  C14. Lookup. \<open>ht_cache_get\<close> returns \<open>NULL\<close> only if no cached entry matches the key, and then changes
  nothing; otherwise it returns the bytes of a matching entry, which becomes the most recently used
  one while the order of the others stays.
\<close>

theorem ht_cache_get_correct:
  assumes "cache_inv c"
  shows "case ht_cache_get c key of
      (None, c') \<Rightarrow> c' = c \<and> (\<forall>e \<in> set (cached c). \<not> cache_match c key e)
    | (Some p, c') \<Rightarrow> cache_inv c' \<and> same_fns c c' \<and>
        (\<exists>k < length (cached c). cache_match c key (cached c ! k) \<and> entry_bytes c' p = cached c ! k \<and>
          cached c' = cached c ! k # without k (cached c))"
  using assms by (rule get_spec)

theorem ht_cache_get_correct_witness:
  "cache_inv ex_cache \<and>
    (case ht_cache_get ex_cache [34] of
      (None, c') \<Rightarrow> c' = ex_cache \<and> (\<forall>e \<in> set (cached ex_cache). \<not> cache_match ex_cache [34] e)
    | (Some p, c') \<Rightarrow> cache_inv c' \<and> same_fns ex_cache c' \<and>
        (\<exists>k < length (cached ex_cache). cache_match ex_cache [34] (cached ex_cache ! k) \<and> entry_bytes c' p = cached ex_cache ! k \<and>
          cached c' = cached ex_cache ! k # without k (cached ex_cache)))"
  using ht_cache_get_correct [OF ex_cache_inv, of "[34]"] ex_cache_inv by blast

text \<open>
  Removal. \<open>ht_cache_remove\<close> takes exactly one entry that matches the key out of the cache, or
  reports that none matches and changes nothing.
\<close>

lemma ht_cache_remove_correct:
  assumes "cache_inv c"
  shows "case ht_cache_remove c key of
      (False, c') \<Rightarrow> c' = c \<and> (\<forall>e \<in> set (cached c). \<not> cache_match c key e)
    | (True, c') \<Rightarrow> cache_inv c' \<and> same_fns c c' \<and>
        (\<exists>k < length (cached c). cache_match c key (cached c ! k) \<and> cached c' = without k (cached c))"
  using assms by (rule remove_spec)

lemma ht_cache_remove_correct_witness:
  "cache_inv ex_cache \<and>
    (case ht_cache_remove ex_cache [18] of
      (False, c') \<Rightarrow> c' = ex_cache \<and> (\<forall>e \<in> set (cached ex_cache). \<not> cache_match ex_cache [18] e)
    | (True, c') \<Rightarrow> cache_inv c' \<and> same_fns ex_cache c' \<and>
        (\<exists>k < length (cached ex_cache). cache_match ex_cache [18] (cached ex_cache ! k) \<and> cached c' = without k (cached ex_cache)))"
  using ht_cache_remove_correct [OF ex_cache_inv, of "[18]"] ex_cache_inv by blast

text \<open>
  C15. Histories of calls. Take any sequence of insertions, lookups, removals, evictions, promotions
  and clears that follows the creation of a cache, in which every insertion of an entry of the
  configured size meets an index that is ready for it: after the eviction a full cache begins
  with, the index has an unused slot, no live slot behind more tombstones than the look-ahead
  inspects (and behind none once the probe bound has been given up), at most 32768 slots and
  16384 entries, and is not resizing (an index is ready
  after the creation of a cache of up to 16384 entries; the library does not check the condition,
  and long runs of tombstones can break it). Then the cache's invariant holds at every point: the
  recency list, the free stack, the live flags, the stored hashes and the index describe the same
  entries, there are never more than the capacity, and each has the configured size.
\<close>

theorem ht_cache_history_safe:
  assumes "cache_reach g c" "cc_capacity g < 2 ^ 32 - 1" "cc_capacity g * cc_entry_size g < 2 ^ 64"
  shows "cache_inv c \<and> length (cached c) = ht_cache_size c \<and> ht_cache_size c \<le> cc_capacity g \<and>
    ht_cache_capacity c = cc_capacity g \<and> (\<forall>e \<in> set (cached c). length e = cc_entry_size g)"
  using cache_reach_inv [OF assms] cached_facts [of c] by (simp add: ht_cache_size_def ht_cache_capacity_def)

theorem ht_cache_history_safe_witness:
  "\<exists>c1 c2 r. ht_cache_create (Some ex_cache_cfg) [] = Some c1 \<and> ht_cache_put c1 [7, 9] = Some (Some r, c2) \<and> cached c2 = [[7, 9]] \<and>
    cache_reach ex_cache_cfg c2 \<and> cache_reach ex_cache_cfg (ht_cache_clear (snd (ht_cache_get c2 [7]))) \<and>
    cc_capacity ex_cache_cfg < 2 ^ 32 - 1 \<and> cc_capacity ex_cache_cfg * cc_entry_size ex_cache_cfg < 2 ^ 64 \<and>
    cache_inv c2 \<and> cache_inv (ht_cache_clear (snd (ht_cache_get c2 [7])))"
proof -
  obtain c r c2 where c: "ht_cache_create (Some ex_cache_cfg) [] = Some c" "ht_cache_put c [7, 9] = Some (Some r, c2)"
    "cached c2 = [[7, 9]]" "length [7, 9 :: u8] = entry_size c" "ready (c_bare (make_room c))" using ex_cache_put by blast
  have b: "cc_capacity ex_cache_cfg < 2 ^ 32 - 1" "cc_capacity ex_cache_cfg * cc_entry_size ex_cache_cfg < 2 ^ 64"
    by (simp_all add: ex_cache_cfg_def)
  have r2: "cache_reach ex_cache_cfg c2" by (rule cache_reach.step [OF cache_reach.create [OF c(1)] cache_step.put [OF c(4,5,2)]])
  have "cache_reach ex_cache_cfg (snd (ht_cache_get c2 [7]))"
    by (rule cache_reach.step [OF r2 cache_step.get]) (rule prod.collapse [symmetric])
  then have r3: "cache_reach ex_cache_cfg (ht_cache_clear (snd (ht_cache_get c2 [7])))" by (rule cache_reach.step [OF _ cache_step.clear])
  show ?thesis using ht_cache_history_safe [OF r2 b] ht_cache_history_safe [OF r3 b] r2 r3 b c by blast
qed

text \<open>
  Eviction. \<open>ht_cache_evict\<close> fails only on an empty cache, and otherwise removes exactly the
  least recently used entry and makes its slot free.
\<close>

lemma ht_cache_evict_correct:
  assumes "cache_inv c"
  shows "if cached c = [] then ht_cache_evict c = (False, c)
    else \<exists>c'. ht_cache_evict c = (True, c') \<and> cache_inv c' \<and> cached c' = butlast (cached c) \<and> same_fns c c' \<and> 0 < free_top c'"
  using assms by (rule evict_spec)

lemma ht_cache_evict_correct_witness:
  "cache_inv ex_cache \<and>
    (\<exists>c'. ht_cache_evict ex_cache = (True, c') \<and> cache_inv c' \<and> cached c' = [[26, 52], [10, 50], [34, 54], [18, 51]])"
proof -
  have "butlast (cached ex_cache) = [[26, 52], [10, 50], [34, 54], [18, 51]]" "cached ex_cache \<noteq> []" by (simp_all add: ex_cached)
  then show ?thesis using ht_cache_evict_correct [OF ex_cache_inv] ex_cache_inv by auto
qed

end
