(* ===== verification/Bit_Array.thy ===== *)
theory Bit_Array
  imports Prelude
begin

text \<open>
  An array of 64-bit words read as one sequence of bits, bit \<open>j\<close> being bit \<open>j mod 64\<close> of word
  \<open>j div 64\<close>; the filters store their bits and their packed fingerprints this way.
\<close>

unbundle bit_operations_syntax

definition tbit :: "u64 list \<Rightarrow> nat \<Rightarrow> bool" where
  "tbit ws j = bit (ws ! (j div 64)) (j mod 64)"

text \<open>Word \<open>w\<close> holds the bits from \<open>64 * w\<close> on.\<close>

lemma tbit_word: "i < 64 \<Longrightarrow> tbit ws (64 * w + i) = bit (ws ! w) i"
  by (simp add: tbit_def)

lemma bit_u64_bound: "bit (x :: u64) i \<Longrightarrow> i < 64"
  using bit_imp_le_length [of x i] by simp

lemma words_eqI:
  assumes "length xs = length ys" "\<And>j. j < 64 * length ys \<Longrightarrow> tbit xs j = tbit ys j"
  shows "xs = ys"
proof (rule nth_equalityI)
  fix w
  assume w: "w < length xs"
  show "xs ! w = ys ! w"
  proof (rule bit_word_eqI)
    fix i
    assume "i < LENGTH(64)"
    then have "i < 64" by simp
    then show "bit (xs ! w) i = bit (ys ! w) i"
      using assms(2) [of "64 * w + i"] w assms(1) by (simp add: tbit_word)
  qed
qed (rule assms(1))

text \<open>Writing one word.\<close>

lemma tbit_upd:
  "w < length ws \<Longrightarrow> tbit (ws[w := x]) j = (if j div 64 = w then bit x (j mod 64) else tbit ws j)"
  by (simp add: tbit_def)

text \<open>Setting one bit.\<close>

definition set_tbit :: "u64 list \<Rightarrow> nat \<Rightarrow> u64 list" where
  "set_tbit ws pos = ws[pos div 64 := (ws ! (pos div 64)) OR push_bit (pos mod 64) 1]"

lemma length_set_tbit [simp]: "length (set_tbit ws pos) = length ws"
  by (simp add: set_tbit_def)

lemma tbit_set_tbit:
  assumes "pos < 64 * length ws"
  shows "tbit (set_tbit ws pos) j \<longleftrightarrow> j = pos \<or> tbit ws j"
proof -
  have w: "pos div 64 < length ws" using assms by (simp add: less_mult_imp_div_less mult.commute)
  have "bit (push_bit (pos mod 64) 1 :: u64) i \<longleftrightarrow> i = pos mod 64" for i
    by (auto simp: bit_simps)
  moreover have "j = pos \<longleftrightarrow> j div 64 = pos div 64 \<and> j mod 64 = pos mod 64" by (metis mult_div_mod_eq)
  ultimately show ?thesis
    using tbit_upd [OF w] by (auto simp: set_tbit_def bit_simps tbit_def)
qed

lemma tbit_fold_set:
  assumes "\<forall>p \<in> set ps. p < 64 * length ws"
  shows "tbit (fold (\<lambda>p ws. set_tbit ws p) ps ws) j \<longleftrightarrow> j \<in> set ps \<or> tbit ws j"
    and "length (fold (\<lambda>p ws. set_tbit ws p) ps ws) = length ws"
  using assms by (induction ps arbitrary: ws) (auto simp: tbit_set_tbit)

lemma tbit_zeros [simp]: "j < 64 * n \<Longrightarrow> \<not> tbit (replicate n 0) j"
  by (simp add: tbit_def less_mult_imp_div_less mult.commute)

end
