(* ===== verification/Amq.thy ===== *)
theory Amq
  imports Prelude
begin

text \<open>
  The interfaces of the approximate membership filters. \<open>amq_filter\<close> is what every filter promises:
  what has been added is found. \<open>multiset_filter\<close> is the stronger promise of the filters that
  delete: the filter is a multiset of items (what the filter keeps of a key), and lookup, insertion
  and deletion are membership, addition and removal on it. The lemmas about whole histories of
  operations are proved once, here.
\<close>

text \<open>Successive insertions; \<open>None\<close> when one is refused.\<close>

fun add_all :: "('t \<Rightarrow> 'k \<Rightarrow> 't option) \<Rightarrow> 't \<Rightarrow> 'k list \<Rightarrow> 't option" where
  "add_all add t [] = Some t"
| "add_all add t (k # ks) = Option.bind (add t k) (\<lambda>t'. add_all add t' ks)"

locale amq_filter =
  fixes inv :: "'t \<Rightarrow> bool"
    and add :: "'t \<Rightarrow> 'k \<Rightarrow> 't option"
    and lookup :: "'t \<Rightarrow> 'k \<Rightarrow> bool"
  assumes add_inv: "inv t \<Longrightarrow> add t k = Some t' \<Longrightarrow> inv t'"
    and add_found: "inv t \<Longrightarrow> add t k = Some t' \<Longrightarrow> lookup t' k"
    and add_keeps: "inv t \<Longrightarrow> add t k = Some t' \<Longrightarrow> lookup t j \<Longrightarrow> lookup t' j"
begin

lemma add_all_keeps:
  "inv t \<Longrightarrow> add_all add t ks = Some t' \<Longrightarrow> inv t' \<and> (\<forall>j. lookup t j \<longrightarrow> lookup t' j)"
proof (induction ks arbitrary: t)
  case (Cons k ks)
  then obtain u where u: "add t k = Some u" "add_all add u ks = Some t'" by (auto split: bind_splits)
  then show ?case using Cons.IH [of u] add_inv [OF Cons.prems(1) u(1)] add_keeps [OF Cons.prems(1) u(1)] by blast
qed simp

lemma no_false_negatives:
  "inv t \<Longrightarrow> add_all add t ks = Some t' \<Longrightarrow> k \<in> set ks \<Longrightarrow> lookup t' k"
proof (induction ks arbitrary: t)
  case (Cons j ks)
  then obtain u where u: "add t j = Some u" "add_all add u ks = Some t'" by (auto split: bind_splits)
  then show ?case
    using Cons.IH [of u] Cons.prems add_inv [OF Cons.prems(1) u(1)] add_found [OF Cons.prems(1) u(1)] add_all_keeps [of u ks t'] by auto
qed simp

end

text \<open>
  A filter that records what is added: it may also answer yes by accident, and an accidental yes may go away, but
  a recorded item is found.
\<close>

locale recording_filter =
  fixes inv :: "'t \<Rightarrow> bool"
    and items :: "'t \<Rightarrow> 'i multiset"
    and item :: "'t \<Rightarrow> 'k \<Rightarrow> 'i"
    and add :: "'t \<Rightarrow> 'k \<Rightarrow> 't option"
    and lookup :: "'t \<Rightarrow> 'k \<Rightarrow> bool"
  assumes recorded_found: "inv t \<Longrightarrow> item t k \<in># items t \<Longrightarrow> lookup t k"
    and add_records: "inv t \<Longrightarrow> add t k = Some t' \<Longrightarrow>
      inv t' \<and> items t' = add_mset (item t k) (items t) \<and> item t' = item t"
begin

lemma add_all_records:
  "inv t \<Longrightarrow> add_all add t ks = Some t' \<Longrightarrow> inv t' \<and> items t' = items t + image_mset (item t) (mset ks) \<and> item t' = item t"
proof (induction ks arbitrary: t)
  case (Cons k ks)
  then obtain u where u: "add t k = Some u" "add_all add u ks = Some t'" by (auto split: bind_splits)
  then show ?case using Cons.IH [of u] add_records [OF Cons.prems(1) u(1)] by simp
qed simp

lemma added_found: "inv t \<Longrightarrow> add_all add t ks = Some t' \<Longrightarrow> k \<in> set ks \<Longrightarrow> lookup t' k"
  using add_all_records [of t ks t'] recorded_found [of t' k] by auto

end

section \<open>Filters that delete\<close>

text \<open>
  A history: insertions and deletions in any order. \<open>run_ops\<close> runs it against the filter,
  \<open>run_keys\<close> against the exact multiset of keys; a deletion is legal for a key that is in it.
\<close>

datatype 'k filter_op = Ins 'k | Del 'k

fun run_ops :: "('t \<Rightarrow> 'k \<Rightarrow> 't option) \<Rightarrow> ('t \<Rightarrow> 'k \<Rightarrow> 't option) \<Rightarrow> 't \<Rightarrow> 'k filter_op list \<Rightarrow> 't option" where
  "run_ops add remove t [] = Some t"
| "run_ops add remove t (Ins k # ops) = Option.bind (add t k) (\<lambda>t'. run_ops add remove t' ops)"
| "run_ops add remove t (Del k # ops) = Option.bind (remove t k) (\<lambda>t'. run_ops add remove t' ops)"

fun run_keys :: "'k multiset \<Rightarrow> 'k filter_op list \<Rightarrow> 'k multiset option" where
  "run_keys M [] = Some M"
| "run_keys M (Ins k # ops) = run_keys (add_mset k M) ops"
| "run_keys M (Del k # ops) = (if k \<in># M then run_keys (M - {#k#}) ops else None)"

locale multiset_filter =
  fixes inv :: "'t \<Rightarrow> bool"
    and items :: "'t \<Rightarrow> 'i multiset"
    and item :: "'t \<Rightarrow> 'k \<Rightarrow> 'i"
    and add :: "'t \<Rightarrow> 'k \<Rightarrow> 't option"
    and remove :: "'t \<Rightarrow> 'k \<Rightarrow> 't option"
    and lookup :: "'t \<Rightarrow> 'k \<Rightarrow> bool"
  assumes lookup_iff: "inv t \<Longrightarrow> lookup t k \<longleftrightarrow> item t k \<in># items t"
    and add_spec: "inv t \<Longrightarrow> add t k = Some t' \<Longrightarrow>
      inv t' \<and> items t' = add_mset (item t k) (items t) \<and> item t' = item t"
    and remove_spec: "inv t \<Longrightarrow> remove t k = Some t' \<Longrightarrow>
      inv t' \<and> items t = add_mset (item t k) (items t') \<and> item t' = item t"
    and remove_total: "inv t \<Longrightarrow> item t k \<in># items t \<Longrightarrow> remove t k \<noteq> None"
begin

text \<open>Insertion and deletion are inverse on the items.\<close>

lemma add_remove:
  assumes "inv t" "add t k = Some t'"
  shows "\<exists>t''. remove t' k = Some t'' \<and> inv t'' \<and> items t'' = items t"
proof -
  note a = add_spec [OF assms]
  then obtain t'' where r: "remove t' k = Some t''" using remove_total [of t' k] by fastforce
  then show ?thesis using remove_spec [of t' k t''] a by auto
qed

text \<open>The filter follows the exact multiset of keys through every legal history.\<close>

lemma run_refines:
  assumes "inv t" "items t = image_mset (item t) M" "run_ops add remove t ops = Some t'" "run_keys M ops = Some M'"
  shows "inv t' \<and> items t' = image_mset (item t) M' \<and> item t' = item t"
  using assms
proof (induction ops arbitrary: t M)
  case (Cons op ops)
  show ?case
  proof (cases op)
    case (Ins k)
    then obtain u where u: "add t k = Some u" "run_ops add remove u ops = Some t'" using Cons.prems(3) by (auto split: bind_splits)
    note a = add_spec [OF Cons.prems(1) u(1)]
    show ?thesis using Cons.IH [of u "add_mset k M"] a u(2) Ins Cons.prems(2,4) by auto
  next
    case (Del k)
    then obtain u where u: "remove t k = Some u" "run_ops add remove u ops = Some t'" using Cons.prems(3) by (auto split: bind_splits)
    have k: "k \<in># M" "run_keys (M - {#k#}) ops = Some M'" using Cons.prems(4) Del by (auto split: if_splits)
    note r = remove_spec [OF Cons.prems(1) u(1)]
    obtain N where N: "M = add_mset k N" using multi_member_split [OF k(1)] by blast
    then show ?thesis using Cons.IH [of u N] r u(2) k Cons.prems(2) by auto
  qed
qed simp

text \<open>No false negatives, with deletions.\<close>

lemma history_found:
  assumes "inv t" "items t = {#}" "run_ops add remove t ops = Some t'" "run_keys {#} ops = Some M'" "k \<in># M'"
  shows "lookup t' k"
  using run_refines [OF assms(1) _ assms(3,4)] assms(2,5) lookup_iff [of t' k] by auto

text \<open>A legal deletion never fails.\<close>

lemma legal_delete:
  assumes "inv t" "items t = image_mset (item t) M" "k \<in># M"
  shows "\<exists>t'. remove t k = Some t'"
  using remove_total [OF assms(1), of k] assms(2,3) by auto

end

sublocale multiset_filter \<subseteq> amq: amq_filter inv add lookup
proof
  fix t k t'
  assume a: "inv t" "add t k = Some t'"
  note s = add_spec [OF a]
  show "inv t'" using s by blast
  show "lookup t' k" using s lookup_iff [of t' k] by simp
  show "lookup t' j" if "lookup t j" for j using s lookup_iff [of t' j] lookup_iff [OF a(1), of j] that by simp
qed

sublocale multiset_filter \<subseteq> recording: recording_filter inv items item add lookup
  by unfold_locales (use lookup_iff add_spec in auto)

end
