(* ===== verification/Bloom.thy ===== *)
theory Bloom
  imports Bit_Array Amq
begin

text \<open>
  The Bloom filter of \<^verbatim>\<open>src/bloom_filter.c\<close>. Positions come from two FNV-1a hashes of the bytes of an
  item. \<open>dlog\<close>, \<open>log\<close> of the C library, is a parameter of the two sizing functions; \<open>bloom_filter_estimated_fpr\<close>
  (an estimate with \<open>exp\<close> and \<open>pow\<close>) is not modelled. Pointer arguments are valid, an option is a
  pointer that may be \<open>NULL\<close>, and of a conversion the C standard leaves undefined the result is
  \<open>None\<close>.
\<close>

unbundle bit_operations_syntax

section \<open>State\<close>

record bloom_filter =
  bf_bits :: "u64 list"
  bf_num_bits :: nat
  bf_count :: nat
  bf_num_hashes :: u8

section \<open>Hashing\<close>

definition BLOOM_FNV_OFFSET_BASIS :: u64 where
  "BLOOM_FNV_OFFSET_BASIS = 2166136261"

definition BLOOM_FNV_PRIME :: u64 where
  "BLOOM_FNV_PRIME = 16777619"

definition fnv_loop :: "u64 \<Rightarrow> u8 list \<Rightarrow> u64 \<Rightarrow> u64" where
  "fnv_loop prime = fold (\<lambda>b h. (h XOR ucast b) * prime)"

definition double_hash :: "u8 list \<Rightarrow> u64 \<times> u64" where
  "double_hash data =
     (fnv_loop BLOOM_FNV_PRIME data BLOOM_FNV_OFFSET_BASIS,
      fnv_loop 0x00000100000001B3 data (0xcbf29ce484222325 XOR 0xdeadbeef))"

definition bloom_pos :: "nat \<Rightarrow> u64 \<times> u64 \<Rightarrow> nat \<Rightarrow> nat" where
  "bloom_pos num_bits h i = unat (fst h + word_of_nat i * snd h) mod num_bits"

definition bloom_filter_hashes :: "u8 list \<Rightarrow> nat \<Rightarrow> u8 \<Rightarrow> nat list" where
  "bloom_filter_hashes data num_bits num_hashes = map (bloom_pos num_bits (double_hash data)) [0..<unat num_hashes]"

section \<open>Sizing\<close>

text \<open>The double constant for the natural logarithm of two, and \<open>round\<close>: half away from zero.\<close>

definition bloom_ln2 :: rat where
  "bloom_ln2 = dround (6931471805599453 / 10 ^ 16)"

definition c_round :: "rat \<Rightarrow> int" where
  "c_round q = (if 0 \<le> q then \<lfloor>q + 1 / 2\<rfloor> else \<lceil>q - 1 / 2\<rceil>)"

definition bloom_filter_optimal_bits :: "(rat \<Rightarrow> rat) \<Rightarrow> nat \<Rightarrow> rat \<Rightarrow> nat option" where
  "bloom_filter_optimal_bits dlog expected_items target_fpr =
     (if expected_items = 0 \<or> target_fpr \<le> 0 \<or> target_fpr \<ge> 1 then Some 0
      else let q = \<lceil>dround (- dround (dround (of_nat expected_items) * dlog target_fpr) / dround (bloom_ln2 * bloom_ln2))\<rceil>
           in if 0 \<le> q \<and> q < 2 ^ 64 then Some (nat q) else None)"

definition bloom_filter_optimal_hashes :: "nat \<Rightarrow> nat \<Rightarrow> u8 option" where
  "bloom_filter_optimal_hashes num_bits expected_items =
     (if expected_items = 0 then Some 1
      else let k = dround (dround (dround (of_nat num_bits) / dround (of_nat expected_items)) * bloom_ln2); r = c_round k
           in if r < 0 \<or> r > 255 then None
              else Some (if r < 1 then 1 else if r > 32 then 32 else word_of_int r))"

section \<open>Lifecycle\<close>

definition bloom_words :: "nat \<Rightarrow> nat" where
  "bloom_words num_bits = sz_add num_bits 63 div 64"

definition bloom_filter_create_raw :: "nat \<Rightarrow> u8 \<Rightarrow> bool \<Rightarrow> bool \<Rightarrow> bloom_filter option" where
  "bloom_filter_create_raw num_bits num_hashes alloc1 alloc2 =
     (if num_bits = 0 \<or> num_hashes = 0 then None
      else if \<not> alloc1 then None
      else if \<not> alloc2 then None
      else Some \<lparr>bf_bits = replicate (bloom_words num_bits) 0, bf_num_bits = num_bits, bf_count = 0, bf_num_hashes = num_hashes\<rparr>)"

text \<open>The outer option is \<open>None\<close> where the sizing is undefined.\<close>

definition bloom_filter_create :: "(rat \<Rightarrow> rat) \<Rightarrow> nat \<Rightarrow> rat \<Rightarrow> bool \<Rightarrow> bool \<Rightarrow> bloom_filter option option" where
  "bloom_filter_create dlog expected_items target_fpr alloc1 alloc2 =
     (if expected_items = 0 \<or> target_fpr \<le> 0 \<or> target_fpr \<ge> 1 then Some None
      else Option.bind (bloom_filter_optimal_bits dlog expected_items target_fpr)
             (\<lambda>num_bits. map_option (\<lambda>num_hashes. bloom_filter_create_raw num_bits num_hashes alloc1 alloc2)
               (bloom_filter_optimal_hashes num_bits expected_items)))"

definition bloom_filter_reset :: "bloom_filter \<Rightarrow> bloom_filter" where
  "bloom_filter_reset bf =
     bf\<lparr>bf_bits := replicate (bloom_words (bf_num_bits bf)) 0 @ drop (bloom_words (bf_num_bits bf)) (bf_bits bf), bf_count := 0\<rparr>"

section \<open>Insertion and lookup\<close>

definition bloom_filter_insert :: "bloom_filter \<Rightarrow> u8 list \<Rightarrow> bloom_filter" where
  "bloom_filter_insert bf data =
     (if data = [] then bf
      else let h = double_hash data
           in bf\<lparr>bf_bits := fold (\<lambda>i ws. let pos = bloom_pos (bf_num_bits bf) h i
                                        in ws[pos div 64 := (ws ! (pos div 64)) OR push_bit (pos mod 64) 1])
                               [0..<unat (bf_num_hashes bf)] (bf_bits bf),
                 bf_count := sz_add (bf_count bf) 1\<rparr>)"

definition bloom_filter_lookup :: "bloom_filter \<Rightarrow> u8 list \<Rightarrow> bool" where
  "bloom_filter_lookup bf data =
     (if data = [] then False
      else let h = double_hash data
           in list_all (\<lambda>i. let pos = bloom_pos (bf_num_bits bf) h i
                            in (bf_bits bf ! (pos div 64)) AND push_bit (pos mod 64) 1 \<noteq> 0)
                [0..<unat (bf_num_hashes bf)])"

definition bloom_filter_count :: "bloom_filter \<Rightarrow> nat" where
  "bloom_filter_count bf = bf_count bf"

definition bloom_filter_memory_bytes :: "bloom_filter \<Rightarrow> nat" where
  "bloom_filter_memory_bytes bf = sz_add 32 (sz_mul (bloom_words (bf_num_bits bf)) 8)"


section \<open>The invariant and the abstract filter\<close>

text \<open>The abstract filter is the set of its bits that are set.\<close>

definition bloom_inv :: "bloom_filter \<Rightarrow> bool" where
  "bloom_inv bf \<longleftrightarrow> 0 < bf_num_bits bf \<and> bf_num_bits bf + 63 < 2 ^ 64 \<and> 0 < bf_num_hashes bf \<and>
     length (bf_bits bf) = bloom_words (bf_num_bits bf)"

definition bloom_set :: "bloom_filter \<Rightarrow> nat set" where
  "bloom_set bf = {j. j < 64 * length (bf_bits bf) \<and> tbit (bf_bits bf) j}"

definition bloom_positions :: "bloom_filter \<Rightarrow> u8 list \<Rightarrow> nat set" where
  "bloom_positions bf data = set (bloom_filter_hashes data (bf_num_bits bf) (bf_num_hashes bf))"

lemma bloom_words_eq: "n + 63 < 2 ^ 64 \<Longrightarrow> bloom_words n = (n + 63) div 64"
  by (simp add: bloom_words_def sz_add_small)

lemma bloom_pos_bound:
  assumes "bloom_inv bf" "p \<in> bloom_positions bf data"
  shows "p < bf_num_bits bf" "p < 64 * length (bf_bits bf)"
proof -
  show p: "p < bf_num_bits bf" using assms by (auto simp: bloom_positions_def bloom_filter_hashes_def bloom_pos_def bloom_inv_def)
  have "bf_num_bits bf \<le> 64 * ((bf_num_bits bf + 63) div 64)" by linarith
  then show "p < 64 * length (bf_bits bf)" using p assms(1) bloom_words_eq by (simp add: bloom_inv_def)
qed

lemma bloom_insert_eq:
  "bloom_filter_insert bf data = (if data = [] then bf
     else bf\<lparr>bf_bits := fold (\<lambda>p ws. set_tbit ws p) (bloom_filter_hashes data (bf_num_bits bf) (bf_num_hashes bf)) (bf_bits bf),
             bf_count := sz_add (bf_count bf) 1\<rparr>)"
  by (simp add: bloom_filter_insert_def bloom_filter_hashes_def fold_map comp_def set_tbit_def Let_def)

lemma bloom_insert_ok:
  assumes "bloom_inv bf" "data \<noteq> []"
  shows "bloom_inv (bloom_filter_insert bf data)" "bloom_set (bloom_filter_insert bf data) = bloom_set bf \<union> bloom_positions bf data"
    "bloom_positions (bloom_filter_insert bf data) = bloom_positions bf"
proof -
  let ?ps = "bloom_filter_hashes data (bf_num_bits bf) (bf_num_hashes bf)"
  have b: "\<forall>p \<in> set ?ps. p < 64 * length (bf_bits bf)"
    using bloom_pos_bound [OF assms(1)] by (auto simp: bloom_positions_def)
  note f = tbit_fold_set [OF b]
  show "bloom_inv (bloom_filter_insert bf data)" using assms f(2) by (simp add: bloom_insert_eq bloom_inv_def)
  show "bloom_set (bloom_filter_insert bf data) = bloom_set bf \<union> bloom_positions bf data"
    using assms(2) f b by (auto simp: bloom_insert_eq bloom_set_def bloom_positions_def)
  show "bloom_positions (bloom_filter_insert bf data) = bloom_positions bf"
    by (simp add: bloom_positions_def [abs_def] bloom_insert_eq)
qed

lemma and_bit_test: "(w :: u64) AND push_bit i 1 \<noteq> 0 \<longleftrightarrow> bit w i" if "i < 64"
proof -
  have "bit (w AND push_bit i 1) j \<longleftrightarrow> j = i \<and> bit w i" for j
    using that by (auto simp: bit_simps)
  then show ?thesis by (metis bit_0_eq bot_apply bot_bool_def bit_eqI)
qed

lemma bloom_lookup_iff:
  assumes "bloom_inv bf"
  shows "bloom_filter_lookup bf data \<longleftrightarrow> data \<noteq> [] \<and> bloom_positions bf data \<subseteq> bloom_set bf"
proof -
  have "bloom_filter_lookup bf data \<longleftrightarrow> data \<noteq> [] \<and> (\<forall>p \<in> bloom_positions bf data. tbit (bf_bits bf) p)"
    by (auto simp: bloom_filter_lookup_def bloom_positions_def bloom_filter_hashes_def list_all_iff Let_def tbit_def and_bit_test simp del: push_bit_of_1)
  then show ?thesis using bloom_pos_bound(2) [OF assms] by (auto simp: bloom_set_def)
qed

section \<open>The filter interface\<close>

text \<open>Empty items are refused.\<close>

definition bloom_add :: "bloom_filter \<Rightarrow> u8 list \<Rightarrow> bloom_filter option" where
  "bloom_add bf data = (if data = [] then None else Some (bloom_filter_insert bf data))"

interpretation bloom: amq_filter bloom_inv bloom_add bloom_filter_lookup
proof
  fix bf data bf'
  assume a: "bloom_inv bf" "bloom_add bf data = Some bf'"
  then have d: "data \<noteq> []" "bf' = bloom_filter_insert bf data" by (simp_all add: bloom_add_def split: if_splits)
  note i = bloom_insert_ok [OF a(1) d(1)]
  show "bloom_inv bf'" using i d by simp
  then show "bloom_filter_lookup bf' data" using i d bloom_lookup_iff by simp
  show "bloom_filter_lookup bf' j" if "bloom_filter_lookup bf j" for j
    using that bloom_lookup_iff [OF a(1), of j] bloom_lookup_iff [of bf' j] i d by auto
qed

lemma bloom_add_all:
  "bloom_inv bf \<Longrightarrow> [] \<notin> set xs \<Longrightarrow> add_all bloom_add bf xs = Some (fold (\<lambda>x bf. bloom_filter_insert bf x) xs bf)"
  by (induction xs arbitrary: bf) (auto simp: bloom_add_def bloom_insert_ok)

text \<open>Inserting a list of items sets exactly their bits.\<close>

lemma bloom_fold_ok:
  assumes "bloom_inv bf" "[] \<notin> set xs"
  shows "bloom_inv (fold (\<lambda>x bf. bloom_filter_insert bf x) xs bf) \<and>
    bloom_set (fold (\<lambda>x bf. bloom_filter_insert bf x) xs bf) = bloom_set bf \<union> (\<Union>x \<in> set xs. bloom_positions bf x) \<and>
    bloom_positions (fold (\<lambda>x bf. bloom_filter_insert bf x) xs bf) = bloom_positions bf"
  using assms
proof (induction xs arbitrary: bf)
  case (Cons x xs)
  have x: "x \<noteq> []" "[] \<notin> set xs" using Cons.prems(2) by auto
  note i = bloom_insert_ok [OF Cons.prems(1) x(1)]
  show ?case using Cons.IH [OF i(1) x(2)] i by auto
qed simp

lemma bloom_create_ok:
  assumes "bloom_filter_create_raw n k a1 a2 = Some bf" "n + 63 < 2 ^ 64"
  shows "bloom_inv bf \<and> bloom_set bf = {} \<and> bf_count bf = 0"
proof -
  have "0 < k" using assms(1) by (auto simp: bloom_filter_create_raw_def word_greater_zero_iff split: if_splits)
  then show ?thesis
    using assms by (auto simp: bloom_filter_create_raw_def bloom_inv_def bloom_set_def split: if_splits)
qed

lemma bloom_reset_ok:
  assumes "bloom_inv bf"
  shows "bloom_inv (bloom_filter_reset bf)" "bloom_set (bloom_filter_reset bf) = {}"
  using assms by (auto simp: bloom_filter_reset_def bloom_inv_def bloom_set_def)

section \<open>Properties\<close>

definition ex_bloom :: bloom_filter where
  "ex_bloom = \<lparr>bf_bits = [0, 0], bf_num_bits = 100, bf_count = 0, bf_num_hashes = 3\<rparr>"

lemma ex_bloom_inv: "bloom_inv ex_bloom"
  by (simp add: bloom_inv_def ex_bloom_def bloom_words_def sz_add_def)

text \<open>
  No false negatives. After any sequence of insertions of non-empty items into a Bloom filter,
  \<open>bloom_filter_lookup\<close> finds each of them.
\<close>

theorem bloom_no_false_negatives:
  assumes "bloom_inv bf" "[] \<notin> set xs" "x \<in> set xs"
  shows "bloom_filter_lookup (fold (\<lambda>x bf. bloom_filter_insert bf x) xs bf) x"
  using bloom.no_false_negatives [OF assms(1) bloom_add_all [OF assms(1,2)] assms(3)] .

theorem bloom_no_false_negatives_witness:
  "bloom_inv ex_bloom \<and> [] \<notin> set [[1, 2, 3], [4 :: u8]] \<and>
    bloom_filter_lookup (fold (\<lambda>x bf. bloom_filter_insert bf x) [[1, 2, 3], [4]] ex_bloom) [1, 2, 3]"
  using bloom_no_false_negatives [OF ex_bloom_inv, of "[[1, 2, 3], [4]]" "[1, 2, 3]"] ex_bloom_inv by simp

text \<open>
  C22. The Bloom filter refines a set of bits. After inserting a list of items into an emptied filter, the
  lookup of a non-empty item succeeds exactly when each of its positions is a position of an item
  inserted: the order of insertions and repetitions do not matter, and every false positive is
  such a collision.
\<close>

theorem bloom_lookup_exact:
  assumes "bloom_inv bf" "[] \<notin> set xs" "x \<noteq> []"
  shows "bloom_filter_lookup (fold (\<lambda>x bf. bloom_filter_insert bf x) xs (bloom_filter_reset bf)) x \<longleftrightarrow>
    bloom_positions bf x \<subseteq> (\<Union>y \<in> set xs. bloom_positions bf y)"
proof -
  note r = bloom_reset_ok [OF assms(1)]
  note f = bloom_fold_ok [OF r(1) assms(2)]
  have "bloom_positions (bloom_filter_reset bf) = bloom_positions bf"
    by (simp add: bloom_positions_def [abs_def] bloom_filter_reset_def)
  then show ?thesis using f r(2) assms(3) bloom_lookup_iff by simp
qed

theorem bloom_lookup_exact_witness:
  "bloom_inv ex_bloom \<and> [] \<notin> set [[1, 2, 3], [4 :: u8]] \<and> [7 :: u8] \<noteq> [] \<and>
    (bloom_filter_lookup (fold (\<lambda>x bf. bloom_filter_insert bf x) [[1, 2, 3], [4]] (bloom_filter_reset ex_bloom)) [7] \<longleftrightarrow>
      bloom_positions ex_bloom [7] \<subseteq> (\<Union>y \<in> set [[1, 2, 3], [4]]. bloom_positions ex_bloom y))"
  using bloom_lookup_exact [OF ex_bloom_inv, of "[[1, 2, 3], [4]]" "[7]"] ex_bloom_inv by simp

end
