(* ===== verification/Packed.thy ===== *)
theory Packed
  imports Bit_Array
begin

text \<open>
  Fingerprints packed into cache-line sets of eight 64-bit words, as the cuckoo filter stores them
  (\<^verbatim>\<open>src/cuckoo_filter.c\<close>). A pointer to a set is the index of its first word in the table; a
  fingerprint may straddle two words of its set, never two sets.
\<close>

unbundle bit_operations_syntax

section \<open>Definitions\<close>

definition mix32 :: "u32 \<Rightarrow> u32" where
  "mix32 x =
     (let x = x XOR drop_bit 16 x; x = x * 0x85ebca6b; x = x XOR drop_bit 13 x; x = x * 0xc2b2ae35
      in x XOR drop_bit 16 x)"

definition SET_WORDS :: nat where
  "SET_WORDS = 8"

definition set_get :: "u64 list \<Rightarrow> nat \<Rightarrow> nat \<Rightarrow> nat \<Rightarrow> u32" where
  "set_get ws s0 off fp_bits =
     (let bp = sz_mul off fp_bits; wi = bp div 64; bo = bp mod 64;
          val = drop_bit bo (ws ! (s0 + wi));
          val = (if wi + 1 < SET_WORDS \<and> bo + fp_bits > 64 then val OR push_bit (64 - bo) (ws ! (s0 + wi + 1)) else val)
      in ucast (val AND (push_bit fp_bits 1 - 1)))"

definition set_set :: "u64 list \<Rightarrow> nat \<Rightarrow> nat \<Rightarrow> nat \<Rightarrow> u32 \<Rightarrow> u64 list" where
  "set_set ws s0 off fp_bits v =
     (let bp = sz_mul off fp_bits; wi = bp div 64; bo = bp mod 64;
          mask = push_bit bo (push_bit fp_bits 1 - 1);
          ws1 = ws[s0 + wi := (ws ! (s0 + wi) AND NOT mask) OR push_bit bo (ucast v)]
      in if wi + 1 < SET_WORDS \<and> bo + fp_bits > 64
         then let mask2 = drop_bit (64 - bo) (push_bit fp_bits 1 - 1)
              in ws1[s0 + wi + 1 := (ws1 ! (s0 + wi + 1) AND NOT mask2) OR drop_bit (64 - bo) (ucast v)]
         else ws1)"

lemma unat_drop_bit: "unat (drop_bit k (w :: u64)) = unat w div 2 ^ k"
proof -
  have "unat (drop_bit k w) = drop_bit k (unat w)" by (rule bit_eqI) (auto simp: bit_unsigned_iff bit_drop_bit_eq)
  then show ?thesis by (simp add: drop_bit_eq_div)
qed

text \<open>The entry to evict from a full bucket.\<close>

definition evict_slot :: "nat \<Rightarrow> u32 \<Rightarrow> nat \<Rightarrow> nat" where
  "evict_slot n fp bucket_size = unat (drop_bit 32 ((ucast (mix32 (word_of_nat n XOR fp)) :: u64) * word_of_nat bucket_size))"

section \<open>The bits of a packed entry\<close>

text \<open>An entry of \<open>f\<close> bits at offset \<open>off\<close> of the set at word \<open>s0\<close>.\<close>

definition entry_fits :: "u64 list \<Rightarrow> nat \<Rightarrow> nat \<Rightarrow> nat \<Rightarrow> bool" where
  "entry_fits ws s0 off f \<longleftrightarrow> 0 < f \<and> f \<le> 32 \<and> off * f + f \<le> 512 \<and> s0 + SET_WORDS \<le> length ws"

lemma fp_mask: "(push_bit f 1 - 1 :: u64) = mask f" "(2 ^ f - 1 :: u64) = mask f"
  by (simp_all add: mask_eq_exp_minus_1)

lemma split_pos:
  fixes a p :: nat
  assumes "k < f" "f \<le> 32"
  defines "bo \<equiv> a mod 64"
  shows "if bo + k < 64 then (64 * p + (a + k)) div 64 = p + a div 64 \<and> (64 * p + (a + k)) mod 64 = bo + k
    else (64 * p + (a + k)) div 64 = p + a div 64 + 1 \<and> (64 * p + (a + k)) mod 64 = bo + k - 64"
proof -
  have a: "64 * p + (a + k) = 64 * (p + a div 64) + (bo + k)" by (simp add: bo_def)
  have dm: "(64 * q + m) div 64 = q \<and> (64 * q + m) mod 64 = m" if "m < 64" for q m :: nat using that by simp
  show ?thesis
  proof (cases "bo + k < 64")
    case True
    then show ?thesis unfolding a by (simp only: dm [OF True] if_True simp_thms)
  next
    case False
    have b: "bo + k - 64 < 64" "bo < 64" using assms(1,2) by (auto simp: bo_def)
    have e: "64 * (p + a div 64) + (bo + k) = 64 * (p + a div 64 + 1) + (bo + k - 64)" using False by simp
    show ?thesis unfolding a by (simp only: e dm [OF b(1)] False if_False simp_thms)
  qed
qed

lemma bit_set_get:
  assumes "entry_fits ws s0 off f"
  shows "bit (set_get ws s0 off f) k \<longleftrightarrow> k < f \<and> tbit ws (64 * s0 + (off * f + k))"
proof -
  define a where "a = off * f"
  define bo where "bo = a mod 64"
  have f: "0 < f" "f \<le> 32" "a + f \<le> 512" using assms by (simp_all add: entry_fits_def a_def)
  have bp: "sz_mul off f = a" using f by (simp add: sz_mul_def a_def)
  have "a = 64 * (a div 64) + bo" by (simp add: bo_def)
  then have ov: "a div 64 + 1 < SET_WORDS" if "bo + f > 64" using that f unfolding SET_WORDS_def by linarith
  have bo: "bo < 64" by (simp add: bo_def)
  show ?thesis
  proof (cases "k < f")
    case False
    then show ?thesis using f by (simp add: set_get_def fp_mask bit_simps Let_def)
  next
    case True
    note s = split_pos [OF True f(2), of a s0, folded bo_def]
    show ?thesis
    proof (cases "bo + k < 64")
      case True
      then have "tbit ws (64 * s0 + (a + k)) = bit (ws ! (s0 + a div 64)) (bo + k)" using s by (simp add: tbit_def)
      then show ?thesis using \<open>k < f\<close> f True ov
        by (auto simp: set_get_def fp_mask bit_simps Let_def bp a_def [symmetric] bo_def [symmetric])
    next
      case False
      then have t: "tbit ws (64 * s0 + (a + k)) = bit (ws ! (s0 + a div 64 + 1)) (bo + k - 64)" using s by (simp add: tbit_def)
      have e: "k - (64 - bo) = bo + k - 64" "64 - bo \<le> k" "bo + f > 64" using False bo \<open>k < f\<close> by auto
      have z: "\<not> bit (ws ! (s0 + a div 64)) (bo + k)" using False bit_u64_bound by blast
      show ?thesis using \<open>k < f\<close> f t e z ov
        by (auto simp: set_get_def fp_mask bit_simps Let_def bp a_def [symmetric] bo_def [symmetric])
    qed
  qed
qed

lemma length_set_set [simp]: "length (set_set ws s0 off f v) = length ws"
  by (simp add: set_set_def Let_def)


lemma set_set_words:
  assumes "entry_fits ws s0 off f"
  defines "a \<equiv> off * f"
  defines "bo \<equiv> a mod 64"
  shows "set_set ws s0 off f v ! w =
    (if w = s0 + a div 64 then (ws ! w AND NOT (push_bit bo (mask f))) OR push_bit bo (ucast v)
     else if w = s0 + a div 64 + 1 \<and> bo + f > 64 then (ws ! w AND NOT (drop_bit (64 - bo) (mask f))) OR drop_bit (64 - bo) (ucast v)
     else ws ! w)"
proof -
  have f: "0 < f" "f \<le> 32" "a + f \<le> 512" "s0 + 8 \<le> length ws" using assms(1) by (simp_all add: entry_fits_def a_def SET_WORDS_def)
  have bp: "sz_mul off f = a" using f by (simp add: sz_mul_def a_def)
  have "a = 64 * (a div 64) + bo" by (simp add: bo_def)
  then have ov: "bo + f > 64 \<Longrightarrow> a div 64 + 1 < SET_WORDS" using f unfolding SET_WORDS_def by linarith
  have l1: "s0 + a div 64 < length ws" and l2: "bo + f > 64 \<Longrightarrow> s0 + a div 64 + 1 < length ws"
    using f ov by (auto simp: SET_WORDS_def)
  show ?thesis
    using l1 l2 ov by (simp add: set_set_def fp_mask Let_def bp bo_def [symmetric] nth_list_update)
qed

lemma tbit_set_set:
  assumes fit: "entry_fits ws s0 off f" and v: "\<And>k. bit v k \<Longrightarrow> k < f"
  shows "tbit (set_set ws s0 off f v) j =
    (if 64 * s0 + off * f \<le> j \<and> j < 64 * s0 + (off * f + f) then bit v (j - (64 * s0 + off * f)) else tbit ws j)"
proof -
  define a where "a = off * f"
  define bo where "bo = a mod 64"
  define m where "m = j mod 64"
  have f: "0 < f" "f \<le> 32" using fit by (simp_all add: entry_fits_def)
  have j: "j = 64 * (j div 64) + m" "m < 64" by (simp_all add: m_def)
  have a: "a = 64 * (a div 64) + bo" "bo < 64" by (simp_all add: bo_def)
  have w: "set_set ws s0 off f v ! (j div 64) =
    (if j div 64 = s0 + a div 64 then (ws ! (j div 64) AND NOT (push_bit bo (mask f))) OR push_bit bo (ucast v)
     else if j div 64 = s0 + a div 64 + 1 \<and> bo + f > 64 then (ws ! (j div 64) AND NOT (drop_bit (64 - bo) (mask f))) OR drop_bit (64 - bo) (ucast v)
     else ws ! (j div 64))" using set_set_words [OF fit, of v "j div 64"] by (simp add: a_def bo_def)
  have u: "bit (ucast v :: u64) k = bit v k" for k using v [of k] f by (auto simp: bit_simps)
  consider (first) "j div 64 = s0 + a div 64" | (second) "j div 64 = s0 + a div 64 + 1" | (other) "j div 64 \<noteq> s0 + a div 64" "j div 64 \<noteq> s0 + a div 64 + 1"
    by blast
  then show ?thesis
  proof cases
    case first
    then have e: "64 * s0 + a \<le> j \<longleftrightarrow> bo \<le> m" "j < 64 * s0 + (a + f) \<longleftrightarrow> m < bo + f" "j - (64 * s0 + a) = m - bo" using j a by linarith+
    have "tbit (set_set ws s0 off f v) j = (if bo \<le> m \<and> m < bo + f then bit v (m - bo) else bit (ws ! (j div 64)) m)"
      using w first j(2) a(2) f v [of "m - bo"] by (auto simp: tbit_def m_def [symmetric] bit_simps u)
    then show ?thesis using e by (simp add: a_def [symmetric] tbit_def m_def)
  next
    case second
    then have e: "64 * s0 + a \<le> j" "j < 64 * s0 + (a + f) \<longleftrightarrow> 64 + m < bo + f" "j - (64 * s0 + a) = 64 + m - bo" using j a by linarith+
    have "tbit (set_set ws s0 off f v) j = (if 64 + m < bo + f then bit v (64 + m - bo) else bit (ws ! (j div 64)) m)"
      using w second j(2) a(2) f v [of "64 + m - bo"] by (auto simp: tbit_def m_def [symmetric] bit_simps u)
    then show ?thesis using e by (simp add: a_def [symmetric] tbit_def m_def)
  next
    case other
    then have "j div 64 < s0 + a div 64 \<or> s0 + a div 64 + 1 < j div 64" by linarith
    then have "\<not> (64 * s0 + a \<le> j \<and> j < 64 * s0 + (a + f))" using j a f by linarith
    then show ?thesis using w other by (auto simp: a_def [symmetric] tbit_def)
  qed
qed

section \<open>A table of packed entries\<close>

text \<open>
  Entry \<open>i\<close> of a table with \<open>eps\<close> entries per set lies in set \<open>i div eps\<close>. Reading and writing
  entries satisfy the laws of an array.
\<close>

definition packed_get :: "nat \<Rightarrow> nat \<Rightarrow> u64 list \<Rightarrow> nat \<Rightarrow> u32" where
  "packed_get eps f ws i = set_get ws (i div eps * SET_WORDS) (i mod eps) f"

definition packed_set :: "nat \<Rightarrow> nat \<Rightarrow> u64 list \<Rightarrow> nat \<Rightarrow> u32 \<Rightarrow> u64 list" where
  "packed_set eps f ws i v = set_set ws (i div eps * SET_WORDS) (i mod eps) f v"

definition packed_ok :: "nat \<Rightarrow> nat \<Rightarrow> nat \<Rightarrow> u64 list \<Rightarrow> bool" where
  "packed_ok eps f n ws \<longleftrightarrow> 0 < f \<and> f \<le> 32 \<and> 0 < eps \<and> eps * f \<le> 512 \<and> (\<forall>i < n. (i div eps + 1) * SET_WORDS \<le> length ws)"

definition fp_fits :: "nat \<Rightarrow> u32 \<Rightarrow> bool" where
  "fp_fits f v \<longleftrightarrow> unat v < 2 ^ f"

lemma fp_fits_bit:
  assumes "fp_fits f v" "bit v k"
  shows "k < f"
proof -
  have "take_bit f (unat v) = unat v" using assms(1) by (simp add: fp_fits_def take_bit_nat_eq_self)
  moreover have "bit (unat v) k" using assms(2) by (simp add: bit_unsigned_iff)
  ultimately show ?thesis by (metis bit_take_bit_iff)
qed

lemma masked_fits: "fp_fits f (ucast ((hash :: u64) AND mask f))"
proof -
  let ?v = "ucast (hash AND mask f) :: u32"
  have "take_bit f ?v = ?v" by (rule bit_eqI) (auto simp: bit_simps)
  then have "take_bit f (unat ?v) = unat ?v" by (metis unsigned_take_bit_eq)
  then show ?thesis by (simp add: fp_fits_def take_bit_nat_eq_self_iff)
qed

lemma one_fits: "0 < f \<Longrightarrow> fp_fits f 1"
  using power_increasing [of 1 f "2::nat"] by (simp add: fp_fits_def)

lemma evict_slot_less:
  assumes "0 < bs" "bs < 2 ^ 32"
  shows "evict_slot n fp bs < bs"
proof -
  let ?x = "ucast (mix32 (word_of_nat n XOR fp)) :: u64" and ?b = "word_of_nat bs :: u64"
  have "unat ?x \<le> unat (mix32 (word_of_nat n XOR fp))" by (simp add: unsigned_ucast_eq)
  then have x: "unat ?x < 2 ^ 32" using unat_bounds(2) le_less_trans by blast
  have b: "unat ?b = bs" using assms by (intro unat_word_of_nat) simp
  have lt: "unat ?x * bs < 2 ^ 32 * bs" using x assms(1) by simp
  moreover have "2 ^ 32 * bs < 2 ^ 64" using assms(2) by simp
  ultimately have "unat ?x * bs < 2 ^ 64" by (rule less_trans)
  then have "unat (?x * ?b) = unat ?x * bs" using b by (simp add: unat_word_ariths)
  then have "evict_slot n fp bs = unat ?x * bs div 2 ^ 32" unfolding evict_slot_def by (simp only: unat_drop_bit)
  then show ?thesis using lt by (simp add: less_mult_imp_div_less mult.commute)
qed

lemma packed_fits:
  assumes "packed_ok eps f n ws" "i < n"
  shows "entry_fits ws (i div eps * SET_WORDS) (i mod eps) f"
proof -
  have "i mod eps < eps" using assms(1) by (simp add: packed_ok_def)
  then have "(i mod eps) * f + f \<le> eps * f" by (metis Suc_leI add.commute mult_Suc mult_le_mono1)
  then show ?thesis using assms by (auto simp: packed_ok_def entry_fits_def)
qed

definition packed_pos :: "nat \<Rightarrow> nat \<Rightarrow> nat \<Rightarrow> nat" where
  "packed_pos eps f i = 64 * (i div eps * SET_WORDS) + (i mod eps) * f"

lemma packed_disjoint:
  assumes "0 < eps" "eps * f \<le> 512" "i \<noteq> j"
  shows "packed_pos eps f i + f \<le> packed_pos eps f j \<or> packed_pos eps f j + f \<le> packed_pos eps f i"
proof -
  have room: "(i mod eps) * f + f \<le> 512" for i
  proof -
    have "(i mod eps) * f + f \<le> eps * f" using assms(1) by (metis Suc_leI add.commute mult_Suc mult_le_mono1 mod_less_divisor)
    then show ?thesis using assms(2) by linarith
  qed
  have step: "a * f + f \<le> b * f" if "a < b" for a b :: nat using that by (metis Suc_leI add.commute mult_Suc mult_le_mono1)
  consider "i div eps < j div eps" | "j div eps < i div eps" | "i div eps = j div eps" by linarith
  then show ?thesis
  proof cases
    case 1
    then have "64 * (i div eps * SET_WORDS) + 512 \<le> 64 * (j div eps * SET_WORDS)" by (simp add: SET_WORDS_def)
    then show ?thesis using room [of i] by (simp add: packed_pos_def)
  next
    case 2
    then have "64 * (j div eps * SET_WORDS) + 512 \<le> 64 * (i div eps * SET_WORDS)" by (simp add: SET_WORDS_def)
    then show ?thesis using room [of j] by (simp add: packed_pos_def)
  next
    case 3
    then have "i mod eps \<noteq> j mod eps" using assms(3) by (metis div_mult_mod_eq)
    then show ?thesis using 3 step [of "i mod eps" "j mod eps"] step [of "j mod eps" "i mod eps"] by (auto simp: packed_pos_def neq_iff)
  qed
qed

lemma bit_packed_get:
  assumes "packed_ok eps f n ws" "i < n"
  shows "bit (packed_get eps f ws i) k \<longleftrightarrow> k < f \<and> tbit ws (packed_pos eps f i + k)"
  using bit_set_get [OF packed_fits [OF assms]] by (simp add: packed_get_def packed_pos_def add.assoc)

lemma tbit_packed_set:
  assumes "packed_ok eps f n ws" "i < n" "fp_fits f v"
  shows "tbit (packed_set eps f ws i v) j =
    (if packed_pos eps f i \<le> j \<and> j < packed_pos eps f i + f then bit v (j - packed_pos eps f i) else tbit ws j)"
  using tbit_set_set [OF packed_fits [OF assms(1,2)], of v j] fp_fits_bit [OF assms(3)]
  by (simp add: packed_set_def packed_pos_def add.assoc)

lemma length_packed_set [simp]: "length (packed_set eps f ws i v) = length ws"
  by (simp add: packed_set_def)

lemma packed_ok_set [simp]: "packed_ok eps f n (packed_set eps f' ws i v) = packed_ok eps f n ws"
  by (simp add: packed_ok_def packed_set_def)

lemma packed_get_fits:
  assumes "packed_ok eps f n ws" "i < n"
  shows "fp_fits f (packed_get eps f ws i)"
proof -
  have "take_bit f (packed_get eps f ws i) = packed_get eps f ws i"
    by (rule bit_eqI) (auto simp: bit_take_bit_iff bit_packed_get [OF assms])
  then have "take_bit f (unat (packed_get eps f ws i)) = unat (packed_get eps f ws i)"
    by (metis unsigned_take_bit_eq)
  then show ?thesis by (simp add: fp_fits_def take_bit_nat_eq_self_iff)
qed

lemma packed_get_set:
  assumes "packed_ok eps f n ws" "i < n" "j < n" "fp_fits f v"
  shows "packed_get eps f (packed_set eps f ws i v) j = (if i = j then v else packed_get eps f ws j)"
proof (rule bit_eqI)
  fix k
  have ok: "0 < eps" "eps * f \<le> 512" using assms(1) by (simp_all add: packed_ok_def)
  have g: "bit (packed_get eps f (packed_set eps f ws i v) j) k \<longleftrightarrow> k < f \<and> tbit (packed_set eps f ws i v) (packed_pos eps f j + k)"
    using bit_packed_get [of eps f n "packed_set eps f ws i v" j k] assms by simp
  show "bit (packed_get eps f (packed_set eps f ws i v) j) k = bit (if i = j then v else packed_get eps f ws j) k"
  proof (cases "i = j")
    case True
    then show ?thesis using g fp_fits_bit [OF assms(4), of k] tbit_packed_set [OF assms(1,2,4), of "packed_pos eps f j + k"] by auto
  next
    case False
    then show ?thesis
      using g packed_disjoint [OF ok False] by (auto simp: tbit_packed_set [OF assms(1,2,4)] bit_packed_get [OF assms(1,3)])
  qed
qed

lemma packed_set_set:
  assumes "packed_ok eps f n ws" "i < n" "fp_fits f v" "fp_fits f w"
  shows "packed_set eps f (packed_set eps f ws i v) i w = packed_set eps f ws i w"
  by (rule words_eqI) (simp_all add: tbit_packed_set [of eps f n] assms)

lemma packed_set_get:
  assumes "packed_ok eps f n ws" "i < n"
  shows "packed_set eps f ws i (packed_get eps f ws i) = ws"
  by (rule words_eqI) (auto simp: tbit_packed_set [OF assms packed_get_fits [OF assms]] bit_packed_get [OF assms])

lemma packed_zeros:
  assumes "packed_ok eps f n (replicate m 0)" "i < n"
  shows "packed_get eps f (replicate m 0) i = 0"
proof (rule bit_eqI)
  fix k
  show "bit (packed_get eps f (replicate m 0) i) k = bit 0 k"
  proof (cases "k < f")
    case True
    have "(i div eps + 1) * SET_WORDS \<le> m" "(i mod eps) * f + f \<le> 512"
      using packed_fits [OF assms] assms by (simp_all add: packed_ok_def entry_fits_def)
    then have "packed_pos eps f i + k < 64 * m" using True by (simp add: packed_pos_def SET_WORDS_def)
    then show ?thesis by (simp add: bit_packed_get [OF assms])
  qed (simp add: bit_packed_get [OF assms])
qed

section \<open>The interface to a filter\<close>

text \<open>
  A filter that keeps such a table in one of its fields: what it has to provide so that its entry
  operations satisfy the laws of an array.
\<close>

locale packed_store =
  fixes shape :: "'t \<Rightarrow> bool"
    and slots :: "'t \<Rightarrow> nat"
    and eps :: "'t \<Rightarrow> nat"
    and fbits :: "'t \<Rightarrow> nat"
    and table :: "'t \<Rightarrow> u64 list"
    and with_table :: "'t \<Rightarrow> u64 list \<Rightarrow> 't"
    and get :: "'t \<Rightarrow> nat \<Rightarrow> u32"
    and put :: "'t \<Rightarrow> nat \<Rightarrow> u32 \<Rightarrow> 't"
  assumes table_ok: "shape t \<Longrightarrow> packed_ok (eps t) (fbits t) (slots t) (table t)"
    and table_with: "table (with_table t ws) = ws"
    and with_with: "with_table (with_table t ws) ws' = with_table t ws'"
    and with_same: "with_table t (table t) = t"
    and with_frame: "shape t \<Longrightarrow> length ws = length (table t) \<Longrightarrow>
      shape (with_table t ws) \<and> slots (with_table t ws) = slots t \<and> eps (with_table t ws) = eps t \<and> fbits (with_table t ws) = fbits t"
    and get_eq: "shape t \<Longrightarrow> i < slots t \<Longrightarrow> get t i = packed_get (eps t) (fbits t) (table t) i"
    and put_eq: "shape t \<Longrightarrow> i < slots t \<Longrightarrow> put t i v = with_table t (packed_set (eps t) (fbits t) (table t) i v)"
begin

lemma put_shape:
  assumes "shape t" "i < slots t"
  shows "shape (put t i v)" "slots (put t i v) = slots t" "eps (put t i v) = eps t" "fbits (put t i v) = fbits t"
    "table (put t i v) = packed_set (eps t) (fbits t) (table t) i v"
  using with_frame [OF assms(1), of "packed_set (eps t) (fbits t) (table t) i v"] put_eq [OF assms] table_with by simp_all

lemma get_fits: "shape t \<Longrightarrow> i < slots t \<Longrightarrow> fp_fits (fbits t) (get t i)"
  using packed_get_fits [OF table_ok] get_eq by simp

lemma get_put:
  assumes "shape t" "i < slots t" "j < slots t" "fp_fits (fbits t) v"
  shows "get (put t i v) j = (if i = j then v else get t j)"
  using get_eq [of "put t i v" j] put_shape [OF assms(1,2)] packed_get_set [OF table_ok [OF assms(1)] assms(2-4)] get_eq [OF assms(1,3)] assms(3)
  by simp

lemma put_put:
  assumes "shape t" "i < slots t" "fp_fits (fbits t) v" "fp_fits (fbits t) w"
  shows "put (put t i v) i w = put t i w"
  using put_eq [of "put t i v" i w] put_shape [OF assms(1,2)] packed_set_set [OF table_ok [OF assms(1)] assms(2-4)] put_eq [OF assms(1,2)]
    assms(2) by (simp add: with_with)

lemma put_get:
  assumes "shape t" "i < slots t"
  shows "put t i (get t i) = t"
  using put_eq [OF assms] get_eq [OF assms] packed_set_get [OF table_ok [OF assms(1)] assms(2)] by (simp add: with_same)

lemma get_zeros:
  assumes "shape t" "i < slots t" "table t = replicate n 0"
  shows "get t i = 0"
  using packed_zeros [of "eps t" "fbits t" "slots t" n i] table_ok [OF assms(1)] assms get_eq by simp

end

end
