(* ===== verification/Cuckoo.thy ===== *)
theory Cuckoo
  imports Packed Util
begin

text \<open>
  The cuckoo filter of \<^verbatim>\<open>src/cuckoo_filter.c\<close>; \<open>Cuckoo_Spec\<close> proves it correct. The table that follows
  the structure in memory is the field \<open>cf_table\<close>. Fields of 32 and 8 bits that never change after
  creation are natural numbers, the conversions of the code written out as \<open>mod\<close>; the item counter
  is a 32-bit word. Pointer arguments are valid. \<open>cuckoo_filter_estimated_fpr\<close> only reports a
  statistic and is not modelled.
\<close>

unbundle bit_operations_syntax

section \<open>State\<close>

datatype cuckoo_err = CUCKOO_OK | CUCKOO_ERR_INVALID_PARAM | CUCKOO_ERR_FULL | CUCKOO_ERR_NOT_FOUND
  | CUCKOO_ERR_DUP_OVERFLOW | CUCKOO_ERR_ALLOC

record cuckoo_filter =
  cf_num_entries :: nat
  cf_count :: u32
  cf_num_buckets :: nat
  cf_entries_per_set :: nat
  cf_num_sets :: nat
  cf_fingerprint_bits :: nat
  cf_bucket_size :: nat
  cf_max_kicks :: nat
  cf_bucket_mask :: u32
  cf_table :: "u64 list"

section \<open>Entries\<close>

text \<open>The pointer to a set, as the index of its first word.\<close>

definition cf_set :: "nat \<Rightarrow> nat" where
  "cf_set si = sz_mul si SET_WORDS"

definition cf_get :: "cuckoo_filter \<Rightarrow> nat \<Rightarrow> u32" where
  "cf_get cf idx =
     (let si = idx div cf_entries_per_set cf; off = idx mod cf_entries_per_set cf
      in set_get (cf_table cf) (cf_set si) off (cf_fingerprint_bits cf))"

definition cf_set_entry :: "cuckoo_filter \<Rightarrow> nat \<Rightarrow> u32 \<Rightarrow> cuckoo_filter" where
  "cf_set_entry cf idx v =
     (let si = idx div cf_entries_per_set cf; off = idx mod cf_entries_per_set cf
      in cf\<lparr>cf_table := set_set (cf_table cf) (cf_set si) off (cf_fingerprint_bits cf) v\<rparr>)"

section \<open>Fingerprint and bucket indices\<close>

definition cuckoo_fingerprint :: "u64 \<Rightarrow> nat \<Rightarrow> u32" where
  "cuckoo_fingerprint hash fp_bits =
     (let fp = ucast (hash AND (push_bit fp_bits 1 - 1)) in if fp \<noteq> 0 then fp else 1)"

definition cuckoo_hash_index :: "u64 \<Rightarrow> u32 \<Rightarrow> nat" where
  "cuckoo_hash_index hash bucket_mask = unat (drop_bit 32 hash AND ucast bucket_mask)"

definition cuckoo_alt_index :: "nat \<Rightarrow> u32 \<Rightarrow> u32 \<Rightarrow> nat" where
  "cuckoo_alt_index current_index fingerprint bucket_mask =
     (let h = mix32 fingerprint in unat ((word_of_nat current_index XOR ucast h) AND (ucast bucket_mask :: u64)))"

section \<open>Lifecycle\<close>

text \<open>Halving until the derived values fit their fields.\<close>

function cap_buckets :: "nat \<Rightarrow> nat \<Rightarrow> nat" where
  "cap_buckets bucket_size num_buckets =
     (if num_buckets > UINT32_MAX div 2 + 1 \<or> sz_mul num_buckets bucket_size > UINT32_MAX
      then cap_buckets bucket_size (num_buckets div 2) else num_buckets)"
  by auto

termination
proof (relation "measure snd")
  fix bs n :: nat
  assume "n > UINT32_MAX div 2 + 1 \<or> sz_mul n bs > UINT32_MAX"
  then have "n \<noteq> 0" by (cases "n = 0") (auto simp: sz_mul_def UINT32_MAX_def)
  then show "((bs, n div 2), (bs, n)) \<in> measure snd" by simp
qed simp

declare cap_buckets.simps [simp del]

definition cuckoo_total_entries :: "nat \<Rightarrow> nat" where
  "cuckoo_total_entries capacity = nat \<lceil>dround (dround (of_nat capacity) / dround (95 / 100))\<rceil>"

definition cuckoo_filter_create :: "nat \<Rightarrow> u8 \<Rightarrow> u8 \<Rightarrow> u8 \<Rightarrow> bool \<Rightarrow> cuckoo_filter option" where
  "cuckoo_filter_create capacity bucket_size fp_bits max_kicks alloc =
     (if capacity = 0 then None
      else let bs = unat (if bucket_size = 0 then 4 else bucket_size);
               fp = unat (if fp_bits = 0 then 10 else fp_bits);
               mk = unat (if max_kicks = 0 then 200 else max_kicks)
           in if bs < 1 \<or> bs > 16 then None
              else if fp < 1 \<or> fp > 32 then None
              else if capacity > UINT32_MAX then None
              else let total_entries = cuckoo_total_entries capacity;
                       entries_per_set = 512 div fp;
                       nb0 = unat (next_power_of_2 (word_of_nat (sz_sub (sz_add total_entries bs) 1 div bs)));
                       nb1 = (if nb0 < 1 then 1 else nb0);
                       num_buckets = cap_buckets bs nb1;
                       num_entries = sz_mul num_buckets bs;
                       num_sets = sz_sub (sz_add num_entries entries_per_set) 1 div entries_per_set
                   in if num_sets > (SIZE_MAX - 32) div 64 then None
                      else if \<not> alloc then None
                      else Some \<lparr>cf_num_entries = num_entries mod 2 ^ 32, cf_count = 0, cf_num_buckets = num_buckets mod 2 ^ 32,
                             cf_entries_per_set = entries_per_set mod 2 ^ 32, cf_num_sets = num_sets mod 2 ^ 32,
                             cf_fingerprint_bits = fp, cf_bucket_size = bs, cf_max_kicks = mk,
                             cf_bucket_mask = word_of_nat (sz_sub num_buckets 1),
                             cf_table = replicate (num_sets * SET_WORDS) 0\<rparr>)"

definition cuckoo_filter_reset :: "cuckoo_filter \<Rightarrow> cuckoo_filter" where
  "cuckoo_filter_reset cf =
     cf\<lparr>cf_table := replicate (cf_num_sets cf * SET_WORDS) 0 @ drop (cf_num_sets cf * SET_WORDS) (cf_table cf), cf_count := 0\<rparr>"

section \<open>Core operations\<close>

definition find_empty_slot :: "cuckoo_filter \<Rightarrow> nat \<Rightarrow> nat option" where
  "find_empty_slot cf bucket_idx =
     (let base = sz_mul bucket_idx (cf_bucket_size cf) in find (\<lambda>i. cf_get cf (base + i) = 0) [0..<cf_bucket_size cf])"

definition find_fingerprint :: "cuckoo_filter \<Rightarrow> nat \<Rightarrow> u32 \<Rightarrow> nat option" where
  "find_fingerprint cf bucket_idx fp =
     (let base = sz_mul bucket_idx (cf_bucket_size cf) in find (\<lambda>i. cf_get cf (base + i) = fp) [0..<cf_bucket_size cf])"

text \<open>A fingerprint into a free entry of a bucket, and the counter.\<close>

definition cf_place :: "cuckoo_filter \<Rightarrow> nat \<Rightarrow> nat \<Rightarrow> u32 \<Rightarrow> cuckoo_err \<times> cuckoo_filter" where
  "cf_place cf i slot fp =
     (let cf1 = cf_set_entry cf (sz_mul i (cf_bucket_size cf) + slot) fp in (CUCKOO_OK, cf1\<lparr>cf_count := cf_count cf1 + 1\<rparr>))"

text \<open>
  The eviction loop: \<open>n\<close> counts up to \<open>max_kicks\<close>, \<open>todo\<close> the iterations left. The two arrays of the
  code are the trace \<open>tr\<close>, latest eviction first; when the loop ends without success they are
  written back in that order.
\<close>

definition cf_rollback :: "cuckoo_filter \<Rightarrow> (nat \<times> u32) list \<Rightarrow> cuckoo_filter" where
  "cf_rollback cf tr = fold (\<lambda>(i, v) cf. cf_set_entry cf i v) tr cf"

fun cf_kick :: "cuckoo_filter \<Rightarrow> nat \<Rightarrow> nat \<Rightarrow> nat \<Rightarrow> u32 \<Rightarrow> (nat \<times> u32) list \<Rightarrow> cuckoo_err \<times> cuckoo_filter" where
  "cf_kick cf 0 n i fp tr = (CUCKOO_ERR_FULL, cf_rollback cf tr)"
| "cf_kick cf (Suc todo) n i fp tr =
     (let base = sz_mul i (cf_bucket_size cf);
          idx = base + evict_slot n fp (cf_bucket_size cf);
          temp = cf_get cf idx;
          cf1 = cf_set_entry cf idx fp;
          i' = cuckoo_alt_index i temp (cf_bucket_mask cf1)
      in case find_empty_slot cf1 i' of
           Some slot \<Rightarrow> cf_place cf1 i' slot temp
         | None \<Rightarrow> cf_kick cf1 todo (Suc n) i' temp ((idx, temp) # tr))"

definition cuckoo_filter_insert :: "cuckoo_filter \<Rightarrow> u64 \<Rightarrow> cuckoo_err \<times> cuckoo_filter" where
  "cuckoo_filter_insert cf hash =
     (let fp = cuckoo_fingerprint hash (cf_fingerprint_bits cf);
          i1 = cuckoo_hash_index hash (cf_bucket_mask cf);
          i2 = cuckoo_alt_index i1 fp (cf_bucket_mask cf)
      in case find_empty_slot cf i1 of
           Some slot \<Rightarrow> cf_place cf i1 slot fp
         | None \<Rightarrow>
             (case find_empty_slot cf i2 of
                Some slot \<Rightarrow> cf_place cf i2 slot fp
              | None \<Rightarrow> cf_kick cf (cf_max_kicks cf) 0 (if odd (i1 + i2) then i1 else i2) fp []))"

definition cuckoo_filter_lookup :: "cuckoo_filter \<Rightarrow> u64 \<Rightarrow> bool" where
  "cuckoo_filter_lookup cf hash =
     (let fp = cuckoo_fingerprint hash (cf_fingerprint_bits cf);
          i1 = cuckoo_hash_index hash (cf_bucket_mask cf);
          i2 = cuckoo_alt_index i1 fp (cf_bucket_mask cf)
      in find_fingerprint cf i1 fp \<noteq> None \<or> find_fingerprint cf i2 fp \<noteq> None)"

definition cuckoo_filter_delete :: "cuckoo_filter \<Rightarrow> u64 \<Rightarrow> cuckoo_err \<times> cuckoo_filter" where
  "cuckoo_filter_delete cf hash =
     (let fp = cuckoo_fingerprint hash (cf_fingerprint_bits cf);
          i1 = cuckoo_hash_index hash (cf_bucket_mask cf);
          i2 = cuckoo_alt_index i1 fp (cf_bucket_mask cf)
      in case find_fingerprint cf i1 fp of
           Some slot \<Rightarrow>
             (let cf1 = cf_set_entry cf (sz_mul i1 (cf_bucket_size cf) + slot) 0 in (CUCKOO_OK, cf1\<lparr>cf_count := cf_count cf1 - 1\<rparr>))
         | None \<Rightarrow>
             (case find_fingerprint cf i2 fp of
                Some slot \<Rightarrow>
                  (let cf1 = cf_set_entry cf (sz_mul i2 (cf_bucket_size cf) + slot) 0 in (CUCKOO_OK, cf1\<lparr>cf_count := cf_count cf1 - 1\<rparr>))
              | None \<Rightarrow> (CUCKOO_ERR_NOT_FOUND, cf)))"

section \<open>Statistics\<close>

definition cuckoo_filter_count :: "cuckoo_filter \<Rightarrow> nat" where
  "cuckoo_filter_count cf = unat (cf_count cf)"

definition cuckoo_filter_capacity :: "cuckoo_filter \<Rightarrow> nat" where
  "cuckoo_filter_capacity cf = cf_num_entries cf"

text \<open>\<open>num_sets * CUCKOO_SET_BYTES\<close> is a product of 32-bit operands.\<close>

definition cuckoo_filter_memory_bytes :: "cuckoo_filter \<Rightarrow> nat" where
  "cuckoo_filter_memory_bytes cf = 32 + (cf_num_sets cf * 64) mod 2 ^ 32"

end
