(* ===== verification/Buckets.thy ===== *)
theory Buckets
  imports Amq
begin

text \<open>
  Tables of buckets of fingerprints with two candidate buckets per fingerprint, as the cuckoo and
  the vacuum filter use them. \<open>bucket_table\<close> is the interface: an array of entries (0 is an empty
  entry) and an alternate-bucket function that is its own inverse. Under it the table is a multiset
  of items, an item being a fingerprint with its unordered pair of candidate buckets; the effect of
  placing, moving, kicking and removing a fingerprint, and of undoing a chain of evictions, is
  proved here for both filters.
\<close>

section \<open>Items\<close>

definition item_of :: "(nat \<Rightarrow> u32 \<Rightarrow> nat) \<Rightarrow> nat \<Rightarrow> u32 \<Rightarrow> nat \<times> u32" where
  "item_of alt b v = (min b (alt b v), v)"

text \<open>What one entry contributes, and the whole table.\<close>

definition entry_item :: "(nat \<Rightarrow> u32 \<Rightarrow> nat) \<Rightarrow> nat \<Rightarrow> u32 \<Rightarrow> (nat \<times> u32) multiset" where
  "entry_item alt b v = (if v = 0 then {#} else {#item_of alt b v#})"

definition bucket_items :: "(nat \<Rightarrow> u32 \<Rightarrow> nat) \<Rightarrow> nat \<Rightarrow> (nat \<Rightarrow> u32) \<Rightarrow> nat \<Rightarrow> (nat \<times> u32) multiset" where
  "bucket_items alt bs g n = (\<Sum>i < n. entry_item alt (i div bs) (g i))"

lemma bucket_items_cong:
  "(\<And>i. i < n \<Longrightarrow> g i = h i) \<Longrightarrow> bucket_items alt bs g n = bucket_items alt bs h n"
  by (simp add: bucket_items_def)

lemma bucket_items_upd:
  assumes "i < n"
  shows "bucket_items alt bs (g(i := v)) n + entry_item alt (i div bs) (g i) = bucket_items alt bs g n + entry_item alt (i div bs) v"
proof -
  have "(\<Sum>j \<in> {..<n} - {i}. entry_item alt (j div bs) ((g(i := v)) j)) = (\<Sum>j \<in> {..<n} - {i}. entry_item alt (j div bs) (g j))"
    by (intro sum.cong) auto
  then show ?thesis
    unfolding bucket_items_def using assms sum.remove [of "{..<n}" i "\<lambda>j. entry_item alt (j div bs) (g j)"]
      sum.remove [of "{..<n}" i "\<lambda>j. entry_item alt (j div bs) ((g(i := v)) j)"] by simp
qed

lemma in_bucket_items:
  "x \<in># bucket_items alt bs g n \<longleftrightarrow> (\<exists>i < n. g i \<noteq> 0 \<and> x = item_of alt (i div bs) (g i))"
  by (auto simp: bucket_items_def set_mset_sum entry_item_def split: if_splits)

lemma bucket_items_size: "size (bucket_items alt bs g n) \<le> n"
  by (induction n) (auto simp: bucket_items_def entry_item_def)

section \<open>The interface\<close>

locale bucket_table =
  fixes inv :: "'t \<Rightarrow> bool"
    and buckets :: "'t \<Rightarrow> nat"
    and bsize :: "'t \<Rightarrow> nat"
    and get :: "'t \<Rightarrow> nat \<Rightarrow> u32"
    and put :: "'t \<Rightarrow> nat \<Rightarrow> u32 \<Rightarrow> 't"
    and fits :: "'t \<Rightarrow> u32 \<Rightarrow> bool"
    and alt :: "'t \<Rightarrow> nat \<Rightarrow> u32 \<Rightarrow> nat"
  assumes bsize_pos: "inv t \<Longrightarrow> 0 < bsize t"
    and zero_fits: "inv t \<Longrightarrow> fits t 0"
    and get_fits: "inv t \<Longrightarrow> i < buckets t * bsize t \<Longrightarrow> fits t (get t i)"
    and get_put: "inv t \<Longrightarrow> i < buckets t * bsize t \<Longrightarrow> j < buckets t * bsize t \<Longrightarrow> fits t v \<Longrightarrow>
      get (put t i v) j = (if i = j then v else get t j)"
    and put_put: "inv t \<Longrightarrow> i < buckets t * bsize t \<Longrightarrow> fits t v \<Longrightarrow> fits t w \<Longrightarrow> put (put t i v) i w = put t i w"
    and put_get: "inv t \<Longrightarrow> i < buckets t * bsize t \<Longrightarrow> put t i (get t i) = t"
    and put_frame: "inv t \<Longrightarrow> i < buckets t * bsize t \<Longrightarrow> fits t v \<Longrightarrow>
      inv (put t i v) \<and> buckets (put t i v) = buckets t \<and> bsize (put t i v) = bsize t \<and>
      fits (put t i v) = fits t \<and> alt (put t i v) = alt t"
    and alt_less: "inv t \<Longrightarrow> b < buckets t \<Longrightarrow> alt t b v < buckets t"
    and alt_alt: "inv t \<Longrightarrow> b < buckets t \<Longrightarrow> alt t (alt t b v) v = b"
begin

definition items :: "'t \<Rightarrow> (nat \<times> u32) multiset" where
  "items t = bucket_items (alt t) (bsize t) (get t) (buckets t * bsize t)"

lemma slot_less: "b < buckets t \<Longrightarrow> k < bsize t \<Longrightarrow> b * bsize t + k < buckets t * bsize t"
  by (metis Suc_leI add.commute add_less_le_mono mult_Suc mult_le_mono1 order_less_le_trans nat_add_left_cancel_less)

lemma slot_div: "k < bsize t \<Longrightarrow> (b * bsize t + k) div bsize t = b"
  by simp

lemma item_alt:
  assumes "inv t" "b < buckets t"
  shows "item_of (alt t) (alt t b v) v = item_of (alt t) b v"
  using alt_alt [OF assms] by (simp add: item_of_def min.commute)

lemma item_eqD:
  assumes "inv t" "b < buckets t" "b' < buckets t" "item_of (alt t) b v = item_of (alt t) b' w"
  shows "v = w \<and> (b' = b \<or> b' = alt t b v)"
proof -
  have e: "v = w" "min b (alt t b v) = min b' (alt t b' v)" using assms(4) by (auto simp: item_of_def)
  have "b' = b \<or> b' = alt t b v"
    using e(2) alt_alt [OF assms(1,2), of v] alt_alt [OF assms(1,3), of v] by (metis min_def)
  then show ?thesis using e(1) by simp
qed

lemma put_items:
  assumes "inv t" "i < buckets t * bsize t" "fits t v"
  shows "items (put t i v) + entry_item (alt t) (i div bsize t) (get t i) = items t + entry_item (alt t) (i div bsize t) v"
proof -
  note f = put_frame [OF assms]
  have "items (put t i v) = bucket_items (alt t) (bsize t) ((get t)(i := v)) (buckets t * bsize t)"
    using f get_put [OF assms(1,2) _ assms(3)] by (auto simp: items_def intro!: bucket_items_cong)
  then show ?thesis using bucket_items_upd [OF assms(2), of "alt t" "bsize t" "get t" v] by (simp add: items_def)
qed

lemma items_size: "size (items t) \<le> buckets t * bsize t"
  by (simp add: items_def bucket_items_size)

lemma zero_items: "(\<And>i. i < buckets t * bsize t \<Longrightarrow> get t i = 0) \<Longrightarrow> items t = {#}"
  by (simp add: items_def bucket_items_def entry_item_def)

text \<open>Placing a fingerprint in an empty entry, and clearing an entry.\<close>

lemma place_items:
  assumes "inv t" "b < buckets t" "k < bsize t" "get t (b * bsize t + k) = 0" "fits t v" "v \<noteq> 0"
  shows "items (put t (b * bsize t + k) v) = add_mset (item_of (alt t) b v) (items t)"
  using put_items [OF assms(1) slot_less [OF assms(2,3)] assms(5)] slot_div [OF assms(3)] assms(4,6) by (simp add: entry_item_def)

lemma clear_items:
  assumes "inv t" "b < buckets t" "k < bsize t" "get t (b * bsize t + k) = v" "v \<noteq> 0"
  shows "items t = add_mset (item_of (alt t) b v) (items (put t (b * bsize t + k) 0))"
  using put_items [OF assms(1) slot_less [OF assms(2,3)] zero_fits [OF assms(1)]] slot_div [OF assms(3)] assms(4,5)
  by (simp add: entry_item_def)

text \<open>A kick: \<open>v\<close> takes the entry of \<open>w\<close>, which is left in hand for its other bucket.\<close>

lemma kick_items:
  assumes "inv t" "b < buckets t" "k < bsize t" "get t (b * bsize t + k) = w" "w \<noteq> 0" "fits t v" "v \<noteq> 0"
  shows "add_mset (item_of (alt t) (alt t b w) w) (items (put t (b * bsize t + k) v)) = add_mset (item_of (alt t) b v) (items t)"
  using put_items [OF assms(1) slot_less [OF assms(2,3)] assms(6)] slot_div [OF assms(3)] assms(4,5,7) item_alt [OF assms(1,2)]
  by (simp add: entry_item_def)

text \<open>
  A move: \<open>w\<close> goes from its entry in bucket \<open>b\<close> to a free entry of its other bucket, and \<open>v\<close> takes its place.
\<close>

lemma move_items:
  assumes "inv t" "b < buckets t" "k < bsize t" "get t (b * bsize t + k) = w" "w \<noteq> 0"
    and "s < bsize t" "get t (alt t b w * bsize t + s) = 0" "fits t v" "v \<noteq> 0"
  defines "t' \<equiv> put (put t (alt t b w * bsize t + s) w) (b * bsize t + k) v"
  shows "items t' = add_mset (item_of (alt t) b v) (items t)" "inv t'" "buckets t' = buckets t" "bsize t' = bsize t"
    "fits t' = fits t" "alt t' = alt t"
proof -
  let ?i = "b * bsize t + k" and ?j = "alt t b w * bsize t + s"
  note a = alt_less [OF assms(1,2), of w]
  have ij: "?i < buckets t * bsize t" "?j < buckets t * bsize t" using slot_less [OF assms(2,3)] slot_less [OF a assms(6)] by simp_all
  have w: "fits t w" using get_fits [OF assms(1) ij(1)] assms(4) by simp
  note f = put_frame [OF assms(1) ij(2) w]
  have g: "get (put t ?j w) ?i = w" using get_put [OF assms(1) ij(2,1) w] assms(4,5,7) by auto
  have p: "items (put t ?j w) = add_mset (item_of (alt t) b w) (items t)"
    using place_items [OF assms(1) a assms(6,7) w assms(5)] item_alt [OF assms(1,2)] by simp
  have i: "inv (put t ?j w)" "b < buckets (put t ?j w)" "k < bsize (put t ?j w)" "get (put t ?j w) (b * bsize (put t ?j w) + k) = w"
    "fits (put t ?j w) v" using f assms(2,3,8) g by simp_all
  note q = kick_items [OF i(1-4) assms(5) i(5) assms(9)]
  show "items t' = add_mset (item_of (alt t) b v) (items t)"
    using q f p item_alt [OF assms(1,2), of w] by (simp add: t'_def)
  show "inv t'" "buckets t' = buckets t" "bsize t' = bsize t" "fits t' = fits t" "alt t' = alt t"
    using put_frame [OF i(1) _ i(5), of ?i] f ij by (simp_all add: t'_def)
qed

section \<open>Searching a bucket\<close>

lemma bucket_search:
  assumes "inv t" "b < buckets t"
  shows "case find (\<lambda>k. get t (b * bsize t + k) = v) [0..<bsize t] of
      None \<Rightarrow> \<forall>k < bsize t. get t (b * bsize t + k) \<noteq> v
    | Some k \<Rightarrow> k < bsize t \<and> get t (b * bsize t + k) = v"
  by (auto simp: find_upt_None split: option.split dest!: find_upt_Some)

lemma member_iff:
  assumes "inv t" "b < buckets t" "v \<noteq> 0"
  shows "item_of (alt t) b v \<in># items t \<longleftrightarrow>
    (\<exists>k < bsize t. get t (b * bsize t + k) = v) \<or> (\<exists>k < bsize t. get t (alt t b v * bsize t + k) = v)"
proof
  assume "item_of (alt t) b v \<in># items t"
  then obtain i where i: "i < buckets t * bsize t" "item_of (alt t) b v = item_of (alt t) (i div bsize t) (get t i)"
    by (auto simp: items_def in_bucket_items)
  have d: "i div bsize t < buckets t" using i(1) by (simp add: less_mult_imp_div_less)
  have k: "i = i div bsize t * bsize t + i mod bsize t" "i mod bsize t < bsize t" using bsize_pos [OF assms(1)] by simp_all
  show "(\<exists>k < bsize t. get t (b * bsize t + k) = v) \<or> (\<exists>k < bsize t. get t (alt t b v * bsize t + k) = v)"
    using item_eqD [OF assms(1,2) d i(2)] k by metis
next
  have "item_of (alt t) b v \<in># items t" if "k < bsize t" "get t (b * bsize t + k) = v" "b < buckets t" for b k
    using slot_less [OF that(3,1)] that assms(3) slot_div [OF that(1), of b] by (auto simp: items_def in_bucket_items)
  moreover have "item_of (alt t) (alt t b v) v \<in># items t" if "k < bsize t" "get t (alt t b v * bsize t + k) = v" for k
    using slot_less [OF alt_less [OF assms(1,2), of v] that(1)] that assms(3) slot_div [OF that(1), of "alt t b v"]
    unfolding items_def in_bucket_items by metis
  moreover assume "(\<exists>k < bsize t. get t (b * bsize t + k) = v) \<or> (\<exists>k < bsize t. get t (alt t b v * bsize t + k) = v)"
  ultimately show "item_of (alt t) b v \<in># items t" using item_alt [OF assms(1,2)] assms(2) by auto
qed

section \<open>Undoing evictions\<close>

text \<open>A trace, latest eviction first, leads back from \<open>t\<close> to \<open>t0\<close>.\<close>

definition undoes :: "'t \<Rightarrow> (nat \<times> u32) list \<Rightarrow> 't \<Rightarrow> bool" where
  "undoes t tr t0 \<longleftrightarrow> fold (\<lambda>(i, v) t. put t i v) tr t = t0"

lemma undo_kick:
  assumes "inv t" "i < buckets t * bsize t" "fits t v" "undoes t tr t0"
  shows "undoes (put t i v) ((i, get t i) # tr) t0"
  using assms(4) put_put [OF assms(1,2,3) get_fits [OF assms(1,2)]] put_get [OF assms(1,2)] by (simp add: undoes_def)

end

section \<open>Filters over such a table\<close>

text \<open>
  A filter adds a home bucket and a fingerprint for every hash, and a counter of its items. Lookup
  and deletion, and every way of placing a fingerprint, are the same for both filters; only the
  eviction strategy of the insertion differs, which \<open>evicting_filter\<close> leaves open.
\<close>

locale bucket_filter = bucket_table inv buckets bsize get put fits alt
  for inv :: "'t \<Rightarrow> bool" and buckets bsize :: "'t \<Rightarrow> nat" and get :: "'t \<Rightarrow> nat \<Rightarrow> u32"
    and put :: "'t \<Rightarrow> nat \<Rightarrow> u32 \<Rightarrow> 't" and fits :: "'t \<Rightarrow> u32 \<Rightarrow> bool" and alt :: "'t \<Rightarrow> nat \<Rightarrow> u32 \<Rightarrow> nat" +
  fixes home :: "'t \<Rightarrow> 'h \<Rightarrow> nat"
    and fpr :: "'t \<Rightarrow> 'h \<Rightarrow> u32"
    and cnt :: "'t \<Rightarrow> u32"
    and with_cnt :: "'t \<Rightarrow> u32 \<Rightarrow> 't"
  assumes size_bound: "inv t \<Longrightarrow> buckets t * bsize t < 2 ^ 32"
    and home_less: "inv t \<Longrightarrow> home t h < buckets t"
    and fpr_ok: "inv t \<Longrightarrow> fits t (fpr t h) \<and> fpr t h \<noteq> 0"
    and put_home: "home (put t i v) = home t \<and> fpr (put t i v) = fpr t \<and> cnt (put t i v) = cnt t"
    and cnt_with: "cnt (with_cnt t c) = c"
    and with_cnt_frame: "inv (with_cnt t c) = inv t \<and> buckets (with_cnt t c) = buckets t \<and> bsize (with_cnt t c) = bsize t \<and>
      get (with_cnt t c) = get t \<and> alt (with_cnt t c) = alt t \<and> home (with_cnt t c) = home t \<and> fpr (with_cnt t c) = fpr t"
begin

text \<open>What the filter keeps of a hash, and the invariant: the counter is the number of items.\<close>

definition item :: "'t \<Rightarrow> 'h \<Rightarrow> nat \<times> u32" where
  "item t h = item_of (alt t) (home t h) (fpr t h)"

definition counted :: "'t \<Rightarrow> bool" where
  "counted t \<longleftrightarrow> inv t \<and> unat (cnt t) = size (items t)"

definition added :: "'t \<Rightarrow> nat \<times> u32 \<Rightarrow> 't \<Rightarrow> bool" where
  "added t x t' \<longleftrightarrow> inv t' \<and> items t' = add_mset x (items t) \<and> cnt t' = cnt t + 1 \<and> item t' = item t"

definition removed :: "'t \<Rightarrow> nat \<times> u32 \<Rightarrow> 't \<Rightarrow> bool" where
  "removed t x t' \<longleftrightarrow> inv t' \<and> items t = add_mset x (items t') \<and> cnt t' = cnt t - 1 \<and> item t' = item t"

definition search :: "'t \<Rightarrow> nat \<Rightarrow> u32 \<Rightarrow> nat option" where
  "search t b v = find (\<lambda>k. get t (b * bsize t + k) = v) [0..<bsize t]"

definition lookup_op :: "'t \<Rightarrow> 'h \<Rightarrow> bool" where
  "lookup_op t h \<longleftrightarrow> search t (home t h) (fpr t h) \<noteq> None \<or> search t (alt t (home t h) (fpr t h)) (fpr t h) \<noteq> None"

definition clear_at :: "'t \<Rightarrow> nat \<Rightarrow> 't" where
  "clear_at t i = with_cnt (put t i 0) (cnt t - 1)"

definition delete_op :: "'t \<Rightarrow> 'h \<Rightarrow> 't option" where
  "delete_op t h =
     (case search t (home t h) (fpr t h) of
        Some k \<Rightarrow> Some (clear_at t (home t h * bsize t + k))
      | None \<Rightarrow>
          (case search t (alt t (home t h) (fpr t h)) (fpr t h) of
             Some k \<Rightarrow> Some (clear_at t (alt t (home t h) (fpr t h) * bsize t + k))
           | None \<Rightarrow> None))"

lemma items_with_cnt [simp]: "items (with_cnt t c) = items t"
  using with_cnt_frame [of t c] by (simp add: items_def)

lemma item_frame [simp]:
  "item (with_cnt t c) = item t" "inv t \<Longrightarrow> i < buckets t * bsize t \<Longrightarrow> fits t v \<Longrightarrow> item (put t i v) = item t"
  using with_cnt_frame [of t c] put_home [of t i v] put_frame [of t i v] by (auto simp: item_def [abs_def])

lemma searchD:
  assumes "search t b v = Some k"
  shows "k < bsize t" "get t (b * bsize t + k) = v"
  using assms by (auto simp: search_def dest!: find_upt_Some)

lemma search_None: "search t b v = None \<longleftrightarrow> (\<forall>k < bsize t. get t (b * bsize t + k) \<noteq> v)"
  by (simp add: search_def find_upt_None)

lemma added_counted:
  assumes "counted t" "added t x t'"
  shows "counted t'"
proof -
  have a: "inv t'" "items t' = add_mset x (items t)" "cnt t' = cnt t + 1" using assms(2) by (simp_all add: added_def)
  then have "size (items t) + 1 < 2 ^ 32" using items_size [of t'] size_bound [OF a(1)] by simp
  then have "unat (cnt t + 1) = unat (cnt t) + 1" using assms(1) by (simp add: counted_def unat_word_ariths)
  then show ?thesis using a assms(1) by (simp add: counted_def)
qed

lemma removed_counted:
  assumes "counted t" "removed t x t'"
  shows "counted t'"
proof -
  have a: "inv t'" "items t = add_mset x (items t')" "cnt t' = cnt t - 1" using assms(2) by (simp_all add: removed_def)
  then have "unat (cnt t) = Suc (size (items t'))" using assms(1) by (simp add: counted_def)
  moreover from this have "cnt t \<noteq> 0" by auto
  ultimately show ?thesis using a by (simp add: counted_def unat_minus_one)
qed

lemma place_added:
  assumes "inv t" "b < buckets t" "search t b 0 = Some k" "fits t v" "v \<noteq> 0"
  shows "added t (item_of (alt t) b v) (with_cnt (put t (b * bsize t + k) v) (cnt t + 1))"
proof -
  note k = searchD [OF assms(3)]
  note i = slot_less [OF assms(2) k(1)]
  show ?thesis
    using place_items [OF assms(1,2) k assms(4,5)] put_frame [OF assms(1) i assms(4)] with_cnt_frame assms(1,4) i
    by (simp add: added_def cnt_with)
qed

lemma move_added:
  assumes "inv t" "b < buckets t" "k < bsize t" "get t (b * bsize t + k) = w" "w \<noteq> 0"
    and "search t (alt t b w) 0 = Some s" "fits t v" "v \<noteq> 0"
  shows "added t (item_of (alt t) b v)
    (with_cnt (put (put t (alt t b w * bsize t + s) w) (b * bsize t + k) v) (cnt t + 1))"
proof -
  note s = searchD [OF assms(6)]
  note m = move_items [OF assms(1-5) s assms(7,8)]
  have "item (put (put t (alt t b w * bsize t + s) w) (b * bsize t + k) v) = item t"
    using m put_home by (auto simp: item_def [abs_def])
  then show ?thesis using m with_cnt_frame by (simp add: added_def cnt_with)
qed

text \<open>One eviction: the next state, the fingerprint in hand and its other bucket.\<close>

lemma kick_step:
  assumes "inv t" "b < buckets t" "k < bsize t" "fits t v" "v \<noteq> 0"
    and "\<forall>k < bsize t. get t (b * bsize t + k) \<noteq> 0" "undoes t tr t0"
  defines "i \<equiv> b * bsize t + k"
  defines "w \<equiv> get t i"
  defines "t1 \<equiv> put t i v"
  shows "inv t1" "alt t b w < buckets t1" "fits t1 w" "w \<noteq> 0" "undoes t1 ((i, w) # tr) t0"
    "added t1 (item_of (alt t1) (alt t b w) w) t' \<Longrightarrow> added t (item_of (alt t) b v) t'"
proof -
  have i: "i < buckets t * bsize t" using slot_less [OF assms(2,3)] by (simp add: i_def)
  have w: "w \<noteq> 0" "fits t w" using assms(3,6) get_fits [OF assms(1) i] by (simp_all add: w_def i_def)
  note f = put_frame [OF assms(1) i assms(4)]
  show "inv t1" "alt t b w < buckets t1" "fits t1 w" "w \<noteq> 0" using f w alt_less [OF assms(1,2)] by (simp_all add: t1_def)
  show "undoes t1 ((i, w) # tr) t0" using undo_kick [OF assms(1) i assms(4,7)] by (simp add: t1_def w_def)
  have "add_mset (item_of (alt t) (alt t b w) w) (items t1) = add_mset (item_of (alt t) b v) (items t)"
    using kick_items [OF assms(1-3) _ w(1) assms(4,5)] by (simp add: w_def i_def t1_def)
  then show "added t1 (item_of (alt t1) (alt t b w) w) t' \<Longrightarrow> added t (item_of (alt t) b v) t'"
    using f put_home [of t i v] item_frame(2) [OF assms(1) i assms(4)] by (simp add: added_def t1_def)
qed

lemma lookup_op_iff:
  assumes "inv t"
  shows "lookup_op t h \<longleftrightarrow> item t h \<in># items t"
  using member_iff [OF assms home_less [OF assms], of "fpr t h" h] fpr_ok [OF assms, of h]
  by (auto simp: lookup_op_def item_def search_None)

lemma clear_removed:
  assumes "inv t" "b < buckets t" "search t b v = Some k" "v \<noteq> 0"
  shows "removed t (item_of (alt t) b v) (clear_at t (b * bsize t + k))"
proof -
  note k = searchD [OF assms(3)]
  note i = slot_less [OF assms(2) k(1)]
  show ?thesis
    using clear_items [OF assms(1,2) k assms(4)] put_frame [OF assms(1) i zero_fits [OF assms(1)]] with_cnt_frame assms(1) i zero_fits
    by (simp add: removed_def clear_at_def cnt_with)
qed

lemma delete_op_ok:
  assumes "inv t"
  shows "if lookup_op t h then \<exists>t'. delete_op t h = Some t' \<and> removed t (item t h) t' else delete_op t h = None"
proof -
  note b = home_less [OF assms, of h] and v = conjunct2 [OF fpr_ok [OF assms, of h]]
  note a = alt_less [OF assms b, of "fpr t h"]
  show ?thesis
    using clear_removed [OF assms b _ v] clear_removed [OF assms a _ v] item_alt [OF assms b, of "fpr t h"]
    by (auto simp: lookup_op_def delete_op_def item_def split: option.split)
qed

text \<open>An empty filter has room in every bucket.\<close>

lemma empty_search:
  assumes "inv t" "items t = {#}" "b < buckets t"
  shows "search t b 0 \<noteq> None"
proof -
  have "b * bsize t < buckets t * bsize t" using assms(3) bsize_pos [OF assms(1)] by simp
  then have "get t (b * bsize t) = 0" using assms(2) in_bucket_items by (metis items_def empty_iff set_mset_empty)
  then have "get t (b * bsize t + 0) = 0" by simp
  then show ?thesis using bsize_pos [OF assms(1)] unfolding search_None by blast
qed

end

locale evicting_filter = bucket_filter +
  fixes add :: "'a \<Rightarrow> 'b \<Rightarrow> 'a option"
  assumes add_added: "inv t \<Longrightarrow> add t h = Some t' \<Longrightarrow> added t (item t h) t'"

sublocale evicting_filter \<subseteq> mf: multiset_filter counted items item add delete_op lookup_op
proof
  fix t h
  assume c: "counted t"
  then have i: "inv t" by (simp add: counted_def)
  show "lookup_op t h \<longleftrightarrow> item t h \<in># items t" by (rule lookup_op_iff [OF i])
  show "counted t' \<and> items t' = add_mset (item t h) (items t) \<and> item t' = item t" if "add t h = Some t'" for t'
    using add_added [OF i that] added_counted [OF c] by (auto simp: added_def)
  show "counted t' \<and> items t = add_mset (item t h) (items t') \<and> item t' = item t" if "delete_op t h = Some t'" for t'
    using delete_op_ok [OF i, of h] that removed_counted [OF c, of "item t h" t'] by (auto simp: removed_def split: if_splits)
  show "delete_op t h \<noteq> None" if "item t h \<in># items t"
    using delete_op_ok [OF i, of h] that lookup_op_iff [OF i, of h] by auto
qed

end
