(* ===== verification/Cuckoo_Spec.thy ===== *)
theory Cuckoo_Spec
  imports Cuckoo Buckets
begin

text \<open>
  Correctness of the cuckoo filter. The packed table provides \<open>bucket_table\<close>, so the filter is a
  multiset of items; insertion with its eviction chain and rollback, lookup and deletion then
  provide \<open>multiset_filter\<close>.
\<close>

unbundle bit_operations_syntax

section \<open>The shape\<close>

definition cuckoo_shape :: "cuckoo_filter \<Rightarrow> bool" where
  "cuckoo_shape cf \<longleftrightarrow>
     (\<exists>k \<le> 31. cf_num_buckets cf = 2 ^ k \<and> cf_bucket_mask cf = mask k) \<and>
     0 < cf_bucket_size cf \<and> cf_bucket_size cf \<le> 16 \<and> cf_num_buckets cf * cf_bucket_size cf < 2 ^ 32 \<and>
     cf_num_entries cf = cf_num_buckets cf * cf_bucket_size cf \<and>
     0 < cf_fingerprint_bits cf \<and> cf_fingerprint_bits cf \<le> 32 \<and> 0 < cf_entries_per_set cf \<and>
     cf_entries_per_set cf * cf_fingerprint_bits cf \<le> 512 \<and> cf_num_sets cf < 2 ^ 32 \<and>
     cf_num_entries cf \<le> cf_num_sets cf * cf_entries_per_set cf \<and> length (cf_table cf) = cf_num_sets cf * SET_WORDS"

lemma cuckoo_shapeD:
  assumes "cuckoo_shape cf"
  obtains k where "k \<le> 31" "cf_num_buckets cf = 2 ^ k" "cf_bucket_mask cf = mask k"
  using assms by (auto simp: cuckoo_shape_def)

lemma cuckoo_packed:
  assumes "cuckoo_shape cf"
  shows "packed_ok (cf_entries_per_set cf) (cf_fingerprint_bits cf) (cf_num_buckets cf * cf_bucket_size cf) (cf_table cf)"
proof -
  have "(i div cf_entries_per_set cf + 1) * SET_WORDS \<le> length (cf_table cf)" if "i < cf_num_buckets cf * cf_bucket_size cf" for i
  proof -
    have "i < cf_num_sets cf * cf_entries_per_set cf" using that assms by (simp add: cuckoo_shape_def)
    then have "i div cf_entries_per_set cf < cf_num_sets cf" by (simp add: less_mult_imp_div_less)
    then have "(i div cf_entries_per_set cf + 1) * SET_WORDS \<le> cf_num_sets cf * SET_WORDS" by (intro mult_le_mono1) simp
    then show ?thesis using assms by (simp add: cuckoo_shape_def)
  qed
  then show ?thesis using assms by (simp add: cuckoo_shape_def packed_ok_def)
qed

lemma cf_set_eq:
  assumes "cuckoo_shape cf" "i < cf_num_buckets cf * cf_bucket_size cf"
  shows "cf_set (i div cf_entries_per_set cf) = i div cf_entries_per_set cf * SET_WORDS"
proof -
  have "cf_num_buckets cf * cf_bucket_size cf < 2 ^ 32" using assms(1) by (simp add: cuckoo_shape_def)
  then have "i div cf_entries_per_set cf < 2 ^ 32" using assms(2) div_le_dividend [of i "cf_entries_per_set cf"] by linarith
  then show ?thesis by (simp add: cf_set_def sz_mul_def SET_WORDS_def)
qed

lemma cf_get_packed:
  assumes "cuckoo_shape cf" "i < cf_num_buckets cf * cf_bucket_size cf"
  shows "cf_get cf i = packed_get (cf_entries_per_set cf) (cf_fingerprint_bits cf) (cf_table cf) i"
  using cf_set_eq [OF assms] by (simp add: cf_get_def packed_get_def)

lemma cf_put_packed:
  assumes "cuckoo_shape cf" "i < cf_num_buckets cf * cf_bucket_size cf"
  shows "cf_set_entry cf i v = cf\<lparr>cf_table := packed_set (cf_entries_per_set cf) (cf_fingerprint_bits cf) (cf_table cf) i v\<rparr>"
  using cf_set_eq [OF assms] by (simp add: cf_set_entry_def packed_set_def)

lemma cf_put_frame [simp]:
  "cf_num_buckets (cf_set_entry cf i v) = cf_num_buckets cf" "cf_bucket_size (cf_set_entry cf i v) = cf_bucket_size cf"
  "cf_fingerprint_bits (cf_set_entry cf i v) = cf_fingerprint_bits cf" "cf_bucket_mask (cf_set_entry cf i v) = cf_bucket_mask cf"
  "cf_max_kicks (cf_set_entry cf i v) = cf_max_kicks cf" "cf_count (cf_set_entry cf i v) = cf_count cf"
  "cf_num_entries (cf_set_entry cf i v) = cf_num_entries cf" "cf_entries_per_set (cf_set_entry cf i v) = cf_entries_per_set cf"
  "cuckoo_shape (cf_set_entry cf i v) = cuckoo_shape cf"
  by (simp_all add: cf_set_entry_def Let_def cuckoo_shape_def)

section \<open>Candidate buckets\<close>

lemma mask_below: "k \<le> 31 \<Longrightarrow> b < 2 ^ k \<Longrightarrow> (word_of_nat b :: u64) AND ucast (mask k :: u32) = word_of_nat b"
proof -
  assume k: "k \<le> 31" "b < 2 ^ k"
  have "(2::nat) ^ k \<le> 2 ^ 31" using k(1) by (intro power_increasing) auto
  then have "b < 2 ^ 64" using k(2) by simp
  then have u: "unat (word_of_nat b :: u64) = b" by (rule unat_word_of_nat)
  have m: "(ucast (mask k :: u32) :: u64) = mask k" using k(1) by (intro bit_eqI) (auto simp: bit_simps)
  have "take_bit k (word_of_nat b :: u64) = word_of_nat b"
    using k(2) u by (metis take_bit_nat_eq_self unsigned_take_bit_eq unsigned_word_eqI)
  then show ?thesis using m by (simp add: take_bit_eq_mask)
qed

lemma masked_less: "k \<le> 31 \<Longrightarrow> unat ((w :: u64) AND ucast (mask k :: u32)) < 2 ^ k"
proof -
  assume k: "k \<le> 31"
  have "(ucast (mask k :: u32) :: u64) = mask k" using k by (intro bit_eqI) (auto simp: bit_simps)
  then have "w AND ucast (mask k :: u32) = take_bit k w" by (simp add: take_bit_eq_mask)
  then show ?thesis by (simp add: unsigned_take_bit_eq)
qed

lemma xor_mask_twice: "((((x :: u64) XOR h) AND m) XOR h) AND m = x AND m"
  by (rule bit_eqI) (auto simp: bit_simps)

lemma cuckoo_alt_less: "k \<le> 31 \<Longrightarrow> cuckoo_alt_index b v (mask k) < 2 ^ k"
  by (simp add: cuckoo_alt_index_def masked_less)

lemma cuckoo_alt_alt:
  assumes "k \<le> 31" "b < 2 ^ k"
  shows "cuckoo_alt_index (cuckoo_alt_index b v (mask k)) v (mask k) = b"
proof -
  have "(2::nat) ^ k \<le> 2 ^ 31" using assms(1) by (intro power_increasing) auto
  then have "b < 2 ^ 64" using assms(2) by simp
  then show ?thesis
    using mask_below [OF assms] xor_mask_twice unat_word_of_nat(1) [of b] by (simp add: cuckoo_alt_index_def)
qed

lemma cuckoo_fp_ok:
  assumes "0 < f" "f \<le> 32"
  shows "fp_fits f (cuckoo_fingerprint hash f)" "cuckoo_fingerprint hash f \<noteq> 0"
  using masked_fits [of f hash] one_fits [OF assms(1)]
  by (simp_all add: cuckoo_fingerprint_def fp_mask Let_def del: push_bit_of_1)

section \<open>The table of buckets\<close>

definition cuckoo_alt :: "cuckoo_filter \<Rightarrow> nat \<Rightarrow> u32 \<Rightarrow> nat" where
  "cuckoo_alt cf b v = cuckoo_alt_index b v (cf_bucket_mask cf)"

definition cuckoo_fits :: "cuckoo_filter \<Rightarrow> u32 \<Rightarrow> bool" where
  "cuckoo_fits cf = fp_fits (cf_fingerprint_bits cf)"

abbreviation cuckoo_slots :: "cuckoo_filter \<Rightarrow> nat" where
  "cuckoo_slots cf \<equiv> cf_num_buckets cf * cf_bucket_size cf"

interpretation cp: packed_store cuckoo_shape cuckoo_slots cf_entries_per_set cf_fingerprint_bits cf_table
  "\<lambda>cf ws. cf\<lparr>cf_table := ws\<rparr>" cf_get cf_set_entry
proof
  show "packed_ok (cf_entries_per_set t) (cf_fingerprint_bits t) (cuckoo_slots t) (cf_table t)" if "cuckoo_shape t" for t
    by (rule cuckoo_packed [OF that])
  show "cf_get t i = packed_get (cf_entries_per_set t) (cf_fingerprint_bits t) (cf_table t) i"
    if "cuckoo_shape t" "i < cuckoo_slots t" for t i by (rule cf_get_packed [OF that])
  show "cf_set_entry t i v = t\<lparr>cf_table := packed_set (cf_entries_per_set t) (cf_fingerprint_bits t) (cf_table t) i v\<rparr>"
    if "cuckoo_shape t" "i < cuckoo_slots t" for t i v by (rule cf_put_packed [OF that])
qed (simp_all add: cuckoo_shape_def)

section \<open>The filter\<close>

definition cuckoo_home :: "cuckoo_filter \<Rightarrow> u64 \<Rightarrow> nat" where
  "cuckoo_home cf hash = cuckoo_hash_index hash (cf_bucket_mask cf)"

definition cuckoo_fpr :: "cuckoo_filter \<Rightarrow> u64 \<Rightarrow> u32" where
  "cuckoo_fpr cf hash = cuckoo_fingerprint hash (cf_fingerprint_bits cf)"

interpretation cb: bucket_filter cuckoo_shape cf_num_buckets cf_bucket_size cf_get cf_set_entry cuckoo_fits cuckoo_alt
  cuckoo_home cuckoo_fpr cf_count "\<lambda>cf c. cf\<lparr>cf_count := c\<rparr>"
proof
  fix t :: cuckoo_filter and i j :: nat and v w :: u32
  assume t: "cuckoo_shape t"
  show "0 < cf_bucket_size t" using t by (simp add: cuckoo_shape_def)
  show "cuckoo_fits t 0" by (simp add: cuckoo_fits_def fp_fits_def)
  show "cuckoo_fits t (cf_get t i)" if "i < cuckoo_slots t" using cp.get_fits [OF t that] by (simp add: cuckoo_fits_def)
  show "cf_get (cf_set_entry t i v) j = (if i = j then v else cf_get t j)"
    if "i < cuckoo_slots t" "j < cuckoo_slots t" "cuckoo_fits t v" using cp.get_put [OF t that(1,2)] that(3) by (simp add: cuckoo_fits_def)
  show "cf_set_entry (cf_set_entry t i v) i w = cf_set_entry t i w" if "i < cuckoo_slots t" "cuckoo_fits t v" "cuckoo_fits t w"
    using cp.put_put [OF t that(1)] that(2,3) by (simp add: cuckoo_fits_def)
  show "cf_set_entry t i (cf_get t i) = t" if "i < cuckoo_slots t" by (rule cp.put_get [OF t that])
  show "cuckoo_shape (cf_set_entry t i v) \<and> cf_num_buckets (cf_set_entry t i v) = cf_num_buckets t \<and>
      cf_bucket_size (cf_set_entry t i v) = cf_bucket_size t \<and> cuckoo_fits (cf_set_entry t i v) = cuckoo_fits t \<and>
      cuckoo_alt (cf_set_entry t i v) = cuckoo_alt t"
    using t by (simp add: cuckoo_fits_def [abs_def] cuckoo_alt_def [abs_def])
  obtain k where k: "k \<le> 31" "cf_num_buckets t = 2 ^ k" "cf_bucket_mask t = mask k" using cuckoo_shapeD [OF t] .
  show "cuckoo_alt t b v < cf_num_buckets t" for b using cuckoo_alt_less k by (simp add: cuckoo_alt_def)
  show "cuckoo_alt t (cuckoo_alt t b v) v = b" if "b < cf_num_buckets t" for b
    using cuckoo_alt_alt [OF k(1)] that k(2,3) by (simp add: cuckoo_alt_def)
next
  show "cuckoo_slots t < 2 ^ 32" if "cuckoo_shape t" for t using that by (simp add: cuckoo_shape_def)
  show "cuckoo_home t h < cf_num_buckets t" if "cuckoo_shape t" for t h
    using cuckoo_shapeD [OF that] masked_less by (metis cuckoo_hash_index_def cuckoo_home_def)
  show "cuckoo_fits t (cuckoo_fpr t h) \<and> cuckoo_fpr t h \<noteq> 0" if "cuckoo_shape t" for t h
    using cuckoo_fp_ok [of "cf_fingerprint_bits t" h] that by (simp add: cuckoo_fits_def cuckoo_fpr_def cuckoo_shape_def)
qed (simp_all add: cuckoo_home_def [abs_def] cuckoo_fpr_def [abs_def] cuckoo_shape_def cuckoo_alt_def [abs_def] cf_get_def [abs_def])

text \<open>The abstract filter, the item of a hash, and the invariant.\<close>

definition cuckoo_items :: "cuckoo_filter \<Rightarrow> (nat \<times> u32) multiset" where
  "cuckoo_items cf = bucket_items (cuckoo_alt cf) (cf_bucket_size cf) (cf_get cf) (cuckoo_slots cf)"

definition cuckoo_item :: "cuckoo_filter \<Rightarrow> u64 \<Rightarrow> nat \<times> u32" where
  "cuckoo_item cf hash = item_of (cuckoo_alt cf) (cuckoo_home cf hash) (cuckoo_fpr cf hash)"

definition cuckoo_inv :: "cuckoo_filter \<Rightarrow> bool" where
  "cuckoo_inv cf \<longleftrightarrow> cuckoo_shape cf \<and> unat (cf_count cf) = size (cuckoo_items cf)"

lemma cuckoo_abs: "cb.items = cuckoo_items" "cb.item = cuckoo_item" "cb.counted = cuckoo_inv"
  by (simp_all add: cb.items_def [abs_def] cb.item_def [abs_def] cb.counted_def [abs_def] cuckoo_items_def [abs_def]
      cuckoo_item_def [abs_def] cuckoo_inv_def [abs_def])

lemma bucket_base:
  assumes "cuckoo_shape cf" "b < cf_num_buckets cf"
  shows "sz_mul b (cf_bucket_size cf) = b * cf_bucket_size cf"
proof -
  have "b * cf_bucket_size cf \<le> cuckoo_slots cf" using assms(2) by simp
  also have "\<dots> < 2 ^ 32" using assms(1) by (simp add: cuckoo_shape_def)
  finally show ?thesis by (simp add: sz_mul_def)
qed

lemma cuckoo_search:
  assumes "cuckoo_shape cf" "b < cf_num_buckets cf"
  shows "find_fingerprint cf b v = cb.search cf b v" "find_empty_slot cf b = cb.search cf b 0"
  using bucket_base [OF assms] by (simp_all add: find_fingerprint_def find_empty_slot_def cb.search_def)

lemma place_ok:
  assumes "cuckoo_shape cf" "b < cf_num_buckets cf" "find_empty_slot cf b = Some slot" "cuckoo_fits cf v" "v \<noteq> 0"
  shows "\<exists>cf'. cf_place cf b slot v = (CUCKOO_OK, cf') \<and> cb.added cf (item_of (cuckoo_alt cf) b v) cf'"
  using cb.place_added [OF assms(1,2) _ assms(4,5), of slot] assms(3) cuckoo_search(2) [OF assms(1,2)] bucket_base [OF assms(1,2)]
  by (simp add: cf_place_def Let_def)

section \<open>Insertion\<close>

lemma kick_ok:
  assumes "cuckoo_shape cf" "b < cf_num_buckets cf" "cuckoo_fits cf v" "v \<noteq> 0"
    and "\<forall>k < cf_bucket_size cf. cf_get cf (b * cf_bucket_size cf + k) \<noteq> 0" "cb.undoes cf tr cf0"
  shows "(\<exists>cf'. cf_kick cf todo n b v tr = (CUCKOO_OK, cf') \<and> cb.added cf (item_of (cuckoo_alt cf) b v) cf') \<or>
    cf_kick cf todo n b v tr = (CUCKOO_ERR_FULL, cf0)"
  using assms
proof (induction todo arbitrary: cf n b v tr)
  case 0
  then show ?case by (simp add: cf_rollback_def cb.undoes_def)
next
  case (Suc todo)
  define k where "k = evict_slot n v (cf_bucket_size cf)"
  define i where "i = b * cf_bucket_size cf + k"
  define w where "w = cf_get cf i"
  define cf1 where "cf1 = cf_set_entry cf i v"
  define b' where "b' = cuckoo_alt cf b w"
  have k: "k < cf_bucket_size cf" using Suc.prems(1) evict_slot_less by (simp add: k_def cuckoo_shape_def)
  note st = cb.kick_step [OF Suc.prems(1,2) k Suc.prems(3-6), folded i_def, folded w_def cf1_def, folded b'_def]
  have base: "sz_mul b (cf_bucket_size cf) + evict_slot n v (cf_bucket_size cf) = i"
    using bucket_base [OF Suc.prems(1,2)] by (simp add: i_def k_def)
  have alt: "cuckoo_alt_index b w (cf_bucket_mask cf1) = b'" by (simp add: b'_def cuckoo_alt_def cf1_def)
  have eq: "cf_kick cf (Suc todo) n b v tr = (case find_empty_slot cf1 b' of
      Some slot \<Rightarrow> cf_place cf1 b' slot w | None \<Rightarrow> cf_kick cf1 todo (Suc n) b' w ((i, w) # tr))"
    unfolding cf_kick.simps Let_def base w_def [symmetric] cf1_def [symmetric] alt by (rule refl)
  show ?case
  proof (cases "find_empty_slot cf1 b'")
    case None
    then have "\<forall>k < cf_bucket_size cf1. cf_get cf1 (b' * cf_bucket_size cf1 + k) \<noteq> 0"
      using cuckoo_search(2) [OF st(1,2)] by (simp add: cb.search_None)
    from Suc.IH [OF st(1-4) this st(5), of "Suc n"] show ?thesis using eq None st(6) by auto
  next
    case (Some slot)
    then show ?thesis using place_ok [OF st(1,2) Some st(3,4)] eq st(6) by auto
  qed
qed

lemma cuckoo_insert_ok:
  assumes sh: "cuckoo_shape cf"
  shows "(\<exists>cf'. cuckoo_filter_insert cf hash = (CUCKOO_OK, cf') \<and> cb.added cf (cuckoo_item cf hash) cf') \<or>
    cuckoo_filter_insert cf hash = (CUCKOO_ERR_FULL, cf)"
proof -
  define fp where "fp = cuckoo_fpr cf hash"
  define b1 where "b1 = cuckoo_home cf hash"
  define b2 where "b2 = cuckoo_alt cf b1 fp"
  have b1: "b1 < cf_num_buckets cf" using cb.home_less [OF sh] by (simp add: b1_def)
  have b2: "b2 < cf_num_buckets cf" using cb.alt_less [OF sh b1] by (simp add: b2_def)
  have fp: "cuckoo_fits cf fp" "fp \<noteq> 0" using cb.fpr_ok [OF sh] by (simp_all add: fp_def)
  have it: "item_of (cuckoo_alt cf) b1 fp = cuckoo_item cf hash" "item_of (cuckoo_alt cf) b2 fp = cuckoo_item cf hash"
    using cb.item_alt [OF sh b1] by (simp_all add: cuckoo_item_def b1_def fp_def b2_def)
  have eq: "cuckoo_filter_insert cf hash = (case find_empty_slot cf b1 of
      Some slot \<Rightarrow> cf_place cf b1 slot fp
    | None \<Rightarrow> (case find_empty_slot cf b2 of
        Some slot \<Rightarrow> cf_place cf b2 slot fp
      | None \<Rightarrow> cf_kick cf (cf_max_kicks cf) 0 (if odd (b1 + b2) then b1 else b2) fp []))"
    unfolding cuckoo_filter_insert_def Let_def b1_def fp_def b2_def cuckoo_alt_def cuckoo_home_def cuckoo_fpr_def by (rule refl)
  show ?thesis
  proof (cases "find_empty_slot cf b1")
    case (Some slot)
    then show ?thesis using place_ok [OF sh b1 Some fp] eq it by simp
  next
    case none1: None
    show ?thesis
    proof (cases "find_empty_slot cf b2")
      case (Some slot)
      then show ?thesis using place_ok [OF sh b2 Some fp] eq none1 it by simp
    next
      case None
      define b where "b = (if odd (b1 + b2) then b1 else b2)"
      have b: "b < cf_num_buckets cf" "item_of (cuckoo_alt cf) b fp = cuckoo_item cf hash" "find_empty_slot cf b = None"
        using b1 b2 it none1 None by (simp_all add: b_def)
      have full: "\<forall>k < cf_bucket_size cf. cf_get cf (b * cf_bucket_size cf + k) \<noteq> 0"
        using b(3) unfolding cuckoo_search(2) [OF sh b(1)] cb.search_None .
      have "cb.undoes cf [] cf" by (simp add: cb.undoes_def)
      note kick = kick_ok [OF sh b(1) fp full this, of "cf_max_kicks cf" 0]
      have "cuckoo_filter_insert cf hash = cf_kick cf (cf_max_kicks cf) 0 b fp []" using none1 None unfolding eq b_def by simp
      then show ?thesis using kick b(2) by simp
    qed
  qed
qed

section \<open>The filter interface\<close>

definition cuckoo_add :: "cuckoo_filter \<Rightarrow> u64 \<Rightarrow> cuckoo_filter option" where
  "cuckoo_add cf hash = (case cuckoo_filter_insert cf hash of (e, cf') \<Rightarrow> if e = CUCKOO_OK then Some cf' else None)"

definition cuckoo_remove :: "cuckoo_filter \<Rightarrow> u64 \<Rightarrow> cuckoo_filter option" where
  "cuckoo_remove cf hash = (case cuckoo_filter_delete cf hash of (e, cf') \<Rightarrow> if e = CUCKOO_OK then Some cf' else None)"

interpretation ce: evicting_filter cuckoo_shape cf_num_buckets cf_bucket_size cf_get cf_set_entry cuckoo_fits cuckoo_alt
  cuckoo_home cuckoo_fpr cf_count "\<lambda>cf c. cf\<lparr>cf_count := c\<rparr>" cuckoo_add
proof
  show "cb.added t (cb.item t h) t'" if "cuckoo_shape t" "cuckoo_add t h = Some t'" for t h t'
    using cuckoo_insert_ok [OF that(1), of h] that(2) by (auto simp: cuckoo_add_def cuckoo_abs)
qed

lemma cuckoo_lookup_eq:
  assumes "cuckoo_shape cf"
  shows "cuckoo_filter_lookup cf hash = cb.lookup_op cf hash"
  using cuckoo_search(1) [OF assms] cb.home_less [OF assms, of hash] cb.alt_less [OF assms cb.home_less [OF assms, of hash], of "cuckoo_fpr cf hash"]
  by (simp add: cuckoo_filter_lookup_def cb.lookup_op_def cuckoo_home_def cuckoo_fpr_def cuckoo_alt_def Let_def)

lemma cuckoo_delete_eq:
  assumes sh: "cuckoo_shape cf"
  shows "cuckoo_filter_delete cf hash = (case cb.delete_op cf hash of Some cf' \<Rightarrow> (CUCKOO_OK, cf') | None \<Rightarrow> (CUCKOO_ERR_NOT_FOUND, cf))"
proof -
  note b = cb.home_less [OF sh, of hash]
  note a = cb.alt_less [OF sh b, of "cuckoo_fpr cf hash"]
  show ?thesis
    using cuckoo_search(1) [OF sh b] cuckoo_search(1) [OF sh a] bucket_base [OF sh b] bucket_base [OF sh a]
    unfolding cuckoo_filter_delete_def Let_def cuckoo_fpr_def [symmetric] cuckoo_home_def [symmetric] cuckoo_alt_def [symmetric]
    by (simp add: cb.delete_op_def cb.clear_at_def split: option.split)
qed

lemma cuckoo_remove_eq: "cuckoo_shape cf \<Longrightarrow> cuckoo_remove cf hash = cb.delete_op cf hash"
  by (simp add: cuckoo_remove_def cuckoo_delete_eq split: option.split)

interpretation cuckoo: multiset_filter cuckoo_inv cuckoo_items cuckoo_item cuckoo_add cuckoo_remove cuckoo_filter_lookup
proof
  fix cf :: cuckoo_filter and hash
  assume inv: "cuckoo_inv cf"
  then have sh: "cuckoo_shape cf" by (simp add: cuckoo_inv_def)
  show "cuckoo_filter_lookup cf hash \<longleftrightarrow> cuckoo_item cf hash \<in># cuckoo_items cf"
    using ce.mf.lookup_iff [of cf hash] inv cuckoo_lookup_eq [OF sh] by (simp add: cuckoo_abs)
  show "cuckoo_inv cf' \<and> cuckoo_items cf' = add_mset (cuckoo_item cf hash) (cuckoo_items cf) \<and> cuckoo_item cf' = cuckoo_item cf"
    if "cuckoo_add cf hash = Some cf'" for cf' using ce.mf.add_spec [of cf hash cf'] inv that by (simp add: cuckoo_abs)
  show "cuckoo_inv cf' \<and> cuckoo_items cf = add_mset (cuckoo_item cf hash) (cuckoo_items cf') \<and> cuckoo_item cf' = cuckoo_item cf"
    if "cuckoo_remove cf hash = Some cf'" for cf'
    using ce.mf.remove_spec [of cf hash cf'] inv that cuckoo_remove_eq [OF sh] by (simp add: cuckoo_abs)
  show "cuckoo_remove cf hash \<noteq> None" if "cuckoo_item cf hash \<in># cuckoo_items cf"
    using ce.mf.remove_total [of cf hash] inv that cuckoo_remove_eq [OF sh] by (simp add: cuckoo_abs)
qed

section \<open>Creation and reset\<close>

lemma empty_filter:
  assumes "cuckoo_shape cf" "cf_table cf = replicate n 0" "cf_count cf = 0"
  shows "cuckoo_inv cf" "cuckoo_items cf = {#}"
proof -
  have "cf_get cf i = 0" if "i < cuckoo_slots cf" for i by (rule cp.get_zeros [OF assms(1) that assms(2)])
  then show "cuckoo_items cf = {#}" using cb.zero_items [of cf] by (simp add: cuckoo_abs)
  then show "cuckoo_inv cf" using assms by (simp add: cuckoo_inv_def)
qed

lemma cuckoo_reset_ok:
  assumes "cuckoo_shape cf"
  shows "cuckoo_inv (cuckoo_filter_reset cf)" "cuckoo_items (cuckoo_filter_reset cf) = {#}" "cuckoo_item (cuckoo_filter_reset cf) = cuckoo_item cf"
proof -
  have t: "cuckoo_filter_reset cf = cf\<lparr>cf_table := replicate (cf_num_sets cf * SET_WORDS) 0, cf_count := 0\<rparr>"
    using assms by (simp add: cuckoo_filter_reset_def cuckoo_shape_def)
  have "cuckoo_shape (cuckoo_filter_reset cf)" using assms by (simp add: t cuckoo_shape_def)
  moreover have "cf_table (cuckoo_filter_reset cf) = replicate (cf_num_sets cf * SET_WORDS) 0" "cf_count (cuckoo_filter_reset cf) = 0"
    by (simp_all add: t)
  ultimately show "cuckoo_inv (cuckoo_filter_reset cf)" "cuckoo_items (cuckoo_filter_reset cf) = {#}" by (rule empty_filter)+
  show "cuckoo_item (cuckoo_filter_reset cf) = cuckoo_item cf" by (simp add: t cuckoo_item_def [abs_def] cuckoo_alt_def [abs_def] cuckoo_home_def [abs_def] cuckoo_fpr_def [abs_def])
qed

lemma cuckoo_total_bounds:
  assumes "0 < capacity"
  shows "capacity \<le> cuckoo_total_entries capacity" "cuckoo_total_entries capacity \<le> 2 * capacity"
proof -
  define c where "c = (of_nat capacity :: rat)"
  define q where "q = dround (dround c / dround (95 / 100))"
  have c: "1 \<le> c" using assms by (simp add: c_def)
  then have "q \<le> c / (95 / 100) * (101 / 100)" "c / (95 / 100) * (99 / 100) \<le> q"
    using double_quotient [of c "95 / 100"] by (simp_all add: q_def)
  then have q: "c \<le> q" "q \<le> c * (1064 / 1000)" using c by simp_all
  have t: "cuckoo_total_entries capacity = nat \<lceil>q\<rceil>" by (simp add: cuckoo_total_entries_def q_def c_def)
  have "of_nat capacity \<le> (of_int \<lceil>q\<rceil> :: rat)" using q(1) by (simp add: c_def) linarith
  then have "int capacity \<le> \<lceil>q\<rceil>" by linarith
  then show "capacity \<le> cuckoo_total_entries capacity" using t by simp
  show "cuckoo_total_entries capacity \<le> 2 * capacity"
  proof (cases "capacity = 1")
    case True
    then have "q \<le> 2" using q(2) by (simp add: c_def)
    then have "nat \<lceil>q\<rceil> \<le> 2" by linarith
    then show ?thesis unfolding t using True by linarith
  next
    case False
    then have "(2::rat) \<le> of_nat capacity" using assms by simp
    then have "q \<le> of_nat (2 * capacity)" using q(2) by (simp add: c_def)
    then have "\<lceil>q\<rceil> \<le> int (2 * capacity)" by linarith
    then show ?thesis using t by simp
  qed
qed

lemma cap_buckets_pow2:
  assumes "0 < bs" "bs \<le> 16" "k \<le> 40"
  shows "\<exists>j \<le> k. cap_buckets bs (2 ^ k) = 2 ^ j \<and> j \<le> 31 \<and> 2 ^ j * bs < 2 ^ 32 \<and> (2 ^ k * bs < 2 ^ 32 \<and> k \<le> 31 \<longrightarrow> j = k)"
  using assms(3)
proof (induction k)
  case 0
  have "cap_buckets bs 1 = 1" using assms by (subst cap_buckets.simps) (simp add: UINT32_MAX_def sz_mul_def)
  then show ?case using assms(2) by (intro exI [of _ 0]) simp
next
  case (Suc k)
  have "(2::nat) ^ Suc k * bs \<le> 2 ^ 40 * 16" using Suc.prems assms(2) by (intro mult_le_mono power_increasing) auto
  then have m: "sz_mul (2 ^ Suc k) bs = 2 ^ Suc k * bs" by (simp add: sz_mul_def)
  have u: "UINT32_MAX div 2 + 1 = 2 ^ 31" "x > UINT32_MAX \<longleftrightarrow> \<not> x < 2 ^ 32" for x by (auto simp: UINT32_MAX_def)
  show ?case
  proof (cases "2 ^ Suc k > UINT32_MAX div 2 + 1 \<or> sz_mul (2 ^ Suc k) bs > UINT32_MAX")
    case True
    then have "cap_buckets bs (2 ^ Suc k) = cap_buckets bs (2 ^ k)" by (subst cap_buckets.simps) simp
    moreover have "\<not> (2 ^ Suc k * bs < 2 ^ 32 \<and> Suc k \<le> 31)"
    proof
      assume a: "2 ^ Suc k * bs < 2 ^ 32 \<and> Suc k \<le> 31"
      then have "(2::nat) ^ Suc k \<le> 2 ^ 31" by (intro power_increasing) auto
      then show False using a True m u by (simp only: not_less) simp
    qed
    ultimately show ?thesis using Suc by (metis Suc_leD le_SucI)
  next
    case False
    then have c: "cap_buckets bs (2 ^ Suc k) = 2 ^ Suc k" by (subst cap_buckets.simps) simp
    have "(2::nat) ^ Suc k \<le> 2 ^ 31" "2 ^ Suc k * bs < 2 ^ 32" using False m u by (simp_all only: not_less de_Morgan_disj not_le)
    then have "Suc k \<le> 31" "2 ^ Suc k * bs < 2 ^ 32" by (simp_all only: power_increasing_iff)
    then show ?thesis using c by (intro exI [of _ "Suc k"]) simp
  qed
qed

lemma cuckoo_create_ok:
  assumes cr: "cuckoo_filter_create capacity bs8 fp8 mk8 a = Some cf"
  shows "cuckoo_inv cf \<and> cuckoo_items cf = {#} \<and> (capacity \<le> 2 ^ 29 \<longrightarrow> capacity \<le> cf_num_entries cf)"
proof -
  define bs where "bs = unat (if bs8 = 0 then 4 else bs8)"
  define fp where "fp = unat (if fp8 = 0 then 10 else fp8)"
  define total where "total = cuckoo_total_entries capacity"
  define n0 where "n0 = sz_sub (sz_add total bs) 1 div bs"
  define nb0 where "nb0 = unat (next_power_of_2 (word_of_nat n0))"
  define nb where "nb = cap_buckets bs (if nb0 < 1 then 1 else nb0)"
  define eps where "eps = 512 div fp"
  define ne where "ne = sz_mul nb bs"
  define ns where "ns = sz_sub (sz_add ne eps) 1 div eps"
  have g: "0 < capacity" "0 < bs" "bs \<le> 16" "0 < fp" "fp \<le> 32" "capacity < 2 ^ 32"
    using cr by (auto simp: cuckoo_filter_create_def bs_def [symmetric] fp_def [symmetric] Let_def UINT32_MAX_def split: if_splits)
  have tb: "capacity \<le> total" "total \<le> 2 * capacity" using cuckoo_total_bounds [OF g(1)] by (simp_all add: total_def)
  have n0: "n0 = (total + bs - 1) div bs" using tb g sz_sub_small [of 1 "total + bs"] by (simp add: n0_def sz_add_small)
  note cd = ceil_div [OF g(2), of total]
  have b0: "total \<le> n0 * bs" "n0 \<le> total" "0 < n0" using cd tb g(1) by (simp_all add: n0)
  have n0lt: "n0 < 2 ^ 34" using b0(2) tb(2) g(6) by simp
  then have u: "unat (word_of_nat n0 :: u64) = n0" by (intro unat_word_of_nat) simp
  have w: "0 < (word_of_nat n0 :: u64)" "word_of_nat n0 \<le> (push_bit 62 1 :: u64)"
    using b0(3) n0lt u by (simp_all add: word_less_nat_alt word_le_nat_alt)
  obtain k where k: "k \<le> 62" "smear (word_of_nat n0 - 1) + 1 = (push_bit k 1 :: u64)" "n0 \<le> 2 ^ k" "\<not> k > 34" "k = 0 \<or> 2 ^ (k - 1) < n0"
  proof -
    obtain k where k: "k \<le> 62" "smear (word_of_nat n0 - 1) + 1 = (push_bit k 1 :: u64)" "n0 \<le> 2 ^ k" "k = 0 \<or> 2 ^ (k - 1) < n0"
      using smear_pred [OF w] u by auto
    have "\<not> k > 34"
    proof
      assume "k > 34"
      then have "(2::nat) ^ 34 \<le> 2 ^ (k - 1)" by (intro power_increasing) auto
      then show False using k(4) \<open>k > 34\<close> n0lt by auto
    qed
    then show ?thesis using that k by blast
  qed
  have "next_power_of_2 (word_of_nat n0) = push_bit k 1" using w(1) k(2) by (auto simp: next_power_of_2_def)
  then have nb0: "nb0 = 2 ^ k" using k(1) unat_pow2_u64 [of k] by (simp add: nb0_def)
  then have nbk: "nb = cap_buckets bs (2 ^ k)" by (simp add: nb_def)
  obtain j where j: "j \<le> k" "nb = 2 ^ j" "j \<le> 31" "2 ^ j * bs < 2 ^ 32" "2 ^ k * bs < 2 ^ 32 \<and> k \<le> 31 \<longrightarrow> j = k"
    using cap_buckets_pow2 [OF g(2,3), of k] k(4) nbk by auto
  have ne: "ne = nb * bs" "0 < ne" "ne < 2 ^ 32" using j g(2) by (simp_all add: ne_def sz_mul_def)
  have eps: "16 \<le> eps" "eps \<le> 512" "eps * fp \<le> 512"
  proof -
    show "16 \<le> eps" using g(4,5) by (simp add: eps_def less_eq_div_iff_mult_less_eq)
    show "eps \<le> 512" "eps * fp \<le> 512" by (simp_all add: eps_def)
  qed
  have ns: "ns = (ne + eps - 1) div eps" using ne eps sz_sub_small [of 1 "ne + eps"] by (simp add: ns_def sz_add_small)
  have nsb: "ne \<le> ns * eps" "ns \<le> ne" using ceil_div [of eps ne] eps(1) ne(2) by (simp_all add: ns)
  have "(2::nat) ^ j \<le> 2 ^ 31" using j(3) by (intro power_increasing) auto
  then have nblt: "1 \<le> nb" "nb < 2 ^ 32" using j(2) by simp_all
  then have pred: "sz_sub nb 1 = nb - 1" using sz_sub_small [of 1 nb] by simp
  have m: "(word_of_nat (2 ^ j - 1) :: u32) = mask j" by (simp add: mask_eq_exp_minus_1 of_nat_diff)
  note cr' = cr [unfolded cuckoo_filter_create_def Let_def, folded bs_def fp_def total_def, folded n0_def, folded nb0_def,
      folded nb_def eps_def, folded ne_def, folded ns_def]
  have f: "cf_num_entries cf = ne" "cf_count cf = 0" "cf_num_buckets cf = nb" "cf_entries_per_set cf = eps" "cf_num_sets cf = ns"
    "cf_fingerprint_bits cf = fp" "cf_bucket_size cf = bs" "cf_bucket_mask cf = word_of_nat (nb - 1)" "cf_table cf = replicate (ns * SET_WORDS) 0"
    using cr' ne(2,3) nsb eps nblt by (auto simp: pred [unfolded One_nat_def] split: if_splits)
  have "cuckoo_shape cf" unfolding cuckoo_shape_def f using j g eps ne nsb m by auto
  then have e: "cuckoo_inv cf" "cuckoo_items cf = {#}" using empty_filter [OF _ f(9,2)] by simp_all
  have "capacity \<le> cf_num_entries cf" if "capacity \<le> 2 ^ 29"
  proof -
    have "2 ^ k \<le> 2 * n0" using k(5) b0(3) by (cases k) auto
    then have "2 ^ k * bs \<le> 2 * (n0 * bs)" by simp
    moreover have "n0 * bs \<le> total + bs - 1" by (simp add: n0)
    ultimately have "2 ^ k * bs \<le> 2 * (total + bs - 1)" by linarith
    then have lt: "2 ^ k * bs < 2 ^ 32" using tb(2) g(3) that by simp
    have "(2::nat) ^ k \<le> 2 ^ k * bs" using g(2) by simp
    then have "(2::nat) ^ k < 2 ^ 32" using lt by linarith
    then have "k < 32" by (rule power_less_imp_less_exp [rotated]) simp
    then have "j = k" using j(5) lt by simp
    then have "n0 * bs \<le> ne" using ne(1) j(2) k(3) by simp
    then show ?thesis using tb(1) b0(1) f(1) by linarith
  qed
  then show ?thesis using e by simp
qed

section \<open>Properties\<close>

definition ex_cuckoo :: cuckoo_filter where
  "ex_cuckoo = \<lparr>cf_num_entries = 4, cf_count = 0, cf_num_buckets = 2, cf_entries_per_set = 51, cf_num_sets = 1,
     cf_fingerprint_bits = 10, cf_bucket_size = 2, cf_max_kicks = 3, cf_bucket_mask = 1, cf_table = replicate 8 0\<rparr>"

lemma ex_cuckoo_shape: "cuckoo_shape ex_cuckoo"
proof -
  have "(1 :: u32) = mask 1" by (simp add: mask_eq_exp_minus_1)
  then have "\<exists>k \<le> 31. (2 :: nat) = 2 ^ k \<and> (1 :: u32) = mask k" by (intro exI [of _ 1]) simp
  then show ?thesis by (simp add: cuckoo_shape_def ex_cuckoo_def SET_WORDS_def)
qed

lemma ex_cuckoo_inv: "cuckoo_inv ex_cuckoo" "cuckoo_items ex_cuckoo = {#}"
  using empty_filter [OF ex_cuckoo_shape, of 8] by (simp_all add: ex_cuckoo_def)

lemma cap_buckets_fits: "sz_mul (cap_buckets bs n) bs \<le> UINT32_MAX"
proof (induction bs n rule: cap_buckets.induct)
  case (1 bs n)
  then show ?case by (subst cap_buckets.simps) auto
qed

lemma ex_cuckoo_create: "\<exists>cf. cuckoo_filter_create 10 4 10 0 True = Some cf"
proof -
  have small: "sz_sub (sz_add e 51) 1 div 51 \<le> (SIZE_MAX - 32) div 64" if "e \<le> UINT32_MAX" for e
    using that sz_sub_small [of 1 "e + 51"] by (simp add: sz_add_small UINT32_MAX_def SIZE_MAX_def)
  have "cuckoo_filter_create 10 4 10 0 True \<noteq> None"
    using small [OF cap_buckets_fits [of 4]] by (simp add: cuckoo_filter_create_def Let_def UINT32_MAX_def not_less [symmetric])
  then show ?thesis by blast
qed

text \<open>An empty filter takes every hash.\<close>

lemma empty_insert:
  assumes "cuckoo_inv cf" "cuckoo_items cf = {#}"
  shows "\<exists>cf'. cuckoo_add cf hash = Some cf'"
proof -
  have sh: "cuckoo_shape cf" using assms(1) by (simp add: cuckoo_inv_def)
  have b: "cuckoo_home cf hash < cf_num_buckets cf" using cb.home_less [OF sh] .
  obtain slot where "find_empty_slot cf (cuckoo_home cf hash) = Some slot"
    using cb.empty_search [OF sh _ b] assms(2) cuckoo_search(2) [OF sh b] by (auto simp: cuckoo_abs)
  then show ?thesis by (simp add: cuckoo_add_def cuckoo_filter_insert_def Let_def cuckoo_home_def cf_place_def)
qed

lemma ex_cuckoo_run: "\<exists>cf'. run_ops cuckoo_add cuckoo_remove ex_cuckoo [Ins h, Del h, Ins g] = Some cf'"
proof -
  obtain t where t: "cuckoo_add ex_cuckoo h = Some t" using empty_insert [OF ex_cuckoo_inv] by blast
  obtain u where u: "cuckoo_remove t h = Some u" "cuckoo_inv u" "cuckoo_items u = {#}"
    using cuckoo.add_remove [OF ex_cuckoo_inv(1) t] ex_cuckoo_inv(2) by auto
  obtain v where "cuckoo_add u g = Some v" using empty_insert [OF u(2,3)] by blast
  then show ?thesis using t u by simp
qed

text \<open>
  C23. Insertion. \<open>cuckoo_filter_insert\<close> either adds exactly the item of the hash, through whatever
  chain of evictions, and the hash is then found; or it reports \<open>CUCKOO_ERR_FULL\<close> and the rollback
  has restored the filter bit for bit.
\<close>

theorem cuckoo_insert_correct:
  assumes "cuckoo_inv cf"
  shows "(\<exists>cf'. cuckoo_filter_insert cf hash = (CUCKOO_OK, cf') \<and> cuckoo_inv cf' \<and>
      cuckoo_items cf' = add_mset (cuckoo_item cf hash) (cuckoo_items cf) \<and> cuckoo_filter_lookup cf' hash) \<or>
    cuckoo_filter_insert cf hash = (CUCKOO_ERR_FULL, cf)"
proof -
  have sh: "cuckoo_shape cf" using assms by (simp add: cuckoo_inv_def)
  have "\<exists>cf'. cuckoo_filter_insert cf hash = (CUCKOO_OK, cf') \<and> cuckoo_inv cf' \<and>
      cuckoo_items cf' = add_mset (cuckoo_item cf hash) (cuckoo_items cf) \<and> cuckoo_filter_lookup cf' hash"
    if "cuckoo_filter_insert cf hash = (CUCKOO_OK, cf')" for cf'
  proof -
    have "cuckoo_add cf hash = Some cf'" using that by (simp add: cuckoo_add_def)
    then show ?thesis using that cuckoo.add_spec [OF assms] cuckoo.amq.add_found [OF assms] by blast
  qed
  then show ?thesis using cuckoo_insert_ok [OF sh, of hash] by blast
qed

theorem cuckoo_insert_correct_witness:
  "cuckoo_inv ex_cuckoo \<and>
    ((\<exists>cf'. cuckoo_filter_insert ex_cuckoo 0x500000007 = (CUCKOO_OK, cf') \<and> cuckoo_inv cf' \<and>
      cuckoo_items cf' = add_mset (cuckoo_item ex_cuckoo 0x500000007) (cuckoo_items ex_cuckoo) \<and> cuckoo_filter_lookup cf' 0x500000007) \<or>
    cuckoo_filter_insert ex_cuckoo 0x500000007 = (CUCKOO_ERR_FULL, ex_cuckoo))"
  using cuckoo_insert_correct [OF ex_cuckoo_inv(1)] ex_cuckoo_inv(1) by blast

text \<open>
  C24. Histories. Run any sequence of insertions and deletions on an empty filter, each of them
  successful, where only hashes are deleted that are in the filter. Then the invariant holds, the counter is
  the number of hashes held, every hash held is found, and deleting any of them succeeds.
\<close>

theorem cuckoo_history_correct:
  assumes "cuckoo_inv cf" "cuckoo_items cf = {#}" "run_ops cuckoo_add cuckoo_remove cf ops = Some cf'" "run_keys {#} ops = Some M"
  shows "cuckoo_inv cf' \<and> cuckoo_filter_count cf' = size M \<and>
    (\<forall>hash \<in># M. cuckoo_filter_lookup cf' hash \<and> fst (cuckoo_filter_delete cf' hash) = CUCKOO_OK)"
proof -
  have r: "cuckoo_inv cf' \<and> cuckoo_items cf' = image_mset (cuckoo_item cf) M \<and> cuckoo_item cf' = cuckoo_item cf"
    using cuckoo.run_refines [OF assms(1) _ assms(3,4)] assms(2) by simp
  then have "cuckoo_filter_count cf' = size M" by (simp add: cuckoo_inv_def cuckoo_filter_count_def)
  moreover have "cuckoo_filter_lookup cf' hash" if "hash \<in># M" for hash using cuckoo.history_found [OF assms that] .
  moreover have "fst (cuckoo_filter_delete cf' hash) = CUCKOO_OK" if "cuckoo_filter_lookup cf' hash" for hash
    using cb.delete_op_ok [of cf' hash] cuckoo_delete_eq [of cf' hash] cuckoo_lookup_eq [of cf' hash] r that by (auto simp: cuckoo_inv_def)
  ultimately show ?thesis using r by blast
qed

theorem cuckoo_history_correct_witness:
  "\<exists>cf'. cuckoo_inv ex_cuckoo \<and> cuckoo_items ex_cuckoo = {#} \<and>
    run_ops cuckoo_add cuckoo_remove ex_cuckoo [Ins 0x500000007, Del 0x500000007, Ins 9] = Some cf' \<and>
    run_keys {#} [Ins 0x500000007, Del 0x500000007, Ins (9 :: u64)] = Some {#9#} \<and>
    cuckoo_inv cf' \<and> cuckoo_filter_count cf' = size {#9 :: u64#} \<and>
    (\<forall>hash \<in># {#9#}. cuckoo_filter_lookup cf' hash \<and> fst (cuckoo_filter_delete cf' hash) = CUCKOO_OK)"
proof -
  let ?ops = "[Ins 0x500000007, Del 0x500000007, Ins 9] :: u64 filter_op list"
  obtain cf' where cf': "run_ops cuckoo_add cuckoo_remove ex_cuckoo ?ops = Some cf'" using ex_cuckoo_run by blast
  have k: "run_keys {#} ?ops = Some {#9#}" by simp
  show ?thesis using cuckoo_history_correct [OF ex_cuckoo_inv cf' k] ex_cuckoo_inv cf' k by blast
qed

text \<open>
  Bit packing. Writing an entry of the packed table and reading any entry gives back the value
  for that entry and the old value for every other one, for every fingerprint width up to 32 bits
  and entries that straddle two words included.
\<close>

lemma cuckoo_entry_roundtrip:
  assumes "cuckoo_shape cf" "i < cf_num_entries cf" "j < cf_num_entries cf" "unat v < 2 ^ cf_fingerprint_bits cf"
  shows "cf_get (cf_set_entry cf i v) j = (if i = j then v else cf_get cf j)"
  using cb.get_put [OF assms(1), of i j v] assms by (simp add: cuckoo_shape_def cuckoo_fits_def fp_fits_def)

lemma cuckoo_entry_roundtrip_witness:
  "cuckoo_shape ex_cuckoo \<and> 3 < cf_num_entries ex_cuckoo \<and> 2 < cf_num_entries ex_cuckoo \<and>
    unat (1000 :: u32) < 2 ^ cf_fingerprint_bits ex_cuckoo \<and>
    cf_get (cf_set_entry ex_cuckoo 3 1000) 2 = (if (3 :: nat) = 2 then 1000 else cf_get ex_cuckoo 2)"
proof -
  have h: "3 < cf_num_entries ex_cuckoo" "2 < cf_num_entries ex_cuckoo" "unat (1000 :: u32) < 2 ^ cf_fingerprint_bits ex_cuckoo"
    by (simp_all add: ex_cuckoo_def)
  show ?thesis using cuckoo_entry_roundtrip [OF ex_cuckoo_shape h] ex_cuckoo_shape h by blast
qed

text \<open>
  Creation. Whatever the arguments, a filter that \<open>cuckoo_filter_create\<close> returns is empty and
  satisfies the invariant (a power-of-two number of buckets, all derived values inside their
  fields, a table large enough for its entries), and up to \<open>2 ^ 29\<close> it has room for the requested
  number of items.
\<close>

lemma cuckoo_create_correct:
  assumes "cuckoo_filter_create capacity bucket_size fp_bits max_kicks a = Some cf"
  shows "cuckoo_inv cf \<and> cuckoo_items cf = {#} \<and> (capacity \<le> 2 ^ 29 \<longrightarrow> capacity \<le> cuckoo_filter_capacity cf)"
  using cuckoo_create_ok [OF assms] by (simp add: cuckoo_filter_capacity_def)

lemma cuckoo_create_correct_witness:
  "\<exists>cf. cuckoo_filter_create 10 4 10 0 True = Some cf \<and> cuckoo_inv cf \<and> cuckoo_items cf = {#} \<and> 10 \<le> cuckoo_filter_capacity cf"
proof -
  obtain cf where "cuckoo_filter_create 10 4 10 0 True = Some cf" using ex_cuckoo_create by blast
  then show ?thesis using cuckoo_create_correct [of 10 4 10 0 True cf] by simp
qed

end
