(* ===== verification/Vacuum.thy ===== *)
theory Vacuum
  imports Packed Util
begin

text \<open>
  The vacuum filter of \<^verbatim>\<open>src/vacuum_filter.c\<close>; \<open>Vacuum_Spec\<close> proves it correct. Its \<open>mix32\<close>, \<open>set_get\<close> and
  \<open>set_set\<close> are the same text as the cuckoo filter's and are used from there, as is the choice of
  the entry to evict. \<open>sqrt\<close> and \<open>log\<close> of the C library, which the choice of the alternate ranges uses,
  are the parameters \<open>dsqrt\<close> and \<open>dlog\<close>; nothing is assumed of them. Conventions otherwise as in
  \<open>Cuckoo\<close>.
\<close>

unbundle bit_operations_syntax

section \<open>State\<close>

datatype vacuum_err = VACUUM_OK | VACUUM_ERR_INVALID_PARAM | VACUUM_ERR_FULL | VACUUM_ERR_NOT_FOUND | VACUUM_ERR_ALLOC

record vacuum_filter =
  vf_num_entries :: nat
  vf_count :: u32
  vf_num_buckets :: nat
  vf_entries_per_set :: nat
  vf_num_sets :: nat
  vf_fingerprint_bits :: nat
  vf_bucket_size :: nat
  vf_max_evicts :: nat
  vf_ar :: "nat list"
  vf_table :: "u64 list"

definition VACUUM_NUM_AR :: nat where
  "VACUUM_NUM_AR = 4"

section \<open>Entries\<close>

definition vf_set :: "nat \<Rightarrow> nat" where
  "vf_set si = sz_mul si SET_WORDS"

definition vf_get :: "vacuum_filter \<Rightarrow> nat \<Rightarrow> u32" where
  "vf_get vf idx =
     (let si = idx div vf_entries_per_set vf; off = idx mod vf_entries_per_set vf
      in set_get (vf_table vf) (vf_set si) off (vf_fingerprint_bits vf))"

definition vf_set_entry :: "vacuum_filter \<Rightarrow> nat \<Rightarrow> u32 \<Rightarrow> vacuum_filter" where
  "vf_set_entry vf idx v =
     (let si = idx div vf_entries_per_set vf; off = idx mod vf_entries_per_set vf
      in vf\<lparr>vf_table := set_set (vf_table vf) (vf_set si) off (vf_fingerprint_bits vf) v\<rparr>)"

section \<open>Fingerprint and bucket indices\<close>

definition vacuum_fingerprint :: "u64 \<Rightarrow> nat \<Rightarrow> u32" where
  "vacuum_fingerprint hash fp_bits =
     (let fp = ucast (hash AND (push_bit fp_bits 1 - 1)) in if fp \<noteq> 0 then fp else 1)"

definition vacuum_hash_index :: "u64 \<Rightarrow> nat \<Rightarrow> nat" where
  "vacuum_hash_index hash num_buckets = unat (drop_bit 32 (drop_bit 32 hash * word_of_nat num_buckets))"

definition vacuum_alt_index :: "vacuum_filter \<Rightarrow> nat \<Rightarrow> u32 \<Rightarrow> nat" where
  "vacuum_alt_index vf current_index fingerprint =
     (let l = vf_ar vf ! (unat fingerprint mod VACUUM_NUM_AR)
      in if l \<le> 1 then current_index
         else let delta = unat (mix32 fingerprint) mod (l - 1) + 1;
                  chunk_start = current_index div l * l;
                  offset = current_index - chunk_start
              in chunk_start + (offset XOR delta))"

section \<open>Alternate ranges\<close>

text \<open>
  The bucket count for a number of items at 95 percent load: a quotient of doubles, rounded up.
\<close>

definition buckets_for :: "nat \<Rightarrow> nat \<Rightarrow> nat" where
  "buckets_for num_items b = nat \<lceil>dround (dround (of_nat num_items) / dround (of_nat b * dround (95 / 100)))\<rceil>"

text \<open>The comparison that ends the search for a range of \<open>l\<close> buckets.\<close>

definition range_suffices :: "(rat \<Rightarrow> rat) \<Rightarrow> (rat \<Rightarrow> rat) \<Rightarrow> nat \<Rightarrow> nat \<Rightarrow> nat \<Rightarrow> nat \<Rightarrow> bool" where
  "range_suffices dsqrt dlog b n c l =
     (let avg = dround (dround (of_nat n) / dround (of_nat c));
          max_load = dround (avg + dround (3 / 2 * dsqrt (dround (dround (2 * avg) * dlog (dround (of_nat c))))));
          capacity = dround (dround (97 / 100) * dround (of_nat (sz_mul b l)))
      in max_load < capacity)"

text \<open>The search doubles \<open>l\<close>; \<open>None\<close> would be a search that does not end.\<close>

partial_function (option) range_loop :: "(rat \<Rightarrow> rat) \<Rightarrow> (rat \<Rightarrow> rat) \<Rightarrow> nat \<Rightarrow> nat \<Rightarrow> nat \<Rightarrow> nat \<Rightarrow> nat option" where
  "range_loop dsqrt dlog b n m l =
     (if l < m
      then let c = m div l
           in if c = 0 then range_loop dsqrt dlog b n m (sz_mul l 2)
              else if range_suffices dsqrt dlog b n c l then Some l
              else if l > SIZE_MAX div 2 then Some l
              else range_loop dsqrt dlog b n m (sz_mul l 2)
      else Some l)"

definition range_selection :: "(rat \<Rightarrow> rat) \<Rightarrow> (rat \<Rightarrow> rat) \<Rightarrow> nat \<Rightarrow> nat \<Rightarrow> rat \<Rightarrow> nat option" where
  "range_selection dsqrt dlog num_items b ratio =
     (let m = buckets_for num_items b; n = nat \<lfloor>dround (ratio * dround (of_nat num_items))\<rfloor>
      in range_loop dsqrt dlog b n m 1)"

definition compute_ar_sizes :: "(rat \<Rightarrow> rat) \<Rightarrow> (rat \<Rightarrow> rat) \<Rightarrow> nat \<Rightarrow> nat \<Rightarrow> nat list option" where
  "compute_ar_sizes dsqrt dlog num_items bucket_size =
     those (map (\<lambda>i. map_option (\<lambda>r. if r < 2 then 2 else r) (range_selection dsqrt dlog num_items bucket_size (1 - of_nat i / of_nat VACUUM_NUM_AR)))
       [0..<VACUUM_NUM_AR])"

section \<open>Lifecycle\<close>

function vf_cap_buckets :: "nat \<Rightarrow> nat \<Rightarrow> nat" where
  "vf_cap_buckets bucket_size num_buckets =
     (if num_buckets > UINT32_MAX \<or> sz_mul num_buckets bucket_size > UINT32_MAX
      then vf_cap_buckets bucket_size (num_buckets div 2) else num_buckets)"
  by auto

termination
proof (relation "measure snd")
  fix bs n :: nat
  assume "n > UINT32_MAX \<or> sz_mul n bs > UINT32_MAX"
  then have "n \<noteq> 0" by (cases "n = 0") (auto simp: sz_mul_def)
  then show "((bs, n div 2), (bs, n)) \<in> measure snd" by simp
qed simp

declare vf_cap_buckets.simps [simp del]

text \<open>The largest power of two up to \<open>n\<close>, and the ranges clamped to it.\<close>

definition pow2_floor :: "nat \<Rightarrow> nat" where
  "pow2_floor n = (let c = smear (word_of_nat n) in unat (c - drop_bit 1 c))"

definition clamp_ar :: "nat \<Rightarrow> nat \<Rightarrow> nat" where
  "clamp_ar ar_cap a = (let a1 = (if a > ar_cap then ar_cap else a) in if a1 < 2 then 2 else a1)"

definition round_up_buckets :: "nat \<Rightarrow> nat \<Rightarrow> nat" where
  "round_up_buckets num_buckets largest_ar = sz_mul (sz_sub (sz_add num_buckets largest_ar) 1 div largest_ar) largest_ar"

text \<open>The result is \<open>None\<close> when the creation does not return and \<open>Some None\<close> when it returns \<open>NULL\<close>.\<close>

definition vacuum_filter_create ::
    "(rat \<Rightarrow> rat) \<Rightarrow> (rat \<Rightarrow> rat) \<Rightarrow> nat \<Rightarrow> u8 \<Rightarrow> u8 \<Rightarrow> u8 \<Rightarrow> bool \<Rightarrow> vacuum_filter option option" where
  "vacuum_filter_create dsqrt dlog capacity bucket_size fp_bits max_evicts alloc =
     (if capacity = 0 then Some None
      else let bs = unat (if bucket_size = 0 then 4 else bucket_size);
               fp = unat (if fp_bits = 0 then 10 else fp_bits);
               me = unat (if max_evicts = 0 then 200 else max_evicts)
           in if fp < 2 \<or> fp > 32 then Some None
              else if capacity > UINT32_MAX then Some None
              else let nb0 = buckets_for capacity bs;
                       nb1 = (if nb0 < 1 then 1 else nb0);
                       entries_per_set = 512 div fp
                   in Option.bind (compute_ar_sizes dsqrt dlog capacity bs)
                        (\<lambda>ar0. let ar = map (clamp_ar (pow2_floor nb1)) ar0;
                                   largest_ar = fold (\<lambda>a m. if a > m then a else m) ar 0;
                                   nb2 = round_up_buckets nb1 largest_ar;
                                   num_buckets = vf_cap_buckets bs nb2
                               in if num_buckets < 1 then Some None
                                  else let num_entries = sz_mul num_buckets bs;
                                           num_sets = sz_sub (sz_add num_entries entries_per_set) 1 div entries_per_set
                                       in if num_sets > (SIZE_MAX - 56) div 64 then Some None
                                          else if \<not> alloc then Some None
                                          else Some (Some \<lparr>vf_num_entries = num_entries mod 2 ^ 32, vf_count = 0,
                                                 vf_num_buckets = num_buckets mod 2 ^ 32, vf_entries_per_set = entries_per_set mod 2 ^ 32,
                                                 vf_num_sets = num_sets mod 2 ^ 32, vf_fingerprint_bits = fp, vf_bucket_size = bs,
                                                 vf_max_evicts = me, vf_ar = ar, vf_table = replicate (num_sets * SET_WORDS) 0\<rparr>)))"

text \<open>\<open>num_sets * VACUUM_SET_BYTES\<close> is a product of 32-bit operands: the number of bytes cleared wraps.\<close>

definition vacuum_filter_reset :: "vacuum_filter \<Rightarrow> vacuum_filter" where
  "vacuum_filter_reset vf =
     (let words = (vf_num_sets vf * 64) mod 2 ^ 32 div 8
      in vf\<lparr>vf_table := replicate words 0 @ drop words (vf_table vf), vf_count := 0\<rparr>)"

section \<open>Core operations\<close>

definition vf_find_empty_slot :: "vacuum_filter \<Rightarrow> nat \<Rightarrow> nat option" where
  "vf_find_empty_slot vf bucket_idx =
     (let base = sz_mul bucket_idx (vf_bucket_size vf) in find (\<lambda>i. vf_get vf (base + i) = 0) [0..<vf_bucket_size vf])"

definition vf_find_fingerprint :: "vacuum_filter \<Rightarrow> nat \<Rightarrow> u32 \<Rightarrow> nat option" where
  "vf_find_fingerprint vf bucket_idx fp =
     (let base = sz_mul bucket_idx (vf_bucket_size vf) in find (\<lambda>i. vf_get vf (base + i) = fp) [0..<vf_bucket_size vf])"

definition vf_place :: "vacuum_filter \<Rightarrow> nat \<Rightarrow> nat \<Rightarrow> u32 \<Rightarrow> vacuum_err \<times> vacuum_filter" where
  "vf_place vf b slot fp =
     (let vf1 = vf_set_entry vf (sz_mul b (vf_bucket_size vf) + slot) fp in (VACUUM_OK, vf1\<lparr>vf_count := vf_count vf1 + 1\<rparr>))"

text \<open>
  The look-ahead over one bucket: the first fingerprint whose other bucket has a free entry moves
  there, and \<open>fp\<close> takes its place. \<open>None\<close> when there is no such fingerprint.
\<close>

definition vf_movable :: "vacuum_filter \<Rightarrow> nat \<Rightarrow> nat \<Rightarrow> bool" where
  "vf_movable vf b i =
     (let fp_in_slot = vf_get vf (sz_mul b (vf_bucket_size vf) + i)
      in fp_in_slot \<noteq> 0 \<and> vf_find_empty_slot vf (vacuum_alt_index vf b fp_in_slot) \<noteq> None)"

definition vf_lookahead :: "vacuum_filter \<Rightarrow> nat \<Rightarrow> u32 \<Rightarrow> vacuum_filter option" where
  "vf_lookahead vf b fp =
     (let base = sz_mul b (vf_bucket_size vf)
      in case find (vf_movable vf b) [0..<vf_bucket_size vf] of
           None \<Rightarrow> None
         | Some i \<Rightarrow>
             let fp_in_slot = vf_get vf (base + i);
                 alt = vacuum_alt_index vf b fp_in_slot;
                 alt_slot = the (vf_find_empty_slot vf alt);
                 vf1 = vf_set_entry vf (sz_mul alt (vf_bucket_size vf) + alt_slot) fp_in_slot;
                 vf2 = vf_set_entry vf1 (base + i) fp
             in Some (vf2\<lparr>vf_count := vf_count vf2 + 1\<rparr>))"

definition vf_rollback :: "vacuum_filter \<Rightarrow> (nat \<times> u32) list \<Rightarrow> vacuum_filter" where
  "vf_rollback vf tr = fold (\<lambda>(i, v) vf. vf_set_entry vf i v) tr vf"

fun vf_evict :: "vacuum_filter \<Rightarrow> nat \<Rightarrow> nat \<Rightarrow> nat \<Rightarrow> u32 \<Rightarrow> (nat \<times> u32) list \<Rightarrow> vacuum_err \<times> vacuum_filter" where
  "vf_evict vf 0 n b fp tr = (VACUUM_ERR_FULL, vf_rollback vf tr)"
| "vf_evict vf (Suc todo) n b fp tr =
     (case vf_lookahead vf b fp of
        Some vf' \<Rightarrow> (VACUUM_OK, vf')
      | None \<Rightarrow>
          (let base = sz_mul b (vf_bucket_size vf);
               idx = base + evict_slot n fp (vf_bucket_size vf);
               temp = vf_get vf idx;
               vf1 = vf_set_entry vf idx fp;
               b' = vacuum_alt_index vf1 b temp
           in case vf_find_empty_slot vf1 b' of
                Some slot \<Rightarrow> vf_place vf1 b' slot temp
              | None \<Rightarrow> vf_evict vf1 todo (Suc n) b' temp ((idx, temp) # tr)))"

definition vacuum_filter_insert :: "vacuum_filter \<Rightarrow> u64 \<Rightarrow> vacuum_err \<times> vacuum_filter" where
  "vacuum_filter_insert vf hash =
     (let fp = vacuum_fingerprint hash (vf_fingerprint_bits vf);
          b1 = vacuum_hash_index hash (vf_num_buckets vf);
          b2 = vacuum_alt_index vf b1 fp
      in case vf_find_empty_slot vf b1 of
           Some slot \<Rightarrow> vf_place vf b1 slot fp
         | None \<Rightarrow>
             (case vf_find_empty_slot vf b2 of
                Some slot \<Rightarrow> vf_place vf b2 slot fp
              | None \<Rightarrow>
                  (case vf_lookahead vf b1 fp of
                     Some vf' \<Rightarrow> (VACUUM_OK, vf')
                   | None \<Rightarrow>
                       (case vf_lookahead vf b2 fp of
                          Some vf' \<Rightarrow> (VACUUM_OK, vf')
                        | None \<Rightarrow> vf_evict vf (vf_max_evicts vf) 0 (if odd (b1 + b2) then b1 else b2) fp []))))"

definition vacuum_filter_lookup :: "vacuum_filter \<Rightarrow> u64 \<Rightarrow> bool" where
  "vacuum_filter_lookup vf hash =
     (let fp = vacuum_fingerprint hash (vf_fingerprint_bits vf);
          b1 = vacuum_hash_index hash (vf_num_buckets vf);
          b2 = vacuum_alt_index vf b1 fp
      in vf_find_fingerprint vf b1 fp \<noteq> None \<or> vf_find_fingerprint vf b2 fp \<noteq> None)"

definition vacuum_filter_delete :: "vacuum_filter \<Rightarrow> u64 \<Rightarrow> vacuum_err \<times> vacuum_filter" where
  "vacuum_filter_delete vf hash =
     (let fp = vacuum_fingerprint hash (vf_fingerprint_bits vf);
          b1 = vacuum_hash_index hash (vf_num_buckets vf);
          b2 = vacuum_alt_index vf b1 fp
      in case vf_find_fingerprint vf b1 fp of
           Some slot \<Rightarrow>
             (let vf1 = vf_set_entry vf (sz_mul b1 (vf_bucket_size vf) + slot) 0 in (VACUUM_OK, vf1\<lparr>vf_count := vf_count vf1 - 1\<rparr>))
         | None \<Rightarrow>
             (case vf_find_fingerprint vf b2 fp of
                Some slot \<Rightarrow>
                  (let vf1 = vf_set_entry vf (sz_mul b2 (vf_bucket_size vf) + slot) 0 in (VACUUM_OK, vf1\<lparr>vf_count := vf_count vf1 - 1\<rparr>))
              | None \<Rightarrow> (VACUUM_ERR_NOT_FOUND, vf)))"

section \<open>Statistics\<close>

definition vacuum_filter_count :: "vacuum_filter \<Rightarrow> nat" where
  "vacuum_filter_count vf = unat (vf_count vf)"

definition vacuum_filter_capacity :: "vacuum_filter \<Rightarrow> nat" where
  "vacuum_filter_capacity vf = vf_num_entries vf"

definition vacuum_filter_memory_bytes :: "vacuum_filter \<Rightarrow> nat" where
  "vacuum_filter_memory_bytes vf = 56 + (vf_num_sets vf * 64) mod 2 ^ 32"

end
