(* ===== verification/Vacuum_Spec.thy ===== *)
theory Vacuum_Spec
  imports Vacuum Buckets
begin

text \<open>
  Correctness of the vacuum filter: the alternate function over several ranges is its own inverse and
  stays inside the table, the table provides \<open>bucket_filter\<close>, and insertion with look-ahead,
  eviction and rollback provides \<open>evicting_filter\<close>.
\<close>

unbundle bit_operations_syntax

section \<open>The shape\<close>

definition ar_ok :: "nat \<Rightarrow> nat \<Rightarrow> bool" where
  "ar_ok nb l \<longleftrightarrow> l dvd nb \<and> (\<exists>k. 0 < k \<and> l = 2 ^ k)"

definition vacuum_shape :: "vacuum_filter \<Rightarrow> bool" where
  "vacuum_shape vf \<longleftrightarrow>
     0 < vf_num_buckets vf \<and> vf_num_buckets vf < 2 ^ 32 \<and> 0 < vf_bucket_size vf \<and> vf_bucket_size vf < 256 \<and>
     vf_num_buckets vf * vf_bucket_size vf < 2 ^ 32 \<and> vf_num_entries vf = vf_num_buckets vf * vf_bucket_size vf \<and>
     0 < vf_fingerprint_bits vf \<and> vf_fingerprint_bits vf \<le> 32 \<and> 0 < vf_entries_per_set vf \<and>
     vf_entries_per_set vf * vf_fingerprint_bits vf \<le> 512 \<and> vf_num_sets vf < 2 ^ 32 \<and>
     vf_num_entries vf \<le> vf_num_sets vf * vf_entries_per_set vf \<and> length (vf_table vf) = vf_num_sets vf * SET_WORDS \<and>
     length (vf_ar vf) = VACUUM_NUM_AR \<and> (\<forall>l \<in> set (vf_ar vf). ar_ok (vf_num_buckets vf) l)"

lemma vacuum_packed:
  assumes "vacuum_shape vf"
  shows "packed_ok (vf_entries_per_set vf) (vf_fingerprint_bits vf) (vf_num_buckets vf * vf_bucket_size vf) (vf_table vf)"
proof -
  have "(i div vf_entries_per_set vf + 1) * SET_WORDS \<le> length (vf_table vf)" if "i < vf_num_buckets vf * vf_bucket_size vf" for i
  proof -
    have "i < vf_num_sets vf * vf_entries_per_set vf" using that assms by (simp add: vacuum_shape_def)
    then have "i div vf_entries_per_set vf < vf_num_sets vf" by (simp add: less_mult_imp_div_less)
    then have "(i div vf_entries_per_set vf + 1) * SET_WORDS \<le> vf_num_sets vf * SET_WORDS" by (intro mult_le_mono1) simp
    then show ?thesis using assms by (simp add: vacuum_shape_def)
  qed
  then show ?thesis using assms by (simp add: vacuum_shape_def packed_ok_def)
qed

lemma vf_set_eq:
  assumes "vacuum_shape vf" "i < vf_num_buckets vf * vf_bucket_size vf"
  shows "vf_set (i div vf_entries_per_set vf) = i div vf_entries_per_set vf * SET_WORDS"
proof -
  have "vf_num_buckets vf * vf_bucket_size vf < 2 ^ 32" using assms(1) by (simp add: vacuum_shape_def)
  then have "i div vf_entries_per_set vf < 2 ^ 32" using assms(2) div_le_dividend [of i "vf_entries_per_set vf"] by linarith
  then show ?thesis by (simp add: vf_set_def sz_mul_def SET_WORDS_def)
qed

lemma vf_get_packed:
  assumes "vacuum_shape vf" "i < vf_num_buckets vf * vf_bucket_size vf"
  shows "vf_get vf i = packed_get (vf_entries_per_set vf) (vf_fingerprint_bits vf) (vf_table vf) i"
  using vf_set_eq [OF assms] by (simp add: vf_get_def packed_get_def)

lemma vf_put_packed:
  assumes "vacuum_shape vf" "i < vf_num_buckets vf * vf_bucket_size vf"
  shows "vf_set_entry vf i v = vf\<lparr>vf_table := packed_set (vf_entries_per_set vf) (vf_fingerprint_bits vf) (vf_table vf) i v\<rparr>"
  using vf_set_eq [OF assms] by (simp add: vf_set_entry_def packed_set_def)

lemma vf_put_frame [simp]:
  "vf_num_buckets (vf_set_entry vf i v) = vf_num_buckets vf" "vf_bucket_size (vf_set_entry vf i v) = vf_bucket_size vf"
  "vf_fingerprint_bits (vf_set_entry vf i v) = vf_fingerprint_bits vf" "vf_ar (vf_set_entry vf i v) = vf_ar vf"
  "vf_max_evicts (vf_set_entry vf i v) = vf_max_evicts vf" "vf_count (vf_set_entry vf i v) = vf_count vf"
  "vf_num_entries (vf_set_entry vf i v) = vf_num_entries vf" "vf_entries_per_set (vf_set_entry vf i v) = vf_entries_per_set vf"
  "vacuum_shape (vf_set_entry vf i v) = vacuum_shape vf"
  by (simp_all add: vf_set_entry_def Let_def vacuum_shape_def)

section \<open>Candidate buckets\<close>

lemma xor_below:
  fixes x y :: nat
  assumes "x < 2 ^ k" "y < 2 ^ k"
  shows "x XOR y < 2 ^ k"
proof -
  have "take_bit k (x XOR y) = x XOR y" using assms by (simp add: take_bit_nat_eq_self)
  then show ?thesis by (metis take_bit_nat_less_exp)
qed

lemma xor_twice: "((x :: nat) XOR y) XOR y = x"
  by (simp add: xor.assoc)

text \<open>One range of \<open>l\<close> buckets: offset and delta stay inside the chunk.\<close>

lemma chunk_alt:
  fixes b l m nb :: nat
  assumes "0 < k" "l = 2 ^ k" "l dvd nb" "b < nb"
  defines "d \<equiv> m mod (l - 1) + 1"
  defines "a \<equiv> b div l * l + ((b - b div l * l) XOR d)"
  shows "a < nb" "a div l * l + ((a - a div l * l) XOR d) = b"
proof -
  have l: "2 \<le> l" using assms(1,2) power_increasing [of 1 k "2::nat"] by simp
  have o: "b - b div l * l = b mod l" by (simp add: minus_div_mult_eq_mod)
  define z where "z = (b mod l) XOR d"
  have "m mod (l - 1) < l - 1" using l by (intro mod_less_divisor) linarith
  then have "d < l" unfolding d_def by linarith
  moreover have "b mod l < l" using l by simp
  ultimately have "d < 2 ^ k" "b mod l < 2 ^ k" using assms(2) by blast+
  then have z: "z < l" using xor_below assms(2) by (simp add: z_def)
  have a: "a = b div l * l + z" by (simp add: a_def o z_def)
  have "b div l < nb div l" using assms(3,4) l by (metis div_less_iff_less_mult dvd_div_mult_self less_le_trans pos2)
  then have "(b div l + 1) * l \<le> nb div l * l" by (intro mult_le_mono1) simp
  then show "a < nb" using a z assms(3) by simp
  have "a div l = b div l" "a - a div l * l = z" using a z by simp_all
  moreover have "z XOR d = b mod l" unfolding z_def by (rule xor_twice)
  ultimately show "a div l * l + ((a - a div l * l) XOR d) = b" by simp
qed

lemma vacuum_alt_ok:
  assumes "vacuum_shape vf" "b < vf_num_buckets vf"
  shows "vacuum_alt_index vf b v < vf_num_buckets vf" "vacuum_alt_index vf (vacuum_alt_index vf b v) v = b"
proof -
  define l where "l = vf_ar vf ! (unat v mod VACUUM_NUM_AR)"
  define d where "d = unat (mix32 v) mod (l - 1) + 1"
  have "l \<in> set (vf_ar vf)" unfolding l_def using assms(1) by (intro nth_mem) (simp add: vacuum_shape_def VACUUM_NUM_AR_def)
  then obtain k where k: "0 < k" "l = 2 ^ k" "l dvd vf_num_buckets vf" using assms(1) by (auto simp: vacuum_shape_def ar_ok_def)
  have "2 \<le> l" using k(1,2) power_increasing [of 1 k "2::nat"] by simp
  then have "\<not> l \<le> 1" by simp
  then have eq: "vacuum_alt_index vf c v = c div l * l + ((c - c div l * l) XOR d)" for c
    unfolding vacuum_alt_index_def Let_def l_def [symmetric] d_def [symmetric] by (simp only: if_False)
  note c = chunk_alt [OF k assms(2), of "unat (mix32 v)", folded d_def]
  show "vacuum_alt_index vf b v < vf_num_buckets vf" unfolding eq by (rule c(1))
  show "vacuum_alt_index vf (vacuum_alt_index vf b v) v = b" unfolding eq by (rule c(2))
qed

lemma vacuum_index_less:
  assumes "0 < nb" "nb < 2 ^ 32"
  shows "vacuum_hash_index hash nb < nb"
proof -
  have h: "unat (drop_bit 32 hash) < 2 ^ 32" using unat_bounds(1) [of hash] by (simp add: unat_drop_bit less_mult_imp_div_less)
  have b: "unat (word_of_nat nb :: u64) = nb" using assms(2) by (intro unat_word_of_nat) simp
  have lt: "unat (drop_bit 32 hash) * nb < 2 ^ 32 * nb" using h assms(1) by simp
  moreover have "2 ^ 32 * nb < 2 ^ 64" using assms(2) by simp
  ultimately have "unat (drop_bit 32 hash) * nb < 2 ^ 64" by (rule less_trans)
  then have "unat (drop_bit 32 hash * word_of_nat nb) = unat (drop_bit 32 hash) * nb" using b by (simp add: unat_word_ariths)
  then have "vacuum_hash_index hash nb = unat (drop_bit 32 hash) * nb div 2 ^ 32" unfolding vacuum_hash_index_def by (simp only: unat_drop_bit)
  then show ?thesis using lt by (simp add: less_mult_imp_div_less mult.commute)
qed

lemma vacuum_fp_ok:
  assumes "0 < f" "f \<le> 32"
  shows "fp_fits f (vacuum_fingerprint hash f)" "vacuum_fingerprint hash f \<noteq> 0"
  using masked_fits [of f hash] one_fits [OF assms(1)]
  by (simp_all add: vacuum_fingerprint_def fp_mask Let_def del: push_bit_of_1)

section \<open>The table of buckets\<close>

definition vacuum_fits :: "vacuum_filter \<Rightarrow> u32 \<Rightarrow> bool" where
  "vacuum_fits vf = fp_fits (vf_fingerprint_bits vf)"

definition vacuum_home :: "vacuum_filter \<Rightarrow> u64 \<Rightarrow> nat" where
  "vacuum_home vf hash = vacuum_hash_index hash (vf_num_buckets vf)"

definition vacuum_fpr :: "vacuum_filter \<Rightarrow> u64 \<Rightarrow> u32" where
  "vacuum_fpr vf hash = vacuum_fingerprint hash (vf_fingerprint_bits vf)"

abbreviation vacuum_slots :: "vacuum_filter \<Rightarrow> nat" where
  "vacuum_slots vf \<equiv> vf_num_buckets vf * vf_bucket_size vf"

interpretation vp: packed_store vacuum_shape vacuum_slots vf_entries_per_set vf_fingerprint_bits vf_table
  "\<lambda>vf ws. vf\<lparr>vf_table := ws\<rparr>" vf_get vf_set_entry
proof
  show "packed_ok (vf_entries_per_set t) (vf_fingerprint_bits t) (vacuum_slots t) (vf_table t)" if "vacuum_shape t" for t
    by (rule vacuum_packed [OF that])
  show "vf_get t i = packed_get (vf_entries_per_set t) (vf_fingerprint_bits t) (vf_table t) i"
    if "vacuum_shape t" "i < vacuum_slots t" for t i by (rule vf_get_packed [OF that])
  show "vf_set_entry t i v = t\<lparr>vf_table := packed_set (vf_entries_per_set t) (vf_fingerprint_bits t) (vf_table t) i v\<rparr>"
    if "vacuum_shape t" "i < vacuum_slots t" for t i v by (rule vf_put_packed [OF that])
qed (simp_all add: vacuum_shape_def)

interpretation vb: bucket_filter vacuum_shape vf_num_buckets vf_bucket_size vf_get vf_set_entry vacuum_fits vacuum_alt_index
  vacuum_home vacuum_fpr vf_count "\<lambda>vf c. vf\<lparr>vf_count := c\<rparr>"
proof
  fix t :: vacuum_filter and i j :: nat and v w :: u32
  assume t: "vacuum_shape t"
  show "0 < vf_bucket_size t" using t by (simp add: vacuum_shape_def)
  show "vacuum_fits t 0" by (simp add: vacuum_fits_def fp_fits_def)
  show "vacuum_fits t (vf_get t i)" if "i < vacuum_slots t" using vp.get_fits [OF t that] by (simp add: vacuum_fits_def)
  show "vf_get (vf_set_entry t i v) j = (if i = j then v else vf_get t j)"
    if "i < vacuum_slots t" "j < vacuum_slots t" "vacuum_fits t v" using vp.get_put [OF t that(1,2)] that(3) by (simp add: vacuum_fits_def)
  show "vf_set_entry (vf_set_entry t i v) i w = vf_set_entry t i w" if "i < vacuum_slots t" "vacuum_fits t v" "vacuum_fits t w"
    using vp.put_put [OF t that(1)] that(2,3) by (simp add: vacuum_fits_def)
  show "vf_set_entry t i (vf_get t i) = t" if "i < vacuum_slots t" by (rule vp.put_get [OF t that])
  show "vacuum_shape (vf_set_entry t i v) \<and> vf_num_buckets (vf_set_entry t i v) = vf_num_buckets t \<and>
      vf_bucket_size (vf_set_entry t i v) = vf_bucket_size t \<and> vacuum_fits (vf_set_entry t i v) = vacuum_fits t \<and>
      vacuum_alt_index (vf_set_entry t i v) = vacuum_alt_index t"
    using t by (simp add: vacuum_fits_def [abs_def] vacuum_alt_index_def [abs_def])
  show "vacuum_alt_index t b v < vf_num_buckets t" "vacuum_alt_index t (vacuum_alt_index t b v) v = b" if "b < vf_num_buckets t" for b
    using vacuum_alt_ok [OF t that] by simp_all
  show "vacuum_slots t < 2 ^ 32" using t by (simp add: vacuum_shape_def)
  show "vacuum_home t h < vf_num_buckets t" for h using vacuum_index_less t by (simp add: vacuum_shape_def vacuum_home_def)
  show "vacuum_fits t (vacuum_fpr t h) \<and> vacuum_fpr t h \<noteq> 0" for h
    using vacuum_fp_ok [of "vf_fingerprint_bits t" h] t by (simp add: vacuum_fits_def vacuum_fpr_def vacuum_shape_def)
qed (simp_all add: vacuum_home_def [abs_def] vacuum_fpr_def [abs_def] vacuum_shape_def vacuum_alt_index_def [abs_def] vf_get_def [abs_def])

text \<open>The abstract filter, the item of a hash, and the invariant.\<close>

definition vacuum_items :: "vacuum_filter \<Rightarrow> (nat \<times> u32) multiset" where
  "vacuum_items vf = bucket_items (vacuum_alt_index vf) (vf_bucket_size vf) (vf_get vf) (vacuum_slots vf)"

definition vacuum_item :: "vacuum_filter \<Rightarrow> u64 \<Rightarrow> nat \<times> u32" where
  "vacuum_item vf hash = item_of (vacuum_alt_index vf) (vacuum_home vf hash) (vacuum_fpr vf hash)"

definition vacuum_inv :: "vacuum_filter \<Rightarrow> bool" where
  "vacuum_inv vf \<longleftrightarrow> vacuum_shape vf \<and> unat (vf_count vf) = size (vacuum_items vf)"

lemma vacuum_abs: "vb.items = vacuum_items" "vb.item = vacuum_item" "vb.counted = vacuum_inv"
  by (simp_all add: vb.items_def [abs_def] vb.item_def [abs_def] vb.counted_def [abs_def] vacuum_items_def [abs_def]
      vacuum_item_def [abs_def] vacuum_inv_def [abs_def])

lemma vf_bucket_base:
  assumes "vacuum_shape vf" "b < vf_num_buckets vf"
  shows "sz_mul b (vf_bucket_size vf) = b * vf_bucket_size vf"
proof -
  have "b * vf_bucket_size vf \<le> vacuum_slots vf" using assms(2) by simp
  also have "\<dots> < 2 ^ 32" using assms(1) by (simp add: vacuum_shape_def)
  finally show ?thesis by (simp add: sz_mul_def)
qed

lemma vacuum_search:
  assumes "vacuum_shape vf" "b < vf_num_buckets vf"
  shows "vf_find_fingerprint vf b v = vb.search vf b v" "vf_find_empty_slot vf b = vb.search vf b 0"
  using vf_bucket_base [OF assms] by (simp_all add: vf_find_fingerprint_def vf_find_empty_slot_def vb.search_def)

lemma vf_place_ok:
  assumes "vacuum_shape vf" "b < vf_num_buckets vf" "vf_find_empty_slot vf b = Some slot" "vacuum_fits vf v" "v \<noteq> 0"
  shows "\<exists>vf'. vf_place vf b slot v = (VACUUM_OK, vf') \<and> vb.added vf (item_of (vacuum_alt_index vf) b v) vf'"
  using vb.place_added [OF assms(1,2) _ assms(4,5), of slot] assms(3) vacuum_search(2) [OF assms(1,2)] vf_bucket_base [OF assms(1,2)]
  by (simp add: vf_place_def Let_def)

section \<open>Insertion\<close>

text \<open>The look-ahead that finds a movable fingerprint adds exactly the new item.\<close>

lemma vf_lookahead_ok:
  assumes sh: "vacuum_shape vf" and b: "b < vf_num_buckets vf" and v: "vacuum_fits vf v" "v \<noteq> 0"
    and la: "vf_lookahead vf b v = Some vf'"
  shows "vb.added vf (item_of (vacuum_alt_index vf) b v) vf'"
proof -
  obtain i where i: "find (vf_movable vf b) [0..<vf_bucket_size vf] = Some i" using la by (auto simp: vf_lookahead_def Let_def split: option.splits)
  define w where "w = vf_get vf (b * vf_bucket_size vf + i)"
  define a where "a = vacuum_alt_index vf b w"
  have a: "a < vf_num_buckets vf" using vb.alt_less [OF sh b] by (simp add: a_def)
  note base = vf_bucket_base [OF sh b] vf_bucket_base [OF sh a]
  have im: "i < vf_bucket_size vf" "vf_movable vf b i" using find_upt_Some [OF i] by simp_all
  then obtain s where s: "w \<noteq> 0" "vf_find_empty_slot vf a = Some s" by (auto simp: vf_movable_def Let_def base w_def [symmetric] a_def [symmetric])
  then have "vb.search vf a 0 = Some s" using vacuum_search(2) [OF sh a] by simp
  from vb.move_added [OF sh b im(1) w_def [symmetric] s(1) this [unfolded a_def] v, folded a_def]
  show ?thesis using la i s(2) by (simp add: vf_lookahead_def Let_def base w_def [symmetric] a_def [symmetric])
qed

lemma vf_evict_ok:
  assumes "vacuum_shape vf" "b < vf_num_buckets vf" "vacuum_fits vf v" "v \<noteq> 0"
    and "\<forall>k < vf_bucket_size vf. vf_get vf (b * vf_bucket_size vf + k) \<noteq> 0" "vb.undoes vf tr vf0"
  shows "(\<exists>vf'. vf_evict vf todo n b v tr = (VACUUM_OK, vf') \<and> vb.added vf (item_of (vacuum_alt_index vf) b v) vf') \<or>
    vf_evict vf todo n b v tr = (VACUUM_ERR_FULL, vf0)"
  using assms
proof (induction todo arbitrary: vf n b v tr)
  case 0
  then show ?case by (simp add: vf_rollback_def vb.undoes_def)
next
  case (Suc todo)
  show ?case
  proof (cases "vf_lookahead vf b v")
    case (Some vf')
    then show ?thesis using vf_lookahead_ok [OF Suc.prems(1-4) Some] by simp
  next
    case la: None
    define k where "k = evict_slot n v (vf_bucket_size vf)"
    define i where "i = b * vf_bucket_size vf + k"
    define w where "w = vf_get vf i"
    define vf1 where "vf1 = vf_set_entry vf i v"
    define b' where "b' = vacuum_alt_index vf b w"
    have k: "k < vf_bucket_size vf" using Suc.prems(1) evict_slot_less by (simp add: k_def vacuum_shape_def)
    note st = vb.kick_step [OF Suc.prems(1,2) k Suc.prems(3-6), folded i_def, folded w_def vf1_def, folded b'_def]
    have base: "sz_mul b (vf_bucket_size vf) + evict_slot n v (vf_bucket_size vf) = i"
      using vf_bucket_base [OF Suc.prems(1,2)] by (simp add: i_def k_def)
    have alt: "vacuum_alt_index vf1 b w = b'" by (simp add: b'_def vacuum_alt_index_def vf1_def)
    have eq: "vf_evict vf (Suc todo) n b v tr = (case vf_find_empty_slot vf1 b' of
        Some slot \<Rightarrow> vf_place vf1 b' slot w | None \<Rightarrow> vf_evict vf1 todo (Suc n) b' w ((i, w) # tr))"
      unfolding vf_evict.simps la option.case Let_def base w_def [symmetric] vf1_def [symmetric] alt by (rule refl)
    show ?thesis
    proof (cases "vf_find_empty_slot vf1 b'")
      case None
      then have "\<forall>k < vf_bucket_size vf1. vf_get vf1 (b' * vf_bucket_size vf1 + k) \<noteq> 0"
        using vacuum_search(2) [OF st(1,2)] by (simp add: vb.search_None)
      from Suc.IH [OF st(1-4) this st(5), of "Suc n"] show ?thesis using eq None st(6) by auto
    next
      case (Some slot)
      then show ?thesis using vf_place_ok [OF st(1,2) Some st(3,4)] eq st(6) by auto
    qed
  qed
qed

lemma vacuum_insert_ok:
  assumes sh: "vacuum_shape vf"
  shows "(\<exists>vf'. vacuum_filter_insert vf hash = (VACUUM_OK, vf') \<and> vb.added vf (vacuum_item vf hash) vf') \<or>
    vacuum_filter_insert vf hash = (VACUUM_ERR_FULL, vf)"
proof -
  define fp where "fp = vacuum_fpr vf hash"
  define b1 where "b1 = vacuum_home vf hash"
  define b2 where "b2 = vacuum_alt_index vf b1 fp"
  have b1: "b1 < vf_num_buckets vf" using vb.home_less [OF sh] by (simp add: b1_def)
  have b2: "b2 < vf_num_buckets vf" using vb.alt_less [OF sh b1] by (simp add: b2_def)
  have fp: "vacuum_fits vf fp" "fp \<noteq> 0" using vb.fpr_ok [OF sh] by (simp_all add: fp_def)
  have it: "item_of (vacuum_alt_index vf) b1 fp = vacuum_item vf hash" "item_of (vacuum_alt_index vf) b2 fp = vacuum_item vf hash"
    using vb.item_alt [OF sh b1] by (simp_all add: vacuum_item_def b1_def fp_def b2_def)
  define b where "b = (if odd (b1 + b2) then b1 else b2)"
  have eq: "vacuum_filter_insert vf hash = (case vf_find_empty_slot vf b1 of
      Some slot \<Rightarrow> vf_place vf b1 slot fp
    | None \<Rightarrow> (case vf_find_empty_slot vf b2 of
        Some slot \<Rightarrow> vf_place vf b2 slot fp
      | None \<Rightarrow> (case vf_lookahead vf b1 fp of
          Some vf' \<Rightarrow> (VACUUM_OK, vf')
        | None \<Rightarrow> (case vf_lookahead vf b2 fp of
            Some vf' \<Rightarrow> (VACUUM_OK, vf')
          | None \<Rightarrow> vf_evict vf (vf_max_evicts vf) 0 b fp []))))"
    unfolding vacuum_filter_insert_def Let_def b_def b1_def fp_def b2_def vacuum_home_def vacuum_fpr_def by (rule refl)
  consider s where "vf_find_empty_slot vf b1 = Some s" | s where "vf_find_empty_slot vf b1 = None" "vf_find_empty_slot vf b2 = Some s"
    | "vf_find_empty_slot vf b1 = None" "vf_find_empty_slot vf b2 = None" by (cases "vf_find_empty_slot vf b1"; cases "vf_find_empty_slot vf b2") auto
  then show ?thesis
  proof cases
    case 1
    then show ?thesis using vf_place_ok [OF sh b1 1 fp] eq it by simp
  next
    case 2
    then show ?thesis using vf_place_ok [OF sh b2 2(2) fp] eq it by simp
  next
    case full: 3
    have b: "b < vf_num_buckets vf" "item_of (vacuum_alt_index vf) b fp = vacuum_item vf hash" "vf_find_empty_slot vf b = None"
      using b1 b2 it full by (simp_all add: b_def)
    have "\<forall>k < vf_bucket_size vf. vf_get vf (b * vf_bucket_size vf + k) \<noteq> 0"
      using b(3) unfolding vacuum_search(2) [OF sh b(1)] vb.search_None .
    moreover have "vb.undoes vf [] vf" by (simp add: vb.undoes_def)
    ultimately have ev: "(\<exists>vf'. vf_evict vf (vf_max_evicts vf) 0 b fp [] = (VACUUM_OK, vf') \<and> vb.added vf (vacuum_item vf hash) vf') \<or>
        vf_evict vf (vf_max_evicts vf) 0 b fp [] = (VACUUM_ERR_FULL, vf)"
      using vf_evict_ok [OF sh b(1) fp, of "[]" vf "vf_max_evicts vf" 0] b(2) by simp
    show ?thesis
      using eq full ev vf_lookahead_ok [OF sh b1 fp] vf_lookahead_ok [OF sh b2 fp] it
      by (cases "vf_lookahead vf b1 fp"; cases "vf_lookahead vf b2 fp") auto
  qed
qed

section \<open>The filter interface\<close>

definition vacuum_add :: "vacuum_filter \<Rightarrow> u64 \<Rightarrow> vacuum_filter option" where
  "vacuum_add vf hash = (case vacuum_filter_insert vf hash of (e, vf') \<Rightarrow> if e = VACUUM_OK then Some vf' else None)"

definition vacuum_remove :: "vacuum_filter \<Rightarrow> u64 \<Rightarrow> vacuum_filter option" where
  "vacuum_remove vf hash = (case vacuum_filter_delete vf hash of (e, vf') \<Rightarrow> if e = VACUUM_OK then Some vf' else None)"

interpretation ve: evicting_filter vacuum_shape vf_num_buckets vf_bucket_size vf_get vf_set_entry vacuum_fits vacuum_alt_index
  vacuum_home vacuum_fpr vf_count "\<lambda>vf c. vf\<lparr>vf_count := c\<rparr>" vacuum_add
proof
  show "vb.added t (vb.item t h) t'" if "vacuum_shape t" "vacuum_add t h = Some t'" for t h t'
    using vacuum_insert_ok [OF that(1), of h] that(2) by (auto simp: vacuum_add_def vacuum_abs)
qed

lemma vacuum_lookup_eq:
  assumes "vacuum_shape vf"
  shows "vacuum_filter_lookup vf hash = vb.lookup_op vf hash"
  using vacuum_search(1) [OF assms] vb.home_less [OF assms, of hash] vb.alt_less [OF assms vb.home_less [OF assms, of hash], of "vacuum_fpr vf hash"]
  by (simp add: vacuum_filter_lookup_def vb.lookup_op_def vacuum_home_def vacuum_fpr_def Let_def)

lemma vacuum_delete_eq:
  assumes sh: "vacuum_shape vf"
  shows "vacuum_filter_delete vf hash = (case vb.delete_op vf hash of Some vf' \<Rightarrow> (VACUUM_OK, vf') | None \<Rightarrow> (VACUUM_ERR_NOT_FOUND, vf))"
proof -
  note b = vb.home_less [OF sh, of hash]
  note a = vb.alt_less [OF sh b, of "vacuum_fpr vf hash"]
  show ?thesis
    using vacuum_search(1) [OF sh b] vacuum_search(1) [OF sh a] vf_bucket_base [OF sh b] vf_bucket_base [OF sh a]
    unfolding vacuum_filter_delete_def Let_def vacuum_fpr_def [symmetric] vacuum_home_def [symmetric]
    by (simp add: vb.delete_op_def vb.clear_at_def split: option.split)
qed

lemma vacuum_remove_eq: "vacuum_shape vf \<Longrightarrow> vacuum_remove vf hash = vb.delete_op vf hash"
  by (simp add: vacuum_remove_def vacuum_delete_eq split: option.split)

interpretation vacuum: multiset_filter vacuum_inv vacuum_items vacuum_item vacuum_add vacuum_remove vacuum_filter_lookup
proof
  fix vf :: vacuum_filter and hash
  assume inv: "vacuum_inv vf"
  then have sh: "vacuum_shape vf" by (simp add: vacuum_inv_def)
  show "vacuum_filter_lookup vf hash \<longleftrightarrow> vacuum_item vf hash \<in># vacuum_items vf"
    using ve.mf.lookup_iff [of vf hash] inv vacuum_lookup_eq [OF sh] by (simp add: vacuum_abs)
  show "vacuum_inv vf' \<and> vacuum_items vf' = add_mset (vacuum_item vf hash) (vacuum_items vf) \<and> vacuum_item vf' = vacuum_item vf"
    if "vacuum_add vf hash = Some vf'" for vf' using ve.mf.add_spec [of vf hash vf'] inv that by (simp add: vacuum_abs)
  show "vacuum_inv vf' \<and> vacuum_items vf = add_mset (vacuum_item vf hash) (vacuum_items vf') \<and> vacuum_item vf' = vacuum_item vf"
    if "vacuum_remove vf hash = Some vf'" for vf'
    using ve.mf.remove_spec [of vf hash vf'] inv that vacuum_remove_eq [OF sh] by (simp add: vacuum_abs)
  show "vacuum_remove vf hash \<noteq> None" if "vacuum_item vf hash \<in># vacuum_items vf"
    using ve.mf.remove_total [of vf hash] inv that vacuum_remove_eq [OF sh] by (simp add: vacuum_abs)
qed

section \<open>Creation and reset\<close>

lemma vacuum_empty:
  assumes "vacuum_shape vf" "vf_table vf = replicate n 0" "vf_count vf = 0"
  shows "vacuum_inv vf" "vacuum_items vf = {#}"
proof -
  have "vf_get vf i = 0" if "i < vacuum_slots vf" for i by (rule vp.get_zeros [OF assms(1) that assms(2)])
  then show "vacuum_items vf = {#}" using vb.zero_items [of vf] by (simp add: vacuum_abs)
  then show "vacuum_inv vf" using assms by (simp add: vacuum_inv_def)
qed

lemma vacuum_reset_ok:
  assumes "vacuum_shape vf" "vf_num_sets vf < 2 ^ 26"
  shows "vacuum_inv (vacuum_filter_reset vf)" "vacuum_items (vacuum_filter_reset vf) = {#}" "vacuum_item (vacuum_filter_reset vf) = vacuum_item vf"
proof -
  have w: "(vf_num_sets vf * 64) mod 2 ^ 32 div 8 = vf_num_sets vf * SET_WORDS" using assms(2) by (simp add: SET_WORDS_def)
  have t: "vacuum_filter_reset vf = vf\<lparr>vf_table := replicate (vf_num_sets vf * SET_WORDS) 0, vf_count := 0\<rparr>"
    using assms(1) unfolding vacuum_filter_reset_def Let_def w by (simp add: vacuum_shape_def)
  have "vacuum_shape (vacuum_filter_reset vf)" using assms(1) by (simp add: t vacuum_shape_def)
  moreover have "vf_table (vacuum_filter_reset vf) = replicate (vf_num_sets vf * SET_WORDS) 0" "vf_count (vacuum_filter_reset vf) = 0"
    by (simp_all add: t)
  ultimately show "vacuum_inv (vacuum_filter_reset vf)" "vacuum_items (vacuum_filter_reset vf) = {#}" by (rule vacuum_empty)+
  show "vacuum_item (vacuum_filter_reset vf) = vacuum_item vf"
    by (simp add: t vacuum_item_def [abs_def] vacuum_home_def [abs_def] vacuum_fpr_def [abs_def] vacuum_alt_index_def [abs_def])
qed

text \<open>The search for a range ends, after at most 63 doublings, at a power of two that satisfies one of its conditions.\<close>

lemma range_loop_ends:
  assumes "i \<le> 63"
  shows "\<exists>j. range_loop dsqrt dlog b n m (2 ^ i) = Some (2 ^ j) \<and>
    (\<not> 2 ^ j < m \<or> range_suffices dsqrt dlog b n (m div 2 ^ j) (2 ^ j) \<or> 2 ^ j > SIZE_MAX div 2)"
  using assms
proof (induction "63 - i" arbitrary: i rule: less_induct)
  case less
  show ?case
  proof (cases "2 ^ i < m \<and> \<not> range_suffices dsqrt dlog b n (m div 2 ^ i) (2 ^ i) \<and> \<not> 2 ^ i > SIZE_MAX div 2")
    case True
    have "i \<noteq> 63" using True by (auto simp: SIZE_MAX_def)
    then have i: "Suc i \<le> 63" "63 - Suc i < 63 - i" using less.prems by simp_all
    have "(2::nat) ^ Suc i \<le> 2 ^ 63" using i(1) by (intro power_increasing) auto
    then have "sz_mul (2 ^ i) 2 = 2 ^ Suc i" by (simp add: sz_mul_def)
    then have "range_loop dsqrt dlog b n m (2 ^ i) = range_loop dsqrt dlog b n m (2 ^ Suc i)"
      using True by (subst range_loop.simps) (simp add: Let_def)
    then show ?thesis using less.hyps [OF i(2,1)] by simp
  next
    case False
    have "m div 2 ^ i \<noteq> 0" if "2 ^ i < m" using that by (simp add: div_eq_0_iff)
    then have "range_loop dsqrt dlog b n m (2 ^ i) = Some (2 ^ i)" using False by (subst range_loop.simps) (auto simp: Let_def)
    then show ?thesis using False by blast
  qed
qed

lemma those_all: "(\<And>i. i \<in> set xs \<Longrightarrow> \<exists>y. f i = Some y \<and> P y) \<Longrightarrow> \<exists>ys. those (map f xs) = Some ys \<and> length ys = length xs \<and> (\<forall>y \<in> set ys. P y)"
proof (induction xs)
  case (Cons x xs)
  obtain ys where "those (map f xs) = Some ys" "length ys = length xs" "\<forall>y \<in> set ys. P y" using Cons by auto
  moreover obtain y where "f x = Some y" "P y" using Cons.prems [of x] by auto
  ultimately show ?case by (intro exI [of _ "y # ys"]) simp
qed simp

lemma ar_sizes_pow2: "\<exists>ar. compute_ar_sizes dsqrt dlog n b = Some ar \<and> length ar = VACUUM_NUM_AR \<and> (\<forall>a \<in> set ar. \<exists>j. 0 < j \<and> a = 2 ^ j)"
proof -
  define f where "f i = map_option (\<lambda>r. if r < 2 then 2 else r) (range_selection dsqrt dlog n b (1 - of_nat i / of_nat VACUUM_NUM_AR))" for i
  have "\<exists>y. f i = Some y \<and> (\<exists>j. 0 < j \<and> y = 2 ^ j)" for i
  proof -
    have "\<exists>j. range_loop dsqrt dlog b k m 1 = Some (2 ^ j)" for k m using range_loop_ends [of 0 dsqrt dlog b k m] by auto
    then obtain j where j: "range_selection dsqrt dlog n b (1 - of_nat i / of_nat VACUUM_NUM_AR) = Some (2 ^ j)"
      unfolding range_selection_def Let_def by blast
    show ?thesis
    proof (cases "j = 0")
      case True
      then have "f i = Some (2 ^ 1)" unfolding f_def j by simp
      then show ?thesis by blast
    next
      case False
      then have "(2::nat) \<le> 2 ^ j" using power_increasing [of 1 j "2::nat"] by simp
      then have "f i = Some (2 ^ j)" unfolding f_def j by simp
      then show ?thesis using False by blast
    qed
  qed
  then have "\<exists>ys. those (map f [0..<VACUUM_NUM_AR]) = Some ys \<and> length ys = length [0..<VACUUM_NUM_AR] \<and> (\<forall>y \<in> set ys. \<exists>j. 0 < j \<and> y = 2 ^ j)"
    by (intro those_all) simp
  moreover have "compute_ar_sizes dsqrt dlog n b = those (map f [0..<VACUUM_NUM_AR])" by (simp add: compute_ar_sizes_def f_def [abs_def])
  ultimately show ?thesis by simp
qed

lemma pow2_floor_ok:
  assumes "0 < n" "n < 2 ^ 64"
  shows "\<exists>t. pow2_floor n = 2 ^ t \<and> 2 ^ t \<le> n"
proof -
  let ?w = "word_of_nat n :: u64"
  have u: "unat ?w = n" using assms(2) by (rule unat_word_of_nat)
  then have "?w \<noteq> 0" using assms(1) by auto
  then obtain t where t: "t < 64" "top_bit ?w t" using top_bit_ex by blast
  have d: "drop_bit 1 (mask (Suc t) :: u64) = mask t" using t(1) by (intro bit_eqI) (auto simp: bit_simps)
  have "(mask (Suc t) :: u64) - mask t = 2 ^ t" by (simp add: mask_eq_exp_minus_1)
  then have "pow2_floor n = unat (2 ^ t :: u64)" unfolding pow2_floor_def Let_def smear_top [OF t(2)] d by simp
  then show ?thesis using unat_pow2_u64 [OF t(1)] top_bit_bounds(1) [OF t(2)] u by auto
qed

lemma clamp_le: "clamp_ar c a \<le> max 2 c"
  by (auto simp: clamp_ar_def Let_def)

lemma clamp_pow2:
  assumes "0 < j"
  shows "\<exists>k. 0 < k \<and> clamp_ar (2 ^ t) (2 ^ j) = 2 ^ k" "clamp_ar (2 ^ t) (2 ^ j) \<le> max 2 (2 ^ t)"
proof -
  have j: "(2::nat) \<le> 2 ^ j" using assms power_increasing [of 1 j "2::nat"] by simp
  have "\<not> (2 ^ t < (2::nat)) \<Longrightarrow> 0 < t" by (cases t) auto
  then show "\<exists>k. 0 < k \<and> clamp_ar (2 ^ t) (2 ^ j) = 2 ^ k"
    using assms j by (auto simp: clamp_ar_def Let_def intro: exI [of _ 1] exI [of _ t] exI [of _ j])
  show "clamp_ar (2 ^ t) (2 ^ j) \<le> max 2 (2 ^ t)" by (rule clamp_le)
qed

lemma fold_max: "fold (\<lambda>a m. if a > m then a else m) xs (m::nat) = Max (insert m (set xs))"
proof (induction xs arbitrary: m)
  case (Cons x xs)
  have "(if x > m then x else m) = max m x" by auto
  then show ?case using Cons by (cases "xs = []") (simp_all add: Max_insert max.left_commute max.assoc)
qed simp

text \<open>The ranges a creation chooses: powers of two that divide the largest of them.\<close>

lemma created_ranges:
  fixes ar0 :: "nat list" and nb :: nat
  assumes "0 < nb" "nb < 2 ^ 64" and ar0: "length ar0 = VACUUM_NUM_AR" "\<forall>a \<in> set ar0. \<exists>j. 0 < j \<and> a = 2 ^ j"
  defines "ar \<equiv> map (clamp_ar (pow2_floor nb)) ar0"
  defines "largest \<equiv> fold (\<lambda>a m. if a > m then a else m) ar 0"
  shows "length ar = VACUUM_NUM_AR" "2 \<le> largest" "largest \<le> max 2 nb" "\<forall>l \<in> set ar. l dvd largest \<and> (\<exists>k. 0 < k \<and> l = 2 ^ k)"
proof -
  show len: "length ar = VACUUM_NUM_AR" by (simp add: ar_def ar0(1))
  obtain t where t: "pow2_floor nb = 2 ^ t" "2 ^ t \<le> nb" using pow2_floor_ok [OF assms(1,2)] by blast
  have p: "\<exists>k. 0 < k \<and> l = 2 ^ k" "l \<le> max 2 nb" if "l \<in> set ar" for l
  proof -
    obtain a where a: "a \<in> set ar0" "l = clamp_ar (2 ^ t) a" using \<open>l \<in> set ar\<close> t(1) by (auto simp: ar_def)
    then obtain j where "0 < j" "a = 2 ^ j" using ar0(2) by blast
    then show "\<exists>k. 0 < k \<and> l = 2 ^ k" "l \<le> max 2 nb" using clamp_pow2 [of j t] a(2) t(2) by auto
  qed
  have ne: "set ar \<noteq> {}" using len by (auto simp: VACUUM_NUM_AR_def)
  have L: "largest = Max (set ar)" using ne by (simp add: largest_def fold_max Max_insert)
  then have Lin: "largest \<in> set ar" using ne by simp
  obtain K where K: "0 < K" "largest = 2 ^ K" using p(1) [OF Lin] by blast
  show "2 \<le> largest" using K power_increasing [of 1 K "2::nat"] by simp
  show "largest \<le> max 2 nb" by (rule p(2) [OF Lin])
  show "\<forall>l \<in> set ar. l dvd largest \<and> (\<exists>k. 0 < k \<and> l = 2 ^ k)"
  proof
    fix l assume l: "l \<in> set ar"
    then obtain k where k: "0 < k" "l = 2 ^ k" using p(1) by blast
    have "l \<le> largest" using l L by simp
    then have "k \<le> K" using k(2) K(2) by simp
    then show "l dvd largest \<and> (\<exists>k. 0 < k \<and> l = 2 ^ k)" using k K(2) by (auto simp: le_imp_power_dvd)
  qed
qed

lemma buckets_for_bounds:
  assumes "0 < n" "0 < bs"
  shows "n \<le> buckets_for n bs * bs" "1000 * (buckets_for n bs * bs) \<le> 1066 * n + 1000 * bs"
proof -
  define p where "p = dround (95 / 100)"
  have p: "p \<le> 951 / 1000" "949 / 1000 \<le> p" using dround_near [of "95 / 100"] by (simp_all add: p_def)
  define c where "c = (of_nat n :: rat)"
  define b where "b = (of_nat bs :: rat)"
  have cb: "0 < c" "0 < b" using assms by (simp_all add: c_def b_def)
  define q where "q = dround (dround c / dround (b * p))"
  have bp: "0 < b * p" using cb(2) p(2) by simp
  have q: "q \<le> c / (b * p) * (101 / 100)" "c / (b * p) * (99 / 100) \<le> q" using double_quotient [OF cb(1) bp] by (simp_all add: q_def)
  have e: "buckets_for n bs = nat \<lceil>q\<rceil>" by (simp add: buckets_for_def q_def c_def b_def p_def)
  have "q * b * p \<le> c * (101 / 100)" using q(1) bp by (simp add: field_simps)
  moreover have "q * b * (949 / 1000) \<le> q * b * p"
  proof -
    have "0 \<le> c / (b * p) * (99 / 100)" using cb(1) bp by simp
    then have "0 \<le> q * b" using q(2) cb(2) by simp
    then show ?thesis using p(2) by (rule mult_left_mono [rotated])
  qed
  ultimately have up: "q * b \<le> c * (1065 / 1000)" using cb(1) by simp
  have "c * (99 / 100) \<le> q * b * p" using q(2) bp by (simp add: field_simps)
  also have "\<dots> \<le> q * b * (951 / 1000)"
  proof -
    have "0 \<le> c / (b * p) * (99 / 100)" using cb(1) bp by simp
    then have "0 \<le> q * b" using q(2) cb(2) by simp
    then show ?thesis using p(1) by (rule mult_left_mono [rotated])
  qed
  finally have lo: "c \<le> q * b" using cb(1) by (simp add: mult.commute [of q b])
  then have "0 \<le> q" using cb by (metis less_le_trans less_imp_le zero_less_mult_pos2)
  then have k: "(of_nat (nat \<lceil>q\<rceil>) :: rat) = of_int \<lceil>q\<rceil>" by simp
  have "q * b \<le> of_int \<lceil>q\<rceil> * b" using cb(2) by (intro mult_right_mono) auto
  then have "c \<le> of_nat (nat \<lceil>q\<rceil>) * b" using lo k by simp
  then have "(of_nat n :: rat) \<le> of_nat (nat \<lceil>q\<rceil> * bs)" by (simp add: c_def b_def)
  then show "n \<le> buckets_for n bs * bs" unfolding e by (simp only: of_nat_le_iff)
  have "of_int \<lceil>q\<rceil> * b \<le> (q + 1) * b" using cb(2) by (intro mult_right_mono) (linarith, simp)
  then have "of_nat (nat \<lceil>q\<rceil>) * b * 1000 \<le> 1066 * c + 1000 * b" using up k cb(1) by (simp add: distrib_right)
  then have "(of_nat (1000 * (nat \<lceil>q\<rceil> * bs)) :: rat) \<le> of_nat (1066 * n + 1000 * bs)" by (simp add: c_def b_def mult.commute mult.left_commute)
  then show "1000 * (buckets_for n bs * bs) \<le> 1066 * n + 1000 * bs" unfolding e by (simp only: of_nat_le_iff)
qed

lemma round_up_ok:
  assumes "0 < L" "0 < n" "n + L < 2 ^ 63"
  shows "L dvd round_up_buckets n L" "n \<le> round_up_buckets n L" "round_up_buckets n L < n + L"
proof -
  have d: "sz_sub (sz_add n L) 1 div L = (n + L - 1) div L" using assms sz_sub_small [of 1 "n + L"] by (simp add: sz_add_small)
  define k where "k = (n + L - 1) div L"
  have k: "n \<le> k * L" using ceil_div(1) [OF assms(1,2)] by (simp add: k_def)
  have le: "k * L \<le> n + L - 1" by (simp add: k_def)
  then have "k * L < 2 ^ 64" using assms by (simp add: less_diff_conv2)
  then have "round_up_buckets n L = k * L" unfolding round_up_buckets_def d k_def [symmetric] by (simp add: sz_mul_def)
  then show "L dvd round_up_buckets n L" "n \<le> round_up_buckets n L" "round_up_buckets n L < n + L" using k le assms(1) by auto
qed

text \<open>Up to \<open>2 ^ 30\<close> items nothing is halved, and the alignment of the buckets with the ranges holds.\<close>

lemma vacuum_create_ok:
  fixes capacity :: nat and bs8 fp8 me8 :: u8 and dsqrt dlog :: "rat \<Rightarrow> rat"
  defines "bs \<equiv> unat (if bs8 = 0 then 4 else bs8)"
  defines "fp \<equiv> unat (if fp8 = 0 then 10 else fp8)"
  assumes cap: "0 < capacity" "capacity \<le> 2 ^ 30" and fp: "2 \<le> fp" "fp \<le> 32"
  shows "\<exists>vf. vacuum_filter_create dsqrt dlog capacity bs8 fp8 me8 a = Some (if a then Some vf else None) \<and>
    vacuum_inv vf \<and> vacuum_items vf = {#} \<and> capacity \<le> vf_num_entries vf"
proof -
  define nb1 where "nb1 = (if buckets_for capacity bs < 1 then 1 else buckets_for capacity bs)"
  obtain ar0 where ar0: "compute_ar_sizes dsqrt dlog capacity bs = Some ar0" "length ar0 = VACUUM_NUM_AR" "\<forall>a \<in> set ar0. \<exists>j. 0 < j \<and> a = 2 ^ j"
    using ar_sizes_pow2 by blast
  define ar where "ar = map (clamp_ar (pow2_floor nb1)) ar0"
  define L where "L = fold (\<lambda>a m. if a > m then a else m) ar 0"
  define nb2 where "nb2 = round_up_buckets nb1 L"
  define nb where "nb = vf_cap_buckets bs nb2"
  define eps where "eps = 512 div fp"
  define ne where "ne = sz_mul nb bs"
  define ns where "ns = sz_sub (sz_add ne eps) 1 div eps"
  have bs: "0 < bs" "bs < 256" using unat_bounds(4) [of bs8] by (auto simp: bs_def unat_gt_0)
  note bf = buckets_for_bounds [OF cap(1) bs(1)]
  have "buckets_for capacity bs \<noteq> 0" using bf(1) cap(1) by (cases "buckets_for capacity bs = 0") auto
  then have nb1: "nb1 = buckets_for capacity bs" "0 < nb1" by (simp_all add: nb1_def)
  have big: "1000 * (nb1 * bs) \<le> 1066 * 2 ^ 30 + 1000 * 255" unfolding nb1(1)
  proof -
    have "1066 * capacity + 1000 * bs \<le> 1066 * 2 ^ 30 + 1000 * 255"
      using cap(2) bs(2) by (intro add_mono mult_le_mono2) simp_all
    then show "1000 * (buckets_for capacity bs * bs) \<le> 1066 * 2 ^ 30 + 1000 * 255" using bf(2) by (rule order_trans [rotated])
  qed
  then have e31: "nb1 * bs < 2 ^ 31" by (simp add: mult.commute)
  have "nb1 \<le> nb1 * bs" using bs(1) by simp
  then have nb1u: "nb1 < 2 ^ 31" using e31 by (rule le_less_trans)
  have r: "length ar = VACUUM_NUM_AR" "2 \<le> L" "L \<le> max 2 nb1" "\<forall>l \<in> set ar. l dvd L \<and> (\<exists>k. 0 < k \<and> l = 2 ^ k)"
    using created_ranges [OF _ _ ar0(2,3), of nb1] nb1(2) nb1u unfolding L_def ar_def by simp_all
  have ru: "L dvd nb2" "nb1 \<le> nb2" "nb2 < nb1 + L" using round_up_ok [of L nb1] r(2,3) nb1 nb1u by (simp_all add: nb2_def)
  have "nb2 \<le> 2 * nb1" using ru(3) r(3) nb1(2) by (cases "nb1 = 1") auto
  then have "nb2 * bs \<le> 2 * (nb1 * bs)" by simp
  then have nbs: "nb2 * bs < 2 ^ 32" by (rule le_less_trans) (use e31 in \<open>simp add: mult.commute\<close>)
  moreover have "nb2 \<le> nb2 * bs" using bs(1) by simp
  ultimately have lt: "nb2 < 2 ^ 32" by linarith
  have nbe: "nb = nb2" unfolding nb_def using nbs lt by (subst vf_cap_buckets.simps) (simp add: UINT32_MAX_def sz_mul_def)
  have ne: "ne = nb * bs" "0 < ne" "ne < 2 ^ 32" using nbs nbe ru(2) nb1(2) bs(1) by (simp_all add: ne_def sz_mul_def)
  have eps: "16 \<le> eps" "eps \<le> 512" "eps * fp \<le> 512"
  proof -
    show "16 \<le> eps" using fp by (simp add: eps_def less_eq_div_iff_mult_less_eq)
    show "eps \<le> 512" "eps * fp \<le> 512" by (simp_all add: eps_def)
  qed
  have ns: "ns = (ne + eps - 1) div eps" using ne eps sz_sub_small [of 1 "ne + eps"] by (simp add: ns_def sz_add_small)
  have nsb: "ne \<le> ns * eps" "ns \<le> ne" using ceil_div [of eps ne] eps(1) ne(2) by (simp_all add: ns)
  define vf where "vf = \<lparr>vf_num_entries = ne, vf_count = 0, vf_num_buckets = nb, vf_entries_per_set = eps, vf_num_sets = ns,
    vf_fingerprint_bits = fp, vf_bucket_size = bs, vf_max_evicts = unat (if me8 = 0 then 200 else me8), vf_ar = ar,
    vf_table = replicate (ns * SET_WORDS) 0\<rparr>"
  have cr: "vacuum_filter_create dsqrt dlog capacity bs8 fp8 me8 a = Some (if a then Some vf else None)"
  proof -
    have m: "ne mod 2 ^ 32 = ne" "nb mod 2 ^ 32 = nb" "eps mod 2 ^ 32 = eps" "ns mod 2 ^ 32 = ns" using ne nsb eps lt nbe by simp_all
    have c: "capacity \<noteq> 0" "\<not> (fp < 2 \<or> fp > 32)" "\<not> capacity > UINT32_MAX" "\<not> nb < 1" "\<not> ns > (SIZE_MAX - 56) div 64"
      using cap fp ne nsb nbe ru(2) nb1(2) by (auto simp: UINT32_MAX_def SIZE_MAX_def)
    show ?thesis
      unfolding vacuum_filter_create_def Let_def bs_def [symmetric] fp_def [symmetric] nb1_def [symmetric] ar0(1) Option.bind.bind_lunit ar_def [symmetric]
        L_def [symmetric] nb2_def [symmetric] nb_def [symmetric] eps_def [symmetric] ne_def [symmetric] ns_def [symmetric]
      unfolding m using c by (simp add: vf_def)
  qed
  have "\<forall>l \<in> set ar. ar_ok nb l" using r(4) ru(1) nbe by (auto simp: ar_ok_def)
  then have "vacuum_shape vf"
    using ne nsb eps lt nbe bs fp r(1) ru(2) nb1(2) by (simp add: vacuum_shape_def vf_def)
  moreover have "vf_table vf = replicate (ns * SET_WORDS) 0" "vf_count vf = 0" by (simp_all add: vf_def)
  ultimately have e: "vacuum_inv vf" "vacuum_items vf = {#}" by (rule vacuum_empty)+
  have "nb1 * bs \<le> ne" using ru(2) nbe ne(1) by simp
  then have "capacity \<le> vf_num_entries vf" using bf(1) nb1(1) by (simp add: vf_def)
  then show ?thesis using cr e by blast
qed

section \<open>Properties\<close>

definition ex_vacuum :: vacuum_filter where
  "ex_vacuum = \<lparr>vf_num_entries = 4, vf_count = 0, vf_num_buckets = 2, vf_entries_per_set = 51, vf_num_sets = 1,
     vf_fingerprint_bits = 10, vf_bucket_size = 2, vf_max_evicts = 3, vf_ar = [2, 2, 2, 2], vf_table = replicate 8 0\<rparr>"

lemma ex_vacuum_shape: "vacuum_shape ex_vacuum"
proof -
  have "ar_ok 2 2" unfolding ar_ok_def by (intro conjI exI [of _ 1]) simp_all
  then show ?thesis by (simp add: vacuum_shape_def ex_vacuum_def SET_WORDS_def VACUUM_NUM_AR_def)
qed

lemma ex_vacuum_inv: "vacuum_inv ex_vacuum" "vacuum_items ex_vacuum = {#}"
  using vacuum_empty [OF ex_vacuum_shape, of 8] by (simp_all add: ex_vacuum_def)

lemma vacuum_empty_insert:
  assumes "vacuum_inv vf" "vacuum_items vf = {#}"
  shows "\<exists>vf'. vacuum_add vf hash = Some vf'"
proof -
  have sh: "vacuum_shape vf" using assms(1) by (simp add: vacuum_inv_def)
  have b: "vacuum_home vf hash < vf_num_buckets vf" using vb.home_less [OF sh] .
  obtain slot where "vf_find_empty_slot vf (vacuum_home vf hash) = Some slot"
    using vb.empty_search [OF sh _ b] assms(2) vacuum_search(2) [OF sh b] by (auto simp: vacuum_abs)
  then show ?thesis by (simp add: vacuum_add_def vacuum_filter_insert_def Let_def vacuum_home_def vf_place_def)
qed

lemma ex_vacuum_run: "\<exists>vf'. run_ops vacuum_add vacuum_remove ex_vacuum [Ins h, Del h, Ins g] = Some vf'"
proof -
  obtain t where t: "vacuum_add ex_vacuum h = Some t" using vacuum_empty_insert [OF ex_vacuum_inv] by blast
  obtain u where u: "vacuum_remove t h = Some u" "vacuum_inv u" "vacuum_items u = {#}"
    using vacuum.add_remove [OF ex_vacuum_inv(1) t] ex_vacuum_inv(2) by auto
  obtain v where "vacuum_add u g = Some v" using vacuum_empty_insert [OF u(2,3)] by blast
  then show ?thesis using t u by simp
qed

text \<open>
  C25. Insertion. \<open>vacuum_filter_insert\<close> either adds exactly the item of the hash, directly, by the
  look-ahead or through any chain of evictions, and the hash is then found; or it reports
  \<open>VACUUM_ERR_FULL\<close> and the rollback has restored the filter bit for bit.
\<close>

theorem vacuum_insert_correct:
  assumes "vacuum_inv vf"
  shows "(\<exists>vf'. vacuum_filter_insert vf hash = (VACUUM_OK, vf') \<and> vacuum_inv vf' \<and>
      vacuum_items vf' = add_mset (vacuum_item vf hash) (vacuum_items vf) \<and> vacuum_filter_lookup vf' hash) \<or>
    vacuum_filter_insert vf hash = (VACUUM_ERR_FULL, vf)"
proof -
  have sh: "vacuum_shape vf" using assms by (simp add: vacuum_inv_def)
  have "vacuum_inv vf' \<and> vacuum_items vf' = add_mset (vacuum_item vf hash) (vacuum_items vf) \<and> vacuum_filter_lookup vf' hash"
    if "vacuum_filter_insert vf hash = (VACUUM_OK, vf')" for vf'
  proof -
    have "vacuum_add vf hash = Some vf'" using that by (simp add: vacuum_add_def)
    then show ?thesis using vacuum.add_spec [OF assms] vacuum.amq.add_found [OF assms] by blast
  qed
  then show ?thesis using vacuum_insert_ok [OF sh, of hash] by blast
qed

theorem vacuum_insert_correct_witness:
  "vacuum_inv ex_vacuum \<and>
    ((\<exists>vf'. vacuum_filter_insert ex_vacuum 0x500000007 = (VACUUM_OK, vf') \<and> vacuum_inv vf' \<and>
      vacuum_items vf' = add_mset (vacuum_item ex_vacuum 0x500000007) (vacuum_items ex_vacuum) \<and> vacuum_filter_lookup vf' 0x500000007) \<or>
    vacuum_filter_insert ex_vacuum 0x500000007 = (VACUUM_ERR_FULL, ex_vacuum))"
  using vacuum_insert_correct [OF ex_vacuum_inv(1)] ex_vacuum_inv(1) by blast

text \<open>
  C26. Histories. Run any sequence of insertions and deletions on an empty vacuum filter, each of them
  successful, where only hashes are deleted that are in the filter. Then the invariant holds, the counter is
  the number of hashes held, every hash held is found, and deleting any of them succeeds.
\<close>

theorem vacuum_history_correct:
  assumes "vacuum_inv vf" "vacuum_items vf = {#}" "run_ops vacuum_add vacuum_remove vf ops = Some vf'" "run_keys {#} ops = Some M"
  shows "vacuum_inv vf' \<and> vacuum_filter_count vf' = size M \<and>
    (\<forall>hash \<in># M. vacuum_filter_lookup vf' hash \<and> fst (vacuum_filter_delete vf' hash) = VACUUM_OK)"
proof -
  have r: "vacuum_inv vf' \<and> vacuum_items vf' = image_mset (vacuum_item vf) M \<and> vacuum_item vf' = vacuum_item vf"
    using vacuum.run_refines [OF assms(1) _ assms(3,4)] assms(2) by simp
  then have "vacuum_filter_count vf' = size M" by (simp add: vacuum_inv_def vacuum_filter_count_def)
  moreover have "vacuum_filter_lookup vf' hash" if "hash \<in># M" for hash using vacuum.history_found [OF assms that] .
  moreover have "fst (vacuum_filter_delete vf' hash) = VACUUM_OK" if "vacuum_filter_lookup vf' hash" for hash
    using vb.delete_op_ok [of vf' hash] vacuum_delete_eq [of vf' hash] vacuum_lookup_eq [of vf' hash] r that by (auto simp: vacuum_inv_def)
  ultimately show ?thesis using r by blast
qed

theorem vacuum_history_correct_witness:
  "\<exists>vf'. vacuum_inv ex_vacuum \<and> vacuum_items ex_vacuum = {#} \<and>
    run_ops vacuum_add vacuum_remove ex_vacuum [Ins 0x500000007, Del 0x500000007, Ins 9] = Some vf' \<and>
    run_keys {#} [Ins 0x500000007, Del 0x500000007, Ins (9 :: u64)] = Some {#9#} \<and>
    vacuum_inv vf' \<and> vacuum_filter_count vf' = size {#9 :: u64#} \<and>
    (\<forall>hash \<in># {#9#}. vacuum_filter_lookup vf' hash \<and> fst (vacuum_filter_delete vf' hash) = VACUUM_OK)"
proof -
  let ?ops = "[Ins 0x500000007, Del 0x500000007, Ins 9] :: u64 filter_op list"
  obtain vf' where vf': "run_ops vacuum_add vacuum_remove ex_vacuum ?ops = Some vf'" using ex_vacuum_run by blast
  have k: "run_keys {#} ?ops = Some {#9#}" by simp
  show ?thesis using vacuum_history_correct [OF ex_vacuum_inv vf' k] ex_vacuum_inv vf' k by blast
qed

lemma vacuum_create_returns: "\<exists>r. vacuum_filter_create dsqrt dlog capacity bucket_size fp_bits max_evicts alloc = Some r"
proof -
  obtain ar where "compute_ar_sizes dsqrt dlog capacity (unat (if bucket_size = 0 then 4 else bucket_size)) = Some ar" using ar_sizes_pow2 by blast
  then show ?thesis unfolding vacuum_filter_create_def Let_def by simp
qed

text \<open>
  C27. Creation. \<open>vacuum_filter_create\<close> returns for all arguments, whatever the square root and the
  logarithm of the C library compute: the search for the ranges, a loop without a counter, ends. For up to \<open>2 ^ 30\<close> items
  and a fingerprint width of 0 (the default) or between 2 and 32 bits it returns \<open>NULL\<close> only when the allocation fails;
  otherwise every range of the filter is a power of two that divides the number of buckets, the filter is empty and it has
  room for the requested items.
\<close>

theorem vacuum_create_correct:
  assumes "0 < capacity" "capacity \<le> 2 ^ 30" "fp_bits = 0 \<or> 2 \<le> unat fp_bits \<and> unat fp_bits \<le> 32"
  shows "(\<exists>r. vacuum_filter_create dsqrt dlog any_capacity any_size any_bits any_evicts alloc = Some r) \<and>
    (\<exists>vf. vacuum_filter_create dsqrt dlog capacity bucket_size fp_bits max_evicts True = Some (Some vf) \<and>
      vacuum_filter_create dsqrt dlog capacity bucket_size fp_bits max_evicts False = Some None \<and>
      vacuum_inv vf \<and> vacuum_items vf = {#} \<and> capacity \<le> vacuum_filter_capacity vf)"
  using vacuum_create_returns vacuum_create_ok [of capacity fp_bits dsqrt dlog bucket_size max_evicts True]
    vacuum_create_ok [of capacity fp_bits dsqrt dlog bucket_size max_evicts False] assms
  by (auto simp: vacuum_filter_capacity_def split: if_splits)

theorem vacuum_create_correct_witness:
  "(0 :: nat) < 100 \<and> (100 :: nat) \<le> 2 ^ 30 \<and> 2 \<le> unat (10 :: u8) \<and> unat (10 :: u8) \<le> 32 \<and>
    (\<exists>vf. vacuum_filter_create (\<lambda>x. x / 2) (\<lambda>x. x / 3) 100 4 10 0 True = Some (Some vf) \<and>
      vacuum_inv vf \<and> vacuum_items vf = {#} \<and> 100 \<le> vacuum_filter_capacity vf)"
proof -
  have h: "(0 :: nat) < 100" "(100 :: nat) \<le> 2 ^ 30" "(10 :: u8) = 0 \<or> 2 \<le> unat (10 :: u8) \<and> unat (10 :: u8) \<le> 32" by simp_all
  show ?thesis using vacuum_create_correct [OF h, of "\<lambda>x. x / 2" "\<lambda>x. x / 3" 0 0 0 0 True 4 0] h by auto
qed

end
