(* ===== verification/Rank_Select.thy ===== *)
theory Rank_Select
  imports Bit_Array
begin

text \<open>
  Rank and select on bit vectors: the word-level operations of the quotient filters
  (\<open>rank64\<close> and \<open>select64\<close>) and the arrays of prefix sums that extend them to many words. \<open>cnt A x\<close> is the
  reference: the number of positions below \<open>x\<close> with \<open>A\<close>. Positions and counts are \<open>uint64_t\<close> in the code
  and never exceed the number of slots; they are natural numbers here.
\<close>

unbundle bit_operations_syntax

section \<open>Counting\<close>

primrec cnt :: "(nat \<Rightarrow> bool) \<Rightarrow> nat \<Rightarrow> nat" where
  "cnt A 0 = 0"
| "cnt A (Suc x) = cnt A x + (if A x then 1 else 0)"

lemma cnt_mono: "x \<le> y \<Longrightarrow> cnt A x \<le> cnt A y"
  by (induction y) (auto simp: le_Suc_eq)

lemma cnt_le: "cnt A x \<le> x"
  by (induction x) auto

lemma cnt_cong: "(\<And>y. y < x \<Longrightarrow> A y = B y) \<Longrightarrow> cnt A x = cnt B x"
  by (induction x) auto

lemma cnt_less: "A y \<Longrightarrow> y < x \<Longrightarrow> cnt A y < cnt A x"
  using cnt_mono [of "Suc y" x A] by simp

lemma cnt_le_iff:
  assumes "A y" "A z"
  shows "cnt A y \<le> cnt A z \<longleftrightarrow> y \<le> z"
  using cnt_less [of A z y] cnt_mono [of y z A] assms by (auto simp: not_le [symmetric])

lemma cnt_inj: "A y \<Longrightarrow> A z \<Longrightarrow> cnt A y = cnt A z \<Longrightarrow> y = z"
  using cnt_le_iff [of A y z] cnt_le_iff [of A z y] by simp

lemma cnt_set: "cnt (A(q := True)) x = cnt A x + (if \<not> A q \<and> q < x then 1 else 0)"
  by (induction x) (auto simp: less_Suc_eq)

lemma cnt_clear: "cnt A x = cnt (A(q := False)) x + (if A q \<and> q < x then 1 else 0)"
  by (induction x) (auto simp: less_Suc_eq)

lemma cnt_ex: "k < cnt A x \<Longrightarrow> \<exists>y < x. A y \<and> cnt A y = k"
proof (induction x)
  case (Suc x)
  show ?case
  proof (cases "k < cnt A x")
    case True
    then show ?thesis using Suc.IH by (auto intro: less_SucI)
  next
    case False
    then have "A x" "cnt A x = k" using Suc.prems by (auto split: if_splits)
    then show ?thesis by blast
  qed
qed simp

lemma cnt_add: "cnt A (a + b) = cnt A a + cnt (\<lambda>i. A (a + i)) b"
  by (induction b) auto

lemma cnt_none: "(\<And>y. a \<le> y \<Longrightarrow> y < b \<Longrightarrow> \<not> A y) \<Longrightarrow> a \<le> b \<Longrightarrow> cnt A b = cnt A a"
proof -
  assume none: "\<And>y. a \<le> y \<Longrightarrow> y < b \<Longrightarrow> \<not> A y" and "a \<le> b"
  then obtain d where d: "b = a + d" using le_Suc_ex by blast
  have "cnt (\<lambda>i. A (a + i)) d = cnt (\<lambda>i. False) d" using none d by (intro cnt_cong) auto
  also have "cnt (\<lambda>i. False) d = 0" by (induction d) auto
  finally show ?thesis by (simp add: d cnt_add)
qed

lemma length_filter_cnt: "length (filter A [0..<n]) = cnt A n"
  by (induction n) auto

section \<open>Words\<close>

definition builtin_popcountll :: "u64 \<Rightarrow> nat" where
  "builtin_popcountll w = length (filter (bit w) [0..<64])"

definition builtin_ctzll :: "u64 \<Rightarrow> nat" where
  "builtin_ctzll w = length (takeWhile (\<lambda>i. \<not> bit w i) [0..<64])"

lemma popcount_cnt: "builtin_popcountll w = cnt (bit w) 64"
  by (simp add: builtin_popcountll_def length_filter_cnt)

definition low_mask :: "nat \<Rightarrow> u64" where
  "low_mask n = push_bit n 1 - 1"

definition rank64 :: "u64 \<Rightarrow> nat \<Rightarrow> nat" where
  "rank64 word pos =
     (let mask = (if pos < 63 then low_mask (pos + 1) else NOT 0) in builtin_popcountll (word AND mask))"

function select64_loop :: "u64 \<Rightarrow> nat \<Rightarrow> nat \<Rightarrow> nat \<Rightarrow> nat" where
  "select64_loop word k lo hi =
     (if lo < hi
      then let mid = lo + (hi - lo) div 2;
               low_bits = word AND low_mask (mid + 1)
           in if builtin_popcountll low_bits \<ge> k then select64_loop word k lo mid
              else select64_loop word k (mid + 1) hi
      else lo)"
  by auto
termination by (relation "measure (\<lambda>(word, k, lo, hi). hi - lo)") auto

declare select64_loop.simps [simp del]

definition select64 :: "u64 \<Rightarrow> nat \<Rightarrow> nat" where
  "select64 word k = (if k = 0 \<or> k > builtin_popcountll word then 64 else select64_loop word k 0 63)"

lemma bit_low_mask: "bit (low_mask n) i \<longleftrightarrow> i < n \<and> i < 64"
proof -
  have "low_mask n = mask n" by (simp add: low_mask_def mask_eq_exp_minus_1)
  then show ?thesis by (auto simp: bit_mask_iff)
qed

lemma popcount_low:
  assumes "n \<le> 64"
  shows "builtin_popcountll (word AND low_mask n) = cnt (bit word) n"
proof -
  have "cnt (bit (word AND low_mask n)) 64 = cnt (bit (word AND low_mask n)) n"
    using assms by (intro cnt_none) (auto simp: bit_simps bit_low_mask)
  also have "\<dots> = cnt (bit word) n" using assms by (intro cnt_cong) (auto simp: bit_simps bit_low_mask)
  finally show ?thesis by (simp add: popcount_cnt)
qed

lemma rank64_cnt:
  assumes "pos < 64"
  shows "rank64 word pos = cnt (bit word) (Suc pos)"
proof (cases "pos < 63")
  case True
  then show ?thesis using popcount_low [of "Suc pos" word] by (simp add: rank64_def)
next
  case False
  then have "pos = 63" using assms by simp
  then show ?thesis by (simp add: rank64_def popcount_cnt)
qed

lemma select64_loop_ok:
  assumes "lo \<le> p" "p \<le> hi" "hi < 64" "bit word p" "cnt (bit word) p = k - 1" "0 < k"
  shows "select64_loop word k lo hi = p"
  using assms
proof (induction word k lo hi rule: select64_loop.induct)
  case (1 word k lo hi)
  show ?case
  proof (cases "lo < hi")
    case True
    define mid where "mid = lo + (hi - lo) div 2"
    have mid: "lo \<le> mid" "mid < hi" using True by (auto simp: mid_def)
    have c: "builtin_popcountll (word AND low_mask (mid + 1)) = cnt (bit word) (Suc mid)"
      using popcount_low [of "mid + 1" word] mid 1(5) by simp
    have i: "k \<le> cnt (bit word) (Suc mid) \<longleftrightarrow> p \<le> mid"
    proof (cases "p \<le> mid")
      case True
      then show ?thesis using cnt_less [of "bit word" p "Suc mid"] 1(6-8) by simp
    next
      case False
      then show ?thesis using cnt_mono [of "Suc mid" p "bit word"] 1(7,8) by simp
    qed
    have step: "select64_loop word k lo hi =
        (if k \<le> cnt (bit word) (Suc mid) then select64_loop word k lo mid else select64_loop word k (mid + 1) hi)"
      using True c by (subst select64_loop.simps) (simp add: mid_def [symmetric] Let_def)
    show ?thesis
    proof (cases "p \<le> mid")
      case True
      then show ?thesis using 1(1) [OF \<open>lo < hi\<close> mid_def refl] c i step 1(3,5-8) mid by simp
    next
      case False
      then show ?thesis using 1(2) [OF \<open>lo < hi\<close> mid_def refl] c i step 1(4-8) mid by simp
    qed
  qed (use 1 in \<open>subst select64_loop.simps, simp\<close>)
qed

lemma select64_ok:
  assumes "0 < k" "k \<le> cnt (bit word) 64"
  shows "select64 word k < 64" "bit word (select64 word k)" "cnt (bit word) (select64 word k) = k - 1"
proof -
  have "k - 1 < cnt (bit word) 64" using assms by linarith
  then obtain p where p: "p < 64" "bit word p" "cnt (bit word) p = k - 1" using cnt_ex by blast
  have "select64 word k = p" using select64_loop_ok [of 0 p 63 word k] p assms by (simp add: select64_def popcount_cnt)
  then show "select64 word k < 64" "bit word (select64 word k)" "cnt (bit word) (select64 word k) = k - 1" using p by simp_all
qed

section \<open>Bit vectors\<close>

definition test_bit_at :: "u64 list \<Rightarrow> nat \<Rightarrow> bool" where
  "test_bit_at bv pos \<longleftrightarrow> drop_bit (pos mod 64) (bv ! (pos div 64)) AND 1 \<noteq> 0"

definition set_bit_at :: "u64 list \<Rightarrow> nat \<Rightarrow> u64 list" where
  "set_bit_at bv pos = bv[pos div 64 := (bv ! (pos div 64)) OR push_bit (pos mod 64) 1]"

definition clear_bit_at :: "u64 list \<Rightarrow> nat \<Rightarrow> u64 list" where
  "clear_bit_at bv pos = bv[pos div 64 := (bv ! (pos div 64)) AND NOT (push_bit (pos mod 64) 1)]"

lemma test_bit_tbit [simp]: "test_bit_at bv pos = tbit bv pos"
  by (simp add: test_bit_at_def tbit_def bit_iff_odd_drop_bit and_one_eq odd_iff_mod_2_eq_one)

lemma length_bit_at [simp]: "length (set_bit_at bv pos) = length bv" "length (clear_bit_at bv pos) = length bv"
  by (simp_all add: set_bit_at_def clear_bit_at_def)

text \<open>On positions inside the vector the bits change as a function does.\<close>

lemma tbit_set_bit_at: "pos < 64 * length bv \<Longrightarrow> tbit (set_bit_at bv pos) = (tbit bv)(pos := True)"
  using tbit_set_tbit [of pos bv] by (simp add: set_bit_at_def set_tbit_def fun_eq_iff)

lemma tbit_clear_bit_at:
  assumes "pos < 64 * length bv"
  shows "tbit (clear_bit_at bv pos) = (tbit bv)(pos := False)"
proof
  fix j
  have w: "pos div 64 < length bv" using assms by (simp add: less_mult_imp_div_less mult.commute)
  have "bit (push_bit (pos mod 64) 1 :: u64) i \<longleftrightarrow> i = pos mod 64" for i by (auto simp: bit_simps)
  moreover have "j = pos \<longleftrightarrow> j div 64 = pos div 64 \<and> j mod 64 = pos mod 64" by (metis mult_div_mod_eq)
  moreover have "j mod 64 < 64" by simp
  ultimately show "tbit (clear_bit_at bv pos) j = ((tbit bv)(pos := False)) j"
    using tbit_upd [OF w] by (auto simp: clear_bit_at_def bit_simps tbit_def)
qed

section \<open>Prefix sums\<close>

definition prefix_ok :: "u64 list \<Rightarrow> nat list \<Rightarrow> bool" where
  "prefix_ok ws ps \<longleftrightarrow> length ps = Suc (length ws) \<and> (\<forall>b \<le> length ws. ps ! b = cnt (tbit ws) (64 * b))"

lemma cnt_block: "cnt (tbit ws) (64 * b + i) = cnt (tbit ws) (64 * b) + cnt (bit (ws ! b)) i" if "i \<le> 64"
proof -
  have "cnt (\<lambda>j. tbit ws (64 * b + j)) i = cnt (bit (ws ! b)) i" using that by (intro cnt_cong) (simp add: tbit_word)
  then show ?thesis by (simp add: cnt_add)
qed

lemma cnt_next_block: "cnt (tbit ws) (64 * Suc b) = cnt (tbit ws) (64 * b) + builtin_popcountll (ws ! b)"
  using cnt_block [of 64 ws b] by (simp add: popcount_cnt add.commute)

lemma rank_prefix:
  assumes "prefix_ok ws ps" "pos < 64 * length ws"
  shows "ps ! (pos div 64) + rank64 (ws ! (pos div 64)) (pos mod 64) = cnt (tbit ws) (Suc pos)"
proof -
  have "pos div 64 < length ws" using assms(2) by (simp add: less_mult_imp_div_less mult.commute)
  then have "ps ! (pos div 64) = cnt (tbit ws) (64 * (pos div 64))" using assms(1) by (simp add: prefix_ok_def)
  moreover have "64 * (pos div 64) + Suc (pos mod 64) = Suc pos" by simp
  ultimately show ?thesis using rank64_cnt [of "pos mod 64" "ws ! (pos div 64)"] cnt_block [of "Suc (pos mod 64)" ws "pos div 64"] by simp
qed

text \<open>The binary search for the first block whose prefix sum reaches \<open>k\<close>.\<close>

function block_search :: "nat list \<Rightarrow> nat \<Rightarrow> nat \<Rightarrow> nat \<Rightarrow> nat" where
  "block_search rp k lo hi =
     (if lo < hi
      then let mid = lo + (hi - lo) div 2
           in if rp ! mid \<ge> k then block_search rp k lo mid else block_search rp k (mid + 1) hi
      else lo)"
  by auto
termination by (relation "measure (\<lambda>(rp, k, lo, hi). hi - lo)") auto

declare block_search.simps [simp del]

lemma block_search_ok:
  assumes "lo \<le> p" "p \<le> hi" "\<And>b. b \<le> hi \<Longrightarrow> k \<le> rp ! b \<longleftrightarrow> p \<le> b"
  shows "block_search rp k lo hi = p"
  using assms
proof (induction rp k lo hi rule: block_search.induct)
  case (1 rp k lo hi)
  show ?case
  proof (cases "lo < hi")
    case True
    define mid where "mid = lo + (hi - lo) div 2"
    have mid: "lo \<le> mid" "mid < hi" using True by (auto simp: mid_def)
    have "k \<le> rp ! mid \<longleftrightarrow> p \<le> mid" using 1(5) [of mid] mid by simp
    then show ?thesis
      using 1(1) [OF True mid_def] 1(2) [OF True mid_def] 1(3-5) True mid
      by (subst block_search.simps) (auto simp: mid_def [symmetric] Let_def)
  qed (use 1 in \<open>subst block_search.simps, simp\<close>)
qed

definition select_prefix :: "u64 list \<Rightarrow> nat list \<Rightarrow> nat \<Rightarrow> nat" where
  "select_prefix ws ps k =
     (let block = block_search ps k 0 (length ws) - 1 in block * 64 + select64 (ws ! block) (k - ps ! block))"

lemma select_prefix_ok:
  assumes ok: "prefix_ok ws ps" and p: "p < 64 * length ws" "tbit ws p" "cnt (tbit ws) p = k" 
  shows "select_prefix ws ps (Suc k) = p"
proof -
  define b where "b = p div 64"
  have b: "b < length ws" using p(1) by (simp add: b_def less_mult_imp_div_less mult.commute)
  have ps: "ps ! c = cnt (tbit ws) (64 * c)" if "c \<le> length ws" for c using ok that by (simp add: prefix_ok_def)
  have "Suc k \<le> ps ! c \<longleftrightarrow> Suc b \<le> c" if "c \<le> length ws" for c
  proof
    assume "Suc b \<le> c"
    then have "p < 64 * c" by (simp add: b_def)
    then show "Suc k \<le> ps ! c" using cnt_less [of "tbit ws" p "64 * c"] p(2) ps [OF that] p(3) by simp
  next
    assume h: "Suc k \<le> ps ! c"
    show "Suc b \<le> c"
    proof (rule ccontr)
      assume "\<not> Suc b \<le> c"
      then have "64 * c \<le> p" by (simp add: b_def)
      then show False using cnt_mono [of "64 * c" p "tbit ws"] h ps [OF that] p(3) by simp
    qed
  qed
  then have s: "block_search ps (Suc k) 0 (length ws) = Suc b" using b by (intro block_search_ok) auto
  have d: "p = 64 * b + p mod 64" by (simp add: b_def)
  define i where "i = p mod 64"
  have i: "bit (ws ! b) i" "i < 64" using p(2) by (simp_all add: tbit_def b_def i_def)
  have c: "cnt (tbit ws) p = cnt (tbit ws) (64 * b) + cnt (bit (ws ! b)) (p mod 64)"
    using cnt_block [of "p mod 64" ws b] d by simp
  have k: "Suc k - ps ! b = Suc (cnt (bit (ws ! b)) i)" using c p(3) ps [of b] b by (simp add: i_def)
  have l: "Suc (cnt (bit (ws ! b)) i) \<le> cnt (bit (ws ! b)) 64" using cnt_less [of "bit (ws ! b)" i 64] i by simp
  have "select64 (ws ! b) (Suc (cnt (bit (ws ! b)) i)) = i"
    using cnt_inj [of "bit (ws ! b)", OF select64_ok(2) [OF _ l] i(1)] select64_ok(3) [OF _ l] by simp
  then have "select64 (ws ! b) (Suc k - ps ! b) = p mod 64" by (simp only: k i_def)
  then show ?thesis using s d by (simp add: select_prefix_def)
qed

end
