(* ===== verification/Remainders.thy ===== *)
theory Remainders
  imports Rank_Select Packed
begin

text \<open>
  What the two quotient filters share: remainders packed \<open>rbits\<close> bits each into 64-bit words (\<open>rem_get\<close>,
  \<open>rem_set\<close>, the same code in \<^verbatim>\<open>src/rsqf_filter.c\<close> and \<^verbatim>\<open>src/cqf_filter.c\<close>) and the recomputation of prefix sums.
\<close>

unbundle bit_operations_syntax

section \<open>Packed remainders\<close>

definition rem_get :: "u64 list \<Rightarrow> nat \<Rightarrow> nat \<Rightarrow> u64 \<Rightarrow> u64" where
  "rem_get tbl idx rbits msk =
     (let bp = sz_mul idx rbits; wi = bp div 64; bo = bp mod 64;
          v = drop_bit bo (tbl ! wi);
          v = (if bo + rbits > 64 then v OR push_bit (64 - bo) (tbl ! (wi + 1)) else v)
      in v AND msk)"

definition rem_set :: "u64 list \<Rightarrow> nat \<Rightarrow> nat \<Rightarrow> u64 \<Rightarrow> u64 \<Rightarrow> u64 list" where
  "rem_set tbl idx rbits msk v =
     (let bp = sz_mul idx rbits; wi = bp div 64; bo = bp mod 64;
          m = push_bit bo msk;
          tbl1 = tbl[wi := (tbl ! wi AND NOT m) OR push_bit bo (v AND msk)]
      in if bo + rbits > 64
         then let m2 = drop_bit (64 - bo) msk
              in tbl1[wi + 1 := (tbl1 ! (wi + 1) AND NOT m2) OR drop_bit (64 - bo) (v AND msk)]
         else tbl1)"

definition rem_fits :: "u64 list \<Rightarrow> nat \<Rightarrow> nat \<Rightarrow> bool" where
  "rem_fits tbl idx r \<longleftrightarrow> 0 < r \<and> r \<le> 32 \<and> idx * r + r \<le> 64 * length tbl \<and> idx * r < 2 ^ 64"

lemma bit_rem_get:
  assumes "rem_fits tbl idx r"
  shows "bit (rem_get tbl idx r (mask r)) k \<longleftrightarrow> k < r \<and> tbit tbl (idx * r + k)"
proof -
  define a where "a = idx * r"
  define bo where "bo = a mod 64"
  have r: "0 < r" "r \<le> 32" "a < 2 ^ 64" using assms by (simp_all add: rem_fits_def a_def)
  have bp: "sz_mul idx r = a" using r by (simp add: sz_mul_def a_def)
  have bo: "bo < 64" by (simp add: bo_def)
  show ?thesis
  proof (cases "k < r")
    case False
    then show ?thesis by (simp add: rem_get_def bit_simps Let_def)
  next
    case True
    note s = split_pos [OF True r(2), of a 0, folded bo_def]
    show ?thesis
    proof (cases "bo + k < 64")
      case True
      then have "tbit tbl (a + k) = bit (tbl ! (a div 64)) (bo + k)" using s by (simp add: tbit_def)
      then show ?thesis using \<open>k < r\<close> r True
        by (auto simp: rem_get_def bit_simps Let_def bp a_def [symmetric] bo_def [symmetric])
    next
      case False
      then have t: "tbit tbl (a + k) = bit (tbl ! (a div 64 + 1)) (bo + k - 64)" using s by (simp add: tbit_def)
      have e: "k - (64 - bo) = bo + k - 64" "64 - bo \<le> k" "bo + r > 64" using False bo \<open>k < r\<close> by auto
      have z: "\<not> bit (tbl ! (a div 64)) (bo + k)" using False bit_u64_bound by blast
      show ?thesis using \<open>k < r\<close> r t e z
        by (auto simp: rem_get_def bit_simps Let_def bp a_def [symmetric] bo_def [symmetric])
    qed
  qed
qed

lemma length_rem_set [simp]: "length (rem_set tbl idx r m v) = length tbl"
  by (simp add: rem_set_def Let_def)

lemma rem_set_words:
  assumes "rem_fits tbl idx r"
  defines "a \<equiv> idx * r"
  defines "bo \<equiv> a mod 64"
  shows "rem_set tbl idx r (mask r) v ! w =
    (if w = a div 64 then (tbl ! w AND NOT (push_bit bo (mask r))) OR push_bit bo (v AND mask r)
     else if w = a div 64 + 1 \<and> bo + r > 64 then (tbl ! w AND NOT (drop_bit (64 - bo) (mask r))) OR drop_bit (64 - bo) (v AND mask r)
     else tbl ! w)"
proof -
  have r: "0 < r" "r \<le> 32" "a + r \<le> 64 * length tbl" "a < 2 ^ 64" using assms(1) by (simp_all add: rem_fits_def a_def)
  have bp: "sz_mul idx r = a" using r by (simp add: sz_mul_def a_def)
  have a: "a = 64 * (a div 64) + bo" by (simp add: bo_def)
  have l1: "a div 64 < length tbl" and l2: "bo + r > 64 \<Longrightarrow> a div 64 + 1 < length tbl"
    using r a by linarith+
  show ?thesis
    using l1 l2 by (simp add: rem_set_def Let_def bp bo_def [symmetric] nth_list_update)
qed

lemma tbit_rem_set:
  assumes fit: "rem_fits tbl idx r"
  shows "tbit (rem_set tbl idx r (mask r) v) j =
    (if idx * r \<le> j \<and> j < idx * r + r then bit v (j - idx * r) else tbit tbl j)"
proof -
  define a where "a = idx * r"
  define bo where "bo = a mod 64"
  define m where "m = j mod 64"
  have f: "0 < r" "r \<le> 32" using fit by (simp_all add: rem_fits_def)
  have j: "j = 64 * (j div 64) + m" "m < 64" by (simp_all add: m_def)
  have a: "a = 64 * (a div 64) + bo" "bo < 64" by (simp_all add: bo_def)
  note w = rem_set_words [OF fit, of v "j div 64", folded a_def, folded bo_def]
  consider (first) "j div 64 = a div 64" | (second) "j div 64 = a div 64 + 1" | (other) "j div 64 \<noteq> a div 64" "j div 64 \<noteq> a div 64 + 1"
    by blast
  then show ?thesis
  proof cases
    case first
    then have e: "a \<le> j \<longleftrightarrow> bo \<le> m" "j < a + r \<longleftrightarrow> m < bo + r" "j - a = m - bo" using j a by linarith+
    have "tbit (rem_set tbl idx r (mask r) v) j = (if bo \<le> m \<and> m < bo + r then bit v (m - bo) else bit (tbl ! (j div 64)) m)"
      using w first j(2) a(2) f by (auto simp: tbit_def m_def [symmetric] bit_simps)
    then show ?thesis using e by (simp add: a_def [symmetric] tbit_def m_def)
  next
    case second
    then have e: "a \<le> j" "j < a + r \<longleftrightarrow> 64 + m < bo + r" "j - a = 64 + m - bo" using j a by linarith+
    have "tbit (rem_set tbl idx r (mask r) v) j = (if 64 + m < bo + r then bit v (64 + m - bo) else bit (tbl ! (j div 64)) m)"
      using w second j(2) a(2) f by (auto simp: tbit_def m_def [symmetric] bit_simps)
    then show ?thesis using e by (simp add: a_def [symmetric] tbit_def m_def)
  next
    case other
    then have "j div 64 < a div 64 \<or> a div 64 + 1 < j div 64" by linarith
    then have "\<not> (a \<le> j \<and> j < a + r)" using j a f by linarith
    then show ?thesis using w other by (auto simp: a_def [symmetric] tbit_def)
  qed
qed

lemma rem_get_set:
  assumes "rem_fits tbl i r" "rem_fits tbl j r"
  shows "rem_get (rem_set tbl i r (mask r) v) j r (mask r) = (if i = j then v AND mask r else rem_get tbl j r (mask r))"
proof (rule bit_word_eqI)
  fix k
  assume "k < LENGTH(64)"
  have fit: "rem_fits (rem_set tbl i r (mask r) v) j r" using assms(2) by (simp add: rem_fits_def)
  show "bit (rem_get (rem_set tbl i r (mask r) v) j r (mask r)) k = bit (if i = j then v AND mask r else rem_get tbl j r (mask r)) k"
  proof (cases "k < r")
    case True
    have "i * r \<le> j * r + k \<and> j * r + k < i * r + r \<longleftrightarrow> i = j"
    proof
      assume h: "i * r \<le> j * r + k \<and> j * r + k < i * r + r"
      then have "i * r < j * r + r" "j * r < i * r + r" using True by linarith+
      then have "i * r < Suc j * r" "j * r < Suc i * r" by simp_all
      then have "i < Suc j" "j < Suc i" by (simp_all only: mult_less_cancel2)
      then show "i = j" by simp
    qed (use True in simp)
    then show ?thesis using True \<open>k < LENGTH(64)\<close> by (simp add: bit_rem_get [OF fit] bit_rem_get [OF assms(2)] tbit_rem_set [OF assms(1)] bit_simps)
  next
    case False
    then show ?thesis by (simp add: bit_rem_get [OF fit] bit_rem_get [OF assms(2)] bit_simps)
  qed
qed

lemma rem_get_zeros: "rem_fits (replicate n 0) j r \<Longrightarrow> rem_get (replicate n 0) j r (mask r) = 0"
proof (rule bit_word_eqI)
  fix k
  assume fit: "rem_fits (replicate n 0) j r"
  then have "\<not> (k < r \<and> tbit (replicate n 0) (j * r + k))" using tbit_zeros [of "j * r + k" n] by (auto simp: rem_fits_def)
  then show "bit (rem_get (replicate n 0) j r (mask r)) k = bit 0 k" using bit_rem_get [OF fit, of k] by simp
qed

definition slots_pow2 :: "nat \<Rightarrow> bool" where
  "slots_pow2 ns \<longleftrightarrow> (\<exists>k. ns = 2 ^ k)"

section \<open>Shifting by one slot\<close>

definition shifted :: "nat \<Rightarrow> nat \<Rightarrow> 'a \<Rightarrow> (nat \<Rightarrow> 'a) \<Rightarrow> nat \<Rightarrow> 'a" where
  "shifted s n z f p = (if s < p \<and> p \<le> n then f (p - 1) else if p = s \<and> s < n then z else f p)"

lemma shifted_step:
  assumes "s \<le> n" "p < ns" "\<And>x. x < ns \<Longrightarrow> g x = (f(Suc n := f n, n := z)) x" "Suc n < ns"
  shows "shifted s n z g p = shifted s (Suc n) z f p"
proof -
  consider "p < s" | "p = s" | "s < p" "p \<le> n" | "p = Suc n" | "Suc n < p" by linarith
  then show ?thesis
  proof cases
    case 3
    then have "p - 1 < n" "p - 1 < ns" using assms(2) by auto
    then show ?thesis using 3 assms(3) [of "p - 1"] by (simp add: shifted_def)
  qed (use assms(1,2,4) assms(3) [of p] assms(3) [of n] in \<open>auto simp: shifted_def\<close>)
qed

section \<open>Recomputing prefix sums\<close>

definition prefix_step :: "u64 list \<Rightarrow> nat \<Rightarrow> nat list \<Rightarrow> nat list" where
  "prefix_step bits b ps = ps[b + 1 := ps ! b + builtin_popcountll (bits ! b)]"

lemma fold_prefix_step:
  assumes "length ps = Suc (length ws)" "fb \<le> m" "m \<le> length ws" "\<forall>b \<le> fb. ps ! b = cnt (tbit ws) (64 * b)"
  shows "length (fold (prefix_step ws) [fb..<m] ps) = length ps \<and> (\<forall>b \<le> m. fold (prefix_step ws) [fb..<m] ps ! b = cnt (tbit ws) (64 * b))"
  using assms(2,3)
proof (induction m)
  case 0
  then show ?case using assms by simp
next
  case (Suc m)
  show ?case
  proof (cases "fb \<le> m")
    case False
    then have "fb = Suc m" using Suc.prems by simp
    then show ?thesis using assms(4) by simp
  next
    case True
    define qs where "qs = fold (prefix_step ws) [fb..<m] ps"
    have q: "length qs = Suc (length ws)" "\<forall>b \<le> m. qs ! b = cnt (tbit ws) (64 * b)" using Suc True assms(1) by (simp_all add: qs_def)
    have "fold (prefix_step ws) [fb..<Suc m] ps = qs[Suc m := cnt (tbit ws) (64 * Suc m)]"
      using True q(2) by (simp add: qs_def prefix_step_def cnt_next_block [symmetric] del: mult_Suc_right)
    then show ?thesis using q Suc.prems assms(1) by (auto simp: le_Suc_eq nth_list_update)
  qed
qed

lemma fold_prefix_ok:
  assumes "length ps = Suc (length ws)" "fb \<le> length ws" "\<forall>b \<le> fb. ps ! b = cnt (tbit ws) (64 * b)"
  shows "prefix_ok ws (fold (prefix_step ws) [fb..<length ws] (if fb = 0 then ps[0 := 0] else ps))"
proof -
  let ?ps = "if fb = 0 then ps[0 := 0] else ps"
  have "\<forall>b \<le> fb. ?ps ! b = cnt (tbit ws) (64 * b)" using assms by (cases "fb = 0") auto
  then show ?thesis using fold_prefix_step [of ?ps ws fb "length ws"] assms(1,2) by (auto simp: prefix_ok_def)
qed

section \<open>Number of quotient bits\<close>

fun log2_loop :: "nat \<Rightarrow> nat \<Rightarrow> nat" where
  "log2_loop tmp qb = (if tmp > 1 then log2_loop (tmp div 2) (qb + 1) else qb)"

declare log2_loop.simps [simp del]

lemma masked_slot_less:
  assumes "0 < ns" "ns \<le> 2 ^ 58"
  shows "unat (w AND word_of_nat (sz_sub ns 1) :: u64) < ns"
proof -
  have "sz_sub ns 1 = ns - 1" using assms by (intro sz_sub_small) simp_all
  moreover have "unat (w AND word_of_nat (ns - 1) :: u64) \<le> unat (word_of_nat (ns - 1) :: u64)"
    by (simp add: word_le_nat_alt [symmetric] word_and_le1)
  moreover have "unat (word_of_nat (ns - 1) :: u64) = ns - 1" using assms by (intro unat_word_of_nat) simp
  ultimately show ?thesis using assms(1) by simp
qed

end
