(* ===== verification/Rsqf.thy ===== *)
theory Rsqf
  imports Remainders Util
begin

text \<open>
  The rank-and-select quotient filter (\<^verbatim>\<open>src/rsqf_filter.c\<close>): a 64-bit hash is split into a quotient
  and a remainder; the remainders of one quotient form a run of slots, whose end is marked in
  \<open>runends\<close>; the \<open>k\<close>-th occupied quotient owns the \<open>k\<close>-th run. The arrays behind the header, one
  allocation in the code, are separate fields here. Positions, counts and prefix sums are
  natural numbers; all of them are at most \<open>num_slots\<close>.
\<close>

unbundle bit_operations_syntax

section \<open>State\<close>

datatype rsqf_err = RSQF_OK | RSQF_ERR_INVALID_PARAM | RSQF_ERR_FULL | RSQF_ERR_NOT_FOUND | RSQF_ERR_ALLOC

record rsqf_filter =
  rf_num_slots :: nat
  rf_num_blocks :: nat
  rf_count :: nat
  rf_remainder_bits :: nat
  rf_quotient_bits :: nat
  rf_entries_per_set :: nat
  rf_num_sets :: nat
  rf_remainder_mask :: u64
  rf_occupieds :: "u64 list"
  rf_runends :: "u64 list"
  rf_phys_occ :: "u64 list"
  rf_occ_prefix :: "nat list"
  rf_run_prefix :: "nat list"
  rf_offsets :: "nat list"
  rf_table :: "u64 list"

section \<open>Packed remainders\<close>

definition rf_get :: "rsqf_filter \<Rightarrow> nat \<Rightarrow> u64" where
  "rf_get rf idx = rem_get (rf_table rf) idx (rf_remainder_bits rf) (rf_remainder_mask rf)"

definition rf_put :: "rsqf_filter \<Rightarrow> nat \<Rightarrow> u64 \<Rightarrow> rsqf_filter" where
  "rf_put rf idx v = rf\<lparr>rf_table := rem_set (rf_table rf) idx (rf_remainder_bits rf) (rf_remainder_mask rf) v\<rparr>"

section \<open>Rank and select\<close>

definition rank_occ :: "rsqf_filter \<Rightarrow> nat \<Rightarrow> nat" where
  "rank_occ rf pos =
     (let block = pos div 64; off = pos mod 64 in rf_occ_prefix rf ! block + rank64 (rf_occupieds rf ! block) off)"

definition select_run :: "rsqf_filter \<Rightarrow> nat \<Rightarrow> nat" where
  "select_run rf k =
     (if k = 0 then 0
      else let nb = rf_num_blocks rf
           in if k > rf_run_prefix rf ! nb then sz_sub (rf_num_slots rf) 1
              else let lo = block_search (rf_run_prefix rf) k 0 nb; block = lo - 1
                   in block * 64 + select64 (rf_runends rf ! block) (k - rf_run_prefix rf ! block))"

text \<open>
  The scan for the next \<open>need\<close> runends behind \<open>pos\<close>. Every iteration moves \<open>pos\<close> on, so \<open>num_slots\<close>
  iterations are enough when there are \<open>need\<close> runends to find (\<open>rank_select_eq\<close> in \<open>Rsqf_Spec\<close>).
\<close>

fun runend_scan :: "rsqf_filter \<Rightarrow> nat \<Rightarrow> nat \<Rightarrow> nat \<Rightarrow> nat" where
  "runend_scan rf 0 need pos = pos"
| "runend_scan rf (Suc fuel) need pos =
     (if need > 0
      then let pos = pos + 1; pos = (if pos \<ge> rf_num_slots rf then 0 else pos); wi = pos div 64
           in if wi \<ge> rf_num_blocks rf then pos
              else let bi = pos mod 64; word = drop_bit bi (rf_runends rf ! wi)
                   in if word \<noteq> 0 then runend_scan rf fuel (need - 1) (pos + builtin_ctzll word)
                      else runend_scan rf fuel need ((wi + 1) * 64 - 1)
      else pos)"

definition rank_select :: "rsqf_filter \<Rightarrow> nat \<Rightarrow> nat" where
  "rank_select rf q =
     (let b = q div 64; base = b * 64; off_val = rf_offsets rf ! b
      in if off_val = 255 then select_run rf (rank_occ rf q)
         else if q = base then q + off_val
         else let rk_base = (if base > 0 then rank_occ rf (base - 1) else 0);
                  rk_qm1 = rank_occ rf (q - 1);
                  d = sz_sub rk_qm1 rk_base
              in if d = 0 then base + off_val else runend_scan rf (rf_num_slots rf) d (base + off_val))"

section \<open>Slots\<close>

definition slot_is_free :: "rsqf_filter \<Rightarrow> nat \<Rightarrow> bool" where
  "slot_is_free rf pos = (\<not> test_bit_at (rf_phys_occ rf) pos)"

definition track_phys_occ :: "rsqf_filter \<Rightarrow> nat \<Rightarrow> rsqf_filter" where
  "track_phys_occ rf pos = rf\<lparr>rf_phys_occ := set_bit_at (rf_phys_occ rf) pos\<rparr>"

definition move_phys_occ :: "rsqf_filter \<Rightarrow> nat \<Rightarrow> nat \<Rightarrow> rsqf_filter" where
  "move_phys_occ rf src dst =
     (if test_bit_at (rf_phys_occ rf) src
      then rf\<lparr>rf_phys_occ := clear_bit_at (set_bit_at (rf_phys_occ rf) dst) src\<rparr> else rf)"

definition set_run :: "rsqf_filter \<Rightarrow> nat \<Rightarrow> rsqf_filter" where
  "set_run rf pos = rf\<lparr>rf_runends := set_bit_at (rf_runends rf) pos\<rparr>"

definition clear_run :: "rsqf_filter \<Rightarrow> nat \<Rightarrow> rsqf_filter" where
  "clear_run rf pos = rf\<lparr>rf_runends := clear_bit_at (rf_runends rf) pos\<rparr>"

definition set_occ :: "rsqf_filter \<Rightarrow> nat \<Rightarrow> rsqf_filter" where
  "set_occ rf pos = rf\<lparr>rf_occupieds := set_bit_at (rf_occupieds rf) pos\<rparr>"

definition clear_occ :: "rsqf_filter \<Rightarrow> nat \<Rightarrow> rsqf_filter" where
  "clear_occ rf pos = rf\<lparr>rf_occupieds := clear_bit_at (rf_occupieds rf) pos\<rparr>"

definition clear_phys :: "rsqf_filter \<Rightarrow> nat \<Rightarrow> rsqf_filter" where
  "clear_phys rf pos = rf\<lparr>rf_phys_occ := clear_bit_at (rf_phys_occ rf) pos\<rparr>"

definition move_slot_right :: "rsqf_filter \<Rightarrow> nat \<Rightarrow> nat \<Rightarrow> rsqf_filter" where
  "move_slot_right rf dst src =
     (let v = rf_get rf src; rb = test_bit_at (rf_runends rf) src;
          rf = rf_put rf dst v;
          rf = move_phys_occ rf src dst;
          rf = (if rb then set_run rf dst else clear_run rf dst);
          rf = clear_run rf src;
          rf = clear_phys rf src
      in rf_put rf src 0)"

section \<open>Prefix sums and offsets\<close>

definition block_offset :: "rsqf_filter \<Rightarrow> nat \<Rightarrow> nat" where
  "block_offset rf b =
     (let blk_start = b * 64;
          o0 = (if rf_occ_prefix rf ! (b + 1) > rf_occ_prefix rf ! b
                then let e = select_run rf (rf_occ_prefix rf ! b + 1) in if e > blk_start then e - blk_start else 0
                else 0)
      in if o0 > 254 then 255 else o0)"

definition update_prefixes_from :: "rsqf_filter \<Rightarrow> nat \<Rightarrow> rsqf_filter" where
  "update_prefixes_from rf first_block =
     (let occ_p = (if first_block = 0 then (rf_occ_prefix rf)[0 := 0] else rf_occ_prefix rf);
          run_p = (if first_block = 0 then (rf_run_prefix rf)[0 := 0] else rf_run_prefix rf)
      in rf\<lparr>rf_occ_prefix := fold (prefix_step (rf_occupieds rf)) [first_block..<rf_num_blocks rf] occ_p,
            rf_run_prefix := fold (prefix_step (rf_runends rf)) [first_block..<rf_num_blocks rf] run_p\<rparr>)"

definition update_offsets_from :: "rsqf_filter \<Rightarrow> nat \<Rightarrow> rsqf_filter" where
  "update_offsets_from rf first_block =
     fold (\<lambda>b rf. rf\<lparr>rf_offsets := (rf_offsets rf)[b := block_offset rf b]\<rparr>) [first_block..<rf_num_blocks rf]
       (update_prefixes_from rf first_block)"

section \<open>Runs\<close>

definition run_start :: "rsqf_filter \<Rightarrow> nat \<Rightarrow> nat" where
  "run_start rf k = (if k = 1 then 0 else (select_run rf (sz_sub k 1) + 1) mod rf_num_slots rf)"

definition find_run :: "rsqf_filter \<Rightarrow> nat \<Rightarrow> (nat \<times> nat) option" where
  "find_run rf q =
     (if \<not> test_bit_at (rf_occupieds rf) q
      then if \<not> test_bit_at (rf_runends rf) q then None
           else let rk = rank_occ rf q;
                    rk = (if rk = 0 then rank_occ rf (rf_num_slots rf - 1) else rk)
                in Some (run_start rf rk, select_run rf rk)
      else Some (run_start rf (rank_occ rf q), rank_select rf q))"

section \<open>Lifecycle\<close>

definition rsqf_filter_create :: "nat \<Rightarrow> u8 \<Rightarrow> bool \<Rightarrow> rsqf_filter option" where
  "rsqf_filter_create capacity fp_bits alloc =
     (if capacity = 0 then None
      else let fp = unat (if fp_bits = 0 then 10 else fp_bits);
               fp = (if fp < 2 then 2 else fp);
               fp = (if fp > 32 then 32 else fp);
               ns0 = unat (next_power_of_2 (word_of_nat capacity));
               num_blocks = sz_sub (sz_add ns0 64) 1 div 64;
               num_slots = sz_mul num_blocks 64;
               qb = log2_loop num_slots 0;
               remainder_words = sz_add (sz_mul num_slots fp) 63 div 64;
               eps = 512 div fp
           in if \<not> alloc then None
              else Some \<lparr>rf_num_slots = num_slots, rf_num_blocks = num_blocks, rf_count = 0, rf_remainder_bits = fp,
                     rf_quotient_bits = qb, rf_entries_per_set = eps mod 2 ^ 16,
                     rf_num_sets = sz_sub (sz_add num_slots eps) 1 div eps mod 2 ^ 16,
                     rf_remainder_mask = push_bit fp 1 - 1,
                     rf_occupieds = replicate num_blocks 0, rf_runends = replicate num_blocks 0, rf_phys_occ = replicate num_blocks 0,
                     rf_occ_prefix = replicate (num_blocks + 1) 0, rf_run_prefix = replicate (num_blocks + 1) 0,
                     rf_offsets = replicate num_blocks 0, rf_table = replicate remainder_words 0\<rparr>)"

definition rsqf_filter_reset :: "rsqf_filter \<Rightarrow> rsqf_err \<times> rsqf_filter" where
  "rsqf_filter_reset rf =
     (let nb = rf_num_blocks rf; words = sz_add (sz_mul (rf_num_slots rf) (rf_remainder_bits rf)) 63 div 64
      in (RSQF_OK, rf\<lparr>rf_occupieds := replicate nb 0, rf_runends := replicate nb 0, rf_phys_occ := replicate nb 0,
            rf_occ_prefix := replicate (nb + 1) 0, rf_run_prefix := replicate (nb + 1) 0, rf_offsets := replicate nb 0,
            rf_table := replicate words 0, rf_count := 0\<rparr>))"

section \<open>Lookup\<close>

definition hash_quotient :: "rsqf_filter \<Rightarrow> u64 \<Rightarrow> nat" where
  "hash_quotient rf hash = unat (drop_bit (rf_remainder_bits rf) hash AND word_of_nat (sz_sub (rf_num_slots rf) 1))"

definition hash_remainder :: "rsqf_filter \<Rightarrow> u64 \<Rightarrow> u64" where
  "hash_remainder rf hash = hash AND rf_remainder_mask rf"

definition rsqf_filter_lookup :: "rsqf_filter \<Rightarrow> u64 \<Rightarrow> bool" where
  "rsqf_filter_lookup rf hash =
     (if rf_count rf = 0 then False
      else let q = hash_quotient rf hash; rem = hash_remainder rf hash
           in if q \<ge> rf_num_slots rf then False
              else case find_run rf q of
                     None \<Rightarrow> False
                   | Some (rstart, rend) \<Rightarrow>
                       if rstart \<le> rend then \<exists>i \<in> set [rstart..<rend + 1]. rf_get rf i = rem
                       else (\<exists>i \<in> set [rstart..<rf_num_slots rf]. rf_get rf i = rem) \<or>
                            (\<exists>i \<in> set [0..<rend + 1]. rf_get rf i = rem))"

section \<open>Insertion\<close>

text \<open>The cluster of occupied slots that starts in \<open>rend\<close>; \<open>None\<close> when it goes all the way round.\<close>

fun cluster_end :: "rsqf_filter \<Rightarrow> nat \<Rightarrow> nat \<Rightarrow> nat option" where
  "cluster_end rf 0 rend = None"
| "cluster_end rf (Suc steps) rend =
     (let next = (rend + 1) mod rf_num_slots rf in if slot_is_free rf next then Some rend else cluster_end rf steps next)"

function scan_free :: "rsqf_filter \<Rightarrow> nat \<Rightarrow> nat \<Rightarrow> nat" where
  "scan_free rf pos stop = (if pos < stop \<and> \<not> slot_is_free rf pos then scan_free rf (pos + 1) stop else pos)"
  by auto
termination by (relation "measure (\<lambda>(rf, pos, stop). stop - pos)") auto

declare scan_free.simps [simp del]

definition first_free :: "rsqf_filter \<Rightarrow> nat \<Rightarrow> nat option" where
  "first_free rf scan_start =
     (let pos = scan_free rf scan_start (rf_num_slots rf)
      in if pos \<ge> rf_num_slots rf
         then let pos = scan_free rf 0 scan_start in if pos \<ge> scan_start then None else Some pos
         else Some pos)"

definition shift_right :: "nat \<Rightarrow> nat \<Rightarrow> rsqf_filter \<Rightarrow> rsqf_filter" where
  "shift_right lo hi rf = fold (\<lambda>i rf. move_slot_right rf i (i - 1)) (rev [Suc lo..<Suc hi]) rf"

text \<open>Opens slot \<open>s\<close> by a shift up to the free slot \<open>n\<close>; \<open>None\<close> when a runend would wrap.\<close>

definition open_slot :: "rsqf_filter \<Rightarrow> nat \<Rightarrow> nat \<Rightarrow> rsqf_filter option" where
  "open_slot rf s n =
     (let ns = rf_num_slots rf
      in if n > s then Some (shift_right s n rf)
         else if s > n
         then if test_bit_at (rf_runends rf) (ns - 1) then None
              else let last_rem = rf_get rf (ns - 1); last_run_bit = test_bit_at (rf_runends rf) (ns - 1);
                       rf = shift_right s (ns - 1) rf;
                       rf = shift_right 0 n rf;
                       rf = rf_put rf 0 last_rem;
                       rf = track_phys_occ rf 0
                   in Some (if last_run_bit then set_run rf 0 else clear_run rf 0)
         else Some rf)"

definition finish_insert :: "rsqf_filter \<Rightarrow> nat \<Rightarrow> rsqf_err \<times> rsqf_filter" where
  "finish_insert rf first_block = (RSQF_OK, update_offsets_from (rf\<lparr>rf_count := rf_count rf + 1\<rparr>) first_block)"

definition insert_new_run :: "rsqf_filter \<Rightarrow> nat \<Rightarrow> u64 \<Rightarrow> rsqf_err \<times> rsqf_filter" where
  "insert_new_run rf q rem =
     (if slot_is_free rf q
      then finish_insert (set_run (set_occ (track_phys_occ (rf_put rf q rem) q) q) q) (q div 64)
      else let ns = rf_num_slots rf;
               rk = rank_occ rf q;
               s = (if rk > 0 then select_run rf rk else 0);
               ins_pos = (if rk > 0 then (s + 1) mod ns else 0)
           in if rk > 0 \<and> ins_pos = 0 then (RSQF_ERR_FULL, rf)
              else case cluster_end rf ns q of
                     None \<Rightarrow> (RSQF_ERR_FULL, rf)
                   | Some rend \<Rightarrow>
                       (case first_free rf ((rend + 1) mod ns) of
                          None \<Rightarrow> (RSQF_ERR_FULL, rf)
                        | Some n \<Rightarrow>
                            (case open_slot rf ins_pos n of
                               None \<Rightarrow> (RSQF_ERR_FULL, rf)
                             | Some rf' \<Rightarrow>
                                 finish_insert (set_run (set_occ (track_phys_occ (rf_put rf' ins_pos rem) ins_pos) q) ins_pos)
                                   (if ins_pos > n then 0 else (if q < ins_pos then q else ins_pos) div 64))))"

definition extend_run :: "rsqf_filter \<Rightarrow> nat \<Rightarrow> u64 \<Rightarrow> nat \<Rightarrow> rsqf_err \<times> rsqf_filter" where
  "extend_run rf q rem rend =
     (let ns = rf_num_slots rf;
          s = (if rend + 1 \<ge> ns then 0 else rend + 1);
          occ_was_set = test_bit_at (rf_occupieds rf) q;
          prev_slot = (if s = 0 then ns - 1 else s - 1)
      in case first_free rf s of
           None \<Rightarrow> (RSQF_ERR_FULL, rf)
         | Some n \<Rightarrow>
             if s = 0 \<and> rend = ns - 1 \<and> (occ_was_set \<or> rank_occ rf q > 0) then (RSQF_ERR_FULL, rf)
             else case open_slot rf s n of
                    None \<Rightarrow> (RSQF_ERR_FULL, rf)
                  | Some rf' \<Rightarrow>
                      (let rf1 = track_phys_occ (rf_put rf' s rem) s;
                           rf2 = (if test_bit_at (rf_occupieds rf1) q then clear_run rf1 prev_slot else rf1)
                       in finish_insert (set_occ (set_run rf2 s) q)
                            (if s > n then 0 else (if q < s then q else s) div 64)))"

definition rsqf_filter_insert :: "rsqf_filter \<Rightarrow> u64 \<Rightarrow> rsqf_err \<times> rsqf_filter" where
  "rsqf_filter_insert rf hash =
     (if rf_count rf \<ge> rf_num_slots rf then (RSQF_ERR_FULL, rf)
      else let q = hash_quotient rf hash; rem = hash_remainder rf hash
           in case find_run rf q of
                None \<Rightarrow> insert_new_run rf q rem
              | Some (rstart, rend) \<Rightarrow> extend_run rf q rem rend)"

section \<open>Deletion\<close>

definition circular_len :: "nat \<Rightarrow> nat \<Rightarrow> nat \<Rightarrow> nat" where
  "circular_len ns a b = (if b \<ge> a then b - a + 1 else ns - a + b + 1)"

definition find_rem :: "rsqf_filter \<Rightarrow> nat \<Rightarrow> nat \<Rightarrow> u64 \<Rightarrow> nat option" where
  "find_rem rf rstart rend rem =
     find (\<lambda>idx. rf_get rf idx = rem)
       (map (\<lambda>k. (rstart + k) mod rf_num_slots rf) [0..<circular_len (rf_num_slots rf) rstart rend])"

definition pull_slot :: "nat \<Rightarrow> nat \<Rightarrow> rsqf_filter \<Rightarrow> rsqf_filter" where
  "pull_slot del_pos k rf =
     (let src = (del_pos + k + 1) mod rf_num_slots rf; dst = (del_pos + k) mod rf_num_slots rf;
          rf = rf_put rf dst (rf_get rf src);
          rf = move_phys_occ rf src dst
      in if test_bit_at (rf_runends rf) src then clear_run (set_run rf dst) src else rf)"

definition last_occupied :: "rsqf_filter \<Rightarrow> nat \<Rightarrow> nat \<Rightarrow> nat option" where
  "last_occupied rf rstart rend =
     fold (\<lambda>k acc. let idx = (rstart + k) mod rf_num_slots rf in if test_bit_at (rf_phys_occ rf) idx then Some idx else acc)
       [0..<circular_len (rf_num_slots rf) rstart rend] None"

definition rsqf_filter_delete :: "rsqf_filter \<Rightarrow> u64 \<Rightarrow> rsqf_err \<times> rsqf_filter" where
  "rsqf_filter_delete rf hash =
     (if rf_count rf = 0 then (RSQF_ERR_NOT_FOUND, rf)
      else let q = hash_quotient rf hash; rem = hash_remainder rf hash; ns = rf_num_slots rf
           in case find_run rf q of
                None \<Rightarrow> (RSQF_ERR_NOT_FOUND, rf)
              | Some (rstart, rend) \<Rightarrow>
                  (case find_rem rf rstart rend rem of
                     None \<Rightarrow> (RSQF_ERR_NOT_FOUND, rf)
                   | Some del_pos \<Rightarrow>
                       (let rf1 = fold (pull_slot del_pos) [0..<circular_len ns del_pos rend - 1] rf;
                            rf2 = clear_run (clear_phys (rf_put rf1 rend 0) rend) rend;
                            rf3 = (case last_occupied rf2 rstart rend of
                                     None \<Rightarrow> clear_run (clear_occ rf2 q) rend
                                   | Some p \<Rightarrow>
                                       set_run (fold (\<lambda>k rf. clear_run rf ((rstart + k) mod ns)) [0..<circular_len ns rstart rend] rf2) p)
                        in (RSQF_OK,
                            update_offsets_from (rf3\<lparr>rf_count := rf_count rf3 - 1\<rparr>)
                              (if rstart > rend then 0 else (if q < rstart then q else rstart) div 64)))))"

section \<open>Statistics, validation and repair\<close>

definition rsqf_filter_count :: "rsqf_filter \<Rightarrow> nat" where
  "rsqf_filter_count rf = rf_count rf"

definition rsqf_filter_capacity :: "rsqf_filter \<Rightarrow> nat" where
  "rsqf_filter_capacity rf = rf_num_slots rf"

definition meta_size :: "rsqf_filter \<Rightarrow> nat" where
  "meta_size rf = sz_add (sz_add (sz_mul (rf_num_blocks rf) 41) 16) 7 div 8 * 8"

definition rsqf_filter_memory_bytes :: "rsqf_filter \<Rightarrow> nat" where
  "rsqf_filter_memory_bytes rf =
     sz_add (sz_add 40 (meta_size rf)) (sz_mul (sz_add (sz_mul (rf_num_slots rf) (rf_remainder_bits rf)) 63 div 64) 8)"

definition rsqf_filter_validate :: "rsqf_filter \<Rightarrow> bool" where
  "rsqf_filter_validate rf =
     (let occ_pop = sum_list (map (\<lambda>i. builtin_popcountll (rf_occupieds rf ! i)) [0..<rf_num_blocks rf]);
          run_pop = sum_list (map (\<lambda>i. builtin_popcountll (rf_runends rf ! i)) [0..<rf_num_blocks rf])
      in if occ_pop \<noteq> run_pop then False
         else \<forall>q \<in> set [0..<rf_num_slots rf].
                test_bit_at (rf_occupieds rf) q \<longrightarrow>
                  (case find_run rf q of None \<Rightarrow> False | Some (rstart, rend) \<Rightarrow> rend < rf_num_slots rf))"

definition rsqf_filter_repair_offsets :: "rsqf_filter \<Rightarrow> nat \<times> rsqf_filter" where
  "rsqf_filter_repair_offsets rf =
     fold (\<lambda>b (fixed, rf).
         let clamped = block_offset rf b
         in if rf_offsets rf ! b \<noteq> clamped then (fixed + 1, rf\<lparr>rf_offsets := (rf_offsets rf)[b := clamped]\<rparr>) else (fixed, rf))
       [0..<rf_num_blocks rf] (0, rf)"

definition rsqf_quotient :: "u64 \<Rightarrow> nat \<Rightarrow> u64" where
  "rsqf_quotient hash quotient_bits = drop_bit (64 - quotient_bits) hash"

definition rsqf_remainder :: "u64 \<Rightarrow> nat \<Rightarrow> u64" where
  "rsqf_remainder hash remainder_bits = hash AND (push_bit remainder_bits 1 - 1)"

end
