(* ===== verification/Runs.thy ===== *)
theory Runs
  imports Rank_Select "HOL-Library.Multiset"
begin

text \<open>
  The abstract structure of a quotient filter with \<open>ns\<close> slots: \<open>Oc q\<close> says that quotient \<open>q\<close> has a run,
  \<open>Rn p\<close> that a run ends in slot \<open>p\<close>, \<open>Ph p\<close> that slot \<open>p\<close> holds a remainder. The runs lie in the order of
  their quotients, so a slot belongs to the quotient with as many occupied quotients below it as
  there are runends below the slot. Insertion and deletion are stated on these predicates; the filters
  refine them.
\<close>

definition owner :: "(nat \<Rightarrow> bool) \<Rightarrow> (nat \<Rightarrow> bool) \<Rightarrow> nat \<Rightarrow> nat" where
  "owner Oc Rn p = (LEAST q. Oc q \<and> cnt Oc q = cnt Rn p)"

definition run_items :: "nat \<Rightarrow> (nat \<Rightarrow> bool) \<Rightarrow> (nat \<Rightarrow> bool) \<Rightarrow> (nat \<Rightarrow> bool) \<Rightarrow> (nat \<Rightarrow> 'v) \<Rightarrow> (nat \<times> 'v) multiset" where
  "run_items ns Oc Rn Ph V = image_mset (\<lambda>p. (owner Oc Rn p, V p)) (mset_set {p. p < ns \<and> Ph p})"

text \<open>
  What insertion and deletion both keep: runends are occupied slots, there is one for every
  occupied quotient, no remainder lies before its quotient, and a run has no gap in front of its end.
\<close>

definition runs_base :: "nat \<Rightarrow> (nat \<Rightarrow> bool) \<Rightarrow> (nat \<Rightarrow> bool) \<Rightarrow> (nat \<Rightarrow> bool) \<Rightarrow> bool" where
  "runs_base ns Oc Rn Ph \<longleftrightarrow>
     (\<forall>p < ns. Rn p \<longrightarrow> Ph p) \<and> cnt Oc ns = cnt Rn ns \<and> (\<forall>p < ns. Ph p \<longrightarrow> cnt Rn p < cnt Oc (Suc p))"

definition runs_ok :: "nat \<Rightarrow> (nat \<Rightarrow> bool) \<Rightarrow> (nat \<Rightarrow> bool) \<Rightarrow> (nat \<Rightarrow> bool) \<Rightarrow> bool" where
  "runs_ok ns Oc Rn Ph \<longleftrightarrow> runs_base ns Oc Rn Ph \<and> (\<forall>p < ns. Ph p \<and> \<not> Rn p \<longrightarrow> Suc p < ns \<and> Ph (Suc p))"

text \<open>
  The invariant of a filter without deletions: no run reaches over a free slot. Insertion relies on it.
\<close>

definition runs_tight :: "nat \<Rightarrow> (nat \<Rightarrow> bool) \<Rightarrow> (nat \<Rightarrow> bool) \<Rightarrow> (nat \<Rightarrow> bool) \<Rightarrow> bool" where
  "runs_tight ns Oc Rn Ph \<longleftrightarrow> runs_base ns Oc Rn Ph \<and> (\<forall>x < ns. \<not> Ph x \<longrightarrow> cnt Rn (Suc x) = cnt Oc (Suc x))"

section \<open>Owners and regions\<close>

lemma owner_eq: "Oc q \<Longrightarrow> cnt Oc q = cnt Rn p \<Longrightarrow> owner Oc Rn p = q"
  unfolding owner_def by (rule Least_equality) (auto dest: cnt_inj)

lemma owner_exists:
  assumes "runs_base ns Oc Rn Ph" "p < ns" "Ph p"
  shows "owner Oc Rn p \<le> p" "Oc (owner Oc Rn p)" "cnt Oc (owner Oc Rn p) = cnt Rn p"
proof -
  have "cnt Rn p < cnt Oc (Suc p)" using assms by (simp add: runs_base_def)
  then obtain q where q: "q < Suc p" "Oc q" "cnt Oc q = cnt Rn p" using cnt_ex by blast
  then show "owner Oc Rn p \<le> p" "Oc (owner Oc Rn p)" "cnt Oc (owner Oc Rn p) = cnt Rn p" using owner_eq [of Oc q Rn p] by simp_all
qed

lemma tight_ok:
  assumes "runs_tight ns Oc Rn Ph"
  shows "runs_ok ns Oc Rn Ph"
proof -
  have base: "runs_base ns Oc Rn Ph" and tight: "\<And>x. x < ns \<Longrightarrow> \<not> Ph x \<Longrightarrow> cnt Rn (Suc x) = cnt Oc (Suc x)"
    using assms by (simp_all add: runs_tight_def)
  have "Suc p < ns \<and> Ph (Suc p)" if p: "p < ns" "Ph p" "\<not> Rn p" for p
  proof -
    have c: "cnt Rn (Suc p) < cnt Oc (Suc p)" using base p by (simp add: runs_base_def)
    have "Suc p \<noteq> ns" using c base by (auto simp: runs_base_def)
    then have lt: "Suc p < ns" using p(1) by simp
    moreover have "Ph (Suc p)"
    proof (rule ccontr)
      assume n: "\<not> Ph (Suc p)"
      then have "\<not> Rn (Suc p)" using base lt by (auto simp: runs_base_def)
      then have "cnt Rn (Suc (Suc p)) = cnt Rn (Suc p)" by simp
      moreover have "cnt Oc (Suc p) \<le> cnt Oc (Suc (Suc p))" by (rule cnt_mono) simp
      ultimately show False using tight [OF lt n] c by linarith
    qed
    ultimately show ?thesis ..
  qed
  then show ?thesis using base by (auto simp: runs_ok_def)
qed

text \<open>The end of the run of an occupied quotient.\<close>

lemma runend_exists:
  assumes "runs_base ns Oc Rn Ph" "q < ns" "Oc q"
  shows "\<exists>e < ns. Rn e \<and> cnt Rn e = cnt Oc q \<and> q \<le> e"
proof -
  have "cnt Oc q < cnt Rn ns" using cnt_less [of Oc q ns] assms by (simp add: runs_base_def)
  then obtain e where e: "e < ns" "Rn e" "cnt Rn e = cnt Oc q" using cnt_ex by blast
  then have "cnt Oc q < cnt Oc (Suc e)" using assms(1) by (auto simp: runs_base_def)
  then have "q \<le> e" using cnt_mono [of "Suc e" q Oc] by (cases "q \<le> e") auto
  then show ?thesis using e by blast
qed

lemma region_full:
  assumes "runs_ok ns Oc Rn Ph" "d \<le> e" "e < ns" "Ph d" "cnt Rn d = cnt Rn e" "d \<le> x" "x \<le> e"
  shows "Ph x"
proof -
  have "Ph (d + i)" if "d + i \<le> e" for i
    using that
  proof (induction i)
    case (Suc i)
    have "\<not> Rn (d + i)" using cnt_less [of Rn "d + i" e] cnt_mono [of d "d + i" Rn] assms(5) Suc.prems by auto
    moreover have "d + i < ns" "Ph (d + i)" using Suc assms(3) by simp_all
    ultimately show ?case using assms(1) by (auto simp: runs_ok_def)
  qed (simp add: assms(4))
  from this [of "x - d"] show ?thesis using assms(6,7) by simp
qed

section \<open>Insertion\<close>

text \<open>
  The slots from \<open>s\<close> to the free slot \<open>n\<close> move up by one and the new remainder takes slot \<open>s\<close>, which
  becomes the end of its run; an old end of the run in the slot before is taken away.
\<close>

definition ins_runs :: "bool \<Rightarrow> nat \<Rightarrow> nat \<Rightarrow> (nat \<Rightarrow> bool) \<Rightarrow> nat \<Rightarrow> bool" where
  "ins_runs c s n Rn p =
     (if p < s then Rn p \<and> \<not> (c \<and> Suc p = s) else if p = s then True else if p \<le> n then Rn (p - 1) else Rn p)"

definition ins_vals :: "nat \<Rightarrow> nat \<Rightarrow> 'v \<Rightarrow> (nat \<Rightarrow> 'v) \<Rightarrow> nat \<Rightarrow> 'v" where
  "ins_vals s n v V p = (if p < s then V p else if p = s then v else if p \<le> n then V (p - 1) else V p)"

lemma cnt_ins:
  assumes "s \<le> n" "\<not> Rn n" "c \<longrightarrow> 0 < s \<and> Rn (s - 1)"
  shows "cnt (ins_runs c s n Rn) x + (if c \<and> s \<le> x then 1 else 0) =
    (if x \<le> s then cnt Rn x else if x \<le> Suc n then cnt Rn (x - 1) + 1 else cnt Rn x + 1)"
proof -
  define N where "N = ins_runs c s n Rn"
  have N: "y < s \<Longrightarrow> N y = (Rn y \<and> \<not> (c \<and> Suc y = s))" "N s" "s < y \<Longrightarrow> y \<le> n \<Longrightarrow> N y = Rn (y - 1)"
    "s < y \<Longrightarrow> n < y \<Longrightarrow> N y = Rn y" for y by (simp_all add: N_def ins_runs_def)
  have "cnt N x + (if c \<and> s \<le> x then 1 else 0) =
    (if x \<le> s then cnt Rn x else if x \<le> Suc n then cnt Rn (x - 1) + 1 else cnt Rn x + 1)"
  proof (induction x)
    case (Suc x)
    consider "Suc x < s" | "Suc x = s" | "x = s" | "s < x" "x \<le> n" | "n < x" by linarith
    then show ?case
    proof cases
      case 4
      then obtain y where "x = Suc y" by (cases x) auto
      then show ?thesis using Suc 4 assms N(3) [of x] by simp
    next
      case 5
      then show ?thesis using Suc assms N(4) [of x] by (cases "x = Suc n") auto
    qed (use Suc assms N(1) [of x] N(2) in auto)
  qed (use assms in auto)
  then show ?thesis by (simp add: N_def)
qed

lemma cnt_ins':
  assumes "s \<le> n" "\<not> Rn n" "c \<longrightarrow> 0 < s \<and> Rn (s - 1)"
  shows "x < s \<or> x = s \<and> \<not> c \<Longrightarrow> cnt (ins_runs c s n Rn) x = cnt Rn x"
    "s \<le> x \<Longrightarrow> x \<le> n \<Longrightarrow> cnt (ins_runs c s n Rn) (Suc x) + (if c then 1 else 0) = cnt Rn x + 1"
    "n < x \<Longrightarrow> cnt (ins_runs c s n Rn) x + (if c then 1 else 0) = cnt Rn x + 1"
    "c \<Longrightarrow> cnt (ins_runs c s n Rn) s + 1 = cnt Rn s"
proof -
  note i = cnt_ins [OF assms]
  show "x < s \<or> x = s \<and> \<not> c \<Longrightarrow> cnt (ins_runs c s n Rn) x = cnt Rn x" using i [where x = x] by auto
  show "s \<le> x \<Longrightarrow> x \<le> n \<Longrightarrow> cnt (ins_runs c s n Rn) (Suc x) + (if c then 1 else 0) = cnt Rn x + 1" using i [where x = "Suc x"] by simp
  show "n < x \<Longrightarrow> cnt (ins_runs c s n Rn) x + (if c then 1 else 0) = cnt Rn x + 1"
    using i [where x = x] assms(1,2) by (cases "x = Suc n") auto
  show "c \<Longrightarrow> cnt (ins_runs c s n Rn) s + 1 = cnt Rn s" using i [where x = s] by simp
qed

text \<open>A multiset over slots changes by one element when the slots are renumbered around it.\<close>

lemma image_mset_renumber:
  assumes "finite B" "s \<in> B" "inj_on f A" "f ` A = B - {s}" "\<And>p. p \<in> A \<Longrightarrow> g p = h (f p)"
  shows "image_mset h (mset_set B) = add_mset (h s) (image_mset g (mset_set A))"
proof -
  have "mset_set B = add_mset s (mset_set (f ` A))"
    using assms(1,2,4) by (simp add: mset_set.remove)
  also have "mset_set (f ` A) = image_mset f (mset_set A)" by (rule image_mset_mset_set [OF assms(3), symmetric])
  finally have e: "image_mset h (mset_set B) = add_mset (h s) (image_mset (\<lambda>p. h (f p)) (mset_set A))" by (simp add: image_mset.compositionality comp_def)
  have "finite A" using finite_imageD [OF _ assms(3)] assms(1,4) by simp
  then have "image_mset (\<lambda>p. h (f p)) (mset_set A) = image_mset g (mset_set A)" using assms(5) by (intro image_mset_cong) simp
  then show ?thesis using e by simp
qed

text \<open>
  Where the new remainder goes: behind the runs of all quotients up to \<open>q\<close>, with occupied slots from
  \<open>q\<close> to there and from there to \<open>n\<close>.
\<close>

definition ins_place :: "nat \<Rightarrow> (nat \<Rightarrow> bool) \<Rightarrow> (nat \<Rightarrow> bool) \<Rightarrow> (nat \<Rightarrow> bool) \<Rightarrow> nat \<Rightarrow> nat \<Rightarrow> nat \<Rightarrow> bool" where
  "ins_place ns Oc Rn Ph q s n \<longleftrightarrow>
     q \<le> s \<and> s \<le> n \<and> n < ns \<and> \<not> Ph n \<and> (\<forall>p. q \<le> p \<and> p < n \<longrightarrow> Ph p) \<and> cnt Rn s = cnt Oc (Suc q) \<and>
     (Oc q \<longrightarrow> q < s) \<and> (q < s \<longrightarrow> Rn (s - 1))"

lemma ins_tight:
  assumes tight: "runs_tight ns Oc Rn Ph" and place: "ins_place ns Oc Rn Ph q s n"
  shows "runs_tight ns (Oc(q := True)) (ins_runs (Oc q) s n Rn) (Ph(n := True))"
proof -
  define N where "N = ins_runs (Oc q) s n Rn"
  have base: "runs_base ns Oc Rn Ph" using tight by (simp add: runs_tight_def)
  have pl: "q \<le> s" "s \<le> n" "n < ns" "\<not> Ph n" "\<And>p. q \<le> p \<Longrightarrow> p < n \<Longrightarrow> Ph p" "cnt Rn s = cnt Oc (Suc q)"
    "Oc q \<Longrightarrow> q < s" "Oc q \<longrightarrow> 0 < s \<and> Rn (s - 1)" using place by (auto simp: ins_place_def)
  have nr: "\<not> Rn n" using base pl(3,4) by (auto simp: runs_base_def)
  note c = cnt_ins' [OF pl(2) nr pl(8), folded N_def]
  have up: "cnt (Oc(q := True)) (Suc x) + (if Oc q then 1 else 0) = cnt Oc (Suc x) + 1" if "q \<le> x" for x
    using that by (simp add: cnt_set)
  have below: "cnt (Oc(q := True)) (Suc x) = cnt Oc (Suc x)" if "x < q" for x using that by (simp add: cnt_set)
  have b: "Rn p \<Longrightarrow> Ph p" "Ph p \<Longrightarrow> cnt Rn p < cnt Oc (Suc p)" if "p < ns" for p using base that by (auto simp: runs_base_def)
  have 1: "(Ph(n := True)) p" if "p < ns" "N p" for p
  proof -
    consider "p < s" | "p = s" | "s < p" "p \<le> n" | "n < p" by linarith
    then show ?thesis using that b(1) [OF that(1)] pl(1,2,5) by cases (auto simp: N_def ins_runs_def)
  qed
  have 2: "cnt (Oc(q := True)) ns = cnt N ns"
    using c(3) [of ns] pl(1-3) base by (auto simp: cnt_set runs_base_def)
  have 3: "cnt N p < cnt (Oc(q := True)) (Suc p)" if p: "p < ns" "(Ph(n := True)) p" for p
  proof -
    consider "p < q" | "q \<le> p" "p < s" | "p = s" | "s < p" "p \<le> n" | "n < p" by linarith
    then show ?thesis
    proof cases
      case 1
      then show ?thesis using c(1) [of p] below b(2) p pl by simp
    next
      case 2
      have "Ph p" using 2 pl(2,5) by simp
      then have "cnt Rn p < cnt Oc (Suc p)" using b(2) p(1) by simp
      then show ?thesis using 2 c(1) [of p] up [of p] by (cases "Oc q") auto
    next
      case 3
      have "cnt Oc (Suc q) \<le> cnt Oc (Suc s)" using pl(1) by (intro cnt_mono) simp
      then show ?thesis using 3 c(1) [of s] c(4) up [of s] pl(1,6) by (cases "Oc q") auto
    next
      case 4
      then obtain y where y: "p = Suc y" "s \<le> y" by (cases p) auto
      have "Ph y" using 4 y pl(1,5) by simp
      then have "cnt Rn y < cnt Oc (Suc y)" using b(2) [of y] p(1) y by simp
      moreover have "cnt Oc (Suc y) \<le> cnt Oc (Suc p)" using y by (intro cnt_mono) simp
      ultimately show ?thesis using c(2) [of y] up [of p] 4 y pl(1) by (cases "Oc q") auto
    next
      case 5
      then show ?thesis using c(3) [of p] up [of p] b(2) [of p] p pl(1,2) by (cases "Oc q") auto
    qed
  qed
  have 4: "cnt N (Suc x) = cnt (Oc(q := True)) (Suc x)" if x: "x < ns" "\<not> (Ph(n := True)) x" for x
  proof -
    have t: "cnt Rn (Suc x) = cnt Oc (Suc x)" "x \<noteq> n" "\<not> Ph x" using tight x by (auto simp: runs_tight_def split: if_splits)
    have "x < q \<or> n < x" using pl(5) [of x] t by linarith
    then show ?thesis
    proof
      assume "x < q"
      then have "Suc x < s \<or> Suc x = s \<and> \<not> Oc q" using pl(1,7) by (cases "Oc q") auto
      then show ?thesis using c(1) [of "Suc x"] below [OF \<open>x < q\<close>] t(1) by simp
    next
      assume "n < x"
      then show ?thesis using c(3) [of "Suc x"] up [of x] t pl(1,2) by (cases "Oc q") auto
    qed
  qed
  show ?thesis using 1 2 3 4 unfolding N_def [symmetric] runs_tight_def runs_base_def by blast
qed

lemma ins_items:
  assumes tight: "runs_tight ns Oc Rn Ph" and place: "ins_place ns Oc Rn Ph q s n"
  shows "run_items ns (Oc(q := True)) (ins_runs (Oc q) s n Rn) (Ph(n := True)) (ins_vals s n v V) = add_mset (q, v) (run_items ns Oc Rn Ph V)"
proof -
  define N where "N = ins_runs (Oc q) s n Rn"
  define f where "f p = (if s \<le> p \<and> p < n then Suc p else p)" for p
  have base: "runs_base ns Oc Rn Ph" using tight by (simp add: runs_tight_def)
  have pl: "q \<le> s" "s \<le> n" "n < ns" "\<not> Ph n" "\<And>p. q \<le> p \<Longrightarrow> p < n \<Longrightarrow> Ph p" "cnt Rn s = cnt Oc (Suc q)"
    "Oc q \<Longrightarrow> q < s" "Oc q \<longrightarrow> 0 < s \<and> Rn (s - 1)" using place by (auto simp: ins_place_def)
  have nr: "\<not> Rn n" using base pl(3,4) by (auto simp: runs_base_def)
  note c = cnt_ins' [OF pl(2) nr pl(8), folded N_def]
  have own: "owner (Oc(q := True)) N (f p) = owner Oc Rn p" if p: "p < ns" "Ph p" for p
  proof -
    define w where "w = owner Oc Rn p"
    have w: "w \<le> p" "Oc w" "cnt Oc w = cnt Rn p" using owner_exists [OF base p] by (simp_all add: w_def)
    have "cnt (Oc(q := True)) w = cnt N (f p)"
    proof (cases "p < s")
      case True
      have "cnt Oc w < cnt Oc (Suc q)" if "q < s"
      proof -
        have "cnt Rn p \<le> cnt Rn (s - 1)" using True by (intro cnt_mono) simp
        also have "\<dots> < cnt Rn s" using that place by (intro cnt_less) (auto simp: ins_place_def)
        finally show ?thesis using w(3) pl(6) by simp
      qed
      then have "w \<le> q" using cnt_mono [of "Suc q" w Oc] w(1) True pl(1) by (cases "q < s"; cases "w \<le> q") auto
      then show ?thesis using c(1) [of p] True w(3) by (simp add: cnt_set f_def)
    next
      case False
      have "cnt Oc (Suc q) \<le> cnt Oc w" using cnt_mono [of s p Rn] False pl(6) w(3) by simp
      then have "q < w" using cnt_less [of Oc w "Suc q"] w(2) by (cases "q < w") auto
      then have "cnt (Oc(q := True)) w + (if Oc q then 1 else 0) = cnt Rn p + 1" using w(3) by (simp add: cnt_set)
      moreover have "cnt N (f p) + (if Oc q then 1 else 0) = cnt Rn p + 1"
        using False c(2,3) [of p] p(2) pl(4) by (cases "p < n"; cases "p = n") (auto simp: f_def simp del: cnt.simps)
      ultimately show ?thesis by simp
    qed
    then have "owner (Oc(q := True)) N (f p) = w" using w(2) by (intro owner_eq) auto
    then show ?thesis by (simp add: w_def)
  qed
  have "cnt (Oc(q := True)) q + (if Oc q then 1 else 0) = cnt Oc (Suc q)" by (simp add: cnt_set)
  then have "cnt (Oc(q := True)) q = cnt N s" using c(1) [of s] c(4) pl(6) by (cases "Oc q") auto
  then have own_s: "owner (Oc(q := True)) N s = q" by (intro owner_eq) auto
  have vals: "ins_vals s n v V (f p) = V p" if "Ph p" for p using that pl(2,4) by (auto simp: ins_vals_def f_def)
  have img: "f ` {p. p < ns \<and> Ph p} = {p. p < ns \<and> (Ph(n := True)) p} - {s}"
  proof (intro equalityI subsetI)
    fix x
    assume "x \<in> f ` {p. p < ns \<and> Ph p}"
    then show "x \<in> {p. p < ns \<and> (Ph(n := True)) p} - {s}" using pl(1-5) by (auto simp: f_def Suc_le_eq)
  next
    fix x
    assume x: "x \<in> {p. p < ns \<and> (Ph(n := True)) p} - {s}"
    show "x \<in> f ` {p. p < ns \<and> Ph p}"
    proof (cases "s < x \<and> x \<le> n")
      case True
      then have "x = f (x - 1)" "Ph (x - 1)" "x - 1 < ns" using x pl(1,5) by (auto simp: f_def)
      then show ?thesis by blast
    next
      case False
      then have "x = f x" "Ph x" using x pl(2) by (auto simp: f_def split: if_splits)
      then show ?thesis using x by blast
    qed
  qed
  have inj: "inj_on f {p. p < ns \<and> Ph p}" using pl(4) by (auto simp: inj_on_def f_def split: if_splits) (metis Suc_lessI)+
  have "s \<in> {p. p < ns \<and> (Ph(n := True)) p}" using pl(1-3,5) by auto
  then show ?thesis
    using image_mset_renumber [OF _ _ inj img, of "\<lambda>p. (owner Oc Rn p, V p)" "\<lambda>p. (owner (Oc(q := True)) N p, ins_vals s n v V p)"] own vals own_s
    by (simp add: run_items_def N_def [symmetric] ins_vals_def)
qed

section \<open>Deletion\<close>

text \<open>
  The remainder in slot \<open>d\<close> of the run that ends in \<open>e\<close> goes: the slots behind it move down by one and \<open>e\<close>
  becomes free. The run ends in the slot before, or there is no run any more.
\<close>

definition del_vals :: "nat \<Rightarrow> nat \<Rightarrow> 'v \<Rightarrow> (nat \<Rightarrow> 'v) \<Rightarrow> nat \<Rightarrow> 'v" where
  "del_vals d e z V p = (if d \<le> p \<and> p < e then V (Suc p) else if p = e then z else V p)"

definition run_shrinks :: "(nat \<Rightarrow> bool) \<Rightarrow> (nat \<Rightarrow> bool) \<Rightarrow> nat \<Rightarrow> bool" where
  "run_shrinks Rn Ph e \<longleftrightarrow> 0 < e \<and> Ph (e - 1) \<and> \<not> Rn (e - 1)"

definition del_runs :: "(nat \<Rightarrow> bool) \<Rightarrow> (nat \<Rightarrow> bool) \<Rightarrow> nat \<Rightarrow> nat \<Rightarrow> bool" where
  "del_runs Rn Ph e = (if run_shrinks Rn Ph e then Rn(e := False, e - 1 := True) else Rn(e := False))"

definition del_occ :: "(nat \<Rightarrow> bool) \<Rightarrow> (nat \<Rightarrow> bool) \<Rightarrow> (nat \<Rightarrow> bool) \<Rightarrow> nat \<Rightarrow> nat \<Rightarrow> nat \<Rightarrow> bool" where
  "del_occ Oc Rn Ph q e = (if run_shrinks Rn Ph e then Oc else Oc(q := False))"

definition del_place :: "nat \<Rightarrow> (nat \<Rightarrow> bool) \<Rightarrow> (nat \<Rightarrow> bool) \<Rightarrow> (nat \<Rightarrow> bool) \<Rightarrow> nat \<Rightarrow> nat \<Rightarrow> nat \<Rightarrow> bool" where
  "del_place ns Oc Rn Ph q d e \<longleftrightarrow>
     e < ns \<and> d \<le> e \<and> Oc q \<and> Rn e \<and> Ph d \<and> cnt Rn e = cnt Oc q \<and> cnt Rn d = cnt Oc q"

lemma cnt_del_runs:
  assumes "Rn e"
  shows "x < e \<or> x = e \<and> \<not> run_shrinks Rn Ph e \<Longrightarrow> cnt (del_runs Rn Ph e) x = cnt Rn x"
    "e < x \<Longrightarrow> cnt (del_runs Rn Ph e) x + (if run_shrinks Rn Ph e then 0 else 1) = cnt Rn x"
proof -
  have c: "cnt Rn x = cnt (Rn(e := False)) x + (if e < x then 1 else 0)" for x using cnt_clear [of Rn x e] assms by simp
  have s: "cnt ((Rn(e := False))(e - 1 := True)) x = cnt (Rn(e := False)) x + (if e - 1 < x then 1 else 0)" if "run_shrinks Rn Ph e" for x
    using that by (subst cnt_set) (auto simp: run_shrinks_def)
  show "x < e \<or> x = e \<and> \<not> run_shrinks Rn Ph e \<Longrightarrow> cnt (del_runs Rn Ph e) x = cnt Rn x"
    using c [of x] s [of x] by (auto simp: del_runs_def)
  show "e < x \<Longrightarrow> cnt (del_runs Rn Ph e) x + (if run_shrinks Rn Ph e then 0 else 1) = cnt Rn x"
    using c [of x] s [of x] by (auto simp: del_runs_def)
qed

text \<open>In a run that does not shrink there is no other slot than its end.\<close>

lemma del_last:
  assumes "runs_ok ns Oc Rn Ph" "del_place ns Oc Rn Ph q d e" "\<not> run_shrinks Rn Ph e" "Ph p" "p < e"
  shows "cnt Rn p < cnt Oc q"
proof (rule ccontr)
  have pl: "e < ns" "Rn e" "cnt Rn e = cnt Oc q" using assms(2) by (simp_all add: del_place_def)
  assume "\<not> cnt Rn p < cnt Oc q"
  then have eq: "cnt Rn p = cnt Rn e" using cnt_mono [of p e Rn] assms(5) pl(3) by simp
  have "Ph (e - 1)" using region_full [OF assms(1) _ pl(1) assms(4) eq, of "e - 1"] assms(5) by simp
  moreover have "p \<le> e - 1" "e - 1 < e" using assms(5) by simp_all
  then have "\<not> Rn (e - 1)" using cnt_less [of Rn "e - 1" e] cnt_mono [of p "e - 1" Rn] eq by auto
  ultimately show False using assms(3,5) by (simp add: run_shrinks_def)
qed

lemma del_ok:
  assumes ok: "runs_ok ns Oc Rn Ph" and place: "del_place ns Oc Rn Ph q d e"
  shows "runs_ok ns (del_occ Oc Rn Ph q e) (del_runs Rn Ph e) (Ph(e := False))"
proof -
  define N where "N = del_runs Rn Ph e"
  define O' where "O' = del_occ Oc Rn Ph q e"
  have base: "runs_base ns Oc Rn Ph" using ok by (simp add: runs_ok_def)
  have pl: "e < ns" "d \<le> e" "Oc q" "Rn e" "Ph d" "cnt Rn e = cnt Oc q" "cnt Rn d = cnt Oc q" using place by (simp_all add: del_place_def)
  have b: "Rn p \<Longrightarrow> Ph p" "Ph p \<Longrightarrow> cnt Rn p < cnt Oc (Suc p)" if "p < ns" for p using base that by (auto simp: runs_base_def)
  have qe: "q \<le> e" using runend_exists [OF base _ pl(3)] b [OF pl(1)] pl(4,6) cnt_mono [of "Suc e" q Oc] by (cases "q \<le> e") auto
  note c = cnt_del_runs [of Rn e, OF pl(4), where Ph = Ph, folded N_def]
  have o: "cnt O' x + (if run_shrinks Rn Ph e \<or> x \<le> q then 0 else 1) = cnt Oc x" for x
    using cnt_clear [of Oc x q] pl(3) by (auto simp: O'_def del_occ_def)
  have 1: "(Ph(e := False)) p" if "p < ns" "N p" for p
    using that b(1) [of p] by (auto simp: N_def del_runs_def run_shrinks_def split: if_splits)
  have 2: "cnt O' ns = cnt N ns" using o [of ns] c(2) [of ns] pl(1) qe base by (auto simp: runs_base_def split: if_splits)
  have 3: "cnt N p < cnt O' (Suc p)" if p: "p < ns" "(Ph(e := False)) p" for p
  proof -
    have pp: "Ph p" "p \<noteq> e" using p(2) by (auto split: if_splits)
    note lt = b(2) [OF p(1) pp(1)]
    show ?thesis
    proof (cases "p < e")
      case True
      show ?thesis
      proof (cases "run_shrinks Rn Ph e \<or> p < q")
        case True
        then show ?thesis using c(1) [of p] o [of "Suc p"] lt \<open>p < e\<close> by (auto split: if_splits)
      next
        case False
        have "cnt Rn p < cnt Oc q" using del_last [OF ok place _ pp(1) \<open>p < e\<close>] False by simp
        moreover have "cnt Oc q < cnt Oc (Suc p)" using False pl(3) by (intro cnt_less) auto
        ultimately show ?thesis using c(1) [of p] o [of "Suc p"] \<open>p < e\<close> False by (auto split: if_splits)
      qed
    next
      case False
      then show ?thesis using c(2) [of p] o [of "Suc p"] lt pp(2) qe by (auto split: if_splits)
    qed
  qed
  have 4: "Suc p < ns \<and> (Ph(e := False)) (Suc p)" if p: "p < ns" "(Ph(e := False)) p" "\<not> N p" for p
  proof -
    have pp: "Ph p" "p \<noteq> e" "\<not> Rn p" using p(2,3) by (auto simp: N_def del_runs_def split: if_splits)
    then have n: "Suc p < ns" "Ph (Suc p)" using ok p(1) by (auto simp: runs_ok_def)
    have "Suc p \<noteq> e"
    proof
      assume "Suc p = e"
      then have "run_shrinks Rn Ph e" "p = e - 1" using pp by (auto simp: run_shrinks_def)
      then have "N p" by (simp add: N_def del_runs_def)
      then show False using p(3) by simp
    qed
    then show ?thesis using n by simp
  qed
  show ?thesis using 1 2 3 4 unfolding N_def [symmetric] O'_def [symmetric] runs_ok_def runs_base_def by blast
qed

lemma del_items:
  assumes ok: "runs_ok ns Oc Rn Ph" and place: "del_place ns Oc Rn Ph q d e"
  shows "run_items ns Oc Rn Ph V =
    add_mset (q, V d) (run_items ns (del_occ Oc Rn Ph q e) (del_runs Rn Ph e) (Ph(e := False)) (del_vals d e z V))"
proof -
  define N where "N = del_runs Rn Ph e"
  define O' where "O' = del_occ Oc Rn Ph q e"
  define f where "f p = (if d \<le> p \<and> p < e then Suc p else p)" for p
  have base: "runs_base ns Oc Rn Ph" using ok by (simp add: runs_ok_def)
  have pl: "e < ns" "d \<le> e" "Oc q" "Rn e" "Ph d" "cnt Rn e = cnt Oc q" "cnt Rn d = cnt Oc q" using place by (simp_all add: del_place_def)
  have full: "Ph x" if "d \<le> x" "x \<le> e" for x using region_full [OF ok pl(2,1,5) _ that] pl(6,7) by simp
  note c = cnt_del_runs [of Rn e, OF pl(4), where Ph = Ph, folded N_def]
  have o: "cnt O' x + (if run_shrinks Rn Ph e \<or> x \<le> q then 0 else 1) = cnt Oc x" for x
    using cnt_clear [of Oc x q] pl(3) by (auto simp: O'_def del_occ_def)
  have own: "owner O' N p = owner Oc Rn (f p)" if p: "p < ns" "Ph p" "p \<noteq> e" for p
  proof -
    define w where "w = owner Oc Rn p"
    have w: "w \<le> p" "Oc w" "cnt Oc w = cnt Rn p" using owner_exists [OF base p(1,2)] by (simp_all add: w_def)
    have "cnt Rn (f p) = cnt Rn p"
    proof (cases "d \<le> p \<and> p < e")
      case True
      then show ?thesis using cnt_mono [of d p Rn] cnt_mono [of p "Suc p" Rn] cnt_mono [of "Suc p" e Rn] pl(6,7) by (simp add: f_def)
    qed (auto simp: f_def)
    then have fw: "owner Oc Rn (f p) = w" using w by (intro owner_eq) auto
    have "O' w \<and> cnt O' w = cnt N p"
    proof (cases "run_shrinks Rn Ph e")
      case True
      then have "O' = Oc" by (simp add: O'_def del_occ_def)
      moreover have "cnt N p = cnt Rn p" using c [of p] True p(3) by (cases "p < e") auto
      ultimately show ?thesis using w by simp
    next
      case False
      have d: "O' = Oc(q := False)" using False by (simp add: O'_def del_occ_def)
      show ?thesis
      proof (cases "p < e")
        case True
        then have "cnt Oc w < cnt Oc q" using del_last [OF ok place False p(2)] w(3) by simp
        then have "w < q" using cnt_le_iff [of Oc q w] pl(3) w(2) by auto
        then show ?thesis using d w o [of w] c(1) [of p] True by simp
      next
        case Fa: False
        then have "e < p" using p(3) by simp
        then have "cnt Oc q < cnt Oc w" using cnt_less [of Rn e p] pl(4,6) w(3) by simp
        then have "q < w" using cnt_le_iff [of Oc w q] pl(3) w(2) by auto
        then show ?thesis using d w o [of w] c(2) [of p] False \<open>e < p\<close> by simp
      qed
    qed
    then have "owner O' N p = w" by (intro owner_eq) auto
    then show ?thesis using fw by simp
  qed
  have own_d: "owner Oc Rn d = q" using pl(3,7) by (intro owner_eq) simp_all
  have vals: "V (f p) = del_vals d e z V p" if "p \<noteq> e" for p using that by (auto simp: f_def del_vals_def)
  have img: "f ` {p. p < ns \<and> (Ph(e := False)) p} = {p. p < ns \<and> Ph p} - {d}"
  proof (intro equalityI subsetI)
    fix x
    assume "x \<in> f ` {p. p < ns \<and> (Ph(e := False)) p}"
    then obtain p where p: "p < ns" "Ph p" "p \<noteq> e" "x = f p" by (auto split: if_splits)
    show "x \<in> {p. p < ns \<and> Ph p} - {d}" using p full [of "Suc p"] pl(1,2) by (cases "d \<le> p \<and> p < e") (auto simp: f_def)
  next
    fix x
    assume x: "x \<in> {p. p < ns \<and> Ph p} - {d}"
    show "x \<in> f ` {p. p < ns \<and> (Ph(e := False)) p}"
    proof (cases "d < x \<and> x \<le> e")
      case True
      then have "x = f (x - 1)" "(Ph(e := False)) (x - 1)" "x - 1 < ns" using x full [of "x - 1"] by (auto simp: f_def)
      then show ?thesis by blast
    next
      case False
      then have "x = f x" "x \<noteq> e" using x pl(2) by (auto simp: f_def)
      then show ?thesis using x by auto
    qed
  qed
  have inj: "inj_on f {p. p < ns \<and> (Ph(e := False)) p}"
    by (auto simp: inj_on_def f_def split: if_splits)
  have e: "finite {p. p < ns \<and> Ph p}" "d \<in> {p. p < ns \<and> Ph p}" using pl by auto
  have r: "(owner O' N p, del_vals d e z V p) = (owner Oc Rn (f p), V (f p))" if "p \<in> {p. p < ns \<and> (Ph(e := False)) p}" for p
    using own vals that by (simp split: if_splits)
  note renumber = image_mset_renumber [OF e inj img, of "\<lambda>p. (owner O' N p, del_vals d e z V p)" "\<lambda>p. (owner Oc Rn p, V p)"]
  have "run_items ns Oc Rn Ph V = add_mset (owner Oc Rn d, V d) (run_items ns O' N (Ph(e := False)) (del_vals d e z V))"
    unfolding run_items_def by (rule renumber) (rule r)
  then show ?thesis by (simp only: own_d N_def O'_def)
qed

section \<open>Membership\<close>

lemma run_items_iff:
  assumes "runs_base ns Oc Rn Ph"
  shows "(q, v) \<in># run_items ns Oc Rn Ph V \<longleftrightarrow> Oc q \<and> (\<exists>p < ns. Ph p \<and> cnt Rn p = cnt Oc q \<and> V p = v)"
proof
  assume "(q, v) \<in># run_items ns Oc Rn Ph V"
  then obtain p where p: "p < ns" "Ph p" "q = owner Oc Rn p" "v = V p" by (auto simp: run_items_def)
  then show "Oc q \<and> (\<exists>p < ns. Ph p \<and> cnt Rn p = cnt Oc q \<and> V p = v)" using owner_exists [OF assms p(1,2)] by auto
next
  assume "Oc q \<and> (\<exists>p < ns. Ph p \<and> cnt Rn p = cnt Oc q \<and> V p = v)"
  then obtain p where "Oc q" "p < ns" "Ph p" "cnt Rn p = cnt Oc q" "V p = v" by blast
  then show "(q, v) \<in># run_items ns Oc Rn Ph V" using owner_eq [of Oc q Rn p] by (force simp: run_items_def)
qed

lemma size_run_items: "size (run_items ns Oc Rn Ph V) = cnt Ph ns"
proof -
  have "card {p. p < ns \<and> Ph p} = cnt Ph ns"
  proof (induction ns)
    case (Suc ns)
    have "{p. p < Suc ns \<and> Ph p} = (if Ph ns then insert ns {p. p < ns \<and> Ph p} else {p. p < ns \<and> Ph p})" by (auto simp: less_Suc_eq)
    then show ?case using Suc by simp
  qed simp
  then show ?thesis by (simp add: run_items_def)
qed

end
