(* ===== verification/Rsqf_View.thy ===== *)
theory Rsqf_View
  imports Rsqf Runs
begin

text \<open>
  The quotient filter seen as the abstract runs: the laws of the packed remainders, rank and
  select against \<open>cnt\<close>, the effect of the elementary updates and of \<open>update_offsets_from\<close>.
\<close>

unbundle bit_operations_syntax

section \<open>Shape and view\<close>

definition rsqf_shape :: "rsqf_filter \<Rightarrow> bool" where
  "rsqf_shape rf \<longleftrightarrow>
     0 < rf_num_blocks rf \<and> rf_num_slots rf = 64 * rf_num_blocks rf \<and> slots_pow2 (rf_num_slots rf) \<and>
     rf_num_slots rf \<le> 2 ^ 58 \<and> 2 \<le> rf_remainder_bits rf \<and> rf_remainder_bits rf \<le> 32 \<and>
     rf_remainder_mask rf = mask (rf_remainder_bits rf) \<and>
     length (rf_occupieds rf) = rf_num_blocks rf \<and> length (rf_runends rf) = rf_num_blocks rf \<and>
     length (rf_phys_occ rf) = rf_num_blocks rf \<and> length (rf_occ_prefix rf) = Suc (rf_num_blocks rf) \<and>
     length (rf_run_prefix rf) = Suc (rf_num_blocks rf) \<and> length (rf_offsets rf) = rf_num_blocks rf \<and>
     rf_num_blocks rf * rf_remainder_bits rf \<le> length (rf_table rf)"

abbreviation rf_oc :: "rsqf_filter \<Rightarrow> nat \<Rightarrow> bool" where
  "rf_oc rf \<equiv> tbit (rf_occupieds rf)"

abbreviation rf_rn :: "rsqf_filter \<Rightarrow> nat \<Rightarrow> bool" where
  "rf_rn rf \<equiv> tbit (rf_runends rf)"

abbreviation rf_ph :: "rsqf_filter \<Rightarrow> nat \<Rightarrow> bool" where
  "rf_ph rf \<equiv> tbit (rf_phys_occ rf)"

lemma rsqf_fits:
  assumes "rsqf_shape rf" "i < rf_num_slots rf"
  shows "rem_fits (rf_table rf) i (rf_remainder_bits rf)"
proof -
  let ?r = "rf_remainder_bits rf"
  have s: "2 \<le> ?r" "?r \<le> 32" "rf_num_slots rf * ?r \<le> 64 * length (rf_table rf)" "rf_num_slots rf \<le> 2 ^ 58"
    using assms(1) by (auto simp: rsqf_shape_def)
  have "Suc i * ?r \<le> rf_num_slots rf * ?r" using assms(2) by (intro mult_le_mono1) simp
  moreover have "i * ?r \<le> 2 ^ 58 * 32" using assms(2) s by (intro mult_le_mono) simp_all
  ultimately show ?thesis using s by (simp add: rem_fits_def)
qed

lemma rf_get_put:
  assumes "rsqf_shape rf" "i < rf_num_slots rf" "j < rf_num_slots rf"
  shows "rf_get (rf_put rf i v) j = (if i = j then v AND rf_remainder_mask rf else rf_get rf j)"
  using rem_get_set [OF rsqf_fits [OF assms(1,2)] rsqf_fits [OF assms(1,3)], of v] assms(1)
  by (simp add: rf_get_def rf_put_def rsqf_shape_def)

lemma rf_get_masked: "rf_get rf i AND rf_remainder_mask rf = rf_get rf i"
  by (simp add: rf_get_def rem_get_def Let_def and.assoc)

section \<open>Elementary updates\<close>

lemma bv_pos: "rsqf_shape rf \<Longrightarrow> p < rf_num_slots rf \<Longrightarrow> p < 64 * length (rf_occupieds rf) \<and> p < 64 * length (rf_runends rf) \<and> p < 64 * length (rf_phys_occ rf)"
  by (simp add: rsqf_shape_def)

lemmas rf_updates = set_run_def clear_run_def set_occ_def clear_occ_def clear_phys_def track_phys_occ_def rf_put_def

named_theorems rf_view \<open>what the elementary updates do to the view\<close>

lemma shape_updates [rf_view]:
  "rsqf_shape (set_run rf p) = rsqf_shape rf" "rsqf_shape (clear_run rf p) = rsqf_shape rf"
  "rsqf_shape (set_occ rf p) = rsqf_shape rf" "rsqf_shape (clear_occ rf p) = rsqf_shape rf"
  "rsqf_shape (track_phys_occ rf p) = rsqf_shape rf" "rsqf_shape (clear_phys rf p) = rsqf_shape rf"
  "rsqf_shape (rf_put rf p v) = rsqf_shape rf" "rsqf_shape (rf\<lparr>rf_count := c\<rparr>) = rsqf_shape rf"
  by (simp_all add: rsqf_shape_def rf_updates)

lemma sel_updates [rf_view]:
  "rf_num_slots (set_run rf p) = rf_num_slots rf" "rf_num_slots (clear_run rf p) = rf_num_slots rf"
  "rf_num_slots (set_occ rf p) = rf_num_slots rf" "rf_num_slots (clear_occ rf p) = rf_num_slots rf"
  "rf_num_slots (track_phys_occ rf p) = rf_num_slots rf" "rf_num_slots (clear_phys rf p) = rf_num_slots rf"
  "rf_num_slots (rf_put rf p v) = rf_num_slots rf"
  "rf_remainder_mask (set_run rf p) = rf_remainder_mask rf" "rf_remainder_mask (clear_run rf p) = rf_remainder_mask rf"
  "rf_remainder_mask (set_occ rf p) = rf_remainder_mask rf" "rf_remainder_mask (clear_occ rf p) = rf_remainder_mask rf"
  "rf_remainder_mask (track_phys_occ rf p) = rf_remainder_mask rf" "rf_remainder_mask (clear_phys rf p) = rf_remainder_mask rf"
  "rf_remainder_mask (rf_put rf p v) = rf_remainder_mask rf"
  "rf_get (set_run rf p) = rf_get rf" "rf_get (clear_run rf p) = rf_get rf" "rf_get (set_occ rf p) = rf_get rf"
  "rf_get (clear_occ rf p) = rf_get rf" "rf_get (track_phys_occ rf p) = rf_get rf" "rf_get (clear_phys rf p) = rf_get rf"
  "rf_occupieds (set_run rf p) = rf_occupieds rf" "rf_occupieds (clear_run rf p) = rf_occupieds rf"
  "rf_occupieds (track_phys_occ rf p) = rf_occupieds rf" "rf_occupieds (clear_phys rf p) = rf_occupieds rf" "rf_occupieds (rf_put rf p v) = rf_occupieds rf"
  "rf_runends (set_occ rf p) = rf_runends rf" "rf_runends (clear_occ rf p) = rf_runends rf"
  "rf_runends (track_phys_occ rf p) = rf_runends rf" "rf_runends (clear_phys rf p) = rf_runends rf" "rf_runends (rf_put rf p v) = rf_runends rf"
  "rf_phys_occ (set_occ rf p) = rf_phys_occ rf" "rf_phys_occ (clear_occ rf p) = rf_phys_occ rf"
  "rf_phys_occ (set_run rf p) = rf_phys_occ rf" "rf_phys_occ (clear_run rf p) = rf_phys_occ rf" "rf_phys_occ (rf_put rf p v) = rf_phys_occ rf"
  by (simp_all add: rf_updates rf_get_def fun_eq_iff)

lemma bit_updates [rf_view]:
  assumes "rsqf_shape rf" "p < rf_num_slots rf"
  shows "rf_rn (set_run rf p) = (rf_rn rf)(p := True)" "rf_rn (clear_run rf p) = (rf_rn rf)(p := False)"
    "rf_oc (set_occ rf p) = (rf_oc rf)(p := True)" "rf_oc (clear_occ rf p) = (rf_oc rf)(p := False)"
    "rf_ph (track_phys_occ rf p) = (rf_ph rf)(p := True)" "rf_ph (clear_phys rf p) = (rf_ph rf)(p := False)"
  using bv_pos [OF assms] by (simp_all add: rf_updates tbit_set_bit_at tbit_clear_bit_at)

text \<open>The fields no update but \<open>update_offsets_from\<close> and the counter touch.\<close>

definition same_meta :: "rsqf_filter \<Rightarrow> rsqf_filter \<Rightarrow> bool" where
  "same_meta rf rf' \<longleftrightarrow> rf_num_slots rf' = rf_num_slots rf \<and> rf_num_blocks rf' = rf_num_blocks rf \<and> rf_count rf' = rf_count rf \<and>
     rf_remainder_bits rf' = rf_remainder_bits rf \<and> rf_remainder_mask rf' = rf_remainder_mask rf \<and>
     rf_occ_prefix rf' = rf_occ_prefix rf \<and> rf_run_prefix rf' = rf_run_prefix rf \<and> rf_offsets rf' = rf_offsets rf"

lemma same_meta_refl [simp]: "same_meta rf rf"
  by (simp add: same_meta_def)

lemma same_meta_trans: "same_meta a b \<Longrightarrow> same_meta b c \<Longrightarrow> same_meta a c"
  by (simp add: same_meta_def)

lemma same_meta_updates [rf_view]:
  "same_meta a (set_run rf p) = same_meta a rf" "same_meta a (clear_run rf p) = same_meta a rf" "same_meta a (set_occ rf p) = same_meta a rf"
  "same_meta a (clear_occ rf p) = same_meta a rf" "same_meta a (track_phys_occ rf p) = same_meta a rf" "same_meta a (clear_phys rf p) = same_meta a rf"
  "same_meta a (rf_put rf p v) = same_meta a rf"
  by (simp_all add: same_meta_def rf_updates)

section \<open>Moving slots\<close>

text \<open>What a step that moves slots leaves alone, and the new runends, occupancy and remainders.\<close>

definition moved :: "rsqf_filter \<Rightarrow> (nat \<Rightarrow> bool) \<Rightarrow> (nat \<Rightarrow> bool) \<Rightarrow> (nat \<Rightarrow> u64) \<Rightarrow> rsqf_filter \<Rightarrow> bool" where
  "moved rf Rn Ph V rf' \<longleftrightarrow> rsqf_shape rf' \<and> same_meta rf rf' \<and> rf_oc rf' = rf_oc rf \<and>
     (\<forall>p < rf_num_slots rf. rf_rn rf' p = Rn p \<and> rf_ph rf' p = Ph p \<and> rf_get rf' p = V p)"

lemma move_slot_right_ok:
  assumes sh: "rsqf_shape rf" and d: "dst < rf_num_slots rf" "src < rf_num_slots rf" "dst \<noteq> src" and ph: "rf_ph rf src"
  shows "moved rf ((rf_rn rf)(dst := rf_rn rf src, src := False)) ((rf_ph rf)(dst := True, src := False))
    ((rf_get rf)(dst := rf_get rf src, src := 0)) (move_slot_right rf dst src)"
proof -
  define r1 where "r1 = rf_put rf dst (rf_get rf src)"
  define r2 where "r2 = clear_phys (track_phys_occ r1 dst) src"
  have b: "rf_ph rf src" using ph .
  have m: "move_phys_occ r1 src dst = r2"
    using b by (simp add: move_phys_occ_def r2_def r1_def rf_updates)
  define r3 where "r3 = (if rf_rn rf src then set_run r2 dst else clear_run r2 dst)"
  define r4 where "r4 = clear_phys (clear_run r3 src) src"
  have e: "move_slot_right rf dst src = rf_put r4 src 0"
    using m by (simp add: move_slot_right_def Let_def r4_def r3_def r1_def [symmetric])
  have s1: "rsqf_shape r1" "rf_num_slots r1 = rf_num_slots rf" using sh by (simp_all add: r1_def rf_view)
  have s2: "rsqf_shape r2" "rf_num_slots r2 = rf_num_slots rf" using s1 by (simp_all add: r2_def rf_view)
  have s3: "rsqf_shape r3" "rf_num_slots r3 = rf_num_slots rf" using s2 by (simp_all add: r3_def rf_view)
  have s4: "rsqf_shape r4" "rf_num_slots r4 = rf_num_slots rf" using s3 by (simp_all add: r4_def rf_view)
  have g: "rf_get r4 p = (if p = dst then rf_get rf src else rf_get rf p)" if "p < rf_num_slots rf" for p
    using rf_get_put [OF sh d(1) that, of "rf_get rf src"] by (auto simp: r4_def r3_def r2_def r1_def rf_view rf_get_masked)
  have "rf_rn r4 = (rf_rn rf)(dst := rf_rn rf src, src := False)"
    using s2 s3 d by (simp add: r4_def r3_def r2_def r1_def rf_view)
  moreover have "rf_ph r4 = (rf_ph rf)(dst := True, src := False)"
    using s1 s3 d sh by (simp add: r4_def r3_def r2_def r1_def rf_view)
  moreover have "rf_oc r4 = rf_oc rf" "same_meta rf r4" by (simp_all add: r4_def r3_def r2_def r1_def rf_view)
  moreover have "rf_get (rf_put r4 src 0) p = ((rf_get rf)(dst := rf_get rf src, src := 0)) p" if "p < rf_num_slots rf" for p
    using rf_get_put [OF s4(1), of src p 0] g [OF that] that d s4(2) by simp
  ultimately show ?thesis using s4 unfolding e moved_def by (simp add: rf_view)
qed

lemma shift_right_ok:
  assumes "rsqf_shape rf" "s \<le> n" "n < rf_num_slots rf" "\<And>p. s \<le> p \<Longrightarrow> p < n \<Longrightarrow> rf_ph rf p"
  shows "moved rf (shifted s n False (rf_rn rf)) (shifted s n False (rf_ph rf)) (shifted s n 0 (rf_get rf)) (shift_right s n rf)"
  using assms
proof (induction n arbitrary: rf)
  case 0
  then show ?case by (simp add: shift_right_def moved_def shifted_def)
next
  case (Suc n)
  show ?case
  proof (cases "s \<le> n")
    case False
    then have s: "s = Suc n" using Suc.prems(2) by simp
    have "shifted s (Suc n) False f = f" "shifted s (Suc n) (0 :: u64) g = g" for f g using s by (auto simp: shifted_def fun_eq_iff)
    then show ?thesis using Suc.prems(1) s by (simp add: shift_right_def moved_def)
  next
    case True
    define rf1 where "rf1 = move_slot_right rf (Suc n) n"
    have m: "moved rf ((rf_rn rf)(Suc n := rf_rn rf n, n := False)) ((rf_ph rf)(Suc n := True, n := False))
      ((rf_get rf)(Suc n := rf_get rf n, n := 0)) rf1"
      unfolding rf1_def using Suc.prems True by (intro move_slot_right_ok) auto
    have e: "shift_right s (Suc n) rf = shift_right s n rf1" using True by (simp add: shift_right_def rf1_def)
    have ns: "rf_num_slots rf1 = rf_num_slots rf" using m by (simp add: moved_def same_meta_def)
    have eqs: "rf_rn rf1 x = ((rf_rn rf)(Suc n := rf_rn rf n, n := False)) x" "rf_ph rf1 x = ((rf_ph rf)(Suc n := rf_ph rf n, n := False)) x"
      "rf_get rf1 x = ((rf_get rf)(Suc n := rf_get rf n, n := 0)) x" if "x < rf_num_slots rf" for x
      using m that Suc.prems(4) [of n] True by (simp_all add: moved_def)
    have ih: "moved rf1 (shifted s n False (rf_rn rf1)) (shifted s n False (rf_ph rf1)) (shifted s n 0 (rf_get rf1)) (shift_right s n rf1)"
    proof (rule Suc.IH)
      show "rsqf_shape rf1" using m by (simp add: moved_def)
      show "rf_ph rf1 p" if "s \<le> p" "p < n" for p using eqs(2) [of p] that Suc.prems(3,4) by simp
    qed (use True Suc.prems(3) ns in auto)
    have "shifted s n False (rf_rn rf1) p = shifted s (Suc n) False (rf_rn rf) p" "shifted s n False (rf_ph rf1) p = shifted s (Suc n) False (rf_ph rf) p"
      "shifted s n 0 (rf_get rf1) p = shifted s (Suc n) 0 (rf_get rf) p" if "p < rf_num_slots rf" for p
      using shifted_step [OF True that eqs(1) Suc.prems(3)] shifted_step [OF True that eqs(2) Suc.prems(3)] shifted_step [OF True that eqs(3) Suc.prems(3)] by blast+
    then show ?thesis using ih m same_meta_trans [of rf rf1] unfolding e moved_def ns by auto
  qed
qed

section \<open>Rank and select\<close>

definition sums_ok :: "rsqf_filter \<Rightarrow> bool" where
  "sums_ok rf \<longleftrightarrow> prefix_ok (rf_occupieds rf) (rf_occ_prefix rf) \<and> prefix_ok (rf_runends rf) (rf_run_prefix rf)"

lemma rank_occ_cnt:
  assumes "rsqf_shape rf" "sums_ok rf" "q < rf_num_slots rf"
  shows "rank_occ rf q = cnt (rf_oc rf) (Suc q)"
  using rank_prefix [of "rf_occupieds rf" "rf_occ_prefix rf" q] assms by (simp add: rank_occ_def sums_ok_def rsqf_shape_def Let_def)

lemma select_run_eq:
  assumes "rsqf_shape rf" "sums_ok rf" "p < rf_num_slots rf" "rf_rn rf p" "cnt (rf_rn rf) p = k"
  shows "select_run rf (Suc k) = p"
proof -
  have nb: "length (rf_runends rf) = rf_num_blocks rf" "rf_num_slots rf = 64 * rf_num_blocks rf" using assms(1) by (simp_all add: rsqf_shape_def)
  have "rf_run_prefix rf ! rf_num_blocks rf = cnt (rf_rn rf) (64 * rf_num_blocks rf)" using assms(2) nb by (simp add: sums_ok_def prefix_ok_def)
  then have "\<not> Suc k > rf_run_prefix rf ! rf_num_blocks rf" using cnt_less [of "rf_rn rf" p "64 * rf_num_blocks rf"] assms(3-5) nb by simp
  moreover have "select_prefix (rf_runends rf) (rf_run_prefix rf) (Suc k) = p"
    using assms nb by (intro select_prefix_ok) (auto simp: sums_ok_def)
  ultimately show ?thesis by (simp add: select_run_def select_prefix_def Let_def nb(1))
qed

lemma ctz_ok:
  assumes "w \<noteq> 0"
  shows "bit w (builtin_ctzll w)" "i < builtin_ctzll w \<Longrightarrow> \<not> bit w i"
proof -
  obtain j where "bit w j" using assms bit_eq_iff [of w 0] by auto
  then have j: "j < 64" "bit w j" using bit_u64_bound [of w j] by simp_all
  let ?t = "takeWhile (\<lambda>i. \<not> bit w i) [0..<64]"
  have "length ?t < length [0..<64]"
  proof (rule ccontr)
    assume "\<not> length ?t < length [0..<64]"
    then have "?t = [0..<64]" using takeWhile_eq_take [of "\<lambda>i. \<not> bit w i" "[0..<64]"] by simp
    then have "\<forall>i \<in> set [0..<64]. \<not> bit w i" by (simp only: takeWhile_eq_all_conv)
    then show False using j by auto
  qed
  then show "bit w (builtin_ctzll w)" using nth_length_takeWhile [of "\<lambda>i. \<not> bit w i" "[0..<64]"] by (simp add: builtin_ctzll_def)
  show "\<not> bit w i" if "i < builtin_ctzll w"
  proof -
    have l: "builtin_ctzll w \<le> 64" using length_takeWhile_le [of "\<lambda>i. \<not> bit w i" "[0..<64]"] by (simp add: builtin_ctzll_def)
    have "?t ! i \<in> set ?t" using that by (intro nth_mem) (simp add: builtin_ctzll_def)
    moreover have "?t ! i = i" using that l by (simp add: builtin_ctzll_def takeWhile_nth)
    ultimately show ?thesis by (metis set_takeWhileD)
  qed
qed

text \<open>Every iteration of the scan moves on, so the number of slots to the target is fuel enough.\<close>

lemma runend_scan_ok:
  assumes sh: "rsqf_shape rf"
  shows "e < rf_num_slots rf \<Longrightarrow> rf_rn rf e \<Longrightarrow> pos \<le> e \<Longrightarrow> cnt (rf_rn rf) (Suc e) = cnt (rf_rn rf) (Suc pos) + need \<Longrightarrow>
    need = 0 \<longrightarrow> pos = e \<Longrightarrow> e - pos \<le> fuel \<Longrightarrow> runend_scan rf fuel need pos = e"
proof (induction fuel arbitrary: need pos)
  case 0
  then show ?case by simp
next
  case (Suc fuel)
  show ?case
  proof (cases "need = 0")
    case True
    then show ?thesis using Suc.prems by simp
  next
    case False
    define pos' where "pos' = pos + 1"
    define wi where "wi = pos' div 64"
    define bi where "bi = pos' mod 64"
    define word where "word = drop_bit bi (rf_runends rf ! wi)"
    have "pos \<noteq> e" using Suc.prems(4) False by auto
    then have p: "pos' \<le> e" "pos' < rf_num_slots rf" using Suc.prems(1,3) by (auto simp: pos'_def)
    have wi: "wi < rf_num_blocks rf" using p(2) sh by (simp add: wi_def rsqf_shape_def less_mult_imp_div_less mult.commute)
    have d: "pos' = 64 * wi + bi" "bi < 64" by (simp_all add: wi_def bi_def)
    have w: "bit word i = rf_rn rf (pos' + i)" if "bi + i < 64" for i
      using that tbit_word [of "bi + i" "rf_runends rf" wi] d by (simp add: word_def bit_simps add.assoc)
    have c': "cnt (rf_rn rf) (Suc pos) = cnt (rf_rn rf) pos'" by (simp add: pos'_def)
    have step: "runend_scan rf (Suc fuel) need pos =
      (if word \<noteq> 0 then runend_scan rf fuel (need - 1) (pos' + builtin_ctzll word) else runend_scan rf fuel need ((wi + 1) * 64 - 1))"
    proof -
      have "\<not> pos' \<ge> rf_num_slots rf" "\<not> wi \<ge> rf_num_blocks rf" "need > 0" using False p(2) wi by simp_all
      then show ?thesis
        unfolding runend_scan.simps Let_def pos'_def [symmetric] by (simp only: if_True if_False wi_def [symmetric] bi_def [symmetric] word_def [symmetric])
    qed
    show ?thesis
    proof (cases "word = 0")
      case False
      note z = ctz_ok [OF False]
      define p1 where "p1 = pos' + builtin_ctzll word"
      have "bi + builtin_ctzll word < 64" using z(1) bit_u64_bound [of "rf_runends rf ! wi"] by (auto simp: word_def bit_simps)
      then have lt: "rf_rn rf p1" "bi + builtin_ctzll word < 64" using z(1) w [of "builtin_ctzll word"] by (simp_all add: p1_def)
      have r1: "rf_rn rf p1" "\<not> rf_rn rf y" if "pos' \<le> y" "y < p1" for y
      proof -
        have y: "y - pos' < builtin_ctzll word" "pos' + (y - pos') = y" using that by (auto simp: p1_def)
        then show "rf_rn rf p1" "\<not> rf_rn rf y" using w [of "y - pos'"] z(2) [OF y(1)] lt by simp_all
      qed
      have c1: "cnt (rf_rn rf) p1 = cnt (rf_rn rf) pos'" using r1(2) by (intro cnt_none) (auto simp: p1_def)
      have le: "p1 \<le> e" using r1(2) [of e] Suc.prems(2) p(1) by (cases "p1 \<le> e") auto
      have "cnt (rf_rn rf) (Suc e) = cnt (rf_rn rf) (Suc p1) + (need - 1)" using Suc.prems(4) c1 c' lt(1) \<open>need \<noteq> 0\<close> by simp
      moreover have "need - 1 = 0 \<longrightarrow> p1 = e"
      proof
        assume "need - 1 = 0"
        then have "cnt (rf_rn rf) e = cnt (rf_rn rf) p1" using calculation Suc.prems(2) lt(1) by simp
        then show "p1 = e" using cnt_inj [of "rf_rn rf" p1 e] lt(1) Suc.prems(2) by simp
      qed
      moreover have "e - p1 \<le> fuel" using Suc.prems(6) by (simp add: p1_def pos'_def)
      ultimately show ?thesis using Suc.IH [OF Suc.prems(1,2) le, of "need - 1"] step False by (simp add: p1_def)
    next
      case True
      define p2 where "p2 = (wi + 1) * 64 - 1"
      have none: "\<not> rf_rn rf y" if "pos' \<le> y" "y < (wi + 1) * 64" for y
        using w [of "y - pos'"] that True d by simp
      have gt: "(wi + 1) * 64 \<le> e" using none [of e] p(1) Suc.prems(2) by (cases "(wi + 1) * 64 \<le> e") auto
      have s2: "Suc p2 = (wi + 1) * 64" by (simp add: p2_def)
      have pp: "pos' \<le> p2" using d by (simp add: p2_def)
      have "cnt (rf_rn rf) (Suc p2) = cnt (rf_rn rf) pos'" using none pp s2 by (intro cnt_none) auto
      then have "cnt (rf_rn rf) (Suc e) = cnt (rf_rn rf) (Suc p2) + need" using Suc.prems(4) c' by simp
      moreover have "p2 \<le> e" "e - p2 \<le> fuel" using gt pp Suc.prems(6) by (auto simp: p2_def pos'_def)
      ultimately show ?thesis using Suc.IH [OF Suc.prems(1,2), of p2 need] step True \<open>need \<noteq> 0\<close> by (simp add: p2_def)
    qed
  qed
qed

text \<open>The offset of a block with occupied quotients leads to the end of the first of their runs.\<close>

definition off_ok :: "rsqf_filter \<Rightarrow> nat \<Rightarrow> bool" where
  "off_ok rf b \<longleftrightarrow>
     (\<forall>e < rf_num_slots rf. cnt (rf_oc rf) (64 * b) < cnt (rf_oc rf) (64 * Suc b) \<and> rf_rn rf e \<and> cnt (rf_rn rf) e = cnt (rf_oc rf) (64 * b) \<longrightarrow>
       rf_offsets rf ! b = (if e - 64 * b > 254 then 255 else e - 64 * b))"

definition rsqf_runs :: "rsqf_filter \<Rightarrow> bool" where
  "rsqf_runs rf \<longleftrightarrow> rsqf_shape rf \<and> sums_ok rf \<and> (\<forall>b < rf_num_blocks rf. off_ok rf b) \<and>
     runs_base (rf_num_slots rf) (rf_oc rf) (rf_rn rf) (rf_ph rf)"

lemma rank_select_end:
  assumes ok: "rsqf_runs rf" and q: "q < rf_num_slots rf" "rf_oc rf q"
    and e: "e < rf_num_slots rf" "rf_rn rf e" "cnt (rf_rn rf) e = cnt (rf_oc rf) q"
  shows "rank_select rf q = e"
proof -
  define b where "b = q div 64"
  define k where "k = cnt (rf_oc rf) (64 * b)"
  have sh: "rsqf_shape rf" "sums_ok rf" "runs_base (rf_num_slots rf) (rf_oc rf) (rf_rn rf) (rf_ph rf)" using ok by (simp_all add: rsqf_runs_def)
  have ns: "rf_num_slots rf = 64 * rf_num_blocks rf" "rf_num_slots rf \<le> 2 ^ 58" using sh(1) by (simp_all add: rsqf_shape_def)
  have qb: "64 * b \<le> q" "Suc q \<le> 64 * Suc b" "b < rf_num_blocks rf" using q(1) ns by (auto simp: b_def less_mult_imp_div_less mult.commute)
  have kq: "k \<le> cnt (rf_oc rf) q" using cnt_mono [OF qb(1)] by (simp add: k_def)
  have "cnt (rf_oc rf) q < cnt (rf_oc rf) (64 * Suc b)" using cnt_less [of "rf_oc rf" q "64 * Suc b"] q(2) qb(2) by simp
  then have kb: "k < cnt (rf_oc rf) (64 * Suc b)" using kq by simp
  have "k < cnt (rf_rn rf) (rf_num_slots rf)" using cnt_less [of "rf_rn rf" e "rf_num_slots rf"] e kq by simp
  then obtain e0 where e0: "e0 < rf_num_slots rf" "rf_rn rf e0" "cnt (rf_rn rf) e0 = k" using cnt_ex by blast
  have "k < cnt (rf_oc rf) (Suc e0)" using sh(3) e0 by (auto simp: runs_base_def)
  then have e0b: "64 * b \<le> e0" using cnt_mono [of "Suc e0" "64 * b" "rf_oc rf"] by (cases "64 * b \<le> e0") (auto simp: k_def)
  have off: "rf_offsets rf ! b = (if e0 - 64 * b > 254 then 255 else e0 - 64 * b)"
    using ok e0 kb qb(3) by (simp add: rsqf_runs_def off_ok_def k_def)
  have rank: "rank_occ rf p = cnt (rf_oc rf) (Suc p)" if "p < rf_num_slots rf" for p using rank_occ_cnt [OF sh(1,2) that] .
  show ?thesis
  proof (cases "rf_offsets rf ! b = 255")
    case True
    have "select_run rf (rank_occ rf q) = e" using select_run_eq [OF sh(1,2) e] rank [OF q(1)] q(2) by simp
    then show ?thesis using True by (simp add: rank_select_def b_def)
  next
    case False
    then have o: "64 * b + rf_offsets rf ! b = e0" using off e0b by (auto split: if_splits)
    define d where "d = cnt (rf_oc rf) q - k"
    have first: "e = e0" if "cnt (rf_oc rf) q = k" using cnt_inj [of "rf_rn rf" e e0] e e0 that by simp
    show ?thesis
    proof (cases "q = 64 * b")
      case True
      then show ?thesis using first o False by (simp add: rank_select_def b_def [symmetric] k_def mult.commute)
    next
      case nb: False
      have "(if b * 64 > 0 then rank_occ rf (b * 64 - 1) else 0) = k"
        using rank [of "b * 64 - 1"] qb(1) q(1) by (cases "b = 0") (auto simp: k_def mult.commute)
      moreover have "rank_occ rf (q - 1) = cnt (rf_oc rf) q" using rank [of "q - 1"] q(1) qb(1) nb by (cases q) auto
      moreover have "sz_sub (cnt (rf_oc rf) q) k = d"
        using sz_sub_small [of k "cnt (rf_oc rf) q"] kq cnt_le [of "rf_oc rf" q] q(1) ns(2) by (simp add: d_def)
      ultimately have r: "rank_select rf q = (if d = 0 then e0 else runend_scan rf (rf_num_slots rf) d e0)"
        using False nb o by (simp add: rank_select_def b_def [symmetric] Let_def mult.commute)
      have le: "e0 \<le> e" using cnt_le_iff [of "rf_rn rf" e0 e] e e0 kq by simp
      have "runend_scan rf (rf_num_slots rf) d e0 = e" if "d \<noteq> 0"
        using le e e0 that kq by (intro runend_scan_ok [OF sh(1)]) (auto simp: d_def)
      then show ?thesis using r first kq by (cases "d = 0") (auto simp: d_def)
    qed
  qed
qed

section \<open>Prefix sums and offsets\<close>

lemma fold_offsets:
  "fold (\<lambda>b rf. rf\<lparr>rf_offsets := (rf_offsets rf)[b := block_offset rf b]\<rparr>) bs rf =
    rf\<lparr>rf_offsets := fold (\<lambda>b os. os[b := block_offset rf b]) bs (rf_offsets rf)\<rparr>"
proof -
  have b: "block_offset (rf\<lparr>rf_offsets := os\<rparr>) b = block_offset rf b" for os b
    by (simp add: block_offset_def select_run_def Let_def)
  have "fold (\<lambda>b rf. rf\<lparr>rf_offsets := (rf_offsets rf)[b := block_offset rf b]\<rparr>) bs (rf\<lparr>rf_offsets := os\<rparr>) =
    rf\<lparr>rf_offsets := fold (\<lambda>b os. os[b := block_offset rf b]) bs os\<rparr>" for os
    by (induction bs arbitrary: os) (simp_all add: b)
  from this [of "rf_offsets rf"] show ?thesis by simp
qed

lemma fold_update_nth:
  "c < length os \<Longrightarrow> fold (\<lambda>b os. os[b := f b]) bs os ! c = (if c \<in> set bs then f c else os ! c) \<and>
    length (fold (\<lambda>b os. os[b := f b]) bs os) = length os"
  by (induction bs arbitrary: os) (auto simp: nth_list_update)

lemma block_offset_ok:
  assumes "rsqf_shape rf" "sums_ok rf" "b < rf_num_blocks rf" "rf_offsets rf ! b = block_offset rf b"
  shows "off_ok rf b"
  unfolding off_ok_def
proof (intro allI impI, elim conjE)
  fix e
  assume e: "e < rf_num_slots rf" "cnt (rf_oc rf) (64 * b) < cnt (rf_oc rf) (64 * Suc b)" "rf_rn rf e" "cnt (rf_rn rf) e = cnt (rf_oc rf) (64 * b)"
  have "length (rf_occupieds rf) = rf_num_blocks rf" using assms(1) by (simp add: rsqf_shape_def)
  then have p: "rf_occ_prefix rf ! c = cnt (rf_oc rf) (64 * c)" if "c \<le> Suc b" for c
    using assms(2,3) that by (simp add: sums_ok_def prefix_ok_def)
  have "select_run rf (rf_occ_prefix rf ! b + 1) = e" using select_run_eq [OF assms(1,2) e(1,3,4)] p [of b] by simp
  moreover have "rf_occ_prefix rf ! (b + 1) > rf_occ_prefix rf ! b" using p [of b] p [of "Suc b"] e(2) by (simp del: mult_Suc_right)
  ultimately have "block_offset rf b = (if e - 64 * b > 254 then 255 else e - 64 * b)"
    by (auto simp: block_offset_def Let_def mult.commute)
  then show "rf_offsets rf ! b = (if e - 64 * b > 254 then 255 else e - 64 * b)" using assms(4) by simp
qed

text \<open>
  An update from \<open>first_block\<close> on restores all derived data when the data of the blocks before are still right.
\<close>

lemma update_offsets_ok:
  assumes sh: "rsqf_shape rf" and fb: "fb < rf_num_blocks rf"
    and sums: "\<forall>b \<le> fb. rf_occ_prefix rf ! b = cnt (rf_oc rf) (64 * b)" "\<forall>b \<le> fb. rf_run_prefix rf ! b = cnt (rf_rn rf) (64 * b)"
    and offs: "\<forall>b < fb. off_ok rf b"
  defines "rf' \<equiv> update_offsets_from rf fb"
  shows "rsqf_shape rf'" "sums_ok rf'" "\<forall>b < rf_num_blocks rf'. off_ok rf' b"
    "rf_occupieds rf' = rf_occupieds rf" "rf_runends rf' = rf_runends rf" "rf_phys_occ rf' = rf_phys_occ rf" "rf_get rf' = rf_get rf"
    "rf_count rf' = rf_count rf" "rf_num_slots rf' = rf_num_slots rf" "rf_remainder_bits rf' = rf_remainder_bits rf" "rf_remainder_mask rf' = rf_remainder_mask rf"
proof -
  define rp where "rp = update_prefixes_from rf fb"
  define os where "os = fold (\<lambda>b os. os[b := block_offset rp b]) [fb..<rf_num_blocks rf] (rf_offsets rf)"
  have e: "rf' = rp\<lparr>rf_offsets := os\<rparr>" by (simp add: rf'_def update_offsets_from_def fold_offsets rp_def [symmetric] os_def) (simp add: rp_def update_prefixes_from_def Let_def)
  have l: "length (rf_occupieds rf) = rf_num_blocks rf" "length (rf_runends rf) = rf_num_blocks rf"
    "length (rf_occ_prefix rf) = Suc (rf_num_blocks rf)" "length (rf_run_prefix rf) = Suc (rf_num_blocks rf)" "length (rf_offsets rf) = rf_num_blocks rf"
    using sh by (simp_all add: rsqf_shape_def)
  note po = fold_prefix_ok [of "rf_occ_prefix rf" "rf_occupieds rf" fb] and pr = fold_prefix_ok [of "rf_run_prefix rf" "rf_runends rf" fb]
  have so: "sums_ok rp" using po pr l sums fb by (simp add: rp_def update_prefixes_from_def sums_ok_def Let_def)
  have len: "length os = rf_num_blocks rf" using fold_update_nth [of 0 "rf_offsets rf"] l(5) fb by (simp add: os_def)
  have rpf: "rf_num_slots rp = rf_num_slots rf" "rf_num_blocks rp = rf_num_blocks rf" "rf_remainder_bits rp = rf_remainder_bits rf"
    "rf_remainder_mask rp = rf_remainder_mask rf" "rf_occupieds rp = rf_occupieds rf" "rf_runends rp = rf_runends rf"
    "rf_phys_occ rp = rf_phys_occ rf" "rf_table rp = rf_table rf" by (simp_all add: rp_def update_prefixes_from_def Let_def)
  have "length (rf_occ_prefix rp) = Suc (rf_num_blocks rf)" "length (rf_run_prefix rp) = Suc (rf_num_blocks rf)"
    using so l rpf by (simp_all add: sums_ok_def prefix_ok_def)
  then show sh': "rsqf_shape rf'" using sh len unfolding e rsqf_shape_def by (auto simp: rpf)
  show so': "sums_ok rf'" using so by (simp add: e sums_ok_def)
  show f: "rf_occupieds rf' = rf_occupieds rf" "rf_runends rf' = rf_runends rf" "rf_phys_occ rf' = rf_phys_occ rf" "rf_get rf' = rf_get rf"
    "rf_count rf' = rf_count rf" "rf_num_slots rf' = rf_num_slots rf" "rf_remainder_bits rf' = rf_remainder_bits rf" "rf_remainder_mask rf' = rf_remainder_mask rf"
    by (simp_all add: e rp_def update_prefixes_from_def Let_def rf_get_def fun_eq_iff)
  have nb: "rf_num_blocks rf' = rf_num_blocks rf" "rf_offsets rf' = os" by (simp_all add: e rp_def update_prefixes_from_def Let_def)
  show "\<forall>b < rf_num_blocks rf'. off_ok rf' b"
  proof (intro allI impI)
    fix b
    assume b: "b < rf_num_blocks rf'"
    have os: "os ! b = (if fb \<le> b then block_offset rp b else rf_offsets rf ! b)"
      using fold_update_nth [of b "rf_offsets rf" "block_offset rp" "[fb..<rf_num_blocks rf]"] b l(5) nb(1) by (simp add: os_def)
    show "off_ok rf' b"
    proof (cases "fb \<le> b")
      case True
      have "block_offset rf' b = block_offset rp b" by (simp add: e block_offset_def select_run_def Let_def)
      then show ?thesis using block_offset_ok [OF sh' so' b] os True nb(2) by simp
    next
      case False
      then have "off_ok rf b" using offs by simp
      then show ?thesis using os False nb(2) f by (simp add: off_ok_def)
    qed
  qed
qed

end
