(* ===== verification/Rsqf_Spec.thy ===== *)
theory Rsqf_Spec
  imports Rsqf_View Amq
begin

text \<open>
  Correctness of the quotient filter against the multiset of its items, pairs of a quotient and a
  remainder. \<open>rsqf_ok\<close> is the invariant that insertion and deletion keep and lookup and deletion rely on;
  insertion relies on \<open>rsqf_tight\<close>, which deletion does not keep.
\<close>

unbundle bit_operations_syntax

section \<open>Invariants and items\<close>

definition rsqf_ok :: "rsqf_filter \<Rightarrow> bool" where
  "rsqf_ok rf \<longleftrightarrow> rsqf_runs rf \<and> runs_ok (rf_num_slots rf) (rf_oc rf) (rf_rn rf) (rf_ph rf) \<and>
     (\<forall>p < rf_num_slots rf. \<not> rf_ph rf p \<longrightarrow> rf_get rf p = 0) \<and> rf_count rf = cnt (rf_ph rf) (rf_num_slots rf)"

definition rsqf_tight :: "rsqf_filter \<Rightarrow> bool" where
  "rsqf_tight rf \<longleftrightarrow> rsqf_ok rf \<and> runs_tight (rf_num_slots rf) (rf_oc rf) (rf_rn rf) (rf_ph rf)"

definition rsqf_items :: "rsqf_filter \<Rightarrow> (nat \<times> u64) multiset" where
  "rsqf_items rf = run_items (rf_num_slots rf) (rf_oc rf) (rf_rn rf) (rf_ph rf) (rf_get rf)"

definition rsqf_item :: "rsqf_filter \<Rightarrow> u64 \<Rightarrow> nat \<times> u64" where
  "rsqf_item rf hash = (hash_quotient rf hash, hash_remainder rf hash)"

lemma runs_of_ok: "rsqf_ok rf \<Longrightarrow> rsqf_runs rf" "rsqf_runs rf \<Longrightarrow> rsqf_shape rf" "rsqf_runs rf \<Longrightarrow> sums_ok rf"
  "rsqf_runs rf \<Longrightarrow> runs_base (rf_num_slots rf) (rf_oc rf) (rf_rn rf) (rf_ph rf)"
  by (simp_all add: rsqf_ok_def rsqf_runs_def)

lemma quotient_less:
  assumes "rsqf_shape rf"
  shows "hash_quotient rf hash < rf_num_slots rf"
  using masked_slot_less [of "rf_num_slots rf"] assms by (simp add: hash_quotient_def rsqf_shape_def)

lemma remainder_masked: "hash_remainder rf hash AND rf_remainder_mask rf = hash_remainder rf hash"
  by (simp add: hash_remainder_def and.assoc)

section \<open>Runs and lookup\<close>

lemma find_run_occ:
  assumes ok: "rsqf_runs rf" and q: "q < rf_num_slots rf" "rf_oc rf q"
  obtains rs e where "find_run rf q = Some (rs, e)" "rs \<le> e" "e < rf_num_slots rf" "rf_rn rf e" "cnt (rf_rn rf) e = cnt (rf_oc rf) q" "q \<le> e"
    "\<And>p. p < rf_num_slots rf \<Longrightarrow> cnt (rf_rn rf) p = cnt (rf_oc rf) q \<longleftrightarrow> rs \<le> p \<and> p \<le> e"
proof -
  let ?R = "rf_rn rf" and ?O = "rf_oc rf" and ?ns = "rf_num_slots rf"
  note sh = runs_of_ok(2-4) [OF ok]
  obtain e where e: "e < ?ns" "?R e" "cnt ?R e = cnt ?O q" "q \<le> e" using runend_exists [OF sh(3) q] by blast
  have ns: "?ns \<le> 2 ^ 58" using sh(1) by (simp add: rsqf_shape_def)
  have rank: "rank_occ rf q = Suc (cnt ?O q)" using rank_occ_cnt [OF sh(1,2) q(1)] q(2) by simp
  have upper: "p \<le> e" if "cnt ?R p = cnt ?O q" for p using cnt_less [of ?R e p] e(2,3) that by (cases "p \<le> e") auto
  have "\<exists>rs. run_start rf (Suc (cnt ?O q)) = rs \<and> rs \<le> e \<and> (\<forall>p \<le> e. cnt ?R p = cnt ?O q \<longleftrightarrow> rs \<le> p)"
  proof (cases "cnt ?O q")
    case 0
    then have "\<forall>p \<le> e. cnt ?R p = 0" using cnt_mono [of _ e ?R] e(3) by (metis le_zero_eq)
    then show ?thesis using 0 by (simp add: run_start_def)
  next
    case (Suc j)
    then obtain e1 where e1: "e1 < e" "?R e1" "cnt ?R e1 = j" using cnt_ex [of j ?R e] e(3) by auto
    have "j < 2 ^ 64" using cnt_le [of ?R e1] e1 e(1) ns by simp
    moreover have "Suc (Suc j) < 2 ^ 64" using cnt_le [of ?R e1] e1 e(1) ns by simp
    ultimately have "sz_sub (Suc (Suc j)) 1 = Suc j" using sz_sub_small [of 1 "Suc (Suc j)"] by simp
    moreover have "select_run rf (Suc j) = e1" using select_run_eq [OF sh(1,2) _ e1(2,3)] e1(1) e(1) by simp
    ultimately have rs: "run_start rf (Suc (Suc j)) = Suc e1" using e1(1) e(1) by (simp add: run_start_def)
    have "cnt ?R p = Suc j \<longleftrightarrow> Suc e1 \<le> p" if "p \<le> e" for p
    proof
      assume h: "cnt ?R p = Suc j"
      show "Suc e1 \<le> p" using cnt_mono [of p e1 ?R] e1(3) h by (cases "p \<le> e1") auto
    next
      assume "Suc e1 \<le> p"
      then show "cnt ?R p = Suc j" using cnt_mono [of "Suc e1" p ?R] cnt_mono [OF that, of ?R] e1 e(3) Suc by simp
    qed
    then show ?thesis using rs Suc e1(1) by auto
  qed
  then obtain rs where rs: "run_start rf (Suc (cnt ?O q)) = rs" "rs \<le> e" "\<And>p. p \<le> e \<Longrightarrow> cnt ?R p = cnt ?O q \<longleftrightarrow> rs \<le> p" by blast
  have "find_run rf q = Some (rs, e)" using q(2) rank rs(1) rank_select_end [OF ok q e(1-3)] by (simp add: find_run_def)
  then show ?thesis using that [of rs e] rs e upper by blast
qed

lemma item_iff:
  assumes "rsqf_ok rf"
  shows "rsqf_item rf hash \<in># rsqf_items rf \<longleftrightarrow> rf_oc rf (hash_quotient rf hash) \<and>
    (\<exists>p < rf_num_slots rf. rf_ph rf p \<and> cnt (rf_rn rf) p = cnt (rf_oc rf) (hash_quotient rf hash) \<and> rf_get rf p = hash_remainder rf hash)"
  using run_items_iff [OF runs_of_ok(4) [OF runs_of_ok(1) [OF assms]]] by (simp add: rsqf_item_def rsqf_items_def)

lemma count_items: "rsqf_ok rf \<Longrightarrow> rf_count rf = size (rsqf_items rf)"
  by (simp add: rsqf_ok_def rsqf_items_def size_run_items)

text \<open>A lookup of an occupied quotient reads the slots of its run and the free slots in front of it.\<close>

lemma lookup_occ:
  assumes ok: "rsqf_ok rf" and q: "rf_oc rf (hash_quotient rf hash)"
  shows "rsqf_filter_lookup rf hash \<longleftrightarrow>
    (\<exists>p < rf_num_slots rf. cnt (rf_rn rf) p = cnt (rf_oc rf) (hash_quotient rf hash) \<and> rf_get rf p = hash_remainder rf hash)"
proof -
  note r = runs_of_ok(1) [OF ok]
  have ql: "hash_quotient rf hash < rf_num_slots rf" using quotient_less [OF runs_of_ok(2) [OF r]] .
  obtain rs e where e: "find_run rf (hash_quotient rf hash) = Some (rs, e)" "rs \<le> e" "e < rf_num_slots rf" "rf_rn rf e"
    "\<And>p. p < rf_num_slots rf \<Longrightarrow> cnt (rf_rn rf) p = cnt (rf_oc rf) (hash_quotient rf hash) \<longleftrightarrow> rs \<le> p \<and> p \<le> e"
    using find_run_occ [OF r ql q] by metis
  have "rf_ph rf e" using runs_of_ok(4) [OF r] e(3,4) by (simp add: runs_base_def)
  then have "0 < cnt (rf_ph rf) (rf_num_slots rf)" using cnt_less [of "rf_ph rf" e "rf_num_slots rf"] e(3) by simp
  then have "rf_count rf \<noteq> 0" using ok by (simp add: rsqf_ok_def)
  then have "rsqf_filter_lookup rf hash \<longleftrightarrow> (\<exists>i \<in> set [rs..<e + 1]. rf_get rf i = hash_remainder rf hash)"
    using ql e(1,2) by (simp add: rsqf_filter_lookup_def Let_def)
  also have "\<dots> \<longleftrightarrow> (\<exists>p < rf_num_slots rf. cnt (rf_rn rf) p = cnt (rf_oc rf) (hash_quotient rf hash) \<and> rf_get rf p = hash_remainder rf hash)"
  proof
    assume "\<exists>i \<in> set [rs..<e + 1]. rf_get rf i = hash_remainder rf hash"
    then obtain i where i: "rs \<le> i" "i \<le> e" "rf_get rf i = hash_remainder rf hash" by auto
    then have "i < rf_num_slots rf" using e(3) by simp
    then show "\<exists>p < rf_num_slots rf. cnt (rf_rn rf) p = cnt (rf_oc rf) (hash_quotient rf hash) \<and> rf_get rf p = hash_remainder rf hash"
      using e(5) [of i] i by blast
  next
    assume "\<exists>p < rf_num_slots rf. cnt (rf_rn rf) p = cnt (rf_oc rf) (hash_quotient rf hash) \<and> rf_get rf p = hash_remainder rf hash"
    then obtain p where p: "p < rf_num_slots rf" "cnt (rf_rn rf) p = cnt (rf_oc rf) (hash_quotient rf hash)" "rf_get rf p = hash_remainder rf hash" by blast
    then have "p \<in> set [rs..<e + 1]" using e(5) [of p] by (simp del: upt_Suc)
    then show "\<exists>i \<in> set [rs..<e + 1]. rf_get rf i = hash_remainder rf hash" using p(3) by blast
  qed
  finally show ?thesis .
qed

lemma lookup_complete:
  assumes "rsqf_ok rf" "rsqf_item rf hash \<in># rsqf_items rf"
  shows "rsqf_filter_lookup rf hash"
  using item_iff [OF assms(1), of hash] lookup_occ [OF assms(1), of hash] assms(2) by blast

lemma lookup_sound:
  assumes "rsqf_ok rf" "rf_oc rf (hash_quotient rf hash)" "hash_remainder rf hash \<noteq> 0" "rsqf_filter_lookup rf hash"
  shows "rsqf_item rf hash \<in># rsqf_items rf"
proof -
  obtain p where p: "p < rf_num_slots rf" "cnt (rf_rn rf) p = cnt (rf_oc rf) (hash_quotient rf hash)" "rf_get rf p = hash_remainder rf hash"
    using lookup_occ [OF assms(1,2)] assms(4) by blast
  then have "rf_ph rf p" using assms(1,3) by (auto simp: rsqf_ok_def)
  then show ?thesis using item_iff [OF assms(1)] assms(2) p by blast
qed

section \<open>Free slots\<close>

lemma scan_free_ok:
  "pos \<le> stop \<Longrightarrow> pos \<le> scan_free rf pos stop \<and> scan_free rf pos stop \<le> stop \<and>
    (\<forall>p. pos \<le> p \<and> p < scan_free rf pos stop \<longrightarrow> rf_ph rf p) \<and> (scan_free rf pos stop < stop \<longrightarrow> \<not> rf_ph rf (scan_free rf pos stop))"
proof (induction rf pos stop rule: scan_free.induct)
  case (1 rf pos stop)
  show ?case
  proof (cases "pos < stop \<and> \<not> slot_is_free rf pos")
    case True
    then have e: "scan_free rf pos stop = scan_free rf (pos + 1) stop" by (subst scan_free.simps) simp
    have "rf_ph rf pos" using True by (simp add: slot_is_free_def)
    then show ?thesis using 1(1) [OF True] True unfolding e by (auto simp: le_Suc_eq Suc_le_eq dest: le_neq_implies_less)
  next
    case False
    then have e: "scan_free rf pos stop = pos" by (subst scan_free.simps) (simp only: if_False)
    then show ?thesis using False 1(2) unfolding e by (auto simp: slot_is_free_def)
  qed
qed

definition free_from :: "rsqf_filter \<Rightarrow> nat \<Rightarrow> nat \<Rightarrow> bool" where
  "free_from rf s n \<longleftrightarrow> s \<le> n \<and> n < rf_num_slots rf \<and> \<not> rf_ph rf n \<and> (\<forall>p. s \<le> p \<and> p < n \<longrightarrow> rf_ph rf p)"

lemma first_free_cases:
  assumes "s < rf_num_slots rf"
  shows "(\<exists>n. first_free rf s = Some n \<and> free_from rf s n) \<or>
    (\<forall>p. s \<le> p \<and> p < rf_num_slots rf \<longrightarrow> rf_ph rf p) \<and> (first_free rf s = None \<or> (\<exists>n < s. first_free rf s = Some n))"
proof -
  define n where "n = scan_free rf s (rf_num_slots rf)"
  have n: "s \<le> n" "n \<le> rf_num_slots rf" "\<forall>p. s \<le> p \<and> p < n \<longrightarrow> rf_ph rf p" "n < rf_num_slots rf \<longrightarrow> \<not> rf_ph rf n"
    using scan_free_ok [of s "rf_num_slots rf" rf] assms by (auto simp: n_def)
  show ?thesis
  proof (cases "n < rf_num_slots rf")
    case True
    then have "first_free rf s = Some n" by (simp add: first_free_def n_def Let_def)
    then show ?thesis using n True by (auto simp: free_from_def)
  next
    case False
    then have "n = rf_num_slots rf" using n(2) by simp
    moreover have "first_free rf s = None \<or> (\<exists>n < s. first_free rf s = Some n)"
      using False by (auto simp: first_free_def n_def [symmetric] Let_def not_le)
    ultimately show ?thesis using n(3) by blast
  qed
qed

lemma free_slot_first:
  assumes "n < rf_num_slots rf" "\<not> rf_ph rf n"
  shows "first_free rf n = Some n"
  using assms by (simp add: first_free_def scan_free.simps [of rf n] slot_is_free_def)

text \<open>The last slot, when occupied, ends a run.\<close>

lemma last_slot_runend:
  assumes "rsqf_ok rf" "rf_ph rf (rf_num_slots rf - 1)"
  shows "rf_rn rf (rf_num_slots rf - 1)"
proof -
  have "0 < rf_num_slots rf" using runs_of_ok(2) [OF runs_of_ok(1) [OF assms(1)]] by (simp add: rsqf_shape_def)
  then have l: "rf_num_slots rf - 1 < rf_num_slots rf" "\<not> Suc (rf_num_slots rf - 1) < rf_num_slots rf" by simp_all
  then show ?thesis using assms by (metis rsqf_ok_def runs_ok_def)
qed

lemma open_slot_wraps:
  assumes "rsqf_ok rf" "n < s" "s < rf_num_slots rf" "\<forall>p. s \<le> p \<and> p < rf_num_slots rf \<longrightarrow> rf_ph rf p"
  shows "open_slot rf s n = None"
proof -
  have "rf_rn rf (rf_num_slots rf - 1)" using last_slot_runend [OF assms(1)] assms(3,4) by simp
  then show ?thesis using assms(2) by (simp add: open_slot_def Let_def)
qed

lemma open_slot_ok:
  assumes "rsqf_shape rf" "free_from rf s n"
  shows "\<exists>rf'. open_slot rf s n = Some rf' \<and>
    moved rf (shifted s n False (rf_rn rf)) (shifted s n False (rf_ph rf)) (shifted s n 0 (rf_get rf)) rf'"
proof -
  have f: "s \<le> n" "n < rf_num_slots rf" "\<And>p. s \<le> p \<Longrightarrow> p < n \<Longrightarrow> rf_ph rf p" using assms(2) by (auto simp: free_from_def)
  have "open_slot rf s n = Some (shift_right s n rf)"
    using f(1) by (cases "n = s") (auto simp: open_slot_def Let_def shift_right_def)
  then show ?thesis using shift_right_ok [OF assms(1) f] by blast
qed

section \<open>Insertion\<close>

lemma runs_cong:
  assumes "\<And>p. p < ns \<Longrightarrow> O' p = Oc p \<and> R' p = Rn p \<and> P' p = Ph p"
  shows "runs_base ns O' R' P' = runs_base ns Oc Rn Ph" "runs_tight ns O' R' P' = runs_tight ns Oc Rn Ph" "runs_ok ns O' R' P' = runs_ok ns Oc Rn Ph"
    "cnt P' ns = cnt Ph ns"
proof -
  have c: "cnt O' x = cnt Oc x" "cnt R' x = cnt Rn x" "cnt P' x = cnt Ph x" if "x \<le> ns" for x
    using assms that by (auto intro!: cnt_cong)
  show b: "runs_base ns O' R' P' = runs_base ns Oc Rn Ph" unfolding runs_base_def using c assms by (auto simp: Suc_le_eq simp del: cnt.simps)
  show "runs_tight ns O' R' P' = runs_tight ns Oc Rn Ph" unfolding runs_tight_def b using c assms by (auto simp: Suc_le_eq simp del: cnt.simps)
  show "runs_ok ns O' R' P' = runs_ok ns Oc Rn Ph" unfolding runs_ok_def b using assms by (auto simp: Suc_le_eq)
  show "cnt P' ns = cnt Ph ns" using c by simp
qed

lemma run_items_cong:
  assumes "\<And>p. p < ns \<Longrightarrow> R' p = Rn p \<and> P' p = Ph p \<and> V' p = V p"
  shows "run_items ns Oc R' P' V' = run_items ns Oc Rn Ph V"
proof -
  have s: "{p. p < ns \<and> P' p} = {p. p < ns \<and> Ph p}" using assms by auto
  have c: "cnt R' p = cnt Rn p" if "p < ns" for p using assms that by (intro cnt_cong) auto
  show ?thesis unfolding run_items_def s
    by (rule image_mset_cong) (use assms c in \<open>auto simp: owner_def\<close>)
qed

text \<open>
  The common end of insertion and deletion: the derived data is rebuilt from a block on, in front of
  which neither the quotients nor the runends of their runs have changed.
\<close>

lemma refresh_ok:
  fixes c :: nat
  assumes old: "rsqf_shape rf" "sums_ok rf" "\<forall>b < rf_num_blocks rf. off_ok rf b" and new: "rsqf_shape rf1" "same_meta rf rf1"
    and fb: "fb < rf_num_blocks rf"
    and o: "\<And>b. b \<le> fb \<Longrightarrow> cnt (rf_oc rf1) (64 * b) = cnt (rf_oc rf) (64 * b)" and r: "\<And>b. b \<le> fb \<Longrightarrow> cnt (rf_rn rf1) (64 * b) = cnt (rf_rn rf) (64 * b)"
    and ends: "\<And>e. e < rf_num_slots rf \<Longrightarrow> rf_rn rf1 e \<Longrightarrow> cnt (rf_rn rf1) e < cnt (rf_oc rf) (64 * fb) \<Longrightarrow>
      rf_rn rf e \<and> cnt (rf_rn rf) e = cnt (rf_rn rf1) e"
  defines "rf' \<equiv> update_offsets_from (rf1\<lparr>rf_count := c\<rparr>) fb"
  shows "rsqf_shape rf'" "sums_ok rf'" "\<forall>b < rf_num_blocks rf'. off_ok rf' b" "rf_oc rf' = rf_oc rf1" "rf_rn rf' = rf_rn rf1" "rf_ph rf' = rf_ph rf1"
    "rf_get rf' = rf_get rf1" "rf_count rf' = c" "rf_num_slots rf' = rf_num_slots rf" "rf_remainder_bits rf' = rf_remainder_bits rf"
    "rf_remainder_mask rf' = rf_remainder_mask rf"
proof -
  define rc where "rc = rf1\<lparr>rf_count := c\<rparr>"
  have m: "rf_num_slots rf1 = rf_num_slots rf" "rf_num_blocks rf1 = rf_num_blocks rf" "rf_occ_prefix rf1 = rf_occ_prefix rf" "rf_run_prefix rf1 = rf_run_prefix rf"
    "rf_offsets rf1 = rf_offsets rf" using new(2) by (simp_all add: same_meta_def)
  have l: "length (rf_occupieds rf) = rf_num_blocks rf" "length (rf_runends rf) = rf_num_blocks rf" using old(1) by (simp_all add: rsqf_shape_def)
  have shc: "rsqf_shape rc" using new(1) by (simp add: rc_def rf_view)
  have pre: "rf_occ_prefix rf ! b = cnt (rf_oc rf) (64 * b)" "rf_run_prefix rf ! b = cnt (rf_rn rf) (64 * b)" if "b \<le> fb" for b
    using old(2) l fb that by (auto simp: sums_ok_def prefix_ok_def)
  have 1: "\<forall>b \<le> fb. rf_occ_prefix rc ! b = cnt (rf_oc rc) (64 * b)" using pre o m by (simp add: rc_def)
  have 2: "\<forall>b \<le> fb. rf_run_prefix rc ! b = cnt (rf_rn rc) (64 * b)" using pre r m by (simp add: rc_def)
  have 3: "\<forall>b < fb. off_ok rc b"
  proof (intro allI impI)
    fix b
    assume b: "b < fb"
    have ob: "cnt (rf_oc rf1) (64 * b) = cnt (rf_oc rf) (64 * b)" "cnt (rf_oc rf1) (64 * Suc b) = cnt (rf_oc rf) (64 * Suc b)" using o b by (simp_all del: mult_Suc_right)
    have "cnt (rf_oc rf) (64 * Suc b) \<le> cnt (rf_oc rf) (64 * fb)" using b by (intro cnt_mono mult_le_mono) simp_all
    then have "rf_rn rf e \<and> cnt (rf_rn rf) e = cnt (rf_oc rf) (64 * b)"
      if "e < rf_num_slots rf" "cnt (rf_oc rf) (64 * b) < cnt (rf_oc rf) (64 * Suc b)" "rf_rn rf1 e" "cnt (rf_rn rf1) e = cnt (rf_oc rf) (64 * b)" for e
      using ends [OF that(1,3)] that by simp
    then show "off_ok rc b" using old(3) b fb ob m unfolding off_ok_def rc_def by (simp del: mult_Suc_right)
  qed
  have fbc: "fb < rf_num_blocks rc" using fb m by (simp add: rc_def)
  note u = update_offsets_ok [OF shc fbc 1 2 3, unfolded rc_def, folded rf'_def]
  show "rsqf_shape rf'" "sums_ok rf'" "\<forall>b < rf_num_blocks rf'. off_ok rf' b" using u(1-3) .
  show "rf_oc rf' = rf_oc rf1" "rf_rn rf' = rf_rn rf1" "rf_ph rf' = rf_ph rf1" using u(4-6) by simp_all
  show "rf_get rf' = rf_get rf1" using u(7) by (simp add: rf_get_def fun_eq_iff)
  show "rf_count rf' = c" "rf_num_slots rf' = rf_num_slots rf" "rf_remainder_bits rf' = rf_remainder_bits rf" "rf_remainder_mask rf' = rf_remainder_mask rf"
    using u(8-11) new(2) by (simp_all add: same_meta_def)
qed

text \<open>
  The end of every insertion: the slots hold the abstract insertion, and the derived data is rebuilt from
  the block of the quotient on.
\<close>

lemma ins_keeps_below:
  assumes tight: "runs_tight ns Oc Rn Ph" and place: "ins_place ns Oc Rn Ph q s n" and b: "64 * b \<le> q"
  shows "cnt (ins_runs (Oc q) s n Rn) (64 * b) = cnt Rn (64 * b)" "cnt (Oc(q := True)) (64 * b) = cnt Oc (64 * b)"
proof -
  have base: "runs_base ns Oc Rn Ph" using tight by (simp add: runs_tight_def)
  have pl: "q \<le> s" "s \<le> n" "\<not> Rn n" "Oc q \<Longrightarrow> q < s" "Oc q \<longrightarrow> 0 < s \<and> Rn (s - 1)" using place base by (auto simp: ins_place_def runs_base_def)
  have "64 * b < s \<or> 64 * b = s \<and> \<not> Oc q" using b pl(1,4) by (cases "Oc q") auto
  then show "cnt (ins_runs (Oc q) s n Rn) (64 * b) = cnt Rn (64 * b)" using cnt_ins' [OF pl(2,3,5)] by blast
  show "cnt (Oc(q := True)) (64 * b) = cnt Oc (64 * b)" using b by (simp add: cnt_set)
qed

lemma ins_keeps_ends:
  assumes tight: "runs_tight ns Oc Rn Ph" and place: "ins_place ns Oc Rn Ph q s n" and k: "cnt (ins_runs (Oc q) s n Rn) e < cnt Oc q"
    and e: "ins_runs (Oc q) s n Rn e"
  shows "Rn e" "cnt (ins_runs (Oc q) s n Rn) e = cnt Rn e"
proof -
  have base: "runs_base ns Oc Rn Ph" using tight by (simp add: runs_tight_def)
  have pl: "q \<le> s" "s \<le> n" "\<not> Rn n" "cnt Rn s = cnt Oc (Suc q)" "Oc q \<longrightarrow> 0 < s \<and> Rn (s - 1)" using place base by (auto simp: ins_place_def runs_base_def)
  note c = cnt_ins' [OF pl(2,3,5)]
  have "cnt (ins_runs (Oc q) s n Rn) s + (if Oc q then 1 else 0) = cnt Oc (Suc q)" using c(1) [of s] c(4) pl(4) by (cases "Oc q") auto
  then have "cnt Oc q \<le> cnt (ins_runs (Oc q) s n Rn) s" by (simp split: if_splits)
  then have "e < s" using k cnt_mono [of s e "ins_runs (Oc q) s n Rn"] by (cases "e < s") auto
  then show "Rn e" "cnt (ins_runs (Oc q) s n Rn) e = cnt Rn e" using e c(1) [of e] by (simp_all add: ins_runs_def)
qed

text \<open>An insertion as a whole: the invariant, the new item, and where the slots have gone.\<close>

definition inserted :: "rsqf_filter \<Rightarrow> nat \<Rightarrow> u64 \<Rightarrow> rsqf_filter \<Rightarrow> bool" where
  "inserted rf q v rf' \<longleftrightarrow> rsqf_tight rf' \<and> rsqf_items rf' = add_mset (q, v) (rsqf_items rf) \<and>
     rf_num_slots rf' = rf_num_slots rf \<and> rf_remainder_bits rf' = rf_remainder_bits rf \<and> rf_remainder_mask rf' = rf_remainder_mask rf \<and>
     (\<exists>s n. ins_place (rf_num_slots rf) (rf_oc rf) (rf_rn rf) (rf_ph rf) q s n \<and>
       (\<forall>p < rf_num_slots rf. rf_oc rf' p = ((rf_oc rf)(q := True)) p \<and> rf_rn rf' p = ins_runs (rf_oc rf q) s n (rf_rn rf) p \<and>
          rf_ph rf' p = ((rf_ph rf)(n := True)) p \<and> rf_get rf' p = ins_vals s n v (rf_get rf) p))"

lemma insert_finish:
  assumes tight: "rsqf_tight rf" and place: "ins_place (rf_num_slots rf) (rf_oc rf) (rf_rn rf) (rf_ph rf) q s n"
    and sh1: "rsqf_shape rf1" "same_meta rf rf1" and oc1: "rf_oc rf1 = (rf_oc rf)(q := True)"
    and eff: "\<And>p. p < rf_num_slots rf \<Longrightarrow> rf_rn rf1 p = ins_runs (rf_oc rf q) s n (rf_rn rf) p \<and>
      rf_ph rf1 p = ((rf_ph rf)(n := True)) p \<and> rf_get rf1 p = ins_vals s n v (rf_get rf) p"
  shows "\<exists>rf'. finish_insert rf1 (q div 64) = (RSQF_OK, rf') \<and> inserted rf q v rf'"
proof -
  let ?ns = "rf_num_slots rf" and ?O = "(rf_oc rf)(q := True)" and ?R = "ins_runs (rf_oc rf q) s n (rf_rn rf)"
    and ?P = "(rf_ph rf)(n := True)" and ?V = "ins_vals s n v (rf_get rf)"
  define rf' where "rf' = update_offsets_from (rf1\<lparr>rf_count := rf_count rf1 + 1\<rparr>) (q div 64)"
  have ok: "rsqf_ok rf" and t: "runs_tight ?ns (rf_oc rf) (rf_rn rf) (rf_ph rf)" using tight by (simp_all add: rsqf_tight_def)
  have sh: "rsqf_shape rf" "sums_ok rf" "\<forall>b < rf_num_blocks rf. off_ok rf b" using ok by (simp_all add: rsqf_ok_def rsqf_runs_def)
  have pl: "q \<le> s" "s \<le> n" "n < ?ns" "\<not> rf_ph rf n" using place by (simp_all add: ins_place_def)
  have fb: "q div 64 < rf_num_blocks rf" using pl sh(1) by (simp add: rsqf_shape_def less_mult_imp_div_less mult.commute)
  have q64: "64 * b \<le> q" if "b \<le> q div 64" for b using that by linarith
  have cr: "cnt (rf_rn rf1) x = cnt ?R x" if "x \<le> ?ns" for x using eff that by (intro cnt_cong) auto
  have q_fb: "cnt (rf_oc rf) (64 * (q div 64)) \<le> cnt (rf_oc rf) q" by (rule cnt_mono) simp
  have o1: "cnt (rf_oc rf1) (64 * b) = cnt (rf_oc rf) (64 * b)" if "b \<le> q div 64" for b
    using ins_keeps_below(2) [OF t place q64 [OF that]] oc1 by simp
  have r1: "cnt (rf_rn rf1) (64 * b) = cnt (rf_rn rf) (64 * b)" if "b \<le> q div 64" for b
    using ins_keeps_below(1) [OF t place q64 [OF that]] cr [of "64 * b"] q64 [OF that] pl by simp
  have e1: "rf_rn rf e \<and> cnt (rf_rn rf) e = cnt (rf_rn rf1) e"
    if "e < ?ns" "rf_rn rf1 e" "cnt (rf_rn rf1) e < cnt (rf_oc rf) (64 * (q div 64))" for e
    using ins_keeps_ends [OF t place, of e] cr [of e] eff [OF that(1)] that q_fb by simp
  note u = refresh_ok [OF sh sh1 fb o1 r1 e1, of "rf_count rf1 + 1", folded rf'_def]
  have cng: "rf_oc rf' p = ?O p \<and> rf_rn rf' p = ?R p \<and> rf_ph rf' p = ?P p \<and> rf_get rf' p = ?V p" if "p < ?ns" for p
    using eff [OF that] oc1 u(4-7) by simp
  have nsu: "rf_num_slots rf' = ?ns" using u(9) .
  note k = runs_cong [of ?ns "rf_oc rf'" ?O "rf_rn rf'" ?R "rf_ph rf'" ?P]
  have rt: "runs_tight ?ns (rf_oc rf') (rf_rn rf') (rf_ph rf')" using ins_tight [OF t place] k(2) cng by blast
  have "rf_oc rf' = ?O" using oc1 u(4) by simp
  then have it: "rsqf_items rf' = add_mset (q, v) (rsqf_items rf)"
    using ins_items [OF t place] run_items_cong [of ?ns "rf_rn rf'" ?R "rf_ph rf'" ?P "rf_get rf'" ?V] cng nsu by (simp add: rsqf_items_def)
  have z: "rf_get rf' p = 0" if "p < ?ns" "\<not> rf_ph rf' p" for p
  proof -
    have "\<not> rf_ph rf p" "p \<noteq> n" using cng [OF that(1)] that(2) by (auto split: if_splits)
    moreover have "\<not> (q \<le> p \<and> p < n)" using calculation(1) place by (auto simp: ins_place_def)
    then have "p < s \<or> n < p" using calculation(2) pl(1) by linarith
    ultimately show ?thesis using cng [OF that(1)] ok that(1) pl by (auto simp: ins_vals_def rsqf_ok_def)
  qed
  have "rf_count rf' = cnt (rf_ph rf) ?ns + 1" using u(8) sh1(2) ok by (simp add: same_meta_def rsqf_ok_def)
  also have "\<dots> = cnt ?P ?ns" using pl by (simp add: cnt_set)
  also have "\<dots> = cnt (rf_ph rf') ?ns" using k(4) cng by simp
  finally have "rsqf_tight rf'"
    using u(1-3) rt z tight_ok [OF rt] nsu unfolding rsqf_tight_def rsqf_ok_def rsqf_runs_def by (simp add: runs_tight_def)
  moreover have "finish_insert rf1 (q div 64) = (RSQF_OK, rf')" by (simp add: finish_insert_def rf'_def)
  ultimately show ?thesis using it u(9-11) place cng unfolding inserted_def by blast
qed

text \<open>Between a quotient and the place for its next remainder all slots are occupied.\<close>

lemma tight_between:
  assumes "runs_tight ns Oc Rn Ph" "x < ns" "q \<le> x" "x < s" "s \<le> ns" "cnt Rn s = cnt Oc (Suc q)" "Rn (s - 1)"
  shows "Ph x"
proof (rule ccontr)
  assume n: "\<not> Ph x"
  have "Ph (s - 1)" using assms(1,4,5,7) by (auto simp: runs_tight_def runs_base_def)
  then have "x \<noteq> s - 1" using n by auto
  then have "cnt Rn (Suc x) \<le> cnt Rn (s - 1)" using assms(4) by (intro cnt_mono) simp
  also have "\<dots> < cnt Rn s" using assms(4,7) by (intro cnt_less) auto
  also have "\<dots> \<le> cnt Oc (Suc x)" using assms(3,6) cnt_mono [of "Suc q" "Suc x" Oc] by simp
  finally show False using assms(1,2) n by (auto simp: runs_tight_def)
qed

text \<open>The end of the run of rank \<open>k\<close>.\<close>

lemma select_run_exists:
  assumes "rsqf_runs rf" "k < cnt (rf_oc rf) (rf_num_slots rf)"
  obtains e where "select_run rf (Suc k) = e" "e < rf_num_slots rf" "rf_rn rf e" "cnt (rf_rn rf) e = k"
proof -
  note sh = runs_of_ok(2-4) [OF assms(1)]
  have "k < cnt (rf_rn rf) (rf_num_slots rf)" using assms(2) sh(3) by (simp add: runs_base_def)
  then obtain e where e: "e < rf_num_slots rf" "rf_rn rf e" "cnt (rf_rn rf) e = k" using cnt_ex by blast
  then show ?thesis using that select_run_eq [OF sh(1,2) e] by blast
qed

text \<open>Insertion behind the runend \<open>e\<close> of the last run up to the quotient.\<close>

definition last_run_end :: "rsqf_filter \<Rightarrow> nat \<Rightarrow> nat \<Rightarrow> bool" where
  "last_run_end rf q e \<longleftrightarrow> e < rf_num_slots rf \<and> rf_rn rf e \<and> cnt (rf_rn rf) (Suc e) = cnt (rf_oc rf) (Suc q) \<and> q \<le> e"

lemma last_run_place:
  assumes tight: "rsqf_tight rf" and e: "last_run_end rf q e" and n: "free_from rf (Suc e) n"
  shows "ins_place (rf_num_slots rf) (rf_oc rf) (rf_rn rf) (rf_ph rf) q (Suc e) n"
proof -
  have t: "runs_tight (rf_num_slots rf) (rf_oc rf) (rf_rn rf) (rf_ph rf)" using tight by (simp add: rsqf_tight_def)
  have f: "Suc e \<le> n" "n < rf_num_slots rf" "\<not> rf_ph rf n" "\<And>p. Suc e \<le> p \<Longrightarrow> p < n \<Longrightarrow> rf_ph rf p" using n by (auto simp: free_from_def)
  have le: "e < rf_num_slots rf" "rf_rn rf e" "cnt (rf_rn rf) (Suc e) = cnt (rf_oc rf) (Suc q)" "q \<le> e" using e by (simp_all add: last_run_end_def del: cnt.simps)
  have "rf_ph rf p" if "q \<le> p" "p < n" for p
  proof (cases "p < Suc e")
    case True
    then show ?thesis using tight_between [OF t _ that(1), of "Suc e"] le by (simp del: cnt.simps)
  next
    case False
    then show ?thesis using f(4) that by simp
  qed
  then show ?thesis using f le by (simp add: ins_place_def del: cnt.simps)
qed

text \<open>The writes after the shift give the abstract insertion.\<close>

lemma write_opened:
  assumes sh: "rsqf_shape rf" and n: "free_from rf (Suc e) n" and q: "q \<le> e"
    and m: "moved rf (shifted (Suc e) n False (rf_rn rf)) (shifted (Suc e) n False (rf_ph rf)) (shifted (Suc e) n 0 (rf_get rf)) rf'"
    and v: "v AND rf_remainder_mask rf = v"
    and c: "rf2 = (if c then clear_run (track_phys_occ (rf_put rf' (Suc e) v) (Suc e)) e else track_phys_occ (rf_put rf' (Suc e) v) (Suc e))"
  defines "rf1 \<equiv> set_occ (set_run rf2 (Suc e)) q"
  shows "rsqf_shape rf1" "same_meta rf rf1" "rf_oc rf1 = (rf_oc rf)(q := True)"
    "p < rf_num_slots rf \<Longrightarrow> rf_rn rf1 p = ins_runs c (Suc e) n (rf_rn rf) p \<and>
      rf_ph rf1 p = ((rf_ph rf)(n := True)) p \<and> rf_get rf1 p = ins_vals (Suc e) n v (rf_get rf) p"
proof -
  have f: "Suc e \<le> n" "n < rf_num_slots rf" "\<not> rf_ph rf n" "\<And>p. Suc e \<le> p \<Longrightarrow> p < n \<Longrightarrow> rf_ph rf p" using n by (auto simp: free_from_def)
  have m': "rsqf_shape rf'" "same_meta rf rf'" "rf_oc rf' = rf_oc rf" "rf_num_slots rf' = rf_num_slots rf" "rf_remainder_mask rf' = rf_remainder_mask rf"
    using m by (simp_all add: moved_def same_meta_def)
  have mv: "rf_rn rf' p = shifted (Suc e) n False (rf_rn rf) p" "rf_ph rf' p = shifted (Suc e) n False (rf_ph rf) p" "rf_get rf' p = shifted (Suc e) n 0 (rf_get rf) p"
    if "p < rf_num_slots rf" for p using m that by (simp_all add: moved_def)
  have b: "Suc e < rf_num_slots rf" "e < rf_num_slots rf" "q < rf_num_slots rf" using f q by simp_all
  define r0 where "r0 = track_phys_occ (rf_put rf' (Suc e) v) (Suc e)"
  have r0: "rsqf_shape r0" "rf_num_slots r0 = rf_num_slots rf" "same_meta rf r0" "rf_oc r0 = rf_oc rf" "rf_rn r0 = rf_rn rf'" "rf_ph r0 = (rf_ph rf')(Suc e := True)"
    using m' b by (simp_all add: r0_def rf_view)
  have r2: "rsqf_shape rf2" "rf_num_slots rf2 = rf_num_slots rf" "same_meta rf rf2" "rf_oc rf2 = rf_oc rf" "rf_ph rf2 = (rf_ph rf')(Suc e := True)"
    "rf_rn rf2 = (if c then (rf_rn rf')(e := False) else rf_rn rf')" "rf_get rf2 = rf_get (rf_put rf' (Suc e) v)"
    using r0 b unfolding c r0_def [symmetric] by (simp_all add: rf_view) (simp_all add: r0_def rf_view)
  show "rsqf_shape rf1" "same_meta rf rf1" using r2 by (simp_all add: rf1_def rf_view)
  show "rf_oc rf1 = (rf_oc rf)(q := True)" using r2 b by (simp add: rf1_def rf_view)
  show "rf_rn rf1 p = ins_runs c (Suc e) n (rf_rn rf) p \<and> rf_ph rf1 p = ((rf_ph rf)(n := True)) p \<and> rf_get rf1 p = ins_vals (Suc e) n v (rf_get rf) p"
    if p: "p < rf_num_slots rf"
  proof (intro conjI)
    have "rf_rn rf1 p = ((rf_rn rf2)(Suc e := True)) p" using r2 b by (simp add: rf1_def rf_view)
    then show "rf_rn rf1 p = ins_runs c (Suc e) n (rf_rn rf) p" using mv(1) [OF p] f(1) r2(6) by (auto simp: ins_runs_def shifted_def)
    have "rf_ph rf1 p = ((rf_ph rf')(Suc e := True)) p" using r2 by (simp add: rf1_def rf_view)
    then show "rf_ph rf1 p = ((rf_ph rf)(n := True)) p"
    proof -
      have "rf_ph rf (p - 1)" if "Suc e < p" "p \<le> n" by (rule f(4)) (use that in linarith)+
      then show ?thesis using \<open>rf_ph rf1 p = ((rf_ph rf')(Suc e := True)) p\<close> mv(2) [OF p] f(1) f(4) [of p]
        by (cases "p = n"; cases "Suc e < p \<and> p < n") (auto simp: shifted_def)
    qed
    have "rf_get rf1 p = (if p = Suc e then v else rf_get rf' p)"
      using rf_get_put [OF m'(1), of "Suc e" p v] r2(7) p b m'(4,5) v by (auto simp: rf1_def rf_view)
    then show "rf_get rf1 p = ins_vals (Suc e) n v (rf_get rf) p" using mv(3) [OF p] f(1) by (auto simp: ins_vals_def shifted_def)
  qed
qed

definition has_room :: "rsqf_filter \<Rightarrow> nat \<Rightarrow> bool" where
  "has_room rf q \<longleftrightarrow> (\<exists>n. q \<le> n \<and> n < rf_num_slots rf \<and> \<not> rf_ph rf n)"

text \<open>Either there is a free slot behind the last run and the insertion is done, or it is refused.\<close>

lemma room_behind:
  assumes tight: "rsqf_tight rf" and e: "last_run_end rf q e"
  shows "has_room rf q \<longleftrightarrow> (\<exists>n. free_from rf (Suc e) n)"
proof -
  have t: "runs_tight (rf_num_slots rf) (rf_oc rf) (rf_rn rf) (rf_ph rf)" using tight by (simp add: rsqf_tight_def)
  have le: "e < rf_num_slots rf" "rf_rn rf e" "cnt (rf_rn rf) (Suc e) = cnt (rf_oc rf) (Suc q)" "q \<le> e" using e by (simp_all add: last_run_end_def del: cnt.simps)
  have between: "rf_ph rf p" if "q \<le> p" "p \<le> e" for p using tight_between [OF t _ that(1), of "Suc e"] le that by (simp del: cnt.simps)
  show ?thesis
  proof
    assume "has_room rf q"
    then obtain n where n: "q \<le> n" "n < rf_num_slots rf" "\<not> rf_ph rf n" by (auto simp: has_room_def)
    then have "e < n" using between [of n] by (cases "e < n") auto
    then show "\<exists>n. free_from rf (Suc e) n" using first_free_cases [of "Suc e" rf] n by (auto simp: Suc_le_eq)
  next
    assume "\<exists>n. free_from rf (Suc e) n"
    then show "has_room rf q" using le(4) by (auto simp: free_from_def has_room_def)
  qed
qed

lemma extend_run_ok:
  assumes tight: "rsqf_tight rf" and e: "last_run_end rf q e" and v: "v AND rf_remainder_mask rf = v"
  shows "if has_room rf q then \<exists>rf'. extend_run rf q v e = (RSQF_OK, rf') \<and> inserted rf q v rf' else extend_run rf q v e = (RSQF_ERR_FULL, rf)"
proof -
  have ok: "rsqf_ok rf" using tight by (simp add: rsqf_tight_def)
  note sh = runs_of_ok(2,3) [OF runs_of_ok(1) [OF ok]]
  have le: "e < rf_num_slots rf" "q \<le> e" "rf_rn rf e" using e by (simp_all add: last_run_end_def del: cnt.simps)
  show ?thesis
  proof (cases "Suc e < rf_num_slots rf")
    case False
    then have l: "e = rf_num_slots rf - 1" using le(1) by simp
    have "\<not> has_room rf q" using room_behind [OF tight e] False by (auto simp: free_from_def)
    moreover have "rf_oc rf q \<or> rank_occ rf q > 0"
    proof -
      have "rank_occ rf q = cnt (rf_rn rf) (Suc e)" using rank_occ_cnt [OF sh, of q] le(1,2) e by (simp add: last_run_end_def del: cnt.simps)
      then show ?thesis using le(3) by simp
    qed
    ultimately show ?thesis using l False by (auto simp: extend_run_def Let_def split: option.split)
  next
    case True
    show ?thesis
    proof (cases "has_room rf q")
      case True
      then obtain n where ff: "first_free rf (Suc e) = Some n" "free_from rf (Suc e) n"
        using room_behind [OF tight e] first_free_cases [OF \<open>Suc e < rf_num_slots rf\<close>] by (auto simp: free_from_def)
      obtain rf' where o: "open_slot rf (Suc e) n = Some rf'"
        and m: "moved rf (shifted (Suc e) n False (rf_rn rf)) (shifted (Suc e) n False (rf_ph rf)) (shifted (Suc e) n 0 (rf_get rf)) rf'"
        using open_slot_ok [OF sh(1) ff(2)] by blast
      define r0 where "r0 = track_phys_occ (rf_put rf' (Suc e) v) (Suc e)"
      have oc: "rf_oc r0 = rf_oc rf" using m by (simp add: r0_def moved_def rf_view)
      have n: "Suc e \<le> n" using ff(2) by (simp add: free_from_def)
      note w = write_opened [OF sh(1) ff(2) le(2) m v refl, folded r0_def]
      have x: "extend_run rf q v e = finish_insert (set_occ (set_run (if rf_oc rf q then clear_run r0 e else r0) (Suc e)) q) (q div 64)"
        using \<open>Suc e < rf_num_slots rf\<close> ff(1) o oc n le_imp_less_Suc [OF le(2)]
        by (simp add: extend_run_def Let_def r0_def [symmetric])
      show ?thesis using insert_finish [OF tight last_run_place [OF tight e ff(2)] w(1-4)] True unfolding x by auto
    next
      case no: False
      then have "\<not> (\<exists>n. free_from rf (Suc e) n)" using room_behind [OF tight e] by simp
      then have all: "\<forall>p. Suc e \<le> p \<and> p < rf_num_slots rf \<longrightarrow> rf_ph rf p" "first_free rf (Suc e) = None \<or> (\<exists>n < Suc e. first_free rf (Suc e) = Some n)"
        using first_free_cases [OF True] by blast+
      then show ?thesis using no True open_slot_wraps [OF ok _ True all(1)] by (auto simp: extend_run_def Let_def)
    qed
  qed
qed

lemma cluster_end_ok:
  assumes "cluster_end rf f r = Some rend" "r < rf_num_slots rf"
  defines "n \<equiv> (rend + 1) mod rf_num_slots rf"
  shows "\<not> rf_ph rf n \<and> (r < n \<and> (\<forall>p. r < p \<and> p < n \<longrightarrow> rf_ph rf p) \<or> n \<le> r \<and> (\<forall>p. r < p \<and> p < rf_num_slots rf \<longrightarrow> rf_ph rf p))"
  using assms(1,2) unfolding n_def
proof (induction f arbitrary: r)
  case 0
  then show ?case by simp
next
  case (Suc f)
  define m where "m = Suc r mod rf_num_slots rf"
  have ml: "m < rf_num_slots rf" using Suc.prems(2) by (simp add: m_def)
  show ?case
  proof (cases "rf_ph rf m")
    case False
    then have "rend = r" using Suc.prems(1) by (simp add: m_def [symmetric] slot_is_free_def Let_def)
    then show ?thesis using False Suc.prems(2) by (cases "Suc r = rf_num_slots rf") (auto simp: m_def)
  next
    case True
    let ?n = "(rend + 1) mod rf_num_slots rf"
    have ce: "cluster_end rf f m = Some rend" using Suc.prems(1) True by (simp add: m_def [symmetric] slot_is_free_def Let_def)
    note ih = Suc.IH [OF ce ml]
    show ?thesis
    proof (cases "Suc r = rf_num_slots rf")
      case True
      then have "?n \<le> r" "\<And>p. \<not> (r < p \<and> p < rf_num_slots rf)" using mod_less_divisor [of "rf_num_slots rf" "rend + 1"] by linarith+
      then show ?thesis using ih by blast
    next
      case False
      then have m: "m = Suc r" using Suc.prems(2) by (simp add: m_def)
      have "?n \<noteq> m" using ih True by auto
      have up: "rf_ph rf p" if "r < p" "p < x" "\<forall>p. m < p \<and> p < x \<longrightarrow> rf_ph rf p" for p x
        using that True m by (cases "p = m") auto
      show ?thesis
      proof (cases "m < ?n")
        case True
        then have "\<forall>p. m < p \<and> p < ?n \<longrightarrow> rf_ph rf p" using ih by auto
        then show ?thesis using ih True m up [of _ ?n] by auto
      next
        case False
        then have "\<forall>p. m < p \<and> p < rf_num_slots rf \<longrightarrow> rf_ph rf p" "?n \<le> r" using ih \<open>?n \<noteq> m\<close> m by auto
        then show ?thesis using ih up [of _ "rf_num_slots rf"] by auto
      qed
    qed
  qed
qed

lemma cluster_end_exists:
  assumes "n < rf_num_slots rf" "\<not> rf_ph rf n" "r < n" "n - r \<le> f"
  shows "cluster_end rf f r \<noteq> None"
  using assms
proof (induction f arbitrary: r)
  case (Suc f)
  have m: "(r + 1) mod rf_num_slots rf = Suc r" using Suc.prems by simp
  show ?case
  proof (cases "rf_ph rf (Suc r)")
    case True
    then have "Suc r \<noteq> n" using Suc.prems(2) by auto
    then show ?thesis using Suc.IH [of "Suc r"] Suc.prems m True by (simp add: slot_is_free_def)
  next
    case False
    then show ?thesis using m by (simp add: slot_is_free_def)
  qed
qed simp

lemma insert_new_run_ok:
  assumes tight: "rsqf_tight rf" and q: "q < rf_num_slots rf" "\<not> rf_oc rf q" "\<not> rf_rn rf q" and v: "v AND rf_remainder_mask rf = v"
  shows "if has_room rf q then \<exists>rf'. insert_new_run rf q v = (RSQF_OK, rf') \<and> inserted rf q v rf' else insert_new_run rf q v = (RSQF_ERR_FULL, rf)"
proof -
  have ok: "rsqf_ok rf" and t: "runs_tight (rf_num_slots rf) (rf_oc rf) (rf_rn rf) (rf_ph rf)" using tight by (simp_all add: rsqf_tight_def)
  note rr = runs_of_ok(1) [OF ok]
  note sh = runs_of_ok(2-4) [OF rr]
  show ?thesis
  proof (cases "rf_ph rf q")
    case False
    define r1 where "r1 = set_run (set_occ (track_phys_occ (rf_put rf q v) q) q) q"
    have pl: "ins_place (rf_num_slots rf) (rf_oc rf) (rf_rn rf) (rf_ph rf) q q q"
      using t False q by (auto simp: ins_place_def runs_tight_def)
    have s1: "rsqf_shape r1" "same_meta rf r1" "rf_oc r1 = (rf_oc rf)(q := True)" "rf_rn r1 = (rf_rn rf)(q := True)" "rf_ph r1 = (rf_ph rf)(q := True)"
      using sh(1) q(1) by (simp_all add: r1_def rf_view)
    have "rf_get r1 p = ins_vals q q v (rf_get rf) p" if "p < rf_num_slots rf" for p
      using rf_get_put [OF sh(1) q(1) that, of v] v by (simp add: r1_def rf_view ins_vals_def)
    moreover have "rf_rn r1 p = ins_runs (rf_oc rf q) q q (rf_rn rf) p" for p using q(2) s1(4) by (simp add: ins_runs_def)
    ultimately have "\<exists>rf'. finish_insert r1 (q div 64) = (RSQF_OK, rf') \<and> inserted rf q v rf'"
      using insert_finish [OF tight pl s1(1-3), of v] s1(5) by auto
    moreover have "has_room rf q" using q(1) False by (auto simp: has_room_def)
    ultimately show ?thesis using False by (simp add: insert_new_run_def slot_is_free_def r1_def)
  next
    case True
    have lt: "cnt (rf_rn rf) q < cnt (rf_oc rf) (Suc q)" using sh(3) q(1) True by (simp add: runs_base_def)
    then obtain k where k: "cnt (rf_oc rf) (Suc q) = Suc k" by (cases "cnt (rf_oc rf) (Suc q)") auto
    have "k < cnt (rf_oc rf) (rf_num_slots rf)" using cnt_mono [of "Suc q" "rf_num_slots rf" "rf_oc rf"] q(1) k by simp
    then obtain e where e: "select_run rf (Suc k) = e" "e < rf_num_slots rf" "rf_rn rf e" "cnt (rf_rn rf) e = k" by (rule select_run_exists [OF rr])
    have "q \<le> e" using cnt_mono [of "Suc e" q "rf_rn rf"] lt k e(3,4) by (cases "q \<le> e") auto
    then have le: "last_run_end rf q e" using e k by (simp add: last_run_end_def)
    have rank: "rank_occ rf q = Suc k" using rank_occ_cnt [OF sh(1,2) q(1)] k by simp
    show ?thesis
    proof (cases "Suc e < rf_num_slots rf")
      case False
      then have "Suc e = rf_num_slots rf" using e(2) by simp
      moreover have "\<not> has_room rf q" using room_behind [OF tight le] False by (auto simp: free_from_def)
      ultimately show ?thesis using True rank e(1) by (simp add: insert_new_run_def slot_is_free_def Let_def)
    next
      case in_range: True
      have ip: "(if rank_occ rf q > 0 then ((if rank_occ rf q > 0 then select_run rf (rank_occ rf q) else 0) + 1) mod rf_num_slots rf else 0) = Suc e"
        using rank e(1) in_range by simp
      have st: "insert_new_run rf q v = (case cluster_end rf (rf_num_slots rf) q of None \<Rightarrow> (RSQF_ERR_FULL, rf)
        | Some rend \<Rightarrow> (case first_free rf ((rend + 1) mod rf_num_slots rf) of None \<Rightarrow> (RSQF_ERR_FULL, rf)
          | Some n \<Rightarrow> (case open_slot rf (Suc e) n of None \<Rightarrow> (RSQF_ERR_FULL, rf)
            | Some rf' \<Rightarrow> finish_insert (set_run (set_occ (track_phys_occ (rf_put rf' (Suc e) v) (Suc e)) q) (Suc e))
                (if Suc e > n then 0 else (if q < Suc e then q else Suc e) div 64))))"
        unfolding insert_new_run_def Let_def ip using True by (simp add: slot_is_free_def)
      show ?thesis
      proof (cases "cluster_end rf (rf_num_slots rf) q")
        case None
        have "rf_ph rf n" if "q \<le> n" "n < rf_num_slots rf" for n
        proof -
          have "n - q \<le> rf_num_slots rf" using that by simp
          then show ?thesis using cluster_end_exists [of n rf q "rf_num_slots rf"] None True that by (cases "q = n") auto
        qed
        then have "\<not> has_room rf q" by (auto simp: has_room_def)
        then show ?thesis using st None by simp
      next
        case (Some rend)
        define n where "n = (rend + 1) mod rf_num_slots rf"
        have nl: "n < rf_num_slots rf" using q(1) by (simp add: n_def)
        have c: "\<not> rf_ph rf n" "q < n \<and> (\<forall>p. q < p \<and> p < n \<longrightarrow> rf_ph rf p) \<or> n \<le> q \<and> (\<forall>p. q < p \<and> p < rf_num_slots rf \<longrightarrow> rf_ph rf p)"
          using cluster_end_ok [OF Some q(1)] by (auto simp: n_def)
        have ff: "first_free rf n = Some n" using free_slot_first [OF nl c(1)] .
        have between: "rf_ph rf p" if "q \<le> p" "p \<le> e" for p
          using tight_between [OF t _ that(1), of "Suc e"] e le that by (simp add: last_run_end_def del: cnt.simps)
        show ?thesis
        proof (cases "q < n")
          case True
          then have "\<forall>p. q < p \<and> p < n \<longrightarrow> rf_ph rf p" using c(2) by auto
          then have fr: "free_from rf (Suc e) n" using between [of n] True nl c(1) \<open>q \<le> e\<close> by (auto simp: free_from_def Suc_le_eq not_le [symmetric])
          then have room: "has_room rf q" using room_behind [OF tight le] by blast
          obtain rf' where o: "open_slot rf (Suc e) n = Some rf'"
            and m: "moved rf (shifted (Suc e) n False (rf_rn rf)) (shifted (Suc e) n False (rf_ph rf)) (shifted (Suc e) n 0 (rf_get rf)) rf'"
            using open_slot_ok [OF sh(1) fr] by blast
          define r0 where "r0 = track_phys_occ (rf_put rf' (Suc e) v) (Suc e)"
          have cm: "set_run (set_occ r0 q) (Suc e) = set_occ (set_run r0 (Suc e)) q" by (simp add: set_run_def set_occ_def)
          have x: "insert_new_run rf q v = finish_insert (set_occ (set_run r0 (Suc e)) q) (q div 64)"
          proof -
            have "\<not> Suc e > n" "q < Suc e" using fr \<open>q \<le> e\<close> by (simp_all add: free_from_def)
            then show ?thesis unfolding st Some option.case n_def [symmetric] ff o by (simp add: r0_def [symmetric] cm)
          qed
          have r0: "r0 = (if rf_oc rf q then clear_run (track_phys_occ (rf_put rf' (Suc e) v) (Suc e)) e else track_phys_occ (rf_put rf' (Suc e) v) (Suc e))"
            using q(2) by (simp add: r0_def)
          note w = write_opened [OF sh(1) fr \<open>q \<le> e\<close> m v r0]
          show ?thesis using insert_finish [OF tight last_run_place [OF tight le fr] w(1-4)] room unfolding x by auto
        next
          case False
          then have all: "\<forall>p. q < p \<and> p < rf_num_slots rf \<longrightarrow> rf_ph rf p" "n < Suc e" using c(2) \<open>q \<le> e\<close> by auto
          then have "\<not> has_room rf q" using \<open>rf_ph rf q\<close> by (auto simp: has_room_def le_less)
          moreover have "open_slot rf (Suc e) n = None" using open_slot_wraps [OF ok all(2) in_range] all(1) \<open>q \<le> e\<close> by simp
          ultimately show ?thesis unfolding st Some option.case n_def [symmetric] ff by simp
        qed
      qed
    qed
  qed
qed

lemma rsqf_insert_cases:
  fixes hash :: u64
  assumes tight: "rsqf_tight rf"
  defines "q \<equiv> hash_quotient rf hash" and "v \<equiv> hash_remainder rf hash"
  shows "if has_room rf q then \<exists>rf'. rsqf_filter_insert rf hash = (RSQF_OK, rf') \<and> inserted rf q v rf'
    else rsqf_filter_insert rf hash = (RSQF_ERR_FULL, rf)"
proof -
  have ok: "rsqf_ok rf" using tight by (simp add: rsqf_tight_def)
  note rr = runs_of_ok(1) [OF ok]
  note sh = runs_of_ok(2-4) [OF rr]
  have q: "q < rf_num_slots rf" using quotient_less [OF sh(1)] by (simp add: q_def)
  have v: "v AND rf_remainder_mask rf = v" using remainder_masked by (simp add: v_def)
  show ?thesis
  proof (cases "rf_count rf \<ge> rf_num_slots rf")
    case True
    have "rf_ph rf n" if n: "n < rf_num_slots rf" for n
    proof (rule ccontr)
      assume "\<not> rf_ph rf n"
      then have "cnt (rf_ph rf) (rf_num_slots rf) + 1 = cnt ((rf_ph rf)(n := True)) (rf_num_slots rf)" using n by (simp add: cnt_set)
      then show False using cnt_le [of "(rf_ph rf)(n := True)" "rf_num_slots rf"] True ok by (simp add: rsqf_ok_def)
    qed
    then have "\<not> has_room rf q" by (auto simp: has_room_def)
    then show ?thesis using True by (simp add: rsqf_filter_insert_def)
  next
    case False
    have ex: "rsqf_filter_insert rf hash = extend_run rf q v e" if "find_run rf q = Some (rs, e)" for rs e
      using that False by (simp add: rsqf_filter_insert_def q_def v_def Let_def)
    show ?thesis
    proof (cases "rf_oc rf q")
      case True
      obtain rs e where e: "find_run rf q = Some (rs, e)" "e < rf_num_slots rf" "rf_rn rf e" "cnt (rf_rn rf) e = cnt (rf_oc rf) q" "q \<le> e"
        using find_run_occ [OF rr q True] by metis
      then have "last_run_end rf q e" using True by (simp add: last_run_end_def)
      then show ?thesis using extend_run_ok [OF tight _ v] ex [OF e(1)] by simp
    next
      case no: False
      show ?thesis
      proof (cases "rf_rn rf q")
        case True
        then have lt: "cnt (rf_rn rf) q < cnt (rf_oc rf) (Suc q)" using sh(3) q by (auto simp: runs_base_def)
        then obtain k where k: "cnt (rf_oc rf) (Suc q) = Suc k" by (cases "cnt (rf_oc rf) (Suc q)") auto
        have "k < cnt (rf_oc rf) (rf_num_slots rf)" using cnt_mono [of "Suc q" "rf_num_slots rf" "rf_oc rf"] q k by simp
        then obtain e where e: "select_run rf (Suc k) = e" "e < rf_num_slots rf" "rf_rn rf e" "cnt (rf_rn rf) e = k" by (rule select_run_exists [OF rr])
        have "q \<le> e" using cnt_le_iff [of "rf_rn rf" q e] True e lt k by simp
        then have le: "last_run_end rf q e" using e k by (simp add: last_run_end_def)
        have "find_run rf q = Some (run_start rf (Suc k), e)"
          using no True rank_occ_cnt [OF sh(1,2) q] k e(1) by (simp add: find_run_def Let_def)
        then show ?thesis using extend_run_ok [OF tight le v] ex by simp
      next
        case False
        have "rsqf_filter_insert rf hash = insert_new_run rf q v"
          using no False \<open>\<not> rf_count rf \<ge> rf_num_slots rf\<close> by (simp add: rsqf_filter_insert_def find_run_def q_def [symmetric] v_def [symmetric] Let_def)
        then show ?thesis using insert_new_run_ok [OF tight q no False v] by simp
      qed
    qed
  qed
qed

section \<open>Deletion\<close>

text \<open>After \<open>j\<close> steps the slots from \<open>d\<close> on have moved down by one and slot \<open>d + j\<close> is free.\<close>

lemma pull_slots_ok:
  assumes sh: "rsqf_shape rf" and e: "e < rf_num_slots rf" "rf_rn rf e" and full: "\<And>p. d \<le> p \<Longrightarrow> p \<le> e \<Longrightarrow> rf_ph rf p"
    and inner: "\<And>p. d \<le> p \<Longrightarrow> p < e \<Longrightarrow> \<not> rf_rn rf p"
  shows "d + j \<le> e \<Longrightarrow> moved rf (if 0 < j \<and> d + j = e then (rf_rn rf)(e - 1 := True, e := False) else rf_rn rf)
    (if j = 0 then rf_ph rf else (rf_ph rf)(d + j := False)) (\<lambda>p. if d \<le> p \<and> p < d + j then rf_get rf (Suc p) else rf_get rf p)
    (fold (pull_slot d) [0..<j] rf)"
proof (induction j)
  case 0
  then show ?case using sh by (auto simp: moved_def)
next
  case (Suc j)
  define r where "r = fold (pull_slot d) [0..<j] rf"
  have m: "moved rf (rf_rn rf) (if j = 0 then rf_ph rf else (rf_ph rf)(d + j := False))
    (\<lambda>p. if d \<le> p \<and> p < d + j then rf_get rf (Suc p) else rf_get rf p) r"
    using Suc by (auto simp: r_def)
  then have r: "rsqf_shape r" "same_meta rf r" "rf_oc r = rf_oc rf" "rf_num_slots r = rf_num_slots rf" "rf_remainder_mask r = rf_remainder_mask rf"
    by (simp_all add: moved_def same_meta_def)
  have v: "rf_rn r p = rf_rn rf p" "rf_ph r p = (if j = 0 then rf_ph rf else (rf_ph rf)(d + j := False)) p"
    "rf_get r p = (if d \<le> p \<and> p < d + j then rf_get rf (Suc p) else rf_get rf p)" if "p < rf_num_slots rf" for p using m that by (simp_all add: moved_def)
  have b: "d + j < rf_num_slots rf" "Suc (d + j) < rf_num_slots rf" "Suc (d + j) \<le> e" using Suc.prems e(1) by simp_all
  define r1 where "r1 = rf_put r (d + j) (rf_get r (Suc (d + j)))"
  define r2 where "r2 = clear_phys (track_phys_occ r1 (d + j)) (Suc (d + j))"
  have src: "rf_ph r (Suc (d + j))" using v(2) [OF b(2)] full [of "Suc (d + j)"] b(3) by (cases j) auto
  have mv: "move_phys_occ r1 (Suc (d + j)) (d + j) = r2" using src by (simp add: move_phys_occ_def r2_def r1_def rf_updates)
  have s1: "rsqf_shape r1" "rf_num_slots r1 = rf_num_slots rf" using r by (simp_all add: r1_def rf_view)
  have s2: "rsqf_shape r2" "rf_num_slots r2 = rf_num_slots rf" "same_meta rf r2" "rf_oc r2 = rf_oc rf" "rf_rn r2 = rf_rn r"
    "rf_ph r2 = (rf_ph r)(d + j := True, Suc (d + j) := False)"
    using r s1 b by (simp_all add: r2_def rf_view) (simp_all add: r1_def rf_view r)
  have g2: "rf_get r2 p = (if p = d + j then rf_get r (Suc (d + j)) else rf_get r p)" if "p < rf_num_slots rf" for p
    using rf_get_put [OF r(1), of "d + j" p "rf_get r (Suc (d + j))"] that b r(4) by (auto simp: r2_def r1_def rf_view rf_get_masked)
  define r3 where "r3 = (if rf_rn r2 (Suc (d + j)) then clear_run (set_run r2 (d + j)) (Suc (d + j)) else r2)"
  have step: "fold (pull_slot d) [0..<Suc j] rf = r3"
    using b r(4) by (simp add: r_def [symmetric] pull_slot_def Let_def r1_def [symmetric] mv r3_def)
  have last: "rf_rn r2 (Suc (d + j)) \<longleftrightarrow> Suc (d + j) = e"
    using s2(5) v(1) [OF b(2)] e(2) inner [of "Suc (d + j)"] b(3) by (cases "Suc (d + j) = e") auto
  have s3: "rsqf_shape r3" "same_meta rf r3" "rf_oc r3 = rf_oc rf" "rf_ph r3 = rf_ph r2" "rf_get r3 = rf_get r2"
    "rf_rn r3 = (if Suc (d + j) = e then (rf_rn r2)(d + j := True, e := False) else rf_rn r2)"
    using s2 b last by (simp_all add: r3_def rf_view)
  show ?case
    unfolding step moved_def
  proof (intro conjI allI impI)
    fix p
    assume p: "p < rf_num_slots rf"
    show "rf_rn r3 p = (if 0 < Suc j \<and> d + Suc j = e then (rf_rn rf)(e - 1 := True, e := False) else rf_rn rf) p"
      using s3(6) s2(5) v(1) [OF p] by auto
    have "rf_ph rf (d + j)" using full [of "d + j"] b(3) by simp
    then show "rf_ph r3 p = (if Suc j = 0 then rf_ph rf else (rf_ph rf)(d + Suc j := False)) p"
      using s3(4) s2(6) v(2) [OF p] by (auto split: if_splits)
    show "rf_get r3 p = (if d \<le> p \<and> p < d + Suc j then rf_get rf (Suc p) else rf_get rf p)"
      using s3(5) g2 [OF p] v(3) [OF p] v(3) [OF b(2)] by auto
  qed (use s3 in auto)
qed

lemma fold_last:
  "\<forall>k < n. \<not> P k \<Longrightarrow> fold (\<lambda>k acc. if P k then Some (f k) else acc) [0..<n] None = None"
  "m < n \<Longrightarrow> P m \<Longrightarrow> \<forall>k. m < k \<and> k < n \<longrightarrow> \<not> P k \<Longrightarrow> fold (\<lambda>k acc. if P k then Some (f k) else acc) [0..<n] None = Some (f m)"
  by (induction n) (auto simp: less_Suc_eq)

lemma last_occupied_eq:
  assumes "rs \<le> e" "e < rf_num_slots rf"
  shows "\<forall>p. rs \<le> p \<and> p \<le> e \<longrightarrow> \<not> rf_ph rf p \<Longrightarrow> last_occupied rf rs e = None"
    "rs \<le> m \<Longrightarrow> m \<le> e \<Longrightarrow> rf_ph rf m \<Longrightarrow> \<forall>p. m < p \<and> p \<le> e \<longrightarrow> \<not> rf_ph rf p \<Longrightarrow> last_occupied rf rs e = Some m"
proof -
  let ?f = "\<lambda>k. (rs + k) mod rf_num_slots rf" and ?n = "Suc (e - rs)"
  have f: "?f k = rs + k" if "k < ?n" for k using that assms by simp
  have e: "last_occupied rf rs e = fold (\<lambda>k acc. if rf_ph rf (?f k) then Some (?f k) else acc) [0..<?n] None"
    using assms(1) by (simp add: last_occupied_def circular_len_def Let_def)
  show "last_occupied rf rs e = None" if "\<forall>p. rs \<le> p \<and> p \<le> e \<longrightarrow> \<not> rf_ph rf p"
    unfolding e by (rule fold_last(1)) (use that f assms in auto)
  show "last_occupied rf rs e = Some m" if "rs \<le> m" "m \<le> e" "rf_ph rf m" "\<forall>p. m < p \<and> p \<le> e \<longrightarrow> \<not> rf_ph rf p"
  proof -
    have "\<not> rf_ph rf (?f k)" if "m - rs < k" "k < ?n" for k
    proof -
      have "m < rs + k" "rs + k \<le> e" using that \<open>rs \<le> m\<close> assms(1) by linarith+
      then show ?thesis using \<open>\<forall>p. m < p \<and> p \<le> e \<longrightarrow> \<not> rf_ph rf p\<close> f [OF that(2)] by simp
    qed
    then have "last_occupied rf rs e = Some (?f (m - rs))"
      unfolding e by (intro fold_last(2)) (use that f assms in auto)
    then show ?thesis using f [of "m - rs"] that by simp
  qed
qed

lemma clear_runs_ok:
  assumes "rsqf_shape rf" "rs + n \<le> rf_num_slots rf" "ns = rf_num_slots rf"
  shows "let r = fold (\<lambda>k rf. clear_run rf ((rs + k) mod ns)) [0..<n] rf
    in rsqf_shape r \<and> same_meta rf r \<and> rf_oc r = rf_oc rf \<and> rf_ph r = rf_ph rf \<and> rf_get r = rf_get rf \<and>
      rf_rn r = (\<lambda>p. rf_rn rf p \<and> \<not> (rs \<le> p \<and> p < rs + n))"
  using assms(2)
proof (induction n)
  case 0
  then show ?case using assms(1) by auto
next
  case (Suc n)
  define r where "r = fold (\<lambda>k rf. clear_run rf ((rs + k) mod ns)) [0..<n] rf"
  have r: "rsqf_shape r" "same_meta rf r" "rf_oc r = rf_oc rf" "rf_ph r = rf_ph rf" "rf_get r = rf_get rf"
    "rf_rn r = (\<lambda>p. rf_rn rf p \<and> \<not> (rs \<le> p \<and> p < rs + n))" using Suc by (simp_all add: r_def Let_def)
  have l: "rs + n < rf_num_slots r" "(rs + n) mod ns = rs + n" using r(2) Suc.prems assms(3) by (simp_all add: same_meta_def)
  have "fold (\<lambda>k rf. clear_run rf ((rs + k) mod ns)) [0..<Suc n] rf = clear_run r (rs + n)" using l(2) by (simp add: r_def)
  moreover have "rf_rn (clear_run r (rs + n)) = (\<lambda>p. rf_rn rf p \<and> \<not> (rs \<le> p \<and> p < rs + Suc n))"
    using r(6) bit_updates(2) [OF r(1) l(1)] by (auto simp: fun_eq_iff)
  ultimately show ?case using r by (simp add: Let_def rf_view)
qed

text \<open>The slots of the abstract deletion.\<close>

definition del_slots :: "rsqf_filter \<Rightarrow> nat \<Rightarrow> nat \<Rightarrow> nat \<Rightarrow> nat \<Rightarrow> rsqf_filter" where
  "del_slots rf q rstart rend d =
     (let ns = rf_num_slots rf;
          rf1 = fold (pull_slot d) [0..<circular_len ns d rend - 1] rf;
          rf2 = clear_run (clear_phys (rf_put rf1 rend 0) rend) rend
      in case last_occupied rf2 rstart rend of
           None \<Rightarrow> clear_run (clear_occ rf2 q) rend
         | Some p \<Rightarrow> set_run (fold (\<lambda>k rf. clear_run rf ((rstart + k) mod ns)) [0..<circular_len ns rstart rend] rf2) p)"

lemma del_slots_ok:
  assumes ok: "rsqf_ok rf" and place: "del_place (rf_num_slots rf) (rf_oc rf) (rf_rn rf) (rf_ph rf) q d e" and q: "q < rf_num_slots rf"
    and rs: "rs \<le> d" "\<forall>p < rf_num_slots rf. cnt (rf_rn rf) p = cnt (rf_oc rf) q \<longleftrightarrow> rs \<le> p \<and> p \<le> e"
  defines "r \<equiv> del_slots rf q rs e d"
  shows "rsqf_shape r" "same_meta rf r" "rf_oc r = del_occ (rf_oc rf) (rf_rn rf) (rf_ph rf) q e"
    "\<And>p. p < rf_num_slots rf \<Longrightarrow> rf_rn r p = del_runs (rf_rn rf) (rf_ph rf) e p \<and> rf_ph r p = ((rf_ph rf)(e := False)) p \<and>
      rf_get r p = del_vals d e 0 (rf_get rf) p"
proof -
  let ?ns = "rf_num_slots rf" and ?R = "rf_rn rf" and ?P = "rf_ph rf" and ?O = "rf_oc rf"
  have sh: "rsqf_shape rf" using ok by (simp add: rsqf_ok_def rsqf_runs_def)
  have ro: "runs_ok ?ns ?O ?R ?P" using ok by (simp add: rsqf_ok_def)
  have pl: "e < ?ns" "d \<le> e" "?O q" "?R e" "?P d" "cnt ?R e = cnt ?O q" "cnt ?R d = cnt ?O q" using place by (simp_all add: del_place_def)
  have eq: "cnt ?R d = cnt ?R e" using pl(6,7) by simp
  have full: "?P p" if "d \<le> p" "p \<le> e" for p using region_full [OF ro pl(2,1,5) eq that] .
  have inner: "\<not> ?R p" if "rs \<le> p" "p < e" for p
    using cnt_less [of ?R p e] rs(2) [rule_format, of p] that pl(1,6) by auto
  define r1 where "r1 = fold (pull_slot d) [0..<e - d] rf"
  define r2 where "r2 = clear_run (clear_phys (rf_put r1 e 0) e) e"
  have m: "moved rf (if d < e then ?R(e - 1 := True, e := False) else ?R) (if d < e then ?P(e := False) else ?P)
    (\<lambda>p. if d \<le> p \<and> p < e then rf_get rf (Suc p) else rf_get rf p) r1"
    using pull_slots_ok [OF sh pl(1,4) full, of d "e - d"] inner rs(1) pl(2) by (auto simp: r1_def)
  then have s1: "rsqf_shape r1" "same_meta rf r1" "rf_oc r1 = ?O" "rf_num_slots r1 = ?ns" by (simp_all add: moved_def same_meta_def)
  have v1: "rf_rn r1 p = (if d < e then ?R(e - 1 := True, e := False) else ?R) p" "rf_ph r1 p = (if d < e then ?P(e := False) else ?P) p"
    "rf_get r1 p = (if d \<le> p \<and> p < e then rf_get rf (Suc p) else rf_get rf p)" if "p < ?ns" for p using m that by (simp_all add: moved_def)
  have s2: "rsqf_shape r2" "same_meta rf r2" "rf_oc r2 = ?O" "rf_num_slots r2 = ?ns" "rf_ph r2 = (rf_ph r1)(e := False)" "rf_rn r2 = (rf_rn r1)(e := False)"
    using s1 pl(1) by (simp_all add: r2_def rf_view)
  have v2: "rf_rn r2 p = (if d < e then ?R(e - 1 := True, e := False) else ?R(e := False)) p" "rf_ph r2 p = (?P(e := False)) p"
    "rf_get r2 p = del_vals d e 0 (rf_get rf) p" if p: "p < ?ns" for p
  proof -
    show "rf_rn r2 p = (if d < e then ?R(e - 1 := True, e := False) else ?R(e := False)) p" using v1(1) [OF p] s2(6) by auto
    show "rf_ph r2 p = (?P(e := False)) p" using v1(2) [OF p] s2(5) by auto
    show "rf_get r2 p = del_vals d e 0 (rf_get rf) p"
      using rf_get_put [OF s1(1), of e p 0] v1(3) [OF p] p pl(1) s1(4) by (auto simp: r2_def rf_view del_vals_def)
  qed
  have len: "circular_len ?ns d e - 1 = e - d" "circular_len ?ns rs e = Suc e - rs" using pl(2) rs(1) by (simp_all add: circular_len_def Suc_diff_le)
  have r: "r = (case last_occupied r2 rs e of None \<Rightarrow> clear_run (clear_occ r2 q) e
    | Some p \<Rightarrow> set_run (fold (\<lambda>k rf. clear_run rf ((rs + k) mod ?ns)) [0..<Suc e - rs] r2) p)"
    by (simp only: r_def del_slots_def Let_def len r1_def [symmetric] r2_def [symmetric])
  have rse: "rs \<le> e" "e < rf_num_slots r2" using rs(1) pl(1,2) s2(4) by simp_all
  have "rsqf_shape r \<and> same_meta rf r \<and> rf_oc r = del_occ ?O ?R ?P q e \<and>
    (\<forall>p < ?ns. rf_rn r p = del_runs ?R ?P e p \<and> rf_ph r p = (?P(e := False)) p \<and> rf_get r p = del_vals d e 0 (rf_get rf) p)"
  proof (cases "run_shrinks ?R ?P e")
    case True
    then have e1: "0 < e" "?P (e - 1)" "\<not> ?R (e - 1)" by (simp_all add: run_shrinks_def)
    then have "cnt ?R (e - 1) = cnt ?O q" using pl(6) by (cases e) auto
    then have in_run: "rs \<le> e - 1" using rs(2) [rule_format, of "e - 1"] pl(1) by simp
    have lo: "last_occupied r2 rs e = Some (e - 1)"
    proof (rule last_occupied_eq(2) [OF rse in_run])
      show "rf_ph r2 (e - 1)" using v2(2) [of "e - 1"] e1(1,2) pl(1) by simp
      show "\<forall>p. e - 1 < p \<and> p \<le> e \<longrightarrow> \<not> rf_ph r2 p" using s2(5) by auto
    qed simp
    define r3 where "r3 = fold (\<lambda>k rf. clear_run rf ((rs + k) mod ?ns)) [0..<Suc e - rs] r2"
    have pre: "rs + (Suc e - rs) \<le> rf_num_slots r2" using pl(1) rse by simp
    note cl = clear_runs_ok [OF s2(1) pre s2(4) [symmetric], unfolded Let_def, folded r3_def]
    have r3: "rsqf_shape r3" "same_meta r2 r3" "rf_oc r3 = ?O" "rf_ph r3 = rf_ph r2" "rf_get r3 = rf_get r2"
      "rf_rn r3 = (\<lambda>p. rf_rn r2 p \<and> \<not> (rs \<le> p \<and> p < rs + (Suc e - rs)))"
      using cl unfolding s2(3) by blast+
    have rr: "r = set_run r3 (e - 1)" by (simp only: r lo option.case r3_def)
    have n3: "rf_num_slots r3 = ?ns" using r3(2) s2(4) by (simp add: same_meta_def)
    have "rf_rn r p = del_runs ?R ?P e p" if "p < ?ns" for p
    proof -
      have "rf_rn r p = ((rf_rn r3)(e - 1 := True)) p" unfolding rr using bit_updates(1) [OF r3(1), of "e - 1"] n3 pl(1) by simp
      then show ?thesis using r3(6) v2(1) [OF that] True inner [of p] in_run e1 rse(1) by (auto simp: del_runs_def)
    qed
    moreover have "rsqf_shape r" "same_meta rf r" "rf_oc r = del_occ ?O ?R ?P q e" "rf_ph r = rf_ph r2" "rf_get r = rf_get r2"
      using r3 True same_meta_trans [OF s2(2) r3(2)] by (simp_all add: rr rf_view del_occ_def)
    ultimately show ?thesis using v2 by simp
  next
    case False
    have de: "d = e"
    proof (rule ccontr)
      assume "d \<noteq> e"
      then have "cnt ?R d < cnt ?O q" using del_last [OF ro place False pl(5)] pl(2) by simp
      then show False using pl(7) by simp
    qed
    have "\<not> rf_ph r2 p" if "rs \<le> p" "p \<le> e" for p
    proof
      assume h: "rf_ph r2 p"
      then have "?P p" "p \<noteq> e" using v2(2) [of p] that(2) pl(1) by (auto split: if_splits)
      then have "cnt ?R p < cnt ?O q" using del_last [OF ro place False, of p] that(2) by simp
      then show False using rs(2) [rule_format, of p] that pl(1) by simp
    qed
    then have lo: "last_occupied r2 rs e = None" using last_occupied_eq(1) [OF rse] by blast
    have rr: "r = clear_run (clear_occ r2 q) e" by (simp only: r lo option.case)
    have "rsqf_shape r" "same_meta rf r" "rf_oc r = del_occ ?O ?R ?P q e" "rf_ph r = rf_ph r2" "rf_get r = rf_get r2" "rf_rn r = (rf_rn r2)(e := False)"
      using s2 False q pl(1) by (simp_all add: rr rf_view del_occ_def)
    then show ?thesis using v2 de False by (simp add: del_runs_def)
  qed
  then show "rsqf_shape r" "same_meta rf r" "rf_oc r = del_occ ?O ?R ?P q e"
    "\<And>p. p < ?ns \<Longrightarrow> rf_rn r p = del_runs ?R ?P e p \<and> rf_ph r p = (?P(e := False)) p \<and> rf_get r p = del_vals d e 0 (rf_get rf) p" by blast+
qed

lemma del_keeps_below:
  assumes ok: "runs_ok ns Oc Rn Ph" and place: "del_place ns Oc Rn Ph q d e" and x: "x \<le> q" "x \<le> rs"
    and rs: "rs \<le> d" "\<forall>p < ns. cnt Rn p = cnt Oc q \<longleftrightarrow> rs \<le> p \<and> p \<le> e"
  shows "cnt (del_runs Rn Ph e) x = cnt Rn x" "cnt (del_occ Oc Rn Ph q e) x = cnt Oc x"
proof -
  have pl: "e < ns" "d \<le> e" "Oc q" "Rn e" "cnt Rn e = cnt Oc q" using place by (simp_all add: del_place_def)
  have "x < e \<or> x = e \<and> \<not> run_shrinks Rn Ph e"
  proof (cases "run_shrinks Rn Ph e")
    case True
    then have "0 < e" "\<not> Rn (e - 1)" by (simp_all add: run_shrinks_def)
    then have "cnt Rn (e - 1) = cnt Oc q" using pl(5) by (cases e) auto
    then have "rs \<le> e - 1" using rs(2) [rule_format, of "e - 1"] pl(1) by simp
    then show ?thesis using x(2) \<open>0 < e\<close> by linarith
  next
    case False
    then show ?thesis using x(2) rs(1) pl(2) by linarith
  qed
  then show "cnt (del_runs Rn Ph e) x = cnt Rn x" using cnt_del_runs(1) [of Rn e x Ph] pl(4) by blast
  show "cnt (del_occ Oc Rn Ph q e) x = cnt Oc x" using cnt_clear [of Oc x q] x(1) by (simp add: del_occ_def)
qed

lemma del_keeps_ends:
  assumes ok: "runs_ok ns Oc Rn Ph" and place: "del_place ns Oc Rn Ph q d e" and k: "cnt (del_runs Rn Ph e) x < cnt Oc q" "del_runs Rn Ph e x"
  shows "Rn x" "cnt (del_runs Rn Ph e) x = cnt Rn x"
proof -
  have pl: "Rn e" "cnt Rn e = cnt Oc q" using place by (simp_all add: del_place_def)
  note c = cnt_del_runs [of Rn e, OF pl(1), where Ph = Ph]
  have "cnt Rn (Suc e) \<le> cnt Rn x" if "e < x" using that by (intro cnt_mono) simp
  then have "\<not> e < x" using c(2) [of x] k(1) pl by (auto split: if_splits)
  moreover have "x \<noteq> e" using k(2) by (auto simp: del_runs_def run_shrinks_def split: if_splits)
  ultimately have lt: "x < e" by simp
  show ct: "cnt (del_runs Rn Ph e) x = cnt Rn x" using c(1) [of x] lt by simp
  show "Rn x"
  proof (rule ccontr)
    assume n: "\<not> Rn x"
    then have "run_shrinks Rn Ph e" "x = e - 1" using k(2) lt by (auto simp: del_runs_def split: if_splits)
    then have "cnt Rn x = cnt Rn e" using n lt by (cases e) (auto simp: run_shrinks_def)
    then show False using k(1) ct pl(2) by simp
  qed
qed

lemma find_rem_eq:
  assumes "rs \<le> e" "e < rf_num_slots rf"
  shows "find_rem rf rs e v = find (\<lambda>i. rf_get rf i = v) [rs..<Suc e]"
proof -
  have "map (\<lambda>k. (rs + k) mod rf_num_slots rf) [0..<Suc e - rs] = map (\<lambda>k. rs + k) [0..<Suc e - rs]" using assms by (intro map_cong) auto
  also have "\<dots> = [rs..<Suc e]" using assms(1) map_add_upt [of rs "Suc e - rs"] by (simp add: add.commute del: upt_Suc)
  finally show ?thesis using assms(1) by (simp add: find_rem_def circular_len_def Suc_diff_le del: upt_Suc)
qed

definition deleted :: "rsqf_filter \<Rightarrow> nat \<Rightarrow> u64 \<Rightarrow> rsqf_filter \<Rightarrow> bool" where
  "deleted rf q v rf' \<longleftrightarrow> rsqf_ok rf' \<and> rsqf_items rf = add_mset (q, v) (rsqf_items rf') \<and>
     rf_num_slots rf' = rf_num_slots rf \<and> rf_remainder_bits rf' = rf_remainder_bits rf \<and> rf_remainder_mask rf' = rf_remainder_mask rf \<and>
     (\<exists>d e. del_place (rf_num_slots rf) (rf_oc rf) (rf_rn rf) (rf_ph rf) q d e \<and> rf_get rf d = v \<and>
       (\<forall>p < rf_num_slots rf. rf_oc rf' p = del_occ (rf_oc rf) (rf_rn rf) (rf_ph rf) q e p \<and> rf_rn rf' p = del_runs (rf_rn rf) (rf_ph rf) e p \<and>
          rf_ph rf' p = ((rf_ph rf)(e := False)) p \<and> rf_get rf' p = del_vals d e 0 (rf_get rf) p))"

lemma delete_finish:
  assumes ok: "rsqf_ok rf" and place: "del_place (rf_num_slots rf) (rf_oc rf) (rf_rn rf) (rf_ph rf) q d e" and q: "q < rf_num_slots rf"
    and rs: "rs \<le> d" "\<forall>p < rf_num_slots rf. cnt (rf_rn rf) p = cnt (rf_oc rf) q \<longleftrightarrow> rs \<le> p \<and> p \<le> e"
  defines "r \<equiv> del_slots rf q rs e d"
  shows "deleted rf q (rf_get rf d) (update_offsets_from (r\<lparr>rf_count := rf_count r - 1\<rparr>) ((if q < rs then q else rs) div 64))"
proof -
  let ?ns = "rf_num_slots rf" and ?O = "del_occ (rf_oc rf) (rf_rn rf) (rf_ph rf) q e" and ?R = "del_runs (rf_rn rf) (rf_ph rf) e"
    and ?P = "(rf_ph rf)(e := False)" and ?V = "del_vals d e 0 (rf_get rf)"
  define fb where "fb = (if q < rs then q else rs) div 64"
  define rf' where "rf' = update_offsets_from (r\<lparr>rf_count := rf_count r - 1\<rparr>) fb"
  have ro: "runs_ok ?ns (rf_oc rf) (rf_rn rf) (rf_ph rf)" using ok by (simp add: rsqf_ok_def)
  have sh: "rsqf_shape rf" "sums_ok rf" "\<forall>b < rf_num_blocks rf. off_ok rf b" using ok by (simp_all add: rsqf_ok_def rsqf_runs_def)
  have pl: "e < ?ns" "d \<le> e" "rf_rn rf e" using place by (simp_all add: del_place_def)
  note w = del_slots_ok [OF ok place q rs, folded r_def]
  have fb: "fb < rf_num_blocks rf" using q rs(1) pl sh(1) by (auto simp: fb_def rsqf_shape_def less_mult_imp_div_less mult.commute)
  have lo: "64 * b \<le> q" "64 * b \<le> rs" if "b \<le> fb" for b using that by (auto simp: fb_def split: if_splits)
  have cr: "cnt (rf_rn r) x = cnt ?R x" if "x \<le> ?ns" for x using w(4) that by (intro cnt_cong) auto
  have o1: "cnt (rf_oc r) (64 * b) = cnt (rf_oc rf) (64 * b)" if "b \<le> fb" for b
    using del_keeps_below(2) [OF ro place lo [OF that] rs] w(3) by simp
  have r1: "cnt (rf_rn r) (64 * b) = cnt (rf_rn rf) (64 * b)" if "b \<le> fb" for b
    using del_keeps_below(1) [OF ro place lo [OF that] rs] cr [of "64 * b"] lo(1) [OF that] q by simp
  have "cnt (rf_oc rf) (64 * fb) \<le> cnt (rf_oc rf) q" using lo(1) [of fb] by (intro cnt_mono) simp
  then have e1: "rf_rn rf x \<and> cnt (rf_rn rf) x = cnt (rf_rn r) x"
    if "x < ?ns" "rf_rn r x" "cnt (rf_rn r) x < cnt (rf_oc rf) (64 * fb)" for x
    using del_keeps_ends [OF ro place, of x] cr [of x] w(4) [OF that(1)] that by simp
  note u = refresh_ok [OF sh w(1,2) fb o1 r1 e1, of "rf_count r - 1", folded rf'_def]
  have cng: "rf_oc rf' p = ?O p \<and> rf_rn rf' p = ?R p \<and> rf_ph rf' p = ?P p \<and> rf_get rf' p = ?V p" if "p < ?ns" for p
    using w(4) [OF that] w(3) u(4-7) by simp
  note k = runs_cong [of ?ns "rf_oc rf'" ?O "rf_rn rf'" ?R "rf_ph rf'" ?P]
  have rt: "runs_ok ?ns (rf_oc rf') (rf_rn rf') (rf_ph rf')" using del_ok [OF ro place] k(3) cng by blast
  have "rf_oc rf' = ?O" using w(3) u(4) by simp
  then have it: "rsqf_items rf = add_mset (q, rf_get rf d) (rsqf_items rf')"
    using del_items [OF ro place, of "rf_get rf" 0] run_items_cong [of ?ns "rf_rn rf'" ?R "rf_ph rf'" ?P "rf_get rf'" ?V] cng u(9) by (simp add: rsqf_items_def)
  have full: "rf_ph rf p" if "d \<le> p" "p \<le> e" for p
    using region_full [OF ro pl(2,1) _ _ that] place by (simp add: del_place_def)
  have z: "rf_get rf' p = 0" if "p < ?ns" "\<not> rf_ph rf' p" for p
    using cng [OF that(1)] that full [of p] ok by (auto simp: del_vals_def rsqf_ok_def split: if_splits)
  have "rf_ph rf e" using full pl(2) by simp
  then have "cnt (rf_ph rf) ?ns = cnt ?P ?ns + 1" using cnt_clear [of "rf_ph rf" ?ns e] pl(1) by simp
  then have "rf_count rf' = cnt (rf_ph rf') ?ns" using u(8) w(2) ok k(4) cng by (simp add: same_meta_def rsqf_ok_def)
  then have "rsqf_ok rf'" using u(1-3,9) rt z unfolding rsqf_ok_def rsqf_runs_def by (simp add: runs_ok_def)
  then show ?thesis using it u(9-11) place cng unfolding deleted_def fb_def [symmetric] rf'_def [symmetric] by blast
qed

text \<open>Deletion of a remainder other than 0 of an occupied quotient.\<close>

lemma rsqf_delete_cases:
  fixes hash :: u64
  assumes ok: "rsqf_ok rf" and occ: "rf_oc rf (hash_quotient rf hash)" and nz: "hash_remainder rf hash \<noteq> 0"
  defines "q \<equiv> hash_quotient rf hash" and "v \<equiv> hash_remainder rf hash"
  shows "if rsqf_item rf hash \<in># rsqf_items rf then \<exists>rf'. rsqf_filter_delete rf hash = (RSQF_OK, rf') \<and> deleted rf q v rf'
    else rsqf_filter_delete rf hash = (RSQF_ERR_NOT_FOUND, rf)"
proof -
  note r = runs_of_ok(1) [OF ok]
  have ql: "q < rf_num_slots rf" using quotient_less [OF runs_of_ok(2) [OF r]] by (simp add: q_def)
  obtain rs e where e: "find_run rf q = Some (rs, e)" "rs \<le> e" "e < rf_num_slots rf" "rf_rn rf e" "cnt (rf_rn rf) e = cnt (rf_oc rf) q"
    "\<And>p. p < rf_num_slots rf \<Longrightarrow> cnt (rf_rn rf) p = cnt (rf_oc rf) q \<longleftrightarrow> rs \<le> p \<and> p \<le> e"
    using find_run_occ [OF r ql] occ unfolding q_def by metis
  have "rf_ph rf e" using runs_of_ok(4) [OF r] e(3,4) by (simp add: runs_base_def)
  then have "0 < cnt (rf_ph rf) (rf_num_slots rf)" using cnt_less [of "rf_ph rf" e "rf_num_slots rf"] e(3) by simp
  then have c0: "rf_count rf \<noteq> 0" using ok by (simp add: rsqf_ok_def)
  have iff: "rsqf_item rf hash \<in># rsqf_items rf \<longleftrightarrow> (\<exists>p. rs \<le> p \<and> p \<le> e \<and> rf_get rf p = v)"
  proof
    assume "rsqf_item rf hash \<in># rsqf_items rf"
    then show "\<exists>p. rs \<le> p \<and> p \<le> e \<and> rf_get rf p = v" using item_iff [OF ok] e(6) by (auto simp: q_def v_def)
  next
    assume "\<exists>p. rs \<le> p \<and> p \<le> e \<and> rf_get rf p = v"
    then obtain p where p: "rs \<le> p" "p \<le> e" "rf_get rf p = v" by blast
    then have "p < rf_num_slots rf" "cnt (rf_rn rf) p = cnt (rf_oc rf) q" using e(3,6) by auto
    moreover have "rf_ph rf p" using ok calculation(1) p(3) nz by (auto simp: rsqf_ok_def v_def)
    ultimately show "rsqf_item rf hash \<in># rsqf_items rf" using item_iff [OF ok] occ p(3) by (auto simp: q_def v_def)
  qed
  show ?thesis
  proof (cases "find (\<lambda>i. rf_get rf i = v) [rs..<Suc e]")
    case None
    then have "\<not> rsqf_item rf hash \<in># rsqf_items rf" unfolding iff by (auto simp: find_None_iff simp del: upt_Suc)
    moreover have "rsqf_filter_delete rf hash = (RSQF_ERR_NOT_FOUND, rf)"
      using None e(1) find_rem_eq [OF e(2,3), of v] c0 by (simp add: rsqf_filter_delete_def q_def [symmetric] v_def [symmetric] Let_def del: upt_Suc)
    ultimately show ?thesis by simp
  next
    case (Some d)
    then have d: "rs \<le> d" "d \<le> e" "rf_get rf d = v" by (auto simp: find_Some_iff simp del: upt_Suc)
    then have item: "rsqf_item rf hash \<in># rsqf_items rf" unfolding iff by blast
    have dl: "d < rf_num_slots rf" using d(2) e(3) by simp
    have "rf_ph rf d" using ok dl d(3) nz by (auto simp: rsqf_ok_def v_def)
    then have place: "del_place (rf_num_slots rf) (rf_oc rf) (rf_rn rf) (rf_ph rf) q d e"
      using d e dl occ by (simp add: del_place_def q_def [symmetric])
    define r where "r = del_slots rf q rs e d"
    have "rsqf_filter_delete rf hash = (RSQF_OK, update_offsets_from (r\<lparr>rf_count := rf_count r - 1\<rparr>) ((if q < rs then q else rs) div 64))"
      using Some e(1,2) find_rem_eq [OF e(2,3), of v] c0 unfolding r_def del_slots_def
      by (simp add: rsqf_filter_delete_def q_def [symmetric] v_def [symmetric] Let_def del: upt_Suc)
    then show ?thesis using delete_finish [OF ok place ql d(1)] e(6) item d(3) by (simp add: r_def)
  qed
qed

section \<open>Creation\<close>

lemma cnt_zeros: "x \<le> 64 * n \<Longrightarrow> cnt (tbit (replicate n 0)) x = 0"
  using cnt_none [of 0 x "tbit (replicate n 0)"] by simp

lemma empty_rsqf:
  assumes "rsqf_shape rf" "rf_occupieds rf = replicate (rf_num_blocks rf) 0" "rf_runends rf = replicate (rf_num_blocks rf) 0"
    "rf_phys_occ rf = replicate (rf_num_blocks rf) 0" "rf_occ_prefix rf = replicate (rf_num_blocks rf + 1) 0"
    "rf_run_prefix rf = replicate (rf_num_blocks rf + 1) 0" "rf_table rf = replicate w 0" "rf_count rf = 0"
  shows "rsqf_tight rf" "rsqf_items rf = {#}"
proof -
  let ?nb = "rf_num_blocks rf"
  have ns: "rf_num_slots rf = 64 * ?nb" using assms(1) by (simp add: rsqf_shape_def)
  have c: "cnt (rf_oc rf) x = 0" "cnt (rf_rn rf) x = 0" "cnt (rf_ph rf) x = 0" if "x \<le> 64 * ?nb" for x
    using cnt_zeros [OF that] assms(2-4) by simp_all
  have z: "\<not> rf_oc rf p" "\<not> rf_rn rf p" "\<not> rf_ph rf p" if "p < 64 * ?nb" for p using tbit_zeros [OF that] assms(2-4) by simp_all
  have "prefix_ok (replicate ?nb 0) (replicate (?nb + 1) 0)"
    using cnt_zeros [of _ ?nb] by (auto simp: prefix_ok_def simp del: replicate_Suc)
  then have "sums_ok rf" using assms(2,3,5,6) by (simp add: sums_ok_def)
  moreover have "off_ok rf b" if "b < ?nb" for b using c(1) [of "64 * Suc b"] that by (simp add: off_ok_def del: mult_Suc_right)
  moreover have t: "runs_tight (64 * ?nb) (rf_oc rf) (rf_rn rf) (rf_ph rf)"
    unfolding runs_tight_def runs_base_def using c z by (simp add: Suc_le_eq del: cnt.simps)
  moreover have "rf_get rf p = 0" if "p < rf_num_slots rf" for p
    using rem_get_zeros [of w p "rf_remainder_bits rf"] rsqf_fits [OF assms(1) that] assms(1,7) by (simp add: rf_get_def rsqf_shape_def)
  ultimately show "rsqf_tight rf"
    using assms(1,8) c(3) tight_ok [OF t] unfolding rsqf_tight_def rsqf_ok_def rsqf_runs_def ns by (simp add: runs_tight_def)
  have "size (rsqf_items rf) = 0" using c(3) ns by (simp add: rsqf_items_def size_run_items)
  then show "rsqf_items rf = {#}" by simp
qed

lemma rsqf_create_ok:
  fixes fp8 :: u8
  assumes cap: "0 < capacity" "capacity \<le> 2 ^ 58"
  shows "\<exists>rf. rsqf_filter_create capacity fp8 True = Some rf \<and> rsqf_tight rf \<and> rsqf_items rf = {#} \<and> capacity \<le> rf_num_slots rf"
proof -
  define fp0 where "fp0 = unat (if fp8 = 0 then 10 else fp8)"
  define fp1 where "fp1 = (if fp0 < 2 then 2 else fp0)"
  define fp where "fp = (if fp1 > 32 then 32 else fp1)"
  have fp: "2 \<le> fp" "fp \<le> 32" by (auto simp: fp_def fp1_def)
  have "capacity \<le> 2 ^ 62" using cap(2) by simp
  then obtain k where k: "unat (next_power_of_2 (word_of_nat capacity)) = 2 ^ k" "capacity \<le> 2 ^ k" "k = 0 \<or> 2 ^ (k - 1) < capacity"
    using next_power_of_2_ok [OF cap(1)] by blast
  have k58: "k \<le> 58"
  proof (rule ccontr)
    assume "\<not> k \<le> 58"
    then have "(2::nat) ^ 58 \<le> 2 ^ (k - 1)" by (intro power_increasing) auto
    then show False using k(3) cap(2) \<open>\<not> k \<le> 58\<close> by auto
  qed
  then have k2: "(2::nat) ^ k \<le> 2 ^ 58" by (intro power_increasing) auto
  define nb where "nb = sz_sub (sz_add (2 ^ k) 64) 1 div 64"
  define ns where "ns = sz_mul nb 64"
  have nb0: "nb = (2 ^ k + 63) div 64" using k2 sz_sub_small [of 1 "2 ^ k + 64"] by (simp add: nb_def sz_add_small)
  have nsp: "64 * nb = (if k < 6 then 64 else 2 ^ k)" "0 < nb"
  proof -
    have "64 * nb = (if k < 6 then 64 else 2 ^ k) \<and> 0 < nb"
    proof (cases "k < 6")
      case True
      then have "(2::nat) ^ k < 2 ^ 6" by (intro power_strict_increasing) auto
      moreover have "(0::nat) < 2 ^ k" by simp
      moreover have "(x + 63) div 64 = 1" if "0 < x" "x < 64" for x :: nat using that by (intro div_nat_eqI) auto
      ultimately have "nb = 1" unfolding nb0 by simp
      then show ?thesis using True by simp
    next
      case False
      then obtain j where "k = 6 + j" using le_Suc_ex [of 6 k] by auto
      then have "(2::nat) ^ k = 64 * 2 ^ j" by (simp add: power_add)
      then show ?thesis using False unfolding nb0 by simp
    qed
    then show "64 * nb = (if k < 6 then 64 else 2 ^ k)" "0 < nb" by simp_all
  qed
  have ns58: "64 * nb \<le> 2 ^ 58" using nsp(1) k2 by (simp split: if_splits)
  then have ns: "ns = 64 * nb" by (simp add: ns_def sz_mul_def)
  define w where "w = sz_add (sz_mul ns fp) 63 div 64"
  have "ns * fp \<le> 2 ^ 58 * 32" using ns58 fp ns by (intro mult_le_mono) simp_all
  then have lt: "64 * (nb * fp) < 2 ^ 63 + 1" by (simp add: ns ac_simps)
  then have "64 * (nb * fp) < 2 ^ 64" by (rule less_trans) simp
  then have "sz_mul ns fp = 64 * (nb * fp)" using sz_mul_small [of ns fp] by (simp add: ns mult.assoc)
  moreover have "sz_add (64 * (nb * fp)) 63 = 64 * (nb * fp) + 63" using lt by (intro sz_add_small) simp
  ultimately have w: "w = nb * fp" by (simp add: w_def)
  have pw: "slots_pow2 ns"
  proof (cases "k < 6")
    case True
    then have "ns = 2 ^ 6" using nsp(1) ns by simp
    then show ?thesis unfolding slots_pow2_def by blast
  next
    case False
    then have "ns = 2 ^ k" using nsp(1) ns by simp
    then show ?thesis unfolding slots_pow2_def by blast
  qed
  obtain rf where rf: "rsqf_filter_create capacity fp8 True = Some rf" "rf_num_slots rf = ns" "rf_num_blocks rf = nb" "rf_count rf = 0"
    "rf_remainder_bits rf = fp" "rf_remainder_mask rf = mask fp" "rf_occupieds rf = replicate nb 0" "rf_runends rf = replicate nb 0" "rf_phys_occ rf = replicate nb 0"
    "rf_occ_prefix rf = replicate (nb + 1) 0" "rf_run_prefix rf = replicate (nb + 1) 0" "rf_offsets rf = replicate nb 0" "rf_table rf = replicate w 0"
  proof -
    define rf where "rf = the (rsqf_filter_create capacity fp8 True)"
    have e: "rsqf_filter_create capacity fp8 True = Some rf" using cap(1) by (simp add: rf_def rsqf_filter_create_def Let_def)
    note e' = e [unfolded rsqf_filter_create_def Let_def k(1), folded fp0_def, folded fp1_def, folded fp_def nb_def, folded ns_def, folded w_def]
    show ?thesis by (rule that [OF e]) (use e' cap(1) in \<open>auto simp: mask_eq_exp_minus_1\<close>)
  qed
  have "rsqf_shape rf" using rf nsp(2) ns ns58 pw fp w by (simp add: rsqf_shape_def)
  then have "rsqf_tight rf" "rsqf_items rf = {#}" using empty_rsqf [of rf w] rf by simp_all
  moreover have "capacity \<le> rf_num_slots rf"
  proof -
    have "(2::nat) ^ k \<le> 64 * nb"
    proof (cases "k < 6")
      case True
      then have "(2::nat) ^ k \<le> 2 ^ 6" by (intro power_increasing) auto
      then show ?thesis using nsp(1) True by simp
    qed (use nsp(1) in simp)
    then show ?thesis using k(2) rf(2) ns by simp
  qed
  ultimately show ?thesis using rf(1) by blast
qed

section \<open>The interface\<close>

definition rsqf_add :: "rsqf_filter \<Rightarrow> u64 \<Rightarrow> rsqf_filter option" where
  "rsqf_add rf hash = (case rsqf_filter_insert rf hash of (e, rf') \<Rightarrow> if e = RSQF_OK then Some rf' else None)"

lemma item_cong:
  "rf_num_slots rf' = rf_num_slots rf \<Longrightarrow> rf_remainder_bits rf' = rf_remainder_bits rf \<Longrightarrow> rf_remainder_mask rf' = rf_remainder_mask rf \<Longrightarrow>
    rsqf_item rf' = rsqf_item rf"
  by (simp add: rsqf_item_def hash_quotient_def hash_remainder_def fun_eq_iff)

lemma inserted_item: "inserted rf (hash_quotient rf hash) (hash_remainder rf hash) rf' \<Longrightarrow>
    rsqf_tight rf' \<and> rsqf_items rf' = add_mset (rsqf_item rf hash) (rsqf_items rf) \<and> rsqf_item rf' = rsqf_item rf"
  using item_cong [of rf' rf] by (simp add: inserted_def rsqf_item_def)

interpretation rsqf: recording_filter rsqf_tight rsqf_items rsqf_item rsqf_add rsqf_filter_lookup
proof
  show "rsqf_filter_lookup rf hash" if "rsqf_tight rf" "rsqf_item rf hash \<in># rsqf_items rf" for rf hash
    using lookup_complete that by (simp add: rsqf_tight_def)
  show "rsqf_tight rf' \<and> rsqf_items rf' = add_mset (rsqf_item rf hash) (rsqf_items rf) \<and> rsqf_item rf' = rsqf_item rf"
    if "rsqf_tight rf" "rsqf_add rf hash = Some rf'" for rf hash rf'
    using rsqf_insert_cases [OF that(1), of hash] that(2) inserted_item [of rf hash rf'] by (auto simp: rsqf_add_def split: if_splits)
qed

text \<open>A small filter for the witnesses: one block, remainders of eight bits, and what it holds after insertions.\<close>

lemma ex_rsqf: "\<exists>rf. rsqf_filter_create 64 8 True = Some rf \<and> rsqf_tight rf \<and> rsqf_items rf = {#} \<and> 64 \<le> rf_num_slots rf"
  using rsqf_create_ok [of 64 8] by simp

lemma empty_has_room:
  assumes "rsqf_tight rf" "rsqf_items rf = {#}"
  shows "has_room rf (hash_quotient rf hash)" "rsqf_add rf hash \<noteq> None"
proof -
  have sh: "rsqf_shape rf" "cnt (rf_ph rf) (rf_num_slots rf) = 0"
    using assms count_items [of rf] by (auto simp: rsqf_tight_def rsqf_ok_def rsqf_runs_def)
  note q = quotient_less [OF sh(1), of hash]
  have "\<not> rf_ph rf (hash_quotient rf hash)" using cnt_less [of "rf_ph rf" "hash_quotient rf hash" "rf_num_slots rf"] q sh(2) by auto
  then show r: "has_room rf (hash_quotient rf hash)" using q by (auto simp: has_room_def)
  then show "rsqf_add rf hash \<noteq> None" using rsqf_insert_cases [OF assms(1), of hash] by (auto simp: rsqf_add_def)
qed

section \<open>Properties\<close>

text \<open>
  C28. Insertion. In a filter without deletions \<open>rsqf_filter_insert\<close> adds exactly the item of the hash exactly when a slot
  from its quotient to the last slot is free, whatever cluster has to be shifted, and the hash is then found;
  otherwise it reports \<open>RSQF_ERR_FULL\<close> and the filter is unchanged. (A cluster never wraps around the end of the
  table: the filter can be full for a quotient while most slots are free.)
\<close>

theorem rsqf_insert_correct:
  assumes "rsqf_tight rf"
  shows "if \<exists>n. hash_quotient rf hash \<le> n \<and> n < rsqf_filter_capacity rf \<and> slot_is_free rf n
    then \<exists>rf'. rsqf_filter_insert rf hash = (RSQF_OK, rf') \<and> rsqf_tight rf' \<and>
      rsqf_items rf' = add_mset (rsqf_item rf hash) (rsqf_items rf) \<and> rsqf_filter_count rf' = rsqf_filter_count rf + 1 \<and> rsqf_filter_lookup rf' hash
    else rsqf_filter_insert rf hash = (RSQF_ERR_FULL, rf)"
proof -
  have room: "has_room rf (hash_quotient rf hash) \<longleftrightarrow> (\<exists>n. hash_quotient rf hash \<le> n \<and> n < rsqf_filter_capacity rf \<and> slot_is_free rf n)"
    by (simp add: has_room_def rsqf_filter_capacity_def slot_is_free_def)
  have "rsqf_tight rf' \<and> rsqf_items rf' = add_mset (rsqf_item rf hash) (rsqf_items rf) \<and> rsqf_filter_count rf' = rsqf_filter_count rf + 1 \<and> rsqf_filter_lookup rf' hash"
    if "inserted rf (hash_quotient rf hash) (hash_remainder rf hash) rf'" for rf'
    using inserted_item [OF that] rsqf.recorded_found [of rf' hash] count_items [of rf] count_items [of rf'] assms
    by (simp add: rsqf_filter_count_def rsqf_tight_def)
  then show ?thesis using rsqf_insert_cases [OF assms, of hash] room by (auto split: if_splits)
qed

theorem rsqf_insert_correct_witness:
  "\<exists>rf. rsqf_filter_create 64 8 True = Some rf \<and> rsqf_tight rf \<and>
    (if \<exists>n. hash_quotient rf 0x501 \<le> n \<and> n < rsqf_filter_capacity rf \<and> slot_is_free rf n
     then \<exists>rf'. rsqf_filter_insert rf 0x501 = (RSQF_OK, rf') \<and> rsqf_tight rf' \<and>
       rsqf_items rf' = add_mset (rsqf_item rf 0x501) (rsqf_items rf) \<and> rsqf_filter_count rf' = rsqf_filter_count rf + 1 \<and> rsqf_filter_lookup rf' 0x501
     else rsqf_filter_insert rf 0x501 = (RSQF_ERR_FULL, rf))"
proof -
  obtain rf where rf: "rsqf_filter_create 64 8 True = Some rf" "rsqf_tight rf" using ex_rsqf by blast
  show ?thesis by (intro exI [of _ rf] conjI rf rsqf_insert_correct)
qed

text \<open>
  C29. Deletion. Take a filter that satisfies the invariant and a hash with a remainder other than 0 whose quotient has
  a run, or has none and its slot is not the runend of another run. Then \<open>rsqf_filter_delete\<close> removes exactly one
  copy of the item of the hash, if there is one, keeps the invariant and
  every other item can still be found; otherwise it reports \<open>RSQF_ERR_NOT_FOUND\<close> and the filter is unchanged.
  Outside these conditions it does not: a quotient without a run whose slot is a runend is taken for the run that
  ends there, and an item of that run may be deleted (the theory on the gap left by a deletion has such a history);
  a remainder of 0 may match a slot that is not in use.
\<close>

theorem rsqf_delete_correct:
  assumes "rsqf_ok rf" "hash_remainder rf hash \<noteq> 0"
    and "test_bit_at (rf_occupieds rf) (hash_quotient rf hash) \<or> \<not> test_bit_at (rf_runends rf) (hash_quotient rf hash)"
  shows "if rsqf_item rf hash \<in># rsqf_items rf
    then \<exists>rf'. rsqf_filter_delete rf hash = (RSQF_OK, rf') \<and> rsqf_ok rf' \<and>
      rsqf_items rf = add_mset (rsqf_item rf hash) (rsqf_items rf') \<and>
      (\<forall>h. rsqf_item rf h \<in># rsqf_items rf' \<longrightarrow> rsqf_filter_lookup rf' h)
    else rsqf_filter_delete rf hash = (RSQF_ERR_NOT_FOUND, rf)"
proof (cases "test_bit_at (rf_occupieds rf) (hash_quotient rf hash)")
  case True
  have "rsqf_ok rf' \<and> rsqf_items rf = add_mset (rsqf_item rf hash) (rsqf_items rf') \<and> (\<forall>h. rsqf_item rf h \<in># rsqf_items rf' \<longrightarrow> rsqf_filter_lookup rf' h)"
    if "deleted rf (hash_quotient rf hash) (hash_remainder rf hash) rf'" for rf'
    using that item_cong [of rf' rf] lookup_complete [of rf'] by (auto simp: deleted_def rsqf_item_def)
  then show ?thesis using rsqf_delete_cases [OF assms(1) _ assms(2)] True by (auto split: if_splits)
next
  case False
  then have "find_run rf (hash_quotient rf hash) = None" using assms(3) by (simp add: find_run_def)
  then have "rsqf_filter_delete rf hash = (RSQF_ERR_NOT_FOUND, rf)" by (simp add: rsqf_filter_delete_def)
  then show ?thesis using item_iff [OF assms(1), of hash] False by simp
qed

theorem rsqf_delete_correct_witness:
  "\<exists>rf0 rf. rsqf_ok rf0 \<and> rsqf_filter_delete rf0 0x501 = (RSQF_ERR_NOT_FOUND, rf0) \<and>
    rsqf_ok rf \<and> rsqf_item rf 0x501 \<in># rsqf_items rf \<and>
    (\<exists>rf'. rsqf_filter_delete rf 0x501 = (RSQF_OK, rf') \<and> rsqf_ok rf' \<and> rsqf_items rf' = {#})"
proof -
  obtain rf0 where rf0: "rsqf_tight rf0" "rsqf_items rf0 = {#}" using ex_rsqf by blast
  obtain rf where rf: "rsqf_add rf0 0x501 = Some rf" using empty_has_room(2) [OF rf0, of "0x501"] by blast
  note r = rsqf.add_records [OF rf0(1) rf]
  have ok: "rsqf_ok rf0" "rsqf_ok rf" using rf0(1) r by (simp_all add: rsqf_tight_def)
  have nz: "hash_remainder rf1 0x501 \<noteq> 0" if "rsqf_ok rf1" for rf1
  proof -
    have "rf_remainder_mask rf1 = mask (rf_remainder_bits rf1)" "2 \<le> rf_remainder_bits rf1"
      using that by (simp_all add: rsqf_ok_def rsqf_runs_def rsqf_shape_def)
    then have "bit (hash_remainder rf1 0x501) 0" by (simp add: hash_remainder_def bit_simps)
    then show ?thesis by auto
  qed
  have it: "rsqf_item rf 0x501 \<in># rsqf_items rf" "rsqf_items rf = {#rsqf_item rf 0x501#}" using r rf0(2) by simp_all
  have occ: "test_bit_at (rf_occupieds rf) (hash_quotient rf 0x501)" using item_iff [OF ok(2), of "0x501"] it by simp
  have q: "hash_quotient rf0 0x501 < rf_num_slots rf0" using quotient_less [OF runs_of_ok(2) [OF runs_of_ok(1) [OF ok(1)]]] .
  have "cnt (rf_ph rf0) (rf_num_slots rf0) = 0" using ok(1) count_items [OF ok(1)] rf0(2) by (simp add: rsqf_ok_def)
  then have "\<not> rf_ph rf0 (hash_quotient rf0 0x501)" using cnt_less [of "rf_ph rf0" "hash_quotient rf0 0x501" "rf_num_slots rf0"] q by auto
  then have free: "\<not> test_bit_at (rf_runends rf0) (hash_quotient rf0 0x501)"
    using runs_of_ok(4) [OF runs_of_ok(1) [OF ok(1)]] q by (auto simp: runs_base_def)
  have "rsqf_filter_delete rf0 0x501 = (RSQF_ERR_NOT_FOUND, rf0)"
    using rsqf_delete_correct [OF ok(1) nz [OF ok(1)]] free rf0(2) by simp
  moreover obtain rf' where "rsqf_filter_delete rf 0x501 = (RSQF_OK, rf')" "rsqf_ok rf'" "rsqf_items rf = add_mset (rsqf_item rf 0x501) (rsqf_items rf')"
    using rsqf_delete_correct [OF ok(2) nz [OF ok(2)]] occ it(1) by auto
  moreover from this have "rsqf_items rf' = {#}" using it(2) by simp
  ultimately show ?thesis using ok it(1) by blast
qed

text \<open>
  C30. Offset-guided select. For every occupied quotient the routine that starts from the offset of the
  block and scans word by word for the remaining runends returns, and gives the same slot as
  the binary search over the prefix sums for the rank of the quotient.
\<close>

theorem rank_select_eq:
  assumes "rsqf_ok rf" "q < rsqf_filter_capacity rf" "test_bit_at (rf_occupieds rf) q"
  shows "rank_select rf q = select_run rf (rank_occ rf q)"
proof -
  note r = runs_of_ok(1) [OF assms(1)]
  have q: "q < rf_num_slots rf" "rf_oc rf q" using assms(2,3) by (simp_all add: rsqf_filter_capacity_def)
  obtain e where e: "e < rf_num_slots rf" "rf_rn rf e" "cnt (rf_rn rf) e = cnt (rf_oc rf) q" using runend_exists [OF runs_of_ok(4) [OF r] q] by blast
  have "select_run rf (rank_occ rf q) = e"
    using select_run_eq [OF runs_of_ok(2,3) [OF r] e] rank_occ_cnt [OF runs_of_ok(2,3) [OF r] q(1)] q(2) by simp
  then show ?thesis using rank_select_end [OF r q e] by simp
qed

theorem rank_select_eq_witness:
  "\<exists>rf. rsqf_ok rf \<and> hash_quotient rf 0x501 < rsqf_filter_capacity rf \<and> test_bit_at (rf_occupieds rf) (hash_quotient rf 0x501) \<and>
    rank_select rf (hash_quotient rf 0x501) = select_run rf (rank_occ rf (hash_quotient rf 0x501))"
proof -
  obtain rf0 where rf0: "rsqf_tight rf0" "rsqf_items rf0 = {#}" using ex_rsqf by blast
  obtain rf where rf: "rsqf_add rf0 0x501 = Some rf" using empty_has_room(2) [OF rf0, of "0x501"] by blast
  note r = rsqf.add_records [OF rf0(1) rf]
  have ok: "rsqf_ok rf" using r by (simp add: rsqf_tight_def)
  have occ: "test_bit_at (rf_occupieds rf) (hash_quotient rf 0x501)" using item_iff [OF ok, of "0x501"] r by simp
  have q: "hash_quotient rf 0x501 < rsqf_filter_capacity rf" using quotient_less [OF runs_of_ok(2) [OF runs_of_ok(1) [OF ok]]] by (simp add: rsqf_filter_capacity_def)
  show ?thesis by (intro exI [of _ rf] conjI ok q occ rank_select_eq [OF ok q occ])
qed

text \<open>
  C31. From creation on. A filter created for up to \<open>2 ^ 58\<close> items that has taken a sequence of insertions counts
  them and finds every one of them.
\<close>

theorem rsqf_no_false_negatives:
  assumes "0 < capacity" "capacity \<le> 2 ^ 58" "rsqf_filter_create capacity fp_bits True = Some rf" "add_all rsqf_add rf hashes = Some rf'"
  shows "capacity \<le> rsqf_filter_capacity rf' \<and> rsqf_filter_count rf' = length hashes \<and> (\<forall>hash \<in> set hashes. rsqf_filter_lookup rf' hash)"
proof -
  have rf: "rsqf_tight rf" "rsqf_items rf = {#}" "capacity \<le> rf_num_slots rf" using rsqf_create_ok [OF assms(1,2), of fp_bits] assms(3) by auto
  have ns: "rf_num_slots t' = rf_num_slots t" if "rsqf_tight t" "add_all rsqf_add t ks = Some t'" for t t' ks
    using that
  proof (induction ks arbitrary: t)
    case (Cons k ks)
    then obtain u where u: "rsqf_add t k = Some u" "add_all rsqf_add u ks = Some t'" by (auto split: bind_splits)
    have "rf_num_slots u = rf_num_slots t" "rsqf_tight u"
      using rsqf_insert_cases [OF Cons.prems(1), of k] u(1) by (auto simp: rsqf_add_def inserted_def split: if_splits)
    then show ?case using Cons.IH [OF _ u(2)] by simp
  qed simp
  note r = rsqf.add_all_records [OF rf(1) assms(4)]
  have "rsqf_filter_count rf' = length hashes"
    using r rf(2) count_items [of rf'] by (simp add: rsqf_tight_def rsqf_filter_count_def)
  then show ?thesis using rsqf.added_found [OF rf(1) assms(4)] ns [OF rf(1) assms(4)] rf(3) by (simp add: rsqf_filter_capacity_def)
qed

theorem rsqf_no_false_negatives_witness:
  "\<exists>rf rf'. rsqf_filter_create 64 8 True = Some rf \<and> add_all rsqf_add rf [0x501] = Some rf' \<and>
    64 \<le> rsqf_filter_capacity rf' \<and> rsqf_filter_count rf' = length [0x501 :: u64] \<and> (\<forall>hash \<in> set [0x501]. rsqf_filter_lookup rf' hash)"
proof -
  obtain rf where rf: "rsqf_filter_create 64 8 True = Some rf" "rsqf_tight rf" "rsqf_items rf = {#}" using ex_rsqf by blast
  obtain rf' where a: "rsqf_add rf 0x501 = Some rf'" using empty_has_room(2) [OF rf(2,3), of "0x501"] by blast
  have h: "(0::nat) < 64" "(64::nat) \<le> 2 ^ 58" "add_all rsqf_add rf [0x501] = Some rf'" using a by simp_all
  show ?thesis using rsqf_no_false_negatives [OF h(1,2) rf(1) h(3)] rf(1) h(3) by blast
qed

end
