(* ===== verification/Rsqf_Gap.thy ===== *)
theory Rsqf_Gap
  imports Rsqf_Spec
begin

text \<open>
  Insertion after a deletion. A deletion leaves a free slot behind its run even when later runs have been
  pushed past their quotients; an insertion of a quotient with that slot then takes a runend out of order, and
  the runs behind it change their owners. A history of six calls that loses an item. And the deletion of a
  hash that was never inserted, whose quotient has no run while its slot ends the run of another quotient: it
  takes an item out of that run.
\<close>

unbundle bit_operations_syntax

section \<open>Concrete views\<close>

text \<open>A filter of one block with remainders of eight bits, its state given by finite sets and a function.\<close>

definition view :: "rsqf_filter \<Rightarrow> nat set \<Rightarrow> nat set \<Rightarrow> nat set \<Rightarrow> (nat \<Rightarrow> u64) \<Rightarrow> bool" where
  "view rf Os Rs Ps V \<longleftrightarrow> rf_num_slots rf = 64 \<and> rf_remainder_bits rf = 8 \<and> rf_remainder_mask rf = 255 \<and>
     (\<forall>p < 64. (rf_oc rf p \<longleftrightarrow> p \<in> Os) \<and> (rf_rn rf p \<longleftrightarrow> p \<in> Rs) \<and> (rf_ph rf p \<longleftrightarrow> p \<in> Ps) \<and> rf_get rf p = V p)"

lemma view_cnt:
  assumes "view rf Os Rs Ps V" "x \<le> 64"
  shows "cnt (rf_oc rf) x = cnt (\<lambda>p. p \<in> Os) x" "cnt (rf_rn rf) x = cnt (\<lambda>p. p \<in> Rs) x" "cnt (rf_ph rf) x = cnt (\<lambda>p. p \<in> Ps) x"
  using assms by (auto simp: view_def intro!: cnt_cong)

lemma view_hash:
  assumes "view rf Os Rs Ps V"
  shows "hash_quotient rf hash = unat (drop_bit 8 hash AND 63)" "hash_remainder rf hash = hash AND 255"
proof -
  have "sz_sub 64 1 = 63" by (subst sz_sub_small) simp_all
  then show "hash_quotient rf hash = unat (drop_bit 8 hash AND 63)" using assms by (simp add: hash_quotient_def view_def)
  show "hash_remainder rf hash = hash AND 255" using assms by (simp add: hash_remainder_def view_def)
qed

text \<open>The place of an insertion is unique.\<close>

lemma ins_place_unique:
  assumes "ins_place ns Oc Rn Ph q s n" "ins_place ns Oc Rn Ph q s' n'"
  shows "s = s'" "n = n'"
proof -
  have one: "\<not> t < t'" if "cnt Rn t = cnt Rn t'" "q \<le> t" "q < t' \<longrightarrow> Rn (t' - 1)" for t t'
  proof
    assume "t < t'"
    then have "cnt Rn t \<le> cnt Rn (t' - 1)" "cnt Rn (t' - 1) < cnt Rn t'" using that(2,3) by (auto intro!: cnt_mono cnt_less)
    then show False using that(1) by simp
  qed
  have "\<not> s < s'" "\<not> s' < s" using assms one [of s s'] one [of s' s] by (auto simp: ins_place_def simp del: cnt.simps)
  then show "s = s'" by simp
  have "\<not> n < n'" "\<not> n' < n" using assms by (auto simp: ins_place_def simp del: cnt.simps)
  then show "n = n'" by simp
qed

lemma view_insert:
  assumes t: "rsqf_tight rf" and v: "view rf Os Rs Ps V" and h: "unat (drop_bit 8 hash AND 63) = q" "hash AND 255 = r"
    and pl: "q \<le> s" "s \<le> n" "n < 64" "n \<notin> Ps" "\<forall>p. q \<le> p \<and> p < n \<longrightarrow> p \<in> Ps"
      "cnt (\<lambda>p. p \<in> Rs) s = cnt (\<lambda>p. p \<in> Os) (Suc q)" "q \<in> Os \<longrightarrow> q < s" "q < s \<longrightarrow> s - 1 \<in> Rs"
    and R': "\<forall>p < 64. p \<in> Rs' \<longleftrightarrow> ins_runs (q \<in> Os) s n (\<lambda>p. p \<in> Rs) p"
  shows "\<exists>rf'. rsqf_filter_insert rf hash = (RSQF_OK, rf') \<and> rsqf_tight rf' \<and> view rf' (insert q Os) Rs' (insert n Ps) (ins_vals s n r V)"
proof -
  have hq: "hash_quotient rf hash = q" "hash_remainder rf hash = r" using view_hash [OF v] h by simp_all
  have vw: "rf_num_slots rf = 64" "\<And>p. p < 64 \<Longrightarrow> (rf_oc rf p \<longleftrightarrow> p \<in> Os) \<and> (rf_rn rf p \<longleftrightarrow> p \<in> Rs) \<and> (rf_ph rf p \<longleftrightarrow> p \<in> Ps) \<and> rf_get rf p = V p"
    using v by (simp_all add: view_def)
  have place: "ins_place 64 (rf_oc rf) (rf_rn rf) (rf_ph rf) q s n"
  proof -
    have "cnt (rf_rn rf) s = cnt (rf_oc rf) (Suc q)" using view_cnt [OF v] pl by (simp del: cnt.simps)
    then show ?thesis using pl vw(2) by (simp add: ins_place_def del: cnt.simps)
  qed
  have "has_room rf q" using pl vw by (auto simp: has_room_def)
  then obtain rf' where rf': "rsqf_filter_insert rf hash = (RSQF_OK, rf')" "inserted rf q r rf'"
    using rsqf_insert_cases [OF t, of hash] hq by auto
  then obtain s' n' where sn: "ins_place 64 (rf_oc rf) (rf_rn rf) (rf_ph rf) q s' n'"
    and eff: "\<forall>p < 64. rf_oc rf' p = ((rf_oc rf)(q := True)) p \<and> rf_rn rf' p = ins_runs (rf_oc rf q) s' n' (rf_rn rf) p \<and>
      rf_ph rf' p = ((rf_ph rf)(n' := True)) p \<and> rf_get rf' p = ins_vals s' n' r (rf_get rf) p"
    by (auto simp: inserted_def vw(1))
  have e: "s' = s" "n' = n" using ins_place_unique [OF sn place] by simp_all
  have "view rf' (insert q Os) Rs' (insert n Ps) (ins_vals s n r V)"
    unfolding view_def
  proof (intro conjI allI impI)
    show "rf_num_slots rf' = 64" "rf_remainder_bits rf' = 8" "rf_remainder_mask rf' = 255" using rf'(2) v by (simp_all add: inserted_def view_def)
    fix p :: nat
    assume p: "p < 64"
    note ep = eff [rule_format, OF p, unfolded e]
    show "rf_oc rf' p \<longleftrightarrow> p \<in> insert q Os" "rf_ph rf' p \<longleftrightarrow> p \<in> insert n Ps" using ep vw(2) [OF p] by auto
    show "rf_rn rf' p \<longleftrightarrow> p \<in> Rs'" using ep vw(2) [OF p] vw(2) [of "p - 1"] vw(2) [of q] R' p pl by (simp add: ins_runs_def)
    show "rf_get rf' p = ins_vals s n r V p" using ep vw(2) [OF p] vw(2) [of "p - 1"] p by (simp add: ins_vals_def)
  qed
  then show ?thesis using rf' by (auto simp: inserted_def)
qed

lemma view_delete:
  assumes ok: "rsqf_ok rf" and v: "view rf Os Rs Ps V" and h: "unat (drop_bit 8 hash AND 63) = q" "hash AND 255 = r"
    and q: "q \<in> Os" "q < 64" "r \<noteq> 0" and e: "e < 64" "e \<in> Rs" "cnt (\<lambda>p. p \<in> Rs) e = cnt (\<lambda>p. p \<in> Os) q"
    and d: "d < 64" "d \<in> Ps" "V d = r" "cnt (\<lambda>p. p \<in> Rs) d = cnt (\<lambda>p. p \<in> Os) q" "\<forall>p < 64. V p = r \<longrightarrow> p = d"
    and shrinks: "0 < e" "e - 1 \<in> Ps" "e - 1 \<notin> Rs"
  shows "\<exists>rf'. rsqf_filter_delete rf hash = (RSQF_OK, rf') \<and> rsqf_ok rf' \<and> view rf' Os (insert (e - 1) (Rs - {e})) (Ps - {e}) (del_vals d e 0 V)"
proof -
  have hq: "hash_quotient rf hash = q" "hash_remainder rf hash = r" using view_hash [OF v] h by simp_all
  have vw: "rf_num_slots rf = 64" "\<And>p. p < 64 \<Longrightarrow> (rf_oc rf p \<longleftrightarrow> p \<in> Os) \<and> (rf_rn rf p \<longleftrightarrow> p \<in> Rs) \<and> (rf_ph rf p \<longleftrightarrow> p \<in> Ps) \<and> rf_get rf p = V p"
    using v by (simp_all add: view_def)
  have c: "cnt (rf_rn rf) e = cnt (rf_oc rf) q" "cnt (rf_rn rf) d = cnt (rf_oc rf) q" using view_cnt [OF v] e d(1,4) q(2) by simp_all
  have "rf_ph rf d \<and> cnt (rf_rn rf) d = cnt (rf_oc rf) q \<and> rf_get rf d = r" using vw(2) [OF d(1)] d(2,3) c(2) by blast
  then have "rsqf_item rf hash \<in># rsqf_items rf"
    unfolding item_iff [OF ok] hq vw(1) using vw(2) [OF q(2)] q(1) d(1) by blast
  then obtain rf' where rf': "rsqf_filter_delete rf hash = (RSQF_OK, rf')" "deleted rf q r rf'"
    using rsqf_delete_cases [OF ok, of hash] hq q vw(2) [OF q(2)] by auto
  then obtain d' e' where de: "del_place 64 (rf_oc rf) (rf_rn rf) (rf_ph rf) q d' e'" "rf_get rf d' = r"
    and eff: "\<forall>p < 64. rf_oc rf' p = del_occ (rf_oc rf) (rf_rn rf) (rf_ph rf) q e' p \<and> rf_rn rf' p = del_runs (rf_rn rf) (rf_ph rf) e' p \<and>
      rf_ph rf' p = ((rf_ph rf)(e' := False)) p \<and> rf_get rf' p = del_vals d' e' 0 (rf_get rf) p"
    by (auto simp: deleted_def vw(1))
  have pl: "e' < 64" "d' \<le> e'" "rf_rn rf e'" "cnt (rf_rn rf) e' = cnt (rf_oc rf) q" using de(1) by (simp_all add: del_place_def)
  have ee: "e' = e" using cnt_inj [of "rf_rn rf" e' e] pl e vw(2) [OF e(1)] c(1) by simp
  have dd: "d' = d" using d(5) de(2) vw(2) [of d'] pl by simp
  have sh: "run_shrinks (rf_rn rf) (rf_ph rf) e" using shrinks vw(2) [of "e - 1"] e(1) by (simp add: run_shrinks_def)
  have "view rf' Os (insert (e - 1) (Rs - {e})) (Ps - {e}) (del_vals d e 0 V)"
    unfolding view_def
  proof (intro conjI allI impI)
    show "rf_num_slots rf' = 64" "rf_remainder_bits rf' = 8" "rf_remainder_mask rf' = 255" using rf'(2) v by (simp_all add: deleted_def view_def)
    fix p :: nat
    assume p: "p < 64"
    note ep = eff [rule_format, OF p, unfolded ee dd]
    show "rf_oc rf' p \<longleftrightarrow> p \<in> Os" "rf_ph rf' p \<longleftrightarrow> p \<in> Ps - {e}" using ep vw(2) [OF p] sh by (auto simp: del_occ_def)
    show "rf_rn rf' p \<longleftrightarrow> p \<in> insert (e - 1) (Rs - {e})" using ep vw(2) [OF p] sh shrinks(1) by (auto simp: del_runs_def)
    show "rf_get rf' p = del_vals d e 0 V p" using ep vw(2) [OF p] vw(2) [of "Suc p"] p e(1) by (auto simp: del_vals_def)
  qed
  then show ?thesis using rf' by (auto simp: deleted_def)
qed

text \<open>Insertion of a quotient without a run whose slot is free, without the assumption of tight runs.\<close>

lemma view_insert_free:
  assumes ok: "rsqf_ok rf" and v: "view rf Os Rs Ps V" and h: "unat (drop_bit 8 hash AND 63) = q" "hash AND 255 = r"
    and q: "q < 64" "q \<notin> Os" "q \<notin> Rs" "q \<notin> Ps"
    and base: "\<forall>p < 64. p \<in> insert q Ps \<longrightarrow> cnt (\<lambda>p. p \<in> insert q Rs) p < cnt (\<lambda>p. p \<in> insert q Os) (Suc p)"
    and chain: "\<forall>p < 64. p \<in> insert q Ps \<and> p \<notin> insert q Rs \<longrightarrow> Suc p < 64 \<and> Suc p \<in> insert q Ps"
  shows "\<exists>rf'. rsqf_filter_insert rf hash = (RSQF_OK, rf') \<and> rsqf_ok rf' \<and> view rf' (insert q Os) (insert q Rs) (insert q Ps) (V(q := r))"
proof -
  have hq: "hash_quotient rf hash = q" "hash_remainder rf hash = r" using view_hash [OF v] h by simp_all
  have vw: "rf_num_slots rf = 64" "\<And>p. p < 64 \<Longrightarrow> (rf_oc rf p \<longleftrightarrow> p \<in> Os) \<and> (rf_rn rf p \<longleftrightarrow> p \<in> Rs) \<and> (rf_ph rf p \<longleftrightarrow> p \<in> Ps) \<and> rf_get rf p = V p"
    using v by (simp_all add: view_def)
  have sh: "rsqf_shape rf" "sums_ok rf" "\<forall>b < rf_num_blocks rf. off_ok rf b" using ok by (simp_all add: rsqf_ok_def rsqf_runs_def)
  have nb: "rf_num_blocks rf = 1" using sh(1) vw(1) by (simp add: rsqf_shape_def)
  have free: "\<not> rf_ph rf q" using vw(2) [OF q(1)] q(4) by simp
  have "cnt (rf_ph rf) 64 + 1 = cnt ((rf_ph rf)(q := True)) 64" using free q(1) by (simp add: cnt_set)
  then have less: "rf_count rf < 64" using cnt_le [of "(rf_ph rf)(q := True)" 64] ok vw(1) by (simp add: rsqf_ok_def)
  define r1 where "r1 = set_run (set_occ (track_phys_occ (rf_put rf q r) q) q) q"
  define rf' where "rf' = update_offsets_from (r1\<lparr>rf_count := rf_count r1 + 1\<rparr>) 0"
  have s1: "rsqf_shape r1" "same_meta rf r1" "rf_oc r1 = (rf_oc rf)(q := True)" "rf_rn r1 = (rf_rn rf)(q := True)" "rf_ph r1 = (rf_ph rf)(q := True)"
    using sh(1) q(1) vw(1) by (simp_all add: r1_def rf_view)
  have fb: "0 < rf_num_blocks rf" using nb by simp
  note u = refresh_ok [OF sh s1(1,2) fb, of "rf_count r1 + 1", folded rf'_def, simplified]
  have ins: "rsqf_filter_insert rf hash = (RSQF_OK, rf')"
  proof -
    have "q div 64 = 0" using q(1) by simp
    moreover have "\<not> rf_oc rf q" "\<not> rf_rn rf q" using vw(2) [OF q(1)] q by simp_all
    ultimately show ?thesis using less vw(1) free
      by (simp add: rsqf_filter_insert_def hq find_run_def insert_new_run_def slot_is_free_def finish_insert_def rf'_def r1_def)
  qed
  have g: "rf_get rf' p = (V(q := r)) p" if "p < 64" for p
  proof -
    have "r AND rf_remainder_mask rf = r" using h(2) v by (auto simp: view_def and.assoc)
    then show ?thesis using u(7) rf_get_put [OF sh(1), of q p r] vw that q(1) by (auto simp: r1_def rf_view)
  qed
  have vf: "view rf' (insert q Os) (insert q Rs) (insert q Ps) (V(q := r))"
    unfolding view_def using u(4-6,9-11) s1(3-5) vw g v by (auto simp: view_def)
  note cv = view_cnt [OF vf]
  have rbase: "runs_base 64 (rf_oc rf') (rf_rn rf') (rf_ph rf')"
    unfolding runs_base_def
  proof (intro conjI allI impI)
    have "runs_base 64 (rf_oc rf) (rf_rn rf) (rf_ph rf)" using ok vw(1) by (simp add: rsqf_ok_def rsqf_runs_def)
    then show "cnt (rf_oc rf') 64 = cnt (rf_rn rf') 64" using u(4,5) s1(3,4) vw(2) [OF q(1)] q by (simp add: runs_base_def cnt_set)
    show "rf_ph rf' p" if "p < 64" "rf_rn rf' p" for p using that u(5,6) s1(4,5) ok vw(1) by (auto simp: rsqf_ok_def rsqf_runs_def runs_base_def split: if_splits)
    show "cnt (rf_rn rf') p < cnt (rf_oc rf') (Suc p)" if "p < 64" "rf_ph rf' p" for p
      using base [rule_format, OF that(1)] that vf cv(1) [of "Suc p"] cv(2) [of p] by (simp add: view_def del: cnt.simps)
  qed
  moreover have "\<forall>p < 64. rf_ph rf' p \<and> \<not> rf_rn rf' p \<longrightarrow> Suc p < 64 \<and> rf_ph rf' (Suc p)"
  proof (intro allI impI)
    fix p :: nat
    assume p: "p < 64" "rf_ph rf' p \<and> \<not> rf_rn rf' p"
    have vp: "rf_ph rf' x \<longleftrightarrow> x \<in> insert q Ps" "rf_rn rf' x \<longleftrightarrow> x \<in> insert q Rs" if "x < 64" for x using vf that unfolding view_def by blast+
    have "Suc p < 64 \<and> Suc p \<in> insert q Ps" using chain p vp [OF p(1)] by blast
    then show "Suc p < 64 \<and> rf_ph rf' (Suc p)" using vp(1) [of "Suc p"] by blast
  qed
  moreover have "rf_get rf' p = 0" if "p < 64" "\<not> rf_ph rf' p" for p
    using that vf vw(2) [OF that(1)] ok vw(1) by (auto simp: view_def rsqf_ok_def)
  moreover have "rf_count rf' = cnt (rf_ph rf') 64" using u(6,8) s1(2,5) free q(1) ok vw(1) by (simp add: cnt_set same_meta_def rsqf_ok_def)
  ultimately have "rsqf_ok rf'" using u(1-3,9) vw(1) unfolding rsqf_ok_def rsqf_runs_def by (simp add: runs_ok_def)
  then show ?thesis using ins vf by blast
qed

section \<open>A history that loses an item\<close>

lemma cnt_zeroD: "cnt P n = 0 \<Longrightarrow> p < n \<Longrightarrow> \<not> P p"
  using cnt_less [of P p n] by auto

lemma empty_view: "\<exists>rf. rsqf_filter_create 64 8 True = Some rf \<and> rsqf_tight rf \<and> view rf {} {} {} (\<lambda>p. 0)"
proof -
  obtain rf where rf: "rsqf_filter_create 64 8 True = Some rf" "rsqf_tight rf" "rsqf_items rf = {#}" using ex_rsqf by blast
  have b: "(0::nat) < 64" "(64::nat) \<le> 2 ^ 62" by simp_all
  obtain k where k: "unat (next_power_of_2 (word_of_nat 64)) = 2 ^ k" "(64::nat) \<le> 2 ^ k" "k = 0 \<or> 2 ^ (k - 1) < (64::nat)"
    using next_power_of_2_ok [OF b] by blast
  have "(2::nat) ^ 6 \<le> 2 ^ k" "k = 0 \<or> 2 ^ (k - 1) < (2::nat) ^ 6" using k(2,3) by simp_all
  then have "k = 6" using power_le_imp_le_exp [of "2::nat" 6 k] power_less_imp_less_exp [of "2::nat" "k - 1" 6] by auto
  then have np: "unat (next_power_of_2 (word_of_nat 64)) = 64" using k(1) by simp
  have sz: "sz_sub (sz_add 64 64) 1 = 127" "sz_mul 1 64 = 64" by (simp_all add: sz_add_def sz_sub_def sz_mul_def)
  have dims: "rf_num_slots rf = 64" "rf_remainder_bits rf = 8" "rf_remainder_mask rf = 255"
    using rf(1) unfolding rsqf_filter_create_def Let_def np sz by (auto simp: sz_mul_def)
  have ok: "rsqf_ok rf" using rf(2) by (simp add: rsqf_tight_def)
  have base: "runs_base 64 (rf_oc rf) (rf_rn rf) (rf_ph rf)" using ok dims by (simp add: rsqf_ok_def rsqf_runs_def)
  have p0: "cnt (rf_ph rf) 64 = 0" using count_items [OF ok] ok rf(3) dims by (simp add: rsqf_ok_def)
  then have P: "\<not> rf_ph rf p" if "p < 64" for p using cnt_zeroD that by blast
  then have R: "\<not> rf_rn rf p" if "p < 64" for p using base that by (auto simp: runs_base_def)
  then have "cnt (rf_rn rf) 64 = 0" using cnt_none [of 0 64 "rf_rn rf"] by simp
  then have "cnt (rf_oc rf) 64 = 0" using base by (simp add: runs_base_def)
  then have O: "\<not> rf_oc rf p" if "p < 64" for p using cnt_zeroD that by blast
  have "rf_get rf p = 0" if "p < 64" for p using ok that P dims by (simp add: rsqf_ok_def)
  then have "view rf {} {} {} (\<lambda>p. 0)" using dims P R O by (simp add: view_def)
  then show ?thesis using rf by blast
qed

lemma view_lookup:
  assumes ok: "rsqf_ok rf" and v: "view rf Os Rs Ps V" and h: "unat (drop_bit 8 hash AND 63) = q" "hash AND 255 = r"
    and q: "q \<in> Os" "q < 64" "r \<noteq> 0"
  shows "rsqf_filter_lookup rf hash \<longleftrightarrow> (\<exists>p < 64. cnt (\<lambda>p. p \<in> Rs) p = cnt (\<lambda>p. p \<in> Os) q \<and> V p = r)"
proof -
  have hq: "hash_quotient rf hash = q" "hash_remainder rf hash = r" using view_hash [OF v] h by simp_all
  have o: "rf_oc rf (hash_quotient rf hash)" using v q hq by (simp add: view_def)
  have "cnt (rf_rn rf) p = cnt (rf_oc rf) q \<and> rf_get rf p = r \<longleftrightarrow> cnt (\<lambda>p. p \<in> Rs) p = cnt (\<lambda>p. p \<in> Os) q \<and> V p = r" if "p < 64" for p
    using view_cnt [OF v] that v q(2) by (simp add: view_def del: cnt.simps)
  moreover have "rf_num_slots rf = 64" using v by (simp add: view_def)
  ultimately show ?thesis unfolding lookup_occ [OF ok o] hq by (simp only: cong: conj_cong)
qed

lemma cnt_numeral: "cnt A (numeral k) = cnt A (pred_numeral k) + (if A (pred_numeral k) then 1 else 0)"
  by (simp add: numeral_eq_Suc)

lemma ex_hashes:
  "unat (drop_bit 8 (0x501 :: u64) AND 63) = 5" "(0x501 :: u64) AND 255 = 1"
  "unat (drop_bit 8 (0x502 :: u64) AND 63) = 5" "(0x502 :: u64) AND 255 = 2"
  "unat (drop_bit 8 (0x503 :: u64) AND 63) = 5" "(0x503 :: u64) AND 255 = 3"
  "unat (drop_bit 8 (0x604 :: u64) AND 63) = 6" "(0x604 :: u64) AND 255 = 4"
  "unat (drop_bit 8 (0x709 :: u64) AND 63) = 7" "(0x709 :: u64) AND 255 = 9"
  by (simp_all add: drop_bit_eq_div)

lemma two_inserts:
  "\<exists>rf0 rf1 rf2. rsqf_filter_create 64 8 True = Some rf0 \<and> rsqf_filter_insert rf0 0x501 = (RSQF_OK, rf1) \<and>
     rsqf_filter_insert rf1 0x502 = (RSQF_OK, rf2) \<and> rsqf_tight rf2 \<and> rsqf_ok rf2 \<and>
     view rf2 {5} {6} {6, 5} (ins_vals 6 6 2 (ins_vals 5 5 1 (\<lambda>p. 0)))"
proof -
  obtain rf0 where r0: "rsqf_filter_create 64 8 True = Some rf0" "rsqf_tight rf0" "view rf0 {} {} {} (\<lambda>p. 0)" using empty_view by blast
  have "\<forall>p < 64. p \<in> {5} \<longleftrightarrow> ins_runs ((5 :: nat) \<in> {}) 5 5 (\<lambda>p. p \<in> {}) p" by (auto simp: ins_runs_def)
  then obtain rf1 where r1: "rsqf_filter_insert rf0 0x501 = (RSQF_OK, rf1)" "rsqf_tight rf1" "view rf1 {5} {5} {5} (ins_vals 5 5 1 (\<lambda>p. 0))"
    using view_insert [OF r0(2,3) ex_hashes(1,2), of 5 5 "{5}"] by (auto simp: cnt_numeral)
  have "\<forall>p < 64. p \<in> {6} \<longleftrightarrow> ins_runs ((5 :: nat) \<in> {5}) 6 6 (\<lambda>p. p \<in> {5}) p" by (auto simp: ins_runs_def)
  then obtain rf2 where r2: "rsqf_filter_insert rf1 0x502 = (RSQF_OK, rf2)" "rsqf_tight rf2" "view rf2 {5} {6} {6, 5} (ins_vals 6 6 2 (ins_vals 5 5 1 (\<lambda>p. 0)))"
    using view_insert [OF r1(2,3) ex_hashes(3,4), of 6 6 "{6}"] by (auto simp: cnt_numeral)
  then show ?thesis using r0(1) r1(1) unfolding rsqf_tight_def by blast
qed

lemma four_inserts:
  "\<exists>rf0 rf1 rf2 rf3 rf. rsqf_filter_create 64 8 True = Some rf0 \<and> rsqf_filter_insert rf0 0x501 = (RSQF_OK, rf1) \<and>
     rsqf_filter_insert rf1 0x502 = (RSQF_OK, rf2) \<and> rsqf_filter_insert rf2 0x503 = (RSQF_OK, rf3) \<and>
     rsqf_filter_insert rf3 0x604 = (RSQF_OK, rf) \<and> rsqf_ok rf \<and>
     view rf {6, 5} {7, 8} {8, 7, 6, 5} (ins_vals 8 8 4 (ins_vals 7 7 3 (ins_vals 6 6 2 (ins_vals 5 5 1 (\<lambda>p. 0)))))"
proof -
  obtain rf0 rf1 rf2 where r0: "rsqf_filter_create 64 8 True = Some rf0" "rsqf_filter_insert rf0 0x501 = (RSQF_OK, rf1)"
    and r2: "rsqf_filter_insert rf1 0x502 = (RSQF_OK, rf2)" "rsqf_tight rf2" "view rf2 {5} {6} {6, 5} (ins_vals 6 6 2 (ins_vals 5 5 1 (\<lambda>p. 0)))"
    using two_inserts by blast
  have "\<forall>p < 64. p \<in> {7} \<longleftrightarrow> ins_runs ((5 :: nat) \<in> {5}) 7 7 (\<lambda>p. p \<in> {6}) p" by (auto simp: ins_runs_def)
  moreover have "\<forall>p :: nat. 5 \<le> p \<and> p < 7 \<longrightarrow> p \<in> {6, 5}" by auto
  ultimately obtain rf3 where r3: "rsqf_filter_insert rf2 0x503 = (RSQF_OK, rf3)" "rsqf_tight rf3"
    "view rf3 {5} {7} {7, 6, 5} (ins_vals 7 7 3 (ins_vals 6 6 2 (ins_vals 5 5 1 (\<lambda>p. 0))))"
    using view_insert [OF r2(2,3) ex_hashes(5,6), of 7 7 "{7}"] by (auto simp: cnt_numeral)
  have "\<forall>p < 64. p \<in> {7, 8} \<longleftrightarrow> ins_runs ((6 :: nat) \<in> {5}) 8 8 (\<lambda>p. p \<in> {7}) p" by (auto simp: ins_runs_def)
  moreover have "\<forall>p :: nat. 6 \<le> p \<and> p < 8 \<longrightarrow> p \<in> {7, 6, 5}" by auto
  ultimately obtain rf where r4: "rsqf_filter_insert rf3 0x604 = (RSQF_OK, rf)" "rsqf_tight rf"
    "view rf {6, 5} {7, 8} {8, 7, 6, 5} (ins_vals 8 8 4 (ins_vals 7 7 3 (ins_vals 6 6 2 (ins_vals 5 5 1 (\<lambda>p. 0)))))"
    using view_insert [OF r3(2,3) ex_hashes(7,8), of 8 8 "{7, 8}"] by (auto simp: cnt_numeral)
  then show ?thesis using r0 r2(1) r3(1) unfolding rsqf_tight_def by blast
qed

text \<open>
  C32. An insertion after a deletion can make the filter forget another item. On an empty filter of 64 slots with
  remainders of eight bits, every call of the history below succeeds: the hash 0x604 is inserted, is found after the
  deletion of 0x503 and, without being deleted, is not found any more once 0x709 has been inserted.
\<close>

theorem rsqf_insert_after_delete_loses_item:
  "\<exists>rf0 rf1 rf2 rf3 rf4 rf5 rf6. rsqf_filter_create 64 8 True = Some rf0 \<and> rsqf_filter_insert rf0 0x501 = (RSQF_OK, rf1) \<and>
     rsqf_filter_insert rf1 0x502 = (RSQF_OK, rf2) \<and> rsqf_filter_insert rf2 0x503 = (RSQF_OK, rf3) \<and>
     rsqf_filter_insert rf3 0x604 = (RSQF_OK, rf4) \<and> rsqf_filter_delete rf4 0x503 = (RSQF_OK, rf5) \<and>
     rsqf_filter_lookup rf5 0x604 \<and> rsqf_filter_insert rf5 0x709 = (RSQF_OK, rf6) \<and> \<not> rsqf_filter_lookup rf6 0x604"
proof -
  let ?V4 = "ins_vals 8 8 4 (ins_vals 7 7 3 (ins_vals 6 6 2 (ins_vals 5 5 1 (\<lambda>p. 0 :: u64))))"
  let ?V5 = "del_vals 7 7 0 ?V4"
  obtain rf0 rf1 rf2 rf3 rf4 where f: "rsqf_filter_create 64 8 True = Some rf0" "rsqf_filter_insert rf0 0x501 = (RSQF_OK, rf1)"
    "rsqf_filter_insert rf1 0x502 = (RSQF_OK, rf2)" "rsqf_filter_insert rf2 0x503 = (RSQF_OK, rf3)" "rsqf_filter_insert rf3 0x604 = (RSQF_OK, rf4)"
    and r4: "rsqf_ok rf4" "view rf4 {6, 5} {7, 8} {8, 7, 6, 5} ?V4" using four_inserts by blast
  have "\<forall>p < 64. ?V4 p = 3 \<longrightarrow> p = 7" by (simp add: ins_vals_def)
  then obtain rf5 where r5: "rsqf_filter_delete rf4 0x503 = (RSQF_OK, rf5)" "rsqf_ok rf5" "view rf5 {6, 5} (insert 6 ({7, 8} - {7})) ({8, 7, 6, 5} - {7}) ?V5"
    using view_delete [OF r4 ex_hashes(5,6), of 7 7] by (auto simp: cnt_numeral ins_vals_def)
  have v5: "view rf5 {6, 5} {6, 8} {8, 6, 5} ?V5" using r5(3) by (auto simp: view_def)
  have "cnt (\<lambda>p. p \<in> {6, 8}) 8 = cnt (\<lambda>p. p \<in> {6, 5}) (6 :: nat)" "?V5 8 = 4" by (simp_all add: cnt_numeral ins_vals_def del_vals_def)
  then have l5: "rsqf_filter_lookup rf5 0x604" using view_lookup [OF r5(2) v5 ex_hashes(7,8)] by (auto intro!: exI [of _ 8])
  have "\<forall>p < 64. p \<in> insert 7 {8, 6, 5} \<and> p \<notin> insert 7 {6, 8} \<longrightarrow> Suc p < 64 \<and> Suc p \<in> insert 7 {8, 6, 5}" by auto
  then obtain rf6 where r6: "rsqf_filter_insert rf5 0x709 = (RSQF_OK, rf6)" "rsqf_ok rf6" "view rf6 (insert 7 {6, 5}) (insert 7 {6, 8}) (insert 7 {8, 6, 5}) (?V5(7 := 9))"
    using view_insert_free [OF r5(2) v5 ex_hashes(9,10)] by (force simp: cnt_numeral)
  have "p = 8" if "(?V5(7 := 9)) p = 4" for p using that by (auto simp: ins_vals_def del_vals_def split: if_splits)
  moreover have "cnt (\<lambda>p. p \<in> insert 7 {6, 8}) 8 \<noteq> cnt (\<lambda>p. p \<in> insert 7 {6, 5}) (6 :: nat)" by (simp add: cnt_numeral)
  ultimately have "\<not> rsqf_filter_lookup rf6 0x604" using view_lookup [OF r6(2,3) ex_hashes(7,8)] by auto
  then show ?thesis using f r5(1) l5 r6(1) by blast
qed

section \<open>A deletion that takes the item of another run\<close>

text \<open>The run of quotient 5 in the slots 5 and 6: quotient 6 has no run, and its slot is the runend.\<close>

lemma foreign_run:
  assumes ok: "rsqf_ok rf" and v: "view rf {5} {6} {6, 5} V"
  shows "find_run rf 5 = Some (0, 6)" "find_run rf 6 = Some (0, 6)"
proof -
  note r = runs_of_ok(1) [OF ok]
  note sh = runs_of_ok(2,3) [OF r]
  have ns: "rf_num_slots rf = 64" and b: "rf_oc rf 5" "\<not> rf_oc rf 6" "rf_rn rf 6" using v by (simp_all add: view_def)
  have l: "cnt (\<lambda>p. p \<in> {6}) (6 :: nat) = 0" "cnt (\<lambda>p. p \<in> {5}) (5 :: nat) = 0" "cnt (\<lambda>p. p \<in> {5}) (6 :: nat) = 1" "cnt (\<lambda>p. p \<in> {5}) (7 :: nat) = 1"
    by (simp_all add: cnt_numeral)
  have le: "(5 :: nat) \<le> 64" "(6 :: nat) \<le> 64" "(7 :: nat) \<le> 64" by simp_all
  have c: "cnt (rf_rn rf) 6 = 0" "cnt (rf_oc rf) 5 = 0" "cnt (rf_oc rf) 6 = 1" "cnt (rf_oc rf) 7 = 1"
    unfolding view_cnt(2) [OF v le(2)] view_cnt(1) [OF v le(1)] view_cnt(1) [OF v le(2)] view_cnt(1) [OF v le(3)] l by simp_all
  have k: "rank_occ rf 5 = 1" "rank_occ rf 6 = 1" using rank_occ_cnt [OF sh, of 5] rank_occ_cnt [OF sh, of 6] ns c by (simp_all del: cnt.simps)
  have e: "select_run rf 1 = 6" "rank_select rf 5 = 6"
    using select_run_eq [OF sh _ b(3) c(1)] rank_select_end [OF r _ b(1) _ b(3)] ns c by simp_all
  have z: "run_start rf 1 = 0" by (simp add: run_start_def)
  show "find_run rf 5 = Some (0, 6)" using b(1) k(1) e(2) z by (simp add: find_run_def)
  show "find_run rf 6 = Some (0, 6)" using b(2,3) k(2) e(1) z by (simp add: find_run_def Let_def)
qed

lemma foreign_slots:
  assumes ok: "rsqf_ok rf" and v: "view rf {5} {6} {6, 5} V"
  shows "del_slots rf 6 0 6 5 = del_slots rf 5 0 6 5"
proof -
  have sh: "rsqf_shape rf" using ok by (simp add: rsqf_ok_def rsqf_runs_def)
  have ns: "rf_num_slots rf = 64" and b: "rf_rn rf 6" "\<not> rf_rn rf 5" "rf_ph rf 5" "rf_ph rf 6" using v by (simp_all add: view_def)
  define r1 where "r1 = fold (pull_slot 5) [0..<1] rf"
  define r2 where "r2 = clear_run (clear_phys (rf_put r1 6 0) 6) 6"
  have two: "p = 5 \<or> p = 6" if "5 \<le> p" "p \<le> 6" for p :: nat using that by linarith
  then have full: "rf_ph rf p" if "5 \<le> p" "p \<le> 6" for p using that b(3,4) by blast
  have inner: "\<not> rf_rn rf p" if "5 \<le> p" "p < 6" for p using that b(2) by (cases "p = 5") auto
  have lt: "6 < rf_num_slots rf" using ns by simp
  have "moved rf ((rf_rn rf)(6 - 1 := True, 6 := False)) ((rf_ph rf)(6 := False)) (\<lambda>p. if 5 \<le> p \<and> p < 5 + 1 then rf_get rf (Suc p) else rf_get rf p) r1"
    using pull_slots_ok [OF sh lt b(1), where d = 5 and j = 1] full inner unfolding r1_def by simp
  then have m: "rsqf_shape r1" "rf_num_slots r1 = 64" "rf_ph r1 5" using ns b(3) by (simp_all add: moved_def same_meta_def)
  have s: "rf_num_slots r2 = 64" "rf_ph r2 = (rf_ph r1)(6 := False)" using m by (simp_all add: r2_def rf_view)
  have "\<forall>p. 5 < p \<and> p \<le> 6 \<longrightarrow> \<not> rf_ph r2 p" unfolding s(2) using two by fastforce
  then have lo: "last_occupied r2 0 6 = Some 5" using last_occupied_eq(2) [of 0 6 r2 5] s m(3) by simp
  have len: "circular_len 64 5 6 - 1 = 1" by (simp add: circular_len_def)
  show ?thesis unfolding del_slots_def Let_def ns len r1_def [symmetric] r2_def [symmetric] lo by simp
qed

lemma delete_by_slots:
  assumes "find_run rf (hash_quotient rf hash) = Some (rs, e)" "rs \<le> e" "find_rem rf rs e (hash_remainder rf hash) = Some d"
  defines "q \<equiv> hash_quotient rf hash"
  shows "rsqf_filter_delete rf hash = (if rf_count rf = 0 then (RSQF_ERR_NOT_FOUND, rf)
    else (RSQF_OK, update_offsets_from ((del_slots rf q rs e d)\<lparr>rf_count := rf_count (del_slots rf q rs e d) - 1\<rparr>) ((if q < rs then q else rs) div 64)))"
proof -
  have "\<not> rs > e" using assms(2) by simp
  then show ?thesis
    unfolding rsqf_filter_delete_def del_slots_def q_def Let_def assms(1,3) option.case prod.case by (simp only: if_False)
qed

text \<open>
  Deleting what is not there. On an empty filter of 64 slots with remainders of eight bits the hashes 0x501 and 0x502
  are inserted. The deletion of 0x601, which was never inserted and whose quotient has no run, succeeds; afterwards
  0x501 is not found any more.
\<close>

lemma rsqf_delete_takes_foreign_item:
  "\<exists>rf0 rf1 rf2 rf3. rsqf_filter_create 64 8 True = Some rf0 \<and> rsqf_filter_insert rf0 0x501 = (RSQF_OK, rf1) \<and>
     rsqf_filter_insert rf1 0x502 = (RSQF_OK, rf2) \<and> rsqf_item rf2 0x601 \<notin># rsqf_items rf2 \<and>
     rsqf_filter_lookup rf2 0x501 \<and> rsqf_filter_delete rf2 0x601 = (RSQF_OK, rf3) \<and> \<not> rsqf_filter_lookup rf3 0x501"
proof -
  let ?V = "ins_vals 6 6 2 (ins_vals 5 5 1 (\<lambda>p. 0 :: u64))"
  obtain rf0 rf1 rf2 where f: "rsqf_filter_create 64 8 True = Some rf0" "rsqf_filter_insert rf0 0x501 = (RSQF_OK, rf1)"
    "rsqf_filter_insert rf1 0x502 = (RSQF_OK, rf2)" and r2: "rsqf_ok rf2" "view rf2 {5} {6} {6, 5} ?V" using two_inserts by blast
  have h6: "unat (drop_bit 8 (0x601 :: u64) AND 63) = 6" "(0x601 :: u64) AND 255 = 1" by (simp_all add: drop_bit_eq_div)
  have q: "hash_quotient rf2 0x501 = 5" "hash_remainder rf2 0x501 = 1" "hash_quotient rf2 0x601 = 6" "hash_remainder rf2 0x601 = 1"
    using view_hash [OF r2(2)] ex_hashes(1,2) h6 by simp_all
  have ns: "rf_num_slots rf2 = 64" and no: "\<not> rf_oc rf2 6" using r2(2) by (simp_all add: view_def)
  have miss: "rsqf_item rf2 0x601 \<notin># rsqf_items rf2" using item_iff [OF r2(1), of "0x601"] no q by simp
  have "\<forall>p < 64. ?V p = 1 \<longrightarrow> p = 5" by (simp add: ins_vals_def)
  then obtain rf3 where r3: "rsqf_filter_delete rf2 0x501 = (RSQF_OK, rf3)" "rsqf_ok rf3"
    "view rf3 {5} (insert 5 ({6} - {6})) ({6, 5} - {6}) (del_vals 5 6 0 ?V)"
    using view_delete [OF r2 ex_hashes(1,2), of 6 5] by (auto simp: cnt_numeral ins_vals_def)
  have fr: "find_rem rf2 0 6 1 = Some 5"
  proof -
    have g: "rf_get rf2 p = ?V p" if "p < 64" for p using r2(2) that by (simp add: view_def)
    have "[0..<Suc 6] = [0, 1, 2, 3, 4, 5, 6 :: nat]" by (simp add: upt_rec)
    then show ?thesis using find_rem_eq [of 0 6 rf2 1] ns g by (simp add: ins_vals_def)
  qed
  have same: "rsqf_filter_delete rf2 0x601 = rsqf_filter_delete rf2 0x501"
    using delete_by_slots [of rf2 "0x601"] delete_by_slots [of rf2 "0x501"] foreign_run [OF r2] foreign_slots [OF r2] fr q by simp
  have "\<not> rsqf_filter_lookup rf3 0x501"
    using view_lookup [OF r3(2,3) ex_hashes(1,2)] by (auto simp: del_vals_def ins_vals_def split: if_splits)
  moreover have "rsqf_filter_lookup rf2 0x501"
    using view_lookup [OF r2 ex_hashes(1,2)] by (auto simp: ins_vals_def cnt_numeral intro!: exI [of _ 5])
  ultimately show ?thesis using f miss same r3(1) by metis
qed

end
