(* ===== verification/Cqf_Counter.thy ===== *)
theory Cqf_Counter
  imports Remainders
begin

text \<open>
  The counters of the counting quotient filter (\<^verbatim>\<open>src/cqf_filter.c\<close>). An item with remainder \<open>x\<close> that was inserted
  \<open>C\<close> times is stored as \<open>x\<close>, as \<open>x x\<close>, or, from three copies on, as the digits of \<open>C - 3\<close> between markers, in a
  number system whose symbols avoid \<open>x\<close>. The theory holds the encoder, the decoder and their round trip.
\<close>

unbundle bit_operations_syntax

definition CQF_ENC_BUF :: nat where
  "CQF_ENC_BUF = 128"

text \<open>\<open>(int)(val % base)\<close>: the digit is converted to a signed 32-bit integer.\<close>

definition int_digit :: "nat \<Rightarrow> int" where
  "int_digit v = sint (word_of_nat v :: 32 word)"

text \<open>The symbol of a digit for \<open>x = 0\<close> and for \<open>x > 0\<close>, where the symbols skip \<open>x\<close>.\<close>

definition zero_symbol :: "nat \<Rightarrow> u64" where
  "zero_symbol v = word_of_int (int_digit v + 1)"

definition nonzero_symbol :: "u64 \<Rightarrow> nat \<Rightarrow> u64" where
  "nonzero_symbol x v =
     (let d = int_digit v in if (word_of_int d :: u64) < x - 1 then word_of_int (d + 1) else word_of_int (d + 2))"

text \<open>The digit loop, least significant digit first; \<open>room\<close> is \<open>max_buf - n\<close>.\<close>

fun enc_loop :: "(nat \<Rightarrow> u64) \<Rightarrow> nat \<Rightarrow> nat \<Rightarrow> nat \<Rightarrow> u64 list" where
  "enc_loop symbol base 0 val = []"
| "enc_loop symbol base (Suc room) val =
     (if val > 0 then symbol (val mod base) # enc_loop symbol base room (val div base) else [])"

definition cqf_encode :: "nat \<Rightarrow> u64 \<Rightarrow> nat \<Rightarrow> nat \<Rightarrow> u64 list" where
  "cqf_encode C x rbits max_buf =
     (if C \<le> 2 then []
      else if x = 0
      then let base = 2 ^ rbits - 1; val = C - 3
           in rev (if val = 0 then [1] else enc_loop zero_symbol base max_buf val)
      else let base = 2 ^ rbits - 2; val = C - 3;
               enc = rev (if val = 0 then [if 0 < x - 1 then 1 else 2] else enc_loop (nonzero_symbol x) base max_buf val)
           in if enc \<noteq> [] \<and> hd enc \<ge> x
              then if length enc \<ge> max_buf then [] else 0 # enc
              else enc)"

definition cqf_enc_slots :: "nat \<Rightarrow> u64 \<Rightarrow> nat \<Rightarrow> nat" where
  "cqf_enc_slots C x rbits =
     (if C \<le> 1 then 1 else if C = 2 then 2
      else let n = length (cqf_encode C x rbits CQF_ENC_BUF) in if x = 0 then 4 + n else 2 + n)"

definition decode_count :: "u64 list \<Rightarrow> u64 \<Rightarrow> nat \<Rightarrow> nat" where
  "decode_count enc x rbits =
     (if enc = [] then 3
      else if x = 0
      then let base = 2 ^ rbits - 1
           in sz_add (foldl (\<lambda>val sym. sz_add (sz_mul val base) (unat (sym - 1))) 0 enc) 3
      else let base = 2 ^ rbits - 2
           in sz_add (foldl (\<lambda>val sym. sz_add (sz_mul val base)
                 (if sym = 0 then 0 else if sym < x then unat (sym - 1) else unat (sym - 2))) 0 enc) 3)"

section \<open>Digits\<close>

fun digs :: "nat \<Rightarrow> nat \<Rightarrow> nat \<Rightarrow> nat list" where
  "digs base 0 val = []"
| "digs base (Suc room) val = (if val > 0 then val mod base # digs base room (val div base) else [])"

definition numeral_of :: "nat \<Rightarrow> nat \<Rightarrow> nat list" where
  "numeral_of base val = rev (if val = 0 then [0] else digs base CQF_ENC_BUF val)"

lemma enc_loop_digs: "enc_loop symbol base room val = map symbol (digs base room val)"
  by (induction base room val rule: digs.induct) auto

lemma digs_bound: "1 < base \<Longrightarrow> d \<in> set (digs base room val) \<Longrightarrow> d < base \<and> d \<le> val"
  by (induction base room val rule: digs.induct) (auto split: if_splits intro: order_trans [OF _ div_le_dividend] simp: mod_less_eq_dividend)

lemma digs_shape:
  assumes "1 < base" "0 < val" "val < base ^ room"
  shows "digs base room val \<noteq> [] \<and> base ^ (length (digs base room val) - 1) \<le> val \<and> val < base ^ length (digs base room val) \<and>
    last (digs base room val) = val div base ^ (length (digs base room val) - 1) \<and> length (digs base room val) \<le> room"
  using assms
proof (induction base room val rule: digs.induct)
  case (2 base room val)
  show ?case
  proof (cases "val div base = 0")
    case True
    then have "val < base" using 2(2) by (simp add: div_eq_0_iff)
    moreover have "digs base room (val div base) = []" using True by (cases room) auto
    ultimately show ?thesis using 2(2,3) True by simp
  next
    case False
    have "val div base < base ^ room" using 2(2,4) by (simp add: less_mult_imp_div_less mult.commute)
    then have ih: "digs base room (val div base) \<noteq> []" "base ^ (length (digs base room (val div base)) - 1) \<le> val div base"
      "val div base < base ^ length (digs base room (val div base))"
      "last (digs base room (val div base)) = val div base div base ^ (length (digs base room (val div base)) - 1)"
      "length (digs base room (val div base)) \<le> room"
      using 2(1) [OF 2(3,2)] False by simp_all
    define n where "n = length (digs base room (val div base)) - 1"
    have n: "length (digs base room (val div base)) = Suc n" using ih(1) by (simp add: n_def)
    have "base ^ Suc n \<le> val" using ih(2) 2(2) unfolding n by (simp add: less_eq_div_iff_mult_less_eq mult.commute)
    moreover have "val < base ^ Suc (Suc n)"
      using ih(3) 2(2) unfolding n by (simp add: div_less_iff_less_mult mult.commute)
    moreover have "val div base div base ^ n = val div base ^ Suc n" by (simp add: div_mult2_eq)
    ultimately show ?thesis using 2(3) ih(1,4,5) n by simp
  qed
qed simp

lemma numeral_shape:
  assumes "1 < base" "val < 2 ^ 64"
  obtains n where "length (numeral_of base val) = Suc n" "val < base ^ Suc n" "n = 0 \<or> base ^ n \<le> val"
    "hd (numeral_of base val) = val div base ^ n" "n < 64"
proof (cases "val = 0")
  case True
  then show ?thesis using that [of 0] assms(1) by (simp add: numeral_of_def)
next
  case False
  have "(2::nat) ^ 64 \<le> base ^ 64" using assms(1) by (intro power_mono) simp_all
  with assms(2) have v64: "val < base ^ 64" by (rule less_le_trans)
  also have "base ^ 64 \<le> base ^ CQF_ENC_BUF" using assms(1) by (intro power_increasing) (simp_all add: CQF_ENC_BUF_def)
  finally have "val < base ^ CQF_ENC_BUF" .
  note s = digs_shape [OF assms(1) _ this]
  define n where "n = length (digs base CQF_ENC_BUF val) - 1"
  have "length (digs base CQF_ENC_BUF val) = Suc n" "base ^ n \<le> val" "val < base ^ Suc n" "last (digs base CQF_ENC_BUF val) = val div base ^ n"
    using s False by (simp_all add: n_def)
  moreover have "n < 64"
  proof (rule ccontr)
    assume "\<not> n < 64"
    then have "base ^ 64 \<le> base ^ n" using assms(1) by (intro power_increasing) simp_all
    then show False using v64 \<open>base ^ n \<le> val\<close> by simp
  qed
  moreover have "digs base CQF_ENC_BUF val \<noteq> []" using s False by simp
  ultimately show ?thesis using that [of n] False by (simp add: numeral_of_def hd_rev)
qed

lemma digs_value:
  assumes "1 < base" "val < base ^ room"
  shows "foldr (\<lambda>d v. v * base + d) (digs base room val) 0 = val"
  using assms
proof (induction base room val rule: digs.induct)
  case (2 base room val)
  have "val div base < base ^ room" using 2(2,3) by (simp add: less_mult_imp_div_less mult.commute)
  then show ?case using 2(1,2) by auto
qed simp

section \<open>Symbols\<close>

text \<open>Counts below \<open>2 ^ 31\<close>: the conversion of a digit to \<open>int\<close> keeps it.\<close>

lemma int_digit_small: "v < 2 ^ 31 \<Longrightarrow> int_digit v = int v"
  by (simp add: int_digit_def sint_uint signed_take_bit_int_eq_self unsigned_of_nat take_bit_nat_eq_self)

lemma zero_symbol_small: "v < 2 ^ 31 \<Longrightarrow> zero_symbol v = word_of_nat (v + 1)"
  by (simp add: zero_symbol_def int_digit_small)

lemma nonzero_symbol_small:
  assumes "v < 2 ^ 31" "x \<noteq> 0"
  shows "nonzero_symbol x v = word_of_nat (if v < unat x - 1 then v + 1 else v + 2)"
proof -
  have "unat (word_of_nat v :: u64) = v" using assms(1) by (intro unat_word_of_nat) simp
  then have "(word_of_int (int v) :: u64) < x - 1 \<longleftrightarrow> v < unat x - 1"
    using assms(2) by (simp add: word_less_nat_alt unat_minus_one)
  then show ?thesis using assms(1) by (simp add: nonzero_symbol_def int_digit_small Let_def)
qed

definition symbol_of :: "u64 \<Rightarrow> nat \<Rightarrow> u64" where
  "symbol_of x v = (if x = 0 then zero_symbol v else nonzero_symbol x v)"

definition digit_of :: "u64 \<Rightarrow> u64 \<Rightarrow> nat" where
  "digit_of x sy = (if x = 0 then unat (sy - 1) else if sy = 0 then 0 else if sy < x then unat (sy - 1) else unat (sy - 2))"

definition base_of :: "u64 \<Rightarrow> nat \<Rightarrow> nat" where
  "base_of x rbits = (if x = 0 then 2 ^ rbits - 1 else 2 ^ rbits - 2)"

lemma symbol_of_unat:
  assumes "v < 2 ^ 31"
  shows "unat (symbol_of x v) = (if v < unat x - 1 \<or> x = 0 then v + 1 else v + 2)"
proof -
  have "unat (word_of_nat w :: u64) = w" if "w \<le> v + 2" for w using assms that by (intro unat_word_of_nat) simp
  then show ?thesis using assms by (simp add: symbol_of_def zero_symbol_small nonzero_symbol_small del: of_nat_add of_nat_Suc)
qed

lemma symbol_of_props:
  assumes "v < 2 ^ 31"
  shows "digit_of x (symbol_of x v) = v" "symbol_of x v \<noteq> 0" "symbol_of x v \<noteq> x" "x \<noteq> 0 \<Longrightarrow> x \<le> symbol_of x v \<longleftrightarrow> unat x - 1 \<le> v"
proof -
  note u = symbol_of_unat [OF assms, of x]
  show nz: "symbol_of x v \<noteq> 0" using u by (auto split: if_splits)
  show "symbol_of x v \<noteq> x" using u by (auto split: if_splits)
  have "unat (symbol_of x v - 1) = unat (symbol_of x v) - 1" using nz by (rule unat_minus_one)
  moreover have "unat (symbol_of x v - 2) = unat (symbol_of x v) - 2" if "2 \<le> unat (symbol_of x v)"
    using that unat_sub [of 2 "symbol_of x v"] by (simp add: word_le_nat_alt)
  ultimately show "digit_of x (symbol_of x v) = v" using u nz by (auto simp: digit_of_def word_less_nat_alt split: if_splits)
  show "x \<le> symbol_of x v \<longleftrightarrow> unat x - 1 \<le> v" if "x \<noteq> 0" using u that by (auto simp: word_le_nat_alt split: if_splits)
qed

lemma decode_value:
  assumes "1 < base" "base < 2 ^ 32" "val < base ^ room" "val < 2 ^ 31"
  shows "foldl (\<lambda>v sy. sz_add (sz_mul v base) (digit_of x sy)) 0 (rev (map (symbol_of x) (digs base room val))) = val"
proof -
  have "foldr (\<lambda>sy v. sz_add (sz_mul v base) (digit_of x sy)) (map (symbol_of x) (digs base room val)) 0 = val"
    using assms
  proof (induction base room val rule: digs.induct)
    case (2 base room val)
    have d: "val div base < base ^ room" "val div base < 2 ^ 31" "val mod base < 2 ^ 31" "val div base * base + val mod base = val"
      using 2(2,4,5) by (auto simp: less_mult_imp_div_less mult.commute intro: le_less_trans [OF div_le_dividend] le_less_trans [OF mod_less_eq_dividend])
    have "val < 2 ^ 64" using 2(5) by simp
    then have "val div base * base < 2 ^ 64" by (rule le_less_trans [OF div_times_less_eq_dividend])
    then have "sz_mul (val div base) base = val div base * base" "sz_add (val div base * base) (val mod base) = val"
      using 2(5) d(4) by (auto intro!: sz_mul_small simp: sz_add_def)
    then show ?case using 2(1) [OF _ 2(2,3) d(1,2)] symbol_of_props(1) [OF d(3)] by (auto simp: sz_add_def sz_mul_def)
  qed simp
  then show ?thesis by (simp add: foldl_conv_foldr)
qed

section \<open>Round trip\<close>

text \<open>\<open>valid_counter\<close>: the widths \<open>cqf_filter_create\<close> allows, a remainder of that width, a count that a filter can reach.\<close>

definition valid_counter :: "nat \<Rightarrow> nat \<Rightarrow> u64 \<Rightarrow> bool" where
  "valid_counter rbits C x \<longleftrightarrow> 2 \<le> rbits \<and> rbits \<le> 32 \<and> unat x < 2 ^ rbits \<and> C < 2 ^ 31"

lemma base_bounds:
  assumes "valid_counter rbits C x"
  shows "1 < base_of x rbits" "base_of x rbits < 2 ^ 32"
proof -
  have "(2::nat) ^ 2 \<le> 2 ^ rbits" "(2::nat) ^ rbits \<le> 2 ^ 32" using assms by (intro power_increasing; simp add: valid_counter_def)+
  then have "4 \<le> (2::nat) ^ rbits" "(2::nat) ^ rbits \<le> 2 ^ 32" by simp_all
  then have "1 < base_of x rbits \<and> base_of x rbits < 2 ^ 32" unfolding base_of_def by (cases "x = 0") auto
  then show "1 < base_of x rbits" "base_of x rbits < 2 ^ 32" by simp_all
qed

lemma val_bounds: "valid_counter rbits C x \<Longrightarrow> C - 3 < 2 ^ 31" "valid_counter rbits C x \<Longrightarrow> C - 3 < 2 ^ 64"
  by (auto simp: valid_counter_def)

lemma cqf_encode_eq:
  assumes v: "valid_counter rbits C x" and C: "3 \<le> C"
  defines "ns \<equiv> numeral_of (base_of x rbits) (C - 3)"
  shows "cqf_encode C x rbits CQF_ENC_BUF = (if x \<noteq> 0 \<and> unat x - 1 \<le> hd ns then [0] else []) @ map (symbol_of x) ns"
proof -
  note C31 = val_bounds [OF v]
  obtain n where n: "length ns = Suc n" "hd ns = (C - 3) div base_of x rbits ^ n" "n < 64"
    using numeral_shape [OF base_bounds(1) [OF v] C31(2)] unfolding ns_def by metis
  have ne: "ns \<noteq> []" using n(1) by auto
  have hd: "hd ns < 2 ^ 31" unfolding n(2) by (rule le_less_trans [OF div_le_dividend C31(1)])
  have s: "rev (if C - 3 = 0 then [symbol_of x 0] else enc_loop (symbol_of x) (base_of x rbits) CQF_ENC_BUF (C - 3)) = map (symbol_of x) ns"
    by (simp add: ns_def numeral_of_def enc_loop_digs rev_map)
  show ?thesis
  proof (cases "x = 0")
    case True
    then have "symbol_of x = zero_symbol" "symbol_of x 0 = 1" by (auto simp: symbol_of_def zero_symbol_def int_digit_def)
    then have "cqf_encode C x rbits CQF_ENC_BUF = map (symbol_of x) ns"
      unfolding s [symmetric] using True C by (simp add: cqf_encode_def base_of_def)
    then show ?thesis using True by simp
  next
    case False
    then have sy: "symbol_of x = nonzero_symbol x" "symbol_of x 0 = (if 0 < x - 1 then 1 else 2)"
      by (auto simp: symbol_of_def nonzero_symbol_def int_digit_def)
    have "length (map (symbol_of x) ns) < CQF_ENC_BUF" using n by (simp add: CQF_ENC_BUF_def)
    moreover have "hd (map (symbol_of x) ns) \<ge> x \<longleftrightarrow> unat x - 1 \<le> hd ns" using symbol_of_props(4) [OF hd False] ne by (simp add: hd_map)
    moreover have "cqf_encode C x rbits CQF_ENC_BUF = (let enc = map (symbol_of x) ns in if enc \<noteq> [] \<and> hd enc \<ge> x
              then if length enc \<ge> CQF_ENC_BUF then [] else 0 # enc else enc)"
      unfolding s [symmetric] sy(2) using False C by (simp add: cqf_encode_def base_of_def sy(1) Let_def)
    ultimately show ?thesis using False ne by (simp add: Let_def)
  qed
qed

lemma decode_encode:
  assumes v: "valid_counter rbits C x" and C: "3 \<le> C"
  shows "decode_count (cqf_encode C x rbits CQF_ENC_BUF) x rbits = C"
proof -
  let ?b = "base_of x rbits" and ?ns = "numeral_of (base_of x rbits) (C - 3)"
  let ?step = "\<lambda>val sy. sz_add (sz_mul val ?b) (digit_of x sy)"
  note C31 = val_bounds [OF v]
  note b = base_bounds [OF v]
  have "?b ^ 64 \<le> ?b ^ CQF_ENC_BUF" using b by (intro power_increasing) (simp_all add: CQF_ENC_BUF_def)
  moreover have "(2::nat) ^ 64 \<le> ?b ^ 64" using b by (intro power_mono) simp_all
  ultimately have "C - 3 < ?b ^ CQF_ENC_BUF" using C31(2) by linarith
  note val = decode_value [OF b this C31(1), of x]
  have ns: "foldl ?step 0 (map (symbol_of x) ?ns) = C - 3"
    using val symbol_of_props(1) [of 0 x] by (auto simp: numeral_of_def rev_map sz_add_def sz_mul_def)
  have "foldl ?step 0 (cqf_encode C x rbits CQF_ENC_BUF) = C - 3"
    using ns unfolding cqf_encode_eq [OF assms] by (auto simp: digit_of_def sz_add_def sz_mul_def)
  moreover obtain n where "length ?ns = Suc n" by (rule numeral_shape [OF b(1) C31(2)])
  then have "?ns \<noteq> []" by auto
  then have "cqf_encode C x rbits CQF_ENC_BUF \<noteq> []" unfolding cqf_encode_eq [OF assms] by simp
  moreover have "sz_add (C - 3) 3 = C" using C v by (simp add: sz_add_def valid_counter_def)
  ultimately show ?thesis by (auto simp: decode_count_def base_of_def digit_of_def Let_def cong: if_cong)
qed

text \<open>The symbols of a counter: they fit a slot, avoid the remainder, and only a leading symbol can be 0.\<close>

lemma numeral_digit:
  assumes "valid_counter rbits C x" "d \<in> set (numeral_of (base_of x rbits) (C - 3))"
  shows "d < base_of x rbits" "d < 2 ^ 31"
proof -
  have "d < base_of x rbits \<and> d \<le> C - 3"
    using assms(2) digs_bound [OF base_bounds(1) [OF assms(1)]] base_bounds(1) [OF assms(1)] by (auto simp: numeral_of_def split: if_splits)
  then show "d < base_of x rbits" "d < 2 ^ 31" using val_bounds(1) [OF assms(1)] by simp_all
qed

lemma symbol_fits:
  assumes "valid_counter rbits C x" "d \<in> set (numeral_of (base_of x rbits) (C - 3))"
  shows "unat (symbol_of x d) < 2 ^ rbits"
proof -
  note d = numeral_digit [OF assms]
  have "(2::nat) ^ 2 \<le> 2 ^ rbits" using assms(1) by (intro power_increasing) (simp_all add: valid_counter_def)
  then show ?thesis using d(1) symbol_of_unat [OF d(2), of x] by (auto simp: base_of_def split: if_splits)
qed

lemma enc_symbols:
  assumes v: "valid_counter rbits C x" and C: "3 \<le> C"
  defines "enc \<equiv> cqf_encode C x rbits CQF_ENC_BUF"
  shows "enc \<noteq> []" "length enc \<le> 65" "x \<notin> set enc" "x = 0 \<or> 0 \<notin> set (tl enc)" "\<forall>sy \<in> set enc. unat sy < 2 ^ rbits"
proof -
  define ns where "ns = numeral_of (base_of x rbits) (C - 3)"
  obtain n where n: "length ns = Suc n" "n < 64"
    using numeral_shape [OF base_bounds(1) [OF v] val_bounds(2) [OF v]] unfolding ns_def by metis
  define ys where "ys = map (symbol_of x) ns"
  have ys: "length ys = Suc n" "\<forall>sy \<in> set ys. sy \<noteq> 0 \<and> sy \<noteq> x \<and> unat sy < 2 ^ rbits"
    using n(1) symbol_of_props(2,3) numeral_digit(2) [OF v] symbol_fits [OF v] by (auto simp: ys_def ns_def)
  consider "enc = ys" | "enc = 0 # ys" "x \<noteq> 0"
    using cqf_encode_eq [OF v C, folded enc_def ns_def, folded ys_def] by (cases "x \<noteq> 0 \<and> unat x - 1 \<le> hd ns") (simp_all only: if_True if_False append.simps, simp_all)
  then have "enc \<noteq> [] \<and> length enc \<le> 65 \<and> x \<notin> set enc \<and> (x = 0 \<or> 0 \<notin> set (tl enc)) \<and> (\<forall>sy \<in> set enc. unat sy < 2 ^ rbits)"
  proof cases
    case 1
    then show ?thesis using ys n(2) by (cases ys) auto
  next
    case 2
    then show ?thesis using ys n(2) by auto
  qed
  then show "enc \<noteq> []" "length enc \<le> 65" "x \<notin> set enc" "x = 0 \<or> 0 \<notin> set (tl enc)" "\<forall>sy \<in> set enc. unat sy < 2 ^ rbits" by blast+
qed

text \<open>One more copy never needs fewer slots.\<close>

lemma numeral_mono:
  assumes "1 < base" "Suc val < 2 ^ 64"
  shows "length (numeral_of base val) < length (numeral_of base (Suc val)) \<or>
    length (numeral_of base val) = length (numeral_of base (Suc val)) \<and> hd (numeral_of base val) \<le> hd (numeral_of base (Suc val))"
proof -
  obtain n where n: "length (numeral_of base val) = Suc n" "n = 0 \<or> base ^ n \<le> val" "hd (numeral_of base val) = val div base ^ n"
    using numeral_shape [OF assms(1), of val] assms(2) by (metis Suc_lessD)
  obtain m where m: "length (numeral_of base (Suc val)) = Suc m" "Suc val < base ^ Suc m" "hd (numeral_of base (Suc val)) = Suc val div base ^ m"
    using numeral_shape [OF assms] by metis
  have "n \<le> m"
  proof (rule ccontr)
    assume "\<not> n \<le> m"
    then have "base ^ Suc m \<le> base ^ n" using assms(1) by (intro power_increasing) simp_all
    then show False using n(2) m(2) \<open>\<not> n \<le> m\<close> by auto
  qed
  then show ?thesis using n m by (auto simp: div_le_mono)
qed

lemma slots_mono:
  assumes v: "valid_counter rbits (Suc C) x"
  shows "cqf_enc_slots C x rbits \<le> cqf_enc_slots (Suc C) x rbits"
proof (cases "3 \<le> C")
  case True
  have vC: "valid_counter rbits C x" using v by (simp add: valid_counter_def)
  have b: "Suc (C - 3) < 2 ^ 64" "Suc C - 3 = Suc (C - 3)" using v True by (auto simp: valid_counter_def)
  note e = cqf_encode_eq [OF vC True] cqf_encode_eq [OF v le_SucI [OF True]]
  have "length (cqf_encode C x rbits CQF_ENC_BUF) \<le> length (cqf_encode (Suc C) x rbits CQF_ENC_BUF)"
    unfolding e b(2) using numeral_mono [OF base_bounds(1) [OF v] b(1)] by auto
  then show ?thesis using True by (auto simp: cqf_enc_slots_def Let_def)
next
  case False
  then consider "C \<le> 1" | "C = 2" by linarith
  then show ?thesis by cases (auto simp: cqf_enc_slots_def Let_def)
qed

section \<open>Property\<close>

text \<open>
  C33. Round trip of the counters. For every width, every remainder and every count from 3 up to \<open>2 ^ 31\<close> the symbols
  that \<open>cqf_encode\<close> writes are decoded to the count; there are at most 65 of them, they fit their slots and none is
  equal to the remainder, so that the next copy of the remainder marks the end of the counter.
\<close>

theorem cqf_counter_roundtrip:
  assumes "2 \<le> rbits" "rbits \<le> 32" "unat x < 2 ^ rbits" "3 \<le> C" "C < 2 ^ 31"
  shows "decode_count (cqf_encode C x rbits CQF_ENC_BUF) x rbits = C \<and> length (cqf_encode C x rbits CQF_ENC_BUF) \<le> 65 \<and>
    (\<forall>sy \<in> set (cqf_encode C x rbits CQF_ENC_BUF). unat sy < 2 ^ rbits \<and> sy \<noteq> x)"
proof -
  have v: "valid_counter rbits C x" using assms by (simp add: valid_counter_def)
  show ?thesis using decode_encode [OF v assms(4)] enc_symbols(2,3,5) [OF v assms(4)] by metis
qed

theorem cqf_counter_roundtrip_witness:
  "unat (5 :: u64) < 2 ^ 8 \<and> decode_count (cqf_encode 300 5 8 CQF_ENC_BUF) 5 8 = 300 \<and>
    length (cqf_encode 300 5 8 CQF_ENC_BUF) \<le> 65 \<and> 5 \<notin> set (cqf_encode 300 5 8 CQF_ENC_BUF)"
proof -
  have h: "2 \<le> (8 :: nat)" "(8 :: nat) \<le> 32" "unat (5 :: u64) < 2 ^ 8" "3 \<le> (300 :: nat)" "(300 :: nat) < 2 ^ 31" by simp_all
  show ?thesis using cqf_counter_roundtrip [OF h] h(3) by blast
qed

end
