(* ===== verification/Cqf.thy ===== *)
theory Cqf
  imports Cqf_Counter
begin

text \<open>
  The counting quotient filter (\<^verbatim>\<open>src/cqf_filter.c\<close>): the runs of the quotient filter, with the entries of a run
  sorted by remainder and each followed by its counter. The arrays behind the header are separate fields; the
  word-level rank and select and the packed remainders are those of \<open>Rank_Select\<close> and \<open>Remainders\<close>. Positions and
  counts are natural numbers; where the code subtracts without a guard the subtraction wraps. A write outside the
  slot array, undefined in C, changes nothing.
\<close>

unbundle bit_operations_syntax

section \<open>State\<close>

datatype cqf_err = CQF_OK | CQF_ERR_INVALID_PARAM | CQF_ERR_FULL | CQF_ERR_NOT_FOUND | CQF_ERR_ALLOC | CQF_ERR_OVERFLOW

record cqf_filter =
  qf_num_slots :: nat
  qf_num_blocks :: nat
  qf_count :: nat
  qf_distinct_count :: nat
  qf_remainder_bits :: nat
  qf_quotient_bits :: nat
  qf_entries_per_set :: nat
  qf_num_sets :: nat
  qf_remainder_mask :: u64
  qf_compat_version :: nat
  qf_hash_seed :: u64
  qf_occupieds :: "u64 list"
  qf_runends :: "u64 list"
  qf_phys_occ :: "u64 list"
  qf_occ_prefix :: "nat list"
  qf_run_prefix :: "nat list"
  qf_offsets :: "nat list"
  qf_table :: "u64 list"

section \<open>Slots\<close>

definition slot_get :: "cqf_filter \<Rightarrow> nat \<Rightarrow> u64" where
  "slot_get cf i = rem_get (qf_table cf) i (qf_remainder_bits cf) (qf_remainder_mask cf)"

definition slot_set :: "nat \<Rightarrow> u64 \<Rightarrow> cqf_filter \<Rightarrow> cqf_filter" where
  "slot_set i v cf = cf\<lparr>qf_table := rem_set (qf_table cf) i (qf_remainder_bits cf) (qf_remainder_mask cf) v\<rparr>"

definition run_set :: "nat \<Rightarrow> cqf_filter \<Rightarrow> cqf_filter" where
  "run_set i cf = cf\<lparr>qf_runends := set_bit_at (qf_runends cf) i\<rparr>"

definition run_clear :: "nat \<Rightarrow> cqf_filter \<Rightarrow> cqf_filter" where
  "run_clear i cf = cf\<lparr>qf_runends := clear_bit_at (qf_runends cf) i\<rparr>"

definition occ_set :: "nat \<Rightarrow> cqf_filter \<Rightarrow> cqf_filter" where
  "occ_set i cf = cf\<lparr>qf_occupieds := set_bit_at (qf_occupieds cf) i\<rparr>"

definition occ_clear :: "nat \<Rightarrow> cqf_filter \<Rightarrow> cqf_filter" where
  "occ_clear i cf = cf\<lparr>qf_occupieds := clear_bit_at (qf_occupieds cf) i\<rparr>"

definition phys_clear :: "nat \<Rightarrow> cqf_filter \<Rightarrow> cqf_filter" where
  "phys_clear i cf = cf\<lparr>qf_phys_occ := clear_bit_at (qf_phys_occ cf) i\<rparr>"

definition slot_is_free_cqf :: "cqf_filter \<Rightarrow> nat \<Rightarrow> bool" where
  "slot_is_free_cqf cf pos = (\<not> test_bit_at (qf_phys_occ cf) pos)"

definition track_phys_occ_cqf :: "nat \<Rightarrow> cqf_filter \<Rightarrow> cqf_filter" where
  "track_phys_occ_cqf pos cf = cf\<lparr>qf_phys_occ := set_bit_at (qf_phys_occ cf) pos\<rparr>"

definition move_phys_occ_cqf :: "nat \<Rightarrow> nat \<Rightarrow> cqf_filter \<Rightarrow> cqf_filter" where
  "move_phys_occ_cqf src dst cf =
     (if test_bit_at (qf_phys_occ cf) src
      then cf\<lparr>qf_phys_occ := clear_bit_at (set_bit_at (qf_phys_occ cf) dst) src\<rparr> else cf)"

text \<open>Emptying a slot, as the code does after every shift.\<close>

definition wipe_slot :: "nat \<Rightarrow> cqf_filter \<Rightarrow> cqf_filter" where
  "wipe_slot p cf = phys_clear p (run_clear p (slot_set p 0 cf))"

text \<open>The loops that move on while a condition holds below a bound.\<close>

function scan_up :: "(nat \<Rightarrow> bool) \<Rightarrow> nat \<Rightarrow> nat \<Rightarrow> nat" where
  "scan_up P stop i = (if i < stop \<and> P i then scan_up P stop (i + 1) else i)"
  by auto
termination by (relation "measure (\<lambda>(P, stop, i). stop - i)") auto

declare scan_up.simps [simp del]

section \<open>Rank, select and runs\<close>

definition rank_occ_fast :: "cqf_filter \<Rightarrow> nat \<Rightarrow> nat" where
  "rank_occ_fast cf pos =
     (let block = pos div 64; off = pos mod 64 in qf_occ_prefix cf ! block + rank64 (qf_occupieds cf ! block) off)"

definition select_run_fast :: "cqf_filter \<Rightarrow> nat \<Rightarrow> nat" where
  "select_run_fast cf k =
     (if k = 0 then 0
      else let nb = qf_num_blocks cf
           in if k > qf_run_prefix cf ! nb then sz_sub (qf_num_slots cf) 1
              else let lo = block_search (qf_run_prefix cf) k 0 nb; block = lo - 1
                   in block * 64 + select64 (qf_runends cf ! block) (k - qf_run_prefix cf ! block))"

definition run_start_cqf :: "cqf_filter \<Rightarrow> nat \<Rightarrow> nat" where
  "run_start_cqf cf k = (if k = 1 then 0 else (select_run_fast cf (sz_sub k 1) + 1) mod qf_num_slots cf)"

text \<open>
  The loop that goes round the slots backwards from a quotient until it meets an occupied one; \<open>i\<close> counts the
  iterations left.
\<close>

fun prev_occupied :: "cqf_filter \<Rightarrow> nat \<Rightarrow> nat \<Rightarrow> nat option" where
  "prev_occupied cf 0 search = None"
| "prev_occupied cf (Suc i) search =
     (let search = (if search = 0 then qf_num_slots cf else search) - 1
      in if test_bit_at (qf_occupieds cf) search then Some search else prev_occupied cf i search)"

definition find_run_cqf :: "cqf_filter \<Rightarrow> nat \<Rightarrow> (nat \<times> nat) option" where
  "find_run_cqf cf q =
     (if \<not> test_bit_at (qf_occupieds cf) q
      then if \<not> test_bit_at (qf_runends cf) q then None
           else case prev_occupied cf (qf_num_slots cf) q of
                  Some search \<Rightarrow> let prev_rk = rank_occ_fast cf search
                                 in Some (run_start_cqf cf prev_rk, select_run_fast cf prev_rk)
                | None \<Rightarrow> Some (run_start_cqf cf 1, q)
      else let rk = rank_occ_fast cf q in Some (run_start_cqf cf rk, select_run_fast cf rk))"

section \<open>Prefix sums and offsets\<close>

text \<open>The offsets are computed and never read.\<close>

function skip_words :: "u64 list \<Rightarrow> nat \<Rightarrow> nat \<Rightarrow> nat \<Rightarrow> nat \<times> nat" where
  "skip_words run occ_seen rw consumed =
     (if rw < length run
      then let w_pop = builtin_popcountll (run ! rw)
           in if consumed + w_pop \<ge> occ_seen then (rw, consumed) else skip_words run occ_seen (rw + 1) (consumed + w_pop)
      else (rw, consumed))"
  by auto
termination by (relation "measure (\<lambda>(run, occ_seen, rw, consumed). length run - rw)") auto

declare skip_words.simps [simp del]

definition offset_step :: "cqf_filter \<Rightarrow> nat list \<Rightarrow> nat \<Rightarrow> nat \<times> nat \<times> nat list \<Rightarrow> nat \<times> nat \<times> nat list" where
  "offset_step cf occ_p b st =
     (case st of (rw, consumed, off) \<Rightarrow>
        let blk_start = b * 64; occ_seen = occ_p ! (b + 1)
        in if occ_seen > 0
           then let (rw, consumed) = skip_words (qf_runends cf) occ_seen rw consumed;
                    e = (if rw < qf_num_blocks cf then rw * 64 + select64 (qf_runends cf ! rw) (occ_seen - consumed)
                         else sz_sub (qf_num_slots cf) 1);
                    o0 = (if e > blk_start then e - blk_start else 0)
                in (rw, consumed, off[b := if o0 > 255 then 255 else o0])
           else (rw, consumed, off[b := 0]))"

definition update_offsets :: "cqf_filter \<Rightarrow> cqf_filter" where
  "update_offsets cf =
     (let nb = qf_num_blocks cf;
          occ_p = fold (prefix_step (qf_occupieds cf)) [0..<nb] ((qf_occ_prefix cf)[0 := 0]);
          run_p = fold (prefix_step (qf_runends cf)) [0..<nb] ((qf_run_prefix cf)[0 := 0]);
          (rw, consumed, off) = fold (offset_step cf occ_p) [0..<nb] (0, 0, qf_offsets cf)
      in cf\<lparr>qf_occ_prefix := occ_p, qf_run_prefix := run_p, qf_offsets := off\<rparr>)"

section \<open>Shifting right\<close>

definition shift_step :: "nat \<Rightarrow> cqf_filter \<Rightarrow> cqf_filter" where
  "shift_step i cf =
     (let v = slot_get cf (i - 1);
          cf = move_phys_occ_cqf (i - 1) i (slot_set i v cf);
          cf = (if test_bit_at (qf_runends cf) (i - 1) then run_clear (i - 1) (run_set i cf) else cf)
      in slot_set (i - 1) 0 cf)"

definition shift_range_right :: "nat \<Rightarrow> nat \<Rightarrow> cqf_filter \<Rightarrow> cqf_filter" where
  "shift_range_right from to cf =
     (let ns = qf_num_slots cf
      in if from < to then update_offsets (fold shift_step (rev [from + 1..<to + 1]) cf)
         else if from > to
         then let last_val = slot_get cf (ns - 1);
                  last_run = test_bit_at (qf_runends cf) (ns - 1);
                  cf = fold shift_step (rev [from + 1..<ns]) cf;
                  cf = fold shift_step (rev [1..<to + 1]) cf;
                  cf = slot_set 0 last_val cf;
                  cf = (if last_run then run_set 0 cf else run_clear 0 cf)
              in update_offsets (phys_clear (ns - 1) (run_clear (ns - 1) cf))
         else cf)"

section \<open>Lifecycle\<close>

text \<open>
  \<open>num_slots\<close> is doubled until it reaches the capacity; beyond \<open>2 ^ 63\<close> it becomes 0 and the loop does not end. The
  outer option of \<open>cqf_filter_create\<close> is whether the call returns, the inner one the pointer.
\<close>

partial_function (option) slots_loop :: "nat \<Rightarrow> nat \<Rightarrow> nat option" where
  "slots_loop cap n = (if n < cap then slots_loop cap (sz_mul n 2) else Some n)"

definition remainder_words :: "nat \<Rightarrow> nat \<Rightarrow> nat" where
  "remainder_words num_slots rbits = sz_add (sz_mul num_slots rbits) 63 div 64"

definition cqf_filter_create :: "nat \<Rightarrow> u8 \<Rightarrow> bool \<Rightarrow> cqf_filter option option" where
  "cqf_filter_create capacity fp_bits alloc =
     (if capacity = 0 then Some None
      else let fp = unat (if fp_bits = 0 then 10 else fp_bits);
               fp = (if fp < 2 then 2 else fp);
               rbits = (if fp > 32 then 32 else fp)
           in case slots_loop capacity 1 of
                None \<Rightarrow> None
              | Some n \<Rightarrow>
                  let num_slots = (if n < 64 then 64 else n);
                      num_blocks = num_slots div 64;
                      qb = log2_loop num_slots 0
                  in if qb + rbits > 64 \<or> \<not> alloc then Some None
                     else Some (Some \<lparr>qf_num_slots = num_slots, qf_num_blocks = num_blocks, qf_count = 0, qf_distinct_count = 0,
                            qf_remainder_bits = rbits, qf_quotient_bits = qb, qf_entries_per_set = 0, qf_num_sets = 0,
                            qf_remainder_mask = push_bit rbits 1 - 1, qf_compat_version = 1, qf_hash_seed = 0,
                            qf_occupieds = replicate num_blocks 0, qf_runends = replicate num_blocks 0, qf_phys_occ = replicate num_blocks 0,
                            qf_occ_prefix = replicate (num_blocks + 1) 0, qf_run_prefix = replicate (num_blocks + 1) 0,
                            qf_offsets = replicate num_blocks 0, qf_table = replicate (remainder_words num_slots rbits) 0\<rparr>))"

definition cqf_filter_reset :: "cqf_filter \<Rightarrow> cqf_err \<times> cqf_filter" where
  "cqf_filter_reset cf =
     (let nb = qf_num_blocks cf
      in (CQF_OK, cf\<lparr>qf_occupieds := replicate nb 0, qf_runends := replicate nb 0, qf_phys_occ := replicate nb 0,
            qf_occ_prefix := replicate (nb + 1) 0, qf_run_prefix := replicate (nb + 1) 0, qf_offsets := replicate nb 0,
            qf_table := replicate (remainder_words (qf_num_slots cf) (qf_remainder_bits cf)) 0, qf_count := 0, qf_distinct_count := 0\<rparr>))"

section \<open>Decoding an entry\<close>

text \<open>The symbols of a counter of remainder 0, up to the two zeros that end it.\<close>

function read_zero_enc :: "cqf_filter \<Rightarrow> nat \<Rightarrow> nat \<Rightarrow> u64 list \<times> nat" where
  "read_zero_enc cf rend i =
     (if i \<le> rend
      then let sy = slot_get cf i; i = i + 1
           in if sy = 0 \<and> i \<le> rend \<and> slot_get cf i = 0 then ([], i + 1)
              else let (enc, j) = read_zero_enc cf rend i in (sy # enc, j)
      else ([], i))"
  by auto
termination by (relation "measure (\<lambda>(cf, rend, i). rend + 1 - i)") auto

declare read_zero_enc.simps [simp del]

definition decode_zero :: "cqf_filter \<Rightarrow> nat \<Rightarrow> nat \<Rightarrow> nat \<times> nat" where
  "decode_zero cf rend pos =
     (let i = scan_up (\<lambda>i. slot_get cf i = 0) (rend + 1) (pos + 1);
          zero_cnt = i - pos
      in if zero_cnt > 2 then (1, pos + 1)
         else if zero_cnt = 2 \<and> i \<le> rend \<and> slot_get cf i \<noteq> 0
         then let si = scan_up (\<lambda>i. slot_get cf i \<noteq> 0) (rend + 1) i
              in if si \<le> rend \<and> si + 1 \<le> rend \<and> slot_get cf (si + 1) = 0
                 then let (enc, i) = read_zero_enc cf rend i
                      in (decode_count (take CQF_ENC_BUF enc) 0 (qf_remainder_bits cf), i)
                 else (zero_cnt, i)
         else (zero_cnt, i))"

definition decode_nonzero :: "cqf_filter \<Rightarrow> nat \<Rightarrow> nat \<Rightarrow> u64 \<Rightarrow> nat \<times> nat" where
  "decode_nonzero cf rend pos val =
     (let j = scan_up (\<lambda>j. slot_get cf j \<noteq> val) (rend + 1) (pos + 1)
      in if j > rend then (1, pos + 1)
         else if j = pos + 1 then (2, j + 1)
         else (decode_count (take CQF_ENC_BUF (map (slot_get cf) [pos + 1..<j])) val (qf_remainder_bits cf), j + 1))"

text \<open>The result is the position behind the entry, its remainder and its count.\<close>

definition cqf_decode_entry :: "cqf_filter \<Rightarrow> nat \<Rightarrow> nat \<Rightarrow> (nat \<times> u64 \<times> nat) option" where
  "cqf_decode_entry cf rend pos =
     (if pos > rend then None
      else let pos = scan_up (slot_is_free_cqf cf) (rend + 1) pos
           in if pos > rend then None
              else let val = slot_get cf pos;
                       (dec_cnt, i) = (if val = 0 then decode_zero cf rend pos else decode_nonzero cf rend pos val)
                   in if i - pos \<noteq> cqf_enc_slots dec_cnt val (qf_remainder_bits cf) then None else Some (i, val, dec_cnt))"

lemma scan_up_ge: "i \<le> scan_up P stop i"
proof (induction P stop i rule: scan_up.induct)
  case (1 P stop i)
  then show ?case by (subst scan_up.simps) auto
qed

lemma decode_advances:
  assumes "cqf_decode_entry cf rend pos = Some (i, x, c)"
  shows "pos \<le> rend" "pos < i"
proof -
  have "1 \<le> cqf_enc_slots c x (qf_remainder_bits cf)" by (simp add: cqf_enc_slots_def Let_def)
  then show "pos \<le> rend" "pos < i" using assms scan_up_ge [of pos "slot_is_free_cqf cf" "rend + 1"]
    by (auto simp: cqf_decode_entry_def Let_def split: if_splits prod.splits)
qed

text \<open>
  The loop over the entries of a run, the same in every operation: position of an entry, position behind it,
  remainder and count. A run with \<open>rstart > rend\<close> is read in two segments.
\<close>

function run_scan :: "cqf_filter \<Rightarrow> nat \<Rightarrow> nat \<Rightarrow> nat \<Rightarrow> bool \<Rightarrow> (nat \<times> nat \<times> u64 \<times> nat) list" where
  "run_scan cf rstart rend pos wrapped_once =
     (if \<not> rstart > rend \<and> pos > rend then []
      else if rstart > rend \<and> pos < rstart \<and> pos > rend then []
      else case cqf_decode_entry cf rend pos of
             None \<Rightarrow> if rstart > rend \<and> \<not> wrapped_once then run_scan cf rstart rend 0 True else []
           | Some (i, rem, dec_cnt) \<Rightarrow>
               if rstart > rend \<and> \<not> wrapped_once \<and> i \<ge> qf_num_slots cf
               then (pos, 0, rem, dec_cnt) # run_scan cf rstart rend 0 True
               else (pos, i, rem, dec_cnt) # run_scan cf rstart rend i wrapped_once)"
  by pat_completeness auto
termination
  by (relation "measures [\<lambda>(cf, rstart, rend, pos, w). if w then 0 else 1, \<lambda>(cf, rstart, rend, pos, w). rend + 1 - pos]")
    (auto dest: decode_advances simp: diff_less_mono2)

declare run_scan.simps [simp del]

section \<open>Replacing an entry\<close>

primrec slots_put :: "nat \<Rightarrow> u64 list \<Rightarrow> cqf_filter \<Rightarrow> cqf_filter" where
  "slots_put pos [] cf = cf"
| "slots_put pos (v # vs) cf = slots_put (pos + 1) vs (slot_set pos v cf)"

definition cqf_write_entry :: "nat \<Rightarrow> u64 \<Rightarrow> nat \<Rightarrow> cqf_filter \<Rightarrow> nat \<times> cqf_filter" where
  "cqf_write_entry pos x C cf =
     (let cf = slot_set pos x cf
      in if C \<le> 1 then (1, cf)
         else if C = 2 then (2, slot_set (pos + 1) x cf)
         else let enc = cqf_encode C x (qf_remainder_bits cf) CQF_ENC_BUF; n = length enc
              in if x = 0
                 then (4 + n, slot_set (pos + 3 + n) 0 (slot_set (pos + 2 + n) 0 (slots_put (pos + 2) enc (slot_set (pos + 1) 0 cf))))
                 else (2 + n, slot_set (pos + 1 + n) x (slots_put (pos + 1) enc cf)))"

text \<open>The counter of an entry that keeps its size.\<close>

definition rewrite_counter :: "nat \<Rightarrow> u64 \<Rightarrow> nat \<Rightarrow> nat \<Rightarrow> cqf_filter \<Rightarrow> cqf_filter" where
  "rewrite_counter pos rem old_count new_count cf =
     (let new_enc = cqf_encode new_count rem (qf_remainder_bits cf) CQF_ENC_BUF
      in if new_enc \<noteq> []
         then if rem = 0 \<and> old_count \<ge> 3 then slots_put (pos + 2) new_enc cf
              else if rem \<noteq> 0 \<and> old_count > 2 then slots_put (pos + 1) new_enc cf
              else cf
         else cf)"

text \<open>The slots from \<open>data_after\<close> to \<open>shift_limit\<close>, round the end of the array when the run is wrapped.\<close>

definition tail_slots :: "nat \<Rightarrow> nat \<Rightarrow> nat \<Rightarrow> nat \<Rightarrow> nat \<Rightarrow> nat" where
  "tail_slots ns rstart rend data_after shift_limit =
     (if rstart \<le> rend then if data_after \<le> shift_limit then shift_limit - data_after + 1 else 0
      else let da_mod = data_after mod ns; sl_mod = shift_limit mod ns
           in if da_mod \<le> sl_mod then sl_mod - da_mod + 1 else ns - da_mod + sl_mod + 1)"

definition move_slot :: "nat \<Rightarrow> nat \<Rightarrow> cqf_filter \<Rightarrow> cqf_filter" where
  "move_slot src dst cf =
     (let cf = move_phys_occ_cqf src dst (slot_set dst (slot_get cf src) cf)
      in if test_bit_at (qf_runends cf) src then run_clear src (run_set dst cf) else run_clear dst cf)"

definition move_tail :: "nat \<Rightarrow> nat \<Rightarrow> nat \<Rightarrow> cqf_filter \<Rightarrow> cqf_filter" where
  "move_tail data_after new_data_start tail cf =
     (let step = (\<lambda>k. move_slot ((data_after + k) mod qf_num_slots cf) ((new_data_start + k) mod qf_num_slots cf))
      in if new_data_start < data_after then fold step [0..<tail] cf else fold step (rev [0..<tail]) cf)"

definition last_runend :: "cqf_filter \<Rightarrow> nat \<Rightarrow> nat" where
  "last_runend cf none =
     (let total_occ_rk = rank_occ_fast cf (qf_num_slots cf - 1)
      in if total_occ_rk > 0 then select_run_fast cf total_occ_rk else none)"

definition clear_stale :: "nat \<Rightarrow> nat \<Rightarrow> cqf_filter \<Rightarrow> cqf_filter" where
  "clear_stale new_last_slot shift_limit cf =
     (if new_last_slot + 1 \<le> shift_limit then fold wipe_slot [new_last_slot + 1..<shift_limit + 1] cf
      else if new_last_slot + 1 < qf_num_slots cf \<or> shift_limit > 0
      then fold wipe_slot [0..<shift_limit + 1] (fold wipe_slot [new_last_slot + 1..<qf_num_slots cf] cf)
      else cf)"

text \<open>
  An entry gets a counter of another size: the tail is shifted, the entry written anew, its runend put in place
  and, when the entry has become shorter, the slots behind the tail are emptied.
\<close>

definition replace_entry :: "nat \<Rightarrow> nat \<Rightarrow> nat \<Rightarrow> nat \<Rightarrow> nat \<Rightarrow> nat \<Rightarrow> nat \<Rightarrow> u64 \<Rightarrow> nat \<Rightarrow> cqf_filter \<Rightarrow> cqf_filter" where
  "replace_entry rend pos old_slots new_slots tail shift_limit ns rem new_count cf =
     (let data_after = pos + old_slots; new_data_start = pos + new_slots;
          cf = move_tail data_after new_data_start tail cf;
          cf = fold wipe_slot [pos..<new_data_start] cf;
          (slots_written, cf) = cqf_write_entry pos rem new_count cf;
          cf = fold track_phys_occ_cqf [pos..<pos + slots_written] cf;
          new_rend = (if rend + new_slots \<ge> old_slots then (rend + new_slots - old_slots) mod ns
                      else sz_add (sz_add (sz_sub rend old_slots) new_slots) ns mod ns);
          cf = run_set new_rend (run_clear new_rend cf)
      in if new_slots < old_slots
         then clear_stale (if tail > 0 then (new_data_start + tail - 1) mod ns else sz_sub new_data_start 1 mod ns) shift_limit cf
         else cf)"

section \<open>Insertion\<close>

definition cqf_hash_quotient :: "cqf_filter \<Rightarrow> u64 \<Rightarrow> nat" where
  "cqf_hash_quotient cf hash = unat (drop_bit (qf_remainder_bits cf) hash AND word_of_nat (sz_sub (qf_num_slots cf) 1))"

definition cqf_hash_remainder :: "cqf_filter \<Rightarrow> u64 \<Rightarrow> u64" where
  "cqf_hash_remainder cf hash = hash AND qf_remainder_mask cf"

definition find_free :: "cqf_filter \<Rightarrow> nat \<Rightarrow> nat option" where
  "find_free cf scan_start =
     (let n = scan_up (\<lambda>n. \<not> slot_is_free_cqf cf n) (qf_num_slots cf) scan_start
      in if n \<ge> qf_num_slots cf
         then let n = scan_up (\<lambda>n. \<not> slot_is_free_cqf cf n) scan_start 0
              in if n \<ge> scan_start then None else Some n
         else Some n)"

definition open_slot_cqf :: "nat \<Rightarrow> nat \<Rightarrow> u64 \<Rightarrow> cqf_filter \<Rightarrow> cqf_filter" where
  "open_slot_cqf ins_pos free_slot rem cf =
     track_phys_occ_cqf ins_pos (slot_set ins_pos rem (if ins_pos \<noteq> free_slot then shift_range_right ins_pos free_slot cf else cf))"

definition count_new :: "cqf_filter \<Rightarrow> cqf_filter" where
  "count_new cf = cf\<lparr>qf_count := sz_add (qf_count cf) 1, qf_distinct_count := sz_add (qf_distinct_count cf) 1\<rparr>"

definition create_run :: "cqf_filter \<Rightarrow> nat \<Rightarrow> u64 \<Rightarrow> nat \<Rightarrow> nat \<Rightarrow> cqf_err \<times> cqf_filter" where
  "create_run cf q rem rk s =
     (let last_slot_occ = last_runend cf s;
          ins_pos = (if rk = 0 then 0 else (s + 1) mod qf_num_slots cf);
          scan_start = (last_slot_occ + 1) mod qf_num_slots cf
      in case find_free cf scan_start of
           None \<Rightarrow> (CQF_ERR_FULL, cf)
         | Some free_slot \<Rightarrow>
             (CQF_OK, update_offsets (count_new (occ_set q (run_set ins_pos (open_slot_cqf ins_pos free_slot rem cf))))))"

definition bump_entry :: "cqf_filter \<Rightarrow> nat \<Rightarrow> nat \<Rightarrow> nat \<Rightarrow> nat \<Rightarrow> u64 \<Rightarrow> nat \<Rightarrow> cqf_err \<times> cqf_filter" where
  "bump_entry cf rstart rend saved_pos scan_pos rem dec_cnt =
     (let ns = qf_num_slots cf; new_count = sz_add dec_cnt 1
      in if new_count = 0 then (CQF_ERR_OVERFLOW, cf)
         else let new_slots = cqf_enc_slots new_count rem (qf_remainder_bits cf); old_slots = sz_sub scan_pos saved_pos
              in if new_slots = old_slots
                 then let cf = (if new_count > 2 then rewrite_counter saved_pos rem dec_cnt new_count cf else cf)
                      in (CQF_OK, update_offsets (cf\<lparr>qf_count := sz_add (qf_count cf) 1\<rparr>))
                 else let shift_limit = (if new_slots < old_slots then rend else last_runend cf rend);
                          tail = tail_slots ns rstart rend (saved_pos + old_slots) shift_limit
                      in if new_slots > old_slots \<and> rstart \<le> rend \<and> saved_pos + new_slots + tail > ns then (CQF_ERR_FULL, cf)
                         else let cf = replace_entry rend saved_pos old_slots new_slots tail shift_limit ns rem new_count cf
                              in (CQF_OK, update_offsets (cf\<lparr>qf_count := sz_add (qf_count cf) 1\<rparr>)))"

definition insert_distinct :: "cqf_filter \<Rightarrow> nat \<Rightarrow> nat \<Rightarrow> u64 \<Rightarrow> cqf_err \<times> cqf_filter" where
  "insert_distinct cf rend ins_pos rem =
     (let scan_start = (last_runend cf rend + 1) mod qf_num_slots cf
      in case find_free cf scan_start of
           None \<Rightarrow> (CQF_ERR_FULL, cf)
         | Some free_slot \<Rightarrow>
             let cf = open_slot_cqf ins_pos free_slot rem cf;
                 cf = (if (rend + 1) mod qf_num_slots cf = ins_pos then run_set ins_pos (run_clear rend cf) else cf)
             in (CQF_OK, update_offsets (count_new cf)))"

text \<open>The entry of the remainder (left) or the position where it belongs (right).\<close>

fun locate :: "u64 \<Rightarrow> nat \<Rightarrow> (nat \<times> nat \<times> u64 \<times> nat) list \<Rightarrow> (nat \<times> nat \<times> nat) + nat" where
  "locate rem ins_pos [] = Inr ins_pos"
| "locate rem ins_pos ((saved_pos, scan_pos, dec_rem, dec_cnt) # es) =
     (if dec_rem = rem then Inl (saved_pos, scan_pos, dec_cnt)
      else if dec_rem > rem then Inr saved_pos
      else locate rem scan_pos es)"

definition cqf_filter_insert :: "cqf_filter \<Rightarrow> u64 \<Rightarrow> cqf_err \<times> cqf_filter" where
  "cqf_filter_insert cf hash =
     (if qf_count cf \<ge> sz_mul (qf_num_slots cf) 16 then (CQF_ERR_FULL, cf)
      else let q = cqf_hash_quotient cf hash; rem = cqf_hash_remainder cf hash;
               rk = rank_occ_fast cf q; s = select_run_fast cf rk
           in if \<not> test_bit_at (qf_occupieds cf) q then create_run cf q rem rk s
              else let rstart = (if rk > 1 then select_run_fast cf (rk - 1) + 1 else 0); rend = s
                   in case locate rem ((rend + 1) mod qf_num_slots cf) (run_scan cf rstart rend rstart False) of
                        Inl (saved_pos, scan_pos, dec_cnt) \<Rightarrow> bump_entry cf rstart rend saved_pos scan_pos rem dec_cnt
                      | Inr ins_pos \<Rightarrow> insert_distinct cf rend ins_pos rem)"

section \<open>Deletion\<close>

text \<open>The slots of a run, in the order in which the code visits them.\<close>

definition run_slots :: "nat \<Rightarrow> nat \<Rightarrow> nat \<Rightarrow> nat list" where
  "run_slots ns rstart rend = (if rstart \<le> rend then [rstart..<rend + 1] else [rstart..<ns] @ [0..<rend + 1])"

text \<open>The last copy goes: the rest of the run moves left.\<close>

definition remove_entry :: "cqf_filter \<Rightarrow> nat \<Rightarrow> nat \<Rightarrow> nat \<Rightarrow> nat \<Rightarrow> nat \<Rightarrow> cqf_filter" where
  "remove_entry cf q rstart rend found_i old_slots =
     (let ns = qf_num_slots cf; data_after = found_i + old_slots;
          tail = tail_slots ns rstart rend data_after rend;
          cf = fold (\<lambda>k. move_slot ((data_after + k) mod ns) ((found_i + k) mod ns)) [0..<tail] cf;
          stale_start = (found_i + tail) mod ns;
          cf = (if tail > 0 then fold wipe_slot (run_slots ns stale_start rend) cf else cf);
          full_distance = (if rstart \<le> rend then rend - rstart + 1 else ns - rstart + rend + 1);
          run_empty = (old_slots \<ge> full_distance);
          cf = (if run_empty then occ_clear q cf else cf);
          cf = fold run_clear (run_slots ns rstart rend) cf;
          new_rend = (if tail > 0 then (found_i + tail - 1) mod ns else if found_i > 0 then found_i - 1 else sz_sub ns 1);
          cf = (if run_empty then cf else run_set new_rend cf);
          cf = cf\<lparr>qf_count := sz_sub (qf_count cf) 1\<rparr>
      in update_offsets (if run_empty then cf\<lparr>qf_distinct_count := sz_sub (qf_distinct_count cf) 1\<rparr> else cf))"

definition drop_copy :: "cqf_filter \<Rightarrow> nat \<Rightarrow> nat \<Rightarrow> nat \<Rightarrow> nat \<Rightarrow> u64 \<Rightarrow> nat \<Rightarrow> cqf_filter" where
  "drop_copy cf rstart rend found_i old_slots rem old_count =
     (let new_count = sz_sub old_count 1; new_slots = cqf_enc_slots new_count rem (qf_remainder_bits cf)
      in if new_slots = old_slots \<and> old_count > 2
         then let cf = rewrite_counter found_i rem old_count new_count cf in cf\<lparr>qf_count := sz_sub (qf_count cf) 1\<rparr>
         else let ns = qf_num_slots cf; shift_limit = last_runend cf rend;
                  tail = tail_slots ns rstart rend (found_i + old_slots) shift_limit;
                  cf = replace_entry rend found_i old_slots new_slots tail shift_limit ns rem new_count cf
              in update_offsets (cf\<lparr>qf_count := sz_sub (qf_count cf) 1\<rparr>))"

definition cqf_filter_delete :: "cqf_filter \<Rightarrow> u64 \<Rightarrow> cqf_err \<times> cqf_filter" where
  "cqf_filter_delete cf hash =
     (if qf_count cf = 0 then (CQF_ERR_NOT_FOUND, cf)
      else let q = cqf_hash_quotient cf hash; rem = cqf_hash_remainder cf hash
           in case find_run_cqf cf q of
                None \<Rightarrow> (CQF_ERR_NOT_FOUND, cf)
              | Some (rstart, rend) \<Rightarrow>
                  (case locate rem 0 (run_scan cf rstart rend rstart False) of
                     Inr _ \<Rightarrow> (CQF_ERR_NOT_FOUND, cf)
                   | Inl (found_i, scan_pos, old_count) \<Rightarrow>
                       let old_slots = sz_sub scan_pos found_i
                       in (CQF_OK, if sz_sub old_count 1 = 0 then remove_entry cf q rstart rend found_i old_slots
                                   else drop_copy cf rstart rend found_i old_slots rem old_count)))"

section \<open>Queries\<close>

definition cqf_filter_lookup :: "cqf_filter \<Rightarrow> u64 \<Rightarrow> bool" where
  "cqf_filter_lookup cf hash =
     (if qf_count cf = 0 then False
      else let q = cqf_hash_quotient cf hash; rem = cqf_hash_remainder cf hash
           in case find_run_cqf cf q of
                None \<Rightarrow> False
              | Some (rstart, rend) \<Rightarrow> (case locate rem 0 (run_scan cf rstart rend rstart False) of Inl _ \<Rightarrow> True | Inr _ \<Rightarrow> False))"

fun count_scan :: "u64 \<Rightarrow> (nat \<times> nat \<times> u64 \<times> nat) list \<Rightarrow> nat" where
  "count_scan rem [] = 0"
| "count_scan rem ((saved_pos, scan_pos, dec_rem, dec_cnt) # es) =
     (if dec_rem = rem then dec_cnt else if rem \<noteq> 0 \<and> dec_rem > rem then 0 else count_scan rem es)"

definition cqf_filter_count_occurrences :: "cqf_filter \<Rightarrow> u64 \<Rightarrow> nat" where
  "cqf_filter_count_occurrences cf hash =
     (if qf_count cf = 0 then 0
      else let q = cqf_hash_quotient cf hash; rem = cqf_hash_remainder cf hash
           in case find_run_cqf cf q of
                None \<Rightarrow> 0
              | Some (rstart, rend) \<Rightarrow> count_scan rem (run_scan cf rstart rend rstart False))"

text \<open>All pairs of a fingerprint and its count.\<close>

definition enumerate_pairs :: "cqf_filter \<Rightarrow> (u64 \<times> nat) list" where
  "enumerate_pairs cf =
     concat (map (\<lambda>q.
       let rk = rank_occ_fast cf q; rend = select_run_fast cf rk;
           rstart = (if rk > 1 then select_run_fast cf (rk - 1) + 1 else 0)
       in map (\<lambda>(saved_pos, pos, rem, dec_cnt). (push_bit (qf_remainder_bits cf) (word_of_nat q) OR rem, dec_cnt))
            (run_scan cf rstart rend rstart False))
       (filter (test_bit_at (qf_occupieds cf)) [0..<qf_num_slots cf]))"

section \<open>Resizing and merging\<close>

text \<open>
  One fingerprint is inserted as often as it was counted; when an insertion fails the new filter is resized to twice
  its size (the parameter \<open>resize\<close>) and the insertion repeated, its result ignored. Outcomes of the allocations to
  come are threaded through; the outer option is whether the call returns.
\<close>

type_synonym resizer = "cqf_filter \<Rightarrow> nat \<Rightarrow> bool list \<Rightarrow> (cqf_filter option \<times> bool list) option"

fun insert_copies :: "resizer \<Rightarrow> u64 \<Rightarrow> nat \<Rightarrow> cqf_filter \<Rightarrow> bool list \<Rightarrow> (cqf_filter option \<times> bool list) option" where
  "insert_copies resize fp 0 out as = Some (Some out, as)"
| "insert_copies resize fp (Suc c) out as =
     (case cqf_filter_insert out fp of
        (CQF_OK, out) \<Rightarrow> insert_copies resize fp c out as
      | (_, out) \<Rightarrow>
          (case resize out (sz_mul (qf_num_slots out) 2) as of
             None \<Rightarrow> None
           | Some (None, as) \<Rightarrow> Some (None, as)
           | Some (Some new_out, as) \<Rightarrow> insert_copies resize fp c (snd (cqf_filter_insert new_out fp)) as))"

fun insert_pairs :: "resizer \<Rightarrow> (u64 \<times> nat) list \<Rightarrow> cqf_filter \<Rightarrow> bool list \<Rightarrow> (cqf_filter option \<times> bool list) option" where
  "insert_pairs resize [] out as = Some (Some out, as)"
| "insert_pairs resize ((fp, c) # ps) out as =
     (case insert_copies resize fp c out as of
        None \<Rightarrow> None
      | Some (None, as) \<Rightarrow> Some (None, as)
      | Some (Some out, as) \<Rightarrow> insert_pairs resize ps out as)"

definition create_with :: "nat \<Rightarrow> nat \<Rightarrow> bool list \<Rightarrow> (cqf_filter option \<times> bool list) option" where
  "create_with capacity rbits as =
     (let (ok, as') = take_alloc as
      in map_option (\<lambda>r. (r, as')) (cqf_filter_create capacity (word_of_nat rbits) ok))"

text \<open>
  The recursion doubles the slots of a filter that \<open>cqf_filter_create\<close> made, and that function refuses \<open>2 ^ 63\<close> slots,
  so 64 levels are enough.
\<close>

fun resize_levels :: "nat \<Rightarrow> resizer" where
  "resize_levels 0 cf new_capacity as = None"
| "resize_levels (Suc level) cf new_capacity as =
     (let pairs = enumerate_pairs cf; n = length pairs; rbits = qf_remainder_bits cf
      in if n = 0 then create_with new_capacity rbits as
         else let (ok1, as) = take_alloc as; (ok2, as) = take_alloc as
              in if \<not> ok1 \<or> \<not> ok2 then Some (None, as)
                 else let capacity = (if new_capacity > 0 then new_capacity else sz_mul n 2)
                      in if capacity < n then Some (None, as)
                         else case create_with capacity rbits as of
                                None \<Rightarrow> None
                              | Some (None, as) \<Rightarrow> Some (None, as)
                              | Some (Some out, as) \<Rightarrow> insert_pairs (resize_levels level) pairs out as)"

definition cqf_filter_resize :: resizer where
  "cqf_filter_resize = resize_levels 64"

definition cqf_filter_merge :: "cqf_filter \<Rightarrow> cqf_filter \<Rightarrow> bool list \<Rightarrow> (cqf_filter option \<times> bool list) option" where
  "cqf_filter_merge cf1 cf2 as =
     (if qf_remainder_bits cf1 \<noteq> qf_remainder_bits cf2 \<or> qf_compat_version cf1 \<noteq> qf_compat_version cf2 \<or>
         qf_hash_seed cf1 \<noteq> qf_hash_seed cf2 \<or> qf_num_slots cf1 \<noteq> qf_num_slots cf2 then Some (None, as)
      else let pairs = enumerate_pairs cf1 @ enumerate_pairs cf2
           in if pairs = [] then create_with 64 (qf_remainder_bits cf1) as
              else let (ok1, as) = take_alloc as; (ok2, as) = take_alloc as
                   in if \<not> ok1 \<or> \<not> ok2 then Some (None, as)
                      else case create_with (qf_num_slots cf1) (qf_remainder_bits cf1) as of
                             None \<Rightarrow> None
                           | Some (None, as) \<Rightarrow> Some (None, as)
                           | Some (Some out, as) \<Rightarrow> insert_pairs cqf_filter_resize pairs (out\<lparr>qf_hash_seed := qf_hash_seed cf1\<rparr>) as)"

section \<open>Statistics and validation\<close>

definition cqf_filter_count :: "cqf_filter \<Rightarrow> nat" where
  "cqf_filter_count cf = qf_count cf"

definition cqf_filter_distinct_count :: "cqf_filter \<Rightarrow> nat" where
  "cqf_filter_distinct_count cf = qf_distinct_count cf"

definition cqf_filter_capacity :: "cqf_filter \<Rightarrow> nat" where
  "cqf_filter_capacity cf = qf_num_slots cf"

definition meta_padded_size :: "cqf_filter \<Rightarrow> nat" where
  "meta_padded_size cf = (let total = sz_add (sz_mul (qf_num_blocks cf) 41) 16 in sz_add total 7 div 8 * 8)"

definition cqf_filter_memory_bytes :: "cqf_filter \<Rightarrow> nat" where
  "cqf_filter_memory_bytes cf =
     sz_add (sz_add 64 (meta_padded_size cf)) (sz_mul (remainder_words (qf_num_slots cf) (qf_remainder_bits cf)) 8)"

definition cqf_filter_validate :: "cqf_filter \<Rightarrow> bool" where
  "cqf_filter_validate cf =
     (sum_list (map builtin_popcountll (qf_occupieds cf)) = sum_list (map builtin_popcountll (qf_runends cf)) \<and>
      (\<forall>q \<in> set [0..<qf_num_slots cf]. test_bit_at (qf_occupieds cf) q \<longrightarrow> select_run_fast cf (rank_occ_fast cf q) < qf_num_slots cf))"

definition cqf_quotient :: "u64 \<Rightarrow> nat \<Rightarrow> u64" where
  "cqf_quotient hash quotient_bits = drop_bit (64 - quotient_bits) hash"

definition cqf_remainder :: "u64 \<Rightarrow> nat \<Rightarrow> u64" where
  "cqf_remainder hash rbits = hash AND (push_bit rbits 1 - 1)"

end
