(* ===== verification/Cqf_View.thy ===== *)
theory Cqf_View
  imports Cqf
begin

text \<open>
  The counting quotient filter slot by slot: the remainder, the runend bit and the occupancy bit of every slot, and
  what the elementary updates and the loops that shift, empty and write slots do to them.
\<close>

unbundle bit_operations_syntax

section \<open>Shape and view\<close>

definition cqf_shape :: "cqf_filter \<Rightarrow> bool" where
  "cqf_shape cf \<longleftrightarrow>
     0 < qf_num_blocks cf \<and> qf_num_slots cf = 64 * qf_num_blocks cf \<and> qf_num_slots cf \<le> 2 ^ 58 \<and>
     2 \<le> qf_remainder_bits cf \<and> qf_remainder_bits cf \<le> 32 \<and> qf_remainder_mask cf = mask (qf_remainder_bits cf) \<and>
     length (qf_occupieds cf) = qf_num_blocks cf \<and> length (qf_runends cf) = qf_num_blocks cf \<and>
     length (qf_phys_occ cf) = qf_num_blocks cf \<and> length (qf_occ_prefix cf) = Suc (qf_num_blocks cf) \<and>
     length (qf_run_prefix cf) = Suc (qf_num_blocks cf) \<and> qf_num_blocks cf * qf_remainder_bits cf \<le> length (qf_table cf)"

abbreviation qf_oc :: "cqf_filter \<Rightarrow> nat \<Rightarrow> bool" where
  "qf_oc cf \<equiv> tbit (qf_occupieds cf)"

abbreviation qf_rn :: "cqf_filter \<Rightarrow> nat \<Rightarrow> bool" where
  "qf_rn cf \<equiv> tbit (qf_runends cf)"

abbreviation qf_ph :: "cqf_filter \<Rightarrow> nat \<Rightarrow> bool" where
  "qf_ph cf \<equiv> tbit (qf_phys_occ cf)"

lemma cqf_fits:
  assumes "cqf_shape cf" "i < qf_num_slots cf"
  shows "rem_fits (qf_table cf) i (qf_remainder_bits cf)"
proof -
  let ?r = "qf_remainder_bits cf"
  have s: "2 \<le> ?r" "?r \<le> 32" "qf_num_slots cf * ?r \<le> 64 * length (qf_table cf)" "qf_num_slots cf \<le> 2 ^ 58"
    using assms(1) by (auto simp: cqf_shape_def)
  have "Suc i * ?r \<le> qf_num_slots cf * ?r" using assms(2) by (intro mult_le_mono1) simp
  moreover have "i * ?r \<le> 2 ^ 58 * 32" using assms(2) s by (intro mult_le_mono) simp_all
  ultimately show ?thesis using s by (simp add: rem_fits_def)
qed

lemma slot_get_set:
  assumes "cqf_shape cf" "i < qf_num_slots cf" "j < qf_num_slots cf"
  shows "slot_get (slot_set i v cf) j = (if i = j then v AND qf_remainder_mask cf else slot_get cf j)"
  using rem_get_set [OF cqf_fits [OF assms(1,2)] cqf_fits [OF assms(1,3)], of v] assms(1)
  by (simp add: slot_get_def slot_set_def cqf_shape_def)

lemma slot_get_masked: "slot_get cf i AND qf_remainder_mask cf = slot_get cf i"
  by (simp add: slot_get_def rem_get_def Let_def and.assoc)

definition fits_slot :: "cqf_filter \<Rightarrow> u64 \<Rightarrow> bool" where
  "fits_slot cf v \<longleftrightarrow> unat v < 2 ^ qf_remainder_bits cf"

lemma fits_masked:
  assumes "cqf_shape cf" "fits_slot cf v"
  shows "v AND qf_remainder_mask cf = v"
proof -
  have r: "qf_remainder_bits cf \<le> 32" "qf_remainder_mask cf = mask (qf_remainder_bits cf)" using assms(1) by (simp_all add: cqf_shape_def)
  have "unat (take_bit (qf_remainder_bits cf) v) = unat v" using assms(2) by (simp add: fits_slot_def unsigned_take_bit_eq take_bit_nat_eq_self)
  then have "take_bit (qf_remainder_bits cf) v = v" by (simp only: word_unat_eq_iff)
  then show ?thesis by (simp add: r(2) take_bit_eq_mask [symmetric])
qed

lemma slot_fits: "cqf_shape cf \<Longrightarrow> fits_slot cf (slot_get cf i)"
proof -
  assume s: "cqf_shape cf"
  then have "slot_get cf i = take_bit (qf_remainder_bits cf) (slot_get cf i)"
    using slot_get_masked [of cf i] by (simp add: cqf_shape_def take_bit_eq_mask)
  then have "unat (slot_get cf i) = take_bit (qf_remainder_bits cf) (unat (slot_get cf i))" by (metis unsigned_take_bit_eq)
  then show "fits_slot cf (slot_get cf i)" unfolding fits_slot_def by (metis take_bit_nat_less_exp)
qed

lemma bv_pos_cqf: "cqf_shape cf \<Longrightarrow> p < qf_num_slots cf \<Longrightarrow> p < 64 * length (qf_occupieds cf) \<and> p < 64 * length (qf_runends cf) \<and> p < 64 * length (qf_phys_occ cf)"
  by (simp add: cqf_shape_def)

section \<open>Elementary updates\<close>

lemmas qf_updates = run_set_def run_clear_def occ_set_def occ_clear_def phys_clear_def track_phys_occ_cqf_def slot_set_def move_phys_occ_cqf_def

named_theorems qf_view \<open>what the elementary updates do to the view\<close>

lemma shape_qf [qf_view]:
  "cqf_shape (run_set p cf) = cqf_shape cf" "cqf_shape (run_clear p cf) = cqf_shape cf" "cqf_shape (occ_set p cf) = cqf_shape cf"
  "cqf_shape (occ_clear p cf) = cqf_shape cf" "cqf_shape (phys_clear p cf) = cqf_shape cf" "cqf_shape (track_phys_occ_cqf p cf) = cqf_shape cf"
  "cqf_shape (slot_set p v cf) = cqf_shape cf" "cqf_shape (move_phys_occ_cqf p r cf) = cqf_shape cf"
  "cqf_shape (cf\<lparr>qf_count := c\<rparr>) = cqf_shape cf" "cqf_shape (cf\<lparr>qf_distinct_count := c\<rparr>) = cqf_shape cf"
  by (simp_all add: qf_updates cqf_shape_def)

definition same_qf :: "cqf_filter \<Rightarrow> cqf_filter \<Rightarrow> bool" where
  "same_qf cf cf' \<longleftrightarrow> qf_num_slots cf' = qf_num_slots cf \<and> qf_num_blocks cf' = qf_num_blocks cf \<and>
     qf_remainder_bits cf' = qf_remainder_bits cf \<and> qf_remainder_mask cf' = qf_remainder_mask cf \<and> qf_count cf' = qf_count cf \<and>
     qf_distinct_count cf' = qf_distinct_count cf \<and> qf_compat_version cf' = qf_compat_version cf \<and> qf_hash_seed cf' = qf_hash_seed cf"

lemma same_qf_refl [simp]: "same_qf cf cf"
  by (simp add: same_qf_def)

lemma same_qf_trans: "same_qf a b \<Longrightarrow> same_qf b c \<Longrightarrow> same_qf a c"
  by (simp add: same_qf_def)

lemma same_qf_view [qf_view]:
  "same_qf a (run_set p cf) = same_qf a cf" "same_qf a (run_clear p cf) = same_qf a cf" "same_qf a (occ_set p cf) = same_qf a cf"
  "same_qf a (occ_clear p cf) = same_qf a cf" "same_qf a (phys_clear p cf) = same_qf a cf" "same_qf a (track_phys_occ_cqf p cf) = same_qf a cf"
  "same_qf a (slot_set p v cf) = same_qf a cf" "same_qf a (move_phys_occ_cqf p r cf) = same_qf a cf"
  by (simp_all add: same_qf_def qf_updates)

lemma num_slots_view [qf_view]:
  "qf_num_slots (run_set p cf) = qf_num_slots cf" "qf_num_slots (run_clear p cf) = qf_num_slots cf" "qf_num_slots (occ_set p cf) = qf_num_slots cf"
  "qf_num_slots (occ_clear p cf) = qf_num_slots cf" "qf_num_slots (phys_clear p cf) = qf_num_slots cf"
  "qf_num_slots (track_phys_occ_cqf p cf) = qf_num_slots cf" "qf_num_slots (slot_set p v cf) = qf_num_slots cf"
  "qf_num_slots (move_phys_occ_cqf p r cf) = qf_num_slots cf"
  by (simp_all add: qf_updates)

lemma get_view [qf_view]:
  "slot_get (run_set p cf) = slot_get cf" "slot_get (run_clear p cf) = slot_get cf" "slot_get (occ_set p cf) = slot_get cf"
  "slot_get (occ_clear p cf) = slot_get cf" "slot_get (phys_clear p cf) = slot_get cf" "slot_get (track_phys_occ_cqf p cf) = slot_get cf"
  "slot_get (move_phys_occ_cqf p r cf) = slot_get cf" "slot_get (cf\<lparr>qf_count := c\<rparr>) = slot_get cf" "slot_get (cf\<lparr>qf_distinct_count := c\<rparr>) = slot_get cf"
  by (simp_all add: fun_eq_iff slot_get_def qf_updates)

lemma bits_view [qf_view]:
  "qf_runends (slot_set p v cf) = qf_runends cf" "qf_runends (occ_set p cf) = qf_runends cf" "qf_runends (occ_clear p cf) = qf_runends cf"
  "qf_runends (phys_clear p cf) = qf_runends cf" "qf_runends (track_phys_occ_cqf p cf) = qf_runends cf" "qf_runends (move_phys_occ_cqf p r cf) = qf_runends cf"
  "qf_phys_occ (slot_set p v cf) = qf_phys_occ cf" "qf_phys_occ (occ_set p cf) = qf_phys_occ cf" "qf_phys_occ (occ_clear p cf) = qf_phys_occ cf"
  "qf_phys_occ (run_set p cf) = qf_phys_occ cf" "qf_phys_occ (run_clear p cf) = qf_phys_occ cf"
  "qf_occupieds (slot_set p v cf) = qf_occupieds cf" "qf_occupieds (run_set p cf) = qf_occupieds cf" "qf_occupieds (run_clear p cf) = qf_occupieds cf"
  "qf_occupieds (phys_clear p cf) = qf_occupieds cf" "qf_occupieds (track_phys_occ_cqf p cf) = qf_occupieds cf" "qf_occupieds (move_phys_occ_cqf p r cf) = qf_occupieds cf"
  by (simp_all add: qf_updates)

lemma bit_view [qf_view]:
  assumes "cqf_shape cf" "p < qf_num_slots cf"
  shows "qf_rn (run_set p cf) = (qf_rn cf)(p := True)" "qf_rn (run_clear p cf) = (qf_rn cf)(p := False)"
    "qf_oc (occ_set p cf) = (qf_oc cf)(p := True)" "qf_oc (occ_clear p cf) = (qf_oc cf)(p := False)"
    "qf_ph (track_phys_occ_cqf p cf) = (qf_ph cf)(p := True)" "qf_ph (phys_clear p cf) = (qf_ph cf)(p := False)"
  using bv_pos_cqf [OF assms] by (simp_all add: qf_updates tbit_set_bit_at tbit_clear_bit_at)

lemma move_phys_view [qf_view]:
  assumes "cqf_shape cf" "p < qf_num_slots cf" "r < qf_num_slots cf"
  shows "qf_ph (move_phys_occ_cqf p r cf) = (if qf_ph cf p then (qf_ph cf)(r := True, p := False) else qf_ph cf)"
  using bv_pos_cqf [OF assms(1,2)] bv_pos_cqf [OF assms(1,3)] by (simp add: move_phys_occ_cqf_def tbit_set_bit_at tbit_clear_bit_at)

section \<open>Loops over slots\<close>

text \<open>\<open>becomes cf G R P cf'\<close>: \<open>cf'\<close> has the remainders \<open>G\<close>, runends \<open>R\<close> and occupancy \<open>P\<close>, and the rest of \<open>cf\<close>.\<close>

definition becomes :: "cqf_filter \<Rightarrow> (nat \<Rightarrow> u64) \<Rightarrow> (nat \<Rightarrow> bool) \<Rightarrow> (nat \<Rightarrow> bool) \<Rightarrow> cqf_filter \<Rightarrow> bool" where
  "becomes cf G R P cf' \<longleftrightarrow> cqf_shape cf' \<and> same_qf cf cf' \<and> qf_oc cf' = qf_oc cf \<and>
     (\<forall>p < qf_num_slots cf. slot_get cf' p = G p \<and> qf_rn cf' p = R p \<and> qf_ph cf' p = P p)"

lemma becomes_same: "cqf_shape cf \<Longrightarrow> becomes cf (slot_get cf) (qf_rn cf) (qf_ph cf) cf"
  by (simp add: becomes_def)

lemma becomes_cong:
  assumes "becomes cf G R P cf'" "\<And>p. p < qf_num_slots cf \<Longrightarrow> G p = G' p \<and> R p = R' p \<and> P p = P' p"
  shows "becomes cf G' R' P' cf'"
  using assms by (auto simp: becomes_def)

text \<open>A loop whose steps have an effect on every slot has the effect of its steps in a row.\<close>

lemma becomes_trans:
  assumes "becomes cf G R P cf1" "becomes cf1 G' R' P' cf2"
    "\<And>p. p < qf_num_slots cf \<Longrightarrow> G' p = G2 p \<and> R' p = R2 p \<and> P' p = P2 p"
  shows "becomes cf G2 R2 P2 cf2"
  using assms by (auto simp: becomes_def same_qf_def)

lemma slot_set_becomes:
  assumes "cqf_shape cf" "i < qf_num_slots cf" "fits_slot cf v"
  shows "becomes cf ((slot_get cf)(i := v)) (qf_rn cf) (qf_ph cf) (slot_set i v cf)"
  using assms slot_get_set [OF assms(1,2)] fits_masked [OF assms(1,3)] by (simp add: becomes_def qf_view)

lemma fits_zero [simp]: "fits_slot cf 0"
  by (simp add: fits_slot_def)

lemma fits_same: "same_qf cf cf' \<Longrightarrow> fits_slot cf' v = fits_slot cf v"
  by (simp add: fits_slot_def same_qf_def)

lemma wipe_becomes:
  assumes "cqf_shape cf" "i < qf_num_slots cf"
  shows "becomes cf ((slot_get cf)(i := 0)) ((qf_rn cf)(i := False)) ((qf_ph cf)(i := False)) (wipe_slot i cf)"
  using assms slot_set_becomes [OF assms fits_zero] by (simp add: becomes_def wipe_slot_def qf_view)

abbreviation inside :: "nat \<Rightarrow> nat \<Rightarrow> nat \<Rightarrow> bool" where
  "inside a b p \<equiv> a \<le> p \<and> p < b"

lemma loop_becomes:
  assumes step: "\<And>cf i. cqf_shape cf \<Longrightarrow> i < qf_num_slots cf \<Longrightarrow>
      becomes cf ((slot_get cf)(i := g (slot_get cf i))) ((qf_rn cf)(i := r (qf_rn cf i))) ((qf_ph cf)(i := h (qf_ph cf i))) (f i cf)"
    and cf: "cqf_shape cf" "b \<le> qf_num_slots cf"
  shows "becomes cf (\<lambda>p. if inside a b p then g (slot_get cf p) else slot_get cf p) (\<lambda>p. if inside a b p then r (qf_rn cf p) else qf_rn cf p)
    (\<lambda>p. if inside a b p then h (qf_ph cf p) else qf_ph cf p) (fold f [a..<b] cf)"
  using cf(2)
proof (induction b)
  case 0
  then show ?case using becomes_same [OF cf(1)] by simp
next
  case (Suc b)
  show ?case
  proof (cases "a \<le> b")
    case True
    let ?c = "fold f [a..<b] cf"
    note ih = Suc.IH [OF Suc_leD [OF Suc.prems]]
    have "cqf_shape ?c" "b < qf_num_slots ?c" using ih Suc.prems by (simp_all add: becomes_def same_qf_def)
    note st = step [OF this]
    have e: "fold f [a..<Suc b] cf = f b ?c" using True by simp
    show ?thesis unfolding e using ih True by (intro becomes_trans [OF ih st]) (auto simp: becomes_def)
  next
    case False
    then have "fold f [a..<Suc b] cf = cf" by simp
    then show ?thesis using False by (simp only:) (rule becomes_cong [OF becomes_same [OF cf(1)]], auto)
  qed
qed

lemma wipe_range:
  assumes "cqf_shape cf" "b \<le> qf_num_slots cf"
  shows "becomes cf (\<lambda>p. if inside a b p then 0 else slot_get cf p) (\<lambda>p. if inside a b p then False else qf_rn cf p)
    (\<lambda>p. if inside a b p then False else qf_ph cf p) (fold wipe_slot [a..<b] cf)"
  using wipe_becomes by (rule loop_becomes [OF _ assms])

lemma track_range:
  assumes "cqf_shape cf" "b \<le> qf_num_slots cf"
  shows "becomes cf (slot_get cf) (qf_rn cf) (\<lambda>p. if inside a b p then True else qf_ph cf p) (fold track_phys_occ_cqf [a..<b] cf)"
proof -
  have st: "becomes cf ((slot_get cf)(i := slot_get cf i)) ((qf_rn cf)(i := qf_rn cf i)) ((qf_ph cf)(i := True)) (track_phys_occ_cqf i cf)"
    if "cqf_shape cf" "i < qf_num_slots cf" for cf i using that by (simp add: becomes_def qf_view)
  show ?thesis using loop_becomes [of "\<lambda>v. v" "\<lambda>v. v" "\<lambda>_. True", OF st assms] by simp
qed

lemma put_range:
  assumes "cqf_shape cf" "pos + length vs \<le> qf_num_slots cf" "\<forall>v \<in> set vs. fits_slot cf v"
  shows "becomes cf (\<lambda>p. if inside pos (pos + length vs) p then vs ! (p - pos) else slot_get cf p) (qf_rn cf) (qf_ph cf) (slots_put pos vs cf)"
  using assms
proof (induction vs arbitrary: pos cf)
  case Nil
  show ?case unfolding slots_put.simps by (rule becomes_cong [OF becomes_same [OF Nil(1)]]) auto
next
  case (Cons v vs)
  have s: "becomes cf ((slot_get cf)(pos := v)) (qf_rn cf) (qf_ph cf) (slot_set pos v cf)" using Cons.prems by (intro slot_set_becomes) simp_all
  have s': "same_qf cf (slot_set pos v cf)" "cqf_shape (slot_set pos v cf)" using s by (simp_all add: becomes_def)
  have st: "becomes (slot_set pos v cf) (\<lambda>p. if inside (Suc pos) (Suc pos + length vs) p then vs ! (p - Suc pos) else slot_get (slot_set pos v cf) p)
    (qf_rn (slot_set pos v cf)) (qf_ph (slot_set pos v cf)) (slots_put (Suc pos) vs (slot_set pos v cf))"
    using Cons.prems s' fits_same [OF s'(1)] by (intro Cons.IH) (simp_all add: qf_view)
  show ?case unfolding slots_put.simps Suc_eq_plus1 [symmetric]
  proof (rule becomes_trans [OF s st])
    fix p
    assume p: "p < qf_num_slots cf"
    have e: "slot_get (slot_set pos v cf) p = ((slot_get cf)(pos := v)) p" "qf_rn (slot_set pos v cf) p = qf_rn cf p" "qf_ph (slot_set pos v cf) p = qf_ph cf p"
      using s p by (simp_all add: becomes_def)
    have "(v # vs) ! (p - pos) = vs ! (p - Suc pos)" if "pos < p" using that by (simp add: nth_Cons')
    then show "(if inside (Suc pos) (Suc pos + length vs) p then vs ! (p - Suc pos) else slot_get (slot_set pos v cf) p) =
      (if inside pos (pos + length (v # vs)) p then (v # vs) ! (p - pos) else slot_get cf p) \<and>
      qf_rn (slot_set pos v cf) p = qf_rn cf p \<and> qf_ph (slot_set pos v cf) p = qf_ph cf p"
      using e by (cases p pos rule: linorder_cases) auto
  qed
qed

section \<open>Moving slots\<close>

lemma move_slot_becomes:
  assumes cf: "cqf_shape cf" and i: "src < qf_num_slots cf" "dst < qf_num_slots cf" "src \<noteq> dst" "qf_ph cf src"
  shows "becomes cf ((slot_get cf)(dst := slot_get cf src)) ((qf_rn cf)(dst := qf_rn cf src, src := False))
    ((qf_ph cf)(dst := True, src := False)) (move_slot src dst cf)"
proof -
  define c1 where "c1 = slot_set dst (slot_get cf src) cf"
  have c1: "becomes cf ((slot_get cf)(dst := slot_get cf src)) (qf_rn cf) (qf_ph cf) c1"
    unfolding c1_def by (intro slot_set_becomes cf i slot_fits)
  have s1: "cqf_shape c1" "qf_num_slots c1 = qf_num_slots cf" "qf_runends c1 = qf_runends cf" "qf_phys_occ c1 = qf_phys_occ cf"
    using c1 by (auto simp: becomes_def same_qf_def c1_def qf_view)
  have e: "move_slot src dst cf = (let c2 = move_phys_occ_cqf src dst c1
      in if qf_rn cf src then run_clear src (run_set dst c2) else run_clear dst c2)"
    by (simp add: move_slot_def c1_def qf_view Let_def)
  show ?thesis unfolding e using c1 s1 i by (auto simp: becomes_def Let_def qf_view)
qed

lemma move_right:
  assumes k: "0 < k"
  shows "cqf_shape cf \<Longrightarrow> d + k + t \<le> qf_num_slots cf \<Longrightarrow> (\<And>j. j < t \<Longrightarrow> qf_ph cf (d + j)) \<Longrightarrow>
    becomes cf (\<lambda>p. if inside (d + k) (d + k + t) p then slot_get cf (p - k) else slot_get cf p)
      (\<lambda>p. if inside (d + k) (d + k + t) p then qf_rn cf (p - k) else if inside d (d + t) p then False else qf_rn cf p)
      (\<lambda>p. if inside (d + k) (d + k + t) p then True else if inside d (d + t) p then False else qf_ph cf p)
      (fold (\<lambda>j. move_slot (d + j) (d + k + j)) (rev [0..<t]) cf)"
proof (induction t arbitrary: cf)
  case 0
  show ?case by (simp only: upt_0 rev.simps fold_simps) (rule becomes_cong [OF becomes_same [OF 0(1)]], auto)
next
  case (Suc t)
  let ?c = "move_slot (d + t) (d + k + t) cf"
  have st: "becomes cf ((slot_get cf)(d + k + t := slot_get cf (d + t))) ((qf_rn cf)(d + k + t := qf_rn cf (d + t), d + t := False))
    ((qf_ph cf)(d + k + t := True, d + t := False)) ?c"
    using Suc.prems k by (intro move_slot_becomes) auto
  then have c: "cqf_shape ?c" "qf_num_slots ?c = qf_num_slots cf" by (simp_all add: becomes_def same_qf_def)
  have v: "slot_get ?c p = ((slot_get cf)(d + k + t := slot_get cf (d + t))) p" "qf_rn ?c p = ((qf_rn cf)(d + k + t := qf_rn cf (d + t), d + t := False)) p"
    "qf_ph ?c p = ((qf_ph cf)(d + k + t := True, d + t := False)) p" if "p < qf_num_slots cf" for p using st that by (simp_all add: becomes_def)
  have ph: "qf_ph ?c (d + j)" if "j < t" for j using v(3) [of "d + j"] Suc.prems that by simp
  note ih = Suc.IH [OF c(1) _ ph]
  have e: "fold (\<lambda>j. move_slot (d + j) (d + k + j)) (rev [0..<Suc t]) cf = fold (\<lambda>j. move_slot (d + j) (d + k + j)) (rev [0..<t]) ?c" by simp
  show ?case unfolding e
  proof (rule becomes_trans [OF st ih], goal_cases)
    case 1
    then show ?case using Suc.prems c by simp
  next
    case 2
    then show ?case .
  next
    case (3 p)
    have v': "slot_get ?c (p - k) = slot_get cf (p - k)" "qf_rn ?c (p - k) = qf_rn cf (p - k)" if "inside (d + k) (d + k + t) p"
      using v(1,2) [of "p - k"] 3 that by auto
    show ?case using v [OF 3] v' k by (auto simp: less_Suc_eq)
  qed
qed

lemma move_left:
  assumes k: "0 < k" and cf: "cqf_shape cf"
  shows "n + k + t \<le> qf_num_slots cf \<Longrightarrow> (\<And>j. j < t \<Longrightarrow> qf_ph cf (n + k + j)) \<Longrightarrow>
    becomes cf (\<lambda>p. if inside n (n + t) p then slot_get cf (p + k) else slot_get cf p)
      (\<lambda>p. if inside n (n + t) p then qf_rn cf (p + k) else if inside (n + k) (n + k + t) p then False else qf_rn cf p)
      (\<lambda>p. if inside n (n + t) p then True else if inside (n + k) (n + k + t) p then False else qf_ph cf p)
      (fold (\<lambda>j. move_slot (n + k + j) (n + j)) [0..<t] cf)"
proof (induction t)
  case 0
  show ?case by (simp only: upt_0 fold_simps) (rule becomes_cong [OF becomes_same [OF cf]], auto)
next
  case (Suc t)
  let ?c = "fold (\<lambda>j. move_slot (n + k + j) (n + j)) [0..<t] cf"
  have "n + k + t \<le> qf_num_slots cf" "\<And>j. j < t \<Longrightarrow> qf_ph cf (n + k + j)" using Suc.prems by simp_all
  note ih = Suc.IH [OF this]
  have c: "cqf_shape ?c" "qf_num_slots ?c = qf_num_slots cf" using ih by (simp_all add: becomes_def same_qf_def)
  have v: "slot_get ?c p = (if inside n (n + t) p then slot_get cf (p + k) else slot_get cf p)"
    "qf_rn ?c p = (if inside n (n + t) p then qf_rn cf (p + k) else if inside (n + k) (n + k + t) p then False else qf_rn cf p)"
    "qf_ph ?c p = (if inside n (n + t) p then True else if inside (n + k) (n + k + t) p then False else qf_ph cf p)"
    if "p < qf_num_slots cf" for p using ih that by (simp_all add: becomes_def)
  have src: "slot_get ?c (n + k + t) = slot_get cf (n + k + t)" "qf_rn ?c (n + k + t) = qf_rn cf (n + k + t)" "qf_ph ?c (n + k + t)"
    using v [of "n + k + t"] Suc.prems k by auto
  have st: "becomes ?c ((slot_get ?c)(n + t := slot_get ?c (n + k + t))) ((qf_rn ?c)(n + t := qf_rn ?c (n + k + t), n + k + t := False))
    ((qf_ph ?c)(n + t := True, n + k + t := False)) (move_slot (n + k + t) (n + t) ?c)"
    using Suc.prems k c src by (intro move_slot_becomes) auto
  have e: "fold (\<lambda>j. move_slot (n + k + j) (n + j)) [0..<Suc t] cf = move_slot (n + k + t) (n + t) ?c" by simp
  show ?case unfolding e
  proof (rule becomes_trans [OF ih st])
    fix p
    assume p: "p < qf_num_slots cf"
    show "((slot_get ?c)(n + t := slot_get ?c (n + k + t))) p = (if inside n (n + Suc t) p then slot_get cf (p + k) else slot_get cf p) \<and>
      ((qf_rn ?c)(n + t := qf_rn ?c (n + k + t), n + k + t := False)) p =
        (if inside n (n + Suc t) p then qf_rn cf (p + k) else if inside (n + k) (n + k + Suc t) p then False else qf_rn cf p) \<and>
      ((qf_ph ?c)(n + t := True, n + k + t := False)) p =
        (if inside n (n + Suc t) p then True else if inside (n + k) (n + k + Suc t) p then False else qf_ph cf p)"
      using v [OF p] src k by (auto simp: less_Suc_eq add.assoc add.commute [of k t])
  qed
qed

lemma shift_step_becomes:
  assumes cf: "cqf_shape cf" and i: "Suc n < qf_num_slots cf" "qf_ph cf n" "\<not> qf_rn cf (Suc n)"
  shows "becomes cf ((slot_get cf)(Suc n := slot_get cf n, n := 0)) ((qf_rn cf)(Suc n := qf_rn cf n, n := False))
    ((qf_ph cf)(Suc n := True, n := False)) (shift_step (Suc n) cf)"
proof -
  define c1 where "c1 = slot_set (Suc n) (slot_get cf n) cf"
  have c1: "becomes cf ((slot_get cf)(Suc n := slot_get cf n)) (qf_rn cf) (qf_ph cf) c1"
    unfolding c1_def by (intro slot_set_becomes cf i slot_fits)
  have s1: "cqf_shape c1" "qf_num_slots c1 = qf_num_slots cf" "qf_runends c1 = qf_runends cf" "qf_phys_occ c1 = qf_phys_occ cf"
    using c1 by (auto simp: becomes_def same_qf_def c1_def qf_view)
  define c2 where "c2 = (let c = move_phys_occ_cqf n (Suc n) c1 in if qf_rn cf n then run_clear n (run_set (Suc n) c) else c)"
  have c2: "becomes cf ((slot_get cf)(Suc n := slot_get cf n)) ((qf_rn cf)(Suc n := qf_rn cf n, n := False)) ((qf_ph cf)(Suc n := True, n := False)) c2"
    using c1 s1 i by (auto simp: becomes_def c2_def Let_def qf_view)
  have s2: "cqf_shape c2" "qf_num_slots c2 = qf_num_slots cf" using c2 by (simp_all add: becomes_def same_qf_def)
  have e: "shift_step (Suc n) cf = slot_set n 0 c2" by (simp add: shift_step_def c2_def c1_def qf_view Let_def)
  have "becomes c2 ((slot_get c2)(n := 0)) (qf_rn c2) (qf_ph c2) (slot_set n 0 c2)" using s2 i by (intro slot_set_becomes) simp_all
  from becomes_trans [OF c2 this] show ?thesis unfolding e using c2 by (auto simp: becomes_def)
qed

lemma shift_range:
  "cqf_shape cf \<Longrightarrow> s \<le> n \<Longrightarrow> n < qf_num_slots cf \<Longrightarrow> (\<And>p. s \<le> p \<Longrightarrow> p < n \<Longrightarrow> qf_ph cf p) \<Longrightarrow> \<not> qf_rn cf n \<Longrightarrow>
    becomes cf (shifted s n 0 (slot_get cf)) (shifted s n False (qf_rn cf)) (shifted s n False (qf_ph cf)) (fold shift_step (rev [s + 1..<n + 1]) cf)"
proof (induction n arbitrary: cf)
  case 0
  have e: "rev [s + 1..<0 + 1] = []" by simp
  show ?case unfolding e fold_simps by (rule becomes_cong [OF becomes_same [OF 0(1)]]) (use 0 in \<open>auto simp: shifted_def\<close>)
next
  case (Suc n)
  show ?case
  proof (cases "s = Suc n")
    case True
    then have e: "rev [s + 1..<Suc n + 1] = []" by simp
    show ?thesis unfolding e fold_simps by (rule becomes_cong [OF becomes_same [OF Suc.prems(1)]]) (use True in \<open>auto simp: shifted_def\<close>)
  next
    case False
    let ?c = "shift_step (Suc n) cf"
    have sn: "s \<le> n" using False Suc.prems(2) by simp
    have st: "becomes cf ((slot_get cf)(Suc n := slot_get cf n, n := 0)) ((qf_rn cf)(Suc n := qf_rn cf n, n := False))
      ((qf_ph cf)(Suc n := True, n := False)) ?c"
      using Suc.prems sn by (intro shift_step_becomes) simp_all
    then have c: "cqf_shape ?c" "qf_num_slots ?c = qf_num_slots cf" by (simp_all add: becomes_def same_qf_def)
    have v: "slot_get ?c p = ((slot_get cf)(Suc n := slot_get cf n, n := 0)) p" "qf_rn ?c p = ((qf_rn cf)(Suc n := qf_rn cf n, n := False)) p"
      "qf_ph ?c p = ((qf_ph cf)(Suc n := qf_ph cf n, n := False)) p" if "p < qf_num_slots cf" for p
      using st that Suc.prems(4) [of n] sn by (simp_all add: becomes_def)
    have ih: "becomes ?c (shifted s n 0 (slot_get ?c)) (shifted s n False (qf_rn ?c)) (shifted s n False (qf_ph ?c)) (fold shift_step (rev [s + 1..<n + 1]) ?c)"
      using c sn Suc.prems v [of n] v(3) by (intro Suc.IH) auto
    have e: "fold shift_step (rev [s + 1..<Suc n + 1]) cf = fold shift_step (rev [s + 1..<n + 1]) ?c" using sn by simp
    show ?thesis unfolding e
      using shifted_step [OF sn _ v(1) Suc.prems(3)] shifted_step [OF sn _ v(2) Suc.prems(3)] shifted_step [OF sn _ v(3) Suc.prems(3)]
      by (intro becomes_trans [OF st ih] conjI)
  qed
qed

end
