(* ===== verification/Cqf_Cells.thy ===== *)
theory Cqf_Cells
  imports Cqf_View
begin

text \<open>
  A filter whose used slots are the first ones: \<open>holds cf cs\<close> says that slot \<open>p\<close> has the remainder and the runend bit
  of the \<open>p\<close>-th cell of the list \<open>cs\<close> and that the slots behind it are free. Inserting a cell in the middle and
  replacing an entry become operations on this list.
\<close>

unbundle bit_operations_syntax

type_synonym cell = "u64 \<times> bool"

section \<open>Cells\<close>

definition holds :: "cqf_filter \<Rightarrow> cell list \<Rightarrow> bool" where
  "holds cf cs \<longleftrightarrow> cqf_shape cf \<and> length cs \<le> qf_num_slots cf \<and>
     (\<forall>p < qf_num_slots cf. qf_ph cf p = (p < length cs) \<and> qf_rn cf p = (p < length cs \<and> snd (cs ! p))) \<and>
     (\<forall>p < length cs. slot_get cf p = fst (cs ! p))"

text \<open>A later state of \<open>cf\<close> with the cells \<open>cs\<close> and the quotients and counters of \<open>cf\<close>.\<close>

definition turns :: "cqf_filter \<Rightarrow> cell list \<Rightarrow> cqf_filter \<Rightarrow> bool" where
  "turns cf cs cf' \<longleftrightarrow> holds cf' cs \<and> same_qf cf cf' \<and> qf_oc cf' = qf_oc cf"

lemma holdsD:
  assumes "holds cf cs"
  shows "cqf_shape cf" "length cs \<le> qf_num_slots cf"
    "p < qf_num_slots cf \<Longrightarrow> qf_ph cf p = (p < length cs)" "p < qf_num_slots cf \<Longrightarrow> qf_rn cf p = (p < length cs \<and> snd (cs ! p))"
    "p < length cs \<Longrightarrow> slot_get cf p = fst (cs ! p)"
  using assms by (simp_all add: holds_def)

lemma turns_refl: "holds cf cs \<Longrightarrow> turns cf cs cf"
  by (simp add: turns_def)

lemma turns_trans: "turns cf cs cf1 \<Longrightarrow> turns cf1 ds cf2 \<Longrightarrow> turns cf ds cf2"
  using same_qf_trans by (auto simp: turns_def)

lemma turnsI:
  assumes "becomes cf G R P cf'" "length cs \<le> qf_num_slots cf"
    "\<And>p. p < qf_num_slots cf \<Longrightarrow> P p = (p < length cs) \<and> R p = (p < length cs \<and> snd (cs ! p)) \<and> (p < length cs \<longrightarrow> G p = fst (cs ! p))"
  shows "turns cf cs cf'"
  using assms by (auto simp: turns_def holds_def becomes_def same_qf_def)

section \<open>Recomputing the prefix sums\<close>

lemma offsets_cqf_frame:
  "qf_num_slots (update_offsets cf) = qf_num_slots cf" "qf_num_blocks (update_offsets cf) = qf_num_blocks cf"
  "qf_occupieds (update_offsets cf) = qf_occupieds cf" "qf_runends (update_offsets cf) = qf_runends cf"
  "qf_phys_occ (update_offsets cf) = qf_phys_occ cf" "slot_get (update_offsets cf) = slot_get cf" "same_qf cf (update_offsets cf)"
  by (simp_all add: update_offsets_def slot_get_def same_qf_def Let_def fun_eq_iff split: prod.splits)

definition sums_cqf :: "cqf_filter \<Rightarrow> bool" where
  "sums_cqf cf \<longleftrightarrow> prefix_ok (qf_occupieds cf) (qf_occ_prefix cf) \<and> prefix_ok (qf_runends cf) (qf_run_prefix cf)"

lemma offsets_cqf_ok:
  assumes "cqf_shape cf"
  shows "cqf_shape (update_offsets cf)" "sums_cqf (update_offsets cf)"
proof -
  have l: "length (qf_occupieds cf) = qf_num_blocks cf" "length (qf_runends cf) = qf_num_blocks cf"
    "length (qf_occ_prefix cf) = Suc (qf_num_blocks cf)" "length (qf_run_prefix cf) = Suc (qf_num_blocks cf)"
    using assms by (simp_all add: cqf_shape_def)
  have z: "prefix_ok ws (fold (prefix_step ws) [0..<qf_num_blocks cf] (ps[0 := 0]))"
    if "length ws = qf_num_blocks cf" "length ps = Suc (qf_num_blocks cf)" for ws ps
    using fold_prefix_ok [of "ps[0 := 0]" ws 0] that by simp
  have o: "prefix_ok (qf_occupieds cf) (qf_occ_prefix (update_offsets cf))" "prefix_ok (qf_runends cf) (qf_run_prefix (update_offsets cf))"
    using z [OF l(1,3)] z [OF l(2,4)] by (simp_all add: update_offsets_def Let_def split: prod.splits)
  then show "sums_cqf (update_offsets cf)" by (simp add: sums_cqf_def offsets_cqf_frame)
  have "length (qf_table (update_offsets cf)) = length (qf_table cf)" by (simp add: update_offsets_def Let_def split: prod.splits)
  moreover have "same_qf cf (update_offsets cf)" by (rule offsets_cqf_frame)
  ultimately show "cqf_shape (update_offsets cf)" using assms o l by (simp add: cqf_shape_def offsets_cqf_frame same_qf_def prefix_ok_def)
qed

lemma offsets_cqf_turns: "holds cf cs \<Longrightarrow> turns cf cs (update_offsets cf)"
  using offsets_cqf_ok(1) [of cf] by (simp add: turns_def holds_def offsets_cqf_frame)

lemma offsets_becomes:
  assumes "becomes cf G R P f"
  shows "becomes cf G R P (update_offsets f)"
proof -
  have f: "cqf_shape f" "same_qf cf f" using assms by (simp_all add: becomes_def)
  show ?thesis using assms offsets_cqf_ok(1) [OF f(1)] same_qf_trans [OF f(2) offsets_cqf_frame(7)] by (simp add: becomes_def offsets_cqf_frame)
qed

lemma rank_cqf:
  assumes "cqf_shape cf" "sums_cqf cf" "q < qf_num_slots cf"
  shows "rank_occ_fast cf q = cnt (qf_oc cf) (Suc q)"
  using rank_prefix [of "qf_occupieds cf" "qf_occ_prefix cf" q] assms by (simp add: rank_occ_fast_def sums_cqf_def cqf_shape_def Let_def)

lemma select_cqf:
  assumes "cqf_shape cf" "sums_cqf cf" "p < qf_num_slots cf" "qf_rn cf p" "cnt (qf_rn cf) p = k"
  shows "select_run_fast cf (Suc k) = p"
proof -
  have nb: "length (qf_runends cf) = qf_num_blocks cf" "qf_num_slots cf = 64 * qf_num_blocks cf" using assms(1) by (simp_all add: cqf_shape_def)
  have "qf_run_prefix cf ! qf_num_blocks cf = cnt (qf_rn cf) (64 * qf_num_blocks cf)" using assms(2) nb by (simp add: sums_cqf_def prefix_ok_def)
  then have "\<not> Suc k > qf_run_prefix cf ! qf_num_blocks cf" using cnt_less [of "qf_rn cf" p "64 * qf_num_blocks cf"] assms(3-5) nb by simp
  moreover have "select_prefix (qf_runends cf) (qf_run_prefix cf) (Suc k) = p"
    using assms nb by (intro select_prefix_ok) (auto simp: sums_cqf_def)
  ultimately show ?thesis by (simp add: select_run_fast_def select_prefix_def Let_def nb(1))
qed

section \<open>Writing cells\<close>

lemma run_set_turns:
  assumes "turns cf cs cf'" "p < length cs"
  shows "turns cf (cs[p := (fst (cs ! p), True)]) (run_set p cf')"
  using assms holdsD(2) [of cf' cs] by (auto simp: turns_def holds_def qf_view nth_list_update)

lemma run_clear_turns:
  assumes "turns cf cs cf'" "p < length cs"
  shows "turns cf (cs[p := (fst (cs ! p), False)]) (run_clear p cf')"
  using assms holdsD(2) [of cf' cs] by (auto simp: turns_def holds_def qf_view nth_list_update)

text \<open>A cell is put in the middle.\<close>

lemma shift_becomes:
  assumes h: "holds cf cs" and a: "a \<le> length cs" "length cs < qf_num_slots cf"
  shows "becomes cf (shifted a (length cs) 0 (slot_get cf)) (shifted a (length cs) False (qf_rn cf)) (shifted a (length cs) False (qf_ph cf))
    (if a \<noteq> length cs then shift_range_right a (length cs) cf else cf)"
proof (cases "a = length cs")
  case True
  then have e: "(if a \<noteq> length cs then shift_range_right a (length cs) cf else cf) = cf" by simp
  show ?thesis unfolding e by (rule becomes_cong [OF becomes_same [OF holdsD(1) [OF h]]]) (auto simp: True shifted_def)
next
  case False
  then have l: "a < length cs" using a(1) by simp
  have "becomes cf (shifted a (length cs) 0 (slot_get cf)) (shifted a (length cs) False (qf_rn cf)) (shifted a (length cs) False (qf_ph cf))
    (fold shift_step (rev [a + 1..<length cs + 1]) cf)" (is "becomes _ _ _ _ ?f")
    using h a by (intro shift_range) (simp_all add: holds_def)
  moreover have "shift_range_right a (length cs) cf = update_offsets ?f" using l by (simp add: shift_range_right_def)
  ultimately show ?thesis using False offsets_becomes by simp
qed

lemma open_slot_turns:
  assumes h: "holds cf cs" and a: "a \<le> length cs" "length cs < qf_num_slots cf" and v: "fits_slot cf v"
  shows "turns cf (take a cs @ (v, False) # drop a cs) (open_slot_cqf a (length cs) v cf)"
proof -
  define c where "c = (if a \<noteq> length cs then shift_range_right a (length cs) cf else cf)"
  note s = shift_becomes [OF h a, folded c_def]
  have c: "cqf_shape c" "same_qf cf c" "qf_num_slots c = qf_num_slots cf" using s by (simp_all add: becomes_def same_qf_def)
  define d where "d = slot_set a v c"
  have d: "becomes c ((slot_get c)(a := v)) (qf_rn c) (qf_ph c) d"
    unfolding d_def using c a v fits_same [OF c(2)] by (intro slot_set_becomes) simp_all
  have d': "cqf_shape d" "qf_num_slots d = qf_num_slots cf" using d c(3) by (simp_all add: becomes_def same_qf_def)
  then have e: "becomes d (slot_get d) (qf_rn d) ((qf_ph d)(a := True)) (open_slot_cqf a (length cs) v cf)"
    using c a by (simp add: becomes_def open_slot_cqf_def c_def [symmetric] d_def [symmetric] qf_view)
  let ?cs = "take a cs @ (v, False) # drop a cs"
  have nth: "?cs ! p = (if p < a then cs ! p else if p = a then (v, False) else cs ! (p - 1))" if "p < length ?cs" for p
    using a(1) that by (auto simp: nth_append nth_Cons' min_def not_less)
  have len: "length ?cs = Suc (length cs)" using a(1) by simp
  have de: "becomes cf ((shifted a (length cs) 0 (slot_get cf))(a := v)) (shifted a (length cs) False (qf_rn cf)) ((shifted a (length cs) False (qf_ph cf))(a := True))
    (open_slot_cqf a (length cs) v cf)"
  proof (rule becomes_trans [OF becomes_trans [OF s d] e])
    show "((slot_get c)(a := v)) p = ((shifted a (length cs) 0 (slot_get cf))(a := v)) p \<and> qf_rn c p = shifted a (length cs) False (qf_rn cf) p \<and>
      qf_ph c p = shifted a (length cs) False (qf_ph cf) p" if "p < qf_num_slots cf" for p using s that by (simp add: becomes_def)
    show "slot_get d p = ((shifted a (length cs) 0 (slot_get cf))(a := v)) p \<and> qf_rn d p = shifted a (length cs) False (qf_rn cf) p \<and>
      ((qf_ph d)(a := True)) p = ((shifted a (length cs) False (qf_ph cf))(a := True)) p" if "p < qf_num_slots cf" for p
      using s d that c(3) by (simp add: becomes_def)
  qed
  show ?thesis
  proof (rule turnsI [OF de])
    show "length ?cs \<le> qf_num_slots cf" using len a by simp
    fix p
    assume p: "p < qf_num_slots cf"
    note H = holdsD(3-5) [OF h, of p] holdsD(3-5) [OF h, of "p - 1"]
    consider "p < a" | "p = a" | "a < p" "p \<le> length cs" | "length cs < p" by linarith
    then show "((shifted a (length cs) False (qf_ph cf))(a := True)) p = (p < length ?cs) \<and> shifted a (length cs) False (qf_rn cf) p = (p < length ?cs \<and> snd (?cs ! p)) \<and>
      (p < length ?cs \<longrightarrow> ((shifted a (length cs) 0 (slot_get cf))(a := v)) p = fst (?cs ! p))"
      using p a H nth [of p] unfolding len by cases (auto simp: shifted_def)
  qed
qed

section \<open>Replacing an entry\<close>

definition entry_syms :: "nat \<Rightarrow> u64 \<Rightarrow> nat \<Rightarrow> u64 list" where
  "entry_syms rbits x C =
     (if C \<le> 1 then [x] else if C = 2 then [x, x]
      else let enc = cqf_encode C x rbits CQF_ENC_BUF in if x = 0 then [0, 0] @ enc @ [0, 0] else x # enc @ [x])"

lemma length_entry_syms: "length (entry_syms rbits x C) = cqf_enc_slots C x rbits"
  by (simp add: entry_syms_def cqf_enc_slots_def Let_def)

lemma slots_put_append: "slots_put pos (vs @ ws) cf = slots_put (pos + length vs) ws (slots_put pos vs cf)"
  by (induction vs arbitrary: pos cf) simp_all

lemma write_entry_eq:
  "cqf_write_entry pos x C cf = (cqf_enc_slots C x (qf_remainder_bits cf), slots_put pos (entry_syms (qf_remainder_bits cf) x C) cf)"
proof -
  have r: "qf_remainder_bits (slot_set pos x cf) = qf_remainder_bits cf" by (simp add: slot_set_def)
  show ?thesis by (simp add: cqf_write_entry_def entry_syms_def cqf_enc_slots_def Let_def slots_put_append r numeral_eq_Suc add.assoc)
qed

lemma entry_syms_fit:
  assumes "valid_counter rbits C x" "v \<in> set (entry_syms rbits x C)"
  shows "unat v < 2 ^ rbits"
  using assms enc_symbols(5) [OF assms(1)] by (cases "3 \<le> C") (auto simp: entry_syms_def valid_counter_def Let_def split: if_splits)

lemma write_becomes:
  assumes c1: "becomes cf G R P c1" and pos: "pos + length vs \<le> qf_num_slots cf" "\<forall>v \<in> set vs. fits_slot cf v" and r: "r < qf_num_slots cf"
  defines "nds \<equiv> pos + length vs"
  shows "becomes cf (\<lambda>p. if inside pos nds p then vs ! (p - pos) else G p) ((\<lambda>p. if inside pos nds p then False else R p)(r := True))
    (\<lambda>p. if inside pos nds p then True else P p)
    (run_set r (run_clear r (fold track_phys_occ_cqf [pos..<nds] (slots_put pos vs (fold wipe_slot [pos..<nds] c1)))))"
proof -
  have n1: "cqf_shape c1" "same_qf cf c1" "qf_num_slots c1 = qf_num_slots cf" using c1 by (simp_all add: becomes_def same_qf_def)
  define c2 where "c2 = fold wipe_slot [pos..<nds] c1"
  have c2: "becomes c1 (\<lambda>p. if inside pos nds p then 0 else slot_get c1 p) (\<lambda>p. if inside pos nds p then False else qf_rn c1 p)
    (\<lambda>p. if inside pos nds p then False else qf_ph c1 p) c2" unfolding c2_def using n1 pos by (intro wipe_range) (simp_all add: nds_def)
  have n2: "cqf_shape c2" "same_qf c1 c2" "qf_num_slots c2 = qf_num_slots cf" using c2 n1 by (simp_all add: becomes_def same_qf_def)
  define c3 where "c3 = slots_put pos vs c2"
  have c3: "becomes c2 (\<lambda>p. if inside pos nds p then vs ! (p - pos) else slot_get c2 p) (qf_rn c2) (qf_ph c2) c3"
    unfolding c3_def nds_def using n2 pos fits_same [OF n1(2)] fits_same [OF n2(2)] by (intro put_range) simp_all
  have n3: "cqf_shape c3" "qf_num_slots c3 = qf_num_slots cf" using c3 n2 by (simp_all add: becomes_def same_qf_def)
  define c4 where "c4 = fold track_phys_occ_cqf [pos..<nds] c3"
  have c4: "becomes c3 (slot_get c3) (qf_rn c3) (\<lambda>p. if inside pos nds p then True else qf_ph c3 p) c4"
    unfolding c4_def using n3 pos by (intro track_range) (simp_all add: nds_def)
  have n4: "cqf_shape c4" "qf_num_slots c4 = qf_num_slots cf" using c4 n3 by (simp_all add: becomes_def same_qf_def)
  have c5: "becomes c4 (slot_get c4) ((qf_rn c4)(r := True)) (qf_ph c4) (run_set r (run_clear r c4))" using n4 r by (simp add: becomes_def qf_view)
  let ?G = "\<lambda>p. if inside pos nds p then vs ! (p - pos) else G p" and ?R = "\<lambda>p. if inside pos nds p then False else R p"
  have v1: "slot_get c1 p = G p" "qf_rn c1 p = R p" "qf_ph c1 p = P p" if "p < qf_num_slots cf" for p using c1 that by (simp_all add: becomes_def)
  have v2: "slot_get c2 p = (if inside pos nds p then 0 else G p)" "qf_rn c2 p = ?R p" "qf_ph c2 p = (if inside pos nds p then False else P p)"
    if "p < qf_num_slots cf" for p using c2 v1 that n1 by (simp_all add: becomes_def)
  have v3: "slot_get c3 p = ?G p" "qf_rn c3 p = ?R p" "qf_ph c3 p = (if inside pos nds p then False else P p)" if "p < qf_num_slots cf" for p
    using c3 v2 [OF that] that n2 by (simp_all add: becomes_def)
  have v4: "slot_get c4 p = ?G p" "qf_rn c4 p = ?R p" "qf_ph c4 p = (if inside pos nds p then True else P p)" if "p < qf_num_slots cf" for p
    using c4 v3 [OF that] that n3 by (simp_all add: becomes_def)
  have "same_qf cf c4" "qf_oc c4 = qf_oc cf" using c1 c2 c3 c4 by (auto simp: becomes_def same_qf_def)
  then have b4: "becomes cf ?G ?R (\<lambda>p. if inside pos nds p then True else P p) c4" using v4 n4 by (simp add: becomes_def)
  show ?thesis unfolding c2_def [symmetric] c3_def [symmetric] c4_def [symmetric]
    by (rule becomes_trans [OF b4 c5]) (use v4 in simp)
qed

text \<open>The cells of an entry: the last one carries the runend bit of the run or none.\<close>

definition flag_last :: "u64 list \<Rightarrow> bool \<Rightarrow> cell list" where
  "flag_last vs b = map (\<lambda>i. (vs ! i, b \<and> Suc i = length vs)) [0..<length vs]"

lemma length_flag_last [simp]: "length (flag_last vs b) = length vs"
  by (simp add: flag_last_def)

lemma nth_flag_last [simp]: "i < length vs \<Longrightarrow> flag_last vs b ! i = (vs ! i, b \<and> Suc i = length vs)"
  by (simp add: flag_last_def)

lemma nth_tail: "length A + length B \<le> p \<Longrightarrow> (A @ B @ T) ! p = T ! (p - (length A + length B))"
  using nth_append [of "A @ B" T p] by simp

text \<open>Where the runend of the run is: the last slot of the entry or a flagged cell behind it.\<close>

definition runend_of :: "nat \<Rightarrow> cell list \<Rightarrow> bool \<Rightarrow> nat \<Rightarrow> bool" where
  "runend_of d T b rend \<longleftrightarrow> (if b then Suc rend = d else d \<le> rend \<and> rend < d + length T \<and> snd (T ! (rend - d)))"

lemma move_tail_right:
  assumes "holds cf (A @ E @ T)" "0 < k" "length A + length E + k + length T \<le> qf_num_slots cf"
  defines "d \<equiv> length A + length E"
  shows "becomes cf (\<lambda>p. if inside (d + k) (d + k + length T) p then slot_get cf (p - k) else slot_get cf p)
      (\<lambda>p. if inside (d + k) (d + k + length T) p then qf_rn cf (p - k) else if inside d (d + length T) p then False else qf_rn cf p)
      (\<lambda>p. if inside (d + k) (d + k + length T) p then True else if inside d (d + length T) p then False else qf_ph cf p)
      (move_tail d (d + k) (length T) cf)"
proof -
  have e: "move_tail d (d + k) (length T) cf = fold (\<lambda>j. move_slot (d + j) (d + k + j)) (rev [0..<length T]) cf"
    unfolding move_tail_def Let_def using assms(2,3) by (auto simp: d_def intro!: fold_cong)
  have "qf_ph cf (d + j)" if "j < length T" for j using holdsD(3) [OF assms(1), of "d + j"] assms(3) that by (simp add: d_def)
  then show ?thesis unfolding e using assms(3) by (intro move_right [OF assms(2) holdsD(1) [OF assms(1)]]) (simp_all add: d_def)
qed

lemma move_tail_left:
  assumes "holds cf (A @ E @ T)" "0 < k" "length A + length E = n + k"
  shows "becomes cf (\<lambda>p. if inside n (n + length T) p then slot_get cf (p + k) else slot_get cf p)
      (\<lambda>p. if inside n (n + length T) p then qf_rn cf (p + k) else if inside (n + k) (n + k + length T) p then False else qf_rn cf p)
      (\<lambda>p. if inside n (n + length T) p then True else if inside (n + k) (n + k + length T) p then False else qf_ph cf p)
      (move_tail (n + k) n (length T) cf)"
proof -
  have l: "n + k + length T \<le> qf_num_slots cf" using holdsD(2) [OF assms(1)] assms(3) by simp
  then have e: "move_tail (n + k) n (length T) cf = fold (\<lambda>j. move_slot (n + k + j) (n + j)) [0..<length T] cf"
    unfolding move_tail_def Let_def using assms(2) by (auto intro!: fold_cong)
  have "qf_ph cf (n + k + j)" if "j < length T" for j using holdsD(3) [OF assms(1), of "n + k + j"] l assms(3) that by simp
  then show ?thesis unfolding e by (rule move_left [OF assms(2) holdsD(1) [OF assms(1)] l])
qed

lemma replace_entry_eq:
  assumes c1: "becomes cf G R P c1" "c1 = move_tail (pos + old) (pos + length vs) tail cf" and vs: "vs = entry_syms (qf_remainder_bits cf) rem C"
    and l: "pos + length vs \<le> qf_num_slots cf" "old \<le> rend + length vs" "rend + length vs - old < qf_num_slots cf"
  defines "r \<equiv> rend + length vs - old"
  defines "c5 \<equiv> run_set r (run_clear r (fold track_phys_occ_cqf [pos..<pos + length vs] (slots_put pos vs (fold wipe_slot [pos..<pos + length vs] c1))))"
  shows "replace_entry rend pos old (length vs) tail shift_limit (qf_num_slots cf) rem C cf =
    (if length vs < old
     then clear_stale (if tail > 0 then (pos + length vs + tail - 1) mod qf_num_slots cf else sz_sub (pos + length vs) 1 mod qf_num_slots cf) shift_limit c5
     else c5)"
proof -
  have "qf_remainder_bits (fold wipe_slot [pos..<pos + length vs] c1) = qf_remainder_bits cf"
    using wipe_range [of c1 "pos + length vs" pos] c1(1) l(1) by (simp add: becomes_def same_qf_def)
  moreover have "cqf_enc_slots C rem (qf_remainder_bits cf) = length vs" by (simp add: vs length_entry_syms)
  moreover have "r mod qf_num_slots cf = r" using l(3) by (simp add: r_def)
  ultimately show ?thesis using l(2)
    by (simp add: replace_entry_def write_entry_eq c1(2) [symmetric] c5_def r_def vs [symmetric] Let_def)
qed

lemma grow_entry_turns:
  assumes h: "holds cf (A @ E @ T)" and vs: "vs = entry_syms (qf_remainder_bits cf) rem C" "\<forall>v \<in> set vs. fits_slot cf v"
    and new: "length E < length vs" "length A + length vs + length T \<le> qf_num_slots cf"
    and rend: "runend_of (length A + length E) T b rend" "E \<noteq> []"
  shows "turns cf (A @ flag_last vs b @ T)
    (replace_entry rend (length A) (length E) (length vs) (length T) shift_limit (qf_num_slots cf) rem C cf)"
proof -
  define k where "k = length vs - length E"
  define d where "d = length A + length E"
  have k: "0 < k" "d + k = length A + length vs" using new(1) by (simp_all add: k_def d_def)
  define c1 where "c1 = move_tail d (d + k) (length T) cf"
  have c1: "becomes cf (\<lambda>p. if inside (d + k) (d + k + length T) p then slot_get cf (p - k) else slot_get cf p)
      (\<lambda>p. if inside (d + k) (d + k + length T) p then qf_rn cf (p - k) else if inside d (d + length T) p then False else qf_rn cf p)
      (\<lambda>p. if inside (d + k) (d + k + length T) p then True else if inside d (d + length T) p then False else qf_ph cf p) c1"
    unfolding c1_def d_def using k new by (intro move_tail_right [OF h]) (simp_all add: d_def)
  define r where "r = rend + length vs - length E"
  have r: "r = rend + k" "r < length A + length vs + length T" using rend new(1) by (auto simp: r_def k_def runend_of_def split: if_splits)
  have e: "replace_entry rend (length A) (length E) (length vs) (length T) shift_limit (qf_num_slots cf) rem C cf =
    run_set r (run_clear r (fold track_phys_occ_cqf [length A..<length A + length vs] (slots_put (length A) vs (fold wipe_slot [length A..<length A + length vs] c1))))"
  proof -
    have "c1 = move_tail (length A + length E) (length A + length vs) (length T) cf" unfolding c1_def k(2) by (simp add: d_def)
    from replace_entry_eq [OF c1 this vs(1), of rend shift_limit, folded r_def] show ?thesis using r new by simp
  qed
  have rns: "r < qf_num_slots cf" "length A + length vs \<le> qf_num_slots cf" using r(2) new(2) by simp_all
  note w = write_becomes [OF c1 rns(2) vs(2) rns(1), folded e]
  show ?thesis
  proof (rule turnsI [OF w])
    show "length (A @ flag_last vs b @ T) \<le> qf_num_slots cf" using new(2) by simp
    fix p
    assume p: "p < qf_num_slots cf"
    note H = holdsD(3-5) [OF h, of p] holdsD(3-5) [OF h, of "p - k"]
    have len: "length (A @ flag_last vs b @ T) = d + k + length T" using k by simp
    consider "p < length A" | "length A \<le> p" "p < d + k" | "d + k \<le> p" "p < d + k + length T" | "d + k + length T \<le> p" by linarith
    then show "(if inside (length A) (length A + length vs) p then True
          else if inside (d + k) (d + k + length T) p then True else if inside d (d + length T) p then False else qf_ph cf p) =
        (p < length (A @ flag_last vs b @ T)) \<and>
      ((\<lambda>p. if inside (length A) (length A + length vs) p then False
          else if inside (d + k) (d + k + length T) p then qf_rn cf (p - k) else if inside d (d + length T) p then False else qf_rn cf p)(r := True)) p =
        (p < length (A @ flag_last vs b @ T) \<and> snd ((A @ flag_last vs b @ T) ! p)) \<and>
      (p < length (A @ flag_last vs b @ T) \<longrightarrow>
        (if inside (length A) (length A + length vs) p then vs ! (p - length A)
          else if inside (d + k) (d + k + length T) p then slot_get cf (p - k) else slot_get cf p) = fst ((A @ flag_last vs b @ T) ! p))"
    proof cases
      case 1
      moreover have "length A \<le> rend" using rend by (cases b; cases E; simp add: runend_of_def)
      ultimately have "p \<noteq> r" using r(1) by simp
      then show ?thesis using 1 p H d_def k len by (simp add: nth_append)
    next
      case 2
      then have i: "p - length A < length vs" using k(2) by simp
      have "p = r \<longleftrightarrow> b \<and> Suc (p - length A) = length vs"
        using 2 rend r(1) k unfolding d_def [symmetric] by (auto simp: runend_of_def split: if_splits)
      then show ?thesis using 2 p k len i by (auto simp: nth_append)
    next
      case 3
      have i: "p - k < length (A @ E @ T)" "p - k < qf_num_slots cf" "(A @ E @ T) ! (p - k) = T ! (p - (d + k))" "(A @ flag_last vs b @ T) ! p = T ! (p - (d + k))"
      proof -
        have d: "p - k - (length A + length E) = p - (d + k)" "length A + length (flag_last vs b) = d + k" using k d_def by simp_all
        show "p - k < length (A @ E @ T)" "p - k < qf_num_slots cf" using 3 p k d_def by simp_all
        show "(A @ E @ T) ! (p - k) = T ! (p - (d + k))" using 3 nth_tail [of A E "p - k" T] d(1) by (simp add: d_def)
        show "(A @ flag_last vs b @ T) ! p = T ! (p - (d + k))" using 3(1) nth_tail [of A "flag_last vs b" p T] unfolding d(2) by simp
      qed
      have "snd (T ! (p - (d + k)))" if "p = r" using that rend 3 r(1) k(1) unfolding d_def [symmetric] by (auto simp: runend_of_def split: if_splits)
      then show ?thesis using 3 p k len i H by auto
    next
      case 4
      then have "p \<noteq> r" using r(2) k(2) by simp
      then show ?thesis using 4 p H d_def k len by auto
    qed
  qed
qed

lemma shrink_entry_turns:
  assumes h: "holds cf (A @ E @ T)" and vs: "vs = entry_syms (qf_remainder_bits cf) rem C" "\<forall>v \<in> set vs. fits_slot cf v" "vs \<noteq> []"
    and new: "length vs < length E" and rend: "runend_of (length A + length E) T b rend"
  shows "turns cf (A @ flag_last vs b @ T)
    (replace_entry rend (length A) (length E) (length vs) (length T) (length A + length E + length T - 1) (qf_num_slots cf) rem C cf)"
proof -
  define k where "k = length E - length vs"
  define n where "n = length A + length vs"
  define L where "L = length A + length E + length T"
  have k: "0 < k" "length A + length E = n + k" "L = n + k + length T" using new by (simp_all add: k_def n_def L_def)
  have L: "L \<le> qf_num_slots cf" "qf_num_slots cf \<le> 2 ^ 58" using holdsD(1,2) [OF h] by (simp_all add: L_def cqf_shape_def)
  have n: "0 < n" using vs(3) by (simp add: n_def)
  define c1 where "c1 = move_tail (n + k) n (length T) cf"
  note c1 = move_tail_left [OF h k(1,2), folded c1_def]
  define r where "r = rend + length vs - length E"
  have "length A + length E \<le> Suc rend" "rend < length A + length E + length T"
    using rend new by (cases b; simp add: runend_of_def)+
  moreover have "0 < length vs" using vs(3) by simp
  ultimately have r: "r + k = rend" "length E \<le> rend + length vs" "r < n + length T" "length A \<le> r" using new unfolding r_def k_def n_def by linarith+
  define c5 where "c5 = run_set r (run_clear r (fold track_phys_occ_cqf [length A..<n] (slots_put (length A) vs (fold wipe_slot [length A..<n] c1))))"
  have rns: "r < qf_num_slots cf" "length A + length vs \<le> qf_num_slots cf" using r(3) L k by (simp_all add: n_def)
  note w = write_becomes [OF c1 rns(2) vs(2) rns(1), folded n_def, folded c5_def]
  have n5: "cqf_shape c5" "qf_num_slots c5 = qf_num_slots cf" using w by (simp_all add: becomes_def same_qf_def)
  have e: "replace_entry rend (length A) (length E) (length vs) (length T) (L - 1) (qf_num_slots cf) rem C cf = fold wipe_slot [n + length T..<L] c5"
  proof -
    have "c1 = move_tail (length A + length E) (length A + length vs) (length T) cf" unfolding c1_def k(2) n_def [symmetric] ..
    note q = replace_entry_eq [OF c1 this vs(1) rns(2) r(2) rns(1) [unfolded r_def], of "L - 1", folded r_def, folded n_def, folded c5_def]
    have "(if length T > 0 then (n + length T - 1) mod qf_num_slots cf else sz_sub n 1 mod qf_num_slots cf) = n + length T - 1"
      using n L k sz_sub_small [of 1 n] by simp
    moreover have "clear_stale (n + length T - 1) (L - 1) c5 = fold wipe_slot [n + length T..<L] c5" using n k by (simp add: clear_stale_def)
    ultimately show ?thesis using q new by simp
  qed
  have w2: "becomes c5 (\<lambda>p. if inside (n + length T) L p then 0 else slot_get c5 p) (\<lambda>p. if inside (n + length T) L p then False else qf_rn c5 p)
    (\<lambda>p. if inside (n + length T) L p then False else qf_ph c5 p) (fold wipe_slot [n + length T..<L] c5)"
    using n5 L by (intro wipe_range) simp_all
  have v5: "slot_get c5 p = (if inside (length A) n p then vs ! (p - length A) else if inside n (n + length T) p then slot_get cf (p + k) else slot_get cf p)"
    "qf_rn c5 p = (p = r \<or> (if inside (length A) n p then False else if inside n (n + length T) p then qf_rn cf (p + k)
       else if inside (n + k) (n + k + length T) p then False else qf_rn cf p))"
    "qf_ph c5 p = (if inside (length A) n p then True else if inside n (n + length T) p then True
       else if inside (n + k) (n + k + length T) p then False else qf_ph cf p)" if "p < qf_num_slots cf" for p
    using w that by (simp_all add: becomes_def)
  have same: "same_qf cf (fold wipe_slot [n + length T..<L] c5)" "qf_oc (fold wipe_slot [n + length T..<L] c5) = qf_oc cf"
    using w w2 same_qf_trans [of cf c5 "fold wipe_slot [n + length T..<L] c5"] by (simp_all add: becomes_def)
  let ?cs = "A @ flag_last vs b @ T"
  have len: "length ?cs = n + length T" by (simp add: n_def)
  have "holds (fold wipe_slot [n + length T..<L] c5) ?cs"
    unfolding holds_def
  proof (intro conjI allI impI)
    show "cqf_shape (fold wipe_slot [n + length T..<L] c5)" using w2 by (simp add: becomes_def)
    have ns: "qf_num_slots (fold wipe_slot [n + length T..<L] c5) = qf_num_slots cf" using same(1) by (simp add: same_qf_def)
    then show "length ?cs \<le> qf_num_slots (fold wipe_slot [n + length T..<L] c5)" using len k L by simp
    have cell: "qf_ph c5 p \<and> qf_rn c5 p = snd (?cs ! p) \<and> slot_get c5 p = fst (?cs ! p)" if pT: "p < n + length T" for p
    proof -
      have p: "p < qf_num_slots cf" "p + k < qf_num_slots cf" "p + k < L" using pT L k by simp_all
      consider "p < length A" | "inside (length A) n p" | "inside n (n + length T) p"
        using pT by (cases "p < length A"; cases "p < n") auto
      then show ?thesis
      proof cases
        case 1
        then have "p \<noteq> r" using r(4) by simp
        then show ?thesis using 1 v5 [OF p(1)] holdsD(3-5) [OF h, of p] p k by (simp add: n_def nth_append)
      next
        case 2
        then have i: "p - length A < length vs" by (auto simp: n_def)
        have "p = r \<longleftrightarrow> b \<and> Suc (p - length A) = length vs"
          using 2 rend r(1) k by (auto simp: runend_of_def n_def split: if_splits)
        then show ?thesis using 2 v5 [OF p(1)] i by (auto simp: nth_append)
      next
        case 3
        then have i: "(A @ E @ T) ! (p + k) = T ! (p - n)" "?cs ! p = T ! (p - n)"
          using k(2) nth_tail [of A E "p + k" T] nth_tail [of A "flag_last vs b" p T] by (simp_all add: n_def)
        have "snd (T ! (p - n))" if "p = r" using that rend 3 r(1) k(1,2) by (auto simp: runend_of_def split: if_splits)
        then show ?thesis using 3 v5 [OF p(1)] holdsD(3-5) [OF h, of "p + k"] p i k by (auto simp: n_def)
      qed
    qed
    fix p
    show "slot_get (fold wipe_slot [n + length T..<L] c5) p = fst (?cs ! p)" if "p < length ?cs"
      using cell [of p] w2 that len k L n5 by (simp add: becomes_def)
    assume p: "p < qf_num_slots (fold wipe_slot [n + length T..<L] c5)"
    have out: "\<not> qf_ph c5 p \<and> \<not> qf_rn c5 p" if "L \<le> p" using v5 [of p] holdsD(3,4) [OF h, of p] that p ns k r(3) by (auto simp: n_def)
    show "qf_ph (fold wipe_slot [n + length T..<L] c5) p = (p < length ?cs)"
      "qf_rn (fold wipe_slot [n + length T..<L] c5) p = (p < length ?cs \<and> snd (?cs ! p))"
      using cell [of p] out w2 p ns n5 len k by (auto simp: becomes_def not_less)
  qed
  then show ?thesis using same e by (simp add: turns_def L_def)
qed

section \<open>Rewriting a counter in place\<close>

lemma put_turns:
  assumes h: "holds cf cs" and a: "a + length ws \<le> length cs" "\<forall>v \<in> set ws. fits_slot cf v"
    and ds: "length ds = length cs" "\<And>p. p < length cs \<Longrightarrow> ds ! p = (if inside a (a + length ws) p then ws ! (p - a) else fst (cs ! p), snd (cs ! p))"
  shows "turns cf ds (slots_put a ws cf)"
proof (rule turnsI)
  have l: "length cs \<le> qf_num_slots cf" by (rule holdsD(2) [OF h])
  show "becomes cf (\<lambda>p. if inside a (a + length ws) p then ws ! (p - a) else slot_get cf p) (qf_rn cf) (qf_ph cf) (slots_put a ws cf)"
    using a l by (intro put_range holdsD(1) [OF h]) simp_all
  show "length ds \<le> qf_num_slots cf" using ds(1) l by simp
  fix p
  assume p: "p < qf_num_slots cf"
  then show "qf_ph cf p = (p < length ds) \<and> qf_rn cf p = (p < length ds \<and> snd (ds ! p)) \<and>
      (p < length ds \<longrightarrow> (if inside a (a + length ws) p then ws ! (p - a) else slot_get cf p) = fst (ds ! p))"
    using holdsD(3-5) [OF h, of p] ds by auto
qed

lemma rewrite_turns:
  assumes h: "holds cf (A @ flag_last (entry_syms r x C) b @ T)" and r: "r = qf_remainder_bits cf"
    and C: "3 \<le> C" "3 \<le> D" "cqf_enc_slots D x r = cqf_enc_slots C x r" "valid_counter r D x"
  shows "turns cf (A @ flag_last (entry_syms r x D) b @ T) (rewrite_counter (length A) x C D cf)"
proof -
  define enc where "enc = cqf_encode D x r CQF_ENC_BUF"
  define old where "old = cqf_encode C x r CQF_ENC_BUF"
  have len: "length enc = length old" using C(1-3) by (cases "x = 0") (simp_all add: cqf_enc_slots_def enc_def old_def Let_def)
  have ne: "enc \<noteq> []" "\<forall>v \<in> set enc. fits_slot cf v" using enc_symbols(1,5) [OF C(4,2)] r by (simp_all add: enc_def fits_slot_def)
  define z where "z = (if x = 0 then 2 else 1 :: nat)"
  have e: "rewrite_counter (length A) x C D cf = slots_put (length A + z) enc cf"
    unfolding rewrite_counter_def r [symmetric] enc_def [symmetric] Let_def using ne(1) C(1) by (cases "x = 0") (simp_all add: z_def)
  have sy: "entry_syms r x D ! i = (if inside z (z + length enc) i then enc ! (i - z) else entry_syms r x C ! i)" if "i < length (entry_syms r x C)" for i
    using that C(1,2) len by (auto simp: entry_syms_def enc_def [symmetric] old_def [symmetric] z_def nth_append nth_Cons' Let_def numeral_2_eq_2)
  have ls: "length (entry_syms r x D) = length (entry_syms r x C)" "z + length enc \<le> length (entry_syms r x C)"
    using C len by (auto simp: length_entry_syms cqf_enc_slots_def enc_def old_def z_def Let_def)
  show ?thesis unfolding e
  proof (rule put_turns [OF h])
    show "length A + z + length enc \<le> length (A @ flag_last (entry_syms r x C) b @ T)" using ls by simp
    show "length (A @ flag_last (entry_syms r x D) b @ T) = length (A @ flag_last (entry_syms r x C) b @ T)" using ls by simp
    fix p
    consider "p < length A" | i where "p = length A + i" "i < length (entry_syms r x C)" | "length A + length (entry_syms r x C) \<le> p"
      by (metis add.commute le_add_diff_inverse2 less_diff_conv2 not_le)
    then show "(A @ flag_last (entry_syms r x D) b @ T) ! p =
      (if inside (length A + z) (length A + z + length enc) p then enc ! (p - (length A + z)) else fst ((A @ flag_last (entry_syms r x C) b @ T) ! p),
       snd ((A @ flag_last (entry_syms r x C) b @ T) ! p))"
    proof cases
      case (2 i)
      then show ?thesis using sy [OF 2(2)] ls(1) by (auto simp: nth_append)
    next
      case 3
      then show ?thesis using ls nth_tail [of A "flag_last (entry_syms r x C) b" p T] nth_tail [of A "flag_last (entry_syms r x D) b" p T] by auto
    qed (simp add: nth_append)
  qed (rule ne(2))
qed

end
