(* ===== verification/Cqf_Decode.thy ===== *)
theory Cqf_Decode
  imports Cqf_Cells
begin

text \<open>
  Reading a run back. The entries of a run lie one behind the other; \<open>readable\<close> is the condition under which the
  scan of the run finds exactly them: a remainder that is stored once, without a second copy as its end mark, must
  not occur among the symbols behind it.
\<close>

section \<open>Runs as lists of symbols\<close>

type_synonym entry = "u64 \<times> nat"

definition run_syms :: "nat \<Rightarrow> entry list \<Rightarrow> u64 list" where
  "run_syms rbits es = concat (map (\<lambda>(x, C). entry_syms rbits x C) es)"

definition run_valid :: "nat \<Rightarrow> entry list \<Rightarrow> bool" where
  "run_valid rbits es \<longleftrightarrow> sorted_wrt (<) (map fst es) \<and> (\<forall>(x, C) \<in> set es. 1 \<le> C \<and> valid_counter rbits C x)"

fun readable :: "nat \<Rightarrow> entry list \<Rightarrow> bool" where
  "readable rbits [] = True"
| "readable rbits ((x, C) # es) = ((x \<noteq> 0 \<and> C = 1 \<longrightarrow> x \<notin> set (run_syms rbits es)) \<and> readable rbits es)"

lemma run_syms_simps [simp]:
  "run_syms rbits [] = []" "run_syms rbits ((x, C) # es) = entry_syms rbits x C @ run_syms rbits es"
  "run_syms rbits (es @ fs) = run_syms rbits es @ run_syms rbits fs"
  by (simp_all add: run_syms_def)

lemma run_valid_Cons: "run_valid rbits ((x, C) # es) \<longleftrightarrow> 1 \<le> C \<and> valid_counter rbits C x \<and> (\<forall>y \<in> fst ` set es. x < y) \<and> run_valid rbits es"
  by (auto simp: run_valid_def)

lemma entry_syms_Cons: "\<exists>ss. entry_syms rbits x C = x # ss"
  by (auto simp: entry_syms_def Let_def)

lemma entry_syms_ne [simp]: "entry_syms rbits x C \<noteq> []" "hd (entry_syms rbits x C) = x" "0 < length (entry_syms rbits x C)"
  using entry_syms_Cons [of rbits x C] by auto

lemma run_syms_empty [simp]: "run_syms rbits es = [] \<longleftrightarrow> es = []"
  by (cases es) (auto simp: run_syms_def)

abbreviation not_both_zero :: "u64 \<Rightarrow> u64 \<Rightarrow> bool" where
  "not_both_zero a b \<equiv> \<not> (a = 0 \<and> b = 0)"

lemma entry_lone_zeros:
  assumes "valid_counter rbits C x" "x \<noteq> 0"
  shows "successively not_both_zero (entry_syms rbits x C)" "last (entry_syms rbits x C) = x"
proof -
  have nz: "successively not_both_zero zs" if "0 \<notin> set zs" for zs using that by (induction zs rule: induct_list012) auto
  have "successively not_both_zero (entry_syms rbits x C) \<and> last (entry_syms rbits x C) = x"
  proof (cases "3 \<le> C")
    case True
    define enc where "enc = cqf_encode C x rbits CQF_ENC_BUF"
    obtain e ts where e: "enc = e # ts" "0 \<notin> set ts"
      using enc_symbols(1,4) [OF assms(1) True] assms(2) unfolding enc_def by (cases "cqf_encode C x rbits CQF_ENC_BUF") auto
    have "entry_syms rbits x C = x # e # ts @ [x]" using True assms(2) e(1) by (simp add: entry_syms_def enc_def [symmetric] Let_def)
    moreover have "successively not_both_zero (ts @ [x])" using nz [of "ts @ [x]"] e(2) assms(2) by simp
    moreover have "hd (ts @ [x]) \<noteq> 0" using e(2) assms(2) by (cases ts) auto
    ultimately show ?thesis using assms(2) by (auto simp: successively_Cons)
  qed (use assms(2) in \<open>auto simp: entry_syms_def\<close>)
  then show "successively not_both_zero (entry_syms rbits x C)" "last (entry_syms rbits x C) = x" by simp_all
qed

lemma run_lone_zeros:
  assumes "run_valid rbits es" "0 \<notin> fst ` set es"
  shows "successively not_both_zero (run_syms rbits es) \<and> (es \<noteq> [] \<longrightarrow> hd (run_syms rbits es) \<noteq> 0)"
  using assms
proof (induction es)
  case (Cons e es)
  obtain x C where e: "e = (x, C)" by (cases e)
  have x: "x \<noteq> 0" "valid_counter rbits C x" using Cons.prems e by (auto simp: run_valid_Cons)
  have "successively not_both_zero (run_syms rbits es)" using Cons e by (simp add: run_valid_Cons)
  then show ?case using entry_lone_zeros [OF x(2,1)] x(1) e by (auto simp: successively_append_iff)
qed simp

section \<open>Decoding one entry\<close>

primrec reads :: "cqf_filter \<Rightarrow> nat \<Rightarrow> u64 list \<Rightarrow> bool" where
  "reads cf pos [] = True"
| "reads cf pos (s # ss) = (slot_get cf pos = s \<and> qf_ph cf pos \<and> reads cf (pos + 1) ss)"

lemma reads_append: "reads cf pos (ss @ ts) \<longleftrightarrow> reads cf pos ss \<and> reads cf (pos + length ss) ts"
  by (induction ss arbitrary: pos) simp_all

lemma reads_iff: "reads cf pos ss \<longleftrightarrow> (\<forall>i < length ss. slot_get cf (pos + i) = ss ! i \<and> qf_ph cf (pos + i))"
  by (induction ss arbitrary: pos) (simp_all add: All_less_Suc2)

lemma reads_map: "reads cf pos ss \<Longrightarrow> map (slot_get cf) [pos..<pos + length ss] = ss"
  by (rule nth_equalityI) (simp_all add: reads_iff)

lemma scan_up_eq:
  assumes "i \<le> j" "j \<le> stop" "\<And>k. i \<le> k \<Longrightarrow> k < j \<Longrightarrow> P k" "j = stop \<or> \<not> P j"
  shows "scan_up P stop i = j"
  using assms
proof (induction P stop i rule: scan_up.induct)
  case (1 P stop i)
  show ?case
  proof (cases "i = j")
    case True
    then show ?thesis using 1(5) by (subst scan_up.simps) auto
  next
    case False
    then have "i < stop" "P i" using 1(2-4) by auto
    moreover have "scan_up P stop (i + 1) = j" using False 1(2-5) \<open>i < stop\<close> \<open>P i\<close> by (intro 1(1)) auto
    ultimately show ?thesis by (subst scan_up.simps) simp
  qed
qed

text \<open>The scan stops at the first symbol that does not satisfy the condition, or behind the run.\<close>

lemma scan_syms:
  assumes "reads cf pos (ss @ ts)" "\<forall>s \<in> set ss. P s" "ts = [] \<or> \<not> P (hd ts)" "stop = pos + length (ss @ ts)"
  shows "scan_up (\<lambda>i. P (slot_get cf i)) stop pos = pos + length ss"
proof (rule scan_up_eq)
  fix k
  assume k: "pos \<le> k" "k < pos + length ss"
  obtain i where i0: "k = pos + i" using le_Suc_ex [OF k(1)] by blast
  then have i: "k = pos + i" "i < length ss" using k(2) by simp_all
  have "reads cf pos ss" using assms(1) by (simp add: reads_append)
  then show "P (slot_get cf k)" using i assms(2) by (simp add: reads_iff)
next
  show "pos + length ss = stop \<or> \<not> P (slot_get cf (pos + length ss))" using assms(1,3,4) by (cases ts) (auto simp: reads_append)
qed (use assms in simp_all)

lemma decode_nonzero_ok:
  assumes r: "reads cf pos (entry_syms rb x C @ rest)" "rb = qf_remainder_bits cf" "Suc rend = pos + length (entry_syms rb x C @ rest)"
    and v: "valid_counter rb C x" "1 \<le> C" "x \<noteq> 0" "C = 1 \<Longrightarrow> x \<notin> set rest"
  shows "decode_nonzero cf rend pos x = (C, pos + length (entry_syms rb x C))"
proof -
  consider "C = 1" | "C = 2" | "3 \<le> C" using v(2) by linarith
  then show ?thesis
  proof cases
    case 1
    then have "scan_up (\<lambda>j. slot_get cf j \<noteq> x) (rend + 1) (pos + 1) = pos + 1 + length rest"
      using r(1,3) v(4) by (intro scan_syms [where ts = "[]"]) (auto simp: entry_syms_def)
    then show ?thesis using r(3) 1 by (simp add: decode_nonzero_def entry_syms_def)
  next
    case 2
    then have "scan_up (\<lambda>j. slot_get cf j \<noteq> x) (rend + 1) (pos + 1) = pos + 1 + length ([] :: u64 list)"
      using r(1,3) by (intro scan_syms [where ts = "x # rest"]) (auto simp: entry_syms_def)
    then show ?thesis using r(3) 2 by (simp add: decode_nonzero_def entry_syms_def)
  next
    case 3
    define enc where "enc = cqf_encode C x rb CQF_ENC_BUF"
    have e: "entry_syms rb x C = x # enc @ [x]" using 3 v(3) by (simp add: entry_syms_def enc_def Let_def)
    note E = enc_symbols(1-3) [OF v(1) 3, folded enc_def]
    have rd: "reads cf (pos + 1) (enc @ x # rest)" "reads cf (pos + 1) enc" using r(1) by (simp_all add: e reads_append)
    have j: "scan_up (\<lambda>j. slot_get cf j \<noteq> x) (rend + 1) (pos + 1) = pos + 1 + length enc"
      using rd(1) r(3) E(3) by (intro scan_syms [where ts = "x # rest"]) (auto simp: e)
    have "decode_count (take CQF_ENC_BUF enc) x rb = C" using decode_encode [OF v(1) 3, folded enc_def] E(2) by (simp add: CQF_ENC_BUF_def)
    moreover have "\<not> pos + 1 + length enc > rend" "pos + 1 + length enc \<noteq> pos + 1" using r(3) E(1) by (simp_all add: e)
    ultimately show ?thesis unfolding decode_nonzero_def Let_def j r(2) [symmetric] reads_map [OF rd(2)] by (simp add: e)
  qed
qed

lemma read_zero_enc_ok:
  assumes "reads cf i (enc @ [0, 0] @ rest)" "0 \<notin> set enc" "Suc rend = i + length (enc @ [0, 0] @ rest)"
  shows "read_zero_enc cf rend i = (enc, i + length enc + 2)"
  using assms
proof (induction enc arbitrary: i)
  case Nil
  then show ?case by (subst read_zero_enc.simps) (simp add: Let_def)
next
  case (Cons s enc)
  then have "read_zero_enc cf rend (i + 1) = (enc, i + 1 + length enc + 2)" by simp
  then show ?case using Cons.prems by (subst read_zero_enc.simps) (simp add: Let_def)
qed

lemma decode_zero_ok:
  assumes r: "reads cf pos (entry_syms rb 0 C @ rest)" "rb = qf_remainder_bits cf" "Suc rend = pos + length (entry_syms rb 0 C @ rest)"
    and v: "valid_counter rb C 0" "1 \<le> C" "rest = [] \<or> hd rest \<noteq> 0" "successively not_both_zero rest"
  shows "decode_zero cf rend pos = (C, pos + length (entry_syms rb 0 C))"
proof -
  consider "C = 1" | "C = 2" | "3 \<le> C" using v(2) by linarith
  then show ?thesis
  proof cases
    case 1
    then have "scan_up (\<lambda>i. slot_get cf i = 0) (rend + 1) (pos + 1) = pos + 1 + length ([] :: u64 list)"
      using r(1,3) v(3) by (intro scan_syms [where ts = rest]) (auto simp: entry_syms_def)
    then show ?thesis using 1 by (simp add: decode_zero_def entry_syms_def)
  next
    case 2
    have i: "scan_up (\<lambda>i. slot_get cf i = 0) (rend + 1) (pos + 1) = pos + 1 + length [0 :: u64]"
      using r(1,3) v(3) 2 by (intro scan_syms [where ts = rest]) (auto simp: entry_syms_def)
    define si where "si = scan_up (\<lambda>i. slot_get cf i \<noteq> 0) (rend + 1) (pos + 2)"
    define nz where "nz = takeWhile (\<lambda>s. s \<noteq> 0) rest"
    define zs where "zs = dropWhile (\<lambda>s. s \<noteq> 0) rest"
    have rs: "rest = nz @ zs" by (simp add: nz_def zs_def)
    have zs: "zs = [] \<or> hd zs = 0" using hd_dropWhile [of "\<lambda>s. s \<noteq> 0" rest] by (auto simp: zs_def)
    have rd: "reads cf (pos + 2) (nz @ zs)" using r(1) 2 by (simp add: entry_syms_def rs)
    have si: "si = pos + 2 + length nz" unfolding si_def
    proof (rule scan_syms [OF rd])
      show "\<forall>s \<in> set nz. s \<noteq> 0" by (auto simp: nz_def dest: set_takeWhileD)
      show "rend + 1 = pos + 2 + length (nz @ zs)" using r(3) 2 by (simp add: entry_syms_def rs)
    qed (use zs in simp)
    have "\<not> (si \<le> rend \<and> si + 1 \<le> rend \<and> slot_get cf (si + 1) = 0)"
    proof (cases zs)
      case Nil
      then show ?thesis using si r(3) 2 by (simp add: entry_syms_def rs)
    next
      case (Cons z us)
      then show ?thesis
      proof (cases us)
        case Nil
        then show ?thesis using si r(3) 2 Cons by (simp add: entry_syms_def rs)
      next
        case (Cons u ws)
        then have z: "zs = 0 # u # ws" using zs \<open>zs = z # us\<close> by simp
        then have "u \<noteq> 0" using v(4) by (auto simp: rs successively_append_iff)
        moreover have "slot_get cf (si + 1) = u" using rd by (simp add: z si reads_append)
        ultimately show ?thesis by simp
      qed
    qed
    moreover have "pos + 1 + length [0 :: u64] = pos + 2" by simp
    ultimately show ?thesis unfolding decode_zero_def Let_def i using 2 by (auto simp: entry_syms_def si_def)
  next
    case 3
    define enc where "enc = cqf_encode C 0 rb CQF_ENC_BUF"
    have e: "entry_syms rb 0 C = [0, 0] @ enc @ [0, 0]" using 3 by (simp add: entry_syms_def enc_def Let_def)
    note E = enc_symbols(1-3) [OF v(1) 3, folded enc_def]
    have rd: "reads cf (pos + 2) (enc @ [0, 0] @ rest)" using r(1) by (simp add: e)
    have hd: "hd enc \<noteq> 0" using E(1,3) by (cases enc) auto
    have i: "scan_up (\<lambda>i. slot_get cf i = 0) (rend + 1) (pos + 1) = pos + 1 + length [0 :: u64]"
      using r(1,3) E(1) hd by (intro scan_syms [where ts = "enc @ [0, 0] @ rest"]) (auto simp: e hd_append)
    have si: "scan_up (\<lambda>i. slot_get cf i \<noteq> 0) (rend + 1) (pos + 2) = pos + 2 + length enc"
      using rd r(3) E(3) by (intro scan_syms [where ts = "[0, 0] @ rest"]) (auto simp: e)
    have en: "read_zero_enc cf rend (pos + 2) = (enc, pos + 2 + length enc + 2)"
      using rd E(3) r(3) by (intro read_zero_enc_ok) (auto simp: e)
    have h: "slot_get cf (pos + 2) \<noteq> 0" "slot_get cf (pos + 2 + length enc + 1) = 0" using rd E(1,3) by (cases enc; simp add: reads_append)+
    have "decode_count (take CQF_ENC_BUF enc) 0 rb = C" using decode_encode [OF v(1) 3, folded enc_def] E(2) by (simp add: CQF_ENC_BUF_def)
    moreover have "pos + 2 \<le> rend" "pos + 2 + length enc \<le> rend" "pos + 2 + length enc + 1 \<le> rend" using r(3) by (simp_all add: e)
    moreover have "pos + 1 + length [0 :: u64] = pos + 2" by simp
    ultimately show ?thesis unfolding decode_zero_def Let_def i r(2) [symmetric] using si en h by (simp add: e)
  qed
qed

lemma decode_entry_ok:
  assumes r: "reads cf pos (entry_syms rb x C @ rest)" "rb = qf_remainder_bits cf" "Suc rend = pos + length (entry_syms rb x C @ rest)"
    and v: "valid_counter rb C x" "1 \<le> C" "x \<noteq> 0 \<and> C = 1 \<Longrightarrow> x \<notin> set rest" "x = 0 \<Longrightarrow> (rest = [] \<or> hd rest \<noteq> 0) \<and> successively not_both_zero rest"
  shows "cqf_decode_entry cf rend pos = Some (pos + length (entry_syms rb x C), x, C)"
proof -
  have rend: "\<not> rend < pos" using r(3) entry_syms_ne(3) [of rb x C] unfolding length_append by linarith
  obtain ss where ss: "entry_syms rb x C = x # ss" using entry_syms_Cons by blast
  then have p: "slot_get cf pos = x" "\<not> slot_is_free_cqf cf pos" using r(1) by (simp_all add: slot_is_free_cqf_def)
  have "scan_up (slot_is_free_cqf cf) (rend + 1) pos = pos" using rend p(2) by (intro scan_up_eq) simp_all
  moreover have "(if x = 0 then decode_zero cf rend pos else decode_nonzero cf rend pos x) = (C, pos + length (entry_syms rb x C))"
  proof (cases "x = 0")
    case True
    note w = v(4) [OF True, THEN conjunct1] v(4) [OF True, THEN conjunct2]
    show ?thesis using decode_zero_ok [OF r [unfolded True] v(1) [unfolded True] v(2) w] True by simp
  next
    case False
    then show ?thesis using decode_nonzero_ok [OF r v(1,2) False] v(3) by simp
  qed
  ultimately show ?thesis using rend p(1) r(2) by (simp add: cqf_decode_entry_def length_entry_syms)
qed

section \<open>The scan of a run\<close>

fun entry_list :: "nat \<Rightarrow> nat \<Rightarrow> entry list \<Rightarrow> (nat \<times> nat \<times> u64 \<times> nat) list" where
  "entry_list rbits pos [] = []"
| "entry_list rbits pos ((x, C) # es) =
     (let i = pos + length (entry_syms rbits x C) in (pos, i, x, C) # entry_list rbits i es)"

lemma run_scan_ok:
  assumes "reads cf pos (run_syms rb es)" "rb = qf_remainder_bits cf" "Suc rend = pos + length (run_syms rb es)" "rstart \<le> rend"
    "run_valid rb es" "readable rb es"
  shows "run_scan cf rstart rend pos w = entry_list rb pos es"
  using assms
proof (induction es arbitrary: pos)
  case Nil
  then show ?case by (subst run_scan.simps) simp
next
  case (Cons e es)
  obtain x C where e: "e = (x, C)" by (cases e)
  have v: "valid_counter rb C x" "1 \<le> C" "\<forall>y \<in> fst ` set es. x < y" "run_valid rb es" using Cons.prems(5) by (simp_all add: e run_valid_Cons)
  have z: "(run_syms rb es = [] \<or> hd (run_syms rb es) \<noteq> 0) \<and> successively not_both_zero (run_syms rb es)" if "x = 0"
  proof -
    have "0 \<notin> fst ` set es" using v(3) that by auto
    from run_lone_zeros [OF v(4) this] show ?thesis by (cases "es = []") simp_all
  qed
  have d: "cqf_decode_entry cf rend pos = Some (pos + length (entry_syms rb x C), x, C)"
  proof (rule decode_entry_ok [OF _ Cons.prems(2) _ v(1,2) _ z])
    show "reads cf pos (entry_syms rb x C @ run_syms rb es)" "Suc rend = pos + length (entry_syms rb x C @ run_syms rb es)"
      using Cons.prems(1,3) by (simp_all add: e)
    show "x \<notin> set (run_syms rb es)" if "x \<noteq> 0 \<and> C = 1" using Cons.prems(6) that by (simp add: e)
  qed
  moreover have "\<not> rend < pos" using decode_advances(1) [OF d] by simp
  moreover have "run_scan cf rstart rend (pos + length (entry_syms rb x C)) w = entry_list rb (pos + length (entry_syms rb x C)) es"
    using Cons.prems v(4) by (intro Cons.IH) (simp_all add: e reads_append add.assoc)
  ultimately show ?case using Cons.prems(4) by (subst run_scan.simps) (simp add: e Let_def)
qed

end
