(* ===== verification/Cqf_Rep.thy ===== *)
theory Cqf_Rep
  imports Cqf_Decode
begin

text \<open>
  The abstract filter: runs in the order of their quotients, each a list of pairs of a remainder and its count in the
  order of the remainders. \<open>cqf_rep cf rs\<close> relates it to the arrays; rank and select find the slots of a run.
\<close>

section \<open>Sorted association lists\<close>

fun upsert :: "'k::linorder \<Rightarrow> ('v \<Rightarrow> 'v) \<Rightarrow> 'v \<Rightarrow> ('k \<times> 'v) list \<Rightarrow> ('k \<times> 'v) list" where
  "upsert k f v [] = [(k, v)]"
| "upsert k f v ((j, w) # xs) = (if j = k then (j, f w) # xs else if k < j then (k, v) # (j, w) # xs else (j, w) # upsert k f v xs)"

abbreviation keys_sorted :: "('k::linorder \<times> 'v) list \<Rightarrow> bool" where
  "keys_sorted xs \<equiv> sorted_wrt (<) (map fst xs)"

abbreviation keys_below :: "('k::linorder \<times> 'v) list \<Rightarrow> 'k \<Rightarrow> bool" where
  "keys_below xs k \<equiv> \<forall>j \<in> fst ` set xs. j < k"

abbreviation keys_above :: "'k \<Rightarrow> ('k::linorder \<times> 'v) list \<Rightarrow> bool" where
  "keys_above k xs \<equiv> \<forall>j \<in> fst ` set xs. k < j"

lemma upsert_found: "keys_below F k \<Longrightarrow> upsert k f v (F @ (k, w) # G) = F @ (k, f w) # G"
  by (induction F) auto

lemma upsert_absent: "keys_below F k \<Longrightarrow> keys_above k G \<Longrightarrow> upsert k f v (F @ G) = F @ (k, v) # G"
proof (induction F)
  case Nil
  then show ?case by (cases G) auto
qed auto

lemma split_key:
  assumes "keys_sorted xs"
  obtains (found) F v G where "xs = F @ (k, v) # G" "keys_below F k" "keys_above k G"
  | (absent) F G where "xs = F @ G" "keys_below F k" "keys_above k G"
proof -
  have "(\<exists>F v G. xs = F @ (k, v) # G \<and> keys_below F k \<and> keys_above k G) \<or> (\<exists>F G. xs = F @ G \<and> keys_below F k \<and> keys_above k G)"
    using assms
  proof (induction xs)
    case (Cons x xs)
    obtain j w where x: "x = (j, w)" by (cases x)
    have ab: "keys_above j xs" "keys_sorted xs" using Cons.prems x by auto
    consider "j = k" | "k < j" | "j < k" by fastforce
    then show ?case
    proof cases
      case 1
      then have "x # xs = [] @ (k, w) # xs \<and> keys_below [] k \<and> keys_above k xs" using x ab by simp
      then show ?thesis by blast
    next
      case 2
      then have "x # xs = [] @ (x # xs) \<and> keys_below [] k \<and> keys_above k (x # xs)" 
        using x ab(1) less_trans [of k j] by simp
      then show ?thesis by (intro disjI2 exI)
    next
      case 3
      from Cons.IH [OF ab(2)] show ?thesis
      proof
        assume "\<exists>F v G. xs = F @ (k, v) # G \<and> keys_below F k \<and> keys_above k G"
        then obtain F v G where "xs = F @ (k, v) # G" "keys_below F k" "keys_above k G" by blast
        then have "x # xs = (x # F) @ (k, v) # G \<and> keys_below (x # F) k \<and> keys_above k G" using x 3 by simp
        then show ?thesis by blast
      next
        assume "\<exists>F G. xs = F @ G \<and> keys_below F k \<and> keys_above k G"
        then obtain F G where "xs = F @ G" "keys_below F k" "keys_above k G" by blast
        then have "x # xs = (x # F) @ G \<and> keys_below (x # F) k \<and> keys_above k G" using x 3 by simp
        then show ?thesis by (intro disjI2 exI)
      qed
    qed
  qed simp
  then show ?thesis using that by metis
qed

lemma map_of_above: "keys_above k G \<Longrightarrow> map_of G k = None" "keys_below G k \<Longrightarrow> map_of G k = None"
  by (force simp: map_of_eq_None_iff)+

lemma map_of_upsert:
  assumes "keys_sorted xs"
  shows "map_of (upsert k f v xs) = (map_of xs)(k \<mapsto> case map_of xs k of None \<Rightarrow> v | Some w \<Rightarrow> f w)"
  using assms
proof (induction xs)
  case (Cons x xs)
  obtain j w where x: "x = (j, w)" by (cases x)
  have "keys_above j xs" "keys_sorted xs" using Cons.prems x by auto
  moreover have "map_of xs k = None" if "k < j" using \<open>keys_above j xs\<close> that by (intro map_of_above) auto
  ultimately show ?case using Cons.IH x by (auto simp: fun_eq_iff)
qed (simp add: fun_eq_iff)

lemma keys_upsert: "fst ` set (upsert k f v xs) = insert k (fst ` set xs)"
  by (induction k f v xs rule: upsert.induct) auto

lemma sorted_upsert: "keys_sorted xs \<Longrightarrow> keys_sorted (upsert k f v xs)"
proof (induction k f v xs rule: upsert.induct)
  case (2 k f v j w xs)
  then show ?case using keys_upsert [of k f v xs] by auto
qed simp

lemma cnt_keys:
  assumes "distinct qs"
  shows "cnt (\<lambda>p. p \<in> set qs) x = length (filter (\<lambda>p. p < x) qs)"
proof (induction x)
  case (Suc x)
  have "length (filter (\<lambda>p. p < Suc x) zs) = length (filter (\<lambda>p. p < x) zs) + length (filter (\<lambda>p. p = x) zs)" for zs :: "nat list"
    by (induction zs) auto
  moreover have "length (filter (\<lambda>p. p = x) qs) = (if x \<in> set qs then 1 else 0)" using assms by (induction qs) auto
  ultimately show ?case using Suc by simp
qed simp

section \<open>Cells of the runs\<close>

type_synonym run = "nat \<times> entry list"

definition all_cells :: "nat \<Rightarrow> run list \<Rightarrow> cell list" where
  "all_cells rbits rs = concat (map (\<lambda>(q, es). flag_last (run_syms rbits es) True) rs)"

definition total_count :: "run list \<Rightarrow> nat" where
  "total_count rs = sum_list (map (\<lambda>(q, es). sum_list (map snd es)) rs)"

definition runs_valid :: "nat \<Rightarrow> nat \<Rightarrow> run list \<Rightarrow> bool" where
  "runs_valid ns rbits rs \<longleftrightarrow> keys_sorted rs \<and> (\<forall>(q, es) \<in> set rs. q < ns \<and> es \<noteq> [] \<and> run_valid rbits es)"

definition cqf_rep :: "cqf_filter \<Rightarrow> run list \<Rightarrow> bool" where
  "cqf_rep cf rs \<longleftrightarrow> holds cf (all_cells (qf_remainder_bits cf) rs) \<and> sums_cqf cf \<and>
     (\<forall>q < qf_num_slots cf. qf_oc cf q \<longleftrightarrow> q \<in> fst ` set rs) \<and>
     runs_valid (qf_num_slots cf) (qf_remainder_bits cf) rs \<and> qf_count cf = total_count rs"

lemma all_cells_simps [simp]:
  "all_cells rbits [] = []" "all_cells rbits ((q, es) # rs) = flag_last (run_syms rbits es) True @ all_cells rbits rs"
  "all_cells rbits (rs @ rs') = all_cells rbits rs @ all_cells rbits rs'"
  by (simp_all add: all_cells_def)

lemma total_count_simps [simp]:
  "total_count [] = 0" "total_count ((q, es) # rs) = sum_list (map snd es) + total_count rs" "total_count (rs @ rs') = total_count rs + total_count rs'"
  by (simp_all add: total_count_def)

lemma flag_last_Nil [simp]: "flag_last [] b = []"
  by (simp add: flag_last_def)

lemma flag_last_append:
  assumes "ts \<noteq> []"
  shows "flag_last (ss @ ts) b = flag_last ss False @ flag_last ts b"
proof (rule nth_equalityI)
  have "length ts \<noteq> 0" using assms by simp
  then have "Suc i \<noteq> length ss + length ts" if "i < length ss" for i using that by arith
  then show "flag_last (ss @ ts) b ! i = (flag_last ss False @ flag_last ts b) ! i" if "i < length (flag_last (ss @ ts) b)" for i
    using that by (auto simp: nth_append)
qed simp

lemma flag_last_Cons: "flag_last (t # ts) b = (if ts = [] then [(t, b)] else (t, False) # flag_last ts b)"
  using flag_last_append [of ts "[t]" b] by (simp add: flag_last_def)

lemma flag_last_flags: "filter snd (flag_last ss False) = []" "ss \<noteq> [] \<Longrightarrow> filter snd (flag_last ss True) = [(last ss, True)]"
proof -
  show f: "filter snd (flag_last ss False) = []" for ss by (auto simp: flag_last_def filter_empty_conv)
  assume "ss \<noteq> []"
  then obtain ts t where "ss = ts @ [t]" by (metis rev_exhaust)
  then show "filter snd (flag_last ss True) = [(last ss, True)]" by (simp add: flag_last_append f flag_last_def)
qed

lemma cnt_flags: "cnt (\<lambda>p. p < length cs \<and> snd (cs ! p)) x = length (filter snd (take x cs))"
proof (induction x)
  case (Suc x)
  then show ?case by (cases "x < length cs") (simp_all add: take_Suc_conv_app_nth)
qed simp

lemma flags_all_cells: "(\<forall>(q, es) \<in> set rs. es \<noteq> []) \<Longrightarrow> length (filter snd (all_cells rbits rs)) = length rs"
  by (induction rs) (auto simp: flag_last_flags)

section \<open>Rank and select\<close>

lemma repD:
  assumes "cqf_rep cf rs"
  shows "holds cf (all_cells (qf_remainder_bits cf) rs)" "cqf_shape cf" "sums_cqf cf" "q < qf_num_slots cf \<Longrightarrow> qf_oc cf q \<longleftrightarrow> q \<in> fst ` set rs"
    "keys_sorted rs" "runs_valid (qf_num_slots cf) (qf_remainder_bits cf) rs" "qf_count cf = total_count rs"
    "length (all_cells (qf_remainder_bits cf) rs) \<le> qf_num_slots cf"
  using assms by (auto simp: cqf_rep_def holds_def runs_valid_def)

lemma rank_rep:
  assumes "cqf_rep cf rs" "q < qf_num_slots cf"
  shows "rank_occ_fast cf q = length (filter (\<lambda>r. fst r \<le> q) rs)"
proof -
  have d: "distinct (map fst rs)" using repD(5) [OF assms(1)] by (simp add: strict_sorted_iff)
  have "rank_occ_fast cf q = cnt (qf_oc cf) (Suc q)" using rank_cqf repD(2,3) [OF assms(1)] assms(2) by blast
  also have "\<dots> = cnt (\<lambda>p. p \<in> set (map fst rs)) (Suc q)" using repD(4) [OF assms(1)] assms(2) by (intro cnt_cong) simp
  also have "\<dots> = length (filter (\<lambda>r. fst r \<le> q) rs)" unfolding cnt_keys [OF d] by (simp add: filter_map o_def less_Suc_eq_le)
  finally show ?thesis .
qed

lemma rank_split:
  assumes "cqf_rep cf (R1 @ R2)" "q < qf_num_slots cf" "\<forall>j \<in> fst ` set R1. j \<le> q" "keys_above q R2"
  shows "rank_occ_fast cf q = length R1"
  using rank_rep [OF assms(1,2)] assms(3,4) by (simp add: filter_id_conv filter_False not_le)

lemma rank_total:
  assumes "cqf_rep cf rs"
  shows "rank_occ_fast cf (qf_num_slots cf - 1) = length rs"
proof -
  have "0 < qf_num_slots cf" using repD(2) [OF assms] by (simp add: cqf_shape_def)
  moreover have "\<forall>j \<in> fst ` set rs. j \<le> qf_num_slots cf - 1" using repD(6) [OF assms] by (fastforce simp: runs_valid_def)
  ultimately show ?thesis using rank_split [of cf rs "[]"] assms by simp
qed

lemma all_cells_pos:
  assumes "runs_valid ns rb rs" "rs \<noteq> []"
  shows "0 < length (all_cells rb rs)"
proof -
  obtain q es rs' where rs: "rs = (q, es) # rs'" using assms(2) by (metis list.exhaust prod.exhaust)
  then have "0 < length (run_syms rb es)" using assms(1) by (auto simp: runs_valid_def)
  then show ?thesis by (simp add: rs)
qed

lemma runs_valid_append: "runs_valid ns rb (R1 @ R2) \<Longrightarrow> runs_valid ns rb R1 \<and> runs_valid ns rb R2"
  by (auto simp: runs_valid_def sorted_wrt_append)

lemma select_rep:
  assumes rep: "cqf_rep cf (R1 @ R2)" and ne: "R1 \<noteq> []"
  shows "select_run_fast cf (length R1) = length (all_cells (qf_remainder_bits cf) R1) - 1"
proof -
  let ?rb = "qf_remainder_bits cf"
  obtain R q es where R1: "R1 = R @ [(q, es)]" using ne by (metis prod.exhaust rev_exhaust)
  have v: "runs_valid (qf_num_slots cf) ?rb (R1 @ R2)" using rep by (rule repD)
  then have es: "es \<noteq> []" "\<forall>(q, es) \<in> set R. es \<noteq> []" by (auto simp: runs_valid_def R1)
  define ss where "ss = run_syms ?rb es"
  have "ss \<noteq> []" using es by (simp add: ss_def)
  then obtain ts t where ss: "ss = ts @ [t]" by (metis rev_exhaust)
  define A where "A = all_cells ?rb R @ flag_last ts False"
  define cs where "cs = all_cells ?rb (R1 @ R2)"
  have cs: "cs = A @ (t, True) # all_cells ?rb R2"
    by (simp add: cs_def A_def R1 ss_def [symmetric]) (simp add: ss flag_last_append, simp add: flag_last_def)
  have h: "holds cf cs" unfolding cs_def using rep by (rule repD)
  have p: "length A < length cs" "length A < qf_num_slots cf" "snd (cs ! length A)" using holdsD(2) [OF h] by (simp_all add: cs)
  have "cnt (qf_rn cf) (length A) = cnt (\<lambda>p. p < length cs \<and> snd (cs ! p)) (length A)"
    using holdsD(4) [OF h] p(2) by (intro cnt_cong) simp
  also have "\<dots> = length R" using flags_all_cells [OF es(2), of ?rb] unfolding cnt_flags cs by (simp add: A_def flag_last_flags)
  finally have c: "cnt (qf_rn cf) (length A) = length R" .
  have rn: "qf_rn cf (length A)" using holdsD(4) [OF h p(2)] p by simp
  have "select_run_fast cf (Suc (length R)) = length A" by (rule select_cqf [OF repD(2,3) [OF rep] p(2) rn c])
  then show ?thesis by (simp add: R1 A_def ss_def [symmetric]) (simp add: ss)
qed

lemma last_runend_rep:
  assumes "cqf_rep cf rs"
  shows "last_runend cf d = (if rs = [] then d else length (all_cells (qf_remainder_bits cf) rs) - 1)"
  using rank_total [OF assms] select_rep [of cf rs "[]"] assms by (simp add: last_runend_def)

end
