(* ===== verification/Cqf_Insert.thy ===== *)
theory Cqf_Insert
  imports Cqf_Rep
begin

text \<open>
  Insertion on the abstract filter. In a packed filter whose run for the quotient is readable, \<open>cqf_filter_insert\<close> adds
  one copy of the remainder to the run when the slots suffice and reports a full filter otherwise.
\<close>

unbundle bit_operations_syntax

definition bump_run :: "nat \<Rightarrow> u64 \<Rightarrow> run list \<Rightarrow> run list" where
  "bump_run q x rs = upsert q (upsert x Suc 1) [(x, 1)] rs"

definition copies :: "run list \<Rightarrow> nat \<Rightarrow> u64 \<Rightarrow> nat" where
  "copies rs q x = (case map_of rs q of None \<Rightarrow> 0 | Some es \<Rightarrow> (case map_of es x of None \<Rightarrow> 0 | Some C \<Rightarrow> C))"

definition same_dims :: "cqf_filter \<Rightarrow> cqf_filter \<Rightarrow> bool" where
  "same_dims cf cf' \<longleftrightarrow> qf_num_slots cf' = qf_num_slots cf \<and> qf_remainder_bits cf' = qf_remainder_bits cf \<and> qf_remainder_mask cf' = qf_remainder_mask cf"

lemma same_dims_refl [simp]: "same_dims cf cf"
  by (simp add: same_dims_def)

lemma same_dims_trans: "same_dims a b \<Longrightarrow> same_dims b c \<Longrightarrow> same_dims a c"
  by (simp add: same_dims_def)

lemma turns_dims: "turns cf cs cf' \<Longrightarrow> same_dims cf cf' \<and> qf_count cf' = qf_count cf"
  by (simp add: turns_def same_qf_def same_dims_def)

section \<open>Locating a remainder\<close>

lemma locate_found:
  assumes "keys_below F x"
  shows "locate x d (entry_list rb pos (F @ (x, C) # G)) =
    Inl (pos + length (run_syms rb F), pos + length (run_syms rb F) + length (entry_syms rb x C), C)"
  using assms by (induction F arbitrary: pos d) (auto simp: Let_def add.assoc)

lemma locate_absent:
  assumes "keys_below F x" "keys_above x G"
  shows "locate x d (entry_list rb pos (F @ G)) = Inr (if F = [] \<and> G = [] then d else pos + length (run_syms rb F))"
  using assms
proof (induction F arbitrary: pos d)
  case Nil
  then show ?case by (cases G) (auto simp: Let_def)
next
  case (Cons e F)
  obtain y C where e: "e = (y, C)" by (cases e)
  then show ?case using Cons by (auto simp: Let_def add.assoc)
qed

section \<open>The free slot\<close>

lemma find_free_at:
  assumes "cqf_shape cf" "n < qf_num_slots cf" "\<not> qf_ph cf n"
  shows "find_free cf n = Some n"
proof -
  have "scan_up (\<lambda>n. \<not> slot_is_free_cqf cf n) (qf_num_slots cf) n = n"
    using assms by (intro scan_up_eq) (simp_all add: slot_is_free_cqf_def)
  then show ?thesis using assms(2) by (simp add: find_free_def)
qed

lemma find_free_none:
  assumes "\<And>p. p < qf_num_slots cf \<Longrightarrow> qf_ph cf p"
  shows "find_free cf 0 = None"
proof -
  have "scan_up (\<lambda>n. \<not> slot_is_free_cqf cf n) (qf_num_slots cf) 0 = qf_num_slots cf"
    using assms by (intro scan_up_eq) (simp_all add: slot_is_free_cqf_def)
  then show ?thesis by (simp add: find_free_def)
qed

text \<open>An empty filter looks for a free slot from slot 1 on and shifts slot 0, which holds nothing.\<close>

lemma open_empty_turns:
  assumes h: "holds cf []" and v: "fits_slot cf v"
  shows "turns cf [(v, False)] (open_slot_cqf 0 1 v cf)"
proof -
  have s: "cqf_shape cf" "\<not> qf_ph cf 0" "\<not> qf_rn cf 0" using holdsD(1) [OF h] holdsD(3,4) [OF h, of 0] by (simp_all add: cqf_shape_def)
  define c where "c = shift_range_right 0 1 cf"
  have "shift_step 1 cf = slot_set 0 0 (slot_set 1 (slot_get cf 0) cf)" using s by (simp add: shift_step_def move_phys_occ_cqf_def qf_view Let_def)
  moreover have "turns cf [] (slot_set 0 0 (slot_set 1 (slot_get cf 0) cf))" using h by (simp add: turns_def holds_def qf_view)
  ultimately have "turns cf [] (shift_step 1 cf)" by simp
  then have "turns cf [] (update_offsets (shift_step 1 cf))" by (intro turns_trans [where cs = "[]", OF _ offsets_cqf_turns]) (simp_all add: turns_def)
  then have t: "turns cf [] c" by (simp add: c_def shift_range_right_def)
  have "turns c (take 0 [] @ (v, False) # drop 0 []) (open_slot_cqf 0 (length ([] :: cell list)) v c)"
    using t v s(1) fits_same [of cf c] by (intro open_slot_turns) (simp_all add: turns_def same_qf_def cqf_shape_def)
  moreover have "open_slot_cqf 0 0 v c = open_slot_cqf 0 1 v cf" by (simp add: open_slot_cqf_def c_def)
  ultimately show ?thesis using turns_trans [OF t] by simp
qed

lemma open_rep:
  assumes rep: "cqf_rep cf rs" and d: "rs = [] \<Longrightarrow> d = 0" and v: "fits_slot cf v"
  defines "cs \<equiv> all_cells (qf_remainder_bits cf) rs"
  assumes a: "a \<le> length cs"
  shows "if length cs < qf_num_slots cf
    then \<exists>n. find_free cf ((last_runend cf d + 1) mod qf_num_slots cf) = Some n \<and>
      turns cf (take a cs @ (v, False) # drop a cs) (open_slot_cqf a n v cf)
    else find_free cf ((last_runend cf d + 1) mod qf_num_slots cf) = None"
proof -
  have h: "holds cf cs" "cqf_shape cf" using repD(1,2) [OF rep] by (simp_all add: cs_def)
  have ns: "64 \<le> qf_num_slots cf" "length cs \<le> qf_num_slots cf" using h(2) holdsD(2) [OF h(1)] by (simp_all add: cqf_shape_def)
  show ?thesis
  proof (cases "rs = []")
    case True
    then have cs: "cs = []" "a = 0" using a by (simp_all add: cs_def)
    have "(last_runend cf d + 1) mod qf_num_slots cf = 1" using last_runend_rep [OF rep] d True ns by simp
    moreover have "find_free cf 1 = Some 1" using h ns holdsD(3) [OF h(1), of 1] by (intro find_free_at) (simp_all add: cs)
    ultimately show ?thesis using open_empty_turns [OF h(1) [unfolded cs] v] cs ns by simp
  next
    case False
    have "0 < length cs" unfolding cs_def using repD(6) [OF rep] False by (rule all_cells_pos)
    then have l: "last_runend cf d + 1 = length cs" using last_runend_rep [OF rep] False by (simp add: cs_def)
    show ?thesis
    proof (cases "length cs < qf_num_slots cf")
      case True
      then have "find_free cf (length cs) = Some (length cs)" using holdsD(3) [OF h(1) True] by (intro find_free_at h) simp_all
      then show ?thesis using open_slot_turns [OF h(1) a True v] True l by simp
    next
      case False
      then have "length cs mod qf_num_slots cf = 0" "find_free cf 0 = None"
        using ns holdsD(3) [OF h(1)] by (auto intro!: find_free_none)
      then show ?thesis using False l by simp
    qed
  qed
qed

section \<open>The new state\<close>

lemma holds_updates [simp]:
  "holds (occ_set q cf) cs = holds cf cs" "holds (cf\<lparr>qf_count := c\<rparr>) cs = holds cf cs" "holds (cf\<lparr>qf_distinct_count := c\<rparr>) cs = holds cf cs"
  by (simp_all add: holds_def qf_view)

lemma same_dims_updates [simp]:
  "same_dims a (occ_set q cf) = same_dims a cf" "same_dims a (cf\<lparr>qf_count := c\<rparr>) = same_dims a cf" "same_dims a (cf\<lparr>qf_distinct_count := c\<rparr>) = same_dims a cf"
  by (simp_all add: same_dims_def occ_set_def)

lemma rep_offsets:
  assumes "holds cf (all_cells rb rs)" "rb = qf_remainder_bits cf" "\<And>q. q < qf_num_slots cf \<Longrightarrow> qf_oc cf q \<longleftrightarrow> q \<in> fst ` set rs"
    "runs_valid (qf_num_slots cf) rb rs" "qf_count cf = total_count rs"
  shows "cqf_rep (update_offsets cf) rs" "same_dims cf (update_offsets cf)"
proof -
  have s: "cqf_shape cf" using assms(1) by (rule holdsD)
  have d: "qf_num_slots (update_offsets cf) = qf_num_slots cf" "qf_remainder_bits (update_offsets cf) = qf_remainder_bits cf"
    "qf_remainder_mask (update_offsets cf) = qf_remainder_mask cf" "qf_count (update_offsets cf) = qf_count cf"
    using offsets_cqf_frame(7) [of cf] by (simp_all add: same_qf_def)
  have "holds (update_offsets cf) (all_cells rb rs)" using offsets_cqf_turns [OF assms(1)] by (simp add: turns_def)
  then show "cqf_rep (update_offsets cf) rs" using assms offsets_cqf_ok(2) [OF s] by (simp add: cqf_rep_def d offsets_cqf_frame)
  show "same_dims cf (update_offsets cf)" by (simp add: same_dims_def d)
qed

definition becomes_rep :: "cqf_filter \<Rightarrow> run list \<Rightarrow> cqf_err \<times> cqf_filter \<Rightarrow> bool" where
  "becomes_rep cf rs' out \<longleftrightarrow>
     (if length (all_cells (qf_remainder_bits cf) rs') \<le> qf_num_slots cf
      then \<exists>cf'. out = (CQF_OK, cf') \<and> cqf_rep cf' rs' \<and> same_dims cf cf'
      else out = (CQF_ERR_FULL, cf))"

lemma rep_count_small:
  assumes "cqf_rep cf rs" "qf_count cf < sz_mul (qf_num_slots cf) 16"
  shows "sz_add (qf_count cf) 1 = Suc (qf_count cf)"
proof -
  have "qf_num_slots cf \<le> 2 ^ 58" using repD(2) [OF assms(1)] by (simp add: cqf_shape_def)
  then have "sz_mul (qf_num_slots cf) 16 \<le> 2 ^ 62" by (subst sz_mul_small) simp_all
  then show ?thesis using assms(2) by (intro trans [OF sz_add_small]) simp_all
qed

lemma create_run_rep:
  assumes rep: "cqf_rep cf (R1 @ R2)" and q: "keys_below R1 q" "keys_above q R2" "q < qf_num_slots cf"
    and x: "fits_slot cf x" and c: "qf_count cf < sz_mul (qf_num_slots cf) 16"
  shows "becomes_rep cf (R1 @ (q, [(x, 1)]) # R2) (create_run cf q x (length R1) (select_run_fast cf (length R1)))"
proof -
  let ?rb = "qf_remainder_bits cf" and ?ns = "qf_num_slots cf"
  define A where "A = all_cells ?rb R1"
  define cs where "cs = all_cells ?rb (R1 @ R2)"
  have cs: "cs = A @ all_cells ?rb R2" by (simp add: cs_def A_def)
  have new: "all_cells ?rb (R1 @ (q, [(x, 1)]) # R2) = A @ (x, True) # all_cells ?rb R2" by (simp add: A_def entry_syms_def flag_last_def)
  have len: "length (all_cells ?rb (R1 @ (q, [(x, 1)]) # R2)) = Suc (length cs)" unfolding new cs by simp
  define s where "s = select_run_fast cf (length R1)"
  have rv: "runs_valid ?ns ?rb (R1 @ R2)" using rep by (rule repD)
  have "0 < length A" if "R1 \<noteq> []" unfolding A_def using runs_valid_append [OF rv] that by (intro all_cells_pos) auto
  then have s: "R1 = [] \<Longrightarrow> s = 0 \<and> length A = 0" "R1 \<noteq> [] \<Longrightarrow> s + 1 = length A"
    using select_rep [OF rep] by (auto simp: s_def select_run_fast_def A_def)
  note op = open_rep [OF rep _ x, of s "length A", folded cs_def]
  show ?thesis
  proof (cases "length cs < ?ns")
    case False
    then have "find_free cf ((last_runend cf s + 1) mod ?ns) = None" using op s(1) by (auto simp: cs)
    then show ?thesis using False unfolding becomes_rep_def len create_run_def s_def [symmetric] Let_def by simp
  next
    case True
    obtain n where n: "find_free cf ((last_runend cf s + 1) mod ?ns) = Some n"
      "turns cf (A @ (x, False) # all_cells ?rb R2) (open_slot_cqf (length A) n x cf)"
      using op s(1) True by (auto simp: cs)
    have ins: "(if length R1 = 0 then 0 else (s + 1) mod ?ns) = length A" using s True by (auto simp: cs)
    define c1 where "c1 = run_set (length A) (open_slot_cqf (length A) n x cf)"
    have t: "turns cf (all_cells ?rb (R1 @ (q, [(x, 1)]) # R2)) c1"
      using run_set_turns [OF n(2), of "length A"] unfolding new c1_def by simp
    define c2 where "c2 = count_new (occ_set q c1)"
    have d: "same_dims cf c2" "qf_num_slots c2 = ?ns" "qf_remainder_bits c2 = ?rb" "cqf_shape c1" "qf_num_slots c1 = ?ns" "qf_count c1 = qf_count cf"
      using turns_dims [OF t] t by (auto simp: c2_def count_new_def same_dims_def occ_set_def turns_def holds_def)
    have oc: "qf_oc c2 p \<longleftrightarrow> p \<in> fst ` set (R1 @ (q, [(x, 1)]) # R2)" if "p < qf_num_slots c2" for p
    proof -
      have "qf_oc c1 = qf_oc cf" using t by (simp add: turns_def)
      then show ?thesis using that d q(3) repD(4) [OF rep, of p] bit_view(3) [of c1 q] by (auto simp: c2_def count_new_def)
    qed
    have "valid_counter ?rb 1 x" using x repD(2) [OF rep] by (simp add: valid_counter_def fits_slot_def cqf_shape_def)
    then have v: "runs_valid ?ns ?rb (R1 @ (q, [(x, 1)]) # R2)"
      using rv q by (auto simp: runs_valid_def sorted_wrt_append run_valid_def)
    have cnt: "qf_count c2 = total_count (R1 @ (q, [(x, 1)]) # R2)"
      using rep_count_small [OF rep c] repD(7) [OF rep] d(6) by (simp add: c2_def count_new_def occ_set_def)
    have h: "holds c2 (all_cells ?rb (R1 @ (q, [(x, 1)]) # R2))" using t by (simp add: c2_def count_new_def turns_def)
    note f = rep_offsets [OF h d(3) [symmetric] oc v [folded d(2)] cnt]
    have "create_run cf q x (length R1) s = (CQF_OK, update_offsets c2)"
      unfolding create_run_def Let_def ins n(1) by (simp add: c1_def c2_def)
    then show ?thesis using f same_dims_trans [OF d(1) f(2)] True unfolding becomes_rep_def len s_def [symmetric] by simp
  qed
qed

section \<open>A run gets a new entry\<close>

lemma rep_run_changed:
  assumes rep: "cqf_rep cf (R1 @ (q, es) # R2)" and t: "turns cf (all_cells (qf_remainder_bits cf) (R1 @ (q, es') # R2)) c1"
    and es': "es' \<noteq> []" "run_valid (qf_remainder_bits cf) es'" and n: "n = total_count (R1 @ (q, es') # R2)"
  shows "cqf_rep (update_offsets (c1\<lparr>qf_count := n, qf_distinct_count := m\<rparr>)) (R1 @ (q, es') # R2) \<and>
    same_dims cf (update_offsets (c1\<lparr>qf_count := n, qf_distinct_count := m\<rparr>))"
proof -
  let ?c = "c1\<lparr>qf_count := n, qf_distinct_count := m\<rparr>"
  have d: "same_dims cf ?c" "qf_num_slots ?c = qf_num_slots cf" "qf_remainder_bits ?c = qf_remainder_bits cf"
    using turns_dims [OF t] by (simp_all add: same_dims_def)
  have h: "holds ?c (all_cells (qf_remainder_bits cf) (R1 @ (q, es') # R2))" using t by (simp add: turns_def)
  have oc: "qf_oc ?c p \<longleftrightarrow> p \<in> fst ` set (R1 @ (q, es') # R2)" if "p < qf_num_slots ?c" for p
    using repD(4) [OF rep, of p] that d(2) t by (simp add: turns_def)
  have v: "runs_valid (qf_num_slots ?c) (qf_remainder_bits cf) (R1 @ (q, es') # R2)"
    using repD(6) [OF rep] es' d(2) by (simp add: runs_valid_def)
  have c: "qf_count ?c = total_count (R1 @ (q, es') # R2)" by (simp add: n)
  note f = rep_offsets [OF h d(3) [symmetric] oc v c]
  show ?thesis using f(1) same_dims_trans [OF d(1) f(2)] by blast
qed

lemma run_valid_insert:
  assumes "run_valid rb (F @ G)" "keys_below F x" "keys_above x G" "valid_counter rb 1 x"
  shows "run_valid rb (F @ (x, 1) # G)"
  using assms by (auto simp: run_valid_def sorted_wrt_append)

lemma insert_distinct_rep:
  assumes rep: "cqf_rep cf (R1 @ (q, F @ G) # R2)" and k: "keys_below F x" "keys_above x G"
    and x: "fits_slot cf x" and c: "qf_count cf < sz_mul (qf_num_slots cf) 16"
  defines "rb \<equiv> qf_remainder_bits cf"
  defines "rstart \<equiv> length (all_cells rb R1)"
  shows "becomes_rep cf (R1 @ (q, F @ (x, 1) # G) # R2)
    (insert_distinct cf (rstart + length (run_syms rb (F @ G)) - 1) (rstart + length (run_syms rb F)) x)"
proof -
  let ?ns = "qf_num_slots cf" and ?a = "rstart + length (run_syms rb F)"
  define rend where "rend = rstart + length (run_syms rb (F @ G)) - 1"
  define A where "A = all_cells rb R1"
  define T where "T = all_cells rb R2"
  define cs where "cs = all_cells rb (R1 @ (q, F @ G) # R2)"
  define new where "new = all_cells rb (R1 @ (q, F @ (x, 1) # G) # R2)"
  have rv: "runs_valid ?ns rb (R1 @ (q, F @ G) # R2)" unfolding rb_def using rep by (rule repD)
  then have ne: "F @ G \<noteq> []" "run_valid rb (F @ G)" by (auto simp: runs_valid_def)
  have cs: "cs = A @ flag_last (run_syms rb F @ run_syms rb G) True @ T" by (simp add: cs_def A_def T_def)
  have rend: "Suc rend = rstart + length (run_syms rb (F @ G))" using ne(1) by (cases "F = []") (auto simp: rend_def)
  have len: "length new = Suc (length cs)" by (simp add: new_def cs_def entry_syms_def)
  have a: "?a \<le> length cs" by (simp add: cs rstart_def A_def)
  note op = open_rep [OF rep _ x, of rend ?a, folded rb_def, folded cs_def, OF _ a, simplified]
  show ?thesis
  proof (cases "length cs < ?ns")
    case False
    then have "find_free cf ((last_runend cf rend + 1) mod ?ns) = None" using op by simp
    then show ?thesis using False unfolding becomes_rep_def rb_def [symmetric] new_def [symmetric] len insert_distinct_def rend_def [symmetric] Let_def by simp
  next
    case True
    obtain n where n: "find_free cf ((last_runend cf rend + 1) mod ?ns) = Some n"
      "turns cf (take ?a cs @ (x, False) # drop ?a cs) (open_slot_cqf ?a n x cf)"
      using op True by auto
    define c1 where "c1 = open_slot_cqf ?a n x cf"
    have d1: "qf_num_slots c1 = ?ns" "qf_count c1 = qf_count cf" using turns_dims [OF n(2)] by (simp_all add: c1_def same_dims_def)
    have re: "Suc rend \<le> length cs" using rend by (simp add: cs rstart_def A_def)
    define c2 where "c2 = (if (rend + 1) mod qf_num_slots c1 = ?a then run_set ?a (run_clear rend c1) else c1)"
    have t: "turns cf new c2"
    proof (cases "G = []")
      case False
      then have "rend + 1 \<noteq> ?a" using rend by simp
      then have "c2 = c1" using re True d1 by (simp add: c2_def)
      moreover have "take ?a cs @ (x, False) # drop ?a cs = new"
        using False unfolding cs new_def rstart_def
        by (simp add: A_def T_def entry_syms_def flag_last_append flag_last_Cons)
      ultimately show ?thesis using n(2) by (simp add: c1_def)
    next
      case G: True
      then have r: "rend + 1 = ?a" "run_syms rb F \<noteq> []" using rend ne(1) by simp_all
      obtain ts s where ss: "run_syms rb F = ts @ [s]" using r(2) by (metis rev_exhaust)
      define B where "B = A @ flag_last ts False"
      have tk: "take ?a cs @ (x, False) # drop ?a cs = B @ (s, True) # (x, False) # T"
        unfolding cs rstart_def G ss by (simp add: A_def B_def flag_last_append flag_last_Cons)
      have nw: "new = (B @ [(s, False)]) @ (x, True) # T"
        unfolding new_def G by (simp add: A_def B_def T_def entry_syms_def ss flag_last_append flag_last_Cons)
      have p: "rend = length B" "?a = length (B @ [(s, False)])" using r(1) ss by (simp_all add: rstart_def A_def B_def)
      have "turns cf ((B @ [(s, False)]) @ (x, False) # T) (run_clear rend c1)"
        using run_clear_turns [OF n(2) [folded c1_def, unfolded tk], of rend] p(1) by simp
      from run_set_turns [OF this, of ?a] have "turns cf new (run_set ?a (run_clear rend c1))"
        unfolding nw p(2) nth_append_length list_update_length by simp
      moreover have "c2 = run_set ?a (run_clear rend c1)" using r(1) re True d1 by (simp add: c2_def)
      ultimately show ?thesis by simp
    qed
    have d2: "qf_count c2 = qf_count cf" using turns_dims [OF t] by simp
    have "valid_counter rb 1 x" using x repD(2) [OF rep] by (simp add: valid_counter_def fits_slot_def cqf_shape_def rb_def)
    then have v: "run_valid rb (F @ (x, 1) # G)" using run_valid_insert [OF ne(2) k] by simp
    have cnt: "sz_add (qf_count c2) 1 = total_count (R1 @ (q, F @ (x, 1) # G) # R2)"
      using rep_count_small [OF rep c] repD(7) [OF rep] d2 by simp
    have "insert_distinct cf rend ?a x = (CQF_OK, update_offsets (count_new c2))"
      unfolding insert_distinct_def n(1) Let_def by (simp add: c1_def c2_def)
    moreover have "cqf_rep (update_offsets (count_new c2)) (R1 @ (q, F @ (x, 1) # G) # R2) \<and> same_dims cf (update_offsets (count_new c2))"
      unfolding count_new_def using t v cnt by (intro rep_run_changed [OF rep]) (simp_all add: new_def rb_def)
    ultimately show ?thesis using True unfolding becomes_rep_def rb_def [symmetric] new_def [symmetric] len rend_def [symmetric] by simp
  qed
qed

section \<open>An entry gets another count\<close>

text \<open>The cells in front of an entry and behind it.\<close>

definition cells_before :: "nat \<Rightarrow> run list \<Rightarrow> entry list \<Rightarrow> cell list" where
  "cells_before rb R1 F = all_cells rb R1 @ flag_last (run_syms rb F) False"

definition cells_after :: "nat \<Rightarrow> entry list \<Rightarrow> run list \<Rightarrow> cell list" where
  "cells_after rb G R2 = flag_last (run_syms rb G) True @ all_cells rb R2"

lemma split_cells:
  "all_cells rb (R1 @ (q, F @ (x, C) # G) # R2) = cells_before rb R1 F @ flag_last (entry_syms rb x C) (G = []) @ cells_after rb G R2"
  by (cases "G = []") (simp_all add: cells_before_def cells_after_def flag_last_append)

definition run_end :: "nat \<Rightarrow> run list \<Rightarrow> entry list \<Rightarrow> nat" where
  "run_end rb R1 es = length (all_cells rb R1) + length (run_syms rb es) - 1"

lemma run_end_of:
  "runend_of (length (cells_before rb R1 F) + length (entry_syms rb x C)) (cells_after rb G R2) (G = []) (run_end rb R1 (F @ (x, C) # G))"
proof (cases "G = []")
  case True
  have "0 < length (entry_syms rb x C)" by simp
  then have "Suc (length (all_cells rb R1) + (length (run_syms rb F) + length (entry_syms rb x C)) - 1) = length (all_cells rb R1) + (length (run_syms rb F) + length (entry_syms rb x C))"
    by linarith
  then show ?thesis using True by (simp add: runend_of_def run_end_def cells_before_def)
next
  case False
  let ?g = "run_syms rb G" and ?d = "length (cells_before rb R1 F) + length (entry_syms rb x C)"
  have g: "0 < length ?g" using False by simp
  have e: "run_end rb R1 (F @ (x, C) # G) = ?d + (length ?g - 1)"
    using g unfolding run_end_def cells_before_def run_syms_simps length_append length_flag_last by linarith
  have "cells_after rb G R2 ! (length ?g - 1) = flag_last ?g True ! (length ?g - 1)" using g by (simp add: cells_after_def nth_append)
  then have "snd (cells_after rb G R2 ! (length ?g - 1))" using g by simp
  moreover have "length ?g - 1 < length (cells_after rb G R2)" using g unfolding cells_after_def length_append length_flag_last by linarith
  ultimately show ?thesis using False by (simp add: runend_of_def e)
qed

lemma run_valid_count:
  assumes "run_valid rb (F @ (x, C) # G)" "1 \<le> D" "D < 2 ^ 31"
  shows "run_valid rb (F @ (x, D) # G)" "valid_counter rb D x" "valid_counter rb C x" "1 \<le> C"
proof -
  have "valid_counter rb C x" "1 \<le> C" using assms(1) by (simp_all add: run_valid_def)
  then show "valid_counter rb D x" "valid_counter rb C x" "1 \<le> C" using assms(3) by (simp_all add: valid_counter_def)
  then show "run_valid rb (F @ (x, D) # G)" using assms(1,2) by (simp add: run_valid_def)
qed

lemma syms_fit: "valid_counter (qf_remainder_bits cf) C x \<Longrightarrow> \<forall>v \<in> set (entry_syms (qf_remainder_bits cf) x C). fits_slot cf v"
  using entry_syms_fit by (auto simp: fits_slot_def)

text \<open>What the operations on an entry know about its run.\<close>

lemma entry_facts:
  assumes rep: "cqf_rep cf (R1 @ (q, F @ (x, C) # G) # R2)"
  defines "rb \<equiv> qf_remainder_bits cf"
  defines "pos \<equiv> length (cells_before rb R1 F)"
  defines "old \<equiv> length (entry_syms rb x C)"
  shows "holds cf (cells_before rb R1 F @ flag_last (entry_syms rb x C) (G = []) @ cells_after rb G R2)"
    "sz_sub (pos + old) pos = old" "pos + old + length (cells_after rb G R2) \<le> qf_num_slots cf" "0 < old" "old = cqf_enc_slots C x rb"
    "last_runend cf d = pos + old + length (cells_after rb G R2) - 1" "length (all_cells rb R1) \<le> run_end rb R1 (F @ (x, C) # G)"
    "run_valid rb (F @ (x, C) # G)"
proof -
  show h: "holds cf (cells_before rb R1 F @ flag_last (entry_syms rb x C) (G = []) @ cells_after rb G R2)"
    using repD(1) [OF rep] unfolding split_cells by (simp add: rb_def)
  then show l: "pos + old + length (cells_after rb G R2) \<le> qf_num_slots cf" using holdsD(2) by (fastforce simp: pos_def old_def)
  have "qf_num_slots cf \<le> 2 ^ 58" using repD(2) [OF rep] by (simp add: cqf_shape_def)
  then show "sz_sub (pos + old) pos = old" using l sz_sub_small [of pos "pos + old"] by simp
  show "0 < old" "old = cqf_enc_slots C x rb" by (simp_all add: old_def length_entry_syms del: entry_syms_ne) (simp add: cqf_enc_slots_def Let_def)
  show "last_runend cf d = pos + old + length (cells_after rb G R2) - 1"
    using last_runend_rep [OF rep, of d] unfolding split_cells by (simp add: rb_def pos_def old_def)
  show "length (all_cells rb R1) \<le> run_end rb R1 (F @ (x, C) # G)" 
    using \<open>0 < old\<close> unfolding run_end_def old_def run_syms_simps length_append by linarith
  show "run_valid rb (F @ (x, C) # G)" using repD(6) [OF rep] by (simp add: runs_valid_def rb_def)
qed

lemma tail_all: "rstart \<le> rend \<Longrightarrow> 0 < n \<Longrightarrow> tail_slots ns rstart rend n (n + t - 1) = t"
  by (cases t) (simp_all add: tail_slots_def)

lemma bump_entry_rep:
  assumes rep: "cqf_rep cf (R1 @ (q, F @ (x, C) # G) # R2)" and C: "Suc C < 2 ^ 31" and c: "qf_count cf < sz_mul (qf_num_slots cf) 16"
  defines "rb \<equiv> qf_remainder_bits cf"
  defines "pos \<equiv> length (cells_before rb R1 F)"
  shows "becomes_rep cf (R1 @ (q, F @ (x, Suc C) # G) # R2)
    (bump_entry cf (length (all_cells rb R1)) (run_end rb R1 (F @ (x, C) # G)) pos (pos + length (entry_syms rb x C)) x C)"
proof -
  let ?ns = "qf_num_slots cf" and ?rs = "R1 @ (q, F @ (x, Suc C) # G) # R2" and ?A = "cells_before rb R1 F" and ?T = "cells_after rb G R2"
    and ?rend = "run_end rb R1 (F @ (x, C) # G)" and ?rstart = "length (all_cells rb R1)"
  define old where "old = length (entry_syms rb x C)"
  define vs where "vs = entry_syms rb x (Suc C)"
  note E = entry_facts [OF rep, folded rb_def, folded pos_def, folded old_def]
  have v: "run_valid rb (F @ (x, Suc C) # G)" "valid_counter rb (Suc C) x" "valid_counter rb C x" "1 \<le> C"
    using run_valid_count [OF E(8) _ C] by simp_all
  have cells: "all_cells rb ?rs = ?A @ flag_last vs (G = []) @ ?T" by (simp only: split_cells vs_def)
  have len: "length (all_cells rb ?rs) = pos + length vs + length ?T" unfolding cells by (simp add: pos_def)
  have nc: "sz_add C 1 = Suc C" using C by (intro trans [OF sz_add_small]) simp_all
  have le: "old \<le> length vs" using slots_mono [OF v(2)] by (simp add: old_def vs_def length_entry_syms)
  have cnt: "sz_add (qf_count cf) 1 = total_count ?rs" using rep_count_small [OF rep c] repD(7) [OF rep] by simp
  have fin: "\<exists>cf'. (CQF_OK, update_offsets (c1\<lparr>qf_count := sz_add (qf_count c1) 1\<rparr>)) = (CQF_OK, cf') \<and> cqf_rep cf' ?rs \<and> same_dims cf cf'"
    if t: "turns cf (all_cells rb ?rs) c1" for c1
  proof -
    have e: "c1\<lparr>qf_count := sz_add (qf_count c1) 1\<rparr> = c1\<lparr>qf_count := sz_add (qf_count c1) 1, qf_distinct_count := qf_distinct_count c1\<rparr>" by simp
    have "sz_add (qf_count c1) 1 = total_count ?rs" using turns_dims [OF t] cnt by simp
    from rep_run_changed [OF rep t [unfolded rb_def] _ _ this, of "qf_distinct_count c1", folded e] v(1)
    show ?thesis by (simp add: rb_def)
  qed
  show ?thesis
  proof (cases "length vs = old")
    case True
    have C3: "3 \<le> C" using True v(2,4) enc_symbols(1) [of rb 3 x] by (auto simp: vs_def old_def entry_syms_def Let_def split: if_splits)
    have "turns cf (all_cells rb ?rs) (rewrite_counter pos x C (Suc C) cf)"
      unfolding cells pos_def vs_def using E(1) C3 True v(2)
      by (intro rewrite_turns) (simp_all add: rb_def [symmetric] vs_def old_def length_entry_syms)
    from fin [OF this] have "\<exists>cf'. bump_entry cf ?rstart ?rend pos (pos + old) x C = (CQF_OK, cf') \<and> cqf_rep cf' ?rs \<and> same_dims cf cf'"
      using True C3 unfolding bump_entry_def nc E(2) rb_def [symmetric] length_entry_syms [symmetric] vs_def [symmetric] Let_def by simp
    then show ?thesis using True E(3) unfolding becomes_rep_def rb_def [symmetric] len old_def [symmetric] by simp
  next
    case False
    then have lt: "old < length vs" using le by simp
    have tail: "tail_slots ?ns ?rstart ?rend (pos + old) (last_runend cf ?rend) = length ?T"
      unfolding E(6) using E(4,7) by (intro tail_all) simp_all
    have b: "bump_entry cf ?rstart ?rend pos (pos + old) x C =
      (if pos + length vs + length ?T > ?ns then (CQF_ERR_FULL, cf)
       else let cf = replace_entry ?rend pos old (length vs) (length ?T) (last_runend cf ?rend) ?ns x (Suc C) cf
            in (CQF_OK, update_offsets (cf\<lparr>qf_count := sz_add (qf_count cf) 1\<rparr>)))"
      using lt E(7) tail unfolding bump_entry_def nc E(2) rb_def [symmetric] length_entry_syms [symmetric] vs_def [symmetric] Let_def by simp
    show ?thesis
    proof (cases "pos + length vs + length ?T \<le> ?ns")
      case True
      have "turns cf (?A @ flag_last vs (G = []) @ ?T)
          (replace_entry ?rend (length ?A) (length (flag_last (entry_syms rb x C) (G = []))) (length vs) (length ?T) (last_runend cf ?rend) ?ns x (Suc C) cf)"
        using True lt v(2) run_end_of [of rb R1 F x C G R2] syms_fit [of cf "Suc C" x] E(4)
        by (intro grow_entry_turns [OF E(1)]) (simp_all add: pos_def old_def vs_def rb_def [symmetric] flip: length_greater_0_conv)
      then have "turns cf (all_cells rb ?rs) (replace_entry ?rend pos old (length vs) (length ?T) (last_runend cf ?rend) ?ns x (Suc C) cf)"
        unfolding cells by (simp add: pos_def old_def)
      from fin [OF this] show ?thesis using True unfolding becomes_rep_def rb_def [symmetric] len old_def [symmetric] b Let_def by simp
    next
      case False
      then show ?thesis unfolding becomes_rep_def rb_def [symmetric] len old_def [symmetric] b Let_def by simp
    qed
  qed
qed

section \<open>The slots of a run\<close>

lemma reads_holds:
  assumes "holds cf (A @ flag_last ss b @ T)"
  shows "reads cf (length A) ss"
proof -
  have l: "length A + length ss + length T \<le> qf_num_slots cf" using holdsD(2) [OF assms] by simp
  show ?thesis unfolding reads_iff
  proof (intro allI impI)
    fix i
    assume i: "i < length ss"
    then show "slot_get cf (length A + i) = ss ! i \<and> qf_ph cf (length A + i)"
      using holdsD(3,5) [OF assms, of "length A + i"] l by (simp add: nth_append)
  qed
qed

lemma quotient_cqf: "cqf_rep cf rs \<Longrightarrow> cqf_hash_quotient cf hash < qf_num_slots cf"
  using masked_slot_less [of "qf_num_slots cf"] repD(2) [of cf rs] by (simp add: cqf_hash_quotient_def cqf_shape_def)

lemma remainder_cqf: "cqf_rep cf rs \<Longrightarrow> fits_slot cf (cqf_hash_remainder cf hash)"
proof -
  assume "cqf_rep cf rs"
  then have "cqf_hash_remainder cf hash = take_bit (qf_remainder_bits cf) hash" using repD(2)
    by (simp add: cqf_hash_remainder_def cqf_shape_def take_bit_eq_mask)
  then show ?thesis by (simp add: fits_slot_def unsigned_take_bit_eq)
qed

lemma run_facts:
  assumes rep: "cqf_rep cf (R1 @ (q, es) # R2)"
  defines "rb \<equiv> qf_remainder_bits cf"
  defines "rstart \<equiv> length (all_cells rb R1)"
  shows "q < qf_num_slots cf" "qf_oc cf q" "rank_occ_fast cf q = Suc (length R1)" "select_run_fast cf (Suc (length R1)) = run_end rb R1 es"
    "(if Suc (length R1) > 1 then select_run_fast cf (Suc (length R1) - 1) + 1 else 0) = rstart" "rstart \<le> run_end rb R1 es"
    "run_end rb R1 es < qf_num_slots cf" "find_run_cqf cf q = Some (rstart, run_end rb R1 es)"
    "readable rb es \<Longrightarrow> run_scan cf rstart (run_end rb R1 es) rstart False = entry_list rb rstart es" "qf_count cf \<noteq> 0"
proof -
  have rv: "runs_valid (qf_num_slots cf) rb (R1 @ (q, es) # R2)" unfolding rb_def using rep by (rule repD)
  then have q: "q < qf_num_slots cf" "es \<noteq> []" "run_valid rb es" "keys_below R1 q" "keys_above q R2"
    by (auto simp: runs_valid_def sorted_wrt_append)
  then show "q < qf_num_slots cf" by simp
  show oc: "qf_oc cf q" using repD(4) [OF rep q(1)] by simp
  have h: "holds cf (all_cells rb R1 @ flag_last (run_syms rb es) True @ all_cells rb R2)" using repD(1) [OF rep] by (simp add: rb_def)
  have sy: "0 < length (run_syms rb es)" using q(2) by simp
  have l: "rstart + length (run_syms rb es) \<le> qf_num_slots cf" using holdsD(2) [OF h] by (simp add: rstart_def)
  have e: "Suc (run_end rb R1 es) = rstart + length (run_syms rb es)" unfolding run_end_def rstart_def using sy by linarith
  show le: "rstart \<le> run_end rb R1 es" "run_end rb R1 es < qf_num_slots cf" using e l sy by linarith+
  show rank: "rank_occ_fast cf q = Suc (length R1)"
    using rank_split [of cf "R1 @ [(q, es)]" R2 q] rep q by (auto simp: less_imp_le)
  show sel: "select_run_fast cf (Suc (length R1)) = run_end rb R1 es"
    using select_rep [of cf "R1 @ [(q, es)]" R2] rep by (simp add: rb_def run_end_def)
  have A: "0 < rstart" if "R1 \<noteq> []" unfolding rstart_def using runs_valid_append [OF rv] that by (intro all_cells_pos) auto
  have prev: "select_run_fast cf (length R1) + 1 = rstart" if "R1 \<noteq> []" using select_rep [OF rep that] A [OF that] by (simp add: rb_def rstart_def)
  then show "(if Suc (length R1) > 1 then select_run_fast cf (Suc (length R1) - 1) + 1 else 0) = rstart" by (auto simp: rstart_def)
  have "\<forall>(q, es) \<in> set R1. es \<noteq> []" using rv by (auto simp: runs_valid_def)
  from flags_all_cells [OF this, of rb] have "length R1 \<le> rstart"
    using length_filter_le [of snd "all_cells rb R1"] by (simp add: rstart_def)
  moreover have "qf_num_slots cf \<le> 2 ^ 58" using repD(2) [OF rep] by (simp add: cqf_shape_def)
  ultimately have "sz_sub (Suc (length R1)) 1 = length R1" using le sz_sub_small [of 1 "Suc (length R1)"] by simp
  then have "run_start_cqf cf (Suc (length R1)) = rstart" using prev le by (auto simp: run_start_cqf_def rstart_def)
  then show "find_run_cqf cf q = Some (rstart, run_end rb R1 es)" using oc rank sel by (simp add: find_run_cqf_def)
  show "run_scan cf rstart (run_end rb R1 es) rstart False = entry_list rb rstart es" if "readable rb es"
    using reads_holds [OF h] e le(1) q(3) that by (intro run_scan_ok) (simp_all add: rb_def rstart_def)
  obtain x C fs where "es = (x, C) # fs" using q(2) by (metis list.exhaust prod.exhaust)
  then show "qf_count cf \<noteq> 0" using repD(7) [OF rep] q(3) by (simp add: run_valid_def)
qed

section \<open>Insertion\<close>

lemma insert_rep:
  assumes rep: "cqf_rep cf rs" and q: "q = cqf_hash_quotient cf hash" and x: "x = cqf_hash_remainder cf hash"
    and read: "\<And>es. map_of rs q = Some es \<Longrightarrow> readable (qf_remainder_bits cf) es" and C: "Suc (copies rs q x) < 2 ^ 31"
  shows "if qf_count cf < 16 * qf_num_slots cf then becomes_rep cf (bump_run q x rs) (cqf_filter_insert cf hash)
    else cqf_filter_insert cf hash = (CQF_ERR_FULL, cf)"
proof (cases "qf_count cf < 16 * qf_num_slots cf")
  case False
  have "sz_mul (qf_num_slots cf) 16 = 16 * qf_num_slots cf" using repD(2) [OF rep] by (subst sz_mul_small) (simp_all add: cqf_shape_def)
  then show ?thesis using False by (simp add: cqf_filter_insert_def)
next
  case True
  let ?rb = "qf_remainder_bits cf"
  have c: "qf_count cf < sz_mul (qf_num_slots cf) 16" using True repD(2) [OF rep] by (subst sz_mul_small) (simp_all add: cqf_shape_def)
  have ql: "q < qf_num_slots cf" and xf: "fits_slot cf x" using quotient_cqf [OF rep] remainder_cqf [OF rep] by (simp_all add: q x)
  have ins: "cqf_filter_insert cf hash =
    (if \<not> qf_oc cf q then create_run cf q x (rank_occ_fast cf q) (select_run_fast cf (rank_occ_fast cf q))
     else let rk = rank_occ_fast cf q; rstart = (if rk > 1 then select_run_fast cf (rk - 1) + 1 else 0); rend = select_run_fast cf rk
          in case locate x ((rend + 1) mod qf_num_slots cf) (run_scan cf rstart rend rstart False) of
               Inl (saved_pos, scan_pos, dec_cnt) \<Rightarrow> bump_entry cf rstart rend saved_pos scan_pos x dec_cnt
             | Inr ins_pos \<Rightarrow> insert_distinct cf rend ins_pos x)"
    using c unfolding cqf_filter_insert_def Let_def q [symmetric] x [symmetric] by simp
  have "becomes_rep cf (bump_run q x rs) (cqf_filter_insert cf hash)"
    using repD(5) [OF rep]
  proof (cases rule: split_key [where k = q])
    case (absent R1 R2)
    then have "q \<notin> fst ` set rs" by auto
    then have "\<not> qf_oc cf q" using repD(4) [OF rep ql] by simp
    moreover have "rank_occ_fast cf q = length R1" using rep ql absent by (intro rank_split [of cf R1 R2]) (auto simp: less_imp_le)
    moreover have "bump_run q x rs = R1 @ (q, [(x, 1)]) # R2" unfolding bump_run_def absent(1) by (rule upsert_absent [OF absent(2,3)])
    ultimately show ?thesis using create_run_rep [OF rep [unfolded absent(1)] absent(2,3) ql xf c] ins by simp
  next
    case (found R1 es R2)
    note F = run_facts [OF rep [unfolded found(1)]]
    have m: "map_of rs q = Some es" using map_of_above(2) [OF found(2)] by (simp add: found(1) map_add_def)
    have i: "cqf_filter_insert cf hash = (case locate x ((run_end ?rb R1 es + 1) mod qf_num_slots cf) (entry_list ?rb (length (all_cells ?rb R1)) es) of
               Inl (saved_pos, scan_pos, dec_cnt) \<Rightarrow> bump_entry cf (length (all_cells ?rb R1)) (run_end ?rb R1 es) saved_pos scan_pos x dec_cnt
             | Inr ins_pos \<Rightarrow> insert_distinct cf (run_end ?rb R1 es) ins_pos x)"
      unfolding ins Let_def F(3-5) F(9) [OF read [OF m]] using F(2) by simp
    have b: "bump_run q x rs = R1 @ (q, upsert x Suc 1 es) # R2" unfolding bump_run_def found(1) by (rule upsert_found [OF found(2)])
    have "es \<noteq> []" "keys_sorted es" using repD(6) [OF rep] found(1) by (auto simp: runs_valid_def run_valid_def)
    from this(2) show ?thesis
    proof (cases rule: split_key [where k = x])
      case e: (found F C G)
      have "copies rs q x = C" using map_of_above(2) [OF e(2)] m by (simp add: copies_def e(1) map_add_def)
      then have "Suc C < 2 ^ 31" using C by simp
      from bump_entry_rep [OF rep [unfolded found(1) e(1)] this c] show ?thesis
        unfolding b i e(1) locate_found [OF e(2)] upsert_found [OF e(2)] by (simp add: cells_before_def)
    next
      case e: (absent F G)
      then have "\<not> (F = [] \<and> G = [])" using \<open>es \<noteq> []\<close> by simp
      then have l: "locate x d (entry_list ?rb p es) = Inr (p + length (run_syms ?rb F))" for d p unfolding e(1) locate_absent [OF e(2,3)] by auto
      from insert_distinct_rep [OF rep [unfolded found(1) e(1)] e(2,3) xf c] show ?thesis
        unfolding b i l using upsert_absent [OF e(2,3), of Suc 1] by (simp add: e(1) run_end_def)
    qed
  qed
  then show ?thesis using True by simp
qed

end
