(* ===== verification/Cqf_Spec.thy ===== *)
theory Cqf_Spec
  imports Cqf_Insert Amq
begin

text \<open>
  Correctness of the counting quotient filter. Insertion and the counting queries are exact on packed filters with
  readable runs; the interface \<open>counting_filter\<close> says for which multisets of insertions a filter may be relied on, and
  the counting quotient filter is an instance for those whose counters cannot be misread.
\<close>

unbundle bit_operations_syntax

section \<open>Queries\<close>

lemma count_scan_entries:
  assumes "keys_sorted es"
  shows "count_scan x (entry_list rb pos es) = (case map_of es x of None \<Rightarrow> 0 | Some C \<Rightarrow> C)"
  using assms
proof (induction es arbitrary: pos)
  case (Cons e es)
  obtain y C where e: "e = (y, C)" by (cases e)
  have "map_of es x = None" if "x < y" using Cons.prems that by (intro map_of_above(1)) (auto simp: e)
  then show ?case using Cons by (auto simp: e Let_def)
qed simp

lemma locate_entries:
  assumes "keys_sorted es"
  shows "(\<exists>r. locate x d (entry_list rb pos es) = Inl r) \<longleftrightarrow> map_of es x \<noteq> None"
  using assms
proof (cases rule: split_key [where k = x])
  case (found F C G)
  then show ?thesis using locate_found [OF found(2)] by (simp add: map_of_eq_None_iff)
next
  case (absent F G)
  then show ?thesis using locate_absent [OF absent(2,3)] map_of_above(1) [OF absent(3)] map_of_above(2) [OF absent(2)] by (simp add: map_add_def)
qed

lemma run_of_key:
  assumes "cqf_rep cf rs" "map_of rs q = Some es"
  obtains R1 R2 where "rs = R1 @ (q, es) # R2" "keys_below R1 q" "keys_above q R2" "run_valid (qf_remainder_bits cf) es" "keys_sorted es" "es \<noteq> []"
proof -
  have ks: "keys_sorted rs" using assms(1) by (rule repD)
  have "run_valid (qf_remainder_bits cf) es \<and> es \<noteq> []"
    using repD(6) [OF assms(1)] map_of_SomeD [OF assms(2)] by (auto simp: runs_valid_def)
  moreover from this have "keys_sorted es" by (simp add: run_valid_def)
  ultimately have v: "run_valid (qf_remainder_bits cf) es" "keys_sorted es" "es \<noteq> []" by simp_all
  show ?thesis
    using ks
  proof (cases rule: split_key [where k = q])
    case (found R1 fs R2)
    then have "fs = es" using assms(2) map_of_above(2) [OF found(2)] by (simp add: map_add_def)
    then show ?thesis using that found v by simp
  next
    case (absent R1 R2)
    then show ?thesis using assms(2) map_of_above(1) [OF absent(3)] map_of_above(2) [OF absent(2)] by (simp add: map_add_def)
  qed
qed

lemma queries_rep:
  assumes rep: "cqf_rep cf rs" and es: "map_of rs (cqf_hash_quotient cf hash) = Some es" "readable (qf_remainder_bits cf) es"
  shows "cqf_filter_count_occurrences cf hash = copies rs (cqf_hash_quotient cf hash) (cqf_hash_remainder cf hash)"
    "cqf_filter_lookup cf hash \<longleftrightarrow> 0 < copies rs (cqf_hash_quotient cf hash) (cqf_hash_remainder cf hash)"
proof -
  let ?q = "cqf_hash_quotient cf hash" and ?x = "cqf_hash_remainder cf hash" and ?rb = "qf_remainder_bits cf"
  obtain R1 R2 where r: "rs = R1 @ (?q, es) # R2" "run_valid ?rb es" "keys_sorted es" using run_of_key [OF rep es(1)] by metis
  note F = run_facts [OF rep [unfolded r(1)]]
  have c: "copies rs ?q ?x = (case map_of es ?x of None \<Rightarrow> 0 | Some C \<Rightarrow> C)" by (simp add: copies_def es(1))
  show "cqf_filter_count_occurrences cf hash = copies rs ?q ?x"
    using F(8,9,10) es(2) c count_scan_entries [OF r(3)] by (simp add: cqf_filter_count_occurrences_def)
  have "cqf_filter_lookup cf hash \<longleftrightarrow> (\<exists>s. locate ?x 0 (entry_list ?rb (length (all_cells ?rb R1)) es) = Inl s)"
    using F(8,9,10) es(2) by (auto simp: cqf_filter_lookup_def split: sum.splits)
  also have "\<dots> \<longleftrightarrow> map_of es ?x \<noteq> None" by (rule locate_entries [OF r(3)])
  also have "\<dots> \<longleftrightarrow> 0 < copies rs ?q ?x" unfolding c using r(2) by (auto simp: run_valid_def dest!: map_of_SomeD split: option.splits)
  finally show "cqf_filter_lookup cf hash \<longleftrightarrow> 0 < copies rs ?q ?x" .
qed

lemma copies_bump:
  assumes "keys_sorted rs" "\<And>es. map_of rs q = Some es \<Longrightarrow> keys_sorted es"
  shows "copies (bump_run q x rs) p y = copies rs p y + (if p = q \<and> y = x then 1 else 0)"
  using assms(2) by (auto simp: copies_def bump_run_def map_of_upsert [OF assms(1)] map_of_upsert split: option.splits)

section \<open>Creation\<close>

lemma slots_loop_pow2:
  assumes "2 ^ k < cap" "cap \<le> 2 ^ m" "k \<le> m" "m < 64"
  shows "\<exists>j. k < j \<and> j \<le> m \<and> cap \<le> 2 ^ j \<and> slots_loop cap (2 ^ k) = Some (2 ^ j)"
  using assms
proof (induction "m - k" arbitrary: k)
  case 0
  then show ?case by simp
next
  case (Suc d)
  then have k: "Suc k \<le> m" "d = m - Suc k" by simp_all
  have "sz_mul (2 ^ k) 2 = 2 ^ Suc k"
    using power_strict_increasing [of "Suc k" 64 "2 :: nat"] Suc.prems k by (subst sz_mul_small) simp_all
  then have s: "slots_loop cap (2 ^ k) = slots_loop cap (2 ^ Suc k)" using Suc.prems(1) by (subst slots_loop.simps) simp
  show ?case
  proof (cases "2 ^ Suc k < cap")
    case True
    from Suc.hyps(1) [OF k(2) True Suc.prems(2) k(1) Suc.prems(4)] show ?thesis unfolding s by (auto intro: less_trans [OF lessI])
  next
    case False
    then have "slots_loop cap (2 ^ Suc k) = Some (2 ^ Suc k)" by (subst slots_loop.simps) simp
    then show ?thesis unfolding s using k False by (intro exI [of _ "Suc k"]) simp
  qed
qed

lemma log2_loop_pow2: "log2_loop (2 ^ j) qb = qb + j"
proof (induction j arbitrary: qb)
  case 0
  show ?case by (subst log2_loop.simps) simp
next
  case (Suc j)
  have "1 < (2 :: nat) ^ Suc j" by (rule one_less_power) simp_all
  then show ?case using Suc.IH [of "Suc qb"] by (subst log2_loop.simps) simp
qed

lemma create_cqf:
  assumes cap: "0 < cap" "cap \<le> 2 ^ 32"
  obtains cf where "cqf_filter_create cap fp True = Some (Some cf)" "cqf_rep cf []" "cap \<le> qf_num_slots cf" "qf_num_slots cf \<le> 2 ^ 32"
proof -
  define rb where "rb = (let f = unat (if fp = 0 then 10 else fp); f = (if f < 2 then 2 else f) in if f > 32 then 32 else f)"
  have rb: "2 \<le> rb" "rb \<le> 32" by (auto simp: rb_def Let_def)
  obtain j where j: "j \<le> 32" "slots_loop cap 1 = Some (2 ^ j)" "cap \<le> 2 ^ j"
  proof (cases "cap = 1")
    case True
    then have "slots_loop cap 1 = Some (2 ^ 0)" by (subst slots_loop.simps) simp
    then show ?thesis using that [of 0] True by simp
  next
    case False
    then show ?thesis using that slots_loop_pow2 [of 0 cap 32] cap by auto
  qed
  define k where "k = (if j < 6 then 6 else j)"
  have k: "6 \<le> k" "k \<le> 32" "(if (2::nat) ^ j < 64 then 64 else 2 ^ j) = (2::nat) ^ k"
    using j(1) power_strict_increasing_iff [of "2 :: nat" j 6] by (auto simp: k_def)
  define nb where "nb = (2::nat) ^ (k - 6)"
  have nb: "(2::nat) ^ k = 64 * nb" "0 < nb" using k(1) power_add [of "2 :: nat" 6 "k - 6"] by (simp_all add: nb_def)
  have k32: "(2::nat) ^ k \<le> 2 ^ 32" using k(2) by (intro power_increasing) simp_all
  have words: "remainder_words (2 ^ k) rb = nb * rb"
  proof -
    have "2 ^ k * rb \<le> 2 ^ 32 * 32" using k32 rb(2) by (intro mult_le_mono)
    then have "sz_mul (2 ^ k) rb = 2 ^ k * rb" "sz_add (2 ^ k * rb) 63 = 2 ^ k * rb + 63" by (auto intro!: sz_mul_small sz_add_small)
    then show ?thesis by (simp add: remainder_words_def nb(1) mult.assoc)
  qed
  have qb: "log2_loop (2 ^ k) 0 = k" by (simp add: log2_loop_pow2)
  define cf where "cf = \<lparr>qf_num_slots = 2 ^ k, qf_num_blocks = nb, qf_count = 0, qf_distinct_count = 0,
     qf_remainder_bits = rb, qf_quotient_bits = k, qf_entries_per_set = 0, qf_num_sets = 0,
     qf_remainder_mask = push_bit rb 1 - 1, qf_compat_version = 1, qf_hash_seed = 0,
     qf_occupieds = replicate nb 0, qf_runends = replicate nb 0, qf_phys_occ = replicate nb 0,
     qf_occ_prefix = replicate (nb + 1) 0, qf_run_prefix = replicate (nb + 1) 0,
     qf_offsets = replicate nb 0, qf_table = replicate (nb * rb) 0\<rparr>"
  have create: "cqf_filter_create cap fp True = Some (Some cf)"
    using cap(1) j(2) k qb rb(2) words nb unfolding cqf_filter_create_def Let_def by (simp add: cf_def rb_def [unfolded Let_def, symmetric])
  have shape: "cqf_shape cf" using nb k32 rb by (simp add: cqf_shape_def cf_def mask_eq_exp_minus_1 push_bit_of_1)
  have zero: "\<not> tbit (replicate nb 0) p" if "p < 64 * nb" for p using that by (simp add: tbit_def div_less_iff_less_mult mult.commute)
  then have c0: "cnt (tbit (replicate nb 0)) n = 0" if "n \<le> 64 * nb" for n using cnt_none [of 0 n "tbit (replicate nb 0)"] that by simp
  have sums: "sums_cqf cf" using c0 by (auto simp: sums_cqf_def prefix_ok_def cf_def nth_replicate simp del: replicate_Suc)
  have "cqf_rep cf []" using shape sums zero nb by (simp add: cqf_rep_def holds_def runs_valid_def cf_def)
  moreover have "(2 :: nat) ^ j \<le> 2 ^ k" by (intro power_increasing) (simp_all add: k_def)
  with j(3) have "cap \<le> 2 ^ k" by (rule order_trans)
  ultimately show ?thesis using that [OF create] k32 by (simp add: cf_def)
qed

section \<open>Deleting one of several copies\<close>

definition drop_run :: "nat \<Rightarrow> u64 \<Rightarrow> run list \<Rightarrow> run list" where
  "drop_run q x rs = upsert q (upsert x (\<lambda>C. C - 1) 0) [] rs"

lemma slots_put_bits:
  "qf_occupieds (slots_put pos vs cf) = qf_occupieds cf" "qf_runends (slots_put pos vs cf) = qf_runends cf"
  "qf_occ_prefix (slots_put pos vs cf) = qf_occ_prefix cf" "qf_run_prefix (slots_put pos vs cf) = qf_run_prefix cf"
  by (induction vs arbitrary: pos cf) (simp_all add: slot_set_def)

lemma rewrite_sums: "sums_cqf cf \<Longrightarrow> sums_cqf ((rewrite_counter pos x C D cf)\<lparr>qf_count := n\<rparr>)"
  by (simp add: sums_cqf_def rewrite_counter_def slots_put_bits Let_def)

lemma drop_copy_rep:
  assumes rep: "cqf_rep cf (R1 @ (q, F @ (x, C) # G) # R2)" and C: "2 \<le> C" and c64: "qf_count cf < 2 ^ 64"
  defines "rb \<equiv> qf_remainder_bits cf"
  defines "pos \<equiv> length (cells_before rb R1 F)"
  shows "\<exists>cf'. drop_copy cf (length (all_cells rb R1)) (run_end rb R1 (F @ (x, C) # G)) pos (length (entry_syms rb x C)) x C = cf' \<and>
    cqf_rep cf' (R1 @ (q, F @ (x, C - 1) # G) # R2) \<and> same_dims cf cf'"
proof -
  let ?ns = "qf_num_slots cf" and ?rs = "R1 @ (q, F @ (x, C - 1) # G) # R2" and ?A = "cells_before rb R1 F" and ?T = "cells_after rb G R2"
    and ?rend = "run_end rb R1 (F @ (x, C) # G)" and ?rstart = "length (all_cells rb R1)"
  define old where "old = length (entry_syms rb x C)"
  define vs where "vs = entry_syms rb x (C - 1)"
  note E = entry_facts [OF rep, folded rb_def, folded pos_def, folded old_def]
  have C31: "C < 2 ^ 31" "valid_counter rb (Suc (C - 1)) x" using E(8) C by (auto simp: run_valid_def valid_counter_def)
  have v: "run_valid rb (F @ (x, C - 1) # G)" "valid_counter rb (C - 1) x" using run_valid_count [OF E(8), of "C - 1"] C C31 by simp_all
  have cells: "all_cells rb ?rs = ?A @ flag_last vs (G = []) @ ?T" by (simp only: split_cells vs_def)
  have nc: "sz_sub C 1 = C - 1" using C C31(1) by (intro sz_sub_small) simp_all
  have le: "length vs \<le> old" using slots_mono [OF C31(2)] C by (simp add: old_def vs_def length_entry_syms)
  have tot: "qf_count cf = Suc (total_count ?rs)" using repD(7) [OF rep] C by simp
  have cnt: "sz_sub (qf_count cf) 1 = total_count ?rs" using tot c64 sz_sub_small [of 1 "qf_count cf"] by simp
  have rv: "runs_valid ?ns rb ?rs" using repD(6) [OF rep] v(1) by (simp add: runs_valid_def rb_def)
  have oc: "qf_oc cf p \<longleftrightarrow> p \<in> fst ` set ?rs" if "p < ?ns" for p using repD(4) [OF rep that] by simp
  show ?thesis
  proof (cases "length vs = old \<and> C > 2")
    case True
    then have "C \<noteq> 3" using enc_symbols(1) [of rb 3 x] C31(2) by (auto simp: vs_def old_def entry_syms_def Let_def split: if_splits)
    then have C4: "3 \<le> C" "3 \<le> C - 1" using conjunct2 [OF True] by linarith+
    define c1 where "c1 = rewrite_counter pos x C (C - 1) cf"
    have t: "turns cf (all_cells rb ?rs) c1"
      unfolding cells pos_def vs_def c1_def using E(1) C4 True v(2)
      by (intro rewrite_turns) (simp_all add: rb_def [symmetric] vs_def old_def length_entry_syms)
    define c2 where "c2 = c1\<lparr>qf_count := sz_sub (qf_count c1) 1\<rparr>"
    have d: "same_dims cf c1" "qf_count c1 = qf_count cf" using turns_dims [OF t] by simp_all
    have drop: "drop_copy cf ?rstart ?rend pos old x C = c2"
      using True unfolding drop_copy_def nc rb_def [symmetric] length_entry_syms [symmetric] vs_def [symmetric] Let_def by (simp add: c1_def c2_def)
    have "sums_cqf c2" unfolding c2_def c1_def by (intro rewrite_sums repD(3) [OF rep])
    then have "cqf_rep c2 ?rs" using t d oc rv cnt by (simp add: cqf_rep_def c2_def turns_def same_dims_def rb_def)
    then show ?thesis using drop d(1) by (simp add: old_def c2_def)
  next
    case False
    have lt: "length vs < old"
    proof (cases "C = 2")
      case True
      then show ?thesis by (simp add: vs_def old_def entry_syms_def)
    qed (use False le C in simp)
    have "0 < length vs" by (simp add: vs_def)
    have tail: "tail_slots ?ns ?rstart ?rend (pos + old) (last_runend cf ?rend) = length ?T"
      unfolding E(6) using E(4,7) by (intro tail_all) simp_all
    define c1 where "c1 = replace_entry ?rend pos old (length vs) (length ?T) (last_runend cf ?rend) ?ns x (C - 1) cf"
    have drop: "drop_copy cf ?rstart ?rend pos old x C = update_offsets (c1\<lparr>qf_count := sz_sub (qf_count c1) 1\<rparr>)"
      using lt tail unfolding drop_copy_def nc rb_def [symmetric] length_entry_syms [symmetric] vs_def [symmetric] Let_def by (simp add: c1_def)
    have "turns cf (?A @ flag_last vs (G = []) @ ?T)
        (replace_entry ?rend (length ?A) (length (flag_last (entry_syms rb x C) (G = []))) (length vs) (length ?T)
          (length ?A + length (flag_last (entry_syms rb x C) (G = [])) + length ?T - 1) ?ns x (C - 1) cf)"
      using lt v(2) run_end_of [of rb R1 F x C G R2] syms_fit [of cf "C - 1" x] \<open>0 < length vs\<close>
      by (intro shrink_entry_turns [OF E(1)]) (simp_all add: old_def vs_def rb_def [symmetric])
    then have t: "turns cf (all_cells rb ?rs) c1" unfolding cells c1_def E(6) by (simp add: pos_def old_def)
    have e: "c1\<lparr>qf_count := sz_sub (qf_count c1) 1\<rparr> = c1\<lparr>qf_count := sz_sub (qf_count c1) 1, qf_distinct_count := qf_distinct_count c1\<rparr>" by simp
    have "sz_sub (qf_count c1) 1 = total_count ?rs" using turns_dims [OF t] cnt by simp
    from rep_run_changed [OF rep t [unfolded rb_def] _ _ this, of "qf_distinct_count c1", folded e] v(1)
    show ?thesis unfolding old_def [symmetric] drop by (simp add: rb_def)
  qed
qed

lemma delete_copy_rep:
  assumes rep: "cqf_rep cf rs" and q: "q = cqf_hash_quotient cf hash" and x: "x = cqf_hash_remainder cf hash"
    and read: "\<And>es. map_of rs q = Some es \<Longrightarrow> readable (qf_remainder_bits cf) es" and C: "2 \<le> copies rs q x" and c64: "qf_count cf < 2 ^ 64"
  shows "\<exists>cf'. cqf_filter_delete cf hash = (CQF_OK, cf') \<and> cqf_rep cf' (drop_run q x rs) \<and> same_dims cf cf'"
proof -
  let ?rb = "qf_remainder_bits cf"
  obtain es where m: "map_of rs q = Some es" "2 \<le> (case map_of es x of None \<Rightarrow> 0 | Some C \<Rightarrow> C)"
    using C by (auto simp: copies_def split: option.splits)
  obtain R1 R2 where r: "rs = R1 @ (q, es) # R2" "keys_below R1 q" "keys_sorted es" using run_of_key [OF rep m(1)] by metis
  obtain F C G where e: "es = F @ (x, C) # G" "keys_below F x" "2 \<le> C"
    using r(3)
  proof (cases rule: split_key [where k = x])
    case (found F C G)
    then show ?thesis using that m(2) map_of_above(2) [OF found(2)] by (simp add: map_add_def)
  next
    case (absent F G)
    then show ?thesis using m(2) map_of_above(1) [OF absent(3)] map_of_above(2) [OF absent(2)] by (simp add: map_add_def)
  qed
  note F = run_facts [OF rep [unfolded r(1)]]
  note E = entry_facts [OF rep [unfolded r(1) e(1)]]
  have b: "drop_run q x rs = R1 @ (q, F @ (x, C - 1) # G) # R2"
    unfolding drop_run_def r(1) e(1) upsert_found [OF r(2)] upsert_found [OF e(2)] by simp
  have "C < 2 ^ 31" using E(8) by (simp add: run_valid_def valid_counter_def)
  then have "sz_sub C 1 = C - 1" using e(3) by (intro sz_sub_small) simp_all
  then have "sz_sub C 1 \<noteq> 0" using e(3) by simp
  then have "cqf_filter_delete cf hash = (CQF_OK, drop_copy cf (length (all_cells ?rb R1)) (run_end ?rb R1 es) (length (cells_before ?rb R1 F))
      (length (entry_syms ?rb x C)) x C)"
    using F(8,10) F(9) [OF read [OF m(1)]] locate_found [OF e(2), of 0 ?rb "length (all_cells ?rb R1)" C G] E(2)
    unfolding cqf_filter_delete_def q [symmetric] x [symmetric] by (simp add: e(1) cells_before_def Let_def)
  with drop_copy_rep [OF rep [unfolded r(1) e(1)] e(3) c64] show ?thesis unfolding b e(1) by simp
qed

lemma copies_drop:
  assumes "keys_sorted rs" "map_of rs q = Some es" "keys_sorted es" "map_of es x = Some C"
  shows "copies (drop_run q x rs) p y = copies rs p y - (if p = q \<and> y = x then 1 else 0)"
  using assms(2-4) by (auto simp: copies_def drop_run_def map_of_upsert [OF assms(1)] map_of_upsert split: option.splits)

section \<open>Counting filters\<close>

text \<open>
  The interface of a filter that counts: as long as the multiset \<open>M\<close> of the items added is one the filter can
  represent unambiguously, an insertion adds the item and the count reported is never too small.
\<close>

locale counting_filter =
  fixes inv :: "'t \<Rightarrow> 'i multiset \<Rightarrow> bool"
    and item :: "'t \<Rightarrow> 'k \<Rightarrow> 'i"
    and clear :: "'i multiset \<Rightarrow> bool"
    and add :: "'t \<Rightarrow> 'k \<Rightarrow> 't option"
    and occurrences :: "'t \<Rightarrow> 'k \<Rightarrow> nat"
  assumes clear_less: "clear (M + N) \<Longrightarrow> clear M"
    and add_counts: "inv t M \<Longrightarrow> clear M \<Longrightarrow> add t k = Some t' \<Longrightarrow> inv t' (add_mset (item t k) M) \<and> item t' = item t"
    and count_bound: "inv t M \<Longrightarrow> clear M \<Longrightarrow> count M (item t k) \<le> occurrences t k"
    and count_exact: "inv t M \<Longrightarrow> clear M \<Longrightarrow> item t k \<in># M \<Longrightarrow> occurrences t k = count M (item t k)"
begin

lemma add_all_counts:
  assumes "inv t M" "clear (M + image_mset (item t) (mset ks))" "add_all add t ks = Some t'"
  shows "inv t' (M + image_mset (item t) (mset ks)) \<and> item t' = item t"
  using assms
proof (induction ks arbitrary: t M)
  case (Cons k ks)
  then obtain u where u: "add t k = Some u" "add_all add u ks = Some t'" by (auto split: bind_splits)
  have "inv u (add_mset (item t k) M) \<and> item u = item t" using add_counts [OF Cons.prems(1) _ u(1)] clear_less [OF Cons.prems(2)] by blast
  then show ?case using Cons.IH [of u "add_mset (item t k) M"] Cons.prems(2) u(2) by simp
qed simp

lemma history_counts:
  assumes "inv t {#}" "clear (image_mset (item t) (mset ks))" "add_all add t ks = Some t'"
  shows "count (image_mset (item t) (mset ks)) (item t k) \<le> occurrences t' k"
    "k \<in> set ks \<Longrightarrow> occurrences t' k = count (image_mset (item t) (mset ks)) (item t k)"
proof -
  have h: "inv t' (image_mset (item t) (mset ks))" "item t' = item t" using add_all_counts [of t "{#}" ks t'] assms by simp_all
  show "count (image_mset (item t) (mset ks)) (item t k) \<le> occurrences t' k"
    using count_bound [OF h(1) assms(2), of k] h(2) by simp
  show "occurrences t' k = count (image_mset (item t) (mset ks)) (item t k)" if "k \<in> set ks"
    using count_exact [OF h(1) assms(2), of k] h(2) that by simp
qed

end

section \<open>The filter as a counting filter\<close>

definition cqf_item :: "cqf_filter \<Rightarrow> u64 \<Rightarrow> nat \<times> u64" where
  "cqf_item cf hash = (cqf_hash_quotient cf hash, cqf_hash_remainder cf hash)"

definition cqf_counts :: "cqf_filter \<Rightarrow> (nat \<times> u64) multiset \<Rightarrow> bool" where
  "cqf_counts cf M \<longleftrightarrow> (\<exists>rs. cqf_rep cf rs \<and> (\<forall>q x. count M (q, x) = copies rs q x))"

text \<open>Fewer than \<open>2 ^ 31 - 1\<close> items, and an item that shares its quotient with another one occurs at most twice.\<close>

definition clear_items :: "(nat \<times> u64) multiset \<Rightarrow> bool" where
  "clear_items M \<longleftrightarrow> size M < 2 ^ 31 - 1 \<and> (\<forall>i \<in># M. \<forall>j \<in># M. fst j = fst i \<and> j \<noteq> i \<longrightarrow> count M i \<le> 2)"

definition cqf_add :: "cqf_filter \<Rightarrow> u64 \<Rightarrow> cqf_filter option" where
  "cqf_add cf hash = (case cqf_filter_insert cf hash of (CQF_OK, cf') \<Rightarrow> Some cf' | _ \<Rightarrow> None)"

lemma readable_single: "readable rb [(x, C)]"
  by simp

lemma syms_twice: "\<forall>(x, C) \<in> set es. C \<le> 2 \<Longrightarrow> set (run_syms rb es) \<subseteq> fst ` set es"
proof (induction es)
  case (Cons e es)
  obtain x C where e: "e = (x, C)" by (cases e)
  have "set (entry_syms rb x C) = {x}" using Cons.prems by (auto simp: e entry_syms_def)
  moreover have "set (run_syms rb es) \<subseteq> fst ` set es" using Cons by simp
  ultimately show ?case by (auto simp: e)
qed simp

lemma readable_twice:
  assumes "keys_sorted es" "\<forall>(x, C) \<in> set es. C \<le> 2"
  shows "readable rb es"
  using assms
proof (induction es)
  case (Cons e es)
  obtain x C where e: "e = (x, C)" by (cases e)
  have "set (run_syms rb es) \<subseteq> fst ` set es" using Cons.prems(2) by (intro syms_twice) simp
  moreover have "x \<notin> fst ` set es" using Cons.prems(1) by (auto simp: e)
  ultimately show ?case using Cons e by auto
qed simp

lemma clear_readable:
  assumes rep: "cqf_rep cf rs" "\<forall>q x. count M (q, x) = copies rs q x" "clear_items M" and m: "map_of rs q = Some es"
  shows "readable (qf_remainder_bits cf) es"
proof -
  obtain R1 R2 where v: "run_valid (qf_remainder_bits cf) es" "keys_sorted es" using run_of_key [OF rep(1) m] by metis
  have c: "count M (q, x) = C" "(q, x) \<in># M" if "(x, C) \<in> set es" for x C
  proof -
    have "map_of es x = Some C" using that v(2) by (simp add: strict_sorted_iff)
    then show "count M (q, x) = C" using rep(2) m by (simp add: copies_def)
    moreover have "1 \<le> C" using that v(1) by (auto simp: run_valid_def)
    ultimately show "(q, x) \<in># M" by (simp flip: count_greater_zero_iff)
  qed
  show ?thesis
  proof (cases "\<exists>x C. es = [(x, C)]")
    case True
    then show ?thesis using readable_single by auto
  next
    case False
    have "C \<le> 2" if x: "(x, C) \<in> set es" for x C
    proof -
      obtain e1 e2 fs where es: "es = e1 # e2 # fs" using False x by (cases es; cases "tl es") auto
      then have "fst e1 \<noteq> fst e2" using v(2) by auto
      then obtain y D where y: "(y, D) \<in> set es" "y \<noteq> x"
        using es that by (cases "fst e1 = x"; cases e1; cases e2) auto
      have "\<forall>i \<in># M. \<forall>j \<in># M. fst j = fst i \<and> j \<noteq> i \<longrightarrow> count M i \<le> 2" using assms(3) by (simp add: clear_items_def)
      from this [rule_format, OF c(2) [OF x] c(2) [OF y(1)]] show ?thesis using c(1) [OF x] y(2) by simp
    qed
    then show ?thesis using v(2) by (intro readable_twice) auto
  qed
qed

lemma item_dims: "same_dims cf cf' \<Longrightarrow> cqf_item cf' = cqf_item cf"
  by (simp add: fun_eq_iff cqf_item_def cqf_hash_quotient_def cqf_hash_remainder_def same_dims_def)

interpretation cqf: counting_filter cqf_counts cqf_item clear_items cqf_add cqf_filter_count_occurrences
proof
  show "clear_items M" if "clear_items (M + N)" for M N
  proof -
    have "count M i \<le> 2" if "i \<in># M" "j \<in># M" "fst j = fst i \<and> j \<noteq> i" for i j
    proof -
      have "count (M + N) i \<le> 2" using \<open>clear_items (M + N)\<close> that unfolding clear_items_def by (metis union_iff)
      then show ?thesis by simp
    qed
    then show ?thesis using that by (simp add: clear_items_def)
  qed
next
  fix t M k t'
  assume h: "cqf_counts t M" "clear_items M" "cqf_add t k = Some t'"
  define q where "q = cqf_hash_quotient t k"
  define x where "x = cqf_hash_remainder t k"
  obtain rs where rs: "cqf_rep t rs" "\<forall>q x. count M (q, x) = copies rs q x" using h(1) by (auto simp: cqf_counts_def)
  have "count M (q, x) \<le> size M" by (rule count_le_size)
  then have C: "Suc (copies rs q x) < 2 ^ 31" using rs(2) h(2) by (simp add: clear_items_def)
  have ok: "cqf_filter_insert t k = (CQF_OK, t')" using h(3) by (auto simp: cqf_add_def split: prod.splits cqf_err.splits)
  have "cqf_rep t' (bump_run q x rs) \<and> same_dims t t'"
    using insert_rep [OF rs(1) q_def x_def clear_readable [OF rs h(2), of q] C] ok by (simp add: becomes_rep_def split: if_splits)
  moreover have "count (add_mset (cqf_item t k) M) (p, y) = copies (bump_run q x rs) p y" for p y
  proof -
    have "keys_sorted es" if "map_of rs q = Some es" for es using run_of_key [OF rs(1) that] by metis
    then show ?thesis using copies_bump [OF repD(5) [OF rs(1)]] rs(2) by (auto simp: cqf_item_def q_def x_def)
  qed
  ultimately show "cqf_counts t' (add_mset (cqf_item t k) M) \<and> cqf_item t' = cqf_item t"
    using item_dims by (auto simp: cqf_counts_def)
next
  fix t M k
  assume h: "cqf_counts t M" "clear_items M"
  obtain rs where rs: "cqf_rep t rs" "\<forall>q x. count M (q, x) = copies rs q x" using h(1) by (auto simp: cqf_counts_def)
  show e: "cqf_filter_count_occurrences t k = count M (cqf_item t k)" if "cqf_item t k \<in># M"
  proof -
    have "count M (cqf_item t k) \<noteq> 0" using that by simp
    then obtain es where "map_of rs (cqf_hash_quotient t k) = Some es" using rs(2) by (auto simp: cqf_item_def copies_def split: option.splits)
    then show ?thesis using queries_rep(1) [OF rs(1) _ clear_readable [OF rs h(2), of "cqf_hash_quotient t k"]] rs(2) by (simp add: cqf_item_def)
  qed
  show "count M (cqf_item t k) \<le> cqf_filter_count_occurrences t k"
    using e by (cases "cqf_item t k \<in># M") (simp_all add: not_in_iff)
qed

end
