(* ===== verification/Cqf_Props.thy ===== *)
theory Cqf_Props
  imports Cqf_Spec
begin

text \<open>
  The properties of the counting quotient filter, and two histories in which it loses an item: a counter that is read
  as part of another one, and a remainder that a deletion leaves behind.
\<close>

unbundle bit_operations_syntax

section \<open>A filter of 64 slots\<close>

definition demo_dims :: "cqf_filter \<Rightarrow> bool" where
  "demo_dims cf \<longleftrightarrow> qf_num_slots cf = 64 \<and> qf_remainder_bits cf = 8 \<and> qf_remainder_mask cf = 255"

lemma slots_loop_64: "slots_loop 64 1 = Some 64"
proof -
  have d: "slots_loop 64 n = slots_loop 64 (2 * n)" if "n < 64" for n
  proof -
    have "sz_mul n 2 = 2 * n" using that by (simp add: sz_mul_def)
    then show ?thesis using that by (subst slots_loop.simps) simp
  qed
  have "slots_loop 64 64 = Some 64" by (subst slots_loop.simps) simp
  then show ?thesis using d [of 1] d [of 2] d [of 4] d [of 8] d [of 16] d [of 32] by simp
qed

lemma demo_create:
  obtains cf where "cqf_filter_create 64 8 True = Some (Some cf)" "cqf_rep cf []" "demo_dims cf"
proof -
  obtain cf where cf: "cqf_filter_create 64 8 True = Some (Some cf)" "cqf_rep cf []" using create_cqf [of 64 8] by auto
  have "log2_loop 64 0 = 6" using log2_loop_pow2 [of 6 0] by simp
  then have "demo_dims cf" using cf(1) by (auto simp: cqf_filter_create_def slots_loop_64 [simplified] demo_dims_def)
  then show ?thesis using that cf by blast
qed

lemma demo_item:
  assumes "demo_dims cf"
  shows "cqf_hash_quotient cf h = unat (drop_bit 8 h AND 63)" "cqf_hash_remainder cf h = h AND 255"
proof -
  have "sz_sub 64 1 = 63" by (simp add: sz_sub_def)
  then show "cqf_hash_quotient cf h = unat (drop_bit 8 h AND 63)" "cqf_hash_remainder cf h = h AND 255"
    using assms by (simp_all add: cqf_hash_quotient_def cqf_hash_remainder_def demo_dims_def)
qed

lemma demo_insert:
  assumes rep: "cqf_rep cf rs" "demo_dims cf" and h: "unat (drop_bit 8 h AND 63) = q" "h AND 255 = x"
    and r: "case map_of rs q of None \<Rightarrow> True | Some es \<Rightarrow> readable 8 es" and c: "copies rs q x < 3" "total_count rs < 1024"
    and l: "length (all_cells 8 (bump_run q x rs)) \<le> 64"
  obtains cf' where "cqf_filter_insert cf h = (CQF_OK, cf')" "cqf_rep cf' (bump_run q x rs)" "demo_dims cf'"
proof -
  have q: "q = cqf_hash_quotient cf h" "x = cqf_hash_remainder cf h" using demo_item [OF rep(2)] h by simp_all
  have "qf_count cf < 16 * qf_num_slots cf" using repD(7) [OF rep(1)] rep(2) c(2) by (simp add: demo_dims_def)
  moreover have "readable (qf_remainder_bits cf) es" if "map_of rs q = Some es" for es using r that rep(2) by (simp add: demo_dims_def)
  ultimately have "becomes_rep cf (bump_run q x rs) (cqf_filter_insert cf h)" using insert_rep [OF rep(1) q] c(1) by simp
  then show ?thesis using that l rep(2) by (auto simp: becomes_rep_def demo_dims_def same_dims_def)
qed

lemma demo_cells: "entry_syms 8 x 1 = [x]" "entry_syms 8 x 2 = [x, x]" "entry_syms 8 5 3 = [5, 1, 5]"
  by (simp_all add: entry_syms_def cqf_encode_def Let_def word_le_nat_alt)

section \<open>Enumeration\<close>

lemma entry_list_pairs: "map (\<lambda>(saved_pos, pos, x, C). (f x, C)) (entry_list rb p es) = map (\<lambda>(x, C). (f x, C)) es"
  by (induction es arbitrary: p) (auto simp: Let_def)

lemma enumerate_rep:
  assumes rep: "cqf_rep cf rs" and read: "\<forall>(q, es) \<in> set rs. readable (qf_remainder_bits cf) es"
  shows "enumerate_pairs cf =
    concat (map (\<lambda>(q, es). map (\<lambda>(x, C). (push_bit (qf_remainder_bits cf) (word_of_nat q) OR x, C)) es) rs)"
proof -
  let ?rb = "qf_remainder_bits cf"
  have ks: "sorted_wrt (<) (map fst rs)" "\<forall>q \<in> set (map fst rs). q < qf_num_slots cf"
    using repD(5,6) [OF rep] by (auto simp: runs_valid_def)
  have oc: "filter (test_bit_at (qf_occupieds cf)) [0..<qf_num_slots cf] = map fst rs"
  proof (rule sorted_distinct_set_unique)
    show "set (filter (test_bit_at (qf_occupieds cf)) [0..<qf_num_slots cf]) = set (map fst rs)"
      using repD(4) [OF rep] ks(2) by auto
    show "sorted (filter (test_bit_at (qf_occupieds cf)) [0..<qf_num_slots cf])" by (rule sorted_wrt_filter) simp
  qed (use ks(1) in \<open>simp_all add: strict_sorted_iff\<close>)
  have run: "(let rk = rank_occ_fast cf q; rend = select_run_fast cf rk; rstart = (if rk > 1 then select_run_fast cf (rk - 1) + 1 else 0)
       in map (\<lambda>(saved_pos, pos, rem, dec_cnt). (push_bit ?rb (word_of_nat q) OR rem, dec_cnt)) (run_scan cf rstart rend rstart False)) =
    map (\<lambda>(x, C). (push_bit ?rb (word_of_nat q) OR x, C)) es" if qe: "(q, es) \<in> set rs" for q es
  proof -
    obtain R1 R2 where r: "rs = R1 @ (q, es) # R2" using split_list [OF qe] by blast
    note F = run_facts [OF rep [unfolded r]]
    have "readable ?rb es" using read qe by auto
    then show ?thesis unfolding Let_def F(3-5) F(9) [OF \<open>readable ?rb es\<close>] by (simp add: entry_list_pairs)
  qed
  show ?thesis unfolding enumerate_pairs_def oc map_map
    by (intro arg_cong [where f = concat] map_cong refl) (use run in \<open>auto simp: split_beta\<close>)
qed

section \<open>Histories\<close>

lemma demo_twice:
  obtains cf c1 c2 where "cqf_filter_create 64 8 True = Some (Some cf)" "cqf_rep cf []" "cqf_filter_insert cf 0x501 = (CQF_OK, c1)"
    "cqf_filter_insert c1 0x501 = (CQF_OK, c2)" "cqf_rep c2 [(5, [(1, 2)])]" "demo_dims cf" "demo_dims c2"
proof -
  obtain cf where cf: "cqf_filter_create 64 8 True = Some (Some cf)" "cqf_rep cf []" "demo_dims cf" by (rule demo_create)
  obtain c1 where c1: "cqf_filter_insert cf 0x501 = (CQF_OK, c1)" "cqf_rep c1 [(5, [(1, 1)])]" "demo_dims c1"
    by (rule demo_insert [OF cf(2,3), of "0x501" 5 1]) (simp_all add: bump_run_def copies_def demo_cells [simplified])
  obtain c2 where c2: "cqf_filter_insert c1 0x501 = (CQF_OK, c2)" "cqf_rep c2 [(5, [(1, 2)])]" "demo_dims c2"
    by (rule demo_insert [OF c1(2,3), of "0x501" 5 1]) (simp_all add: bump_run_def copies_def demo_cells [simplified] numeral_2_eq_2 [symmetric])
  show ?thesis using that cf c1(1) c2 by blast
qed

text \<open>The remainder 1 once and the remainder 5 three times in one run: the slots hold 1, 5, 1, 5.\<close>

lemma demo_ambiguous:
  obtains cf c1 c2 c3 c4 where "cqf_filter_create 64 8 True = Some (Some cf)" "cqf_filter_insert cf 0x501 = (CQF_OK, c1)"
    "cqf_filter_insert c1 0x505 = (CQF_OK, c2)" "cqf_filter_insert c2 0x505 = (CQF_OK, c3)" "cqf_filter_insert c3 0x505 = (CQF_OK, c4)"
    "cqf_rep c4 [(5, [(1, 1), (5, 3)])]" "demo_dims c4"
proof -
  note sy = bump_run_def copies_def demo_cells demo_cells [simplified] numeral_2_eq_2 [symmetric] numeral_3_eq_3 [symmetric]
  obtain cf where cf: "cqf_filter_create 64 8 True = Some (Some cf)" "cqf_rep cf []" "demo_dims cf" by (rule demo_create)
  obtain c1 where c1: "cqf_filter_insert cf 0x501 = (CQF_OK, c1)" "cqf_rep c1 [(5, [(1, 1)])]" "demo_dims c1"
    by (rule demo_insert [OF cf(2,3), of "0x501" 5 1]) (simp_all add: sy)
  obtain c2 where c2: "cqf_filter_insert c1 0x505 = (CQF_OK, c2)" "cqf_rep c2 [(5, [(1, 1), (5, 1)])]" "demo_dims c2"
    by (rule demo_insert [OF c1(2,3), of "0x505" 5 5]) (simp_all add: sy word_less_nat_alt)
  obtain c3 where c3: "cqf_filter_insert c2 0x505 = (CQF_OK, c3)" "cqf_rep c3 [(5, [(1, 1), (5, 2)])]" "demo_dims c3"
    by (rule demo_insert [OF c2(2,3), of "0x505" 5 5]) (simp_all add: sy word_less_nat_alt)
  obtain c4 where c4: "cqf_filter_insert c3 0x505 = (CQF_OK, c4)" "cqf_rep c4 [(5, [(1, 1), (5, 3)])]" "demo_dims c4"
    by (rule demo_insert [OF c3(2,3), of "0x505" 5 5]) (simp_all add: sy word_less_nat_alt)
  show ?thesis using that cf(1) c1(1) c2(1) c3(1) c4 by blast
qed

lemma ambiguous_scan:
  assumes rep: "cqf_rep cf [(5, [(1, 1), (5, 3)])]" and d: "demo_dims cf"
  shows "run_scan cf 0 3 0 False = []"
proof -
  have rb: "qf_remainder_bits cf = 8" using d by (simp add: demo_dims_def)
  have "holds cf ([] @ flag_last [1, 5, 1, 5] True @ [])" using repD(1) [OF rep] unfolding rb by (simp add: demo_cells demo_cells [simplified])
  from reads_holds [OF this] have r: "slot_get cf 0 = 1" "slot_get cf 1 = 5" "slot_get cf 2 = 1" "slot_get cf 3 = 5" "\<not> slot_is_free_cqf cf 0"
    by (simp_all add: slot_is_free_cqf_def numeral_eq_Suc)
  have free: "scan_up (slot_is_free_cqf cf) (3 + 1) 0 = 0" using r(5) by (intro scan_up_eq) simp_all
  have j: "scan_up (\<lambda>j. slot_get cf j \<noteq> 1) (3 + 1) (0 + 1) = 2"
  proof (rule scan_up_eq)
    show "slot_get cf k \<noteq> 1" if "0 + 1 \<le> k" "k < 2" for k using r(2) that by (cases "k = 1") auto
  qed (use r in simp_all)
  have dec: "decode_count [5] 1 8 = 6" by (simp add: decode_count_def sz_add_def sz_mul_def word_less_nat_alt)
  have enc: "cqf_enc_slots 6 1 8 = 4"
  proof -
    have "int_digit 3 = 3" by (simp add: int_digit_small)
    then have "nonzero_symbol 1 3 = 5" by (simp add: nonzero_symbol_def)
    moreover have "enc_loop f 254 (Suc (Suc n)) 3 = [f 3]" for f n by simp
    from this [of "nonzero_symbol 1" 126] have "enc_loop (nonzero_symbol 1) 254 CQF_ENC_BUF 3 = [nonzero_symbol 1 3]" by (simp add: CQF_ENC_BUF_def)
    ultimately have "cqf_encode 6 1 8 CQF_ENC_BUF = [0, 5]" by (simp add: cqf_encode_def Let_def word_le_nat_alt CQF_ENC_BUF_def)
    then show ?thesis by (simp add: cqf_enc_slots_def)
  qed
  have "decode_nonzero cf 3 0 1 = (6, 3)" unfolding decode_nonzero_def j Let_def rb using r(2) dec by (simp add: CQF_ENC_BUF_def upt_rec)
  then have "cqf_decode_entry cf 3 0 = None" unfolding cqf_decode_entry_def Let_def free rb using r(1) enc by simp
  then show ?thesis by (subst run_scan.simps) simp
qed

text \<open>The remainder 9 in run 5 and the remainder 4 in run 6; then the first is deleted.\<close>

lemma demo_ghost:
  obtains cf c1 c2 where "cqf_filter_create 64 8 True = Some (Some cf)" "cqf_filter_insert cf 0x509 = (CQF_OK, c1)"
    "cqf_filter_insert c1 0x604 = (CQF_OK, c2)" "cqf_rep c2 [(5, [(9, 1)]), (6, [(4, 1)])]" "demo_dims c2"
proof -
  note sy = bump_run_def copies_def demo_cells [simplified]
  obtain cf where cf: "cqf_filter_create 64 8 True = Some (Some cf)" "cqf_rep cf []" "demo_dims cf" by (rule demo_create)
  obtain c1 where c1: "cqf_filter_insert cf 0x509 = (CQF_OK, c1)" "cqf_rep c1 [(5, [(9, 1)])]" "demo_dims c1"
    by (rule demo_insert [OF cf(2,3), of "0x509" 5 9]) (simp_all add: sy)
  obtain c2 where c2: "cqf_filter_insert c1 0x604 = (CQF_OK, c2)" "cqf_rep c2 [(5, [(9, 1)]), (6, [(4, 1)])]" "demo_dims c2"
    by (rule demo_insert [OF c1(2,3), of "0x604" 6 4]) (simp_all add: sy)
  show ?thesis using that cf(1) c1(1) c2 by blast
qed

lemma ghost_delete:
  assumes rep: "cqf_rep cf [(5, [(9, 1)]), (6, [(4, 1)])]" and d: "demo_dims cf"
  obtains cf' where "cqf_filter_delete cf 0x509 = (CQF_OK, cf')" "holds cf' [(9, False), (4, True)]" "sums_cqf cf'" "demo_dims cf'"
    "\<forall>q < 64. qf_oc cf' q \<longleftrightarrow> q = 6" "qf_count cf' = 1"
proof -
  have rb: "qf_remainder_bits cf = 8" "qf_num_slots cf = 64" using d by (simp_all add: demo_dims_def)
  have "cqf_rep cf ([] @ (5, [(9, 1)]) # [(6, [(4, 1)])])" using rep by simp
  note R = run_facts [OF this, unfolded rb]
  have "readable 8 [(9, 1)]" "run_end 8 [] [(9, 1)] = 0" by (simp_all add: run_end_def demo_cells [simplified])
  then have F: "find_run_cqf cf 5 = Some (0, 0)" "run_scan cf 0 0 0 False = [(0, 1, 9, 1)]" using R(8,9) by (simp_all add: demo_cells [simplified])
  define c1 where "c1 = run_clear 0 (occ_clear 5 cf)"
  define c2 where "c2 = c1\<lparr>qf_count := 1, qf_distinct_count := sz_sub (qf_distinct_count cf) 1\<rparr>"
  have shape: "cqf_shape cf" using rep by (rule repD)
  have h: "holds cf [(9, True), (4, True)]" using repD(1) [OF rep] by (simp add: rb demo_cells [simplified] flag_last_Cons)
  then have "holds (occ_clear 5 cf) [(9, True), (4, True)]" by (simp add: holds_def qf_view)
  from run_clear_turns [OF turns_refl [OF this], of 0] have t: "turns (occ_clear 5 cf) [(9, False), (4, True)] c1" by (simp add: c1_def)
  have d1: "qf_distinct_count c1 = qf_distinct_count cf" "qf_count c1 = qf_count cf" by (simp_all add: c1_def run_clear_def occ_clear_def)
  have two: "qf_count cf = 2" using repD(7) [OF rep] by simp
  have s: "sz_sub 1 1 = 0" "sz_sub 1 0 = 1" "sz_sub 2 1 = 1" by (simp_all add: sz_sub_def)
  have "remove_entry cf 5 0 0 0 1 = update_offsets c2"
    by (simp add: remove_entry_def tail_slots_def run_slots_def c2_def c1_def [symmetric] d1 two s [simplified] Let_def)
  moreover have "cqf_filter_delete cf 0x509 = (CQF_OK, remove_entry cf 5 0 0 0 1)"
    using F two demo_item [OF d, of "0x509"] s by (simp add: cqf_filter_delete_def run_end_def demo_cells [simplified] Let_def)
  ultimately have del: "cqf_filter_delete cf 0x509 = (CQF_OK, update_offsets c2)" by simp
  have h2: "holds c2 [(9, False), (4, True)]" using t by (simp add: turns_def c2_def)
  have oc: "qf_oc c2 q \<longleftrightarrow> q = 6" if "q < 64" for q
    using repD(4) [OF rep, of q] that bit_view(4) [OF shape, of 5] t rb by (auto simp: turns_def c2_def)
  have "same_dims cf c2" using turns_dims [OF t] by (simp add: c2_def same_dims_def occ_clear_def)
  then have "demo_dims c2" using d by (simp add: demo_dims_def same_dims_def)
  then have d2: "demo_dims (update_offsets c2)" "qf_count (update_offsets c2) = 1"
    using offsets_cqf_frame(7) [of c2] by (simp_all add: demo_dims_def same_qf_def c2_def)
  show ?thesis
  proof (rule that [OF del _ _ d2(1) _ d2(2)])
    show "holds (update_offsets c2) [(9, False), (4, True)]" using offsets_cqf_turns [OF h2] by (simp add: turns_def)
    show "sums_cqf (update_offsets c2)" using offsets_cqf_ok(2) holdsD(1) [OF h2] by blast
    show "\<forall>q < 64. qf_oc (update_offsets c2) q \<longleftrightarrow> q = 6" using oc by (simp add: offsets_cqf_frame)
  qed
qed

lemma ghost_run:
  assumes h: "holds cf [(9, False), (4, True)]" and s: "sums_cqf cf" and d: "demo_dims cf" and oc: "\<forall>q < 64. qf_oc cf q \<longleftrightarrow> q = 6"
  shows "find_run_cqf cf 6 = Some (0, 1)" "\<exists>es. run_scan cf 0 1 0 False = (0, 1, 9, 1) # es"
proof -
  have sh: "cqf_shape cf" and n: "qf_num_slots cf = 64" "qf_remainder_bits cf = 8" using holdsD(1) [OF h] d by (simp_all add: demo_dims_def)
  have "cnt (qf_oc cf) (Suc 6) = cnt (\<lambda>p. p \<in> set [6]) (Suc 6)" using oc by (intro cnt_cong) simp
  then have rank: "rank_occ_fast cf 6 = 1" using rank_cqf [OF sh s, of 6] n cnt_keys [of "[6]" "Suc 6"] by simp
  have "qf_rn cf 1" "\<not> qf_rn cf 0" using holdsD(4) [OF h, of 0] holdsD(4) [OF h, of 1] n by simp_all
  then have "select_run_fast cf (Suc 0) = 1" using n by (intro select_cqf [OF sh s]) simp_all
  then show "find_run_cqf cf 6 = Some (0, 1)" using rank oc by (simp add: find_run_cqf_def run_start_cqf_def)
  have "holds cf ([] @ flag_last [9, 4] True @ [])" using h by (simp add: flag_last_Cons)
  from reads_holds [OF this] have r: "reads cf 0 (entry_syms 8 9 1 @ [4])" by (simp add: demo_cells [simplified])
  have "cqf_decode_entry cf 1 0 = Some (0 + length (entry_syms 8 9 1), 9, 1)"
    by (rule decode_entry_ok [OF r]) (simp_all add: n demo_cells [simplified] valid_counter_def)
  then have "cqf_decode_entry cf 1 0 = Some (1, 9, 1)" by (simp add: demo_cells [simplified])
  then show "\<exists>es. run_scan cf 0 1 0 False = (0, 1, 9, 1) # es" by (subst run_scan.simps) simp
qed

section \<open>Properties\<close>

text \<open>
  C34. Insertion. In a packed filter whose run for the quotient of the hash can be read back, an insertion succeeds
  exactly when the count is below 16 copies per slot and the cells of the filter with one more copy fit its slots.
  It then adds exactly one copy of the remainder to the run of the quotient, through a new run, a new entry, a counter
  rewritten in place or a counter that grows and shifts all that lies behind it; otherwise it reports FULL and
  changes nothing.
\<close>

theorem cqf_insert_correct:
  assumes "cqf_rep cf rs" "q = cqf_hash_quotient cf hash" "x = cqf_hash_remainder cf hash"
    "case map_of rs q of None \<Rightarrow> True | Some es \<Rightarrow> readable (qf_remainder_bits cf) es" "Suc (copies rs q x) < 2 ^ 31"
  shows "if qf_count cf < 16 * qf_num_slots cf \<and> length (all_cells (qf_remainder_bits cf) (bump_run q x rs)) \<le> qf_num_slots cf
    then \<exists>cf'. cqf_filter_insert cf hash = (CQF_OK, cf') \<and> cqf_rep cf' (bump_run q x rs) \<and>
      (\<forall>p y. copies (bump_run q x rs) p y = copies rs p y + (if p = q \<and> y = x then 1 else 0))
    else cqf_filter_insert cf hash = (CQF_ERR_FULL, cf)"
proof -
  have "keys_sorted es" if "map_of rs q = Some es" for es using run_of_key [OF assms(1) that] by metis
  then have "copies (bump_run q x rs) p y = copies rs p y + (if p = q \<and> y = x then 1 else 0)" for p y
    by (intro copies_bump repD(5) [OF assms(1)])
  moreover have "readable (qf_remainder_bits cf) es" if "map_of rs q = Some es" for es using assms(4) that by simp
  note insert_rep [OF assms(1-3) this assms(5)]
  ultimately show ?thesis by (auto simp: becomes_rep_def split: if_splits)
qed

theorem cqf_insert_correct_witness:
  "\<exists>cf cf'. cqf_filter_create 64 8 True = Some (Some cf) \<and> cqf_filter_insert cf 0x501 = (CQF_OK, cf') \<and> cqf_rep cf' [(5, [(1, 1)])]"
proof -
  obtain cf where cf: "cqf_filter_create 64 8 True = Some (Some cf)" "cqf_rep cf []" "demo_dims cf" by (rule demo_create)
  have q: "5 = cqf_hash_quotient cf 0x501" "1 = cqf_hash_remainder cf 0x501" using demo_item [OF cf(3), of "0x501"] by simp_all
  have "bump_run 5 1 [] = [(5, [(1, 1)])]" by (simp add: bump_run_def)
  moreover have "qf_count cf = 0" "qf_num_slots cf = 64" "qf_remainder_bits cf = 8" using repD(7) [OF cf(2)] cf(3) by (simp_all add: demo_dims_def)
  ultimately show ?thesis using cqf_insert_correct [OF cf(2) q] cf(1) by (auto simp: copies_def demo_cells [simplified])
qed

text \<open>
  C37. Queries. For a hash whose quotient has a readable run, \<open>cqf_filter_count_occurrences\<close> is the exact number of copies
  and \<open>cqf_filter_lookup\<close> says whether there is one.
\<close>

theorem cqf_queries_exact:
  assumes "cqf_rep cf rs" "map_of rs (cqf_hash_quotient cf hash) = Some es" "readable (qf_remainder_bits cf) es"
  shows "cqf_filter_count_occurrences cf hash = copies rs (cqf_hash_quotient cf hash) (cqf_hash_remainder cf hash) \<and>
    (cqf_filter_lookup cf hash \<longleftrightarrow> 0 < copies rs (cqf_hash_quotient cf hash) (cqf_hash_remainder cf hash))"
  using queries_rep [OF assms] by blast

theorem cqf_queries_exact_witness:
  "\<exists>cf. cqf_rep cf [(5, [(1, 2)])] \<and> cqf_filter_count_occurrences cf 0x501 = 2 \<and> cqf_filter_lookup cf 0x501 \<and>
    cqf_filter_count_occurrences cf 0x507 = 0 \<and> \<not> cqf_filter_lookup cf 0x507"
proof -
  obtain cf where cf: "cqf_rep cf [(5, [(1, 2)])]" "demo_dims cf" by (rule demo_twice)
  have q: "cqf_hash_quotient cf 0x501 = 5" "cqf_hash_remainder cf 0x501 = 1" "cqf_hash_quotient cf 0x507 = 5" "cqf_hash_remainder cf 0x507 = 7"
    using demo_item [OF cf(2), of "0x501"] demo_item [OF cf(2), of "0x507"] by simp_all
  show ?thesis
    using cqf_queries_exact [OF cf(1), of "0x501" "[(1, 2)]"] cqf_queries_exact [OF cf(1), of "0x507" "[(1, 2)]"] q cf(1)
    by (auto simp: copies_def)
qed

text \<open>
  C36. Deletion of one of several copies. When a readable run holds at least two copies of the item,
  \<open>cqf_filter_delete\<close> succeeds, takes away exactly one copy, shortens the counter, moves everything behind it to the left
  and leaves a packed filter.
\<close>

theorem cqf_delete_copy_correct:
  assumes "cqf_rep cf rs" "q = cqf_hash_quotient cf hash" "x = cqf_hash_remainder cf hash"
    "case map_of rs q of None \<Rightarrow> True | Some es \<Rightarrow> readable (qf_remainder_bits cf) es" "2 \<le> copies rs q x" "qf_count cf < 2 ^ 64"
  shows "\<exists>cf'. cqf_filter_delete cf hash = (CQF_OK, cf') \<and> cqf_rep cf' (drop_run q x rs) \<and>
    (\<forall>p y. copies (drop_run q x rs) p y = copies rs p y - (if p = q \<and> y = x then 1 else 0))"
proof -
  obtain es C where es: "map_of rs q = Some es" "map_of es x = Some C" using assms(5) by (auto simp: copies_def split: option.splits)
  have "keys_sorted es" using run_of_key [OF assms(1) es(1)] by metis
  then have "copies (drop_run q x rs) p y = copies rs p y - (if p = q \<and> y = x then 1 else 0)" for p y
    using es by (intro copies_drop repD(5) [OF assms(1)])
  moreover have "readable (qf_remainder_bits cf) es" if "map_of rs q = Some es" for es using assms(4) that by simp
  note delete_copy_rep [OF assms(1-3) this assms(5,6)]
  ultimately show ?thesis by auto
qed

theorem cqf_delete_copy_correct_witness:
  "\<exists>cf cf'. cqf_rep cf [(5, [(1, 2)])] \<and> cqf_filter_delete cf 0x501 = (CQF_OK, cf') \<and> cqf_rep cf' [(5, [(1, 1)])]"
proof -
  obtain cf where cf: "cqf_rep cf [(5, [(1, 2)])]" "demo_dims cf" by (rule demo_twice)
  have q: "5 = cqf_hash_quotient cf 0x501" "1 = cqf_hash_remainder cf 0x501" using demo_item [OF cf(2), of "0x501"] by simp_all
  have "drop_run 5 1 [(5, [(1, 2)])] = [(5, [(1, 1)])]" by (simp add: drop_run_def)
  then show ?thesis using cqf_delete_copy_correct [OF cf(1) q] cf(1) repD(7) [OF cf(1)] by (auto simp: copies_def)
qed

text \<open>
  C38. Enumeration. In a packed filter with readable runs \<open>cqf_filter_enumerate\<close> lists every fingerprint exactly once
  with its exact count, in the order of quotient and remainder.
\<close>

theorem cqf_enumerate_exact:
  assumes "cqf_rep cf rs" "\<forall>(q, es) \<in> set rs. readable (qf_remainder_bits cf) es"
  shows "enumerate_pairs cf =
    concat (map (\<lambda>(q, es). map (\<lambda>(x, C). (push_bit (qf_remainder_bits cf) (word_of_nat q) OR x, C)) es) rs)"
  by (rule enumerate_rep [OF assms])

theorem cqf_enumerate_exact_witness:
  "\<exists>cf. cqf_rep cf [(5, [(1, 2)])] \<and> enumerate_pairs cf = [(0x501, 2)]"
proof -
  obtain cf where cf: "cqf_rep cf [(5, [(1, 2)])]" "demo_dims cf" by (rule demo_twice)
  have "qf_remainder_bits cf = 8" using cf(2) by (simp add: demo_dims_def)
  moreover have "push_bit 8 5 OR 1 = (0x501 :: u64)" by simp
  ultimately show ?thesis using cqf_enumerate_exact [OF cf(1)] cf(1) by auto
qed

text \<open>
  C35. Histories of insertions. A filter of up to \<open>2 ^ 32\<close> slots is created; then a sequence of insertions is accepted in
  which every item that shares its quotient with another item occurs at most twice. The count reported for a hash is
  never below the number of its insertions and, for a hash that was inserted, it is exact up to equal fingerprints.
\<close>

theorem cqf_history_counts:
  assumes "0 < cap" "cap \<le> 2 ^ 32" "cqf_filter_create cap fp True = Some (Some cf)"
    "clear_items (image_mset (cqf_item cf) (mset hs))" "add_all cqf_add cf hs = Some cf'"
  shows "count (image_mset (cqf_item cf) (mset hs)) (cqf_item cf h) \<le> cqf_filter_count_occurrences cf' h \<and>
    (h \<in> set hs \<longrightarrow> cqf_filter_count_occurrences cf' h = count (image_mset (cqf_item cf) (mset hs)) (cqf_item cf h))"
proof -
  have "cqf_rep cf []" using create_cqf [OF assms(1,2), of fp] assms(3) by (metis option.inject)
  then have "cqf_counts cf {#}" by (auto simp: cqf_counts_def copies_def)
  then show ?thesis using cqf.history_counts [OF _ assms(4,5)] by blast
qed

theorem cqf_history_counts_witness:
  "\<exists>cf cf'. cqf_filter_create 64 8 True = Some (Some cf) \<and> add_all cqf_add cf [0x501, 0x501] = Some cf' \<and>
    cqf_filter_count_occurrences cf' 0x501 = 2"
proof -
  obtain cf c1 c2 where c: "cqf_filter_create 64 8 True = Some (Some cf)" "cqf_filter_insert cf 0x501 = (CQF_OK, c1)"
    "cqf_filter_insert c1 0x501 = (CQF_OK, c2)" by (rule demo_twice)
  have a: "add_all cqf_add cf [0x501, 0x501] = Some c2" using c by (simp add: cqf_add_def)
  have "clear_items (image_mset (cqf_item cf) (mset [0x501, 0x501]))" by (simp add: clear_items_def)
  from cqf_history_counts [OF _ _ c(1) this a, of "0x501"] show ?thesis using c(1) a by auto
qed

text \<open>
  C39. A misread counter. Four accepted insertions into a new filter, of one fingerprint once and of another one with the
  same quotient three times, after which the filter counts four items and finds none of them: the counter of the
  second fingerprint contains the remainder of the first, which is taken for the end of the first entry.
\<close>

theorem cqf_misread_counter_loses_items:
  "\<exists>cf c1 c2 c3 c4. cqf_filter_create 64 8 True = Some (Some cf) \<and> cqf_filter_insert cf 0x501 = (CQF_OK, c1) \<and>
    cqf_filter_insert c1 0x505 = (CQF_OK, c2) \<and> cqf_filter_insert c2 0x505 = (CQF_OK, c3) \<and> cqf_filter_insert c3 0x505 = (CQF_OK, c4) \<and>
    cqf_filter_count c4 = 4 \<and> \<not> cqf_filter_lookup c4 0x501 \<and> \<not> cqf_filter_lookup c4 0x505 \<and>
    cqf_filter_count_occurrences c4 0x501 = 0 \<and> cqf_filter_count_occurrences c4 0x505 = 0"
proof -
  obtain cf c1 c2 c3 c4 where c: "cqf_filter_create 64 8 True = Some (Some cf)" "cqf_filter_insert cf 0x501 = (CQF_OK, c1)"
    "cqf_filter_insert c1 0x505 = (CQF_OK, c2)" "cqf_filter_insert c2 0x505 = (CQF_OK, c3)" "cqf_filter_insert c3 0x505 = (CQF_OK, c4)"
    and rep: "cqf_rep c4 [(5, [(1, 1), (5, 3)])]" and d: "demo_dims c4" by (rule demo_ambiguous)
  have "cqf_rep c4 ([] @ (5, [(1, 1), (5, 3)]) # [])" using rep by simp
  note R = run_facts [OF this]
  have rb: "qf_remainder_bits c4 = 8" using d by (simp add: demo_dims_def)
  have "find_run_cqf c4 5 = Some (0, 3)" using R(8) by (simp add: rb run_end_def demo_cells demo_cells [simplified])
  moreover have "cqf_hash_quotient c4 0x501 = 5" "cqf_hash_quotient c4 0x505 = 5" using demo_item [OF d, of "0x501"] demo_item [OF d, of "0x505"] by simp_all
  moreover have "qf_count c4 = 4" using repD(7) [OF rep] by simp
  ultimately have "cqf_filter_count c4 = 4 \<and> \<not> cqf_filter_lookup c4 0x501 \<and> \<not> cqf_filter_lookup c4 0x505 \<and>
    cqf_filter_count_occurrences c4 0x501 = 0 \<and> cqf_filter_count_occurrences c4 0x505 = 0"
    using ambiguous_scan [OF rep d] by (simp add: cqf_filter_lookup_def cqf_filter_count_occurrences_def cqf_filter_count_def)
  then show ?thesis using c by blast
qed

text \<open>
  C40. A remainder left behind. Two accepted insertions and the deletion of the first item: the second one, which was not
  deleted, is no longer found, and an item that was never inserted is, because the slot of the deleted remainder has
  become a part of the next run.
\<close>

theorem cqf_delete_loses_next_run:
  "\<exists>cf c1 c2 c3. cqf_filter_create 64 8 True = Some (Some cf) \<and> cqf_filter_insert cf 0x509 = (CQF_OK, c1) \<and>
    cqf_filter_insert c1 0x604 = (CQF_OK, c2) \<and> cqf_filter_lookup c2 0x604 \<and> cqf_filter_delete c2 0x509 = (CQF_OK, c3) \<and>
    \<not> cqf_filter_lookup c3 0x604 \<and> cqf_filter_lookup c3 0x609"
proof -
  obtain cf c1 c2 where c: "cqf_filter_create 64 8 True = Some (Some cf)" "cqf_filter_insert cf 0x509 = (CQF_OK, c1)"
    "cqf_filter_insert c1 0x604 = (CQF_OK, c2)" and rep: "cqf_rep c2 [(5, [(9, 1)]), (6, [(4, 1)])]" and d: "demo_dims c2" by (rule demo_ghost)
  obtain c3 where c3: "cqf_filter_delete c2 0x509 = (CQF_OK, c3)" "holds c3 [(9, False), (4, True)]" "sums_cqf c3" "demo_dims c3"
    "\<forall>q < 64. qf_oc c3 q \<longleftrightarrow> q = 6" "qf_count c3 = 1" by (rule ghost_delete [OF rep d])
  obtain es where r: "find_run_cqf c3 6 = Some (0, 1)" "run_scan c3 0 1 0 False = (0, 1, 9, 1) # es" using ghost_run [OF c3(2-5)] by blast
  have q: "cqf_hash_quotient c 0x604 = 6" "cqf_hash_remainder c 0x604 = 4" "cqf_hash_quotient c 0x609 = 6" "cqf_hash_remainder c 0x609 = 9"
    if "demo_dims c" for c using demo_item [OF that, of "0x604"] demo_item [OF that, of "0x609"] by simp_all
  have "cqf_filter_lookup c2 0x604" using queries_rep(2) [OF rep, of "0x604" "[(4, 1)]"] q [OF d] by (simp add: copies_def)
  moreover have "\<not> cqf_filter_lookup c3 0x604 \<and> cqf_filter_lookup c3 0x609"
    using r c3(6) q [OF c3(4)] by (simp add: cqf_filter_lookup_def word_less_nat_alt)
  ultimately show ?thesis using c c3(1) by blast
qed

end
