(* ===== verification/Arena.thy ===== *)
theory Arena
  imports Rank_Select
begin

text \<open>
  The arena allocator (\<^verbatim>\<open>src/arena.c\<close>), as one thread runs it: an atomic operation is the operation, a compare-exchange
  succeeds, a lock is free. An address is a natural number and 0 is \<open>NULL\<close>. The kernel is a parameter: \<open>mm huge regions len\<close>
  is the result of \<open>mmap\<close> when the mapped regions are \<open>regions\<close>; \<open>take_alloc\<close> says whether a call of \<open>calloc\<close> or
  \<open>realloc\<close> succeeds. Prefetching has no effect and is left out. \<open>en_mem\<close> holds the bytes the program stores, apart from the
  headers of slabs and segments, which are records; what a new mapping holds at first is not part of the model, and a mapping with
  huge pages counts with the ordinary pages of its length.
\<close>

unbundle bit_operations_syntax

section \<open>State\<close>

definition ARENA_SLAB_SIZES :: nat where "ARENA_SLAB_SIZES = 8"
definition ARENA_SLAB_SLOTS :: nat where "ARENA_SLAB_SLOTS = 256"
definition ARENA_TCACHE_DEPTH :: nat where "ARENA_TCACHE_DEPTH = 32"
definition ARENA_SEG_SIZE :: nat where "ARENA_SEG_SIZE = 65536"
definition ARENA_COLD_SEGS_PER_CLASS :: nat where "ARENA_COLD_SEGS_PER_CLASS = 4"
definition ARENA_SEG_GRANULARITY :: nat where "ARENA_SEG_GRANULARITY = 64"
definition ARENA_SEG_HDR_SIZE :: nat where "ARENA_SEG_HDR_SIZE = 152"
definition ARENA_SEG_DATA_SIZE :: nat where "ARENA_SEG_DATA_SIZE = ARENA_SEG_SIZE - ARENA_SEG_HDR_SIZE"
definition ARENA_SEG_SLOTS :: nat where "ARENA_SEG_SLOTS = ARENA_SEG_DATA_SIZE div ARENA_SEG_GRANULARITY"
definition ARENA_SEG_BITMAP_WORDS :: nat where "ARENA_SEG_BITMAP_WORDS = (ARENA_SEG_SLOTS + 63) div 64"
definition ARENA_DEFERRED_BATCH :: nat where "ARENA_DEFERRED_BATCH = 64"

text \<open>\<open>sizeof(struct arena_slab)\<close>.\<close>

definition SLAB_HDR :: nat where "SLAB_HDR = 1080"

datatype arena_freq = ARENA_FREQ_WARM | ARENA_FREQ_COLD

record arena_slab =
  sl_base :: nat
  sl_bitmap :: "u64 list"
  sl_used_count :: u32
  sl_free_top :: u32
  sl_free_stack :: "u32 list"
  sl_size_class :: nat
  sl_freq :: arena_freq
  sl_mmap_size :: nat

record arena_slab_set =
  ss_slabs :: "arena_slab option list"
  ss_slab_count :: nat
  ss_total_slots :: u32
  ss_free_slots :: u32

record arena_segment =
  sg_base :: nat
  sg_control :: u64
  sg_epoch :: u32
  sg_freq :: arena_freq
  sg_size_class :: nat
  sg_flags :: u8
  sg_free_bitmap :: "u64 list"

record arena_tuner =
  tn_freq_thresholds :: "u8 list"
  tn_last_tune_epoch :: u8
  tn_hist :: "u32 list"
  tn_sample_count :: u32

text \<open>The parts of an arena that are still \<open>NULL\<close> while it is built are absent from the lists.\<close>

record arena =
  ar_warm :: "arena_slab_set list"
  ar_cold :: "arena_segment option list list"
  ar_deferred :: "(nat \<times> nat) list option"
  ar_global_epoch :: u32
  ar_evacuating :: u32
  ar_compact_trigger :: u32
  ar_tuner :: arena_tuner
  ar_warm_threshold :: u8
  ar_enable_prefetch :: bool
  ar_enable_thread_cache :: bool
  ar_enable_adaptive_tuning :: bool
  ar_write_amplification :: nat
  ar_compactions :: nat
  ar_alloc_count :: nat
  ar_alloc_bytes :: nat

text \<open>
  What the arenas of a process share: the cache of the thread (the top of a bin first), the records of large blocks,
  the colour of the next slab, the memory, the regions the kernel has mapped, and the outcomes of the calls of the C
  library to come.
\<close>

record arena_env =
  en_tcache :: "nat list list option"
  en_sys :: "(nat \<times> nat) list"
  en_sys_cap :: nat
  en_slab_color :: u32
  en_mem :: "nat \<Rightarrow> u8"
  en_regions :: "(nat \<times> nat) list"
  en_allocs :: "bool list"

type_synonym mmap_fn = "bool \<Rightarrow> (nat \<times> nat) list \<Rightarrow> nat \<Rightarrow> nat option"

section \<open>The kernel and the C library\<close>

text \<open>The kernel maps and unmaps whole pages.\<close>

definition page_round :: "nat \<Rightarrow> nat" where
  "page_round len = (len + 4095) div 4096 * 4096"

definition do_mmap :: "mmap_fn \<Rightarrow> bool \<Rightarrow> nat \<Rightarrow> arena_env \<Rightarrow> nat option \<times> arena_env" where
  "do_mmap mm huge len e =
     (case mm huge (en_regions e) len of
        None \<Rightarrow> (None, e)
      | Some base \<Rightarrow> (Some base, e\<lparr>en_regions := (base, page_round len) # en_regions e\<rparr>))"

definition do_munmap :: "nat \<Rightarrow> nat \<Rightarrow> arena_env \<Rightarrow> arena_env" where
  "do_munmap base len e = e\<lparr>en_regions := filter (\<lambda>r. r \<noteq> (base, page_round len)) (en_regions e)\<rparr>"

definition do_alloc :: "arena_env \<Rightarrow> bool \<times> arena_env" where
  "do_alloc e = (let (ok, as) = take_alloc (en_allocs e) in (ok, e\<lparr>en_allocs := as\<rparr>))"

text \<open>A region with huge pages if there is one, else an ordinary one.\<close>

definition map_region :: "mmap_fn \<Rightarrow> nat \<Rightarrow> arena_env \<Rightarrow> nat option \<times> arena_env" where
  "map_region mm len e =
     (case do_mmap mm True len e of (Some base, e) \<Rightarrow> (Some base, e) | (None, e) \<Rightarrow> do_mmap mm False len e)"

section \<open>Size classes\<close>

definition g_slab_sizes :: "nat list" where
  "g_slab_sizes = [8, 16, 24, 32, 48, 64, 96, 128]"

definition size_to_slab_class :: "nat \<Rightarrow> nat" where
  "size_to_slab_class bytes =
     (let i = length (takeWhile (\<lambda>s. \<not> bytes \<le> s) g_slab_sizes) in if i < ARENA_SLAB_SIZES then i else ARENA_SLAB_SIZES - 1)"

definition slab_total_size :: "nat \<Rightarrow> nat" where
  "slab_total_size sc =
     (let slot_size = g_slab_sizes ! sc; data_sz = slot_size * ARENA_SLAB_SLOTS; total = SLAB_HDR + data_sz
      in (total + 4095) div 4096 * 4096)"

definition slab_data_offset :: nat where
  "slab_data_offset = SLAB_HDR"

text \<open>The portable build and the build with 256-bit vectors, which compares the four words at once.\<close>

definition bitmap_find_nonfull_word :: "u64 list \<Rightarrow> nat option" where
  "bitmap_find_nonfull_word bitmap = find (\<lambda>i. bitmap ! i \<noteq> -1) [0..<4]"

definition builtin_ctz :: "u32 \<Rightarrow> nat" where
  "builtin_ctz w = length (takeWhile (\<lambda>i. \<not> bit w i) [0..<32])"

definition bitmap_find_nonfull_word_avx2 :: "u64 list \<Rightarrow> nat option" where
  "bitmap_find_nonfull_word_avx2 bitmap =
     (let lane = (\<lambda>i. if bitmap ! i = -1 then push_bit (8 * i) 0xFF else 0 :: u32);
          mask = lane 0 OR lane 1 OR lane 2 OR lane 3
      in if mask = 0xFFFFFFFF then None else Some (builtin_ctz (NOT mask) div 8))"

section \<open>Slabs\<close>

definition slab_create :: "mmap_fn \<Rightarrow> nat \<Rightarrow> arena_freq \<Rightarrow> arena_env \<Rightarrow> arena_slab option \<times> arena_env" where
  "slab_create mm sc freq e =
     (let total = slab_total_size sc
      in case map_region mm total e of
           (None, e) \<Rightarrow> (None, e)
         | (Some base, e) \<Rightarrow>
             (Some \<lparr>sl_base = base, sl_bitmap = replicate 4 (-1), sl_used_count = 0, sl_free_top = 0,
                sl_free_stack = replicate ARENA_SLAB_SLOTS 0, sl_size_class = sc, sl_freq = freq, sl_mmap_size = total\<rparr>, e))"

text \<open>
  The slots on the stack are taken from the top until one is marked in the bitmap; a read outside the stack, undefined in
  C, gives 0.
\<close>

fun slab_pop :: "nat \<Rightarrow> arena_slab \<Rightarrow> nat option \<times> arena_slab" where
  "slab_pop 0 slab = (None, slab)"
| "slab_pop (Suc n) slab =
     (let slab = slab\<lparr>sl_free_top := word_of_nat n\<rparr>;
          slot = (if n < length (sl_free_stack slab) then unat (sl_free_stack slab ! n) else 0)
      in if test_bit_at (sl_bitmap slab) slot
         then (Some slot, slab\<lparr>sl_bitmap := clear_bit_at (sl_bitmap slab) slot, sl_used_count := sl_used_count slab + 1\<rparr>)
         else slab_pop n slab)"

definition slab_scan_word :: "u32 \<Rightarrow> u64 \<Rightarrow> nat" where
  "slab_scan_word hint bits =
     (let rot = unat (hint AND 63); free_bits = NOT bits;
          rotated = drop_bit rot free_bits OR push_bit (64 - rot) free_bits
      in (builtin_ctzll rotated + rot) mod 64)"

definition slab_alloc_slot :: "arena_slab \<Rightarrow> nat \<Rightarrow> u32 \<Rightarrow> nat \<times> arena_slab \<times> u32" where
  "slab_alloc_slot slab sc color =
     (let addr = (\<lambda>slot. sl_base slab + slab_data_offset + slot * g_slab_sizes ! sc)
      in case slab_pop (unat (sl_free_top slab)) slab of
           (Some slot, slab) \<Rightarrow> (addr slot, slab, color)
         | (None, slab) \<Rightarrow>
             (case bitmap_find_nonfull_word (sl_bitmap slab) of
                None \<Rightarrow> (0, slab, color)
              | Some _ \<Rightarrow>
                  let start_word = unat ((color div 64) AND 3)
                  in case find (\<lambda>i. sl_bitmap slab ! ((start_word + i) mod 4) \<noteq> -1) [0..<4] of
                       None \<Rightarrow> (0, slab, color + 1)
                     | Some i \<Rightarrow>
                         let word = (start_word + i) mod 4; b = slab_scan_word color (sl_bitmap slab ! word)
                         in (addr (word * 64 + b),
                             slab\<lparr>sl_bitmap := (sl_bitmap slab)[word := NOT (push_bit b 1)], sl_used_count := sl_used_count slab + 1\<rparr>,
                             color + 1)))"

definition slab_free_slot :: "arena_slab \<Rightarrow> nat \<Rightarrow> bool \<times> arena_slab" where
  "slab_free_slot slab p =
     (let slab_start = sl_base slab; slot_size = g_slab_sizes ! sl_size_class slab; data_size = slot_size * ARENA_SLAB_SLOTS;
          data_start = slab_start + slab_data_offset
      in if p < slab_start \<or> p \<ge> slab_start + sl_mmap_size slab then (False, slab)
         else if p < data_start then (False, slab)
         else let offset = p - data_start
              in if offset \<ge> data_size then (False, slab)
                 else let slot = offset div slot_size
                      in if slot \<ge> ARENA_SLAB_SLOTS then (False, slab)
                         else if test_bit_at (sl_bitmap slab) slot then (False, slab)
                         else let idx = unat (sl_free_top slab)
                              in (True, slab\<lparr>sl_bitmap := set_bit_at (sl_bitmap slab) slot, sl_used_count := sl_used_count slab - 1,
                                     sl_free_top := sl_free_top slab + 1,
                                     sl_free_stack := if idx < ARENA_SLAB_SLOTS then (sl_free_stack slab)[idx := word_of_nat slot]
                                                      else sl_free_stack slab\<rparr>))"

definition slab_contains :: "arena_slab \<Rightarrow> nat \<Rightarrow> bool" where
  "slab_contains slab p =
     (let slab_start = sl_base slab; slab_end = slab_start + sl_mmap_size slab;
          data_size = g_slab_sizes ! sl_size_class slab * ARENA_SLAB_SLOTS; data_start = slab_start + slab_data_offset
      in \<not> (p < slab_start \<or> p \<ge> slab_end) \<and> \<not> slab_data_offset > 2 ^ 64 - 1 - slab_start \<and>
         p \<ge> data_start \<and> p - data_start < data_size)"

text \<open>The loop over the slabs of a set, up to the first that has a slot.\<close>

fun slabs_alloc :: "arena_slab option list \<Rightarrow> u32 \<Rightarrow> nat \<times> arena_slab option list \<times> u32" where
  "slabs_alloc [] color = (0, [], color)"
| "slabs_alloc (None # ss) color = (let (p, ss, color) = slabs_alloc ss color in (p, None # ss, color))"
| "slabs_alloc (Some slab # ss) color =
     (case slab_alloc_slot slab (sl_size_class slab) color of
        (p, slab, color) \<Rightarrow>
          if p \<noteq> 0 then (p, Some slab # ss, color)
          else let (p, ss, color) = slabs_alloc ss color in (p, Some slab # ss, color))"

definition slab_set_alloc :: "mmap_fn \<Rightarrow> arena_slab_set \<Rightarrow> nat \<Rightarrow> arena_env \<Rightarrow> nat \<times> arena_slab_set \<times> arena_env" where
  "slab_set_alloc mm sset sc e =
     (let count = ss_slab_count sset;
          (p, slabs, color) = slabs_alloc (take count (ss_slabs sset)) (en_slab_color e);
          sset = sset\<lparr>ss_slabs := slabs @ drop count (ss_slabs sset)\<rparr>; e = e\<lparr>en_slab_color := color\<rparr>
      in if p \<noteq> 0 then (p, sset\<lparr>ss_free_slots := ss_free_slots sset - 1\<rparr>, e)
         else if count \<ge> 8 then (0, sset, e)
         else case slab_create mm sc ARENA_FREQ_WARM e of
                (None, e) \<Rightarrow> (0, sset, e)
              | (Some slab, e) \<Rightarrow>
                  let (p, slab, color) = slab_alloc_slot slab sc (en_slab_color e);
                      sset = sset\<lparr>ss_slab_count := count + 1, ss_slabs := (ss_slabs sset)[count := Some slab],
                        ss_total_slots := ss_total_slots sset + word_of_nat ARENA_SLAB_SLOTS,
                        ss_free_slots := ss_free_slots sset + word_of_nat ARENA_SLAB_SLOTS\<rparr>;
                      e = e\<lparr>en_slab_color := color\<rparr>
                  in (p, if p \<noteq> 0 then sset\<lparr>ss_free_slots := ss_free_slots sset - 1\<rparr> else sset, e))"

fun slabs_free :: "arena_slab option list \<Rightarrow> nat \<Rightarrow> bool \<times> arena_slab option list" where
  "slabs_free [] p = (False, [])"
| "slabs_free (None # ss) p = (let (ok, ss) = slabs_free ss p in (ok, None # ss))"
| "slabs_free (Some slab # ss) p =
     (if slab_contains slab p then let (ok, slab) = slab_free_slot slab p in (ok, Some slab # ss)
      else let (ok, ss) = slabs_free ss p in (ok, Some slab # ss))"

definition slab_set_free :: "arena_slab_set \<Rightarrow> nat \<Rightarrow> bool \<times> arena_slab_set" where
  "slab_set_free sset p =
     (if p = 0 then (False, sset)
      else let (ok, slabs) = slabs_free (take (ss_slab_count sset) (ss_slabs sset)) p;
               sset = sset\<lparr>ss_slabs := slabs @ drop (ss_slab_count sset) (ss_slabs sset)\<rparr>
           in (ok, if ok then sset\<lparr>ss_free_slots := ss_free_slots sset + 1\<rparr> else sset))"

definition slab_set_contains :: "arena_slab_set \<Rightarrow> nat \<Rightarrow> bool" where
  "slab_set_contains sset p \<longleftrightarrow>
     p \<noteq> 0 \<and> (\<exists>s \<in> set (take (ss_slab_count sset) (ss_slabs sset)). case s of None \<Rightarrow> False | Some slab \<Rightarrow> slab_contains slab p)"

section \<open>The thread cache\<close>

definition tcache_get :: "arena_env \<Rightarrow> bool \<times> arena_env" where
  "tcache_get e =
     (if en_tcache e \<noteq> None then (True, e)
      else case do_alloc e of (ok, e) \<Rightarrow> (ok, if ok then e\<lparr>en_tcache := Some (replicate ARENA_SLAB_SIZES [])\<rparr> else e))"

definition tcache_bins :: "arena_env \<Rightarrow> nat list list" where
  "tcache_bins e = (case en_tcache e of None \<Rightarrow> [] | Some bins \<Rightarrow> bins)"

definition tcache_try_get :: "nat \<Rightarrow> arena_env \<Rightarrow> nat \<times> arena_env" where
  "tcache_try_get sc e =
     (case tcache_get e of (ok, e) \<Rightarrow>
        if \<not> ok then (0, e)
        else if sc \<ge> ARENA_SLAB_SIZES then (0, e)
        else case tcache_bins e ! sc of [] \<Rightarrow> (0, e) | p # ps \<Rightarrow> (p, e\<lparr>en_tcache := Some ((tcache_bins e)[sc := ps])\<rparr>))"

definition tcache_put :: "nat \<Rightarrow> nat \<Rightarrow> arena_env \<Rightarrow> arena_env" where
  "tcache_put p sc e =
     (case tcache_get e of (ok, e) \<Rightarrow>
        if \<not> ok then e
        else if sc \<ge> ARENA_SLAB_SIZES then e
        else if length (tcache_bins e ! sc) \<ge> ARENA_TCACHE_DEPTH then e
        else e\<lparr>en_tcache := Some ((tcache_bins e)[sc := p # tcache_bins e ! sc])\<rparr>)"

definition tcache_clear :: "arena_env \<Rightarrow> arena_env" where
  "tcache_clear e = e\<lparr>en_tcache := map_option (map (\<lambda>_. [])) (en_tcache e)\<rparr>"

section \<open>Large blocks\<close>

definition sys_alloc_track :: "nat \<Rightarrow> nat \<Rightarrow> arena_env \<Rightarrow> arena_env" where
  "sys_alloc_track p sz e =
     (if length (en_sys e) \<ge> en_sys_cap e
      then case do_alloc e of (ok, e) \<Rightarrow>
             if \<not> ok then e
             else e\<lparr>en_sys_cap := if en_sys_cap e = 0 then 64 else sz_mul (en_sys_cap e) 2, en_sys := en_sys e @ [(p, sz)]\<rparr>
      else e\<lparr>en_sys := en_sys e @ [(p, sz)]\<rparr>)"

text \<open>The last record takes the place of the first one with the address.\<close>

definition sys_alloc_untrack :: "nat \<Rightarrow> arena_env \<Rightarrow> arena_env" where
  "sys_alloc_untrack p e =
     (let rs = en_sys e; i = length (takeWhile (\<lambda>r. fst r \<noteq> p) rs)
      in if i < length rs then e\<lparr>en_sys := butlast (rs[i := last rs])\<rparr> else e)"

definition sys_alloc_contains :: "nat \<Rightarrow> arena_env \<Rightarrow> bool" where
  "sys_alloc_contains p e \<longleftrightarrow> (\<exists>(start, sz) \<in> set (en_sys e). p \<ge> start \<and> p < start + sz)"

definition sys_alloc :: "mmap_fn \<Rightarrow> nat \<Rightarrow> arena_env \<Rightarrow> nat \<times> arena_env" where
  "sys_alloc mm sz e =
     (case do_mmap mm False sz e of (None, e) \<Rightarrow> (0, e) | (Some p, e) \<Rightarrow> (p, sys_alloc_track p sz e))"

definition sys_free :: "nat \<Rightarrow> nat \<Rightarrow> arena_env \<Rightarrow> arena_env" where
  "sys_free p sz e = (let e = sys_alloc_untrack p e in if p \<noteq> 0 then do_munmap p sz e else e)"

section \<open>Segments\<close>

definition seg_create :: "mmap_fn \<Rightarrow> arena_freq \<Rightarrow> nat \<Rightarrow> arena_env \<Rightarrow> arena_segment option \<times> arena_env" where
  "seg_create mm freq sc e =
     (case map_region mm ARENA_SEG_SIZE e of
        (None, e) \<Rightarrow> (None, e)
      | (Some base, e) \<Rightarrow>
          (Some \<lparr>sg_base = base, sg_control = 0, sg_epoch = 0, sg_freq = freq, sg_size_class = sc, sg_flags = 0,
             sg_free_bitmap = replicate ARENA_SEG_BITMAP_WORDS (-1)\<rparr>, e))"

definition slots_for :: "nat \<Rightarrow> nat" where
  "slots_for sz = (sz + ARENA_SEG_GRANULARITY - 1) div ARENA_SEG_GRANULARITY"

text \<open>The slots are claimed one after the other; when one is taken, those claimed before are given back.\<close>

fun seg_claim :: "nat \<Rightarrow> nat \<Rightarrow> nat \<Rightarrow> u64 list \<Rightarrow> bool \<times> u64 list" where
  "seg_claim start j 0 bm = (True, bm)"
| "seg_claim start j (Suc n) bm =
     (if \<not> test_bit_at bm j then (False, fold (\<lambda>k bm. set_bit_at bm k) [start..<j] bm)
      else seg_claim start (j + 1) n (clear_bit_at bm j))"

text \<open>The scan from slot \<open>i\<close> on, with \<open>n\<close> slots to go.\<close>

fun seg_scan :: "nat \<Rightarrow> nat \<Rightarrow> nat \<Rightarrow> nat \<Rightarrow> nat \<Rightarrow> u64 list \<Rightarrow> nat option \<times> u64 list" where
  "seg_scan needed 0 i consecutive start bm = (None, bm)"
| "seg_scan needed (Suc n) i consecutive start bm =
     (if test_bit_at bm i
      then let consecutive = consecutive + 1; start = (if consecutive = 1 then i else start)
           in if consecutive \<ge> needed
              then case seg_claim start start needed bm of
                     (True, bm) \<Rightarrow> (Some start, bm)
                   | (False, bm) \<Rightarrow> seg_scan needed n (i + 1) 0 start bm
              else seg_scan needed n (i + 1) consecutive start bm
      else seg_scan needed n (i + 1) 0 start bm)"

definition used_slots :: "u64 \<Rightarrow> u64" where
  "used_slots ctrl = drop_bit 48 ctrl AND 0xFFFF"

definition with_used :: "u64 \<Rightarrow> u64 \<Rightarrow> u64" where
  "with_used ctrl used = (ctrl AND NOT (push_bit 48 0xFFFF)) OR push_bit 48 used"

definition seg_alloc :: "arena_segment \<Rightarrow> nat \<Rightarrow> nat \<times> arena_segment" where
  "seg_alloc seg sz =
     (let needed = slots_for sz
      in case seg_scan needed ARENA_SEG_SLOTS 0 0 0 (sg_free_bitmap seg) of
           (None, bm) \<Rightarrow> (0, seg\<lparr>sg_free_bitmap := bm\<rparr>)
         | (Some start, bm) \<Rightarrow>
             (sg_base seg + ARENA_SEG_HDR_SIZE + start * ARENA_SEG_GRANULARITY,
              seg\<lparr>sg_free_bitmap := bm, sg_control := with_used (sg_control seg) (used_slots (sg_control seg) + word_of_nat needed)\<rparr>))"

definition seg_free :: "arena_segment \<Rightarrow> nat \<Rightarrow> nat \<Rightarrow> bool \<times> arena_segment" where
  "seg_free seg p sz =
     (if p = 0 then (False, seg)
      else if sg_flags seg AND 1 \<noteq> 0 then (True, seg)
      else let data_start = sg_base seg + ARENA_SEG_HDR_SIZE
           in if p < data_start \<or> p - data_start \<ge> ARENA_SEG_DATA_SIZE then (False, seg)
              else let start_slot = (p - data_start) div ARENA_SEG_GRANULARITY; slots = slots_for sz;
                       bm = fold (\<lambda>i bm. set_bit_at bm i) [start_slot..<min (start_slot + slots) ARENA_SEG_SLOTS] (sg_free_bitmap seg);
                       used = used_slots (sg_control seg);
                       used = (if used \<ge> word_of_nat slots then used - word_of_nat slots else 0)
                   in (True, seg\<lparr>sg_free_bitmap := bm, sg_control := with_used (sg_control seg) used\<rparr>))"

definition seg_contains :: "arena_segment \<Rightarrow> nat \<Rightarrow> bool" where
  "seg_contains seg p \<longleftrightarrow> p \<noteq> 0 \<and> p \<ge> sg_base seg \<and> p - sg_base seg < ARENA_SEG_SIZE"

fun segs_alloc :: "arena_segment option list \<Rightarrow> nat \<Rightarrow> nat \<times> arena_segment option list" where
  "segs_alloc [] sz = (0, [])"
| "segs_alloc (None # ss) sz = (let (p, ss) = segs_alloc ss sz in (p, None # ss))"
| "segs_alloc (Some seg # ss) sz =
     (case seg_alloc seg sz of
        (p, seg) \<Rightarrow> if p \<noteq> 0 then (p, Some seg # ss) else let (p, ss) = segs_alloc ss sz in (p, Some seg # ss))"

fun segs_free :: "arena_segment option list \<Rightarrow> nat \<Rightarrow> nat \<Rightarrow> bool \<times> arena_segment option list" where
  "segs_free [] p sz = (False, [])"
| "segs_free (None # ss) p sz = (let (ok, ss) = segs_free ss p sz in (ok, None # ss))"
| "segs_free (Some seg # ss) p sz =
     (case seg_free seg p sz of
        (ok, seg) \<Rightarrow> if ok then (True, Some seg # ss) else let (ok, ss) = segs_free ss p sz in (ok, Some seg # ss))"

section \<open>Epochs and tuning\<close>

definition gc_mark :: "u32 \<Rightarrow> u32 \<Rightarrow> arena_segment \<Rightarrow> arena_segment" where
  "gc_mark epoch threshold seg =
     (if unat (used_slots (sg_control seg)) * 100 > ARENA_SEG_SLOTS * unat threshold
      then seg\<lparr>sg_flags := sg_flags seg OR 1, sg_epoch := epoch\<rparr> else seg)"

text \<open>The warm tier has no segments: its \<open>count\<close> stays 0.\<close>

definition epoch_gc_start :: "arena_freq \<Rightarrow> arena \<Rightarrow> arena" where
  "epoch_gc_start freq a =
     (let epoch = ar_global_epoch a + 1;
          cold = (if freq = ARENA_FREQ_COLD then map (map (map_option (gc_mark epoch (ar_compact_trigger a)))) (ar_cold a) else ar_cold a)
      in a\<lparr>ar_global_epoch := epoch, ar_cold := cold, ar_compactions := sz_add (ar_compactions a) 1\<rparr>)"

text \<open>A negative bucket is an access outside the histogram, undefined in C; here it changes nothing.\<close>

definition tuner_record :: "nat \<Rightarrow> arena_tuner \<Rightarrow> arena_tuner" where
  "tuner_record sz t =
     (let b0 = sint (word_of_nat (sz div 16) :: 32 word); b = (if b0 \<ge> 64 then 63 else b0);
          hist = (if b < 0 then tn_hist t else (tn_hist t)[nat b := tn_hist t ! nat b + 1])
      in t\<lparr>tn_hist := hist, tn_sample_count := tn_sample_count t + 1\<rparr>)"

definition tuner_adapt :: "arena \<Rightarrow> arena" where
  "tuner_adapt a =
     (let t = ar_tuner a
      in if tn_sample_count t < 1024 then a
         else let total_small = sum_list (map (\<lambda>i. unat (tn_hist t ! i)) [0..<8]);
                  total_large = sum_list (map (\<lambda>i. unat (tn_hist t ! i)) [32..<64]);
                  total = unat (tn_sample_count t);
                  warm = (if total_small * 100 div total > 70 then 8 else if total_large * 100 div total > 50 then 20 else 10 :: u8)
              in a\<lparr>ar_warm_threshold := warm,
                   ar_tuner := t\<lparr>tn_freq_thresholds := [warm, warm * 2], tn_last_tune_epoch := ucast (ar_global_epoch a AND 0xFF),
                     tn_hist := replicate 64 0, tn_sample_count := 0\<rparr>\<rparr>)"

section \<open>Interface\<close>

definition count_alloc :: "nat \<Rightarrow> arena \<Rightarrow> arena" where
  "count_alloc sz a = a\<lparr>ar_alloc_count := sz_add (ar_alloc_count a) 1, ar_alloc_bytes := sz_add (ar_alloc_bytes a) sz\<rparr>"

definition cold_alloc :: "nat \<Rightarrow> nat \<Rightarrow> arena \<Rightarrow> nat \<times> arena" where
  "cold_alloc sc sz a =
     (case segs_alloc (ar_cold a ! sc) sz of
        (p, segs) \<Rightarrow> let a = a\<lparr>ar_cold := (ar_cold a)[sc := segs]\<rparr> in (p, if p \<noteq> 0 then count_alloc sz a else a))"

definition warm_alloc :: "mmap_fn \<Rightarrow> nat \<Rightarrow> nat \<Rightarrow> arena \<Rightarrow> arena_env \<Rightarrow> nat \<times> arena \<times> arena_env" where
  "warm_alloc mm sc sz a e =
     (case slab_set_alloc mm (ar_warm a ! sc) sc e of
        (p, sset, e) \<Rightarrow> let a = a\<lparr>ar_warm := (ar_warm a)[sc := sset]\<rparr> in (p, if p \<noteq> 0 then count_alloc sz a else a, e))"

definition large_alloc :: "mmap_fn \<Rightarrow> nat \<Rightarrow> arena \<Rightarrow> arena_env \<Rightarrow> nat \<times> arena \<times> arena_env" where
  "large_alloc mm sz a e = (case sys_alloc mm sz e of (p, e) \<Rightarrow> (p, if p \<noteq> 0 then count_alloc sz a else a, e))"

definition medium_alloc :: "mmap_fn \<Rightarrow> nat \<Rightarrow> arena \<Rightarrow> arena_env \<Rightarrow> nat \<times> arena \<times> arena_env" where
  "medium_alloc mm sz a e =
     (if sz \<le> 4096
      then case cold_alloc (size_to_slab_class (if sz > 128 then 128 else sz)) sz a of
             (p, a) \<Rightarrow> if p \<noteq> 0 then (p, a, e) else large_alloc mm sz a e
      else large_alloc mm sz a e)"

definition small_alloc :: "mmap_fn \<Rightarrow> nat \<Rightarrow> arena \<Rightarrow> arena_env \<Rightarrow> nat \<times> arena \<times> arena_env" where
  "small_alloc mm sz a e =
     (let sc = size_to_slab_class sz;
          (cached, e) = (if ar_enable_thread_cache a then tcache_try_get sc e else (0, e))
      in if cached \<noteq> 0 then (cached, a, e)
         else case warm_alloc mm sc sz a e of
                (p, a, e) \<Rightarrow>
                  if p \<noteq> 0 then (p, a, e)
                  else case cold_alloc sc sz a of (p, a) \<Rightarrow> if p \<noteq> 0 then (p, a, e) else medium_alloc mm sz a e)"

definition tune :: "nat \<Rightarrow> arena \<Rightarrow> arena" where
  "tune sz a =
     (if ar_enable_adaptive_tuning a
      then let a = a\<lparr>ar_tuner := tuner_record sz (ar_tuner a)\<rparr>
           in if tn_sample_count (ar_tuner a) mod 4096 = 0 then tuner_adapt a else a
      else a)"

definition arena_alloc :: "mmap_fn \<Rightarrow> nat \<Rightarrow> arena \<Rightarrow> arena_env \<Rightarrow> nat \<times> arena \<times> arena_env" where
  "arena_alloc mm sz a e =
     (if sz = 0 then (0, a, e)
      else let a = tune sz a in if sz \<le> 128 then small_alloc mm sz a e else medium_alloc mm sz a e)"

text \<open>The slab sets are tried from the class of the size on.\<close>

fun warm_free :: "nat list \<Rightarrow> nat \<Rightarrow> arena \<Rightarrow> bool \<times> arena" where
  "warm_free [] p a = (False, a)"
| "warm_free (s # ss) p a =
     (case slab_set_free (ar_warm a ! s) p of
        (ok, sset) \<Rightarrow> let a = a\<lparr>ar_warm := (ar_warm a)[s := sset]\<rparr> in if ok then (True, a) else warm_free ss p a)"

fun cold_free :: "arena_segment option list list \<Rightarrow> nat \<Rightarrow> nat \<Rightarrow> bool \<times> arena_segment option list list" where
  "cold_free [] p sz = (False, [])"
| "cold_free (segs # css) p sz =
     (case segs_free segs p sz of
        (ok, segs) \<Rightarrow> if ok then (True, segs # css) else let (ok, css) = cold_free css p sz in (ok, segs # css))"

definition medium_free :: "nat \<Rightarrow> nat \<Rightarrow> arena \<Rightarrow> arena_env \<Rightarrow> arena \<times> arena_env" where
  "medium_free p sz a e =
     (if sz \<le> 4096
      then case cold_free (ar_cold a) p sz of
             (ok, cold) \<Rightarrow> let a = a\<lparr>ar_cold := cold\<rparr> in if ok then (a, e) else (a, sys_free p sz e)
      else (a, sys_free p sz e))"

definition arena_free :: "nat \<Rightarrow> nat \<Rightarrow> arena \<Rightarrow> arena_env \<Rightarrow> arena \<times> arena_env" where
  "arena_free p sz a e =
     (if p = 0 then (a, e)
      else if sz \<le> 128
      then let sc = size_to_slab_class sz;
               (ok, e) = (if ar_enable_thread_cache a then tcache_get e else (False, e))
           in if ok \<and> length (tcache_bins e ! sc) < ARENA_TCACHE_DEPTH then (a, tcache_put p sc e)
              else case warm_free (sc # filter (\<lambda>s. s \<noteq> sc) [0..<ARENA_SLAB_SIZES]) p a of
                     (ok, a) \<Rightarrow> if ok then (a, e) else medium_free p sz a e
      else medium_free p sz a e)"

definition do_memcpy :: "nat \<Rightarrow> nat \<Rightarrow> nat \<Rightarrow> arena_env \<Rightarrow> arena_env" where
  "do_memcpy dst src n e = e\<lparr>en_mem := (\<lambda>x. if dst \<le> x \<and> x < dst + n then en_mem e (src + (x - dst)) else en_mem e x)\<rparr>"

definition arena_realloc :: "mmap_fn \<Rightarrow> nat \<Rightarrow> nat \<Rightarrow> nat \<Rightarrow> arena \<Rightarrow> arena_env \<Rightarrow> nat \<times> arena \<times> arena_env" where
  "arena_realloc mm p old_size new_size a e =
     (if new_size = 0 then (case arena_free p old_size a e of (a, e) \<Rightarrow> (0, a, e))
      else if p = 0 then arena_alloc mm new_size a e
      else if old_size \<le> 128 \<and> new_size \<le> 128 \<and> size_to_slab_class old_size = size_to_slab_class new_size then (p, a, e)
      else case arena_alloc mm new_size a e of
             (q, a, e) \<Rightarrow>
               if q = 0 then (0, a, e)
               else case arena_free p old_size a (do_memcpy q p (if old_size < new_size then old_size else new_size) e) of
                      (a, e) \<Rightarrow> (q, a, e))"

definition arena_free_deferred :: "nat \<Rightarrow> nat \<Rightarrow> arena \<Rightarrow> arena_env \<Rightarrow> arena \<times> arena_env" where
  "arena_free_deferred p sz a e =
     (if p = 0 then (a, e)
      else case ar_deferred a of
             Some d \<Rightarrow> if length d < ARENA_DEFERRED_BATCH then (a\<lparr>ar_deferred := Some (d @ [(p, sz)])\<rparr>, e) else arena_free p sz a e
           | None \<Rightarrow> arena_free p sz a e)"

definition arena_flush_deferred :: "arena \<Rightarrow> arena_env \<Rightarrow> arena \<times> arena_env" where
  "arena_flush_deferred a e =
     (case ar_deferred a of
        None \<Rightarrow> (a, e)
      | Some d \<Rightarrow> fold (\<lambda>(p, sz) (a, e). arena_free p sz a e) d (a\<lparr>ar_deferred := Some []\<rparr>, e))"

definition unmap_slabs :: "arena_slab_set \<Rightarrow> arena_env \<Rightarrow> arena_env" where
  "unmap_slabs sset e =
     fold (\<lambda>s e. case s of None \<Rightarrow> e | Some slab \<Rightarrow> do_munmap (sl_base slab) (sl_mmap_size slab) e) (take (ss_slab_count sset) (ss_slabs sset)) e"

definition unmap_segs :: "arena_segment option list \<Rightarrow> arena_env \<Rightarrow> arena_env" where
  "unmap_segs segs e = fold (\<lambda>s e. case s of None \<Rightarrow> e | Some seg \<Rightarrow> do_munmap (sg_base seg) ARENA_SEG_SIZE e) segs e"

definition arena_destroy :: "arena \<Rightarrow> arena_env \<Rightarrow> arena_env" where
  "arena_destroy a e =
     (case arena_flush_deferred a e of
        (a, e) \<Rightarrow> fold unmap_segs (ar_cold a) (fold unmap_slabs (ar_warm a) (tcache_clear e)))"

fun create_warm :: "nat \<Rightarrow> arena_env \<Rightarrow> arena_slab_set list \<times> arena_env" where
  "create_warm 0 e = ([], e)"
| "create_warm (Suc n) e =
     (case do_alloc e of (ok, e) \<Rightarrow>
        if \<not> ok then ([], e)
        else case create_warm n e of
               (sets, e) \<Rightarrow> (\<lparr>ss_slabs = replicate 8 None, ss_slab_count = 0, ss_total_slots = 0, ss_free_slots = 0\<rparr> # sets, e))"

fun create_segs :: "mmap_fn \<Rightarrow> nat \<Rightarrow> nat \<Rightarrow> arena_env \<Rightarrow> arena_segment option list \<times> arena_env" where
  "create_segs mm sc 0 e = ([], e)"
| "create_segs mm sc (Suc n) e =
     (case seg_create mm ARENA_FREQ_COLD sc e of (s, e) \<Rightarrow> case create_segs mm sc n e of (ss, e) \<Rightarrow> (s # ss, e))"

fun create_cold :: "mmap_fn \<Rightarrow> nat list \<Rightarrow> arena_env \<Rightarrow> arena_segment option list list \<times> arena_env" where
  "create_cold mm [] e = ([], e)"
| "create_cold mm (sc # scs) e =
     (case do_alloc e of (ok, e) \<Rightarrow>
        if \<not> ok then ([], e)
        else case create_segs mm sc ARENA_COLD_SEGS_PER_CLASS e of
               (segs, e) \<Rightarrow> case create_cold mm scs e of (css, e) \<Rightarrow> (segs # css, e))"

definition blank_arena :: arena where
  "blank_arena =
     \<lparr>ar_warm = [], ar_cold = [], ar_deferred = None, ar_global_epoch = 0, ar_evacuating = 0, ar_compact_trigger = 50,
      ar_tuner = \<lparr>tn_freq_thresholds = [10, 20], tn_last_tune_epoch = 0, tn_hist = replicate 64 0, tn_sample_count = 0\<rparr>,
      ar_warm_threshold = 10, ar_enable_prefetch = True, ar_enable_thread_cache = True, ar_enable_adaptive_tuning = True,
      ar_write_amplification = 0, ar_compactions = 0, ar_alloc_count = 0, ar_alloc_bytes = 0\<rparr>"

definition arena_create :: "mmap_fn \<Rightarrow> arena_env \<Rightarrow> arena option \<times> arena_env" where
  "arena_create mm e =
     (case do_alloc e of (ok, e) \<Rightarrow>
        if \<not> ok then (None, e)
        else case create_warm ARENA_SLAB_SIZES e of (warm, e) \<Rightarrow>
          let a = blank_arena\<lparr>ar_warm := warm\<rparr>
          in if length warm < ARENA_SLAB_SIZES then (None, arena_destroy a e)
             else case create_cold mm [0..<ARENA_SLAB_SIZES] e of (cold, e) \<Rightarrow>
               let a = a\<lparr>ar_cold := cold\<rparr>
               in if length cold < ARENA_SLAB_SIZES then (None, arena_destroy a e)
                  else case do_alloc e of (ok, e) \<Rightarrow>
                    if \<not> ok then (None, arena_destroy a e) else (Some (a\<lparr>ar_deferred := Some []\<rparr>), e))"

definition clear_slabs :: "arena_slab_set \<Rightarrow> arena_slab_set" where
  "clear_slabs sset =
     sset\<lparr>ss_slabs := map (map_option (\<lambda>s. s\<lparr>sl_bitmap := replicate 4 (-1), sl_used_count := 0, sl_free_top := 0\<rparr>))
            (take (ss_slab_count sset) (ss_slabs sset)) @ drop (ss_slab_count sset) (ss_slabs sset),
          ss_free_slots := ss_total_slots sset\<rparr>"

definition clear_seg :: "arena_segment \<Rightarrow> arena_segment" where
  "clear_seg seg = seg\<lparr>sg_free_bitmap := replicate ARENA_SEG_BITMAP_WORDS (-1), sg_control := sg_control seg AND NOT (push_bit 48 0xFFFF),
     sg_epoch := 0, sg_flags := 0\<rparr>"

definition arena_clear :: "arena \<Rightarrow> arena_env \<Rightarrow> arena \<times> arena_env" where
  "arena_clear a e =
     (a\<lparr>ar_warm := map clear_slabs (ar_warm a), ar_cold := map (map (map_option clear_seg)) (ar_cold a), ar_alloc_count := 0, ar_alloc_bytes := 0\<rparr>,
      tcache_clear e)"

definition arena_compact :: "arena_freq \<Rightarrow> arena \<Rightarrow> arena" where
  "arena_compact freq a = epoch_gc_start freq a"

text \<open>Total, used and wasted bytes, compactions and write amplification.\<close>

definition seg_stats :: "arena_segment option \<Rightarrow> nat \<times> nat \<times> nat \<Rightarrow> nat \<times> nat \<times> nat" where
  "seg_stats s tuw =
     (case s of
        None \<Rightarrow> tuw
      | Some seg \<Rightarrow> case tuw of (tot, used, waste) \<Rightarrow>
          let seg_used = unat (used_slots (sg_control seg)) * 64
          in (sz_add tot ARENA_SEG_SIZE, sz_add used seg_used, sz_add waste (sz_sub ARENA_SEG_SIZE seg_used)))"

definition slab_stats :: "nat \<times> arena_slab_set \<Rightarrow> nat \<times> nat \<times> nat \<Rightarrow> nat \<times> nat \<times> nat" where
  "slab_stats c tuw =
     (case c of (sz, sset) \<Rightarrow> case tuw of (tot, used, waste) \<Rightarrow>
        (sz_add tot (sz_mul (unat (ss_total_slots sset)) sz),
         sz_add used (sz_mul (unat (ss_total_slots sset - ss_free_slots sset)) sz),
         sz_add waste (sz_mul (unat (ss_free_slots sset)) sz)))"

definition arena_get_stats :: "arena \<Rightarrow> nat list" where
  "arena_get_stats a =
     (case fold seg_stats (concat (ar_cold a)) (fold slab_stats (zip g_slab_sizes (ar_warm a)) (0, 0, 0)) of
        (tot, used, waste) \<Rightarrow> [tot, used, waste, ar_compactions a, ar_write_amplification a])"

definition arena_size :: "arena \<Rightarrow> nat" where
  "arena_size a = ar_alloc_bytes a"

definition arena_capacity :: "arena \<Rightarrow> nat" where
  "arena_capacity a =
     fold (\<lambda>segs tot. sz_add tot (sz_mul ARENA_COLD_SEGS_PER_CLASS ARENA_SEG_SIZE)) (ar_cold a)
       (fold (\<lambda>(sz, sset) tot. sz_add tot (sz_mul (unat (ss_total_slots sset)) sz)) (zip g_slab_sizes (ar_warm a)) 0)"

definition arena_contains :: "nat \<Rightarrow> arena \<Rightarrow> arena_env \<Rightarrow> bool" where
  "arena_contains p a e \<longleftrightarrow> p \<noteq> 0 \<and>
     ((\<exists>sset \<in> set (ar_warm a). slab_set_contains sset p) \<or>
      (\<exists>segs \<in> set (ar_cold a). \<exists>s \<in> set segs. case s of None \<Rightarrow> False | Some seg \<Rightarrow> seg_contains seg p) \<or> sys_alloc_contains p e)"

text \<open>The macros of \<^verbatim>\<open>alloc.h\<close> for an arena: a size of 0 is a size of 1.\<close>

definition DRAUGR_ALLOC :: "mmap_fn \<Rightarrow> nat \<Rightarrow> arena \<Rightarrow> arena_env \<Rightarrow> nat \<times> arena \<times> arena_env" where
  "DRAUGR_ALLOC mm sz a e = arena_alloc mm (if sz = 0 then 1 else sz) a e"

definition DRAUGR_FREE :: "nat \<Rightarrow> nat \<Rightarrow> arena \<Rightarrow> arena_env \<Rightarrow> arena \<times> arena_env" where
  "DRAUGR_FREE p sz a e = arena_free p (if sz = 0 then 1 else sz) a e"

definition DRAUGR_REALLOC :: "mmap_fn \<Rightarrow> nat \<Rightarrow> nat \<Rightarrow> nat \<Rightarrow> arena \<Rightarrow> arena_env \<Rightarrow> nat \<times> arena \<times> arena_env" where
  "DRAUGR_REALLOC mm p old_sz new_sz a e = arena_realloc mm p old_sz (if new_sz = 0 then 1 else new_sz) a e"

definition do_memset0 :: "nat \<Rightarrow> nat \<Rightarrow> arena_env \<Rightarrow> arena_env" where
  "do_memset0 p n e = e\<lparr>en_mem := (\<lambda>x. if p \<le> x \<and> x < p + n then 0 else en_mem e x)\<rparr>"

definition DRAUGR_CALLOC :: "mmap_fn \<Rightarrow> nat \<Rightarrow> nat \<Rightarrow> arena \<Rightarrow> arena_env \<Rightarrow> nat \<times> arena \<times> arena_env" where
  "DRAUGR_CALLOC mm n sz a e =
     (let tot = (if sz_mul n sz = 0 then 1 else sz_mul n sz)
      in case arena_alloc mm tot a e of (p, a, e) \<Rightarrow> (p, a, if p \<noteq> 0 then do_memset0 p tot e else e))"

end
