(* ===== verification/Arena_Seg.thy ===== *)
theory Arena_Seg
  imports Arena
begin

text \<open>
  The segments of the cold tier: the scan finds the first run of free slots that is long enough and takes exactly
  these slots; freeing gives exactly the slots of the block back.
\<close>

unbundle bit_operations_syntax

lemmas seg_consts = ARENA_SEG_SIZE_def ARENA_SEG_GRANULARITY_def ARENA_SEG_HDR_SIZE_def ARENA_SEG_DATA_SIZE_def ARENA_SEG_SLOTS_def ARENA_SEG_BITMAP_WORDS_def

lemma seg_numbers: "ARENA_SEG_SLOTS = 1021" "ARENA_SEG_BITMAP_WORDS = 16" "ARENA_SEG_DATA_SIZE = 65384"
  by (simp_all add: seg_consts)

definition seg_ok :: "arena_segment \<Rightarrow> bool" where
  "seg_ok seg \<longleftrightarrow> length (sg_free_bitmap seg) = ARENA_SEG_BITMAP_WORDS"

text \<open>\<open>n\<close> free slots from \<open>s\<close> on.\<close>

definition free_run :: "u64 list \<Rightarrow> nat \<Rightarrow> nat \<Rightarrow> bool" where
  "free_run bm s n \<longleftrightarrow> (\<forall>i < n. tbit bm (s + i))"

lemma free_run_Suc: "free_run bm s (Suc n) \<longleftrightarrow> free_run bm s n \<and> tbit bm (s + n)"
  by (auto simp: free_run_def less_Suc_eq)

lemma free_run_Suc0: "free_run bm s (Suc n) \<longleftrightarrow> tbit bm s \<and> free_run bm (Suc s) n"
  by (simp add: free_run_def All_less_Suc2)

section \<open>Bits\<close>

lemma bits_clear_range:
  assumes "j + n \<le> 64 * length bm"
  shows "length (fold (\<lambda>k bm. clear_bit_at bm k) [j..<j + n] bm) = length bm"
    "tbit (fold (\<lambda>k bm. clear_bit_at bm k) [j..<j + n] bm) i \<longleftrightarrow> tbit bm i \<and> \<not> (j \<le> i \<and> i < j + n)"
  using assms
proof (induction n)
  case (Suc n)
  case 1
  then show ?case using Suc by simp
  case 2
  then show ?case using Suc by (auto simp: tbit_clear_bit_at)
qed simp_all

lemma bits_set_range:
  assumes "m \<le> 64 * length bm"
  shows "length (fold (\<lambda>k bm. set_bit_at bm k) [j..<m] bm) = length bm"
    "tbit (fold (\<lambda>k bm. set_bit_at bm k) [j..<m] bm) i \<longleftrightarrow> tbit bm i \<or> j \<le> i \<and> i < m"
  using assms
proof (induction m)
  case (Suc m)
  case 1
  then show ?case using Suc by (cases "j \<le> m") simp_all
  case 2
  then show ?case using Suc by (cases "j \<le> m") (auto simp: tbit_set_bit_at less_Suc_eq)
qed simp_all

section \<open>The scan\<close>

lemma seg_claim_ok:
  assumes "free_run bm j n" "j + n \<le> 64 * length bm"
  shows "seg_claim start j n bm = (True, fold (\<lambda>k bm. clear_bit_at bm k) [j..<j + n] bm)"
  using assms
proof (induction n arbitrary: j bm)
  case (Suc n)
  have "free_run (clear_bit_at bm j) (Suc j) n" using Suc.prems by (auto simp: free_run_Suc0 free_run_def tbit_clear_bit_at)
  then have "seg_claim start (j + 1) n (clear_bit_at bm j) = (True, fold (\<lambda>k bm. clear_bit_at bm k) [Suc j..<Suc j + n] (clear_bit_at bm j))"
    using Suc.IH [of "clear_bit_at bm j" "Suc j"] Suc.prems(2) by simp
  moreover have "[j..<j + Suc n] = j # [Suc j..<Suc j + n]" by (simp add: upt_conv_Cons)
  ultimately show ?case using Suc.prems(1) by (simp add: free_run_Suc0)
qed simp

lemma seg_scan_ok:
  assumes "1 \<le> needed" "i + n \<le> 64 * length bm" "c < needed" "c \<le> i" "free_run bm (i - c) c" "0 < c \<Longrightarrow> start = i - c" "c < i \<Longrightarrow> \<not> tbit bm (i - c - 1)"
    "\<And>s. s + needed \<le> i \<Longrightarrow> \<not> free_run bm s needed"
  shows "(\<forall>s. s + needed \<le> i + n \<longrightarrow> \<not> free_run bm s needed) \<and> seg_scan needed n i c start bm = (None, bm) \<or>
    (\<exists>s. s + needed \<le> i + n \<and> free_run bm s needed \<and> (\<forall>r < s. \<not> free_run bm r needed) \<and>
       seg_scan needed n i c start bm = (Some s, fold (\<lambda>k bm. clear_bit_at bm k) [s..<s + needed] bm))"
  using assms
proof (induction n arbitrary: i c start)
  case 0
  then show ?case by simp
next
  case (Suc n)
  show ?case
  proof (cases "tbit bm i")
    case False
    have "\<not> free_run bm s needed" if "s + needed \<le> Suc i" for s
    proof (cases "s + needed \<le> i")
      case False
      then have "i = s + (needed - 1)" "needed - 1 < needed" using that Suc.prems(1) by simp_all
      then show ?thesis using \<open>\<not> tbit bm i\<close> unfolding free_run_def by blast
    qed (use Suc.prems(8) in simp)
    then show ?thesis using Suc.IH [of "Suc i" 0 start] Suc.prems(1,2) False by (simp add: free_run_def)
  next
    case True
    define s0 where "s0 = (if c + 1 = 1 then i else start)"
    have s0: "s0 = i - c" using Suc.prems(4,6) by (auto simp: s0_def)
    have run: "free_run bm s0 (c + 1)" using Suc.prems(4,5) True s0 by (simp add: free_run_Suc)
    show ?thesis
    proof (cases "c + 1 \<ge> needed")
      case full: True
      then have n: "needed = c + 1" using Suc.prems(3) by simp
      have "seg_claim s0 s0 needed bm = (True, fold (\<lambda>k bm. clear_bit_at bm k) [s0..<s0 + needed] bm)"
        using run n s0 Suc.prems(2,4) by (intro seg_claim_ok) simp_all
      then have "seg_scan needed (Suc n) i c start bm = (Some s0, fold (\<lambda>k bm. clear_bit_at bm k) [s0..<s0 + needed] bm)"
        using True full unfolding seg_scan.simps Let_def s0_def [symmetric] by simp
      moreover have "\<not> free_run bm r needed" if "r < s0" for r using that Suc.prems(4,8) n s0 by simp
      ultimately show ?thesis using run n s0 Suc.prems(4) by (intro disjI2 exI [of _ s0]) simp
    next
      case False
      have no: "\<not> free_run bm s needed" if "s + needed \<le> Suc i" for s
      proof (cases "s + needed \<le> i")
        case f: False
        then have e: "s + needed = Suc i" using that by simp
        then have "c < i" "i - c - 1 = s + (needed - 1 - (c + 1))" "needed - 1 - (c + 1) < needed" using False Suc.prems(1,4) by auto
        then show ?thesis using Suc.prems(7) unfolding free_run_def by metis
      qed (use Suc.prems(8) in simp)
      have "seg_scan needed (Suc n) i c start bm = seg_scan needed n (Suc i) (c + 1) s0 bm"
        using True False unfolding seg_scan.simps Let_def s0_def [symmetric] by simp
      then show ?thesis using Suc.IH [of "Suc i" "c + 1" s0] Suc.prems(1,2,4,7) False run s0 no by simp
    qed
  qed
qed

lemma slots_for_pos: "0 < sz \<Longrightarrow> 0 < slots_for sz"
  by (simp add: slots_for_def ARENA_SEG_GRANULARITY_def div_greater_zero_iff)

definition seg_addr :: "arena_segment \<Rightarrow> nat \<Rightarrow> nat" where
  "seg_addr seg k = sg_base seg + ARENA_SEG_HDR_SIZE + k * ARENA_SEG_GRANULARITY"

lemma seg_alloc_ok:
  assumes "seg_ok seg" "0 < sz"
  shows "(\<forall>s. s + slots_for sz \<le> ARENA_SEG_SLOTS \<longrightarrow> \<not> free_run (sg_free_bitmap seg) s (slots_for sz)) \<and> seg_alloc seg sz = (0, seg) \<or>
    (\<exists>s seg'. s + slots_for sz \<le> ARENA_SEG_SLOTS \<and> free_run (sg_free_bitmap seg) s (slots_for sz) \<and>
       (\<forall>r < s. \<not> free_run (sg_free_bitmap seg) r (slots_for sz)) \<and> seg_alloc seg sz = (seg_addr seg s, seg') \<and>
       seg_ok seg' \<and> sg_base seg' = sg_base seg \<and> sg_flags seg' = sg_flags seg \<and>
       sg_control seg' = with_used (sg_control seg) (used_slots (sg_control seg) + word_of_nat (slots_for sz)) \<and>
       (\<forall>i. tbit (sg_free_bitmap seg') i \<longleftrightarrow> tbit (sg_free_bitmap seg) i \<and> \<not> (s \<le> i \<and> i < s + slots_for sz)))"
proof -
  let ?bm = "sg_free_bitmap seg" and ?n = "slots_for sz"
  have l: "64 * length ?bm = 1024" "ARENA_SEG_SLOTS = 1021" using assms(1) by (simp_all add: seg_ok_def seg_numbers)
  have n: "1 \<le> ?n" using slots_for_pos [OF assms(2)] by simp
  consider "\<forall>s. s + ?n \<le> ARENA_SEG_SLOTS \<longrightarrow> \<not> free_run ?bm s ?n" "seg_scan ?n ARENA_SEG_SLOTS 0 0 0 ?bm = (None, ?bm)"
    | s where "s + ?n \<le> ARENA_SEG_SLOTS" "free_run ?bm s ?n" "\<forall>r < s. \<not> free_run ?bm r ?n"
        "seg_scan ?n ARENA_SEG_SLOTS 0 0 0 ?bm = (Some s, fold (\<lambda>k bm. clear_bit_at bm k) [s..<s + ?n] ?bm)"
    using seg_scan_ok [of ?n 0 ARENA_SEG_SLOTS ?bm 0 0] n l by (auto simp: free_run_def)
  then show ?thesis
  proof cases
    case 1
    then show ?thesis by (simp add: seg_alloc_def)
  next
    case (2 s)
    define bm where "bm = fold (\<lambda>k bm. clear_bit_at bm k) [s..<s + ?n] ?bm"
    have b: "length bm = length ?bm" "\<forall>i. tbit bm i \<longleftrightarrow> tbit ?bm i \<and> \<not> (s \<le> i \<and> i < s + ?n)"
      using bits_clear_range [of s ?n ?bm] 2(1) l by (simp_all add: bm_def)
    have "seg_alloc seg sz = (seg_addr seg s, seg\<lparr>sg_free_bitmap := bm, sg_control := with_used (sg_control seg) (used_slots (sg_control seg) + word_of_nat ?n)\<rparr>)"
      using 2(4) by (simp add: seg_alloc_def seg_addr_def bm_def Let_def)
    then show ?thesis using 2(1-3) b assms(1) by (intro disjI2 exI [of _ s] exI) (auto simp: seg_ok_def)
  qed
qed

section \<open>Freeing\<close>

lemma seg_free_block:
  assumes "seg_ok seg" "k + slots_for sz \<le> ARENA_SEG_SLOTS" "k < ARENA_SEG_SLOTS" "sg_flags seg AND 1 = 0"
  shows "\<exists>seg'. seg_free seg (seg_addr seg k) sz = (True, seg') \<and> seg_ok seg' \<and> sg_base seg' = sg_base seg \<and> sg_flags seg' = sg_flags seg \<and>
    sg_control seg' = with_used (sg_control seg) (if used_slots (sg_control seg) \<ge> word_of_nat (slots_for sz)
      then used_slots (sg_control seg) - word_of_nat (slots_for sz) else 0) \<and>
    (\<forall>i. tbit (sg_free_bitmap seg') i \<longleftrightarrow> tbit (sg_free_bitmap seg) i \<or> k \<le> i \<and> i < k + slots_for sz)"
proof -
  let ?bm = "sg_free_bitmap seg" and ?n = "slots_for sz"
  define bm where "bm = fold (\<lambda>i bm. set_bit_at bm i) [k..<k + ?n] ?bm"
  have b: "length bm = length ?bm" "\<forall>i. tbit bm i \<longleftrightarrow> tbit ?bm i \<or> k \<le> i \<and> i < k + ?n"
    using bits_set_range [of "k + ?n" ?bm k] assms(1,2) by (simp_all add: bm_def seg_ok_def seg_numbers)
  have p: "seg_addr seg k \<noteq> 0" "\<not> seg_addr seg k < sg_base seg + ARENA_SEG_HDR_SIZE" "\<not> seg_addr seg k - (sg_base seg + ARENA_SEG_HDR_SIZE) \<ge> ARENA_SEG_DATA_SIZE"
    "(seg_addr seg k - (sg_base seg + ARENA_SEG_HDR_SIZE)) div ARENA_SEG_GRANULARITY = k"
    using assms(3) by (simp_all add: seg_addr_def seg_consts)
  have m: "min (k + ?n) ARENA_SEG_SLOTS = k + ?n" using assms(2) by simp
  have "seg_free seg (seg_addr seg k) sz = (True, seg\<lparr>sg_free_bitmap := bm, sg_control := with_used (sg_control seg)
      (if used_slots (sg_control seg) \<ge> word_of_nat ?n then used_slots (sg_control seg) - word_of_nat ?n else 0)\<rparr>)"
    using p assms(4) unfolding seg_free_def Let_def p(4) m by (simp add: bm_def)
  then show ?thesis using b assms(1) by (auto simp: seg_ok_def)
qed

lemma seg_free_outside:
  assumes "p < sg_base seg \<or> sg_base seg + ARENA_SEG_SIZE \<le> p" "sg_flags seg AND 1 = 0"
  shows "seg_free seg p sz = (False, seg)"
  using assms by (auto simp: seg_free_def Let_def seg_consts)

lemma seg_free_flagged: "p \<noteq> 0 \<Longrightarrow> sg_flags seg AND 1 \<noteq> 0 \<Longrightarrow> seg_free seg p sz = (True, seg)"
  by (simp add: seg_free_def)

end
