(* ===== verification/Arena_Blocks.thy ===== *)
theory Arena_Blocks
  imports Arena_Seg "HOL-Library.Multiset"
begin

text \<open>
  The invariant of an arena: the blocks it has handed out (or keeps in its caches) lie in mapped regions, the slots of a
  block in a segment are marked as used, and no byte belongs to two blocks. The slabs of the warm tier are idle: they
  never hand out a slot.
\<close>

unbundle bit_operations_syntax

section \<open>The warm tier\<close>

definition slab_idle :: "arena_slab \<Rightarrow> bool" where
  "slab_idle s \<longleftrightarrow> sl_free_top s = 0 \<and> sl_bitmap s = replicate 4 (-1)"

definition set_idle :: "arena_slab_set \<Rightarrow> bool" where
  "set_idle sset \<longleftrightarrow> length (ss_slabs sset) = 8 \<and> (\<forall>s. Some s \<in> set (ss_slabs sset) \<longrightarrow> slab_idle s)"

lemma idle_alloc: "slab_idle s \<Longrightarrow> slab_alloc_slot s sc color = (0, s, color)"
  by (simp add: slab_alloc_slot_def slab_idle_def bitmap_find_nonfull_word_def upt_rec Let_def nth_Cons')

lemma idle_bit: "slab_idle s \<Longrightarrow> i < 256 \<Longrightarrow> tbit (sl_bitmap s) i"
proof -
  assume s: "slab_idle s" and i: "i < 256"
  then have "sl_bitmap s ! (i div 64) = -1" by (simp only: slab_idle_def) simp
  then show ?thesis by (simp add: tbit_def)
qed

lemma idle_free: "slab_idle s \<Longrightarrow> slab_free_slot s p = (False, s)"
  using idle_bit by (simp add: slab_free_slot_def Let_def ARENA_SLAB_SLOTS_def)

lemma idle_slabs_alloc: "(\<And>s. Some s \<in> set ss \<Longrightarrow> slab_idle s) \<Longrightarrow> slabs_alloc ss color = (0, ss, color)"
  by (induction ss color rule: slabs_alloc.induct) (auto simp: idle_alloc)

lemma idle_slabs_free: "(\<And>s. Some s \<in> set ss \<Longrightarrow> slab_idle s) \<Longrightarrow> slabs_free ss p = (False, ss)"
  by (induction ss p rule: slabs_free.induct) (auto simp: idle_free)

lemma idle_set_free:
  assumes "set_idle sset"
  shows "slab_set_free sset p = (False, sset)"
proof -
  have "Some s \<in> set (take (ss_slab_count sset) (ss_slabs sset)) \<Longrightarrow> slab_idle s" for s
    using assms set_take_subset by (fastforce simp: set_idle_def)
  then show ?thesis by (simp add: slab_set_free_def idle_slabs_free)
qed

section \<open>Regions\<close>

definition apart :: "nat \<times> nat \<Rightarrow> nat \<times> nat \<Rightarrow> bool" where
  "apart r s \<longleftrightarrow> fst r + snd r \<le> fst s \<or> fst s + snd s \<le> fst r"

primrec regions_ok :: "(nat \<times> nat) list \<Rightarrow> bool" where
  "regions_ok [] = True"
| "regions_ok (r # rs) = (0 < fst r \<and> 0 < snd r \<and> (\<forall>s \<in> set rs. apart r s) \<and> regions_ok rs)"

lemma regions_apart: "regions_ok rs \<Longrightarrow> r \<in> set rs \<Longrightarrow> s \<in> set rs \<Longrightarrow> r \<noteq> s \<Longrightarrow> apart r s"
  by (induction rs) (auto simp: apart_def)

lemma regions_filter: "regions_ok rs \<Longrightarrow> regions_ok (filter P rs)"
  by (induction rs) auto

lemma regions_pos: "regions_ok rs \<Longrightarrow> r \<in> set rs \<Longrightarrow> 0 < fst r \<and> 0 < snd r"
  by (induction rs) auto

text \<open>
  What \<open>mmap\<close> promises: the new region is not at address 0, consists of whole pages and does not overlap a mapped one.
\<close>

definition mmap_ok :: "mmap_fn \<Rightarrow> bool" where
  "mmap_ok mm \<longleftrightarrow> (\<forall>huge rs len base. 0 < len \<longrightarrow> mm huge rs len = Some base \<longrightarrow>
     0 < base \<and> (\<forall>s \<in> set rs. apart (base, page_round len) s))"

text \<open>An environment in which some regions were added and the records of the C library changed.\<close>

definition grown :: "arena_env \<Rightarrow> arena_env \<Rightarrow> bool" where
  "grown e e' \<longleftrightarrow> regions_ok (en_regions e') \<and> set (en_regions e) \<subseteq> set (en_regions e') \<and> en_tcache e' = en_tcache e \<and> en_mem e' = en_mem e"

lemma grown_refl: "regions_ok (en_regions e) \<Longrightarrow> grown e e"
  by (simp add: grown_def)

lemma grown_trans: "grown e e1 \<Longrightarrow> grown e1 e2 \<Longrightarrow> grown e e2"
  by (auto simp: grown_def)

lemma page_round_pos: "0 < len \<Longrightarrow> 0 < page_round len"
  by (simp add: page_round_def div_greater_zero_iff)

lemma do_mmap_grown:
  assumes "mmap_ok mm" "regions_ok (en_regions e)" "0 < len"
  shows "grown e (snd (do_mmap mm huge len e))"
    "fst (do_mmap mm huge len e) = Some base \<Longrightarrow> en_regions (snd (do_mmap mm huge len e)) = (base, page_round len) # en_regions e"
  using assms page_round_pos [OF assms(3)] by (auto simp: do_mmap_def grown_def mmap_ok_def split: option.splits)

lemma map_region_grown:
  assumes "mmap_ok mm" "regions_ok (en_regions e)" "0 < len"
  shows "grown e (snd (map_region mm len e))"
    "fst (map_region mm len e) = Some base \<Longrightarrow> en_regions (snd (map_region mm len e)) = (base, page_round len) # en_regions e"
proof -
  have none: "do_mmap mm h len e = (None, e1) \<Longrightarrow> e1 = e" for h e1 by (auto simp: do_mmap_def split: option.splits)
  show "grown e (snd (map_region mm len e))"
    using do_mmap_grown(1) [OF assms, of True] do_mmap_grown(1) [OF assms, of False] none by (auto simp: map_region_def split: prod.splits option.splits)
  show "en_regions (snd (map_region mm len e)) = (base, page_round len) # en_regions e" if "fst (map_region mm len e) = Some base"
    using do_mmap_grown(2) [OF assms, of True base] do_mmap_grown(2) [OF assms, of False base] none that
    by (auto simp: map_region_def split: prod.splits option.splits)
qed

text \<open>An allocation from an idle set fails: at most it adds another idle slab.\<close>

lemma idle_set_alloc:
  assumes "set_idle sset" "mmap_ok mm" "regions_ok (en_regions e)" "sc < 8"
  shows "\<exists>sset' e'. slab_set_alloc mm sset sc e = (0, sset', e') \<and> set_idle sset' \<and> grown e e'"
proof -
  let ?n = "ss_slab_count sset"
  have "Some s \<in> set (take ?n (ss_slabs sset)) \<Longrightarrow> slab_idle s" for s
    using assms(1) set_take_subset by (fastforce simp: set_idle_def)
  then have sa: "slabs_alloc (take ?n (ss_slabs sset)) color = (0, take ?n (ss_slabs sset), color)" for color by (rule idle_slabs_alloc)
  have total: "0 < slab_total_size sc" by (simp add: slab_total_size_def SLAB_HDR_def Let_def div_greater_zero_iff)
  note g = map_region_grown(1) [OF assms(2,3) total]
  show ?thesis
  proof (cases "map_region mm (slab_total_size sc) e")
    case (Pair b e1)
    then have g1: "grown e e1" using g by simp
    show ?thesis
    proof (cases b)
      case None
      then have "slab_create mm sc ARENA_FREQ_WARM e = (None, e1)" using Pair by (simp add: slab_create_def)
      then show ?thesis using sa assms(1,3) g1 grown_refl by (cases "8 \<le> ?n") (simp_all add: slab_set_alloc_def Let_def)
    next
      case (Some base)
      then obtain s where s: "slab_create mm sc ARENA_FREQ_WARM e = (Some s, e1)" "slab_idle s" using Pair by (simp add: slab_create_def slab_idle_def)
      have "set_idle (sset\<lparr>ss_slab_count := ?n + 1, ss_slabs := (ss_slabs sset)[?n := Some s], ss_total_slots := t, ss_free_slots := f\<rparr>)" for t f
        using assms(1) s(2) set_update_subset_insert [of "ss_slabs sset" ?n "Some s"] by (auto simp: set_idle_def)
      then show ?thesis using sa s idle_alloc [OF s(2)] assms(1,3) g1 grown_refl by (cases "8 \<le> ?n") (simp_all add: slab_set_alloc_def Let_def)
    qed
  qed
qed

section \<open>Blocks\<close>

definition foot :: "nat \<times> nat \<Rightarrow> nat set" where
  "foot b = {fst b..<fst b + 64 * slots_for (snd b)}"

definition cover :: "(nat \<times> nat) multiset \<Rightarrow> nat \<Rightarrow> nat" where
  "cover B x = size {#b \<in># B. x \<in> foot b#}"

lemma cover_simps [simp]: "cover {#} x = 0" "cover (add_mset b B) x = (if x \<in> foot b then 1 else 0) + cover B x" "cover (B + C) x = cover B x + cover C x"
  by (simp_all add: cover_def)

lemma cover_disjoint:
  assumes "\<forall>x. cover (add_mset b B) x \<le> 1" "c \<in># B"
  shows "foot b \<inter> foot c = {}"
proof -
  obtain C where C: "B = add_mset c C" using multi_member_split [OF assms(2)] by blast
  have "\<not> (x \<in> foot b \<and> x \<in> foot c)" for x using assms(1) [rule_format, of x] by (auto simp: C)
  then show ?thesis by auto
qed

lemma foot_pos: "0 < sz \<Longrightarrow> p \<in> foot (p, sz)"
  using slots_for_pos [of sz] by (simp add: foot_def)

lemma slots_bytes: "sz \<le> 64 * slots_for sz" "64 * slots_for sz \<le> page_round sz"
proof -
  define m where "m = (sz + 4095) div 4096"
  define r where "r = (sz + 4095) mod 4096"
  have "sz + 4095 = m * 4096 + r" "r < 4096" unfolding m_def r_def by (simp_all add: div_mult_mod_eq)
  then have "sz + 63 < (m * 64 + 1) * 64" by (simp add: algebra_simps)
  then have "(sz + 63) div 64 < m * 64 + 1" by (rule less_mult_imp_div_less)
  then show "64 * slots_for sz \<le> page_round sz" by (simp add: slots_for_def page_round_def ARENA_SEG_GRANULARITY_def m_def)
  define d where "d = (sz + 63) div 64"
  define t where "t = (sz + 63) mod 64"
  have "sz + 63 = d * 64 + t" "t < 64" unfolding d_def t_def by (simp_all add: div_mult_mod_eq)
  then have "sz \<le> 64 * d" by linarith
  then show "sz \<le> 64 * slots_for sz" by (simp add: slots_for_def ARENA_SEG_GRANULARITY_def d_def)
qed

text \<open>The sizes of a class take the same number of slots and of pages.\<close>

lemma class_block:
  assumes "0 < sz" "sz \<le> 128"
  defines "sc \<equiv> size_to_slab_class sz"
  shows "sc < 8" "slots_for (g_slab_sizes ! sc) = slots_for sz" "page_round (g_slab_sizes ! sc) = page_round sz" "0 < g_slab_sizes ! sc" "g_slab_sizes ! sc \<le> 128" "sz \<le> g_slab_sizes ! sc"
proof -
  consider "sz \<le> 8" | "8 < sz" "sz \<le> 16" | "16 < sz" "sz \<le> 24" | "24 < sz" "sz \<le> 32" | "32 < sz" "sz \<le> 48" | "48 < sz" "sz \<le> 64" | "64 < sz" "sz \<le> 96" | "96 < sz" "sz \<le> 128"
    using assms(2) by linarith
  then have "sc < 8 \<and> (sz \<le> 64 \<longrightarrow> g_slab_sizes ! sc \<le> 64) \<and> (64 < sz \<longrightarrow> 64 < g_slab_sizes ! sc) \<and> 0 < g_slab_sizes ! sc \<and> g_slab_sizes ! sc \<le> 128 \<and> sz \<le> g_slab_sizes ! sc"
    by cases (simp_all add: sc_def size_to_slab_class_def g_slab_sizes_def ARENA_SLAB_SIZES_def)
  moreover have "slots_for n = (if n \<le> 64 then 1 else 2)" "page_round n = 4096" if "0 < n" "n \<le> 128" for n
    using that by (auto simp: slots_for_def page_round_def ARENA_SEG_GRANULARITY_def intro!: div_nat_eqI)
  ultimately show "sc < 8" "slots_for (g_slab_sizes ! sc) = slots_for sz" "page_round (g_slab_sizes ! sc) = page_round sz" "0 < g_slab_sizes ! sc" "g_slab_sizes ! sc \<le> 128" "sz \<le> g_slab_sizes ! sc"
    using assms(1,2) by auto
qed

section \<open>Segments by position\<close>

definition cold_at :: "arena_segment option list list \<Rightarrow> nat \<times> nat \<Rightarrow> arena_segment option" where
  "cold_at css ji = (case ji of (j, i) \<Rightarrow> if j < length css \<and> i < length (css ! j) then css ! j ! i else None)"

definition cold_upd :: "arena_segment option list list \<Rightarrow> nat \<times> nat \<Rightarrow> arena_segment \<Rightarrow> arena_segment option list list" where
  "cold_upd css ji seg = (case ji of (j, i) \<Rightarrow> css[j := (css ! j)[i := Some seg]])"

lemma cold_at_upd: "cold_at css ji = Some seg \<Longrightarrow> cold_at (cold_upd css ji s) = (cold_at css)(ji \<mapsto> s)"
  by (auto simp: cold_at_def cold_upd_def fun_eq_iff nth_list_update split: prod.splits if_splits)

lemma length_cold_upd [simp]: "length (cold_upd css ji s) = length css"
  by (simp add: cold_upd_def split: prod.splits)

lemma segs_alloc_cases:
  assumes "\<And>seg. Some seg \<in> set ss \<Longrightarrow> seg_ok seg" "0 < sz"
  shows "segs_alloc ss sz = (0, ss) \<or>
    (\<exists>i seg seg' p. i < length ss \<and> ss ! i = Some seg \<and> seg_alloc seg sz = (p, seg') \<and> p \<noteq> 0 \<and> segs_alloc ss sz = (p, ss[i := Some seg']))"
  using assms
proof (induction ss)
  case (Cons s ss)
  have ih: "segs_alloc ss sz = (0, ss) \<or>
    (\<exists>i seg seg' p. i < length ss \<and> ss ! i = Some seg \<and> seg_alloc seg sz = (p, seg') \<and> p \<noteq> 0 \<and> segs_alloc ss sz = (p, ss[i := Some seg']))"
    using Cons by simp
  have step: "?case" if e: "\<And>p ss'. segs_alloc ss sz = (p, ss') \<Longrightarrow> segs_alloc (s # ss) sz = (p, s # ss')"
    using ih
  proof
    assume "\<exists>i seg seg' p. i < length ss \<and> ss ! i = Some seg \<and> seg_alloc seg sz = (p, seg') \<and> p \<noteq> 0 \<and> segs_alloc ss sz = (p, ss[i := Some seg'])"
    then obtain i seg seg' p where i: "i < length ss" "ss ! i = Some seg" "seg_alloc seg sz = (p, seg')" "p \<noteq> 0" "segs_alloc ss sz = (p, ss[i := Some seg'])" by blast
    then show ?thesis using e [OF i(5)] by (intro disjI2 exI [of _ "Suc i"] exI [of _ seg] exI [of _ seg'] exI [of _ p]) simp
  qed (use e in simp)
  show ?case
  proof (cases s)
    case None
    then show ?thesis by (intro step) simp
  next
    case (Some seg)
    then have ok: "seg_ok seg" using Cons.prems(1) by simp
    have nz: "seg_addr seg k \<noteq> 0" for k by (simp add: seg_addr_def ARENA_SEG_HDR_SIZE_def)
    consider "seg_alloc seg sz = (0, seg)" | p seg' where "seg_alloc seg sz = (p, seg')" "p \<noteq> 0"
      using seg_alloc_ok [OF ok Cons.prems(2)] nz by metis
    then show ?thesis
    proof cases
      case 1
      then show ?thesis using Some by (intro step) simp
    next
      case (2 p seg')
      then show ?thesis using Some by (intro disjI2 exI [of _ 0] exI [of _ seg] exI [of _ seg'] exI [of _ p]) simp
    qed
  qed
qed simp

lemma segs_free_cases:
  "(\<exists>i seg seg'. i < length ss \<and> ss ! i = Some seg \<and> seg_free seg p sz = (True, seg') \<and> segs_free ss p sz = (True, ss[i := Some seg'])) \<or>
    (\<forall>seg. Some seg \<in> set ss \<longrightarrow> \<not> fst (seg_free seg p sz)) \<and> segs_free ss p sz = (False, ss)"
proof (induction ss)
  case (Cons s ss)
  have same: "snd (seg_free seg p sz) = seg" if "\<not> fst (seg_free seg p sz)" for seg using that by (auto simp: seg_free_def Let_def split: if_splits)
  have step: "?case" if e: "\<And>ok ss'. segs_free ss p sz = (ok, ss') \<Longrightarrow> segs_free (s # ss) p sz = (ok, s # ss')" and n: "\<And>seg. s = Some seg \<Longrightarrow> \<not> fst (seg_free seg p sz)"
    using Cons.IH
  proof
    assume "\<exists>i seg seg'. i < length ss \<and> ss ! i = Some seg \<and> seg_free seg p sz = (True, seg') \<and> segs_free ss p sz = (True, ss[i := Some seg'])"
    then obtain i seg seg' where i: "i < length ss" "ss ! i = Some seg" "seg_free seg p sz = (True, seg')" "segs_free ss p sz = (True, ss[i := Some seg'])" by blast
    then show ?thesis using e [OF i(4)] by (intro disjI1 exI [of _ "Suc i"] exI [of _ seg] exI [of _ seg']) simp
  qed (use e n in auto)
  show ?case
  proof (cases s)
    case None
    then show ?thesis by (intro step) simp_all
  next
    case (Some seg)
    obtain ok seg' where f: "seg_free seg p sz = (ok, seg')" by (cases "seg_free seg p sz")
    show ?thesis
    proof (cases ok)
      case True
      then show ?thesis using Some f by (intro disjI1 exI [of _ 0] exI [of _ seg] exI [of _ seg']) simp
    next
      case False
      then show ?thesis using Some f same [of seg] by (intro step) simp_all
    qed
  qed
qed simp

end
