(* ===== verification/Arena_Inv.thy ===== *)
theory Arena_Inv
  imports Arena_Blocks
begin

text \<open>
  Blocks, segments and regions together: what taking a block from a segment or from the kernel and giving it back do
  to the invariant \<open>blocks_ok\<close>.
\<close>

unbundle bit_operations_syntax

definition in_seg :: "arena_segment \<Rightarrow> nat \<times> nat \<Rightarrow> bool" where
  "in_seg seg b \<longleftrightarrow> snd b \<le> 4096 \<and> (\<exists>k. fst b = seg_addr seg k \<and> k + slots_for (snd b) \<le> ARENA_SEG_SLOTS \<and>
     (\<forall>i. k \<le> i \<and> i < k + slots_for (snd b) \<longrightarrow> \<not> tbit (sg_free_bitmap seg) i))"

definition placed :: "arena_segment option list list \<Rightarrow> (nat \<times> nat) list \<Rightarrow> nat \<times> nat \<Rightarrow> bool" where
  "placed css rs b \<longleftrightarrow> 0 < snd b \<and>
     ((\<exists>ji seg. cold_at css ji = Some seg \<and> in_seg seg b) \<or>
      (fst b, page_round (snd b)) \<in> set rs \<and> (\<forall>ji seg. cold_at css ji = Some seg \<longrightarrow> sg_base seg \<noteq> fst b))"

definition cold_ok :: "arena_segment option list list \<Rightarrow> (nat \<times> nat) list \<Rightarrow> bool" where
  "cold_ok css rs \<longleftrightarrow> regions_ok rs \<and> (\<forall>ji seg. cold_at css ji = Some seg \<longrightarrow> seg_ok seg \<and> (sg_base seg, ARENA_SEG_SIZE) \<in> set rs) \<and>
     (\<forall>ji kl s t. cold_at css ji = Some s \<longrightarrow> cold_at css kl = Some t \<longrightarrow> sg_base s = sg_base t \<longrightarrow> ji = kl)"

definition blocks_ok :: "arena_segment option list list \<Rightarrow> (nat \<times> nat) list \<Rightarrow> (nat \<times> nat) multiset \<Rightarrow> bool" where
  "blocks_ok css rs B \<longleftrightarrow> cold_ok css rs \<and> (\<forall>b \<in># B. placed css rs b) \<and> (\<forall>x. cover B x \<le> 1)"

lemma cold_okD:
  assumes "cold_ok css rs"
  shows "regions_ok rs" "cold_at css ji = Some seg \<Longrightarrow> seg_ok seg" "cold_at css ji = Some seg \<Longrightarrow> (sg_base seg, ARENA_SEG_SIZE) \<in> set rs"
    "cold_at css ji = Some s \<Longrightarrow> cold_at css kl = Some t \<Longrightarrow> sg_base s = sg_base t \<Longrightarrow> ji = kl"
  using assms unfolding cold_ok_def by blast+

section \<open>Where blocks lie\<close>

definition range_of :: "nat \<times> nat \<Rightarrow> nat set" where
  "range_of r = {fst r..<fst r + snd r}"

lemma apart_ranges: "apart r s \<Longrightarrow> range_of r \<inter> range_of s = {}"
  by (auto simp: apart_def range_of_def)

lemma in_seg_range: "in_seg seg b \<Longrightarrow> foot b \<subseteq> range_of (sg_base seg, ARENA_SEG_SIZE)"
  by (auto simp: in_seg_def foot_def range_of_def seg_addr_def seg_numbers ARENA_SEG_SIZE_def ARENA_SEG_HDR_SIZE_def ARENA_SEG_GRANULARITY_def)

lemma sys_range: "foot b \<subseteq> range_of (fst b, page_round (snd b))"
  using slots_bytes(2) [of "snd b"] by (auto simp: foot_def range_of_def)

lemma other_segs_apart:
  assumes "cold_ok css rs" "cold_at css ji = Some s" "cold_at css kl = Some t" "ji \<noteq> kl"
  shows "range_of (sg_base s, ARENA_SEG_SIZE) \<inter> range_of (sg_base t, ARENA_SEG_SIZE) = {}"
proof -
  have "(sg_base s, ARENA_SEG_SIZE) \<noteq> (sg_base t, ARENA_SEG_SIZE)" using cold_okD(4) [OF assms(1-3)] assms(4) by auto
  then show ?thesis by (intro apart_ranges regions_apart [OF cold_okD(1) [OF assms(1)] cold_okD(3) [OF assms(1,2)] cold_okD(3) [OF assms(1,3)]])
qed

lemma sys_seg_apart:
  assumes "cold_ok css rs" "cold_at css ji = Some s" "(p, l) \<in> set rs" "sg_base s \<noteq> p"
  shows "range_of (sg_base s, ARENA_SEG_SIZE) \<inter> range_of (p, l) = {}"
proof (rule apart_ranges)
  have "(sg_base s, ARENA_SEG_SIZE) \<noteq> (p, l)" using assms(4) by simp
  then show "apart (sg_base s, ARENA_SEG_SIZE) (p, l)" by (rule regions_apart [OF cold_okD(1) [OF assms(1)] cold_okD(3) [OF assms(1,2)] assms(3)])
qed

text \<open>A block that reaches into a segment is a block of this segment.\<close>

lemma block_of_seg:
  assumes ok: "cold_ok css rs" and b: "placed css rs b" and s: "cold_at css ji = Some s" and x: "x \<in> foot b" "x \<in> range_of (sg_base s, ARENA_SEG_SIZE)"
  shows "in_seg s b"
  using b unfolding placed_def
proof (elim conjE disjE exE)
  fix kl t
  assume t: "cold_at css kl = Some t" "in_seg t b"
  then have "x \<in> range_of (sg_base t, ARENA_SEG_SIZE)" using in_seg_range x(1) by blast
  then have "ji = kl" using other_segs_apart [OF ok s t(1)] x(2) by blast
  then show ?thesis using s t by simp
next
  assume r: "(fst b, page_round (snd b)) \<in> set rs" "\<forall>ji seg. cold_at css ji = Some seg \<longrightarrow> sg_base seg \<noteq> fst b"
  have "x \<in> range_of (fst b, page_round (snd b))" using sys_range x(1) by blast
  then show ?thesis using sys_seg_apart [OF ok s r(1)] r(2) s x(2) by auto
qed

text \<open>A segment is replaced by one at the same address whose slots of the blocks that stay are still in use.\<close>

lemma placed_upd:
  assumes s: "cold_at css ji = Some s" "sg_base s' = sg_base s" and b: "placed css rs b" and k: "in_seg s b \<Longrightarrow> in_seg s' b"
  shows "placed (cold_upd css ji s') rs b"
proof -
  have at: "cold_at (cold_upd css ji s') kl = (if kl = ji then Some s' else cold_at css kl)" for kl by (simp add: cold_at_upd [OF s(1)])
  have pos: "0 < snd b" using b by (simp add: placed_def)
  consider kl t where "cold_at css kl = Some t" "in_seg t b"
    | "(fst b, page_round (snd b)) \<in> set rs" "\<And>kl t. cold_at css kl = Some t \<Longrightarrow> sg_base t \<noteq> fst b"
    using b unfolding placed_def by blast
  then show ?thesis
  proof cases
    case (1 kl t)
    have "\<exists>t'. cold_at (cold_upd css ji s') kl = Some t' \<and> in_seg t' b" using 1 k s(1) by (cases "kl = ji") (simp_all add: at)
    then show ?thesis unfolding placed_def using pos by blast
  next
    case 2
    have "sg_base t \<noteq> fst b" if "cold_at (cold_upd css ji s') kl = Some t" for kl t
      using that 2(2) [of kl t] 2(2) [OF s(1)] s(2) by (simp add: at split: if_splits)
    then show ?thesis unfolding placed_def using pos 2(1) by blast
  qed
qed

lemma cold_ok_same:
  assumes ok: "cold_ok css rs"
    and old: "\<And>kl t. cold_at css' kl = Some t \<Longrightarrow> \<exists>u. cold_at css kl = Some u \<and> sg_base u = sg_base t" "\<And>kl t. cold_at css' kl = Some t \<Longrightarrow> seg_ok t"
  shows "cold_ok css' rs"
  unfolding cold_ok_def using old cold_okD(1,3,4) [OF ok] by metis

lemma cold_ok_upd:
  assumes ok: "cold_ok css rs" and s: "cold_at css ji = Some s" "sg_base s' = sg_base s" "seg_ok s'"
  shows "cold_ok (cold_upd css ji s') rs"
proof -
  have at: "cold_at (cold_upd css ji s') kl = (if kl = ji then Some s' else cold_at css kl)" for kl by (simp add: cold_at_upd [OF s(1)])
  show ?thesis
    by (rule cold_ok_same [OF ok]) (use s cold_okD(2) [OF ok] in \<open>simp_all add: at split: if_splits\<close>)
qed

section \<open>Blocks come and go\<close>

lemma blocks_okD:
  assumes "blocks_ok css rs B"
  shows "cold_ok css rs" "b \<in># B \<Longrightarrow> placed css rs b" "cover B x \<le> 1"
  using assms by (simp_all add: blocks_ok_def)

lemma cover_pos: "cover B x \<noteq> 0 \<Longrightarrow> \<exists>b. b \<in># B \<and> x \<in> foot b"
proof (induction B)
  case (add b B)
  show ?case
  proof (cases "x \<in> foot b")
    case False
    then obtain c where "c \<in># B" "x \<in> foot c" using add by auto
    then show ?thesis by (intro exI [of _ c]) simp
  qed (intro exI [of _ b], simp)
qed simp

lemma cover_mono: "B \<subseteq># C \<Longrightarrow> cover B x \<le> cover C x"
  unfolding cover_def by (intro size_mset_mono multiset_filter_mono)

lemma blocks_ok_sub: "blocks_ok css rs C \<Longrightarrow> B \<subseteq># C \<Longrightarrow> blocks_ok css rs B"
  unfolding blocks_ok_def using cover_mono mset_subset_eqD order_trans by meson

lemma blocks_ok_add:
  assumes "blocks_ok css rs B" "placed css rs b" "\<And>c x. c \<in># B \<Longrightarrow> x \<in> foot b \<Longrightarrow> x \<in> foot c \<Longrightarrow> False"
  shows "blocks_ok css rs (add_mset b B)"
proof -
  have "cover (add_mset b B) x \<le> 1" for x
  proof (cases "x \<in> foot b")
    case True
    then have "cover B x = 0" using cover_pos [of B x] assms(3) [of _ x] by blast
    then show ?thesis by simp
  qed (use blocks_okD(3) [OF assms(1)] in simp)
  then show ?thesis using assms(1,2) unfolding blocks_ok_def by simp
qed

lemma placed_in_region: "cold_ok css rs \<Longrightarrow> placed css rs b \<Longrightarrow> \<exists>r \<in> set rs. foot b \<subseteq> range_of r"
  unfolding placed_def using in_seg_range sys_range cold_okD(3) by metis

lemma in_slot: "x \<in> foot b \<Longrightarrow> fst b = seg_addr s k \<Longrightarrow> k \<le> (x - seg_addr s 0) div 64 \<and> (x - seg_addr s 0) div 64 < k + slots_for (snd b)"
proof
  assume x: "x \<in> foot b" and b: "fst b = seg_addr s k"
  then have "k * 64 \<le> x - seg_addr s 0" "x - seg_addr s 0 < (k + slots_for (snd b)) * 64"
    by (auto simp: foot_def seg_addr_def ARENA_SEG_GRANULARITY_def)
  then show "k \<le> (x - seg_addr s 0) div 64" "(x - seg_addr s 0) div 64 < k + slots_for (snd b)"
    by (simp_all add: less_eq_div_iff_mult_less_eq less_mult_imp_div_less)
qed

lemma blocks_seg_alloc:
  assumes ok: "blocks_ok css rs B" and s: "cold_at css ji = Some s" and a: "seg_alloc s sz = (p, s')" "p \<noteq> 0" and sz: "0 < sz" "sz \<le> 4096"
  shows "blocks_ok (cold_upd css ji s') rs (add_mset (p, sz) B)"
proof -
  note c = blocks_okD(1) [OF ok]
  obtain k where k: "k + slots_for sz \<le> ARENA_SEG_SLOTS" "free_run (sg_free_bitmap s) k (slots_for sz)" "p = seg_addr s k"
    and s': "seg_ok s'" "sg_base s' = sg_base s" "\<forall>i. tbit (sg_free_bitmap s') i \<longleftrightarrow> tbit (sg_free_bitmap s) i \<and> \<not> (k \<le> i \<and> i < k + slots_for sz)"
    using seg_alloc_ok [OF cold_okD(2) [OF c s] sz(1)] a by auto
  have ad: "seg_addr s' = seg_addr s" by (rule ext) (simp add: seg_addr_def s'(2))
  have keep: "in_seg s b \<Longrightarrow> in_seg s' b" for b using s'(3) unfolding in_seg_def ad by blast
  have old: "blocks_ok (cold_upd css ji s') rs B" unfolding blocks_ok_def
    using cold_ok_upd [OF c s s'(2,1)] placed_upd [OF s s'(2) _ keep] blocks_okD(2,3) [OF ok] by blast
  have new: "in_seg s' (p, sz)" using k s'(3) sz(2) unfolding in_seg_def ad by auto
  have pl: "placed (cold_upd css ji s') rs (p, sz)" unfolding placed_def using new sz(1) cold_at_upd [OF s, of s'] by (metis fun_upd_same snd_conv)
  have False if d: "d \<in># B" "x \<in> foot (p, sz)" "x \<in> foot d" for d x
  proof -
    have "x \<in> range_of (sg_base s, ARENA_SEG_SIZE)" using in_seg_range [OF new] d(2) s'(2) by auto
    then have "in_seg s d" by (rule block_of_seg [OF c blocks_okD(2) [OF ok d(1)] s d(3)])
    then obtain l where l: "fst d = seg_addr s l" "\<forall>i. l \<le> i \<and> i < l + slots_for (snd d) \<longrightarrow> \<not> tbit (sg_free_bitmap s) i" unfolding in_seg_def by blast
    let ?i = "(x - seg_addr s 0) div 64"
    have "k \<le> ?i \<and> ?i < k + slots_for sz" using in_slot [OF d(2)] k(3) by simp
    then have "k + (?i - k) = ?i" "?i - k < slots_for sz" by linarith+
    then have "tbit (sg_free_bitmap s) ?i" using k(2) unfolding free_run_def by metis
    then show False using l(2) in_slot [OF d(3) l(1)] by simp
  qed
  then show ?thesis by (rule blocks_ok_add [OF old pl])
qed

lemma placed_more: "placed css rs b \<Longrightarrow> set rs \<subseteq> set rs' \<Longrightarrow> placed css rs' b"
  unfolding placed_def by blast

lemma blocks_grow:
  assumes "blocks_ok css rs B" "regions_ok rs'" "set rs \<subseteq> set rs'"
  shows "blocks_ok css rs' B"
  using assms placed_more unfolding blocks_ok_def cold_ok_def by blast

lemma blocks_sys_alloc:
  assumes ok: "blocks_ok css rs B" and r: "regions_ok ((p, page_round sz) # rs)" and sz: "0 < sz"
  shows "blocks_ok css ((p, page_round sz) # rs) (add_mset (p, sz) B)"
proof (rule blocks_ok_add)
  note c = blocks_okD(1) [OF ok]
  show "blocks_ok css ((p, page_round sz) # rs) B" by (rule blocks_grow [OF ok r]) auto
  have ap: "range_of (p, page_round sz) \<inter> range_of q = {}" if "q \<in> set rs" for q using r that by (simp add: apart_ranges)
  have "p \<in> range_of (p, page_round sz)" using page_round_pos [OF sz] by (simp add: range_of_def)
  moreover have "q \<in> range_of (q, ARENA_SEG_SIZE)" for q by (simp add: range_of_def ARENA_SEG_SIZE_def)
  ultimately have "sg_base t \<noteq> p" if "cold_at css kl = Some t" for kl t using ap [OF cold_okD(3) [OF c that]] by blast
  then show "placed css ((p, page_round sz) # rs) (p, sz)" using sz unfolding placed_def by simp
  show False if d: "d \<in># B" "x \<in> foot (p, sz)" "x \<in> foot d" for d x
  proof -
    obtain q where "q \<in> set rs" "foot d \<subseteq> range_of q" using placed_in_region [OF c blocks_okD(2) [OF ok d(1)]] by blast
    then show False using ap [of q] d(2,3) sys_range [of "(p, sz)"] by auto
  qed
qed

lemma cold_upd_same: "cold_at css ji = Some s \<Longrightarrow> cold_upd css ji s = css"
  by (auto simp: cold_at_def cold_upd_def list_update_id split: prod.splits if_splits) (metis list_update_id)

lemma seg_free_mine: "seg_ok s \<Longrightarrow> 0 < snd b \<Longrightarrow> in_seg s b \<Longrightarrow> fst (seg_free s (fst b) (snd b))"
proof -
  assume s: "seg_ok s" "0 < snd b" "in_seg s b"
  then obtain k where k: "fst b = seg_addr s k" "k + slots_for (snd b) \<le> ARENA_SEG_SLOTS" unfolding in_seg_def by blast
  have "k < ARENA_SEG_SLOTS" using k(2) slots_for_pos [OF s(2)] by simp
  then show ?thesis using seg_free_block [OF s(1) k(2)] seg_free_flagged [of "fst b" s] k(1)
    by (cases "sg_flags s AND 1 = 0") (auto simp: seg_addr_def ARENA_SEG_HDR_SIZE_def)
qed

lemma seg_free_inside:
  assumes "seg_free s p sz = (True, s')" "sg_flags s AND 1 = 0"
  shows "p \<in> range_of (sg_base s, ARENA_SEG_SIZE)"
proof -
  have "\<not> (p < sg_base s \<or> sg_base s + ARENA_SEG_SIZE \<le> p)" using assms seg_free_outside [of p s sz] by auto
  then show ?thesis by (simp add: range_of_def)
qed

lemma blocks_seg_free:
  assumes ok: "blocks_ok css rs (add_mset (p, sz) B)" and s: "cold_at css ji = Some s" and f: "seg_free s p sz = (True, s')"
  shows "blocks_ok (cold_upd css ji s') rs B"
proof (cases "sg_flags s AND 1 = 0")
  case False
  have "p \<noteq> 0" using f by (cases "p = 0") (simp_all add: seg_free_def)
  then have "s' = s" using seg_free_flagged [OF _ False, of p sz] f by simp
  then show ?thesis using cold_upd_same [OF s] blocks_ok_sub [OF ok] by simp
next
  case True
  note c = blocks_okD(1) [OF ok]
  have pl: "placed css rs (p, sz)" using blocks_okD(2) [OF ok] by simp
  then have sz: "0 < sz" by (simp add: placed_def)
  have "in_seg s (p, sz)" by (rule block_of_seg [OF c pl s foot_pos [OF sz] seg_free_inside [OF f True]])
  then obtain k where k: "p = seg_addr s k" "k + slots_for sz \<le> ARENA_SEG_SLOTS" unfolding in_seg_def by auto
  have "k < ARENA_SEG_SLOTS" using k(2) slots_for_pos [OF sz] by simp
  then have s': "seg_ok s'" "sg_base s' = sg_base s" "\<forall>i. tbit (sg_free_bitmap s') i \<longleftrightarrow> tbit (sg_free_bitmap s) i \<or> k \<le> i \<and> i < k + slots_for sz"
    using seg_free_block [OF cold_okD(2) [OF c s] k(2) _ True] f k(1) by auto
  have ad: "seg_addr s' = seg_addr s" by (rule ext) (simp add: seg_addr_def s'(2))
  have keep: "in_seg s' b" if b: "b \<in># B" "in_seg s b" for b
  proof -
    obtain l where l: "snd b \<le> 4096" "fst b = seg_addr s l" "l + slots_for (snd b) \<le> ARENA_SEG_SLOTS" "\<forall>i. l \<le> i \<and> i < l + slots_for (snd b) \<longrightarrow> \<not> tbit (sg_free_bitmap s) i"
      using b(2) unfolding in_seg_def by blast
    have dis: "foot (p, sz) \<inter> foot b = {}" by (rule cover_disjoint [OF _ b(1)]) (use blocks_okD(3) [OF ok] in blast)
    have "\<not> (k \<le> i \<and> i < k + slots_for sz)" if i: "l \<le> i" "i < l + slots_for (snd b)" for i
    proof
      assume "k \<le> i \<and> i < k + slots_for sz"
      then have "seg_addr s i \<in> foot (p, sz)" "seg_addr s i \<in> foot b" using i k(1) l(2) by (simp_all add: foot_def seg_addr_def ARENA_SEG_GRANULARITY_def)
      then show False using dis by blast
    qed
    then show ?thesis using l s'(3) unfolding in_seg_def ad by blast
  qed
  have "placed (cold_upd css ji s') rs b" if "b \<in># B" for b
    by (rule placed_upd [OF s s'(2)]) (use blocks_okD(2) [OF ok, of b] that keep in simp_all)
  moreover have "cover B x \<le> 1" for x using blocks_okD(3) [OF blocks_ok_sub [OF ok, of B]] by simp
  ultimately show ?thesis unfolding blocks_ok_def using cold_ok_upd [OF c s s'(2,1)] by blast
qed

lemma blocks_sys_free:
  assumes ok: "blocks_ok css rs (add_mset (p, sz) B)" and n: "4096 < sz \<or> (\<forall>ji s. cold_at css ji = Some s \<longrightarrow> \<not> fst (seg_free s p sz))"
  shows "blocks_ok css (filter (\<lambda>r. r \<noteq> (p, page_round sz)) rs) B"
proof -
  let ?rs = "filter (\<lambda>r. r \<noteq> (p, page_round sz)) rs"
  note c = blocks_okD(1) [OF ok]
  have pl: "placed css rs (p, sz)" using blocks_okD(2) [OF ok] by simp
  then have sz: "0 < sz" by (simp add: placed_def)
  have "\<not> in_seg s (p, sz)" if "cold_at css ji = Some s" for ji s
  proof
    assume i: "in_seg s (p, sz)"
    then have "sz \<le> 4096" by (simp add: in_seg_def)
    then show False using n seg_free_mine [OF cold_okD(2) [OF c that], of "(p, sz)"] i sz that by (metis fst_conv leD snd_conv)
  qed
  then have r: "\<And>ji s. cold_at css ji = Some s \<Longrightarrow> sg_base s \<noteq> p" using pl unfolding placed_def fst_conv by blast
  have "(sg_base s, ARENA_SEG_SIZE) \<in> set ?rs" if "cold_at css ji = Some s" for ji s using cold_okD(3) [OF c that] r [OF that] by simp
  then have "cold_ok css ?rs" using c regions_filter [of rs] unfolding cold_ok_def by blast
  moreover have "placed css ?rs b" if b: "b \<in># B" for b
  proof -
    have dis: "foot (p, sz) \<inter> foot b = {}" by (rule cover_disjoint [OF _ b]) (use blocks_okD(3) [OF ok] in blast)
    have pb: "placed css rs b" using blocks_okD(2) [OF ok] b by simp
    have "fst b \<noteq> p" using foot_pos [OF sz, of p] foot_pos [of "snd b" "fst b"] dis pb unfolding placed_def by auto
    then show ?thesis using pb unfolding placed_def by auto
  qed
  moreover have "cover B x \<le> 1" for x using blocks_okD(3) [OF blocks_ok_sub [OF ok, of B]] by simp
  ultimately show ?thesis unfolding blocks_ok_def by blast
qed

section \<open>Other changes\<close>

text \<open>Two sizes that take the same slots and pages.\<close>

definition same_room :: "nat \<Rightarrow> nat \<Rightarrow> bool" where
  "same_room n m \<longleftrightarrow> 0 < n \<and> 0 < m \<and> n \<le> 128 \<and> m \<le> 128 \<and> slots_for n = slots_for m \<and> page_round n = page_round m"

lemma blocks_resize:
  assumes "blocks_ok css rs (add_mset (p, n) B)" "same_room n m"
  shows "blocks_ok css rs (add_mset (p, m) B)"
proof -
  have "foot (p, m) = foot (p, n)" using assms(2) by (simp add: foot_def same_room_def)
  moreover have "placed css rs (p, m) \<longleftrightarrow> placed css rs (p, n)" using assms(2) by (simp add: placed_def in_seg_def same_room_def)
  ultimately show ?thesis using assms(1) unfolding blocks_ok_def by simp
qed

text \<open>Every segment is replaced by one at its address.\<close>

lemma cold_at_map: "cold_at (map (map (map_option f)) css) ji = map_option f (cold_at css ji)"
  by (cases ji) (auto simp: cold_at_def)

lemma cold_ok_map:
  assumes ok: "cold_ok css rs" and f: "\<And>s. sg_base (f s) = sg_base s" "\<And>s. seg_ok s \<Longrightarrow> seg_ok (f s)"
  shows "cold_ok (map (map (map_option f)) css) rs"
proof (rule cold_ok_same [OF ok])
  fix kl t
  assume "cold_at (map (map (map_option f)) css) kl = Some t"
  then obtain u where u: "cold_at css kl = Some u" "t = f u" unfolding cold_at_map map_option_eq_Some by blast
  then show "\<exists>u. cold_at css kl = Some u \<and> sg_base u = sg_base t" "seg_ok t" using f cold_okD(2) [OF ok u(1)] by simp_all
qed

lemma blocks_map:
  assumes ok: "blocks_ok css rs B" and f: "\<And>s. sg_base (f s) = sg_base s" "\<And>s. sg_free_bitmap (f s) = sg_free_bitmap s"
  shows "blocks_ok (map (map (map_option f)) css) rs B"
proof -
  have same: "in_seg (f s) b = in_seg s b" "seg_ok (f s) = seg_ok s" for s b using f by (simp_all add: in_seg_def seg_ok_def seg_addr_def)
  have "placed (map (map (map_option f)) css) rs b" if "placed css rs b" for b
    using that unfolding placed_def cold_at_map map_option_eq_Some by (metis same(1) f(1))
  then show ?thesis using cold_ok_map [OF blocks_okD(1) [OF ok] f(1)] same(2) ok unfolding blocks_ok_def by blast
qed

lemma blocks_none: "blocks_ok css rs {#} \<longleftrightarrow> cold_ok css rs"
  by (simp add: blocks_ok_def)

end
