(* ===== verification/Arena_Ops.thy ===== *)
theory Arena_Ops
  imports Arena_Inv
begin

text \<open>
  The operations of an arena keep \<open>arena_ok\<close>: the blocks the program holds, those in the cache of the thread and those
  whose release is deferred are in their places and do not overlap.
\<close>

unbundle bit_operations_syntax

section \<open>The blocks of an arena\<close>

definition cached_in :: "nat list list \<Rightarrow> (nat \<times> nat) multiset" where
  "cached_in bins = (\<Sum>i < 8. mset (map (\<lambda>p. (p, g_slab_sizes ! i)) (bins ! i)))"

definition cached :: "arena_env \<Rightarrow> (nat \<times> nat) multiset" where
  "cached e = (case en_tcache e of None \<Rightarrow> {#} | Some bins \<Rightarrow> cached_in bins)"

definition deferred :: "arena \<Rightarrow> (nat \<times> nat) multiset" where
  "deferred a = (case ar_deferred a of None \<Rightarrow> {#} | Some d \<Rightarrow> mset d)"

definition tcache_ok :: "arena_env \<Rightarrow> bool" where
  "tcache_ok e \<longleftrightarrow> (case en_tcache e of None \<Rightarrow> True | Some bins \<Rightarrow> length bins = 8)"

definition warm_idle :: "arena_slab_set list \<Rightarrow> bool" where
  "warm_idle ws \<longleftrightarrow> length ws = 8 \<and> (\<forall>w \<in> set ws. set_idle w)"

text \<open>\<open>L\<close> are the blocks of the program.\<close>

definition arena_ok :: "arena \<Rightarrow> arena_env \<Rightarrow> (nat \<times> nat) multiset \<Rightarrow> bool" where
  "arena_ok a e L \<longleftrightarrow> warm_idle (ar_warm a) \<and> length (ar_cold a) = 8 \<and> tcache_ok e \<and>
     blocks_ok (ar_cold a) (en_regions e) (L + cached e + deferred a)"

lemma arena_okD:
  assumes "arena_ok a e L"
  shows "warm_idle (ar_warm a)" "length (ar_cold a) = 8" "tcache_ok e" "blocks_ok (ar_cold a) (en_regions e) (L + cached e + deferred a)" "regions_ok (en_regions e)"
  using assms by (simp_all add: arena_ok_def blocks_ok_def cold_ok_def)

lemma arena_ok_sub: "arena_ok a e L \<Longrightarrow> M \<subseteq># L \<Longrightarrow> arena_ok a e M"
  unfolding arena_ok_def by (meson blocks_ok_sub subset_mset.add_mono subset_mset.order_refl)

lemma arena_ok_resize: "arena_ok a e (add_mset (p, n) L) \<Longrightarrow> same_room n m \<Longrightarrow> arena_ok a e (add_mset (p, m) L)"
  unfolding arena_ok_def using blocks_resize [of _ _ p n "L + cached e + deferred a" m] by simp

lemma class_room: "0 < sz \<Longrightarrow> sz \<le> 128 \<Longrightarrow> same_room sz (g_slab_sizes ! size_to_slab_class sz)"
  using class_block [of sz] by (simp add: same_room_def)

lemma same_class_room:
  assumes "0 < n" "n \<le> 128" "0 < m" "m \<le> 128" "size_to_slab_class n = size_to_slab_class m"
  shows "same_room n m"
  using class_block [OF assms(1,2)] class_block [OF assms(3,4)] assms by (simp add: same_room_def)

lemma same_room_sym: "same_room n m \<Longrightarrow> same_room m n"
  by (simp add: same_room_def)

section \<open>The cache of the thread\<close>

lemma cached_in_upd:
  assumes "length bins = 8" "sc < 8"
  shows "cached_in (bins[sc := ps]) + mset (map (\<lambda>p. (p, g_slab_sizes ! sc)) (bins ! sc)) = cached_in bins + mset (map (\<lambda>p. (p, g_slab_sizes ! sc)) ps)"
proof -
  let ?f = "\<lambda>bins i. mset (map (\<lambda>p. (p, g_slab_sizes ! i)) (bins ! i))"
  have "cached_in (bins[sc := ps]) = ?f (bins[sc := ps]) sc + sum (?f (bins[sc := ps])) ({..<8} - {sc})" unfolding cached_in_def using assms by (intro sum.remove) simp_all
  moreover have "sum (?f (bins[sc := ps])) ({..<8} - {sc}) = sum (?f bins) ({..<8} - {sc})" by (intro sum.cong) auto
  moreover have "cached_in bins = ?f bins sc + sum (?f bins) ({..<8} - {sc})" unfolding cached_in_def using assms by (intro sum.remove) simp_all
  ultimately show ?thesis using assms by (simp add: ac_simps)
qed

lemma tcache_get_ok:
  assumes "tcache_get e = (ok, e')" "tcache_ok e"
  shows "tcache_ok e'" "cached e' = cached e" "en_regions e' = en_regions e" "en_mem e' = en_mem e" "ok \<Longrightarrow> \<exists>bins. en_tcache e' = Some bins \<and> length bins = 8"
proof -
  have none: "cached_in (replicate 8 []) = {#}" by (simp add: cached_in_def)
  show "tcache_ok e'" "cached e' = cached e" "en_regions e' = en_regions e" "en_mem e' = en_mem e" "ok \<Longrightarrow> \<exists>bins. en_tcache e' = Some bins \<and> length bins = 8"
    using assms none by (auto simp: tcache_get_def do_alloc_def tcache_ok_def cached_def ARENA_SLAB_SIZES_def split: prod.splits option.splits if_splits)
qed

lemma tcache_put_ok:
  assumes "tcache_ok e" "en_tcache e \<noteq> None" "sc < 8" "length (tcache_bins e ! sc) < ARENA_TCACHE_DEPTH"
  shows "tcache_ok (tcache_put p sc e)" "cached (tcache_put p sc e) = add_mset (p, g_slab_sizes ! sc) (cached e)"
    "en_regions (tcache_put p sc e) = en_regions e" "en_mem (tcache_put p sc e) = en_mem e"
proof -
  obtain bins where b: "en_tcache e = Some bins" "length bins = 8" using assms(1,2) by (auto simp: tcache_ok_def)
  have "tcache_put p sc e = e\<lparr>en_tcache := Some (bins[sc := p # bins ! sc])\<rparr>"
    using assms(3,4) b by (simp add: tcache_put_def tcache_get_def tcache_bins_def ARENA_SLAB_SIZES_def)
  then show "tcache_ok (tcache_put p sc e)" "cached (tcache_put p sc e) = add_mset (p, g_slab_sizes ! sc) (cached e)"
    "en_regions (tcache_put p sc e) = en_regions e" "en_mem (tcache_put p sc e) = en_mem e"
    using b cached_in_upd [OF b(2) assms(3), of "p # bins ! sc"] by (simp_all add: tcache_ok_def cached_def)
qed

lemma tcache_try_get_ok:
  assumes "tcache_try_get sc e = (p, e')" "tcache_ok e" "sc < 8"
  shows "tcache_ok e'" "en_regions e' = en_regions e" "en_mem e' = en_mem e" "cached e = cached e' \<and> p = 0 \<or> cached e = add_mset (p, g_slab_sizes ! sc) (cached e')"
proof -
  obtain ok e1 where g: "tcache_get e = (ok, e1)" by (cases "tcache_get e")
  note o = tcache_get_ok [OF g assms(2)]
  have "tcache_ok e' \<and> en_regions e' = en_regions e \<and> en_mem e' = en_mem e \<and> (cached e = cached e' \<and> p = 0 \<or> cached e = add_mset (p, g_slab_sizes ! sc) (cached e'))"
  proof (cases ok)
    case False
    then show ?thesis using assms(1) g o by (simp add: tcache_try_get_def)
  next
    case True
    then obtain bins where b: "en_tcache e1 = Some bins" "length bins = 8" using o(5) by blast
    show ?thesis
    proof (cases "bins ! sc")
      case Nil
      then show ?thesis using assms(1,3) g o b True by (simp add: tcache_try_get_def tcache_bins_def ARENA_SLAB_SIZES_def)
    next
      case (Cons q qs)
      then have "p = q \<and> e' = e1\<lparr>en_tcache := Some (bins[sc := qs])\<rparr>" using assms(1,3) g b True by (simp add: tcache_try_get_def tcache_bins_def ARENA_SLAB_SIZES_def)
      then show ?thesis using o b Cons cached_in_upd [OF b(2) assms(3), of qs] by (simp add: tcache_ok_def cached_def)
    qed
  qed
  then show "tcache_ok e'" "en_regions e' = en_regions e" "en_mem e' = en_mem e" "cached e = cached e' \<and> p = 0 \<or> cached e = add_mset (p, g_slab_sizes ! sc) (cached e')" by blast+
qed

section \<open>Allocation\<close>

text \<open>The outcome of an allocation: a block more, or none, and the memory as it was.\<close>

definition serves :: "nat \<Rightarrow> (nat \<times> nat) multiset \<Rightarrow> (nat \<Rightarrow> u8) \<Rightarrow> nat \<times> arena \<times> arena_env \<Rightarrow> bool" where
  "serves sz L m r = (case r of (p, a, e) \<Rightarrow> arena_ok a e (if p = 0 then L else add_mset (p, sz) L) \<and> en_mem e = m)"

lemma arena_ok_same:
  assumes "arena_ok a e L" "ar_warm a' = ar_warm a" "ar_cold a' = ar_cold a" "ar_deferred a' = ar_deferred a"
  shows "arena_ok a' e L"
  using assms by (simp add: arena_ok_def deferred_def)

lemma arena_ok_count [simp]: "arena_ok (count_alloc sz a) e L \<longleftrightarrow> arena_ok a e L"
  by (simp add: count_alloc_def arena_ok_def deferred_def)

lemma arena_ok_tune [simp]: "arena_ok (tune sz a) e L \<longleftrightarrow> arena_ok a e L"
  by (simp add: tune_def arena_ok_def deferred_def tuner_adapt_def Let_def)

lemma cold_in_list: "Some s \<in> set (css ! j) \<Longrightarrow> j < length css \<Longrightarrow> \<exists>i. cold_at css (j, i) = Some s"
  by (auto simp: cold_at_def in_set_conv_nth)

lemma cold_alloc_ok:
  assumes ok: "arena_ok a e L" and sc: "sc < 8" and sz: "0 < sz" "sz \<le> 4096" and r: "cold_alloc sc sz a = (p, a')"
  shows "arena_ok a' e (if p = 0 then L else add_mset (p, sz) L)"
proof -
  note b = arena_okD(4) [OF ok] and len = arena_okD(2) [OF ok]
  have so: "seg_ok s" if "Some s \<in> set (ar_cold a ! sc)" for s
    using cold_in_list [OF that] sc len cold_okD(2) [OF blocks_okD(1) [OF b]] by auto
  consider "segs_alloc (ar_cold a ! sc) sz = (0, ar_cold a ! sc)"
    | i s s' q where "i < length (ar_cold a ! sc)" "ar_cold a ! sc ! i = Some s" "seg_alloc s sz = (q, s')" "q \<noteq> 0" "segs_alloc (ar_cold a ! sc) sz = (q, (ar_cold a ! sc)[i := Some s'])"
    using segs_alloc_cases [OF so sz(1)] by blast
  then show ?thesis
  proof cases
    case 1
    then have "p = 0 \<and> a' = a" using r by (auto simp: cold_alloc_def Let_def)
    then show ?thesis using ok by simp
  next
    case (2 i s s' q)
    have at: "cold_at (ar_cold a) (sc, i) = Some s" using 2(1,2) sc len by (simp add: cold_at_def)
    have "blocks_ok (cold_upd (ar_cold a) (sc, i) s') (en_regions e) (add_mset (q, sz) (L + cached e + deferred a))"
      by (rule blocks_seg_alloc [OF b at 2(3,4) sz])
    moreover have "p = q" "a' = count_alloc sz (a\<lparr>ar_cold := cold_upd (ar_cold a) (sc, i) s'\<rparr>)"
      using r 2(4,5) by (auto simp: cold_alloc_def cold_upd_def Let_def)
    ultimately show ?thesis using 2(4) ok by (simp add: arena_ok_def deferred_def count_alloc_def)
  qed
qed

lemma arena_ok_grown: "arena_ok a e L \<Longrightarrow> grown e e' \<Longrightarrow> arena_ok a e' L"
  unfolding arena_ok_def grown_def cached_def tcache_ok_def using blocks_grow by auto

lemma warm_alloc_ok:
  assumes "mmap_ok mm" "arena_ok a e L" "sc < 8"
  shows "\<exists>a' e'. warm_alloc mm sc sz a e = (0, a', e') \<and> arena_ok a' e' L \<and> grown e e'"
proof -
  have w: "length (ar_warm a) = 8" "\<forall>w \<in> set (ar_warm a). set_idle w" using arena_okD(1) [OF assms(2)] by (simp_all add: warm_idle_def)
  then have "set_idle (ar_warm a ! sc)" using assms(3) by simp
  then obtain w' e' where s: "slab_set_alloc mm (ar_warm a ! sc) sc e = (0, w', e')" "set_idle w'" "grown e e'"
    using idle_set_alloc [OF _ assms(1) arena_okD(5) [OF assms(2)] assms(3)] by blast
  have "warm_idle ((ar_warm a)[sc := w'])" using w s(2) set_update_subset_insert [of "ar_warm a" sc w'] by (auto simp: warm_idle_def)
  then have "arena_ok (a\<lparr>ar_warm := (ar_warm a)[sc := w']\<rparr>) e' L" using arena_ok_grown [OF assms(2) s(3)] by (simp add: arena_ok_def deferred_def)
  then show ?thesis using s by (simp add: warm_alloc_def)
qed

lemma large_alloc_ok:
  assumes "mmap_ok mm" "arena_ok a e L" "0 < sz"
  shows "serves sz L (en_mem e) (large_alloc mm sz a e)"
proof (cases "mm False (en_regions e) sz")
  case None
  then show ?thesis using assms(2) by (simp add: large_alloc_def sys_alloc_def do_mmap_def serves_def)
next
  case (Some p)
  let ?rs = "(p, page_round sz) # en_regions e"
  note b = arena_okD(4) [OF assms(2)]
  have p: "0 < p" "regions_ok ?rs" using assms Some page_round_pos [OF assms(3)] arena_okD(5) [OF assms(2)] unfolding mmap_ok_def by simp_all
  define e1 where "e1 = e\<lparr>en_regions := ?rs\<rparr>"
  define e2 where "e2 = sys_alloc_track p sz e1"
  have e2: "en_regions e2 = ?rs" "en_tcache e2 = en_tcache e" "en_mem e2 = en_mem e" by (auto simp: e2_def e1_def sys_alloc_track_def do_alloc_def split: prod.splits)
  have "blocks_ok (ar_cold a) ?rs (add_mset (p, sz) (L + cached e + deferred a))" by (rule blocks_sys_alloc [OF b p(2) assms(3)])
  then have "arena_ok a e2 (add_mset (p, sz) L)" using assms(2) e2(1,2) by (simp add: arena_ok_def cached_def tcache_ok_def)
  moreover have "large_alloc mm sz a e = (p, count_alloc sz a, e2)" using Some p(1) by (simp add: large_alloc_def sys_alloc_def do_mmap_def e2_def e1_def)
  ultimately show ?thesis using p(1) e2(3) by (simp add: serves_def)
qed

lemma class_lt: "size_to_slab_class sz < 8"
  by (simp add: size_to_slab_class_def ARENA_SLAB_SIZES_def Let_def)

lemma medium_alloc_ok:
  assumes "mmap_ok mm" "arena_ok a e L" "0 < sz"
  shows "serves sz L (en_mem e) (medium_alloc mm sz a e)"
proof (cases "sz \<le> 4096")
  case True
  obtain p a' where c: "cold_alloc (size_to_slab_class (if sz > 128 then 128 else sz)) sz a = (p, a')" by (cases "cold_alloc (size_to_slab_class (if sz > 128 then 128 else sz)) sz a")
  note ok = cold_alloc_ok [OF assms(2) class_lt assms(3) True c]
  show ?thesis
  proof (cases "p = 0")
    case z: True
    then show ?thesis using large_alloc_ok [OF assms(1) _ assms(3), of a' e L] ok True c unfolding medium_alloc_def by simp
  next
    case False
    then show ?thesis using ok True c unfolding medium_alloc_def serves_def by simp
  qed
next
  case False
  then show ?thesis using large_alloc_ok [OF assms] by (simp add: medium_alloc_def)
qed

lemma small_alloc_ok:
  assumes "mmap_ok mm" "arena_ok a e L" "0 < sz" "sz \<le> 128"
  shows "serves sz L (en_mem e) (small_alloc mm sz a e)"
proof -
  let ?sc = "size_to_slab_class sz"
  obtain q e1 where g: "(if ar_enable_thread_cache a then tcache_try_get ?sc e else (0, e)) = (q, e1)"
    by (cases "if ar_enable_thread_cache a then tcache_try_get ?sc e else (0, e)")
  have t: "tcache_ok e1" "en_regions e1 = en_regions e" "en_mem e1 = en_mem e"
    "cached e = cached e1 \<and> q = 0 \<or> cached e = add_mset (q, g_slab_sizes ! ?sc) (cached e1)"
    using tcache_try_get_ok [of ?sc e q e1] arena_okD(3) [OF assms(2)] class_lt g by (auto split: if_splits)
  show ?thesis
  proof (cases "q = 0")
    case False
    then have "arena_ok a e1 (add_mset (q, g_slab_sizes ! ?sc) L)" using assms(2) t by (simp add: arena_ok_def)
    then have "arena_ok a e1 (add_mset (q, sz) L)" by (rule arena_ok_resize [OF _ same_room_sym [OF class_room [OF assms(3,4)]]])
    then show ?thesis using False g t(3) unfolding small_alloc_def serves_def by simp
  next
    case True
    have "cached e1 \<subseteq># cached e" using t(4) by auto
    then have "arena_ok a e1 L" using assms(2) t(1,2) unfolding arena_ok_def by (metis blocks_ok_sub subset_mset.add_mono subset_mset.order_refl)
    then obtain a2 e2 where w: "warm_alloc mm ?sc sz a e1 = (0, a2, e2)" "arena_ok a2 e2 L" "grown e1 e2" using warm_alloc_ok [OF assms(1) _ class_lt] by blast
    have m: "en_mem e2 = en_mem e" using w(3) t(3) by (simp add: grown_def)
    obtain p a3 where c: "cold_alloc ?sc sz a2 = (p, a3)" by (cases "cold_alloc ?sc sz a2")
    have ok3: "arena_ok a3 e2 (if p = 0 then L else add_mset (p, sz) L)" by (rule cold_alloc_ok [OF w(2) class_lt assms(3) _ c]) (use assms(4) in simp)
    show ?thesis
    proof (cases "p = 0")
      case z: True
      then show ?thesis using medium_alloc_ok [OF assms(1) _ assms(3), of a3 e2 L] ok3 g True w(1) c m unfolding small_alloc_def by simp
    next
      case nz: False
      then show ?thesis using ok3 g True w(1) c m unfolding small_alloc_def serves_def by simp
    qed
  qed
qed

lemma arena_alloc_ok:
  assumes "mmap_ok mm" "arena_ok a e L"
  shows "serves sz L (en_mem e) (arena_alloc mm sz a e)"
  using assms small_alloc_ok [OF assms(1), of "tune sz a" e L sz] medium_alloc_ok [OF assms(1), of "tune sz a" e L sz]
  by (cases "sz = 0") (simp_all add: arena_alloc_def serves_def Let_def)

section \<open>Release\<close>

lemma cold_free_cases:
  "(\<exists>ji seg seg'. cold_at css ji = Some seg \<and> seg_free seg p sz = (True, seg') \<and> cold_free css p sz = (True, cold_upd css ji seg')) \<or>
    (\<forall>ji seg. cold_at css ji = Some seg \<longrightarrow> \<not> fst (seg_free seg p sz)) \<and> cold_free css p sz = (False, css)"
proof (induction css)
  case Nil
  then show ?case by (simp add: cold_at_def split: prod.splits)
next
  case (Cons segs css)
  have at: "cold_at (segs # css) (Suc j, i) = cold_at css (j, i)" "cold_upd (segs # css) (Suc j, i) s = segs # cold_upd css (j, i) s" for j i s by (simp_all add: cold_at_def cold_upd_def)
  consider i seg seg' where "i < length segs" "segs ! i = Some seg" "seg_free seg p sz = (True, seg')" "segs_free segs p sz = (True, segs[i := Some seg'])"
    | "\<And>seg. Some seg \<in> set segs \<Longrightarrow> \<not> fst (seg_free seg p sz)" "segs_free segs p sz = (False, segs)"
    using segs_free_cases [of segs p sz] by blast
  then show ?case
  proof cases
    case (1 i seg seg')
    then show ?thesis by (intro disjI1 exI [of _ "(0, i)"] exI [of _ seg] exI [of _ seg']) (simp add: cold_at_def cold_upd_def)
  next
    case 2
    show ?thesis using Cons.IH
    proof
      assume "\<exists>ji seg seg'. cold_at css ji = Some seg \<and> seg_free seg p sz = (True, seg') \<and> cold_free css p sz = (True, cold_upd css ji seg')"
      then obtain j i seg seg' where "cold_at css (j, i) = Some seg" "seg_free seg p sz = (True, seg')" "cold_free css p sz = (True, cold_upd css (j, i) seg')" by auto
      then show ?thesis using 2(2) by (intro disjI1 exI [of _ "(Suc j, i)"] exI [of _ seg] exI [of _ seg']) (simp add: at)
    next
      assume ih: "(\<forall>ji seg. cold_at css ji = Some seg \<longrightarrow> \<not> fst (seg_free seg p sz)) \<and> cold_free css p sz = (False, css)"
      have "\<not> fst (seg_free seg p sz)" if "cold_at (segs # css) ji = Some seg" for ji seg
      proof (cases ji)
        case (Pair j i)
        show ?thesis
        proof (cases j)
          case 0
          then have "i < length segs" "segs ! i = Some seg" using that Pair by (simp_all add: cold_at_def split: if_splits)
          then show ?thesis using 2(1) by (metis nth_mem)
        next
          case (Suc k)
          then show ?thesis using that Pair at(1) ih by simp
        qed
      qed
      then show ?thesis using ih 2(2) by simp
    qed
  qed
qed

lemma sys_free_ok:
  "en_regions (sys_free p sz e) = (if p = 0 then en_regions e else filter (\<lambda>r. r \<noteq> (p, page_round sz)) (en_regions e))" "en_tcache (sys_free p sz e) = en_tcache e" "en_mem (sys_free p sz e) = en_mem e"
  by (simp_all add: sys_free_def sys_alloc_untrack_def do_munmap_def Let_def)

lemma medium_free_ok:
  assumes ok: "arena_ok a e (add_mset (p, sz) L)" and r: "medium_free p sz a e = (a', e')" and p: "p \<noteq> 0"
  shows "arena_ok a' e' L" "en_mem e' = en_mem e"
proof -
  let ?B = "L + cached e + deferred a"
  have b: "blocks_ok (ar_cold a) (en_regions e) (add_mset (p, sz) ?B)" using arena_okD(4) [OF ok] by simp
  have sys: "arena_ok a (sys_free p sz e) L" if "4096 < sz \<or> (\<forall>ji s. cold_at (ar_cold a) ji = Some s \<longrightarrow> \<not> fst (seg_free s p sz))"
    using blocks_sys_free [OF b that] ok p by (simp add: arena_ok_def sys_free_ok cached_def tcache_ok_def)
  have same: "a\<lparr>ar_cold := ar_cold a\<rparr> = a" by simp
  have "arena_ok a' e' L \<and> en_mem e' = en_mem e"
  proof (cases "sz \<le> 4096")
    case True
    show ?thesis using cold_free_cases [of "ar_cold a" p sz]
    proof (elim disjE exE conjE)
      fix ji seg seg'
      assume s: "cold_at (ar_cold a) ji = Some seg" "seg_free seg p sz = (True, seg')" "cold_free (ar_cold a) p sz = (True, cold_upd (ar_cold a) ji seg')"
      have "blocks_ok (cold_upd (ar_cold a) ji seg') (en_regions e) ?B" by (rule blocks_seg_free [OF b s(1,2)])
      then show ?thesis using r True s(3) ok by (auto simp: medium_free_def arena_ok_def deferred_def)
    next
      assume n: "\<forall>ji seg. cold_at (ar_cold a) ji = Some seg \<longrightarrow> \<not> fst (seg_free seg p sz)" "cold_free (ar_cold a) p sz = (False, ar_cold a)"
      then have "a' = a \<and> e' = sys_free p sz e" using r True by (simp add: medium_free_def)
      then show ?thesis using sys [OF disjI2 [OF n(1)]] sys_free_ok(3) by simp
    qed
  next
    case False
    then have "a' = a \<and> e' = sys_free p sz e" using r by (simp add: medium_free_def)
    then show ?thesis using sys False sys_free_ok(3) by simp
  qed
  then show "arena_ok a' e' L" "en_mem e' = en_mem e" by blast+
qed

lemma warm_free_idle: "warm_idle (ar_warm a) \<Longrightarrow> (\<And>s. s \<in> set ss \<Longrightarrow> s < 8) \<Longrightarrow> warm_free ss p a = (False, a)"
proof (induction ss)
  case (Cons s ss)
  then have "slab_set_free (ar_warm a ! s) p = (False, ar_warm a ! s)" by (intro idle_set_free) (simp add: warm_idle_def)
  then show ?case using Cons by simp
qed simp

lemma arena_free_ok:
  assumes ok: "arena_ok a e (add_mset (p, sz) L)" and r: "arena_free p sz a e = (a', e')"
  shows "arena_ok a' e' L" "en_mem e' = en_mem e"
proof -
  have sz: "0 < sz" using blocks_okD(2) [OF arena_okD(4) [OF ok], of "(p, sz)"] by (simp add: placed_def)
  have "arena_ok a' e' L \<and> en_mem e' = en_mem e"
  proof (cases "p = 0")
    case True
    then show ?thesis using r arena_ok_sub [OF ok] by (simp add: arena_free_def)
  next
    case p: False
    show ?thesis
    proof (cases "sz \<le> 128")
      case False
      then show ?thesis using medium_free_ok [OF ok _ p] r p by (simp add: arena_free_def)
    next
      case small: True
      let ?sc = "size_to_slab_class sz"
      obtain t e1 where g: "(if ar_enable_thread_cache a then tcache_get e else (False, e)) = (t, e1)" by (cases "if ar_enable_thread_cache a then tcache_get e else (False, e)")
      have e1: "tcache_ok e1" "cached e1 = cached e" "en_regions e1 = en_regions e" "en_mem e1 = en_mem e" "t \<Longrightarrow> en_tcache e1 \<noteq> None"
        using g tcache_get_ok [of e t e1] arena_okD(3) [OF ok] by (auto split: if_splits)
      have ok1: "arena_ok a e1 (add_mset (p, sz) L)" using ok e1 by (simp add: arena_ok_def)
      show ?thesis
      proof (cases "t \<and> length (tcache_bins e1 ! ?sc) < ARENA_TCACHE_DEPTH")
        case True
        have r': "a' = a" "e' = tcache_put p ?sc e1" using r p small g True unfolding arena_free_def by simp_all
        have "arena_ok a e1 (add_mset (p, g_slab_sizes ! ?sc) L)" by (rule arena_ok_resize [OF ok1 class_room [OF sz small]])
        then show ?thesis using tcache_put_ok [OF e1(1) e1(5) class_lt, of sz p] True e1(4) r' by (simp add: arena_ok_def)
      next
        case False
        have "warm_free (?sc # filter (\<lambda>s. s \<noteq> ?sc) [0..<ARENA_SLAB_SIZES]) p a = (False, a)"
          using arena_okD(1) [OF ok] class_lt [of sz] by (intro warm_free_idle) (auto simp: ARENA_SLAB_SIZES_def)
        then have "medium_free p sz a e1 = (a', e')" using r p small g False unfolding arena_free_def by (simp del: warm_free.simps)
        then show ?thesis using medium_free_ok [OF ok1 _ p] e1(4) by simp
      qed
    qed
  qed
  then show "arena_ok a' e' L" "en_mem e' = en_mem e" by blast+
qed

section \<open>The other operations\<close>

lemma do_memcpy_env [simp]: "en_regions (do_memcpy q p n e) = en_regions e" "en_tcache (do_memcpy q p n e) = en_tcache e"
  by (simp_all add: do_memcpy_def)

lemma arena_ok_env: "arena_ok a e L \<Longrightarrow> en_regions e' = en_regions e \<Longrightarrow> en_tcache e' = en_tcache e \<Longrightarrow> arena_ok a e' L"
  by (simp add: arena_ok_def cached_def tcache_ok_def)

text \<open>The blocks of the program after a call of \<open>arena_realloc\<close> that returned \<open>q\<close>.\<close>

definition after_realloc :: "nat \<Rightarrow> nat \<Rightarrow> nat \<Rightarrow> nat \<Rightarrow> (nat \<times> nat) multiset \<Rightarrow> (nat \<times> nat) multiset" where
  "after_realloc p old_size new_size q L =
     (if new_size = 0 then L - {#(p, old_size)#} else if q = 0 then L
      else add_mset (q, new_size) (if p = 0 then L else L - {#(p, old_size)#}))"

lemma arena_ok_pos: "arena_ok a e L \<Longrightarrow> (p, sz) \<in># L \<Longrightarrow> 0 < sz"
  using blocks_okD(2) [OF arena_okD(4), of a e L "(p, sz)"] by (simp add: placed_def)

lemma arena_ok_disjoint:
  assumes "arena_ok a e (add_mset b L)" "c \<in># L"
  shows "foot b \<inter> foot c = {}"
proof (rule cover_disjoint)
  show "\<forall>x. cover (add_mset b (L + cached e + deferred a)) x \<le> 1" using blocks_okD(3) [OF arena_okD(4) [OF assms(1)]] by simp
qed (use assms(2) in simp)

lemma arena_realloc_ok:
  assumes mm: "mmap_ok mm" and ok: "arena_ok a e L" and p: "p = 0 \<or> (p, old) \<in># L" and r: "arena_realloc mm p old new a e = (q, a', e')"
  shows "arena_ok a' e' (after_realloc p old new q L)"
    "p \<noteq> 0 \<and> new \<noteq> 0 \<and> q \<noteq> 0 \<and> q \<noteq> p \<Longrightarrow> en_mem e' = (\<lambda>x. if q \<le> x \<and> x < q + min old new then en_mem e (p + (x - q)) else en_mem e x)"
    "q = p \<or> q = 0 \<Longrightarrow> en_mem e' = en_mem e"
proof -
  have "arena_ok a' e' (after_realloc p old new q L) \<and>
    (p \<noteq> 0 \<and> new \<noteq> 0 \<and> q \<noteq> 0 \<and> q \<noteq> p \<longrightarrow> en_mem e' = (\<lambda>x. if q \<le> x \<and> x < q + min old new then en_mem e (p + (x - q)) else en_mem e x)) \<and>
    (q = p \<or> q = 0 \<longrightarrow> en_mem e' = en_mem e)"
  proof (cases "new = 0")
    case True
    then have f: "arena_free p old a e = (a', e')" "q = 0" using r by (auto simp: arena_realloc_def split: prod.splits)
    show ?thesis
    proof (cases "p = 0")
      case z: True
      then have "a' = a \<and> e' = e" using f by (simp add: arena_free_def)
      then show ?thesis using True f(2) ok arena_ok_sub [OF ok, of "L - {#(p, old)#}"] by (simp add: after_realloc_def)
    next
      case False
      then have "L = add_mset (p, old) (L - {#(p, old)#})" using p by simp
      then have "arena_ok a e (add_mset (p, old) (L - {#(p, old)#}))" using ok by metis
      then show ?thesis using arena_free_ok [OF _ f(1), of "L - {#(p, old)#}"] True f(2) by (simp add: after_realloc_def)
    qed
  next
    case new: False
    obtain q1 a1 e1 where al: "arena_alloc mm new a e = (q1, a1, e1)" by (cases "arena_alloc mm new a e")
    have ok1: "arena_ok a1 e1 (if q1 = 0 then L else add_mset (q1, new) L)" "en_mem e1 = en_mem e"
      using arena_alloc_ok [OF mm ok, of new] al by (simp_all add: serves_def)
    show ?thesis
    proof (cases "p = 0")
      case True
      then show ?thesis using r new al ok1 by (auto simp: arena_realloc_def after_realloc_def)
    next
      case np: False
      then have pl: "(p, old) \<in># L" using p by simp
      then have L: "L = add_mset (p, old) (L - {#(p, old)#})" by simp
      show ?thesis
      proof (cases "old \<le> 128 \<and> new \<le> 128 \<and> size_to_slab_class old = size_to_slab_class new")
        case True
        then have q: "q = p" "a' = a" "e' = e" using r new np by (simp_all add: arena_realloc_def)
        have "same_room old new" using True new arena_ok_pos [OF ok pl] by (intro same_class_room) simp_all
        moreover have "arena_ok a e (add_mset (p, old) (L - {#(p, old)#}))" using ok L by simp
        ultimately show ?thesis using arena_ok_resize q new np by (simp add: after_realloc_def)
      next
        case False
        show ?thesis
        proof (cases "q1 = 0")
          case True
          then show ?thesis using r new np False al ok1 by (auto simp: arena_realloc_def after_realloc_def)
        next
          case nq: False
          define e2 where "e2 = do_memcpy q1 p (if old < new then old else new) e1"
          have f: "arena_free p old a1 e2 = (a', e')" "q = q1" using r new np False al nq by (auto simp: arena_realloc_def e2_def split: prod.splits)
          have eq: "add_mset (q1, new) L = add_mset (p, old) (add_mset (q1, new) (L - {#(p, old)#}))" by (simp only: add_mset_commute [of "(p, old)"] insert_DiffM [OF pl])
          have "arena_ok a1 e1 (add_mset (q1, new) L)" using ok1(1) nq by simp
          then have "arena_ok a1 e2 (add_mset (p, old) (add_mset (q1, new) (L - {#(p, old)#})))"
            by (intro arena_ok_env [OF iffD1 [OF arg_cong [OF eq, of "arena_ok a1 e1"]]]) (simp_all add: e2_def)
          note fo = arena_free_ok [OF this f(1)]
          have "q1 \<noteq> p"
          proof
            assume "q1 = p"
            then have "foot (p, new) \<inter> foot (p, old) = {}" using arena_ok_disjoint [OF _ pl] ok1(1) np by simp
            then show False using foot_pos [of new p] foot_pos [OF arena_ok_pos [OF ok pl], of p] new by auto
          qed
          then show ?thesis using fo f(2) nq np new ok1(2) by (auto simp: after_realloc_def e2_def do_memcpy_def min_def fun_eq_iff)
        qed
      qed
    qed
  qed
  then show "arena_ok a' e' (after_realloc p old new q L)"
    "p \<noteq> 0 \<and> new \<noteq> 0 \<and> q \<noteq> 0 \<and> q \<noteq> p \<Longrightarrow> en_mem e' = (\<lambda>x. if q \<le> x \<and> x < q + min old new then en_mem e (p + (x - q)) else en_mem e x)"
    "q = p \<or> q = 0 \<Longrightarrow> en_mem e' = en_mem e" by blast+
qed

lemma arena_free_deferred_ok:
  assumes ok: "arena_ok a e (add_mset (p, sz) L)" and r: "arena_free_deferred p sz a e = (a', e')"
  shows "arena_ok a' e' L" "en_mem e' = en_mem e"
proof -
  have sub: "arena_ok a e L" using arena_ok_sub [OF ok] by simp
  have "arena_ok a' e' L \<and> en_mem e' = en_mem e"
  proof (cases "p = 0")
    case True
    then show ?thesis using r sub by (simp add: arena_free_deferred_def)
  next
    case False
    show ?thesis
    proof (cases "\<exists>d. ar_deferred a = Some d \<and> length d < ARENA_DEFERRED_BATCH")
      case True
      then obtain d where "ar_deferred a = Some d" "length d < ARENA_DEFERRED_BATCH" by blast
      then show ?thesis using r False ok by (auto simp: arena_free_deferred_def arena_ok_def deferred_def)
    next
      case n: False
      then have "arena_free p sz a e = (a', e')" using r False by (auto simp: arena_free_deferred_def split: option.splits)
      then show ?thesis using arena_free_ok [OF ok] by blast
    qed
  qed
  then show "arena_ok a' e' L" "en_mem e' = en_mem e" by blast+
qed

lemma free_all_ok:
  "arena_ok a e (mset d + L) \<Longrightarrow> fold (\<lambda>(p, sz) (a, e). arena_free p sz a e) d (a, e) = (a', e') \<Longrightarrow> arena_ok a' e' L \<and> en_mem e' = en_mem e"
proof (induction d arbitrary: a e)
  case (Cons b d)
  obtain p sz where b: "b = (p, sz)" by (cases b)
  obtain a1 e1 where f: "arena_free p sz a e = (a1, e1)" by (cases "arena_free p sz a e")
  have "arena_ok a1 e1 (mset d + L)" "en_mem e1 = en_mem e" using arena_free_ok [OF _ f, of "mset d + L"] Cons.prems(1) b by simp_all
  then show ?case using Cons.IH [of a1 e1] Cons.prems(2) b f by simp
qed simp

lemma arena_flush_deferred_ok:
  assumes ok: "arena_ok a e L" and r: "arena_flush_deferred a e = (a', e')"
  shows "arena_ok a' e' L \<and> en_mem e' = en_mem e"
proof (cases "ar_deferred a")
  case None
  then show ?thesis using ok r by (simp add: arena_flush_deferred_def)
next
  case (Some d)
  then have "arena_ok (a\<lparr>ar_deferred := Some []\<rparr>) e (mset d + L)" using ok by (simp add: arena_ok_def deferred_def ac_simps)
  then show ?thesis using free_all_ok r Some by (simp add: arena_flush_deferred_def)
qed

lemma arena_compact_ok: "arena_ok a e L \<Longrightarrow> arena_ok (arena_compact freq a) e L"
  using blocks_map [of "ar_cold a" "en_regions e" "L + cached e + deferred a" "gc_mark (ar_global_epoch a + 1) (ar_compact_trigger a)"]
  by (simp add: arena_compact_def epoch_gc_start_def arena_ok_def deferred_def gc_mark_def Let_def)

lemma arena_clear_ok:
  assumes "arena_ok a e L" "deferred a = {#}"
  shows "arena_ok (fst (arena_clear a e)) (snd (arena_clear a e)) {#}"
proof -
  have idle: "set_idle (clear_slabs w)" if "set_idle w" for w
    using that by (auto simp: set_idle_def clear_slabs_def slab_idle_def map_option_eq_Some eq_commute [of "Some _"] dest: in_set_takeD in_set_dropD)
  have "cold_ok (map (map (map_option clear_seg)) (ar_cold a)) (en_regions e)"
    by (rule cold_ok_map [OF blocks_okD(1) [OF arena_okD(4) [OF assms(1)]]]) (simp_all add: clear_seg_def seg_ok_def)
  moreover have "cached (tcache_clear e) = {#}" "tcache_ok (tcache_clear e)"
    using arena_okD(3) [OF assms(1)] by (auto simp: cached_def tcache_clear_def tcache_ok_def cached_in_def split: option.splits)
  moreover have "warm_idle (map clear_slabs (ar_warm a))" using arena_okD(1) [OF assms(1)] idle by (simp add: warm_idle_def)
  ultimately show ?thesis using assms arena_okD(2) [OF assms(1)] by (simp add: arena_clear_def arena_ok_def deferred_def tcache_clear_def blocks_none)
qed

end
