(* ===== verification/Arena_Spec.thy ===== *)
theory Arena_Spec
  imports Arena_Ops
begin

text \<open>
  The arena as its clients see it: what \<open>arena_create\<close> builds, the states a program reaches with the operations of the
  arena, the contract of an allocator and the properties of the arena.
\<close>

unbundle bit_operations_syntax

section \<open>Creation\<close>

definition seg_at :: "arena_segment option list \<Rightarrow> nat \<Rightarrow> arena_segment option" where
  "seg_at segs i = (if i < length segs then segs ! i else None)"

lemma seg_at_Cons: "seg_at (s # ss) i = (case i of 0 \<Rightarrow> s | Suc i \<Rightarrow> seg_at ss i)"
  by (simp add: seg_at_def split: nat.splits)

lemma cold_at_Cons: "cold_at (segs # css) (j, i) = (case j of 0 \<Rightarrow> seg_at segs i | Suc j \<Rightarrow> cold_at css (j, i))"
  by (simp add: cold_at_def seg_at_def split: nat.splits)

text \<open>Segments in regions that were mapped between \<open>rs\<close> and \<open>rs'\<close>, one segment in a region.\<close>

definition segs_new :: "('k \<Rightarrow> arena_segment option) \<Rightarrow> (nat \<times> nat) list \<Rightarrow> (nat \<times> nat) list \<Rightarrow> bool" where
  "segs_new pos_at rs rs' \<longleftrightarrow>
     (\<forall>k s. pos_at k = Some s \<longrightarrow> seg_ok s \<and> (sg_base s, ARENA_SEG_SIZE) \<in> set rs' \<and> (sg_base s, ARENA_SEG_SIZE) \<notin> set rs) \<and>
     (\<forall>k l s t. pos_at k = Some s \<longrightarrow> pos_at l = Some t \<longrightarrow> sg_base s = sg_base t \<longrightarrow> k = l)"

lemma segs_newD:
  assumes "segs_new pos_at rs rs'" "pos_at k = Some s"
  shows "seg_ok s" "(sg_base s, ARENA_SEG_SIZE) \<in> set rs'" "(sg_base s, ARENA_SEG_SIZE) \<notin> set rs" "pos_at l = Some t \<Longrightarrow> sg_base s = sg_base t \<Longrightarrow> k = l"
  using assms unfolding segs_new_def by blast+

text \<open>Two groups of segments, the second created after the first: every segment of the union stems from one of them.\<close>

lemma segs_new_join:
  assumes a: "segs_new pos_at1 rs rs1" and b: "segs_new pos_at2 rs1 rs2" and sub: "set rs \<subseteq> set rs1" "set rs1 \<subseteq> set rs2"
    and u: "\<And>k s. pos_at k = Some s \<Longrightarrow> (\<exists>i. pos_at1 i = Some s \<and> k = f i) \<or> (\<exists>i. pos_at2 i = Some s \<and> k = g i)"
  shows "segs_new pos_at rs rs2"
proof -
  have x: "sg_base s \<noteq> sg_base t" if "pos_at1 i = Some s" "pos_at2 j = Some t" for i j s t using segs_newD(2) [OF a that(1)] segs_newD(3) [OF b that(2)] by auto
  have inj1: "i = j" if "pos_at1 i = Some s" "pos_at1 j = Some t" "sg_base s = sg_base t" for i j s t using segs_newD(4) [OF a that(1)] that by blast
  have inj2: "i = j" if "pos_at2 i = Some s" "pos_at2 j = Some t" "sg_base s = sg_base t" for i j s t using segs_newD(4) [OF b that(1)] that by blast
  have in1: "seg_ok s \<and> (sg_base s, ARENA_SEG_SIZE) \<in> set rs2 \<and> (sg_base s, ARENA_SEG_SIZE) \<notin> set rs" if "pos_at1 i = Some s" for i s using segs_newD(1-3) [OF a that] sub by blast
  have in2: "seg_ok s \<and> (sg_base s, ARENA_SEG_SIZE) \<in> set rs2 \<and> (sg_base s, ARENA_SEG_SIZE) \<notin> set rs" if "pos_at2 i = Some s" for i s using segs_newD(1-3) [OF b that] sub by blast
  have "k = l" if k: "pos_at k = Some s" "pos_at l = Some t" "sg_base s = sg_base t" for k l s t
    using u [OF k(1)] u [OF k(2)] x inj1 inj2 k(3) by metis
  then show ?thesis unfolding segs_new_def using u in1 in2 by blast
qed

lemma seg_create_new:
  assumes "mmap_ok mm" "regions_ok (en_regions e)" "seg_create mm freq sc e = (s, e')"
  shows "grown e e'" "segs_new (\<lambda>_ :: unit. s) (en_regions e) (en_regions e')"
proof -
  have len: "0 < ARENA_SEG_SIZE" "page_round ARENA_SEG_SIZE = ARENA_SEG_SIZE" by (simp_all add: ARENA_SEG_SIZE_def page_round_def)
  note g = map_region_grown [OF assms(1,2) len(1)]
  obtain b e1 where m: "map_region mm ARENA_SEG_SIZE e = (b, e1)" by (cases "map_region mm ARENA_SEG_SIZE e")
  have e1: "e' = e1" using assms(3) m by (auto simp: seg_create_def split: option.splits)
  show gr: "grown e e'" using g(1) m e1 by simp
  show "segs_new (\<lambda>_ :: unit. s) (en_regions e) (en_regions e')"
  proof (cases b)
    case None
    then show ?thesis using assms(3) m by (simp add: seg_create_def segs_new_def)
  next
    case (Some base)
    have rs: "en_regions e1 = (base, ARENA_SEG_SIZE) # en_regions e" using g(2) [of base] m Some len(2) by simp
    then have "regions_ok ((base, ARENA_SEG_SIZE) # en_regions e)" using gr e1 by (simp add: grown_def)
    then have "(base, ARENA_SEG_SIZE) \<notin> set (en_regions e)" by (auto simp: apart_def)
    moreover have "\<exists>seg. s = Some seg \<and> sg_base seg = base \<and> seg_ok seg" using assms(3) m Some by (auto simp: seg_create_def seg_ok_def)
    ultimately show ?thesis using rs e1 by (auto simp: segs_new_def)
  qed
qed

lemma do_alloc_env: "do_alloc e = (ok, e') \<Longrightarrow> en_regions e' = en_regions e \<and> en_tcache e' = en_tcache e \<and> en_mem e' = en_mem e"
  by (auto simp: do_alloc_def split: prod.splits)

lemma grown_regions: "grown e e' \<Longrightarrow> regions_ok (en_regions e') \<and> set (en_regions e) \<subseteq> set (en_regions e')"
  by (simp add: grown_def)

lemma segs_new_nil: "(\<And>k. pos_at k = None) \<Longrightarrow> segs_new pos_at rs rs'"
  by (simp add: segs_new_def)

lemma create_segs_new:
  "mmap_ok mm \<Longrightarrow> regions_ok (en_regions e) \<Longrightarrow> create_segs mm sc n e = (ss, e') \<Longrightarrow> grown e e' \<and> segs_new (seg_at ss) (en_regions e) (en_regions e')"
proof (induction n arbitrary: e ss e')
  case 0
  then show ?case by (auto simp: grown_refl seg_at_def intro: segs_new_nil)
next
  case (Suc n)
  obtain s e1 where s: "seg_create mm ARENA_FREQ_COLD sc e = (s, e1)" by (cases "seg_create mm ARENA_FREQ_COLD sc e")
  obtain ss1 e2 where c: "create_segs mm sc n e1 = (ss1, e2)" by (cases "create_segs mm sc n e1")
  have r: "ss = s # ss1" "e' = e2" using Suc.prems(3) s c by simp_all
  note n1 = seg_create_new [OF Suc.prems(1,2) s]
  have n2: "grown e1 e2" "segs_new (seg_at ss1) (en_regions e1) (en_regions e2)" using Suc.IH [OF Suc.prems(1) _ c] grown_regions [OF n1(1)] by blast+
  have "segs_new (seg_at ss) (en_regions e) (en_regions e')" unfolding r
  proof (rule segs_new_join [OF n1(2) n2(2), where f = "\<lambda>_. 0" and g = Suc])
    show "(\<exists>i :: unit. s = Some t \<and> k = 0) \<or> (\<exists>i. seg_at ss1 i = Some t \<and> k = Suc i)" if "seg_at (s # ss1) k = Some t" for k t
      using that by (cases k) (simp_all add: seg_at_Cons)
  qed (use grown_regions [OF n1(1)] grown_regions [OF n2(1)] in blast)+
  then show ?case using grown_trans [OF n1(1) n2(1)] r by blast
qed

lemma create_cold_new:
  "mmap_ok mm \<Longrightarrow> regions_ok (en_regions e) \<Longrightarrow> create_cold mm scs e = (css, e') \<Longrightarrow> grown e e' \<and> segs_new (cold_at css) (en_regions e) (en_regions e')"
proof (induction scs arbitrary: e css e')
  case Nil
  then show ?case by (auto simp: grown_refl cold_at_def intro!: segs_new_nil split: prod.splits)
next
  case (Cons sc scs)
  obtain ok e0 where d: "do_alloc e = (ok, e0)" by (cases "do_alloc e")
  note e0 = do_alloc_env [OF d]
  have g0: "grown e e0" using e0 Cons.prems(2) by (simp add: grown_def)
  show ?case
  proof (cases ok)
    case False
    then have "css = []" "e' = e0" using Cons.prems(3) d by simp_all
    then show ?thesis using g0 by (auto simp: cold_at_def intro!: segs_new_nil split: prod.splits)
  next
    case True
    obtain segs e1 where s: "create_segs mm sc ARENA_COLD_SEGS_PER_CLASS e0 = (segs, e1)" by (cases "create_segs mm sc ARENA_COLD_SEGS_PER_CLASS e0")
    obtain css1 e2 where c: "create_cold mm scs e1 = (css1, e2)" by (cases "create_cold mm scs e1")
    have r: "css = segs # css1" "e' = e2" using Cons.prems(3) d True s c by simp_all
    have n1: "grown e0 e1" "segs_new (seg_at segs) (en_regions e0) (en_regions e1)" using create_segs_new [OF Cons.prems(1) _ s] e0 Cons.prems(2) by simp_all
    have n2: "grown e1 e2" "segs_new (cold_at css1) (en_regions e1) (en_regions e2)" using Cons.IH [OF Cons.prems(1) _ c] grown_regions [OF n1(1)] by blast+
    have "segs_new (cold_at css) (en_regions e0) (en_regions e')" unfolding r
    proof (rule segs_new_join [OF n1(2) n2(2), where f = "\<lambda>i. (0, i)" and g = "\<lambda>(j, i). (Suc j, i)"])
      show "(\<exists>i. seg_at segs i = Some t \<and> k = (0, i)) \<or> (\<exists>i. cold_at css1 i = Some t \<and> k = (case i of (j, i) \<Rightarrow> (Suc j, i)))" if "cold_at (segs # css1) k = Some t" for k t
        using that by (cases k; cases "fst k") (auto simp: cold_at_Cons)
    qed (use grown_regions [OF n1(1)] grown_regions [OF n2(1)] in blast)+
    then show ?thesis using grown_trans [OF g0 grown_trans [OF n1(1) n2(1)]] r e0 by simp
  qed
qed

lemma create_warm_idle: "create_warm n e = (ws, e') \<Longrightarrow> (\<forall>w \<in> set ws. set_idle w) \<and> en_regions e' = en_regions e \<and> en_tcache e' = en_tcache e \<and> en_mem e' = en_mem e"
proof (induction n arbitrary: e ws e')
  case (Suc n)
  obtain ok e1 where d: "do_alloc e = (ok, e1)" by (cases "do_alloc e")
  show ?case
  proof (cases ok)
    case True
    obtain ws1 e2 where c: "create_warm n e1 = (ws1, e2)" by (cases "create_warm n e1")
    show ?thesis using Suc.IH [OF c] Suc.prems d True c do_alloc_env [OF d] by (auto simp: set_idle_def)
  qed (use Suc.prems d do_alloc_env [OF d] in auto)
qed simp

lemma create_warm_length: "create_warm n e = (ws, e') \<Longrightarrow> length ws \<le> n"
  by (induction n arbitrary: e ws e') (auto split: prod.splits if_splits)

lemma create_cold_length: "create_cold mm scs e = (css, e') \<Longrightarrow> length css \<le> length scs"
  by (induction scs arbitrary: e css e') (auto split: prod.splits if_splits)

text \<open>The thread has no block in its cache when the program starts.\<close>

definition fresh_env :: "arena_env \<Rightarrow> bool" where
  "fresh_env e \<longleftrightarrow> regions_ok (en_regions e) \<and> en_tcache e = None"

lemma arena_create_ok:
  assumes mm: "mmap_ok mm" and e: "regions_ok (en_regions e)" "tcache_ok e" "cached e = {#}" and r: "arena_create mm e = (Some a, e')"
  shows "arena_ok a e' {#}" "deferred a = {#}"
proof -
  obtain ok1 e1 where d1: "do_alloc e = (ok1, e1)" by (cases "do_alloc e")
  obtain ws e2 where w: "create_warm ARENA_SLAB_SIZES e1 = (ws, e2)" by (cases "create_warm ARENA_SLAB_SIZES e1")
  obtain css e3 where c: "create_cold mm [0..<ARENA_SLAB_SIZES] e2 = (css, e3)" by (cases "create_cold mm [0..<ARENA_SLAB_SIZES] e2")
  obtain ok4 e4 where d4: "do_alloc e3 = (ok4, e4)" by (cases "do_alloc e3")
  have g: "ok1" "\<not> length ws < ARENA_SLAB_SIZES" "\<not> length css < ARENA_SLAB_SIZES" "ok4" and a: "a = blank_arena\<lparr>ar_warm := ws, ar_cold := css, ar_deferred := Some []\<rparr>" "e' = e4"
    using r d1 w c d4 by (simp_all add: arena_create_def Let_def split: if_splits)
  note en = do_alloc_env [OF d1] create_warm_idle [OF w] do_alloc_env [OF d4]
  have len: "length ws = 8" "length css = 8" using g create_warm_length [OF w] create_cold_length [OF c] by (simp_all add: ARENA_SLAB_SIZES_def)
  have cn: "grown e2 e3" "segs_new (cold_at css) (en_regions e2) (en_regions e3)" using create_cold_new [OF mm _ c] e(1) en by simp_all
  have "cold_ok css (en_regions e')" unfolding cold_ok_def
    using grown_regions [OF cn(1)] segs_newD [OF cn(2)] en(3) a(2) by metis
  then show "arena_ok a e' {#}" "deferred a = {#}"
    using a len en e cn(1) by (simp_all add: arena_ok_def warm_idle_def blocks_none deferred_def cached_def tcache_ok_def grown_def)
qed

section \<open>Programs\<close>

text \<open>
  A step of a program that uses an arena as it should: it releases blocks it holds, with their sizes, and does not clear the
  arena while releases are deferred. It writes only to its blocks.
\<close>

inductive heap_step :: "mmap_fn \<Rightarrow> arena \<times> arena_env \<times> (nat \<times> nat) multiset \<Rightarrow> arena \<times> arena_env \<times> (nat \<times> nat) multiset \<Rightarrow> bool" for mm where
  allocate: "arena_alloc mm sz a e = (p, a', e') \<Longrightarrow> heap_step mm (a, e, L) (a', e', if p = 0 then L else add_mset (p, sz) L)"
| release: "arena_free p sz a e = (a', e') \<Longrightarrow> heap_step mm (a, e, add_mset (p, sz) L) (a', e', L)"
| reallocate: "p = 0 \<or> (p, old) \<in># L \<Longrightarrow> arena_realloc mm p old new a e = (q, a', e') \<Longrightarrow> heap_step mm (a, e, L) (a', e', after_realloc p old new q L)"
| defer_release: "arena_free_deferred p sz a e = (a', e') \<Longrightarrow> heap_step mm (a, e, add_mset (p, sz) L) (a', e', L)"
| flush: "arena_flush_deferred a e = (a', e') \<Longrightarrow> heap_step mm (a, e, L) (a', e', L)"
| compact: "heap_step mm (a, e, L) (arena_compact freq a, e, L)"
| clear: "deferred a = {#} \<Longrightarrow> arena_clear a e = (a', e') \<Longrightarrow> heap_step mm (a, e, L) (a', e', {#})"
| store: "(\<And>x. m x \<noteq> en_mem e x \<Longrightarrow> \<exists>p sz. (p, sz) \<in># L \<and> p \<le> x \<and> x < p + sz) \<Longrightarrow> heap_step mm (a, e, L) (a, e\<lparr>en_mem := m\<rparr>, L)"

inductive heap_reach :: "mmap_fn \<Rightarrow> arena \<times> arena_env \<times> (nat \<times> nat) multiset \<Rightarrow> bool" for mm where
  created: "fresh_env e \<Longrightarrow> arena_create mm e = (Some a, e') \<Longrightarrow> heap_reach mm (a, e', {#})"
| stepped: "heap_reach mm s \<Longrightarrow> heap_step mm s t \<Longrightarrow> heap_reach mm t"

definition state_ok :: "arena \<times> arena_env \<times> (nat \<times> nat) multiset \<Rightarrow> bool" where
  "state_ok s = (case s of (a, e, L) \<Rightarrow> arena_ok a e L)"

lemma heap_step_ok: "heap_step mm s t \<Longrightarrow> mmap_ok mm \<Longrightarrow> state_ok s \<Longrightarrow> state_ok t"
proof (induction rule: heap_step.induct)
  case (allocate sz a e p a' e' L)
  then show ?case using arena_alloc_ok [of mm a e L sz] by (simp add: state_ok_def serves_def)
next
  case (reallocate p old L new a e q a' e')
  then show ?case using arena_realloc_ok(1) by (simp add: state_ok_def)
next
  case (clear a e a' e' L)
  then show ?case using arena_clear_ok [of a e L] by (simp add: state_ok_def)
next
  case (release p sz a e a' e' L)
  then show ?case using arena_free_ok(1) by (simp add: state_ok_def)
next
  case (defer_release p sz a e a' e' L)
  then show ?case using arena_free_deferred_ok(1) by (simp add: state_ok_def)
next
  case (flush a e a' e' L)
  have "arena_ok a e L" using flush(3) by (simp add: state_ok_def)
  then show ?case using arena_flush_deferred_ok [OF _ flush(1)] by (simp add: state_ok_def)
next
  case (compact a e L freq)
  then show ?case using arena_compact_ok by (simp add: state_ok_def)
next
  case (store m e L a)
  then show ?case using arena_ok_env [of a e L] by (simp add: state_ok_def)
qed

lemma fresh_env_ok: "fresh_env e \<Longrightarrow> regions_ok (en_regions e) \<and> tcache_ok e \<and> cached e = {#}"
  by (simp add: fresh_env_def tcache_ok_def cached_def)

lemma heap_reach_ok: "heap_reach mm s \<Longrightarrow> mmap_ok mm \<Longrightarrow> state_ok s"
proof (induction rule: heap_reach.induct)
  case (created e a e')
  have "arena_ok a e' {#}" by (rule arena_create_ok(1) [OF created(3) _ _ _ created(2)]) (use fresh_env_ok [OF created(1)] in blast)+
  then show ?case by (simp add: state_ok_def)
qed (rule heap_step_ok)

lemma reach_arena_ok: "mmap_ok mm \<Longrightarrow> heap_reach mm (a, e, L) \<Longrightarrow> arena_ok a e L"
  using heap_reach_ok [of mm "(a, e, L)"] by (simp add: state_ok_def)

section \<open>The contract of an allocator\<close>

definition bytes_of :: "nat \<times> nat \<Rightarrow> nat set" where
  "bytes_of b = {fst b..<fst b + snd b}"

lemma bytes_foot: "bytes_of b \<subseteq> foot b"
  using slots_bytes(1) [of "snd b"] by (auto simp: bytes_of_def foot_def)

datatype heap_cmd = Get nat | Put nat

text \<open>A program that takes blocks and gives them back, with the list of the blocks it holds.\<close>

fun run_cmds :: "(nat \<Rightarrow> 's \<Rightarrow> nat \<times> 's) \<Rightarrow> (nat \<Rightarrow> nat \<Rightarrow> 's \<Rightarrow> 's) \<Rightarrow> heap_cmd list \<Rightarrow> 's \<Rightarrow> (nat \<times> nat) list \<Rightarrow> 's \<times> (nat \<times> nat) list" where
  "run_cmds get put [] s bs = (s, bs)"
| "run_cmds get put (Get n # cs) s bs = (case get n s of (p, s) \<Rightarrow> run_cmds get put cs s (if p = 0 then bs else (p, n) # bs))"
| "run_cmds get put (Put i # cs) s bs =
     (if i < length bs then run_cmds get put cs (put (fst (bs ! i)) (snd (bs ! i)) s) (take i bs @ drop (Suc i) bs)
      else run_cmds get put cs s bs)"

locale allocator =
  fixes get :: "nat \<Rightarrow> 's \<Rightarrow> nat \<times> 's" and put :: "nat \<Rightarrow> nat \<Rightarrow> 's \<Rightarrow> 's" and valid :: "'s \<Rightarrow> (nat \<times> nat) multiset \<Rightarrow> bool"
  assumes get_valid: "valid s B \<Longrightarrow> get n s = (p, s') \<Longrightarrow> valid s' (if p = 0 then B else add_mset (p, n) B)"
    and put_valid: "valid s (add_mset (p, n) B) \<Longrightarrow> valid (put p n s) B"
    and valid_apart: "valid s (add_mset b (add_mset c B)) \<Longrightarrow> bytes_of b \<inter> bytes_of c = {}"
begin

lemma run_valid: "valid s (mset bs) \<Longrightarrow> run_cmds get put cs s bs = (s', bs') \<Longrightarrow> valid s' (mset bs')"
proof (induction cs arbitrary: s bs)
  case (Cons c cs)
  show ?case
  proof (cases c)
    case (Get n)
    obtain p s1 where g: "get n s = (p, s1)" by (cases "get n s")
    have "valid s1 (mset (if p = 0 then bs else (p, n) # bs))" using get_valid [OF Cons.prems(1) g] by (cases "p = 0") simp_all
    then show ?thesis using Cons.IH Cons.prems(2) Get g by simp
  next
    case (Put i)
    show ?thesis
    proof (cases "i < length bs")
      case True
      have "mset bs = mset (take i bs @ bs ! i # drop (Suc i) bs)" using True by (simp add: id_take_nth_drop [symmetric])
      then have "mset bs = add_mset (fst (bs ! i), snd (bs ! i)) (mset (take i bs @ drop (Suc i) bs))" by simp
      then have "valid (put (fst (bs ! i)) (snd (bs ! i)) s) (mset (take i bs @ drop (Suc i) bs))" using put_valid Cons.prems(1) by simp
      then show ?thesis by (rule Cons.IH) (use Cons.prems(2) Put True in simp)
    qed (use Cons Put in simp)
  qed
qed simp

lemma run_apart:
  assumes "valid s {#}" "run_cmds get put cs s [] = (s', bs)" "i < j" "j < length bs"
  shows "bytes_of (bs ! i) \<inter> bytes_of (bs ! j) = {}"
proof -
  have v: "valid s' (mset bs)" using run_valid [of s "[]" cs s' bs] assms(1,2) by simp
  have "bs ! j \<in> set (drop (Suc i) bs)" using assms(3,4) nth_mem [of "j - Suc i" "drop (Suc i) bs"] by simp
  then obtain xs ys where d: "drop (Suc i) bs = xs @ bs ! j # ys" using split_list by fast
  have "bs = take i bs @ bs ! i # drop (Suc i) bs" using assms(3,4) by (simp add: id_take_nth_drop)
  then have "mset bs = mset (take i bs @ bs ! i # xs @ bs ! j # ys)" using d by metis
  then have "mset bs = add_mset (bs ! i) (add_mset (bs ! j) (mset (take i bs @ xs @ ys)))" by simp
  then show ?thesis using valid_apart v by metis
qed

end

text \<open>The functions of \<^verbatim>\<open>alloc.h\<close> on an arena; a request for 0 bytes is one for 1.\<close>

definition draugr_get :: "nat \<Rightarrow> mmap_fn \<times> arena \<times> arena_env \<Rightarrow> nat \<times> mmap_fn \<times> arena \<times> arena_env" where
  "draugr_get n s = (case s of (mm, a, e) \<Rightarrow> case DRAUGR_ALLOC mm n a e of (p, a, e) \<Rightarrow> (p, mm, a, e))"

definition draugr_put :: "nat \<Rightarrow> nat \<Rightarrow> mmap_fn \<times> arena \<times> arena_env \<Rightarrow> mmap_fn \<times> arena \<times> arena_env" where
  "draugr_put p n s = (case s of (mm, a, e) \<Rightarrow> (mm, DRAUGR_FREE p n a e))"

definition draugr_valid :: "mmap_fn \<times> arena \<times> arena_env \<Rightarrow> (nat \<times> nat) multiset \<Rightarrow> bool" where
  "draugr_valid s B = (case s of (mm, a, e) \<Rightarrow> mmap_ok mm \<and> arena_ok a e (image_mset (\<lambda>(p, n). (p, max 1 n)) B))"

lemma max_one: "(if n = 0 then 1 else n) = max 1 (n :: nat)"
  by simp

interpretation draugr: allocator draugr_get draugr_put draugr_valid
proof
  show "draugr_valid s' (if p = 0 then B else add_mset (p, n) B)" if "draugr_valid s B" "draugr_get n s = (p, s')" for s B n p s'
  proof (cases s)
    case (fields mm a e)
    then show ?thesis using that arena_alloc_ok [of mm a e _ "max 1 n"]
      unfolding draugr_valid_def draugr_get_def DRAUGR_ALLOC_def max_one serves_def by (auto split: prod.splits)
  qed
  show "draugr_valid (draugr_put p n s) B" if "draugr_valid s (add_mset (p, n) B)" for s p n B
  proof (cases s)
    case (fields mm a e)
    obtain a' e' where f: "arena_free p (max 1 n) a e = (a', e')" by (cases "arena_free p (max 1 n) a e")
    show ?thesis using that arena_free_ok(1) [OF _ f] fields f unfolding draugr_valid_def draugr_put_def DRAUGR_FREE_def max_one by simp
  qed
  show "bytes_of b \<inter> bytes_of c = {}" if v: "draugr_valid s (add_mset b (add_mset c B))" for s b c B
  proof (cases s)
    case (fields mm a e)
    let ?f = "\<lambda>(p, n). (p, max 1 n :: nat)"
    have "arena_ok a e (add_mset (?f b) (add_mset (?f c) (image_mset ?f B)))" using v fields by (simp add: draugr_valid_def)
    then have "foot (?f b) \<inter> foot (?f c) = {}" by (rule arena_ok_disjoint) simp
    moreover have "bytes_of x \<subseteq> foot (?f x)" for x using bytes_foot [of "?f x"] by (auto simp: bytes_of_def split: prod.splits)
    ultimately show ?thesis by blast
  qed
qed

section \<open>Segments serve the first fit\<close>

text \<open>
  C20. A segment hands out the first run of free 64-byte slots that holds the request, and exactly these slots become
  used; it refuses only when no run of its 1021 slots is long enough.
\<close>

theorem seg_alloc_first_fit:
  assumes "seg_ok seg" "0 < sz" "seg_alloc seg sz = (p, seg')"
  shows "if \<exists>s. s + slots_for sz \<le> ARENA_SEG_SLOTS \<and> free_run (sg_free_bitmap seg) s (slots_for sz)
    then \<exists>s. p = sg_base seg + 152 + 64 * s \<and> s + slots_for sz \<le> ARENA_SEG_SLOTS \<and> free_run (sg_free_bitmap seg) s (slots_for sz) \<and>
      \<not> (\<exists>r < s. free_run (sg_free_bitmap seg) r (slots_for sz)) \<and>
      (\<forall>i. tbit (sg_free_bitmap seg') i \<longleftrightarrow> tbit (sg_free_bitmap seg) i \<and> \<not> (s \<le> i \<and> i < s + slots_for sz))
    else p = 0 \<and> seg' = seg"
proof -
  have ad: "seg_addr seg s = sg_base seg + 152 + 64 * s" for s by (simp add: seg_addr_def ARENA_SEG_HDR_SIZE_def ARENA_SEG_GRANULARITY_def)
  show ?thesis using seg_alloc_ok [OF assms(1,2)]
  proof
    assume n: "(\<forall>s. s + slots_for sz \<le> ARENA_SEG_SLOTS \<longrightarrow> \<not> free_run (sg_free_bitmap seg) s (slots_for sz)) \<and> seg_alloc seg sz = (0, seg)"
    then have "\<not> (\<exists>s. s + slots_for sz \<le> ARENA_SEG_SLOTS \<and> free_run (sg_free_bitmap seg) s (slots_for sz))" by blast
    then show ?thesis using n assms(3) by simp
  next
    assume "\<exists>s seg'. s + slots_for sz \<le> ARENA_SEG_SLOTS \<and> free_run (sg_free_bitmap seg) s (slots_for sz) \<and>
       (\<forall>r < s. \<not> free_run (sg_free_bitmap seg) r (slots_for sz)) \<and> seg_alloc seg sz = (seg_addr seg s, seg') \<and>
       seg_ok seg' \<and> sg_base seg' = sg_base seg \<and> sg_flags seg' = sg_flags seg \<and>
       sg_control seg' = with_used (sg_control seg) (used_slots (sg_control seg) + word_of_nat (slots_for sz)) \<and>
       (\<forall>i. tbit (sg_free_bitmap seg') i \<longleftrightarrow> tbit (sg_free_bitmap seg) i \<and> \<not> (s \<le> i \<and> i < s + slots_for sz))"
    then obtain s where s: "s + slots_for sz \<le> ARENA_SEG_SLOTS" "free_run (sg_free_bitmap seg) s (slots_for sz)" "\<forall>r < s. \<not> free_run (sg_free_bitmap seg) r (slots_for sz)"
      "p = sg_base seg + 152 + 64 * s" "\<forall>i. tbit (sg_free_bitmap seg') i \<longleftrightarrow> tbit (sg_free_bitmap seg) i \<and> \<not> (s \<le> i \<and> i < s + slots_for sz)"
      using assms(3) ad by auto
    then have "\<exists>s. s + slots_for sz \<le> ARENA_SEG_SLOTS \<and> free_run (sg_free_bitmap seg) s (slots_for sz)" by blast
    then show ?thesis using s by auto
  qed
qed

definition seg0 :: arena_segment where
  "seg0 = \<lparr>sg_base = 4096, sg_control = 0, sg_epoch = 0, sg_freq = ARENA_FREQ_COLD, sg_size_class = 0, sg_flags = 0, sg_free_bitmap = 3 # replicate 15 (-1)\<rparr>"

theorem seg_alloc_first_fit_witness: "seg_ok seg0 \<and> fst (seg_alloc seg0 200) \<noteq> 0"
proof -
  have ok: "seg_ok seg0" by (simp add: seg_ok_def seg0_def seg_numbers)
  have "slots_for 200 = 4" by (simp add: slots_for_def ARENA_SEG_GRANULARITY_def)
  moreover have "free_run (sg_free_bitmap seg0) 64 4" by (auto simp: free_run_def tbit_def seg0_def)
  ultimately have "\<exists>s. s + slots_for 200 \<le> ARENA_SEG_SLOTS \<and> free_run (sg_free_bitmap seg0) s (slots_for 200)" by (intro exI [of _ 64]) (simp add: seg_numbers)
  then show ?thesis using seg_alloc_first_fit [OF ok, of 200 "fst (seg_alloc seg0 200)" "snd (seg_alloc seg0 200)"] ok by auto
qed

text \<open>
  A block that a segment hands out can be given back: the release succeeds and the slots of the segment are free
  as before.
\<close>

lemma seg_alloc_free_roundtrip:
  assumes "seg_ok seg" "0 < sz" "sg_flags seg AND 1 = 0" "seg_alloc seg sz = (p, seg')" "p \<noteq> 0"
  shows "\<exists>seg''. seg_free seg' p sz = (True, seg'') \<and> (\<forall>i. tbit (sg_free_bitmap seg'') i \<longleftrightarrow> tbit (sg_free_bitmap seg) i)"
proof -
  obtain s where s: "s + slots_for sz \<le> ARENA_SEG_SLOTS" "free_run (sg_free_bitmap seg) s (slots_for sz)" "p = seg_addr seg s" "seg_ok seg'" "sg_base seg' = sg_base seg" "sg_flags seg' = sg_flags seg"
    and t: "\<forall>i. tbit (sg_free_bitmap seg') i \<longleftrightarrow> tbit (sg_free_bitmap seg) i \<and> \<not> (s \<le> i \<and> i < s + slots_for sz)"
    using seg_alloc_ok [OF assms(1,2)] assms(4,5) by auto
  have p: "p = seg_addr seg' s" using s(3,5) by (simp add: seg_addr_def)
  have "s < ARENA_SEG_SLOTS" using s(1) slots_for_pos [OF assms(2)] by simp
  then obtain seg'' where f: "seg_free seg' p sz = (True, seg'')" "\<forall>i. tbit (sg_free_bitmap seg'') i \<longleftrightarrow> tbit (sg_free_bitmap seg') i \<or> s \<le> i \<and> i < s + slots_for sz"
    using seg_free_block [OF s(4,1)] assms(3) s(6) p by auto
  have "tbit (sg_free_bitmap seg) i" if "s \<le> i" "i < s + slots_for sz" for i
  proof -
    have "i = s + (i - s)" "i - s < slots_for sz" using that by simp_all
    then show ?thesis using s(2) unfolding free_run_def by metis
  qed
  then show ?thesis using f t by blast
qed

lemma seg_alloc_free_roundtrip_witness: "\<exists>seg''. seg_free (snd (seg_alloc seg0 100)) 4248 100 = (True, seg'') \<and> tbit (sg_free_bitmap seg'') 1"
proof -
  have ok: "seg_ok seg0" "sg_flags seg0 AND 1 = 0" by (simp_all add: seg_ok_def seg0_def seg_numbers)
  have "fst (seg_alloc seg0 100) = 4248" by code_simp
  then have "seg_alloc seg0 100 = (4248, snd (seg_alloc seg0 100))" by (cases "seg_alloc seg0 100") simp
  moreover have "tbit (sg_free_bitmap seg0) 1" by (simp add: tbit_def seg0_def bit_numeral_rec)
  ultimately show ?thesis using seg_alloc_free_roundtrip [OF ok(1) _ ok(2), of 100 4248] by fastforce
qed

lemma nonfull_table:
  "(let mask = (if a then 0xFF else 0) OR (if b then 0xFF00 else 0) OR (if c then 0xFF0000 else 0) OR (if d then 0xFF000000 else 0 :: u32)
    in if mask = 0xFFFFFFFF then None else Some (builtin_ctz (NOT mask) div 8)) =
   (if a then if b then if c then if d then None else Some 3 else Some 2 else Some 1 else Some 0)"
  by (induction a; induction b; induction c; induction d; code_simp)

text \<open>
  The portable and the vector build of \<open>bitmap_find_nonfull_word\<close> return the same word.
\<close>

lemma bitmap_find_nonfull_word_agree: "bitmap_find_nonfull_word_avx2 bitmap = bitmap_find_nonfull_word bitmap"
proof -
  have "\<exists>a b c d. a = (bitmap ! 0 = -1) \<and> b = (bitmap ! 1 = -1) \<and> c = (bitmap ! 2 = -1) \<and> d = (bitmap ! 3 = -1)" by blast
  then obtain a b c d where v: "(bitmap ! 0 = -1) = a" "(bitmap ! 1 = -1) = b" "(bitmap ! 2 = -1) = c" "(bitmap ! 3 = -1) = d" by blast
  have l: "[0..<4] = [0, 1, 2, 3 :: nat]" by (simp add: upt_rec)
  have w: "push_bit (8 * 0) 0xFF = (0xFF :: u32)" "push_bit (8 * 1) 0xFF = (0xFF00 :: u32)" "push_bit (8 * 2) 0xFF = (0xFF0000 :: u32)" "push_bit (8 * 3) 0xFF = (0xFF000000 :: u32)"
    by (simp_all add: push_bit_eq_mult)
  have "bitmap_find_nonfull_word bitmap = (if a then if b then if c then if d then None else Some 3 else Some 2 else Some 1 else Some 0)"
    unfolding bitmap_find_nonfull_word_def l by (simp add: v v(2) [unfolded One_nat_def])
  moreover have "bitmap_find_nonfull_word_avx2 bitmap =
      (let mask = (if a then 0xFF else 0) OR (if b then 0xFF00 else 0) OR (if c then 0xFF0000 else 0) OR (if d then 0xFF000000 else 0 :: u32)
       in if mask = 0xFFFFFFFF then None else Some (builtin_ctz (NOT mask) div 8))"
    unfolding bitmap_find_nonfull_word_avx2_def Let_def w v by (rule refl)
  ultimately show ?thesis by (simp only: nonfull_table)
qed

end
