(* ===== verification/Arena_Props.thy ===== *)
theory Arena_Props
  imports Arena_Spec
begin

text \<open>
  The properties of the arena allocator over the states a program reaches, and what its caches and its compaction
  really do.
\<close>

unbundle bit_operations_syntax

section \<open>A kernel\<close>

text \<open>A kernel that has no huge pages and maps every region above the others.\<close>

definition bump_mmap :: mmap_fn where
  "bump_mmap huge rs len = (if huge then None else Some (fold (\<lambda>r m. max m (fst r + snd r)) rs 4096))"

lemma bump_ge: "m \<le> fold (\<lambda>r m. max m (fst r + snd r)) rs (m :: nat)" "r \<in> set rs \<Longrightarrow> fst r + snd r \<le> fold (\<lambda>r m. max m (fst r + snd r)) rs m"
proof (induction rs arbitrary: m)
  case (Cons q rs)
  case 1
  show ?case using Cons.IH(1) [of "max m (fst q + snd q)"] by simp
  case 2
  then show ?case using Cons.IH [of "max m (fst q + snd q)"] by auto
qed simp_all

lemma bump_mmap_ok: "mmap_ok bump_mmap"
proof -
  have "0 < fold (\<lambda>r m. max m (fst r + snd r)) rs (4096 :: nat)" for rs :: "(nat \<times> nat) list" using bump_ge(1) [of 4096 rs] by simp
  then show ?thesis using bump_ge(2) unfolding mmap_ok_def bump_mmap_def apart_def by auto
qed

definition env0 :: arena_env where
  "env0 = \<lparr>en_tcache = None, en_sys = [], en_sys_cap = 0, en_slab_color = 0, en_mem = (\<lambda>_. 0), en_regions = [], en_allocs = []\<rparr>"

text \<open>When the C library always has memory, creation succeeds.\<close>

lemma do_alloc_yes: "en_allocs e = [] \<Longrightarrow> do_alloc e = (True, e)"
  by (simp add: do_alloc_def take_alloc_def)

lemma create_warm_yes: "en_allocs e = [] \<Longrightarrow> \<exists>ws. create_warm n e = (ws, e) \<and> length ws = n"
  by (induction n) (auto simp: do_alloc_yes)

lemma seg_create_allocs: "seg_create mm f sc e = (s, e') \<Longrightarrow> en_allocs e' = en_allocs e"
  by (auto simp: seg_create_def map_region_def do_mmap_def split: option.splits prod.splits)

lemma create_segs_allocs: "create_segs mm sc n e = (ss, e') \<Longrightarrow> en_allocs e' = en_allocs e"
  by (induction n arbitrary: e ss) (auto dest: seg_create_allocs split: prod.splits)

lemma create_cold_yes: "en_allocs e = [] \<Longrightarrow> \<exists>css e'. create_cold mm scs e = (css, e') \<and> length css = length scs \<and> en_allocs e' = []"
proof (induction scs arbitrary: e)
  case (Cons sc scs)
  obtain segs e1 where s: "create_segs mm sc ARENA_COLD_SEGS_PER_CLASS e = (segs, e1)" by (cases "create_segs mm sc ARENA_COLD_SEGS_PER_CLASS e")
  then obtain css e2 where "create_cold mm scs e1 = (css, e2)" "length css = length scs" "en_allocs e2 = []"
    using Cons.IH [of e1] create_segs_allocs [OF s] Cons.prems by auto
  then show ?case using s Cons.prems by (simp add: do_alloc_yes)
qed simp

lemma arena_create_yes:
  assumes "en_allocs e = []"
  shows "\<exists>a e'. arena_create mm e = (Some a, e')"
proof -
  obtain ws where w: "create_warm ARENA_SLAB_SIZES e = (ws, e)" "length ws = ARENA_SLAB_SIZES" using create_warm_yes [OF assms] by blast
  obtain css e1 where c: "create_cold mm [0..<ARENA_SLAB_SIZES] e = (css, e1)" "length css = ARENA_SLAB_SIZES" "en_allocs e1 = []"
    using create_cold_yes [OF assms, of mm "[0..<ARENA_SLAB_SIZES]"] by auto
  show ?thesis using w c assms by (simp add: arena_create_def do_alloc_yes Let_def)
qed

section \<open>Allocation succeeds\<close>

definition mmap_serves :: "mmap_fn \<Rightarrow> bool" where
  "mmap_serves mm \<longleftrightarrow> (\<forall>rs len. mm False rs len \<noteq> None)"

lemma large_alloc_serves:
  assumes "mmap_ok mm" "mmap_serves mm" "0 < sz"
  shows "fst (large_alloc mm sz a e) \<noteq> 0"
proof -
  obtain p where p: "mm False (en_regions e) sz = Some p" using assms(2) unfolding mmap_serves_def by blast
  then have "0 < p" using assms(1,3) unfolding mmap_ok_def by blast
  then show ?thesis using p by (simp add: large_alloc_def sys_alloc_def do_mmap_def)
qed

lemma medium_alloc_serves: "mmap_ok mm \<Longrightarrow> mmap_serves mm \<Longrightarrow> 0 < sz \<Longrightarrow> fst (medium_alloc mm sz a e) \<noteq> 0"
  using large_alloc_serves by (simp add: medium_alloc_def split: prod.splits)

lemma alloc_serves: "mmap_ok mm \<Longrightarrow> mmap_serves mm \<Longrightarrow> 0 < sz \<Longrightarrow> fst (arena_alloc mm sz a e) \<noteq> 0"
  using medium_alloc_serves by (simp add: arena_alloc_def small_alloc_def Let_def split: prod.splits)

text \<open>
  C19. As long as the kernel maps regions, an allocation of at least one byte succeeds, whatever the state of the arena:
  the large-block tier backs the others.
\<close>

theorem arena_alloc_succeeds:
  assumes "mmap_ok mm" "\<forall>rs len. mm False rs len \<noteq> None" "0 < sz"
  shows "fst (arena_alloc mm sz a e) \<noteq> 0 \<and> fst (DRAUGR_ALLOC mm 0 a e) \<noteq> 0"
  using alloc_serves [OF assms(1)] assms(2,3) by (simp add: DRAUGR_ALLOC_def mmap_serves_def)

theorem arena_alloc_succeeds_witness: "fst (arena_alloc bump_mmap 200 blank_arena env0) \<noteq> 0"
  using arena_alloc_succeeds [OF bump_mmap_ok, of 200 blank_arena env0] by (simp add: bump_mmap_def)

text \<open>A program that holds two blocks.\<close>

lemma bump_serves: "mmap_serves bump_mmap"
  by (simp add: mmap_serves_def bump_mmap_def)

lemma two_blocks: "\<exists>a e p q. heap_reach bump_mmap (a, e, {#(p, 200), (q, 5000)#}) \<and> p \<noteq> 0 \<and> q \<noteq> 0"
proof -
  obtain a e where "arena_create bump_mmap env0 = (Some a, e)" using arena_create_yes [of env0 bump_mmap] by (auto simp: env0_def)
  then have r0: "heap_reach bump_mmap (a, e, {#})" by (intro heap_reach.created [of env0]) (simp_all add: fresh_env_def env0_def)
  obtain q a1 e1 where q: "arena_alloc bump_mmap 5000 a e = (q, a1, e1)" by (cases "arena_alloc bump_mmap 5000 a e")
  then have "q \<noteq> 0" using alloc_serves [OF bump_mmap_ok bump_serves, of 5000 a e] by simp
  then have r1: "heap_reach bump_mmap (a1, e1, {#(q, 5000)#})" using heap_reach.stepped [OF r0 heap_step.allocate [OF q]] by simp
  obtain p a2 e2 where p: "arena_alloc bump_mmap 200 a1 e1 = (p, a2, e2)" by (cases "arena_alloc bump_mmap 200 a1 e1")
  then have "p \<noteq> 0" using alloc_serves [OF bump_mmap_ok bump_serves, of 200 a1 e1] by simp
  then have "heap_reach bump_mmap (a2, e2, {#(p, 200), (q, 5000)#})" using heap_reach.stepped [OF r1 heap_step.allocate [OF p]] by simp
  then show ?thesis using \<open>p \<noteq> 0\<close> \<open>q \<noteq> 0\<close> by blast
qed

section \<open>Blocks do not overlap\<close>

lemma arena_ok_apart:
  assumes "arena_ok a e (add_mset (p, n) L)" "(q, m) \<in># L"
  shows "p + n \<le> q \<or> q + m \<le> p"
proof (rule ccontr)
  assume "\<not> (p + n \<le> q \<or> q + m \<le> p)"
  moreover have "0 < n" "0 < m" using arena_ok_pos [OF assms(1)] assms(2) by auto
  ultimately have "max p q \<in> bytes_of (p, n)" "max p q \<in> bytes_of (q, m)" by (auto simp: bytes_of_def)
  then show False using arena_ok_disjoint [OF assms] bytes_foot by blast
qed

lemma arena_ok_inside:
  assumes "arena_ok a e L" "(p, n) \<in># L"
  shows "0 < n" "\<exists>r \<in> set (en_regions e). fst r \<le> p \<and> p + n \<le> fst r + snd r" "p \<noteq> 0"
    "cold_at (ar_cold a) ji = Some s \<Longrightarrow> p + n \<le> sg_base s \<or> sg_base s + ARENA_SEG_HDR_SIZE \<le> p"
proof -
  show n: "0 < n" by (rule arena_ok_pos [OF assms])
  note b = arena_okD(4) [OF assms(1)]
  note c = blocks_okD(1) [OF b]
  have pl: "placed (ar_cold a) (en_regions e) (p, n)" using blocks_okD(2) [OF b] assms(2) by simp
  obtain r where r: "r \<in> set (en_regions e)" "foot (p, n) \<subseteq> range_of r" using placed_in_region [OF c pl] by blast
  have "p \<in> bytes_of (p, n)" "p + n - 1 \<in> bytes_of (p, n)" using n by (auto simp: bytes_of_def)
  then have "p \<in> range_of r" "p + n - 1 \<in> range_of r" using r(2) bytes_foot [of "(p, n)"] by blast+
  then have i: "fst r \<le> p \<and> p + n \<le> fst r + snd r" using n by (auto simp: range_of_def)
  then show "\<exists>r \<in> set (en_regions e). fst r \<le> p \<and> p + n \<le> fst r + snd r" using r(1) by blast
  show "p \<noteq> 0" using i regions_pos [OF cold_okD(1) [OF c] r(1)] by simp
  show "p + n \<le> sg_base s \<or> sg_base s + ARENA_SEG_HDR_SIZE \<le> p" if s: "cold_at (ar_cold a) ji = Some s"
  proof (cases "\<exists>x. x \<in> foot (p, n) \<and> x \<in> range_of (sg_base s, ARENA_SEG_SIZE)")
    case True
    then have "in_seg s (p, n)" using block_of_seg [OF c pl s] by blast
    then show ?thesis by (auto simp: in_seg_def seg_addr_def)
  next
    case False
    then have "x \<notin> range_of (sg_base s, ARENA_SEG_SIZE)" if "x \<in> bytes_of (p, n)" for x using that bytes_foot [of "(p, n)"] by blast
    note out = this
    have "p \<notin> range_of (sg_base s, ARENA_SEG_SIZE)" "\<not> (p < sg_base s \<and> sg_base s < p + n)"
      using out [of p] out [of "sg_base s"] n by (auto simp: bytes_of_def range_of_def ARENA_SEG_SIZE_def)
    then show ?thesis by (auto simp: range_of_def ARENA_SEG_SIZE_def ARENA_SEG_HDR_SIZE_def)
  qed
qed

text \<open>
  C16. Take a program that releases only blocks it holds, with their sizes, writes only to its blocks, and does not call
  \<open>arena_clear\<close> while releases are deferred; the arena checks none of this, and after a clear with deferred releases
  a flush would free slots that are in use again. In every state such a program reaches with the operations of the arena,
  each block it holds lies in a region the kernel has mapped, outside the headers of the segments, and no two of its
  blocks overlap.
\<close>

theorem arena_blocks_safe:
  assumes "mmap_ok mm" "heap_reach mm (a, e, add_mset (p, n) L)"
  shows "p \<noteq> 0 \<and> (\<exists>r \<in> set (en_regions e). fst r \<le> p \<and> p + n \<le> fst r + snd r) \<and>
    (\<forall>segs seg. segs \<in> set (ar_cold a) \<longrightarrow> Some seg \<in> set segs \<longrightarrow> p + n \<le> sg_base seg \<or> sg_base seg + ARENA_SEG_HDR_SIZE \<le> p) \<and>
    (\<forall>q m. (q, m) \<in># L \<longrightarrow> p + n \<le> q \<or> q + m \<le> p)"
proof -
  have ok: "arena_ok a e (add_mset (p, n) L)" by (rule reach_arena_ok [OF assms])
  have "\<exists>ji. cold_at (ar_cold a) ji = Some seg" if "segs \<in> set (ar_cold a)" "Some seg \<in> set segs" for segs seg
    using that cold_in_list by (metis in_set_conv_nth)
  then show ?thesis using arena_ok_inside [OF ok, of p n] arena_ok_apart [OF ok] by (metis union_single_eq_member add_mset_add_single union_commute)
qed

theorem arena_blocks_safe_witness:
  "\<exists>a e p q. heap_reach bump_mmap (a, e, {#(p, 200), (q, 5000)#}) \<and> p \<noteq> 0 \<and> (p + 200 \<le> q \<or> q + 5000 \<le> p)"
proof -
  obtain a e p q where r: "heap_reach bump_mmap (a, e, {#(p, 200), (q, 5000)#})" using two_blocks by blast
  have "p \<noteq> 0 \<and> (p + 200 \<le> q \<or> q + 5000 \<le> p)" using arena_blocks_safe [OF bump_mmap_ok r] by simp
  then show ?thesis using r by blast
qed

text \<open>
  C18. A program that takes blocks with \<open>DRAUGR_ALLOC\<close> from a new arena and gives them back with \<open>DRAUGR_FREE\<close>, in any
  order, never holds two blocks that share a byte.
\<close>

theorem draugr_blocks_disjoint:
  assumes "mmap_ok mm" "fresh_env e" "arena_create mm e = (Some a, e')" "run_cmds draugr_get draugr_put cs (mm, a, e') [] = (s, bs)" "i < j" "j < length bs"
  shows "bytes_of (bs ! i) \<inter> bytes_of (bs ! j) = {}"
proof -
  have "arena_ok a e' {#}" by (rule arena_create_ok(1) [OF assms(1) _ _ _ assms(3)]) (use fresh_env_ok [OF assms(2)] in blast)+
  then have "draugr_valid (mm, a, e') {#}" using assms(1) by (simp add: draugr_valid_def)
  then show ?thesis by (rule draugr.run_apart [OF _ assms(4-6)])
qed

theorem draugr_blocks_disjoint_witness:
  "\<exists>a e s bs. arena_create bump_mmap env0 = (Some a, e) \<and> run_cmds draugr_get draugr_put [Get 10, Get 300] (bump_mmap, a, e) [] = (s, bs) \<and>
     length bs = 2 \<and> bytes_of (bs ! 0) \<inter> bytes_of (bs ! 1) = {}"
proof -
  obtain a e where c: "arena_create bump_mmap env0 = (Some a, e)" using arena_create_yes [of env0 bump_mmap] by (auto simp: env0_def)
  have f: "fresh_env env0" by (simp add: fresh_env_def env0_def)
  obtain p a1 e1 where p: "arena_alloc bump_mmap 10 a e = (p, a1, e1)" by (cases "arena_alloc bump_mmap 10 a e")
  obtain q a2 e2 where q: "arena_alloc bump_mmap 300 a1 e1 = (q, a2, e2)" by (cases "arena_alloc bump_mmap 300 a1 e1")
  have "p \<noteq> 0" "q \<noteq> 0" using alloc_serves [OF bump_mmap_ok bump_serves, of 10 a e] alloc_serves [OF bump_mmap_ok bump_serves, of 300 a1 e1] p q by simp_all
  then have r: "run_cmds draugr_get draugr_put [Get 10, Get 300] (bump_mmap, a, e) [] = ((bump_mmap, a2, e2), [(q, 300), (p, 10)])"
    using p q by (simp add: draugr_get_def DRAUGR_ALLOC_def)
  have "bytes_of ([(q, 300), (p, 10)] ! 0) \<inter> bytes_of ([(q, 300), (p, 10)] ! 1) = {}" by (rule draugr_blocks_disjoint [OF bump_mmap_ok f c r]) simp_all
  then show ?thesis using c r by (intro exI [of _ a] exI [of _ e] exI [of _ "(bump_mmap, a2, e2)"] exI [of _ "[(q, 300), (p, 10)]"]) simp
qed

section \<open>Reallocation\<close>

text \<open>
  C17. \<open>arena_realloc\<close> of a block the program holds keeps the bytes the old and the new block have in common and leaves
  every byte of the program's other blocks as it was.
\<close>

theorem arena_realloc_keeps_bytes:
  assumes "mmap_ok mm" "heap_reach mm (a, e, add_mset (p, old) L)" "0 < new" "arena_realloc mm p old new a e = (q, a', e')" "q \<noteq> 0"
  shows "(\<forall>i < min old new. en_mem e' (q + i) = en_mem e (p + i)) \<and> (\<forall>r m i. (r, m) \<in># L \<and> i < m \<longrightarrow> en_mem e' (r + i) = en_mem e (r + i))"
proof -
  have ok: "arena_ok a e (add_mset (p, old) L)" by (rule reach_arena_ok [OF assms(1,2)])
  have p: "p \<noteq> 0" using arena_ok_inside(3) [OF ok, of p old] by simp
  have in_l: "p = 0 \<or> (p, old) \<in># add_mset (p, old) L" by simp
  note re = arena_realloc_ok [OF assms(1) ok in_l assms(4)]
  show ?thesis
  proof (cases "q = p")
    case True
    then show ?thesis using re(3) by simp
  next
    case False
    have m: "en_mem e' = (\<lambda>x. if q \<le> x \<and> x < q + min old new then en_mem e (p + (x - q)) else en_mem e x)" using re(2) p assms(3,5) False by simp
    have ok': "arena_ok a' e' (add_mset (q, new) L)" using re(1) p assms(3,5) by (simp add: after_realloc_def)
    have "en_mem e' (r + i) = en_mem e (r + i)" if "(r, n) \<in># L" "i < n" for r n i
    proof -
      have "q + new \<le> r \<or> r + n \<le> q" using arena_ok_apart [OF ok' that(1)] .
      then show ?thesis using that(2) unfolding m by auto
    qed
    moreover have "en_mem e' (q + i) = en_mem e (p + i)" if "i < min old new" for i using that by (simp add: m)
    ultimately show ?thesis by blast
  qed
qed

theorem arena_realloc_keeps_bytes_witness:
  "\<exists>a e p q r a' e'. heap_reach bump_mmap (a, e, {#(p, 200), (q, 5000)#}) \<and> arena_realloc bump_mmap p 200 7000 a e = (r, a', e') \<and> r \<noteq> 0 \<and>
     en_mem e' (r + 199) = en_mem e (p + 199) \<and> en_mem e' (q + 4999) = en_mem e (q + 4999)"
proof -
  obtain a e p q where h: "heap_reach bump_mmap (a, e, {#(p, 200), (q, 5000)#})" "p \<noteq> 0" using two_blocks by blast
  obtain r a' e' where r: "arena_realloc bump_mmap p 200 7000 a e = (r, a', e')" by (cases "arena_realloc bump_mmap p 200 7000 a e")
  have nz: "r \<noteq> 0" using r alloc_serves [OF bump_mmap_ok bump_serves, of 7000 a e] h(2) by (auto simp: arena_realloc_def split: prod.splits if_splits)
  show ?thesis using arena_realloc_keeps_bytes [OF bump_mmap_ok h(1) _ r nz] h(1) r nz
    by (intro exI [of _ a] exI [of _ e] exI [of _ p] exI [of _ q] exI [of _ r] exI [of _ a'] exI [of _ e']) simp
qed

section \<open>What the tiers really do\<close>

text \<open>
  C21. The slabs of the warm tier never hand out a block and never take one back, in any state a program reaches: a new
  slab has every bit of its bitmap set, which the scan reads as full and the release as free.
\<close>

theorem arena_warm_tier_never_serves:
  assumes "mmap_ok mm" "heap_reach mm (a, e, L)" "sc < ARENA_SLAB_SIZES"
  shows "fst (slab_set_alloc mm (ar_warm a ! sc) sc e) = 0 \<and> \<not> fst (slab_set_free (ar_warm a ! sc) p)"
proof -
  have ok: "arena_ok a e L" by (rule reach_arena_ok [OF assms(1,2)])
  have sc: "sc < 8" using assms(3) by (simp add: ARENA_SLAB_SIZES_def)
  then have "set_idle (ar_warm a ! sc)" using arena_okD(1) [OF ok] by (simp add: warm_idle_def)
  then show ?thesis using idle_set_alloc [OF _ assms(1) arena_okD(5) [OF ok] sc] idle_set_free by fastforce
qed

theorem arena_warm_tier_never_serves_witness:
  "\<exists>a e L. heap_reach bump_mmap (a, e, L) \<and> fst (slab_set_alloc bump_mmap (ar_warm a ! 3) 3 e) = 0"
proof -
  obtain a e p q where h: "heap_reach bump_mmap (a, e, {#(p, 200), (q, 5000)#})" using two_blocks by blast
  show ?thesis using arena_warm_tier_never_serves [OF bump_mmap_ok h, of 3 0] h by (auto simp: ARENA_SLAB_SIZES_def)
qed

text \<open>
  The cache of the thread belongs to no arena: a small block that one arena releases is what the next allocation of
  its class returns, whichever arena it is asked of.
\<close>

lemma arena_cache_crosses_arenas:
  assumes "ar_enable_thread_cache a" "ar_enable_thread_cache b" "p \<noteq> 0" "0 < n" "n \<le> 128" "0 < m" "m \<le> 128" "size_to_slab_class m = size_to_slab_class n"
    "en_tcache e = Some bins" "length bins = 8" "length (bins ! size_to_slab_class n) < ARENA_TCACHE_DEPTH"
  shows "fst (arena_alloc mm m b (snd (arena_free p n a e))) = p"
proof -
  let ?sc = "size_to_slab_class n"
  have sc: "?sc < 8" by (rule class_lt)
  have f: "arena_free p n a e = (a, e\<lparr>en_tcache := Some (bins[?sc := p # bins ! ?sc])\<rparr>)"
    using assms sc by (simp add: arena_free_def tcache_get_def tcache_put_def tcache_bins_def ARENA_SLAB_SIZES_def Let_def)
  have t: "ar_enable_thread_cache (tune m b)" using assms(2) by (simp add: tune_def tuner_adapt_def Let_def)
  show ?thesis unfolding f using assms sc t
    by (simp add: arena_alloc_def small_alloc_def tcache_try_get_def tcache_get_def tcache_bins_def ARENA_SLAB_SIZES_def Let_def)
qed

lemma arena_cache_crosses_arenas_witness:
  "fst (arena_alloc bump_mmap 60 blank_arena (snd (arena_free 9000 50 blank_arena (env0\<lparr>en_tcache := Some (replicate 8 [])\<rparr>)))) = 9000"
  by (rule arena_cache_crosses_arenas [where bins = "replicate 8 []"])
    (simp_all add: blank_arena_def size_to_slab_class_def g_slab_sizes_def ARENA_SLAB_SIZES_def ARENA_TCACHE_DEPTH_def)

text \<open>
  Once \<open>arena_compact\<close> has flagged the first segment, releasing a block of 129 to 4096 bytes does nothing: the
  flagged segment accepts every address as its own.
\<close>

lemma arena_free_lost_after_compact:
  assumes "ar_cold a = (Some seg # segs) # css" "ARENA_SEG_SLOTS * unat (ar_compact_trigger a) < unat (used_slots (sg_control seg)) * 100"
    "p \<noteq> 0" "128 < sz" "sz \<le> 4096"
  shows "arena_free p sz (arena_compact ARENA_FREQ_COLD a) e = (arena_compact ARENA_FREQ_COLD a, e)"
proof -
  define c where "c = arena_compact ARENA_FREQ_COLD a"
  let ?seg = "seg\<lparr>sg_flags := sg_flags seg OR 1, sg_epoch := ar_global_epoch a + 1\<rparr>"
  obtain segs' css' where c: "ar_cold c = (Some ?seg # segs') # css'"
    using assms(1,2) by (simp add: c_def arena_compact_def epoch_gc_start_def Let_def gc_mark_def)
  have "sg_flags ?seg AND 1 \<noteq> 0"
  proof
    assume "sg_flags ?seg AND 1 = 0"
    then have "\<not> bit (sg_flags ?seg AND 1) 0" by simp
    then show False by (simp add: bit_simps)
  qed
  then have "cold_free (ar_cold c) p sz = (True, ar_cold c)" using seg_free_flagged [OF assms(3), of ?seg sz] c by simp
  then show ?thesis unfolding c_def [symmetric] using assms(3-5) by (simp add: arena_free_def medium_free_def)
qed

lemma arena_free_lost_after_compact_witness:
  "let a = blank_arena\<lparr>ar_cold := [[Some (seg0\<lparr>sg_control := push_bit 48 600\<rparr>)]]\<rparr>
   in arena_free 70000 1000 (arena_compact ARENA_FREQ_COLD a) env0 = (arena_compact ARENA_FREQ_COLD a, env0)"
proof -
  let ?seg = "seg0\<lparr>sg_control := push_bit 48 600\<rparr>" and ?a = "blank_arena\<lparr>ar_cold := [[Some (seg0\<lparr>sg_control := push_bit 48 600\<rparr>)]]\<rparr>"
  have "used_slots (push_bit 48 600) = 600" by code_simp
  then have "ARENA_SEG_SLOTS * unat (ar_compact_trigger ?a) < unat (used_slots (sg_control ?seg)) * 100" by (simp add: seg_numbers blank_arena_def)
  then have "arena_free 70000 1000 (arena_compact ARENA_FREQ_COLD ?a) env0 = (arena_compact ARENA_FREQ_COLD ?a, env0)"
    by (intro arena_free_lost_after_compact [where seg = ?seg and segs = "[]" and css = "[]"]) simp_all
  then show ?thesis by (simp only: Let_def)
qed

end
